(* ===== verification/Prelude.thy ===== *)
theory Prelude
  imports Main "HOL-Library.Word" "HOL-Library.Multiset" "HOL-Library.AList"
begin

text \<open>
  Shared vocabulary of the development: Go's fixed-width unsigned integers, byte slices and the
  little-endian encoding of \<^verbatim>\<open>encoding/binary\<close>, with the lemmas the components use on them.

  A \<^verbatim>\<open>uint64\<close> (or \<^verbatim>\<open>uint32\<close>, \<^verbatim>\<open>uint16\<close>) is a natural number below the power of two of its
  width; the operations that can wrap write the reduction out (\<open>add64\<close>, \<open>sub64\<close>, \<open>mul64\<close>).
  A \<^verbatim>\<open>byte\<close> is an 8-bit word and a \<^verbatim>\<open>[]byte\<close> a list of them.
\<close>

type_synonym byte = "8 word"
type_synonym bytes = "byte list"

named_theorems bytes_simps \<open>slices, blits and little-endian encodings\<close>
named_theorems u64_simps \<open>wrapping arithmetic where nothing wraps\<close>

section \<open>Unsigned 64-bit arithmetic\<close>

definition add64 :: "nat \<Rightarrow> nat \<Rightarrow> nat" where
  "add64 a b = (a + b) mod 2 ^ 64"

definition mul64 :: "nat \<Rightarrow> nat \<Rightarrow> nat" where
  "mul64 a b = (a * b) mod 2 ^ 64"

definition sub64 :: "nat \<Rightarrow> nat \<Rightarrow> nat" where
  "sub64 a b = (if b \<le> a then a - b else a + 2 ^ 64 - b)"

lemma add64_exact [u64_simps]: "a + b < 2 ^ 64 \<Longrightarrow> add64 a b = a + b"
  by (simp add: add64_def)

lemma mul64_exact [u64_simps]: "a * b < 2 ^ 64 \<Longrightarrow> mul64 a b = a * b"
  by (simp add: mul64_def)

lemma sub64_exact [u64_simps]: "b \<le> a \<Longrightarrow> sub64 a b = a - b"
  by (simp add: sub64_def)

lemma add64_less [simp]: "add64 a b < 2 ^ 64"
  by (simp add: add64_def)

text \<open>The overflow test \<^verbatim>\<open>end < start\<close> of the sources detects exactly the sums that wrap.\<close>

lemma add64_wrap_iff:
  assumes "a < 2 ^ 64" "b < 2 ^ 64"
  shows "add64 a b < a \<longleftrightarrow> 2 ^ 64 \<le> a + b"
proof (cases "a + b < 2 ^ 64")
  case True
  then show ?thesis by (simp add: add64_def)
next
  case False
  then have "2 ^ 64 \<le> a + b" by simp
  moreover have "a + b - 2 ^ 64 < 2 ^ 64" using assms by simp
  ultimately have "add64 a b = a + b - 2 ^ 64"
    unfolding add64_def by (metis le_mod_geq mod_less)
  then show ?thesis using assms False by simp
qed

section \<open>Signed 64-bit arithmetic\<close>

text \<open>An \<^verbatim>\<open>int64\<close> is an integer in its range; a sum that leaves the range wraps.\<close>

definition wrap_int64 :: "int \<Rightarrow> int" where
  "wrap_int64 x = (x + 2 ^ 63) mod 2 ^ 64 - 2 ^ 63"

definition is_int64 :: "int \<Rightarrow> bool" where
  "is_int64 x \<longleftrightarrow> - (2 ^ 63) \<le> x \<and> x < 2 ^ 63"

lemma wrap_exact: "is_int64 x \<Longrightarrow> wrap_int64 x = x"
  by (simp add: is_int64_def wrap_int64_def)

text \<open>Go's division by a positive divisor rounds toward zero.\<close>

definition go_div :: "int \<Rightarrow> int \<Rightarrow> int" where
  "go_div a b = (if a < 0 then - ((- a) div b) else a div b)"

section \<open>Slices and in-place writes\<close>

text \<open>\<open>bslice i j b\<close> is \<^verbatim>\<open>b[i:j]\<close>; \<open>blit off src b\<close> is \<open>b\<close> after \<^verbatim>\<open>copy(b[off:], src)\<close>, which
  stops at the end of the destination.\<close>

definition bslice :: "nat \<Rightarrow> nat \<Rightarrow> 'a list \<Rightarrow> 'a list" where
  "bslice i j b = take (j - i) (drop i b)"

definition blit :: "nat \<Rightarrow> 'a list \<Rightarrow> 'a list \<Rightarrow> 'a list" where
  "blit off src b = take off b @ take (length b - off) src @ drop (off + length src) b"

lemma length_bslice [simp]: "length (bslice i j b) = min (j - i) (length b - i)"
  by (simp add: bslice_def)

lemma length_blit [simp]: "length (blit off src b) = length b"
  by (auto simp: blit_def min_def)

lemma nth_slice: "k < j - i \<Longrightarrow> i + k < length b \<Longrightarrow> bslice i j b ! k = b ! (i + k)"
  by (simp add: bslice_def)

lemma nth_blit:
  assumes "off + length src \<le> length b" "k < length b"
  shows "blit off src b ! k = (if off \<le> k \<and> k < off + length src then src ! (k - off) else b ! k)"
  using assms by (auto simp: blit_def nth_append min_def)

lemma slice_blit_same [bytes_simps]:
  "off + length src \<le> length b \<Longrightarrow> j = off + length src \<Longrightarrow> bslice off j (blit off src b) = src"
  by (simp add: bslice_def blit_def)

lemma slice_blit_other [bytes_simps]:
  assumes "off + length src \<le> length b" "j \<le> off \<or> off + length src \<le> i"
  shows "bslice i j (blit off src b) = bslice i j b"
proof (rule nth_equalityI)
  show "length (bslice i j (blit off src b)) = length (bslice i j b)"
    using assms by simp
  fix k assume "k < length (bslice i j (blit off src b))"
  then have "k < j - i" "i + k < length b" using assms(1) by auto
  then show "bslice i j (blit off src b) ! k = bslice i j b ! k"
    using assms by (auto simp: nth_slice nth_blit)
qed

lemma nth_blit_other [bytes_simps]:
  "off + length src \<le> length b \<Longrightarrow> k < length b \<Longrightarrow> k < off \<or> off + length src \<le> k \<Longrightarrow>
     blit off src b ! k = b ! k"
  by (auto simp: nth_blit)

lemma nth_blit_single [bytes_simps]:
  "off < length b \<Longrightarrow> blit off [x] b ! off = x"
  by (simp add: nth_blit)

lemma take_blit_prefix: "n \<le> off \<Longrightarrow> off \<le> length b \<Longrightarrow> take n (blit off src b) = take n b"
  by (simp add: blit_def)

lemma slice_0 [simp]: "bslice 0 n b = take n b"
  by (simp add: bslice_def)

lemma slice_empty [simp]: "j \<le> i \<Longrightarrow> bslice i j b = []"
  by (simp add: bslice_def)

lemma slice_append_left: "j \<le> length xs \<Longrightarrow> bslice i j (xs @ ys) = bslice i j xs"
  by (simp add: bslice_def)

lemma slice_append_right: "length xs \<le> i \<Longrightarrow> bslice i j (xs @ ys) = bslice (i - length xs) (j - length xs) ys"
  by (auto simp: bslice_def intro: arg_cong2 [where f = take])

lemma slice_drop: "bslice i j (drop n b) = bslice (n + i) (n + j) b"
  by (simp add: bslice_def add.commute)

lemma slice_take: "j \<le> n \<Longrightarrow> bslice i j (take n b) = bslice i j b"
  by (simp add: bslice_def drop_take min_absorb1)

lemma slice_full: "length b = n \<Longrightarrow> bslice 0 n b = b"
  by simp

lemma bslice_sub: "s \<le> i \<Longrightarrow> j \<le> t \<Longrightarrow> bslice i j x = bslice (i - s) (j - s) (bslice s t x)"
  by (simp add: bslice_def drop_take min_def)

lemma bslice_join: "i \<le> j \<Longrightarrow> j \<le> k \<Longrightarrow> bslice i j b @ bslice j k b = bslice i k b"
  using take_add [of "j - i" "k - j" "drop i b"] by (simp add: bslice_def)

lemma upt_split: "i \<le> j \<Longrightarrow> j \<le> k \<Longrightarrow> [i..<j] @ [j..<k] = [i..<k]"
  by (metis le_add_diff_inverse upt_add_eq_append)

section \<open>Files as functions from offsets to bytes\<close>

definition put_bytes :: "nat \<Rightarrow> bytes \<Rightarrow> (nat \<Rightarrow> byte) \<Rightarrow> nat \<Rightarrow> byte" where
  "put_bytes off p f i = (if off \<le> i \<and> i < off + length p then p ! (i - off) else f i)"

lemma put_bytes_Nil [simp]: "put_bytes off [] f = f"
  by (rule ext) (auto simp: put_bytes_def)

lemma put_bytes_split:
  "n \<le> length p \<Longrightarrow> put_bytes (off + n) (take k (drop n p)) (put_bytes off (take n p) f) = put_bytes off (take (n + k) p) f"
  by (rule ext) (auto simp: put_bytes_def)

definition cut_bytes :: "nat \<Rightarrow> (nat \<Rightarrow> byte) \<Rightarrow> nat \<Rightarrow> byte" where
  "cut_bytes n f i = (if i < n then f i else 0)"

section \<open>Association lists with distinct keys\<close>

lemma set_delete: "distinct (map fst m) \<Longrightarrow> set (AList.delete k m) = {p \<in> set m. fst p \<noteq> k}"
  by (auto simp: AList.delete_eq)

lemma set_update_distinct:
  "distinct (map fst m) \<Longrightarrow> set (AList.update k v m) = insert (k, v) {p \<in> set m. fst p \<noteq> k}"
  by (induction m) (auto simp: image_iff)

lemma map_of_filter_distinct:
  "distinct (map fst m) \<Longrightarrow> map_of (filter P m) k = (case map_of m k of None \<Rightarrow> None | Some v \<Rightarrow> if P (k, v) then Some v else None)"
proof (induction m)
  case (Cons p m)
  then have "map_of m (fst p) = None" by (simp add: map_of_eq_None_iff)
  with Cons show ?case by (auto split: option.splits)
qed simp

lemma length_delete:
  "distinct (map fst m) \<Longrightarrow> map_of m k = Some v \<Longrightarrow> Suc (length (AList.delete k m)) = length m"
proof (induction m)
  case (Cons q m)
  have "AList.delete k m = m" if "fst q = k" using that Cons.prems(1) by (auto intro!: AList.delete_idem)
  then show ?case using Cons by (cases q) (auto simp: AList.delete_eq)
qed simp

lemma length_update:
  "distinct (map fst m) \<Longrightarrow> length (AList.update k v m) = (if map_of m k = None then Suc (length m) else length m)"
  by (induction m) auto

section \<open>Little-endian encoding\<close>

text \<open>\<open>le_bytes k n\<close> is what \<^verbatim>\<open>binary.LittleEndian.PutUint\<close> stores for a \<open>k\<close>-byte integer;
  \<open>le_nat\<close> is what \<^verbatim>\<open>binary.LittleEndian.Uint\<close> reads back.\<close>

fun le_bytes :: "nat \<Rightarrow> nat \<Rightarrow> bytes" where
  "le_bytes 0 n = []"
| "le_bytes (Suc k) n = word_of_nat n # le_bytes k (n div 256)"

fun le_nat :: "bytes \<Rightarrow> nat" where
  "le_nat [] = 0"
| "le_nat (b # bs) = unat b + 256 * le_nat bs"

lemma length_le_bytes [simp]: "length (le_bytes k n) = k"
  by (induction k arbitrary: n) auto

lemma unat_byte_less [simp]: "unat (b :: byte) < 256"
  using unsigned_less [of b] by simp

lemma le_nat_le_bytes_mod: "le_nat (le_bytes k n) = n mod 256 ^ k"
proof (induction k arbitrary: n)
  case (Suc k)
  have "n mod (256 * 256 ^ k) = 256 * (n div 256 mod 256 ^ k) + n mod 256"
    by (rule mod_mult2_eq)
  then show ?case
    using Suc by (simp add: unat_of_nat)
qed simp

lemma le_nat_le_bytes [bytes_simps]: "n < 256 ^ k \<Longrightarrow> le_nat (le_bytes k n) = n"
  by (simp add: le_nat_le_bytes_mod)

lemma le_nat_less: "length b = k \<Longrightarrow> le_nat b < 256 ^ k"
proof (induction b arbitrary: k)
  case (Cons x b)
  then obtain k' where k: "k = Suc k'" "length b = k'" by (cases k) auto
  have "le_nat b < 256 ^ k'" using Cons.IH k by simp
  then have "256 * le_nat b + 256 \<le> 256 * 256 ^ k'" by simp
  moreover have "unat x < 256" by simp
  ultimately show ?case unfolding k by (simp del: unat_byte_less)
qed simp

lemma le_bytes_le_nat: "length b = k \<Longrightarrow> le_bytes k (le_nat b) = b"
proof (induction b arbitrary: k)
  case (Cons x b)
  then obtain k' where k: "k = Suc k'" "length b = k'" by (cases k) auto
  have z: "(256 :: byte) = 0" by simp
  have "word_of_nat (unat x + 256 * le_nat b) = x + (256 :: byte) * word_of_nat (le_nat b)" by simp
  then have "word_of_nat (unat x + 256 * le_nat b) = x" by (simp only: z mult_zero_left add_0_right)
  then show ?case using Cons.IH k by simp
qed simp

section \<open>Block runs\<close>

text \<open>Extents of a container are half-open runs of block numbers. \<open>run_bag\<close> counts how often each
  block is covered; a list of runs is disjoint and inside a region when its bag is contained in the
  set of the region's blocks, and that form survives any reordering of the runs.\<close>

definition run_bag :: "(nat \<times> nat) list \<Rightarrow> nat multiset" where
  "run_bag rs = mset (concat (map (\<lambda>(s, e). [s..<e]) rs))"

abbreviation region :: "nat \<Rightarrow> nat \<Rightarrow> nat multiset" where
  "region lo hi \<equiv> mset_set {lo..<hi}"

lemma run_bag_Nil [simp]: "run_bag [] = {#}"
  by (simp add: run_bag_def)

lemma run_bag_Cons [simp]: "run_bag ((s, e) # rs) = region s e + run_bag rs"
  by (simp add: run_bag_def)

lemma run_bag_append [simp]: "run_bag (rs @ rs') = run_bag rs + run_bag rs'"
  by (simp add: run_bag_def)

lemma run_bag_sum: "run_bag rs = sum_list (map (\<lambda>(s, e). region s e) rs)"
  by (induction rs) auto

lemma run_bag_cong: "mset rs = mset rs' \<Longrightarrow> run_bag rs = run_bag rs'"
proof -
  assume "mset rs = mset rs'"
  then have "mset (map (\<lambda>(s, e). region s e) rs) = mset (map (\<lambda>(s, e). region s e) rs')"
    by (metis mset_map)
  then show ?thesis
    unfolding run_bag_sum by (metis sum_mset_sum_list)
qed

lemma region_split: "lo \<le> mid \<Longrightarrow> mid \<le> hi \<Longrightarrow> region lo hi = region lo mid + region mid hi"
  by (simp flip: mset_set_Union add: ivl_disj_un_two(3) disjoint_iff)

lemma region_mono: "lo' \<le> lo \<Longrightarrow> hi \<le> hi' \<Longrightarrow> region lo hi \<subseteq># region lo' hi'"
proof (cases "lo \<le> hi")
  case True
  assume "lo' \<le> lo" "hi \<le> hi'"
  then have "region lo' hi' = region lo' lo + region lo hi + region hi hi'"
    using True by (metis order_trans region_split)
  then show ?thesis by simp
qed simp

lemma count_region: "count (region lo hi) b = (if lo \<le> b \<and> b < hi then 1 else 0)"
  by (simp add: count_mset_set')

lemma run_bag_in_region_D:
  assumes "run_bag rs \<subseteq># region lo hi"
  shows "distinct (concat (map (\<lambda>(s, e). [s..<e]) rs))"
    and "\<forall>b \<in># run_bag rs. lo \<le> b \<and> b < hi"
proof -
  have le: "count (run_bag rs) b \<le> count (region lo hi) b" for b
    using assms by (simp add: subseteq_mset_def)
  then have "count (run_bag rs) b \<le> 1" for b
    using le [of b] count_region [of lo hi b] by (simp split: if_splits)
  then show "distinct (concat (map (\<lambda>(s, e). [s..<e]) rs))"
    unfolding run_bag_def
    by (metis (no_types, lifting) count_eq_zero_iff distinct_count_atmost_1
        less_one linorder_not_less order_less_le set_mset_mset)
  show "\<forall>b \<in># run_bag rs. lo \<le> b \<and> b < hi"
    using assms by (auto dest: mset_subset_eqD)
qed

text \<open>A chain of runs: in order, each starting at or after the end of the one before.\<close>

fun chain :: "nat \<Rightarrow> (nat \<times> nat) list \<Rightarrow> nat \<Rightarrow> bool" where
  "chain lo [] hi \<longleftrightarrow> lo \<le> hi"
| "chain lo ((s, e) # rs) hi \<longleftrightarrow> lo \<le> s \<and> s \<le> e \<and> chain e rs hi"

lemma chain_le: "chain lo rs hi \<Longrightarrow> lo \<le> hi"
  by (induction lo rs hi rule: chain.induct) auto

lemma chain_run_bag: "chain lo rs hi \<Longrightarrow> run_bag rs \<subseteq># region lo hi"
proof (induction lo rs hi rule: chain.induct)
  case (2 lo s e rs hi)
  then have "lo \<le> s" "s \<le> e" "e \<le> hi" "run_bag rs \<subseteq># region e hi"
    by (auto dest: chain_le)
  then have "region lo hi = region lo s + region s e + region e hi"
    by (metis order_trans region_split)
  then show ?case
    using \<open>run_bag rs \<subseteq># region e hi\<close> by (simp add: subset_mset.add_increasing)
qed simp

section \<open>Arrays of fixed-width records\<close>

text \<open>The contract of a record type stored in a dense array: every encoding has the same length, and
  decoding a buffer that starts with the encoding of a storable value gives the value back, whatever
  follows. It is provided by the directory entries and the segment descriptors of the vault format.\<close>

locale fixed_width_codec =
  fixes enc :: "'a \<Rightarrow> bytes"
    and dec :: "bytes \<Rightarrow> 'a"
    and width :: nat
    and storable :: "'a \<Rightarrow> bool"
  assumes length_enc: "storable x \<Longrightarrow> length (enc x) = width"
    and dec_enc: "storable x \<Longrightarrow> dec (enc x @ rest) = x"
begin

lemma length_array: "\<forall>x\<in>set xs. storable x \<Longrightarrow> length (concat (map enc xs)) = length xs * width"
  by (induction xs) (auto simp: length_enc)

lemma decode_array:
  "\<forall>x\<in>set xs. storable x \<Longrightarrow>
     map (\<lambda>i. dec (drop (i * width) (concat (map enc xs) @ rest))) [0..<length xs] = xs"
proof (induction xs)
  case (Cons x xs)
  have "map (\<lambda>i. dec (drop (i * width) (concat (map enc (x # xs)) @ rest))) [0..<length (x # xs)]
      = dec (enc x @ concat (map enc xs) @ rest)
        # map (\<lambda>i. dec (drop (Suc i * width) (concat (map enc (x # xs)) @ rest))) [0..<length xs]"
    by (simp add: upt_conv_Cons map_Suc_upt [symmetric] del: upt_Suc)
  also have "\<dots> = x # map (\<lambda>i. dec (drop (i * width) (concat (map enc xs) @ rest))) [0..<length xs]"
    using Cons.prems by (simp add: dec_enc length_enc)
  finally show ?case using Cons by simp
qed simp

end

end
