(* ===== verification/Hashes.thy ===== *)
theory Hashes
  imports Prelude
begin

text \<open>
  The two digests of Go's standard library the container format uses: the Castagnoli CRC-32 of
  \<^verbatim>\<open>hash/crc32\<close> (superblock, directory and slot checksums) and SHA-256 of \<^verbatim>\<open>crypto/sha256\<close> (slot
  and directory hashes of an authenticated container). Both are defined so that they compute.
\<close>

unbundle bit_operations_syntax

section \<open>CRC-32C\<close>

text \<open>One table entry is eight shift steps with the reversed Castagnoli polynomial; the checksum
  folds the bytes through the table and complements the register before and after.\<close>

definition crc_step :: "32 word \<Rightarrow> 32 word" where
  "crc_step c = (if bit c 0 then drop_bit 1 c XOR 0x82f63b78 else drop_bit 1 c)"

definition crc_entry :: "32 word \<Rightarrow> 32 word" where
  "crc_entry c = (crc_step ^^ 8) c"

definition crc_update :: "32 word \<Rightarrow> byte \<Rightarrow> 32 word" where
  "crc_update c b = crc_entry ((c XOR ucast b) AND 0xff) XOR drop_bit 8 c"

definition crc32c :: "bytes \<Rightarrow> nat" where
  "crc32c bs = unat (NOT (foldl crc_update (NOT 0) bs))"

lemma crc32c_less [simp]: "crc32c bs < 2 ^ 32"
  unfolding crc32c_def by (rule order_less_le_trans [OF unsigned_less]) simp

lemma crc32c_less_numeral [simp]: "crc32c bs < 4294967296"
  using crc32c_less [of bs] by simp

section \<open>SHA-256\<close>

text \<open>The round constants are the first 32 bits of the fractional parts of the cube roots of the first
  64 primes, the initial state those of the square roots of the first eight; both come from integer
  roots of shifted primes, found bit by bit.\<close>

fun root_bits :: "(nat \<Rightarrow> nat) \<Rightarrow> nat \<Rightarrow> nat \<Rightarrow> nat \<Rightarrow> nat" where
  "root_bits pow n 0 r = r"
| "root_bits pow n (Suc i) r = root_bits pow n i (if pow (r + 2 ^ i) \<le> n then r + 2 ^ i else r)"

definition small_primes :: "nat list" where
  "small_primes = filter (\<lambda>n. list_all (\<lambda>d. n mod d \<noteq> 0) [2..<min n 18]) [2..<312]"

definition sha_k :: "32 word list" where
  "sha_k = map (\<lambda>p. word_of_nat (root_bits (\<lambda>x. x * x * x) (p * 2 ^ 96) 36 0)) small_primes"

definition sha_init :: "32 word list" where
  "sha_init = map (\<lambda>p. word_of_nat (root_bits (\<lambda>x. x * x) (p * 2 ^ 64) 36 0)) [2, 3, 5, 7, 11, 13, 17, 19]"

lemma length_sha_init: "length sha_init = 8"
  by (simp add: sha_init_def)

definition rotr :: "nat \<Rightarrow> 32 word \<Rightarrow> 32 word" where
  "rotr n x = drop_bit n x OR push_bit (32 - n) x"

fun be_word :: "bytes \<Rightarrow> 32 word" where
  "be_word bs = foldl (\<lambda>acc b. push_bit 8 acc OR ucast b) 0 bs"

definition be_bytes32 :: "32 word \<Rightarrow> bytes" where
  "be_bytes32 w = [ucast (drop_bit 24 w), ucast (drop_bit 16 w), ucast (drop_bit 8 w), ucast w]"

text \<open>The message schedule, newest word first.\<close>

fun sha_extend :: "nat \<Rightarrow> 32 word list \<Rightarrow> 32 word list" where
  "sha_extend 0 ws = ws"
| "sha_extend (Suc n) ws =
     (let w15 = ws ! 14; w2 = ws ! 1;
          s0 = rotr 7 w15 XOR rotr 18 w15 XOR drop_bit 3 w15;
          s1 = rotr 17 w2 XOR rotr 19 w2 XOR drop_bit 10 w2
      in sha_extend n ((ws ! 15 + s0 + ws ! 6 + s1) # ws))"

fun sha_round :: "32 word list \<Rightarrow> 32 word \<times> 32 word \<Rightarrow> 32 word list" where
  "sha_round [a, b, c, d, e, f, g, h] (k, w) =
     (let s1 = rotr 6 e XOR rotr 11 e XOR rotr 25 e;
          ch = (e AND f) XOR (NOT e AND g);
          t1 = h + s1 + ch + k + w;
          s0 = rotr 2 a XOR rotr 13 a XOR rotr 22 a;
          maj = (a AND b) XOR (a AND c) XOR (b AND c)
      in [t1 + (s0 + maj), a, b, c, d + t1, e, f, g])"
| "sha_round st _ = st"

definition sha_block :: "32 word list \<Rightarrow> bytes \<Rightarrow> 32 word list" where
  "sha_block st blk =
     (let ws = map (\<lambda>i. be_word (bslice (4 * i) (4 * i + 4) blk)) [0..<16];
          sched = rev (sha_extend 48 (rev ws))
      in map2 (+) st (foldl sha_round st (zip sha_k sched)))"

definition sha_pad :: "bytes \<Rightarrow> bytes" where
  "sha_pad m = (let n = length m; z = (119 - n mod 64) mod 64
     in m @ [0x80] @ replicate z 0 @ rev (le_bytes 8 (8 * n)))"

definition sha256 :: "bytes \<Rightarrow> bytes" where
  "sha256 m = (let p = sha_pad m
     in concat (map be_bytes32
          (foldl (\<lambda>st i. sha_block st (bslice (64 * i) (64 * i + 64) p)) sha_init
             [0..<length p div 64])))"

lemma length_sha_round: "length st = 8 \<Longrightarrow> length (sha_round st kw) = 8"
  by (cases "(st, kw)" rule: sha_round.cases) (auto simp: Let_def)

lemma length_foldl_preserved:
  "(\<And>s x. length s = n \<Longrightarrow> length (f s x) = n) \<Longrightarrow> length s = n \<Longrightarrow> length (foldl f s xs) = n"
  by (induction xs arbitrary: s) auto

lemma length_sha_rounds: "length st = 8 \<Longrightarrow> length (foldl sha_round st kws) = 8"
  by (rule length_foldl_preserved) (simp_all add: length_sha_round)

lemma length_sha_block: "length st = 8 \<Longrightarrow> length (sha_block st blk) = 8"
  by (simp add: sha_block_def Let_def length_sha_rounds)

lemma length_sha256 [simp]: "length (sha256 m) = 32"
proof -
  have eight: "length (foldl (\<lambda>st i. sha_block st (bslice (64 * i) (64 * i + 64) p)) sha_init xs) = 8" for p xs
    by (rule length_foldl_preserved) (simp_all add: length_sha_block length_sha_init)
  have "length (concat (map be_bytes32 ws)) = 4 * length ws" for ws
    by (induction ws) (simp_all add: be_bytes32_def)
  then show ?thesis by (simp add: sha256_def Let_def eight)
qed

end
