(* ===== verification/Vault_Format.thy ===== *)
theory Vault_Format
  imports Hashes
begin

text \<open>
  The wire format of the vault container (\<^verbatim>\<open>src/vfs/vault/format.go\<close>): the superblock, the page
  directory entries and the segment index, their encoders and decoders, the choice between the two
  superblock copies, and the validation an untrusted container passes before its fields are used.

  Records carry the fields of the Go structs; an integer field is a natural number and the
  \<open>_wf\<close> predicates state the ranges its Go type gives it. Encoders write into a zeroed buffer at
  the offsets of the source (\<open>blit\<close>), decoders slice it.
\<close>

section \<open>Errors\<close>

datatype verror =
    ErrBadMagic
  | ErrBadChecksum
  | ErrBadVersion
  | ErrShortBlock
  | ErrNoSuperblock
  | ErrInvalid string      \<comment> \<open>a \<^verbatim>\<open>fmt.Errorf\<close> or \<^verbatim>\<open>errors.New\<close> value, by its subject\<close>
  | ErrIO                  \<comment> \<open>an error of the backing store\<close>
  | ErrEOF
  | ErrCodec               \<comment> \<open>an error of the compression library\<close>
  | ErrReadOnly
  | ErrReadOnlyRecipient
  | ErrTampered
  | ErrUnauthorized
  | ErrWrongKey
  | ErrRolledBack
  | ErrEncrypted
  | ErrNoIdentity
  | ErrNotMaster
  | ErrRoleMismatch
  | ErrNoMatch                \<comment> \<open>\<^verbatim>\<open>keyring.ErrNoMatch\<close>\<close>
  | ErrUnauthorizedKeyslot    \<comment> \<open>\<^verbatim>\<open>keyring.ErrUnauthorizedKeyslot\<close>\<close>
  | ErrKeyringNotMaster       \<comment> \<open>\<^verbatim>\<open>keyring.ErrNotMaster\<close>\<close>
  | ErrPanic string        \<comment> \<open>a \<^verbatim>\<open>panic\<close> of the source\<close>

section \<open>Layout constants\<close>

definition superblockMagic :: bytes where
  "superblockMagic = [0x56, 0x41, 0x55, 0x4c, 0x54, 0x76, 0x30, 0x31]"  \<comment> \<open>\<open>''VAULTv01''\<close>\<close>

definition containerVersion :: nat where "containerVersion = 2"
definition superblockBlocks :: nat where "superblockBlocks = 2"
definition dirHashLen :: nat where "dirHashLen = 32"
definition writerSigLen :: nat where "writerSigLen = 64"
definition sbAuthOff :: nat where "sbAuthOff = 60"
definition sbSegEntriesOff :: nat where "sbSegEntriesOff = 61"
definition sbDirHashOff :: nat where "sbDirHashOff = sbSegEntriesOff + 4"
definition sbWriterSigOff :: nat where "sbWriterSigOff = sbDirHashOff + dirHashLen"
definition sbSignedLen :: nat where "sbSignedLen = sbWriterSigOff"
definition sbCRCOff :: nat where "sbCRCOff = sbWriterSigOff + writerSigLen"
definition superblockSize :: nat where "superblockSize = sbCRCOff + 4"
definition dirEntrySize :: nat where "dirEntrySize = 24"
definition slotHashLen :: nat where "slotHashLen = 16"
definition dirEntrySizeAuth :: nat where "dirEntrySizeAuth = dirEntrySize + slotHashLen"
definition segDescSize :: nat where "segDescSize = 8 + 4 + 4 + 4 + slotHashLen"

lemmas layout_defs = containerVersion_def superblockBlocks_def dirHashLen_def writerSigLen_def
  sbAuthOff_def sbSegEntriesOff_def sbDirHashOff_def sbWriterSigOff_def sbSignedLen_def sbCRCOff_def
  superblockSize_def dirEntrySize_def slotHashLen_def dirEntrySizeAuth_def segDescSize_def

definition dirEntryBytes :: "bool \<Rightarrow> nat" where
  "dirEntryBytes authenticated = (if authenticated then dirEntrySizeAuth else dirEntrySize)"

section \<open>Superblock\<close>

record superblock =
  sb_blockSize :: nat
  sb_pageSize :: nat
  sb_pageCount :: nat
  sb_dirOffset :: nat
  sb_dirBlocks :: nat
  sb_segEntries :: nat
  sb_generation :: nat
  sb_codec :: byte
  sb_enc :: byte
  sb_dirChecksum :: nat
  sb_keyslotOffset :: nat
  sb_authenticated :: bool
  sb_dirHash :: bytes
  sb_writerSig :: bytes

text \<open>The ranges of the Go field types, and the lengths of its two byte arrays.\<close>

definition superblock_wf :: "superblock \<Rightarrow> bool" where
  "superblock_wf s \<longleftrightarrow>
     sb_blockSize s < 2 ^ 32 \<and> sb_pageSize s < 2 ^ 32 \<and> sb_pageCount s < 2 ^ 64 \<and>
     sb_dirOffset s < 2 ^ 64 \<and> sb_dirBlocks s < 2 ^ 32 \<and> sb_segEntries s < 2 ^ 32 \<and>
     sb_generation s < 2 ^ 64 \<and> sb_dirChecksum s < 2 ^ 32 \<and> sb_keyslotOffset s < 2 ^ 64 \<and>
     length (sb_dirHash s) = dirHashLen \<and> length (sb_writerSig s) = writerSigLen"

text \<open>\<^verbatim>\<open>superblock.marshal\<close>: every field at its offset of a zeroed block, then the CRC over all of it.\<close>

definition sb_base :: "superblock \<Rightarrow> bytes" where
  "sb_base s = (let
     b = replicate superblockSize 0;
     b = blit 0 superblockMagic b;
     b = blit 8 (le_bytes 2 containerVersion) b;
     b = blit 10 (le_bytes 4 (sb_blockSize s)) b;
     b = blit 14 (le_bytes 4 (sb_pageSize s)) b;
     b = blit 18 (le_bytes 8 (sb_pageCount s)) b;
     b = blit 26 (le_bytes 8 (sb_dirOffset s)) b;
     b = blit 34 (le_bytes 4 (sb_dirBlocks s)) b;
     b = blit 38 (le_bytes 8 (sb_generation s)) b;
     b = blit 46 [sb_codec s] b;
     b = blit 47 [sb_enc s] b;
     b = blit 48 (le_bytes 4 (sb_dirChecksum s)) b;
     b = blit 52 (le_bytes 8 (sb_keyslotOffset s)) b
   in blit sbSegEntriesOff (le_bytes 4 (sb_segEntries s)) b)"

definition sb_body :: "superblock \<Rightarrow> bytes" where
  "sb_body s = (if sb_authenticated s
     then blit sbWriterSigOff (sb_writerSig s)
            (blit sbDirHashOff (sb_dirHash s) (blit sbAuthOff [1] (sb_base s)))
     else sb_base s)"

definition sb_marshal :: "superblock \<Rightarrow> bytes" where
  "sb_marshal s = blit sbCRCOff (le_bytes 4 (crc32c (take sbCRCOff (sb_body s)))) (sb_body s)"

definition signedState :: "superblock \<Rightarrow> bytes" where
  "signedState s = take sbSignedLen (sb_marshal s)"

definition parseSuperblock :: "bytes \<Rightarrow> verror + superblock" where
  "parseSuperblock b =
     (if length b < superblockSize then Inl ErrBadChecksum
      else if bslice 0 8 b \<noteq> superblockMagic then Inl ErrBadMagic
      else if crc32c (take sbCRCOff b) \<noteq> le_nat (bslice sbCRCOff (sbCRCOff + 4) b) then Inl ErrBadChecksum
      else if le_nat (bslice 8 10 b) \<noteq> containerVersion then Inl ErrBadVersion
      else let auth = b ! sbAuthOff \<noteq> 0
        in Inr \<lparr>
             sb_blockSize = le_nat (bslice 10 14 b),
             sb_pageSize = le_nat (bslice 14 18 b),
             sb_pageCount = le_nat (bslice 18 26 b),
             sb_dirOffset = le_nat (bslice 26 34 b),
             sb_dirBlocks = le_nat (bslice 34 38 b),
             sb_segEntries = le_nat (bslice sbSegEntriesOff (sbSegEntriesOff + 4) b),
             sb_generation = le_nat (bslice 38 46 b),
             sb_codec = b ! 46,
             sb_enc = b ! 47,
             sb_dirChecksum = le_nat (bslice 48 52 b),
             sb_keyslotOffset = le_nat (bslice 52 60 b),
             sb_authenticated = auth,
             sb_dirHash = (if auth then bslice sbDirHashOff (sbDirHashOff + dirHashLen) b
                           else replicate dirHashLen 0),
             sb_writerSig = (if auth then bslice sbWriterSigOff (sbWriterSigOff + writerSigLen) b
                             else replicate writerSigLen 0) \<rparr>)"

text \<open>A superblock that is not authenticated carries no hash and no signature; \<^verbatim>\<open>marshal\<close> drops
  them, so a round trip needs them zero already.\<close>

definition superblock_canonical :: "superblock \<Rightarrow> bool" where
  "superblock_canonical s \<longleftrightarrow> superblock_wf s \<and>
     (\<not> sb_authenticated s \<longrightarrow>
        sb_dirHash s = replicate dirHashLen 0 \<and> sb_writerSig s = replicate writerSigLen 0)"

lemma length_superblockMagic [simp]: "length superblockMagic = 8"
  by (simp add: superblockMagic_def)

lemma length_sb_base [simp]: "length (sb_base s) = superblockSize"
  by (simp add: sb_base_def Let_def)

lemma length_sb_body [simp]: "length (sb_body s) = superblockSize"
  by (simp add: sb_body_def)

lemma length_sb_marshal [simp]: "length (sb_marshal s) = superblockSize"
  by (simp add: sb_marshal_def)


text \<open>What each slice of the encoded block holds.\<close>

lemma sb_base_fields:
  "bslice 0 8 (sb_base s) = superblockMagic"
  "bslice 8 10 (sb_base s) = le_bytes 2 containerVersion"
  "bslice 10 14 (sb_base s) = le_bytes 4 (sb_blockSize s)"
  "bslice 14 18 (sb_base s) = le_bytes 4 (sb_pageSize s)"
  "bslice 18 26 (sb_base s) = le_bytes 8 (sb_pageCount s)"
  "bslice 26 34 (sb_base s) = le_bytes 8 (sb_dirOffset s)"
  "bslice 34 38 (sb_base s) = le_bytes 4 (sb_dirBlocks s)"
  "bslice 38 46 (sb_base s) = le_bytes 8 (sb_generation s)"
  "sb_base s ! 46 = sb_codec s"
  "sb_base s ! 47 = sb_enc s"
  "bslice 48 52 (sb_base s) = le_bytes 4 (sb_dirChecksum s)"
  "bslice 52 60 (sb_base s) = le_bytes 8 (sb_keyslotOffset s)"
  "sb_base s ! 60 = 0"
  "bslice 61 65 (sb_base s) = le_bytes 4 (sb_segEntries s)"
  by (simp_all add: sb_base_def Let_def layout_defs bytes_simps del: slice_0)

lemma sb_body_below_auth:
  "j \<le> 60 \<Longrightarrow> superblock_wf s \<Longrightarrow> bslice i j (sb_body s) = bslice i j (sb_base s)"
  "k < 60 \<Longrightarrow> superblock_wf s \<Longrightarrow> sb_body s ! k = sb_base s ! k"
  "superblock_wf s \<Longrightarrow> bslice 61 65 (sb_body s) = bslice 61 65 (sb_base s)"
  by (simp_all add: sb_body_def superblock_wf_def layout_defs bytes_simps)

lemma sb_body_auth:
  assumes "superblock_wf s"
  shows "sb_body s ! 60 \<noteq> 0 \<longleftrightarrow> sb_authenticated s"
    and "sb_authenticated s \<Longrightarrow> bslice 65 97 (sb_body s) = sb_dirHash s"
    and "sb_authenticated s \<Longrightarrow> bslice 97 161 (sb_body s) = sb_writerSig s"
  using assms
  by (simp_all add: sb_body_def superblock_wf_def layout_defs bytes_simps sb_base_fields)

lemma sb_marshal_body:
  "j \<le> 161 \<Longrightarrow> bslice i j (sb_marshal s) = bslice i j (sb_body s)"
  "k < 161 \<Longrightarrow> sb_marshal s ! k = sb_body s ! k"
  "take 161 (sb_marshal s) = take 161 (sb_body s)"
  "bslice 161 165 (sb_marshal s) = le_bytes 4 (crc32c (take 161 (sb_body s)))"
  by (simp_all add: sb_marshal_def layout_defs bytes_simps take_blit_prefix)

text \<open>What is signed does not depend on the signature, and it determines everything else.\<close>

lemma signedState_indep: "sb_authenticated s \<Longrightarrow> signedState (s\<lparr>sb_writerSig := x\<rparr>) = signedState s"
  by (simp add: signedState_def sb_marshal_def sb_body_def sb_base_def layout_defs take_blit_prefix)

lemma signedState_slice:
  "j \<le> 97 \<Longrightarrow> bslice i j (signedState s) = bslice i j (sb_body s)" "k < 97 \<Longrightarrow> signedState s ! k = sb_body s ! k"
  using sb_marshal_body(1) [of j i s] by (simp_all add: signedState_def slice_take layout_defs sb_marshal_body(2))

lemma signedState_fields:
  assumes "superblock_wf s" "sb_authenticated s"
  shows "sb_blockSize s = le_nat (bslice 10 14 (signedState s))" "sb_pageSize s = le_nat (bslice 14 18 (signedState s))"
    "sb_pageCount s = le_nat (bslice 18 26 (signedState s))" "sb_dirOffset s = le_nat (bslice 26 34 (signedState s))"
    "sb_dirBlocks s = le_nat (bslice 34 38 (signedState s))" "sb_generation s = le_nat (bslice 38 46 (signedState s))"
    "sb_codec s = signedState s ! 46" "sb_enc s = signedState s ! 47"
    "sb_dirChecksum s = le_nat (bslice 48 52 (signedState s))" "sb_keyslotOffset s = le_nat (bslice 52 60 (signedState s))"
    "sb_segEntries s = le_nat (bslice 61 65 (signedState s))" "sb_dirHash s = bslice 65 97 (signedState s)"
  using assms
  by (simp_all add: signedState_slice sb_body_below_auth sb_base_fields sb_body_auth(2) le_nat_le_bytes superblock_wf_def
      del: slice_0)

definition sample_superblock :: superblock where
  "sample_superblock =
     \<lparr>sb_blockSize = 4096, sb_pageSize = 65536, sb_pageCount = 3, sb_dirOffset = 8192, sb_dirBlocks = 1,
      sb_segEntries = 1024, sb_generation = 7, sb_codec = 1, sb_enc = 0, sb_dirChecksum = 12345,
      sb_keyslotOffset = 0, sb_authenticated = False,
      sb_dirHash = replicate 32 0, sb_writerSig = replicate 64 0\<rparr>"

definition signed_superblock :: superblock where
  "signed_superblock = sample_superblock\<lparr>sb_authenticated := True, sb_dirHash := replicate 32 9\<rparr>"

text \<open>The signed state of an authenticated superblock determines every field but the signature, so a
  signature or MAC over it commits the writer to the geometry, the page count, the generation, the key
  slot and the directory root.\<close>

theorem signedState_commits_to_root:
  assumes "superblock_wf s" "superblock_wf t" "sb_authenticated s" "sb_authenticated t" "signedState s = signedState t"
  shows "s\<lparr>sb_writerSig := x\<rparr> = t\<lparr>sb_writerSig := x\<rparr>"
  using signedState_fields [OF assms(1,3)] signedState_fields [OF assms(2,4)] assms(3-5)
  by (intro superblock.equality) simp_all

theorem signedState_commits_to_root_witness:
  "signedState signed_superblock = signedState (signed_superblock\<lparr>sb_writerSig := replicate 64 1\<rparr>) \<and>
   signed_superblock\<lparr>sb_writerSig := replicate 64 0\<rparr>
     = signed_superblock\<lparr>sb_writerSig := replicate 64 1, sb_writerSig := replicate 64 0\<rparr>"
proof -
  let ?t = "signed_superblock\<lparr>sb_writerSig := replicate 64 1\<rparr>"
  have wf: "superblock_wf signed_superblock" "superblock_wf ?t"
    by (simp_all add: superblock_wf_def signed_superblock_def sample_superblock_def layout_defs)
  have au: "sb_authenticated signed_superblock" "sb_authenticated ?t" by (simp_all add: signed_superblock_def)
  have eq: "signedState signed_superblock = signedState ?t"
    by (simp add: signedState_indep signed_superblock_def)
  from signedState_commits_to_root [OF wf au eq] eq show ?thesis by blast
qed

lemma parse_sb_marshal:
  assumes "superblock_canonical s"
  shows "parseSuperblock (sb_marshal s) = Inr s"
proof -
  have wf: "superblock_wf s" using assms by (simp add: superblock_canonical_def)
  have len: "length (sb_marshal s) = 165" by (simp add: layout_defs)
  have magic: "bslice 0 8 (sb_marshal s) = superblockMagic"
    using wf by (simp only: sb_marshal_body sb_body_below_auth sb_base_fields)
  show ?thesis
    using assms wf magic
    by (cases s)
       (simp add: parseSuperblock_def layout_defs len sb_marshal_body sb_body_below_auth sb_body_auth
         sb_base_fields superblock_canonical_def superblock_wf_def Let_def bytes_simps)
qed

text \<open>A superblock whose fields are in the ranges of their Go types (and whose hash and signature
  are zero when it is not authenticated) is recovered exactly by \<^verbatim>\<open>parseSuperblock\<close> from what
  \<^verbatim>\<open>marshal\<close> writes.\<close>

theorem parse_marshal_superblock:
  assumes "superblock_canonical s"
  shows "parseSuperblock (sb_marshal s) = Inr s"
  using assms by (rule parse_sb_marshal)

theorem parse_marshal_superblock_witness:
  "superblock_canonical sample_superblock \<and>
   parseSuperblock (sb_marshal sample_superblock) = Inr sample_superblock"
proof -
  have c: "superblock_canonical sample_superblock"
    by (simp add: superblock_canonical_def superblock_wf_def sample_superblock_def layout_defs)
  with parse_marshal_superblock [OF c] show ?thesis by blast
qed

lemma parseSuperblock_wf: "parseSuperblock b = Inr s \<Longrightarrow> superblock_canonical s"
  using le_nat_less [of "bslice 10 14 b" 4] le_nat_less [of "bslice 14 18 b" 4]
    le_nat_less [of "bslice 18 26 b" 8] le_nat_less [of "bslice 26 34 b" 8]
    le_nat_less [of "bslice 34 38 b" 4] le_nat_less [of "bslice 61 65 b" 4]
    le_nat_less [of "bslice 38 46 b" 8] le_nat_less [of "bslice 48 52 b" 4]
    le_nat_less [of "bslice 52 60 b" 8]
  by (auto simp: parseSuperblock_def superblock_canonical_def superblock_wf_def layout_defs Let_def
      split: if_splits)

section \<open>Page directory\<close>

record dirEntry =
  de_physOffset :: nat
  de_storedLen :: nat
  de_blocks :: nat
  de_flags :: nat
  de_checksum :: nat
  de_hash :: bytes

definition sparseEntry :: dirEntry where
  "sparseEntry = \<lparr>de_physOffset = 0, de_storedLen = 0, de_blocks = 0, de_flags = 0, de_checksum = 0,
     de_hash = replicate slotHashLen 0\<rparr>"

definition dirFlagVerbatim :: nat where "dirFlagVerbatim = 1"

definition dirEntry_wf :: "dirEntry \<Rightarrow> bool" where
  "dirEntry_wf e \<longleftrightarrow> de_physOffset e < 2 ^ 64 \<and> de_storedLen e < 2 ^ 32 \<and> de_blocks e < 2 ^ 32 \<and>
     de_flags e < 2 ^ 16 \<and> de_checksum e < 2 ^ 32 \<and> length (de_hash e) = slotHashLen"

definition dirEntry_canonical :: "bool \<Rightarrow> dirEntry \<Rightarrow> bool" where
  "dirEntry_canonical auth e \<longleftrightarrow>
     dirEntry_wf e \<and> (\<not> auth \<longrightarrow> de_hash e = replicate slotHashLen 0)"

definition de_marshalInto :: "dirEntry \<Rightarrow> bytes \<Rightarrow> bool \<Rightarrow> bytes" where
  "de_marshalInto e b auth = (let
     b = blit 0 (le_bytes 8 (de_physOffset e)) b;
     b = blit 8 (le_bytes 4 (de_storedLen e)) b;
     b = blit 12 (le_bytes 4 (de_blocks e)) b;
     b = blit 16 (le_bytes 2 (de_flags e)) b;
     b = blit 20 (le_bytes 4 (de_checksum e)) b
   in if auth then blit 24 (de_hash e) b else b)"

definition parseDirEntry :: "bytes \<Rightarrow> bool \<Rightarrow> dirEntry" where
  "parseDirEntry b auth =
     \<lparr>de_physOffset = le_nat (bslice 0 8 b),
      de_storedLen = le_nat (bslice 8 12 b),
      de_blocks = le_nat (bslice 12 16 b),
      de_flags = le_nat (bslice 16 18 b),
      de_checksum = le_nat (bslice 20 24 b),
      de_hash = (if auth then bslice 24 (24 + slotHashLen) b else replicate slotHashLen 0)\<rparr>"

definition marshalDirectory :: "dirEntry list \<Rightarrow> bool \<Rightarrow> bytes" where
  "marshalDirectory entries auth =
     concat (map (\<lambda>e. de_marshalInto e (replicate (dirEntryBytes auth) 0) auth) entries)"

definition parseDirectory :: "bytes \<Rightarrow> nat \<Rightarrow> bool \<Rightarrow> verror + dirEntry list" where
  "parseDirectory b n auth = (let sz = dirEntryBytes auth in
     if length b < n * sz then Inl ErrShortBlock
     else Inr (map (\<lambda>i. parseDirEntry (drop (i * sz) b) auth) [0..<n]))"

section \<open>Segment index\<close>

record segDesc =
  sd_physOffset :: nat
  sd_storedLen :: nat
  sd_blocks :: nat
  sd_checksum :: nat
  sd_hash :: bytes

definition emptySeg :: segDesc where
  "emptySeg = \<lparr>sd_physOffset = 0, sd_storedLen = 0, sd_blocks = 0, sd_checksum = 0,
     sd_hash = replicate slotHashLen 0\<rparr>"

definition segDesc_wf :: "segDesc \<Rightarrow> bool" where
  "segDesc_wf d \<longleftrightarrow> sd_physOffset d < 2 ^ 64 \<and> sd_storedLen d < 2 ^ 32 \<and> sd_blocks d < 2 ^ 32 \<and>
     sd_checksum d < 2 ^ 32 \<and> length (sd_hash d) = slotHashLen"

definition sd_marshalInto :: "segDesc \<Rightarrow> bytes \<Rightarrow> bytes" where
  "sd_marshalInto d b = (let
     b = blit 0 (le_bytes 8 (sd_physOffset d)) b;
     b = blit 8 (le_bytes 4 (sd_storedLen d)) b;
     b = blit 12 (le_bytes 4 (sd_blocks d)) b;
     b = blit 16 (le_bytes 4 (sd_checksum d)) b
   in blit 20 (sd_hash d) b)"

definition parseSegDesc :: "bytes \<Rightarrow> segDesc" where
  "parseSegDesc b =
     \<lparr>sd_physOffset = le_nat (bslice 0 8 b),
      sd_storedLen = le_nat (bslice 8 12 b),
      sd_blocks = le_nat (bslice 12 16 b),
      sd_checksum = le_nat (bslice 16 20 b),
      sd_hash = bslice 20 (20 + slotHashLen) b\<rparr>"

definition marshalSegmentIndex :: "segDesc list \<Rightarrow> bytes" where
  "marshalSegmentIndex segs = concat (map (\<lambda>d. sd_marshalInto d (replicate segDescSize 0)) segs)"

definition parseSegmentIndex :: "bytes \<Rightarrow> nat \<Rightarrow> verror + segDesc list" where
  "parseSegmentIndex b n =
     (if length b < n * segDescSize then Inl ErrShortBlock
      else Inr (map (\<lambda>i. parseSegDesc (drop (i * segDescSize) b)) [0..<n]))"


section \<open>Round trips of the directory and the segment index\<close>

lemma length_dirEntryBytes_pos [simp]: "0 < dirEntryBytes auth"
  by (simp add: dirEntryBytes_def layout_defs)

lemma de_marshal_fields:
  assumes "dirEntry_wf e" and "b = de_marshalInto e (replicate (dirEntryBytes auth) 0) auth @ rest"
  shows "bslice 0 8 b = le_bytes 8 (de_physOffset e)" "bslice 8 12 b = le_bytes 4 (de_storedLen e)"
    "bslice 12 16 b = le_bytes 4 (de_blocks e)" "bslice 16 18 b = le_bytes 2 (de_flags e)"
    "bslice 20 24 b = le_bytes 4 (de_checksum e)" "auth \<Longrightarrow> bslice 24 40 b = de_hash e"
  using assms
  by (simp_all add: de_marshalInto_def dirEntryBytes_def dirEntry_wf_def layout_defs Let_def
      slice_append_left bytes_simps del: slice_0)

interpretation dir_codec: fixed_width_codec
  "\<lambda>e. de_marshalInto e (replicate (dirEntryBytes auth) 0) auth" "\<lambda>b. parseDirEntry b auth"
  "dirEntryBytes auth" "dirEntry_canonical auth" for auth
proof (unfold_locales, goal_cases)
  case (1 e)
  then show ?case by (simp add: de_marshalInto_def Let_def)
next
  case (2 e rest)
  then have "dirEntry_wf e" by (simp add: dirEntry_canonical_def)
  then show ?case
    using 2 de_marshal_fields [OF \<open>dirEntry_wf e\<close> refl, of auth rest]
    by (cases e) (auto simp: parseDirEntry_def dirEntry_canonical_def dirEntry_wf_def layout_defs
          bytes_simps simp del: slice_0)
qed

interpretation seg_codec: fixed_width_codec
  "\<lambda>d. sd_marshalInto d (replicate segDescSize 0)" parseSegDesc segDescSize segDesc_wf
proof (unfold_locales, goal_cases)
  case (1 d)
  then show ?case by (simp add: sd_marshalInto_def Let_def)
next
  case (2 d rest)
  then show ?case
    by (cases d) (simp add: parseSegDesc_def sd_marshalInto_def segDesc_wf_def layout_defs Let_def
          slice_append_left bytes_simps del: slice_0)
qed

lemma length_marshalDirectory:
  "\<forall>e\<in>set entries. dirEntry_canonical auth e \<Longrightarrow>
     length (marshalDirectory entries auth) = length entries * dirEntryBytes auth"
  by (simp add: marshalDirectory_def dir_codec.length_array)

lemma length_marshalSegmentIndex:
  "\<forall>d\<in>set segs. segDesc_wf d \<Longrightarrow> length (marshalSegmentIndex segs) = length segs * segDescSize"
  by (simp add: marshalSegmentIndex_def seg_codec.length_array)

text \<open>The page directory a commit marshals is read back entry by entry by \<^verbatim>\<open>parseDirectory\<close>, in
  plain and authenticated layout, whatever padding follows it in the last block.\<close>

theorem parse_marshal_directory:
  assumes "\<forall>e\<in>set entries. dirEntry_canonical auth e"
  shows "parseDirectory (marshalDirectory entries auth @ pad) (length entries) auth = Inr entries"
  using assms dir_codec.decode_array [OF assms, of pad] length_marshalDirectory [OF assms]
  by (simp add: parseDirectory_def Let_def) (simp add: marshalDirectory_def)

definition sample_entry :: dirEntry where
  "sample_entry = \<lparr>de_physOffset = 8192, de_storedLen = 700, de_blocks = 1, de_flags = 1, de_checksum = 77,
     de_hash = replicate 16 5\<rparr>"

theorem parse_marshal_directory_witness:
  "parseDirectory (marshalDirectory [sample_entry, sample_entry] True @ [0, 0]) 2 True
     = Inr [sample_entry, sample_entry]"
proof -
  have "dirEntry_canonical True sample_entry"
    by (simp add: dirEntry_canonical_def dirEntry_wf_def sample_entry_def layout_defs)
  with parse_marshal_directory [of "[sample_entry, sample_entry]" True "[0, 0]"] show ?thesis
    by (simp add: numeral_2_eq_2)
qed

text \<open>The segment index a commit marshals is read back descriptor by descriptor by
  \<^verbatim>\<open>parseSegmentIndex\<close>, whatever padding follows it.\<close>

theorem parse_marshal_segment_index:
  assumes "\<forall>d\<in>set segs. segDesc_wf d"
  shows "parseSegmentIndex (marshalSegmentIndex segs @ pad) (length segs) = Inr segs"
  using assms seg_codec.decode_array [OF assms, of pad] length_marshalSegmentIndex [OF assms]
  by (simp add: parseSegmentIndex_def) (simp add: marshalSegmentIndex_def)

theorem parse_marshal_segment_index_witness:
  "parseSegmentIndex (marshalSegmentIndex [emptySeg\<lparr>sd_physOffset := 4096, sd_blocks := 1\<rparr>] @ [0]) 1
     = Inr [emptySeg\<lparr>sd_physOffset := 4096, sd_blocks := 1\<rparr>]"
  using parse_marshal_segment_index [of "[emptySeg\<lparr>sd_physOffset := 4096, sd_blocks := 1\<rparr>]" "[0]"]
  by (simp add: segDesc_wf_def emptySeg_def layout_defs)

text \<open>Whatever the bytes, parsed records are within the field widths.\<close>

lemma le_nat_slice_less: "j \<le> i + k \<Longrightarrow> le_nat (bslice i j b) < 256 ^ k"
proof -
  assume "j \<le> i + k"
  then have "length (bslice i j b) \<le> k" by simp
  then have "(256 :: nat) ^ length (bslice i j b) \<le> 256 ^ k" by (intro power_increasing) simp_all
  with le_nat_less [OF refl, of "bslice i j b"] show ?thesis by (rule less_le_trans)
qed

lemma parseDirectory_wf:
  assumes "parseDirectory b n auth = Inr es"
  shows "length es = n" "\<forall>e\<in>set es. dirEntry_wf e"
proof -
  show "length es = n" using assms by (auto simp: parseDirectory_def Let_def split: if_splits)
  have len: "n * dirEntryBytes auth \<le> length b" "es = map (\<lambda>i. parseDirEntry (drop (i * dirEntryBytes auth) b) auth) [0..<n]"
    using assms by (auto simp: parseDirectory_def Let_def split: if_splits)
  have "dirEntry_wf (parseDirEntry (drop (i * dirEntryBytes auth) b) auth)" if "i < n" for i
  proof -
    have "Suc i * dirEntryBytes auth \<le> n * dirEntryBytes auth" using that by (intro mult_le_mono1) simp
    then have "dirEntryBytes auth \<le> length (drop (i * dirEntryBytes auth) b)" using len(1) by simp
    then show ?thesis
      using le_nat_slice_less [of 8 0 8 "drop (i * dirEntryBytes auth) b"] le_nat_slice_less [of 12 8 4 "drop (i * dirEntryBytes auth) b"]
        le_nat_slice_less [of 16 12 4 "drop (i * dirEntryBytes auth) b"] le_nat_slice_less [of 18 16 2 "drop (i * dirEntryBytes auth) b"]
        le_nat_slice_less [of 24 20 4 "drop (i * dirEntryBytes auth) b"]
      by (auto simp: parseDirEntry_def dirEntry_wf_def dirEntryBytes_def layout_defs simp del: slice_0)
  qed
  then show "\<forall>e\<in>set es. dirEntry_wf e" using len(2) by auto
qed

lemma parseSegmentIndex_wf:
  assumes "parseSegmentIndex b n = Inr ds"
  shows "length ds = n" "\<forall>d\<in>set ds. segDesc_wf d"
proof -
  show "length ds = n" using assms by (auto simp: parseSegmentIndex_def split: if_splits)
  have len: "n * segDescSize \<le> length b" "ds = map (\<lambda>i. parseSegDesc (drop (i * segDescSize) b)) [0..<n]"
    using assms by (auto simp: parseSegmentIndex_def split: if_splits)
  have "segDesc_wf (parseSegDesc (drop (i * segDescSize) b))" if "i < n" for i
  proof -
    have "Suc i * segDescSize \<le> n * segDescSize" using that by (intro mult_le_mono1) simp
    then have "segDescSize \<le> length (drop (i * segDescSize) b)" using len(1) by simp
    then show ?thesis
      using le_nat_slice_less [of 8 0 8 "drop (i * segDescSize) b"] le_nat_slice_less [of 12 8 4 "drop (i * segDescSize) b"]
        le_nat_slice_less [of 16 12 4 "drop (i * segDescSize) b"] le_nat_slice_less [of 20 16 4 "drop (i * segDescSize) b"]
      by (auto simp: parseSegDesc_def segDesc_wf_def layout_defs simp del: slice_0)
  qed
  then show "\<forall>d\<in>set ds. segDesc_wf d" using len(2) by auto
qed

end
