(* ===== verification/Vault_Validate.thy ===== *)
theory Vault_Validate
  imports Vault_Format
begin

text \<open>
  Choosing the authoritative superblock and validating an untrusted container
  (\<^verbatim>\<open>src/vfs/vault/format.go\<close>): \<^verbatim>\<open>pickSuperblockSlot\<close>, \<^verbatim>\<open>superblock.validate\<close>,
  \<^verbatim>\<open>validateDirectory\<close> and the geometry helpers. All arithmetic is the wrapping arithmetic of the
  source; the lemmas show that on accepted input nothing wraps, every extent lies in the file and
  no two extents share a block. A Go \<^verbatim>\<open>error\<close> result is a \<open>verror option\<close>, \<open>None\<close> for nil.
\<close>

unbundle bit_operations_syntax

section \<open>Ping-pong superblocks\<close>

definition pickSuperblockSlot :: "bytes \<Rightarrow> bytes \<Rightarrow> verror + (superblock \<times> nat)" where
  "pickSuperblockSlot a b =
     (case (parseSuperblock a, parseSuperblock b) of
        (Inr sa, Inr sb) \<Rightarrow> if sb_generation sb \<le> sb_generation sa then Inr (sa, 0) else Inr (sb, 1)
      | (Inr sa, Inl _) \<Rightarrow> Inr (sa, 0)
      | (Inl _, Inr sb) \<Rightarrow> Inr (sb, 1)
      | (Inl _, Inl _) \<Rightarrow> Inl ErrNoSuperblock)"

definition pickSuperblock :: "bytes \<Rightarrow> bytes \<Rightarrow> verror + superblock" where
  "pickSuperblock a b = (case pickSuperblockSlot a b of Inl e \<Rightarrow> Inl e | Inr (sb, _) \<Rightarrow> Inr sb)"

section \<open>Geometry\<close>

definition isPow2InRange :: "nat \<Rightarrow> bool" where
  "isPow2InRange n \<longleftrightarrow> 512 \<le> n \<and> n \<le> 65536 \<and> n AND (n - 1) = 0"

definition segmentCount :: "nat \<Rightarrow> nat \<Rightarrow> nat" where
  "segmentCount pageCount segEntries =
     (if segEntries = 0 then 0 else sub64 (add64 pageCount segEntries) 1 div segEntries)"

definition segmentBounds :: "nat \<Rightarrow> nat \<Rightarrow> nat \<Rightarrow> nat \<times> nat" where
  "segmentBounds s segEntries pageCount =
     (let lo = mul64 s segEntries in (lo, min (add64 lo segEntries) pageCount))"

definition blocksFor :: "nat \<Rightarrow> nat \<Rightarrow> verror + nat" where
  "blocksFor n blockSize =
     (if blockSize = 0 then Inl (ErrPanic ''blocksFor with zero block size'')
      else Inr (sub64 (add64 n blockSize) 1 div blockSize))"

section \<open>Validation of the superblock\<close>

definition maxInt64 :: nat where "maxInt64 = 2 ^ 63 - 1"

definition validate :: "superblock \<Rightarrow> nat \<Rightarrow> verror option" where
  "validate s fileSize =
     (if \<not> isPow2InRange (sb_blockSize s) then Some (ErrInvalid ''block size'')
      else if \<not> isPow2InRange (sb_pageSize s) then Some (ErrInvalid ''page size'')
      else if sb_pageSize s < sb_blockSize s then Some (ErrInvalid ''block size exceeds page size'')
      else if sb_segEntries s = 0 then Some (ErrInvalid ''segment size is zero'')
      else if maxInt64 div sb_pageSize s < sb_pageCount s then Some (ErrInvalid ''page count'')
      else let bs = sb_blockSize s;
               fsz = fileSize;
               dirBytes = mul64 (sb_dirBlocks s) bs
        in if fsz < sb_dirOffset s \<or> sub64 fsz (sb_dirOffset s) < dirBytes
           then Some (ErrInvalid ''segment index extent'')
           else if dirBytes < mul64 (segmentCount (sb_pageCount s) (sb_segEntries s)) segDescSize
           then Some (ErrInvalid ''segment index too small'')
           else if sb_keyslotOffset s = 0 then None
           else if sb_keyslotOffset s mod bs \<noteq> 0 \<or> fsz \<le> sb_keyslotOffset s
                   \<or> sub64 fsz (sb_keyslotOffset s) < bs
           then Some (ErrInvalid ''keyslot offset'')
           else if sb_keyslotOffset s < add64 (sb_dirOffset s) dirBytes
                   \<and> sb_dirOffset s < add64 (sb_keyslotOffset s) bs
           then Some (ErrInvalid ''keyslot overlaps the directory'')
           else None)"

section \<open>Validation of the directory\<close>

fun first_err :: "('a \<Rightarrow> verror option) \<Rightarrow> 'a list \<Rightarrow> verror option" where
  "first_err f [] = None"
| "first_err f (x # xs) = (case f x of Some e \<Rightarrow> Some e | None \<Rightarrow> first_err f xs)"

definition validate_slot :: "superblock \<Rightarrow> nat \<Rightarrow> dirEntry \<Rightarrow> verror option" where
  "validate_slot sb fsz e = (let bs = sb_blockSize sb in
     if de_physOffset e = 0 then None
     else if de_storedLen e = 0 \<or> sb_pageSize sb < de_storedLen e then Some (ErrInvalid ''slot length'')
     else (case blocksFor (de_storedLen e) bs of Inl p \<Rightarrow> Some p
       | Inr n \<Rightarrow>
         if de_blocks e \<noteq> n then Some (ErrInvalid ''slot block count'')
         else if de_physOffset e mod bs \<noteq> 0 then Some (ErrInvalid ''slot offset not aligned'')
         else let span = mul64 (de_blocks e) bs; end = add64 (de_physOffset e) span
           in if end < de_physOffset e \<or> fsz < end then Some (ErrInvalid ''slot out of bounds'')
              else None))"

definition validate_seg :: "superblock \<Rightarrow> nat \<Rightarrow> segDesc \<Rightarrow> verror option" where
  "validate_seg sb fsz d = (let bs = sb_blockSize sb in
     if sd_physOffset d = 0 then None
     else if sd_physOffset d mod bs \<noteq> 0 then Some (ErrInvalid ''segment offset not aligned'')
     else let span = mul64 (sd_blocks d) bs; end = add64 (sd_physOffset d) span
       in if sd_blocks d = 0 \<or> end < sd_physOffset d \<or> fsz < end
          then Some (ErrInvalid ''segment out of bounds'') else None)"

text \<open>The \<^verbatim>\<open>blockRun\<close> list: superblocks, segment index, keyslot, segments, slots.\<close>

definition block_run :: "nat \<Rightarrow> nat \<Rightarrow> nat \<Rightarrow> nat \<times> nat" where
  "block_run bs physOffset blocks = (let s = physOffset div bs in (s, add64 s blocks))"

definition meta_runs :: "superblock \<Rightarrow> nat \<Rightarrow> (nat \<times> nat) list" where
  "meta_runs sb keyslotBlocks =
     [(0, superblockBlocks)]
     @ (if 0 < sb_dirBlocks sb then [block_run (sb_blockSize sb) (sb_dirOffset sb) (sb_dirBlocks sb)] else [])
     @ (if sb_keyslotOffset sb \<noteq> 0
        then [block_run (sb_blockSize sb) (sb_keyslotOffset sb)
                (if keyslotBlocks = 0 then 1 else keyslotBlocks)] else [])"

definition seg_runs :: "nat \<Rightarrow> segDesc list \<Rightarrow> (nat \<times> nat) list" where
  "seg_runs bs segs =
     map (\<lambda>d. block_run bs (sd_physOffset d) (sd_blocks d)) (filter (\<lambda>d. sd_physOffset d \<noteq> 0) segs)"

definition slot_runs :: "nat \<Rightarrow> dirEntry list \<Rightarrow> (nat \<times> nat) list" where
  "slot_runs bs dir =
     map (\<lambda>e. block_run bs (de_physOffset e) (de_blocks e)) (filter (\<lambda>e. de_physOffset e \<noteq> 0) dir)"

fun overlapping :: "(nat \<times> nat) list \<Rightarrow> bool" where
  "overlapping (r1 # r2 # rs) \<longleftrightarrow> fst r2 < snd r1 \<or> overlapping (r2 # rs)"
| "overlapping _ \<longleftrightarrow> False"

definition validateDirectory ::
  "dirEntry list \<Rightarrow> segDesc list \<Rightarrow> superblock \<Rightarrow> nat \<Rightarrow> nat \<Rightarrow> verror option" where
  "validateDirectory dir segs sb fileSize keyslotBlocks =
     (case first_err (validate_slot sb fileSize) dir of
        Some e \<Rightarrow> Some e
      | None \<Rightarrow> (case first_err (validate_seg sb fileSize) segs of
          Some e \<Rightarrow> Some e
        | None \<Rightarrow>
          if overlapping (sort_key fst
               (meta_runs sb keyslotBlocks @ seg_runs (sb_blockSize sb) segs @ slot_runs (sb_blockSize sb) dir))
          then Some (ErrInvalid ''overlapping extents'') else None))"


section \<open>The geometry helpers compute what they say\<close>

lemma segmentCount_exact:
  "0 < segEntries \<Longrightarrow> pageCount + segEntries < 2 ^ 64 \<Longrightarrow>
     segmentCount pageCount segEntries = (pageCount + segEntries - 1) div segEntries"
  by (simp add: segmentCount_def add64_exact sub64_exact)

lemma segmentCount_covers:
  assumes "0 < segEntries" "pageCount + segEntries < 2 ^ 64"
  shows "s < segmentCount pageCount segEntries \<longleftrightarrow> s * segEntries < pageCount"
proof -
  have "s < (pageCount + segEntries - 1) div segEntries
      \<longleftrightarrow> Suc s * segEntries \<le> pageCount + segEntries - 1"
    by (metis Suc_le_eq assms(1) less_eq_div_iff_mult_less_eq)
  also have "\<dots> \<longleftrightarrow> s * segEntries < pageCount" using assms(1) by auto
  finally show ?thesis by (simp only: segmentCount_exact [OF assms])
qed

lemma segmentBounds_exact:
  assumes "0 < segEntries" "pageCount + segEntries < 2 ^ 64" "s < segmentCount pageCount segEntries"
  shows "segmentBounds s segEntries pageCount
           = (s * segEntries, min (s * segEntries + segEntries) pageCount)"
proof -
  have "s * segEntries < pageCount" using segmentCount_covers [OF assms(1,2)] assms(3) by blast
  then show ?thesis using assms(2) by (simp add: segmentBounds_def Let_def mul64_exact add64_exact)
qed

lemma blocksFor_ok:
  assumes "0 < bs" "n + bs < 2 ^ 64"
  obtains k where "blocksFor n bs = Inr k" "n \<le> k * bs" "k * bs < n + bs"
proof
  let ?k = "(n + bs - 1) div bs"
  show "blocksFor n bs = Inr ?k"
    using assms by (simp add: blocksFor_def add64_exact sub64_exact)
  have "?k * bs + (n + bs - 1) mod bs = n + bs - 1" by simp
  moreover have "(n + bs - 1) mod bs < bs" using assms(1) by simp
  ultimately show "n \<le> ?k * bs" "?k * bs < n + bs" using assms(1) by linarith+
qed

lemma isPow2InRange_bounds: "isPow2InRange n \<Longrightarrow> 512 \<le> n \<and> n \<le> 65536"
  by (simp add: isPow2InRange_def)

section \<open>What an accepted superblock guarantees\<close>

text \<open>\<open>superblock_sane\<close> is the mathematical reading of an accepted superblock, without wrapping.\<close>

definition superblock_sane :: "superblock \<Rightarrow> nat \<Rightarrow> bool" where
  "superblock_sane s fileSize \<longleftrightarrow>
     512 \<le> sb_blockSize s \<and> sb_blockSize s \<le> sb_pageSize s \<and> sb_pageSize s \<le> 65536 \<and>
     0 < sb_segEntries s \<and>
     sb_pageCount s * sb_pageSize s \<le> maxInt64 \<and>
     sb_dirOffset s + sb_dirBlocks s * sb_blockSize s \<le> fileSize \<and>
     segmentCount (sb_pageCount s) (sb_segEntries s) * segDescSize \<le> sb_dirBlocks s * sb_blockSize s \<and>
     (sb_keyslotOffset s \<noteq> 0 \<longrightarrow>
        sb_blockSize s dvd sb_keyslotOffset s \<and> sb_keyslotOffset s + sb_blockSize s \<le> fileSize \<and>
        (sb_keyslotOffset s + sb_blockSize s \<le> sb_dirOffset s \<or>
         sb_dirOffset s + sb_dirBlocks s * sb_blockSize s \<le> sb_keyslotOffset s))"

lemma page_count_bound:
  assumes "\<not> maxInt64 div ps < pc" "512 \<le> ps"
  shows "pc * ps \<le> maxInt64" "pc < 2 ^ 54"
proof -
  have "pc \<le> maxInt64 div ps" using assms(1) by simp
  then have "pc * ps \<le> maxInt64 div ps * ps" by (rule mult_le_mono1)
  also have "\<dots> \<le> maxInt64" by simp
  finally show le: "pc * ps \<le> maxInt64" .
  have "pc * 512 \<le> pc * ps" using assms(2) by simp
  with le have "pc * 512 \<le> maxInt64" by linarith
  then show "pc < 2 ^ 54" by (simp add: maxInt64_def)
qed

lemma segment_index_bytes_exact:
  assumes "0 < se" "pc < 2 ^ 54" "se < 2 ^ 32"
  shows "mul64 (segmentCount pc se) segDescSize = segmentCount pc se * segDescSize"
proof -
  have "segmentCount pc se \<le> pc + se - 1"
    using assms by (simp add: segmentCount_exact)
  then have "segmentCount pc se * 36 < 2 ^ 64" using assms by simp
  then show ?thesis by (simp add: mul64_exact layout_defs)
qed

lemma validate_accepts:
  assumes wf: "superblock_wf s" and fs: "fileSize \<le> maxInt64" and ok: "validate s fileSize = None"
  shows "superblock_sane s fileSize"
proof -
  let ?bs = "sb_blockSize s" and ?ps = "sb_pageSize s"
  have bs: "512 \<le> ?bs" "?bs \<le> 65536" and ps: "512 \<le> ?ps" "?ps \<le> 65536" and "?bs \<le> ?ps"
    and se: "0 < sb_segEntries s" and pc: "\<not> maxInt64 div ?ps < sb_pageCount s"
    using ok by (auto simp: validate_def isPow2InRange_def Let_def split: if_splits)
  have lt: "sb_dirBlocks s < 2 ^ 32" "sb_segEntries s < 2 ^ 32" "sb_dirOffset s < 2 ^ 64"
      "sb_keyslotOffset s < 2 ^ 64"
    using wf by (auto simp: superblock_wf_def)
  have "sb_dirBlocks s * ?bs \<le> 2 ^ 32 * 65536"
    using lt(1) bs(2) by (intro mult_le_mono) simp_all
  then have db: "mul64 (sb_dirBlocks s) ?bs = sb_dirBlocks s * ?bs"
    by (intro mul64_exact) simp
  note pcb = page_count_bound [OF pc ps(1)]
  note si = segment_index_bytes_exact [OF se pcb(2) lt(2)]
  have dir: "sb_dirOffset s \<le> fileSize" "sb_dirBlocks s * ?bs \<le> fileSize - sb_dirOffset s"
    using ok by (auto simp: validate_def Let_def db sub64_exact split: if_splits)
  have idx: "segmentCount (sb_pageCount s) (sb_segEntries s) * segDescSize \<le> sb_dirBlocks s * ?bs"
    using ok by (auto simp: validate_def Let_def db si split: if_splits)
  have de: "add64 (sb_dirOffset s) (sb_dirBlocks s * ?bs) = sb_dirOffset s + sb_dirBlocks s * ?bs"
    using dir fs by (intro add64_exact) (simp add: maxInt64_def)
  have key: "?bs dvd sb_keyslotOffset s \<and> sb_keyslotOffset s + ?bs \<le> fileSize \<and>
       (sb_keyslotOffset s + ?bs \<le> sb_dirOffset s \<or>
        sb_dirOffset s + sb_dirBlocks s * ?bs \<le> sb_keyslotOffset s)"
    if nz: "sb_keyslotOffset s \<noteq> 0"
  proof -
    have k: "sb_keyslotOffset s mod ?bs = 0" "sb_keyslotOffset s < fileSize"
        "?bs \<le> sub64 fileSize (sb_keyslotOffset s)"
        "\<not> (sb_keyslotOffset s < add64 (sb_dirOffset s) (sb_dirBlocks s * ?bs)
            \<and> sb_dirOffset s < add64 (sb_keyslotOffset s) ?bs)"
      using ok nz by (auto simp: validate_def Let_def db split: if_splits)
    have "add64 (sb_keyslotOffset s) ?bs = sb_keyslotOffset s + ?bs"
      using k(2) fs bs by (intro add64_exact) (simp add: maxInt64_def)
    then show ?thesis using k by (auto simp: sub64_exact de mod_eq_0_iff_dvd)
  qed
  show ?thesis
    unfolding superblock_sane_def using bs ps \<open>?bs \<le> ?ps\<close> se pcb(1) dir idx key by auto
qed


section \<open>What an accepted directory guarantees\<close>

lemma first_err_None: "first_err f xs = None \<longleftrightarrow> (\<forall>x\<in>set xs. f x = None)"
  by (induction xs) (auto split: option.splits)

lemma overlapping_chain:
  assumes "sorted (map fst rs)" "\<not> overlapping rs" "\<forall>r\<in>set rs. fst r < snd r \<and> snd r \<le> hi"
    and "lo \<le> hi" "\<forall>r\<in>set rs. lo \<le> fst r"
  shows "chain lo rs hi"
  using assms
proof (induction rs arbitrary: lo rule: overlapping.induct)
  case (1 r1 r2 rs)
  have "chain (snd r1) (r2 # rs) hi"
    using 1 by (intro "1.IH") auto
  then show ?case using 1 by (cases r1) auto
qed (auto split: prod.splits)

text \<open>A block run in the file, of a byte extent in the file.\<close>

lemma block_run_in_file:
  assumes "0 < bs" "0 < n" "off + n * bs \<le> fileSize" "fileSize < 2 ^ 64"
  shows "fst (block_run bs off n) < snd (block_run bs off n)"
    and "snd (block_run bs off n) \<le> fileSize div bs"
    and "block_run bs off n = (off div bs, off div bs + n)"
proof -
  have "(off div bs + n) * bs \<le> off + n * bs"
    by (simp add: add_mult_distrib)
  then have "(off div bs + n) * bs \<le> fileSize" using assms(3) by linarith
  then have le: "off div bs + n \<le> fileSize div bs"
    using assms(1) by (simp add: less_eq_div_iff_mult_less_eq)
  have "fileSize div bs \<le> fileSize" by simp
  then have "off div bs + n < 2 ^ 64" using le assms(4) by linarith
  then show "block_run bs off n = (off div bs, off div bs + n)"
    by (simp add: block_run_def Let_def add64_exact)
  then show "fst (block_run bs off n) < snd (block_run bs off n)"
    "snd (block_run bs off n) \<le> fileSize div bs"
    using assms(2) le by auto
qed

lemma extent_end_exact:
  assumes "off < 2 ^ 64" "n < 2 ^ 32" "bs \<le> 65536" "fsz < 2 ^ 63"
    and "\<not> add64 off (mul64 n bs) < off" "\<not> fsz < add64 off (mul64 n bs)"
  shows "off + n * bs \<le> fsz"
proof -
  have "n * bs \<le> 2 ^ 32 * 65536" using assms(2,3) by (intro mult_le_mono) simp_all
  then have m: "mul64 n bs = n * bs" "n * bs < 2 ^ 64" by (simp_all add: mul64_exact)
  then have "off + n * bs < 2 ^ 64"
    using add64_wrap_iff [OF assms(1) m(2)] assms(5) by (simp add: m)
  then show ?thesis using assms(6) by (simp add: m add64_exact)
qed

lemma validate_slot_sound:
  assumes "superblock_sane sb fileSize" "fileSize \<le> maxInt64" "dirEntry_wf e"
    "validate_slot sb fileSize e = None" "de_physOffset e \<noteq> 0"
  shows "0 < de_blocks e" "de_storedLen e \<le> de_blocks e * sb_blockSize sb"
    "0 < de_storedLen e" "de_storedLen e \<le> sb_pageSize sb"
    "sb_blockSize sb dvd de_physOffset e" "de_physOffset e + de_blocks e * sb_blockSize sb \<le> fileSize"
proof -
  let ?bs = "sb_blockSize sb"
  have bs: "512 \<le> ?bs" "?bs \<le> 65536" using assms(1) by (auto simp: superblock_sane_def)
  have len: "0 < de_storedLen e" "de_storedLen e \<le> sb_pageSize sb" "sb_pageSize sb \<le> 65536"
    using assms(1,4,5) by (auto simp: validate_slot_def superblock_sane_def Let_def split: if_splits)
  obtain k where k: "blocksFor (de_storedLen e) ?bs = Inr k" "de_storedLen e \<le> k * ?bs"
    using blocksFor_ok [of ?bs "de_storedLen e"] len bs by auto
  then have n: "de_blocks e = k" and al: "de_physOffset e mod ?bs = 0"
    and nw: "\<not> add64 (de_physOffset e) (mul64 (de_blocks e) ?bs) < de_physOffset e"
    and nb: "\<not> fileSize < add64 (de_physOffset e) (mul64 (de_blocks e) ?bs)"
    using assms(4,5) len by (auto simp: validate_slot_def Let_def split: if_splits)
  show "de_storedLen e \<le> de_blocks e * ?bs" using k(2) n by simp
  with len(1) show "0 < de_blocks e" by (cases "de_blocks e") auto
  show "0 < de_storedLen e" "de_storedLen e \<le> sb_pageSize sb" by (fact len)+
  show "?bs dvd de_physOffset e" using al by (simp add: mod_eq_0_iff_dvd)
  show "de_physOffset e + de_blocks e * ?bs \<le> fileSize"
    using extent_end_exact [OF _ _ bs(2) _ nw nb] assms(2,3) by (simp add: dirEntry_wf_def maxInt64_def)
qed

lemma validate_seg_sound:
  assumes "superblock_sane sb fileSize" "fileSize \<le> maxInt64" "segDesc_wf d"
    "validate_seg sb fileSize d = None" "sd_physOffset d \<noteq> 0"
  shows "0 < sd_blocks d" "sb_blockSize sb dvd sd_physOffset d"
    "sd_physOffset d + sd_blocks d * sb_blockSize sb \<le> fileSize"
proof -
  let ?bs = "sb_blockSize sb"
  have bs: "?bs \<le> 65536" using assms(1) by (auto simp: superblock_sane_def)
  show "0 < sd_blocks d" "?bs dvd sd_physOffset d"
    using assms(4,5) by (auto simp: validate_seg_def Let_def mod_eq_0_iff_dvd split: if_splits)
  have nw: "\<not> add64 (sd_physOffset d) (mul64 (sd_blocks d) ?bs) < sd_physOffset d"
    and nb: "\<not> fileSize < add64 (sd_physOffset d) (mul64 (sd_blocks d) ?bs)"
    using assms(4,5) by (auto simp: validate_seg_def Let_def split: if_splits)
  show "sd_physOffset d + sd_blocks d * ?bs \<le> fileSize"
    using extent_end_exact [OF _ _ bs _ nw nb] assms(2,3) by (simp add: segDesc_wf_def maxInt64_def)
qed

definition all_runs :: "dirEntry list \<Rightarrow> segDesc list \<Rightarrow> superblock \<Rightarrow> nat \<Rightarrow> (nat \<times> nat) list" where
  "all_runs dir segs sb keyslotBlocks =
     meta_runs sb keyslotBlocks @ seg_runs (sb_blockSize sb) segs @ slot_runs (sb_blockSize sb) dir"

text \<open>The keyslot may end in a partial last block of the file, so its run is bounded separately.\<close>

definition keyslot_run :: "superblock \<Rightarrow> nat \<Rightarrow> nat \<times> nat" where
  "keyslot_run sb keyslotBlocks = (let s = sb_keyslotOffset sb div sb_blockSize sb
     in (s, s + (if keyslotBlocks = 0 then 1 else keyslotBlocks)))"

definition keyslot_below :: "superblock \<Rightarrow> nat \<Rightarrow> nat \<Rightarrow> bool" where
  "keyslot_below sb keyslotBlocks hi \<longleftrightarrow> (sb_keyslotOffset sb \<noteq> 0 \<longrightarrow> snd (keyslot_run sb keyslotBlocks) \<le> hi)"

lemma all_runs_below:
  assumes "superblock_sane sb fileSize" "fileSize \<le> maxInt64" "keyslot_below sb kb hi"
    "fileSize div sb_blockSize sb \<le> hi" "superblockBlocks \<le> hi" "hi < 2 ^ 64"
    "\<forall>e\<in>set dir. dirEntry_wf e" "\<forall>d\<in>set segs. segDesc_wf d"
    "\<forall>e\<in>set dir. validate_slot sb fileSize e = None" "\<forall>d\<in>set segs. validate_seg sb fileSize d = None"
    "r \<in> set (all_runs dir segs sb kb)"
  shows "fst r < snd r \<and> snd r \<le> hi"
proof -
  let ?bs = "sb_blockSize sb"
  have bs: "0 < ?bs" and fs: "fileSize < 2 ^ 64"
    using assms(1,2) by (auto simp: superblock_sane_def maxInt64_def)
  have run: "fst (block_run ?bs off n) < snd (block_run ?bs off n)
      \<and> snd (block_run ?bs off n) \<le> hi"
    if "0 < n" "off + n * ?bs \<le> fileSize" for off n
    using block_run_in_file [OF bs that fs] assms(4) by auto
  have dir: "sb_dirOffset sb + sb_dirBlocks sb * ?bs \<le> fileSize"
    using assms(1) by (simp add: superblock_sane_def)
  have key: "block_run ?bs (sb_keyslotOffset sb) (if kb = 0 then 1 else kb) = keyslot_run sb kb"
    if "sb_keyslotOffset sb \<noteq> 0"
    using assms(3,6) that by (auto simp: keyslot_below_def keyslot_run_def block_run_def Let_def add64_exact)
  consider "r = (0, superblockBlocks)"
    | "0 < sb_dirBlocks sb" "r = block_run ?bs (sb_dirOffset sb) (sb_dirBlocks sb)"
    | "sb_keyslotOffset sb \<noteq> 0" "r = block_run ?bs (sb_keyslotOffset sb) (if kb = 0 then 1 else kb)"
    | d where "d \<in> set segs" "sd_physOffset d \<noteq> 0" "r = block_run ?bs (sd_physOffset d) (sd_blocks d)"
    | e where "e \<in> set dir" "de_physOffset e \<noteq> 0" "r = block_run ?bs (de_physOffset e) (de_blocks e)"
    using assms(11) by (auto simp: all_runs_def meta_runs_def seg_runs_def slot_runs_def split: if_splits)
  then show ?thesis
  proof cases
    case 1 then show ?thesis using assms(5) by (simp add: superblockBlocks_def)
  next
    case 2 then show ?thesis using run dir by simp
  next
    case 3 then show ?thesis using key assms(3) by (auto simp: keyslot_below_def keyslot_run_def Let_def)
  next
    case 4 then show ?thesis using run validate_seg_sound [OF assms(1,2)] assms(8,10) by simp
  next
    case 5 then show ?thesis using run validate_slot_sound [OF assms(1,2)] assms(7,9) by simp
  qed
qed

lemma validateDirectory_sound:
  assumes "superblock_sane sb fileSize" "fileSize \<le> maxInt64" "keyslot_below sb kb hi"
    "fileSize div sb_blockSize sb \<le> hi" "superblockBlocks \<le> hi" "hi < 2 ^ 64"
    "\<forall>e\<in>set dir. dirEntry_wf e" "\<forall>d\<in>set segs. segDesc_wf d"
    and ok: "validateDirectory dir segs sb fileSize kb = None"
  shows "run_bag (all_runs dir segs sb kb) \<subseteq># region 0 hi"
    and "\<forall>e\<in>set dir. validate_slot sb fileSize e = None" "\<forall>d\<in>set segs. validate_seg sb fileSize d = None"
proof -
  let ?rs = "sort_key fst (all_runs dir segs sb kb)"
  show each: "\<forall>e\<in>set dir. validate_slot sb fileSize e = None"
      "\<forall>d\<in>set segs. validate_seg sb fileSize d = None"
    using ok by (auto simp: validateDirectory_def first_err_None split: option.splits)
  have no: "\<not> overlapping ?rs"
    using ok by (auto simp: validateDirectory_def all_runs_def split: option.splits if_splits)
  have "\<forall>r\<in>set ?rs. fst r < snd r \<and> snd r \<le> hi"
    using all_runs_below [OF assms(1-8) each] by simp
  then have "chain 0 ?rs hi"
    using no by (intro overlapping_chain) auto
  then have "run_bag ?rs \<subseteq># region 0 hi"
    by (rule chain_run_bag)
  then show "run_bag (all_runs dir segs sb kb) \<subseteq># region 0 hi"
    using run_bag_cong [of ?rs "all_runs dir segs sb kb"] by simp
qed

text \<open>C37: A superblock that \<^verbatim>\<open>validate\<close> accepts is sane over the integers, not only in the wrapping
  64-bit arithmetic of the check: sizes are in range, the logical size fits an int64, the segment index lies
  inside the file and has room for every descriptor, and the key slot is aligned, inside the file and apart
  from the index.\<close>

theorem validate_sound:
  assumes "superblock_wf s" "fileSize \<le> maxInt64" "validate s fileSize = None"
  shows "superblock_sane s fileSize"
  using assms by (rule validate_accepts)

lemma sample_validates: "12288 \<le> n \<Longrightarrow> n < 2 ^ 63 \<Longrightarrow> validate sample_superblock n = None"
  by (simp add: validate_def isPow2InRange_def sample_superblock_def segmentCount_def maxInt64_def mul64_def add64_def
      sub64_def layout_defs Let_def)

theorem validate_sound_witness:
  "validate sample_superblock 12288 = None \<and> superblock_sane sample_superblock 12288"
proof -
  have v: "validate sample_superblock 12288 = None" by (rule sample_validates) simp_all
  have "superblock_wf sample_superblock"
    by (simp add: superblock_wf_def sample_superblock_def layout_defs)
  from validate_sound [OF this _ v] v show ?thesis by (simp add: maxInt64_def)
qed

text \<open>When \<^verbatim>\<open>validateDirectory\<close> accepts a directory, the superblocks, the index, the key slot, every
  directory segment and every page slot occupy pairwise disjoint blocks below \<open>hi\<close>: no block is claimed
  twice, so no two pages share storage.\<close>

theorem validateDirectory_disjoint:
  assumes "superblock_sane sb fileSize" "fileSize \<le> maxInt64" "keyslot_below sb kb hi"
    "fileSize div sb_blockSize sb \<le> hi" "superblockBlocks \<le> hi" "hi < 2 ^ 64"
    "\<forall>e\<in>set dir. dirEntry_wf e" "\<forall>d\<in>set segs. segDesc_wf d"
    "validateDirectory dir segs sb fileSize kb = None"
  shows "run_bag (all_runs dir segs sb kb) \<subseteq># region 0 hi"
  using assms by (rule validateDirectory_sound(1))

definition placed_entry :: dirEntry where
  "placed_entry = sample_entry\<lparr>de_physOffset := 12288\<rparr>"

theorem validateDirectory_disjoint_witness:
  "validateDirectory [placed_entry, sparseEntry] [] sample_superblock 16384 0 = None \<and>
   run_bag (all_runs [placed_entry, sparseEntry] [] sample_superblock 0) \<subseteq># region 0 4"
proof -
  have v: "validateDirectory [placed_entry, sparseEntry] [] sample_superblock 16384 0 = None"
    by (simp add: validateDirectory_def validate_slot_def meta_runs_def seg_runs_def slot_runs_def block_run_def
        placed_entry_def sample_entry_def sparseEntry_def sample_superblock_def layout_defs blocksFor_def
        superblockBlocks_def mul64_def add64_def sub64_def Let_def)
  have "validate sample_superblock 16384 = None" by (rule sample_validates) simp_all
  moreover have "superblock_wf sample_superblock"
    by (simp add: superblock_wf_def sample_superblock_def layout_defs)
  ultimately have sane: "superblock_sane sample_superblock 16384"
    by (intro validate_accepts) (simp_all add: maxInt64_def)
  have "keyslot_below sample_superblock 0 4" by (simp add: keyslot_below_def sample_superblock_def)
  from validateDirectory_disjoint [OF sane _ this _ _ _ _ _ v] v show ?thesis
    by (simp add: maxInt64_def sample_superblock_def superblockBlocks_def dirEntry_wf_def placed_entry_def
        sample_entry_def sparseEntry_def layout_defs)
qed

end
