(* ===== verification/Vault_Alloc.thy ===== *)
theory Vault_Alloc
  imports Vault_Validate
begin

text \<open>
  The block allocator of the vault container (\<^verbatim>\<open>src/vfs/vault/format.go\<close>): a start-sorted,
  coalesced free list served first-fit, a high-water mark that grows the file, and the
  reconstruction of both from a committed directory on open.

  The specification is an accounting of blocks: \<open>free_bag\<close> is the multiset of free blocks, and
  every operation is characterised by what it adds to or removes from it. \<open>alloc_inv\<close> is the
  representation invariant (sorted, coalesced, below the high-water mark).
\<close>

record extent =
  ex_start :: nat
  ex_count :: nat

record allocator =
  al_free :: "extent list"
  al_highWater :: nat

section \<open>Operations\<close>

fun coalesce_into :: "extent list \<Rightarrow> extent list \<Rightarrow> extent list" where
  "coalesce_into out [] = out"
| "coalesce_into out (e # es) =
     (if ex_count e = 0 then coalesce_into out es
      else if out \<noteq> [] \<and> add64 (ex_start (last out)) (ex_count (last out)) = ex_start e
      then coalesce_into (butlast out @ [(last out)\<lparr>ex_count := add64 (ex_count (last out)) (ex_count e)\<rparr>]) es
      else coalesce_into (out @ [e]) es)"

definition coalesce :: "allocator \<Rightarrow> allocator" where
  "coalesce a = a\<lparr>al_free := coalesce_into [] (al_free a)\<rparr>"

definition newAllocator :: "extent list \<Rightarrow> nat \<Rightarrow> allocator" where
  "newAllocator free highWater =
     coalesce \<lparr>al_free = sort_key ex_start free, al_highWater = highWater\<rparr>"

fun alloc_fit :: "nat \<Rightarrow> extent list \<Rightarrow> (nat \<times> extent list) option" where
  "alloc_fit blocks [] = None"
| "alloc_fit blocks (e # es) =
     (if blocks \<le> ex_count e
      then Some (ex_start e,
             if ex_count e = blocks then es
             else e\<lparr>ex_start := add64 (ex_start e) blocks, ex_count := sub64 (ex_count e) blocks\<rparr> # es)
      else case alloc_fit blocks es of
             None \<Rightarrow> None
           | Some (start, es') \<Rightarrow> Some (start, e # es'))"

definition alloc :: "nat \<Rightarrow> allocator \<Rightarrow> verror + (nat \<times> allocator)" where
  "alloc blocks a =
     (if blocks = 0 then Inl (ErrPanic ''alloc of zero blocks'')
      else case alloc_fit blocks (al_free a) of
             Some (start, free) \<Rightarrow> Inr (start, a\<lparr>al_free := free\<rparr>)
           | None \<Rightarrow> Inr (al_highWater a, a\<lparr>al_highWater := add64 (al_highWater a) blocks\<rparr>))"

fun fit_above :: "nat \<Rightarrow> nat \<Rightarrow> extent list \<Rightarrow> nat option" where
  "fit_above blocks floor [] = None"
| "fit_above blocks floor (e # es) =
     (let start = ex_start e; count = ex_count e in
      if start < floor \<and> add64 start count \<le> floor then fit_above blocks floor es
      else let start' = (if start < floor then floor else start);
               count' = (if start < floor then sub64 count (sub64 floor start) else count)
        in if blocks \<le> count' then Some start' else fit_above blocks floor es)"

definition lowestFitAbove :: "nat \<Rightarrow> nat \<Rightarrow> allocator \<Rightarrow> nat option" where
  "lowestFitAbove blocks floor a = fit_above blocks floor (al_free a)"

fun carve :: "nat \<Rightarrow> nat \<Rightarrow> extent list \<Rightarrow> extent list option" where
  "carve start blocks [] = None"
| "carve start blocks (e # es) =
     (if start < ex_start e \<or> add64 (ex_start e) (ex_count e) < add64 start blocks
      then map_option ((#) e) (carve start blocks es)
      else Some
        ((if ex_start e < start then [\<lparr>ex_start = ex_start e, ex_count = sub64 start (ex_start e)\<rparr>] else [])
         @ (if add64 start blocks < add64 (ex_start e) (ex_count e)
            then [\<lparr>ex_start = add64 start blocks,
                   ex_count = sub64 (add64 (ex_start e) (ex_count e)) (add64 start blocks)\<rparr>] else [])
         @ es))"

definition allocAt :: "nat \<Rightarrow> nat \<Rightarrow> allocator \<Rightarrow> verror + allocator" where
  "allocAt start blocks a =
     (case carve start blocks (al_free a) of
        Some free \<Rightarrow> Inr (a\<lparr>al_free := free\<rparr>)
      | None \<Rightarrow> Inl (ErrPanic ''allocAt run not within a free extent''))"

text \<open>\<^verbatim>\<open>sort.Search\<close>: binary search for the least index at which a monotone predicate holds.\<close>

function sort_search :: "(nat \<Rightarrow> bool) \<Rightarrow> nat \<Rightarrow> nat \<Rightarrow> nat" where
  "sort_search f i j =
     (if i < j
      then let h = (i + j) div 2
           in if \<not> f h then sort_search f (h + 1) j else sort_search f i h
      else i)"
  by pat_completeness auto
termination
  by (relation "measure (\<lambda>(f, i, j). j - i)") auto

declare sort_search.simps [simp del]

definition release :: "nat \<Rightarrow> nat \<Rightarrow> allocator \<Rightarrow> allocator" where
  "release start cnt a =
     (if cnt = 0 then a
      else let i = sort_search (\<lambda>i. start \<le> ex_start (al_free a ! i)) 0 (length (al_free a))
        in coalesce (a\<lparr>al_free := take i (al_free a) @ [\<lparr>ex_start = start, ex_count = cnt\<rparr>]
                                    @ drop i (al_free a)\<rparr>))"

definition freeBlocksTotal :: "allocator \<Rightarrow> nat" where
  "freeBlocksTotal a = foldl (\<lambda>n e. add64 n (ex_count e)) 0 (al_free a)"

section \<open>Rebuilding on open\<close>

definition used_run :: "nat \<Rightarrow> nat \<Rightarrow> nat \<Rightarrow> (nat \<times> nat) list" where
  "used_run bs physOffset blocks = (if blocks = 0 then [] else [(physOffset div bs, blocks)])"

text \<open>The runs the committed state references, as (start, count): segment index, keyslot, segments,
  slots.\<close>

definition used_runs :: "dirEntry list \<Rightarrow> segDesc list \<Rightarrow> superblock \<Rightarrow> nat \<Rightarrow> (nat \<times> nat) list" where
  "used_runs dir segs sb keyslotBlocks = (let bs = sb_blockSize sb in
     used_run bs (sb_dirOffset sb) (sb_dirBlocks sb)
     @ used_run bs (sb_keyslotOffset sb) keyslotBlocks
     @ concat (map (\<lambda>d. used_run bs (sd_physOffset d) (sd_blocks d)) segs)
     @ concat (map (\<lambda>e. used_run bs (de_physOffset e) (de_blocks e)) dir))"

fun gaps :: "nat \<Rightarrow> (nat \<times> nat) list \<Rightarrow> extent list \<times> nat" where
  "gaps cursor [] = ([], cursor)"
| "gaps cursor ((start, cnt) # us) =
     (let gap = (if cursor < start then [\<lparr>ex_start = cursor, ex_count = sub64 start cursor\<rparr>] else []);
          end = add64 start cnt;
          (rest, c) = gaps (if cursor < end then end else cursor) us
      in (gap @ rest, c))"

definition rebuildAllocator :: "dirEntry list \<Rightarrow> segDesc list \<Rightarrow> superblock \<Rightarrow> nat \<Rightarrow> nat \<Rightarrow> allocator" where
  "rebuildAllocator dir segs sb fileSize keyslotBlocks =
     (let highWater = fileSize div sb_blockSize sb;
          (free, cursor) = gaps superblockBlocks (sort_key fst (used_runs dir segs sb keyslotBlocks));
          highWater' = (if highWater < cursor then cursor else highWater);
          tail = (if cursor < highWater'
                  then [\<lparr>ex_start = cursor, ex_count = sub64 highWater' cursor\<rparr>] else [])
      in newAllocator (free @ tail) highWater')"


section \<open>Representation invariant\<close>

abbreviation ex_run :: "extent \<Rightarrow> nat \<times> nat" where
  "ex_run e \<equiv> (ex_start e, ex_start e + ex_count e)"

definition free_bag :: "allocator \<Rightarrow> nat multiset" where
  "free_bag a = run_bag (map ex_run (al_free a))"

text \<open>Non-empty extents in ascending order with at least one block between neighbours.\<close>

fun free_chain :: "nat \<Rightarrow> extent list \<Rightarrow> nat \<Rightarrow> bool" where
  "free_chain lo [] hi \<longleftrightarrow> True"
| "free_chain lo (e # es) hi \<longleftrightarrow>
     lo \<le> ex_start e \<and> 0 < ex_count e \<and> ex_start e + ex_count e \<le> hi
     \<and> free_chain (Suc (ex_start e + ex_count e)) es hi"

definition alloc_inv :: "allocator \<Rightarrow> bool" where
  "alloc_inv a \<longleftrightarrow> superblockBlocks \<le> al_highWater a \<and> al_highWater a < 2 ^ 64 \<and>
     free_chain superblockBlocks (al_free a) (al_highWater a)"

lemma free_chain_lo: "free_chain lo es hi \<Longrightarrow> lo' \<le> lo \<Longrightarrow> free_chain lo' es hi"
  by (cases es) auto

lemma free_chain_hi: "free_chain lo es hi \<Longrightarrow> hi \<le> hi' \<Longrightarrow> free_chain lo es hi'"
  by (induction lo es hi rule: free_chain.induct) auto

lemma free_chain_chain: "free_chain lo es hi \<Longrightarrow> lo \<le> hi \<Longrightarrow> chain lo (map ex_run es) hi"
proof (induction es arbitrary: lo)
  case (Cons e es)
  then have "free_chain (ex_start e + ex_count e) es hi"
    by (auto elim: free_chain_lo)
  then show ?case using Cons by simp
qed simp

lemma free_chain_bound: "free_chain lo es hi \<Longrightarrow> e \<in> set es \<Longrightarrow> lo \<le> ex_start e \<and> 0 < ex_count e \<and> ex_start e + ex_count e \<le> hi"
  by (induction lo es hi rule: free_chain.induct) auto

lemma free_chain_sorted: "free_chain lo es hi \<Longrightarrow> sorted (map ex_start es)"
proof (induction lo es hi rule: free_chain.induct)
  case (2 lo e es hi)
  then have "\<forall>e'\<in>set es. ex_start e \<le> ex_start e'"
    by (auto dest: free_chain_bound)
  then show ?case using 2 by simp
qed simp

lemma alloc_inv_free_bag: "alloc_inv a \<Longrightarrow> free_bag a \<subseteq># region superblockBlocks (al_highWater a)"
  by (auto simp: alloc_inv_def free_bag_def intro: chain_run_bag free_chain_chain)

section \<open>Coalescing\<close>

text \<open>The loop of \<^verbatim>\<open>coalesce\<close> with its last output extent split off.\<close>

fun cmerge :: "extent \<Rightarrow> extent list \<Rightarrow> extent list" where
  "cmerge x [] = [x]"
| "cmerge x (e # es) =
     (if ex_count e = 0 then cmerge x es
      else if add64 (ex_start x) (ex_count x) = ex_start e
      then cmerge (x\<lparr>ex_count := add64 (ex_count x) (ex_count e)\<rparr>) es
      else x # cmerge e es)"

lemma coalesce_into_snoc: "coalesce_into (out @ [x]) es = out @ cmerge x es"
proof (induction es arbitrary: out x)
  case (Cons e es)
  have "coalesce_into ((out @ [x]) @ [e]) es = (out @ [x]) @ cmerge e es"
    by (rule Cons.IH)
  then show ?case using Cons.IH by simp
qed simp

lemma cmerge_correct:
  assumes "chain lo (map ex_run (x # es)) hi" "hi < 2 ^ 64" "0 < ex_count x"
  shows "free_chain lo (cmerge x es) hi \<and> run_bag (map ex_run (cmerge x es)) = run_bag (map ex_run (x # es))"
  using assms
proof (induction x es arbitrary: lo rule: cmerge.induct)
  case (1 x)
  then show ?case by simp
next
  case (2 x e es)
  have ends: "lo \<le> ex_start x" "ex_start x + ex_count x \<le> ex_start e" "ex_start e + ex_count e \<le> hi"
    and tl: "chain (ex_start e + ex_count e) (map ex_run es) hi"
    using 2(4) chain_le by fastforce+
  have nowrap: "add64 (ex_start x) (ex_count x) = ex_start x + ex_count x"
    using ends "2.prems"(2) by (intro add64_exact) linarith
  show ?case
  proof (cases "ex_count e = 0")
    case True
    then have "chain lo (map ex_run (x # es)) hi"
      using "2.prems"(1) ends by (cases es) auto
    from 2(1) [OF True this "2.prems"(2,3)] show ?thesis using True by simp
  next
    case nz: False
    show ?thesis
    proof (cases "ex_start x + ex_count x = ex_start e")
      case True
      let ?x = "x\<lparr>ex_count := ex_count x + ex_count e\<rparr>"
      have c: "add64 (ex_count x) (ex_count e) = ex_count x + ex_count e"
        using ends True "2.prems"(2) by (intro add64_exact) linarith
      have "chain lo (map ex_run (?x # es)) hi"
        using tl True ends(1) by (simp add: add.assoc [symmetric])
      then have "free_chain lo (cmerge ?x es) hi \<and>
          run_bag (map ex_run (cmerge ?x es)) = run_bag (map ex_run (?x # es))"
        using 2(2) [of lo] nz True nowrap c "2.prems"(2,3) by simp
      moreover have "region (ex_start x) (ex_start e + ex_count e)
          = region (ex_start x) (ex_start e) + region (ex_start e) (ex_start e + ex_count e)"
        using True by (intro region_split) auto
      ultimately show ?thesis using nz True nowrap c by (simp add: add.assoc [symmetric])
    next
      case False
      have "free_chain (Suc (ex_start x + ex_count x)) (cmerge e es) hi \<and>
          run_bag (map ex_run (cmerge e es)) = run_bag (map ex_run (e # es))"
        using 2(3) nz False nowrap "2.prems"(2) ends tl by simp
      then show ?thesis using nz False nowrap ends "2.prems"(3) by simp
    qed
  qed
qed

lemma coalesce_into_correct:
  "chain lo (map ex_run es) hi \<Longrightarrow> hi < 2 ^ 64 \<Longrightarrow>
     free_chain lo (coalesce_into [] es) hi \<and>
     run_bag (map ex_run (coalesce_into [] es)) = run_bag (map ex_run es)"
proof (induction es arbitrary: lo)
  case (Cons e es)
  show ?case
  proof (cases "ex_count e = 0")
    case True
    then have "free_chain (ex_start e) (coalesce_into [] es) hi \<and>
        run_bag (map ex_run (coalesce_into [] es)) = run_bag (map ex_run es)"
      using Cons.IH [of "ex_start e"] Cons.prems by simp
    then show ?thesis using True Cons.prems by (auto elim: free_chain_lo)
  next
    case False
    then show ?thesis
      using cmerge_correct [OF Cons.prems] coalesce_into_snoc [of "[]" e es] by simp
  qed
qed simp

lemma coalesce_correct:
  assumes "chain superblockBlocks (map ex_run (al_free a)) (al_highWater a)" "al_highWater a < 2 ^ 64"
  shows "alloc_inv (coalesce a)" "free_bag (coalesce a) = run_bag (map ex_run (al_free a))"
    "al_highWater (coalesce a) = al_highWater a"
  using coalesce_into_correct [OF assms] assms
  by (auto simp: alloc_inv_def coalesce_def free_bag_def dest: chain_le)


section \<open>Allocation\<close>

lemma alloc_fit_None: "alloc_fit n es = None \<longleftrightarrow> (\<forall>e\<in>set es. ex_count e < n)"
  by (induction es) (auto split: option.splits)

lemma alloc_fit_correct:
  assumes "free_chain lo es hi" "hi < 2 ^ 64" "0 < n" "alloc_fit n es = Some (s, es')"
  shows "free_chain lo es' hi \<and> lo \<le> s \<and> s + n \<le> hi \<and>
     run_bag (map ex_run es) = region s (s + n) + run_bag (map ex_run es')"
  using assms
proof (induction es arbitrary: lo es')
  case (Cons e es)
  have e: "lo \<le> ex_start e" "0 < ex_count e" "ex_start e + ex_count e \<le> hi"
    and tl: "free_chain (Suc (ex_start e + ex_count e)) es hi"
    using Cons.prems(1) by auto
  show ?case
  proof (cases "n \<le> ex_count e")
    case fit: True
    have s: "s = ex_start e" using Cons.prems(4) fit by (auto split: if_splits)
    show ?thesis
    proof (cases "ex_count e = n")
      case True
      then have "es' = es" using Cons.prems(4) by simp
      then show ?thesis using s True e tl by (auto elim: free_chain_lo)
    next
      case False
      have wr: "add64 (ex_start e) n = ex_start e + n" "sub64 (ex_count e) n = ex_count e - n"
        using fit e Cons.prems(2) by (auto intro!: add64_exact sub64_exact)
      have es': "es' = e\<lparr>ex_start := ex_start e + n, ex_count := ex_count e - n\<rparr> # es"
        using Cons.prems(4) fit False by (auto simp: wr)
      have "region (ex_start e) (ex_start e + ex_count e)
          = region (ex_start e) (ex_start e + n) + region (ex_start e + n) (ex_start e + ex_count e)"
        using fit by (intro region_split) auto
      then show ?thesis using s es' fit False e tl by simp
    qed
  next
    case False
    then obtain es'' where f: "alloc_fit n es = Some (s, es'')" and es': "es' = e # es''"
      using Cons.prems(4) by (auto split: option.splits prod.splits)
    have "free_chain (Suc (ex_start e + ex_count e)) es'' hi \<and> Suc (ex_start e + ex_count e) \<le> s \<and> s + n \<le> hi
        \<and> run_bag (map ex_run es) = region s (s + n) + run_bag (map ex_run es'')"
      by (rule Cons.IH) (use tl Cons.prems f in auto)
    then show ?thesis using es' e by simp
  qed
qed simp

text \<open>The accounting equation of \<^verbatim>\<open>alloc\<close>: what it hands out comes from the free list or from the
  growth of the file, and nothing else changes.\<close>

lemma alloc_step:
  assumes "alloc_inv a" "0 < n" "al_highWater a + n < 2 ^ 64"
  obtains s a' where "alloc n a = Inr (s, a')" "alloc_inv a'"
    "al_highWater a \<le> al_highWater a'" "al_highWater a' \<le> al_highWater a + n"
    "superblockBlocks \<le> s" "s + n \<le> al_highWater a'"
    "free_bag a + region (al_highWater a) (al_highWater a') = region s (s + n) + free_bag a'"
proof (cases "alloc_fit n (al_free a)")
  case None
  let ?a = "a\<lparr>al_highWater := al_highWater a + n\<rparr>"
  have "alloc n a = Inr (al_highWater a, ?a)"
    using assms None by (simp add: alloc_def add64_exact)
  moreover have "alloc_inv ?a"
    using assms by (auto simp: alloc_inv_def elim: free_chain_hi)
  ultimately show ?thesis
    using assms by (intro that) (auto simp: alloc_inv_def free_bag_def)
next
  case (Some r)
  obtain s es' where r: "r = (s, es')" by (cases r)
  have c: "free_chain superblockBlocks es' (al_highWater a) \<and> superblockBlocks \<le> s \<and> s + n \<le> al_highWater a \<and>
     run_bag (map ex_run (al_free a)) = region s (s + n) + run_bag (map ex_run es')"
    using alloc_fit_correct [of superblockBlocks "al_free a" "al_highWater a" n s es'] assms Some r
    by (simp add: alloc_inv_def)
  show ?thesis
    using c assms Some r
    by (intro that [of s "a\<lparr>al_free := es'\<rparr>"]) (auto simp: alloc_def alloc_inv_def free_bag_def)
qed

section \<open>Release\<close>

lemma sort_search_correct:
  assumes "i \<le> j" "\<And>x y. x \<le> y \<Longrightarrow> y < j \<Longrightarrow> f x \<Longrightarrow> f y" "\<And>x. x < i \<Longrightarrow> \<not> f x"
  shows "i \<le> sort_search f i j \<and> sort_search f i j \<le> j \<and>
    (\<forall>x < sort_search f i j. \<not> f x) \<and> (sort_search f i j < j \<longrightarrow> f (sort_search f i j))"
  using assms
proof (induction f i j rule: sort_search.induct)
  case (1 f i j)
  show ?case
  proof (cases "i < j")
    case False
    then have "sort_search f i j = i" by (simp add: sort_search.simps [of f i j])
    then show ?thesis using "1.prems" False by auto
  next
    case lt: True
    define h where "h = (i + j) div 2"
    have h: "i \<le> h" "h < j" using lt by (auto simp: h_def)
    show ?thesis
    proof (cases "f h")
      case True
      have eq: "sort_search f i j = sort_search f i h"
        using lt True by (simp add: sort_search.simps [of f i j] h_def [symmetric] Let_def)
      have "i \<le> sort_search f i h \<and> sort_search f i h \<le> h \<and>
          (\<forall>x < sort_search f i h. \<not> f x) \<and> (sort_search f i h < h \<longrightarrow> f (sort_search f i h))"
      proof (rule "1.IH"(2) [OF lt h_def])
        show "\<not> \<not> f h" using True by simp
        show "i \<le> h" by (fact h)
        show "f y" if "x \<le> y" "y < h" "f x" for x y
          using that h "1.prems"(2) [of x y] by simp
        show "\<not> f x" if "x < i" for x using that by (rule "1.prems"(3))
      qed
      then show ?thesis using eq True h by (metis le_neq_implies_less le_trans less_imp_le_nat)
    next
      case False
      have eq: "sort_search f i j = sort_search f (h + 1) j"
        using lt False by (simp add: sort_search.simps [of f i j] h_def [symmetric] Let_def)
      have "h + 1 \<le> sort_search f (h + 1) j \<and> sort_search f (h + 1) j \<le> j \<and>
          (\<forall>x < sort_search f (h + 1) j. \<not> f x) \<and>
          (sort_search f (h + 1) j < j \<longrightarrow> f (sort_search f (h + 1) j))"
      proof (rule "1.IH"(1) [OF lt h_def False])
        show "\<not> f x" if "x < h + 1" for x
          using that False h "1.prems"(2) [of x h] by auto
        show "h + 1 \<le> j" using h by simp
        show "f y" if "x \<le> y" "y < j" "f x" for x y
          using that by (rule "1.prems"(2))
      qed
      then show ?thesis using eq h by simp
    qed
  qed
qed

text \<open>On a sorted free list the search finds the insertion point, and inserting there is ordered
  insertion.\<close>

fun insert_extent :: "extent \<Rightarrow> extent list \<Rightarrow> extent list" where
  "insert_extent x [] = [x]"
| "insert_extent x (e # es) = (if ex_start x \<le> ex_start e then x # e # es else e # insert_extent x es)"

lemma insert_extent_split:
  assumes "i \<le> length es" "\<forall>k<i. ex_start (es ! k) < ex_start x" "i < length es \<longrightarrow> ex_start x \<le> ex_start (es ! i)"
  shows "take i es @ [x] @ drop i es = insert_extent x es"
  using assms
proof (induction es arbitrary: i)
  case (Cons e es)
  show ?case
  proof (cases i)
    case (Suc k)
    have "ex_start e < ex_start x" using Cons.prems(2) Suc by force
    moreover have "take k es @ [x] @ drop k es = insert_extent x es"
      using Cons.prems Suc by (intro Cons.IH) auto
    ultimately show ?thesis using Suc by simp
  qed (use Cons.prems in auto)
qed simp

lemma release_insert:
  assumes "sorted (map ex_start (al_free a))" "0 < cnt"
  shows "release start cnt a =
    coalesce (a\<lparr>al_free := insert_extent \<lparr>ex_start = start, ex_count = cnt\<rparr> (al_free a)\<rparr>)"
proof -
  let ?f = "\<lambda>i. start \<le> ex_start (al_free a ! i)" and ?n = "length (al_free a)"
  have "?f x \<Longrightarrow> ?f y" if "x \<le> y" "y < ?n" for x y
    using assms(1) that sorted_nth_mono [OF assms(1), of x y] by simp
  then have "sort_search ?f 0 ?n \<le> ?n \<and> (\<forall>x < sort_search ?f 0 ?n. \<not> ?f x) \<and>
      (sort_search ?f 0 ?n < ?n \<longrightarrow> ?f (sort_search ?f 0 ?n))"
    using sort_search_correct [of 0 ?n ?f] by blast
  then have "take (sort_search ?f 0 ?n) (al_free a) @ [\<lparr>ex_start = start, ex_count = cnt\<rparr>]
      @ drop (sort_search ?f 0 ?n) (al_free a) = insert_extent \<lparr>ex_start = start, ex_count = cnt\<rparr> (al_free a)"
    by (intro insert_extent_split) (auto simp: not_le)
  then show ?thesis using assms(2) by (simp add: release_def Let_def)
qed

lemma insert_extent_bag: "run_bag (map ex_run (insert_extent x es)) = region (ex_start x) (ex_start x + ex_count x) + run_bag (map ex_run es)"
  by (induction es) (auto simp: add_ac)

lemma insert_extent_chain:
  assumes "free_chain lo es hi" "lo \<le> ex_start x" "ex_start x + ex_count x \<le> hi" "0 < ex_count x"
    "\<forall>b \<in># run_bag (map ex_run es). \<not> (ex_start x \<le> b \<and> b < ex_start x + ex_count x)"
  shows "chain lo (map ex_run (insert_extent x es)) hi"
  using assms
proof (induction es arbitrary: lo)
  case (Cons e es)
  have e: "lo \<le> ex_start e" "0 < ex_count e" "ex_start e + ex_count e \<le> hi"
    and tl: "free_chain (ex_start e + ex_count e) es hi"
    using Cons.prems(1) by (auto elim: free_chain_lo)
  have out: "\<not> (ex_start x \<le> b \<and> b < ex_start x + ex_count x)"
    if "ex_start e \<le> b" "b < ex_start e + ex_count e" for b
    using Cons.prems(5) that by auto
  show ?case
  proof (cases "ex_start x \<le> ex_start e")
    case True
    then have "ex_start x + ex_count x \<le> ex_start e" using out [of "ex_start e"] e by auto
    then show ?thesis using True Cons.prems e free_chain_chain [OF tl] by simp
  next
    case False
    then have "ex_start e + ex_count e \<le> ex_start x"
      using out [of "ex_start x"] Cons.prems(4) by (cases "ex_start x < ex_start e + ex_count e") auto
    then show ?thesis using False Cons e tl by simp
  qed
qed simp

lemma release_step:
  assumes inv: "alloc_inv a" and fresh: "region s (s + n) + free_bag a \<subseteq># region superblockBlocks (al_highWater a)"
  shows "alloc_inv (release s n a)" "free_bag (release s n a) = region s (s + n) + free_bag a"
    "al_highWater (release s n a) = al_highWater a"
proof -
  let ?x = "\<lparr>ex_start = s, ex_count = n\<rparr>" and ?lo = superblockBlocks and ?hi = "al_highWater a"
  let ?a = "a\<lparr>al_free := insert_extent ?x (al_free a)\<rparr>"
  have fc: "free_chain ?lo (al_free a) ?hi" "?hi < 2 ^ 64" using inv by (auto simp: alloc_inv_def)
  have "alloc_inv (release s n a) \<and> free_bag (release s n a) = region s (s + n) + free_bag a
      \<and> al_highWater (release s n a) = al_highWater a"
  proof (cases "n = 0")
    case True
    then show ?thesis using inv by (simp add: release_def)
  next
    case False
    have "run_bag (ex_run ?x # map ex_run (al_free a)) \<subseteq># region ?lo ?hi"
      using fresh by (simp add: free_bag_def)
    note d = run_bag_in_region_D [OF this]
    have "\<forall>b \<in># run_bag (map ex_run (al_free a)). \<not> (s \<le> b \<and> b < s + n)"
      using d(1) by (auto simp: run_bag_def)
    moreover have "?lo \<le> s" "s + n \<le> ?hi"
      using d(2) False by (auto dest: bspec [where x = s] bspec [where x = "s + n - 1"])
    ultimately have "chain ?lo (map ex_run (insert_extent ?x (al_free a))) ?hi"
      using fc False by (intro insert_extent_chain) auto
    then have "alloc_inv (coalesce ?a)" "free_bag (coalesce ?a) = region s (s + n) + free_bag a"
      "al_highWater (coalesce ?a) = al_highWater a"
      using coalesce_correct [of ?a] fc(2) insert_extent_bag [of ?x "al_free a"] by (simp_all add: free_bag_def)
    then show ?thesis
      using release_insert [OF free_chain_sorted [OF fc(1)], of n s] False by simp
  qed
  then show "alloc_inv (release s n a)" "free_bag (release s n a) = region s (s + n) + free_bag a"
    "al_highWater (release s n a) = al_highWater a" by auto
qed


section \<open>Targeted allocation for the compactor\<close>

lemma fit_above_Some:
  assumes "free_chain lo es hi" "hi < 2 ^ 64" "fit_above n floor es = Some s"
  shows "floor \<le> s \<and> (\<exists>e\<in>set es. ex_start e \<le> s \<and> s + n \<le> ex_start e + ex_count e)"
  using assms
proof (induction es arbitrary: lo)
  case (Cons e es)
  have e: "ex_start e + ex_count e < 2 ^ 64" using Cons.prems(1,2) by auto
  have "fit_above n floor es = Some s \<Longrightarrow> ?case"
    using Cons.IH [of "Suc (ex_start e + ex_count e)"] Cons.prems(1,2) by auto
  then show ?case
    using Cons.prems(3) e
    by (auto simp: Let_def add64_exact sub64_exact split: if_splits)
qed simp

text \<open>No lower start works: the returned run is the lowest-addressed fit.\<close>

lemma fit_above_lowest:
  assumes "free_chain lo es hi" "hi < 2 ^ 64" "0 < n"
    "e \<in> set es" "ex_start e \<le> t" "t + n \<le> ex_start e + ex_count e" "floor \<le> t"
  shows "\<exists>s. fit_above n floor es = Some s \<and> s \<le> t"
  using assms
proof (induction es arbitrary: lo)
  case (Cons x es)
  have x: "ex_start x + ex_count x < 2 ^ 64" using Cons.prems(1,2) by auto
  show ?case
  proof (cases "e = x")
    case True
    then show ?thesis using Cons.prems x by (auto simp: Let_def add64_exact sub64_exact)
  next
    case False
    then have "e \<in> set es" using Cons.prems(4) by simp
    moreover have tl: "free_chain (Suc (ex_start x + ex_count x)) es hi" using Cons.prems(1) by simp
    ultimately have "\<exists>s. fit_above n floor es = Some s \<and> s \<le> t" and after: "ex_start x + ex_count x < t"
      using Cons.IH Cons.prems free_chain_bound [OF tl] by fastforce+
    then show ?thesis using x by (auto simp: Let_def add64_exact sub64_exact)
  qed
qed simp

lemma carve_correct:
  assumes "free_chain lo es hi" "hi < 2 ^ 64" "0 < n"
    "e \<in> set es" "ex_start e \<le> s" "s + n \<le> ex_start e + ex_count e"
  shows "\<exists>es'. carve s n es = Some es' \<and> free_chain lo es' hi \<and>
     run_bag (map ex_run es) = region s (s + n) + run_bag (map ex_run es')"
  using assms
proof (induction es arbitrary: lo)
  case (Cons x es)
  have x: "lo \<le> ex_start x" "ex_start x + ex_count x \<le> hi" "ex_start x + ex_count x < 2 ^ 64"
    and tl: "free_chain (Suc (ex_start x + ex_count x)) es hi"
    using Cons.prems(1,2) by auto
  have s: "s + n \<le> hi" using Cons.prems free_chain_bound [OF Cons.prems(1,4)] by linarith
  then have w: "add64 s n = s + n" "add64 (ex_start x) (ex_count x) = ex_start x + ex_count x"
    using Cons.prems(2) x by (auto intro: add64_exact)
  show ?case
  proof (cases "ex_start x \<le> s \<and> s + n \<le> ex_start x + ex_count x")
    case True
    have "region (ex_start x) (ex_start x + ex_count x)
        = region (ex_start x) s + region s (s + n) + region (s + n) (ex_start x + ex_count x)"
      using True by (metis le_add1 order_trans region_split)
    then show ?thesis
      using True x tl Cons.prems(3) by (auto simp: w sub64_exact elim: free_chain_lo)
  next
    case False
    then have "e \<in> set es" using Cons.prems(4-6) by auto
    then obtain es' where "carve s n es = Some es'" "free_chain (Suc (ex_start x + ex_count x)) es' hi"
      "run_bag (map ex_run es) = region s (s + n) + run_bag (map ex_run es')"
      using Cons.IH [OF tl] Cons.prems by blast
    then show ?thesis using False x Cons.prems(1) by (auto simp: w)
  qed
qed simp

lemma allocAt_step:
  assumes "alloc_inv a" "0 < n" "lowestFitAbove n floor a = Some s"
  obtains a' where "allocAt s n a = Inr a'" "alloc_inv a'" "al_highWater a' = al_highWater a"
    "floor \<le> s" "s + n \<le> al_highWater a" "free_bag a = region s (s + n) + free_bag a'"
proof -
  have fc: "free_chain superblockBlocks (al_free a) (al_highWater a)" "al_highWater a < 2 ^ 64"
    using assms(1) by (auto simp: alloc_inv_def)
  obtain e where e: "e \<in> set (al_free a)" "ex_start e \<le> s" "s + n \<le> ex_start e + ex_count e" and fl: "floor \<le> s"
    using fit_above_Some [OF fc, of n floor s] assms(3) by (auto simp: lowestFitAbove_def)
  then have le: "s + n \<le> al_highWater a" using free_chain_bound [OF fc(1) e(1)] by linarith
  obtain es' where "carve s n (al_free a) = Some es'" "free_chain superblockBlocks es' (al_highWater a)"
    "run_bag (map ex_run (al_free a)) = region s (s + n) + run_bag (map ex_run es')"
    using carve_correct [OF fc assms(2) e] by blast
  then show ?thesis
    using assms(1) le fl by (intro that [of "a\<lparr>al_free := es'\<rparr>"]) (auto simp: allocAt_def alloc_inv_def free_bag_def)
qed


section \<open>The rebuilt allocator\<close>

lemma sort_key_sorted_id: "sorted (map f xs) \<Longrightarrow> sort_key f xs = xs"
  by (induction xs) (simp_all add: insort_is_Cons)

lemma chain_sorted: "chain lo rs hi \<Longrightarrow> sorted (map fst rs) \<and> (\<forall>r\<in>set rs. lo \<le> fst r)"
  by (induction lo rs hi rule: chain.induct) fastforce+

lemma bag_chain:
  assumes "sorted (map fst rs)" "\<forall>r\<in>set rs. fst r < snd r" "run_bag rs \<subseteq># region lo hi" "lo \<le> hi"
  shows "chain lo rs hi"
  using assms
proof (induction rs arbitrary: lo)
  case (Cons r rs)
  obtain s e where r: "r = (s, e)" by (cases r)
  note d = run_bag_in_region_D [OF Cons.prems(3)]
  have se: "s < e" using Cons.prems(2) r by simp
  have lo: "lo \<le> s" "e \<le> hi"
    using d(2) r se by (auto dest: bspec [where x = s] bspec [where x = "e - 1"])
  have after: "e \<le> s'" if "(s', e') \<in> set rs" for s' e'
  proof (rule ccontr)
    assume "\<not> e \<le> s'"
    moreover have "s \<le> s'" "s' < e'" using Cons.prems(1,2) r that by auto
    ultimately have in1: "s' \<in> set [s..<e]" and in2: "s' \<in> set (concat (map (\<lambda>(a, b). [a..<b]) rs))"
      using that by (auto intro!: bexI [of _ "(s', e')"])
    have "set [s..<e] \<inter> set (concat (map (\<lambda>(a, b). [a..<b]) rs)) = {}"
      using d(1) r by (simp only: list.map concat.simps distinct_append prod.case)
    with in1 in2 show False by blast
  qed
  have "run_bag rs \<subseteq># region e hi"
  proof (rule mset_subset_eqI)
    fix b
    have le: "count (run_bag rs) b \<le> count (region lo hi) b"
      using Cons.prems(3) r by (metis mset_subset_eq_count mset_subset_eq_add_right run_bag_Cons subset_mset.order_trans)
    show "count (run_bag rs) b \<le> count (region e hi) b"
    proof (cases "b \<in># run_bag rs")
      case True
      then obtain s' e' where "(s', e') \<in> set rs" "s' \<le> b" by (auto simp: run_bag_def)
      then have "e \<le> b" using after by fastforce
      then show ?thesis using le by (simp add: count_region split: if_splits)
    qed (simp add: not_in_iff)
  qed
  then have "chain e rs hi" using Cons lo by simp
  then show ?case using r lo se by simp
qed simp

abbreviation use_run :: "nat \<times> nat \<Rightarrow> nat \<times> nat" where
  "use_run u \<equiv> (fst u, fst u + snd u)"

lemma gaps_correct:
  assumes "chain cursor (map use_run us) hi" "hi < 2 ^ 64" "gaps cursor us = (free, c)"
  shows "chain cursor (map ex_run free) c \<and> c \<le> hi \<and>
    run_bag (map ex_run free) + run_bag (map use_run us) = region cursor c"
  using assms
proof (induction cursor us arbitrary: free rule: gaps.induct)
  case (1 cursor)
  then show ?case by simp
next
  case (2 cursor start cnt us)
  have le: "cursor \<le> start" "start + cnt \<le> hi" and tl: "chain (start + cnt) (map use_run us) hi"
    using "2.prems"(1) by (auto dest: chain_le)
  then have w: "add64 start cnt = start + cnt" using "2.prems"(2) by (intro add64_exact) linarith
  have nxt: "(if cursor < start + cnt then start + cnt else cursor) = start + cnt" using le by auto
  obtain rest where g: "gaps (start + cnt) us = (rest, c)"
    and free: "free = (if cursor < start then [\<lparr>ex_start = cursor, ex_count = start - cursor\<rparr>] else []) @ rest"
    using "2.prems"(3) le by (auto simp: Let_def w nxt sub64_exact split: prod.splits if_splits)
  have ih: "chain (start + cnt) (map ex_run rest) c \<and> c \<le> hi \<and>
      run_bag (map ex_run rest) + run_bag (map use_run us) = region (start + cnt) c"
    by (rule "2.IH" [OF refl refl, unfolded w nxt, OF tl "2.prems"(2) g])
  then have "start + cnt \<le> c" by (auto dest: chain_le)
  then have "region cursor c = region cursor start + region start (start + cnt) + region (start + cnt) c"
    using le by (metis le_add1 order_trans region_split)
  moreover have "chain start (map ex_run rest) c" "cursor = start \<Longrightarrow> region cursor start = {#}"
    using ih by (cases rest; auto)+
  ultimately show ?case using ih free le by (auto simp: add_ac)
qed

lemma newAllocator_correct:
  assumes "chain superblockBlocks (map ex_run free) hw" "hw < 2 ^ 64"
  shows "alloc_inv (newAllocator free hw)" "free_bag (newAllocator free hw) = run_bag (map ex_run free)"
    "al_highWater (newAllocator free hw) = hw"
proof -
  have "sort_key ex_start free = free"
    using chain_sorted [OF assms(1)] by (intro sort_key_sorted_id) (simp add: comp_def)
  then show "alloc_inv (newAllocator free hw)" "free_bag (newAllocator free hw) = run_bag (map ex_run free)"
    "al_highWater (newAllocator free hw) = hw"
    using coalesce_correct [of "\<lparr>al_free = free, al_highWater = hw\<rparr>"] assms by (simp_all add: newAllocator_def)
qed

lemma chain_extend:
  assumes "chain lo rs c" "c \<le> hi"
  shows "chain lo (rs @ [(c, hi)]) hi" "chain lo rs hi"
  using assms by (induction lo rs c rule: chain.induct) auto

lemma rebuildAllocator_step:
  assumes used: "run_bag (map use_run (used_runs dir segs sb kb)) \<subseteq># region superblockBlocks hw"
    and hw: "hw = fileSize div sb_blockSize sb" "hw < 2 ^ 64" "superblockBlocks \<le> hw"
  shows "alloc_inv (rebuildAllocator dir segs sb fileSize kb)"
    and "al_highWater (rebuildAllocator dir segs sb fileSize kb) = hw"
    and "free_bag (rebuildAllocator dir segs sb fileSize kb)
          + run_bag (map use_run (used_runs dir segs sb kb)) = region superblockBlocks hw"
proof -
  let ?us = "sort_key fst (used_runs dir segs sb kb)"
  obtain free c where g: "gaps superblockBlocks ?us = (free, c)" by fastforce
  have "mset (map use_run ?us) = mset (map use_run (used_runs dir segs sb kb))" by simp
  then have bag: "run_bag (map use_run ?us) = run_bag (map use_run (used_runs dir segs sb kb))"
    by (rule run_bag_cong)
  have pos: "\<forall>u\<in>set (used_runs dir segs sb kb). 0 < snd u"
    by (auto simp: used_runs_def used_run_def Let_def split: if_splits)
  have "chain superblockBlocks (map use_run ?us) hw"
    using used hw(3) pos bag by (intro bag_chain) (auto simp: comp_def)
  then have gc: "chain superblockBlocks (map ex_run free) c \<and> c \<le> hw \<and>
      run_bag (map ex_run free) + run_bag (map use_run ?us) = region superblockBlocks c"
    using gaps_correct hw(2) g by blast
  let ?tail = "if c < hw then [\<lparr>ex_start = c, ex_count = hw - c\<rparr>] else []"
  have eq: "rebuildAllocator dir segs sb fileSize kb = newAllocator (free @ ?tail) hw"
    using g gc hw(1) by (auto simp: rebuildAllocator_def Let_def sub64_exact)
  have ch: "chain superblockBlocks (map ex_run (free @ ?tail)) hw"
    using gc chain_extend [of superblockBlocks "map ex_run free" c hw] by auto
  have "region superblockBlocks hw = region superblockBlocks c + region c hw"
    using gc chain_le by (intro region_split) blast+
  moreover have "c = hw \<Longrightarrow> region c hw = {#}" by simp
  ultimately have "run_bag (map ex_run (free @ ?tail)) + run_bag (map use_run ?us) = region superblockBlocks hw"
    using gc by (auto simp: add_ac)
  then show "alloc_inv (rebuildAllocator dir segs sb fileSize kb)"
    "al_highWater (rebuildAllocator dir segs sb fileSize kb) = hw"
    "free_bag (rebuildAllocator dir segs sb fileSize kb)
       + run_bag (map use_run (used_runs dir segs sb kb)) = region superblockBlocks hw"
    using newAllocator_correct [OF ch hw(2)] eq bag by simp_all
qed


text \<open>For runs that overlap (an untrusted directory may name blocks of sparse entries), no used block
  is ever free.\<close>

lemma gaps_safe:
  assumes "sorted (map fst us)" "\<forall>u\<in>set us. fst u + snd u \<le> hi" "cursor \<le> hi" "hi < 2 ^ 64" "gaps cursor us = (free, c)"
  shows "chain cursor (map ex_run free) c \<and> c \<le> hi \<and> (\<forall>u\<in>set us. fst u + snd u \<le> c) \<and>
    (\<forall>u\<in>set us. \<forall>b. fst u \<le> b \<longrightarrow> b < fst u + snd u \<longrightarrow> b \<notin># run_bag (map ex_run free))"
  using assms
proof (induction cursor us arbitrary: free rule: gaps.induct)
  case (2 cursor start cnt us)
  let ?cur = "if cursor < start + cnt then start + cnt else cursor"
  have w: "add64 start cnt = start + cnt" using "2.prems"(2,4) by (intro add64_exact) auto
  obtain rest where g: "gaps ?cur us = (rest, c)"
    and free: "free = (if cursor < start then [\<lparr>ex_start = cursor, ex_count = start - cursor\<rparr>] else []) @ rest"
    using "2.prems"(5) by (auto simp: Let_def w sub64_exact split: prod.splits if_splits)
  have "sorted (map fst us)" "\<forall>u\<in>set us. fst u + snd u \<le> hi" "?cur \<le> hi" using "2.prems" by auto
  note ih = "2.IH" [OF refl refl, unfolded w, OF this "2.prems"(4) g]
  have cur: "cursor \<le> ?cur" "start + cnt \<le> ?cur" by auto
  have up: "chain lo (map ex_run rest) c" if "lo \<le> ?cur" for lo
    using ih that by (cases rest) auto
  have le: "?cur \<le> c" using ih chain_le by blast
  have late: "?cur \<le> b" if "b \<in># run_bag (map ex_run rest)" for b
    using chain_run_bag [of ?cur "map ex_run rest" c] ih that by (auto dest!: mset_subset_eqD)
  have "chain cursor (map ex_run free) c"
    using up [of cursor] up [of start] cur free by auto
  moreover have "b \<notin># run_bag (map ex_run free)"
    if u: "u = (start, cnt) \<or> u \<in> set us" "fst u \<le> b" "b < fst u + snd u" for b u
  proof -
    have st: "start \<le> fst u" using u(1) "2.prems"(1) by auto
    have "b \<notin># run_bag (map ex_run rest)"
      using u(1)
    proof
      assume "u = (start, cnt)"
      then show ?thesis using late [of b] cur(2) u(3) by fastforce
    qed (use ih u in blast)
    then show ?thesis using free st u(2) by auto
  qed
  ultimately show ?case using ih le cur(2) by (auto simp del: add_less_same_cancel1)
qed auto

lemma rebuildAllocator_safe:
  assumes "\<forall>u\<in>set (used_runs dir segs sb kb). fst u + snd u \<le> hi" "fileSize div sb_blockSize sb \<le> hi"
    and "superblockBlocks \<le> hi" "hi < 2 ^ 64"
  defines "a \<equiv> rebuildAllocator dir segs sb fileSize kb"
  shows "alloc_inv a" "fileSize div sb_blockSize sb \<le> al_highWater a" "al_highWater a \<le> hi"
    and "\<forall>u\<in>set (used_runs dir segs sb kb). fst u + snd u \<le> al_highWater a"
    and "V \<subseteq># region superblockBlocks (al_highWater a) \<Longrightarrow>
      (\<And>b. b \<in># V \<Longrightarrow> \<exists>u\<in>set (used_runs dir segs sb kb). fst u \<le> b \<and> b < fst u + snd u) \<Longrightarrow>
      V + free_bag a \<subseteq># region superblockBlocks (al_highWater a)"
proof -
  let ?us = "sort_key fst (used_runs dir segs sb kb)" and ?f = "fileSize div sb_blockSize sb"
  obtain free c where g: "gaps superblockBlocks ?us = (free, c)" by fastforce
  have gs: "chain superblockBlocks (map ex_run free) c" "c \<le> hi" "\<forall>u\<in>set ?us. fst u + snd u \<le> c"
    "\<forall>u\<in>set ?us. \<forall>b. fst u \<le> b \<longrightarrow> b < fst u + snd u \<longrightarrow> b \<notin># run_bag (map ex_run free)"
    using gaps_safe [OF _ _ assms(3,4) g] assms(1) by auto
  let ?hw = "max ?f c"
  let ?tail = "if c < ?hw then [\<lparr>ex_start = c, ex_count = ?hw - c\<rparr>] else []"
  have eq: "a = newAllocator (free @ ?tail) ?hw"
    using g by (auto simp: a_def rebuildAllocator_def Let_def sub64_exact max_def)
  have ch: "chain superblockBlocks (map ex_run (free @ ?tail)) ?hw"
    using chain_extend [OF gs(1), of ?hw] by auto
  have hw: "?hw < 2 ^ 64" using assms(2,4) gs(2) by auto
  note na = newAllocator_correct [OF ch hw]
  show "alloc_inv a" "?f \<le> al_highWater a" "al_highWater a \<le> hi"
    "\<forall>u\<in>set (used_runs dir segs sb kb). fst u + snd u \<le> al_highWater a"
    using na gs(2,3) assms(2) unfolding eq by auto
  assume V: "V \<subseteq># region superblockBlocks (al_highWater a)"
    "\<And>b. b \<in># V \<Longrightarrow> \<exists>u\<in>set (used_runs dir segs sb kb). fst u \<le> b \<and> b < fst u + snd u"
  have free: "free_bag a = run_bag (map ex_run (free @ ?tail))" "al_highWater a = ?hw" using na unfolding eq by auto
  have apart: "b \<notin># free_bag a" if b: "b \<in># V" for b
  proof -
    obtain u where u: "u \<in> set ?us" "fst u \<le> b" "b < fst u + snd u" using V(2) [OF b] by auto
    then have "b \<notin># run_bag (map ex_run free)" "b < c" using gs(3,4) by (blast, fastforce)
    then show ?thesis unfolding free by auto
  qed
  show "V + free_bag a \<subseteq># region superblockBlocks (al_highWater a)"
  proof (rule mset_subset_eqI)
    fix b
    have "count (free_bag a) b \<le> count (region superblockBlocks (al_highWater a)) b"
      using chain_run_bag [OF ch] unfolding free by (rule mset_subset_eq_count)
    moreover have "count V b \<le> count (region superblockBlocks (al_highWater a)) b"
      using V(1) by (rule mset_subset_eq_count)
    moreover have "count V b = 0 \<or> count (free_bag a) b = 0" using apart by (meson count_eq_zero_iff)
    ultimately show "count (V + free_bag a) b \<le> count (region superblockBlocks (al_highWater a)) b" by auto
  qed
qed

section \<open>The allocator as the storage engine sees it\<close>

text \<open>The engine never looks inside the allocator: it relies on the accounting of blocks. A client
  holding the blocks \<open>held\<close> keeps \<open>held\<close> and the free blocks disjoint and below the high-water mark
  through any sequence of allocations and releases.\<close>

locale block_allocator =
  fixes take_run :: "nat \<Rightarrow> 'a \<Rightarrow> verror + (nat \<times> 'a)"
    and give_run :: "nat \<Rightarrow> nat \<Rightarrow> 'a \<Rightarrow> 'a"
    and bag :: "'a \<Rightarrow> nat multiset"
    and top :: "'a \<Rightarrow> nat"
    and inv :: "'a \<Rightarrow> bool"
    and base :: nat
  assumes take_ok: "inv a \<Longrightarrow> 0 < n \<Longrightarrow> top a + n < 2 ^ 64 \<Longrightarrow>
      \<exists>s a'. take_run n a = Inr (s, a') \<and> inv a' \<and> top a \<le> top a' \<and> top a' \<le> top a + n \<and> base \<le> s \<and>
        s + n \<le> top a' \<and> bag a + region (top a) (top a') = region s (s + n) + bag a'"
    and give_ok: "inv a \<Longrightarrow> region s (s + n) + bag a \<subseteq># region base (top a) \<Longrightarrow>
      inv (give_run s n a) \<and> bag (give_run s n a) = region s (s + n) + bag a \<and> top (give_run s n a) = top a"
    and base_le: "inv a \<Longrightarrow> base \<le> top a"
begin

lemma take_space:
  assumes "inv a" "0 < n" "top a + n < 2 ^ 64" "held + bag a \<subseteq># region base (top a)"
    and "take_run n a = Inr (s, a')"
  shows "inv a'" "held + region s (s + n) + bag a' \<subseteq># region base (top a')"
    "top a \<le> top a'" "top a' \<le> top a + n" "base \<le> s" "s + n \<le> top a'"
proof -
  have k: "inv a' \<and> top a \<le> top a' \<and> top a' \<le> top a + n \<and> base \<le> s \<and> s + n \<le> top a' \<and>
      bag a + region (top a) (top a') = region s (s + n) + bag a'"
    using take_ok [OF assms(1-3)] assms(5) by auto
  then show "inv a'" "top a \<le> top a'" "top a' \<le> top a + n" "base \<le> s" "s + n \<le> top a'" by auto
  have "held + region s (s + n) + bag a' = held + bag a + region (top a) (top a')"
    using k by (simp add: add.assoc)
  also have "\<dots> \<subseteq># region base (top a) + region (top a) (top a')"
    using assms(4) by (rule mset_subset_eq_mono_add_right_cancel [THEN iffD2])
  also have "\<dots> = region base (top a')"
    using k base_le [OF assms(1)] by (intro region_split [symmetric]) auto
  finally show "held + region s (s + n) + bag a' \<subseteq># region base (top a')" .
qed

lemma take_total: "inv a \<Longrightarrow> 0 < n \<Longrightarrow> top a + n < 2 ^ 64 \<Longrightarrow> \<exists>s a'. take_run n a = Inr (s, a')"
  using take_ok by blast

lemma give_all_space:
  assumes "inv a" "held + run_bag (map ex_run es) + bag a \<subseteq># region base (top a)"
  defines "a' \<equiv> foldl (\<lambda>a e. give_run (ex_start e) (ex_count e) a) a es"
  shows "inv a' \<and> top a' = top a \<and> bag a' = run_bag (map ex_run es) + bag a"
  unfolding a'_def using assms(1,2)
proof (induction es arbitrary: a)
  case (Cons e es)
  let ?r = "region (ex_start e) (ex_start e + ex_count e)"
  let ?a = "give_run (ex_start e) (ex_count e) a"
  have "?r + bag a \<subseteq># region base (top a)"
    using Cons.prems(2) by (rule subset_mset.order_trans [rotated]) simp
  then have g: "inv ?a" "bag ?a = ?r + bag a" "top ?a = top a"
    using give_ok [OF Cons.prems(1)] by blast+
  have "held + run_bag (map ex_run es) + bag ?a \<subseteq># region base (top ?a)"
    using Cons.prems(2) by (simp add: g add_ac)
  then show ?case using Cons.IH [OF g(1)] g by (simp add: add_ac)
qed simp

end

interpretation vault_alloc: block_allocator alloc release free_bag al_highWater alloc_inv superblockBlocks
proof (unfold_locales, goal_cases)
  case (1 a n)
  then show ?case by (auto elim!: alloc_step [of a n])
next
  case (2 a s n)
  then show ?case using release_step by blast
next
  case (3 a)
  then show ?case by (simp add: alloc_inv_def)
qed

section \<open>Properties\<close>

definition sample_allocator :: allocator where
  "sample_allocator = \<lparr>al_free = [\<lparr>ex_start = 3, ex_count = 2\<rparr>, \<lparr>ex_start = 7, ex_count = 4\<rparr>], al_highWater = 20\<rparr>"

lemma sample_allocator_inv: "alloc_inv sample_allocator"
  by (simp add: alloc_inv_def sample_allocator_def superblockBlocks_def)

text \<open>\<^verbatim>\<open>alloc\<close> always succeeds, and accounts for every block: the run it hands out was on the free
  list or comes from growing the file, it lies above the superblocks and below the new high-water mark, the
  blocks before and after are the same multiset, and the free list stays sorted and coalesced.\<close>

theorem alloc_accounting:
  assumes "alloc_inv a" "0 < n" "al_highWater a + n < 2 ^ 64"
  shows "\<exists>s a'. alloc n a = Inr (s, a') \<and> alloc_inv a' \<and>
     al_highWater a \<le> al_highWater a' \<and> al_highWater a' \<le> al_highWater a + n \<and>
     superblockBlocks \<le> s \<and> s + n \<le> al_highWater a' \<and>
     free_bag a + region (al_highWater a) (al_highWater a') = region s (s + n) + free_bag a'"
  using assms by (rule vault_alloc.take_ok)

theorem alloc_accounting_witness:
  "\<exists>s a'. alloc 3 sample_allocator = Inr (s, a') \<and> s = 7 \<and> alloc_inv a' \<and>
     free_bag sample_allocator + region 20 20 = region 7 10 + free_bag a'"
proof -
  have v: "alloc 3 sample_allocator
      = Inr (7, \<lparr>al_free = [\<lparr>ex_start = 3, ex_count = 2\<rparr>, \<lparr>ex_start = 10, ex_count = 1\<rparr>], al_highWater = 20\<rparr>)"
    by (simp add: alloc_def sample_allocator_def add64_def sub64_def)
  from alloc_accounting [OF sample_allocator_inv, of 3] v show ?thesis
    by (auto simp: sample_allocator_def)
qed

text \<open>Releasing a run that is not on the free list adds exactly its blocks to the free list and keeps it
  sorted, coalesced and below the high-water mark.\<close>

theorem release_accounting:
  assumes "alloc_inv a" "region s (s + n) + free_bag a \<subseteq># region superblockBlocks (al_highWater a)"
  shows "alloc_inv (release s n a) \<and> free_bag (release s n a) = region s (s + n) + free_bag a \<and>
     al_highWater (release s n a) = al_highWater a"
  using assms by (rule vault_alloc.give_ok)

theorem release_accounting_witness:
  "release 5 2 sample_allocator = \<lparr>al_free = [\<lparr>ex_start = 3, ex_count = 8\<rparr>], al_highWater = 20\<rparr> \<and>
   free_bag (release 5 2 sample_allocator) = region 5 7 + free_bag sample_allocator"
proof -
  have v: "release 5 2 sample_allocator = \<lparr>al_free = [\<lparr>ex_start = 3, ex_count = 8\<rparr>], al_highWater = 20\<rparr>"
    by (simp add: release_def coalesce_def sample_allocator_def add64_def sort_search.simps)
  have "region 5 (5 + 2) + free_bag sample_allocator \<subseteq># region superblockBlocks (al_highWater sample_allocator)"
    by (simp add: free_bag_def run_bag_def sample_allocator_def superblockBlocks_def subseteq_mset_def count_mset_set')
  from release_accounting [OF sample_allocator_inv this] v show ?thesis by simp
qed

text \<open>The run \<^verbatim>\<open>lowestFitAbove\<close> finds can always be reserved by \<^verbatim>\<open>allocAt\<close> (its panic is unreachable
  from the compactor); the run starts at or above the floor and leaves the free list, and nothing else
  changes.\<close>

theorem allocAt_accounting:
  assumes "alloc_inv a" "0 < n" "lowestFitAbove n floor a = Some s"
  shows "\<exists>a'. allocAt s n a = Inr a' \<and> alloc_inv a' \<and> al_highWater a' = al_highWater a \<and>
     floor \<le> s \<and> s + n \<le> al_highWater a \<and> free_bag a = region s (s + n) + free_bag a'"
  using allocAt_step [OF assms] by blast

theorem allocAt_accounting_witness:
  "\<exists>a'. lowestFitAbove 2 8 sample_allocator = Some 8 \<and> allocAt 8 2 sample_allocator = Inr a' \<and>
     free_bag sample_allocator = region 8 10 + free_bag a'"
proof -
  have v: "lowestFitAbove 2 8 sample_allocator = Some 8"
    by (simp add: lowestFitAbove_def sample_allocator_def add64_def sub64_def)
  from allocAt_accounting [OF sample_allocator_inv _ v] v show ?thesis by auto
qed

text \<open>The allocator rebuilt on open frees exactly the blocks that nothing committed refers to: its free
  list and the used runs together are every block from the end of the superblocks to the end of the file.\<close>

theorem rebuildAllocator_accounting:
  assumes "run_bag (map use_run (used_runs dir segs sb kb)) \<subseteq># region superblockBlocks hw"
    "hw = fileSize div sb_blockSize sb" "hw < 2 ^ 64" "superblockBlocks \<le> hw"
  shows "alloc_inv (rebuildAllocator dir segs sb fileSize kb) \<and>
     al_highWater (rebuildAllocator dir segs sb fileSize kb) = hw \<and>
     free_bag (rebuildAllocator dir segs sb fileSize kb) + run_bag (map use_run (used_runs dir segs sb kb))
       = region superblockBlocks hw"
  using rebuildAllocator_step [OF assms] by blast

theorem rebuildAllocator_accounting_witness:
  "rebuildAllocator [placed_entry] [] sample_superblock 24576 0
     = \<lparr>al_free = [\<lparr>ex_start = 4, ex_count = 2\<rparr>], al_highWater = 6\<rparr> \<and>
   alloc_inv (rebuildAllocator [placed_entry] [] sample_superblock 24576 0)"
proof -
  have v: "rebuildAllocator [placed_entry] [] sample_superblock 24576 0
      = \<lparr>al_free = [\<lparr>ex_start = 4, ex_count = 2\<rparr>], al_highWater = 6\<rparr>"
    by (simp add: rebuildAllocator_def used_runs_def used_run_def newAllocator_def coalesce_def placed_entry_def
        sample_entry_def sample_superblock_def superblockBlocks_def Let_def add64_def sub64_def)
  have u: "run_bag (map use_run (used_runs [placed_entry] [] sample_superblock 0)) \<subseteq># region superblockBlocks 6"
    by (simp add: used_runs_def used_run_def run_bag_def placed_entry_def sample_entry_def sample_superblock_def
        superblockBlocks_def subseteq_mset_def)
  from rebuildAllocator_accounting [OF u, of 24576] v show ?thesis
    by (simp add: sample_superblock_def superblockBlocks_def)
qed

end
