(* ===== verification/Vault_Backing.thy ===== *)
theory Vault_Backing
  imports Vault_Alloc
begin

text \<open>
  The physical store behind a container (the \<^verbatim>\<open>backing\<close> interface of
  \<^verbatim>\<open>src/vfs/vault/container.go\<close>): a growable byte file with positioned reads and writes, a sync
  barrier and truncation, each of which may fail. \<open>bk_fail n\<close> says how the \<open>n\<close>-th mutating
  operation ends: \<open>None\<close> succeeds, \<open>Some k\<close> fails, a write after \<open>k\<close> of its bytes.
  \<open>bk_log\<close> records the operations that took effect, from which the crash semantics is defined.
\<close>

datatype bkop = BWrite nat bytes | BSync | BTruncate nat

record backing =
  bk_data :: bytes
  bk_log :: "bkop list"
  bk_fail :: "nat \<Rightarrow> nat option"
  bk_rfail :: "nat \<Rightarrow> nat \<Rightarrow> bool"
  bk_ops :: nat

section \<open>Positioned writes to a byte file\<close>

definition file_write :: "nat \<Rightarrow> bytes \<Rightarrow> bytes \<Rightarrow> bytes" where
  "file_write off src f =
     (if src = [] then f else blit off src (f @ replicate (off + length src - length f) 0))"

definition file_truncate :: "nat \<Rightarrow> bytes \<Rightarrow> bytes" where
  "file_truncate n f = take n f @ replicate (n - length f) 0"

definition WriteAt :: "bytes \<Rightarrow> nat \<Rightarrow> backing \<Rightarrow> verror option \<times> backing" where
  "WriteAt src off b =
     (case bk_fail b (bk_ops b) of
        None \<Rightarrow> (None, b\<lparr>bk_data := file_write off src (bk_data b),
                         bk_log := bk_log b @ [BWrite off src], bk_ops := Suc (bk_ops b)\<rparr>)
      | Some k \<Rightarrow> (Some ErrIO, b\<lparr>bk_data := file_write off (take k src) (bk_data b),
                         bk_log := bk_log b @ [BWrite off (take k src)], bk_ops := Suc (bk_ops b)\<rparr>))"

definition ReadAt :: "nat \<Rightarrow> nat \<Rightarrow> backing \<Rightarrow> verror + bytes" where
  "ReadAt n off b =
     (if bk_rfail b off n then Inl ErrIO
      else if off + n \<le> length (bk_data b) then Inr (bslice off (off + n) (bk_data b))
      else Inl ErrEOF)"

definition Sync :: "backing \<Rightarrow> verror option \<times> backing" where
  "Sync b =
     (case bk_fail b (bk_ops b) of
        None \<Rightarrow> (None, b\<lparr>bk_log := bk_log b @ [BSync], bk_ops := Suc (bk_ops b)\<rparr>)
      | Some _ \<Rightarrow> (Some ErrIO, b\<lparr>bk_ops := Suc (bk_ops b)\<rparr>))"

definition Truncate :: "nat \<Rightarrow> backing \<Rightarrow> verror option \<times> backing" where
  "Truncate n b =
     (case bk_fail b (bk_ops b) of
        None \<Rightarrow> (None, b\<lparr>bk_data := file_truncate n (bk_data b),
                         bk_log := bk_log b @ [BTruncate n], bk_ops := Suc (bk_ops b)\<rparr>)
      | Some _ \<Rightarrow> (Some ErrIO, b\<lparr>bk_ops := Suc (bk_ops b)\<rparr>))"

lemma length_file_write:
  "length (file_write off src f) = (if src = [] then length f else max (length f) (off + length src))"
  by (auto simp: file_write_def max_def)

lemma file_write_grows: "length f \<le> length (file_write off src f)"
  by (simp add: length_file_write)

lemma bslice_file_write_same [bytes_simps]:
  "bslice off (off + length src) (file_write off src f) = src"
  by (cases "src = []") (simp_all add: file_write_def slice_blit_same)

lemma bslice_file_write_other [bytes_simps]:
  assumes "j \<le> length f" "j \<le> off \<or> off + length src \<le> i"
  shows "bslice i j (file_write off src f) = bslice i j f"
proof (cases "src = []")
  case False
  let ?f = "f @ replicate (off + length src - length f) 0"
  have "bslice i j (blit off src ?f) = bslice i j ?f"
    using assms(2) by (intro slice_blit_other) auto
  then show ?thesis using assms(1) False by (simp add: file_write_def slice_append_left)
qed (simp add: file_write_def)

lemma WriteAt_ok:
  "WriteAt src off b = (None, b') \<Longrightarrow>
     bk_data b' = file_write off src (bk_data b) \<and> bk_log b' = bk_log b @ [BWrite off src]
     \<and> bk_fail b' = bk_fail b \<and> bk_rfail b' = bk_rfail b"
  by (auto simp: WriteAt_def split: option.splits)

text \<open>Whether it fails or not, a write puts some prefix of its bytes in place.\<close>

lemma WriteAt_any:
  assumes "WriteAt src off b = (r, b')"
  obtains k where "bk_data b' = file_write off (take k src) (bk_data b)"
    "bk_log b' = bk_log b @ [BWrite off (take k src)]" "bk_rfail b' = bk_rfail b" "bk_fail b' = bk_fail b"
proof (cases "bk_fail b (bk_ops b)")
  case None
  then show ?thesis using assms by (intro that [of "length src"]) (auto simp: WriteAt_def)
next
  case (Some k)
  then show ?thesis using assms by (intro that [of k]) (auto simp: WriteAt_def)
qed

lemma Sync_ok:
  "Sync b = (None, b') \<Longrightarrow> bk_data b' = bk_data b \<and> bk_log b' = bk_log b @ [BSync]
     \<and> bk_fail b' = bk_fail b \<and> bk_rfail b' = bk_rfail b"
  by (auto simp: Sync_def split: option.splits)

lemma Sync_data: "Sync b = (r, b') \<Longrightarrow> bk_data b' = bk_data b \<and> bk_rfail b' = bk_rfail b"
  by (auto simp: Sync_def split: option.splits)

lemma ReadAt_data:
  "ReadAt n off b = Inr d \<Longrightarrow> d = bslice off (off + n) (bk_data b) \<and> length d = n \<and> off + n \<le> length (bk_data b)"
  by (auto simp: ReadAt_def split: if_splits)

section \<open>The contract the storage engine relies on\<close>

text \<open>Reading back what was written, and writes that leave every disjoint range alone.\<close>

locale byte_store =
  fixes wr :: "bytes \<Rightarrow> nat \<Rightarrow> 's \<Rightarrow> verror option \<times> 's"
    and rd :: "nat \<Rightarrow> nat \<Rightarrow> 's \<Rightarrow> verror + bytes"
    and size :: "'s \<Rightarrow> nat"
    and readable :: "nat \<Rightarrow> nat \<Rightarrow> 's \<Rightarrow> bool"
  assumes wr_readable: "wr src off s = (r, s') \<Longrightarrow> readable i n s' = readable i n s"
    and wr_size: "wr src off s = (None, s') \<Longrightarrow> src \<noteq> [] \<Longrightarrow> size s' = max (size s) (off + length src)"
    and wr_grows: "wr src off s = (r, s') \<Longrightarrow> size s \<le> size s'"
    and rd_same: "wr src off s = (None, s') \<Longrightarrow> src \<noteq> [] \<Longrightarrow> readable off (length src) s \<Longrightarrow>
      rd (length src) off s' = Inr src"
    and rd_prefix: "rd n off s = Inr d \<Longrightarrow> m \<le> n \<Longrightarrow> readable off m s \<Longrightarrow> rd m off s = Inr (take m d)"
    and rd_other: "wr src off s = (r, s') \<Longrightarrow> i + n \<le> size s \<Longrightarrow> i + n \<le> off \<or> off + length src \<le> i \<Longrightarrow>
      rd n i s' = rd n i s"
begin

text \<open>The prefix of a written extent reads back as the prefix of what was written.\<close>

lemma rd_written_prefix:
  assumes "wr src off s = (None, s')" "src \<noteq> []" "readable off (length src) s" "readable off m s" "m \<le> length src"
  shows "rd m off s' = Inr (take m src)"
  using rd_prefix [OF rd_same [OF assms(1-3)] assms(5)] wr_readable [OF assms(1)] assms(4) by simp

end

interpretation file_store: byte_store WriteAt ReadAt "\<lambda>b. length (bk_data b)" "\<lambda>i n b. \<not> bk_rfail b i n"
proof (unfold_locales, goal_cases)
  case (1 src off s r s' i n)
  then show ?case by (auto simp: WriteAt_def split: option.splits)
next
  case (2 src off s s')
  then show ?case by (auto dest!: WriteAt_ok simp: length_file_write)
next
  case (3 src off s r s')
  then show ?case by (auto elim!: WriteAt_any simp: file_write_grows)
next
  case (4 src off s s')
  then show ?case
    by (auto dest!: WriteAt_ok simp: ReadAt_def length_file_write bslice_file_write_same)
next
  case (5 n off s d m)
  then show ?case by (auto simp: ReadAt_def bslice_def min_absorb1 split: if_splits)
next
  case (6 src off s r s' i n)
  then obtain k where k: "bk_data s' = file_write off (take k src) (bk_data s)" "bk_rfail s' = bk_rfail s"
    by (auto elim: WriteAt_any)
  have "bslice i (i + n) (file_write off (take k src) (bk_data s)) = bslice i (i + n) (bk_data s)"
    using 6 by (intro bslice_file_write_other) auto
  moreover have "i + n \<le> length (file_write off (take k src) (bk_data s))"
    using 6(2) file_write_grows [of "bk_data s" off "take k src"] by linarith
  ultimately show ?case using 6(2) k by (simp add: ReadAt_def)
qed

end
