(* ===== verification/Vault_Container.thy ===== *)
theory Vault_Container
  imports Vault_Backing
begin

text \<open>
  The storage engine of the vault container (\<^verbatim>\<open>src/vfs/vault/container.go\<close>): pages kept in
  copy-on-write slots, the in-memory page directory, deferred release of superseded extents, the
  segmented directory write and the two-fsync commit with its alternating superblocks.

  An operation returns its Go error (\<open>None\<close> for nil) and the new state; a failing operation keeps
  the state changes made before the failure, as the code does. The compression library, the page
  cipher and the writer signature are not part of the repository's logic: they are parameters, the
  \<open>codec\<close> record and the fields \<open>c_cipher\<close> and \<open>c_writeAs\<close> of the state, with their documented laws
  stated as \<open>codec_ok\<close> and \<open>cipher_ok\<close>. A container is created with a block size of at most 65536
  (\<open>resolveLive\<close>, \<open>validate\<close>), so the product of a \<^verbatim>\<open>uint32\<close> block count and the block size never
  wraps and is written without reduction.
\<close>

unbundle bit_operations_syntax

section \<open>Parameters\<close>

record codec =
  az_encode :: "nat \<Rightarrow> bytes \<Rightarrow> verror + bytes"        \<comment> \<open>compression level, input\<close>
  az_decode :: "bytes \<Rightarrow> bytes \<times> verror option"       \<comment> \<open>the output and the error it ended with\<close>

definition codec_ok :: "codec \<Rightarrow> bool" where
  "codec_ok z \<longleftrightarrow> (\<forall>l page s. az_encode z l page = Inr s \<longrightarrow> s \<noteq> [] \<and> az_decode z s = (page, None))"

record pageCipher =
  encrypt :: "bytes \<Rightarrow> nat \<Rightarrow> byte \<Rightarrow> bytes"
  decrypt :: "bytes \<Rightarrow> nat \<Rightarrow> byte \<Rightarrow> bytes"

definition cipher_ok :: "pageCipher \<Rightarrow> bool" where
  "cipher_ok ci \<longleftrightarrow> (\<forall>b t d. length (encrypt ci b t d) = length b \<and> decrypt ci (encrypt ci b t d) t d = b)"

definition domainPageData :: byte where "domainPageData = 1"
definition domainDirectory :: byte where "domainDirectory = 2"
definition domainSegIndex :: byte where "domainSegIndex = 3"
definition dirCanaryLen :: nat where "dirCanaryLen = 16"

definition dirCanary :: bytes where
  "dirCanary = superblockMagic @ [0x2d, 0x63, 0x61, 0x6e, 0x61, 0x72, 0x79, 0]"  \<comment> \<open>\<open>''-canary''\<close>, NUL-padded\<close>

definition macTagLen :: nat where "macTagLen = 32"

text \<open>\<^verbatim>\<open>macTag\<close>: HMAC-SHA256.\<close>

definition hmac_key :: "bytes \<Rightarrow> bytes" where
  "hmac_key key = (let k = (if 64 < length key then sha256 key else key) in k @ replicate (64 - length k) 0)"

definition macTag :: "bytes \<Rightarrow> bytes \<Rightarrow> bytes" where
  "macTag key msg =
     (let k = hmac_key key
      in sha256 (map (\<lambda>b. b XOR 0x5c) k @ sha256 (map (\<lambda>b. b XOR 0x36) k @ msg)))"

section \<open>State\<close>

record container =
  c_back :: backing
  c_blockSize :: nat
  c_pageSize :: nat
  c_codec :: nat                                     \<comment> \<open>\<^verbatim>\<open>Compression\<close>: 0 is \<^verbatim>\<open>CompressionNone\<close>\<close>
  c_cipher :: "pageCipher option"
  c_enc :: byte
  c_keyslotOffset :: nat
  c_authenticated :: bool
  c_writeAs :: "(bytes \<Rightarrow> bytes) option"             \<comment> \<open>\<^verbatim>\<open>keyring.SignState\<close> with the writer identity\<close>
  c_macKey :: "bytes option"
  c_writers :: "bytes list"                          \<comment> \<open>authorized writer keys\<close>
  c_dek :: bytes
  c_keyslotBlob :: bytes
  c_readOnlyRecipient :: bool
  c_anchor :: "(nat \<Rightarrow> bool) option"                 \<comment> \<open>\<^verbatim>\<open>StoreGeneration\<close>: does storing succeed\<close>
  c_pageCount :: nat
  c_dir :: "dirEntry list"
  c_alloc :: allocator
  c_segEntries :: nat
  c_segIndex :: "segDesc list"
  c_dirtySegs :: "nat set"
  c_committedGen :: nat
  c_committedDirOffset :: nat
  c_committedDirBlocks :: nat
  c_nextSlot :: nat
  c_pendingRelease :: "extent list"
  c_dirty :: bool
  c_readOnly :: bool

definition encNone :: byte where "encNone = 0"

text \<open>The container \<^verbatim>\<open>newContainerOver\<close> starts from, with the allocator of an empty file.\<close>

definition initContainer ::
  "backing \<Rightarrow> bool \<Rightarrow> nat \<Rightarrow> nat \<Rightarrow> nat \<Rightarrow> nat \<Rightarrow> (nat \<Rightarrow> bool) option \<Rightarrow> container" where
  "initContainer back readOnly blockSize pageSize segEntries codec anchor =
     \<lparr>c_back = back, c_blockSize = blockSize, c_pageSize = pageSize, c_codec = codec, c_cipher = None, c_enc = encNone,
      c_keyslotOffset = 0, c_authenticated = False, c_writeAs = None, c_macKey = None, c_writers = [], c_dek = [],
      c_keyslotBlob = [], c_readOnlyRecipient = False, c_anchor = anchor, c_pageCount = 0, c_dir = [],
      c_alloc = newAllocator [] superblockBlocks, c_segEntries = segEntries, c_segIndex = [], c_dirtySegs = {},
      c_committedGen = 0, c_committedDirOffset = 0, c_committedDirBlocks = 0, c_nextSlot = 0, c_pendingRelease = [],
      c_dirty = False, c_readOnly = readOnly\<rparr>"

definition codecTag :: "container \<Rightarrow> byte" where
  "codecTag c = (if c_codec c = 0 then 0 else 1)"

definition container_size :: "container \<Rightarrow> nat" where
  "container_size c = c_pageSize c * c_pageCount c"

section \<open>Page codec\<close>

definition encodePage :: "codec \<Rightarrow> bytes \<Rightarrow> nat \<Rightarrow> verror + (bytes \<times> bool)" where
  "encodePage z page lvl =
     (if lvl = 0 then Inr (page, True)
      else case az_encode z lvl page of
        Inl e \<Rightarrow> Inl e
      | Inr buf \<Rightarrow> if length page \<le> length buf then Inr (page, True) else Inr (buf, False))"

definition decompressStream :: "codec \<Rightarrow> bytes \<Rightarrow> nat \<Rightarrow> verror + bytes" where
  "decompressStream z src mx =
     (let (out, err) = az_decode z src
      in if 0 < mx \<and> mx < length out then Inl (ErrInvalid ''decompressed output exceeds the bound'')
         else case err of Some e \<Rightarrow> Inl e | None \<Rightarrow> Inr out)"

definition decodePage :: "codec \<Rightarrow> nat \<Rightarrow> bytes \<Rightarrow> verror + bytes" where
  "decodePage z n stored =
     (case decompressStream z stored n of
        Inl e \<Rightarrow> Inl e
      | Inr out \<Rightarrow> if length out \<noteq> n then Inl (ErrInvalid ''decoded page length'') else Inr out)"

section \<open>Loading a page\<close>

definition slotHash :: "bytes \<Rightarrow> bytes" where
  "slotHash onDisk = take slotHashLen (sha256 onDisk)"

text \<open>\<open>dst\<close> is the destination buffer, of page size; a slot shorter than it leaves its tail alone.\<close>

definition readVerifyDecrypt :: "pageCipher \<Rightarrow> bytes \<Rightarrow> nat \<Rightarrow> nat \<Rightarrow> byte \<Rightarrow> bytes option" where
  "readVerifyDecrypt ci buf checksum tweak domain =
     (if crc32c buf \<noteq> checksum then None else Some (decrypt ci buf tweak domain))"

definition load_stored :: "container \<Rightarrow> nat \<Rightarrow> dirEntry \<Rightarrow> verror + bytes" where
  "load_stored c pageNo e =
     (case c_cipher c of
        Some ci \<Rightarrow>
          (case ReadAt (de_blocks e * c_blockSize c) (de_physOffset e) (c_back c) of
             Inl err \<Rightarrow> Inl err
           | Inr ext \<Rightarrow>
             if c_authenticated c \<and> slotHash ext \<noteq> de_hash e
             then Inl (ErrInvalid ''slot authentication failed'')
             else (case readVerifyDecrypt ci ext (de_checksum e) pageNo domainPageData of
                 None \<Rightarrow> Inl (ErrInvalid ''slot checksum mismatch'')
               | Some plain \<Rightarrow> Inr (take (de_storedLen e) plain)))
      | None \<Rightarrow>
          (case ReadAt (de_storedLen e) (de_physOffset e) (c_back c) of
             Inl err \<Rightarrow> Inl err
           | Inr stored \<Rightarrow>
             if crc32c stored \<noteq> de_checksum e then Inl (ErrInvalid ''slot checksum mismatch'')
             else Inr stored))"

definition loadPageInto :: "codec \<Rightarrow> container \<Rightarrow> bytes \<Rightarrow> nat \<Rightarrow> verror + bytes" where
  "loadPageInto z c dst pageNo =
     (if length (c_dir c) \<le> pageNo then Inr (replicate (length dst) 0)
      else let e = c_dir c ! pageNo
        in if de_physOffset e = 0 then Inr (replicate (length dst) 0)
           else case load_stored c pageNo e of
                  Inl err \<Rightarrow> Inl err
                | Inr stored \<Rightarrow>
                  if de_flags e AND dirFlagVerbatim \<noteq> 0 then Inr (blit 0 stored dst)
                  else decodePage z (length dst) stored)"

definition loadPage :: "codec \<Rightarrow> container \<Rightarrow> nat \<Rightarrow> verror + bytes" where
  "loadPage z c pageNo = loadPageInto z c (replicate (c_pageSize c) 0) pageNo"

section \<open>Storing a page\<close>

definition allZero :: "bytes \<Rightarrow> bool" where
  "allZero b \<longleftrightarrow> list_all (\<lambda>x. x = 0) b"

definition markSegmentDirty :: "nat \<Rightarrow> container \<Rightarrow> container" where
  "markSegmentDirty pageNo c =
     (if c_segEntries c = 0 then c
      else c\<lparr>c_dirtySegs := insert (pageNo div c_segEntries c) (c_dirtySegs c)\<rparr>)"

definition growDir :: "nat \<Rightarrow> container \<Rightarrow> container" where
  "growDir pageNo c = (let old = length (c_dir c);
       c1 = (if old \<le> pageNo \<and> 0 < old then markSegmentDirty (old - 1) c else c)
     in c1\<lparr>c_dir := c_dir c1 @ replicate (Suc pageNo - old) sparseEntry\<rparr>)"

definition releaseLater :: "nat \<Rightarrow> nat \<Rightarrow> container \<Rightarrow> container" where
  "releaseLater physOffset blocks c =
     c\<lparr>c_pendingRelease := c_pendingRelease c
         @ [\<lparr>ex_start = physOffset div c_blockSize c, ex_count = blocks\<rparr>]\<rparr>"

text \<open>Replacing the entry of a page: grow, schedule the old slot for release, store the new entry.\<close>

definition putEntry :: "nat \<Rightarrow> dirEntry \<Rightarrow> container \<Rightarrow> container" where
  "putEntry pageNo e c = (let
     c1 = growDir pageNo c;
     old = c_dir c1 ! pageNo;
     c2 = (if de_physOffset old \<noteq> 0 then releaseLater (de_physOffset old) (de_blocks old) c1 else c1)
   in markSegmentDirty pageNo (c2\<lparr>c_dir := (c_dir c2)[pageNo := e]\<rparr>))"

definition seal_slot :: "container \<Rightarrow> nat \<Rightarrow> bytes \<Rightarrow> nat \<Rightarrow> bytes \<times> nat \<times> bytes" where
  "seal_slot c pageNo stored nb = (let
     ext = stored @ replicate (nb * c_blockSize c - length stored) 0;
     (ext', checksum) =
       (case c_cipher c of
          None \<Rightarrow> (ext, crc32c stored)
        | Some ci \<Rightarrow> let x = encrypt ci ext pageNo domainPageData in (x, crc32c x))
   in (ext', checksum, if c_authenticated c then slotHash ext' else replicate slotHashLen 0))"

definition storePage :: "codec \<Rightarrow> nat \<Rightarrow> bytes \<Rightarrow> container \<Rightarrow> verror option \<times> container" where
  "storePage z pageNo page c =
     (if allZero page then (None, putEntry pageNo sparseEntry c)
      else case encodePage z page (c_codec c) of
        Inl e \<Rightarrow> (Some e, c)
      | Inr (stored, verbatim) \<Rightarrow>
        (case blocksFor (length stored) (c_blockSize c) of
           Inl p \<Rightarrow> (Some p, c)
         | Inr nb \<Rightarrow>
           (case alloc nb (c_alloc c) of
              Inl p \<Rightarrow> (Some p, c)
            | Inr (blk, al) \<Rightarrow>
              let physOffset = blk * c_blockSize c;
                  (ext, checksum, hash) = seal_slot c pageNo stored nb
              in (case WriteAt ext physOffset (c_back c) of
                   (Some e, bk) \<Rightarrow> (Some e, c\<lparr>c_alloc := al, c_back := bk\<rparr>)
                 | (None, bk) \<Rightarrow>
                   let e = \<lparr>de_physOffset = physOffset, de_storedLen = length stored, de_blocks = nb,
                            de_flags = (if verbatim then dirFlagVerbatim else 0),
                            de_checksum = checksum, de_hash = hash\<rparr>
                   in (None, putEntry pageNo e (c\<lparr>c_alloc := al, c_back := bk\<rparr>))))))"

section \<open>Byte reads and writes, truncation\<close>

function readAt_loop :: "codec \<Rightarrow> container \<Rightarrow> bytes \<Rightarrow> nat \<Rightarrow> verror option \<times> bytes" where
  "readAt_loop z c p cur =
     (if p = [] then (None, [])
      else if c_pageSize c = 0 then (Some (ErrPanic ''division by zero''), [])
      else if c_pageSize c * c_pageCount c \<le> cur then (Some ErrEOF, [])
      else let pageNo = cur div c_pageSize c; intra = cur mod c_pageSize c
        in if intra = 0 \<and> c_pageSize c \<le> length p
           then (case loadPageInto z c (take (c_pageSize c) p) pageNo of
                   Inl e \<Rightarrow> (Some e, [])
                 | Inr page \<Rightarrow>
                   let (err, rest) = readAt_loop z c (drop (c_pageSize c) p) (cur + c_pageSize c)
                   in (err, page @ rest))
           else (case loadPage z c pageNo of
                   Inl e \<Rightarrow> (Some e, [])
                 | Inr page \<Rightarrow>
                   let n = min (length p) (c_pageSize c - intra);
                       (err, rest) = readAt_loop z c (drop n p) (cur + n)
                   in (err, take n (drop intra page) @ rest)))"
  by pat_completeness auto
termination
  by (relation "measure (\<lambda>(z, c, p, cur). length p)") (auto simp: min_def not_le)

declare readAt_loop.simps [simp del]

text \<open>\<^verbatim>\<open>readAt\<close>: the bytes read (their number is the returned count) and the error. \<open>p\<close> is the
  caller's buffer.\<close>

definition readAt :: "codec \<Rightarrow> container \<Rightarrow> bytes \<Rightarrow> nat \<Rightarrow> verror option \<times> bytes" where
  "readAt z c p off = readAt_loop z c p off"

function writeAt_loop :: "codec \<Rightarrow> bytes \<Rightarrow> nat \<Rightarrow> container \<Rightarrow> verror option \<times> container" where
  "writeAt_loop z p cur c =
     (if p = [] then (None, c\<lparr>c_dirty := True\<rparr>)
      else if c_pageSize c = 0 then (Some (ErrPanic ''division by zero''), c)
      else let pageNo = cur div c_pageSize c; intra = cur mod c_pageSize c;
               n = min (c_pageSize c - intra) (length p);
               page = (if intra = 0 \<and> n = c_pageSize c then Inr (take n p)
                       else case loadPage z c pageNo of
                              Inl e \<Rightarrow> Inl e
                            | Inr old \<Rightarrow> Inr (blit intra (take n p) old))
        in case page of
             Inl e \<Rightarrow> (Some e, c)
           | Inr pg \<Rightarrow>
             (case storePage z pageNo pg c of
                (Some e, c') \<Rightarrow> (Some e, c')
              | (None, c') \<Rightarrow>
                writeAt_loop z (drop n p) (cur + n)
                  (c'\<lparr>c_pageCount := max (c_pageCount c') (Suc pageNo)\<rparr>)))"
  by pat_completeness auto
termination
  by (relation "measure (\<lambda>(z, p, cur, c). length p)") (auto simp: min_def not_le)

declare writeAt_loop.simps [simp del]

definition writeAt :: "codec \<Rightarrow> bytes \<Rightarrow> nat \<Rightarrow> container \<Rightarrow> verror option \<times> container" where
  "writeAt z p off c =
     (if c_readOnlyRecipient c then (Some ErrReadOnlyRecipient, c)
      else if c_readOnly c then (Some ErrReadOnly, c)
      else writeAt_loop z p off c)"

definition release_slots :: "dirEntry list \<Rightarrow> container \<Rightarrow> container" where
  "release_slots es c =
     foldl (\<lambda>c e. if de_physOffset e \<noteq> 0 then releaseLater (de_physOffset e) (de_blocks e) c else c) c es"

definition container_truncate :: "nat \<Rightarrow> container \<Rightarrow> verror option \<times> container" where
  "container_truncate sz c =
     (if c_readOnlyRecipient c then (Some ErrReadOnlyRecipient, c)
      else if c_readOnly c then (Some ErrReadOnly, c)
      else if c_pageSize c = 0 then (Some (ErrPanic ''division by zero''), c)
      else let newCount = sz div c_pageSize c + (if sz mod c_pageSize c \<noteq> 0 then 1 else 0);
               oldLen = length (c_dir c);
               c1 = release_slots (drop newCount (c_dir c)) c;
               c2 = c1\<lparr>c_dir := take newCount (c_dir c1)\<rparr>;
               se = c_segEntries c;
               first = (if 0 < newCount then (newCount - 1) div se else 0);
               marks = (if 0 < oldLen \<and> se \<noteq> 0 then filter (\<lambda>s. s * se < oldLen) [first..<oldLen] else []);
               c3 = c2\<lparr>c_dirtySegs := c_dirtySegs c2 \<union> set marks\<rparr>
        in (None, c3\<lparr>c_pageCount := newCount, c_dirty := True\<rparr>))"


section \<open>Writing the directory\<close>

record metaExtent =
  me_off :: nat
  me_blocks :: nat
  me_storedLen :: nat
  me_checksum :: nat
  me_hash :: bytes

definition noMeta :: metaExtent where
  "noMeta = \<lparr>me_off = 0, me_blocks = 0, me_storedLen = 0, me_checksum = 0, me_hash = replicate dirHashLen 0\<rparr>"

definition writeMetaExtent ::
  "bytes \<Rightarrow> bool \<Rightarrow> nat \<Rightarrow> byte \<Rightarrow> container \<Rightarrow> (verror + metaExtent) \<times> container" where
  "writeMetaExtent content withCanary tweak domain c =
     (case c_cipher c of
        Some ci \<Rightarrow>
          let pre = (if withCanary then dirCanary else [])
          in (case blocksFor (length pre + length content) (c_blockSize c) of
                Inl p \<Rightarrow> (Inl p, c)
              | Inr n \<Rightarrow>
                let nb = (if n = 0 then 1 else n);
                    plain = pre @ content;
                    buf = encrypt ci (plain @ replicate (nb * c_blockSize c - length plain) 0) tweak domain
                in (case alloc nb (c_alloc c) of
                      Inl p \<Rightarrow> (Inl p, c)
                    | Inr (blk, al) \<Rightarrow>
                      let off = blk * c_blockSize c;
                          hash = (if c_authenticated c then sha256 buf else replicate dirHashLen 0)
                      in (case WriteAt buf off (c_back c) of
                            (Some e, bk) \<Rightarrow> (Inl e, c\<lparr>c_alloc := al, c_back := bk\<rparr>)
                          | (None, bk) \<Rightarrow>
                            (Inr \<lparr>me_off = off, me_blocks = nb, me_storedLen = length content,
                                  me_checksum = crc32c buf, me_hash = hash\<rparr>,
                             c\<lparr>c_alloc := al, c_back := bk\<rparr>))))
      | None \<Rightarrow>
          if content = [] then (Inr noMeta, c)
          else (case blocksFor (length content) (c_blockSize c) of
                  Inl p \<Rightarrow> (Inl p, c)
                | Inr nb \<Rightarrow>
                  (case alloc nb (c_alloc c) of
                     Inl p \<Rightarrow> (Inl p, c)
                   | Inr (blk, al) \<Rightarrow>
                     let off = blk * c_blockSize c;
                         buf = content @ replicate (nb * c_blockSize c - length content) 0
                     in (case WriteAt buf off (c_back c) of
                           (Some e, bk) \<Rightarrow> (Inl e, c\<lparr>c_alloc := al, c_back := bk\<rparr>)
                         | (None, bk) \<Rightarrow>
                           (Inr \<lparr>me_off = off, me_blocks = nb, me_storedLen = length content,
                                 me_checksum = crc32c content, me_hash = replicate dirHashLen 0\<rparr>,
                            c\<lparr>c_alloc := al, c_back := bk\<rparr>)))))"

definition allSparse :: "dirEntry list \<Rightarrow> bool" where
  "allSparse entries \<longleftrightarrow> list_all (\<lambda>e. de_physOffset e = 0) entries"

definition superseded :: "segDesc list \<Rightarrow> nat \<Rightarrow> segDesc list" where
  "superseded segIndex s =
     (if s < length segIndex \<and> sd_physOffset (segIndex ! s) \<noteq> 0 then [segIndex ! s] else [])"

text \<open>The loop over the segments: the descriptors written or carried forward so far are \<open>newSegs\<close>,
  the superseded extents \<open>released\<close>. \<open>idx\<close> is the committed segment index, which the loop reads.\<close>

fun write_segments :: "segDesc list \<Rightarrow> nat list \<Rightarrow> segDesc list \<Rightarrow> segDesc list \<Rightarrow> container \<Rightarrow>
    (verror + (segDesc list \<times> segDesc list)) \<times> container" where
  "write_segments idx [] newSegs released c = (Inr (newSegs, released), c)"
| "write_segments idx (s # ss) newSegs released c =
     (if s \<notin> c_dirtySegs c \<and> s < length idx
      then write_segments idx ss (newSegs @ [idx ! s]) released c
      else let (lo, hi) = segmentBounds s (c_segEntries c) (c_pageCount c);
               entries = bslice lo hi (c_dir c)
        in if allSparse entries
           then write_segments idx ss (newSegs @ [emptySeg]) (released @ superseded idx s) c
           else (case writeMetaExtent (marshalDirectory entries (c_authenticated c)) False s domainDirectory c of
                   (Inl e, c') \<Rightarrow> (Inl e, c')
                 | (Inr m, c') \<Rightarrow>
                   write_segments idx ss
                     (newSegs @ [\<lparr>sd_physOffset = me_off m, sd_storedLen = me_storedLen m,
                                  sd_blocks = me_blocks m, sd_checksum = me_checksum m,
                                  sd_hash = take slotHashLen (me_hash m)\<rparr>])
                     (released @ superseded idx s) c'))"

definition padDir :: "container \<Rightarrow> container" where
  "padDir c = c\<lparr>c_dir := c_dir c @ replicate (c_pageCount c - length (c_dir c)) sparseEntry\<rparr>"

definition writeDirectory :: "container \<Rightarrow> (verror + (metaExtent \<times> segDesc list)) \<times> container" where
  "writeDirectory c0 = (let
     c = padDir c0;
     idx = c_segIndex c;
     nSegs = segmentCount (c_pageCount c) (c_segEntries c)
   in if nSegs = 0 \<and> c_cipher c = None
      then (Inr (noMeta, concat (map (superseded idx) [0..<length idx])),
            c\<lparr>c_segIndex := [], c_dirtySegs := {}\<rparr>)
      else (case write_segments idx [0..<nSegs] [] [] c of
              (Inl e, c') \<Rightarrow> (Inl e, c')
            | (Inr (newSegs, released), c') \<Rightarrow>
              let released' = released @ concat (map (superseded idx) [nSegs..<length idx])
              in (case writeMetaExtent (marshalSegmentIndex newSegs) True 0 domainSegIndex c' of
                    (Inl e, c'') \<Rightarrow> (Inl e, c'')
                  | (Inr m, c'') \<Rightarrow> (Inr (m, released'), c''\<lparr>c_segIndex := newSegs\<rparr>))))"

section \<open>Commit\<close>

definition commit_superblock :: "metaExtent \<Rightarrow> container \<Rightarrow> superblock" where
  "commit_superblock m c =
     \<lparr>sb_blockSize = c_blockSize c, sb_pageSize = c_pageSize c, sb_pageCount = c_pageCount c,
      sb_dirOffset = me_off m, sb_dirBlocks = me_blocks m, sb_segEntries = c_segEntries c,
      sb_generation = c_committedGen c + 1, sb_codec = codecTag c, sb_enc = c_enc c,
      sb_dirChecksum = me_checksum m, sb_keyslotOffset = c_keyslotOffset c,
      sb_authenticated = c_authenticated c, sb_dirHash = me_hash m,
      sb_writerSig = replicate writerSigLen 0\<rparr>"

definition sign_superblock :: "container \<Rightarrow> superblock \<Rightarrow> verror + superblock" where
  "sign_superblock c sb =
     (if \<not> c_authenticated c then Inr sb
      else case c_macKey c of
        Some k \<Rightarrow> Inr (sb\<lparr>sb_writerSig := blit 0 (macTag k (signedState sb)) (sb_writerSig sb)\<rparr>)
      | None \<Rightarrow>
        (case c_writeAs c of
           None \<Rightarrow> Inl ErrReadOnly
         | Some sign \<Rightarrow> Inr (sb\<lparr>sb_writerSig := blit 0 (sign (signedState sb)) (sb_writerSig sb)\<rparr>)))"

definition release_pending :: "container \<Rightarrow> container" where
  "release_pending c = c\<lparr>c_alloc := foldl (\<lambda>a e. release (ex_start e) (ex_count e) a) (c_alloc c) (c_pendingRelease c),
     c_pendingRelease := []\<rparr>"

definition finish_commit :: "metaExtent \<Rightarrow> segDesc list \<Rightarrow> container \<Rightarrow> verror option \<times> container" where
  "finish_commit m oldSegs c = (let
     c1 = (if 0 < c_committedDirBlocks c
           then releaseLater (c_committedDirOffset c) (c_committedDirBlocks c) c else c);
     c2 = foldl (\<lambda>c d. if sd_physOffset d \<noteq> 0 then releaseLater (sd_physOffset d) (sd_blocks d) c else c) c1 oldSegs;
     c3 = release_pending c2;
     newGen = c_committedGen c + 1;
     c4 = c3\<lparr>c_committedGen := newGen, c_committedDirOffset := me_off m, c_committedDirBlocks := me_blocks m,
             c_nextSlot := 1 - c_nextSlot c, c_dirty := False, c_dirtySegs := {}\<rparr>
   in case c_anchor c of
        Some store \<Rightarrow> (if store newGen then None else Some (ErrInvalid ''replay anchor store''), c4)
      | None \<Rightarrow> (None, c4))"

definition commit :: "container \<Rightarrow> verror option \<times> container" where
  "commit c =
     (case writeDirectory c of
        (Inl e, c1) \<Rightarrow> (Some e, c1)
      | (Inr (m, oldSegs), c1) \<Rightarrow>
        (case Sync (c_back c1) of
           (Some e, bk) \<Rightarrow> (Some e, c1\<lparr>c_back := bk\<rparr>)
         | (None, bk) \<Rightarrow>
           let c2 = c1\<lparr>c_back := bk\<rparr>
           in (case sign_superblock c2 (commit_superblock m c2) of
                 Inl e \<Rightarrow> (Some e, c2)
               | Inr sb \<Rightarrow>
                 (case WriteAt (sb_marshal sb) (c_nextSlot c2 * c_blockSize c2) (c_back c2) of
                    (Some e, bk2) \<Rightarrow> (Some e, c2\<lparr>c_back := bk2\<rparr>)
                  | (None, bk2) \<Rightarrow>
                    (case Sync bk2 of
                       (Some e, bk3) \<Rightarrow> (Some e, c2\<lparr>c_back := bk3\<rparr>)
                     | (None, bk3) \<Rightarrow> finish_commit m oldSegs (c2\<lparr>c_back := bk3\<rparr>))))))"

definition container_sync :: "container \<Rightarrow> verror option \<times> container" where
  "container_sync c =
     (if c_readOnly c then (None, c)
      else if \<not> c_dirty c then (case Sync (c_back c) of (e, bk) \<Rightarrow> (e, c\<lparr>c_back := bk\<rparr>))
      else commit c)"

end
