(* ===== verification/Vault_Store.thy ===== *)
theory Vault_Store
  imports Vault_Container
begin

text \<open>
  Correctness of the copy-on-write page store: the invariant that ties the directory, the deferred
  releases and the allocator together, and read-after-write. \<open>held\<close> counts the blocks the state
  references; \<open>leak\<close> is a ghost argument for blocks reserved outside it (the keyslot; an extent
  just written and not yet referenced). The invariant says that references, leaks and free blocks never share a block.
\<close>

unbundle bit_operations_syntax

section \<open>Which blocks a state references\<close>

definition entry_bag :: "nat \<Rightarrow> dirEntry \<Rightarrow> nat multiset" where
  "entry_bag bs e = (if de_physOffset e = 0 then {#}
     else region (de_physOffset e div bs) (de_physOffset e div bs + de_blocks e))"

definition seg_bag :: "nat \<Rightarrow> segDesc \<Rightarrow> nat multiset" where
  "seg_bag bs d = (if sd_physOffset d = 0 then {#}
     else region (sd_physOffset d div bs) (sd_physOffset d div bs + sd_blocks d))"

definition dir_bag :: "nat \<Rightarrow> dirEntry list \<Rightarrow> nat multiset" where
  "dir_bag bs dir = sum_list (map (entry_bag bs) dir)"

definition segs_bag :: "nat \<Rightarrow> segDesc list \<Rightarrow> nat multiset" where
  "segs_bag bs segs = sum_list (map (seg_bag bs) segs)"

definition index_bag :: "container \<Rightarrow> nat multiset" where
  "index_bag c = (let s = c_committedDirOffset c div c_blockSize c
     in region s (s + c_committedDirBlocks c))"

definition pending_bag :: "container \<Rightarrow> nat multiset" where
  "pending_bag c = run_bag (map ex_run (c_pendingRelease c))"

definition held :: "container \<Rightarrow> nat multiset" where
  "held c = dir_bag (c_blockSize c) (c_dir c) + segs_bag (c_blockSize c) (c_segIndex c)
     + index_bag c + pending_bag c"

lemma entry_bag_sparse [simp]: "entry_bag bs sparseEntry = {#}"
  by (simp add: entry_bag_def sparseEntry_def)

lemma seg_bag_empty [simp]: "seg_bag bs emptySeg = {#}"
  by (simp add: seg_bag_def emptySeg_def)

lemma dir_bag_append [simp]: "dir_bag bs (xs @ ys) = dir_bag bs xs + dir_bag bs ys"
  by (simp add: dir_bag_def)

lemma dir_bag_replicate_sparse [simp]: "dir_bag bs (replicate n sparseEntry) = {#}"
  by (induction n) (simp_all add: dir_bag_def)

lemma dir_bag_update:
  "i < length dir \<Longrightarrow> dir_bag bs (dir[i := e]) + entry_bag bs (dir ! i) = dir_bag bs dir + entry_bag bs e"
proof (induction dir arbitrary: i)
  case (Cons x dir)
  show ?case
  proof (cases i)
    case (Suc k)
    then have "dir_bag bs (dir[k := e]) + entry_bag bs (dir ! k) = dir_bag bs dir + entry_bag bs e"
      using Cons by simp
    then show ?thesis using Suc by (simp add: dir_bag_def add_ac)
  qed (simp add: dir_bag_def add_ac)
qed simp

lemma entry_bag_in_dir: "i < length dir \<Longrightarrow> entry_bag bs (dir ! i) \<subseteq># dir_bag bs dir"
  using dir_bag_update [of i dir bs sparseEntry] by (metis add_0_right entry_bag_sparse mset_subset_eq_add_right)

text \<open>Two non-empty runs inside one region never overlap.\<close>

lemma disjoint_regions:
  assumes "region a b + region s t \<subseteq># region lo hi" "a < b" "s < t"
  shows "b \<le> s \<or> t \<le> a"
proof (rule ccontr)
  assume "\<not> (b \<le> s \<or> t \<le> a)"
  then have "a \<le> max a s \<and> max a s < b \<and> s \<le> max a s \<and> max a s < t" using assms(2,3) by auto
  then have "count (region a b + region s t) (max a s) = 2" by (simp add: count_region)
  then have "2 \<le> count (region lo hi) (max a s)"
    using mset_subset_eq_count [OF assms(1), of "max a s"] by simp
  then show False by (simp add: count_region split: if_splits)
qed

section \<open>Invariant\<close>

definition slot_wf :: "container \<Rightarrow> dirEntry \<Rightarrow> bool" where
  "slot_wf c e \<longleftrightarrow> (de_physOffset e \<noteq> 0 \<longrightarrow>
     c_blockSize c dvd de_physOffset e \<and> 0 < de_blocks e \<and> de_storedLen e \<le> de_blocks e * c_blockSize c \<and>
     de_physOffset e + de_blocks e * c_blockSize c \<le> length (bk_data (c_back c)))"

definition geometry_ok :: "container \<Rightarrow> bool" where
  "geometry_ok c \<longleftrightarrow> 512 \<le> c_blockSize c \<and> c_blockSize c \<le> c_pageSize c \<and> c_pageSize c \<le> 65536 \<and>
     0 < c_segEntries c \<and> c_segEntries c < 2 ^ 32 \<and> (\<forall>ci. c_cipher c = Some ci \<longrightarrow> cipher_ok ci)"

definition container_inv :: "container \<Rightarrow> nat multiset \<Rightarrow> bool" where
  "container_inv c leak \<longleftrightarrow> geometry_ok c \<and> alloc_inv (c_alloc c) \<and>
     held c + leak + free_bag (c_alloc c) \<subseteq># region superblockBlocks (al_highWater (c_alloc c)) \<and>
     (\<forall>e\<in>set (c_dir c). slot_wf c e)"

text \<open>Fewer leaked blocks are fine too.\<close>

lemma container_inv_less: "container_inv c (leak + lost) \<Longrightarrow> container_inv c leak"
  using subset_mset.order_trans [of "held c + leak + free_bag (c_alloc c)" "held c + (leak + lost) + free_bag (c_alloc c)"]
  by (auto simp: container_inv_def)

definition readable :: "container \<Rightarrow> bool" where
  "readable c \<longleftrightarrow> (\<forall>i n. \<not> bk_rfail (c_back c) i n)"

text \<open>The allocator has room to grow by \<open>n\<close> blocks (a file stays far below \<open>2 ^ 64\<close> blocks). A page
  takes at most 256.\<close>

definition room :: "container \<Rightarrow> nat \<Rightarrow> bool" where
  "room c n \<longleftrightarrow> al_highWater (c_alloc c) + n < 2 ^ 64"

text \<open>The bookkeeping fields (page count, dirty flag, dirty segments) play no part in the invariant.\<close>

lemma same_store:
  assumes "c_dir c' = c_dir c" "c_alloc c' = c_alloc c" "c_back c' = c_back c" "c_blockSize c' = c_blockSize c"
    "c_pageSize c' = c_pageSize c" "c_cipher c' = c_cipher c" "c_segEntries c' = c_segEntries c"
    "c_segIndex c' = c_segIndex c" "c_committedDirOffset c' = c_committedDirOffset c"
    "c_committedDirBlocks c' = c_committedDirBlocks c" "c_pendingRelease c' = c_pendingRelease c"
  shows "held c' = held c" "container_inv c' leak = container_inv c leak" "room c' n = room c n"
    "readable c' = readable c"
proof -
  show h: "held c' = held c" using assms by (simp add: held_def index_bag_def pending_bag_def)
  have "slot_wf c' = slot_wf c" using assms by (intro ext) (simp add: slot_wf_def)
  then show "container_inv c' leak = container_inv c leak"
    using assms h by (simp add: container_inv_def geometry_ok_def)
qed (use assms in \<open>simp_all add: room_def readable_def\<close>)

section \<open>Replacing a directory entry\<close>

lemma markSegmentDirty_fields [simp]:
  "c_dir (markSegmentDirty p c) = c_dir c" "c_alloc (markSegmentDirty p c) = c_alloc c"
  "c_back (markSegmentDirty p c) = c_back c" "c_blockSize (markSegmentDirty p c) = c_blockSize c"
  "c_pageSize (markSegmentDirty p c) = c_pageSize c" "c_pendingRelease (markSegmentDirty p c) = c_pendingRelease c"
  "c_cipher (markSegmentDirty p c) = c_cipher c" "c_authenticated (markSegmentDirty p c) = c_authenticated c"
  "c_segEntries (markSegmentDirty p c) = c_segEntries c" "c_segIndex (markSegmentDirty p c) = c_segIndex c"
  "c_committedDirOffset (markSegmentDirty p c) = c_committedDirOffset c"
  "c_committedDirBlocks (markSegmentDirty p c) = c_committedDirBlocks c"
  "c_pageCount (markSegmentDirty p c) = c_pageCount c" "c_codec (markSegmentDirty p c) = c_codec c"
  by (simp_all add: markSegmentDirty_def)

lemma releaseLater_fields [simp]:
  "c_dir (releaseLater o' n c) = c_dir c" "c_alloc (releaseLater o' n c) = c_alloc c"
  "c_back (releaseLater o' n c) = c_back c" "c_blockSize (releaseLater o' n c) = c_blockSize c"
  "c_pageSize (releaseLater o' n c) = c_pageSize c" "c_cipher (releaseLater o' n c) = c_cipher c"
  "c_authenticated (releaseLater o' n c) = c_authenticated c" "c_segEntries (releaseLater o' n c) = c_segEntries c"
  "c_segIndex (releaseLater o' n c) = c_segIndex c" "c_pageCount (releaseLater o' n c) = c_pageCount c"
  "c_committedDirOffset (releaseLater o' n c) = c_committedDirOffset c"
  "c_committedDirBlocks (releaseLater o' n c) = c_committedDirBlocks c"
  "c_codec (releaseLater o' n c) = c_codec c"
  by (simp_all add: releaseLater_def)

definition grownDir :: "nat \<Rightarrow> dirEntry list \<Rightarrow> dirEntry list" where
  "grownDir pageNo dir = dir @ replicate (Suc pageNo - length dir) sparseEntry"

lemma length_grownDir: "pageNo < length (grownDir pageNo dir)"
  by (auto simp: grownDir_def)

lemma nth_grownDir: "q < length (grownDir p dir) \<Longrightarrow> grownDir p dir ! q = (if q < length dir then dir ! q else sparseEntry)"
  by (auto simp: grownDir_def nth_append)

lemma putEntry_dir: "c_dir (putEntry p e c) = (grownDir p (c_dir c))[p := e]"
  by (simp add: putEntry_def growDir_def grownDir_def Let_def)

lemma putEntry_fields [simp]:
  "c_alloc (putEntry p e c) = c_alloc c" "c_back (putEntry p e c) = c_back c"
  "c_blockSize (putEntry p e c) = c_blockSize c" "c_pageSize (putEntry p e c) = c_pageSize c"
  "c_cipher (putEntry p e c) = c_cipher c" "c_authenticated (putEntry p e c) = c_authenticated c"
  "c_segEntries (putEntry p e c) = c_segEntries c" "c_segIndex (putEntry p e c) = c_segIndex c"
  "c_committedDirOffset (putEntry p e c) = c_committedDirOffset c"
  "c_committedDirBlocks (putEntry p e c) = c_committedDirBlocks c"
  "c_pageCount (putEntry p e c) = c_pageCount c" "c_codec (putEntry p e c) = c_codec c"
  by (simp_all add: putEntry_def growDir_def Let_def)

lemma putEntry_pending:
  "pending_bag (putEntry p e c) = pending_bag c + entry_bag (c_blockSize c) (grownDir p (c_dir c) ! p)"
  by (simp add: putEntry_def growDir_def grownDir_def pending_bag_def releaseLater_def markSegmentDirty_def
      entry_bag_def Let_def)

text \<open>The old slot moves to the pending releases, the new one joins: the count grows by the new slot.\<close>

lemma putEntry_held: "held (putEntry p e c) = held c + entry_bag (c_blockSize c) e"
proof -
  let ?g = "grownDir p (c_dir c)" and ?bs = "c_blockSize c"
  have "dir_bag ?bs (?g[p := e]) + entry_bag ?bs (?g ! p) = dir_bag ?bs ?g + entry_bag ?bs e"
    by (rule dir_bag_update [OF length_grownDir])
  moreover have "dir_bag ?bs ?g = dir_bag ?bs (c_dir c)" by (simp add: grownDir_def)
  moreover have "index_bag (putEntry p e c) = index_bag c" by (simp add: index_bag_def)
  ultimately show ?thesis
    by (simp add: held_def putEntry_dir putEntry_pending add_ac)
qed

lemma putEntry_inv:
  assumes "container_inv c leak" "slot_wf c e"
    and "held c + entry_bag (c_blockSize c) e + leak + free_bag (c_alloc c)
           \<subseteq># region superblockBlocks (al_highWater (c_alloc c))"
  shows "container_inv (putEntry p e c) leak"
proof -
  have wf: "slot_wf (putEntry p e c) x = slot_wf c x" for x by (simp add: slot_wf_def)
  have "slot_wf c sparseEntry" by (simp add: slot_wf_def sparseEntry_def)
  then have "\<forall>x\<in>set (c_dir (putEntry p e c)). slot_wf c x"
    using assms(1,2) set_update_subset_insert [of "grownDir p (c_dir c)" p e]
    by (auto simp: container_inv_def putEntry_dir grownDir_def)
  then show ?thesis
    using assms by (simp add: container_inv_def geometry_ok_def putEntry_held wf)
qed

text \<open>What loading a slot depends on.\<close>

lemma load_stored_cong:
  assumes "c_cipher c' = c_cipher c" "c_blockSize c' = c_blockSize c" "c_authenticated c' = c_authenticated c"
    and "ReadAt (de_storedLen e) (de_physOffset e) (c_back c') = ReadAt (de_storedLen e) (de_physOffset e) (c_back c)"
    and "ReadAt (de_blocks e * c_blockSize c) (de_physOffset e) (c_back c')
      = ReadAt (de_blocks e * c_blockSize c) (de_physOffset e) (c_back c)"
  shows "load_stored c' q e = load_stored c q e"
  using assms by (simp add: load_stored_def cong: option.case_cong sum.case_cong)

section \<open>Writing a freshly allocated extent\<close>

text \<open>Allocating a run and writing it: the run leaves the free space and nothing else moves, so every
  range inside referenced blocks, and the superblock area, reads as before.\<close>

definition with_extent :: "container \<Rightarrow> allocator \<Rightarrow> backing \<Rightarrow> container" where
  "with_extent c al bk = c\<lparr>c_alloc := al, c_back := bk\<rparr>"

lemma with_extent_held [simp]: "held (with_extent c al bk) = held c"
  by (simp add: with_extent_def held_def index_bag_def pending_bag_def)

lemma with_extent_fields [simp]:
  "c_alloc (with_extent c al bk) = al" "c_back (with_extent c al bk) = bk" "c_dir (with_extent c al bk) = c_dir c"
  "c_blockSize (with_extent c al bk) = c_blockSize c" "c_pageSize (with_extent c al bk) = c_pageSize c"
  "c_cipher (with_extent c al bk) = c_cipher c" "c_authenticated (with_extent c al bk) = c_authenticated c"
  "c_segEntries (with_extent c al bk) = c_segEntries c" "c_pageCount (with_extent c al bk) = c_pageCount c"
  "c_codec (with_extent c al bk) = c_codec c" "c_dirtySegs (with_extent c al bk) = c_dirtySegs c"
  "c_segIndex (with_extent c al bk) = c_segIndex c" "c_pendingRelease (with_extent c al bk) = c_pendingRelease c"
  "c_committedDirOffset (with_extent c al bk) = c_committedDirOffset c"
  "c_committedDirBlocks (with_extent c al bk) = c_committedDirBlocks c"
  "c_committedGen (with_extent c al bk) = c_committedGen c" "c_nextSlot (with_extent c al bk) = c_nextSlot c"
  by (simp_all add: with_extent_def)

lemma extent_inv:
  assumes "container_inv c leak" "0 < nb" "room c nb" "alloc nb (c_alloc c) = Inr (blk, al)"
    and "WriteAt ext (blk * c_blockSize c) (c_back c) = (r, bk)"
  shows "container_inv (with_extent c al bk) (leak + region blk (blk + nb))"
    and "superblockBlocks \<le> blk"
    and "region blk (blk + nb) + (held c + leak) \<subseteq># region superblockBlocks (al_highWater al)"
    and "al_highWater al \<le> al_highWater (c_alloc c) + nb"
proof -
  have i: "alloc_inv (c_alloc c)" "al_highWater (c_alloc c) + nb < 2 ^ 64"
    "(held c + leak) + free_bag (c_alloc c) \<subseteq># region superblockBlocks (al_highWater (c_alloc c))"
    using assms by (auto simp: container_inv_def room_def)
  note sp = vault_alloc.take_space [OF i(1) assms(2) i(2,3) assms(4)]
  show "al_highWater al \<le> al_highWater (c_alloc c) + nb" by (rule sp(4))
  show "superblockBlocks \<le> blk" by (rule sp(5))
  show "region blk (blk + nb) + (held c + leak) \<subseteq># region superblockBlocks (al_highWater al)"
    using subset_mset.order_trans [OF mset_subset_eq_add_left sp(2)] by (simp add: add_ac)
  have "length (bk_data (c_back c)) \<le> length (bk_data bk)"
    by (rule file_store.wr_grows [OF assms(5)])
  then have "slot_wf (with_extent c al bk) e" if "slot_wf c e" for e
    using that by (auto simp: slot_wf_def)
  then show "container_inv (with_extent c al bk) (leak + region blk (blk + nb))"
    using assms(1) sp(1,2) by (auto simp: container_inv_def geometry_ok_def add.assoc)
qed

text \<open>A range of bytes inside a run of blocks that is disjoint from the new run.\<close>

lemma extent_other:
  assumes "container_inv c leak" "0 < nb" "room c nb" "alloc nb (c_alloc c) = Inr (blk, al)"
    and "WriteAt ext (blk * c_blockSize c) (c_back c) = (r, bk)" "length ext = nb * c_blockSize c"
    and "region s (s + m) \<subseteq># held c + leak" "0 < m"
    and "s * c_blockSize c \<le> i" "i + n \<le> (s + m) * c_blockSize c" "i + n \<le> length (bk_data (c_back c))"
  shows "ReadAt n i bk = ReadAt n i (c_back c)"
proof -
  let ?bs = "c_blockSize c"
  have "region blk (blk + nb) + region s (s + m) \<subseteq># region superblockBlocks (al_highWater al)"
    using extent_inv(3) [OF assms(1-5)] assms(7) by (metis subset_mset.add_left_mono subset_mset.order_trans)
  then have "blk + nb \<le> s \<or> s + m \<le> blk"
    using assms(2,8) by (intro disjoint_regions) auto
  then have "(blk + nb) * ?bs \<le> s * ?bs \<or> (s + m) * ?bs \<le> blk * ?bs"
    by (meson mult_le_mono1)
  then have "i + n \<le> blk * ?bs \<or> blk * ?bs + length ext \<le> i"
    using assms(6,9,10) by (auto simp: algebra_simps)
  then show ?thesis using assms(5,11) by (intro file_store.rd_other) auto
qed

lemma slot_in_held:
  assumes "q < length (c_dir c)" "de_physOffset (c_dir c ! q) \<noteq> 0"
  shows "region (de_physOffset (c_dir c ! q) div c_blockSize c)
      (de_physOffset (c_dir c ! q) div c_blockSize c + de_blocks (c_dir c ! q)) \<subseteq># held c"
  using entry_bag_in_dir [OF assms(1), of "c_blockSize c"] assms(2)
  by (simp add: held_def entry_bag_def subset_mset.add_increasing2)

text \<open>Loading depends on the slot's bytes only, so an extent written elsewhere does not change it.\<close>

lemma extent_load:
  assumes "container_inv c leak" "0 < nb" "room c nb" "alloc nb (c_alloc c) = Inr (blk, al)"
    and "WriteAt ext (blk * c_blockSize c) (c_back c) = (r, bk)" "length ext = nb * c_blockSize c"
  shows "loadPageInto z (with_extent c al bk) dst q = loadPageInto z c dst q"
proof (cases "q < length (c_dir c) \<and> de_physOffset (c_dir c ! q) \<noteq> 0")
  case True
  let ?e = "c_dir c ! q" and ?bs = "c_blockSize c"
  have wf: "?bs dvd de_physOffset ?e" "0 < de_blocks ?e" "de_storedLen ?e \<le> de_blocks ?e * ?bs"
    "de_physOffset ?e + de_blocks ?e * ?bs \<le> length (bk_data (c_back c))"
    using assms(1) True by (auto simp: container_inv_def slot_wf_def)
  have h: "region (de_physOffset ?e div ?bs) (de_physOffset ?e div ?bs + de_blocks ?e) \<subseteq># held c + leak"
    using slot_in_held [of q c] True by (simp add: subset_mset.add_increasing2)
  have "ReadAt n (de_physOffset ?e) bk = ReadAt n (de_physOffset ?e) (c_back c)"
    if "n \<le> de_blocks ?e * ?bs" for n
    using that wf by (intro extent_other [OF assms h]) (auto simp: algebra_simps)
  then have "load_stored (with_extent c al bk) q ?e = load_stored c q ?e"
    using wf(3) by (intro load_stored_cong) simp_all
  then show ?thesis by (simp add: loadPageInto_def Let_def)
qed (auto simp: loadPageInto_def)

section \<open>Read after write\<close>

text \<open>Replacing an entry is seen by the loads of its page only.\<close>

lemma putEntry_load_other: "q \<noteq> p \<Longrightarrow> loadPageInto z (putEntry p e c) dst q = loadPageInto z c dst q"
  using load_stored_cong [of "putEntry p e c" c]
  by (auto simp: loadPageInto_def putEntry_dir grownDir_def nth_append sparseEntry_def Let_def)

lemma putEntry_load_same:
  "loadPageInto z (putEntry p e c) dst p =
     (if de_physOffset e = 0 then Inr (replicate (length dst) 0)
      else case load_stored c p e of
             Inl err \<Rightarrow> Inl err
           | Inr stored \<Rightarrow> if de_flags e AND dirFlagVerbatim \<noteq> 0 then Inr (blit 0 stored dst)
                           else decodePage z (length dst) stored)"
  using length_grownDir [of p "c_dir c"] load_stored_cong [of "putEntry p e c" c]
  by (simp add: loadPageInto_def putEntry_dir Let_def)

lemma encodePage_ok:
  assumes "codec_ok z" "encodePage z page lvl = Inr (stored, verbatim)" "page \<noteq> []"
  shows "stored \<noteq> []" "length stored \<le> length page"
    and "if verbatim then stored = page else az_decode z stored = (page, None)"
  using assms by (auto simp: encodePage_def codec_ok_def split: if_splits sum.splits)

lemma decodePage_ok: "az_decode z stored = (page, None) \<Longrightarrow> decodePage z (length page) stored = Inr page"
  by (simp add: decodePage_def decompressStream_def)

lemma seal_slot_ok:
  assumes "\<forall>ci. c_cipher c = Some ci \<longrightarrow> cipher_ok ci" "length stored \<le> nb * c_blockSize c"
    and "seal_slot c p stored nb = (ext, checksum, hash)"
  shows "length ext = nb * c_blockSize c"
    and "c_cipher c = None \<Longrightarrow> take (length stored) ext = stored \<and> checksum = crc32c stored"
    and "c_cipher c = Some ci \<Longrightarrow> take (length stored) (decrypt ci ext p domainPageData) = stored \<and> checksum = crc32c ext"
    and "c_authenticated c \<Longrightarrow> hash = slotHash ext"
  using assms by (auto simp: seal_slot_def cipher_ok_def Let_def split: option.splits if_splits)

text \<open>Reading back the slot that was just sealed and written.\<close>

lemma load_sealed:
  assumes "\<forall>ci. c_cipher c = Some ci \<longrightarrow> cipher_ok ci" "length stored \<le> nb * c_blockSize c" "stored \<noteq> []"
    and "seal_slot c p stored nb = (ext, checksum, hash)" "readable c"
    and "WriteAt ext off (c_back c) = (None, bk)"
    and "de_physOffset e = off" "de_storedLen e = length stored" "de_blocks e = nb"
    and "de_checksum e = checksum" "de_hash e = hash"
  shows "load_stored (with_extent c al bk) p e = Inr stored"
proof -
  note seal = seal_slot_ok [OF assms(1,2,4)]
  have ne: "ext \<noteq> []" "length stored \<le> length ext" using seal(1) assms(2,3) by auto
  have "ReadAt (length ext) off bk = Inr ext" "ReadAt (length stored) off bk = Inr (take (length stored) ext)"
    using file_store.rd_same [OF assms(6) ne(1)] file_store.rd_written_prefix [OF assms(6) ne(1) _ _ ne(2)] assms(5)
    by (auto simp: readable_def)
  then show ?thesis
    using assms(7-11) seal by (cases "c_cipher c") (auto simp: load_stored_def readVerifyDecrypt_def)
qed

definition slotEntry :: "nat \<Rightarrow> bytes \<Rightarrow> nat \<Rightarrow> bool \<Rightarrow> nat \<Rightarrow> bytes \<Rightarrow> dirEntry" where
  "slotEntry off stored nb verbatim checksum hash =
     \<lparr>de_physOffset = off, de_storedLen = length stored, de_blocks = nb,
      de_flags = (if verbatim then dirFlagVerbatim else 0), de_checksum = checksum, de_hash = hash\<rparr>"

lemma slotEntry_fields [simp]:
  "de_physOffset (slotEntry off stored nb v ck h) = off" "de_storedLen (slotEntry off stored nb v ck h) = length stored"
  "de_blocks (slotEntry off stored nb v ck h) = nb" "de_checksum (slotEntry off stored nb v ck h) = ck"
  "de_hash (slotEntry off stored nb v ck h) = h"
  by (simp_all add: slotEntry_def)

text \<open>The outcomes of \<^verbatim>\<open>storePage\<close> on a container in good order: the page is zero, the compressor
  fails, or a run is allocated and written, with or without success.\<close>

lemma storePage_cases:
  assumes "container_inv c leak" "room c 256" "codec_ok z" "length page = c_pageSize c" "storePage z p page c = (r, c')"
  obtains (zero) "page = replicate (c_pageSize c) 0" "r = None" "c' = putEntry p sparseEntry c"
    | (encode) e where "r = Some e" "c' = c" "encodePage z page (c_codec c) = Inl e"
    | (wrote) stored verbatim nb blk al ext ck h bk where
        "encodePage z page (c_codec c) = Inr (stored, verbatim)" "stored \<noteq> []" "page \<noteq> []"
        "length stored \<le> nb * c_blockSize c" "0 < nb" "nb \<le> 256" "room c nb" "alloc nb (c_alloc c) = Inr (blk, al)"
        "seal_slot c p stored nb = (ext, ck, h)" "WriteAt ext (blk * c_blockSize c) (c_back c) = (r, bk)"
        "c' = (if r = None
               then putEntry p (slotEntry (blk * c_blockSize c) stored nb verbatim ck h) (with_extent c al bk)
               else with_extent c al bk)"
proof (cases "allZero page")
  case True
  then have "page = replicate (length page) 0"
    by (intro nth_equalityI) (auto simp: allZero_def list_all_length)
  then show ?thesis using assms(4,5) True by (intro zero) (auto simp: storePage_def)
next
  case False
  then have ne: "page \<noteq> []" by (auto simp: allZero_def)
  show ?thesis
  proof (cases "encodePage z page (c_codec c)")
    case (Inl e)
    then show ?thesis using assms(5) False by (intro encode) (auto simp: storePage_def)
  next
    case (Inr sv)
    obtain stored verbatim where sv: "encodePage z page (c_codec c) = Inr (stored, verbatim)"
      using Inr by (cases sv) auto
    note enc = encodePage_ok [OF assms(3) sv ne]
    have bs: "512 \<le> c_blockSize c" "c_blockSize c \<le> 65536" "length stored \<le> 65536"
      using assms(1,4) enc(2) by (auto simp: container_inv_def geometry_ok_def)
    then obtain nb where nb: "blocksFor (length stored) (c_blockSize c) = Inr nb"
      "length stored \<le> nb * c_blockSize c" "nb * c_blockSize c < length stored + c_blockSize c"
      using blocksFor_ok [of "c_blockSize c" "length stored"] by auto
    have "nb * 512 \<le> nb * c_blockSize c" using bs(1) by simp
    then have "nb \<le> 256" using nb(3) bs(2,3) by linarith
    moreover have "0 < nb" using nb(2) enc(1) by (auto intro: Nat.gr0I)
    ultimately have n: "0 < nb" "nb \<le> 256" "room c nb" using assms(2) by (auto simp: room_def)
    obtain blk al where al: "alloc nb (c_alloc c) = Inr (blk, al)"
      using vault_alloc.take_total [of "c_alloc c" nb] assms(1) n by (auto simp: container_inv_def room_def)
    obtain ext ck h where sl: "seal_slot c p stored nb = (ext, ck, h)" by (metis prod_cases3)
    obtain r' bk where w: "WriteAt ext (blk * c_blockSize c) (c_back c) = (r', bk)" by fastforce
    show ?thesis
      using wrote [OF sv enc(1) ne nb(2) n al sl, of bk] assms(5) False sv nb(1) al sl w
      by (auto simp: storePage_def slotEntry_def with_extent_def split: option.splits)
  qed
qed

text \<open>\<open>page_is z c q pg\<close>: page \<open>q\<close> reads as \<open>pg\<close> into any page-sized buffer.\<close>

definition page_is :: "codec \<Rightarrow> container \<Rightarrow> nat \<Rightarrow> bytes \<Rightarrow> bool" where
  "page_is z c q pg \<longleftrightarrow> length pg = c_pageSize c \<and>
     (\<forall>dst. length dst = c_pageSize c \<longrightarrow> loadPageInto z c dst q = Inr pg)"

text \<open>A successful \<^verbatim>\<open>storePage\<close>: the page reads back, every other page reads as before, and no block
  is shared or lost.\<close>

lemma storePage_ok:
  assumes "container_inv c leak" "room c 256" "readable c" "codec_ok z" "length page = c_pageSize c"
    and "storePage z p page c = (None, c')"
  shows "container_inv c' leak \<and> page_is z c' p page \<and> (\<forall>q pg. q \<noteq> p \<longrightarrow> page_is z c q pg \<longrightarrow> page_is z c' q pg)"
  using assms(1,2,4-6)
proof (cases rule: storePage_cases)
  case zero
  have "slot_wf c sparseEntry" by (simp add: slot_wf_def sparseEntry_def)
  then have "container_inv c' leak"
    using putEntry_inv [of c leak sparseEntry] assms(1) zero(3) by (auto simp: container_inv_def)
  then show ?thesis
    using zero by (simp add: page_is_def putEntry_load_same putEntry_load_other sparseEntry_def)
next
  case (wrote stored verbatim nb blk al ext ck h bk)
  let ?e = "slotEntry (blk * c_blockSize c) stored nb verbatim ck h"
  let ?c = "with_extent c al bk"
  have c': "c' = putEntry p ?e ?c" using wrote(11) by simp
  have geo: "0 < c_blockSize c" "\<forall>ci. c_cipher c = Some ci \<longrightarrow> cipher_ok ci"
    using assms(1) by (auto simp: container_inv_def geometry_ok_def)
  note inv = extent_inv [OF assms(1) wrote(5,7,8,10)]
  have len: "length ext = nb * c_blockSize c" by (rule seal_slot_ok(1) [OF geo(2) wrote(4,9)])
  then have ne: "ext \<noteq> []" using wrote(5) geo(1) by auto
  have off: "0 < blk * c_blockSize c" using inv(2) geo(1) by (simp add: superblockBlocks_def)
  have "length (bk_data bk) \<ge> blk * c_blockSize c + nb * c_blockSize c"
    using file_store.wr_size [OF wrote(10) ne] len by simp
  then have wf: "slot_wf ?c ?e" using wrote(4,5) by (simp add: slot_wf_def)
  have eb: "entry_bag (c_blockSize ?c) ?e = region blk (blk + nb)"
    using off geo(1) by (simp add: entry_bag_def)
  have inv1: "container_inv ?c leak" "held c + (leak + region blk (blk + nb)) + free_bag al
      \<subseteq># region superblockBlocks (al_highWater al)"
    using container_inv_less [OF inv(1)] inv(1) unfolding container_inv_def by auto
  have "container_inv c' leak"
    unfolding c' using inv1(2) eb by (intro putEntry_inv [OF inv1(1) wf]) (simp add: add_ac)
  moreover have "load_stored ?c p ?e = Inr stored"
    by (rule load_sealed [OF geo(2) wrote(4,2,9) assms(3) wrote(10)]) simp_all
  then have "page_is z c' p page"
    using off encodePage_ok(3) [OF assms(4) wrote(1,3)] decodePage_ok [of z stored page] assms(5)
    by (auto simp: page_is_def c' putEntry_load_same slotEntry_def dirFlagVerbatim_def blit_def split: if_splits)
  moreover have "page_is z c' q pg" if "q \<noteq> p" "page_is z c q pg" for q pg
    using that extent_load [OF assms(1) wrote(5,7,8,10) len]
    by (simp add: page_is_def c' putEntry_load_other)
  ultimately show ?thesis by blast
qed auto

text \<open>A failing \<^verbatim>\<open>storePage\<close> changes no page; it may lose the run it allocated until the next open.\<close>

lemma storePage_fails:
  assumes "container_inv c leak" "room c 256" "codec_ok z" "length page = c_pageSize c"
    and "storePage z p page c = (Some err, c')"
  shows "container_inv c' leak \<and> (\<forall>q pg. page_is z c q pg \<longrightarrow> page_is z c' q pg)"
  using assms
proof (cases rule: storePage_cases)
  case (encode e)
  then show ?thesis using assms(1) by simp
next
  case (wrote stored verbatim nb blk al ext ck h bk)
  have len: "length ext = nb * c_blockSize c"
    using assms(1) wrote(4,9) by (intro seal_slot_ok(1)) (auto simp: container_inv_def geometry_ok_def)
  show ?thesis
    using container_inv_less [OF extent_inv(1) [OF assms(1) wrote(5,7,8,10)]] wrote(11)
      extent_load [OF assms(1) wrote(5,7,8,10) len] by (auto simp: page_is_def)
qed auto

text \<open>What every \<^verbatim>\<open>storePage\<close> keeps, and how far the file can grow.\<close>

lemma storePage_frame:
  assumes "container_inv c leak" "room c 256" "codec_ok z" "length page = c_pageSize c" "storePage z p page c = (r, c')"
  shows "c_pageSize c' = c_pageSize c \<and> c_pageCount c' = c_pageCount c \<and>
    al_highWater (c_alloc c') \<le> al_highWater (c_alloc c) + 256 \<and> readable c' = readable c \<and>
    length (c_dir c') \<le> max (length (c_dir c)) (Suc p) \<and> (r \<noteq> None \<longrightarrow> c_dir c' = c_dir c)"
  using assms
proof (cases rule: storePage_cases)
  case (wrote stored verbatim nb blk al ext ck h bk)
  have "readable (with_extent c al bk) = readable c"
    using file_store.wr_readable [OF wrote(10)] by (auto simp: readable_def)
  then show ?thesis
    using extent_inv(4) [OF assms(1) wrote(5,7,8,10)] wrote(6,11)
    by (auto simp: putEntry_dir grownDir_def readable_def)
qed (auto simp: putEntry_dir grownDir_def readable_def)

section \<open>A fresh container\<close>

text \<open>The container over an empty file that does not fail: it satisfies the invariant and every page
  reads as zero.\<close>

definition emptyBacking :: backing where
  "emptyBacking = \<lparr>bk_data = [], bk_log = [], bk_fail = (\<lambda>_. None), bk_rfail = (\<lambda>_ _. False), bk_ops = 0\<rparr>"

definition storeOnly :: codec where
  "storeOnly = \<lparr>az_encode = (\<lambda>_ _. Inl ErrCodec), az_decode = (\<lambda>b. (b, None))\<rparr>"

definition freshContainer :: container where
  "freshContainer = initContainer emptyBacking False 512 1024 16 0 None"

lemma empty_allocator [simp]:
  "alloc_inv (newAllocator [] superblockBlocks)" "free_bag (newAllocator [] superblockBlocks) = {#}"
  "al_highWater (newAllocator [] superblockBlocks) = 2"
  using newAllocator_correct [of "[]" superblockBlocks] by (simp_all add: superblockBlocks_def)

lemma fresh_inv: "container_inv freshContainer {#}"
  by (simp add: container_inv_def geometry_ok_def freshContainer_def initContainer_def held_def dir_bag_def
      segs_bag_def index_bag_def pending_bag_def)

lemma fresh_facts:
  "readable freshContainer" "codec_ok storeOnly" "n < 2 ^ 63 \<Longrightarrow> room freshContainer n"
  "c_pageSize freshContainer = 1024" "c_blockSize freshContainer = 512" "c_pageCount freshContainer = 0"
  "c_dir freshContainer = []" "\<not> c_readOnly freshContainer" "\<not> c_readOnlyRecipient freshContainer"
  "c_nextSlot freshContainer = 0" "bk_log (c_back freshContainer) = []" "c_back freshContainer = emptyBacking"
  "c_segEntries freshContainer = 16" "c_codec freshContainer = 0"
  "c_alloc freshContainer = newAllocator [] superblockBlocks"
  by (simp_all add: freshContainer_def initContainer_def readable_def emptyBacking_def codec_ok_def storeOnly_def room_def)

lemma fresh_zero: "page_is z freshContainer q (replicate 1024 0)"
  by (simp add: page_is_def loadPageInto_def fresh_facts)

end
