(* ===== verification/Go_Strings.thy ===== *)
theory Go_Strings
  imports Prelude
begin

text \<open>
  The functions of Go's \<^verbatim>\<open>strings\<close>, \<^verbatim>\<open>bytes\<close> and \<^verbatim>\<open>strconv\<close> packages the components use, on strings as
  lists of bytes. White space is Unicode's, recognised by its UTF-8 encodings: no encoding of a space
  character is a proper prefix or suffix of another, so stripping encodings from either end is what
  decoding runes does.
\<close>

text \<open>The text of a string literal.\<close>

definition ascii :: "string \<Rightarrow> bytes" where
  "ascii s = map (\<lambda>c. of_nat (of_char c)) s"

section \<open>Trimming\<close>

definition space_seqs :: "bytes list" where
  "space_seqs =
     [[9], [10], [11], [12], [13], [32], [0xC2, 0x85], [0xC2, 0xA0], [0xE1, 0x9A, 0x80],
      [0xE2, 0x80, 0x80], [0xE2, 0x80, 0x81], [0xE2, 0x80, 0x82], [0xE2, 0x80, 0x83], [0xE2, 0x80, 0x84],
      [0xE2, 0x80, 0x85], [0xE2, 0x80, 0x86], [0xE2, 0x80, 0x87], [0xE2, 0x80, 0x88], [0xE2, 0x80, 0x89],
      [0xE2, 0x80, 0x8A], [0xE2, 0x80, 0xA8], [0xE2, 0x80, 0xA9], [0xE2, 0x80, 0xAF], [0xE2, 0x81, 0x9F],
      [0xE3, 0x80, 0x80]]"

definition leading :: "bytes list \<Rightarrow> bytes \<Rightarrow> bytes option" where
  "leading ps s = List.find (\<lambda>p. p \<noteq> [] \<and> take (length p) s = p) ps"

lemma leading_Some: "leading ps s = Some p \<Longrightarrow> p \<noteq> [] \<and> length p \<le> length s \<and> s = p @ drop (length p) s"
  unfolding leading_def find_Some_iff by (metis append_take_drop_id length_take min.cobounded1)

lemma leading_None: "leading ps s = None \<longleftrightarrow> (\<forall>p\<in>set ps. p \<noteq> [] \<longrightarrow> take (length p) s \<noteq> p)"
  by (auto simp: leading_def find_None_iff)

function strip_front :: "bytes list \<Rightarrow> bytes \<Rightarrow> bytes" where
  "strip_front ps s = (case leading ps s of None \<Rightarrow> s | Some p \<Rightarrow> strip_front ps (drop (length p) s))"
  by pat_completeness auto

termination strip_front
proof (relation "measure (\<lambda>(_, s). length s)")
  fix ps s p assume "leading ps s = Some p"
  then show "((ps, drop (length p) s), ps, s) \<in> measure (\<lambda>(_, s). length s)"
    using leading_Some [of ps s p] by (cases p) auto
qed simp

declare strip_front.simps [simp del]

definition TrimLeftSpace :: "bytes \<Rightarrow> bytes" where
  "TrimLeftSpace s = strip_front space_seqs s"

definition TrimRightSpace :: "bytes \<Rightarrow> bytes" where
  "TrimRightSpace s = rev (strip_front (map rev space_seqs) (rev s))"

definition TrimSpace :: "bytes \<Rightarrow> bytes" where
  "TrimSpace s = TrimRightSpace (TrimLeftSpace s)"

lemma strip_front_suffix: "\<exists>p. s = p @ strip_front ps s"
proof (induction ps s rule: strip_front.induct)
  case (1 ps s)
  show ?case
  proof (cases "leading ps s")
    case None then show ?thesis by (simp add: strip_front.simps)
  next
    case (Some p)
    obtain q where "drop (length p) s = q @ strip_front ps (drop (length p) s)" using 1 [OF Some] by blast
    then have "s = (p @ q) @ strip_front ps s"
      using leading_Some [OF Some] Some by (metis append.assoc option.simps(5) strip_front.simps)
    then show ?thesis by blast
  qed
qed

lemma leading_strip_front: "leading ps (strip_front ps s) = None"
proof (induction ps s rule: strip_front.induct)
  case (1 ps s)
  then show ?case by (cases "leading ps s") (simp_all add: strip_front.simps [of ps s])
qed

lemma strip_front_id: "leading ps s = None \<Longrightarrow> strip_front ps s = s"
  by (simp add: strip_front.simps)

lemma leading_prefix: "leading ps (s @ t) = None \<Longrightarrow> leading ps s = None"
proof -
  assume "leading ps (s @ t) = None"
  then have "take (length p) (s @ t) \<noteq> p" if "p \<in> set ps" "p \<noteq> []" for p using that leading_None by blast
  moreover have "take (length p) (s @ t) = p" if "take (length p) s = p" for p
    using that length_take [of "length p" s] by simp
  ultimately show ?thesis using leading_None by blast
qed

lemma TrimRightSpace_prefix: "\<exists>q. s = TrimRightSpace s @ q"
  using strip_front_suffix [of "rev s" "map rev space_seqs"] unfolding TrimRightSpace_def
  by (metis rev_append rev_rev_ident)

lemma TrimSpace_clean:
  "leading space_seqs (TrimSpace s) = None" "leading (map rev space_seqs) (rev (TrimSpace s)) = None"
proof -
  obtain q where "TrimLeftSpace s = TrimSpace s @ q" using TrimRightSpace_prefix unfolding TrimSpace_def by metis
  then show "leading space_seqs (TrimSpace s) = None"
    using leading_prefix leading_strip_front TrimLeftSpace_def by metis
  show "leading (map rev space_seqs) (rev (TrimSpace s)) = None"
    by (simp add: TrimSpace_def TrimRightSpace_def leading_strip_front)
qed

lemma TrimSpace_id:
  "leading space_seqs s = None \<Longrightarrow> leading (map rev space_seqs) (rev s) = None \<Longrightarrow> TrimSpace s = s"
  by (simp add: TrimSpace_def TrimLeftSpace_def TrimRightSpace_def strip_front_id)

lemma TrimSpace_idem [simp]: "TrimSpace (TrimSpace s) = TrimSpace s"
  by (rule TrimSpace_id) (rule TrimSpace_clean)+

lemma TrimSpace_Nil [simp]: "TrimSpace [] = []"
  by (rule TrimSpace_id) (auto simp: leading_None)

section \<open>Searching and replacing\<close>

function replaceAll :: "bytes \<Rightarrow> bytes \<Rightarrow> bytes \<Rightarrow> bytes" where
  "replaceAll old new s =
     (if s = [] \<or> old = [] then s
      else if take (length old) s = old then new @ replaceAll old new (drop (length old) s)
      else hd s # replaceAll old new (tl s))"
  by pat_completeness auto

termination replaceAll
  by (relation "measure (\<lambda>(_, _, s). length s)") auto

declare replaceAll.simps [simp del]

text \<open>\<^verbatim>\<open>strings.Cut\<close> at a one-byte separator.\<close>

fun Cut :: "byte \<Rightarrow> bytes \<Rightarrow> bytes \<times> bytes \<times> bool" where
  "Cut sep [] = ([], [], False)"
| "Cut sep (c # s) = (if c = sep then ([], s, True) else case Cut sep s of (k, v, ok) \<Rightarrow> (c # k, v, ok))"

text \<open>\<^verbatim>\<open>bytes.Split\<close> at a one-byte separator.\<close>

fun Split :: "byte \<Rightarrow> bytes \<Rightarrow> bytes list" where
  "Split sep [] = [[]]"
| "Split sep (c # s) =
     (if c = sep then [] # Split sep s
      else case Split sep s of [] \<Rightarrow> [[c]] | l # ls \<Rightarrow> (c # l) # ls)"

lemma Cut_concat: "Cut sep s = (k, v, ok) \<Longrightarrow> sep \<notin> set k \<and> s = (if ok then k @ sep # v else k)"
  by (induction s arbitrary: k v ok) (auto split: if_splits prod.splits)

lemma Cut_app: "sep \<notin> set k \<Longrightarrow> Cut sep (k @ sep # v) = (k, v, True)"
  by (induction k) auto

lemma Split_nonempty: "Split sep s \<noteq> []"
  by (cases s) (auto split: list.splits)

lemma Split_app: "sep \<notin> set l \<Longrightarrow> Split sep (l @ sep # s) = l # Split sep s"
  by (induction l) (auto split: list.splits)

lemma Split_single: "sep \<notin> set l \<Longrightarrow> Split sep l = [l]"
  by (induction l) (auto split: list.splits)

section \<open>Runes\<close>

text \<open>\<^verbatim>\<open>utf8.DecodeRune\<close>: the rune a string starts with and its width. A byte that starts no well-formed sequence
  is the replacement character and one byte wide.\<close>

definition cont_byte :: "nat \<Rightarrow> nat \<Rightarrow> bytes \<Rightarrow> nat \<Rightarrow> bool" where
  "cont_byte lo hi s i \<longleftrightarrow> i < length s \<and> lo \<le> unat (s ! i) \<and> unat (s ! i) \<le> hi"

definition low6 :: "bytes \<Rightarrow> nat \<Rightarrow> nat" where
  "low6 s i = unat (s ! i) mod 64"

definition DecodeRune :: "bytes \<Rightarrow> nat \<times> nat" where
  "DecodeRune s = (let b = unat (hd s);
     lo = (if b = 0xE0 then 0xA0 else if b = 0xF0 then 0x90 else 0x80);
     hi = (if b = 0xED then 0x9F else if b = 0xF4 then 0x8F else 0xBF) in
     if b < 0x80 then (b, 1)
     else if b < 0xC2 \<or> 0xF4 < b \<or> \<not> cont_byte lo hi s 1 then (0xFFFD, 1)
     else if b < 0xE0 then (b mod 32 * 64 + low6 s 1, 2)
     else if \<not> cont_byte 0x80 0xBF s 2 then (0xFFFD, 1)
     else if b < 0xF0 then (b mod 16 * 4096 + low6 s 1 * 64 + low6 s 2, 3)
     else if \<not> cont_byte 0x80 0xBF s 3 then (0xFFFD, 1)
     else (b mod 8 * 262144 + low6 s 1 * 4096 + low6 s 2 * 64 + low6 s 3, 4))"

lemma DecodeRune_width: "0 < snd (DecodeRune s)"
  by (simp add: DecodeRune_def Let_def)

text \<open>The conversion \<^verbatim>\<open>[]rune(s)\<close>.\<close>

function runes :: "bytes \<Rightarrow> nat list" where
  "runes s = (if s = [] then [] else case DecodeRune s of (r, n) \<Rightarrow> r # runes (drop n s))"
  by pat_completeness auto

termination runes
proof (relation "measure length")
  fix s r n assume "s \<noteq> []" "(r, n) = DecodeRune s"
  then have "0 < n" using DecodeRune_width [of s] by (metis snd_conv)
  then show "(drop n s, s) \<in> measure length" using \<open>s \<noteq> []\<close> by simp
qed simp

declare runes.simps [simp del]

lemma runes_ascii: "\<forall>c\<in>set s. unat c < 128 \<Longrightarrow> runes s = map unat s"
  by (induction s) (auto simp: runes.simps [of "[]"] runes.simps [of "_ # _"] DecodeRune_def Let_def)

lemma length_runes: "length (runes s) \<le> length s"
proof (induction s rule: runes.induct)
  case (1 s)
  show ?case
  proof (cases "s = []")
    case False
    obtain r n where d: "DecodeRune s = (r, n)" by fastforce
    have "0 < n" using DecodeRune_width [of s] d by simp
    moreover have "0 < length s" using False by simp
    moreover have "length (runes (drop n s)) \<le> length s - n" using 1 [OF False d [symmetric]] by simp
    ultimately have "length (runes (drop n s)) < length s" by linarith
    then show ?thesis using d False by (simp add: runes.simps [of s])
  qed (simp add: runes.simps)
qed

text \<open>\<^verbatim>\<open>strings.HasPrefix\<close> and \<^verbatim>\<open>strings.HasSuffix\<close>.\<close>

definition HasPrefix :: "bytes \<Rightarrow> bytes \<Rightarrow> bool" where
  "HasPrefix s p \<longleftrightarrow> take (length p) s = p"

definition HasSuffix :: "bytes \<Rightarrow> bytes \<Rightarrow> bool" where
  "HasSuffix s p \<longleftrightarrow> length p \<le> length s \<and> drop (length s - length p) s = p"

section \<open>strconv.ParseInt\<close>

text \<open>The scan stops at the first digit that no longer fits 64 bits, before it looks at the rest.\<close>

fun digits :: "bytes \<Rightarrow> nat \<Rightarrow> nat option" where
  "digits [] acc = Some acc"
| "digits (c # s) acc = 
     (if 48 \<le> c \<and> c \<le> 57
      then let n = acc * 10 + (unat c - 48) in if 2 ^ 64 \<le> n then Some n else digits s n
      else None)"

text \<open>The value \<^verbatim>\<open>ParseInt(s, 10, 64)\<close> returns when its error is ignored: 0 when the text is not a
  decimal integer, the nearest representable value when it does not fit.\<close>

definition ParseInt64 :: "bytes \<Rightarrow> int" where
  "ParseInt64 s =
     (case s of [] \<Rightarrow> 0
      | c # t \<Rightarrow>
          let neg = (c = 45); body = (if c = 43 \<or> c = 45 then t else s)
          in if body = [] then 0
             else (case digits body 0 of None \<Rightarrow> 0
                   | Some n \<Rightarrow> if neg then max (- int n) (- (2 ^ 63)) else min (int n) (2 ^ 63 - 1)))"

end
