(* ===== verification/Keyring.thy ===== *)
theory Keyring
  imports Vault_Format Go_Strings
begin

text \<open>
  \<^verbatim>\<open>crypto/keyring\<close>: wrapping a data key for several recipients and the sealed keyslot, whose membership
  is signed by a master (\<^verbatim>\<open>keyring.go\<close>, \<^verbatim>\<open>master.go\<close>).

  The packages \<^verbatim>\<open>filippo.io/age\<close>, \<^verbatim>\<open>agessh\<close>, \<^verbatim>\<open>x/crypto/ssh\<close> and \<^verbatim>\<open>crypto/ed25519\<close> are the fields of the
  parameter \<open>cryptoLib\<close>; an age recipient or identity, an SSH key and a private key are opaque byte
  strings. Encryption takes the random bytes it consumes as an argument. Struct embedding is record
  extension, and a value of the interface \<^verbatim>\<open>Identity\<close> is tagged with its dynamic type.
\<close>

record cryptoLib =
  age_Encrypt :: "bytes \<Rightarrow> bytes list \<Rightarrow> bytes \<Rightarrow> bytes option"
  age_Decrypt :: "bytes \<Rightarrow> bytes list \<Rightarrow> verror + bytes"   \<comment> \<open>\<^term>\<open>ErrNoMatch\<close> for \<^verbatim>\<open>NoIdentityMatchError\<close>\<close>
  agessh_ParseRecipient :: "bytes \<Rightarrow> bytes option"
  ssh_ParseAuthorizedKey :: "bytes \<Rightarrow> (bytes \<times> bytes) option"   \<comment> \<open>key and comment\<close>
  ssh_MarshalAuthorizedKey :: "bytes \<Rightarrow> bytes"
  ssh_ed25519 :: "bytes \<Rightarrow> bytes option"   \<comment> \<open>the key's \<^verbatim>\<open>ed25519.PublicKey\<close>, if it is one\<close>
  ed_Sign :: "bytes \<Rightarrow> bytes \<Rightarrow> bytes"
  ed_Verify :: "bytes \<Rightarrow> bytes \<Rightarrow> bytes \<Rightarrow> bool"
  ed_Public :: "bytes \<Rightarrow> bytes"

record recipient =
  rc_r :: bytes
  rc_pub :: bytes
  rc_label :: bytes

record masterRecipient = recipient +
  mr_pub :: bytes

record masterIdentity =
  mi_i :: bytes
  mi_priv :: bytes

datatype Identity = PlainIdentity bytes | MasterIdentity masterIdentity

fun ageIdentity :: "Identity \<Rightarrow> bytes" where
  "ageIdentity (PlainIdentity i) = i"
| "ageIdentity (MasterIdentity mi) = mi_i mi"

definition masterPub :: "cryptoLib \<Rightarrow> masterIdentity \<Rightarrow> bytes" where
  "masterPub L mi = ed_Public L (mi_priv mi)"

definition publicForm :: "'a recipient_scheme \<Rightarrow> bytes \<times> bytes" where
  "publicForm r = (rc_pub r, rc_label r)"

record Membership =
  Masters :: "masterRecipient list"
  Writers :: "masterRecipient list"
  Members :: "recipient list"

definition recipients :: "Membership \<Rightarrow> recipient list" where
  "recipients m = map recipient.truncate (Masters m) @ map recipient.truncate (Writers m) @ Members m"

abbreviation PublicKeySize :: nat where "PublicKeySize \<equiv> 32"
abbreviation SignatureSize :: nat where "SignatureSize \<equiv> 64"

section \<open>Building recipients\<close>

definition sshPublicForm :: "cryptoLib \<Rightarrow> bytes \<Rightarrow> bytes \<times> bytes" where
  "sshPublicForm L line =
     (case ssh_ParseAuthorizedKey L line of
        None \<Rightarrow> (TrimSpace line, [])
      | Some (pub, comment) \<Rightarrow> (TrimSpace (ssh_MarshalAuthorizedKey L pub), comment))"

definition SSHRecipient :: "cryptoLib \<Rightarrow> bytes \<Rightarrow> verror + recipient" where
  "SSHRecipient L authorizedKeyLine = (let line = TrimSpace authorizedKeyLine
     in case agessh_ParseRecipient L line of
          None \<Rightarrow> Inl (ErrInvalid ''SSH recipient'')
        | Some r \<Rightarrow> (case sshPublicForm L line of (pub, label) \<Rightarrow> Inr \<lparr>rc_r = r, rc_pub = pub, rc_label = label\<rparr>))"

definition SSHMasterRecipient :: "cryptoLib \<Rightarrow> bytes \<Rightarrow> verror + masterRecipient" where
  "SSHMasterRecipient L authorizedKeyLine = (let line = TrimSpace authorizedKeyLine
     in case agessh_ParseRecipient L line of
          None \<Rightarrow> Inl (ErrInvalid ''master recipient'')
        | Some r \<Rightarrow>
          (case ssh_ParseAuthorizedKey L line of
             None \<Rightarrow> Inl (ErrInvalid ''master recipient'')
           | Some (sshPub, comment) \<Rightarrow>
             (case ssh_ed25519 L sshPub of
                None \<Rightarrow> Inl (ErrInvalid ''a master or writer must be an ssh-ed25519 key'')
              | Some edpub \<Rightarrow>
                Inr \<lparr>rc_r = r, rc_pub = TrimSpace (ssh_MarshalAuthorizedKey L sshPub), rc_label = comment, mr_pub = edpub\<rparr>)))"

text \<open>\<^verbatim>\<open>eachAuthorizedKeyLine\<close> with the callback as a state transformer; \<open>i\<close> is the number of lines before
  the current one and an error carries the number of its line (0 for one that is about the whole file).\<close>

fun each_line :: "(bytes \<Rightarrow> 's \<Rightarrow> verror + 's) \<Rightarrow> nat \<Rightarrow> bytes list \<Rightarrow> 's \<Rightarrow> (nat \<times> verror) + 's" where
  "each_line fn i [] s = Inr s"
| "each_line fn i (raw # ls) s = (let line = TrimSpace raw
     in if line = [] \<or> hd line = 35 then each_line fn (Suc i) ls s
        else case fn line s of Inl e \<Rightarrow> Inl (i + 1, e) | Inr s' \<Rightarrow> each_line fn (Suc i) ls s')"

definition eachAuthorizedKeyLine :: "bytes \<Rightarrow> (bytes \<Rightarrow> 's \<Rightarrow> verror + 's) \<Rightarrow> 's \<Rightarrow> (nat \<times> verror) + 's" where
  "eachAuthorizedKeyLine b fn s = each_line fn 0 (Split 10 b) s"

definition ParseAuthorizedKeys :: "cryptoLib \<Rightarrow> bytes \<Rightarrow> (nat \<times> verror) + recipient list" where
  "ParseAuthorizedKeys L b =
     (case eachAuthorizedKeyLine b (\<lambda>line out. case SSHRecipient L line of Inl e \<Rightarrow> Inl e | Inr r \<Rightarrow> Inr (out @ [r])) [] of
        Inl e \<Rightarrow> Inl e
      | Inr out \<Rightarrow> if out = [] then Inl (0, ErrInvalid ''no keys in authorized_keys input'') else Inr out)"

definition ParseAuthorizedMasterKeys :: "cryptoLib \<Rightarrow> bytes \<Rightarrow> (nat \<times> verror) + masterRecipient list" where
  "ParseAuthorizedMasterKeys L b =
     (case eachAuthorizedKeyLine b (\<lambda>line out. case SSHMasterRecipient L line of Inl e \<Rightarrow> Inl e | Inr r \<Rightarrow> Inr (out @ [r])) [] of
        Inl e \<Rightarrow> Inl e
      | Inr out \<Rightarrow> if out = [] then Inl (0, ErrInvalid ''no keys in authorized_keys input'') else Inr out)"

section \<open>Wrapping\<close>

definition Wrap :: "cryptoLib \<Rightarrow> bytes \<Rightarrow> bytes \<Rightarrow> 'a recipient_scheme list \<Rightarrow> verror + bytes" where
  "Wrap L rnd dataKey to =
     (if to = [] then Inl (ErrInvalid ''Wrap needs at least one recipient'')
      else case age_Encrypt L rnd (map rc_r to) dataKey of None \<Rightarrow> Inl (ErrInvalid ''wrap'') | Some blob \<Rightarrow> Inr blob)"

definition Unwrap :: "cryptoLib \<Rightarrow> bytes \<Rightarrow> Identity list \<Rightarrow> verror + bytes" where
  "Unwrap L blob ids =
     (case age_Decrypt L blob (map ageIdentity ids) of
        Inl e \<Rightarrow> Inl (if e = ErrNoMatch then ErrNoMatch else ErrInvalid ''unwrap'')
      | Inr key \<Rightarrow> Inr key)"

section \<open>Signatures\<close>

definition SignState :: "cryptoLib \<Rightarrow> masterIdentity \<Rightarrow> bytes \<Rightarrow> bytes" where
  "SignState L by_id msg = ed_Sign L (mi_priv by_id) msg"

definition VerifyState :: "cryptoLib \<Rightarrow> bytes list \<Rightarrow> bytes \<Rightarrow> bytes \<Rightarrow> bool" where
  "VerifyState L ws msg sig \<longleftrightarrow> (\<exists>w\<in>set ws. length w = PublicKeySize \<and> ed_Verify L w msg sig)"

definition masterPinned :: "bytes \<Rightarrow> masterRecipient list \<Rightarrow> bool" where
  "masterPinned pub ms \<longleftrightarrow> (\<exists>m\<in>set ms. mr_pub m = pub)"

definition pubIn :: "bytes \<Rightarrow> bytes list \<Rightarrow> bool" where
  "pubIn pub ps \<longleftrightarrow> pub \<in> set ps"

definition WriterAuthorized :: "cryptoLib \<Rightarrow> masterRecipient list \<Rightarrow> masterIdentity option \<Rightarrow> bool" where
  "WriterAuthorized L ws wid = (case wid of None \<Rightarrow> False | Some mi \<Rightarrow> masterPinned (masterPub L mi) ws)"

section \<open>The member list\<close>

record Member =
  mb_Role :: string
  mb_Key :: bytes
  mb_Label :: bytes

definition roleMaster :: byte where "roleMaster = 0"
definition roleWriter :: byte where "roleWriter = 1"
definition roleMember :: byte where "roleMember = 2"

definition roleName :: "byte \<Rightarrow> string" where
  "roleName b = (if b = roleMaster then ''master'' else if b = roleWriter then ''writer'' else ''member'')"

definition appendString16 :: "bytes \<Rightarrow> bytes \<Rightarrow> bytes" where
  "appendString16 buf s = buf @ le_bytes 2 (length s) @ s"

definition add_ent :: "byte \<Rightarrow> 'a recipient_scheme list \<Rightarrow> (byte \<times> bytes \<times> bytes) list" where
  "add_ent role rs = map (\<lambda>r. (role, publicForm r)) (filter (\<lambda>r. fst (publicForm r) \<noteq> []) rs)"

definition member_ents :: "Membership \<Rightarrow> (byte \<times> bytes \<times> bytes) list" where
  "member_ents m = add_ent roleMaster (Masters m) @ add_ent roleWriter (Writers m) @ add_ent roleMember (Members m)"

fun marshal_ents :: "(byte \<times> bytes \<times> bytes) list \<Rightarrow> bytes \<Rightarrow> verror + bytes" where
  "marshal_ents [] buf = Inr buf"
| "marshal_ents ((role, key, label) # es) buf =
     (if 65535 < length key \<or> 65535 < length label then Inl (ErrInvalid ''member key or label exceeds 65535 bytes'')
      else marshal_ents es (appendString16 (appendString16 (buf @ [role]) key) label))"

definition marshalMembers :: "Membership \<Rightarrow> verror + bytes" where
  "marshalMembers m = (let ents = member_ents m
     in if 65535 < length ents then Inl (ErrInvalid ''too many members to record'')
        else marshal_ents ents (le_bytes 2 (length ents)))"

definition readStr :: "bytes \<Rightarrow> nat \<Rightarrow> verror + (bytes \<times> nat)" where
  "readStr b off =
     (if length b < off + 2 then Inl (ErrInvalid ''member list truncated'')
      else let l = le_nat (bslice off (off + 2) b)
        in if length b < off + 2 + l then Inl (ErrInvalid ''member list truncated'')
           else Inr (bslice (off + 2) (off + 2 + l) b, off + 2 + l))"

fun read_members :: "nat \<Rightarrow> bytes \<Rightarrow> nat \<Rightarrow> verror + Member list" where
  "read_members 0 b off = Inr []"
| "read_members (Suc n) b off =
     (if length b \<le> off then Inl (ErrInvalid ''member list truncated'')
      else case readStr b (off + 1) of
             Inl e \<Rightarrow> Inl e
           | Inr (key, off1) \<Rightarrow>
             (case readStr b off1 of
                Inl e \<Rightarrow> Inl e
              | Inr (label, off2) \<Rightarrow>
                (case read_members n b off2 of
                   Inl e \<Rightarrow> Inl e
                 | Inr out \<Rightarrow> Inr (\<lparr>mb_Role = roleName (b ! off), mb_Key = key, mb_Label = label\<rparr> # out))))"

definition unmarshalMembers :: "bytes \<Rightarrow> verror + Member list" where
  "unmarshalMembers b =
     (if length b < 2 then Inl (ErrInvalid ''member list truncated'')
      else read_members (le_nat (take 2 b)) b 2)"

section \<open>The sealed keyslot\<close>

definition keyslotVersion :: byte where "keyslotVersion = 2"

definition appendLenPrefixed :: "bytes \<Rightarrow> bytes \<Rightarrow> bytes" where
  "appendLenPrefixed buf b = buf @ le_bytes 4 (length b) @ b"

definition seal_members :: "cryptoLib \<Rightarrow> bytes \<Rightarrow> Membership \<Rightarrow> verror + bytes" where
  "seal_members L rnd m =
     (if Masters m = [] then Inr []
      else (case marshalMembers m of Inl e \<Rightarrow> Inl e | Inr plain \<Rightarrow> Wrap L rnd plain (Masters m)))"

definition seal_body :: "Membership \<Rightarrow> bytes \<Rightarrow> bytes \<Rightarrow> bytes" where
  "seal_body m wrapped memberBlob =
     appendLenPrefixed
       (appendLenPrefixed
         ([keyslotVersion, of_nat (length (Masters m))] @ concat (map mr_pub (Masters m)) @
          [of_nat (length (Writers m))] @ concat (map mr_pub (Writers m)))
         wrapped)
       memberBlob"

definition SealKeyslot ::
  "cryptoLib \<Rightarrow> bytes \<Rightarrow> bytes \<Rightarrow> bytes \<Rightarrow> Membership \<Rightarrow> masterIdentity option \<Rightarrow> verror + bytes" where
  "SealKeyslot L rnd rnd' dek m signWith =
     (if 255 < length (Masters m) \<or> 255 < length (Writers m) then Inl (ErrInvalid ''too many masters or writers'')
      else case Wrap L rnd dek (recipients m) of
        Inl e \<Rightarrow> Inl e
      | Inr wrapped \<Rightarrow>
        (case seal_members L rnd' m of
           Inl e \<Rightarrow> Inl e
         | Inr memberBlob \<Rightarrow>
           let buf = seal_body m wrapped memberBlob
           in if Masters m = [] then Inr buf
              else (case signWith of
                     None \<Rightarrow> Inl (ErrInvalid ''a keyslot with masters must be signed by a master identity'')
                   | Some mi \<Rightarrow>
                     if masterPinned (masterPub L mi) (Masters m) then Inr (buf @ ed_Sign L (mi_priv mi) buf)
                     else Inl (ErrInvalid ''the signing identity is not one of the pinned masters''))))"

definition readPubs :: "bytes \<Rightarrow> nat \<Rightarrow> verror + (bytes list \<times> nat)" where
  "readPubs blob off =
     (if length blob \<le> off then Inl (ErrInvalid ''keyslot truncated'')
      else let n = unat (blob ! off)
        in if length blob < off + 1 + n * PublicKeySize then Inl (ErrInvalid ''keyslot truncated (keys)'')
           else Inr (map (\<lambda>i. bslice (off + 1 + i * PublicKeySize) (off + 1 + i * PublicKeySize + PublicKeySize) blob) [0..<n],
                     off + 1 + n * PublicKeySize))"

definition readSection :: "bytes \<Rightarrow> nat \<Rightarrow> verror + (bytes \<times> nat)" where
  "readSection blob off =
     (if length blob < off + 4 then Inl (ErrInvalid ''keyslot truncated (length)'')
      else let n = le_nat (bslice off (off + 4) blob)
        in if length blob < off + 4 + n then Inl (ErrInvalid ''keyslot section out of range'')
           else Inr (bslice (off + 4) (off + 4 + n) blob, off + 4 + n))"

record keyslotParts =
  kp_masters :: "bytes list"
  kp_writers :: "bytes list"
  kp_wrapped :: bytes
  kp_memberBlob :: bytes
  kp_signed :: "(bytes \<times> bytes) option"   \<comment> \<open>the signed bytes and the signature\<close>

definition parseKeyslot :: "bytes \<Rightarrow> verror + keyslotParts" where
  "parseKeyslot blob =
     (if length blob < 2 \<or> blob ! 0 \<noteq> keyslotVersion then Inl (ErrInvalid ''unrecognized keyslot format'')
      else case readPubs blob 1 of
        Inl e \<Rightarrow> Inl e
      | Inr (masters, off1) \<Rightarrow>
        (case readPubs blob off1 of
           Inl e \<Rightarrow> Inl e
         | Inr (writers, off2) \<Rightarrow>
           (case readSection blob off2 of
              Inl e \<Rightarrow> Inl e
            | Inr (wrapped, off3) \<Rightarrow>
              (case readSection blob off3 of
                 Inl e \<Rightarrow> Inl e
               | Inr (memberBlob, sigStart) \<Rightarrow>
                 if masters = []
                 then Inr \<lparr>kp_masters = [], kp_writers = writers, kp_wrapped = wrapped, kp_memberBlob = memberBlob, kp_signed = None\<rparr>
                 else if length blob < sigStart + SignatureSize then Inl (ErrInvalid ''keyslot missing signature'')
                 else Inr \<lparr>kp_masters = masters, kp_writers = writers, kp_wrapped = wrapped, kp_memberBlob = memberBlob,
                           kp_signed = Some (take sigStart blob, bslice sigStart (sigStart + SignatureSize) blob)\<rparr>))))"

definition signed_by :: "cryptoLib \<Rightarrow> bytes list \<Rightarrow> keyslotParts \<Rightarrow> bool" where
  "signed_by L pubs k = (case kp_signed k of None \<Rightarrow> False | Some (msg, sig) \<Rightarrow> VerifyState L pubs msg sig)"

definition OpenKeyslot :: "cryptoLib \<Rightarrow> bytes \<Rightarrow> masterRecipient list \<Rightarrow> Identity list \<Rightarrow> verror + (bytes \<times> bytes list)" where
  "OpenKeyslot L blob trusted ids =
     (case parseKeyslot blob of
        Inl e \<Rightarrow> Inl e
      | Inr k \<Rightarrow>
        if trusted \<noteq> [] \<and> \<not> signed_by L (map mr_pub trusted) k then Inl ErrUnauthorizedKeyslot
        else (case Unwrap L (kp_wrapped k) ids of Inl e \<Rightarrow> Inl e | Inr dek \<Rightarrow> Inr (dek, kp_writers k)))"

definition ResealKeyslot ::
  "cryptoLib \<Rightarrow> bytes \<Rightarrow> bytes \<Rightarrow> bytes \<Rightarrow> Identity \<Rightarrow> bytes \<Rightarrow> Membership \<Rightarrow> verror + bytes" where
  "ResealKeyslot L rnd rnd' old by_id dek m =
     (case parseKeyslot old of
        Inl e \<Rightarrow> Inl e
      | Inr k \<Rightarrow>
        if kp_masters k \<noteq> []
        then (case by_id of
               MasterIdentity mi \<Rightarrow>
                 if \<not> pubIn (masterPub L mi) (kp_masters k) then Inl ErrKeyringNotMaster
                 else if Masters m = [] then Inl (ErrInvalid ''cannot drop all masters'')
                 else SealKeyslot L rnd rnd' dek m (Some mi)
             | PlainIdentity _ \<Rightarrow> Inl ErrKeyringNotMaster)
        else if Masters m \<noteq> []
        then (case by_id of
               MasterIdentity mi \<Rightarrow> SealKeyslot L rnd rnd' dek m (Some mi)
             | PlainIdentity _ \<Rightarrow> Inl ErrKeyringNotMaster)
        else SealKeyslot L rnd rnd' dek m None)"

definition ListMembers :: "cryptoLib \<Rightarrow> bytes \<Rightarrow> masterIdentity option \<Rightarrow> verror + Member list" where
  "ListMembers L blob by_id =
     (case parseKeyslot blob of
        Inl e \<Rightarrow> Inl e
      | Inr k \<Rightarrow>
        if kp_masters k = [] then Inl ErrKeyringNotMaster
        else (case by_id of
          None \<Rightarrow> Inl ErrKeyringNotMaster
        | Some mi \<Rightarrow>
          if \<not> pubIn (masterPub L mi) (kp_masters k) then Inl ErrKeyringNotMaster
          else if \<not> signed_by L (kp_masters k) k
          then Inl ErrUnauthorizedKeyslot
          else if kp_memberBlob k = [] then Inl (ErrInvalid ''keyslot carries no membership record'')
          else (case Unwrap L (kp_memberBlob k) [MasterIdentity mi] of
                 Inl e \<Rightarrow> Inl e
               | Inr plain \<Rightarrow> unmarshalMembers plain)))"

section \<open>Readers over a byte buffer\<close>

text \<open>What the two parsers rely on of the closures that read one field at an offset: the new offset lies
  between the old one and the end, and only the bytes before it were looked at.\<close>

locale prefix_reader =
  fixes rd :: "bytes \<Rightarrow> nat \<Rightarrow> verror + ('a \<times> nat)"
  assumes progress: "rd b off = Inr (x, off') \<Longrightarrow> off \<le> off' \<and> off' \<le> length b"
    and local: "rd b off = Inr (x, off') \<Longrightarrow> take off' b' = take off' b \<Longrightarrow> rd b' off = Inr (x, off')"
begin

lemma same_prefix:
  assumes "rd b off = Inr (x, off')" "off' \<le> n" "take n b' = take n b"
  shows "rd b' off = Inr (x, off')"
proof -
  have "take off' b' = take off' b" using assms(2,3) by (metis min.absorb1 take_take)
  then show ?thesis using local assms(1) by blast
qed

end

lemma bslice_cong: "take n b' = take n b \<Longrightarrow> j \<le> n \<Longrightarrow> bslice i j b' = bslice i j b"
  by (metis slice_take)

lemma take_eq_length: "take n b' = take n b \<Longrightarrow> n \<le> length b \<Longrightarrow> n \<le> length b'"
  by (metis length_take min.absorb2 min.cobounded1)

lemma take_eq_nth: "take n b' = take n b \<Longrightarrow> i < n \<Longrightarrow> b' ! i = b ! i"
  by (metis nth_take)

interpretation pubs_reader: prefix_reader readPubs
proof
  fix b off x off'
  assume r: "readPubs b off = Inr (x, off')"
  then show "off \<le> off' \<and> off' \<le> length b" by (auto simp: readPubs_def Let_def split: if_splits)
  fix b' assume t: "take off' b' = take off' b"
  have lt: "off < off'" "off' \<le> length b" using r by (auto simp: readPubs_def Let_def split: if_splits)
  have n: "b' ! off = b ! off" using take_eq_nth [OF t lt(1)] .
  have l: "off' \<le> length b'" using take_eq_length [OF t lt(2)] .
  show "readPubs b' off = Inr (x, off')"
    using r n l lt bslice_cong [OF t] by (auto simp: readPubs_def Let_def split: if_splits)
qed

interpretation section_reader: prefix_reader readSection
proof
  fix b off x off'
  assume r: "readSection b off = Inr (x, off')"
  then show "off \<le> off' \<and> off' \<le> length b" by (auto simp: readSection_def Let_def split: if_splits)
  fix b' assume t: "take off' b' = take off' b"
  have lt: "off + 4 \<le> off'" "off' \<le> length b" using r by (auto simp: readSection_def Let_def split: if_splits)
  then show "readSection b' off = Inr (x, off')"
    using r take_eq_length [OF t lt(2)] bslice_cong [OF t] by (auto simp: readSection_def Let_def split: if_splits)
qed

interpretation str_reader: prefix_reader readStr
proof
  fix b off x off'
  assume r: "readStr b off = Inr (x, off')"
  then show "off \<le> off' \<and> off' \<le> length b" by (auto simp: readStr_def Let_def split: if_splits)
  fix b' assume t: "take off' b' = take off' b"
  have lt: "off + 2 \<le> off'" "off' \<le> length b" using r by (auto simp: readStr_def Let_def split: if_splits)
  then show "readStr b' off = Inr (x, off')"
    using r take_eq_length [OF t lt(2)] bslice_cong [OF t] by (auto simp: readStr_def Let_def split: if_splits)
qed

text \<open>Reading back what was appended.\<close>

interpretation pubkeys: fixed_width_codec id "take PublicKeySize" PublicKeySize "\<lambda>p. length p = PublicKeySize"
  by unfold_locales auto

lemma bslice_at: "length pre = off \<Longrightarrow> bslice (off + i) (off + j) (pre @ b) = bslice i j b"
  by (simp add: slice_append_right)

lemma readPubs_append:
  assumes "length pre = off" "length ps \<le> 255" "\<forall>p\<in>set ps. length p = PublicKeySize"
  shows "readPubs (pre @ of_nat (length ps) # concat ps @ rest) off = Inr (ps, off + 1 + length ps * PublicKeySize)"
proof -
  have n: "unat (of_nat (length ps) :: byte) = length ps" using assms(2) by (simp add: unat_of_nat)
  have l: "length (concat ps) = length ps * PublicKeySize" using pubkeys.length_array [OF assms(3)] by simp
  let ?b = "pre @ of_nat (length ps) # concat ps @ rest"
  have "bslice (off + 1 + i * 32) (off + 1 + i * 32 + 32) ?b = take 32 (drop (i * 32) (concat ps @ rest))" for i
    using bslice_at [of "pre @ [of_nat (length ps)]" "off + 1" "i * 32" "i * 32 + 32" "concat ps @ rest"] assms(1)
    by (simp add: bslice_def add.assoc)
  then have "map (\<lambda>i. bslice (off + 1 + i * 32) (off + 1 + i * 32 + 32) ?b) [0..<length ps] = ps"
    using pubkeys.decode_array [OF assms(3), of rest] by simp
  moreover have "?b ! off = of_nat (length ps)" using assms(1) by (simp add: nth_append)
  ultimately show ?thesis using n l assms(1) by (simp add: readPubs_def Let_def)
qed

lemma readSection_append:
  assumes "length pre = off" "length b < 2 ^ 32"
  shows "readSection (pre @ le_bytes 4 (length b) @ b @ rest) off = Inr (b, off + 4 + length b)"
proof -
  have "bslice off (off + 4) (pre @ le_bytes 4 (length b) @ b @ rest) = le_bytes 4 (length b)"
    using assms(1) by (simp add: bslice_def)
  moreover have "bslice (off + 4) (off + 4 + length b) (pre @ le_bytes 4 (length b) @ b @ rest) = b"
    using assms(1) by (simp add: bslice_def)
  ultimately show ?thesis using assms by (simp add: readSection_def Let_def le_nat_le_bytes)
qed

lemma readStr_append:
  assumes "length pre = off" "length b \<le> 65535"
  shows "readStr (pre @ le_bytes 2 (length b) @ b @ rest) off = Inr (b, off + 2 + length b)"
proof -
  have "bslice off (off + 2) (pre @ le_bytes 2 (length b) @ b @ rest) = le_bytes 2 (length b)"
    using assms(1) by (simp add: bslice_def)
  moreover have "bslice (off + 2) (off + 2 + length b) (pre @ le_bytes 2 (length b) @ b @ rest) = b"
    using assms(1) by (simp add: bslice_def)
  ultimately show ?thesis using assms by (simp add: readStr_def Let_def le_nat_le_bytes)
qed

section \<open>The member list\<close>

definition member_of :: "byte \<times> bytes \<times> bytes \<Rightarrow> Member" where
  "member_of e = (case e of (role, key, label) \<Rightarrow> \<lparr>mb_Role = roleName role, mb_Key = key, mb_Label = label\<rparr>)"

definition ent_bytes :: "byte \<times> bytes \<times> bytes \<Rightarrow> bytes" where
  "ent_bytes e = (case e of (role, key, label) \<Rightarrow> [role] @ le_bytes 2 (length key) @ key @ le_bytes 2 (length label) @ label)"

lemma marshal_ents_iff:
  "marshal_ents es buf = Inr out \<longleftrightarrow>
     (\<forall>(role, key, label)\<in>set es. length key \<le> 65535 \<and> length label \<le> 65535) \<and> out = buf @ concat (map ent_bytes es)"
  by (induction es arbitrary: buf) (auto simp: appendString16_def ent_bytes_def not_less split: if_splits)

lemma read_members_ents:
  assumes "\<forall>(role, key, label)\<in>set es. length key \<le> 65535 \<and> length label \<le> 65535" "length pre = off"
  shows "read_members (length es) (pre @ concat (map ent_bytes es) @ rest) off = Inr (map member_of es)"
  using assms
proof (induction es arbitrary: pre off)
  case (Cons e es)
  obtain role key label where e: "e = (role, key, label)" by (cases e)
  let ?t = "concat (map ent_bytes es) @ rest"
  let ?b = "pre @ concat (map ent_bytes (e # es)) @ rest"
  have len: "length key \<le> 65535" "length label \<le> 65535" using Cons.prems(1) e by auto
  have b: "?b = (pre @ [role]) @ le_bytes 2 (length key) @ key @ (le_bytes 2 (length label) @ label @ ?t)"
    "?b = (pre @ [role] @ le_bytes 2 (length key) @ key) @ le_bytes 2 (length label) @ label @ ?t"
    "?b = (pre @ ent_bytes e) @ ?t" by (simp_all add: e ent_bytes_def)
  have r1: "readStr ?b (off + 1) = Inr (key, off + 1 + 2 + length key)"
    unfolding b(1) using Cons.prems(2) len by (intro readStr_append) auto
  have r2: "readStr ?b (off + 1 + 2 + length key) = Inr (label, off + 1 + 2 + length key + 2 + length label)"
    unfolding b(2) using Cons.prems(2) len by (intro readStr_append) auto
  have r3: "read_members (length es) ?b (off + 1 + 2 + length key + 2 + length label) = Inr (map member_of es)"
    unfolding b(3) using Cons.prems by (intro Cons.IH) (auto simp: e ent_bytes_def)
  have "?b ! off = role" "\<not> length ?b \<le> off" using Cons.prems(2) by (simp_all add: e ent_bytes_def nth_append)
  then have "read_members (Suc (length es)) ?b off = Inr (member_of e # map member_of es)"
    using r1 r2 r3 by (simp only: read_members.simps if_False sum.case prod.case) (simp add: e member_of_def)
  then show ?case by simp
qed simp

lemma unmarshal_marshal:
  assumes "marshalMembers m = Inr plain"
  shows "unmarshalMembers plain = Inr (map member_of (member_ents m))" "2 \<le> length plain"
proof -
  let ?es = "member_ents m"
  have n: "length ?es \<le> 65535" and p: "plain = le_bytes 2 (length ?es) @ concat (map ent_bytes ?es)"
    and f: "\<forall>(role, key, label)\<in>set ?es. length key \<le> 65535 \<and> length label \<le> 65535"
    using assms by (auto simp: marshalMembers_def Let_def marshal_ents_iff not_less split: if_splits)
  show "unmarshalMembers plain = Inr (map member_of ?es)"
    using read_members_ents [OF f, of "le_bytes 2 (length ?es)" 2 "[]"] n
    by (simp add: unmarshalMembers_def p le_nat_le_bytes)
  show "2 \<le> length plain" by (simp add: p)
qed

section \<open>Seal, then parse\<close>

text \<open>A key of a master or writer is an ed25519 public key.\<close>

definition wf_membership :: "Membership \<Rightarrow> bool" where
  "wf_membership m \<longleftrightarrow> (\<forall>r\<in>set (Masters m @ Writers m). length (mr_pub r) = PublicKeySize)"

definition seal_prefix :: "Membership \<Rightarrow> bytes" where
  "seal_prefix m = [keyslotVersion, of_nat (length (Masters m))] @ concat (map mr_pub (Masters m)) @
     [of_nat (length (Writers m))] @ concat (map mr_pub (Writers m))"

lemma seal_body_eq:
  "seal_body m wrapped mb = seal_prefix m @ le_bytes 4 (length wrapped) @ wrapped @ le_bytes 4 (length mb) @ mb"
  by (simp add: seal_body_def seal_prefix_def appendLenPrefixed_def)

lemma parse_seal_body:
  assumes wf: "wf_membership m" and n: "length (Masters m) \<le> 255" "length (Writers m) \<le> 255"
    and len: "length wrapped < 2 ^ 32" "length mb < 2 ^ 32"
    and sig: "Masters m = [] \<or> length sig = SignatureSize"
  shows "parseKeyslot (seal_body m wrapped mb @ sig) =
     Inr \<lparr>kp_masters = map mr_pub (Masters m), kp_writers = map mr_pub (Writers m), kp_wrapped = wrapped, kp_memberBlob = mb,
          kp_signed = (if Masters m = [] then None else Some (seal_body m wrapped mb, sig))\<rparr>"
proof -
  let ?b = "seal_body m wrapped mb @ sig"
  let ?ms = "map mr_pub (Masters m)" and ?ws = "map mr_pub (Writers m)"
  define t where "t = le_bytes 4 (length wrapped) @ wrapped @ le_bytes 4 (length mb) @ mb @ sig"
  have l: "\<forall>p\<in>set ?ms. length p = PublicKeySize" "\<forall>p\<in>set ?ws. length p = PublicKeySize" using wf by (auto simp: wf_membership_def)
  define o1 where "o1 = 2 + length ?ms * PublicKeySize"
  define o2 where "o2 = o1 + 1 + length ?ws * PublicKeySize"
  have b1: "?b = [keyslotVersion] @ of_nat (length ?ms) # concat ?ms @ (of_nat (length ?ws) # concat ?ws @ t)"
    and b2: "?b = ([keyslotVersion, of_nat (length ?ms)] @ concat ?ms) @ of_nat (length ?ws) # concat ?ws @ t"
    and b3: "?b = seal_prefix m @ le_bytes 4 (length wrapped) @ wrapped @ (le_bytes 4 (length mb) @ mb @ sig)"
    and b4: "?b = (seal_prefix m @ le_bytes 4 (length wrapped) @ wrapped) @ le_bytes 4 (length mb) @ mb @ sig"
    by (simp_all add: seal_body_eq seal_prefix_def t_def)
  have lm: "length (concat ?ms) = length ?ms * PublicKeySize" and lw: "length (concat ?ws) = length ?ws * PublicKeySize"
    using pubkeys.length_array [OF l(1)] pubkeys.length_array [OF l(2)] by simp_all
  have lp: "length (seal_prefix m) = o2" using lm lw by (simp add: seal_prefix_def o1_def o2_def)
  have r1: "readPubs ?b 1 = Inr (?ms, o1)"
    unfolding b1 using readPubs_append [of "[keyslotVersion]" 1 ?ms] n l(1) by (simp add: o1_def)
  have r2: "readPubs ?b o1 = Inr (?ws, o2)"
    unfolding b2 o2_def using n l(2) lm by (intro readPubs_append) (auto simp: o1_def)
  have r3: "readSection ?b o2 = Inr (wrapped, o2 + 4 + length wrapped)"
    unfolding b3 using lp len by (intro readSection_append)
  have r4: "readSection ?b (o2 + 4 + length wrapped) = Inr (mb, o2 + 4 + length wrapped + 4 + length mb)"
    unfolding b4 using lp len by (intro readSection_append) auto
  have lb: "length (seal_body m wrapped mb) = o2 + 4 + length wrapped + 4 + length mb" by (simp add: seal_body_eq lp)
  have h: "\<not> (length ?b < 2 \<or> ?b ! 0 \<noteq> keyslotVersion)" by (simp add: seal_body_eq seal_prefix_def)
  have "take (length (seal_body m wrapped mb)) ?b = seal_body m wrapped mb"
    "length sig = SignatureSize \<Longrightarrow> bslice (length (seal_body m wrapped mb)) (length (seal_body m wrapped mb) + SignatureSize) ?b = sig"
    by (simp_all add: bslice_def)
  then show ?thesis unfolding parseKeyslot_def if_not_P [OF h]
    using r1 r2 r3 r4 [folded lb] sig by auto
qed

lemma seal_split:
  assumes "SealKeyslot L rnd rnd' dek m signWith = Inr blob"
  obtains wrapped mb sig where "length (Masters m) \<le> 255" "length (Writers m) \<le> 255"
    "Wrap L rnd dek (recipients m) = Inr wrapped" "seal_members L rnd' m = Inr mb" "blob = seal_body m wrapped mb @ sig"
    "if Masters m = [] then sig = []
     else \<exists>mi. signWith = Some mi \<and> masterPinned (masterPub L mi) (Masters m) \<and> sig = ed_Sign L (mi_priv mi) (seal_body m wrapped mb)"
proof -
  from assms obtain wrapped mb where w: "length (Masters m) \<le> 255" "length (Writers m) \<le> 255"
      "Wrap L rnd dek (recipients m) = Inr wrapped" "seal_members L rnd' m = Inr mb"
    by (auto simp: SealKeyslot_def not_less split: if_splits sum.splits)
  show thesis
  proof (cases "Masters m = []")
    case True
    then show thesis using that [OF w, of "[]"] assms w by (simp add: SealKeyslot_def)
  next
    case False
    then obtain mi where "signWith = Some mi" "masterPinned (masterPub L mi) (Masters m)"
        "blob = seal_body m wrapped mb @ ed_Sign L (mi_priv mi) (seal_body m wrapped mb)"
      using assms w by (auto simp: SealKeyslot_def Let_def split: if_splits option.splits)
    then show thesis using that [OF w] False by simp
  qed
qed

lemma parse_seal:
  assumes "SealKeyslot L rnd rnd' dek m signWith = Inr blob" "wf_membership m" "length blob < 2 ^ 32"
    and sg: "\<And>k msg. length (ed_Sign L k msg) = SignatureSize"
  obtains wrapped mb k where "parseKeyslot blob = Inr k" "Wrap L rnd dek (recipients m) = Inr wrapped" "seal_members L rnd' m = Inr mb"
    "kp_masters k = map mr_pub (Masters m)" "kp_writers k = map mr_pub (Writers m)" "kp_wrapped k = wrapped" "kp_memberBlob k = mb"
    "if Masters m = [] then kp_signed k = None
     else \<exists>mi. signWith = Some mi \<and> masterPinned (masterPub L mi) (Masters m) \<and>
       kp_signed k = Some (seal_body m wrapped mb, ed_Sign L (mi_priv mi) (seal_body m wrapped mb))"
proof -
  from seal_split [OF assms(1)] obtain wrapped mb sig where w:
      "length (Masters m) \<le> 255" "length (Writers m) \<le> 255" "Wrap L rnd dek (recipients m) = Inr wrapped"
      "seal_members L rnd' m = Inr mb" "blob = seal_body m wrapped mb @ sig"
      "if Masters m = [] then sig = []
       else \<exists>mi. signWith = Some mi \<and> masterPinned (masterPub L mi) (Masters m) \<and> sig = ed_Sign L (mi_priv mi) (seal_body m wrapped mb)"
    by blast
  have "length wrapped < 2 ^ 32" "length mb < 2 ^ 32" using assms(3) w(5) by (auto simp: seal_body_eq)
  moreover have "Masters m = [] \<or> length sig = SignatureSize" using w(6) sg by (auto split: if_splits)
  ultimately have "parseKeyslot blob = Inr \<lparr>kp_masters = map mr_pub (Masters m), kp_writers = map mr_pub (Writers m), kp_wrapped = wrapped,
      kp_memberBlob = mb, kp_signed = (if Masters m = [] then None else Some (seal_body m wrapped mb, sig))\<rparr>"
    using parse_seal_body [OF assms(2) w(1,2)] w(5) by simp
  from that [OF this w(3,4)] w(6) show thesis by (cases "Masters m = []") auto
qed

lemma parse_seal_signed:
  assumes "SealKeyslot L rnd rnd' dek m (Some mi) = Inr blob" "wf_membership m" "length blob < 2 ^ 32" "Masters m \<noteq> []"
    and "\<And>k msg. length (ed_Sign L k msg) = SignatureSize"
  obtains k body where "parseKeyslot blob = Inr k" "seal_members L rnd' m = Inr (kp_memberBlob k)"
    "kp_masters k = map mr_pub (Masters m)" "kp_writers k = map mr_pub (Writers m)" "masterPub L mi \<in> set (kp_masters k)"
    "kp_signed k = Some (body, ed_Sign L (mi_priv mi) body)"
proof (rule parse_seal [OF assms(1-3,5)])
  fix wrapped mb k
  assume k: "parseKeyslot blob = Inr k" "seal_members L rnd' m = Inr mb" "kp_masters k = map mr_pub (Masters m)"
    "kp_writers k = map mr_pub (Writers m)" "kp_memberBlob k = mb"
    "if Masters m = [] then kp_signed k = None
     else \<exists>mi'. Some mi = Some mi' \<and> masterPinned (masterPub L mi') (Masters m) \<and>
       kp_signed k = Some (seal_body m wrapped mb, ed_Sign L (mi_priv mi') (seal_body m wrapped mb))"
  then have "masterPub L mi \<in> set (kp_masters k)" using assms(4) by (force simp: masterPinned_def)
  then show thesis using k assms(4) by (intro that) auto
qed

lemma parse_signed:
  assumes "parseKeyslot b = Inr k" "kp_signed k = Some (msg, sig)"
  obtains o1 o2 o3 where "readPubs b 1 = Inr (kp_masters k, o1)" "readPubs b o1 = Inr (kp_writers k, o2)"
    "readSection b o2 = Inr (kp_wrapped k, o3)" "readSection b o3 = Inr (kp_memberBlob k, length msg)"
    "msg = take (length msg) b" "length msg \<le> length b" "b = msg @ sig @ drop (length msg + SignatureSize) b" "kp_masters k \<noteq> []"
proof -
  note p = assms(1) [unfolded parseKeyslot_def]
  obtain ms o1 where 1: "readPubs b 1 = Inr (ms, o1)" using p by (cases "readPubs b 1") (auto split: if_splits)
  obtain ws o2 where 2: "readPubs b o1 = Inr (ws, o2)" using p 1 by (cases "readPubs b o1") (auto split: if_splits)
  obtain w o3 where 3: "readSection b o2 = Inr (w, o3)" using p 1 2 by (cases "readSection b o2") (auto split: if_splits)
  obtain mb n where 4: "readSection b o3 = Inr (mb, n)" using p 1 2 3 by (cases "readSection b o3") (auto split: if_splits)
  have ms: "ms \<noteq> []" using p 1 2 3 4 assms(2) by (auto split: if_splits)
  then have n: "n + SignatureSize \<le> length b" using p 1 2 3 4 by (auto split: if_splits)
  have k: "k = \<lparr>kp_masters = ms, kp_writers = ws, kp_wrapped = w, kp_memberBlob = mb,
      kp_signed = Some (take n b, bslice n (n + SignatureSize) b)\<rparr>" using p 1 2 3 4 ms n by (simp split: if_splits)
  then have r: "readPubs b 1 = Inr (kp_masters k, o1)" "readPubs b o1 = Inr (kp_writers k, o2)"
      "readSection b o2 = Inr (kp_wrapped k, o3)" "readSection b o3 = Inr (kp_memberBlob k, n)" "kp_masters k \<noteq> []"
      "msg = take n b" "sig = bslice n (n + SignatureSize) b" "n + SignatureSize \<le> length b"
    using 1 2 3 4 ms n assms(2) by simp_all
  then have "length msg = n" by simp
  moreover have "b = take n b @ bslice n (n + SignatureSize) b @ drop (n + SignatureSize) b"
    using append_take_drop_id [of n b] append_take_drop_id [of SignatureSize "drop n b"] by (simp add: bslice_def add.commute)
  ultimately show thesis using r by (intro that) auto
qed

lemma signed_determines:
  assumes "parseKeyslot b = Inr k" "kp_signed k = Some (msg, sig)" "parseKeyslot b' = Inr k'" "kp_signed k' = Some (msg, sig')"
  shows "kp_masters k' = kp_masters k \<and> kp_writers k' = kp_writers k \<and> kp_wrapped k' = kp_wrapped k \<and> kp_memberBlob k' = kp_memberBlob k"
proof -
  from parse_signed [OF assms(1,2)] obtain o1 o2 o3 where r: "readPubs b 1 = Inr (kp_masters k, o1)" "readPubs b o1 = Inr (kp_writers k, o2)"
    "readSection b o2 = Inr (kp_wrapped k, o3)" "readSection b o3 = Inr (kp_memberBlob k, length msg)" "msg = take (length msg) b" by metis
  from parse_signed [OF assms(3,4)] obtain p1 p2 p3 where r': "readPubs b' 1 = Inr (kp_masters k', p1)" "readPubs b' p1 = Inr (kp_writers k', p2)"
    "readSection b' p2 = Inr (kp_wrapped k', p3)" "readSection b' p3 = Inr (kp_memberBlob k', length msg)" "msg = take (length msg) b'" by metis
  have t: "take (length msg) b' = take (length msg) b" using r(5) r'(5) by simp
  have le: "o3 \<le> length msg" "o2 \<le> length msg" "o1 \<le> length msg"
    using section_reader.progress [OF r(4)] section_reader.progress [OF r(3)] pubs_reader.progress [OF r(2)] by auto
  from pubs_reader.same_prefix [OF r(1) le(3) t] r'(1) have 1: "kp_masters k' = kp_masters k" "p1 = o1" by auto
  from pubs_reader.same_prefix [OF r(2) le(2) t] r'(2) 1 have 2: "kp_writers k' = kp_writers k" "p2 = o2" by auto
  from section_reader.same_prefix [OF r(3) le(1) t] r'(3) 2 have 3: "kp_wrapped k' = kp_wrapped k" "p3 = o3" by auto
  from section_reader.same_prefix [OF r(4) _ t] r'(4) 3 have "kp_memberBlob k' = kp_memberBlob k" by auto
  with 1 2 3 show ?thesis by blast
qed

section \<open>What the packages promise\<close>

text \<open>An age file is not empty and opens with any identity that \<open>opens\<close> one of its recipients; an ed25519 signature has 64
  bytes and verifies under the signer's public key of 32 bytes.\<close>

definition age_correct :: "cryptoLib \<Rightarrow> (bytes \<Rightarrow> bytes \<Rightarrow> bool) \<Rightarrow> bool" where
  "age_correct L opens \<longleftrightarrow>
     (\<forall>rnd rs x c ids. age_Encrypt L rnd rs x = Some c \<longrightarrow> c \<noteq> [] \<and> ((\<exists>i\<in>set ids. \<exists>r\<in>set rs. opens i r) \<longrightarrow> age_Decrypt L c ids = Inr x))"

definition ed25519_correct :: "cryptoLib \<Rightarrow> bool" where
  "ed25519_correct L \<longleftrightarrow> (\<forall>k msg. length (ed_Sign L k msg) = SignatureSize \<and> length (ed_Public L k) = PublicKeySize \<and>
     ed_Verify L (ed_Public L k) msg (ed_Sign L k msg))"

lemma Unwrap_Wrap:
  assumes "age_correct L opens" "Wrap L rnd x rs = Inr c" "i \<in> set ids" "r \<in> set rs" "opens (ageIdentity i) (rc_r r)"
  shows "Unwrap L c ids = Inr x"
proof -
  have e: "age_Encrypt L rnd (map rc_r rs) x = Some c" using assms(2) by (auto simp: Wrap_def split: if_splits option.splits)
  have "\<exists>j\<in>set (map ageIdentity ids). \<exists>q\<in>set (map rc_r rs). opens j q" using assms(3-5) by auto
  then have "age_Decrypt L c (map ageIdentity ids) = Inr x" using assms(1) e unfolding age_correct_def by blast
  then show ?thesis by (simp add: Unwrap_def)
qed

lemma Wrap_nonempty: "age_correct L opens \<Longrightarrow> Wrap L rnd x rs = Inr c \<Longrightarrow> c \<noteq> []"
  by (auto simp: age_correct_def Wrap_def split: if_splits option.splits)

lemma VerifyState_Sign:
  "ed25519_correct L \<Longrightarrow> masterPub L mi \<in> set pubs \<Longrightarrow> VerifyState L pubs msg (ed_Sign L (mi_priv mi) msg)"
  unfolding VerifyState_def ed25519_correct_def masterPub_def by blast

lemma sign_length: "ed25519_correct L \<Longrightarrow> length (ed_Sign L k msg) = SignatureSize"
  by (simp add: ed25519_correct_def)

lemma open_sealed:
  assumes "ed25519_correct L" "age_correct L opens" "wf_membership m"
    and "SealKeyslot L rnd rnd' dek m signWith = Inr blob" "length blob < 2 ^ 32"
    and "i \<in> set ids" "r \<in> set (recipients m)" "opens (ageIdentity i) (rc_r r)"
    and "trusted = [] \<or> Masters m \<noteq> [] \<and> (\<exists>mi t. signWith = Some mi \<and> t \<in> set trusted \<and> mr_pub t = masterPub L mi)"
  shows "OpenKeyslot L blob trusted ids = Inr (dek, map mr_pub (Writers m))"
proof -
  from parse_seal [OF assms(4,3,5) sign_length [OF assms(1)]] obtain wrapped mb k where k:
    "parseKeyslot blob = Inr k" "Wrap L rnd dek (recipients m) = Inr wrapped" "kp_writers k = map mr_pub (Writers m)" "kp_wrapped k = wrapped"
    "if Masters m = [] then kp_signed k = None
     else \<exists>mi. signWith = Some mi \<and> masterPinned (masterPub L mi) (Masters m) \<and>
       kp_signed k = Some (seal_body m wrapped mb, ed_Sign L (mi_priv mi) (seal_body m wrapped mb))" by metis
  have u: "Unwrap L wrapped ids = Inr dek" by (rule Unwrap_Wrap [OF assms(2) k(2) assms(6-8)])
  have "signed_by L (map mr_pub trusted) k" if "trusted \<noteq> []"
  proof -
    from that assms(9) k(5) obtain mi t where t: "t \<in> set trusted" "mr_pub t = masterPub L mi"
        "kp_signed k = Some (seal_body m wrapped mb, ed_Sign L (mi_priv mi) (seal_body m wrapped mb))" by auto
    then have "masterPub L mi \<in> set (map mr_pub trusted)" by force
    then show ?thesis using VerifyState_Sign [OF assms(1)] t(3) by (simp add: signed_by_def)
  qed
  then show ?thesis using k u by (auto simp: OpenKeyslot_def)
qed

text \<open>A package that meets the promises: encryption only adds a byte, and a signature is the first 64 bytes
  of the public key followed by the message.\<close>

definition demoLib :: cryptoLib where
  "demoLib = \<lparr>age_Encrypt = (\<lambda>rnd rs x. Some (1 # x)), age_Decrypt = (\<lambda>c ids. if ids = [] then Inl ErrNoMatch else Inr (tl c)),
     agessh_ParseRecipient = Some, ssh_ParseAuthorizedKey = (\<lambda>l. Some (l, [])), ssh_MarshalAuthorizedKey = id, ssh_ed25519 = Some,
     ed_Sign = (\<lambda>k m. take 64 (take 32 (k @ replicate 32 0) @ m @ replicate 64 0)),
     ed_Verify = (\<lambda>p m s. s = take 64 (p @ m @ replicate 64 0)), ed_Public = (\<lambda>k. take 32 (k @ replicate 32 0))\<rparr>"

lemma demoLib_correct: "ed25519_correct demoLib" "age_correct demoLib (=)"
  by (auto simp: ed25519_correct_def age_correct_def demoLib_def)

definition demoMaster :: masterIdentity where
  "demoMaster = \<lparr>mi_i = [7], mi_priv = [1]\<rparr>"

definition demoMembership :: Membership where
  "demoMembership = \<lparr>Masters = [\<lparr>rc_r = [7], rc_pub = [1], rc_label = [], mr_pub = 1 # replicate 31 0\<rparr>],
     Writers = [], Members = [\<lparr>rc_r = [8], rc_pub = [3], rc_label = [5]\<rparr>]\<rparr>"

lemma demo_seal: "\<exists>blob. SealKeyslot demoLib [] [] [42] demoMembership (Some demoMaster) = Inr blob \<and> length blob < 2 ^ 32 \<and>
   blob \<noteq> [] \<and> length blob \<le> 1000"
  by (simp add: SealKeyslot_def demoMembership_def Wrap_def recipients_def demoLib_def seal_members_def marshalMembers_def
      member_ents_def add_ent_def publicForm_def Let_def masterPinned_def masterPub_def demoMaster_def appendString16_def
      seal_body_def appendLenPrefixed_def)

lemma demo_wf: "wf_membership demoMembership"
  by (simp add: wf_membership_def demoMembership_def)

lemma demo_party: "\<lparr>rc_r = [8], rc_pub = [3], rc_label = [5]\<rparr> \<in> set (recipients demoMembership)"
  by (simp add: demoMembership_def recipients_def)

lemma demo_trust: "Masters demoMembership \<noteq> []" "\<exists>t\<in>set (Masters demoMembership). mr_pub t = masterPub demoLib demoMaster"
  by (simp_all add: demoMembership_def demoLib_def masterPub_def demoMaster_def)

lemma demo_open: "\<exists>blob. SealKeyslot demoLib [] [] [42] demoMembership (Some demoMaster) = Inr blob \<and> length blob < 2 ^ 32 \<and>
   OpenKeyslot demoLib blob (Masters demoMembership) [PlainIdentity [8]] = Inr ([42], [])"
proof -
  obtain blob where b: "SealKeyslot demoLib [] [] [42] demoMembership (Some demoMaster) = Inr blob" "length blob < 2 ^ 32"
    using demo_seal by blast
  have "OpenKeyslot demoLib blob (Masters demoMembership) [PlainIdentity [8]] = Inr ([42], map mr_pub (Writers demoMembership))"
    by (rule open_sealed [OF demoLib_correct demo_wf b _ demo_party]) (use demo_trust in auto)
  then show ?thesis using b by (auto simp: demoMembership_def)
qed

section \<open>Properties\<close>

text \<open>A keyslot sealed for a membership opens for every party of it: with an identity that matches any of
  the recipients, \<^verbatim>\<open>OpenKeyslot\<close> returns the data key and exactly the public keys of the writers, also when
  the reader pins the master that signed.\<close>

theorem keyslot_open_seal:
  assumes "ed25519_correct L" "age_correct L opens" "wf_membership m"
    and "SealKeyslot L rnd rnd' dek m signWith = Inr blob" "length blob < 2 ^ 32"
    and "i \<in> set ids" "r \<in> set (recipients m)" "opens (ageIdentity i) (rc_r r)"
    and "trusted = [] \<or> Masters m \<noteq> [] \<and> (\<exists>mi t. signWith = Some mi \<and> t \<in> set trusted \<and> mr_pub t = masterPub L mi)"
  shows "OpenKeyslot L blob trusted ids = Inr (dek, map mr_pub (Writers m))"
  by (rule open_sealed [OF assms])

theorem keyslot_open_seal_witness:
  "\<exists>blob. SealKeyslot demoLib [] [] [42] demoMembership (Some demoMaster) = Inr blob \<and>
     OpenKeyslot demoLib blob (Masters demoMembership) [PlainIdentity [8]] = Inr ([42], [])"
proof -
  obtain blob where b: "SealKeyslot demoLib [] [] [42] demoMembership (Some demoMaster) = Inr blob" "length blob < 2 ^ 32"
    using demo_seal by blast
  have "OpenKeyslot demoLib blob (Masters demoMembership) [PlainIdentity [8]] = Inr ([42], map mr_pub (Writers demoMembership))"
    by (rule keyslot_open_seal [OF demoLib_correct demo_wf b _ demo_party]) (use demo_trust in auto)
  then show ?thesis using b(1) by (auto simp: demoMembership_def)
qed

text \<open>C22: A reader that pins masters accepts a keyslot only under a signature of one of them, and the signature
  covers the whole membership: the data key it returns was unwrapped from the signed envelope, the writers
  are the signed ones, and any other keyslot whose signed bytes are the same has the same masters, writers,
  envelope and member list. A flat or unsigned keyslot is refused.\<close>

theorem keyslot_open_authorized:
  assumes "OpenKeyslot L blob trusted ids = Inr (dek, ws)" "trusted \<noteq> []"
  shows "\<exists>k msg sig t. parseKeyslot blob = Inr k \<and> kp_signed k = Some (msg, sig) \<and> (\<exists>rest. blob = msg @ sig @ rest) \<and>
     t \<in> set trusted \<and> ed_Verify L (mr_pub t) msg sig \<and> ws = kp_writers k \<and> Unwrap L (kp_wrapped k) ids = Inr dek \<and>
     (\<forall>blob' k' sig'. parseKeyslot blob' = Inr k' \<longrightarrow> kp_signed k' = Some (msg, sig') \<longrightarrow>
        kp_masters k' = kp_masters k \<and> kp_writers k' = kp_writers k \<and> kp_wrapped k' = kp_wrapped k \<and> kp_memberBlob k' = kp_memberBlob k)"
proof -
  from assms obtain k where k: "parseKeyslot blob = Inr k" "signed_by L (map mr_pub trusted) k" "ws = kp_writers k"
      "Unwrap L (kp_wrapped k) ids = Inr dek"
    by (auto simp: OpenKeyslot_def split: sum.splits if_splits)
  then obtain msg sig t where s: "kp_signed k = Some (msg, sig)" "t \<in> set trusted" "ed_Verify L (mr_pub t) msg sig"
    by (auto simp: signed_by_def VerifyState_def split: option.splits)
  have "\<exists>rest. blob = msg @ sig @ rest" using parse_signed [OF k(1) s(1)] by metis
  then show ?thesis using k s signed_determines [OF k(1) s(1)] by blast
qed

theorem keyslot_open_authorized_witness:
  "\<exists>blob k msg sig. OpenKeyslot demoLib blob (Masters demoMembership) [PlainIdentity [8]] = Inr ([42], []) \<and>
     parseKeyslot blob = Inr k \<and> kp_signed k = Some (msg, sig)"
proof -
  obtain blob where o: "OpenKeyslot demoLib blob (Masters demoMembership) [PlainIdentity [8]] = Inr ([42], [])"
    using demo_open by blast
  show ?thesis using keyslot_open_authorized [OF o] o by (auto simp: demoMembership_def)
qed

text \<open>Only a current master can change the membership of a master-protected keyslot: \<^verbatim>\<open>ResealKeyslot\<close>
  succeeds only for a master identity whose key is pinned in the old keyslot, and what it writes pins masters
  again, among them the one who signed, for exactly the membership that was asked for.\<close>

theorem reseal_authority:
  assumes "ed25519_correct L" "parseKeyslot old = Inr k" "kp_masters k \<noteq> []"
    and "ResealKeyslot L rnd rnd' old by_id dek m = Inr blob" "wf_membership m" "length blob < 2 ^ 32"
  shows "\<exists>mi k'. by_id = MasterIdentity mi \<and> masterPub L mi \<in> set (kp_masters k) \<and> parseKeyslot blob = Inr k' \<and>
     kp_masters k' = map mr_pub (Masters m) \<and> kp_writers k' = map mr_pub (Writers m) \<and> masterPub L mi \<in> set (kp_masters k') \<and>
     signed_by L [masterPub L mi] k'"
proof -
  from assms(2-4) obtain mi where mi: "by_id = MasterIdentity mi" "masterPub L mi \<in> set (kp_masters k)" "Masters m \<noteq> []"
      "SealKeyslot L rnd rnd' dek m (Some mi) = Inr blob"
    by (auto simp: ResealKeyslot_def pubIn_def split: Identity.splits if_splits)
  from parse_seal_signed [OF mi(4) assms(5,6) mi(3) sign_length [OF assms(1)]] obtain k' body where k':
    "parseKeyslot blob = Inr k'" "kp_masters k' = map mr_pub (Masters m)" "kp_writers k' = map mr_pub (Writers m)"
    "masterPub L mi \<in> set (kp_masters k')" "kp_signed k' = Some (body, ed_Sign L (mi_priv mi) body)" by metis
  have "signed_by L [masterPub L mi] k'" using VerifyState_Sign [OF assms(1), of mi "[masterPub L mi]"] k'(5) by (simp add: signed_by_def)
  then show ?thesis using mi(1,2) k'(1-4) by blast
qed

theorem reseal_authority_witness:
  "\<exists>old blob k'. ResealKeyslot demoLib [] [] old (MasterIdentity demoMaster) [42] demoMembership = Inr blob \<and>
     parseKeyslot blob = Inr k' \<and> masterPub demoLib demoMaster \<in> set (kp_masters k')"
proof -
  obtain old where b: "SealKeyslot demoLib [] [] [42] demoMembership (Some demoMaster) = Inr old" "length old < 2 ^ 32"
    using demo_seal by blast
  from parse_seal_signed [OF b(1) demo_wf b(2) demo_trust(1) sign_length [OF demoLib_correct(1)]] obtain k where
    k: "parseKeyslot old = Inr k" "masterPub demoLib demoMaster \<in> set (kp_masters k)" by metis
  have r: "ResealKeyslot demoLib [] [] old (MasterIdentity demoMaster) [42] demoMembership = Inr old"
    using k b(1) demo_trust(1) by (auto simp: ResealKeyslot_def pubIn_def)
  have "kp_masters k \<noteq> []" using k(2) by auto
  from reseal_authority [OF demoLib_correct(1) k(1) this r demo_wf b(2)] r show ?thesis by blast
qed

text \<open>The member list a master reads back is the list of the parties that were sealed: every master, writer
  and member with an enumerable public form, in order, with its role and label; the length-prefixed encoding
  loses nothing, since fields that do not fit are refused when sealing.\<close>

theorem members_of_sealed:
  assumes "ed25519_correct L" "age_correct L opens" "wf_membership m" "Masters m \<noteq> []"
    and "SealKeyslot L rnd rnd' dek m (Some mi) = Inr blob" "length blob < 2 ^ 32"
    and "r \<in> set (Masters m)" "opens (mi_i mi) (rc_r r)"
  shows "ListMembers L blob (Some mi) = Inr (map member_of (member_ents m))"
proof -
  from parse_seal_signed [OF assms(5,3,6,4) sign_length [OF assms(1)]] obtain k body where k:
    "parseKeyslot blob = Inr k" "seal_members L rnd' m = Inr (kp_memberBlob k)" "kp_masters k = map mr_pub (Masters m)"
    "masterPub L mi \<in> set (kp_masters k)" "kp_signed k = Some (body, ed_Sign L (mi_priv mi) body)" by metis
  obtain plain where p: "marshalMembers m = Inr plain" "Wrap L rnd' plain (Masters m) = Inr (kp_memberBlob k)"
    using k(2) assms(4) by (auto simp: seal_members_def split: sum.splits)
  have "signed_by L (kp_masters k) k" using VerifyState_Sign [OF assms(1) k(4)] k(5) by (simp add: signed_by_def)
  moreover have "Unwrap L (kp_memberBlob k) [MasterIdentity mi] = Inr plain" by (rule Unwrap_Wrap [OF assms(2) p(2) _ assms(7)]) (use assms(8) in auto)
  moreover have "kp_memberBlob k \<noteq> []" using Wrap_nonempty [OF assms(2) p(2)] .
  ultimately show ?thesis using k unmarshal_marshal(1) [OF p(1)] assms(4) by (simp add: ListMembers_def pubIn_def)
qed

theorem members_of_sealed_witness:
  "\<exists>blob. SealKeyslot demoLib [] [] [42] demoMembership (Some demoMaster) = Inr blob \<and>
     ListMembers demoLib blob (Some demoMaster) =
       Inr [\<lparr>mb_Role = ''master'', mb_Key = [1], mb_Label = []\<rparr>, \<lparr>mb_Role = ''member'', mb_Key = [3], mb_Label = [5]\<rparr>]"
proof -
  obtain blob where b: "SealKeyslot demoLib [] [] [42] demoMembership (Some demoMaster) = Inr blob" "length blob < 2 ^ 32"
    using demo_seal by blast
  have "ListMembers demoLib blob (Some demoMaster) = Inr (map member_of (member_ents demoMembership))"
    by (rule members_of_sealed [OF demoLib_correct demo_wf demo_trust(1) b, of "hd (Masters demoMembership)"])
      (simp_all add: demoMembership_def demoMaster_def)
  then show ?thesis using b(1)
    by (simp add: demoMembership_def member_ents_def add_ent_def publicForm_def member_of_def roleName_def
        roleMaster_def roleWriter_def roleMember_def)
qed

end
