(* ===== verification/Vault_Crypt.thy ===== *)
theory Vault_Crypt
  imports Vault_Store Keyring
begin

text \<open>
  Key handling of the vault container (\<^verbatim>\<open>src/vfs/vault/crypt.go\<close>): the keyslot framing, resolving
  the page cipher when a container is created or opened, and the check a second opener of a live
  container has to pass.

  Sealing, opening and signing are those of \<^verbatim>\<open>crypto/keyring\<close> (theory \<open>Keyring\<close>). The page ciphers, the
  random source and the cryptographic packages below the keyring are the fields of the parameter record
  \<open>keyring\<close>; \<open>kr_ageRnd\<close> holds the random bytes the two age envelopes of a new keyslot consume.
\<close>

datatype cipherKind = Adiantum | AESXTS | OtherCipher nat

record keyring =
  kr_newCipher :: "cipherKind \<Rightarrow> bytes \<Rightarrow> verror + pageCipher"
  kr_random :: "nat \<Rightarrow> verror + bytes"
  kr_lib :: cryptoLib
  kr_ageRnd :: "bytes \<times> bytes"

record preservedKey =
  pk_dek :: bytes
  pk_keyslot :: bytes
  pk_enc :: byte
  pk_auth :: bool
  pk_writers :: "bytes list"
  pk_writeAs :: "(bytes \<Rightarrow> bytes) option"

record replayAnchor =
  ra_load :: "verror + nat"
  ra_store :: "nat \<Rightarrow> bool"

record keyConfig =
  kc_cipher :: cipherKind
  kc_rawKey :: bytes
  kc_recipients :: "recipient list"
  kc_identities :: "Identity list"
  kc_masters :: "masterRecipient list"
  kc_signWith :: "masterIdentity option"
  kc_writers :: "masterRecipient list"
  kc_writeAs :: "masterIdentity option"
  kc_authenticate :: bool
  kc_anchor :: "replayAnchor option"
  kc_preserve :: "preservedKey option"

definition KeyLen :: "cipherKind \<Rightarrow> nat" where
  "KeyLen kind = (if kind = AESXTS then 64 else 32)"

definition encAdiantum :: byte where "encAdiantum = 1"
definition encAESXTS :: byte where "encAESXTS = 2"

definition macKeyInfo :: bytes where
  "macKeyInfo = [0x76, 0x61, 0x75, 0x6c, 0x74, 0x2d, 0x6d, 0x61, 0x63, 0x2d, 0x76, 0x31]"  \<comment> \<open>\<open>''vault-mac-v1''\<close>\<close>

definition deriveMacKey :: "bytes \<Rightarrow> bytes" where
  "deriveMacKey dek = macTag dek macKeyInfo"

fun mapKeyslotErr :: "verror \<Rightarrow> verror" where
  "mapKeyslotErr ErrNoMatch = ErrNoIdentity"
| "mapKeyslotErr ErrUnauthorizedKeyslot = ErrUnauthorized"
| "mapKeyslotErr ErrKeyringNotMaster = ErrNotMaster"
| "mapKeyslotErr e = e"

fun encByte :: "cipherKind \<Rightarrow> verror + byte" where
  "encByte Adiantum = Inr encAdiantum"
| "encByte AESXTS = Inr encAESXTS"
| "encByte (OtherCipher _) = Inl (ErrInvalid ''unknown cipher'')"

definition cipherForEnc :: "byte \<Rightarrow> cipherKind option" where
  "cipherForEnc enc = (if enc = encAdiantum then Some Adiantum else if enc = encAESXTS then Some AESXTS else None)"

definition encrypting :: "keyConfig \<Rightarrow> bool" where
  "encrypting kc \<longleftrightarrow> kc_rawKey kc \<noteq> [] \<or> kc_recipients kc \<noteq> [] \<or> kc_identities kc \<noteq> [] \<or> kc_masters kc \<noteq> []"

text \<open>\<open>opts\<close> carries the fields of \<^verbatim>\<open>Options\<close> under the names of \<^verbatim>\<open>keyConfig\<close>.\<close>

definition keyConfigFromOptions :: "keyConfig \<Rightarrow> verror + keyConfig" where
  "keyConfigFromOptions opts =
     (if kc_rawKey opts \<noteq> [] \<and> (kc_recipients opts \<noteq> [] \<or> kc_masters opts \<noteq> [])
      then Inl (ErrInvalid ''set either Key or Recipients/Masters'')
      else let kc = opts\<lparr>kc_preserve := None\<rparr>
        in if kc_authenticate opts \<and> \<not> encrypting kc then Inl (ErrInvalid ''Authenticate requires encryption'')
           else if kc_anchor opts \<noteq> None \<and> \<not> kc_authenticate opts \<and> kc_writers opts = []
           then Inl (ErrInvalid ''Anchor requires authenticated mode'')
           else Inr kc)"

section \<open>The keyslot block\<close>

definition keyslotBanner :: bytes where
  "keyslotBanner = map (\<lambda>c. of_nat (of_char c)) ''gosqlite.org/vault/v1'' @ [10]"

definition keyslotHeaderLen :: nat where "keyslotHeaderLen = length keyslotBanner + 4"
definition maxKeyslotLen :: nat where "maxKeyslotLen = 2 ^ 20"

definition writeKeyslot :: "bytes \<Rightarrow> container \<Rightarrow> (verror + nat) \<times> container" where
  "writeKeyslot blob c = (let
     framed = keyslotBanner @ le_bytes 4 (length blob) @ blob
   in case blocksFor (length framed) (c_blockSize c) of
        Inl p \<Rightarrow> (Inl p, c)
      | Inr nb \<Rightarrow>
        (case alloc nb (c_alloc c) of
           Inl p \<Rightarrow> (Inl p, c)
         | Inr (blk, al) \<Rightarrow>
           let off = blk * c_blockSize c;
               buf = framed @ replicate (nb * c_blockSize c - length framed) 0
           in (case WriteAt buf off (c_back c) of
                 (Some e, bk) \<Rightarrow> (Inl e, c\<lparr>c_alloc := al, c_back := bk\<rparr>)
               | (None, bk) \<Rightarrow> (Inr off, c\<lparr>c_alloc := al, c_back := bk\<rparr>))))"

definition readKeyslot :: "nat \<Rightarrow> nat \<Rightarrow> container \<Rightarrow> verror + (bytes \<times> nat)" where
  "readKeyslot off fileSize c =
     (case ReadAt keyslotHeaderLen off (c_back c) of
        Inl e \<Rightarrow> Inl e
      | Inr head \<Rightarrow>
        if take (length keyslotBanner) head \<noteq> keyslotBanner then Inl (ErrInvalid ''keyslot banner mismatch'')
        else let n = le_nat (drop (length keyslotBanner) head)
          in if n = 0 \<or> maxKeyslotLen < n \<or> fileSize < add64 (add64 off keyslotHeaderLen) n
             then Inl (ErrInvalid ''keyslot length out of range'')
             else (case ReadAt n (off + keyslotHeaderLen) (c_back c) of
                     Inl e \<Rightarrow> Inl e
                   | Inr blob \<Rightarrow>
                     (case blocksFor (keyslotHeaderLen + n) (c_blockSize c) of
                        Inl p \<Rightarrow> Inl p
                      | Inr nb \<Rightarrow> Inr (blob, nb mod 2 ^ 32))))"

section \<open>Resolving the cipher\<close>

definition initCipherFromPreserved :: "keyring \<Rightarrow> preservedKey \<Rightarrow> container \<Rightarrow> verror option \<times> container" where
  "initCipherFromPreserved kr p c =
     (case cipherForEnc (pk_enc p) of
        None \<Rightarrow> (Some (ErrInvalid ''unknown on-disk cipher marker''), c)
      | Some kind \<Rightarrow>
        (case kr_newCipher kr kind (pk_dek p) of
           Inl e \<Rightarrow> (Some e, c)
         | Inr cph \<Rightarrow>
           (case writeKeyslot (pk_keyslot p) c of
              (Inl e, c1) \<Rightarrow> (Some e, c1)
            | (Inr off, c1) \<Rightarrow>
              (None, c1\<lparr>c_cipher := Some cph, c_enc := pk_enc p, c_keyslotOffset := off, c_dek := pk_dek p,
                        c_keyslotBlob := pk_keyslot p, c_authenticated := pk_auth p, c_writers := pk_writers p,
                        c_writeAs := pk_writeAs p,
                        c_macKey := (if pk_auth p \<and> pk_writers p = [] then Some (deriveMacKey (pk_dek p)) else c_macKey c1)\<rparr>))))"

definition create_raw :: "keyring \<Rightarrow> keyConfig \<Rightarrow> container \<Rightarrow> verror option \<times> container" where
  "create_raw kr kc c =
     (case kr_newCipher kr (kc_cipher kc) (kc_rawKey kc) of
        Inl e \<Rightarrow> (Some e, c)
      | Inr cph \<Rightarrow>
        (case encByte (kc_cipher kc) of
           Inl e \<Rightarrow> (Some e, c)
         | Inr enc \<Rightarrow>
           let c1 = c\<lparr>c_cipher := Some cph, c_enc := enc, c_dek := kc_rawKey kc\<rparr>
           in (None, if kc_authenticate kc
                     then c1\<lparr>c_authenticated := True, c_macKey := Some (deriveMacKey (kc_rawKey kc))\<rparr> else c1)))"

definition create_recipients :: "keyring \<Rightarrow> keyConfig \<Rightarrow> container \<Rightarrow> verror option \<times> container" where
  "create_recipients kr kc c =
     (case kr_random kr (KeyLen (kc_cipher kc)) of
        Inl e \<Rightarrow> (Some e, c)
      | Inr dek \<Rightarrow>
        (case kr_newCipher kr (kc_cipher kc) dek of
           Inl e \<Rightarrow> (Some e, c)
         | Inr cph \<Rightarrow>
           (case encByte (kc_cipher kc) of
              Inl e \<Rightarrow> (Some e, c)
            | Inr enc \<Rightarrow>
              if kc_writers kc \<noteq> [] \<and> kc_masters kc = [] then (Some (ErrInvalid ''Writers requires Masters''), c)
              else if kc_writers kc \<noteq> [] \<and> \<not> WriterAuthorized (kr_lib kr) (kc_writers kc) (kc_writeAs kc)
              then (Some (ErrInvalid ''WriteAs must be one of Writers''), c)
              else (case SealKeyslot (kr_lib kr) (fst (kr_ageRnd kr)) (snd (kr_ageRnd kr)) dek
                            \<lparr>Masters = kc_masters kc, Writers = kc_writers kc, Members = kc_recipients kc\<rparr> (kc_signWith kc) of
                      Inl e \<Rightarrow> (Some e, c)
                    | Inr blob \<Rightarrow>
                      (case writeKeyslot blob c of
                         (Inl e, c1) \<Rightarrow> (Some e, c1)
                       | (Inr off, c1) \<Rightarrow>
                         let c2 = c1\<lparr>c_cipher := Some cph, c_enc := enc, c_keyslotOffset := off, c_dek := dek,
                                     c_keyslotBlob := blob\<rparr>
                         in (None, if kc_writers kc \<noteq> [] then c2\<lparr>c_authenticated := True, c_writeAs := map_option (SignState (kr_lib kr)) (kc_writeAs kc)\<rparr>
                                   else if kc_authenticate kc
                                   then c2\<lparr>c_authenticated := True, c_macKey := Some (deriveMacKey dek)\<rparr>
                                   else c2))))))"

definition initCipherForCreate :: "keyring \<Rightarrow> keyConfig \<Rightarrow> container \<Rightarrow> verror option \<times> container" where
  "initCipherForCreate kr kc c =
     (case kc_preserve kc of
        Some p \<Rightarrow> initCipherFromPreserved kr p c
      | None \<Rightarrow>
        if kc_rawKey kc = [] \<and> kc_recipients kc = [] \<and> kc_masters kc = [] \<and> kc_identities kc \<noteq> []
        then (Some (ErrInvalid ''creating an encrypted container needs Key or Recipients''), c)
        else if kc_rawKey kc \<noteq> [] then create_raw kr kc c
        else if kc_recipients kc \<noteq> [] \<or> kc_masters kc \<noteq> [] then create_recipients kr kc c
        else (None, c))"

definition resolve_dek ::
  "keyring \<Rightarrow> keyConfig \<Rightarrow> superblock \<Rightarrow> nat \<Rightarrow> container \<Rightarrow> verror + (bytes \<times> nat \<times> container)" where
  "resolve_dek kr kc sb fileSize c =
     (if sb_keyslotOffset sb \<noteq> 0
      then if kc_identities kc = [] then Inl ErrEncrypted
           else (case readKeyslot (sb_keyslotOffset sb) fileSize c of
                   Inl e \<Rightarrow> Inl e
                 | Inr (blob, nb) \<Rightarrow>
                   (case OpenKeyslot (kr_lib kr) blob (kc_masters kc) (kc_identities kc) of
                      Inl e \<Rightarrow> Inl (mapKeyslotErr e)
                    | Inr (dek, ws) \<Rightarrow> Inr (dek, nb, c\<lparr>c_keyslotBlob := blob, c_writers := ws\<rparr>)))
      else if kc_rawKey kc = [] then Inl ErrEncrypted else Inr (kc_rawKey kc, 0, c))"

definition resolveCipherForOpen ::
  "keyring \<Rightarrow> keyConfig \<Rightarrow> superblock \<Rightarrow> nat \<Rightarrow> container \<Rightarrow> verror + (nat \<times> container)" where
  "resolveCipherForOpen kr kc sb fileSize c =
     (if sb_enc sb = encNone
      then if encrypting kc then Inl (ErrInvalid ''database is not encrypted'') else Inr (0, c)
      else case cipherForEnc (sb_enc sb) of
        None \<Rightarrow> Inl (ErrInvalid ''unknown on-disk cipher marker'')
      | Some kind \<Rightarrow>
        (case resolve_dek kr kc sb fileSize c of
           Inl e \<Rightarrow> Inl e
         | Inr (dek, nb, c1) \<Rightarrow>
           (case kr_newCipher kr kind dek of
              Inl e \<Rightarrow> Inl e
            | Inr cph \<Rightarrow>
              let c2 = c1\<lparr>c_cipher := Some cph, c_enc := sb_enc sb, c_keyslotOffset := sb_keyslotOffset sb,
                          c_dek := dek, c_authenticated := sb_authenticated sb, c_writeAs := map_option (SignState (kr_lib kr)) (kc_writeAs kc)\<rparr>
              in if kc_authenticate kc \<and> \<not> c_authenticated c2 then Inl ErrUnauthorized
                 else Inr (nb, if c_authenticated c2 \<and> c_writers c2 = []
                               then c2\<lparr>c_macKey := Some (deriveMacKey dek)\<rparr> else c2))))"

definition matchesKeyConfig :: "keyring \<Rightarrow> keyConfig \<Rightarrow> container \<Rightarrow> verror option" where
  "matchesKeyConfig kr kc c = (let encrypted = (c_cipher c \<noteq> None) in
     if encrypted \<noteq> encrypting kc
     then Some (if encrypted then ErrEncrypted else ErrInvalid ''database is not encrypted'')
     else if \<not> encrypted then None
     else let dek =
            (if c_keyslotOffset c \<noteq> 0
             then if kc_identities kc = [] then Inl ErrEncrypted
                  else (case OpenKeyslot (kr_lib kr) (c_keyslotBlob c) (kc_masters kc) (kc_identities kc) of
                          Inl e \<Rightarrow> Inl (mapKeyslotErr e) | Inr (d, _) \<Rightarrow> Inr d)
             else if kc_rawKey kc = [] then Inl ErrEncrypted else Inr (kc_rawKey kc))
       in case dek of
            Inl e \<Rightarrow> Some e
          | Inr d \<Rightarrow>
            if d \<noteq> c_dek c then Some ErrWrongKey
            else if c_authenticated c \<and> c_macKey c = None \<and> (kc_writeAs kc = None) \<noteq> c_readOnlyRecipient c
            then Some ErrRoleMismatch else None)"

section \<open>Properties\<close>

definition noKeyring :: keyring where
  "noKeyring = \<lparr>kr_newCipher = (\<lambda>_ _. Inl (ErrInvalid ''no cipher'')), kr_random = (\<lambda>_. Inl ErrIO),
     kr_lib = demoLib, kr_ageRnd = ([], [])\<rparr>"

definition noKey :: keyConfig where
  "noKey = \<lparr>kc_cipher = Adiantum, kc_rawKey = [], kc_recipients = [], kc_identities = [], kc_masters = [],
     kc_signWith = None, kc_writers = [], kc_writeAs = None, kc_authenticate = False, kc_anchor = None, kc_preserve = None\<rparr>"

text \<open>A second opener shares a live container exactly when it holds the same key: a plaintext
  container is shared only without key material, an encrypted one only by an opener whose raw key is
  the data key or whose identities unwrap the keyslot to it, and in writer mode only under the same
  write role.\<close>

theorem matchesKeyConfig_iff:
  "matchesKeyConfig kr kc c = None \<longleftrightarrow>
     (if c_cipher c = None then \<not> encrypting kc
      else encrypting kc \<and>
        (if c_keyslotOffset c = 0 then kc_rawKey kc \<noteq> [] \<and> kc_rawKey kc = c_dek c
         else kc_identities kc \<noteq> [] \<and>
           (\<exists>ws. OpenKeyslot (kr_lib kr) (c_keyslotBlob c) (kc_masters kc) (kc_identities kc) = Inr (c_dek c, ws))) \<and>
        (c_authenticated c \<longrightarrow> c_macKey c = None \<longrightarrow> (kc_writeAs kc = None \<longleftrightarrow> c_readOnlyRecipient c)))"
  by (auto simp: matchesKeyConfig_def Let_def split: sum.splits if_splits)

theorem matchesKeyConfig_iff_witness: "matchesKeyConfig noKeyring noKey freshContainer = None"
  using matchesKeyConfig_iff [of noKeyring noKey freshContainer]
  by (simp add: encrypting_def noKey_def freshContainer_def initContainer_def)

end
