(* ===== verification/Vault_File.thy ===== *)
theory Vault_File
  imports Vault_Store
begin

text \<open>
  The container as a byte file: \<^verbatim>\<open>readAt\<close>, \<^verbatim>\<open>writeAt\<close> and \<^verbatim>\<open>truncate\<close> refine the operations of a flat
  file of zero-extended bytes. \<open>represents z c f\<close> is the abstraction relation: every page of \<open>c\<close> loads,
  and byte \<open>i\<close> of the file is \<open>f i\<close>.
\<close>

section \<open>Abstraction\<close>

definition file_page :: "nat \<Rightarrow> (nat \<Rightarrow> byte) \<Rightarrow> nat \<Rightarrow> bytes" where
  "file_page ps f q = map (\<lambda>i. f (q * ps + i)) [0..<ps]"

definition represents :: "codec \<Rightarrow> container \<Rightarrow> (nat \<Rightarrow> byte) \<Rightarrow> bool" where
  "represents z c f \<longleftrightarrow> (\<forall>q. page_is z c q (file_page (c_pageSize c) f q))"

lemma length_file_page [simp]: "length (file_page ps f q) = ps"
  by (simp add: file_page_def)

lemma page_split: "0 < ps \<Longrightarrow> cur div ps * ps + cur mod ps = (cur :: nat)"
  by simp

text \<open>The pages of an updated file.\<close>

lemma file_page_put_same:
  assumes "0 < ps" "length b \<le> ps - cur mod ps"
  shows "file_page ps (put_bytes cur b f) (cur div ps) = blit (cur mod ps) b (file_page ps f (cur div ps))"
proof (rule nth_equalityI)
  have c: "cur = cur div ps * ps + cur mod ps" "cur mod ps < ps" using assms(1) by auto
  fix i assume "i < length (file_page ps (put_bytes cur b f) (cur div ps))"
  then have i: "i < ps" by simp
  have "cur \<le> cur div ps * ps + i \<longleftrightarrow> cur mod ps \<le> i" "cur div ps * ps + i < cur + length b \<longleftrightarrow> i < cur mod ps + length b"
    "cur div ps * ps + i - cur = i - cur mod ps"
    using c by linarith+
  then show "file_page ps (put_bytes cur b f) (cur div ps) ! i = blit (cur mod ps) b (file_page ps f (cur div ps)) ! i"
    using i c(2) assms(2) by (simp add: file_page_def put_bytes_def nth_blit le_diff_conv2)
qed simp

lemma file_page_put_other:
  assumes "0 < ps" "length b \<le> ps - cur mod ps" "q \<noteq> cur div ps"
  shows "file_page ps (put_bytes cur b f) q = file_page ps f q"
proof -
  have "put_bytes cur b f (q * ps + i) = f (q * ps + i)" if "i < ps" for i
  proof -
    have c: "cur = cur div ps * ps + cur mod ps" "cur mod ps < ps" using assms(1) by auto
    consider "Suc q * ps \<le> cur div ps * ps" | "Suc (cur div ps) * ps \<le> q * ps"
      using assms(3) by (metis Suc_leI mult_le_mono1 nat_neq_iff)
    then show ?thesis
    proof cases
      case 1
      then have "q * ps + i < cur" using that c by (simp, linarith)
      then show ?thesis by (simp add: put_bytes_def)
    next
      case 2
      then have "cur + length b \<le> q * ps + i" using assms(2) c by (simp, linarith)
      then show ?thesis by (simp add: put_bytes_def)
    qed
  qed
  then show ?thesis by (simp add: file_page_def)
qed

lemma represents_load: "represents z c f \<Longrightarrow> loadPage z c q = Inr (file_page (c_pageSize c) f q)"
  by (simp add: represents_def page_is_def loadPage_def)

lemma represents_load_into:
  "represents z c f \<Longrightarrow> length dst = c_pageSize c \<Longrightarrow> loadPageInto z c dst q = Inr (file_page (c_pageSize c) f q)"
  by (simp add: represents_def page_is_def)

section \<open>Reading\<close>

lemma take_drop_file_page:
  assumes "0 < ps" "n \<le> ps - cur mod ps"
  shows "take n (drop (cur mod ps) (file_page ps f (cur div ps))) = map f [cur..<cur + n]"
proof (rule nth_equalityI)
  have c: "cur mod ps < ps" using assms(1) by simp
  show "length (take n (drop (cur mod ps) (file_page ps f (cur div ps)))) = length (map f [cur..<cur + n])"
    using assms(2) by simp
  fix i assume "i < length (take n (drop (cur mod ps) (file_page ps f (cur div ps))))"
  then have i: "i < n" "cur mod ps + i < ps" using assms(2) by auto
  have "cur div ps * ps + (cur mod ps + i) = cur + i" using assms(1) by (simp flip: add.assoc)
  then show "take n (drop (cur mod ps) (file_page ps f (cur div ps))) ! i = map f [cur..<cur + n] ! i"
    using i by (simp add: file_page_def)
qed

lemma readAt_loop_step:
  assumes "represents z c f" "0 < c_pageSize c" "p \<noteq> []" "cur < container_size c"
  defines "n \<equiv> min (length p) (c_pageSize c - cur mod c_pageSize c)"
  shows "readAt_loop z c p cur =
    (let (err, rest) = readAt_loop z c (drop n p) (cur + n) in (err, map f [cur..<cur + n] @ rest))"
proof (cases "cur mod c_pageSize c = 0 \<and> c_pageSize c \<le> length p")
  case True
  then have "file_page (c_pageSize c) f (cur div c_pageSize c) = map f [cur..<cur + c_pageSize c]" "n = c_pageSize c"
    using take_drop_file_page [of "c_pageSize c" "c_pageSize c" cur f] assms(2) by (auto simp: n_def)
  then show ?thesis
    using True assms(2-4) represents_load_into [OF assms(1)]
    by (subst readAt_loop.simps) (simp add: container_size_def Let_def)
next
  case False
  have "take n (drop (cur mod c_pageSize c) (file_page (c_pageSize c) f (cur div c_pageSize c))) = map f [cur..<cur + n]"
    using assms(2) by (intro take_drop_file_page) (auto simp: n_def)
  then show ?thesis
    using False assms(2-4) represents_load [OF assms(1)]
    by (subst readAt_loop.simps) (auto simp: container_size_def Let_def n_def)
qed

lemma page_step_bound:
  assumes "0 < ps" "cur < ps * (k :: nat)"
  shows "cur + (ps - cur mod ps) \<le> ps * k"
proof -
  have "cur div ps < k" using assms by (simp add: less_mult_imp_div_less mult.commute)
  then have "Suc (cur div ps) * ps \<le> k * ps" by (intro mult_le_mono1) simp
  moreover have "cur = cur div ps * ps + cur mod ps" "cur mod ps < ps" using assms(1) by auto
  ultimately show ?thesis by (metis Nat.add_diff_assoc add.commute add_diff_cancel_right' add.assoc
      less_imp_le mult.commute mult_Suc)
qed

text \<open>\<^verbatim>\<open>readAt\<close> returns the bytes of the file up to its end, and \<^verbatim>\<open>io.EOF\<close> exactly when the request
  reaches past it.\<close>

lemma readAt_loop_correct:
  assumes "represents z c f" "0 < c_pageSize c"
  shows "readAt_loop z c p cur =
    (if p = [] \<or> cur + length p \<le> container_size c then (None, map f [cur..<cur + length p])
     else (Some ErrEOF, map f [cur..<container_size c]))"
proof (induction "length p" arbitrary: p cur rule: less_induct)
  case less
  show ?case
  proof (cases "p = [] \<or> container_size c \<le> cur")
    case True
    then show ?thesis using assms(2) by (subst readAt_loop.simps) (auto simp: container_size_def Suc_le_eq neq_Nil_conv)
  next
    case False
    let ?n = "min (length p) (c_pageSize c - cur mod c_pageSize c)"
    have n: "0 < ?n" "?n \<le> length p" "cur + ?n \<le> container_size c"
      using False assms(2) page_step_bound [of "c_pageSize c" cur "c_pageCount c"]
      by (auto simp: container_size_def min_def)
    have "readAt_loop z c (drop ?n p) (cur + ?n) =
      (if drop ?n p = [] \<or> cur + length p \<le> container_size c then (None, map f [cur + ?n..<cur + length p])
       else (Some ErrEOF, map f [cur + ?n..<container_size c]))"
      using less [of "drop ?n p" "cur + ?n"] n(1,2) by (auto simp del: min_less_iff_conj)
    then show ?thesis
      using readAt_loop_step [OF assms, of p cur] False n
      by (auto simp: Let_def upt_split simp flip: map_append)
  qed
qed

section \<open>Writing\<close>

lemma writeAt_loop_step:
  fixes cur :: nat
  assumes "represents z c f" "0 < c_pageSize c" "p \<noteq> []"
  defines "n \<equiv> min (c_pageSize c - cur mod c_pageSize c) (length p)"
  shows "writeAt_loop z p cur c =
    (case storePage z (cur div c_pageSize c)
            (file_page (c_pageSize c) (put_bytes cur (take n p) f) (cur div c_pageSize c)) c of
       (Some e, c') \<Rightarrow> (Some e, c')
     | (None, c') \<Rightarrow> writeAt_loop z (drop n p) (cur + n)
                      (c'\<lparr>c_pageCount := max (c_pageCount c') (Suc (cur div c_pageSize c))\<rparr>))"
proof -
  have pg: "file_page (c_pageSize c) (put_bytes cur (take n p) f) (cur div c_pageSize c)
      = blit (cur mod c_pageSize c) (take n p) (file_page (c_pageSize c) f (cur div c_pageSize c))"
    using assms(2) by (intro file_page_put_same) (auto simp: n_def)
  have "take n p = blit 0 (take n p) (file_page (c_pageSize c) f (cur div c_pageSize c))" if "n = c_pageSize c"
    using that by (auto simp: blit_def n_def)
  then have "(if cur mod c_pageSize c = 0 \<and> n = c_pageSize c then Inr (take n p)
      else case loadPage z c (cur div c_pageSize c) of Inl e \<Rightarrow> Inl e | Inr old \<Rightarrow> Inr (blit (cur mod c_pageSize c) (take n p) old))
    = Inr (file_page (c_pageSize c) (put_bytes cur (take n p) f) (cur div c_pageSize c))"
    unfolding pg represents_load [OF assms(1)] by auto
  then show ?thesis
    using assms(2,3) by (subst writeAt_loop.simps) (simp only: Let_def n_def [symmetric] sum.case if_False neq0_conv [symmetric])
qed

lemma represents_store:
  assumes "container_inv c leak" "room c 256" "readable c" "codec_ok z" "represents z c f"
    and "0 < c_pageSize c" "length b \<le> c_pageSize c - cur mod c_pageSize c"
    and "storePage z (cur div c_pageSize c) (file_page (c_pageSize c) (put_bytes cur b f) (cur div c_pageSize c)) c = (None, c')"
  shows "represents z c' (put_bytes cur b f)"
  unfolding represents_def
proof
  fix q
  have ps: "c_pageSize c' = c_pageSize c"
    using storePage_frame [OF assms(1,2,4) _ assms(8)] by simp
  note st = storePage_ok [OF assms(1-4) _ assms(8)]
  show "page_is z c' q (file_page (c_pageSize c') (put_bytes cur b f) q)"
  proof (cases "q = cur div c_pageSize c")
    case True
    then show ?thesis using st ps by simp
  next
    case False
    then show ?thesis
      using st ps file_page_put_other [OF assms(6,7) False] assms(5) by (simp add: represents_def)
  qed
qed

lemma same_pages:
  assumes "c_dir c' = c_dir c" "c_back c' = c_back c" "c_blockSize c' = c_blockSize c" "c_pageSize c' = c_pageSize c"
    "c_cipher c' = c_cipher c" "c_authenticated c' = c_authenticated c"
  shows "represents z c' f = represents z c f"
  using assms load_stored_cong [of c' c] by (simp add: represents_def page_is_def loadPageInto_def Let_def)

lemma bookkeeping [simp]:
  "container_inv (c\<lparr>c_pageCount := n\<rparr>) leak = container_inv c leak" "readable (c\<lparr>c_pageCount := n\<rparr>) = readable c"
  "represents z (c\<lparr>c_pageCount := n\<rparr>) f = represents z c f" "room (c\<lparr>c_pageCount := n\<rparr>) k = room c k"
  "container_inv (c\<lparr>c_dirty := b\<rparr>) leak = container_inv c leak" "readable (c\<lparr>c_dirty := b\<rparr>) = readable c"
  "represents z (c\<lparr>c_dirty := b\<rparr>) f = represents z c f"
  "container_inv (c\<lparr>c_dirtySegs := s\<rparr>) leak = container_inv c leak" "readable (c\<lparr>c_dirtySegs := s\<rparr>) = readable c"
  "represents z (c\<lparr>c_dirtySegs := s\<rparr>) f = represents z c f"
  by ((rule same_store(2-4) same_pages; simp)+)

text \<open>The page count after writing \<open>k\<close> bytes at \<open>cur\<close>.\<close>

definition grown_count :: "container \<Rightarrow> nat \<Rightarrow> nat \<Rightarrow> nat" where
  "grown_count c cur k = (if k = 0 then c_pageCount c else max (c_pageCount c) (Suc ((cur + k - 1) div c_pageSize c)))"

lemma page_of_step: "0 < ps \<Longrightarrow> 0 < n \<Longrightarrow> n \<le> ps - cur mod ps \<Longrightarrow> (cur + n - 1) div ps = cur div (ps :: nat)"
proof -
  assume a: "0 < ps" "0 < n" "n \<le> ps - cur mod ps"
  then have "cur + n - 1 = cur div ps * ps + (cur mod ps + n - 1)" "cur mod ps + n - 1 < ps"
    using mod_less_divisor [OF a(1), of cur] by simp_all
  then show ?thesis using a(1) by simp
qed

text \<open>\<^verbatim>\<open>writeAt\<close>, when it succeeds, is the write of a flat file; when it fails, a prefix of the write
  took place and nothing else changed.\<close>

lemma writeAt_loop_correct:
  assumes "container_inv c leak" "room c (256 * length p)" "readable c" "codec_ok z" "represents z c f"
    and "length (c_dir c) \<le> c_pageCount c" "writeAt_loop z p cur c = (r, c')"
  shows "\<exists>k. k \<le> length p \<and> (r = None \<longrightarrow> k = length p) \<and> container_inv c' leak \<and> represents z c' (put_bytes cur (take k p) f) \<and>
    c_pageSize c' = c_pageSize c \<and> c_pageCount c' = grown_count c cur k \<and> length (c_dir c') \<le> c_pageCount c' \<and>
    readable c'"
  using assms
proof (induction "length p" arbitrary: p cur c f rule: less_induct)
  case less
  have ps: "0 < c_pageSize c" using less.prems(1) by (simp add: container_inv_def geometry_ok_def)
  show ?case
  proof (cases "p = []")
    case True
    then have "c' = c\<lparr>c_dirty := True\<rparr>" "r = None" using less.prems(7) by (auto simp: writeAt_loop.simps)
    moreover have "container_inv (c\<lparr>c_dirty := True\<rparr>) leak" "represents z (c\<lparr>c_dirty := True\<rparr>) f"
      using less.prems(1,5) by simp_all
    ultimately show ?thesis using less.prems True by (intro exI [of _ 0]) (simp add: grown_count_def)
  next
    case False
    define n where "n = min (c_pageSize c - cur mod c_pageSize c) (length p)"
    let ?q = "cur div c_pageSize c" and ?f = "put_bytes cur (take n p) f"
    let ?pg = "file_page (c_pageSize c) ?f ?q"
    have n: "0 < n" "n \<le> length p" "n \<le> c_pageSize c - cur mod c_pageSize c"
      using False ps by (auto simp: n_def)
    have room: "room c 256" using less.prems(2) False by (auto simp: room_def neq_Nil_conv)
    obtain r1 c1 where st: "storePage z ?q ?pg c = (r1, c1)" by fastforce
    have fr: "c_pageSize c1 = c_pageSize c \<and> c_pageCount c1 = c_pageCount c \<and>
        al_highWater (c_alloc c1) \<le> al_highWater (c_alloc c) + 256 \<and> readable c1 = readable c \<and>
        length (c_dir c1) \<le> max (length (c_dir c)) (Suc ?q) \<and> (r1 \<noteq> None \<longrightarrow> c_dir c1 = c_dir c)"
      using storePage_frame [OF less.prems(1) room less.prems(4) _ st] by simp
    show ?thesis
    proof (cases r1)
      case None
      let ?c = "c1\<lparr>c_pageCount := max (c_pageCount c1) (Suc ?q)\<rparr>"
      have st': "storePage z ?q ?pg c = (None, c1)" using st None by simp
      have i: "container_inv ?c leak" "represents z ?c ?f"
        using storePage_ok [OF less.prems(1) room less.prems(3,4) _ st']
          represents_store [OF less.prems(1) room less.prems(3,4,5) ps _ st'] n by auto
      have rm: "room ?c (256 * length (drop n p))"
        using fr less.prems(2) n(1,2) by (simp add: room_def diff_mult_distrib2) linarith
      have d: "length (drop n p) < length p" "length (c_dir ?c) \<le> c_pageCount ?c" "readable ?c"
        using n fr less.prems(3,6) by auto
      have lp: "writeAt_loop z (drop n p) (cur + n) ?c = (r, c')"
        using less.prems(7) writeAt_loop_step [OF less.prems(5) ps False, of cur] st None by (simp add: n_def)
      obtain k where k: "k \<le> length (drop n p)" "r = None \<longrightarrow> k = length (drop n p)" "container_inv c' leak"
        "represents z c' (put_bytes (cur + n) (take k (drop n p)) ?f)"
        "c_pageSize c' = c_pageSize ?c" "c_pageCount c' = grown_count ?c (cur + n) k"
        "length (c_dir c') \<le> c_pageCount c'" "readable c'"
        using less.hyps [OF d(1) i(1) rm d(3) less.prems(4) i(2) d(2) lp] by blast
      have "?q \<le> (cur + n + k - 1) div c_pageSize c" using n by (intro div_le_mono) simp
      then have "grown_count ?c (cur + n) k = grown_count c cur (n + k)"
        using fr n page_of_step [OF ps n(1,3)] by (auto simp: grown_count_def max_def add.assoc)
      then show ?thesis
        using k n fr by (intro exI [of _ "n + k"]) (auto simp: put_bytes_split)
    next
      case (Some e)
      then have "c' = c1" "r = Some e"
        using less.prems(7) writeAt_loop_step [OF less.prems(5) ps False, of cur] st by (auto simp: n_def)
      moreover have "container_inv c1 leak" "\<forall>q pg. page_is z c q pg \<longrightarrow> page_is z c1 q pg"
        using storePage_fails [OF less.prems(1) room less.prems(4), of ?pg ?q e c1] st Some by auto
      ultimately show ?thesis
        using Some fr less.prems(3,5,6)
        by (intro exI [of _ 0]) (simp add: grown_count_def represents_def)
    qed
  qed
qed

section \<open>Truncation\<close>

lemma round_up_pages: "0 < ps \<Longrightarrow> sz div ps + (if sz mod ps \<noteq> 0 then 1 else 0) = (sz + ps - 1) div (ps :: nat)"
proof (cases "sz mod ps = 0")
  assume ps: "0 < ps"
  {
    case True
    then have "sz = sz div ps * ps" by auto
    then have "sz + ps - 1 = sz div ps * ps + (ps - 1)" using ps by linarith
    then show ?thesis using ps True by (simp only: div_mult_self3) simp
  next
    case False
    moreover have "sz = sz div ps * ps + sz mod ps" "sz mod ps < ps" using ps by auto
    ultimately have "sz + ps - 1 = Suc (sz div ps) * ps + (sz mod ps - 1)" "sz mod ps - 1 < ps" by (simp, linarith)+
    then have "(sz + ps - 1) div ps = Suc (sz div ps)" using ps by (simp only: div_mult_self3) simp
    then show ?thesis using False by simp
  }
qed

lemma file_page_cut_below: "q < n \<Longrightarrow> file_page ps (cut_bytes (n * ps) f) q = file_page ps f q"
proof -
  assume "q < n"
  then have "Suc q * ps \<le> n * ps" by (intro mult_le_mono1) simp
  then show ?thesis by (simp add: file_page_def cut_bytes_def)
qed

lemma file_page_cut_above: "n \<le> q \<Longrightarrow> file_page ps (cut_bytes (n * ps) f) q = replicate ps 0"
proof -
  assume "n \<le> q"
  then have "n * ps \<le> q * ps" by (rule mult_le_mono1)
  then have "\<not> q * ps + i < n * ps" for i using trans_le_add1 not_less by blast
  then show ?thesis by (simp add: file_page_def cut_bytes_def map_replicate_const)
qed

lemma release_slots_fields [simp]:
  "c_dir (release_slots es c) = c_dir c" "c_alloc (release_slots es c) = c_alloc c" "c_back (release_slots es c) = c_back c"
  "c_blockSize (release_slots es c) = c_blockSize c" "c_pageSize (release_slots es c) = c_pageSize c"
  "c_cipher (release_slots es c) = c_cipher c" "c_authenticated (release_slots es c) = c_authenticated c"
  "c_segEntries (release_slots es c) = c_segEntries c" "c_segIndex (release_slots es c) = c_segIndex c"
  "c_committedDirOffset (release_slots es c) = c_committedDirOffset c"
  "c_committedDirBlocks (release_slots es c) = c_committedDirBlocks c"
  by (induction es arbitrary: c) (simp_all add: release_slots_def)

lemma release_slots_pending: "pending_bag (release_slots es c) = pending_bag c + dir_bag (c_blockSize c) es"
proof (induction es arbitrary: c)
  case Nil
  then show ?case by (simp add: release_slots_def dir_bag_def)
next
  case (Cons e es)
  let ?c = "if de_physOffset e \<noteq> 0 then releaseLater (de_physOffset e) (de_blocks e) c else c"
  have "pending_bag ?c = pending_bag c + entry_bag (c_blockSize c) e"
    by (simp add: pending_bag_def releaseLater_def entry_bag_def)
  moreover have "c_blockSize ?c = c_blockSize c" by simp
  moreover have "release_slots (e # es) c = release_slots es ?c" by (simp add: release_slots_def)
  ultimately show ?case using Cons.IH [of ?c] by (simp add: dir_bag_def add_ac)
qed

text \<open>Truncation keeps the bytes below the new size, which is rounded up to a whole page, and reads as
  zero above it; the slots of the dropped pages are kept until the next commit.\<close>

lemma container_truncate_correct:
  assumes "container_inv c leak" "represents z c f" "container_truncate sz c = (None, c')"
  defines "n \<equiv> (sz + c_pageSize c - 1) div c_pageSize c"
  shows "container_inv c' leak \<and> represents z c' (cut_bytes (n * c_pageSize c) f)
    \<and> c_pageCount c' = n \<and> length (c_dir c') \<le> n \<and> c_dirty c' \<and> held c' = held c \<and> c_back c' = c_back c
    \<and> c_blockSize c' = c_blockSize c"
proof -
  have ps: "0 < c_pageSize c" "c_pageSize c \<noteq> 0" using assms(1) by (auto simp: container_inv_def geometry_ok_def)
  have n: "sz div c_pageSize c + (if sz mod c_pageSize c \<noteq> 0 then 1 else 0) = n"
    unfolding n_def using ps(1) by (rule round_up_pages)
  let ?c = "(release_slots (drop n (c_dir c)) c)\<lparr>c_dir := take n (c_dir c)\<rparr>"
  obtain segs where c': "c' = ?c\<lparr>c_dirtySegs := segs, c_pageCount := n, c_dirty := True\<rparr>"
    using assms(3) ps(2) unfolding container_truncate_def Let_def n by (auto split: if_splits)
  have "dir_bag (c_blockSize c) (take n (c_dir c)) + dir_bag (c_blockSize c) (drop n (c_dir c)) = dir_bag (c_blockSize c) (c_dir c)"
    by (metis append_take_drop_id dir_bag_append)
  then have h: "held ?c = held c"
    using release_slots_pending [of "drop n (c_dir c)" c]
    by (simp add: held_def index_bag_def pending_bag_def)
  have "held c' = held ?c" unfolding c' by (rule same_store(1)) simp_all
  moreover have inv: "container_inv ?c leak"
    using assms(1) h by (auto simp: container_inv_def geometry_ok_def slot_wf_def dest!: in_set_takeD)
  moreover have "page_is z ?c q (file_page (c_pageSize c) (cut_bytes (n * c_pageSize c) f) q)" for q
  proof (cases "q < n")
    case True
    then have "loadPageInto z ?c dst q = loadPageInto z c dst q" for dst
      using load_stored_cong [of ?c c] by (simp add: loadPageInto_def Let_def min_def)
    then show ?thesis
      using assms(2) file_page_cut_below [OF True] by (simp add: represents_def page_is_def)
  next
    case False
    then show ?thesis using file_page_cut_above [of n q] by (simp add: page_is_def loadPageInto_def min_le_iff_disj not_less)
  qed
  then have "represents z ?c (cut_bytes (n * c_pageSize c) f)" by (simp add: represents_def)
  ultimately show ?thesis using h c' by simp
qed

section \<open>Progress\<close>

text \<open>On a store that does not fail, with compression off, every write succeeds.\<close>

definition no_faults :: "container \<Rightarrow> bool" where
  "no_faults c \<longleftrightarrow> (\<forall>n. bk_fail (c_back c) n = None) \<and> c_codec c = 0"

lemma storePage_succeeds:
  assumes "container_inv c leak" "room c 256" "codec_ok z" "length page = c_pageSize c" "no_faults c"
    and "storePage z p page c = (r, c')"
  shows "r = None \<and> no_faults c'"
  using assms(1-4,6)
proof (cases rule: storePage_cases)
  case (encode e)
  then show ?thesis using assms(5) by (simp add: encodePage_def no_faults_def)
next
  case (wrote stored verbatim nb blk al ext ck h bk)
  then have "r = None" "bk_fail bk = bk_fail (c_back c)" using assms(5) by (auto simp: WriteAt_def no_faults_def)
  then show ?thesis using wrote(11) assms(5) by (simp add: no_faults_def)
qed (use assms(5) in \<open>simp add: no_faults_def\<close>)

lemma writeAt_loop_succeeds:
  assumes "container_inv c leak" "room c (256 * length p)" "readable c" "codec_ok z" "represents z c f" "no_faults c"
    and "writeAt_loop z p cur c = (r, c')"
  shows "r = None"
  using assms
proof (induction "length p" arbitrary: p cur c f rule: less_induct)
  case less
  have ps: "0 < c_pageSize c" using less.prems(1) by (simp add: container_inv_def geometry_ok_def)
  show ?case
  proof (cases "p = []")
    case True
    then show ?thesis using less.prems(7) by (simp add: writeAt_loop.simps)
  next
    case False
    define n where "n = min (c_pageSize c - cur mod c_pageSize c) (length p)"
    let ?q = "cur div c_pageSize c" and ?f = "put_bytes cur (take n p) f"
    let ?pg = "file_page (c_pageSize c) ?f ?q"
    have n: "0 < n" "n \<le> length p" "n \<le> c_pageSize c - cur mod c_pageSize c" using False ps by (auto simp: n_def)
    have room: "room c 256" using less.prems(2) False by (auto simp: room_def neq_Nil_conv)
    obtain r1 c1 where st: "storePage z ?q ?pg c = (r1, c1)" by fastforce
    have ok: "r1 = None" "no_faults c1"
      using storePage_succeeds [OF less.prems(1) room less.prems(4) _ less.prems(6) st] by auto
    have st': "storePage z ?q ?pg c = (None, c1)" using st ok(1) by simp
    note fr = storePage_frame [OF less.prems(1) room less.prems(4) _ st, simplified]
    let ?c = "c1\<lparr>c_pageCount := max (c_pageCount c1) (Suc ?q)\<rparr>"
    have i: "container_inv ?c leak" "represents z ?c ?f"
      using storePage_ok [OF less.prems(1) room less.prems(3,4) _ st']
        represents_store [OF less.prems(1) room less.prems(3,4,5) ps _ st'] n by auto
    have rm: "room ?c (256 * length (drop n p))"
      using fr less.prems(2) n(1,2) by (simp add: room_def diff_mult_distrib2) linarith
    have d: "length (drop n p) < length p" "readable ?c" "no_faults ?c"
      using n fr less.prems(3) ok(2) by (auto simp: no_faults_def)
    have "writeAt_loop z (drop n p) (cur + n) ?c = (r, c')"
      using less.prems(7) writeAt_loop_step [OF less.prems(5) ps False, of cur] st' by (simp add: n_def)
    then show ?thesis using less.hyps [OF d(1) i(1) rm d(2) less.prems(4) i(2) d(3)] by blast
  qed
qed

section \<open>The container implements a byte file\<close>

lemma fresh_represents: "represents z freshContainer (\<lambda>_. 0)"
  using fresh_zero by (simp add: represents_def fresh_facts file_page_def map_replicate_const)

lemma fresh_write:
  assumes "256 * length p < 2 ^ 63" "writeAt storeOnly p off freshContainer = (r, c)"
  shows "container_inv c {#}" "represents storeOnly c (put_bytes off p (\<lambda>_. 0))" "length (c_dir c) \<le> c_pageCount c" "readable c"
proof -
  have rm: "room freshContainer (256 * length p)" using assms(1) by (rule fresh_facts(3))
  have w: "writeAt_loop storeOnly p off freshContainer = (r, c)" using assms(2) by (simp add: writeAt_def fresh_facts)
  have "no_faults freshContainer" by (simp add: no_faults_def fresh_facts emptyBacking_def)
  then have "r = None"
    by (rule writeAt_loop_succeeds [OF fresh_inv rm fresh_facts(1,2) fresh_represents _ w])
  then show "container_inv c {#}" "represents storeOnly c (put_bytes off p (\<lambda>_. 0))" "length (c_dir c) \<le> c_pageCount c" "readable c"
    using writeAt_loop_correct [OF fresh_inv rm fresh_facts(1,2) fresh_represents _ w] by (auto simp: fresh_facts)
qed

text \<open>C2: Writing. \<^verbatim>\<open>writeAt\<close> on a container that represents the bytes \<open>f\<close> is a write of a flat file: on
  success the bytes \<open>p\<close> are at \<open>off\<close> and nothing else changed; on an error a prefix of them is. The
  invariant is kept either way, the size grows to cover the written bytes in whole pages, and without
  faults the write succeeds.\<close>

theorem writeAt_refines_file:
  assumes "container_inv c leak" "room c (256 * length p)" "readable c" "codec_ok z" "represents z c f"
    and "length (c_dir c) \<le> c_pageCount c" "\<not> c_readOnlyRecipient c" "\<not> c_readOnly c"
    and "writeAt z p off c = (r, c')"
  shows "(\<exists>k\<le>length p. (r = None \<longrightarrow> k = length p) \<and> represents z c' (put_bytes off (take k p) f) \<and>
      c_pageCount c' = grown_count c off k) \<and>
    container_inv c' leak \<and> length (c_dir c') \<le> c_pageCount c' \<and> (no_faults c \<longrightarrow> r = None)"
proof -
  have w: "writeAt_loop z p off c = (r, c')" using assms(7-9) by (simp add: writeAt_def)
  show ?thesis
    using writeAt_loop_correct [OF assms(1-6) w] writeAt_loop_succeeds [OF assms(1-5) _ w] by auto
qed

theorem writeAt_refines_file_witness:
  "fst (writeAt storeOnly [7, 8, 9] 1022 freshContainer) = None \<and>
   represents storeOnly (snd (writeAt storeOnly [7, 8, 9] 1022 freshContainer)) (put_bytes 1022 [7, 8, 9] (\<lambda>_. 0)) \<and>
   container_inv (snd (writeAt storeOnly [7, 8, 9] 1022 freshContainer)) {#} \<and>
   c_pageCount (snd (writeAt storeOnly [7, 8, 9] 1022 freshContainer)) = 2"
proof -
  have "no_faults freshContainer" by (simp add: no_faults_def fresh_facts emptyBacking_def)
  then show ?thesis
    using writeAt_refines_file [OF fresh_inv _ fresh_facts(1,2) fresh_represents _ fresh_facts(9,8),
        of "[7, 8, 9]" 1022 "fst (writeAt storeOnly [7, 8, 9] 1022 freshContainer)"
          "snd (writeAt storeOnly [7, 8, 9] 1022 freshContainer)"]
    by (auto simp: fresh_facts grown_count_def)
qed

text \<open>Reading. \<^verbatim>\<open>readAt\<close> returns exactly the bytes of the represented file, stopping at its end, and
  reports \<^verbatim>\<open>io.EOF\<close> exactly when the request reaches past the end.\<close>

theorem readAt_refines_file:
  assumes "represents z c f" "0 < c_pageSize c"
  shows "readAt z c p off =
    (if p = [] \<or> off + length p \<le> container_size c then (None, map f [off..<off + length p])
     else (Some ErrEOF, map f [off..<container_size c]))"
  unfolding readAt_def by (rule readAt_loop_correct [OF assms])

theorem readAt_refines_file_witness:
  "readAt storeOnly freshContainer [1, 2] 0 = (Some ErrEOF, [])"
  using readAt_refines_file [OF fresh_represents, of storeOnly "[1, 2]" 0]
  by (simp add: fresh_facts container_size_def)

text \<open>C33: Truncation. The bytes below the new size, rounded up to a page, are kept, the rest reads as
  zero, and the freed slots stay reserved until the next commit.\<close>

theorem truncate_refines_file:
  assumes "container_inv c leak" "represents z c f" "container_truncate sz c = (None, c')"
  shows "container_inv c' leak \<and> held c' = held c \<and>
    c_pageCount c' = (sz + c_pageSize c - 1) div c_pageSize c \<and>
    represents z c' (cut_bytes ((sz + c_pageSize c - 1) div c_pageSize c * c_pageSize c) f)"
  using container_truncate_correct [OF assms] by simp

theorem truncate_refines_file_witness:
  "container_inv (snd (container_truncate 1500 freshContainer)) {#} \<and>
   c_pageCount (snd (container_truncate 1500 freshContainer)) = 2"
  using truncate_refines_file [OF fresh_inv fresh_represents, of 1500 "snd (container_truncate 1500 freshContainer)" storeOnly]
  by (simp add: fresh_facts container_truncate_def Let_def)

end
