(* ===== verification/Vault_Commit.thy ===== *)
theory Vault_Commit
  imports Vault_File
begin

text \<open>
  Commit: the directory is written out of place (only the dirty segments), the new extents and the
  superseded ones are accounted for, and a successful commit returns every superseded block to the
  free list while the file's contents stay what they were.
\<close>

section \<open>Metadata extents\<close>

definition meta_run :: "nat \<Rightarrow> metaExtent \<Rightarrow> nat multiset" where
  "meta_run bs m = (if me_blocks m = 0 then {#} else region (me_off m div bs) (me_off m div bs + me_blocks m))"

text \<open>What every successful or failing step of a commit keeps of a container.\<close>

definition same_frame :: "container \<Rightarrow> container \<Rightarrow> bool" where
  "same_frame c c' \<longleftrightarrow> c' = with_extent c (c_alloc c') (c_back c')"

lemma with_extent_idem [simp]: "with_extent (with_extent c al bk) al' bk' = with_extent c al' bk'"
  "with_extent c (c_alloc c) (c_back c) = c"
  by (simp_all add: with_extent_def)

lemma same_frame_with [simp]: "same_frame c (with_extent c al bk)"
  by (simp add: same_frame_def)

lemma same_frame_refl [simp]: "same_frame c c"
  by (simp add: same_frame_def)

lemma same_frame_trans: "same_frame c c' \<Longrightarrow> same_frame c' c'' \<Longrightarrow> same_frame c c''"
  by (metis same_frame_def with_extent_idem(1))

lemma blocksFor_nb:
  assumes "512 \<le> bs" "n + bs < 2 ^ 64"
  obtains nb where "blocksFor n bs = Inr nb" "n \<le> nb * bs" "nb \<le> n + 1" "n = 0 \<longleftrightarrow> nb = 0"
proof -
  have bs: "0 < bs" using assms(1) by simp
  obtain nb where nb: "blocksFor n bs = Inr nb" "n \<le> nb * bs" "nb * bs < n + bs"
    using blocksFor_ok [OF bs assms(2)] by blast
  have "nb \<le> n + 1"
  proof (rule ccontr)
    assume "\<not> nb \<le> n + 1"
    then have "(n + 2) * bs \<le> nb * bs" by (intro mult_le_mono1) simp
    moreover have "n \<le> n * bs" "(n + 2) * bs = n * bs + 2 * bs" using bs by (simp_all add: algebra_simps)
    ultimately show False using nb(3) bs by linarith
  qed
  moreover have "n = 0 \<longleftrightarrow> nb = 0" using nb(2,3) bs by (cases nb) auto
  ultimately show ?thesis using nb(1,2) that by blast
qed

text \<open>\<^verbatim>\<open>writeMetaExtent\<close> in terms of one allocated and written extent.\<close>

definition sealMeta :: "container \<Rightarrow> bytes \<Rightarrow> bool \<Rightarrow> nat \<Rightarrow> byte \<Rightarrow> nat \<Rightarrow> bytes" where
  "sealMeta c content withCanary tweak domain nb =
     (case c_cipher c of
        None \<Rightarrow> content @ replicate (nb * c_blockSize c - length content) 0
      | Some ci \<Rightarrow> (let plain = (if withCanary then dirCanary else []) @ content
                   in encrypt ci (plain @ replicate (nb * c_blockSize c - length plain) 0) tweak domain))"

lemma length_dirCanary [simp]: "length dirCanary = dirCanaryLen"
  by (simp add: dirCanary_def dirCanaryLen_def superblockMagic_def)

lemma writeMetaExtent_cases:
  assumes "container_inv c leak" "room c (length content + 18)" "length content < 2 ^ 62"
    and "writeMetaExtent content canary tweak domain c = (r, c')"
  obtains (none) "c_cipher c = None" "content = []" "r = Inr noMeta" "c' = c"
    | (wrote) nb blk al bk err buf where "0 < nb" "room c nb" "nb \<le> length content + 17"
        "alloc nb (c_alloc c) = Inr (blk, al)" "buf = sealMeta c content canary tweak domain nb"
        "length buf = nb * c_blockSize c" "c_cipher c = None \<Longrightarrow> content \<noteq> []"
        "length content + (if canary \<and> c_cipher c \<noteq> None then dirCanaryLen else 0) \<le> nb * c_blockSize c"
        "WriteAt buf (blk * c_blockSize c) (c_back c) = (err, bk)" "c' = with_extent c al bk"
        "r = (case err of Some e \<Rightarrow> Inl e
              | None \<Rightarrow> Inr \<lparr>me_off = blk * c_blockSize c, me_blocks = nb, me_storedLen = length content,
                  me_checksum = crc32c (if c_cipher c = None then content else buf),
                  me_hash = (if c_authenticated c \<and> c_cipher c \<noteq> None then sha256 buf else replicate dirHashLen 0)\<rparr>)"
proof -
  have geo: "512 \<le> c_blockSize c" "c_blockSize c \<le> 65536" "alloc_inv (c_alloc c)"
    "\<forall>ci. c_cipher c = Some ci \<longrightarrow> cipher_ok ci"
    using assms(1) by (auto simp: container_inv_def geometry_ok_def)
  have get: "\<exists>blk al. alloc nb (c_alloc c) = Inr (blk, al)" if "0 < nb" "nb \<le> length content + 18" for nb
    using vault_alloc.take_total [OF geo(3) that(1)] assms(2) that(2) by (auto simp: room_def)
  show ?thesis
  proof (cases "c_cipher c")
    case None
    show ?thesis
    proof (cases "content = []")
      case True
      then show ?thesis using None assms(4) by (intro none) (auto simp: writeMetaExtent_def)
    next
      case False
      obtain nb where nb: "blocksFor (length content) (c_blockSize c) = Inr nb" "length content \<le> nb * c_blockSize c"
        "nb \<le> length content + 1" "length content = 0 \<longleftrightarrow> nb = 0"
        using blocksFor_nb [OF geo(1), of "length content"] geo(2) assms(3) by auto
      obtain blk al where al: "alloc nb (c_alloc c) = Inr (blk, al)" using get [of nb] nb False by auto
      obtain err bk where w: "WriteAt (sealMeta c content canary tweak domain nb) (blk * c_blockSize c) (c_back c) = (err, bk)"
        by fastforce
      show ?thesis
        using nb al w False None assms(2,4)
        by (intro wrote [of nb blk al _ err bk])
          (auto simp: writeMetaExtent_def sealMeta_def with_extent_def room_def split: option.splits)
    qed
  next
    case (Some ci)
    let ?len = "length (if canary then dirCanary else []) + length content"
    have len: "?len + c_blockSize c < 2 ^ 64" using geo(2) assms(3) by (simp add: dirCanaryLen_def)
    obtain n where n: "blocksFor ?len (c_blockSize c) = Inr n" "?len \<le> n * c_blockSize c" "n \<le> ?len + 1" "?len = 0 \<longleftrightarrow> n = 0"
      using blocksFor_nb [OF geo(1) len] by blast
    define nb where "nb = (if n = 0 then 1 else n)"
    have nb: "0 < nb" "nb \<le> length content + 17" "?len \<le> nb * c_blockSize c"
      using n by (auto simp: nb_def dirCanaryLen_def split: if_splits)
    obtain blk al where al: "alloc nb (c_alloc c) = Inr (blk, al)" using get [of nb] nb by auto
    obtain err bk where w: "WriteAt (sealMeta c content canary tweak domain nb) (blk * c_blockSize c) (c_back c) = (err, bk)"
      by fastforce
    have ci: "length (encrypt ci b t d) = length b" for b t d using geo(4) Some by (auto simp: cipher_ok_def)
    show ?thesis
    proof (rule wrote [OF nb(1) _ nb(2) al refl _ _ _ w])
      show "room c nb" using assms(2) nb(2) by (auto simp: room_def)
      show "length (sealMeta c content canary tweak domain nb) = nb * c_blockSize c"
        using nb(3) Some by (auto simp: sealMeta_def ci)
      show "c' = with_extent c al bk"
        "r = (case err of Some e \<Rightarrow> Inl e
              | None \<Rightarrow> Inr \<lparr>me_off = blk * c_blockSize c, me_blocks = nb, me_storedLen = length content,
                  me_checksum = crc32c (if c_cipher c = None then content else sealMeta c content canary tweak domain nb),
                  me_hash = (if c_authenticated c \<and> c_cipher c \<noteq> None then sha256 (sealMeta c content canary tweak domain nb)
                    else replicate dirHashLen 0)\<rparr>)"
        using assms(4) Some n(1) al w nb_def
        by (auto simp: writeMetaExtent_def sealMeta_def with_extent_def Let_def split: option.splits if_splits)
    qed (use nb Some in auto)
  qed
qed

text \<open>Writing a metadata extent changes no page and takes its run from the free space.\<close>

definition pages_kept :: "container \<Rightarrow> container \<Rightarrow> bool" where
  "pages_kept c c' \<longleftrightarrow> c_pageSize c' = c_pageSize c \<and> readable c' = readable c \<and>
     (\<forall>z dst q. loadPageInto z c' dst q = loadPageInto z c dst q)"

lemma pages_kept_refl [simp]: "pages_kept c c"
  by (simp add: pages_kept_def)

lemma pages_kept_trans: "pages_kept c c' \<Longrightarrow> pages_kept c' c'' \<Longrightarrow> pages_kept c c''"
  by (simp add: pages_kept_def)

lemma pages_kept_represents: "pages_kept c c' \<Longrightarrow> represents z c' f = represents z c f"
  by (simp add: pages_kept_def represents_def page_is_def)

lemma with_extent_readable: "WriteAt src off (c_back c) = (r, bk) \<Longrightarrow> readable (with_extent c al bk) = readable c"
  by (auto simp: readable_def elim: WriteAt_any)

lemma writeMetaExtent_step:
  assumes "container_inv c leak" "room c (length content + 18)" "length content < 2 ^ 62"
    and "writeMetaExtent content canary tweak domain c = (r, c')"
  shows "same_frame c c' \<and> pages_kept c c'
    \<and> al_highWater (c_alloc c') \<le> al_highWater (c_alloc c) + length content + 17
    \<and> (case r of
        Inr m \<Rightarrow> container_inv c' (leak + meta_run (c_blockSize c) m) \<and> c_blockSize c dvd me_off m
          \<and> (if me_blocks m = 0 then me_off m = 0 else 0 < me_off m)
      | Inl e \<Rightarrow> container_inv c' leak)"
  using assms
proof (cases rule: writeMetaExtent_cases)
  case none
  then show ?thesis using assms(1) by (simp add: meta_run_def noMeta_def)
next
  case (wrote nb blk al bk err buf)
  have bs: "0 < c_blockSize c" using assms(1) by (simp add: container_inv_def geometry_ok_def)
  note inv = extent_inv [OF assms(1) wrote(1,2,4,9)]
  have "pages_kept c c'"
    using extent_load [OF assms(1) wrote(1,2,4,9,6)] with_extent_readable [OF wrote(9)] wrote(10)
    by (simp add: pages_kept_def)
  moreover have "meta_run (c_blockSize c) m = region blk (blk + nb)" if "r = Inr m" for m
    using that wrote(1,11) bs by (auto simp: meta_run_def split: option.splits)
  ultimately show ?thesis
    using inv(1,2,4) wrote(1,3,10,11) bs by (cases err) (auto simp: superblockBlocks_def intro: container_inv_less)
qed

section \<open>The segments\<close>

lemma segs_bag_append [simp]: "segs_bag bs (xs @ ys) = segs_bag bs xs + segs_bag bs ys"
  by (simp add: segs_bag_def)

lemma segs_bag_single [simp]: "segs_bag bs [d] = seg_bag bs d"
  by (simp add: segs_bag_def)

lemma segs_bag_Nil [simp]: "segs_bag bs [] = {#}"
  by (simp add: segs_bag_def)

text \<open>The committed descriptor of a segment, if there is one.\<close>

definition old_segs :: "segDesc list \<Rightarrow> nat list \<Rightarrow> segDesc list" where
  "old_segs idx ss = concat (map (\<lambda>s. if s < length idx then [idx ! s] else []) ss)"

lemma segs_bag_superseded: "segs_bag bs (superseded idx s) = segs_bag bs (old_segs idx [s])"
  by (auto simp: superseded_def old_segs_def seg_bag_def)

lemma old_segs_Cons: "old_segs idx (s # ss) = old_segs idx [s] @ old_segs idx ss"
  by (simp add: old_segs_def)

lemma old_segs_append: "old_segs idx (xs @ ys) = old_segs idx xs @ old_segs idx ys"
  by (simp add: old_segs_def)

lemma segs_bag_all_superseded: "segs_bag bs (concat (map (superseded idx) ss)) = segs_bag bs (old_segs idx ss)"
  by (induction ss) (simp_all add: old_segs_Cons [of idx _ "_ # _"] segs_bag_superseded, simp_all add: old_segs_def segs_bag_superseded)

lemma old_segs_all: "old_segs idx [0..<length idx] = idx"
proof -
  have "map (\<lambda>s. if s < length idx then [idx ! s] else []) [0..<length idx] = map (\<lambda>s. [idx ! s]) [0..<length idx]"
    by simp
  then have "old_segs idx [0..<length idx] = concat (map (\<lambda>s. [idx ! s]) [0..<length idx])"
    unfolding old_segs_def by (rule arg_cong)
  also have "\<dots> = map (\<lambda>s. idx ! s) [0..<length idx]" by simp
  also have "\<dots> = idx" by (rule map_nth)
  finally show ?thesis .
qed

lemma old_segs_beyond: "length idx \<le> n \<Longrightarrow> old_segs idx [n..<m] = []"
  by (auto simp: old_segs_def)

text \<open>An upper bound on the blocks a segment, and a whole commit, can take.\<close>

definition seg_budget :: "container \<Rightarrow> nat" where
  "seg_budget c = 64 * c_segEntries c + 18"

definition commit_budget :: "container \<Rightarrow> nat" where
  "commit_budget c = segmentCount (c_pageCount c) (c_segEntries c) * (seg_budget c + 64) + 18"

lemma length_marshalDirectory_any: "length (marshalDirectory es auth) = length es * dirEntryBytes auth"
  by (induction es) (simp_all add: marshalDirectory_def de_marshalInto_def Let_def)

lemma length_marshalSegmentIndex_any: "length (marshalSegmentIndex ds) = length ds * segDescSize"
  by (induction ds) (simp_all add: marshalSegmentIndex_def sd_marshalInto_def Let_def)

lemma segment_content_bound:
  assumes "segmentBounds s (c_segEntries c) (c_pageCount c) = (lo, hi)"
  shows "length (marshalDirectory (bslice lo hi (c_dir c)) auth) \<le> 64 * c_segEntries c"
proof -
  have "add64 lo (c_segEntries c) - lo \<le> c_segEntries c" by (simp add: add64_def le_diff_conv add.commute)
  then have "hi - lo \<le> c_segEntries c" using assms by (auto simp: segmentBounds_def Let_def)
  then have "length (bslice lo hi (c_dir c)) \<le> c_segEntries c" by simp
  moreover have "dirEntryBytes auth \<le> 64" by (simp add: dirEntryBytes_def layout_defs)
  ultimately show ?thesis
    unfolding length_marshalDirectory_any by (metis mult.commute mult_le_mono)
qed

definition seg_of :: "metaExtent \<Rightarrow> segDesc" where
  "seg_of m = \<lparr>sd_physOffset = me_off m, sd_storedLen = me_storedLen m, sd_blocks = me_blocks m,
     sd_checksum = me_checksum m, sd_hash = take slotHashLen (me_hash m)\<rparr>"

lemma same_frame_fields:
  assumes "same_frame c c'"
  shows "c_blockSize c' = c_blockSize c" "c_segEntries c' = c_segEntries c" "c_pageCount c' = c_pageCount c"
    "c_dir c' = c_dir c" "c_segIndex c' = c_segIndex c" "held c' = held c" "c_pageSize c' = c_pageSize c"
    "c_authenticated c' = c_authenticated c" "c_cipher c' = c_cipher c" "c_dirtySegs c' = c_dirtySegs c"
    "c_nextSlot c' = c_nextSlot c" "c_committedGen c' = c_committedGen c" "c_pendingRelease c' = c_pendingRelease c"
    "c_committedDirOffset c' = c_committedDirOffset c" "c_committedDirBlocks c' = c_committedDirBlocks c"
proof -
  obtain al bk where "c' = with_extent c al bk" using assms same_frame_def by blast
  then show "c_blockSize c' = c_blockSize c" "c_segEntries c' = c_segEntries c" "c_pageCount c' = c_pageCount c"
    "c_dir c' = c_dir c" "c_segIndex c' = c_segIndex c" "held c' = held c" "c_pageSize c' = c_pageSize c"
    "c_authenticated c' = c_authenticated c" "c_cipher c' = c_cipher c" "c_dirtySegs c' = c_dirtySegs c"
    "c_nextSlot c' = c_nextSlot c" "c_committedGen c' = c_committedGen c" "c_pendingRelease c' = c_pendingRelease c"
    "c_committedDirOffset c' = c_committedDirOffset c" "c_committedDirBlocks c' = c_committedDirBlocks c"
    by simp_all
qed

lemma write_segments_step:
  assumes "container_inv c leak" "room c (length ss * seg_budget c)" "write_segments idx ss newSegs released c = (r, c')"
  shows "same_frame c c' \<and> pages_kept c c' \<and> al_highWater (c_alloc c') \<le> al_highWater (c_alloc c) + length ss * seg_budget c
    \<and> (case r of
        Inr (ns, rel) \<Rightarrow> \<exists>W. container_inv c' (leak + W) \<and> length ns = length newSegs + length ss \<and>
          segs_bag (c_blockSize c) ns + segs_bag (c_blockSize c) rel =
            segs_bag (c_blockSize c) newSegs + segs_bag (c_blockSize c) released
            + segs_bag (c_blockSize c) (old_segs idx ss) + W
      | Inl e \<Rightarrow> container_inv c' leak)"
  using assms
proof (induction ss arbitrary: newSegs released c leak)
  case Nil
  then show ?case by (auto simp: old_segs_def intro!: exI [of _ "{#}"])
next
  case (Cons s ss)
  let ?bs = "c_blockSize c"
  have room: "room c (length ss * seg_budget c)" "room c (seg_budget c)" using Cons.prems(2) by (auto simp: room_def)
  obtain lo hi where b: "segmentBounds s (c_segEntries c) (c_pageCount c) = (lo, hi)" by fastforce
  let ?es = "bslice lo hi (c_dir c)"
  consider (clean) "s \<notin> c_dirtySegs c \<and> s < length idx" | (sparse) "\<not> (s \<notin> c_dirtySegs c \<and> s < length idx)" "allSparse ?es"
    | (dirty) "\<not> (s \<notin> c_dirtySegs c \<and> s < length idx)" "\<not> allSparse ?es" by blast
  then show ?case
  proof cases
    case clean
    then have "write_segments idx ss (newSegs @ [idx ! s]) released c = (r, c')" using Cons.prems(3) by simp
    moreover have "old_segs idx (s # ss) = idx ! s # old_segs idx ss" using clean by (simp add: old_segs_def)
    ultimately show ?thesis
      using Cons.IH [OF Cons.prems(1) room(1)] by (fastforce simp: segs_bag_def add_ac split: sum.splits)
  next
    case sparse
    then have "write_segments idx ss (newSegs @ [emptySeg]) (released @ superseded idx s) c = (r, c')"
      using Cons.prems(3) b by (auto split: if_splits)
    then show ?thesis
      using Cons.IH [OF Cons.prems(1) room(1)] old_segs_Cons [of idx s ss]
      by (fastforce simp: segs_bag_superseded add_ac split: sum.splits)
  next
    case dirty
    let ?content = "marshalDirectory ?es (c_authenticated c)"
    have len: "length ?content \<le> 64 * c_segEntries c" by (rule segment_content_bound [OF b])
    moreover have "c_segEntries c < 2 ^ 32" using Cons.prems(1) by (simp add: container_inv_def geometry_ok_def)
    ultimately have len': "length ?content < 2 ^ 62" "room c (length ?content + 18)"
      using room(2) by (auto simp: room_def seg_budget_def)
    obtain r1 c1 where w: "writeMetaExtent ?content False s domainDirectory c = (r1, c1)" by fastforce
    note st = writeMetaExtent_step [OF Cons.prems(1) len'(2,1) w]
    show ?thesis
    proof (cases r1)
      case (Inl e)
      then have "r = Inl e" "c' = c1" using Cons.prems(3) dirty b w by (auto split: if_splits)
      then show ?thesis using st Inl len by (auto simp: seg_budget_def)
    next
      case (Inr m)
      let ?d = "seg_of m"
      have nx: "write_segments idx ss (newSegs @ [?d]) (released @ superseded idx s) c1 = (r, c')"
        using Cons.prems(3) dirty b w Inr by (auto simp: seg_of_def split: if_splits)
      have fr: "c_blockSize c1 = ?bs" "seg_budget c1 = seg_budget c" "seg_bag ?bs ?d = meta_run ?bs m"
        using st Inr same_frame_fields [of c c1]
        by (auto simp: seg_budget_def seg_bag_def seg_of_def meta_run_def split: if_splits)
      have inv: "container_inv c1 (leak + meta_run ?bs m)" and rm: "room c1 (length ss * seg_budget c1)"
        using st Inr Cons.prems(2) len fr(2) by (auto simp: room_def seg_budget_def)
      have "same_frame c c1 \<and> pages_kept c c1 \<and> al_highWater (c_alloc c1) \<le> al_highWater (c_alloc c) + seg_budget c"
        using st len by (auto simp: seg_budget_def)
      moreover note Cons.IH [OF inv rm nx]
      moreover have "segs_bag ?bs (old_segs idx (s # ss)) = segs_bag ?bs (superseded idx s) + segs_bag ?bs (old_segs idx ss)"
        using old_segs_Cons [of idx s ss] by (simp add: segs_bag_superseded)
      ultimately show ?thesis
        using fr same_frame_trans [of c c1 c'] pages_kept_trans [of c c1 c']
        by (cases r) (auto simp: add_ac intro: container_inv_less)
    qed
  qed
qed

section \<open>The directory\<close>

text \<open>Padding the directory with sparse entries changes nothing a reader sees.\<close>

lemma padDir_fields [simp]:
  "c_alloc (padDir c) = c_alloc c" "c_back (padDir c) = c_back c" "c_blockSize (padDir c) = c_blockSize c"
  "c_pageSize (padDir c) = c_pageSize c" "c_pageCount (padDir c) = c_pageCount c" "c_segEntries (padDir c) = c_segEntries c"
  "c_segIndex (padDir c) = c_segIndex c" "c_cipher (padDir c) = c_cipher c" "c_authenticated (padDir c) = c_authenticated c"
  "c_dirtySegs (padDir c) = c_dirtySegs c" "c_pendingRelease (padDir c) = c_pendingRelease c"
  "c_committedDirOffset (padDir c) = c_committedDirOffset c" "c_committedDirBlocks (padDir c) = c_committedDirBlocks c"
  "c_committedGen (padDir c) = c_committedGen c" "c_nextSlot (padDir c) = c_nextSlot c"
  by (simp_all add: padDir_def)

lemma padDir_length [simp]: "length (c_dir (padDir c)) = max (length (c_dir c)) (c_pageCount c)"
  by (simp add: padDir_def)

lemma padDir_held [simp]: "held (padDir c) = held c"
  by (simp add: padDir_def held_def index_bag_def pending_bag_def)

lemma padDir_inv: "container_inv (padDir c) leak = container_inv c leak"
proof -
  have "slot_wf (padDir c) = slot_wf c" by (intro ext) (simp add: slot_wf_def)
  moreover have "slot_wf c sparseEntry" by (simp add: slot_wf_def sparseEntry_def)
  moreover have "c_dir (padDir c) = c_dir c @ replicate (c_pageCount c - length (c_dir c)) sparseEntry"
    by (simp add: padDir_def)
  ultimately show ?thesis by (auto simp: container_inv_def geometry_ok_def)
qed

lemma padDir_pages: "pages_kept c (padDir c)"
  using load_stored_cong [of "padDir c" c]
  by (auto simp: pages_kept_def loadPageInto_def readable_def padDir_def nth_append sparseEntry_def Let_def)

lemma segmentCount_le: "0 < se \<Longrightarrow> pc + se < 2 ^ 64 \<Longrightarrow> segmentCount pc se \<le> pc"
  using segmentCount_covers [of se pc pc] by (metis linorder_not_less mult.right_neutral mult_le_mono2 Suc_leI One_nat_def not_le)

text \<open>Exchanging the segment index: what the new descriptors and the released ones hold is what the old
  ones held and what was written.\<close>

lemma segIndex_held:
  assumes "segs_bag (c_blockSize c) ns + R = segs_bag (c_blockSize c) (c_segIndex c) + W"
  shows "held (c\<lparr>c_segIndex := ns\<rparr>) + R = held c + W"
  using assms by (simp add: held_def index_bag_def pending_bag_def)

lemma segIndex_inv:
  assumes "container_inv c (leak + W + M)"
    and "segs_bag (c_blockSize c) ns + R = segs_bag (c_blockSize c) (c_segIndex c) + W"
  shows "container_inv (c\<lparr>c_segIndex := ns\<rparr>) (leak + R + M)"
proof -
  let ?c = "c\<lparr>c_segIndex := ns\<rparr>"
  have eq: "held ?c + (leak + R + M) = held c + (leak + W + M)"
    using segIndex_held [OF assms(2)] by simp
  have wf: "slot_wf ?c = slot_wf c" by (intro ext) (simp add: slot_wf_def)
  show ?thesis
    using assms(1) unfolding container_inv_def by (subst eq) (simp add: geometry_ok_def wf)
qed

lemma pages_kept_index: "pages_kept c (c\<lparr>c_segIndex := ns, c_dirtySegs := ds\<rparr>)"
  using load_stored_cong [of "c\<lparr>c_segIndex := ns, c_dirtySegs := ds\<rparr>" c]
  by (simp add: pages_kept_def loadPageInto_def readable_def Let_def)

lemma old_segs_bag:
  "segs_bag bs (old_segs idx [0..<n]) + segs_bag bs (old_segs idx [n..<length idx]) = segs_bag bs idx"
proof (cases "n \<le> length idx")
  case True
  then show ?thesis using old_segs_all [of idx] upt_split [of 0 n "length idx"] old_segs_append [of idx "[0..<n]" "[n..<length idx]"]
    by (metis segs_bag_append zero_le)
next
  case False
  then have "old_segs idx [0..<n] = old_segs idx [0..<length idx] @ old_segs idx [length idx..<n]"
    using upt_split [of 0 "length idx" n] old_segs_append by (metis nat_le_linear zero_le)
  then show ?thesis using False by (simp add: old_segs_all old_segs_beyond) (simp add: old_segs_def)
qed

lemma bag_shuffle: "a + b = c + w \<Longrightarrow> c + d = e \<Longrightarrow> a + (b + d) = e + (w :: nat multiset)"
proof -
  assume "a + b = c + w" "c + d = e"
  then have "a + (b + d) = c + w + d" by (simp flip: add.assoc)
  also have "\<dots> = (c + d) + w" by (simp add: add_ac)
  finally show ?thesis using \<open>c + d = e\<close> by simp
qed

definition dir_frame :: "container \<Rightarrow> container \<Rightarrow> bool" where
  "dir_frame c c' \<longleftrightarrow> c_blockSize c' = c_blockSize c \<and> c_pageSize c' = c_pageSize c \<and> c_pageCount c' = c_pageCount c
     \<and> c_nextSlot c' = c_nextSlot c \<and> c_committedGen c' = c_committedGen c \<and> c_segEntries c' = c_segEntries c
     \<and> length (c_dir c') = max (length (c_dir c)) (c_pageCount c)"

text \<open>A written directory: the superseded segments and the new index extent are both still reserved,
  next to everything the state references.\<close>

lemma writeDirectory_step:
  assumes "container_inv c leak" "room c (commit_budget c)" "c_pageCount c < 2 ^ 54" "writeDirectory c = (r, c')"
  shows "pages_kept c c' \<and> dir_frame c c' \<and>
    (case r of
       Inr (m, rel) \<Rightarrow> container_inv c' (leak + segs_bag (c_blockSize c) rel + meta_run (c_blockSize c) m)
         \<and> held c \<subseteq># held c' + segs_bag (c_blockSize c) rel
     | Inl e \<Rightarrow> container_inv c' leak \<and> held c' = held c)"
proof -
  let ?c = "padDir c" and ?bs = "c_blockSize c" and ?n = "segmentCount (c_pageCount c) (c_segEntries c)"
  let ?idx = "c_segIndex c"
  have inv: "container_inv ?c leak" and k0: "pages_kept c ?c" using assms(1) padDir_inv padDir_pages by auto
  have geo: "0 < c_segEntries c" "c_segEntries c < 2 ^ 32" using assms(1) by (auto simp: container_inv_def geometry_ok_def)
  have n: "?n \<le> c_pageCount c" using geo assms(3) by (intro segmentCount_le) auto
  show ?thesis
  proof (cases "?n = 0 \<and> c_cipher c = None")
    case True
    let ?rel = "concat (map (superseded ?idx) [0..<length ?idx])"
    have r: "r = Inr (noMeta, ?rel)" "c' = ?c\<lparr>c_segIndex := [], c_dirtySegs := {}\<rparr>"
      using True assms(4) by (auto simp: writeDirectory_def Let_def)
    have "container_inv (?c\<lparr>c_segIndex := []\<rparr>) (leak + segs_bag ?bs ?rel + {#})"
      using inv by (intro segIndex_inv [where W = "{#}"]) (simp_all add: segs_bag_all_superseded old_segs_all)
    then have "container_inv c' (leak + segs_bag ?bs ?rel)"
      unfolding r(2) by (subst same_store(2) [of _ "?c\<lparr>c_segIndex := []\<rparr>"]) simp_all
    moreover have "held c' + segs_bag ?bs ?rel = held c"
      using segIndex_held [of ?c "[]" "segs_bag ?bs ?rel" "{#}"] same_store(1) [of c' "?c\<lparr>c_segIndex := []\<rparr>"] r(2)
      by (simp add: segs_bag_all_superseded old_segs_all)
    moreover have "pages_kept c c'"
      using pages_kept_trans [OF k0 pages_kept_index [where ns = "[]" and ds = "{}"]] by (simp add: r(2))
    ultimately show ?thesis
      using r by (auto simp: meta_run_def noMeta_def dir_frame_def)
  next
    case False
    obtain r1 c1 where ws: "write_segments ?idx [0..<?n] [] [] ?c = (r1, c1)" by fastforce
    have "room ?c (length [0..<?n] * seg_budget ?c)"
      using assms(2) by (simp add: room_def commit_budget_def seg_budget_def algebra_simps)
    note st = write_segments_step [OF inv this ws]
    then have fr: "c_blockSize c1 = ?bs" "dir_frame c c1" "c_segIndex c1 = ?idx" "pages_kept c c1" "held c1 = held c"
      using same_frame_fields [of ?c c1] pages_kept_trans [OF k0]
      by (auto simp: dir_frame_def)
    show ?thesis
    proof (cases r1)
      case (Inl e)
      then have "r = Inl e" "c' = c1" using assms(4) False ws by (auto simp: writeDirectory_def Let_def)
      then show ?thesis using st fr Inl by simp
    next
      case (Inr nr)
      obtain ns rel where nr: "nr = (ns, rel)" by fastforce
      obtain W where W: "container_inv c1 (leak + W)" "length ns = ?n"
        "segs_bag ?bs ns + segs_bag ?bs rel = segs_bag ?bs (old_segs ?idx [0..<?n]) + W"
        using st Inr nr by auto
      let ?ix = "marshalSegmentIndex ns"
      have len: "length ?ix \<le> 64 * ?n" using W(2) by (simp add: length_marshalSegmentIndex_any layout_defs)
      have rm: "room c1 (length ?ix + 18)" "length ?ix < 2 ^ 62"
        using st assms(2,3) len n by (auto simp: room_def commit_budget_def seg_budget_def algebra_simps)
      obtain r2 c2 where wm: "writeMetaExtent ?ix True 0 domainSegIndex c1 = (r2, c2)" by fastforce
      note sm = writeMetaExtent_step [OF W(1) rm wm]
      have fr2: "c_blockSize c2 = ?bs" "dir_frame c c2" "c_segIndex c2 = ?idx" "pages_kept c c2" "held c2 = held c"
        using sm same_frame_fields [of c1 c2] fr pages_kept_trans [of c c1 c2] by (auto simp: dir_frame_def)
      show ?thesis
      proof (cases r2)
        case (Inl e)
        then have "r = Inl e" "c' = c2"
          using assms(4) False ws wm Inr nr \<open>r1 = Inr nr\<close> by (auto simp: writeDirectory_def Let_def)
        then show ?thesis using sm fr2 Inl container_inv_less by auto
      next
        case (Inr m)
        let ?rel = "rel @ concat (map (superseded ?idx) [?n..<length ?idx])"
        have r: "r = Inr (m, ?rel)" "c' = c2\<lparr>c_segIndex := ns\<rparr>"
          using assms(4) False ws wm Inr nr \<open>r1 = Inr nr\<close> by (auto simp: writeDirectory_def Let_def)
        have sb: "segs_bag ?bs ns + segs_bag ?bs ?rel = segs_bag ?bs ?idx + W"
          using bag_shuffle [OF W(3) old_segs_bag] by (simp add: segs_bag_all_superseded)
        have "held c' + segs_bag ?bs ?rel = held c + W"
          using segIndex_held [of c2 ns "segs_bag ?bs ?rel" W] sb fr2 r(2) by simp
        then have "held c \<subseteq># held c' + segs_bag ?bs ?rel" by simp
        moreover have "container_inv c' (leak + segs_bag ?bs ?rel + meta_run ?bs m)"
          unfolding r(2) using sm Inr fr fr2(1,3) sb by (intro segIndex_inv [where W = W]) simp_all
        ultimately show ?thesis
          using r fr2 pages_kept_trans [OF fr2(4) pages_kept_index [where ns = ns and ds = "c_dirtySegs c2"]] by (simp add: dir_frame_def)
      qed
    qed
  qed
qed

section \<open>Commit\<close>

text \<open>A superblock write stays inside the two superblock blocks, so it changes no slot.\<close>

lemma held_block_bound:
  assumes "container_inv c leak" "q < length (c_dir c)" "de_physOffset (c_dir c ! q) \<noteq> 0"
  shows "2 * c_blockSize c \<le> de_physOffset (c_dir c ! q)"
proof -
  let ?e = "c_dir c ! q" and ?bs = "c_blockSize c"
  have wf: "?bs dvd de_physOffset ?e" "0 < de_blocks ?e"
    using assms by (auto simp: container_inv_def slot_wf_def)
  have "held c \<subseteq># region superblockBlocks (al_highWater (c_alloc c))"
    using assms(1) by (auto simp: container_inv_def intro: subset_mset.order_trans [rotated] mset_subset_eq_add_left)
  then have "region (de_physOffset ?e div ?bs) (de_physOffset ?e div ?bs + de_blocks ?e)
      \<subseteq># region superblockBlocks (al_highWater (c_alloc c))"
    using slot_in_held [OF assms(2,3)] subset_mset.order_trans by blast
  then have "de_physOffset ?e div ?bs \<in># region superblockBlocks (al_highWater (c_alloc c))"
    using wf(2) by (auto dest: mset_subset_eqD)
  then have "2 \<le> de_physOffset ?e div ?bs" by (simp add: superblockBlocks_def)
  then have "2 * ?bs \<le> de_physOffset ?e div ?bs * ?bs" by (rule mult_le_mono1)
  then show ?thesis using wf(1) by simp
qed

lemma back_step:
  assumes "container_inv c leak" "length (bk_data (c_back c)) \<le> length (bk_data bk)"
    and "\<And>i n. 2 * c_blockSize c \<le> i \<Longrightarrow> i + n \<le> length (bk_data (c_back c)) \<Longrightarrow> ReadAt n i bk = ReadAt n i (c_back c)"
    and "bk_rfail bk = bk_rfail (c_back c)"
  shows "container_inv (c\<lparr>c_back := bk\<rparr>) leak \<and> pages_kept c (c\<lparr>c_back := bk\<rparr>)"
proof -
  let ?c = "c\<lparr>c_back := bk\<rparr>"
  have h: "held ?c = held c" by (simp add: held_def index_bag_def pending_bag_def)
  have "slot_wf ?c e" if "slot_wf c e" for e using that assms(2) by (auto simp: slot_wf_def)
  then have "container_inv ?c leak" using assms(1) by (auto simp: container_inv_def geometry_ok_def h)
  moreover have "loadPageInto z ?c dst q = loadPageInto z c dst q" for z dst q
  proof (cases "q < length (c_dir c) \<and> de_physOffset (c_dir c ! q) \<noteq> 0")
    case True
    let ?e = "c_dir c ! q"
    have wf: "de_storedLen ?e \<le> de_blocks ?e * c_blockSize c"
      "de_physOffset ?e + de_blocks ?e * c_blockSize c \<le> length (bk_data (c_back c))"
      using assms(1) True by (auto simp: container_inv_def slot_wf_def)
    have "load_stored ?c q ?e = load_stored c q ?e"
      using wf assms(3) held_block_bound [of c leak q] assms(1) True by (intro load_stored_cong) simp_all
    then show ?thesis by (simp add: loadPageInto_def Let_def)
  qed (auto simp: loadPageInto_def)
  ultimately show ?thesis using assms(4) by (simp add: pages_kept_def readable_def)
qed

lemma sync_step:
  assumes "container_inv c leak" "Sync (c_back c) = (r, bk)"
  shows "container_inv (c\<lparr>c_back := bk\<rparr>) leak \<and> pages_kept c (c\<lparr>c_back := bk\<rparr>)"
  using assms(1) by (rule back_step) (use Sync_data [OF assms(2)] in \<open>simp_all add: ReadAt_def\<close>)

lemma superblock_step:
  assumes "container_inv c leak" "WriteAt (sb_marshal sb) (slot * c_blockSize c) (c_back c) = (r, bk)" "slot \<le> 1"
  shows "container_inv (c\<lparr>c_back := bk\<rparr>) leak \<and> pages_kept c (c\<lparr>c_back := bk\<rparr>)"
  using assms(1)
proof (rule back_step)
  have bs: "superblockSize \<le> c_blockSize c" using assms(1) by (simp add: container_inv_def geometry_ok_def layout_defs)
  have "slot * c_blockSize c \<le> 1 * c_blockSize c" using assms(3) by (rule mult_le_mono1)
  then have "slot * c_blockSize c + superblockSize \<le> 2 * c_blockSize c" using bs by linarith
  then show "ReadAt n i bk = ReadAt n i (c_back c)"
    if "2 * c_blockSize c \<le> i" "i + n \<le> length (bk_data (c_back c))" for i n
    using that by (intro file_store.rd_other [OF assms(2)]) auto
qed (use file_store.wr_grows [OF assms(2)] WriteAt_any [OF assms(2)] in auto)

text \<open>Scheduling the superseded extents, then releasing everything that is pending.\<close>

definition release_segs :: "segDesc list \<Rightarrow> container \<Rightarrow> container" where
  "release_segs ds c =
     foldl (\<lambda>c d. if sd_physOffset d \<noteq> 0 then releaseLater (sd_physOffset d) (sd_blocks d) c else c) c ds"

lemma release_segs_eq:
  "release_segs ds c = c\<lparr>c_pendingRelease := c_pendingRelease c @
     map (\<lambda>d. \<lparr>ex_start = sd_physOffset d div c_blockSize c, ex_count = sd_blocks d\<rparr>)
       (filter (\<lambda>d. sd_physOffset d \<noteq> 0) ds)\<rparr>"
  by (induction ds arbitrary: c) (simp_all add: release_segs_def releaseLater_def)

lemma segs_runs_bag:
  "run_bag (map ex_run (map (\<lambda>d. \<lparr>ex_start = sd_physOffset d div bs, ex_count = sd_blocks d\<rparr>)
     (filter (\<lambda>d. sd_physOffset d \<noteq> 0) ds))) = segs_bag bs ds"
  by (induction ds) (simp_all add: segs_bag_def seg_bag_def)

definition superseded_runs :: "segDesc list \<Rightarrow> container \<Rightarrow> extent list" where
  "superseded_runs rel c = c_pendingRelease c
     @ (if 0 < c_committedDirBlocks c
        then [\<lparr>ex_start = c_committedDirOffset c div c_blockSize c, ex_count = c_committedDirBlocks c\<rparr>] else [])
     @ map (\<lambda>d. \<lparr>ex_start = sd_physOffset d div c_blockSize c, ex_count = sd_blocks d\<rparr>)
       (filter (\<lambda>d. sd_physOffset d \<noteq> 0) rel)"

lemma superseded_runs_bag:
  "run_bag (map ex_run (superseded_runs rel c)) = pending_bag c + index_bag c + segs_bag (c_blockSize c) rel"
  using segs_runs_bag [of "c_blockSize c" rel]
  by (simp add: superseded_runs_def pending_bag_def index_bag_def Let_def)

text \<open>The state after a commit, in closed form.\<close>

definition committed_state :: "metaExtent \<Rightarrow> segDesc list \<Rightarrow> container \<Rightarrow> container" where
  "committed_state m rel c =
     c\<lparr>c_alloc := foldl (\<lambda>a e. release (ex_start e) (ex_count e) a) (c_alloc c) (superseded_runs rel c),
       c_pendingRelease := [], c_committedGen := c_committedGen c + 1, c_committedDirOffset := me_off m,
       c_committedDirBlocks := me_blocks m, c_nextSlot := 1 - c_nextSlot c, c_dirty := False, c_dirtySegs := {}\<rparr>"

lemma finish_commit_state: "snd (finish_commit m rel c) = committed_state m rel c"
proof -
  have eq: "release_segs rel (if 0 < c_committedDirBlocks c then releaseLater (c_committedDirOffset c) (c_committedDirBlocks c) c else c)
      = c\<lparr>c_pendingRelease := superseded_runs rel c\<rparr>"
    by (simp add: release_segs_eq superseded_runs_def releaseLater_def)
  show ?thesis
    unfolding finish_commit_def Let_def release_segs_def [symmetric] eq
    by (simp add: committed_state_def release_pending_def split: option.split)
qed

lemma committed_state_ok:
  assumes "container_inv c (leak + segs_bag (c_blockSize c) rel + meta_run (c_blockSize c) m)"
  shows "container_inv (committed_state m rel c) leak \<and> pages_kept c (committed_state m rel c)"
proof -
  let ?c = "committed_state m rel c" and ?bs = "c_blockSize c" and ?runs = "superseded_runs rel c"
  let ?keep = "dir_bag ?bs (c_dir c) + segs_bag ?bs (c_segIndex c) + leak + meta_run ?bs m"
  have "?keep + run_bag (map ex_run ?runs) + free_bag (c_alloc c) \<subseteq># region superblockBlocks (al_highWater (c_alloc c))"
    using assms unfolding container_inv_def superseded_runs_bag held_def by (simp add: add_ac)
  then have g: "alloc_inv (c_alloc ?c) \<and> al_highWater (c_alloc ?c) = al_highWater (c_alloc c) \<and>
      free_bag (c_alloc ?c) = run_bag (map ex_run ?runs) + free_bag (c_alloc c)"
    using vault_alloc.give_all_space [of "c_alloc c" ?keep ?runs] assms
    by (simp add: container_inv_def committed_state_def)
  have "index_bag ?c = meta_run ?bs m" "pending_bag ?c = {#}"
    by (auto simp: index_bag_def meta_run_def committed_state_def pending_bag_def Let_def)
  then have "held ?c + leak + free_bag (c_alloc ?c) = ?keep + run_bag (map ex_run ?runs) + free_bag (c_alloc c)"
    using g by (simp add: held_def) (simp add: committed_state_def add_ac)
  moreover have "slot_wf ?c = slot_wf c" by (intro ext) (simp add: slot_wf_def committed_state_def)
  moreover have "geometry_ok ?c" "c_dir ?c = c_dir c"
    using assms by (simp_all add: container_inv_def geometry_ok_def committed_state_def)
  ultimately have "container_inv ?c leak"
    using g \<open>?keep + _ + _ \<subseteq># _\<close> assms unfolding container_inv_def by simp (simp add: add_ac)
  moreover have "pages_kept c ?c"
    using load_stored_cong [of ?c c]
    by (simp add: pages_kept_def loadPageInto_def readable_def committed_state_def Let_def)
  ultimately show ?thesis by blast
qed

text \<open>The outcomes of a commit: it stops before, at or after the superblock, or it completes.\<close>

lemma commit_cases:
  assumes "commit c = (r, c')"
  obtains (directory) e where "writeDirectory c = (Inl e, c')" "r = Some e"
    | (sync1) m rel c1 e bk where "writeDirectory c = (Inr (m, rel), c1)" "Sync (c_back c1) = (Some e, bk)"
        "r = Some e" "c' = c1\<lparr>c_back := bk\<rparr>"
    | (sign) m rel c1 e bk where "writeDirectory c = (Inr (m, rel), c1)" "Sync (c_back c1) = (None, bk)"
        "r = Some e" "c' = c1\<lparr>c_back := bk\<rparr>" "sign_superblock c' (commit_superblock m c') = Inl e"
    | (superblock) m rel c1 e bk sb bk2 where "writeDirectory c = (Inr (m, rel), c1)" "Sync (c_back c1) = (None, bk)"
        "sign_superblock (c1\<lparr>c_back := bk\<rparr>) (commit_superblock m (c1\<lparr>c_back := bk\<rparr>)) = Inr sb"
        "WriteAt (sb_marshal sb) (c_nextSlot c1 * c_blockSize c1) bk = (Some e, bk2)"
        "r = Some e" "c' = c1\<lparr>c_back := bk2\<rparr>"
    | (sync2) m rel c1 e bk sb bk2 bk3 where "writeDirectory c = (Inr (m, rel), c1)" "Sync (c_back c1) = (None, bk)"
        "sign_superblock (c1\<lparr>c_back := bk\<rparr>) (commit_superblock m (c1\<lparr>c_back := bk\<rparr>)) = Inr sb"
        "WriteAt (sb_marshal sb) (c_nextSlot c1 * c_blockSize c1) bk = (None, bk2)"
        "Sync bk2 = (Some e, bk3)" "r = Some e" "c' = c1\<lparr>c_back := bk3\<rparr>"
    | (finish) m rel c1 bk sb bk2 bk3 where "writeDirectory c = (Inr (m, rel), c1)" "Sync (c_back c1) = (None, bk)"
        "sign_superblock (c1\<lparr>c_back := bk\<rparr>) (commit_superblock m (c1\<lparr>c_back := bk\<rparr>)) = Inr sb"
        "WriteAt (sb_marshal sb) (c_nextSlot c1 * c_blockSize c1) bk = (None, bk2)"
        "Sync bk2 = (None, bk3)" "finish_commit m rel (c1\<lparr>c_back := bk3\<rparr>) = (r, c')"
  using assms by (auto simp: commit_def Let_def split: prod.splits sum.splits option.splits)

text \<open>\<open>staged c L x\<close>: \<open>x\<close> is \<open>c\<close> on the way through a commit, with the blocks \<open>L\<close> reserved.\<close>

definition staged :: "container \<Rightarrow> nat multiset \<Rightarrow> container \<Rightarrow> bool" where
  "staged c L x \<longleftrightarrow> container_inv x L \<and> pages_kept c x \<and> dir_frame c x"

lemma staged_back:
  assumes "staged c L x" "container_inv (x\<lparr>c_back := bk\<rparr>) L \<and> pages_kept x (x\<lparr>c_back := bk\<rparr>)"
  shows "staged c L (x\<lparr>c_back := bk\<rparr>)"
  using assms pages_kept_trans by (auto simp: staged_def dir_frame_def)

lemma staged_sync: "staged c L x \<Longrightarrow> Sync (c_back x) = (r, bk) \<Longrightarrow> staged c L (x\<lparr>c_back := bk\<rparr>)"
  using staged_back sync_step unfolding staged_def by blast

lemma staged_superblock:
  assumes "staged c L x" "WriteAt (sb_marshal sb) (c_nextSlot x * c_blockSize x) (c_back x) = (r, bk)" "c_nextSlot c \<le> 1"
  shows "staged c L (x\<lparr>c_back := bk\<rparr>)"
  using staged_back [OF assms(1) superblock_step [OF _ assms(2)]] assms(1,3) by (simp add: staged_def dir_frame_def)

lemma staged_directory:
  assumes "container_inv c leak" "room c (commit_budget c)" "c_pageCount c < 2 ^ 54"
    and "writeDirectory c = (Inr (m, rel), c1)"
  shows "staged c (leak + segs_bag (c_blockSize c) rel + meta_run (c_blockSize c) m) c1"
  using writeDirectory_step [OF assms] by (simp add: staged_def)

lemma staged_done:
  assumes "staged c (leak + R + M) x"
  shows "container_inv x leak \<and> pages_kept c x \<and> c_pageCount x = c_pageCount c"
  using assms container_inv_less [of x leak "R + M"] by (simp add: staged_def dir_frame_def add.assoc)

text \<open>A commit changes no page, and whatever happens no block is shared or handed out twice. A
  successful one has released every superseded block, swapped the superblock slots and advanced the
  generation.\<close>

lemma commit_correct:
  assumes "container_inv c leak" "room c (commit_budget c)" "c_pageCount c < 2 ^ 54" "c_nextSlot c \<le> 1"
    and "commit c = (r, c')"
  shows "container_inv c' leak \<and> pages_kept c c' \<and> c_pageCount c' = c_pageCount c \<and>
    (r = None \<longrightarrow> c_committedGen c' = c_committedGen c + 1 \<and> c_nextSlot c' = 1 - c_nextSlot c \<and>
       c_pendingRelease c' = [] \<and> \<not> c_dirty c' \<and> c_dirtySegs c' = {})"
  using assms(5)
proof (cases rule: commit_cases)
  case (directory e)
  then show ?thesis using writeDirectory_step [OF assms(1-3) directory(1)] by (simp add: dir_frame_def)
next
  case (sync1 m rel c1 e bk)
  then show ?thesis using staged_done [OF staged_sync [OF staged_directory [OF assms(1-3)]]] by simp
next
  case (sign m rel c1 e bk)
  then show ?thesis using staged_done [OF staged_sync [OF staged_directory [OF assms(1-3)]]] by simp
next
  case (superblock m rel c1 e bk sb bk2)
  note st = staged_sync [OF staged_directory [OF assms(1-3) superblock(1)] superblock(2)]
  show ?thesis using staged_done [OF staged_superblock [OF st _ assms(4)]] superblock by simp
next
  case (sync2 m rel c1 e bk sb bk2 bk3)
  note st = staged_sync [OF staged_directory [OF assms(1-3) sync2(1)] sync2(2)]
  have "staged c (leak + segs_bag (c_blockSize c) rel + meta_run (c_blockSize c) m) (c1\<lparr>c_back := bk2\<rparr>)"
    using staged_superblock [OF st _ assms(4)] sync2(4) by simp
  from staged_done [OF staged_sync [OF this]] show ?thesis using sync2 by simp
next
  case (finish m rel c1 bk sb bk2 bk3)
  note st = staged_sync [OF staged_directory [OF assms(1-3) finish(1)] finish(2)]
  have "staged c (leak + segs_bag (c_blockSize c) rel + meta_run (c_blockSize c) m) (c1\<lparr>c_back := bk2\<rparr>)"
    using staged_superblock [OF st _ assms(4)] finish(4) by simp
  from staged_sync [OF this] have s3: "staged c (leak + segs_bag (c_blockSize c) rel + meta_run (c_blockSize c) m) (c1\<lparr>c_back := bk3\<rparr>)"
    using finish(5) by simp
  have c': "c' = committed_state m rel (c1\<lparr>c_back := bk3\<rparr>)"
    using finish_commit_state [of m rel "c1\<lparr>c_back := bk3\<rparr>"] finish(6) by simp
  show ?thesis
    using s3 committed_state_ok [of "c1\<lparr>c_back := bk3\<rparr>" leak rel m] pages_kept_trans unfolding c'
    by (auto simp: staged_def dir_frame_def committed_state_def)
qed

text \<open>C3: Commit. Whether it completes or fails at any of its writes and syncs, a commit changes no byte of
  the represented file and keeps the invariant: no block is referenced twice or referenced and free.
  A completed commit has advanced the generation by one, swapped the superblock slots, and released
  every extent it superseded.\<close>

theorem commit_preserves_file:
  assumes "container_inv c leak" "room c (commit_budget c)" "c_pageCount c < 2 ^ 54" "c_nextSlot c \<le> 1"
    and "represents z c f" "commit c = (r, c')"
  shows "container_inv c' leak \<and> represents z c' f \<and> container_size c' = container_size c \<and>
    (r = None \<longrightarrow> c_committedGen c' = c_committedGen c + 1 \<and> c_nextSlot c' = 1 - c_nextSlot c \<and>
       c_pendingRelease c' = [] \<and> \<not> c_dirty c' \<and> c_dirtySegs c' = {})"
  using commit_correct [OF assms(1-4,6)] pages_kept_represents [of c c'] assms(5)
  by (auto simp: container_size_def pages_kept_def)

theorem commit_preserves_file_witness:
  "container_inv (snd (commit freshContainer)) {#} \<and> represents storeOnly (snd (commit freshContainer)) (\<lambda>_. 0) \<and>
   container_size (snd (commit freshContainer)) = 0"
proof -
  have "commit_budget freshContainer = 18"
    by (simp add: commit_budget_def fresh_facts segmentCount_def add64_def sub64_def)
  then show ?thesis
    using commit_preserves_file [OF fresh_inv _ _ _ fresh_represents, of "fst (commit freshContainer)" "snd (commit freshContainer)"]
    by (simp add: fresh_facts container_size_def)
qed

end
