(* ===== verification/Vault_Open.thy ===== *)
theory Vault_Open
  imports Vault_Crypt Vault_Commit
begin

text \<open>
  Opening a container (\<^verbatim>\<open>newContainerOver\<close> of \<^verbatim>\<open>src/vfs/vault/vfs.go\<close>): initialising an empty file, or
  choosing the superblock, validating it, resolving the cipher, checking the authenticated root, the
  replay floor, the segment index and every directory segment, and rebuilding the allocator.
\<close>

section \<open>Definitions\<close>

definition Size :: "backing \<Rightarrow> verror + nat" where
  "Size b = (if bk_rfail b 0 0 then Inl ErrIO else Inr (length (bk_data b)))"

definition readSuperblockAt :: "backing \<Rightarrow> nat \<Rightarrow> bytes" where
  "readSuperblockAt b off =
     (let got = (if bk_rfail b off superblockSize then [] else take superblockSize (drop off (bk_data b)))
      in got @ replicate (superblockSize - length got) 0)"

definition rootError :: "container \<Rightarrow> verror" where
  "rootError c = (if c_macKey c \<noteq> None then ErrTampered else ErrUnauthorized)"

definition check_root :: "keyring \<Rightarrow> superblock \<Rightarrow> container \<Rightarrow> verror + container" where
  "check_root kr sb c =
     (if c_writers c \<noteq> [] \<and> \<not> c_authenticated c then Inl ErrUnauthorized
      else if \<not> c_authenticated c then Inr c
      else case c_macKey c of
        Some k \<Rightarrow> if macTag k (signedState sb) \<noteq> take macTagLen (sb_writerSig sb) then Inl ErrTampered else Inr c
      | None \<Rightarrow>
        if \<not> VerifyState (kr_lib kr) (c_writers c) (signedState sb) (sb_writerSig sb) then Inl ErrUnauthorized
        else Inr (if c_writeAs c = None then c\<lparr>c_readOnlyRecipient := True\<rparr> else c))"

definition read_index :: "superblock \<Rightarrow> nat \<Rightarrow> container \<Rightarrow> verror + segDesc list" where
  "read_index sb nSegs c =
     (case ReadAt (sb_dirBlocks sb * c_blockSize c) (sb_dirOffset sb) (c_back c) of
        Inl e \<Rightarrow> Inl e
      | Inr idxBuf \<Rightarrow>
        let idxLen = nSegs * segDescSize
        in (case c_cipher c of
              Some ci \<Rightarrow>
                if c_authenticated c \<and> sha256 idxBuf \<noteq> sb_dirHash sb then Inl (rootError c)
                else (case readVerifyDecrypt ci idxBuf (sb_dirChecksum sb) 0 domainSegIndex of
                        None \<Rightarrow> Inl (ErrInvalid ''segment index checksum mismatch'')
                      | Some plain \<Rightarrow>
                        if length plain < dirCanaryLen then Inl (ErrPanic ''slice bounds out of range'')
                        else if take dirCanaryLen plain \<noteq> dirCanary then Inl ErrWrongKey
                        else if length plain < dirCanaryLen + idxLen then Inl (ErrInvalid ''segment index too small'')
                        else parseSegmentIndex (bslice dirCanaryLen (dirCanaryLen + idxLen) plain) nSegs)
            | None \<Rightarrow>
                if length idxBuf < idxLen then Inl (ErrInvalid ''segment index too small'')
                else if crc32c (take idxLen idxBuf) \<noteq> sb_dirChecksum sb
                then Inl (ErrInvalid ''segment index checksum mismatch'')
                else parseSegmentIndex (take idxLen idxBuf) nSegs))"

text \<open>One directory segment that is not sparse.\<close>

definition read_segment :: "superblock \<Rightarrow> nat \<Rightarrow> container \<Rightarrow> nat \<Rightarrow> segDesc \<Rightarrow> verror + dirEntry list" where
  "read_segment sb fileSize c s d = (let
     (lo, hi) = segmentBounds s (sb_segEntries sb) (sb_pageCount sb);
     n = hi - lo;
     span = sd_blocks d * c_blockSize c;
     need = n * dirEntryBytes (sb_authenticated sb)
   in if sd_physOffset d mod c_blockSize c \<noteq> 0 \<or> sd_blocks d = 0
        \<or> add64 (sd_physOffset d) span < sd_physOffset d \<or> fileSize < add64 (sd_physOffset d) span
      then Inl (ErrInvalid ''directory segment extent out of bounds'')
      else (case ReadAt span (sd_physOffset d) (c_back c) of
              Inl e \<Rightarrow> Inl e
            | Inr segBuf \<Rightarrow>
              if length segBuf < need then Inl (ErrInvalid ''directory segment too small'')
              else (case c_cipher c of
                      Some ci \<Rightarrow>
                        if c_authenticated c \<and> take slotHashLen (sha256 segBuf) \<noteq> sd_hash d then Inl (rootError c)
                        else (case readVerifyDecrypt ci segBuf (sd_checksum d) s domainDirectory of
                                None \<Rightarrow> Inl (ErrInvalid ''directory segment checksum mismatch'')
                              | Some plain \<Rightarrow> parseDirectory (take need plain) n (sb_authenticated sb))
                    | None \<Rightarrow>
                        if crc32c (take need segBuf) \<noteq> sd_checksum d
                        then Inl (ErrInvalid ''directory segment checksum mismatch'')
                        else parseDirectory (take need segBuf) n (sb_authenticated sb))))"

fun read_segments :: "superblock \<Rightarrow> nat \<Rightarrow> container \<Rightarrow> (nat \<times> segDesc) list \<Rightarrow> dirEntry list \<Rightarrow> verror + dirEntry list" where
  "read_segments sb fileSize c [] dir = Inr dir"
| "read_segments sb fileSize c ((s, d) # ds) dir =
     (if sd_physOffset d = 0 then read_segments sb fileSize c ds dir
      else case read_segment sb fileSize c s d of
        Inl e \<Rightarrow> Inl e
      | Inr segDir \<Rightarrow>
        read_segments sb fileSize c ds (blit (fst (segmentBounds s (sb_segEntries sb) (sb_pageCount sb))) segDir dir))"

definition load_directory :: "superblock \<Rightarrow> nat \<Rightarrow> nat \<Rightarrow> container \<Rightarrow> verror + container" where
  "load_directory sb fileSize keyslotBlocks c =
     (if sb_dirBlocks sb = 0 then Inr c
      else let nSegs = segmentCount (sb_pageCount sb) (sb_segEntries sb)
        in (case read_index sb nSegs c of
              Inl e \<Rightarrow> Inl e
            | Inr segIndex \<Rightarrow>
              (case read_segments sb fileSize c (zip [0..<nSegs] segIndex) (replicate (sb_pageCount sb) sparseEntry) of
                 Inl e \<Rightarrow> Inl e
               | Inr dir \<Rightarrow>
                 (case validateDirectory dir segIndex sb fileSize keyslotBlocks of
                    Some e \<Rightarrow> Inl e
                  | None \<Rightarrow> Inr (c\<lparr>c_dir := dir, c_segIndex := segIndex\<rparr>)))))"

definition open_existing :: "keyring \<Rightarrow> keyConfig \<Rightarrow> nat \<Rightarrow> nat \<Rightarrow> container \<Rightarrow> verror + container" where
  "open_existing kr kc anchorFloor sz c0 = (let
     sbA = readSuperblockAt (c_back c0) 0;
     bs = (case parseSuperblock sbA of Inr a \<Rightarrow> sb_blockSize a | Inl _ \<Rightarrow> c_blockSize c0);
     sbB = readSuperblockAt (c_back c0) bs
   in case pickSuperblockSlot sbA sbB of
        Inl e \<Rightarrow> Inl e
      | Inr (sb, slot) \<Rightarrow>
        (case validate sb sz of
           Some e \<Rightarrow> Inl e
         | None \<Rightarrow>
           let c1 = c0\<lparr>c_blockSize := sb_blockSize sb, c_pageSize := sb_pageSize sb, c_pageCount := sb_pageCount sb,
                       c_segEntries := sb_segEntries sb, c_committedGen := sb_generation sb,
                       c_committedDirOffset := sb_dirOffset sb, c_committedDirBlocks := sb_dirBlocks sb,
                       c_nextSlot := 1 - slot\<rparr>
           in (case resolveCipherForOpen kr kc sb sz c1 of
                 Inl e \<Rightarrow> Inl e
               | Inr (keyslotBlocks, c2) \<Rightarrow>
                 (case check_root kr sb c2 of
                    Inl e \<Rightarrow> Inl e
                  | Inr c3 \<Rightarrow>
                    if c_committedGen c3 < anchorFloor then Inl ErrRolledBack
                    else (case load_directory sb sz keyslotBlocks c3 of
                            Inl e \<Rightarrow> Inl e
                          | Inr c4 \<Rightarrow>
                            Inr (c4\<lparr>c_alloc := rebuildAllocator (c_dir c4) (c_segIndex c4) sb sz keyslotBlocks\<rparr>))))))"

definition newContainerOver ::
  "keyring \<Rightarrow> backing \<Rightarrow> bool \<Rightarrow> nat \<Rightarrow> nat \<Rightarrow> nat \<Rightarrow> nat \<Rightarrow> keyConfig \<Rightarrow> verror + container" where
  "newContainerOver kr back readOnly blockSize pageSize segEntries codec kc =
     (case Size back of
        Inl e \<Rightarrow> Inl e
      | Inr sz \<Rightarrow>
        let c = initContainer back readOnly blockSize pageSize segEntries codec (map_option ra_store (kc_anchor kc))
        in (case (case kc_anchor kc of None \<Rightarrow> Inr 0 | Some a \<Rightarrow> ra_load a) of
              Inl e \<Rightarrow> Inl e
            | Inr anchorFloor \<Rightarrow>
              if sz = 0
              then if 0 < anchorFloor then Inl ErrRolledBack
                   else if readOnly
                   then if encrypting kc then Inl (ErrInvalid ''cannot open an empty database read-only with a key'') else Inr c
                   else (case initCipherForCreate kr kc c of
                           (Some e, _) \<Rightarrow> Inl e
                         | (None, c1) \<Rightarrow> (case commit c1 of (Some e, _) \<Rightarrow> Inl e | (None, c2) \<Rightarrow> Inr c2))
              else open_existing kr kc anchorFloor sz c))"

section \<open>What the stages of an open keep\<close>

text \<open>The part of a container the cipher stages leave alone.\<close>

definition same_core :: "container \<Rightarrow> container \<Rightarrow> bool" where
  "same_core c c' \<longleftrightarrow> c_back c' = c_back c \<and> c_blockSize c' = c_blockSize c \<and> c_pageSize c' = c_pageSize c
     \<and> c_pageCount c' = c_pageCount c \<and> c_segEntries c' = c_segEntries c \<and> c_dir c' = c_dir c
     \<and> c_segIndex c' = c_segIndex c \<and> c_pendingRelease c' = c_pendingRelease c
     \<and> c_committedDirOffset c' = c_committedDirOffset c \<and> c_committedDirBlocks c' = c_committedDirBlocks c
     \<and> c_committedGen c' = c_committedGen c \<and> c_nextSlot c' = c_nextSlot c \<and> c_dirtySegs c' = c_dirtySegs c"

lemma resolve_dek_core: "resolve_dek kr kc sb fs c = Inr (dek, nb, c') \<Longrightarrow> same_core c c' \<and> nb < 2 ^ 32"
  by (auto simp: resolve_dek_def readKeyslot_def same_core_def Let_def split: if_splits sum.splits prod.splits)

lemma resolveCipher_core:
  assumes "resolveCipherForOpen kr kc sb fs c = Inr (nb, c')" "c_cipher c = None"
  shows "same_core c c' \<and> nb < 2 ^ 32 \<and> (\<forall>ci. c_cipher c' = Some ci \<longrightarrow> (\<exists>k d. kr_newCipher kr k d = Inr ci))"
proof (cases "sb_enc sb = encNone")
  case True
  then show ?thesis using assms by (auto simp: resolveCipherForOpen_def same_core_def split: if_splits)
next
  case False
  then obtain kind dek nb' c1 cph where r: "resolve_dek kr kc sb fs c = Inr (dek, nb', c1)"
    "kr_newCipher kr kind dek = Inr cph" "nb = nb'" "c_cipher c' = Some cph" "same_core c1 c'"
    using assms by (auto simp: resolveCipherForOpen_def same_core_def Let_def split: option.splits sum.splits prod.splits if_splits)
  then show ?thesis using resolve_dek_core [OF r(1)] by (auto simp: same_core_def)
qed

lemma check_root_core: "check_root kr sb c = Inr c' \<Longrightarrow> same_core c c' \<and> c_cipher c' = c_cipher c"
  by (auto simp: check_root_def same_core_def split: if_splits option.splits)

lemma set_blit: "set (blit off src b) \<subseteq> set src \<union> set b"
  by (auto simp: blit_def dest: in_set_takeD in_set_dropD)

lemma sparseEntry_wf [simp]: "dirEntry_wf sparseEntry"
  by (simp add: dirEntry_wf_def sparseEntry_def)

lemma read_segments_wf:
  assumes "read_segments sb fs c ds dir = Inr dir'" "\<forall>e\<in>set dir. dirEntry_wf e"
  shows "length dir' = length dir \<and> (\<forall>e\<in>set dir'. dirEntry_wf e)"
  using assms
proof (induction sb fs c ds dir rule: read_segments.induct)
  case (2 sb fs c s d ds dir)
  show ?case
  proof (cases "sd_physOffset d = 0")
    case False
    then obtain es where es: "read_segment sb fs c s d = Inr es" using "2.prems"(1) by (auto split: sum.splits)
    let ?lo = "fst (segmentBounds s (sb_segEntries sb) (sb_pageCount sb))"
    have "\<forall>e\<in>set es. dirEntry_wf e"
      using es by (auto simp: read_segment_def Let_def dest!: parseDirectory_wf(2)
          split: prod.splits if_splits sum.splits option.splits)
    then have "\<forall>e\<in>set (blit ?lo es dir). dirEntry_wf e" using "2.prems"(2) set_blit [of ?lo es dir] by auto
    then show ?thesis using "2.IH"(2) [OF False es] "2.prems"(1) False es by simp
  qed (use 2 in simp)
qed simp

lemma read_index_wf: "read_index sb n c = Inr ds \<Longrightarrow> length ds = n \<and> (\<forall>d\<in>set ds. segDesc_wf d)"
  by (auto simp: read_index_def Let_def dest: parseSegmentIndex_wf split: sum.splits option.splits if_splits)

lemma load_directory_ok:
  assumes "load_directory sb fs kb c = Inr c'" "c_dir c = []" "c_segIndex c = []"
  shows "c' = c\<lparr>c_dir := c_dir c', c_segIndex := c_segIndex c'\<rparr>"
    and "(\<forall>e\<in>set (c_dir c'). dirEntry_wf e) \<and> (\<forall>d\<in>set (c_segIndex c'). segDesc_wf d)"
    and "length (c_dir c') \<le> sb_pageCount sb"
    and "if sb_dirBlocks sb = 0 then c_dir c' = [] \<and> c_segIndex c' = []
         else validateDirectory (c_dir c') (c_segIndex c') sb fs kb = None"
proof -
  show "c' = c\<lparr>c_dir := c_dir c', c_segIndex := c_segIndex c'\<rparr>"
    using assms by (auto simp: load_directory_def Let_def split: if_splits sum.splits option.splits)
  show "if sb_dirBlocks sb = 0 then c_dir c' = [] \<and> c_segIndex c' = []
         else validateDirectory (c_dir c') (c_segIndex c') sb fs kb = None"
    using assms by (auto simp: load_directory_def Let_def split: if_splits sum.splits option.splits)
  show "(\<forall>e\<in>set (c_dir c'). dirEntry_wf e) \<and> (\<forall>d\<in>set (c_segIndex c'). segDesc_wf d)"
    "length (c_dir c') \<le> sb_pageCount sb"
    using assms
    by (auto simp: load_directory_def Let_def dest!: read_segments_wf read_index_wf
        split: if_splits sum.splits option.splits)
qed

section \<open>An accepted file satisfies the storage invariant\<close>

lemma open_existing_stages:
  assumes "open_existing kr kc floor sz c0 = Inr c" "c_cipher c0 = None" "c_dir c0 = []" "c_segIndex c0 = []"
  obtains sb slot kb c3 where
    "pickSuperblockSlot (readSuperblockAt (c_back c0) 0)
       (readSuperblockAt (c_back c0) (case parseSuperblock (readSuperblockAt (c_back c0) 0) of
          Inr a \<Rightarrow> sb_blockSize a | Inl _ \<Rightarrow> c_blockSize c0)) = Inr (sb, slot)"
    "validate sb sz = None" "floor \<le> sb_generation sb" "kb < 2 ^ 32"
    "c_back c3 = c_back c0" "c_blockSize c3 = sb_blockSize sb" "c_pageSize c3 = sb_pageSize sb"
    "c_pageCount c3 = sb_pageCount sb" "c_segEntries c3 = sb_segEntries sb" "c_dir c3 = []" "c_segIndex c3 = []"
    "c_pendingRelease c3 = c_pendingRelease c0" "c_committedDirOffset c3 = sb_dirOffset sb"
    "c_committedDirBlocks c3 = sb_dirBlocks sb" "c_committedGen c3 = sb_generation sb" "c_nextSlot c3 = 1 - slot"
    "\<forall>ci. c_cipher c3 = Some ci \<longrightarrow> (\<exists>k d. kr_newCipher kr k d = Inr ci)"
    "load_directory sb sz kb c3 = Inr (c\<lparr>c_alloc := c_alloc c3\<rparr>)"
    "c_alloc c = rebuildAllocator (c_dir c) (c_segIndex c) sb sz kb"
proof -
  obtain sb slot where pick: "pickSuperblockSlot (readSuperblockAt (c_back c0) 0)
       (readSuperblockAt (c_back c0) (case parseSuperblock (readSuperblockAt (c_back c0) 0) of
          Inr a \<Rightarrow> sb_blockSize a | Inl _ \<Rightarrow> c_blockSize c0)) = Inr (sb, slot)" "validate sb sz = None"
    using assms(1) unfolding open_existing_def Let_def
    by (auto split: sum.splits option.splits)
  let ?c1 = "c0\<lparr>c_blockSize := sb_blockSize sb, c_pageSize := sb_pageSize sb, c_pageCount := sb_pageCount sb,
     c_segEntries := sb_segEntries sb, c_committedGen := sb_generation sb, c_committedDirOffset := sb_dirOffset sb,
     c_committedDirBlocks := sb_dirBlocks sb, c_nextSlot := 1 - slot\<rparr>"
  obtain kb c2 c3 c4 where st: "resolveCipherForOpen kr kc sb sz ?c1 = Inr (kb, c2)" "check_root kr sb c2 = Inr c3"
    "\<not> c_committedGen c3 < floor" "load_directory sb sz kb c3 = Inr c4"
    "c = c4\<lparr>c_alloc := rebuildAllocator (c_dir c4) (c_segIndex c4) sb sz kb\<rparr>"
    using assms(1) pick unfolding open_existing_def Let_def by (auto split: sum.splits if_splits)
  have rc: "same_core ?c1 c2" "kb < 2 ^ 32" "\<forall>ci. c_cipher c2 = Some ci \<longrightarrow> (\<exists>k d. kr_newCipher kr k d = Inr ci)"
    using resolveCipher_core [OF st(1)] assms(2) by auto
  have cr: "same_core c2 c3" "c_cipher c3 = c_cipher c2" using check_root_core [OF st(2)] by auto
  have core: "same_core ?c1 c3" using rc(1) cr(1) by (auto simp: same_core_def)
  have ld: "c4 = c3\<lparr>c_dir := c_dir c4, c_segIndex := c_segIndex c4\<rparr>"
    using load_directory_ok(1) [OF st(4)] core assms(3,4) by (auto simp: same_core_def)
  have "c\<lparr>c_alloc := c_alloc c3\<rparr> = c4"
    using arg_cong [OF ld, of c_alloc] by (simp add: st(5))
  then show ?thesis
    using that [of sb slot kb c3] pick rc(2,3) cr(2) core st(3-5) assms(3,4) by (auto simp: same_core_def)
qed

lemma block_run_exact:
  "512 \<le> bs \<Longrightarrow> off < 2 ^ 64 \<Longrightarrow> n < 2 ^ 33 \<Longrightarrow> block_run bs off n = (off div bs, off div bs + n) \<and> off div bs + n < 2 ^ 56"
proof -
  assume a: "512 \<le> bs" "off < 2 ^ 64" "n < 2 ^ 33"
  have "off div bs \<le> off div 512" using a(1) by (intro div_le_mono2) simp_all
  then have "off div bs + n < 2 ^ 56" using a(2,3) by simp
  then show ?thesis by (simp add: block_run_def Let_def add64_exact)
qed

lemma slot_runs_bag:
  assumes "512 \<le> bs" "\<forall>e\<in>set dir. dirEntry_wf e"
  shows "run_bag (slot_runs bs dir) = dir_bag bs dir"
  using assms(2)
proof (induction dir)
  case (Cons e dir)
  have "block_run bs (de_physOffset e) (de_blocks e) = (de_physOffset e div bs, de_physOffset e div bs + de_blocks e)"
    using Cons.prems block_run_exact [OF assms(1)] by (simp add: dirEntry_wf_def)
  then show ?case using Cons by (simp add: slot_runs_def dir_bag_def entry_bag_def)
qed (simp add: slot_runs_def dir_bag_def)

lemma seg_runs_bag:
  assumes "512 \<le> bs" "\<forall>d\<in>set segs. segDesc_wf d"
  shows "run_bag (seg_runs bs segs) = segs_bag bs segs"
  using assms(2)
proof (induction segs)
  case (Cons d segs)
  have "block_run bs (sd_physOffset d) (sd_blocks d) = (sd_physOffset d div bs, sd_physOffset d div bs + sd_blocks d)"
    using Cons.prems block_run_exact [OF assms(1)] by (simp add: segDesc_wf_def)
  then show ?case using Cons by (simp add: seg_runs_def segs_bag_def seg_bag_def)
qed (simp add: seg_runs_def segs_bag_def)

text \<open>Every referenced block is one of the runs the allocator is rebuilt around.\<close>

lemma dir_bag_used: "b \<in># dir_bag bs dir \<Longrightarrow> \<exists>e\<in>set dir. de_blocks e \<noteq> 0 \<and> de_physOffset e div bs \<le> b \<and> b < de_physOffset e div bs + de_blocks e"
  by (induction dir) (auto simp: dir_bag_def entry_bag_def split: if_splits)

lemma segs_bag_used: "b \<in># segs_bag bs segs \<Longrightarrow> \<exists>d\<in>set segs. sd_blocks d \<noteq> 0 \<and> sd_physOffset d div bs \<le> b \<and> b < sd_physOffset d div bs + sd_blocks d"
  by (induction segs) (auto simp: segs_bag_def seg_bag_def split: if_splits)

definition keyslot_bag :: "superblock \<Rightarrow> nat \<Rightarrow> nat multiset" where
  "keyslot_bag sb kb = (if sb_keyslotOffset sb = 0 \<or> kb = 0 then {#}
     else region (sb_keyslotOffset sb div sb_blockSize sb) (sb_keyslotOffset sb div sb_blockSize sb + kb))"

lemma referenced_used:
  assumes "b \<in># dir_bag (sb_blockSize sb) dir + segs_bag (sb_blockSize sb) segs
      + region (sb_dirOffset sb div sb_blockSize sb) (sb_dirOffset sb div sb_blockSize sb + sb_dirBlocks sb) + keyslot_bag sb kb"
  shows "\<exists>u\<in>set (used_runs dir segs sb kb). fst u \<le> b \<and> b < fst u + snd u"
proof -
  consider "b \<in># dir_bag (sb_blockSize sb) dir" | "b \<in># segs_bag (sb_blockSize sb) segs"
    | "sb_dirOffset sb div sb_blockSize sb \<le> b" "b < sb_dirOffset sb div sb_blockSize sb + sb_dirBlocks sb"
    | "b \<in># keyslot_bag sb kb" using assms by auto
  then show ?thesis
  proof cases
    case 1
    then obtain e where "e \<in> set dir" "de_blocks e \<noteq> 0" "de_physOffset e div sb_blockSize sb \<le> b"
      "b < de_physOffset e div sb_blockSize sb + de_blocks e" using dir_bag_used by blast
    then show ?thesis
      by (intro bexI [of _ "(de_physOffset e div sb_blockSize sb, de_blocks e)"]) (auto simp: used_runs_def used_run_def Let_def)
  next
    case 2
    then obtain d where "d \<in> set segs" "sd_blocks d \<noteq> 0" "sd_physOffset d div sb_blockSize sb \<le> b"
      "b < sd_physOffset d div sb_blockSize sb + sd_blocks d" using segs_bag_used by blast
    then show ?thesis
      by (intro bexI [of _ "(sd_physOffset d div sb_blockSize sb, sd_blocks d)"]) (auto simp: used_runs_def used_run_def Let_def)
  next
    case 3
    then show ?thesis by (auto simp: used_runs_def used_run_def Let_def)
  next
    case 4
    then show ?thesis by (auto simp: keyslot_bag_def used_runs_def used_run_def Let_def split: if_splits)
  qed
qed

lemma used_runs_bound:
  assumes "superblock_wf sb" "512 \<le> sb_blockSize sb" "kb < 2 ^ 32"
    "\<forall>e\<in>set dir. dirEntry_wf e" "\<forall>d\<in>set segs. segDesc_wf d" "u \<in> set (used_runs dir segs sb kb)"
  shows "fst u + snd u \<le> 2 ^ 63"
proof -
  have b: "off div sb_blockSize sb + n \<le> 2 ^ 63" if "off < 2 ^ 64" "n < 2 ^ 32" for off n
    using block_run_exact [OF assms(2) that(1), of n] that(2) by simp
  have "sb_dirOffset sb < 2 ^ 64" "sb_dirBlocks sb < 2 ^ 32" "sb_keyslotOffset sb < 2 ^ 64"
    using assms(1) by (auto simp: superblock_wf_def)
  then show ?thesis
    using assms(3-6) b
    by (auto simp: used_runs_def used_run_def Let_def dirEntry_wf_def segDesc_wf_def split: if_splits)
qed

lemma rebuilt_alloc_inv:
  assumes "superblock_wf sb" "512 \<le> sb_blockSize sb" "kb < 2 ^ 32"
    "\<forall>e\<in>set dir. dirEntry_wf e" "\<forall>d\<in>set segs. segDesc_wf d" "fs \<le> maxInt64"
  shows "alloc_inv (rebuildAllocator dir segs sb fs kb)"
proof -
  have "fs \<le> 2 ^ 63" using assms(6) by (simp add: maxInt64_def)
  then have fs: "fs div sb_blockSize sb \<le> 2 ^ 63" by (rule order_trans [OF div_le_dividend])
  show ?thesis
    by (rule rebuildAllocator_safe(1) [OF _ fs])
      (use used_runs_bound [OF assms(1-5)] in \<open>auto simp: superblockBlocks_def\<close>)
qed

text \<open>The rebuilt allocator and the referenced blocks of an accepted directory share no block.\<close>

lemma accepted_directory_space:
  assumes "superblock_wf sb" "superblock_sane sb fs" "fs \<le> maxInt64" "kb < 2 ^ 32" "0 < sb_dirBlocks sb"
    "\<forall>e\<in>set dir. dirEntry_wf e" "\<forall>d\<in>set segs. segDesc_wf d" "validateDirectory dir segs sb fs kb = None"
  defines "a \<equiv> rebuildAllocator dir segs sb fs kb" and "bs \<equiv> sb_blockSize sb"
  shows "alloc_inv a"
    and "dir_bag bs dir + segs_bag bs segs + region (sb_dirOffset sb div bs) (sb_dirOffset sb div bs + sb_dirBlocks sb)
      + keyslot_bag sb kb + free_bag a \<subseteq># region superblockBlocks (al_highWater a)"
    and "\<forall>e\<in>set dir. validate_slot sb fs e = None"
proof -
  have bs: "512 \<le> sb_blockSize sb" using assms(2) by (simp add: superblock_sane_def)
  have "fs \<le> 2 ^ 63" using assms(3) by (simp add: maxInt64_def)
  then have fs: "fs div sb_blockSize sb \<le> 2 ^ 63" by (rule order_trans [OF div_le_dividend])
  have used: "\<forall>u\<in>set (used_runs dir segs sb kb). fst u + snd u \<le> 2 ^ 63"
    using used_runs_bound [OF assms(1) bs assms(4,6,7)] by blast
  have two63: "superblockBlocks \<le> 2 ^ 63" "(2 :: nat) ^ 63 < 2 ^ 64" by (simp_all add: superblockBlocks_def)
  note safe = rebuildAllocator_safe [OF used fs two63, folded a_def]
  have hi: "alloc_inv a" "fs div sb_blockSize sb \<le> al_highWater a" "al_highWater a \<le> 2 ^ 63"
    "\<forall>u\<in>set (used_runs dir segs sb kb). fst u + snd u \<le> al_highWater a"
    using safe by auto
  show "alloc_inv a" by (rule hi(1))
  have kb: "keyslot_below sb kb (al_highWater a)"
  proof (cases "kb = 0")
    case True
    have "sb_keyslotOffset sb div sb_blockSize sb + 1 \<le> fs div sb_blockSize sb" if "sb_keyslotOffset sb \<noteq> 0"
    proof -
      have "sb_keyslotOffset sb + sb_blockSize sb \<le> fs" using assms(2) that by (simp add: superblock_sane_def)
      then have "(sb_keyslotOffset sb + sb_blockSize sb) div sb_blockSize sb \<le> fs div sb_blockSize sb" by (rule div_le_mono)
      moreover have "(sb_keyslotOffset sb + sb_blockSize sb) div sb_blockSize sb = sb_keyslotOffset sb div sb_blockSize sb + 1"
        using bs by (intro div_add_self2) simp
      ultimately show ?thesis by simp
    qed
    then show ?thesis using True hi(2) by (auto simp: keyslot_below_def keyslot_run_def Let_def)
  next
    case False
    then have "(sb_keyslotOffset sb div sb_blockSize sb, kb) \<in> set (used_runs dir segs sb kb)"
      by (simp add: used_runs_def used_run_def Let_def)
    then show ?thesis using hi(4) False by (fastforce simp: keyslot_below_def keyslot_run_def Let_def)
  qed
  have two: "superblockBlocks \<le> al_highWater a" using hi(1) by (simp add: alloc_inv_def)
  have lt: "al_highWater a < 2 ^ 64" using hi(3) by simp
  note vd = validateDirectory_sound [OF assms(2,3) kb hi(2) two lt assms(6-8)]
  show "\<forall>e\<in>set dir. validate_slot sb fs e = None" by (rule vd(2))
  let ?V = "dir_bag bs dir + segs_bag bs segs + region (sb_dirOffset sb div bs) (sb_dirOffset sb div bs + sb_dirBlocks sb)
      + keyslot_bag sb kb"
  have sbw: "sb_dirOffset sb < 2 ^ 64" "sb_dirBlocks sb < 2 ^ 33" "sb_keyslotOffset sb < 2 ^ 64"
    using assms(1) by (auto simp: superblock_wf_def)
  have "run_bag (meta_runs sb kb) = region 0 superblockBlocks
      + region (sb_dirOffset sb div bs) (sb_dirOffset sb div bs + sb_dirBlocks sb)
      + (if sb_keyslotOffset sb \<noteq> 0 then region (fst (keyslot_run sb kb)) (snd (keyslot_run sb kb)) else {#})"
    using block_run_exact [OF bs sbw(1,2)] block_run_exact [OF bs sbw(3), of "if kb = 0 then 1 else kb"] assms(4,5)
    by (simp add: meta_runs_def keyslot_run_def bs_def Let_def)
  moreover have "keyslot_bag sb kb \<subseteq># (if sb_keyslotOffset sb \<noteq> 0 then region (fst (keyslot_run sb kb)) (snd (keyslot_run sb kb)) else {#})"
    by (simp add: keyslot_bag_def keyslot_run_def Let_def)
  ultimately have "region 0 superblockBlocks + ?V \<subseteq># run_bag (all_runs dir segs sb kb)"
    by (simp add: all_runs_def slot_runs_bag [OF bs assms(6)] seg_runs_bag [OF bs assms(7)] bs_def add_ac)
  also have "\<dots> \<subseteq># region 0 (al_highWater a)" by (rule vd(1))
  also have "\<dots> = region 0 superblockBlocks + region superblockBlocks (al_highWater a)"
    using two by (intro region_split) simp_all
  finally have "?V \<subseteq># region superblockBlocks (al_highWater a)" by simp
  then show "?V + free_bag a \<subseteq># region superblockBlocks (al_highWater a)"
    by (rule safe(5)) (rule referenced_used, simp add: bs_def)
qed

lemma pickSuperblockSlot_wf: "pickSuperblockSlot a b = Inr (sb, slot) \<Longrightarrow> superblock_wf sb \<and> slot \<le> 1"
  by (auto simp: pickSuperblockSlot_def superblock_canonical_def dest!: parseSuperblock_wf split: sum.splits if_splits)

lemma page_count_lt:
  assumes "512 \<le> bs" "bs \<le> ps" "pc * ps \<le> maxInt64"
  shows "pc < 2 ^ 54"
proof -
  have "pc * 512 \<le> pc * ps" using assms(1,2) by (intro mult_le_mono2) simp
  then have "pc * 512 \<le> maxInt64" using assms(3) by linarith
  then show ?thesis by (simp add: maxInt64_def)
qed


text \<open>The smallest container file: one superblock that commits no pages.\<close>

definition emptySuperblock :: superblock where
  "emptySuperblock = \<lparr>sb_blockSize = 512, sb_pageSize = 1024, sb_pageCount = 0, sb_dirOffset = 0, sb_dirBlocks = 0,
     sb_segEntries = 16, sb_generation = 1, sb_codec = 0, sb_enc = 0, sb_dirChecksum = 0, sb_keyslotOffset = 0,
     sb_authenticated = False, sb_dirHash = replicate dirHashLen 0, sb_writerSig = replicate writerSigLen 0\<rparr>"

definition oneSuperblock :: "superblock \<Rightarrow> backing" where
  "oneSuperblock sb = emptyBacking\<lparr>bk_data := sb_marshal sb\<rparr>"

lemma oneSuperblock_size: "Size (oneSuperblock sb) = Inr 165" "length (bk_data (oneSuperblock sb)) = 165"
  by (simp_all add: Size_def oneSuperblock_def emptyBacking_def layout_defs)

lemma oneSuperblock_pick:
  assumes "superblock_canonical sb" "sb_blockSize sb = 512"
  shows "parseSuperblock (readSuperblockAt (oneSuperblock sb) 0) = Inr sb"
    and "pickSuperblockSlot (readSuperblockAt (oneSuperblock sb) 0) (readSuperblockAt (oneSuperblock sb) 512) = Inr (sb, 0)"
proof -
  have p: "parseSuperblock (sb_marshal sb) = Inr sb" by (rule parse_sb_marshal [OF assms(1)])
  have a: "readSuperblockAt (oneSuperblock sb) 0 = sb_marshal sb"
    by (simp add: readSuperblockAt_def oneSuperblock_def emptyBacking_def)
  have b: "readSuperblockAt (oneSuperblock sb) 512 = replicate superblockSize 0"
    by (simp add: readSuperblockAt_def oneSuperblock_def emptyBacking_def layout_defs)
  have "hd (replicate 8 (0 :: byte)) \<noteq> hd superblockMagic" by (simp add: superblockMagic_def)
  then have "replicate 8 0 \<noteq> superblockMagic" by metis
  then have "parseSuperblock (replicate superblockSize 0) = Inl ErrBadMagic"
    by (simp add: parseSuperblock_def layout_defs)
  then show "parseSuperblock (readSuperblockAt (oneSuperblock sb) 0) = Inr sb"
    "pickSuperblockSlot (readSuperblockAt (oneSuperblock sb) 0) (readSuperblockAt (oneSuperblock sb) 512) = Inr (sb, 0)"
    using p a b by (simp_all add: pickSuperblockSlot_def)
qed

lemma oneSuperblock_open:
  assumes "superblock_canonical sb" "sb_blockSize sb = 512" "validate sb 165 = None" "kc_anchor kc = None"
    and "resolveCipherForOpen kr kc sb 165 ((initContainer (oneSuperblock sb) False 512 1024 16 0 None)\<lparr>c_blockSize := sb_blockSize sb,
       c_pageSize := sb_pageSize sb, c_pageCount := sb_pageCount sb, c_segEntries := sb_segEntries sb,
       c_committedGen := sb_generation sb, c_committedDirOffset := sb_dirOffset sb, c_committedDirBlocks := sb_dirBlocks sb,
       c_nextSlot := 1\<rparr>) = Inr (kb, c2)" "check_root kr sb c2 = Inr c3" "sb_dirBlocks sb = 0"
  shows "newContainerOver kr (oneSuperblock sb) False 512 1024 16 0 kc
    = Inr (c3\<lparr>c_alloc := rebuildAllocator (c_dir c3) (c_segIndex c3) sb 165 kb\<rparr>)"
proof -
  let ?c = "initContainer (oneSuperblock sb) False 512 1024 16 0 None"
  have bk: "c_back ?c = oneSuperblock sb" by (simp add: initContainer_def)
  have "open_existing kr kc 0 165 ?c = Inr (c3\<lparr>c_alloc := rebuildAllocator (c_dir c3) (c_segIndex c3) sb 165 kb\<rparr>)"
    unfolding open_existing_def Let_def bk oneSuperblock_pick(1) [OF assms(1,2)] sum.case assms(2)
      oneSuperblock_pick(2) [OF assms(1,2)] prod.case assms(3) option.case
    using assms(5-7) by (simp add: assms(2) load_directory_def)
  then show ?thesis by (simp add: newContainerOver_def oneSuperblock_size assms(4))
qed

lemma emptySuperblock_ok: "superblock_canonical emptySuperblock" "validate emptySuperblock 165 = None"
  "sb_blockSize emptySuperblock = 512" "sb_dirBlocks emptySuperblock = 0" "sb_enc emptySuperblock = encNone"
  by (simp_all add: emptySuperblock_def superblock_canonical_def superblock_wf_def layout_defs validate_def
      isPow2InRange_def maxInt64_def mul64_def sub64_def segmentCount_def add64_def encNone_def)


section \<open>Authentication and replay protection\<close>

lemma check_root_verified:
  assumes "check_root kr sb c = Inr c'"
  shows "c_authenticated c' = c_authenticated c" "c_writers c \<noteq> [] \<Longrightarrow> c_authenticated c'"
    and "c_authenticated c' \<Longrightarrow>
      (case c_macKey c' of Some k \<Rightarrow> macTag k (signedState sb) = take macTagLen (sb_writerSig sb)
       | None \<Rightarrow> VerifyState (kr_lib kr) (c_writers c') (signedState sb) (sb_writerSig sb))"
    and "c_writers c' = c_writers c"
  using assms by (auto simp: check_root_def split: if_splits option.splits)

lemma resolveCipher_authenticate:
  assumes "resolveCipherForOpen kr kc sb fs c = Inr (nb, c')" "encrypting kc" "kc_authenticate kc"
  shows "c_authenticated c'"
  using assms by (auto simp: resolveCipherForOpen_def Let_def split: if_splits option.splits sum.splits prod.splits)

lemma load_directory_auth:
  assumes "load_directory sb fs kb c = Inr c'"
  shows "c_authenticated c' = c_authenticated c" "c_macKey c' = c_macKey c" "c_writers c' = c_writers c"
    "c_committedGen c' = c_committedGen c"
  using assms by (auto simp: load_directory_def Let_def split: if_splits option.splits sum.splits)

text \<open>A container that opens is authenticated the way its key configuration demands: with
  \<^verbatim>\<open>Authenticate\<close> set the on-disk authenticated flag cannot have been cleared, a keyslot that names
  writers requires authenticated mode, the root of an authenticated container verifies (the MAC of
  the signed state, or a signature by an authorized writer), and the committed generation is not
  below the replay anchor.\<close>

theorem open_verifies_root:
  assumes "newContainerOver kr back readOnly blockSize pageSize segEntries codec kc = Inr c"
    and "bk_data back \<noteq> []" "encrypting kc"
  shows "\<exists>sb. (\<exists>off. parseSuperblock (readSuperblockAt back off) = Inr sb) \<and>
    c_committedGen c = sb_generation sb \<and>
    (kc_authenticate kc \<longrightarrow> c_authenticated c) \<and> (c_writers c \<noteq> [] \<longrightarrow> c_authenticated c) \<and>
    (c_authenticated c \<longrightarrow>
       (case c_macKey c of Some k \<Rightarrow> macTag k (signedState sb) = take macTagLen (sb_writerSig sb)
        | None \<Rightarrow> VerifyState (kr_lib kr) (c_writers c) (signedState sb) (sb_writerSig sb))) \<and>
    (\<forall>a floor. kc_anchor kc = Some a \<longrightarrow> ra_load a = Inr floor \<longrightarrow> floor \<le> sb_generation sb)"
proof -
  let ?c0 = "initContainer back readOnly blockSize pageSize segEntries codec (map_option ra_store (kc_anchor kc))"
  let ?sz = "length (bk_data back)"
  obtain floor where op: "open_existing kr kc floor ?sz ?c0 = Inr c"
    and fl: "(case kc_anchor kc of None \<Rightarrow> Inr 0 | Some a \<Rightarrow> ra_load a) = Inr floor"
    using assms(1,2) unfolding newContainerOver_def Let_def Size_def by (auto split: sum.splits if_splits)
  have bk: "c_back ?c0 = back" by (simp add: initContainer_def)
  let ?bs = "case parseSuperblock (readSuperblockAt back 0) of Inr a \<Rightarrow> sb_blockSize a | Inl _ \<Rightarrow> c_blockSize ?c0"
  obtain sb slot where pick: "pickSuperblockSlot (readSuperblockAt back 0) (readSuperblockAt back ?bs) = Inr (sb, slot)"
      "validate sb ?sz = None"
    using op unfolding open_existing_def Let_def bk by (auto split: sum.splits option.splits)
  let ?c1 = "?c0\<lparr>c_blockSize := sb_blockSize sb, c_pageSize := sb_pageSize sb, c_pageCount := sb_pageCount sb,
     c_segEntries := sb_segEntries sb, c_committedGen := sb_generation sb, c_committedDirOffset := sb_dirOffset sb,
     c_committedDirBlocks := sb_dirBlocks sb, c_nextSlot := 1 - slot\<rparr>"
  obtain kb c2 c3 c4 where st: "resolveCipherForOpen kr kc sb ?sz ?c1 = Inr (kb, c2)" "check_root kr sb c2 = Inr c3"
    "\<not> c_committedGen c3 < floor" "load_directory sb ?sz kb c3 = Inr c4"
    "c = c4\<lparr>c_alloc := rebuildAllocator (c_dir c4) (c_segIndex c4) sb ?sz kb\<rparr>"
    using op pick unfolding open_existing_def Let_def bk by (auto split: sum.splits if_splits)
  have c: "c_authenticated c = c_authenticated c3" "c_macKey c = c_macKey c3" "c_writers c = c_writers c3"
    "c_committedGen c = c_committedGen c3"
    using load_directory_auth [OF st(4)] by (simp_all add: st(5))
  have gen: "c_committedGen c3 = sb_generation sb"
    using resolveCipher_core [OF st(1)] check_root_core [OF st(2)] by (simp add: same_core_def initContainer_def)
  have "\<exists>off. parseSuperblock (readSuperblockAt back off) = Inr sb"
    using pick(1) by (auto simp: pickSuperblockSlot_def split: sum.splits if_splits)
  moreover have "kc_authenticate kc \<longrightarrow> c_authenticated c3"
    using resolveCipher_authenticate [OF st(1) assms(3)] check_root_verified(1) [OF st(2)] by simp
  moreover have "\<forall>a fl'. kc_anchor kc = Some a \<longrightarrow> ra_load a = Inr fl' \<longrightarrow> fl' \<le> sb_generation sb"
    using fl st(3) gen by auto
  ultimately show ?thesis
    using check_root_verified(2-4) [OF st(2)] unfolding c gen by (intro exI [of _ sb]) auto
qed

text \<open>An authenticated superblock and the configuration that opens it.\<close>

definition plainCipher :: pageCipher where
  "plainCipher = \<lparr>encrypt = (\<lambda>b _ _. b), decrypt = (\<lambda>b _ _. b)\<rparr>"

definition rawKey :: bytes where "rawKey = replicate 32 1"

definition macSuperblock :: superblock where
  "macSuperblock = (let sb = emptySuperblock\<lparr>sb_enc := encAdiantum, sb_authenticated := True\<rparr>
     in sb\<lparr>sb_writerSig := blit 0 (macTag (deriveMacKey rawKey) (signedState sb)) (replicate writerSigLen 0)\<rparr>)"

definition macKeyConfig :: keyConfig where
  "macKeyConfig = noKey\<lparr>kc_rawKey := rawKey, kc_authenticate := True\<rparr>"

definition macKeyring :: keyring where
  "macKeyring = noKeyring\<lparr>kr_newCipher := (\<lambda>_ _. Inr plainCipher)\<rparr>"

lemma length_macTag: "length (macTag k m) = macTagLen"
  by (simp add: macTag_def macTagLen_def Let_def)

lemma macSuperblock_root:
  "macTag (deriveMacKey rawKey) (signedState macSuperblock) = take macTagLen (sb_writerSig macSuperblock)"
proof -
  let ?sb = "emptySuperblock\<lparr>sb_enc := encAdiantum, sb_authenticated := True\<rparr>"
  let ?tag = "macTag (deriveMacKey rawKey) (signedState ?sb)"
  have "signedState macSuperblock = signedState ?sb"
    unfolding macSuperblock_def Let_def by (rule signedState_indep) simp
  moreover have "sb_writerSig macSuperblock = blit 0 ?tag (replicate writerSigLen 0)"
    by (simp add: macSuperblock_def Let_def)
  ultimately show ?thesis using length_macTag [of "deriveMacKey rawKey" "signedState ?sb"]
    by (simp add: blit_def layout_defs macTagLen_def)
qed

lemma macSuperblock_ok: "superblock_canonical macSuperblock" "validate macSuperblock 165 = None"
  "sb_blockSize macSuperblock = 512" "sb_dirBlocks macSuperblock = 0" "sb_enc macSuperblock = encAdiantum"
  "sb_authenticated macSuperblock" "sb_keyslotOffset macSuperblock = 0"
  by (simp_all add: macSuperblock_def Let_def emptySuperblock_def superblock_canonical_def superblock_wf_def layout_defs
      validate_def isPow2InRange_def maxInt64_def mul64_def sub64_def segmentCount_def add64_def)

theorem open_verifies_root_witness:
  "\<exists>c. newContainerOver macKeyring (oneSuperblock macSuperblock) False 512 1024 16 0 macKeyConfig = Inr c \<and> c_authenticated c"
proof -
  have "\<exists>c. newContainerOver macKeyring (oneSuperblock macSuperblock) False 512 1024 16 0 macKeyConfig = Inr c"
    using oneSuperblock_open [OF macSuperblock_ok(1,3,2), of macKeyConfig macKeyring 0] macSuperblock_ok macSuperblock_root
    by (simp add: resolveCipherForOpen_def resolve_dek_def cipherForEnc_def macKeyConfig_def macKeyring_def rawKey_def
        noKey_def encAdiantum_def encNone_def check_root_def initContainer_def)
  then obtain c where c: "newContainerOver macKeyring (oneSuperblock macSuperblock) False 512 1024 16 0 macKeyConfig = Inr c"
    by blast
  have "bk_data (oneSuperblock macSuperblock) \<noteq> []" "encrypting macKeyConfig"
    using oneSuperblock_size [of macSuperblock] by (auto simp: encrypting_def macKeyConfig_def rawKey_def)
  then show ?thesis using open_verifies_root [OF c] c by (auto simp: macKeyConfig_def)
qed

section \<open>The keyslot block\<close>

text \<open>The blob that \<^verbatim>\<open>writeKeyslot\<close> stored is what \<^verbatim>\<open>readKeyslot\<close> returns from the same offset, with a
  block count that covers banner, length and blob.\<close>

lemma keyslot_block_reads:
  assumes "container_inv c leak" "room c (length blob + 27)" "readable c" "0 < length blob" "length blob \<le> maxKeyslotLen"
    and "writeKeyslot blob c = (Inr off, c')" "length (bk_data (c_back c')) < 2 ^ 63"
  shows "\<exists>nb. readKeyslot off (length (bk_data (c_back c'))) c' = Inr (blob, nb) \<and> keyslotHeaderLen + length blob \<le> nb * c_blockSize c"
proof -
  let ?framed = "keyslotBanner @ le_bytes 4 (length blob) @ blob" and ?bs = "c_blockSize c"
  have bl: "length keyslotBanner = 22" "keyslotHeaderLen = 26" by (simp_all add: keyslotBanner_def keyslotHeaderLen_def)
  have geo: "512 \<le> ?bs" "?bs \<le> 65536" using assms(1) by (auto simp: container_inv_def geometry_ok_def)
  have small: "length blob \<le> 2 ^ 20" using assms(5) by (simp add: maxKeyslotLen_def)
  obtain nb where nb: "blocksFor (26 + length blob) ?bs = Inr nb" "26 + length blob \<le> nb * ?bs" "nb \<le> 26 + length blob + 1"
    using blocksFor_nb [OF geo(1), of "26 + length blob"] geo(2) small by auto
  define buf where "buf = ?framed @ replicate (nb * ?bs - length ?framed) 0"
  obtain blk al bk where w: "alloc nb (c_alloc c) = Inr (blk, al)" "WriteAt buf (blk * ?bs) (c_back c) = (None, bk)"
    "off = blk * ?bs" "c' = c\<lparr>c_alloc := al, c_back := bk\<rparr>"
    using assms(6) nb(1) by (auto simp: writeKeyslot_def buf_def bl Let_def split: sum.splits prod.splits option.splits)
  have len: "length buf = nb * ?bs" "buf \<noteq> []" using nb(2) assms(4) by (auto simp: buf_def bl)
  have d: "bk_data bk = file_write off buf (bk_data (c_back c))" "bk_rfail bk = bk_rfail (c_back c)"
    using WriteAt_ok [OF w(2)] w(3) by auto
  have dl: "off + nb * ?bs \<le> length (bk_data bk)" using d(1) len by (simp add: length_file_write)
  have sl: "bslice off (off + nb * ?bs) (bk_data bk) = buf" using d(1) len(1) bslice_file_write_same [of off buf] by simp
  have rd: "ReadAt m (off + j) bk = Inr (bslice j (j + m) buf)" if "j + m \<le> nb * ?bs" for j m
  proof -
    have "bslice (off + j) (off + j + m) (bk_data bk) = bslice j (j + m) buf"
      using bslice_sub [of off "off + j" "off + j + m" "off + nb * ?bs" "bk_data bk"] that unfolding sl by simp
    then show ?thesis using that dl assms(3) d(2) by (simp add: ReadAt_def readable_def)
  qed
  have head: "ReadAt 26 off bk = Inr (keyslotBanner @ le_bytes 4 (length blob))"
    using rd [of 0 26] nb(2) by (simp add: buf_def bl)
  have blob: "ReadAt (length blob) (off + 26) bk = Inr blob"
    using rd [of 26 "length blob"] nb(2) by (simp add: buf_def bslice_def bl)
  have n: "le_nat (le_bytes 4 (length blob)) = length blob"
    using small by (intro le_nat_le_bytes) simp
  have "off + 26 + length blob \<le> length (bk_data bk)" "length (bk_data bk) < 2 ^ 63"
    using dl nb(2) assms(7) w(4) by auto
  then have "add64 (add64 off 26) (length blob) \<le> length (bk_data bk)" by (simp add: add64_exact)
  moreover have "nb mod 2 ^ 32 = nb" using nb(3) small by simp
  ultimately show ?thesis
    using head blob n nb(1,2) assms(4,5) w(4) by (auto simp: readKeyslot_def bl)
qed

end
