(* ===== verification/Unit_Cipher.thy ===== *)
theory Unit_Cipher
  imports Vault_Container
begin

text \<open>
  Files encrypted unit by unit: the scheme \<^verbatim>\<open>src/vfs/crypto/iomethods.go\<close> (\<^verbatim>\<open>encryptSpan\<close>,
  \<^verbatim>\<open>decryptSpan\<close>) and the auxiliary files of \<^verbatim>\<open>src/vfs/vault/vfs.go\<close> (\<^verbatim>\<open>cryptPages\<close>) share. A file is cut in
  units of \<open>u\<close> bytes, each enciphered in place under its number and the file's domain; a unit of zeros
  is a hole and is not deciphered. Reads and writes are rounded out to whole units.

  \<open>unit_plain\<close> is what a file on disk means. The lemmas show what a rounded read returns of it and how a
  rounded read-modify-write changes it.
\<close>

section \<open>Unit-wise application\<close>

fun crypt_units :: "nat \<Rightarrow> (nat \<Rightarrow> bytes \<Rightarrow> bytes) \<Rightarrow> nat \<Rightarrow> bytes \<Rightarrow> bytes" where
  "crypt_units u g off b =
     (if u = 0 \<or> length b < u then b
      else g (off div u) (take u b) @ crypt_units u g (off + u) (drop u b))"

declare crypt_units.simps [simp del]

definition enc_unit :: "pageCipher \<Rightarrow> byte \<Rightarrow> nat \<Rightarrow> bytes \<Rightarrow> bytes" where
  "enc_unit ci d n b = encrypt ci b n d"

definition dec_unit :: "pageCipher \<Rightarrow> byte \<Rightarrow> nat \<Rightarrow> bytes \<Rightarrow> bytes" where
  "dec_unit ci d n b = (if allZero b then b else decrypt ci b n d)"

definition unit_plain :: "nat \<Rightarrow> pageCipher \<Rightarrow> byte \<Rightarrow> bytes \<Rightarrow> bytes" where
  "unit_plain u ci d disk = crypt_units u (dec_unit ci d) 0 disk"

text \<open>The laws of a length-preserving cipher, in both directions.\<close>

definition unit_cipher_ok :: "pageCipher \<Rightarrow> bool" where
  "unit_cipher_ok ci \<longleftrightarrow> cipher_ok ci \<and> (\<forall>b t d. length (decrypt ci b t d) = length b)"

text \<open>No unit of the plaintext \<open>b\<close> other than a unit of zeros is enciphered to zeros, which a later read
  would take for a hole. The sources rely on it: such a ciphertext is improbable, not impossible.\<close>

fun no_false_hole :: "nat \<Rightarrow> pageCipher \<Rightarrow> byte \<Rightarrow> nat \<Rightarrow> bytes \<Rightarrow> bool" where
  "no_false_hole u ci d off b \<longleftrightarrow>
     (if u = 0 \<or> length b < u then True
      else (allZero (enc_unit ci d (off div u) (take u b)) \<longrightarrow> allZero (take u b))
        \<and> no_false_hole u ci d (off + u) (drop u b))"

declare no_false_hole.simps [simp del]

definition keeps_length :: "(nat \<Rightarrow> bytes \<Rightarrow> bytes) \<Rightarrow> bool" where
  "keeps_length g \<longleftrightarrow> (\<forall>n b. length (g n b) = length b)"

lemma keeps_length_units [simp]:
  "unit_cipher_ok ci \<Longrightarrow> keeps_length (enc_unit ci d)" "unit_cipher_ok ci \<Longrightarrow> keeps_length (dec_unit ci d)"
  by (auto simp: keeps_length_def unit_cipher_ok_def cipher_ok_def enc_unit_def dec_unit_def)

lemma length_crypt_units [simp]: "keeps_length g \<Longrightarrow> length (crypt_units u g off b) = length b"
proof (induction u g off b rule: crypt_units.induct)
  case (1 u g off b)
  then show ?case by (subst crypt_units.simps) (auto simp: keeps_length_def)
qed

lemma crypt_units_Nil [simp]: "crypt_units u g off [] = []"
  by (cases u) (simp_all add: crypt_units.simps)

lemma crypt_units_append:
  assumes "u dvd length a"
  shows "crypt_units u g off (a @ b) = crypt_units u g off a @ crypt_units u g (off + length a) b"
  using assms
proof (induction u g off a rule: crypt_units.induct)
  case (1 u g off a)
  show ?case
  proof (cases "u = 0 \<or> length a < u")
    case True
    then have "a = []" using 1(2) by (auto dest: nat_dvd_not_less)
    then show ?thesis by simp
  next
    case False
    then have "u dvd length (drop u a)" using 1(2) by simp
    then have "crypt_units u g (off + u) (drop u a @ b) =
        crypt_units u g (off + u) (drop u a) @ crypt_units u g (off + u + length (drop u a)) b"
      using 1(1) False by simp
    moreover have "off + u + length (drop u a) = off + length a" using False by simp
    ultimately show ?thesis
      using False by (subst (1 2) crypt_units.simps) (simp del: length_drop)
  qed
qed

lemma allZero_replicate [simp]: "allZero (replicate n 0)"
  by (simp add: allZero_def list_all_length)

lemma allZero_take: "allZero b \<Longrightarrow> allZero (take n b)"
  by (auto simp: allZero_def list_all_iff dest: in_set_takeD)

lemma dec_zeros [simp]: "crypt_units u (dec_unit ci d) off (replicate n 0) = replicate n 0"
proof (induction n arbitrary: off rule: less_induct)
  case (less n)
  show ?case
  proof (cases "u = 0 \<or> n < u")
    case False
    then have "crypt_units u (dec_unit ci d) (off + u) (replicate (n - u) 0) = replicate (n - u) 0"
      by (intro less) auto
    moreover have "replicate u 0 @ replicate (n - u) 0 = replicate n (0 :: byte)"
      using False by (simp flip: replicate_add)
    ultimately show ?thesis
      using False by (subst crypt_units.simps) (simp add: dec_unit_def min_absorb1)
  qed (subst crypt_units.simps, simp)
qed

lemma dec_enc_unit:
  assumes "unit_cipher_ok ci" "allZero (enc_unit ci d n b) \<longrightarrow> allZero b"
  shows "dec_unit ci d n (enc_unit ci d n b) = b"
proof (cases "allZero (enc_unit ci d n b)")
  case True
  have zeros: "x = replicate (length x) 0" if "allZero x" for x
    using that by (auto simp: allZero_def list_all_iff intro!: replicate_eqI)
  have "length (enc_unit ci d n b) = length b"
    using assms(1) by (simp add: unit_cipher_ok_def cipher_ok_def enc_unit_def)
  then have "enc_unit ci d n b = b" using zeros [OF True] zeros [of b] assms(2) True by metis
  then show ?thesis using True by (simp add: dec_unit_def)
next
  case False
  then show ?thesis using assms(1) by (simp add: dec_unit_def enc_unit_def unit_cipher_ok_def cipher_ok_def)
qed

lemma dec_enc_units:
  assumes "unit_cipher_ok ci" "no_false_hole u ci d off b"
  shows "crypt_units u (dec_unit ci d) off (crypt_units u (enc_unit ci d) off b) = b"
  using assms(2)
proof (induction "length b" arbitrary: off b rule: less_induct)
  case less
  show ?case
  proof (cases "u = 0 \<or> length b < u")
    case True
    then show ?thesis by (simp add: crypt_units.simps)
  next
    case False
    let ?x = "enc_unit ci d (off div u) (take u b)"
    have shorter: "length (drop u b) < length b" using False by auto
    have hole: "allZero ?x \<longrightarrow> allZero (take u b)" and rest: "no_false_hole u ci d (off + u) (drop u b)"
      using less(2) False by (subst (asm) no_false_hole.simps, simp)+
    have len: "length ?x = u" using assms(1) False keeps_length_units(1) [OF assms(1)] by (simp add: keeps_length_def)
    have "crypt_units u (enc_unit ci d) off b = ?x @ crypt_units u (enc_unit ci d) (off + u) (drop u b)"
      using False by (subst crypt_units.simps) simp
    moreover have "crypt_units u (dec_unit ci d) off ?x = take u b"
      using False len dec_enc_unit [OF assms(1) hole] by (subst crypt_units.simps) simp
    ultimately show ?thesis
      using len less(1) [OF shorter rest] by (simp add: crypt_units_append)
  qed
qed

section \<open>Rounded reads and writes\<close>

definition unit_start :: "nat \<Rightarrow> nat \<Rightarrow> nat" where
  "unit_start u off = off div u * u"

definition unit_end :: "nat \<Rightarrow> nat \<Rightarrow> nat \<Rightarrow> nat" where
  "unit_end u off n = (off + n + u - 1) div u * u"

text \<open>What a read of \<open>n\<close> bytes at \<open>off\<close> gives when the bytes past the end of the file are zeros.\<close>

definition read_zeros :: "nat \<Rightarrow> nat \<Rightarrow> bytes \<Rightarrow> bytes" where
  "read_zeros n off f = bslice off (off + n) (f @ replicate (off + n - length f) 0)"

definition pad_to :: "nat \<Rightarrow> bytes \<Rightarrow> bytes" where
  "pad_to n f = f @ replicate (n - length f) 0"

lemma length_pad_to [simp]: "length (pad_to n f) = max n (length f)"
  by (simp add: pad_to_def)

lemma read_zeros_pad: "read_zeros n off f = bslice off (off + n) (pad_to (off + n) f)"
  by (simp add: read_zeros_def pad_to_def)

lemma length_read_zeros [simp]: "length (read_zeros n off f) = n"
  by (simp add: read_zeros_def)

lemma slice_pad:
  assumes "off + n \<le> m"
  shows "bslice off (off + n) (pad_to m f) = read_zeros n off f"
proof -
  have "pad_to m f = pad_to (off + n) f @ replicate (m - max (off + n) (length f)) 0"
    using assms by (auto simp: pad_to_def max_def simp flip: replicate_add)
  then show ?thesis by (simp add: read_zeros_pad slice_append_left)
qed

lemma blit_append_left: "off + length src \<le> length a \<Longrightarrow> blit off src (a @ b) = blit off src a @ b"
  by (simp add: blit_def)

lemma blit_append_right: "length a \<le> off \<Longrightarrow> blit off src (a @ b) = a @ blit (off - length a) src b"
  by (simp add: blit_def add.commute)

lemma file_write_pad:
  assumes "src \<noteq> []" "off + length src \<le> m"
  shows "pad_to m (file_write off src f) = blit off src (pad_to m f)"
proof -
  have "pad_to m f = (f @ replicate (off + length src - length f) 0) @ replicate (m - max (off + length src) (length f)) 0"
    using assms by (auto simp: pad_to_def max_def simp flip: replicate_add)
  then show ?thesis
    using assms by (simp add: file_write_def pad_to_def blit_append_left max.commute del: append_assoc)
qed

lemma unit_bounds:
  assumes "0 < u"
  shows "unit_start u off \<le> off" "off + n \<le> unit_end u off n" "u dvd unit_start u off" "u dvd unit_end u off n"
    "unit_start u off \<le> unit_end u off n" "0 < n \<Longrightarrow> unit_start u off < unit_end u off n"
    "unit_end u off n < off + n + u"
proof -
  show 1: "unit_start u off \<le> off" by (simp add: unit_start_def)
  have "off + n + u - 1 < (off + n + u - 1) div u * u + u"
    using dividend_less_div_times [OF assms, of "off + n + u - 1"] by linarith
  then show 2: "off + n \<le> unit_end u off n" unfolding unit_end_def using assms by linarith
  show "unit_start u off \<le> unit_end u off n" "0 < n \<Longrightarrow> unit_start u off < unit_end u off n" using 1 2 by linarith+
  have "unit_end u off n \<le> off + n + u - 1" by (simp add: unit_end_def)
  then show "unit_end u off n < off + n + u" using assms by linarith
qed (simp_all add: unit_start_def unit_end_def)

lemma span_bounds:
  assumes "0 < u" "s = unit_start u off" "e = unit_end u off n"
  shows "s \<le> off" "off + n \<le> e" "u dvd s" "u dvd e" "s \<le> e" "0 < n \<Longrightarrow> s < e"
  using unit_bounds [OF assms(1)] assms(2,3) by auto

text \<open>The end of the rounded span lies inside a file of whole units exactly when the request does.\<close>

lemma unit_end_le_iff:
  assumes "0 < u" "u dvd m"
  shows "unit_end u off n \<le> m \<longleftrightarrow> off + n \<le> m"
proof
  assume "off + n \<le> m"
  then have "unit_end u off n < m + u" using unit_bounds(7) [OF assms(1), of off n] by linarith
  moreover obtain j where j: "m = u * j" using assms(2) by auto
  moreover obtain k where k: "unit_end u off n = u * k" using unit_bounds(4) [OF assms(1)] by (metis dvd_def)
  ultimately have "u * k < u * Suc j" by simp
  then have "k < Suc j" by (simp only: mult_less_cancel1)
  then show "unit_end u off n \<le> m" using j k by simp
qed (use unit_bounds(2) [OF assms(1), of off n] in linarith)

lemma unit_plain_pad:
  "unit_cipher_ok ci \<Longrightarrow> u dvd length disk \<Longrightarrow> unit_plain u ci d (pad_to m disk) = pad_to m (unit_plain u ci d disk)"
  by (auto simp: unit_plain_def pad_to_def crypt_units_append)

lemma unit_plain_split:
  assumes "u dvd s" "u dvd e" "s \<le> e" "e \<le> length disk"
  shows "unit_plain u ci d disk = unit_plain u ci d (take s disk) @ crypt_units u (dec_unit ci d) s (bslice s e disk)
     @ crypt_units u (dec_unit ci d) e (drop e disk)"
proof -
  have "disk = take s disk @ bslice s e disk @ drop e disk"
    using assms(3) by (metis append_take_drop_id bslice_join slice_0 append_assoc zero_le)
  then have "unit_plain u ci d disk = unit_plain u ci d (take s disk @ bslice s e disk @ drop e disk)" by simp
  then show ?thesis using assms by (simp add: unit_plain_def crypt_units_append min_absorb2 )
qed

lemma length_unit_plain [simp]: "unit_cipher_ok ci \<Longrightarrow> length (unit_plain u ci d disk) = length disk"
  by (simp add: unit_plain_def)

text \<open>A read: the units around the request, zero-filled past the end of the file and deciphered, hold the
  bytes of the plaintext.\<close>

lemma unit_read:
  assumes "unit_cipher_ok ci" "0 < u" "u dvd length disk" "s = unit_start u off" "e = unit_end u off n"
  shows "bslice (off - s) (off - s + n) (crypt_units u (dec_unit ci d) s (read_zeros (e - s) s disk)) =
    read_zeros n off (unit_plain u ci d disk)"
proof -
  note b = span_bounds [OF assms(2,4,5)]
  let ?D = "pad_to e disk" and ?dec = "crypt_units u (dec_unit ci d)"
  have m: "read_zeros (e - s) s disk = bslice s e ?D" using b(5) by (simp add: read_zeros_pad)
  have "read_zeros n off (unit_plain u ci d disk) = bslice off (off + n) (pad_to e (unit_plain u ci d disk))"
    using b(2) by (simp add: slice_pad)
  also have "\<dots> = bslice off (off + n) (unit_plain u ci d ?D)"
    using unit_plain_pad [OF assms(1,3), of d e] assms(1) by simp
  also have "\<dots> = bslice (off - s) (off + n - s) (?dec s (bslice s e ?D) @ ?dec e (drop e ?D))"
    using unit_plain_split [of u s e ?D ci d] b assms(1)
    by (simp add: slice_append_right min_absorb2 max_def)
  also have "\<dots> = bslice (off - s) (off + n - s) (?dec s (bslice s e ?D))"
    using b assms(1) by (simp add: slice_append_left)
  also have "off + n - s = off - s + n" using b(1) by simp
  finally show ?thesis by (simp add: m)
qed

text \<open>A write: the units around it deciphered, the new bytes put in place, the units enciphered and written
  back. The plaintext changes as a plain file would, and is extended with zeros to a whole unit.\<close>

lemma unit_write:
  assumes "unit_cipher_ok ci" "0 < u" "u dvd length disk" "src \<noteq> []"
    and "s = unit_start u off" "e = unit_end u off (length src)"
    and span: "span = blit (off - s) src (crypt_units u (dec_unit ci d) s (read_zeros (e - s) s disk))"
    and "no_false_hole u ci d s span"
  shows "unit_plain u ci d (file_write s (crypt_units u (enc_unit ci d) s span) disk) =
      pad_to e (file_write off src (unit_plain u ci d disk))"
    and "u dvd length (file_write s (crypt_units u (enc_unit ci d) s span) disk)"
proof -
  note b = span_bounds [OF assms(2,5,6)]
  let ?D = "pad_to e disk" and ?dec = "crypt_units u (dec_unit ci d)"
  let ?X = "crypt_units u (enc_unit ci d) s span" and ?P = "unit_plain u ci d"
  have m: "read_zeros (e - s) s disk = bslice s e ?D" using b(5) by (simp add: read_zeros_pad)
  have le: "e \<le> length ?D" by simp
  have lX: "length ?X = e - s" using assms(1) b le by (simp add: span m)
  have ne: "s < e" using b(6) assms(4) by simp
  then have "?X \<noteq> []" using lX by (metis list.size(3) zero_less_diff less_numeral_extra(3))
  then have fw: "file_write s ?X disk = take s ?D @ ?X @ drop e ?D"
    using lX b(5) le by (simp add: file_write_def blit_def pad_to_def)
  have uD: "u dvd length ?D" using assms(3) b(4) by (simp add: max_def)
  show "u dvd length (file_write s ?X disk)"
    using uD lX b(5) le \<open>?X \<noteq> []\<close> by (simp add: length_file_write max.commute)
  have "?P (file_write s ?X disk) = ?P (take s ?D) @ ?dec s ?X @ ?dec e (drop e ?D)"
    unfolding fw using b lX le by (simp add: unit_plain_def crypt_units_append  min_absorb2)
  also have "?dec s ?X = span" using dec_enc_units assms(1,8) by simp
  also have "?P (take s ?D) @ span @ ?dec e (drop e ?D) = blit off src (?P ?D)"
    using unit_plain_split [of u s e ?D ci d] b le assms(1)
    by (simp add: span m blit_append_right blit_append_left min_absorb2)
  also have "\<dots> = pad_to e (file_write off src (?P disk))"
    using unit_plain_pad [OF assms(1,3), of d e] assms(1,4) b(2) by (simp add: file_write_pad)
  finally show "?P (file_write s ?X disk) = pad_to e (file_write off src (?P disk))" .
qed

lemma unit_truncate:
  assumes "unit_cipher_ok ci" "0 < u" "u dvd n" "u dvd length disk"
  shows "unit_plain u ci d (file_truncate n disk) = file_truncate n (unit_plain u ci d disk)"
proof (cases "n \<le> length disk")
  case True
  then have "unit_plain u ci d disk = unit_plain u ci d (take n disk) @ crypt_units u (dec_unit ci d) n (drop n disk)"
    using assms unit_plain_split [of u n n disk ci d] by simp
  then show ?thesis using True assms by (simp add: file_truncate_def)
next
  case False
  then show ?thesis
    using assms(1) unit_plain_pad [OF assms(1,4), of d n] by (simp add: file_truncate_def pad_to_def)
qed

text \<open>The plaintext of the units around a write, after it.\<close>

definition new_span :: "nat \<Rightarrow> nat \<Rightarrow> bytes \<Rightarrow> bytes \<Rightarrow> bytes" where
  "new_span u off src f = (let s = unit_start u off; e = unit_end u off (length src)
     in blit (off - s) src (read_zeros (e - s) s f))"

lemma new_span_whole:
  assumes "off = unit_start u off" "length src = unit_end u off (length src) - unit_start u off"
  shows "new_span u off src f = src"
proof -
  have "unit_end u off (length src) - off = length src" using assms by argo
  with assms(1) [symmetric] show ?thesis by (simp add: new_span_def Let_def blit_def)
qed

lemma decipher_span:
  assumes "unit_cipher_ok ci" "0 < u" "u dvd length disk" "s = unit_start u off" "e = unit_end u off n"
  shows "crypt_units u (dec_unit ci d) s (read_zeros (e - s) s disk) = read_zeros (e - s) s (unit_plain u ci d disk)"
proof -
  note b = span_bounds [OF assms(2,4,5)]
  have s: "unit_start u s = s" using b(3) by (simp add: unit_start_def)
  have "unit_end u s (e - s) = e"
    using unit_end_le_iff [OF assms(2) b(4), of s "e - s"] unit_bounds(2) [OF assms(2), of s "e - s"] b(5) by simp
  with unit_read [OF assms(1-3), of s s _ "e - s" d] s assms(1) show ?thesis by simp
qed

end
