(* ===== verification/Token_Registry.thy ===== *)
theory Token_Registry
  imports Prelude
begin

text \<open>
  \<^verbatim>\<open>internal/cabi/registry.go\<close> and \<^verbatim>\<open>ptrmap.go\<close>: the tables through which C callbacks find their Go
  objects. A \<^verbatim>\<open>Registry\<close> mints the tokens it is keyed by from a 64-bit counter; a \<^verbatim>\<open>PtrMap\<close> is keyed by
  addresses the caller supplies. A stored \<^verbatim>\<open>*T\<close> is its object, and a Go map an association list with
  distinct keys whose order stands for the order of a \<^verbatim>\<open>range\<close>.
\<close>

section \<open>Registry\<close>

record 'a registry =
  rg_next :: nat
  rg_m :: "(nat \<times> 'a) list"

definition NewRegistry :: "'a registry" where
  "NewRegistry = \<lparr>rg_next = 0, rg_m = []\<rparr>"

definition Register :: "'a \<Rightarrow> 'a registry \<Rightarrow> nat \<times> 'a registry" where
  "Register v r = (let tok = add64 (rg_next r) 1
     in (tok, r\<lparr>rg_next := tok, rg_m := AList.update tok v (rg_m r)\<rparr>))"

definition Lookup :: "nat \<Rightarrow> 'a registry \<Rightarrow> 'a option" where
  "Lookup tok r = (if tok = 0 then None else map_of (rg_m r) tok)"

definition Unregister :: "nat \<Rightarrow> 'a registry \<Rightarrow> 'a registry" where
  "Unregister tok r = r\<lparr>rg_m := AList.delete tok (rg_m r)\<rparr>"

text \<open>The callback of \<^verbatim>\<open>Range\<close> may change state of its own, so it is a state transformer that also says
  whether to go on.\<close>

fun range_loop :: "(nat \<Rightarrow> 'a \<Rightarrow> 's \<Rightarrow> bool \<times> 's) \<Rightarrow> (nat \<times> 'a) list \<Rightarrow> 's \<Rightarrow> 's" where
  "range_loop f [] s = s"
| "range_loop f ((tok, v) # ps) s = (case f tok v s of (go, s') \<Rightarrow> if go then range_loop f ps s' else s')"

definition Range :: "(nat \<Rightarrow> 'a \<Rightarrow> 's \<Rightarrow> bool \<times> 's) \<Rightarrow> 'a registry \<Rightarrow> 's \<Rightarrow> 's" where
  "Range f r s = range_loop f (rg_m r) s"

definition DeleteWhere :: "(nat \<Rightarrow> 'a \<Rightarrow> bool) \<Rightarrow> 'a registry \<Rightarrow> 'a registry" where
  "DeleteWhere pred r = r\<lparr>rg_m := filter (\<lambda>(tok, v). \<not> pred tok v) (rg_m r)\<rparr>"

text \<open>Everything in the table was minted: its keys are nonzero and at most the counter.\<close>

definition reg_inv :: "'a registry \<Rightarrow> bool" where
  "reg_inv r \<longleftrightarrow> rg_next r < 2 ^ 64 \<and> distinct (map fst (rg_m r)) \<and>
     (\<forall>tok\<in>fst ` set (rg_m r). 0 < tok \<and> tok \<le> rg_next r)"

definition exhausted :: "'a registry \<Rightarrow> bool" where
  "exhausted r \<longleftrightarrow> rg_next r = 2 ^ 64 - 1"

lemma NewRegistry_inv [simp]: "reg_inv NewRegistry"
  by (simp add: reg_inv_def NewRegistry_def)

lemma Register_tok: "reg_inv r \<Longrightarrow> \<not> exhausted r \<Longrightarrow> Register v r =
    (Suc (rg_next r), r\<lparr>rg_next := Suc (rg_next r), rg_m := AList.update (Suc (rg_next r)) v (rg_m r)\<rparr>)"
  by (simp add: Register_def Let_def reg_inv_def exhausted_def add64_def)

lemma dom_bound: "reg_inv r \<Longrightarrow> map_of (rg_m r) tok = Some v \<Longrightarrow> 0 < tok \<and> tok \<le> rg_next r"
proof -
  assume inv: "reg_inv r" and "map_of (rg_m r) tok = Some v"
  then have "tok \<in> fst ` set (rg_m r)" by (metis domI dom_map_of_conv_image_fst)
  with inv show ?thesis unfolding reg_inv_def by blast
qed

section \<open>The contract of a table of minted tokens\<close>

text \<open>What the trampolines rely on: a new token is nonzero and resolves to nothing yet, it resolves to
  its object until it is unregistered, and no operation on one token disturbs another.\<close>

locale token_table =
  fixes mint :: "'a \<Rightarrow> 'r \<Rightarrow> nat \<times> 'r"
    and find_tok :: "nat \<Rightarrow> 'r \<Rightarrow> 'a option"
    and drop_tok :: "nat \<Rightarrow> 'r \<Rightarrow> 'r"
    and ok :: "'r \<Rightarrow> bool"
    and full :: "'r \<Rightarrow> bool"
  assumes mint_ok: "ok r \<Longrightarrow> \<not> full r \<Longrightarrow> ok (snd (mint v r))"
    and mint_fresh: "ok r \<Longrightarrow> \<not> full r \<Longrightarrow> fst (mint v r) \<noteq> 0 \<and> find_tok (fst (mint v r)) r = None"
    and find_mint: "ok r \<Longrightarrow> \<not> full r \<Longrightarrow>
        find_tok t (snd (mint v r)) = (if t = fst (mint v r) then Some v else find_tok t r)"
    and drop_ok: "ok r \<Longrightarrow> ok (drop_tok t r)"
    and find_drop: "ok r \<Longrightarrow> find_tok t' (drop_tok t r) = (if t' = t then None else find_tok t' r)"
begin

text \<open>Two live registrations never share a token, and a dropped token stays dead until it is minted again.\<close>

lemma live_tokens_distinct:
  assumes "ok r" "\<not> full r" "find_tok t r = Some w"
  shows "t \<noteq> fst (mint v r)" "find_tok t (snd (mint v r)) = Some w"
  using assms mint_fresh [OF assms(1,2)] find_mint [OF assms(1,2)] by auto

lemma drop_only:
  assumes "ok r" "t' \<noteq> t"
  shows "find_tok t' (drop_tok t r) = find_tok t' r" "find_tok t (drop_tok t r) = None"
  using assms find_drop by auto

end

lemma map_of_zero: "reg_inv r \<Longrightarrow> map_of (rg_m r) 0 = None"
  by (cases "map_of (rg_m r) 0") (auto dest: dom_bound)

lemma Register_inv:
  assumes "reg_inv r" "\<not> exhausted r"
  shows "reg_inv (snd (Register v r))"
proof -
  have "fst ` set (AList.update (Suc (rg_next r)) v (rg_m r)) = insert (Suc (rg_next r)) (fst ` set (rg_m r))"
    by (simp only: dom_map_of_conv_image_fst [symmetric] update_conv' dom_fun_upd) simp
  then show ?thesis using assms
    by (auto simp: Register_tok) (auto simp: reg_inv_def exhausted_def distinct_update)
qed

interpretation cabi: token_table Register Lookup Unregister reg_inv exhausted
proof (unfold_locales, goal_cases)
  case (1 r v)
  then show ?case by (rule Register_inv)
next
  case (2 r v)
  then show ?case using dom_bound [of r "Suc (rg_next r)"]
    by (cases "map_of (rg_m r) (Suc (rg_next r))") (auto simp: Register_tok Lookup_def)
next
  case (3 r t v)
  then show ?case by (simp add: Register_tok Lookup_def update_conv')
next
  case (4 r t)
  then show ?case by (auto simp: reg_inv_def Unregister_def set_delete distinct_delete)
next
  case (5 r t' t)
  then show ?case by (simp add: Unregister_def Lookup_def delete_conv')
qed

lemma DeleteWhere_inv:
  "reg_inv r \<Longrightarrow> reg_inv (DeleteWhere pred r)"
  by (auto simp: reg_inv_def DeleteWhere_def distinct_map_filter)

lemma Lookup_DeleteWhere:
  "reg_inv r \<Longrightarrow> Lookup tok (DeleteWhere pred r)
     = (case Lookup tok r of None \<Rightarrow> None | Some v \<Rightarrow> if pred tok v then None else Some v)"
  by (auto simp: Lookup_def DeleteWhere_def reg_inv_def map_of_filter_distinct split: option.splits)

section \<open>PtrMap\<close>

type_synonym 'a ptrMap = "(nat \<times> 'a) list"

definition PtrMap_Set :: "nat \<Rightarrow> 'a \<Rightarrow> 'a ptrMap \<Rightarrow> 'a ptrMap" where
  "PtrMap_Set tok v m = AList.update tok v m"

definition PtrMap_Get :: "nat \<Rightarrow> 'a ptrMap \<Rightarrow> 'a option" where
  "PtrMap_Get tok m = (if tok = 0 then None else map_of m tok)"

definition PtrMap_Delete :: "nat \<Rightarrow> 'a ptrMap \<Rightarrow> 'a ptrMap" where
  "PtrMap_Delete tok m = AList.delete tok m"

section \<open>Properties\<close>

text \<open>A token handed out by \<^verbatim>\<open>Register\<close> is never zero and never equal to the token of a live
  registration; it resolves to the registered object, every other token resolves as before, and after
  \<^verbatim>\<open>Unregister\<close> it resolves to nothing. This holds until the 64-bit counter is exhausted.\<close>

theorem registry_tokens:
  assumes "reg_inv r" "\<not> exhausted r" "Register v r = (tok, r')"
  shows "tok \<noteq> 0 \<and> Lookup tok r = None \<and> Lookup tok r' = Some v \<and> reg_inv r' \<and>
     (\<forall>t. t \<noteq> tok \<longrightarrow> Lookup t r' = Lookup t r) \<and> Lookup tok (Unregister tok r') = None"
  using cabi.mint_fresh [OF assms(1,2), of v] cabi.find_mint [OF assms(1,2), of _ v]
    cabi.mint_ok [OF assms(1,2), of v] cabi.find_drop [of r' tok tok] assms(3)
  by simp

theorem registry_tokens_witness:
  "Register True NewRegistry = (1, \<lparr>rg_next = 1, rg_m = [(1, True)]\<rparr>) \<and>
   Lookup 1 \<lparr>rg_next = 1, rg_m = [(1, True)]\<rparr> = Some True"
proof -
  have r: "Register True NewRegistry = (1, \<lparr>rg_next = 1, rg_m = [(1, True)]\<rparr>)"
    by (simp add: Register_def NewRegistry_def add64_def)
  from registry_tokens [OF NewRegistry_inv _ this] r show ?thesis
    by (simp add: exhausted_def NewRegistry_def)
qed

text \<open>A \<^verbatim>\<open>PtrMap\<close> returns the last value set under a nonzero key and nothing after a delete, and an
  operation on one key leaves the others alone.\<close>

theorem ptrmap_laws:
  "PtrMap_Get t (PtrMap_Set tok v m) = (if t = tok \<and> t \<noteq> 0 then Some v else PtrMap_Get t m) \<and>
   PtrMap_Get t (PtrMap_Delete tok m) = (if t = tok then None else PtrMap_Get t m)"
  by (auto simp: PtrMap_Get_def PtrMap_Set_def PtrMap_Delete_def update_conv' delete_conv')

end
