(* ===== verification/Shm.thy ===== *)
theory Shm
  imports Token_Registry
begin

unbundle bit_operations_syntax

text \<open>
  \<^verbatim>\<open>src/vfs/shm.go\<close>: the WAL shared memory that the dispatcher keeps for files of a custom VFS.
  Files that name the same sharing key attach to one \<^verbatim>\<open>shmGroup\<close>: its regions are C allocations, and
  its eight lock slots arbitrate the WAL protocol.

  Objects reached through pointers live in lists and a pointer is an index: \<open>shm_files\<close> holds the
  \<^verbatim>\<open>openFile\<close> objects and \<open>shm_groups\<close> the \<^verbatim>\<open>shmGroup\<close> objects. \<open>file_token\<close> is the tail block of
  each C file, and \<open>c_live\<close> the list of the C allocations the package has not freed. The C library's
  \<^verbatim>\<open>Xcalloc\<close> is the parameter \<open>mem\<close>, the address its k-th call returns (0 when it fails), and
  the type assertion to \<^verbatim>\<open>ShmFile\<close> with its \<^verbatim>\<open>ShmGroup\<close> method is the parameter \<open>sf\<close>.
\<close>

section \<open>State\<close>

text \<open>Result codes are \<^verbatim>\<open>int32\<close>, as SQLite defines them.\<close>

type_synonym rcode = "32 word"

definition rc_ok :: rcode where "rc_ok = 0"
definition rc_busy :: rcode where "rc_busy = 5"
definition ioerr :: "nat \<Rightarrow> rcode" where "ioerr k = 10 OR push_bit 8 (of_nat k)"
definition rc_ioerr_nomem :: rcode where "rc_ioerr_nomem = ioerr 12"
definition rc_ioerr_shmlock :: rcode where "rc_ioerr_shmlock = ioerr 20"
definition rc_ioerr_shmmap :: rcode where "rc_ioerr_shmmap = ioerr 21"

lemmas rc_defs = rc_ok_def rc_busy_def ioerr_def rc_ioerr_nomem_def rc_ioerr_shmlock_def rc_ioerr_shmmap_def

definition shmNLOCK :: nat where "shmNLOCK = 8"

record shmGroup =
  regions :: "nat list"
  sizes :: "32 word list"
  g_shared :: "int list"
  g_excl :: "bool list"
  g_refs :: int

record 'f openFile =
  of_file :: 'f
  of_vfs :: nat
  of_name :: string
  of_flags :: int
  of_shm :: "nat option"
  of_shmKey :: string

record 'f shmState =
  shmGroups :: "string \<rightharpoonup> nat"
  shm_groups :: "shmGroup list"
  shm_files :: "'f openFile list"
  fileRegistry :: "nat registry"
  file_token :: "nat \<Rightarrow> nat"
  c_live :: "nat list"

definition new_shmGroup :: shmGroup where
  "new_shmGroup = \<lparr>regions = [], sizes = [], g_shared = replicate shmNLOCK 0,
     g_excl = replicate shmNLOCK False, g_refs = 0\<rparr>"

definition fileFor :: "nat \<Rightarrow> ('f, 'z) shmState_scheme \<Rightarrow> nat option" where
  "fileFor pFile s = Lookup (file_token s pFile) (fileRegistry s)"

abbreviation group_of :: "nat \<Rightarrow> ('f, 'z) shmState_scheme \<Rightarrow> nat option" where
  "group_of f s \<equiv> of_shm (shm_files s ! f)"

section \<open>Attaching and detaching\<close>

text \<open>The group for a key, made on first use.\<close>

definition find_group :: "string \<Rightarrow> ('f, 'z) shmState_scheme \<Rightarrow> nat \<times> ('f, 'z) shmState_scheme" where
  "find_group key s = (case shmGroups s key of
       Some g \<Rightarrow> (g, s)
     | None \<Rightarrow> (length (shm_groups s),
         s\<lparr>shm_groups := shm_groups s @ [new_shmGroup], shmGroups := (shmGroups s)(key \<mapsto> length (shm_groups s))\<rparr>))"

definition attachShm :: "('f \<Rightarrow> string option) \<Rightarrow> nat \<Rightarrow> ('f, 'z) shmState_scheme
    \<Rightarrow> nat option \<times> ('f, 'z) shmState_scheme" where
  "attachShm sf f s = (case group_of f s of
       Some g \<Rightarrow> (Some g, s)
     | None \<Rightarrow> (case sf (of_file (shm_files s ! f)) of
         None \<Rightarrow> (None, s)
       | Some key \<Rightarrow> (case find_group key s of (g, s1) \<Rightarrow>
           (Some g, s1\<lparr>
             shm_groups := (shm_groups s1)[g := (shm_groups s1 ! g)\<lparr>g_refs := g_refs (shm_groups s1 ! g) + 1\<rparr>],
             shm_files := (shm_files s1)[f := (shm_files s1 ! f)\<lparr>of_shm := Some g, of_shmKey := key\<rparr>]\<rparr>))))"

definition detachShm :: "nat \<Rightarrow> ('f, 'z) shmState_scheme \<Rightarrow> ('f, 'z) shmState_scheme" where
  "detachShm f s = (case group_of f s of
       None \<Rightarrow> s
     | Some g \<Rightarrow>
         let s1 = s\<lparr>shm_files := (shm_files s)[f := (shm_files s ! f)\<lparr>of_shm := None\<rparr>]\<rparr>;
             gr = (shm_groups s ! g)\<lparr>g_refs := g_refs (shm_groups s ! g) - 1\<rparr>
         in if g_refs gr = 0
            then s1\<lparr>shmGroups := (shmGroups s)(of_shmKey (shm_files s ! f) := None),
                    c_live := fold remove1 (regions gr) (c_live s),
                    shm_groups := (shm_groups s)[g := gr\<lparr>regions := [], sizes := []\<rparr>]\<rparr>
            else s1\<lparr>shm_groups := (shm_groups s)[g := gr]\<rparr>)"

section \<open>Mapping a region\<close>

text \<open>\<open>k\<close> counts the calls of \<^verbatim>\<open>Xcalloc\<close>; the first component is \<open>False\<close> when one failed.\<close>

function grow :: "(nat \<Rightarrow> nat) \<Rightarrow> 32 word \<Rightarrow> nat \<Rightarrow> nat \<Rightarrow> shmGroup \<Rightarrow> nat list \<Rightarrow> bool \<times> shmGroup \<times> nat list" where
  "grow mem pgsz iRegion k g live = (if length (regions g) \<le> iRegion
     then (if mem k = 0 then (False, g, live)
           else grow mem pgsz iRegion (Suc k)
             (g\<lparr>regions := regions g @ [mem k], sizes := sizes g @ [pgsz]\<rparr>) (mem k # live))
     else (True, g, live))"
  by pat_completeness auto
termination
  by (relation "measure (\<lambda>(mem, pgsz, iRegion, k, g, live). Suc iRegion - length (regions g))") auto

declare grow.simps [simp del]

text \<open>The result is the code and what is stored through \<^verbatim>\<open>pp\<close>, if anything; the outer \<open>None\<close> is the panic
  of \<^verbatim>\<open>g.regions[iRegion]\<close> on a negative index.\<close>

definition map_region :: "(nat \<Rightarrow> nat) \<Rightarrow> 32 word \<Rightarrow> 32 word \<Rightarrow> 32 word \<Rightarrow> nat \<Rightarrow> ('f, 'z) shmState_scheme
    \<Rightarrow> (rcode \<times> nat option) option \<times> ('f, 'z) shmState_scheme" where
  "map_region mem iRegion pgsz bExtend g s = (let gr = shm_groups s ! g in
     if sint iRegion < 0 then (None, s)
     else if nat (sint iRegion) < length (regions gr)
       then (Some (rc_ok, Some (regions gr ! nat (sint iRegion))), s)
     else if bExtend = 0 then (Some (rc_ok, Some 0), s)
     else (case grow mem pgsz (nat (sint iRegion)) 0 gr (c_live s) of (done, gr', live') \<Rightarrow>
       let s' = s\<lparr>shm_groups := (shm_groups s)[g := gr'], c_live := live'\<rparr>
       in if done then (Some (rc_ok, Some (regions gr' ! nat (sint iRegion))), s')
          else (Some (rc_ioerr_nomem, Some 0), s')))"

definition xShmMap :: "('f \<Rightarrow> string option) \<Rightarrow> (nat \<Rightarrow> nat) \<Rightarrow> nat \<Rightarrow> 32 word \<Rightarrow> 32 word \<Rightarrow> 32 word
    \<Rightarrow> ('f, 'z) shmState_scheme \<Rightarrow> (rcode \<times> nat option) option \<times> ('f, 'z) shmState_scheme" where
  "xShmMap sf mem pFile iRegion pgsz bExtend s = (case fileFor pFile s of
       None \<Rightarrow> (Some (rc_ioerr_shmmap, None), s)
     | Some f \<Rightarrow> (case attachShm sf f s of
         (None, s1) \<Rightarrow> (Some (rc_ioerr_shmmap, None), s1)
       | (Some g, s1) \<Rightarrow> map_region mem iRegion pgsz bExtend g s1))"

section \<open>The lock table\<close>

definition SHM_UNLOCK :: "32 word" where "SHM_UNLOCK = 1"
definition SHM_LOCK :: "32 word" where "SHM_LOCK = 2"
definition SHM_SHARED :: "32 word" where "SHM_SHARED = 4"
definition SHM_EXCLUSIVE :: "32 word" where "SHM_EXCLUSIVE = 8"

definition dec_slot :: "nat \<Rightarrow> shmGroup \<Rightarrow> shmGroup" where
  "dec_slot i g = (if 0 < g_shared g ! i then g\<lparr>g_shared := (g_shared g)[i := g_shared g ! i - 1]\<rparr> else g)"

definition inc_slot :: "nat \<Rightarrow> shmGroup \<Rightarrow> shmGroup" where
  "inc_slot i g = g\<lparr>g_shared := (g_shared g)[i := g_shared g ! i + 1]\<rparr>"

definition set_excl :: "bool \<Rightarrow> nat \<Rightarrow> shmGroup \<Rightarrow> shmGroup" where
  "set_excl b i g = g\<lparr>g_excl := (g_excl g)[i := b]\<rparr>"

definition lock_slots :: "nat \<Rightarrow> nat \<Rightarrow> bool \<Rightarrow> bool \<Rightarrow> shmGroup \<Rightarrow> rcode \<times> shmGroup" where
  "lock_slots lo hi unlock sh g =
     (if unlock then (rc_ok, fold (if sh then dec_slot else set_excl False) [lo..<hi] g)
      else if sh then
        (if list_ex (\<lambda>i. g_excl g ! i) [lo..<hi] then (rc_busy, g)
         else (rc_ok, fold inc_slot [lo..<hi] g))
      else
        (if list_ex (\<lambda>i. g_excl g ! i \<or> 0 < g_shared g ! i) [lo..<hi] then (rc_busy, g)
         else (rc_ok, fold (set_excl True) [lo..<hi] g)))"

definition xShmLock :: "nat \<Rightarrow> 32 word \<Rightarrow> 32 word \<Rightarrow> 32 word \<Rightarrow> ('f, 'z) shmState_scheme
    \<Rightarrow> rcode \<times> ('f, 'z) shmState_scheme" where
  "xShmLock pFile offset n flags s = (case fileFor pFile s of
       None \<Rightarrow> (rc_ioerr_shmlock, s)
     | Some f \<Rightarrow> (case group_of f s of
         None \<Rightarrow> (rc_ioerr_shmlock, s)
       | Some g \<Rightarrow>
           let lo = sint offset; hi = sint (offset + n)
           in if lo < 0 \<or> int shmNLOCK < hi \<or> hi \<le> lo then (rc_ioerr_shmlock, s)
              else (case lock_slots (nat lo) (nat hi) (flags AND SHM_UNLOCK \<noteq> 0) (flags AND SHM_SHARED \<noteq> 0)
                      (shm_groups s ! g) of
                  (rc, gr) \<Rightarrow> (rc, s\<lparr>shm_groups := (shm_groups s)[g := gr]\<rparr>))))"

definition xShmUnmap :: "nat \<Rightarrow> ('f, 'z) shmState_scheme \<Rightarrow> rcode \<times> ('f, 'z) shmState_scheme" where
  "xShmUnmap pFile s = (case fileFor pFile s of None \<Rightarrow> (rc_ok, s) | Some f \<Rightarrow> (rc_ok, detachShm f s))"

section \<open>One lock table refines a reader-writer lock per slot\<close>

text \<open>The abstract lock: what each file holds on each slot.\<close>

datatype hold = HFree | HShared | HExcl

type_synonym holds = "nat \<Rightarrow> nat \<Rightarrow> hold"

definition hold_range :: "nat \<Rightarrow> nat \<Rightarrow> nat \<Rightarrow> hold \<Rightarrow> holds \<Rightarrow> holds" where
  "hold_range f lo hi m h = h(f := (\<lambda>i. if lo \<le> i \<and> i < hi then m else h f i))"

definition holds_all :: "nat \<Rightarrow> nat \<Rightarrow> nat \<Rightarrow> hold \<Rightarrow> holds \<Rightarrow> bool" where
  "holds_all f lo hi m h \<longleftrightarrow> (\<forall>i\<in>{lo..<hi}. h f i = m)"

text \<open>A request is compatible when no file of the group holds a slot of it in a conflicting mode.\<close>

definition compatible :: "nat set \<Rightarrow> nat \<Rightarrow> nat \<Rightarrow> bool \<Rightarrow> holds \<Rightarrow> bool" where
  "compatible A lo hi sh h \<longleftrightarrow>
     (\<forall>i\<in>{lo..<hi}. \<forall>f\<in>A. if sh then h f i \<noteq> HExcl else h f i = HFree)"

definition slot_exclusion :: "nat set \<Rightarrow> holds \<Rightarrow> nat \<Rightarrow> bool" where
  "slot_exclusion A h i \<longleftrightarrow> (\<forall>f\<in>A. \<forall>f'\<in>A. h f i = HExcl \<longrightarrow> f' \<noteq> f \<longrightarrow> h f' i = HFree)"

definition slots_ok :: "nat set \<Rightarrow> holds \<Rightarrow> shmGroup \<Rightarrow> bool" where
  "slots_ok A h g \<longleftrightarrow> length (g_shared g) = shmNLOCK \<and> length (g_excl g) = shmNLOCK \<and>
     (\<forall>i < shmNLOCK. g_shared g ! i = int (card {f \<in> A. h f i = HShared}) \<and>
        (g_excl g ! i \<longleftrightarrow> (\<exists>f\<in>A. h f i = HExcl)) \<and> slot_exclusion A h i)"

lemma fold_update_nth:
  "distinct is \<Longrightarrow> \<forall>i\<in>set is. i < length xs \<Longrightarrow> j < length xs \<Longrightarrow>
   fold (\<lambda>i xs. xs[i := u (xs ! i)]) is xs ! j = (if j \<in> set is then u (xs ! j) else xs ! j)"
proof (induction "is" arbitrary: xs)
  case (Cons i "is")
  have "fold (\<lambda>i xs. xs[i := u (xs ! i)]) is (xs[i := u (xs ! i)]) ! j =
      (if j \<in> set is then u (xs[i := u (xs ! i)] ! j) else xs[i := u (xs ! i)] ! j)"
    using Cons.prems by (intro Cons.IH) auto
  then show ?case using Cons.prems by (auto simp: nth_list_update)
qed simp

lemma fold_update_length [simp]: "length (fold (\<lambda>i xs. xs[i := u (xs ! i)]) is xs) = length xs"
  by (induction "is" arbitrary: xs) auto

lemma fold_inc [simp]:
  "g_shared (fold inc_slot is g) = fold (\<lambda>i xs. xs[i := xs ! i + 1]) is (g_shared g)"
  "g_excl (fold inc_slot is g) = g_excl g"
  by (induction "is" arbitrary: g) (auto simp: inc_slot_def)

lemma fold_dec [simp]:
  "g_shared (fold dec_slot is g) = fold (\<lambda>i xs. xs[i := (if 0 < xs ! i then xs ! i - 1 else xs ! i)]) is (g_shared g)"
  "g_excl (fold dec_slot is g) = g_excl g"
  by (induction "is" arbitrary: g) (auto simp: dec_slot_def)

lemma fold_excl [simp]:
  "g_excl (fold (set_excl b) is g) = fold (\<lambda>i xs. xs[i := b]) is (g_excl g)"
  "g_shared (fold (set_excl b) is g) = g_shared g"
  by (induction "is" arbitrary: g) (auto simp: set_excl_def)

lemma lock_slots_keeps [simp]:
  "regions (snd (lock_slots lo hi u sh g)) = regions g" "sizes (snd (lock_slots lo hi u sh g)) = sizes g"
  "g_refs (snd (lock_slots lo hi u sh g)) = g_refs g"
proof -
  have "regions (fold f is g) = regions g \<and> sizes (fold f is g) = sizes g \<and> g_refs (fold f is g) = g_refs g"
    if "f = dec_slot \<or> f = inc_slot \<or> f = set_excl b" for f b "is"
    using that by (induction "is" arbitrary: g) (auto simp: dec_slot_def inc_slot_def set_excl_def)
  then show "regions (snd (lock_slots lo hi u sh g)) = regions g" "sizes (snd (lock_slots lo hi u sh g)) = sizes g"
    "g_refs (snd (lock_slots lo hi u sh g)) = g_refs g"
    by (auto simp: lock_slots_def)
qed

text \<open>How the number of files with a property moves when one file changes.\<close>

lemma card_change:
  assumes "finite A" "f \<in> A" "\<And>x. x \<in> A \<Longrightarrow> x \<noteq> f \<Longrightarrow> P' x = P x"
  shows "int (card {x \<in> A. P' x}) = int (card {x \<in> A. P x}) + of_bool (P' f) - of_bool (P f)"
proof -
  define B where "B = {x \<in> A - {f}. P x}"
  have B: "finite B" "f \<notin> B" using assms(1) by (auto simp: B_def)
  have "{x \<in> A. P x} = (if P f then insert f B else B)" "{x \<in> A. P' x} = (if P' f then insert f B else B)"
    using assms(2,3) by (auto simp: B_def)
  then show ?thesis using B by auto
qed

lemma slot_exclusionD:
  assumes "slot_exclusion A h i" "f \<in> A" "f' \<in> A" "f' \<noteq> f"
  shows "(h f i = HExcl \<longrightarrow> h f' i = HFree) \<and> (h f' i = HExcl \<longrightarrow> h f i = HFree)"
  using assms unfolding slot_exclusion_def by metis

lemma hold_range_at:
  "hold_range f lo hi m h f' i = (if f' = f \<and> lo \<le> i \<and> i < hi then m else h f' i)"
  by (auto simp: hold_range_def)

text \<open>A table whose slots moved with the holdings of one file still represents them.\<close>

lemma slots_ok_change:
  assumes A: "finite A" "f \<in> A" and ok: "slots_ok A h g"
    and len: "length (g_shared g') = shmNLOCK" "length (g_excl g') = shmNLOCK"
    and sh: "\<And>i. i < shmNLOCK \<Longrightarrow> g_shared g' ! i =
          g_shared g ! i + of_bool (h' f i = HShared) - of_bool (h f i = HShared)"
    and ex: "\<And>i. i < shmNLOCK \<Longrightarrow> g_excl g' ! i \<longleftrightarrow>
          h' f i = HExcl \<or> h f i \<noteq> HExcl \<and> g_excl g ! i"
    and same: "\<And>x i. x \<noteq> f \<Longrightarrow> h' x i = h x i"
    and safe: "\<And>i x. i < shmNLOCK \<Longrightarrow> x \<in> A \<Longrightarrow> x \<noteq> f \<Longrightarrow>
          (h' f i = HExcl \<longrightarrow> h x i = HFree) \<and> (h x i = HExcl \<longrightarrow> h' f i = HFree)"
  shows "slots_ok A h' g'"
  unfolding slots_ok_def
proof (intro conjI allI impI)
  fix i assume i: "i < shmNLOCK"
  have old: "g_shared g ! i = int (card {f \<in> A. h f i = HShared})" "g_excl g ! i \<longleftrightarrow> (\<exists>f\<in>A. h f i = HExcl)"
    "slot_exclusion A h i" using ok i by (auto simp: slots_ok_def)
  show "g_shared g' ! i = int (card {f \<in> A. h' f i = HShared})"
    using card_change [of A f "\<lambda>x. h' x i = HShared" "\<lambda>x. h x i = HShared"] A same sh [OF i] old(1) by simp
  show "slot_exclusion A h' i"
    using old(3) safe [OF i] same unfolding slot_exclusion_def by metis
  show "g_excl g' ! i \<longleftrightarrow> (\<exists>f\<in>A. h' f i = HExcl)"
  proof -
    have "(\<exists>x\<in>A. h' x i = HExcl) \<longleftrightarrow> h' f i = HExcl \<or> (\<exists>x\<in>A - {f}. h x i = HExcl)"
      using A(2) same by (metis DiffD1 DiffI empty_iff insertE singletonI DiffD2)
    moreover have "(\<exists>x\<in>A - {f}. h x i = HExcl) \<longleftrightarrow> h f i \<noteq> HExcl \<and> g_excl g ! i"
      using old(2,3) A(2) unfolding slot_exclusion_def by fastforce
    ultimately show ?thesis using ex [OF i] by simp
  qed
qed (use len in auto)

lemma lock_grant:
  assumes A: "finite A" "f \<in> A" and hi: "hi \<le> shmNLOCK" and ok: "slots_ok A h g"
    and free: "holds_all f lo hi HFree h"
  shows "fst (lock_slots lo hi False sh g) = (if compatible A lo hi sh h then rc_ok else rc_busy)"
    and "slots_ok A (if compatible A lo hi sh h then hold_range f lo hi (if sh then HShared else HExcl) h else h)
           (snd (lock_slots lo hi False sh g))"
proof -
  have len: "length (g_shared g) = shmNLOCK" "length (g_excl g) = shmNLOCK"
    using ok by (auto simp: slots_ok_def)
  have inr: "\<forall>i\<in>set [lo..<hi]. i < shmNLOCK" using hi by auto
  have ex: "g_excl g ! i \<longleftrightarrow> (\<exists>f\<in>A. h f i = HExcl)" if "i < shmNLOCK" for i
    using ok that by (auto simp: slots_ok_def)
  have sh: "0 < g_shared g ! i \<longleftrightarrow> (\<exists>f\<in>A. h f i = HShared)" if "i < shmNLOCK" for i
    using ok that A(1) by (auto simp: slots_ok_def card_gt_0_iff)
  have b1: "g_excl g ! i \<longleftrightarrow> \<not> (\<forall>f\<in>A. h f i \<noteq> HExcl)" if "i < shmNLOCK" for i
    using ex [OF that] by simp
  have b2: "(g_excl g ! i \<or> 0 < g_shared g ! i) \<longleftrightarrow> \<not> (\<forall>f\<in>A. h f i = HFree)" if "i < shmNLOCK" for i
    unfolding ex [OF that] sh [OF that] by (metis hold.distinct(1,3) hold.exhaust)
  have rng: "(\<exists>i\<in>set [lo..<hi]. g_excl g ! i) \<longleftrightarrow> (\<exists>i\<in>set [lo..<hi]. \<not> (\<forall>f\<in>A. h f i \<noteq> HExcl))"
    "(\<exists>i\<in>set [lo..<hi]. g_excl g ! i \<or> 0 < g_shared g ! i) \<longleftrightarrow> (\<exists>i\<in>set [lo..<hi]. \<not> (\<forall>f\<in>A. h f i = HFree))"
    using b1 b2 inr by (blast, meson)
  have busy: "list_ex (\<lambda>i. g_excl g ! i) [lo..<hi] \<longleftrightarrow> \<not> compatible A lo hi True h"
    "list_ex (\<lambda>i. g_excl g ! i \<or> 0 < g_shared g ! i) [lo..<hi] \<longleftrightarrow> \<not> compatible A lo hi False h"
    by (simp_all add: list_ex_iff compatible_def rng del: set_upt) simp_all
  show "fst (lock_slots lo hi False sh g) = (if compatible A lo hi sh h then rc_ok else rc_busy)"
    using busy by (cases sh) (auto simp: lock_slots_def)
  show "slots_ok A (if compatible A lo hi sh h then hold_range f lo hi (if sh then HShared else HExcl) h else h)
           (snd (lock_slots lo hi False sh g))"
  proof (cases "compatible A lo hi sh h")
    case True
    have frei: "lo \<le> i \<Longrightarrow> i < hi \<Longrightarrow> h f i = HFree" for i using free by (auto simp: holds_all_def)
    have old: "slot_exclusion A h i" if "i < shmNLOCK" for i using ok that by (auto simp: slots_ok_def)
    have comp: "lo \<le> i \<Longrightarrow> i < hi \<Longrightarrow> x \<in> A \<Longrightarrow> (if sh then h x i \<noteq> HExcl else h x i = HFree)" for i x
      using True by (auto simp: compatible_def)
    have tbl: "snd (lock_slots lo hi False sh g) = fold (if sh then inc_slot else set_excl True) [lo..<hi] g"
      using True busy by (auto simp: lock_slots_def)
    show ?thesis
      unfolding if_P [OF True] tbl
    proof (rule slots_ok_change [OF A ok], goal_cases)
      case (3 i)
      then show ?case using inr len frei by (auto simp: fold_update_nth [where u = "\<lambda>v. v + 1"] hold_range_at)
    next
      case (4 i)
      then show ?case using inr len frei ex [of i] A(2)
        by (auto simp: fold_update_nth [where u = "\<lambda>_. True"] hold_range_at)
    next
      case (6 i x)
      then show ?case using comp [of i x] slot_exclusionD [OF old [OF 6(1)], of f x] A(2) frei [of i]
        by (simp add: hold_range_at split: if_splits)
    qed (use len in \<open>auto simp: hold_range_at fold_update_length [where u = "\<lambda>_. True"]
          fold_update_length [where u = "\<lambda>v. v + 1"]\<close>)
  next
    case False
    then show ?thesis using ok busy by (cases sh) (auto simp: lock_slots_def)
  qed
qed

lemma lock_release:
  assumes A: "finite A" "f \<in> A" and hi: "hi \<le> shmNLOCK" and ok: "slots_ok A h g"
    and held: "holds_all f lo hi (if sh then HShared else HExcl) h"
  shows "fst (lock_slots lo hi True sh g) = rc_ok"
    and "slots_ok A (hold_range f lo hi HFree h) (snd (lock_slots lo hi True sh g))"
proof -
  have len: "length (g_shared g) = shmNLOCK" "length (g_excl g) = shmNLOCK"
    using ok by (auto simp: slots_ok_def)
  have inr: "\<forall>i\<in>set [lo..<hi]. i < shmNLOCK" using hi by auto
  have heldi: "lo \<le> i \<Longrightarrow> i < hi \<Longrightarrow> h f i = (if sh then HShared else HExcl)" for i
    using held by (auto simp: holds_all_def)
  have old: "slot_exclusion A h i" if "i < shmNLOCK" for i using ok that by (auto simp: slots_ok_def)
  have pos: "0 < g_shared g ! i" if "i < shmNLOCK" "h f i = HShared" for i
    using ok that A by (auto simp: slots_ok_def card_gt_0_iff)
  have exi: "i < shmNLOCK \<Longrightarrow> h f i = HExcl \<Longrightarrow> g_excl g ! i" for i using ok A(2) by (auto simp: slots_ok_def)
  have tbl: "snd (lock_slots lo hi True sh g) = fold (if sh then dec_slot else set_excl False) [lo..<hi] g"
    by (simp add: lock_slots_def)
  show "fst (lock_slots lo hi True sh g) = rc_ok" by (simp add: lock_slots_def)
  show "slots_ok A (hold_range f lo hi HFree h) (snd (lock_slots lo hi True sh g))"
    unfolding tbl
  proof (rule slots_ok_change [OF A ok], goal_cases)
    case (3 i)
    then show ?case using inr len heldi pos
      by (auto simp: fold_update_nth [where u = "\<lambda>v. if 0 < v then v - 1 else v"] hold_range_at)
  next
    case (4 i)
    have "g_excl (fold (if sh then dec_slot else set_excl False) [lo..<hi] g) ! i =
        (if sh \<or> i \<notin> set [lo..<hi] then g_excl g ! i else False)"
      using fold_update_nth [of "[lo..<hi]" "g_excl g" i "\<lambda>_. False"] inr len 4 by simp
    then show ?case using heldi [of i] exi [OF 4] by (auto simp: hold_range_at)
  next
    case (6 i x)
    then show ?case using slot_exclusionD [OF old [OF 6(1)], of f x] A(2) by (simp add: hold_range_at)
  qed (use len in \<open>auto simp: hold_range_at fold_update_length [where u = "\<lambda>_. False"]
        fold_update_length [where u = "\<lambda>v. if 0 < v then v - 1 else v"]\<close>)
qed

section \<open>The invariant of all groups\<close>

definition attached :: "nat \<Rightarrow> ('f, 'z) shmState_scheme \<Rightarrow> nat set" where
  "attached g s = {f. f < length (shm_files s) \<and> group_of f s = Some g}"

definition group_ok :: "holds \<Rightarrow> ('f, 'z) shmState_scheme \<Rightarrow> nat \<Rightarrow> bool" where
  "group_ok h s g \<longleftrightarrow> slots_ok (attached g s) h (shm_groups s ! g) \<and>
     g_refs (shm_groups s ! g) = int (card (attached g s)) \<and>
     length (sizes (shm_groups s ! g)) = length (regions (shm_groups s ! g)) \<and>
     (attached g s = {} \<longrightarrow> regions (shm_groups s ! g) = [])"

definition keys_ok :: "('f, 'z) shmState_scheme \<Rightarrow> bool" where
  "keys_ok s \<longleftrightarrow>
     (\<forall>k g. shmGroups s k = Some g \<longrightarrow> g < length (shm_groups s) \<and> attached g s \<noteq> {} \<and>
        (\<forall>f\<in>attached g s. of_shmKey (shm_files s ! f) = k)) \<and>
     (\<forall>f g. f \<in> attached g s \<longrightarrow> g < length (shm_groups s) \<and> shmGroups s (of_shmKey (shm_files s ! f)) = Some g)"

definition memory_ok :: "('f, 'z) shmState_scheme \<Rightarrow> bool" where
  "memory_ok s \<longleftrightarrow> distinct (c_live s) \<and> mset (c_live s) = mset (concat (map regions (shm_groups s)))"

definition shm_inv :: "holds \<Rightarrow> ('f, 'z) shmState_scheme \<Rightarrow> bool" where
  "shm_inv h s \<longleftrightarrow> (\<forall>g<length (shm_groups s). group_ok h s g) \<and> keys_ok s \<and> memory_ok s \<and>
     (\<forall>f i. (\<forall>g. f \<notin> attached g s) \<longrightarrow> h f i = HFree)"

lemma finite_attached [simp]: "finite (attached g s)"
  by (simp add: attached_def)

lemma attached_lt: "f \<in> attached g s \<Longrightarrow> f < length (shm_files s)"
  by (simp add: attached_def)

lemma attached_more [simp]: "attached g (s\<lparr>shm_groups := x, c_live := y, shmGroups := z\<rparr>) = attached g s"
  "attached g (s\<lparr>shm_groups := x\<rparr>) = attached g s"
  "attached g (s\<lparr>shm_groups := x, c_live := y\<rparr>) = attached g s"
  "attached g (s\<lparr>shm_groups := x, shmGroups := z\<rparr>) = attached g s"
  by (simp_all add: attached_def)

lemma attached_unique: "f \<in> attached g s \<Longrightarrow> f \<in> attached g' s \<Longrightarrow> g' = g"
  by (simp add: attached_def)

text \<open>The regions of all groups after one group's regions change.\<close>

lemma regions_update:
  assumes "g < length gs"
  shows "mset (concat (map regions (gs[g := gr]))) + mset (regions (gs ! g)) =
    mset (concat (map regions gs)) + mset (regions gr)"
proof -
  have "gs = take g gs @ gs ! g # drop (Suc g) gs" using assms by (rule id_take_nth_drop)
  then have "mset (concat (map regions gs)) = mset (concat (map regions (take g gs))) +
      (mset (regions (gs ! g)) + mset (concat (map regions (drop (Suc g) gs))))"
    by (metis concat.simps(2) concat_append list.simps(9) map_append mset_append)
  then show ?thesis using assms by (simp add: upd_conv_take_nth_drop)
qed

lemma regions_update_same [simp]:
  "g < length gs \<Longrightarrow> regions gr = regions (gs ! g) \<Longrightarrow>
   mset (concat (map regions (gs[g := gr]))) = mset (concat (map regions gs))"
  using regions_update [of g gs gr] by simp

lemma mset_fold_remove1 [simp]: "mset (fold remove1 rs xs) = mset xs - mset rs"
  by (induction rs arbitrary: xs) auto

lemma distinct_fold_remove1: "distinct xs \<Longrightarrow> distinct (fold remove1 rs xs)"
  by (induction rs arbitrary: xs) auto

subsection \<open>Lock and unlock\<close>

lemma slots_ok_cong: "(\<And>x i. x \<in> A \<Longrightarrow> h' x i = h x i) \<Longrightarrow> slots_ok A h g \<Longrightarrow> slots_ok A h' g"
proof -
  assume eq: "\<And>x i. x \<in> A \<Longrightarrow> h' x i = h x i" and ok: "slots_ok A h g"
  have e1: "{f \<in> A. h' f i = HShared} = {f \<in> A. h f i = HShared}" for i using eq by auto
  have e2: "(\<exists>f\<in>A. h' f i = HExcl) = (\<exists>f\<in>A. h f i = HExcl)" for i using eq by auto
  have e3: "slot_exclusion A h' i = slot_exclusion A h i" for i
    unfolding slot_exclusion_def by (intro ball_cong refl) (simp only: eq)
  show "slots_ok A h' g" using ok unfolding slots_ok_def e1 e2 e3 .
qed

lemma shm_inv_table:
  assumes inv: "shm_inv h s" and f: "f \<in> attached g s" and off: "\<And>x. x \<noteq> f \<Longrightarrow> h' x = h x"
    and ok: "slots_ok (attached g s) h' gr"
    and same: "regions gr = regions (shm_groups s ! g)" "sizes gr = sizes (shm_groups s ! g)"
      "g_refs gr = g_refs (shm_groups s ! g)"
  shows "shm_inv h' (s\<lparr>shm_groups := (shm_groups s)[g := gr]\<rparr>)"
proof -
  have g: "g < length (shm_groups s)" using inv f by (auto simp: shm_inv_def keys_ok_def)
  have "group_ok h' (s\<lparr>shm_groups := (shm_groups s)[g := gr]\<rparr>) g'" if g': "g' < length (shm_groups s)" for g'
  proof (cases "g' = g")
    case True
    then show ?thesis using inv g ok same by (auto simp: shm_inv_def group_ok_def)
  next
    case False
    then have "slots_ok (attached g' s) h' (shm_groups s ! g')"
      using slots_ok_cong [of "attached g' s" h' h] off inv f g' attached_unique
      by (metis group_ok_def shm_inv_def)
    then show ?thesis using inv False g' by (auto simp: shm_inv_def group_ok_def)
  qed
  moreover have "keys_ok (s\<lparr>shm_groups := (shm_groups s)[g := gr]\<rparr>)"
    using inv by (auto simp: shm_inv_def keys_ok_def)
  moreover have "memory_ok (s\<lparr>shm_groups := (shm_groups s)[g := gr]\<rparr>)"
    using inv g same by (simp add: shm_inv_def memory_ok_def)
  moreover have "h' f' i = HFree" if "\<forall>g'. f' \<notin> attached g' s" for f' i
    using that inv off [of f'] f unfolding shm_inv_def by metis
  ultimately show ?thesis by (simp add: shm_inv_def)
qed

text \<open>The slots of a well-formed request.\<close>

definition slot_range :: "32 word \<Rightarrow> 32 word \<Rightarrow> (nat \<times> nat) option" where
  "slot_range offset n = (let lo = sint offset; hi = sint (offset + n)
     in if lo < 0 \<or> int shmNLOCK < hi \<or> hi \<le> lo then None else Some (nat lo, nat hi))"

lemma slot_range_bounds: "slot_range offset n = Some (lo, hi) \<Longrightarrow> lo < hi \<and> hi \<le> shmNLOCK"
  by (auto simp: slot_range_def Let_def split: if_splits)

lemma xShmLock_eq:
  assumes "fileFor pFile s = Some f" "group_of f s = Some g" "slot_range offset n = Some (lo, hi)"
  shows "xShmLock pFile offset n flags s =
    (let r = lock_slots lo hi (flags AND SHM_UNLOCK \<noteq> 0) (flags AND SHM_SHARED \<noteq> 0) (shm_groups s ! g)
     in (fst r, s\<lparr>shm_groups := (shm_groups s)[g := snd r]\<rparr>))"
  using assms by (auto simp: xShmLock_def slot_range_def Let_def split: if_splits prod.splits)

definition lock_mode :: "bool \<Rightarrow> hold" where
  "lock_mode sh = (if sh then HShared else HExcl)"

lemma xShmLock_refines:
  assumes inv: "shm_inv h s" and f: "fileFor pFile s = Some f" "f \<in> attached g s"
    and r: "slot_range offset n = Some (lo, hi)" and flags: "flags AND SHM_UNLOCK = 0"
    and sh: "sh \<longleftrightarrow> flags AND SHM_SHARED \<noteq> 0"
    and free: "holds_all f lo hi HFree h"
  shows "fst (xShmLock pFile offset n flags s) = (if compatible (attached g s) lo hi sh h then rc_ok else rc_busy)"
    and "shm_inv (if compatible (attached g s) lo hi sh h then hold_range f lo hi (lock_mode sh) h else h)
           (snd (xShmLock pFile offset n flags s))"
proof -
  have g: "g < length (shm_groups s)" "slots_ok (attached g s) h (shm_groups s ! g)"
    using inv f by (auto simp: shm_inv_def keys_ok_def group_ok_def)
  have eq: "xShmLock pFile offset n flags s =
    (let r = lock_slots lo hi False sh (shm_groups s ! g)
     in (fst r, s\<lparr>shm_groups := (shm_groups s)[g := snd r]\<rparr>))"
    using xShmLock_eq [OF f(1) _ r, of g flags] f(2) flags sh by (simp add: attached_def)
  note gr = lock_grant [OF finite_attached f(2) conjunct2 [OF slot_range_bounds [OF r]] g(2) free, of sh]
  show "fst (xShmLock pFile offset n flags s) = (if compatible (attached g s) lo hi sh h then rc_ok else rc_busy)"
    using gr(1) by (simp add: eq Let_def)
  show "shm_inv (if compatible (attached g s) lo hi sh h then hold_range f lo hi (lock_mode sh) h else h)
           (snd (xShmLock pFile offset n flags s))"
    unfolding eq Let_def snd_conv lock_mode_def
    by (rule shm_inv_table [OF inv f(2) _ gr(2)]) (auto simp: hold_range_def)
qed

lemma xShmLock_releases:
  assumes inv: "shm_inv h s" and f: "fileFor pFile s = Some f" "f \<in> attached g s"
    and r: "slot_range offset n = Some (lo, hi)" and flags: "flags AND SHM_UNLOCK \<noteq> 0"
    and sh: "sh \<longleftrightarrow> flags AND SHM_SHARED \<noteq> 0"
    and held: "holds_all f lo hi (lock_mode sh) h"
  shows "fst (xShmLock pFile offset n flags s) = rc_ok"
    and "shm_inv (hold_range f lo hi HFree h) (snd (xShmLock pFile offset n flags s))"
proof -
  have g: "g < length (shm_groups s)" "slots_ok (attached g s) h (shm_groups s ! g)"
    using inv f by (auto simp: shm_inv_def keys_ok_def group_ok_def)
  have eq: "xShmLock pFile offset n flags s =
    (let r = lock_slots lo hi True sh (shm_groups s ! g)
     in (fst r, s\<lparr>shm_groups := (shm_groups s)[g := snd r]\<rparr>))"
    using xShmLock_eq [OF f(1) _ r, of g flags] f(2) flags sh by (simp add: attached_def)
  note rel = lock_release [OF finite_attached f(2) conjunct2 [OF slot_range_bounds [OF r]] g(2), of lo sh]
  show "fst (xShmLock pFile offset n flags s) = rc_ok"
    using rel(1) held by (simp add: eq Let_def lock_mode_def)
  show "shm_inv (hold_range f lo hi HFree h) (snd (xShmLock pFile offset n flags s))"
    unfolding eq Let_def snd_conv
    by (rule shm_inv_table [OF inv f(2) _ rel(2)]) (use held in \<open>auto simp: hold_range_def lock_mode_def\<close>)
qed

subsection \<open>Attach and detach\<close>

lemma slots_ok_insert:
  assumes "slots_ok A h g" "\<And>i. h f i = HFree"
  shows "slots_ok (insert f A) h g" "slots_ok (A - {f}) h g"
proof -
  have e1: "{x \<in> insert f A. h x i = HShared} = {x \<in> A. h x i = HShared}"
    "{x \<in> A - {f}. h x i = HShared} = {x \<in> A. h x i = HShared}" for i using assms(2) by auto
  have e2: "(\<exists>x\<in>insert f A. h x i = HExcl) = (\<exists>x\<in>A. h x i = HExcl)"
    "(\<exists>x\<in>A - {f}. h x i = HExcl) = (\<exists>x\<in>A. h x i = HExcl)" for i using assms(2) by auto
  have e3: "slot_exclusion A h i \<Longrightarrow> slot_exclusion (insert f A) h i"
    "slot_exclusion A h i \<Longrightarrow> slot_exclusion (A - {f}) h i" for i
    using assms(2) [of i] unfolding slot_exclusion_def by (simp, blast)
  show "slots_ok (insert f A) h g" "slots_ok (A - {f}) h g"
    using assms(1) e3 unfolding slots_ok_def e1 e2 by blast+
qed

lemma attached_bound: "keys_ok s \<Longrightarrow> f \<in> attached g s \<Longrightarrow> g < length (shm_groups s)"
  by (auto simp: keys_ok_def)

lemma find_group_facts:
  assumes inv: "shm_inv h s" and fg: "find_group key s = (g, s1)"
  shows "g < length (shm_groups s1)" "shm_files s1 = shm_files s" "c_live s1 = c_live s"
    "shmGroups s1 = (shmGroups s)(key \<mapsto> g)" "\<And>g'. g' < length (shm_groups s1) \<Longrightarrow> group_ok h s1 g'"
    "memory_ok s1" "length (shm_groups s) \<le> length (shm_groups s1)"
    "\<And>f. f \<in> attached g s \<Longrightarrow> of_shmKey (shm_files s ! f) = key"
proof -
  have keys: "keys_ok s" and mem: "memory_ok s" and grp: "\<And>g. g < length (shm_groups s) \<Longrightarrow> group_ok h s g"
    using inv by (auto simp: shm_inv_def)
  let ?n = "length (shm_groups s)"
  have none: "attached ?n s = {}" using attached_bound [OF keys] by fastforce
  have new: "slots_ok {} h new_shmGroup"
    by (simp add: slots_ok_def new_shmGroup_def slot_exclusion_def)
  show "g < length (shm_groups s1)" "shm_files s1 = shm_files s" "c_live s1 = c_live s"
    "shmGroups s1 = (shmGroups s)(key \<mapsto> g)" "length (shm_groups s) \<le> length (shm_groups s1)"
    using fg keys by (auto simp: find_group_def keys_ok_def split: option.splits)
  show "memory_ok s1" using fg mem
    by (auto simp: find_group_def memory_ok_def new_shmGroup_def split: option.splits)
  show "of_shmKey (shm_files s ! f) = key" if "f \<in> attached g s" for f
    using fg keys none that by (auto simp: find_group_def keys_ok_def split: option.splits)
  show "group_ok h s1 g'" if "g' < length (shm_groups s1)" for g'
  proof (cases "shmGroups s key")
    case None
    then have s1: "s1 = s\<lparr>shm_groups := shm_groups s @ [new_shmGroup], shmGroups := (shmGroups s)(key \<mapsto> ?n)\<rparr>"
      using fg unfolding find_group_def by (metis option.simps(4) prod.inject)
    show ?thesis
    proof (cases "g' = ?n")
      case True
      then show ?thesis using none new by (simp add: s1 group_ok_def) (simp add: new_shmGroup_def)
    next
      case False
      then have "g' < ?n" using that s1 by simp
      then show ?thesis using grp [of g'] by (simp add: s1 group_ok_def nth_append)
    qed
  qed (use fg that grp in \<open>simp add: find_group_def\<close>)
qed

lemma attachShm_inv:
  assumes inv: "shm_inv h s" and f: "f < length (shm_files s)"
  shows "shm_inv h (snd (attachShm sf f s))"
proof (cases "group_of f s = None \<and> sf (of_file (shm_files s ! f)) \<noteq> None")
  case True
  then obtain key g s1 where key: "sf (of_file (shm_files s ! f)) = Some key" and fg: "find_group key s = (g, s1)"
    by (cases "find_group (the (sf (of_file (shm_files s ! f)))) s") auto
  note ff = find_group_facts [OF inv fg]
  define s' where "s' = snd (attachShm sf f s)"
  have s': "shm_groups s' = (shm_groups s1)[g := (shm_groups s1 ! g)\<lparr>g_refs := g_refs (shm_groups s1 ! g) + 1\<rparr>]"
    "shm_files s' = (shm_files s)[f := (shm_files s ! f)\<lparr>of_shm := Some g, of_shmKey := key\<rparr>]"
    "shmGroups s' = (shmGroups s)(key \<mapsto> g)" "c_live s' = c_live s"
    using True key fg ff by (simp_all add: s'_def attachShm_def)
  have att: "attached g' s' = (if g' = g then insert f (attached g s) else attached g' s)" for g'
    using f True by (auto simp: attached_def s' nth_list_update)
  have att1: "attached g' s1 = attached g' s" for g' using ff(2) by (simp add: attached_def)
  have nin: "f \<notin> attached g' s" for g' using True by (simp add: attached_def)
  have free: "h f i = HFree" for i using inv nin by (simp add: shm_inv_def)
  have "group_ok h s' g'" if "g' < length (shm_groups s')" for g'
  proof (cases "g' = g")
    case True
    have "slots_ok (attached g s) h (shm_groups s1 ! g)" using ff(5) [OF ff(1)] by (simp add: group_ok_def att1)
    then have "slots_ok (insert f (attached g s)) h (shm_groups s1 ! g)" by (rule slots_ok_insert) (rule free)
    then show ?thesis using ff(5) [OF ff(1)] True ff(1) nin
      by (simp add: group_ok_def att s' att1) (simp add: slots_ok_def)
  next
    case False
    then show ?thesis using ff(5) [of g'] that by (simp add: group_ok_def att s' att1)
  qed
  moreover have "keys_ok s'"
    unfolding keys_ok_def
  proof (intro conjI allI impI ballI)
    fix k g' assume k: "shmGroups s' k = Some g'"
    show "g' < length (shm_groups s')" using k ff(1,7) inv s'
      by (auto simp: shm_inv_def keys_ok_def split: if_splits) (meson order_less_le_trans)
    show "attached g' s' \<noteq> {}" using k inv s' att by (auto simp: shm_inv_def keys_ok_def split: if_splits)
    fix x assume x: "x \<in> attached g' s'"
    show "of_shmKey (shm_files s' ! x) = k"
    proof (cases "x = f")
      case True
      then have "g' = g" using x att nin by (auto split: if_splits)
      moreover have "k = key"
      proof (rule ccontr)
        assume "k \<noteq> key"
        then have "shmGroups s k = Some g" using k s' \<open>g' = g\<close> by simp
        then obtain y where "y \<in> attached g s" "of_shmKey (shm_files s ! y) = k"
          using inv by (fastforce simp: shm_inv_def keys_ok_def)
        then show False using ff(8) \<open>k \<noteq> key\<close> by blast
      qed
      ultimately show ?thesis using True s' f by simp
    next
      case False
      then have xa: "x \<in> attached g' s" using x att by (auto split: if_splits)
      then have "k = key \<Longrightarrow> g' = g" using k s' by simp
      then have "of_shmKey (shm_files s ! x) = k"
        using xa k s' ff(8) [of x] inv by (cases "k = key") (auto simp: shm_inv_def keys_ok_def)
      then show ?thesis using s' False by simp
    qed
  next
    fix x g' assume x: "x \<in> attached g' s'"
    show "g' < length (shm_groups s')" using x att ff(1,7) inv s'
      by (auto simp: shm_inv_def keys_ok_def split: if_splits) (meson order_less_le_trans)+
    show "shmGroups s' (of_shmKey (shm_files s' ! x)) = Some g'"
    proof (cases "x = f")
      case True
      then show ?thesis using x att nin s' f by (auto split: if_splits)
    next
      case False
      then have xa: "x \<in> attached g' s" using x att by (auto split: if_splits)
      then have old: "shmGroups s (of_shmKey (shm_files s ! x)) = Some g'"
        using inv by (auto simp: shm_inv_def keys_ok_def)
      have "g = g'" if "of_shmKey (shm_files s ! x) = key"
        using fg old that by (simp add: find_group_def)
      then show ?thesis using False s' old by auto
    qed
  qed
  moreover have "memory_ok s'" using ff(1,3,6) by (simp add: memory_ok_def s')
  moreover have "h x i = HFree" if "\<forall>g. x \<notin> attached g s'" for x i
    using that att inv free unfolding shm_inv_def by (metis insertI2)
  ultimately show ?thesis unfolding s'_def [symmetric] by (simp add: shm_inv_def)
qed (use inv in \<open>auto simp: attachShm_def split: option.splits\<close>)

text \<open>What \<^verbatim>\<open>detachShm\<close> does to an attached file: it leaves the group, and the last one out frees it.\<close>

lemma detachShm_effect:
  assumes inv: "shm_inv h s" and f: "f \<in> attached g s"
  shows "attached g' (detachShm f s) = (if g' = g then attached g s - {f} else attached g' s)"
    and "attached g s = {f} \<Longrightarrow> shmGroups (detachShm f s) = (shmGroups s)(of_shmKey (shm_files s ! f) := None)"
    and "attached g s \<noteq> {f} \<Longrightarrow> shmGroups (detachShm f s) = shmGroups s"
    and "c_live (detachShm f s) =
      (if attached g s = {f} then fold remove1 (regions (shm_groups s ! g)) (c_live s) else c_live s)"
    and "shm_groups (detachShm f s) = (shm_groups s)[g :=
      (let gr = (shm_groups s ! g)\<lparr>g_refs := g_refs (shm_groups s ! g) - 1\<rparr>
       in if attached g s = {f} then gr\<lparr>regions := [], sizes := []\<rparr> else gr)]"
    and "of_shmKey (shm_files (detachShm f s) ! x) = of_shmKey (shm_files s ! x)"
    and "length (shm_files (detachShm f s)) = length (shm_files s)"
proof -
  have gf: "group_of f s = Some g" and lt: "f < length (shm_files s)" using f by (auto simp: attached_def)
  have g: "g < length (shm_groups s)" using inv f by (auto simp: shm_inv_def keys_ok_def)
  have "g_refs (shm_groups s ! g) = int (card (attached g s))" using inv g by (auto simp: shm_inv_def group_ok_def)
  then have last: "g_refs (shm_groups s ! g) - 1 = 0 \<longleftrightarrow> attached g s = {f}"
    using f by (auto simp: card_1_singleton_iff)
  have files: "shm_files (detachShm f s) = (shm_files s)[f := (shm_files s ! f)\<lparr>of_shm := None\<rparr>]"
    using gf by (simp add: detachShm_def Let_def)
  show "attached g' (detachShm f s) = (if g' = g then attached g s - {f} else attached g' s)"
    using gf lt by (auto simp: attached_def files nth_list_update split: if_splits)
  show "of_shmKey (shm_files (detachShm f s) ! x) = of_shmKey (shm_files s ! x)"
    "length (shm_files (detachShm f s)) = length (shm_files s)"
    by (cases "x = f"; use lt in \<open>simp add: files\<close>)+
  show "attached g s = {f} \<Longrightarrow> shmGroups (detachShm f s) = (shmGroups s)(of_shmKey (shm_files s ! f) := None)"
    "attached g s \<noteq> {f} \<Longrightarrow> shmGroups (detachShm f s) = shmGroups s"
    "c_live (detachShm f s) =
      (if attached g s = {f} then fold remove1 (regions (shm_groups s ! g)) (c_live s) else c_live s)"
    "shm_groups (detachShm f s) = (shm_groups s)[g :=
      (let gr = (shm_groups s ! g)\<lparr>g_refs := g_refs (shm_groups s ! g) - 1\<rparr>
       in if attached g s = {f} then gr\<lparr>regions := [], sizes := []\<rparr> else gr)]"
    using gf last by (simp_all add: detachShm_def Let_def)
qed

lemma detachShm_keys:
  assumes inv: "shm_inv h s" and f: "f \<in> attached g s"
  shows "keys_ok (detachShm f s)"
proof -
  have keys: "keys_ok s" using inv by (simp add: shm_inv_def)
  note eff = detachShm_effect [OF inv f]
  have len: "length (shm_groups (detachShm f s)) = length (shm_groups s)" by (simp add: eff(5))
  show ?thesis
  proof (cases "attached g s = {f}")
    case True
    have other: "shmGroups s k = Some g \<Longrightarrow> k = of_shmKey (shm_files s ! f)" for k
      using keys f unfolding keys_ok_def by metis
    have same: "x \<in> attached ga s \<Longrightarrow> of_shmKey (shm_files s ! x) = of_shmKey (shm_files s ! f) \<Longrightarrow> ga = g" for x ga
      using keys f unfolding keys_ok_def by (metis option.inject)
    show ?thesis
      using keys other unfolding keys_ok_def eff(1) eff(2) [OF True] eff(6) len
      by (auto simp: True split: if_splits dest: same)
  next
    case False
    then have "attached g s - {f} \<noteq> {}" using f by auto
    then show ?thesis
      using keys unfolding keys_ok_def eff(1) eff(3) [OF False] eff(6) len
      by (auto split: if_splits)
  qed
qed

lemma detachShm_memory:
  assumes inv: "shm_inv h s" and f: "f \<in> attached g s"
  shows "memory_ok (detachShm f s)"
proof -
  have mem: "memory_ok s" and g: "g < length (shm_groups s)"
    using inv f by (auto simp: shm_inv_def keys_ok_def)
  show ?thesis
  proof (cases "attached g s = {f}")
    case True
    let ?gs = "shm_groups s" and ?gr = "(shm_groups s ! g)\<lparr>g_refs := g_refs (shm_groups s ! g) - 1, regions := [], sizes := []\<rparr>"
    have "mset (concat (map regions (?gs[g := ?gr]))) + mset (regions (?gs ! g)) = mset (c_live s)"
      using regions_update [OF g, of ?gr] mem by (simp add: memory_ok_def)
    then have "mset (concat (map regions (?gs[g := ?gr]))) = mset (c_live s) - mset (regions (?gs ! g))"
      by (metis add_diff_cancel_right')
    then show ?thesis
      using mem True by (simp add: memory_ok_def detachShm_effect [OF inv f] Let_def distinct_fold_remove1)
  qed (use mem g in \<open>simp add: memory_ok_def detachShm_effect [OF inv f] Let_def\<close>)
qed

lemma detachShm_inv:
  assumes inv: "shm_inv h s" and f: "f < length (shm_files s)" and free: "\<And>i. h f i = HFree"
  shows "shm_inv h (detachShm f s)"
proof (cases "group_of f s")
  case (Some g)
  then have fa: "f \<in> attached g s" using f by (simp add: attached_def)
  note eff = detachShm_effect [OF inv fa]
  have g: "g < length (shm_groups s)" using inv fa by (auto simp: shm_inv_def keys_ok_def)
  have "group_ok h (detachShm f s) g'" if g': "g' < length (shm_groups s)" for g'
  proof (cases "g' = g")
    case True
    have old: "group_ok h s g" using inv g by (simp add: shm_inv_def)
    then have "slots_ok (attached g s - {f}) h (shm_groups s ! g)"
      unfolding group_ok_def by (blast intro: slots_ok_insert(2) free)
    moreover have "int (card (attached g s - {f})) = int (card (attached g s)) - 1"
      using card_Suc_Diff1 [OF finite_attached fa] by linarith
    ultimately show ?thesis using old True g fa
      by (cases "attached g s = {f}") (auto simp: group_ok_def eff Let_def slots_ok_def)
  next
    case False
    then show ?thesis using inv g' by (simp add: shm_inv_def group_ok_def eff)
  qed
  moreover have "h x i = HFree" if "\<forall>g. x \<notin> attached g (detachShm f s)" for x i
    using that eff(1) inv free unfolding shm_inv_def by (metis Diff_iff singletonD)
  ultimately show ?thesis
    using detachShm_keys [OF inv fa] detachShm_memory [OF inv fa] by (simp add: shm_inv_def eff(5))
qed (use inv in \<open>simp add: detachShm_def\<close>)

subsection \<open>Mapping\<close>

text \<open>What C promises of \<^verbatim>\<open>calloc\<close>: an address it returns is not that of a live allocation.\<close>

definition calloc_ok :: "(nat \<Rightarrow> nat) \<Rightarrow> nat list \<Rightarrow> bool" where
  "calloc_ok mem live \<longleftrightarrow> (\<forall>k. mem k \<noteq> 0 \<longrightarrow> mem k \<notin> set live) \<and>
     (\<forall>j k. mem j \<noteq> 0 \<longrightarrow> mem j = mem k \<longrightarrow> j = k)"

lemma grow_effect:
  assumes "grow mem pgsz iRegion k g live = (done, g', live')"
  shows "\<exists>n\<ge>k. regions g' = regions g @ map mem [k..<n] \<and> sizes g' = sizes g @ replicate (n - k) pgsz \<and>
     (\<forall>j\<in>{k..<n}. mem j \<noteq> 0) \<and> live' = rev (map mem [k..<n]) @ live \<and>
     g_shared g' = g_shared g \<and> g_excl g' = g_excl g \<and> g_refs g' = g_refs g \<and>
     (if done then iRegion < length (regions g') else mem n = 0)"
  using assms
proof (induction mem pgsz iRegion k g live rule: grow.induct)
  case (1 mem pgsz iRegion k g live)
  show ?case
  proof (cases "length (regions g) \<le> iRegion \<and> mem k \<noteq> 0")
    case True
    then have rec: "grow mem pgsz iRegion (Suc k) (g\<lparr>regions := regions g @ [mem k], sizes := sizes g @ [pgsz]\<rparr>)
        (mem k # live) = (done, g', live')"
      using "1.prems" by (subst (asm) grow.simps) simp
    from "1.IH" [OF conjunct1 [OF True] conjunct2 [OF True] rec] obtain n where
      n: "Suc k \<le> n" "regions g' = (regions g @ [mem k]) @ map mem [Suc k..<n]"
        "sizes g' = (sizes g @ [pgsz]) @ replicate (n - Suc k) pgsz" "\<forall>j\<in>{Suc k..<n}. mem j \<noteq> 0"
        "live' = rev (map mem [Suc k..<n]) @ mem k # live"
        "g_shared g' = g_shared g" "g_excl g' = g_excl g" "g_refs g' = g_refs g"
        "if done then iRegion < length (regions g') else mem n = 0" by auto
    have k: "[k..<n] = k # [Suc k..<n]" "n - k = Suc (n - Suc k)" "{k..<n} = insert k {Suc k..<n}"
      using n(1) by (auto simp: upt_conv_Cons)
    show ?thesis using n True by (intro exI [of _ n]) (simp add: k)
  next
    case False
    then have "grow mem pgsz iRegion k g live = (iRegion < length (regions g), g, live)"
      by (subst grow.simps) auto
    then show ?thesis using "1.prems" False by (intro exI [of _ k]) auto
  qed
qed

lemma map_region_inv:
  assumes inv: "shm_inv h s" and g: "attached g s \<noteq> {}" and mem: "calloc_ok mem (c_live s)"
  shows "shm_inv h (snd (map_region mem iRegion pgsz bExtend g s))"
proof (cases "0 \<le> sint iRegion \<and> length (regions (shm_groups s ! g)) \<le> nat (sint iRegion) \<and> bExtend \<noteq> 0")
  case True
  have gl: "g < length (shm_groups s)" using inv g by (auto simp: shm_inv_def keys_ok_def)
  obtain ok gr' live' where gw: "grow mem pgsz (nat (sint iRegion)) 0 (shm_groups s ! g) (c_live s) = (ok, gr', live')"
    by (metis prod_cases3)
  let ?s' = "s\<lparr>shm_groups := (shm_groups s)[g := gr'], c_live := live'\<rparr>"
  from grow_effect [OF gw] obtain n where
    new: "regions gr' = regions (shm_groups s ! g) @ map mem [0..<n]" "sizes gr' = sizes (shm_groups s ! g) @ replicate n pgsz"
      "\<forall>j\<in>{0..<n}. mem j \<noteq> 0" "live' = rev (map mem [0..<n]) @ c_live s"
    and same: "g_shared gr' = g_shared (shm_groups s ! g)" "g_excl gr' = g_excl (shm_groups s ! g)"
      "g_refs gr' = g_refs (shm_groups s ! g)" by auto
  have "distinct (map mem [0..<n])" using mem new(3) by (auto simp: calloc_ok_def distinct_map inj_on_def)
  moreover have "set (map mem [0..<n]) \<inter> set (c_live s) = {}" using new(3) mem by (auto simp: calloc_ok_def)
  ultimately have "memory_ok ?s'"
    using inv regions_update [OF gl, of gr'] new by (simp add: shm_inv_def memory_ok_def)
  moreover have "group_ok h ?s' g'" if "g' < length (shm_groups s)" for g'
    using inv that gl new g same by (cases "g' = g") (auto simp: shm_inv_def group_ok_def slots_ok_def)
  moreover have "keys_ok ?s'" using inv by (simp add: shm_inv_def keys_ok_def)
  ultimately have "shm_inv h ?s'" using inv by (simp add: shm_inv_def)
  moreover have "snd (map_region mem iRegion pgsz bExtend g s) = ?s'"
    using True gw by (simp add: map_region_def Let_def)
  ultimately show ?thesis by simp
qed (use inv in \<open>auto simp: map_region_def Let_def\<close>)

end
