(* ===== verification/Vfs_Dispatch.thy ===== *)
theory Vfs_Dispatch
  imports Shm
begin

unbundle bit_operations_syntax

text \<open>
  The dispatcher of \<^verbatim>\<open>src/vfs\<close>: it installs a Go \<^verbatim>\<open>VFS\<close> as a SQLite VFS (\<^verbatim>\<open>register.go\<close>) and turns
  the calls SQLite makes on its files into calls of the Go \<^verbatim>\<open>File\<close> (\<^verbatim>\<open>iomethods.go\<close>), with the mapping
  of Go errors to SQLite codes (\<^verbatim>\<open>errors.go\<close>) and the instrumenting decorator (\<^verbatim>\<open>wrap.go\<close>).

  The interfaces \<^verbatim>\<open>VFS\<close> and \<^verbatim>\<open>File\<close> are the record \<open>goVFS\<close> of the functions an implementation
  provides; each one works on the implementation's own state \<open>'w\<close>. SQLite and the C library are
  arguments of the operations that call them: the address \<^verbatim>\<open>Xmalloc\<close> returns, the code of
  \<^verbatim>\<open>sqlite3_vfs_register\<close>.
\<close>

section \<open>Errors\<close>

text \<open>A Go error as \<^verbatim>\<open>errors.Is\<close> and \<^verbatim>\<open>errors.As\<close> see it: the sentinels, a \<^verbatim>\<open>*VFSError\<close> with its cause,
  an error that wraps one or several others, and any other error.\<close>

datatype goError =
    IoEOF
  | FsErrNotExist
  | VFSError int "goError option"
  | WrapErrs "goError list"
  | OtherErr string

fun first_some :: "'a option list \<Rightarrow> 'a option" where
  "first_some [] = None"
| "first_some (None # xs) = first_some xs"
| "first_some (Some x # xs) = Some x"

primrec as_VFSError :: "goError \<Rightarrow> int option" where
  "as_VFSError IoEOF = None"
| "as_VFSError FsErrNotExist = None"
| "as_VFSError (VFSError code e) = Some code"
| "as_VFSError (WrapErrs es) = first_some (map as_VFSError es)"
| "as_VFSError (OtherErr m) = None"

primrec err_is :: "goError \<Rightarrow> goError \<Rightarrow> bool" where
  "err_is t IoEOF = (t = IoEOF)"
| "err_is t FsErrNotExist = (t = FsErrNotExist)"
| "err_is t (VFSError code e) = (case map_option (err_is t) e of None \<Rightarrow> False | Some b \<Rightarrow> b)"
| "err_is t (WrapErrs es) = list_ex id (map (err_is t) es)"
| "err_is t (OtherErr m) = False"

definition codeOf :: "goError option \<Rightarrow> rcode \<Rightarrow> rcode" where
  "codeOf err fallback = (case err of
       None \<Rightarrow> rc_ok
     | Some e \<Rightarrow> (case as_VFSError e of
         Some code \<Rightarrow> word_of_int code
       | None \<Rightarrow> if err_is IoEOF e then ioerr 2 else fallback))"

definition isNotExist :: "goError \<Rightarrow> bool" where
  "isNotExist e = err_is FsErrNotExist e"

section \<open>What an implementation provides\<close>

text \<open>\<^verbatim>\<open>ReadAt\<close> is given the length of its fresh buffer and returns the buffer as it left it. The optional
  interfaces \<^verbatim>\<open>ShmFile\<close> and \<^verbatim>\<open>FileControl\<close> are partial functions of the file.\<close>

record ('v, 'f, 'w) goVFS =
  m_Open :: "'v \<Rightarrow> string \<Rightarrow> int \<Rightarrow> 'w \<Rightarrow> ('f option \<times> int \<times> goError option) \<times> 'w"
  m_Delete :: "'v \<Rightarrow> string \<Rightarrow> bool \<Rightarrow> 'w \<Rightarrow> goError option \<times> 'w"
  m_Access :: "'v \<Rightarrow> string \<Rightarrow> int \<Rightarrow> 'w \<Rightarrow> (bool \<times> goError option) \<times> 'w"
  m_FullPathname :: "'v \<Rightarrow> string \<Rightarrow> 'w \<Rightarrow> (string \<times> goError option) \<times> 'w"
  m_ReadAt :: "'f \<Rightarrow> nat \<Rightarrow> int \<Rightarrow> 'w \<Rightarrow> (bytes \<times> int \<times> goError option) \<times> 'w"
  m_WriteAt :: "'f \<Rightarrow> bytes \<Rightarrow> int \<Rightarrow> 'w \<Rightarrow> (int \<times> goError option) \<times> 'w"
  m_Truncate :: "'f \<Rightarrow> int \<Rightarrow> 'w \<Rightarrow> goError option \<times> 'w"
  m_Sync :: "'f \<Rightarrow> int \<Rightarrow> 'w \<Rightarrow> goError option \<times> 'w"
  m_Size :: "'f \<Rightarrow> 'w \<Rightarrow> (int \<times> goError option) \<times> 'w"
  m_Lock :: "'f \<Rightarrow> int \<Rightarrow> 'w \<Rightarrow> goError option \<times> 'w"
  m_Unlock :: "'f \<Rightarrow> int \<Rightarrow> 'w \<Rightarrow> goError option \<times> 'w"
  m_CheckReservedLock :: "'f \<Rightarrow> 'w \<Rightarrow> (bool \<times> goError option) \<times> 'w"
  m_SectorSize :: "'f \<Rightarrow> int"
  m_DeviceCharacteristics :: "'f \<Rightarrow> int"
  m_Close :: "'f \<Rightarrow> 'w \<Rightarrow> goError option \<times> 'w"
  m_ShmGroup :: "'f \<Rightarrow> string option"
  m_FileControl :: "'f \<Rightarrow> (int \<Rightarrow> nat \<Rightarrow> 'w \<Rightarrow> goError option \<times> 'w) option"

definition OpenDeleteOnClose :: int where "OpenDeleteOnClose = 8"

definition has_flag :: "int \<Rightarrow> int \<Rightarrow> bool" where
  "has_flag fl f \<longleftrightarrow> fl AND f = f"

section \<open>State\<close>

text \<open>The C struct of a registered VFS, of which the dispatcher reads back only \<^verbatim>\<open>pAppData\<close>.\<close>

record cVFS =
  c_mxPathname :: "32 word"
  c_zName :: nat
  c_pAppData :: nat

record 'v registeredVFS =
  rv_impl :: 'v
  rv_name :: string
  rv_cname :: nat
  rv_cvfs :: nat
  rv_token :: nat

record options =
  o_makeDefault :: bool
  o_maxPathname :: int

record ('f, 'v, 'w) dispatch = "'f shmState" +
  vfs_objs :: "'v registeredVFS list"
  vfsRegistry :: "nat registry"
  byName :: "string \<rightharpoonup> nat"
  c_structs :: "nat \<rightharpoonup> cVFS"
  c_names :: "nat list"
  world :: 'w

definition vfsFor :: "nat \<Rightarrow> ('f, 'v, 'w) dispatch \<Rightarrow> nat option" where
  "vfsFor pVfs s = (case c_structs s pVfs of None \<Rightarrow> None | Some c \<Rightarrow> Lookup (c_pAppData c) (vfsRegistry s))"

section \<open>Registration\<close>

datatype regError = EmptyName | NilVFS | AlreadyRegistered | NoDefaultVFS | AllocName | AllocStruct
  | RegisterRC rcode | NotRegistered | HasOpenFiles | UnregisterRC rcode

text \<open>What the C side answers: \<^verbatim>\<open>mxPathname\<close> of the default VFS if there is one, the address of the
  copied name, the address of the struct (0 when allocation fails) and the code of the registration.\<close>

record csite =
  cs_default :: "32 word option"
  cs_cname :: "nat option"
  cs_cvfs :: nat
  cs_rc :: rcode

definition install :: "csite \<Rightarrow> string \<Rightarrow> 'v \<Rightarrow> options \<Rightarrow> 32 word \<Rightarrow> nat \<Rightarrow> ('f, 'v, 'w) dispatch
    \<Rightarrow> regError option \<times> ('f, 'v, 'w) dispatch" where
  "install cs name v opts mx cname s = (let
     i = length (vfs_objs s);
     (tok, reg) = Register i (vfsRegistry s);
     rv = \<lparr>rv_impl = v, rv_name = name, rv_cname = cname, rv_cvfs = cs_cvfs cs, rv_token = tok\<rparr>;
     c = \<lparr>c_mxPathname = (if 0 < o_maxPathname opts then word_of_int (o_maxPathname opts) else mx),
          c_zName = cname, c_pAppData = tok\<rparr>
   in if cs_rc cs \<noteq> rc_ok
      then (Some (RegisterRC (cs_rc cs)),
            s\<lparr>vfs_objs := vfs_objs s @ [rv], vfsRegistry := Unregister tok reg\<rparr>)
      else (None, s\<lparr>vfs_objs := vfs_objs s @ [rv], vfsRegistry := reg, byName := (byName s)(name \<mapsto> i),
              c_structs := (c_structs s)(cs_cvfs cs \<mapsto> c), c_names := cname # c_names s\<rparr>))"

definition vfs_Register :: "csite \<Rightarrow> string \<Rightarrow> 'v option \<Rightarrow> options \<Rightarrow> ('f, 'v, 'w) dispatch
    \<Rightarrow> regError option \<times> ('f, 'v, 'w) dispatch" where
  "vfs_Register cs name impl opts s =
     (if name = [] then (Some EmptyName, s)
      else (case impl of
        None \<Rightarrow> (Some NilVFS, s)
      | Some v \<Rightarrow>
          if byName s name \<noteq> None then (Some AlreadyRegistered, s)
          else (case cs_default cs of
            None \<Rightarrow> (Some NoDefaultVFS, s)
          | Some mx \<Rightarrow> (case cs_cname cs of
              None \<Rightarrow> (Some AllocName, s)
            | Some cname \<Rightarrow>
                if cs_cvfs cs = 0 then (Some AllocStruct, s)
                else install cs name v opts mx cname s))))"

text \<open>The scan that \<^verbatim>\<open>Unregister\<close> makes over the open files, through \<^verbatim>\<open>Registry.Range\<close>.\<close>

definition has_open :: "nat \<Rightarrow> ('f, 'v, 'w) dispatch \<Rightarrow> bool" where
  "has_open rv s = Range (\<lambda>tok f op. if of_vfs (shm_files s ! f) = rv then (False, True) else (True, op))
     (fileRegistry s) False"

definition vfs_Unregister :: "rcode \<Rightarrow> string \<Rightarrow> ('f, 'v, 'w) dispatch \<Rightarrow> regError option \<times> ('f, 'v, 'w) dispatch" where
  "vfs_Unregister rc name s = (case byName s name of
       None \<Rightarrow> (Some NotRegistered, s)
     | Some i \<Rightarrow>
         let rv = vfs_objs s ! i in
         if has_open i s then (Some HasOpenFiles, s)
         else (if rc \<noteq> rc_ok then Some (UnregisterRC rc) else None,
           s\<lparr>vfsRegistry := Unregister (rv_token rv) (vfsRegistry s), byName := (byName s)(name := None),
             c_structs := (c_structs s)(rv_cvfs rv := None), c_names := remove1 (rv_cname rv) (c_names s)\<rparr>))"

definition vfs_Find :: "string \<Rightarrow> ('f, 'v, 'w) dispatch \<Rightarrow> 'v option" where
  "vfs_Find name s = map_option (\<lambda>i. rv_impl (vfs_objs s ! i)) (byName s name)"

section \<open>Methods of the VFS\<close>

text \<open>\<open>xOpen\<close> returns the code and, when it opened, whether the file gets the methods table with the
  shared-memory slots and what it stores through \<^verbatim>\<open>pOutFlags\<close>. \<open>zName\<close> is \<open>None\<close> for a NULL path.\<close>

definition xOpen :: "('v, 'f, 'w) goVFS \<Rightarrow> nat \<Rightarrow> string option \<Rightarrow> nat \<Rightarrow> 32 word \<Rightarrow> ('f, 'v, 'w) dispatch
    \<Rightarrow> (rcode \<times> (bool \<times> 32 word) option) \<times> ('f, 'v, 'w) dispatch" where
  "xOpen U pVfs zName pFile flags s = (case vfsFor pVfs s of
       None \<Rightarrow> ((2, None), s)
     | Some rv \<Rightarrow>
         let name = (case zName of None \<Rightarrow> [] | Some n \<Rightarrow> n)
         in (case m_Open U (rv_impl (vfs_objs s ! rv)) name (sint flags) (world s) of ((f, granted, err), w) \<Rightarrow>
         let s1 = s\<lparr>world := w\<rparr>
         in if err \<noteq> None then ((codeOf err 14, None), s1)
            else (case f of
              None \<Rightarrow> ((14, None), s1)
            | Some file \<Rightarrow>
              let granted' = (if granted = 0 then sint flags else granted);
                  i = length (shm_files s);
                  obj = \<lparr>of_file = file, of_vfs = rv, of_name = name, of_flags = sint flags,
                         of_shm = None, of_shmKey = []\<rparr>;
                  (tok, reg) = Register i (fileRegistry s)
              in ((rc_ok, Some (m_ShmGroup U file \<noteq> None, word_of_int granted')),
                  s1\<lparr>shm_files := shm_files s @ [obj], fileRegistry := reg,
                     file_token := (file_token s)(pFile := tok)\<rparr>))))"

definition xDelete :: "('v, 'f, 'w) goVFS \<Rightarrow> nat \<Rightarrow> string \<Rightarrow> 32 word \<Rightarrow> ('f, 'v, 'w) dispatch
    \<Rightarrow> rcode \<times> ('f, 'v, 'w) dispatch" where
  "xDelete U pVfs zName syncDir s = (case vfsFor pVfs s of
       None \<Rightarrow> (2, s)
     | Some rv \<Rightarrow> (case m_Delete U (rv_impl (vfs_objs s ! rv)) zName (syncDir \<noteq> 0) (world s) of (err, w) \<Rightarrow>
         ((case err of
             None \<Rightarrow> rc_ok
           | Some e \<Rightarrow> if isNotExist e then ioerr 23 else codeOf err (ioerr 10)), s\<lparr>world := w\<rparr>)))"

definition xAccess :: "('v, 'f, 'w) goVFS \<Rightarrow> nat \<Rightarrow> string \<Rightarrow> 32 word \<Rightarrow> ('f, 'v, 'w) dispatch
    \<Rightarrow> (rcode \<times> bool option) \<times> ('f, 'v, 'w) dispatch" where
  "xAccess U pVfs zName op s = (case vfsFor pVfs s of
       None \<Rightarrow> ((2, None), s)
     | Some rv \<Rightarrow> (case m_Access U (rv_impl (vfs_objs s ! rv)) zName (sint op) (world s) of ((ok, err), w) \<Rightarrow>
         (((case err of
              Some e \<Rightarrow> if \<not> isNotExist e then codeOf err (ioerr 13) else rc_ok
            | None \<Rightarrow> rc_ok), Some (err = None \<and> ok)), s\<lparr>world := w\<rparr>)))"

text \<open>\<open>xFullPathname\<close> stores the path and its terminator in the \<^verbatim>\<open>nOut\<close> bytes at \<^verbatim>\<open>zOut\<close>, or nothing.\<close>

definition xFullPathname :: "('v, 'f, 'w) goVFS \<Rightarrow> nat \<Rightarrow> string \<Rightarrow> 32 word \<Rightarrow> ('f, 'v, 'w) dispatch
    \<Rightarrow> (rcode \<times> bytes option) \<times> ('f, 'v, 'w) dispatch" where
  "xFullPathname U pVfs zName nOut s = (case vfsFor pVfs s of
       None \<Rightarrow> ((2, None), s)
     | Some rv \<Rightarrow> (case m_FullPathname U (rv_impl (vfs_objs s ! rv)) zName (world s) of ((full, err), w) \<Rightarrow>
         ((if err \<noteq> None then (codeOf err 14, None)
           else if sint nOut < int (length full) + 1 then (14, None)
           else (rc_ok, Some (map (\<lambda>ch. of_nat (of_char ch)) full @ [0]))), s\<lparr>world := w\<rparr>)))"

section \<open>Methods of a file\<close>

definition xClose :: "('v, 'f, 'w) goVFS \<Rightarrow> nat \<Rightarrow> ('f, 'v, 'w) dispatch \<Rightarrow> rcode \<times> ('f, 'v, 'w) dispatch" where
  "xClose U pFile s = (case fileFor pFile s of
       None \<Rightarrow> (rc_ok, s)
     | Some f \<Rightarrow>
         let s1 = s\<lparr>fileRegistry := Unregister (file_token s pFile) (fileRegistry s),
                    file_token := (file_token s)(pFile := 0)\<rparr>;
             s2 = detachShm f s1;
             obj = shm_files s2 ! f;
             (err, w) = m_Close U (of_file obj) (world s2);
             w' = (if has_flag (of_flags obj) OpenDeleteOnClose \<and> of_name obj \<noteq> []
                   then snd (m_Delete U (rv_impl (vfs_objs s2 ! of_vfs obj)) (of_name obj) False w) else w)
         in (if err \<noteq> None then codeOf err (ioerr 16) else rc_ok, s2\<lparr>world := w'\<rparr>))"

text \<open>The result of \<open>xRead\<close> is \<open>None\<close> when \<^verbatim>\<open>make\<close> panics on a negative amount, otherwise the code and
  the bytes left in SQLite's buffer, if any were stored.\<close>

definition xRead :: "('v, 'f, 'w) goVFS \<Rightarrow> nat \<Rightarrow> 32 word \<Rightarrow> 64 word \<Rightarrow> ('f, 'v, 'w) dispatch
    \<Rightarrow> (rcode \<times> bytes option) option \<times> ('f, 'v, 'w) dispatch" where
  "xRead U pFile amt off s = (case fileFor pFile s of
       None \<Rightarrow> (Some (ioerr 1, None), s)
     | Some f \<Rightarrow>
         if sint amt < 0 then (None, s)
         else let len = nat (sint amt)
         in (case m_ReadAt U (of_file (shm_files s ! f)) len (sint off) (world s) of ((p, n, err), w) \<Rightarrow>
           let n' = (if n < 0 then 0 else if int len < n then len else nat n)
           in (Some (if n' < len then (ioerr 2, Some (take n' p @ replicate (len - n') 0))
                     else if err \<noteq> None then (codeOf err (ioerr 1), Some (take n' p))
                     else (rc_ok, Some (take n' p))), s\<lparr>world := w\<rparr>)))"

text \<open>\<open>src\<close> are the bytes at SQLite's pointer, as many as the amount.\<close>

definition xWrite :: "('v, 'f, 'w) goVFS \<Rightarrow> nat \<Rightarrow> bytes \<Rightarrow> 64 word \<Rightarrow> ('f, 'v, 'w) dispatch
    \<Rightarrow> rcode \<times> ('f, 'v, 'w) dispatch" where
  "xWrite U pFile src off s = (case fileFor pFile s of
       None \<Rightarrow> (ioerr 3, s)
     | Some f \<Rightarrow> (case m_WriteAt U (of_file (shm_files s ! f)) src (sint off) (world s) of ((n, err), w) \<Rightarrow>
         (if err \<noteq> None then codeOf err (ioerr 3) else if n < int (length src) then ioerr 3 else rc_ok,
          s\<lparr>world := w\<rparr>)))"

text \<open>The methods whose only result is an error share their shape: code for a missing file, the call,
  and the same code when the error has none of its own.\<close>

definition err_method :: "('f \<Rightarrow> 'w \<Rightarrow> goError option \<times> 'w) \<Rightarrow> rcode \<Rightarrow> nat \<Rightarrow> ('f, 'v, 'w) dispatch
    \<Rightarrow> rcode \<times> ('f, 'v, 'w) dispatch" where
  "err_method call fallback pFile s = (case fileFor pFile s of
       None \<Rightarrow> (fallback, s)
     | Some f \<Rightarrow> (case call (of_file (shm_files s ! f)) (world s) of (err, w) \<Rightarrow>
         (if err \<noteq> None then codeOf err fallback else rc_ok, s\<lparr>world := w\<rparr>)))"

definition vfs_xTruncate :: "('v, 'f, 'w) goVFS \<Rightarrow> nat \<Rightarrow> 64 word \<Rightarrow> ('f, 'v, 'w) dispatch \<Rightarrow> rcode \<times> ('f, 'v, 'w) dispatch" where
  "vfs_xTruncate U pFile sz = err_method (\<lambda>f. m_Truncate U f (sint sz)) (ioerr 6) pFile"

definition xSync :: "('v, 'f, 'w) goVFS \<Rightarrow> nat \<Rightarrow> 32 word \<Rightarrow> ('f, 'v, 'w) dispatch \<Rightarrow> rcode \<times> ('f, 'v, 'w) dispatch" where
  "xSync U pFile flags = err_method (\<lambda>f. m_Sync U f (sint flags)) (ioerr 4) pFile"

definition xLock :: "('v, 'f, 'w) goVFS \<Rightarrow> nat \<Rightarrow> 32 word \<Rightarrow> ('f, 'v, 'w) dispatch \<Rightarrow> rcode \<times> ('f, 'v, 'w) dispatch" where
  "xLock U pFile lvl = err_method (\<lambda>f. m_Lock U f (sint lvl)) (ioerr 15) pFile"

definition xUnlock :: "('v, 'f, 'w) goVFS \<Rightarrow> nat \<Rightarrow> 32 word \<Rightarrow> ('f, 'v, 'w) dispatch \<Rightarrow> rcode \<times> ('f, 'v, 'w) dispatch" where
  "xUnlock U pFile lvl = err_method (\<lambda>f. m_Unlock U f (sint lvl)) (ioerr 8) pFile"

definition xFileSize :: "('v, 'f, 'w) goVFS \<Rightarrow> nat \<Rightarrow> ('f, 'v, 'w) dispatch
    \<Rightarrow> (rcode \<times> 64 word option) \<times> ('f, 'v, 'w) dispatch" where
  "xFileSize U pFile s = (case fileFor pFile s of
       None \<Rightarrow> ((ioerr 7, None), s)
     | Some f \<Rightarrow> (case m_Size U (of_file (shm_files s ! f)) (world s) of ((sz, err), w) \<Rightarrow>
         ((if err \<noteq> None then (codeOf err (ioerr 7), None) else (rc_ok, Some (word_of_int sz))), s\<lparr>world := w\<rparr>)))"

definition xCheckReservedLock :: "('v, 'f, 'w) goVFS \<Rightarrow> nat \<Rightarrow> ('f, 'v, 'w) dispatch
    \<Rightarrow> (rcode \<times> bool option) \<times> ('f, 'v, 'w) dispatch" where
  "xCheckReservedLock U pFile s = (case fileFor pFile s of
       None \<Rightarrow> ((ioerr 14, None), s)
     | Some f \<Rightarrow> (case m_CheckReservedLock U (of_file (shm_files s ! f)) (world s) of ((held, err), w) \<Rightarrow>
         ((if err \<noteq> None then codeOf err (ioerr 14) else rc_ok, Some (err = None \<and> held)), s\<lparr>world := w\<rparr>)))"

definition xFileControl :: "('v, 'f, 'w) goVFS \<Rightarrow> nat \<Rightarrow> 32 word \<Rightarrow> nat \<Rightarrow> ('f, 'v, 'w) dispatch
    \<Rightarrow> rcode \<times> ('f, 'v, 'w) dispatch" where
  "xFileControl U pFile op pArg s = (case fileFor pFile s of
       None \<Rightarrow> (12, s)
     | Some f \<Rightarrow> (case m_FileControl U (of_file (shm_files s ! f)) of
         None \<Rightarrow> (12, s)
       | Some fc \<Rightarrow> (case fc (sint op) pArg (world s) of (err, w) \<Rightarrow>
           (if err \<noteq> None then codeOf err 1 else rc_ok, s\<lparr>world := w\<rparr>))))"

definition xSectorSize :: "('v, 'f, 'w) goVFS \<Rightarrow> nat \<Rightarrow> ('f, 'v, 'w) dispatch \<Rightarrow> 32 word" where
  "xSectorSize U pFile s = (case fileFor pFile s of
       None \<Rightarrow> 4096
     | Some f \<Rightarrow> let n = m_SectorSize U (of_file (shm_files s ! f)) in if 0 < n then word_of_int n else 4096)"

definition xDeviceCharacteristics :: "('v, 'f, 'w) goVFS \<Rightarrow> nat \<Rightarrow> ('f, 'v, 'w) dispatch \<Rightarrow> 32 word" where
  "xDeviceCharacteristics U pFile s = (case fileFor pFile s of
       None \<Rightarrow> 0
     | Some f \<Rightarrow> word_of_int (m_DeviceCharacteristics U (of_file (shm_files s ! f))))"

section \<open>The instrumenting decorator\<close>

text \<open>\<^verbatim>\<open>Wrap\<close> (\<^verbatim>\<open>wrap.go\<close>): a wrapped file is the base file with its name, and the recorder's events are a
  list beside the base's state; the durations the events also carry are left out. A base whose \<^verbatim>\<open>Open\<close>
  reports no error returns a file. \<^verbatim>\<open>wrappedFile\<close> has no \<^verbatim>\<open>ShmGroup\<close> method.\<close>

datatype event =
    OnOpen string int "goError option"
  | OnRead string int int "goError option"
  | OnWrite string int int "goError option"
  | OnSync string "goError option"

definition ErrNotFound :: goError where
  "ErrNotFound = VFSError 12 None"

text \<open>A call of the base that records nothing.\<close>

definition fwd :: "('w \<Rightarrow> 'r \<times> 'w) \<Rightarrow> 'w \<times> event list \<Rightarrow> 'r \<times> 'w \<times> event list" where
  "fwd call wl = (case call (fst wl) of (r, w) \<Rightarrow> (r, w, snd wl))"

definition recorded :: "('w \<Rightarrow> 'r \<times> 'w) \<Rightarrow> ('r \<Rightarrow> event) \<Rightarrow> 'w \<times> event list \<Rightarrow> 'r \<times> 'w \<times> event list" where
  "recorded call ev wl = (case call (fst wl) of (r, w) \<Rightarrow> (r, w, snd wl @ [ev r]))"

definition wrapped_open :: "string \<Rightarrow> 'f option \<times> int \<times> goError option \<Rightarrow> ('f \<times> string) option \<times> int \<times> goError option" where
  "wrapped_open name r = (case r of (f, granted, err) \<Rightarrow>
     if err \<noteq> None then (None, granted, err) else (map_option (\<lambda>b. (b, name)) f, granted, None))"

definition wrapped_FileControl :: "('v, 'f, 'w) goVFS \<Rightarrow> 'f \<Rightarrow> int \<Rightarrow> nat \<Rightarrow> 'w \<times> event list
    \<Rightarrow> goError option \<times> 'w \<times> event list" where
  "wrapped_FileControl U f op arg wl = (case m_FileControl U f of
       Some fc \<Rightarrow> fwd (fc op arg) wl
     | None \<Rightarrow> (Some ErrNotFound, wl))"

definition vfs_Wrap :: "('v, 'f, 'w) goVFS \<Rightarrow> ('v, 'f \<times> string, 'w \<times> event list) goVFS" where
  "vfs_Wrap U = \<lparr>
     m_Open = (\<lambda>v name flags wl. case recorded (m_Open U v name flags) (\<lambda>r. OnOpen name flags (snd (snd r))) wl of
        (r, wl') \<Rightarrow> (wrapped_open name r, wl')),
     m_Delete = (\<lambda>v name syncDir. fwd (m_Delete U v name syncDir)),
     m_Access = (\<lambda>v name op. fwd (m_Access U v name op)),
     m_FullPathname = (\<lambda>v name. fwd (m_FullPathname U v name)),
     m_ReadAt = (\<lambda>f len off. recorded (m_ReadAt U (fst f) len off) (\<lambda>r. OnRead (snd f) off (fst (snd r)) (snd (snd r)))),
     m_WriteAt = (\<lambda>f p off. recorded (m_WriteAt U (fst f) p off) (\<lambda>r. OnWrite (snd f) off (fst r) (snd r))),
     m_Truncate = (\<lambda>f sz. fwd (m_Truncate U (fst f) sz)),
     m_Sync = (\<lambda>f flags. recorded (m_Sync U (fst f) flags) (OnSync (snd f))),
     m_Size = (\<lambda>f. fwd (m_Size U (fst f))),
     m_Lock = (\<lambda>f lvl. fwd (m_Lock U (fst f) lvl)),
     m_Unlock = (\<lambda>f lvl. fwd (m_Unlock U (fst f) lvl)),
     m_CheckReservedLock = (\<lambda>f. fwd (m_CheckReservedLock U (fst f))),
     m_SectorSize = (\<lambda>f. m_SectorSize U (fst f)),
     m_DeviceCharacteristics = (\<lambda>f. m_DeviceCharacteristics U (fst f)),
     m_Close = (\<lambda>f. fwd (m_Close U (fst f))),
     m_ShmGroup = (\<lambda>f. None),
     m_FileControl = (\<lambda>f. Some (wrapped_FileControl U (fst f)))\<rparr>"

section \<open>Runs\<close>

text \<open>A call of a method that only reaches the implementation.\<close>

inductive io_call :: "('v, 'f, 'w) goVFS \<Rightarrow> ('f, 'v, 'w) dispatch \<Rightarrow> ('f, 'v, 'w) dispatch \<Rightarrow> bool" for U s where
  "io_call U s (snd (xRead U pFile amt off s))"
| "io_call U s (snd (xWrite U pFile src off s))"
| "io_call U s (snd (vfs_xTruncate U pFile sz s))"
| "io_call U s (snd (xSync U pFile flags s))"
| "io_call U s (snd (xLock U pFile lvl s))"
| "io_call U s (snd (xUnlock U pFile lvl s))"
| "io_call U s (snd (xFileSize U pFile s))"
| "io_call U s (snd (xCheckReservedLock U pFile s))"
| "io_call U s (snd (xFileControl U pFile op pArg s))"
| "io_call U s (snd (xDelete U pVfs zName syncDir s))"
| "io_call U s (snd (xAccess U pVfs zName op s))"
| "io_call U s (snd (xFullPathname U pVfs zName nOut s))"

text \<open>The calls SQLite and the program make, in any order and from any number of connections. Beside the
  dispatcher's state a run carries what each file holds of the lock slots. SQLite's side of the
  contract is in the guards: a file is opened in memory that is not an open file, a connection asks only
  for slots it does not hold, gives back only slots it holds in the mode it names, and gives up its
  locks before it unmaps or closes. The C allocator returns addresses that are not in use, and the
  64-bit token counters are not exhausted.\<close>

inductive vstep :: "('v, 'f, 'w) goVFS \<Rightarrow> ('f, 'v, 'w) dispatch \<times> holds \<Rightarrow> ('f, 'v, 'w) dispatch \<times> holds \<Rightarrow> bool"
  for U where
  register: "c_structs s (cs_cvfs cs) = None \<Longrightarrow> \<not> exhausted (vfsRegistry s) \<Longrightarrow>
    vstep U (s, h) (snd (vfs_Register cs name impl opts s), h)"
| unregister: "vstep U (s, h) (snd (vfs_Unregister rc name s), h)"
| opn: "fileFor pFile s = None \<Longrightarrow> \<not> exhausted (fileRegistry s) \<Longrightarrow>
    vstep U (s, h) (snd (xOpen U pVfs zName pFile flags s), h)"
| close: "(\<And>f i. fileFor pFile s = Some f \<Longrightarrow> h f i = HFree) \<Longrightarrow> vstep U (s, h) (snd (xClose U pFile s), h)"
| io: "io_call U s s' \<Longrightarrow> vstep U (s, h) (s', h)"
| shmMap: "calloc_ok mem (c_live s) \<Longrightarrow>
    vstep U (s, h) (snd (xShmMap (m_ShmGroup U) mem pFile iRegion pgsz bExtend s), h)"
| shmLock: "fileFor pFile s = Some f \<Longrightarrow> group_of f s = Some g \<Longrightarrow> slot_range offset n = Some (lo, hi) \<Longrightarrow>
    flags AND SHM_UNLOCK = 0 \<Longrightarrow> holds_all f lo hi HFree h \<Longrightarrow> xShmLock pFile offset n flags s = (rc, s') \<Longrightarrow>
    vstep U (s, h)
      (s', if rc = rc_ok then hold_range f lo hi (lock_mode (flags AND SHM_SHARED \<noteq> 0)) h else h)"
| shmUnlock: "fileFor pFile s = Some f \<Longrightarrow> group_of f s = Some g \<Longrightarrow> slot_range offset n = Some (lo, hi) \<Longrightarrow>
    flags AND SHM_UNLOCK \<noteq> 0 \<Longrightarrow> holds_all f lo hi (lock_mode (flags AND SHM_SHARED \<noteq> 0)) h \<Longrightarrow>
    vstep U (s, h) (snd (xShmLock pFile offset n flags s), hold_range f lo hi HFree h)"
| shmRefused: "slot_range offset n = None \<or> fileFor pFile s = None \<Longrightarrow>
    vstep U (s, h) (snd (xShmLock pFile offset n flags s), h)"
| shmUnmap: "(\<And>f i. fileFor pFile s = Some f \<Longrightarrow> h f i = HFree) \<Longrightarrow> vstep U (s, h) (snd (xShmUnmap pFile s), h)"

definition init_dispatch :: "'w \<Rightarrow> ('f, 'v, 'w) dispatch" where
  "init_dispatch w = \<lparr>shmGroups = Map.empty, shm_groups = [], shm_files = [], fileRegistry = NewRegistry,
     file_token = (\<lambda>_. 0), c_live = [], vfs_objs = [], vfsRegistry = NewRegistry, byName = Map.empty,
     c_structs = Map.empty, c_names = [], world = w\<rparr>"

definition vreach :: "('v, 'f, 'w) goVFS \<Rightarrow> ('f, 'v, 'w) dispatch \<times> holds \<Rightarrow> bool" where
  "vreach U st \<longleftrightarrow> (\<exists>w. (vstep U)\<^sup>*\<^sup>* (init_dispatch w, \<lambda>f i. HFree) st)"

section \<open>The invariant\<close>

definition open_ok :: "('f, 'v, 'w) dispatch \<Rightarrow> bool" where
  "open_ok s \<longleftrightarrow> reg_inv (fileRegistry s) \<and>
     (\<forall>tok f. Lookup tok (fileRegistry s) = Some f \<longrightarrow> f < length (shm_files s) \<and>
        Lookup (rv_token (vfs_objs s ! of_vfs (shm_files s ! f))) (vfsRegistry s) = Some (of_vfs (shm_files s ! f))) \<and>
     (\<forall>t t' f. Lookup t (fileRegistry s) = Some f \<longrightarrow> Lookup t' (fileRegistry s) = Some f \<longrightarrow> t' = t) \<and>
     (\<forall>f<length (shm_files s). (\<forall>tok. Lookup tok (fileRegistry s) \<noteq> Some f) \<longrightarrow> group_of f s = None)"

definition vfs_ok :: "('f, 'v, 'w) dispatch \<Rightarrow> bool" where
  "vfs_ok s \<longleftrightarrow> reg_inv (vfsRegistry s) \<and>
     (\<forall>t i. Lookup t (vfsRegistry s) = Some i \<longrightarrow> i < length (vfs_objs s) \<and> rv_token (vfs_objs s ! i) = t \<and>
        byName s (rv_name (vfs_objs s ! i)) = Some i \<and>
        map_option c_pAppData (c_structs s (rv_cvfs (vfs_objs s ! i))) = Some t) \<and>
     (\<forall>n i. byName s n = Some i \<longrightarrow> i < length (vfs_objs s) \<and> rv_name (vfs_objs s ! i) = n \<and>
        Lookup (rv_token (vfs_objs s ! i)) (vfsRegistry s) = Some i)"

definition dispatch_inv :: "('f, 'v, 'w) dispatch \<times> holds \<Rightarrow> bool" where
  "dispatch_inv st \<longleftrightarrow> shm_inv (snd st) (fst st) \<and> open_ok (fst st) \<and> vfs_ok (fst st)"

lemma io_call_world: "io_call U s s' \<Longrightarrow> \<exists>w. s' = s\<lparr>world := w\<rparr>"
proof -
  have self: "\<exists>w. s = s\<lparr>world := w\<rparr>" for s :: "('f, 'v, 'w) dispatch"
    by (rule exI [of _ "world s"]) simp
  show "io_call U s s' \<Longrightarrow> \<exists>w. s' = s\<lparr>world := w\<rparr>"
    by (induction rule: io_call.induct)
      (auto simp: xRead_def xWrite_def err_method_def vfs_xTruncate_def xSync_def xLock_def xUnlock_def
        xFileSize_def xCheckReservedLock_def xFileControl_def xDelete_def xAccess_def xFullPathname_def Let_def
        split: option.splits prod.splits intro: self)
qed

lemma world_inv [simp]: "shm_inv h (s\<lparr>world := w\<rparr>) = shm_inv h s" "open_ok (s\<lparr>world := w\<rparr>) = open_ok s"
  "vfs_ok (s\<lparr>world := w\<rparr>) = vfs_ok s"
  by (simp_all add: shm_inv_def group_ok_def keys_ok_def memory_ok_def attached_def open_ok_def vfs_ok_def)

lemma has_open_iff:
  assumes "reg_inv (fileRegistry s)"
  shows "has_open i s \<longleftrightarrow> (\<exists>tok f. Lookup tok (fileRegistry s) = Some f \<and> of_vfs (shm_files s ! f) = i)"
proof -
  have loop: "range_loop (\<lambda>tok f op. if of_vfs (shm_files s ! f) = i then (False, True) else (True, op)) ps b =
      (b \<or> (\<exists>p\<in>set ps. of_vfs (shm_files s ! snd p) = i))" for ps b
  proof (induction ps arbitrary: b)
    case (Cons p ps)
    obtain tok f where "p = (tok, f)" by (cases p)
    then show ?case using Cons.IH by (cases "of_vfs (shm_files s ! f) = i") simp_all
  qed simp
  have d: "distinct (map fst (rg_m (fileRegistry s)))" and pos: "(tok, f) \<in> set (rg_m (fileRegistry s)) \<Longrightarrow> 0 < tok" for tok f
    using assms by (force simp: reg_inv_def)+
  then show ?thesis
    unfolding has_open_def Range_def loop Lookup_def by (auto, metis less_irrefl, force)
qed

subsection \<open>Registration\<close>

lemma vfs_ok_install:
  assumes ok: "vfs_ok s" and nm: "byName s name = None" and fresh: "c_structs s (cs_cvfs cs) = None"
    and room: "\<not> exhausted (vfsRegistry s)"
  shows "vfs_ok (snd (install cs name v opts mx cname s))"
proof -
  let ?i = "length (vfs_objs s)" and ?r = "vfsRegistry s"
  have inv: "reg_inv ?r" using ok by (simp add: vfs_ok_def)
  obtain tok reg where tr: "Register ?i ?r = (tok, reg)" by (cases "Register ?i ?r")
  have reg: "reg_inv reg" "Lookup tok ?r = None" "Lookup t reg = (if t = tok then Some ?i else Lookup t ?r)" for t
    using cabi.mint_ok [OF inv room, of ?i] cabi.mint_fresh [OF inv room, of ?i]
      cabi.find_mint [OF inv room, of t ?i] tr by auto
  have drop: "reg_inv (Unregister tok reg)" "Lookup t (Unregister tok reg) = Lookup t ?r" for t
    using cabi.drop_ok [OF reg(1)] cabi.find_drop [OF reg(1), of t tok] reg(2) reg(3) [of t] by auto
  have old: "Lookup t ?r = Some i \<Longrightarrow> i < ?i \<and> rv_token (vfs_objs s ! i) = t \<and>
      byName s (rv_name (vfs_objs s ! i)) = Some i \<and>
      map_option c_pAppData (c_structs s (rv_cvfs (vfs_objs s ! i))) = Some t" for t i
    using ok by (auto simp: vfs_ok_def)
  have oldn: "byName s n = Some i \<Longrightarrow> i < ?i \<and> rv_name (vfs_objs s ! i) = n \<and>
      Lookup (rv_token (vfs_objs s ! i)) ?r = Some i" for n i
    using ok by (auto simp: vfs_ok_def)
  show ?thesis
  proof (cases "cs_rc cs = rc_ok")
    case True
    have "rv_token (vfs_objs s ! i) \<noteq> tok" if "byName s n = Some i" for n i
      using oldn [OF that] reg(2) by auto
    then show ?thesis using True reg old oldn nm fresh
      by (fastforce simp: install_def Let_def tr vfs_ok_def nth_append split: if_splits)
  next
    case False
    then show ?thesis using drop old oldn
      by (fastforce simp: install_def Let_def tr vfs_ok_def nth_append)
  qed
qed

lemma open_ok_install:
  assumes ok: "vfs_ok s" and files: "open_ok s" and room: "\<not> exhausted (vfsRegistry s)"
  shows "open_ok (snd (install cs name v opts mx cname s))"
proof -
  let ?i = "length (vfs_objs s)" and ?r = "vfsRegistry s" and ?s' = "snd (install cs name v opts mx cname s)"
  have inv: "reg_inv ?r" using ok by (simp add: vfs_ok_def)
  obtain tok reg where tr: "Register ?i ?r = (tok, reg)" by (cases "Register ?i ?r")
  have "reg_inv reg" using cabi.mint_ok [OF inv room, of ?i] tr by simp
  then have keep: "Lookup t ?r = Some i \<Longrightarrow> Lookup t (vfsRegistry ?s') = Some i \<and> vfs_objs ?s' ! i = vfs_objs s ! i" for t i
    using cabi.live_tokens_distinct [OF inv room, of t i ?i] cabi.drop_only(1) [of reg t tok] ok tr
    by (auto simp: install_def Let_def vfs_ok_def nth_append)
  have same: "fileRegistry ?s' = fileRegistry s" "shm_files ?s' = shm_files s" by (simp_all add: install_def Let_def tr)
  have "Lookup (rv_token (vfs_objs ?s' ! of_vfs (shm_files s ! f))) (vfsRegistry ?s') = Some (of_vfs (shm_files s ! f))"
    if "Lookup t (fileRegistry s) = Some f" for t f
  proof -
    have "Lookup (rv_token (vfs_objs s ! of_vfs (shm_files s ! f))) ?r = Some (of_vfs (shm_files s ! f))"
      using files that by (simp add: open_ok_def)
    from keep [OF this] show ?thesis by simp
  qed
  then show ?thesis using files by (simp add: open_ok_def same)
qed

lemma vfs_Unregister_ok:
  assumes ok: "vfs_ok s" and files: "open_ok s"
  shows "vfs_ok (snd (vfs_Unregister rc name s)) \<and> open_ok (snd (vfs_Unregister rc name s))"
proof (cases "byName s name")
  case (Some i)
  let ?r = "vfsRegistry s" and ?t = "rv_token (vfs_objs s ! i)"
  have inv: "reg_inv ?r" and finv: "reg_inv (fileRegistry s)" using ok files by (auto simp: vfs_ok_def open_ok_def)
  have drop: "reg_inv (Unregister ?t ?r)" "Lookup t (Unregister ?t ?r) = (if t = ?t then None else Lookup t ?r)" for t
    using cabi.drop_ok [OF inv] cabi.find_drop [OF inv] by auto
  have i: "Lookup ?t ?r = Some i" "rv_name (vfs_objs s ! i) = name" using ok Some by (auto simp: vfs_ok_def)
  have tok: "Lookup t ?r = Some j \<Longrightarrow> rv_token (vfs_objs s ! j) = t \<and> byName s (rv_name (vfs_objs s ! j)) = Some j \<and>
      map_option c_pAppData (c_structs s (rv_cvfs (vfs_objs s ! j))) = Some t" for t j
    using ok by (auto simp: vfs_ok_def)
  have apart: "rv_cvfs (vfs_objs s ! j) \<noteq> rv_cvfs (vfs_objs s ! i) \<and> rv_name (vfs_objs s ! j) \<noteq> name"
    if "Lookup t ?r = Some j" "t \<noteq> ?t" for t j
    using tok [OF that(1)] tok [OF i(1)] that i by (metis option.inject)
  show ?thesis
  proof (cases "has_open i s")
    case False
    then have noopen: "Lookup tok (fileRegistry s) = Some f \<Longrightarrow> of_vfs (shm_files s ! f) \<noteq> i" for tok f
      unfolding has_open_iff [OF finv] by blast
    let ?s' = "snd (vfs_Unregister rc name s)"
    have s': "vfsRegistry ?s' = Unregister ?t ?r" "byName ?s' = (byName s)(name := None)" "vfs_objs ?s' = vfs_objs s"
      "c_structs ?s' = (c_structs s)(rv_cvfs (vfs_objs s ! i) := None)" "fileRegistry ?s' = fileRegistry s"
      "shm_files ?s' = shm_files s"
      using Some False by (simp_all add: vfs_Unregister_def Let_def)
    have byn: "byName s n = Some j \<Longrightarrow> n \<noteq> name \<Longrightarrow> rv_token (vfs_objs s ! j) \<noteq> ?t" for n j
      using ok i unfolding vfs_ok_def by (metis option.inject)
    have "vfs_ok ?s'"
      unfolding vfs_ok_def s' drop(2)
      using drop(1) ok apart byn by (simp add: vfs_ok_def)
    moreover have "open_ok ?s'"
    proof -
      have "rv_token (vfs_objs s ! of_vfs (shm_files s ! f)) \<noteq> ?t" if "Lookup tok' (fileRegistry s) = Some f" for tok' f
        using files noopen [OF that] that i(1) unfolding open_ok_def by (metis option.inject)
      then show ?thesis using files unfolding open_ok_def s' drop(2) by simp
    qed
    ultimately show ?thesis ..
  qed (use ok files Some in \<open>simp add: vfs_Unregister_def\<close>)
qed (use ok files in \<open>simp add: vfs_Unregister_def\<close>)

subsection \<open>Opening and closing\<close>

lemma shm_inv_new_file:
  assumes "shm_inv h s" "shm_groups s' = shm_groups s" "shmGroups s' = shmGroups s" "c_live s' = c_live s"
    "shm_files s' = shm_files s @ fs" "\<forall>x\<in>set fs. of_shm x = None"
  shows "shm_inv h s'"
proof -
  have att: "attached g s' = attached g s" for g
    using assms(5,6) by (auto simp: attached_def nth_append split: if_splits)
      (metis add_diff_inverse_nat less_diff_conv2 nat_add_left_cancel_less not_le_imp_less nth_mem option.distinct(1))
  have "shm_files s' ! f = shm_files s ! f" if "f \<in> attached g s" for f g
    using that assms(5) by (simp add: attached_def nth_append)
  then have "keys_ok s'" using assms(1) by (auto simp: shm_inv_def keys_ok_def att assms(2,3))
  then show ?thesis using assms(1) by (simp add: shm_inv_def att group_ok_def memory_ok_def assms(2,4))
qed

text \<open>Changing only which groups files belong to keeps the tables of open files in step, as long as a file
  that is not open joins no group.\<close>

lemma open_ok_regroup:
  assumes "open_ok s" "fileRegistry s' = fileRegistry s" "vfsRegistry s' = vfsRegistry s" "vfs_objs s' = vfs_objs s"
    "length (shm_files s') = length (shm_files s)" "\<And>f. of_vfs (shm_files s' ! f) = of_vfs (shm_files s ! f)"
    "\<And>f. group_of f s' = group_of f s \<or> group_of f s' = None \<or> (\<exists>tok. Lookup tok (fileRegistry s) = Some f)"
  shows "open_ok s'"
  using assms(1,7) unfolding open_ok_def assms(2-6) by metis

lemma xOpen_result:
  "(\<exists>w. snd (xOpen U pVfs zName pFile flags s) = s\<lparr>world := w\<rparr>) \<or>
   (\<exists>rv w obj. vfsFor pVfs s = Some rv \<and> of_vfs obj = rv \<and> of_shm obj = None \<and>
      snd (xOpen U pVfs zName pFile flags s) = s\<lparr>world := w, shm_files := shm_files s @ [obj],
        fileRegistry := snd (Register (length (shm_files s)) (fileRegistry s)),
        file_token := (file_token s)(pFile := fst (Register (length (shm_files s)) (fileRegistry s)))\<rparr>)"
proof (cases "vfsFor pVfs s")
  case None
  then have "snd (xOpen U pVfs zName pFile flags s) = s\<lparr>world := world s\<rparr>" by (simp add: xOpen_def)
  then show ?thesis by blast
next
  case (Some rv)
  obtain f granted err w where m: "m_Open U (rv_impl (vfs_objs s ! rv)) (case zName of None \<Rightarrow> [] | Some n \<Rightarrow> n)
      (sint flags) (world s) = ((f, granted, err), w)" by (metis prod_cases3 surj_pair)
  show ?thesis
  proof (cases "err = None \<and> f \<noteq> None")
    case True
    then obtain fl where "f = Some fl" by auto
    then show ?thesis using Some True m
      by (intro disjI2 exI [of _ rv] exI [of _ w] exI [of _ "\<lparr>of_file = fl, of_vfs = rv,
          of_name = (case zName of None \<Rightarrow> [] | Some n \<Rightarrow> n), of_flags = sint flags, of_shm = None, of_shmKey = []\<rparr>"])
        (auto simp: xOpen_def Let_def split: prod.splits)
  next
    case False
    then have "snd (xOpen U pVfs zName pFile flags s) = s\<lparr>world := w\<rparr>"
      using Some m by (auto simp: xOpen_def Let_def)
    then show ?thesis by blast
  qed
qed

lemma xOpen_inv:
  assumes inv: "shm_inv h s" "open_ok s" "vfs_ok s" and room: "\<not> exhausted (fileRegistry s)"
  shows "dispatch_inv (snd (xOpen U pVfs zName pFile flags s), h)"
proof (cases "\<exists>w. snd (xOpen U pVfs zName pFile flags s) = s\<lparr>world := w\<rparr>")
  case True
  then show ?thesis using inv by (auto simp: dispatch_inv_def)
next
  case False
  let ?s' = "snd (xOpen U pVfs zName pFile flags s)" and ?i = "length (shm_files s)"
  obtain tok reg where tr: "Register ?i (fileRegistry s) = (tok, reg)" by (cases "Register ?i (fileRegistry s)")
  from False xOpen_result [of U pVfs zName pFile flags s] obtain rv w obj where
    rv: "vfsFor pVfs s = Some rv" and obj: "of_vfs obj = rv" "of_shm obj = None"
    and eq: "?s' = s\<lparr>world := w, shm_files := shm_files s @ [obj], fileRegistry := reg,
        file_token := (file_token s)(pFile := tok)\<rparr>" unfolding tr by auto
  have s': "shm_files ?s' = shm_files s @ [obj]" "fileRegistry ?s' = reg" "shm_groups ?s' = shm_groups s"
    "shmGroups ?s' = shmGroups s" "c_live ?s' = c_live s" "vfs_objs ?s' = vfs_objs s" "vfsRegistry ?s' = vfsRegistry s"
    "byName ?s' = byName s" "c_structs ?s' = c_structs s"
    unfolding eq by simp_all
  have finv: "reg_inv (fileRegistry s)" using inv by (simp add: open_ok_def)
  have reg: "reg_inv reg" "Lookup tok (fileRegistry s) = None"
    "Lookup t reg = (if t = tok then Some ?i else Lookup t (fileRegistry s))" for t
    using cabi.mint_ok [OF finv room, of ?i] cabi.mint_fresh [OF finv room, of ?i]
      cabi.find_mint [OF finv room, of t ?i] tr by auto
  have live: "Lookup (rv_token (vfs_objs s ! rv)) (vfsRegistry s) = Some rv"
    using rv inv(3) unfolding vfsFor_def vfs_ok_def by (auto split: option.splits)
  have "open_ok ?s'"
  proof -
    have old: "Lookup t (fileRegistry s) = Some f \<Longrightarrow> f < ?i" for t f using inv(2) by (auto simp: open_ok_def)
    have "group_of f ?s' = None" if "f < length (shm_files ?s')" "\<forall>t. Lookup t reg \<noteq> Some f" for f
    proof -
      have "f \<noteq> ?i" using that(2) reg(3) [of tok] by metis
      then have f: "f < ?i" "shm_files ?s' ! f = shm_files s ! f" using that(1) by (auto simp: s' nth_append)
      have "\<forall>t. Lookup t (fileRegistry s) \<noteq> Some f" using that(2) reg(2,3) by (metis option.distinct(1))
      then show ?thesis using inv(2) f by (auto simp: open_ok_def)
    qed
    then show ?thesis
      using inv(2) reg(1) live obj old unfolding open_ok_def s'(2,6,7) reg(3)
      by (auto simp: s' nth_append dest: old split: if_splits)
  qed
  moreover have "shm_inv h ?s'"
    by (rule shm_inv_new_file [OF inv(1) s'(3,4,5,1)]) (simp add: obj)
  moreover have "vfs_ok ?s'" using inv(3) by (simp add: vfs_ok_def s')
  ultimately show ?thesis by (simp add: dispatch_inv_def)
qed

lemma detachShm_same [simp]: "fileRegistry (detachShm f s) = fileRegistry s" "vfsRegistry (detachShm f s) = vfsRegistry s"
  "vfs_objs (detachShm f s) = vfs_objs s" "byName (detachShm f s) = byName s" "c_structs (detachShm f s) = c_structs s"
  "length (shm_files (detachShm f s)) = length (shm_files s)" "file_token (detachShm f s) = file_token s"
  by (auto simp: detachShm_def Let_def split: option.splits)

lemma detachShm_files: "of_vfs (shm_files (detachShm f s) ! x) = of_vfs (shm_files s ! x)"
  "group_of x (detachShm f s) = group_of x s \<or> group_of x (detachShm f s) = None"
  by (cases "f < length (shm_files s)"; cases "x = f";
      auto simp: detachShm_def Let_def list_update_beyond split: option.splits)+

lemma detachShm_group: "f < length (shm_files s) \<Longrightarrow> group_of f (detachShm f s) = None"
  by (auto simp: detachShm_def Let_def split: option.splits)

lemma shm_inv_ext:
  assumes "shm_inv h s" "shm_groups s' = shm_groups s" "shmGroups s' = shmGroups s" "c_live s' = c_live s"
    "shm_files s' = shm_files s"
  shows "shm_inv h s'"
  by (rule shm_inv_new_file [OF assms(1-4), of "[]"]) (simp_all add: assms(5))

lemma xClose_inv:
  assumes inv: "shm_inv h s" "open_ok s" "vfs_ok s" and free: "\<And>f i. fileFor pFile s = Some f \<Longrightarrow> h f i = HFree"
  shows "dispatch_inv (snd (xClose U pFile s), h)"
proof (cases "fileFor pFile s")
  case (Some f)
  let ?t = "file_token s pFile" and ?r = "fileRegistry s"
  let ?s1 = "s\<lparr>fileRegistry := Unregister ?t ?r, file_token := (file_token s)(pFile := 0)\<rparr>"
  have f: "Lookup ?t ?r = Some f" "f < length (shm_files s)" using Some inv(2) by (auto simp: fileFor_def open_ok_def)
  have finv: "reg_inv ?r" using inv(2) by (simp add: open_ok_def)
  have drop: "reg_inv (Unregister ?t ?r)" "Lookup t (Unregister ?t ?r) = (if t = ?t then None else Lookup t ?r)" for t
    using cabi.drop_ok [OF finv] cabi.find_drop [OF finv] by auto
  have shm1: "shm_inv h ?s1" by (rule shm_inv_ext [OF inv(1)]) simp_all
  have "open_ok (detachShm f ?s1)"
  proof -
    have "group_of x (detachShm f ?s1) = None"
      if x: "x < length (shm_files s)" "\<forall>t. Lookup t (Unregister ?t ?r) \<noteq> Some x" for x
    proof (cases "x = f")
      case True
      then show ?thesis using detachShm_group [of f ?s1] f(2) by simp
    next
      case False
      then have "\<forall>t. Lookup t ?r \<noteq> Some x" using x(2) drop(2) f(1) by (metis option.inject)
      then have "group_of x s = None" using inv(2) x(1) by (auto simp: open_ok_def)
      then show ?thesis using detachShm_files(2) [where x = x and f = f and s = ?s1] by auto
    qed
    then show ?thesis using inv(2) drop(1) unfolding open_ok_def
      by (simp add: drop(2) detachShm_files(1))
  qed
  moreover have "shm_inv h (detachShm f ?s1)"
    using detachShm_inv [OF shm1, of f] f(2) free [OF Some] by simp
  moreover have "vfs_ok (detachShm f ?s1)" using inv(3) by (simp add: vfs_ok_def)
  moreover have "\<exists>w. snd (xClose U pFile s) = (detachShm f ?s1)\<lparr>world := w\<rparr>"
    using Some by (auto simp: xClose_def Let_def split: prod.splits)
  ultimately show ?thesis by (auto simp: dispatch_inv_def)
qed (use inv in \<open>simp add: xClose_def dispatch_inv_def\<close>)

subsection \<open>Every step\<close>

lemma find_group_same: "find_group key s = (g, s1) \<Longrightarrow> fileRegistry s1 = fileRegistry s \<and> vfsRegistry s1 = vfsRegistry s \<and>
    vfs_objs s1 = vfs_objs s \<and> byName s1 = byName s \<and> c_structs s1 = c_structs s \<and> shm_files s1 = shm_files s \<and>
    c_live s1 = c_live s"
  by (auto simp: find_group_def split: option.splits)

lemma attachShm_same:
  "fileRegistry (snd (attachShm sf f s)) = fileRegistry s" "vfsRegistry (snd (attachShm sf f s)) = vfsRegistry s"
  "vfs_objs (snd (attachShm sf f s)) = vfs_objs s" "byName (snd (attachShm sf f s)) = byName s"
  "c_structs (snd (attachShm sf f s)) = c_structs s" "length (shm_files (snd (attachShm sf f s))) = length (shm_files s)"
  "of_vfs (shm_files (snd (attachShm sf f s)) ! x) = of_vfs (shm_files s ! x)"
  "x \<noteq> f \<Longrightarrow> group_of x (snd (attachShm sf f s)) = group_of x s"
  "c_live (snd (attachShm sf f s)) = c_live s"
  by (cases "f < length (shm_files s)"; cases "x = f";
      auto simp: attachShm_def list_update_beyond dest: find_group_same split: option.splits prod.splits)+

lemma map_region_same:
  "fileRegistry (snd (map_region mem iR pg bx g s)) = fileRegistry s"
  "vfsRegistry (snd (map_region mem iR pg bx g s)) = vfsRegistry s"
  "vfs_objs (snd (map_region mem iR pg bx g s)) = vfs_objs s" "byName (snd (map_region mem iR pg bx g s)) = byName s"
  "c_structs (snd (map_region mem iR pg bx g s)) = c_structs s" "shm_files (snd (map_region mem iR pg bx g s)) = shm_files s"
  by (auto simp: map_region_def Let_def split: prod.splits)

lemma attachShm_attaches:
  "attachShm sf f s = (Some g, s1) \<Longrightarrow> f < length (shm_files s) \<Longrightarrow> f \<in> attached g (s1 :: ('f, 'v, 'w) dispatch)"
  by (auto simp: attachShm_def attached_def dest!: find_group_same split: option.splits prod.splits)

lemma xShmMap_inv:
  assumes inv: "shm_inv h s" "open_ok s" "vfs_ok s" and mem: "calloc_ok mem (c_live s)"
  shows "dispatch_inv (snd (xShmMap sf mem pFile iRegion pgsz bExtend s), h)"
proof (cases "fileFor pFile s")
  case (Some f)
  then have f: "f < length (shm_files s)" "\<exists>tok. Lookup tok (fileRegistry s) = Some f"
    using inv(2) by (auto simp: fileFor_def open_ok_def)
  obtain go s1 where at: "attachShm sf f s = (go, s1)" by (cases "attachShm sf f s")
  note same = attachShm_same [where sf = sf and f = f and s = s, unfolded at snd_conv]
  have s1: "shm_inv h s1" using attachShm_inv [OF inv(1) f(1), of sf] at by simp
  have o1: "open_ok s1"
    by (rule open_ok_regroup [OF inv(2) same(1-3,6,7)]) (use same(8) f(2) in metis)
  have v1: "vfs_ok s1" using inv(3) by (simp add: vfs_ok_def same(2-5))
  show ?thesis
  proof (cases go)
    case None
    then show ?thesis using Some at s1 o1 v1 by (simp add: xShmMap_def dispatch_inv_def)
  next
    case (Some g)
    then have "attached g s1 \<noteq> {}" using attachShm_attaches f(1) at by blast
    then have "shm_inv h (snd (map_region mem iRegion pgsz bExtend g s1))"
      using map_region_inv [OF s1] mem same(9) by simp
    moreover have "open_ok (snd (map_region mem iRegion pgsz bExtend g s1))"
      by (rule open_ok_regroup [OF o1]) (simp_all add: map_region_same)
    moreover have "vfs_ok (snd (map_region mem iRegion pgsz bExtend g s1))"
      using v1 by (simp add: vfs_ok_def map_region_same)
    ultimately show ?thesis using Some \<open>fileFor pFile s = Some f\<close> at by (simp add: xShmMap_def dispatch_inv_def)
  qed
qed (use inv in \<open>simp add: xShmMap_def dispatch_inv_def\<close>)

lemma xShmLock_tables:
  assumes "open_ok s" "vfs_ok s"
  shows "open_ok (snd (xShmLock pFile offset n flags s))" "vfs_ok (snd (xShmLock pFile offset n flags s))"
proof -
  have "\<exists>gs. snd (xShmLock pFile offset n flags s) = s\<lparr>shm_groups := gs\<rparr>"
    by (auto simp: xShmLock_def Let_def split: option.splits prod.splits intro: exI [of _ "shm_groups s"])
  then show "open_ok (snd (xShmLock pFile offset n flags s))" "vfs_ok (snd (xShmLock pFile offset n flags s))"
    using assms by (auto simp: open_ok_def vfs_ok_def)
qed

lemma fileFor_attached:
  assumes "open_ok s" "fileFor pFile s = Some f" "group_of f s = Some g"
  shows "f \<in> attached g s"
  using assms by (auto simp: open_ok_def fileFor_def attached_def)

lemma vstep_inv:
  assumes "vstep U st st'" "dispatch_inv st"
  shows "dispatch_inv st'"
  using assms
proof (induction rule: vstep.cases)
  case (register s cs h name impl opts)
  have nochange: "shm_inv h (snd (vfs_Register cs name impl opts s))"
    by (rule shm_inv_ext [of h s]) (use register in \<open>auto simp: dispatch_inv_def vfs_Register_def install_def Let_def
      split: option.splits prod.splits\<close>)
  moreover have "vfs_ok (snd (vfs_Register cs name impl opts s))"
    using register vfs_ok_install [of s name cs] by (auto simp: dispatch_inv_def vfs_Register_def split: option.splits)
  moreover have "open_ok (snd (vfs_Register cs name impl opts s))"
    using register open_ok_install [of s cs name] by (auto simp: dispatch_inv_def vfs_Register_def split: option.splits)
  ultimately show ?case using register by (simp add: dispatch_inv_def)
next
  case (unregister s h rc name)
  have "shm_inv h (snd (vfs_Unregister rc name s))"
    by (rule shm_inv_ext [of h s]) (use unregister in \<open>auto simp: dispatch_inv_def vfs_Unregister_def Let_def split: option.splits\<close>)
  then show ?case using unregister vfs_Unregister_ok [of s rc name] by (simp add: dispatch_inv_def)
next
  case (opn pFile s h pVfs zName flags)
  then show ?case using xOpen_inv [of h s U pVfs zName pFile flags] by (simp add: dispatch_inv_def)
next
  case (close pFile s h)
  then show ?case using xClose_inv [of h s pFile U] by (simp add: dispatch_inv_def)
next
  case (io s s' h)
  then show ?case using io_call_world [of U s s'] by (auto simp: dispatch_inv_def)
next
  case (shmMap mem s h pFile iRegion pgsz bExtend)
  then show ?case using xShmMap_inv [of h s mem] by (simp add: dispatch_inv_def)
next
  case (shmLock pFile s f g offset n lo hi flags h rc s')
  then have inv: "shm_inv h s" "open_ok s" "vfs_ok s" by (auto simp: dispatch_inv_def)
  have fa: "f \<in> attached g s" using fileFor_attached inv shmLock by blast
  note r = xShmLock_refines [OF inv(1) shmLock(3) fa shmLock(5,6) refl shmLock(7)]
  have "(rc = rc_ok) = compatible (attached g s) lo hi (flags AND SHM_SHARED \<noteq> 0) h"
    using r(1) shmLock(8) by (auto simp: rc_defs split: if_splits)
  then show ?case
    using r(2) xShmLock_tables [OF inv(2,3), of pFile offset n flags] shmLock(2,8)
    by (auto simp: dispatch_inv_def)
next
  case (shmUnlock pFile s f g offset n lo hi flags h)
  then have inv: "shm_inv h s" "open_ok s" "vfs_ok s" by (auto simp: dispatch_inv_def)
  have fa: "f \<in> attached g s" using fileFor_attached inv shmUnlock by blast
  show ?case
    using xShmLock_releases(2) [OF inv(1) shmUnlock(3) fa shmUnlock(5,6) refl shmUnlock(7)]
      xShmLock_tables [OF inv(2,3), of pFile offset n flags] shmUnlock(2)
    by (auto simp: dispatch_inv_def)
next
  case (shmRefused offset n pFile s h flags)
  then have "snd (xShmLock pFile offset n flags s) = s"
    by (auto simp: xShmLock_def slot_range_def Let_def split: option.splits if_splits)
  then show ?case using shmRefused by simp
next
  case (shmUnmap pFile s h)
  then have inv: "shm_inv h s" "open_ok s" "vfs_ok s" by (auto simp: dispatch_inv_def)
  show ?case
  proof (cases "fileFor pFile s")
    case (Some f)
    then have f: "f < length (shm_files s)" using inv(2) by (auto simp: fileFor_def open_ok_def)
    have "open_ok (detachShm f s)"
      by (rule open_ok_regroup [OF inv(2)]) (simp_all add: detachShm_files(1), use detachShm_files(2) in blast)
    moreover have "vfs_ok (detachShm f s)" using inv(3) by (simp add: vfs_ok_def)
    ultimately show ?thesis using shmUnmap Some detachShm_inv [OF inv(1) f]
      by (simp add: xShmUnmap_def dispatch_inv_def)
  qed (use shmUnmap in \<open>simp add: xShmUnmap_def\<close>)
qed

lemma init_inv: "dispatch_inv (init_dispatch w, \<lambda>f i. HFree)"
  by (simp add: dispatch_inv_def init_dispatch_def shm_inv_def keys_ok_def memory_ok_def attached_def open_ok_def
      vfs_ok_def) (simp add: Lookup_def NewRegistry_def)

lemma vreach_inv: "vreach U st \<Longrightarrow> dispatch_inv st"
  unfolding vreach_def
proof (elim exE)
  fix w assume "(vstep U)\<^sup>*\<^sup>* (init_dispatch w, \<lambda>f i. HFree) st"
  then show "dispatch_inv st" by (induction rule: rtranclp_induct) (auto intro: init_inv vstep_inv)
qed

lemma vreach_step: "vreach U st \<Longrightarrow> vstep U st st' \<Longrightarrow> vreach U st'"
  unfolding vreach_def by (meson rtranclp.rtrancl_into_rtrancl)

section \<open>Properties\<close>

subsection \<open>A concrete run\<close>

text \<open>A VFS whose files all share the key \<open>''k''\<close> and are empty.\<close>

definition demoVFS :: "(unit, unit, unit) goVFS" where
  "demoVFS = \<lparr>m_Open = (\<lambda>v n fl w. ((Some (), 0, None), w)), m_Delete = (\<lambda>v n b w. (None, w)),
     m_Access = (\<lambda>v n op w. ((False, None), w)), m_FullPathname = (\<lambda>v n w. ((n, None), w)),
     m_ReadAt = (\<lambda>f len off w. ((replicate len 0, 0, Some IoEOF), w)), m_WriteAt = (\<lambda>f p off w. ((int (length p), None), w)),
     m_Truncate = (\<lambda>f n w. (None, w)), m_Sync = (\<lambda>f n w. (None, w)), m_Size = (\<lambda>f w. ((0, None), w)),
     m_Lock = (\<lambda>f n w. (None, w)), m_Unlock = (\<lambda>f n w. (None, w)), m_CheckReservedLock = (\<lambda>f w. ((False, None), w)),
     m_SectorSize = (\<lambda>f. 512), m_DeviceCharacteristics = (\<lambda>f. 0), m_Close = (\<lambda>f w. (None, w)),
     m_ShmGroup = (\<lambda>f. Some ''k''), m_FileControl = (\<lambda>f. None)\<rparr>"

abbreviation "demo_site \<equiv> \<lparr>cs_default = Some 512, cs_cname = Some 2, cs_cvfs = 3, cs_rc = rc_ok\<rparr>"
abbreviation "demo_opts \<equiv> \<lparr>o_makeDefault = False, o_maxPathname = 0\<rparr>"
abbreviation "demo_mem \<equiv> (\<lambda>k. k + 5 :: nat)"

text \<open>Two connections open the file and map region 0; the first one takes slot 0 exclusively.\<close>

definition demo1 :: "(unit, unit, unit) dispatch" where
  "demo1 = snd (vfs_Register demo_site ''v'' (Some ()) demo_opts (init_dispatch ()))"
definition demo2 :: "(unit, unit, unit) dispatch" where
  "demo2 = snd (xOpen demoVFS 3 (Some ''a'') 7 6 demo1)"
definition demo3 :: "(unit, unit, unit) dispatch" where
  "demo3 = snd (xOpen demoVFS 3 (Some ''a'') 8 6 demo2)"
definition demo4 :: "(unit, unit, unit) dispatch" where
  "demo4 = snd (xShmMap (m_ShmGroup demoVFS) demo_mem 7 0 32768 1 demo3)"
definition demo5 :: "(unit, unit, unit) dispatch" where
  "demo5 = snd (xShmMap (m_ShmGroup demoVFS) demo_mem 8 0 32768 1 demo4)"

definition demo6 :: "(unit, unit, unit) dispatch" where
  "demo6 = snd (xShmLock 7 0 1 10 demo5)"

text \<open>The states it goes through, written out.\<close>

definition demo_file :: "nat option \<Rightarrow> unit openFile" where
  "demo_file g = \<lparr>of_file = (), of_vfs = 0, of_name = ''a'', of_flags = 6, of_shm = g,
     of_shmKey = (if g = None then [] else ''k'')\<rparr>"

definition demo_state :: "shmGroup list \<Rightarrow> unit openFile list \<Rightarrow> nat list \<Rightarrow> (unit, unit, unit) dispatch" where
  "demo_state gs fs live = \<lparr>shmGroups = (if gs = [] then Map.empty else [''k'' \<mapsto> 0]), shm_groups = gs, shm_files = fs,
     fileRegistry = \<lparr>rg_next = length fs, rg_m = map (\<lambda>i. (Suc i, i)) [0..<length fs]\<rparr>,
     file_token = (if length fs = 2 then (\<lambda>_. 0)(7 := 1, 8 := Suc 1) else if length fs = 1 then (\<lambda>_. 0)(7 := 1) else (\<lambda>_. 0)),
     c_live = live, vfs_objs = [\<lparr>rv_impl = (), rv_name = ''v'', rv_cname = 2, rv_cvfs = 3, rv_token = 1\<rparr>],
     vfsRegistry = \<lparr>rg_next = 1, rg_m = [(1, 0)]\<rparr>, byName = [''v'' \<mapsto> 0],
     c_structs = [3 \<mapsto> \<lparr>c_mxPathname = 512, c_zName = 2, c_pAppData = 1\<rparr>], c_names = [2], world = ()\<rparr>"

definition demo_group :: "int \<Rightarrow> bool \<Rightarrow> shmGroup" where
  "demo_group n x = \<lparr>regions = [5], sizes = [32768], g_shared = replicate 8 0,
     g_excl = x # replicate 7 False, g_refs = n\<rparr>"

lemmas demo_eval = vfs_Register_def install_def xOpen_def vfsFor_def fileFor_def xShmMap_def attachShm_def find_group_def
  map_region_def init_dispatch_def Register_def NewRegistry_def add64_def Lookup_def Let_def rc_ok_def demoVFS_def
  new_shmGroup_def shmNLOCK_def demo_state_def demo_file_def demo_group_def grow.simps

lemma demo1_eq: "demo1 = demo_state [] [] []"
  by (simp add: demo1_def demo_eval)

lemma demo2_eq: "demo2 = demo_state [] [demo_file None] []"
  by (simp add: demo2_def demo1_eq demo_eval)

lemma demo3_eq: "demo3 = demo_state [] [demo_file None, demo_file None] []"
  by (simp add: demo3_def demo2_eq demo_eval)

lemma demo4_eq: "demo4 = demo_state [demo_group 1 False] [demo_file (Some 0), demo_file None] [5]"
  by (simp add: demo4_def demo3_eq demo_eval numeral_eq_Suc)

lemma demo5_eq: "demo5 = demo_state [demo_group 2 False] [demo_file (Some 0), demo_file (Some 0)] [5]"
  by (simp add: demo5_def demo4_eq demo_eval numeral_eq_Suc)

lemma slot0: "slot_range 0 1 = Some (0, 1)"
  by (simp add: slot_range_def shmNLOCK_def)

lemma lock_demo: "xShmLock 7 0 1 10 demo5 = (rc_ok, demo_state [demo_group 2 True] [demo_file (Some 0), demo_file (Some 0)] [5])"
proof -
  have "fileFor 7 demo5 = Some 0" "group_of 0 demo5 = Some 0" by (simp_all add: demo5_eq demo_eval)
  from xShmLock_eq [OF this slot0, of 10] show ?thesis
    by (simp add: demo5_eq demo_state_def demo_group_def lock_slots_def SHM_UNLOCK_def SHM_SHARED_def set_excl_def Let_def numeral_eq_Suc)
qed

abbreviation "demo_holds \<equiv> hold_range 0 0 1 HExcl (\<lambda>f i. HFree)"

lemma demo_reach: "vreach demoVFS (demo6, demo_holds)"
proof -
  have r0: "vreach demoVFS (init_dispatch (), \<lambda>f i. HFree)" unfolding vreach_def by blast
  have "vstep demoVFS (init_dispatch (), \<lambda>f i. HFree) (demo1, \<lambda>f i. HFree)"
    unfolding demo1_def by (rule vstep.register) (simp_all add: init_dispatch_def exhausted_def NewRegistry_def)
  then have r1: "vreach demoVFS (demo1, \<lambda>f i. HFree)" by (rule vreach_step [OF r0])
  have "vstep demoVFS (demo1, \<lambda>f i. HFree) (demo2, \<lambda>f i. HFree)"
    unfolding demo2_def by (rule vstep.opn) (simp_all add: demo1_eq demo_eval exhausted_def)
  then have r2: "vreach demoVFS (demo2, \<lambda>f i. HFree)" by (rule vreach_step [OF r1])
  have "vstep demoVFS (demo2, \<lambda>f i. HFree) (demo3, \<lambda>f i. HFree)"
    unfolding demo3_def by (rule vstep.opn) (simp_all add: demo2_eq demo_eval exhausted_def)
  then have r3: "vreach demoVFS (demo3, \<lambda>f i. HFree)" by (rule vreach_step [OF r2])
  have "vstep demoVFS (demo3, \<lambda>f i. HFree) (demo4, \<lambda>f i. HFree)"
    unfolding demo4_def by (rule vstep.shmMap) (simp add: demo3_eq demo_state_def calloc_ok_def)
  then have r4: "vreach demoVFS (demo4, \<lambda>f i. HFree)" by (rule vreach_step [OF r3])
  have "demo5 = snd (xShmMap (m_ShmGroup demoVFS) (\<lambda>k. k + 6) 8 0 32768 1 demo4)"
    by (simp add: demo5_eq demo4_eq demo_eval numeral_eq_Suc)
  moreover have "vstep demoVFS (demo4, \<lambda>f i. HFree)
      (snd (xShmMap (m_ShmGroup demoVFS) (\<lambda>k. k + 6) 8 0 32768 1 demo4), \<lambda>f i. HFree)"
    by (rule vstep.shmMap) (simp add: demo4_eq demo_state_def calloc_ok_def)
  ultimately have r5: "vreach demoVFS (demo5, \<lambda>f i. HFree)" using vreach_step [OF r4] by simp
  have "vstep demoVFS (demo5, \<lambda>f i. HFree) (demo6, if rc_ok = rc_ok then hold_range 0 0 1
      (lock_mode (10 AND SHM_SHARED \<noteq> 0)) (\<lambda>f i. HFree) else (\<lambda>f i. HFree))"
    by (rule vstep.shmLock [where pFile = 7 and g = 0 and offset = 0 and n = 1 and flags = 10])
      (simp_all add: demo6_def lock_demo slot0 SHM_UNLOCK_def holds_all_def, simp_all add: demo5_eq demo_eval)
  then show ?thesis using vreach_step [OF r5] by (simp add: SHM_SHARED_def lock_mode_def)
qed

subsection \<open>The theorems\<close>

text \<open>C8: Shared-memory locks. In every state that connections reach, whatever the order of their calls, no
  lock slot is held exclusively by one file of a group while another file of it holds the slot in any mode;
  and a request for slots the file does not hold is granted exactly when no file of its group holds one
  of them in a conflicting mode, otherwise it is answered BUSY.\<close>

theorem shm_locks_exclude:
  assumes "vreach U (s, h)" "fileFor pFile s = Some f" "group_of f s = Some g" "slot_range offset n = Some (lo, hi)"
    "flags AND SHM_UNLOCK = 0" "holds_all f lo hi HFree h"
  shows "fst (xShmLock pFile offset n flags s) =
      (if compatible (attached g s) lo hi (flags AND SHM_SHARED \<noteq> 0) h then rc_ok else rc_busy) \<and>
    (\<forall>i < shmNLOCK. slot_exclusion (attached g s) h i)"
proof -
  have inv: "shm_inv h s" "open_ok s" using vreach_inv [OF assms(1)] by (auto simp: dispatch_inv_def)
  have fa: "f \<in> attached g s" using fileFor_attached [OF inv(2) assms(2,3)] .
  then have "group_ok h s g" using inv(1) by (auto simp: shm_inv_def keys_ok_def)
  then show ?thesis
    using xShmLock_refines(1) [OF inv(1) assms(2) fa assms(4,5) refl assms(6)] by (simp add: group_ok_def slots_ok_def)
qed

theorem shm_locks_exclude_witness:
  "fst (xShmLock 8 0 1 6 demo6) = rc_busy \<and> slot_exclusion (attached 0 demo6) demo_holds 0"
proof -
  have d: "demo6 = demo_state [demo_group 2 True] [demo_file (Some 0), demo_file (Some 0)] [5]"
    by (simp add: demo6_def lock_demo)
  have f: "fileFor 8 demo6 = Some 1" "group_of 1 demo6 = Some 0" by (simp_all add: d demo_eval)
  have "0 \<in> attached 0 demo6" by (simp add: d demo_eval attached_def)
  then have "\<not> compatible (attached 0 demo6) 0 1 True demo_holds" by (force simp: compatible_def hold_range_at)
  then show ?thesis
    using shm_locks_exclude [OF demo_reach f slot0, of 6]
    by (simp add: SHM_UNLOCK_def SHM_SHARED_def holds_all_def hold_range_at shmNLOCK_def)
qed

text \<open>C24: Shared memory is neither leaked nor freed twice. In every reachable state the live C allocations are
  exactly the regions of the groups, each once; a group with regions has an open file attached to it, its
  reference count is the number of its files, and files that name the same key share one group. When no
  file is open, nothing is allocated and no key is registered.\<close>

theorem shm_memory_owned:
  assumes "vreach U (s, h)"
  shows "distinct (c_live s) \<and> mset (c_live s) = mset (concat (map regions (shm_groups s))) \<and>
    (\<forall>g < length (shm_groups s). g_refs (shm_groups s ! g) = int (card (attached g s)) \<and>
       (regions (shm_groups s ! g) \<noteq> [] \<longrightarrow> (\<exists>tok. \<exists>f\<in>attached g s. Lookup tok (fileRegistry s) = Some f))) \<and>
    (\<forall>f g f' g'. f \<in> attached g s \<longrightarrow> f' \<in> attached g' s \<longrightarrow>
       of_shmKey (shm_files s ! f) = of_shmKey (shm_files s ! f') \<longrightarrow> g' = g) \<and>
    ((\<forall>tok. Lookup tok (fileRegistry s) = None) \<longrightarrow> c_live s = [] \<and> shmGroups s = Map.empty)"
proof -
  have shm: "shm_inv h s" and op: "open_ok s" using vreach_inv [OF assms] by (auto simp: dispatch_inv_def)
  have keys: "keys_ok s" and mem: "memory_ok s" and grp: "\<And>g. g < length (shm_groups s) \<Longrightarrow> group_ok h s g"
    using shm by (auto simp: shm_inv_def)
  have opn: "\<exists>tok. Lookup tok (fileRegistry s) = Some f" if "f \<in> attached g s" for f g
    using op that unfolding open_ok_def attached_def by fastforce
  have regs: "\<exists>tok. \<exists>f\<in>attached g s. Lookup tok (fileRegistry s) = Some f"
    if "g < length (shm_groups s)" "regions (shm_groups s ! g) \<noteq> []" for g
    using grp [OF that(1)] that(2) opn unfolding group_ok_def by blast
  have one: "g' = g" if "f \<in> attached g s" "f' \<in> attached g' s"
    "of_shmKey (shm_files s ! f) = of_shmKey (shm_files s ! f')" for f g f' g'
    using keys that unfolding keys_ok_def by (metis option.inject)
  have "c_live s = [] \<and> shmGroups s = Map.empty" if none: "\<forall>tok. Lookup tok (fileRegistry s) = None"
  proof
    have "\<forall>r\<in>set (map regions (shm_groups s)). r = []" using regs none by (fastforce simp: in_set_conv_nth)
    then have "concat (map regions (shm_groups s)) = []" by simp
    then show "c_live s = []" using mem unfolding memory_ok_def by (metis mset.simps(1) mset_zero_iff)
    show "shmGroups s = Map.empty"
    proof (rule ext)
      fix k
      show "shmGroups s k = None"
        using keys opn none unfolding keys_ok_def by (cases "shmGroups s k") fastforce+
    qed
  qed
  then show ?thesis using mem grp regs one unfolding memory_ok_def group_ok_def by blast
qed

theorem shm_memory_owned_witness:
  "distinct (c_live demo6) \<and> mset (c_live demo6) = mset (concat (map regions (shm_groups demo6)))"
  using shm_memory_owned [OF demo_reach] by simp



subsection \<open>Reading through the dispatcher\<close>

lemma xRead_eq:
  assumes "fileFor pFile s = Some f" "0 \<le> sint amt"
    "m_ReadAt U (of_file (shm_files s ! f)) (nat (sint amt)) (sint off) (world s) = ((p, int n, err), w)"
    "n \<le> nat (sint amt)"
  shows "xRead U pFile amt off s = (Some (if n < nat (sint amt)
       then (ioerr 2, Some (take n p @ replicate (nat (sint amt) - n) 0))
       else if err \<noteq> None then (codeOf err (ioerr 1), Some (take n p)) else (rc_ok, Some (take n p))), s\<lparr>world := w\<rparr>)"
  using assms by (auto simp: xRead_def Let_def)

text \<open>A read whose implementation stops short reports a short read and zero-fills, whatever error the
  implementation returned: an I/O or integrity failure that \<^verbatim>\<open>ReadAt\<close> returns with a short count, even a
  \<^verbatim>\<open>*VFSError\<close> that names its own code, reaches SQLite as SQLITE_IOERR_SHORT_READ over zero bytes, the
  signal of a read past the end of the file.\<close>

theorem short_read_hides_error:
  assumes "fileFor pFile s = Some f" "0 \<le> sint amt"
    "m_ReadAt U (of_file (shm_files s ! f)) (nat (sint amt)) (sint off) (world s) = ((p, int n, Some e), w)"
    "n < nat (sint amt)"
  shows "xRead U pFile amt off s = (Some (ioerr 2, Some (take n p @ replicate (nat (sint amt) - n) 0)), s\<lparr>world := w\<rparr>)"
  using xRead_eq [OF assms(1-3)] assms(4) by simp

theorem short_read_hides_error_witness:
  "xRead (demoVFS\<lparr>m_ReadAt := (\<lambda>f len off w. ((replicate len 1, 0, Some (VFSError 266 None)), w))\<rparr>) 8 4 0 demo6 =
     (Some (522, Some [0, 0, 0, 0]), demo6)"
proof -
  have f: "fileFor 8 demo6 = Some 1" by (simp add: demo6_def lock_demo demo_eval)
  show ?thesis
    using short_read_hides_error [OF f, of 4 "demoVFS\<lparr>m_ReadAt := (\<lambda>f len off w. ((replicate len 1, 0, Some (VFSError 266 None)), w))\<rparr>"
        0 "replicate 4 1" 0 "VFSError 266 None" "()"]
    by (simp add: ioerr_def numeral_eq_Suc)
qed

subsection \<open>The decorator observes and does not interfere\<close>

text \<open>What remains of a state of the decorated VFS when the recording is forgotten.\<close>

definition strip_file :: "('f \<times> string) openFile \<Rightarrow> 'f openFile" where
  "strip_file x = \<lparr>of_file = fst (of_file x), of_vfs = of_vfs x, of_name = of_name x, of_flags = of_flags x,
     of_shm = of_shm x, of_shmKey = of_shmKey x\<rparr>"

definition strip :: "('f \<times> string, 'v, 'w \<times> event list) dispatch \<Rightarrow> ('f, 'v, 'w) dispatch" where
  "strip s = \<lparr>shmGroups = shmGroups s, shm_groups = shm_groups s, shm_files = map strip_file (shm_files s),
     fileRegistry = fileRegistry s, file_token = file_token s, c_live = c_live s, vfs_objs = vfs_objs s,
     vfsRegistry = vfsRegistry s, byName = byName s, c_structs = c_structs s, c_names = c_names s, world = fst (world s)\<rparr>"

definition agrees :: "'r \<times> ('f \<times> string, 'v, 'w \<times> event list) dispatch \<Rightarrow> 'r \<times> ('f, 'v, 'w) dispatch \<Rightarrow> bool" where
  "agrees r r' \<longleftrightarrow> fst r = fst r' \<and> strip (snd r) = snd r'"

lemma strip_sel [simp]: "fileRegistry (strip s) = fileRegistry s" "file_token (strip s) = file_token s"
  "vfs_objs (strip s) = vfs_objs s" "c_structs (strip s) = c_structs s" "vfsRegistry (strip s) = vfsRegistry s"
  "world (strip s) = fst (world s)" "shm_files (strip s) = map strip_file (shm_files s)"
  "shm_groups (strip s) = shm_groups s" "shmGroups (strip s) = shmGroups s" "c_live (strip s) = c_live s"
  by (simp_all add: strip_def)

lemma strip_file_sel [simp]: "of_file (strip_file x) = fst (of_file x)" "of_vfs (strip_file x) = of_vfs x"
  "of_name (strip_file x) = of_name x" "of_flags (strip_file x) = of_flags x" "of_shm (strip_file x) = of_shm x"
  "of_shmKey (strip_file x) = of_shmKey x"
  by (simp_all add: strip_file_def)

lemma strip_world [simp]: "strip (s\<lparr>world := w\<rparr>) = (strip s)\<lparr>world := fst w\<rparr>"
  by (simp add: strip_def)

lemma strip_for [simp]: "fileFor pFile (strip s) = fileFor pFile s" "vfsFor pVfs (strip s) = vfsFor pVfs s"
  by (simp_all add: fileFor_def vfsFor_def split: option.splits)

lemma strip_file_shm [simp]: "strip_file (x\<lparr>of_shm := g\<rparr>) = (strip_file x)\<lparr>of_shm := g\<rparr>"
  by (simp add: strip_file_def)

lemma strip_detach: "f < length (shm_files s) \<Longrightarrow> strip (detachShm f s) = detachShm f (strip s)"
  by (simp add: detachShm_def strip_def map_update Let_def split: option.splits)

lemmas wrap_eval = vfs_Wrap_def fwd_def recorded_def agrees_def Let_def wrapped_FileControl_def wrapped_open_def

lemma wrap_io:
  assumes files: "\<And>f. fileFor pFile s = Some f \<Longrightarrow> f < length (shm_files s)"
  shows "agrees (xRead (vfs_Wrap U) pFile amt off s) (xRead U pFile amt off (strip s))"
    "agrees (xWrite (vfs_Wrap U) pFile src off s) (xWrite U pFile src off (strip s))"
    "agrees (vfs_xTruncate (vfs_Wrap U) pFile sz s) (vfs_xTruncate U pFile sz (strip s))"
    "agrees (xSync (vfs_Wrap U) pFile flags s) (xSync U pFile flags (strip s))"
    "agrees (xLock (vfs_Wrap U) pFile lvl s) (xLock U pFile lvl (strip s))"
    "agrees (xUnlock (vfs_Wrap U) pFile lvl s) (xUnlock U pFile lvl (strip s))"
    "agrees (xFileSize (vfs_Wrap U) pFile s) (xFileSize U pFile (strip s))"
    "agrees (xCheckReservedLock (vfs_Wrap U) pFile s) (xCheckReservedLock U pFile (strip s))"
    "agrees (xDelete (vfs_Wrap U) pVfs zName syncDir s) (xDelete U pVfs zName syncDir (strip s))"
    "agrees (xAccess (vfs_Wrap U) pVfs zName op s) (xAccess U pVfs zName op (strip s))"
    "agrees (xFullPathname (vfs_Wrap U) pVfs zName nOut s) (xFullPathname U pVfs zName nOut (strip s))"
  using files
  by (auto simp: xRead_def xWrite_def err_method_def vfs_xTruncate_def xSync_def xLock_def xUnlock_def xFileSize_def
      xCheckReservedLock_def xDelete_def xAccess_def xFullPathname_def wrap_eval split: option.splits prod.splits)

lemma wrap_control:
  assumes files: "\<And>f. fileFor pFile s = Some f \<Longrightarrow> f < length (shm_files s)"
  shows "agrees (xFileControl (vfs_Wrap U) pFile op pArg s) (xFileControl U pFile op pArg (strip s))"
  using files by (auto simp: xFileControl_def wrap_eval codeOf_def ErrNotFound_def split: option.splits prod.splits)

lemma wrap_close:
  assumes files: "\<And>f. fileFor pFile s = Some f \<Longrightarrow> f < length (shm_files s)"
  shows "agrees (xClose (vfs_Wrap U) pFile s) (xClose U pFile (strip s))"
proof (cases "fileFor pFile s")
  case (Some f)
  let ?s1 = "s\<lparr>fileRegistry := Unregister (file_token s pFile) (fileRegistry s), file_token := (file_token s)(pFile := 0)\<rparr>"
  have f: "f < length (shm_files (detachShm f ?s1))" using files [OF Some] by simp
  have st: "detachShm f ((strip s)\<lparr>fileRegistry := Unregister (file_token s pFile) (fileRegistry s),
      file_token := (file_token s)(pFile := 0)\<rparr>) = strip (detachShm f ?s1)"
    using strip_detach [of f ?s1] files [OF Some] by (simp add: strip_def)
  show ?thesis using Some f
    by (simp add: xClose_def st wrap_eval split: prod.splits)
qed (simp add: xClose_def agrees_def)

lemma wrap_open:
  "fst (fst (xOpen (vfs_Wrap U) pVfs zName pFile flags s)) = fst (fst (xOpen U pVfs zName pFile flags (strip s)))"
  "map_option snd (snd (fst (xOpen (vfs_Wrap U) pVfs zName pFile flags s))) =
     map_option snd (snd (fst (xOpen U pVfs zName pFile flags (strip s))))"
  "strip (snd (xOpen (vfs_Wrap U) pVfs zName pFile flags s)) = snd (xOpen U pVfs zName pFile flags (strip s))"
proof -
  have st: "strip (s\<lparr>world := w, shm_files := fs, fileRegistry := r, file_token := t\<rparr>) =
      (strip s)\<lparr>world := fst w, shm_files := map strip_file fs, fileRegistry := r, file_token := t\<rparr>" for w fs r t
    by (simp add: strip_def)
  show "fst (fst (xOpen (vfs_Wrap U) pVfs zName pFile flags s)) = fst (fst (xOpen U pVfs zName pFile flags (strip s)))"
    "map_option snd (snd (fst (xOpen (vfs_Wrap U) pVfs zName pFile flags s))) =
       map_option snd (snd (fst (xOpen U pVfs zName pFile flags (strip s))))"
    "strip (snd (xOpen (vfs_Wrap U) pVfs zName pFile flags s)) = snd (xOpen U pVfs zName pFile flags (strip s))"
    by (auto simp: xOpen_def wrap_eval st strip_file_def split: option.splits prod.splits)
qed

text \<open>A decorated file never joins a shared-memory group.\<close>

definition no_groups :: "('f, 'v, 'w) dispatch \<Rightarrow> bool" where
  "no_groups s \<longleftrightarrow> (\<forall>f < length (shm_files s). group_of f s = None)"

lemma no_groups_detach: "no_groups s \<Longrightarrow> no_groups (detachShm f s)"
  using detachShm_files(2) [where f = f and s = s] by (simp add: no_groups_def) metis

lemma xClose_files: "fileFor pFile s = Some f \<Longrightarrow> shm_files (snd (xClose U pFile s)) = shm_files (detachShm f s)"
  by (auto simp: xClose_def detachShm_def Let_def split: prod.splits option.splits)

lemma wrap_no_groups_step:
  assumes "vstep (vfs_Wrap U) st st'" "no_groups (fst st)" "dispatch_inv st"
  shows "no_groups (fst st')"
  using assms
proof (induction rule: vstep.cases)
  case (register s cs h name impl opts)
  then show ?case by (auto simp: no_groups_def vfs_Register_def install_def Let_def split: option.splits prod.splits)
next
  case (unregister s h rc name)
  then show ?case by (auto simp: no_groups_def vfs_Unregister_def Let_def split: option.splits)
next
  case (opn pFile s h pVfs zName flags)
  then show ?case using xOpen_result [of "vfs_Wrap U" pVfs zName pFile flags s]
    by (auto simp: no_groups_def nth_append)
next
  case (close pFile s h)
  then show ?case using no_groups_detach [of s] by (cases "fileFor pFile s") (simp_all add: no_groups_def xClose_files, simp add: xClose_def)
next
  case (io s s' h)
  then show ?case using io_call_world [of "vfs_Wrap U" s s'] by (auto simp: no_groups_def)
next
  case (shmMap mem s h pFile iRegion pgsz bExtend)
  have "f < length (shm_files s)" if "fileFor pFile s = Some f" for f
    using shmMap that by (auto simp: dispatch_inv_def open_ok_def fileFor_def)
  then show ?case using shmMap
    by (auto simp: xShmMap_def attachShm_def no_groups_def vfs_Wrap_def split: option.splits)
next
  case (shmLock pFile s f g offset n lo hi flags h rc s')
  then show ?case by (auto simp: no_groups_def xShmLock_def Let_def split: option.splits prod.splits if_splits)
next
  case (shmUnlock pFile s f g offset n lo hi flags h)
  then show ?case by (auto simp: no_groups_def xShmLock_def Let_def split: option.splits prod.splits if_splits)
next
  case (shmRefused offset n pFile s h flags)
  then show ?case by (auto simp: no_groups_def xShmLock_def Let_def split: option.splits prod.splits if_splits)
next
  case (shmUnmap pFile s h)
  then show ?case using no_groups_detach [of s] by (simp add: xShmUnmap_def split: option.splits)
qed

lemma wrap_no_groups: "vreach (vfs_Wrap U) st \<Longrightarrow> no_groups (fst st)"
  unfolding vreach_def
proof (elim exE)
  fix w assume "(vstep (vfs_Wrap U))\<^sup>*\<^sup>* (init_dispatch w, \<lambda>f i. HFree) st"
  then show "no_groups (fst st)"
  proof (induction rule: rtranclp_induct)
    case base
    then show ?case by (simp add: no_groups_def init_dispatch_def)
  next
    case (step y z)
    then have "vreach (vfs_Wrap U) y" unfolding vreach_def by blast
    then show ?case using step wrap_no_groups_step vreach_inv by blast
  qed
qed

text \<open>A file opened through the decorated example VFS.\<close>

definition wdemo1 :: "(unit \<times> string, unit, unit \<times> event list) dispatch" where
  "wdemo1 = snd (vfs_Register demo_site ''v'' (Some ()) demo_opts (init_dispatch ((), [])))"
definition wdemo2 :: "(unit \<times> string, unit, unit \<times> event list) dispatch" where
  "wdemo2 = snd (xOpen (vfs_Wrap demoVFS) 3 (Some ''a'') 7 6 wdemo1)"

lemma wdemo_open: "fileFor 7 wdemo2 = Some 0"
  by (simp add: wdemo2_def wdemo1_def demo_eval wrap_eval)

lemma wdemo_reach: "vreach (vfs_Wrap demoVFS) (wdemo2, \<lambda>f i. HFree)"
proof -
  have r0: "vreach (vfs_Wrap demoVFS) (init_dispatch ((), []), \<lambda>f i. HFree)" unfolding vreach_def by blast
  have "vstep (vfs_Wrap demoVFS) (init_dispatch ((), []), \<lambda>f i. HFree) (wdemo1, \<lambda>f i. HFree)"
    unfolding wdemo1_def by (rule vstep.register) (simp_all add: init_dispatch_def exhausted_def NewRegistry_def)
  then have r1: "vreach (vfs_Wrap demoVFS) (wdemo1, \<lambda>f i. HFree)" by (rule vreach_step [OF r0])
  have "vstep (vfs_Wrap demoVFS) (wdemo1, \<lambda>f i. HFree) (wdemo2, \<lambda>f i. HFree)"
    unfolding wdemo2_def by (rule vstep.opn) (simp_all add: wdemo1_def demo_eval exhausted_def)
  then show ?thesis by (rule vreach_step [OF r1])
qed

text \<open>Instrumenting a VFS changes nothing but the shared memory. Forgetting what was recorded, every file and
  VFS method of the decorated VFS returns what the undecorated one returns and leaves the same state.\<close>

theorem wrap_observes:
  assumes "vreach (vfs_Wrap U) (s, h)"
  shows "agrees (xRead (vfs_Wrap U) pFile amt off s) (xRead U pFile amt off (strip s)) \<and>
    agrees (xWrite (vfs_Wrap U) pFile src off s) (xWrite U pFile src off (strip s)) \<and>
    agrees (xSync (vfs_Wrap U) pFile fl s) (xSync U pFile fl (strip s)) \<and>
    agrees (vfs_xTruncate (vfs_Wrap U) pFile sz s) (vfs_xTruncate U pFile sz (strip s)) \<and>
    agrees (xFileSize (vfs_Wrap U) pFile s) (xFileSize U pFile (strip s)) \<and>
    agrees (xLock (vfs_Wrap U) pFile lvl s) (xLock U pFile lvl (strip s)) \<and>
    agrees (xUnlock (vfs_Wrap U) pFile lvl s) (xUnlock U pFile lvl (strip s)) \<and>
    agrees (xCheckReservedLock (vfs_Wrap U) pFile s) (xCheckReservedLock U pFile (strip s)) \<and>
    agrees (xFileControl (vfs_Wrap U) pFile op pArg s) (xFileControl U pFile op pArg (strip s)) \<and>
    agrees (xClose (vfs_Wrap U) pFile s) (xClose U pFile (strip s)) \<and>
    agrees (xDelete (vfs_Wrap U) pVfs zName syncDir s) (xDelete U pVfs zName syncDir (strip s)) \<and>
    agrees (xAccess (vfs_Wrap U) pVfs zName op s) (xAccess U pVfs zName op (strip s)) \<and>
    fst (fst (xOpen (vfs_Wrap U) pVfs zo pFile fl s)) = fst (fst (xOpen U pVfs zo pFile fl (strip s))) \<and>
    strip (snd (xOpen (vfs_Wrap U) pVfs zo pFile fl s)) = snd (xOpen U pVfs zo pFile fl (strip s))"
proof -
  have "f < length (shm_files s)" if "fileFor pFile s = Some f" for f
    using vreach_inv [OF assms] that by (auto simp: dispatch_inv_def open_ok_def fileFor_def)
  then show ?thesis by (intro conjI wrap_io wrap_control wrap_close wrap_open(1,3))
qed

theorem wrap_observes_witness:
  "agrees (xRead (vfs_Wrap demoVFS) 7 4 0 wdemo2) (xRead demoVFS 7 4 0 (strip wdemo2)) \<and> fileFor 7 wdemo2 = Some 0"
  using wrap_observes [OF wdemo_reach] wdemo_open by blast

text \<open>The decorator drops the shared-memory capability: whatever the base file offers, a decorated file is
  opened with the methods table without shared memory, and every attempt to map a region of it fails with
  SQLITE_IOERR_SHMMAP, so a database that runs in WAL mode on the base cannot on the decorated VFS.\<close>

theorem wrap_drops_shared_memory:
  assumes "vreach (vfs_Wrap U) (s, h)"
  shows "(\<forall>b fl'. snd (fst (xOpen (vfs_Wrap U) pVfs zName pFile flags s)) = Some (b, fl') \<longrightarrow> \<not> b) \<and>
    xShmMap (m_ShmGroup (vfs_Wrap U)) mem pFile iRegion pgsz bExtend s = (Some (rc_ioerr_shmmap, None), s)"
proof -
  have "group_of f s = None" if "fileFor pFile s = Some f" for f
    using wrap_no_groups [OF assms] vreach_inv [OF assms] that
    by (auto simp: no_groups_def dispatch_inv_def open_ok_def fileFor_def)
  then show ?thesis
    by (auto simp: xShmMap_def attachShm_def vfs_Wrap_def xOpen_def Let_def split: option.splits prod.splits if_splits)
qed

theorem wrap_drops_shared_memory_witness:
  "xShmMap (m_ShmGroup (vfs_Wrap demoVFS)) demo_mem 7 0 32768 1 wdemo2 = (Some (rc_ioerr_shmmap, None), wdemo2) \<and>
   fileFor 7 wdemo2 = Some 0"
  by (rule conjI [OF conjunct2 [OF wrap_drops_shared_memory [OF wdemo_reach]] wdemo_open])

end
