(* ===== verification/Vault_Vfs.thy ===== *)
theory Vault_Vfs
  imports Vault_File Vfs_Dispatch
begin

text \<open>
  The vault as a VFS: what SQLite sees of a container when its main file is read through the dispatcher
  (\<^verbatim>\<open>mainFile.ReadAt\<close> of \<^verbatim>\<open>src/vfs/vault/container.go\<close> under \<^verbatim>\<open>xReadTrampoline\<close> of
  \<^verbatim>\<open>src/vfs/iomethods.go\<close>). The implementation's state is the container.
\<close>

text \<open>The errors of the container as Go errors: \<^verbatim>\<open>io.EOF\<close>, which may be wrapped, and errors that carry no
  SQLite code.\<close>

definition go_error :: "verror \<Rightarrow> goError" where
  "go_error e = (if e = ErrEOF then IoEOF else OtherErr ''vault'')"

text \<open>\<open>len\<close> is the length of the buffer the dispatcher hands over, zeroed by \<^verbatim>\<open>make\<close>.\<close>

definition mainFile_ReadAt :: "codec \<Rightarrow> 'f \<Rightarrow> nat \<Rightarrow> int \<Rightarrow> container \<Rightarrow> (bytes \<times> int \<times> goError option) \<times> container" where
  "mainFile_ReadAt z f len off c = (case readAt z c (replicate len 0) (nat off) of
     (err, bs) \<Rightarrow> ((bs @ replicate (len - length bs) 0, int (length bs), map_option go_error err), c))"

text \<open>C9: A read of the database through the dispatcher returns the bytes of the file the container represents
  and zeros past its end; the code is OK when the file covers the request and SQLITE_IOERR_SHORT_READ
  when it does not.\<close>

theorem vault_read_through_dispatcher:
  assumes "represents z (world s) data" "0 < c_pageSize (world s)" "fileFor pFile s = Some f"
    "sint amt = int len" "sint off = int pos"
  shows "xRead (V\<lparr>m_ReadAt := mainFile_ReadAt z\<rparr>) pFile amt off s =
    (Some (if len = 0 \<or> pos + len \<le> container_size (world s) then rc_ok else ioerr 2,
       Some (map (\<lambda>i. if i < container_size (world s) then data i else 0) [pos..<pos + len])), s)"
proof -
  let ?size = "container_size (world s)" and ?U = "V\<lparr>m_ReadAt := mainFile_ReadAt z\<rparr>"
  let ?bs = "map data [pos..<(if len = 0 \<or> pos + len \<le> ?size then pos + len else ?size)]"
  have rd: "m_ReadAt ?U (of_file (shm_files s ! f)) (nat (sint amt)) (sint off) (world s) =
      ((?bs @ replicate (len - length ?bs) 0, int (length ?bs),
        if len = 0 \<or> pos + len \<le> ?size then None else Some IoEOF), world s)"
    using readAt_loop_correct [OF assms(1,2), of "replicate len 0" pos] assms(4,5)
    by (simp add: mainFile_ReadAt_def readAt_def go_error_def)
  have le: "length ?bs \<le> nat (sint amt)" using assms(4) by auto
  have bytes: "map (\<lambda>i. if i < ?size then data i else 0) [pos..<pos + len] = ?bs @ replicate (len - length ?bs) 0"
    if "\<not> (len = 0 \<or> pos + len \<le> ?size)"
    by (rule nth_equalityI) (use that in \<open>auto simp: nth_append\<close>)
  show ?thesis
    using xRead_eq [OF assms(3) _ rd le] assms(4) bytes by (auto simp: rc_ok_def)
qed

text \<open>A dispatcher with the container open as its only file.\<close>

definition vault_open :: "container \<Rightarrow> (unit, unit, container) dispatch" where
  "vault_open c = (init_dispatch c)\<lparr>shm_files := [\<lparr>of_file = (), of_vfs = 0, of_name = ''db'', of_flags = 6,
     of_shm = None, of_shmKey = []\<rparr>], fileRegistry := \<lparr>rg_next = 1, rg_m = [(1, 0)]\<rparr>,
     file_token := (\<lambda>_. 0)(7 := 1)\<rparr>"

theorem vault_read_through_dispatcher_witness:
  "\<forall>V. xRead (V\<lparr>m_ReadAt := mainFile_ReadAt storeOnly\<rparr>) 7 4 0 (vault_open freshContainer) =
     (Some (522, Some [0, 0, 0, 0]), vault_open freshContainer)"
proof -
  have "fileFor 7 (vault_open freshContainer) = Some 0" "world (vault_open freshContainer) = freshContainer"
    by (simp_all add: vault_open_def fileFor_def Lookup_def init_dispatch_def)
  then show ?thesis
    using vault_read_through_dispatcher [of storeOnly "vault_open freshContainer" "\<lambda>_. 0" 7 0 4 4 0 0]
    by (simp add: fresh_represents fresh_facts container_size_def ioerr_def numeral_eq_Suc)
qed

text \<open>C10: A page that cannot be trusted is not reported. When a page of the container fails its authentication,
  its checksum, its decompression or its read, a read of that page through the dispatcher answers
  SQLITE_IOERR_SHORT_READ over a buffer of zeros, the answer for a page past the end of the file, which
  SQLite takes for a page of zeros; the container's error never leaves the dispatcher.\<close>

theorem vault_bad_page_reads_as_zeros:
  assumes "loadPageInto z (world s) (replicate (c_pageSize (world s)) 0) pageNo = Inl e"
    "0 < c_pageSize (world s)" "pageNo < c_pageCount (world s)" "fileFor pFile s = Some f"
    "sint amt = int (c_pageSize (world s))" "sint off = int (pageNo * c_pageSize (world s))"
  shows "xRead (V\<lparr>m_ReadAt := mainFile_ReadAt z\<rparr>) pFile amt off s =
    (Some (ioerr 2, Some (replicate (c_pageSize (world s)) 0)), s)"
proof -
  let ?c = "world s" and ?U = "V\<lparr>m_ReadAt := mainFile_ReadAt z\<rparr>"
  have "\<not> c_pageSize ?c * c_pageCount ?c \<le> pageNo * c_pageSize ?c" using assms(2,3) by simp
  then have "readAt z ?c (replicate (c_pageSize ?c) 0) (pageNo * c_pageSize ?c) = (Some e, [])"
    using assms(1,2) unfolding readAt_def by (subst readAt_loop.simps) (simp add: Let_def)
  moreover have at: "nat (sint off) = pageNo * c_pageSize ?c" using assms(6) by (metis nat_int)
  ultimately have "m_ReadAt ?U (of_file (shm_files s ! f)) (nat (sint amt)) (sint off) ?c =
      ((replicate (c_pageSize ?c) 0, int 0, Some (go_error e)), ?c)"
    using assms(5) at by (simp add: mainFile_ReadAt_def)
  from xRead_eq [OF assms(4) _ this] show ?thesis using assms(2,5) by simp
qed

text \<open>A one-page container whose slot does not match the recorded checksum.\<close>

definition badContainer :: container where
  "badContainer = freshContainer\<lparr>c_pageCount := 1, c_back := emptyBacking\<lparr>bk_data := replicate 1024 0\<rparr>,
     c_dir := [sparseEntry\<lparr>de_physOffset := 1024, de_checksum := 1\<rparr>]\<rparr>"

theorem vault_bad_page_reads_as_zeros_witness:
  "\<forall>V. xRead (V\<lparr>m_ReadAt := mainFile_ReadAt storeOnly\<rparr>) 7 1024 0 (vault_open badContainer) =
     (Some (522, Some (replicate 1024 0)), vault_open badContainer)"
proof -
  have w: "fileFor 7 (vault_open badContainer) = Some 0" "world (vault_open badContainer) = badContainer"
    by (simp_all add: vault_open_def fileFor_def Lookup_def init_dispatch_def)
  have c: "c_pageSize badContainer = 1024" "c_pageCount badContainer = 1" "c_cipher badContainer = None"
    by (simp_all add: badContainer_def fresh_facts) (simp add: freshContainer_def initContainer_def)
  have b: "c_back badContainer = emptyBacking\<lparr>bk_data := replicate 1024 0\<rparr>"
    "c_dir badContainer = [sparseEntry\<lparr>de_physOffset := 1024, de_checksum := 1\<rparr>]"
    by (simp_all add: badContainer_def)
  have "loadPageInto storeOnly badContainer (replicate 1024 0) 0 = Inl (ErrInvalid ''slot checksum mismatch'')"
    by (simp add: loadPageInto_def load_stored_def c b sparseEntry_def ReadAt_def emptyBacking_def
        crc32c_def bslice_def Let_def)
  then show ?thesis
    using vault_bad_page_reads_as_zeros [of storeOnly "vault_open badContainer" 0 _ 7 0 1024 0] w c
    by (simp add: ioerr_def)
qed

end
