(* ===== verification/Vault_Aux.thy ===== *)
theory Vault_Aux
  imports Unit_Cipher Vault_Vfs
begin

unbundle bit_operations_syntax

text \<open>
  The auxiliary files of a vault (\<^verbatim>\<open>passFile\<close> of \<^verbatim>\<open>src/vfs/vault/vfs.go\<close>): journals, WAL and temporary files,
  kept beside the container as plain operating-system files, enciphered in units of 512 bytes with the
  container's data key when the database is encrypted. The operating-system file is the \<open>backing\<close> of the
  storage engine, with the positioned read of \<^verbatim>\<open>os.File\<close>, which returns what there is and \<^verbatim>\<open>io.EOF\<close>.
\<close>

definition domainJournal :: byte where "domainJournal = 4"
definition domainWAL :: byte where "domainWAL = 5"
definition domainTempDB :: byte where "domainTempDB = 6"
definition domainTempJournal :: byte where "domainTempJournal = 7"
definition domainSubJournal :: byte where "domainSubJournal = 8"
definition domainTempAux :: byte where "domainTempAux = 9"

lemmas domain_defs = domainPageData_def domainDirectory_def domainSegIndex_def domainJournal_def domainWAL_def
  domainTempDB_def domainTempJournal_def domainSubJournal_def domainTempAux_def

definition passDomain :: "int \<Rightarrow> byte" where
  "passDomain flags =
     (if has_flag flags 0x800 then domainJournal
      else if has_flag flags 0x80000 then domainWAL
      else if has_flag flags 0x200 then domainTempDB
      else if has_flag flags 0x1000 then domainTempJournal
      else if has_flag flags 0x2000 then domainSubJournal
      else domainTempAux)"

record passFile =
  pf_f :: backing
  pf_name :: string
  pf_temp :: bool
  pf_cipher :: "pageCipher option"
  pf_domain :: byte

section \<open>Operations\<close>

text \<open>\<^verbatim>\<open>os.File.ReadAt\<close>; a read that fails otherwise than by the end of the file is given no bytes.\<close>

definition os_ReadAt :: "nat \<Rightarrow> nat \<Rightarrow> backing \<Rightarrow> bytes \<times> verror option" where
  "os_ReadAt n off b =
     (if bk_rfail b off n then ([], Some ErrIO)
      else let d = bslice off (off + n) (bk_data b) in (d, if length d < n then Some ErrEOF else None))"

definition passUnit :: nat where "passUnit = 512"

definition cryptPages :: "pageCipher \<Rightarrow> byte \<Rightarrow> bytes \<Rightarrow> nat \<Rightarrow> bool \<Rightarrow> bytes" where
  "cryptPages ci d span baseOffset enc =
     crypt_units passUnit (if enc then enc_unit ci d else dec_unit ci d) baseOffset span"

text \<open>\<^verbatim>\<open>span[:(rn/u)*u]\<close> is deciphered in place, the rest of the span is left as it is.\<close>

definition decipherRead :: "pageCipher \<Rightarrow> byte \<Rightarrow> bytes \<Rightarrow> nat \<Rightarrow> nat \<Rightarrow> bytes" where
  "decipherRead ci d span rn baseOffset =
     (let full = rn div passUnit * passUnit in cryptPages ci d (take full span) baseOffset False @ drop full span)"

text \<open>The read returns the bytes it copied to the front of the buffer and the error.\<close>

definition pass_ReadAt :: "passFile \<Rightarrow> nat \<Rightarrow> nat \<Rightarrow> bytes \<times> verror option" where
  "pass_ReadAt p len off = (case pf_cipher p of
     None \<Rightarrow> os_ReadAt len off (pf_f p)
   | Some ci \<Rightarrow>
       let u = passUnit; unitStart = unit_start u off; unitEnd = unit_end u off len
       in (case os_ReadAt (unitEnd - unitStart) unitStart (pf_f p) of (d, rerr) \<Rightarrow>
         if rerr \<noteq> None \<and> rerr \<noteq> Some ErrEOF then ([], rerr)
         else let span = decipherRead ci (pf_domain p) d (length d) unitStart; lo = off - unitStart;
                  avail = int (length d) - int lo
              in if avail \<le> 0 then ([], Some ErrEOF)
                 else let n = min len (nat avail)
                      in (bslice lo (lo + n) span, if n < len then Some ErrEOF else None)))"

definition pass_WriteAt :: "passFile \<Rightarrow> bytes \<Rightarrow> nat \<Rightarrow> (nat \<times> verror option) \<times> passFile" where
  "pass_WriteAt p b off = (case pf_cipher p of
     None \<Rightarrow> (case WriteAt b off (pf_f p) of (err, f) \<Rightarrow> ((if err = None then length b else 0, err), p\<lparr>pf_f := f\<rparr>))
   | Some ci \<Rightarrow>
       let u = passUnit; unitStart = unit_start u off; size = unit_end u off (length b) - unitStart;
           prep = (if off = unitStart \<and> length b = size then Inr b
             else (case os_ReadAt size unitStart (pf_f p) of (d, rerr) \<Rightarrow>
               if rerr \<noteq> None \<and> rerr \<noteq> Some ErrEOF then Inl rerr
               else Inr (blit (off - unitStart) b
                 (decipherRead ci (pf_domain p) (d @ replicate (size - length d) 0) (length d) unitStart))))
       in (case prep of
         Inl rerr \<Rightarrow> ((0, rerr), p)
       | Inr span \<Rightarrow> (case WriteAt (cryptPages ci (pf_domain p) span unitStart True) unitStart (pf_f p) of
           (Some e, f) \<Rightarrow> ((0, Some e), p\<lparr>pf_f := f\<rparr>)
         | (None, f) \<Rightarrow> ((length b, None), p\<lparr>pf_f := f\<rparr>))))"

definition pass_Truncate :: "passFile \<Rightarrow> nat \<Rightarrow> verror option \<times> passFile" where
  "pass_Truncate p n = (case Truncate n (pf_f p) of (err, f) \<Rightarrow> (err, p\<lparr>pf_f := f\<rparr>))"

definition pass_Sync :: "passFile \<Rightarrow> verror option \<times> passFile" where
  "pass_Sync p = (case Sync (pf_f p) of (err, f) \<Rightarrow> (err, p\<lparr>pf_f := f\<rparr>))"

definition pass_Size :: "passFile \<Rightarrow> nat" where
  "pass_Size p = length (bk_data (pf_f p))"

section \<open>What an auxiliary file holds\<close>

definition pass_plain :: "passFile \<Rightarrow> bytes" where
  "pass_plain p = (case pf_cipher p of None \<Rightarrow> bk_data (pf_f p)
     | Some ci \<Rightarrow> unit_plain passUnit ci (pf_domain p) (bk_data (pf_f p)))"

text \<open>An enciphered file consists of whole units and its cipher obeys the laws.\<close>

definition pass_ok :: "passFile \<Rightarrow> bool" where
  "pass_ok p \<longleftrightarrow> (case pf_cipher p of None \<Rightarrow> True
     | Some ci \<Rightarrow> unit_cipher_ok ci \<and> passUnit dvd length (bk_data (pf_f p)))"

lemma passUnit_pos [simp]: "0 < passUnit"
  by (simp add: passUnit_def)

lemma length_pass_plain: "pass_ok p \<Longrightarrow> length (pass_plain p) = length (bk_data (pf_f p))"
  by (auto simp: pass_plain_def pass_ok_def split: option.splits)

text \<open>What a read of a file of whole units delivers: whole units.\<close>

lemma slice_units:
  assumes "u dvd length f" "u dvd s" "u dvd e"
  shows "u dvd length (bslice s e f)"
  using assms by (auto simp: min_def)

lemma decipher_full:
  assumes "passUnit dvd n" "n \<le> length span"
  shows "decipherRead ci d span n off = cryptPages ci d (take n span) off False @ drop n span"
  using assms by (auto simp: decipherRead_def)

lemma slice_read_zeros:
  "s \<le> e \<Longrightarrow> bslice s e f @ replicate (e - s - length (bslice s e f)) 0 = read_zeros (e - s) s f"
  by (auto simp: read_zeros_def bslice_def min_def simp flip: replicate_add)

text \<open>The deciphered span, with zeros for what lies past the end of the file.\<close>

lemma decipher_zeros:
  assumes "passUnit dvd length f" "passUnit dvd s" "passUnit dvd e" "s \<le> e"
  shows "decipherRead ci d (bslice s e f @ replicate (e - s - length (bslice s e f)) 0) (length (bslice s e f)) s =
    crypt_units passUnit (dec_unit ci d) s (read_zeros (e - s) s f)"
proof -
  let ?x = "bslice s e f"
  have dv: "passUnit dvd length ?x" by (rule slice_units [OF assms(1-3)])
  have "decipherRead ci d (?x @ replicate (e - s - length ?x) 0) (length ?x) s =
      crypt_units passUnit (dec_unit ci d) s ?x @ replicate (e - s - length ?x) 0"
    using decipher_full [OF dv, of "?x @ replicate (e - s - length ?x) 0"] by (simp add: cryptPages_def)
  also have "\<dots> = crypt_units passUnit (dec_unit ci d) s (?x @ replicate (e - s - length ?x) 0)"
    using dv by (simp add: crypt_units_append)
  finally show ?thesis unfolding slice_read_zeros [OF assms(4)] .
qed

lemma slice_zeros_bytes: "n \<le> length f - off \<Longrightarrow> off \<le> length f \<Longrightarrow> n \<le> m \<Longrightarrow> take n (read_zeros m off f) = bslice off (off + n) f"
  by (simp add: read_zeros_def bslice_def)

text \<open>Reading an auxiliary file gives the bytes of the plaintext that exist in the requested range, with
  \<^verbatim>\<open>io.EOF\<close> exactly when some of the range lies past the end; when the operating system fails, its error and
  no bytes.\<close>

theorem aux_read_refines_file:
  assumes "pass_ok p" "0 < len"
  shows "pass_ReadAt p len off = (bslice off (off + len) (pass_plain p),
       if off + len \<le> length (pass_plain p) then None else Some ErrEOF) \<or>
     (pass_ReadAt p len off = ([], Some ErrIO) \<and> (\<exists>o1 n1. bk_rfail (pf_f p) o1 n1))"
proof (cases "pf_cipher p")
  case None
  then show ?thesis using assms(2) by (auto simp: pass_ReadAt_def os_ReadAt_def pass_plain_def Let_def)
next
  case (Some ci)
  let ?f = "bk_data (pf_f p)" and ?d = "pf_domain p"
  define st e where se: "st = unit_start passUnit off" "e = unit_end passUnit off len"
  note b = span_bounds [OF passUnit_pos se]
  have ok: "unit_cipher_ok ci" "passUnit dvd length ?f" using assms(1) Some by (auto simp: pass_ok_def)
  have pl: "length (pass_plain p) = length ?f" using length_pass_plain [OF assms(1)] .
  let ?x = "bslice st e ?f" and ?span = "decipherRead ci ?d (bslice st e ?f) (length (bslice st e ?f)) st"
  show ?thesis
  proof (cases "bk_rfail (pf_f p) st (e - st)")
    case True
    then have "pass_ReadAt p len off = ([], Some ErrIO)"
      using Some by (simp add: pass_ReadAt_def os_ReadAt_def Let_def flip: se)
    then show ?thesis using True by blast
  next
    case False
    have dv: "passUnit dvd length ?x" by (rule slice_units [OF ok(2) b(3,4)])
    have span: "?span = crypt_units passUnit (dec_unit ci ?d) st ?x"
      using decipher_full [OF dv order_refl] by (simp add: cryptPages_def)
    define n where "n = min len (length ?f - off)"
    have eq: "pass_ReadAt p len off = (if length ?f \<le> off then ([], Some ErrEOF)
        else (bslice (off - st) (off - st + n) ?span, if n < len then Some ErrEOF else None))"
    proof -
      have "int (length ?x) - int (off - st) \<le> 0 \<longleftrightarrow> length ?f \<le> off" using b(1,2) assms(2) by auto
      moreover have "min len (nat (int (length ?x) - int (off - st))) = n" if "\<not> length ?f \<le> off"
        using that b(1,2) by (auto simp: n_def)
      ultimately show ?thesis
        using False Some b(5) by (simp add: pass_ReadAt_def os_ReadAt_def Let_def flip: se)
    qed
    have "bslice (off - st) (off - st + n) ?span = bslice off (off + len) (pass_plain p)" if "\<not> length ?f \<le> off"
    proof -
      let ?z = "crypt_units passUnit (dec_unit ci ?d) st (read_zeros (e - st) st ?f)"
      have "?z = ?span @ replicate (e - st - length ?x) 0"
        unfolding span slice_read_zeros [OF b(5), symmetric] using dv by (simp add: crypt_units_append)
      moreover have "off - st + n \<le> length ?span" unfolding span using that b(1,2) ok(1) by (auto simp: n_def)
      ultimately have "bslice (off - st) (off - st + n) ?span = bslice (off - st) (off - st + n) ?z"
        by (simp add: slice_append_left)
      also have "\<dots> = take n (bslice (off - st) (off - st + len) ?z)" by (simp add: bslice_def n_def)
      also have "\<dots> = take n (read_zeros len off (pass_plain p))"
        using unit_read [OF ok(1) passUnit_pos ok(2) se] Some by (simp add: pass_plain_def)
      also have "\<dots> = bslice off (off + n) (pass_plain p)"
        using that pl by (intro slice_zeros_bytes) (auto simp: n_def)
      also have "\<dots> = bslice off (off + len) (pass_plain p)" using pl by (auto simp: bslice_def n_def min_def)
      finally show ?thesis .
    qed
    then show ?thesis using eq pl assms(2) by (auto simp: n_def bslice_def)
  qed
qed

text \<open>C27: A write to an auxiliary file that reports success has stored all its bytes and changed the plaintext as
  a plain file would; an enciphered file is extended with zeros to a whole unit of 512 bytes and still
  consists of whole units. As for the encrypting VFS, no unit written may be enciphered to zeros.\<close>

theorem aux_write_refines_file:
  assumes "pass_ok p" "b \<noteq> []" "pass_WriteAt p b off = ((n, None), p')"
    and "\<forall>ci. pf_cipher p = Some ci \<longrightarrow>
       no_false_hole passUnit ci (pf_domain p) (unit_start passUnit off) (new_span passUnit off b (pass_plain p))"
  shows "n = length b \<and> pass_ok p' \<and> pass_plain p' =
     (if pf_cipher p = None then file_write off b (pass_plain p)
      else pad_to (unit_end passUnit off (length b)) (file_write off b (pass_plain p)))"
proof (cases "pf_cipher p")
  case None
  then show ?thesis
    using assms(3) by (auto simp: pass_WriteAt_def pass_plain_def pass_ok_def dest!: WriteAt_ok split: prod.splits if_splits)
next
  case (Some ci)
  let ?f = "bk_data (pf_f p)" and ?d = "pf_domain p"
  define st e where se: "st = unit_start passUnit off" "e = unit_end passUnit off (length b)"
  note bd = span_bounds [OF passUnit_pos se]
  have ok: "unit_cipher_ok ci" "passUnit dvd length ?f" using assms(1) Some by (auto simp: pass_ok_def)
  define span where "span = new_span passUnit off b (pass_plain p)"
  have spn: "span = blit (off - st) b (crypt_units passUnit (dec_unit ci ?d) st (read_zeros (e - st) st ?f))"
    using decipher_span [OF ok(1) passUnit_pos ok(2) se] Some
    by (simp add: span_def new_span_def Let_def pass_plain_def flip: se)
  have rmw: "blit (off - st) b (decipherRead ci ?d (x @ replicate (e - st - length x) 0) (length x) st) = span"
    if "x = bslice st e ?f" for x unfolding that decipher_zeros [OF ok(2) bd(3-5)] spn ..
  have wr: "n = length b" "WriteAt (crypt_units passUnit (enc_unit ci ?d) st span) st (pf_f p) = (None, pf_f p')"
    "pf_cipher p' = Some ci" "pf_domain p' = ?d"
  proof -
    let ?put = "case WriteAt (crypt_units passUnit (enc_unit ci ?d) st span) st (pf_f p) of
        (Some e1, f) \<Rightarrow> ((0, Some e1), p\<lparr>pf_f := f\<rparr>) | (None, f) \<Rightarrow> ((length b, None), p\<lparr>pf_f := f\<rparr>)"
    have "pass_WriteAt p b off = ?put"
    proof (cases "off = st \<and> length b = e - st")
      case True
      have "span = b"
        unfolding span_def by (rule new_span_whole [OF conjunct1 [OF True [unfolded se]] conjunct2 [OF True [unfolded se]]])
      then show ?thesis
        unfolding pass_WriteAt_def Some option.case Let_def se [symmetric] if_P [OF True] sum.case cryptPages_def if_True
        by (simp only:)
    next
      case False
      have nf: "\<not> bk_rfail (pf_f p) st (e - st)"
        using assms(3) unfolding pass_WriteAt_def Some option.case Let_def se [symmetric] if_not_P [OF False]
        by (auto simp: os_ReadAt_def)
      have "st + (e - st) = e" using bd(5) by simp
      then show ?thesis
        using nf rmw [OF refl] unfolding pass_WriteAt_def Some option.case Let_def se [symmetric] if_not_P [OF False]
        by (simp add: os_ReadAt_def Let_def cryptPages_def)
    qed
    with assms(3) have "?put = ((n, None), p')" by simp
    then show "n = length b" "WriteAt (crypt_units passUnit (enc_unit ci ?d) st span) st (pf_f p) = (None, pf_f p')"
      "pf_cipher p' = Some ci" "pf_domain p' = ?d"
      using Some by (auto split: prod.splits option.splits)
  qed
  note w = WriteAt_ok [OF wr(2)]
  have hole: "no_false_hole passUnit ci ?d st span" using assms(4) Some by (simp add: span_def se)
  show ?thesis
    using unit_write [OF ok(1) passUnit_pos ok(2) assms(2) se spn hole] w wr ok(1) Some
    by (simp add: pass_plain_def pass_ok_def se)
qed

definition demoPass :: passFile where
  "demoPass = \<lparr>pf_f = \<lparr>bk_data = [], bk_log = [], bk_fail = \<lambda>n. None, bk_rfail = \<lambda>o1 n. False, bk_ops = 0\<rparr>, pf_name = ''db-journal'',
     pf_temp = False, pf_cipher = Some \<lparr>encrypt = \<lambda>b n d. map not b, decrypt = \<lambda>b n d. map not b\<rparr>, pf_domain = domainJournal\<rparr>"

lemma demoPass_ok: "pass_ok demoPass" "pass_plain demoPass = []" "bk_rfail (pf_f demoPass) = (\<lambda>o1 n. False)"
  by (simp_all add: demoPass_def pass_ok_def pass_plain_def unit_plain_def unit_cipher_ok_def cipher_ok_def comp_def)

theorem aux_read_refines_file_witness: "pass_ReadAt demoPass 4 0 = ([], Some ErrEOF)"
  using aux_read_refines_file [OF demoPass_ok(1), of 4 0] by (simp add: demoPass_ok)

theorem aux_write_refines_file_witness:
  "\<exists>p'. pass_WriteAt demoPass [1, 2, 3] 0 = ((3, None), p') \<and> pass_plain p' = pad_to 512 [1, 2, 3]"
proof -
  let ?b = "[1, 2, 3] :: bytes"
  obtain n p' where wr: "pass_WriteAt demoPass ?b 0 = ((n, None), p')"
    by (simp add: pass_WriteAt_def demoPass_def os_ReadAt_def WriteAt_def passUnit_def unit_start_def unit_end_def)
  have span: "new_span passUnit 0 ?b [] = ?b @ replicate 509 0"
    by (simp add: new_span_def unit_start_def unit_end_def read_zeros_def blit_def passUnit_def)
  have hole: "\<forall>ci. pf_cipher demoPass = Some ci \<longrightarrow> no_false_hole passUnit ci (pf_domain demoPass) (unit_start passUnit 0)
      (new_span passUnit 0 ?b (pass_plain demoPass))"
    unfolding demoPass_ok(2) span
    by (subst no_false_hole.simps)
       (simp add: no_false_hole.simps demoPass_def passUnit_def enc_unit_def allZero_def unit_start_def)
  from aux_write_refines_file [OF demoPass_ok(1) _ wr hole] wr show ?thesis
    by (simp add: demoPass_ok file_write_def blit_def unit_end_def passUnit_def) (simp add: demoPass_def)
qed

end
