(* ===== verification/Vault_Registry.thy ===== *)
theory Vault_Registry
  imports Vault_Open Vault_Aux
begin

text \<open>
  The process-global registry of open containers and the VFS that uses it (\<^verbatim>\<open>src/vfs/vault/vfs.go\<close>): every
  connection on a path shares one container, an offline operation holds its path exclusively
  (\<^verbatim>\<open>reservePath\<close>, and \<^verbatim>\<open>openAtRest\<close> with \<^verbatim>\<open>closeContainer\<close> of \<^verbatim>\<open>keymgmt.go\<close>), and the last handle to go closes
  the file. \<^verbatim>\<open>VFS.Open\<close> routes the main database to a container and everything else to an auxiliary file.

  Containers are objects: \<open>rs_objs\<close> lists all that were ever registered, and a handle is an index. What the
  operating system answers to an open or a close is an argument.
\<close>

section \<open>State\<close>

record regCont =
  rc_cont :: container
  rc_name :: string
  rc_refs :: int
  rc_closed :: nat       \<comment> \<open>how often the backing was closed\<close>

record registryState =
  rs_objs :: "regCont list"
  rs_m :: "string \<rightharpoonup> nat"
  rs_locked :: "string set"

definition emptyRegistry :: registryState where
  "emptyRegistry = \<lparr>rs_objs = [], rs_m = Map.empty, rs_locked = {}\<rparr>"

section \<open>Operations\<close>

definition reservePath :: "string \<Rightarrow> registryState \<Rightarrow> bool \<times> registryState" where
  "reservePath absPath st =
     (if rs_m st absPath \<noteq> None then (False, st)
      else if absPath \<in> rs_locked st then (False, st)
      else (True, st\<lparr>rs_locked := insert absPath (rs_locked st)\<rparr>))"

definition releasePath :: "string \<Rightarrow> registryState \<Rightarrow> registryState" where
  "releasePath absPath st = st\<lparr>rs_locked := rs_locked st - {absPath}\<rparr>"

text \<open>The geometry and codec a VFS was registered with.\<close>

record vfsConfig =
  vc_blockSize :: nat
  vc_pageSize :: nat
  vc_segEntries :: nat
  vc_codec :: nat

definition openMain :: "keyring \<Rightarrow> (bool \<Rightarrow> bool \<Rightarrow> verror + backing) \<Rightarrow> string \<Rightarrow> int \<Rightarrow> vfsConfig \<Rightarrow> keyConfig
    \<Rightarrow> registryState \<Rightarrow> (verror + nat) \<times> registryState" where
  "openMain kr os path flags cfg kc st =
     (case rs_m st path of
        Some i \<Rightarrow>
          let o1 = rs_objs st ! i in
          (case matchesKeyConfig kr kc (rc_cont o1) of
             Some e \<Rightarrow> (Inl e, st)
           | None \<Rightarrow> (Inr i, st\<lparr>rs_objs := (rs_objs st)[i := o1\<lparr>rc_refs := rc_refs o1 + 1\<rparr>]\<rparr>))
      | None \<Rightarrow>
          if path \<in> rs_locked st then (Inl (ErrInvalid ''busy (offline maintenance in progress)''), st)
          else let readOnly = has_flag flags 1 in
            (case os readOnly (has_flag flags 4) of
               Inl e \<Rightarrow> (Inl e, st)
             | Inr back \<Rightarrow>
                 (case newContainerOver kr back readOnly (vc_blockSize cfg) (vc_pageSize cfg) (vc_segEntries cfg) (vc_codec cfg) kc of
                    Inl e \<Rightarrow> (Inl e, st)
                  | Inr ct \<Rightarrow>
                      let i = length (rs_objs st)
                      in (Inr i, st\<lparr>rs_objs := rs_objs st @ [\<lparr>rc_cont = ct, rc_name = path, rc_refs = 1, rc_closed = 0\<rparr>],
                                    rs_m := (rs_m st)(path \<mapsto> i)\<rparr>))))"

text \<open>\<open>closing\<close> is what \<^verbatim>\<open>back.Close\<close> returns.\<close>

definition release_cont :: "verror option \<Rightarrow> nat \<Rightarrow> registryState \<Rightarrow> verror option \<times> registryState" where
  "release_cont closing i st =
     (let o1 = (rs_objs st ! i)\<lparr>rc_refs := rc_refs (rs_objs st ! i) - 1\<rparr> in
      if 0 < rc_refs o1 then (None, st\<lparr>rs_objs := (rs_objs st)[i := o1]\<rparr>)
      else (closing, st\<lparr>rs_objs := (rs_objs st)[i := o1\<lparr>rc_closed := Suc (rc_closed o1)\<rparr>],
             rs_m := (if rc_name o1 = [] then rs_m st else (rs_m st)(rc_name o1 := None))\<rparr>))"

text \<open>An offline operation: \<open>os\<close> answers the open, the container is not registered.\<close>

definition openAtRest :: "keyring \<Rightarrow> (verror + backing) \<Rightarrow> vfsConfig \<Rightarrow> keyConfig \<Rightarrow> string \<Rightarrow> Identity \<Rightarrow> registryState
    \<Rightarrow> (verror + container) \<times> registryState" where
  "openAtRest kr os cfg kc0 absPath identity st =
     (case reservePath absPath st of
        (False, st1) \<Rightarrow> (Inl (ErrInvalid ''open or busy''), st1)
      | (True, st1) \<Rightarrow>
          (case os of
             Inl e \<Rightarrow> (Inl e, releasePath absPath st1)
           | Inr back \<Rightarrow>
               (case Size back of
                  Inl e \<Rightarrow> (Inl e, releasePath absPath st1)
                | Inr sz \<Rightarrow>
                    if sz = 0 then (Inl (ErrInvalid ''empty, not an encrypted database''), releasePath absPath st1)
                    else (case newContainerOver kr back False (vc_blockSize cfg) (vc_pageSize cfg) (vc_segEntries cfg)
                            (vc_codec cfg) (kc0\<lparr>kc_identities := [identity]\<rparr>) of
                       Inl e \<Rightarrow> (Inl e, releasePath absPath st1)
                     | Inr c \<Rightarrow> (Inr c, st1)))))"

section \<open>The VFS\<close>

record vaultVFS =
  vv_config :: vfsConfig
  vv_keyCfg :: keyConfig
  vv_cipher :: "pageCipher option"
  vv_mainReadOnly :: bool
  vv_preserveNewFiles :: bool
  vv_preserve :: "preservedKey option"

text \<open>The answers of the operating system to the opens of a file that is not the main database.\<close>

record passOpens =
  po_createTemp :: "verror + (backing \<times> string)"
  po_open :: "bool \<Rightarrow> bool \<Rightarrow> bool \<Rightarrow> verror + backing"      \<comment> \<open>read-only, create, exclusive\<close>

definition openPass :: "passOpens \<Rightarrow> string \<Rightarrow> int \<Rightarrow> pageCipher option \<Rightarrow> verror + passFile" where
  "openPass os name flags cipher =
     (if name = [] then (case po_createTemp os of
          Inl e \<Rightarrow> Inl e
        | Inr (f, tmp) \<Rightarrow> Inr \<lparr>pf_f = f, pf_name = tmp, pf_temp = True, pf_cipher = cipher, pf_domain = passDomain flags\<rparr>)
      else (case po_open os (has_flag flags 1) (has_flag flags 4) (has_flag flags 16) of
          Inl e \<Rightarrow> Inl e
        | Inr f \<Rightarrow> Inr \<lparr>pf_f = f, pf_name = name, pf_temp = False, pf_cipher = cipher, pf_domain = passDomain flags\<rparr>))"

datatype vaultFile = MainFile nat | PassFile passFile

definition after_main :: "int \<Rightarrow> container \<Rightarrow> vaultVFS \<Rightarrow> vaultVFS" where
  "after_main flags c v =
     (let v1 = v\<lparr>vv_cipher := c_cipher c, vv_mainReadOnly := has_flag flags 1\<rparr>
      in if vv_preserveNewFiles v \<and> vv_preserve v = None \<and> c_cipher c \<noteq> None \<and> c_keyslotOffset c \<noteq> 0
         then v1\<lparr>vv_preserve := Some \<lparr>pk_dek = c_dek c, pk_keyslot = c_keyslotBlob c, pk_enc = c_enc c,
                pk_auth = c_authenticated c, pk_writers = c_writers c, pk_writeAs = c_writeAs c\<rparr>\<rparr>
         else v1)"

definition vault_Open :: "keyring \<Rightarrow> (bool \<Rightarrow> bool \<Rightarrow> verror + backing) \<Rightarrow> passOpens \<Rightarrow> string \<Rightarrow> int \<Rightarrow> vaultVFS
    \<Rightarrow> registryState \<Rightarrow> (verror + (vaultFile \<times> int)) \<times> vaultVFS \<times> registryState" where
  "vault_Open kr os pos name flags v st =
     (if has_flag flags 0x100 then
        let kc = (if vv_preserveNewFiles v then (vv_keyCfg v)\<lparr>kc_preserve := vv_preserve v\<rparr> else vv_keyCfg v)
        in (case openMain kr os name flags (vv_config v) kc st of
              (Inl e, st1) \<Rightarrow> (Inl e, v, st1)
            | (Inr i, st1) \<Rightarrow> (Inr (MainFile i, flags), after_main flags (rc_cont (rs_objs st1 ! i)) v, st1))
      else (case openPass pos name flags (vv_cipher v) of
              Inl e \<Rightarrow> (Inl e, v, st)
            | Inr f \<Rightarrow> (Inr (PassFile f, flags), v, st)))"

section \<open>Use of the registry\<close>

text \<open>One step of the process. \<open>hs\<close> are the handles held by connections, \<open>ow\<close> the paths held by offline
  operations: a connection closes a handle it holds, and an operation gives back a path it reserved.
  \<open>work\<close> is anything a connection does to the contents of a container.\<close>

type_synonym regUse = "registryState \<times> nat multiset \<times> string set"

inductive reg_step :: "keyring \<Rightarrow> regUse \<Rightarrow> regUse \<Rightarrow> bool" for kr where
  reg_open: "path \<noteq> [] \<Longrightarrow> openMain kr os path flags cfg kc st = (Inr i, st') \<Longrightarrow>
    reg_step kr (st, hs, ow) (st', add_mset i hs, ow)"
| reg_open_fails: "openMain kr os path flags cfg kc st = (Inl e, st') \<Longrightarrow> reg_step kr (st, hs, ow) (st', hs, ow)"
| reg_close: "i \<in># hs \<Longrightarrow> release_cont closing i st = (r, st') \<Longrightarrow> reg_step kr (st, hs, ow) (st', hs - {#i#}, ow)"
| reg_reserve: "reservePath absPath st = (ok, st') \<Longrightarrow> reg_step kr (st, hs, ow) (st', hs, if ok then insert absPath ow else ow)"
| reg_unreserve: "absPath \<in> ow \<Longrightarrow> reg_step kr (st, hs, ow) (releasePath absPath st, hs, ow - {absPath})"
| reg_work: "i \<in># hs \<Longrightarrow> reg_step kr (st, hs, ow)
    (st\<lparr>rs_objs := (rs_objs st)[i := (rs_objs st ! i)\<lparr>rc_cont := c\<rparr>]\<rparr>, hs, ow)"

inductive reg_reach :: "keyring \<Rightarrow> regUse \<Rightarrow> bool" for kr where
  reg_start: "reg_reach kr (emptyRegistry, {#}, {})"
| reg_more: "reg_reach kr u \<Longrightarrow> reg_step kr u u' \<Longrightarrow> reg_reach kr u'"

inductive_cases reg_stepE: "reg_step kr u u'"

definition reg_wf :: "regUse \<Rightarrow> bool" where
  "reg_wf u \<longleftrightarrow> (case u of (st, hs, ow) \<Rightarrow>
     (\<forall>i \<in># hs. i < length (rs_objs st)) \<and>
     (\<forall>i < length (rs_objs st). rc_refs (rs_objs st ! i) = int (count hs i) \<and> rc_name (rs_objs st ! i) \<noteq> [] \<and>
        rc_closed (rs_objs st ! i) = (if i \<in># hs then 0 else 1) \<and>
        (i \<in># hs \<longrightarrow> rs_m st (rc_name (rs_objs st ! i)) = Some i)) \<and>
     (\<forall>p i. rs_m st p = Some i \<longrightarrow> i \<in># hs \<and> rc_name (rs_objs st ! i) = p) \<and>
     rs_locked st = ow \<and> (\<forall>p \<in> ow. rs_m st p = None))"

text \<open>What a successful open does: it adds a reference to the container of that path, whose key the opener has,
  or it registers a container for a path that is neither open nor reserved.\<close>

lemma openMain_cases:
  assumes "openMain kr os path flags cfg kc st = (Inr i, st')"
  obtains (shared) "rs_m st path = Some i" "matchesKeyConfig kr kc (rc_cont (rs_objs st ! i)) = None"
      "st' = st\<lparr>rs_objs := (rs_objs st)[i := (rs_objs st ! i)\<lparr>rc_refs := rc_refs (rs_objs st ! i) + 1\<rparr>]\<rparr>"
    | (fresh) ct where "rs_m st path = None" "path \<notin> rs_locked st" "i = length (rs_objs st)"
      "st' = st\<lparr>rs_objs := rs_objs st @ [\<lparr>rc_cont = ct, rc_name = path, rc_refs = 1, rc_closed = 0\<rparr>],
        rs_m := (rs_m st)(path \<mapsto> i)\<rparr>"
  using assms by (auto simp: openMain_def Let_def split: option.splits sum.splits if_splits)

lemma openMain_fails: "openMain kr os path flags cfg kc st = (Inl e, st') \<Longrightarrow> st' = st"
  by (auto simp: openMain_def Let_def split: option.splits sum.splits if_splits)

lemma reg_wfD:
  assumes "reg_wf (st, hs, ow)"
  shows "i \<in># hs \<Longrightarrow> i < length (rs_objs st)"
    and "i < length (rs_objs st) \<Longrightarrow> rc_refs (rs_objs st ! i) = int (count hs i) \<and> rc_name (rs_objs st ! i) \<noteq> [] \<and>
        rc_closed (rs_objs st ! i) = (if i \<in># hs then 0 else 1) \<and> (i \<in># hs \<longrightarrow> rs_m st (rc_name (rs_objs st ! i)) = Some i)"
    and "rs_m st p = Some i \<Longrightarrow> i \<in># hs \<and> rc_name (rs_objs st ! i) = p"
    and "rs_locked st = ow" "p \<in> ow \<Longrightarrow> rs_m st p = None"
  using assms unfolding reg_wf_def by blast+

lemma reg_wf_shared:
  assumes "reg_wf (st, hs, ow)" "rs_m st path = Some i"
  shows "reg_wf (st\<lparr>rs_objs := (rs_objs st)[i := (rs_objs st ! i)\<lparr>rc_refs := rc_refs (rs_objs st ! i) + 1\<rparr>]\<rparr>, add_mset i hs, ow)"
proof -
  note d = reg_wfD [OF assms(1)]
  have i: "i \<in># hs" "i < length (rs_objs st)" using d(3) [OF assms(2)] d(1) by blast+
  show ?thesis
    unfolding reg_wf_def using d(1,3,4,5) d(2) i by (auto simp: nth_list_update)
qed

lemma reg_wf_fresh:
  assumes "reg_wf (st, hs, ow)" "rs_m st path = None" "path \<notin> rs_locked st" "path \<noteq> []"
  shows "reg_wf (st\<lparr>rs_objs := rs_objs st @ [\<lparr>rc_cont = ct, rc_name = path, rc_refs = 1, rc_closed = 0\<rparr>],
     rs_m := (rs_m st)(path \<mapsto> length (rs_objs st))\<rparr>, add_mset (length (rs_objs st)) hs, ow)"
proof -
  note d = reg_wfD [OF assms(1)]
  have new: "length (rs_objs st) \<notin># hs" using d(1) by blast
  then have c: "count hs (length (rs_objs st)) = 0" by (simp add: not_in_iff)
  have old: "rc_name (rs_objs st ! i) \<noteq> path" if "i \<in># hs" for i
    using d(2) [OF d(1) [OF that]] that assms(2) by auto
  show ?thesis
    unfolding reg_wf_def prod.case
  proof (intro conjI allI impI ballI)
    fix i assume "i \<in># add_mset (length (rs_objs st)) hs"
    then show "i < length (rs_objs (st\<lparr>rs_objs := rs_objs st @ [\<lparr>rc_cont = ct, rc_name = path, rc_refs = 1, rc_closed = 0\<rparr>],
       rs_m := (rs_m st)(path \<mapsto> length (rs_objs st))\<rparr>))" using d(1) [of i] by auto
  qed (use d assms new c old in \<open>auto simp: nth_append less_Suc_eq split: if_splits\<close>)
qed

lemma reg_wf_close:
  assumes "reg_wf (st, hs, ow)" "i \<in># hs" "release_cont closing i st = (r, st')"
  shows "reg_wf (st', hs - {#i#}, ow)"
proof -
  note d = reg_wfD [OF assms(1)]
  have i: "i < length (rs_objs st)" using d(1) assms(2) by blast
  note di = d(2) [OF i]
  have pos: "0 < count hs i" using assms(2) by simp
  let ?o = "rs_objs st ! i"
  show ?thesis
  proof (cases "count hs i = 1")
    case True
    then have gone: "i \<notin># hs - {#i#}" by (simp add: not_in_iff)
    have same: "j \<in># hs - {#i#} \<longleftrightarrow> j \<in># hs" if "j \<noteq> i" for j
      using that by (metis count_diff count_greater_zero_iff count_single diff_zero)
    have uniq: "rc_name (rs_objs st ! j) \<noteq> rc_name ?o" if "j \<in># hs" "j \<noteq> i" for j
      using d(2) [OF d(1) [OF that(1)]] di that assms(2) by auto
    have st': "st' = st\<lparr>rs_objs := (rs_objs st)[i := ?o\<lparr>rc_refs := 0, rc_closed := 1\<rparr>], rs_m := (rs_m st)(rc_name ?o := None)\<rparr>"
      using assms(2,3) di True by (auto simp: release_cont_def Let_def)
    have cnt: "count (hs - {#i#}) j = (if j = i then 0 else count hs j)" for j using True by auto
    show ?thesis
      unfolding reg_wf_def prod.case st'
    proof (intro conjI allI impI ballI)
      fix p j
      assume a: "rs_m (st\<lparr>rs_objs := (rs_objs st)[i := ?o\<lparr>rc_refs := 0, rc_closed := 1\<rparr>], rs_m := (rs_m st)(rc_name ?o := None)\<rparr>) p = Some j"
      then have "rs_m st p = Some j" "p \<noteq> rc_name ?o" by (auto split: if_splits)
      then have j: "j \<in># hs" "rc_name (rs_objs st ! j) = p" "j \<noteq> i" using d(3) by blast+
      then show "j \<in># hs - {#i#}" using same by blast
      show "rc_name (rs_objs (st\<lparr>rs_objs := (rs_objs st)[i := ?o\<lparr>rc_refs := 0, rc_closed := 1\<rparr>], rs_m := (rs_m st)(rc_name ?o := None)\<rparr>) ! j) = p"
        using j by simp
    qed (use d di i gone same uniq cnt in \<open>auto simp: nth_list_update split: if_splits dest: in_diffD\<close>)
  next
    case False
    then have two: "2 \<le> count hs i" using pos by linarith
    then have same: "j \<in># hs - {#i#} \<longleftrightarrow> j \<in># hs" for j
      using assms(2) by (cases "j = i") (auto simp: in_diff_count)
    have st': "st' = st\<lparr>rs_objs := (rs_objs st)[i := ?o\<lparr>rc_refs := rc_refs ?o - 1\<rparr>]\<rparr>"
      using assms(3) di two by (auto simp: release_cont_def Let_def)
    have cnt: "int (count (hs - {#i#}) j) = (if j = i then int (count hs j) - 1 else int (count hs j))" for j
      using two by (auto simp: of_nat_diff)
    show ?thesis
      unfolding reg_wf_def prod.case st' same cnt
      using d(1,3,4,5) d(2) i by (auto simp: nth_list_update dest: in_diffD)
  qed
qed

lemma reg_step_wf:
  assumes "reg_step kr u u'" "reg_wf u"
  shows "reg_wf u'"
  using assms(1)
proof (cases rule: reg_step.cases)
  case (reg_open path os flags cfg kc st i st' hs ow)
  with assms(2) have w: "reg_wf (st, hs, ow)" by simp
  from reg_open(4) show ?thesis
  proof (cases rule: openMain_cases)
    case shared
    then show ?thesis using reg_wf_shared [OF w shared(1)] reg_open by simp
  next
    case (fresh ct)
    then show ?thesis using reg_wf_fresh [OF w fresh(1,2) reg_open(3)] reg_open by simp
  qed
next
  case (reg_open_fails os path flags cfg kc st e st' hs ow)
  then show ?thesis using assms(2) openMain_fails [OF reg_open_fails(3)] by simp
next
  case (reg_close i hs closing st r st' ow)
  then show ?thesis using assms(2) reg_wf_close by simp
next
  case (reg_reserve absPath st ok st' hs ow)
  with assms(2) have w: "reg_wf (st, hs, ow)" by simp
  then show ?thesis
    using reg_reserve by (auto simp: reservePath_def reg_wf_def split: if_splits)
next
  case (reg_unreserve absPath ow st hs)
  then show ?thesis using assms(2) by (auto simp: releasePath_def reg_wf_def)
next
  case (reg_work i hs st ow c)
  with assms(2) have w: "reg_wf (st, hs, ow)" by simp
  note d = reg_wfD [OF w]
  have "i < length (rs_objs st)" using d(1) reg_work by blast
  then show ?thesis
    unfolding reg_work(2) reg_wf_def prod.case using d(1,3,4,5) d(2) by (auto simp: nth_list_update)
qed

lemma reg_reach_wf: "reg_reach kr u \<Longrightarrow> reg_wf u"
proof (induction rule: reg_reach.induct)
  case reg_start
  show ?case by (simp add: reg_wf_def emptyRegistry_def)
qed (rule reg_step_wf)


definition demoConfig :: vfsConfig where
  "demoConfig = \<lparr>vc_blockSize = 512, vc_pageSize = 1024, vc_segEntries = 16, vc_codec = 0\<rparr>"

definition demoFile :: "bool \<Rightarrow> bool \<Rightarrow> verror + backing" where
  "demoFile ro create = Inr (oneSuperblock emptySuperblock)"

lemma demo_openMain:
  "\<exists>c. newContainerOver noKeyring (oneSuperblock emptySuperblock) False 512 1024 16 0 noKey = Inr c \<and>
     openMain noKeyring demoFile ''/db'' 6 demoConfig noKey emptyRegistry =
       (Inr 0, \<lparr>rs_objs = [\<lparr>rc_cont = c, rc_name = ''/db'', rc_refs = 1, rc_closed = 0\<rparr>], rs_m = [''/db'' \<mapsto> 0], rs_locked = {}\<rparr>)"
proof -
  obtain c where c: "newContainerOver noKeyring (oneSuperblock emptySuperblock) False 512 1024 16 0 noKey = Inr c"
    using oneSuperblock_open [OF emptySuperblock_ok(1,3,2), of noKey noKeyring 0] emptySuperblock_ok
    by (simp add: resolveCipherForOpen_def encrypting_def noKey_def check_root_def initContainer_def)
  moreover have "\<not> has_flag 6 1" by (simp add: has_flag_def)
  ultimately show ?thesis by (simp add: openMain_def emptyRegistry_def demoFile_def demoConfig_def Let_def)
qed


section \<open>Auxiliary files\<close>

lemma passDomain_transient: "passDomain flags \<notin> {domainPageData, domainDirectory, domainSegIndex}"
  by (simp add: passDomain_def domain_defs)

text \<open>A file other than a main database that is opened after a main database is enciphered with the data key
  of that database and under a domain no block of a container uses, and it is in the clear exactly when
  that database is. The key is that of the main database opened last, whichever database the file
  belongs to.\<close>

theorem aux_files_use_last_key:
  assumes "vault_Open kr os pos path flags v st = (Inr (MainFile i, fl), v1, st1)"
    and "vault_Open kr os' pos' name flags' v1 st2 = (Inr (PassFile f, fl'), v2, st3)"
  shows "pf_cipher f = c_cipher (rc_cont (rs_objs st1 ! i)) \<and> pf_domain f = passDomain flags' \<and>
    pf_domain f \<notin> {domainPageData, domainDirectory, domainSegIndex} \<and> v2 = v1"
proof -
  have "vv_cipher v1 = c_cipher (rc_cont (rs_objs st1 ! i))"
    using assms(1) by (auto simp: vault_Open_def Let_def after_main_def split: if_splits prod.splits sum.splits)
  moreover have "pf_cipher f = vv_cipher v1 \<and> pf_domain f = passDomain flags' \<and> v2 = v1"
    using assms(2) by (auto simp: vault_Open_def openPass_def Let_def split: if_splits prod.splits sum.splits)
  ultimately show ?thesis using passDomain_transient by simp
qed

definition demoVault :: vaultVFS where
  "demoVault = \<lparr>vv_config = demoConfig, vv_keyCfg = noKey, vv_cipher = None, vv_mainReadOnly = False,
     vv_preserveNewFiles = False, vv_preserve = None\<rparr>"

definition demoPassOpens :: passOpens where
  "demoPassOpens = \<lparr>po_createTemp = Inl ErrIO, po_open = \<lambda>ro create excl. Inr (oneSuperblock emptySuperblock)\<rparr>"

theorem aux_files_use_last_key_witness:
  "\<exists>v1 st1 f. vault_Open noKeyring demoFile demoPassOpens ''/db'' 0x106 demoVault emptyRegistry = (Inr (MainFile 0, 0x106), v1, st1) \<and>
     vault_Open noKeyring demoFile demoPassOpens ''/db-journal'' 0x806 v1 st1 = (Inr (PassFile f, 0x806), v1, st1) \<and>
     pf_cipher f = c_cipher (rc_cont (rs_objs st1 ! 0)) \<and> pf_domain f = domainJournal"
proof -
  obtain c where c: "newContainerOver noKeyring (oneSuperblock emptySuperblock) False 512 1024 16 0 noKey = Inr c"
    using demo_openMain by blast
  have fl: "has_flag 0x106 0x100" "\<not> has_flag 0x106 1" "\<not> has_flag 0x806 0x100" by (simp_all add: has_flag_def)
  obtain v1 st1 where m: "vault_Open noKeyring demoFile demoPassOpens ''/db'' 0x106 demoVault emptyRegistry = (Inr (MainFile 0, 0x106), v1, st1)"
    using c fl by (simp add: vault_Open_def openMain_def emptyRegistry_def demoFile_def demoConfig_def demoVault_def Let_def)
  obtain f where p: "vault_Open noKeyring demoFile demoPassOpens ''/db-journal'' 0x806 v1 st1 = (Inr (PassFile f, 0x806), v1, st1)"
    using fl(3) by (simp add: vault_Open_def openPass_def demoPassOpens_def)
  have "passDomain 0x806 = domainJournal" by (simp add: passDomain_def has_flag_def)
  with aux_files_use_last_key [OF m p] m p show ?thesis by metis
qed

end
