(* ===== verification/Vault_Crash.thy ===== *)
theory Vault_Crash
  imports Vault_Commit
begin

text \<open>
  Crash safety of the container. Between two commits every write goes to blocks the committed state
  does not reference (\<open>avoids\<close>), so a crash that loses, reorders or tears any of them leaves each
  committed block, and both superblocks, as they were (\<open>torn\<close>). The committed directory then loads
  every page it loaded when it was committed.
\<close>

section \<open>Writes that avoid a set of blocks\<close>

definition avoids :: "nat \<Rightarrow> nat multiset \<Rightarrow> bkop \<Rightarrow> bool" where
  "avoids bs B op = (case op of
       BWrite off src \<Rightarrow> src = [] \<or> (2 * bs \<le> off \<and> (\<forall>b\<in>#B. off + length src \<le> b * bs \<or> Suc b * bs \<le> off))
     | BSync \<Rightarrow> True
     | BTruncate n \<Rightarrow> False)"

definition out_of_place :: "nat multiset \<Rightarrow> container \<Rightarrow> container \<Rightarrow> bool" where
  "out_of_place B c c' \<longleftrightarrow> c_blockSize c' = c_blockSize c \<and>
     (\<exists>ops. bk_log (c_back c') = bk_log (c_back c) @ ops \<and> list_all (avoids (c_blockSize c) B) ops)"

lemma avoids_mono: "avoids bs B' op \<Longrightarrow> B \<subseteq># B' \<Longrightarrow> avoids bs B op"
  by (auto simp: avoids_def split: bkop.splits dest: mset_subset_eqD)

lemma out_of_place_mono: "out_of_place B' c c' \<Longrightarrow> B \<subseteq># B' \<Longrightarrow> out_of_place B c c'"
  by (auto simp: out_of_place_def list_all_iff intro: avoids_mono)

lemma out_of_place_trans: "out_of_place B c c' \<Longrightarrow> out_of_place B c' c'' \<Longrightarrow> out_of_place B c c''"
  by (auto simp: out_of_place_def)

lemma out_of_place_same: "c_back c' = c_back c \<Longrightarrow> c_blockSize c' = c_blockSize c \<Longrightarrow> out_of_place B c c'"
  by (simp add: out_of_place_def)

text \<open>Writing a freshly allocated run avoids everything the state holds.\<close>

lemma extent_avoids:
  assumes "container_inv c leak" "0 < nb" "room c nb" "alloc nb (c_alloc c) = Inr (blk, al)"
    and "WriteAt ext (blk * c_blockSize c) (c_back c) = (r, bk)" "length ext = nb * c_blockSize c"
  shows "out_of_place (held c + leak) c (with_extent c al bk)"
proof -
  obtain k where k: "bk_log bk = bk_log (c_back c) @ [BWrite (blk * c_blockSize c) (take k ext)]"
    using WriteAt_any [OF assms(5)] by blast
  note inv = extent_inv [OF assms(1-5)]
  have apart: "b < blk \<or> blk + nb \<le> b" if "b \<in># held c + leak" for b
  proof (rule ccontr)
    assume "\<not> (b < blk \<or> blk + nb \<le> b)"
    then have "1 \<le> count (region blk (blk + nb)) b" by (simp add: count_region)
    moreover have "1 \<le> count (held c + leak) b" using that by (simp add: Suc_le_eq)
    ultimately have "2 \<le> count (region blk (blk + nb) + (held c + leak)) b" by simp
    also have "\<dots> \<le> count (region superblockBlocks (al_highWater al)) b"
      using inv(3) by (rule mset_subset_eq_count)
    also have "\<dots> \<le> 1" by (simp add: count_region)
    finally show False by simp
  qed
  have "blk * c_blockSize c + length (take k ext) \<le> b * c_blockSize c \<or> Suc b * c_blockSize c \<le> blk * c_blockSize c"
    if b: "b \<in># held c + leak" for b
  proof -
    consider "Suc b \<le> blk" | "blk + nb \<le> b" using apart [OF b] by linarith
    then show ?thesis
    proof cases
      case 2
      then have "(blk + nb) * c_blockSize c \<le> b * c_blockSize c" by (rule mult_le_mono1)
      moreover have "length (take k ext) \<le> nb * c_blockSize c" using assms(6) by simp
      ultimately show ?thesis by (simp add: add_mult_distrib del: length_take)
    qed (use mult_le_mono1 in blast)
  qed
  moreover have "2 * c_blockSize c \<le> blk * c_blockSize c"
    using inv(2) unfolding superblockBlocks_def by (rule mult_le_mono1)
  ultimately show ?thesis using k by (auto simp: out_of_place_def avoids_def)
qed

lemma out_of_place_cong:
  "c_back c'' = c_back c' \<Longrightarrow> c_blockSize c'' = c_blockSize c' \<Longrightarrow> out_of_place B c c' \<Longrightarrow> out_of_place B c c''"
  by (simp add: out_of_place_def)

lemma storePage_avoids:
  assumes "container_inv c leak" "room c 256" "codec_ok z" "length page = c_pageSize c" "storePage z p page c = (r, c')"
  shows "out_of_place (held c + leak) c c' \<and> held c \<subseteq># held c'"
  using assms
proof (cases rule: storePage_cases)
  case (wrote stored verbatim nb blk al ext ck h bk)
  have "length ext = nb * c_blockSize c"
    using assms(1) wrote(4,9) by (intro seal_slot_ok(1)) (auto simp: container_inv_def geometry_ok_def)
  then have "out_of_place (held c + leak) c (with_extent c al bk)"
    by (rule extent_avoids [OF assms(1) wrote(5,7,8,10)])
  then show ?thesis
    using wrote(11) out_of_place_cong [of c' "with_extent c al bk"] by (simp add: putEntry_held split: if_splits)
qed (auto simp: out_of_place_same putEntry_held)

lemma writeMetaExtent_avoids:
  assumes "container_inv c leak" "room c (length content + 18)" "length content < 2 ^ 62"
    and "writeMetaExtent content canary tweak domain c = (r, c')"
  shows "out_of_place (held c + leak) c c'"
  using assms
proof (cases rule: writeMetaExtent_cases)
  case none
  then show ?thesis by (simp add: out_of_place_same)
next
  case (wrote nb blk al bk err buf)
  show ?thesis using extent_avoids [OF assms(1) wrote(1,2,4,9,6)] wrote(10) by simp
qed

lemma write_segments_avoids:
  assumes "container_inv c leak" "room c (length ss * seg_budget c)" "write_segments idx ss newSegs released c = (r, c')"
  shows "out_of_place (held c + leak) c c'"
  using assms
proof (induction ss arbitrary: newSegs released c leak)
  case (Cons s ss)
  have room: "room c (length ss * seg_budget c)" "room c (seg_budget c)" using Cons.prems(2) by (auto simp: room_def)
  obtain lo hi where b: "segmentBounds s (c_segEntries c) (c_pageCount c) = (lo, hi)" by fastforce
  let ?content = "marshalDirectory (bslice lo hi (c_dir c)) (c_authenticated c)"
  show ?case
  proof (cases "s \<notin> c_dirtySegs c \<and> s < length idx \<or> allSparse (bslice lo hi (c_dir c))")
    case True
    then obtain ns rel where "write_segments idx ss ns rel c = (r, c')"
      using Cons.prems(3) b by (auto split: if_splits)
    then show ?thesis using Cons.IH [OF Cons.prems(1) room(1)] by blast
  next
    case False
    have len: "length ?content \<le> 64 * c_segEntries c" by (rule segment_content_bound [OF b])
    moreover have "c_segEntries c < 2 ^ 32" using Cons.prems(1) by (simp add: container_inv_def geometry_ok_def)
    ultimately have len': "room c (length ?content + 18)" "length ?content < 2 ^ 62"
      using room(2) by (auto simp: room_def seg_budget_def)
    obtain r1 c1 where w: "writeMetaExtent ?content False s domainDirectory c = (r1, c1)" by fastforce
    note st = writeMetaExtent_step [OF Cons.prems(1) len' w] and av = writeMetaExtent_avoids [OF Cons.prems(1) len' w]
    show ?thesis
    proof (cases r1)
      case (Inl e)
      then have "c' = c1" using Cons.prems(3) False b w by (auto split: if_splits)
      then show ?thesis using av by simp
    next
      case (Inr m)
      then obtain ns rel where nx: "write_segments idx ss ns rel c1 = (r, c')"
        using Cons.prems(3) False b w by (auto split: if_splits)
      have fr: "held c1 = held c" "seg_budget c1 = seg_budget c"
        using st same_frame_fields [of c c1] by (auto simp: seg_budget_def)
      have inv: "container_inv c1 (leak + meta_run (c_blockSize c) m)" using st Inr by simp
      moreover have "room c1 (length ss * seg_budget c1)"
        using st Cons.prems(2) len fr(2) by (auto simp: room_def seg_budget_def)
      ultimately have "out_of_place (held c + (leak + meta_run (c_blockSize c) m)) c1 c'"
        using Cons.IH nx fr(1) by metis
      then have "out_of_place (held c + leak) c1 c'" by (rule out_of_place_mono) simp
      then show ?thesis using out_of_place_trans [OF av] by blast
    qed
  qed
qed (auto simp: out_of_place_same)

lemma writeDirectory_avoids:
  assumes "container_inv c leak" "room c (commit_budget c)" "c_pageCount c < 2 ^ 54" "writeDirectory c = (r, c')"
  shows "out_of_place (held c + leak) c c'"
proof -
  let ?c = "padDir c" and ?n = "segmentCount (c_pageCount c) (c_segEntries c)"
  have inv: "container_inv ?c leak" using assms(1) padDir_inv by auto
  have geo: "0 < c_segEntries c" "c_segEntries c < 2 ^ 32" using assms(1) by (auto simp: container_inv_def geometry_ok_def)
  have n: "?n \<le> c_pageCount c" using geo assms(3) by (intro segmentCount_le) auto
  have rm: "room ?c (length [0..<?n] * seg_budget ?c)"
    using assms(2) by (simp add: room_def commit_budget_def seg_budget_def algebra_simps)
  obtain r1 c1 where ws: "write_segments (c_segIndex c) [0..<?n] [] [] ?c = (r1, c1)" by fastforce
  note av = write_segments_avoids [OF inv rm ws] and st = write_segments_step [OF inv rm ws]
  have av1: "out_of_place (held c + leak) c c1"
    using out_of_place_trans [OF out_of_place_same [of ?c c] av] by simp
  show ?thesis
  proof (cases "?n = 0 \<and> c_cipher c = None")
    case True
    then have "c' = ?c\<lparr>c_segIndex := [], c_dirtySegs := {}\<rparr>" using assms(4) by (auto simp: writeDirectory_def Let_def)
    then show ?thesis by (simp add: out_of_place_same)
  next
    case False
    show ?thesis
    proof (cases r1)
      case (Inl e)
      then have "c' = c1" using assms(4) False ws by (auto simp: writeDirectory_def Let_def)
      then show ?thesis using av1 by simp
    next
      case (Inr nr)
      obtain ns rel where nr: "nr = (ns, rel)" by fastforce
      obtain W where W: "container_inv c1 (leak + W)" "length ns = ?n" using st Inr nr by auto
      let ?ix = "marshalSegmentIndex ns"
      have len: "length ?ix \<le> 64 * ?n" using W(2) by (simp add: length_marshalSegmentIndex_any layout_defs)
      have rm1: "room c1 (length ?ix + 18)" "length ?ix < 2 ^ 62"
        using st assms(2,3) len n by (auto simp: room_def commit_budget_def seg_budget_def algebra_simps)
      obtain r2 c2 where wm: "writeMetaExtent ?ix True 0 domainSegIndex c1 = (r2, c2)" by fastforce
      have "held c1 = held c" using st same_frame_fields(6) [of ?c c1] by simp
      then have "out_of_place (held c + leak) c1 c2"
        using writeMetaExtent_avoids [OF W(1) rm1 wm] out_of_place_mono by fastforce
      then have "out_of_place (held c + leak) c c2" using out_of_place_trans [OF av1] by blast
      moreover have "c_back c' = c_back c2" "c_blockSize c' = c_blockSize c2"
        using assms(4) False ws wm Inr nr by (auto simp: writeDirectory_def Let_def split: sum.splits)
      ultimately show ?thesis by (metis out_of_place_cong)
    qed
  qed
qed

lemma writeAt_loop_avoids:
  assumes "container_inv c leak" "room c (256 * length p)" "readable c" "codec_ok z" "represents z c f"
    and "writeAt_loop z p cur c = (r, c')"
  shows "out_of_place (held c + leak) c c' \<and> held c \<subseteq># held c' \<and> container_inv c' leak"
  using assms
proof (induction "length p" arbitrary: p cur c f rule: less_induct)
  case less
  have ps: "0 < c_pageSize c" using less.prems(1) by (simp add: container_inv_def geometry_ok_def)
  show ?case
  proof (cases "p = []")
    case True
    then have "c' = c\<lparr>c_dirty := True\<rparr>" using less.prems(6) by (auto simp: writeAt_loop.simps)
    then show ?thesis using less.prems(1) same_store(1) [of c' c] by (simp add: out_of_place_same)
  next
    case False
    define n where "n = min (c_pageSize c - cur mod c_pageSize c) (length p)"
    let ?q = "cur div c_pageSize c" and ?f = "put_bytes cur (take n p) f"
    let ?pg = "file_page (c_pageSize c) ?f ?q"
    have n: "0 < n" "n \<le> length p" "n \<le> c_pageSize c - cur mod c_pageSize c"
      using False ps by (auto simp: n_def)
    have room: "room c 256" using less.prems(2) False by (auto simp: room_def neq_Nil_conv)
    obtain r1 c1 where st: "storePage z ?q ?pg c = (r1, c1)" by fastforce
    note fr = storePage_frame [OF less.prems(1) room less.prems(4) _ st, simplified]
      and av = storePage_avoids [OF less.prems(1) room less.prems(4) _ st, simplified]
    show ?thesis
    proof (cases r1)
      case (Some e)
      then have "c' = c1" using less.prems(6) writeAt_loop_step [OF less.prems(5) ps False, of cur] st by (auto simp: n_def)
      moreover have "container_inv c1 leak"
        using storePage_fails [OF less.prems(1) room less.prems(4), of ?pg ?q e c1] st Some by simp
      ultimately show ?thesis using av by simp
    next
      case None
      let ?c = "c1\<lparr>c_pageCount := max (c_pageCount c1) (Suc ?q)\<rparr>"
      have st': "storePage z ?q ?pg c = (None, c1)" using st None by simp
      have i: "container_inv ?c leak" "represents z ?c ?f"
        using storePage_ok [OF less.prems(1) room less.prems(3,4) _ st']
          represents_store [OF less.prems(1) room less.prems(3,4,5) ps _ st'] n by auto
      have rm: "room ?c (256 * length (drop n p))"
        using fr less.prems(2) n(1,2) by (simp add: room_def diff_mult_distrib2) linarith
      have d: "length (drop n p) < length p" "readable ?c" using n fr less.prems(3) by auto
      have lp: "writeAt_loop z (drop n p) (cur + n) ?c = (r, c')"
        using less.prems(6) writeAt_loop_step [OF less.prems(5) ps False, of cur] st None by (simp add: n_def)
      have h: "held ?c = held c1" by (rule same_store(1)) simp_all
      note ih = less.hyps [OF d(1) i(1) rm d(2) less.prems(4) i(2) lp]
      have "out_of_place (held c + leak) ?c c'" using ih av h out_of_place_mono by fastforce
      moreover have "out_of_place (held c + leak) c ?c" using av by (auto intro: out_of_place_cong)
      ultimately show ?thesis using ih av h out_of_place_trans subset_mset.order_trans by metis
    qed
  qed
qed

section \<open>Steps between two commits\<close>

text \<open>What can happen to a container between two superblock writes: writes and truncations, whether
  they succeed or not, and the directory write and sync of a commit in progress or given up.\<close>

inductive vault_step :: "codec \<Rightarrow> container \<Rightarrow> container \<Rightarrow> bool" for z where
  step_write: "room c (256 * length p) \<Longrightarrow> writeAt z p off c = (r, c') \<Longrightarrow> vault_step z c c'"
| step_truncate: "container_truncate sz c = (r, c') \<Longrightarrow> vault_step z c c'"
| step_directory: "room c (commit_budget c) \<Longrightarrow> c_pageCount c < 2 ^ 54 \<Longrightarrow> writeDirectory c = (r, c') \<Longrightarrow> vault_step z c c'"
| step_sync: "Sync (c_back c) = (r, bk) \<Longrightarrow> vault_step z c (c\<lparr>c_back := bk\<rparr>)"

inductive vault_steps :: "codec \<Rightarrow> container \<Rightarrow> container \<Rightarrow> bool" for z where
  steps_none: "vault_steps z c c"
| steps_more: "vault_steps z c c' \<Longrightarrow> vault_step z c' c'' \<Longrightarrow> vault_steps z c c''"

text \<open>The committed blocks \<open>B\<close> stay reserved, and the contents stay those of some byte file.\<close>

definition keeps :: "codec \<Rightarrow> nat multiset \<Rightarrow> container \<Rightarrow> bool" where
  "keeps z B c \<longleftrightarrow> (\<exists>L. container_inv c L \<and> B \<subseteq># held c + L) \<and> readable c \<and> (\<exists>f. represents z c f) \<and>
     length (c_dir c) \<le> c_pageCount c"

lemma out_of_place_sync: "Sync (c_back c) = (r, bk) \<Longrightarrow> out_of_place B c (c\<lparr>c_back := bk\<rparr>)"
  by (auto simp: out_of_place_def Sync_def avoids_def split: option.splits)

lemma write_keeps:
  assumes "keeps z B c" "codec_ok z" "room c (256 * length p)" "writeAt z p off c = (r, c')"
  shows "keeps z B c' \<and> out_of_place B c c'"
proof (cases "c_readOnlyRecipient c \<or> c_readOnly c")
  case True
  then have "c' = c" using assms(4) by (auto simp: writeAt_def split: if_splits)
  then show ?thesis using assms(1) by (simp add: out_of_place_same)
next
  case False
  then have w: "writeAt_loop z p off c = (r, c')" using assms(4) by (simp add: writeAt_def)
  obtain L f where k: "container_inv c L" "B \<subseteq># held c + L" "readable c" "represents z c f" "length (c_dir c) \<le> c_pageCount c"
    using assms(1) by (auto simp: keeps_def)
  have av: "out_of_place (held c + L) c c' \<and> held c \<subseteq># held c' \<and> container_inv c' L"
    by (rule writeAt_loop_avoids [OF k(1) assms(3) k(3) assms(2) k(4) w])
  then have "B \<subseteq># held c' + L" using k(2) subset_mset.order_trans by fastforce
  moreover have "out_of_place B c c'" using av k(2) out_of_place_mono by blast
  moreover have "readable c' \<and> (\<exists>f. represents z c' f) \<and> length (c_dir c') \<le> c_pageCount c'"
    using writeAt_loop_correct [OF k(1) assms(3) k(3) assms(2) k(4,5) w] by blast
  ultimately show ?thesis using av by (auto simp: keeps_def)
qed

lemma truncate_keeps:
  assumes "keeps z B c" "container_truncate sz c = (r, c')"
  shows "keeps z B c' \<and> out_of_place B c c'"
proof (cases r)
  case None
  obtain L f where k: "container_inv c L" "B \<subseteq># held c + L" "represents z c f" using assms(1) by (auto simp: keeps_def)
  note t = container_truncate_correct [OF k(1,3), of sz c']
  have "readable c'" using t assms None by (simp add: keeps_def readable_def)
  moreover have "\<exists>L. container_inv c' L \<and> B \<subseteq># held c' + L" "\<exists>f. represents z c' f"
    using t assms(2) None k(2) by auto
  ultimately show ?thesis
    using t assms(2) None out_of_place_same [of c' c] by (simp add: keeps_def)
next
  case (Some e)
  then have "c' = c" using assms by (auto simp: container_truncate_def Let_def split: if_splits)
  then show ?thesis using assms(1) by (simp add: out_of_place_same)
qed

lemma directory_keeps:
  assumes "keeps z B c" "room c (commit_budget c)" "c_pageCount c < 2 ^ 54" "writeDirectory c = (r, c')"
  shows "keeps z B c' \<and> out_of_place B c c'"
proof -
  obtain L f where k: "container_inv c L" "B \<subseteq># held c + L" "represents z c f" using assms(1) by (auto simp: keeps_def)
  note wd = writeDirectory_step [OF k(1) assms(2-4)]
  have "\<exists>L. container_inv c' L \<and> B \<subseteq># held c' + L"
  proof (cases r)
    case (Inr mr)
    obtain m rel where mr: "mr = (m, rel)" by fastforce
    have "B \<subseteq># held c + L" by (rule k(2))
    also have "\<dots> \<subseteq># held c' + segs_bag (c_blockSize c) rel + L" using wd Inr mr by simp
    also have "\<dots> \<subseteq># held c' + (L + segs_bag (c_blockSize c) rel + meta_run (c_blockSize c) m)"
      by (simp add: add_ac)
    finally show ?thesis using wd Inr mr by auto
  qed (use wd k(2) in auto)
  moreover have "out_of_place B c c'" using writeDirectory_avoids [OF k(1) assms(2-4)] k(2) out_of_place_mono by blast
  moreover have "represents z c' f" "readable c'" "length (c_dir c') \<le> c_pageCount c'"
    using wd k(3) pages_kept_represents assms(1) by (auto simp: pages_kept_def dir_frame_def keeps_def)
  ultimately show ?thesis by (auto simp: keeps_def)
qed

lemma sync_keeps:
  assumes "keeps z B c" "Sync (c_back c) = (r, bk)"
  shows "keeps z B (c\<lparr>c_back := bk\<rparr>) \<and> out_of_place B c (c\<lparr>c_back := bk\<rparr>)"
proof -
  obtain L f where k: "container_inv c L" "B \<subseteq># held c + L" "represents z c f" using assms(1) by (auto simp: keeps_def)
  have "held (c\<lparr>c_back := bk\<rparr>) = held c" by (simp add: held_def index_bag_def pending_bag_def)
  moreover have "represents z (c\<lparr>c_back := bk\<rparr>) f"
    using sync_step [OF k(1) assms(2)] pages_kept_represents k(3) by blast
  ultimately show ?thesis
    using sync_step [OF k(1) assms(2)] k(2) assms(1) out_of_place_sync [OF assms(2)]
    unfolding keeps_def pages_kept_def by auto
qed

lemma vault_step_keeps: "vault_step z c c' \<Longrightarrow> codec_ok z \<Longrightarrow> keeps z B c \<Longrightarrow> keeps z B c' \<and> out_of_place B c c'"
  by (induction rule: vault_step.induct) (metis write_keeps, metis truncate_keeps, metis directory_keeps, metis sync_keeps)

lemma vault_steps_keep: "vault_steps z c c' \<Longrightarrow> codec_ok z \<Longrightarrow> keeps z B c \<Longrightarrow> keeps z B c' \<and> out_of_place B c c'"
proof (induction rule: vault_steps.induct)
  case (steps_more c c' c'')
  then show ?case using vault_step_keeps out_of_place_trans by blast
qed (simp add: out_of_place_same)

section \<open>Crashes\<close>

text \<open>\<open>torn ops d d'\<close>: \<open>d'\<close> is what a crash can leave of a file that held \<open>d\<close> at the last barrier and
  received the operations \<open>ops\<close> since: any pieces of any of the writes, in any order.\<close>

inductive torn :: "bkop list \<Rightarrow> bytes \<Rightarrow> bytes \<Rightarrow> bool" for ops d where
  torn_none: "torn ops d d"
| torn_piece: "torn ops d d' \<Longrightarrow> BWrite off src \<in> set ops \<Longrightarrow>
    torn ops d (file_write (off + j) (take k (drop j src)) d')"

text \<open>A range inside one committed block, or inside the superblock area.\<close>

lemma torn_range:
  assumes "torn ops d d'" "list_all (avoids bs B) ops" "i + n \<le> length d"
    and "i + n \<le> 2 * bs \<or> (\<exists>b\<in>#B. b * bs \<le> i \<and> i + n \<le> Suc b * bs)"
  shows "bslice i (i + n) d' = bslice i (i + n) d \<and> length d \<le> length d'"
  using assms(1)
proof induction
  case (torn_piece d' off src j k)
  let ?p = "take k (drop j src)"
  show ?case
  proof (cases "?p = []")
    case False
    then have "avoids bs B (BWrite off src)" "src \<noteq> []" using torn_piece(2) assms(2) by (auto simp: list_all_iff)
    moreover have "length ?p \<le> length src - j" by simp
    moreover have "0 < length ?p" using False by simp
    ultimately have "i + n \<le> off + j \<or> off + j + length ?p \<le> i"
      using assms(4) by (auto simp: avoids_def simp del: length_take length_drop length_greater_0_conv)
    then have "bslice i (i + n) (file_write (off + j) ?p d') = bslice i (i + n) d'"
      using torn_piece(3) assms(3) by (intro bslice_file_write_other) auto
    then show ?thesis using torn_piece(3) file_write_grows [of d' "off + j" ?p] by simp
  qed (use torn_piece in \<open>simp add: file_write_def\<close>)
qed simp

text \<open>Ranges that span several committed blocks.\<close>

lemma torn_blocks:
  assumes "torn ops d d'" "list_all (avoids bs B) ops" "0 < bs"
    and "region s (s + m) \<subseteq># B" "(s + m) * bs \<le> length d"
  shows "bslice (s * bs) ((s + m) * bs) d' = bslice (s * bs) ((s + m) * bs) d \<and> length d \<le> length d'"
  using assms(4,5)
proof (induction m)
  case 0
  then show ?case using torn_range [OF assms(1,2), of 0 0] by simp
next
  case (Suc m)
  have "region s (s + Suc m) = region s (s + m) + region (s + m) (s + Suc m)" by (rule region_split) simp_all
  then have sub: "region s (s + m) \<subseteq># B" "s + m \<in># B"
    using Suc.prems(1) by (auto dest: mset_subset_eqD intro: subset_mset.order_trans [rotated])
  have ih: "bslice (s * bs) ((s + m) * bs) d' = bslice (s * bs) ((s + m) * bs) d" "length d \<le> length d'"
    using Suc.IH sub(1) Suc.prems(2) by (auto simp: algebra_simps)
  have "bslice ((s + m) * bs) ((s + m) * bs + bs) d' = bslice ((s + m) * bs) ((s + m) * bs + bs) d"
    using torn_range [OF assms(1,2) _ disjI2, of "(s + m) * bs" bs] bexI [OF _ sub(2)] Suc.prems(2)
    by (simp add: add.commute)
  moreover have "bslice (s * bs) ((s + Suc m) * bs) x
      = bslice (s * bs) ((s + m) * bs) x @ bslice ((s + m) * bs) ((s + m) * bs + bs) x" for x :: bytes
    by (subst bslice_join) (simp_all add: add.commute)
  ultimately show ?case using ih by simp
qed

lemma torn_read:
  assumes "torn ops d d'" "list_all (avoids bs B) ops" "0 < bs" "region s (s + m) \<subseteq># B" "(s + m) * bs \<le> length d"
    and "s * bs \<le> i" "i + n \<le> (s + m) * bs" "bk_rfail b' = bk_rfail b" "bk_data b = d" "bk_data b' = d'"
  shows "ReadAt n i b' = ReadAt n i b"
proof -
  have t: "bslice (s * bs) ((s + m) * bs) d' = bslice (s * bs) ((s + m) * bs) d" "length d \<le> length d'"
    using torn_blocks [OF assms(1-5)] by auto
  have "bslice i (i + n) d' = bslice i (i + n) d"
    using bslice_sub [OF assms(6,7), of d'] bslice_sub [OF assms(6,7), of d] t(1) by simp
  then show ?thesis using t(2) assms(5,7-10) by (auto simp: ReadAt_def)
qed

text \<open>The container as the last commit left it, on the bytes a crash left.\<close>

definition after_crash :: "container \<Rightarrow> bytes \<Rightarrow> container" where
  "after_crash c d' = c\<lparr>c_back := (c_back c)\<lparr>bk_data := d'\<rparr>\<rparr>"

lemma crash_load:
  assumes "container_inv c leak" "torn ops (bk_data (c_back c)) d'" "list_all (avoids (c_blockSize c) (held c)) ops"
  shows "loadPageInto z (after_crash c d') dst q = loadPageInto z c dst q"
proof (cases "q < length (c_dir c) \<and> de_physOffset (c_dir c ! q) \<noteq> 0")
  case True
  let ?e = "c_dir c ! q" and ?bs = "c_blockSize c"
  let ?s = "de_physOffset ?e div ?bs"
  have wf: "?bs dvd de_physOffset ?e" "de_storedLen ?e \<le> de_blocks ?e * ?bs"
    "de_physOffset ?e + de_blocks ?e * ?bs \<le> length (bk_data (c_back c))" "0 < ?bs"
    using assms(1) True by (auto simp: container_inv_def slot_wf_def geometry_ok_def)
  have "ReadAt n (de_physOffset ?e) (c_back (after_crash c d')) = ReadAt n (de_physOffset ?e) (c_back c)"
    if "n \<le> de_blocks ?e * ?bs" for n
    using that wf slot_in_held [of q c] True
    by (intro torn_read [OF assms(2,3) wf(4), of ?s "de_blocks ?e"]) (auto simp: after_crash_def algebra_simps)
  then have "load_stored (after_crash c d') q ?e = load_stored c q ?e"
    using wf(2) by (intro load_stored_cong) (simp_all add: after_crash_def)
  then show ?thesis by (simp add: loadPageInto_def after_crash_def Let_def)
qed (auto simp: loadPageInto_def after_crash_def)



end
