(* ===== verification/Vault_Compact.thy ===== *)
theory Vault_Compact
  imports Vault_Commit
begin

text \<open>
  Online space reclaim of an open container: \<^verbatim>\<open>trim\<close> (\<^verbatim>\<open>src/vfs/vault/trim.go\<close>) returns free blocks at
  the tail to the file system, and \<^verbatim>\<open>compactOnline\<close> (\<^verbatim>\<open>compact_online.go\<close>) moves live slots down into
  lower holes, commits and trims, until nothing moves. The registry lookup of the exported functions and the
  lock taken around each batch are not part of the model; the values reported to \<^verbatim>\<open>progress\<close> are returned.
  \<^verbatim>\<open>sort.Slice\<close> leaves the order of slots at equal offsets open; live slots have distinct offsets.
\<close>

section \<open>Operations\<close>

text \<open>How many blocks of the tail run to release, within the bound the caller gave.\<close>

definition trim_blocks :: "int \<Rightarrow> container \<Rightarrow> nat" where
  "trim_blocks maxBytes c = (let rel = ex_count (last (al_free (c_alloc c))); lim = nat maxBytes div c_blockSize c
     in if 0 < maxBytes \<and> lim < rel then lim else rel)"

text \<open>The allocator after the tail run gave up its last \<open>rel\<close> blocks.\<close>

definition shrunk :: "allocator \<Rightarrow> nat \<Rightarrow> allocator" where
  "shrunk a rel = (let lst = last (al_free a) in
     a\<lparr>al_highWater := al_highWater a - rel,
       al_free := (if rel = ex_count lst then butlast (al_free a)
                   else butlast (al_free a) @ [lst\<lparr>ex_count := ex_count lst - rel\<rparr>])\<rparr>)"

definition trimLocked :: "int \<Rightarrow> container \<Rightarrow> (int \<times> verror option) \<times> container" where
  "trimLocked maxBytes c = (let a = c_alloc c; lst = last (al_free a); rel = trim_blocks maxBytes c in
     if al_free a = [] \<or> add64 (ex_start lst) (ex_count lst) \<noteq> al_highWater a \<or> rel = 0 then ((0, None), c)
     else (case Truncate ((al_highWater a - rel) * c_blockSize c) (c_back c) of
             (Some e, bk) \<Rightarrow> ((0, Some e), c\<lparr>c_back := bk\<rparr>)
           | (None, bk) \<Rightarrow> ((int (rel * c_blockSize c), None), c\<lparr>c_back := bk, c_alloc := shrunk a rel\<rparr>)))"

definition trim :: "int \<Rightarrow> container \<Rightarrow> (int \<times> verror option) \<times> container" where
  "trim maxBytes c =
     (if c_readOnly c then ((0, Some ErrReadOnly), c)
      else if c_readOnlyRecipient c then ((0, Some ErrReadOnlyRecipient), c)
      else trimLocked maxBytes c)"

definition moveSlot :: "nat \<Rightarrow> nat \<Rightarrow> container \<Rightarrow> verror option \<times> container" where
  "moveSlot pageNo newOff c = (let e = c_dir c ! pageNo in
     case ReadAt (de_blocks e * c_blockSize c) (de_physOffset e) (c_back c) of
       Inl err \<Rightarrow> (Some err, c)
     | Inr buf \<Rightarrow>
       (case WriteAt buf newOff (c_back c) of
          (Some err, bk) \<Rightarrow> (Some err, c\<lparr>c_back := bk\<rparr>)
        | (None, bk) \<Rightarrow>
          let c1 = releaseLater (de_physOffset e) (de_blocks e) (c\<lparr>c_back := bk\<rparr>);
              c2 = c1\<lparr>c_dir := (c_dir c1)[pageNo := e\<lparr>de_physOffset := newOff\<rparr>]\<rparr>
          in (None, (markSegmentDirty pageNo c2)\<lparr>c_dirty := True\<rparr>)))"

fun reserve_floor :: "nat \<Rightarrow> nat \<Rightarrow> extent list \<Rightarrow> nat \<Rightarrow> nat" where
  "reserve_floor reserve acc [] highWater = highWater"
| "reserve_floor reserve acc (e # es) highWater =
     (if reserve \<le> add64 acc (ex_count e) then add64 (ex_start e) (sub64 reserve acc)
      else reserve_floor reserve (add64 acc (ex_count e)) es highWater)"

definition dirReserveFloor :: "container \<Rightarrow> nat" where
  "dirReserveFloor c = (let
     reserve = foldl (\<lambda>n d. add64 n (sd_blocks d)) 0 (c_segIndex c);
     reserve' = add64 (add64 reserve (c_committedDirBlocks c)) 2
   in reserve_floor reserve' 0 (al_free (c_alloc c)) (al_highWater (c_alloc c)))"

text \<open>A candidate is a page with the offset and the block count of its slot, highest offset first.\<close>

type_synonym cand = "nat \<times> nat \<times> nat"

definition candidates :: "container \<Rightarrow> cand list" where
  "candidates c =
     rev (sort_key (\<lambda>(page, off, blocks). off)
       (map (\<lambda>p. (p, de_physOffset (c_dir c ! p), de_blocks (c_dir c ! p)))
         (filter (\<lambda>p. de_physOffset (c_dir c ! p) \<noteq> 0) [0..<length (c_dir c)])))"

fun relocate_loop :: "nat \<Rightarrow> nat \<Rightarrow> nat \<Rightarrow> cand list \<Rightarrow> container \<Rightarrow> (nat \<times> verror option) \<times> container" where
  "relocate_loop maxBlocks floor moved [] c = ((moved, None), c)"
| "relocate_loop maxBlocks floor moved ((page, off, blocks) # cs) c =
     (if maxBlocks \<le> moved then ((moved, None), c)
      else case lowestFitAbove blocks floor (c_alloc c) of
             None \<Rightarrow> relocate_loop maxBlocks floor moved cs c
           | Some start \<Rightarrow>
             if off \<le> start * c_blockSize c then relocate_loop maxBlocks floor moved cs c
             else (case allocAt start blocks (c_alloc c) of
                     Inl p \<Rightarrow> ((moved, Some p), c)
                   | Inr al \<Rightarrow>
                     (case moveSlot page (start * c_blockSize c) (c\<lparr>c_alloc := al\<rparr>) of
                        (Some e, c1) \<Rightarrow> ((moved, Some e), c1\<lparr>c_alloc := release start blocks (c_alloc c1)\<rparr>)
                      | (None, c1) \<Rightarrow> relocate_loop maxBlocks floor (moved + blocks) cs c1)))"

definition relocateBatch :: "nat \<Rightarrow> container \<Rightarrow> (nat \<times> verror option) \<times> container" where
  "relocateBatch maxBlocks c = relocate_loop maxBlocks (dirReserveFloor c) 0 (candidates c) c"

definition relocateBatchBlocks :: nat where "relocateBatchBlocks = 4096"

text \<open>One round of \<^verbatim>\<open>compactOnline\<close> under the lock: the blocks moved, the bytes trimmed, the error to return
  at once and the error of the relocation, which is returned after the moves are committed.\<close>

definition compact_round :: "container \<Rightarrow> (nat \<times> int \<times> verror option \<times> verror option) \<times> container" where
  "compact_round c =
     (case relocateBatch relocateBatchBlocks c of
        ((moved, rerr), c1) \<Rightarrow>
          if moved = 0 then ((0, 0, None, rerr), c1)
          else (case commit c1 of
                  (Some e, c2) \<Rightarrow> ((moved, 0, Some e, rerr), c2)
                | (None, c2) \<Rightarrow> (case trimLocked 0 c2 of ((rec, terr), c3) \<Rightarrow> ((moved, rec, terr, rerr), c3))))"

section \<open>Progress of the compaction loop\<close>

definition dir_sum :: "container \<Rightarrow> nat" where
  "dir_sum c = sum_list (map de_physOffset (c_dir c))"

lemma sum_list_update_less:
  "i < length xs \<Longrightarrow> f x < f (xs ! i) \<Longrightarrow> sum_list (map f (xs[i := x])) < (sum_list (map f xs) :: nat)"
  by (induction xs arbitrary: i) (auto simp: nth_Cons split: nat.splits)

lemma moveSlot_dir:
  assumes "moveSlot p o' c = (r, c')"
  shows "c_dir c' = (if r = None then (c_dir c)[p := (c_dir c ! p)\<lparr>de_physOffset := o'\<rparr>] else c_dir c) \<and>
    c_alloc c' = c_alloc c \<and> c_blockSize c' = c_blockSize c"
  using assms by (auto simp: moveSlot_def Let_def releaseLater_def markSegmentDirty_def split: sum.splits prod.splits option.splits)

definition cands_of :: "container \<Rightarrow> cand list \<Rightarrow> bool" where
  "cands_of c cs \<longleftrightarrow> distinct (map fst cs) \<and>
     (\<forall>(p, off, n)\<in>set cs. p < length (c_dir c) \<and> de_physOffset (c_dir c ! p) = off \<and> off \<noteq> 0 \<and> de_blocks (c_dir c ! p) = n)"

lemma candidates_ok: "cands_of c (candidates c)"
proof -
  let ?l = "map (\<lambda>p. (p, de_physOffset (c_dir c ! p), de_blocks (c_dir c ! p)))
      (filter (\<lambda>p. de_physOffset (c_dir c ! p) \<noteq> 0) [0..<length (c_dir c)])"
  have "mset (candidates c) = mset ?l" unfolding candidates_def by (simp only: mset_rev mset_sort)
  then have eq: "mset (map fst (candidates c)) = mset (map fst ?l)" by (simp only: mset_map)
  have "distinct (map fst ?l)" by (simp add: comp_def)
  then have "distinct (map fst (candidates c))" using mset_eq_imp_distinct_iff [OF eq] by (simp only:)
  then show ?thesis by (auto simp: cands_of_def candidates_def)
qed

lemma cands_of_tail:
  assumes "cands_of c ((p, off, n) # cs)" "c_dir c' = c_dir c \<or> (\<exists>e. c_dir c' = (c_dir c)[p := e])"
  shows "cands_of c' cs"
proof -
  have "length (c_dir c') = length (c_dir c)" using assms(2) by auto
  moreover have "c_dir c' ! fst x = c_dir c ! fst x" if "x \<in> set cs" for x
  proof -
    have "p \<noteq> fst x" using assms(1) that by (force simp: cands_of_def)
    then show ?thesis using assms(2) by auto
  qed
  moreover have "cands_of c cs" using assms(1) by (simp add: cands_of_def)
  ultimately show ?thesis unfolding cands_of_def by (simp add: case_prod_beta)
qed

lemma relocate_loop_sum:
  assumes "cands_of c cs" "relocate_loop maxB fl moved cs c = ((moved', r), c')"
  shows "dir_sum c' \<le> dir_sum c \<and> moved \<le> moved' \<and> (moved < moved' \<longrightarrow> dir_sum c' < dir_sum c)"
  using assms
proof (induction maxB fl moved cs c rule: relocate_loop.induct)
  case (2 maxB fl moved page off n cs c)
  have skip: ?case if "relocate_loop maxB fl moved cs c = ((moved', r), c')" "\<not> maxB \<le> moved"
      "lowestFitAbove n fl (c_alloc c) = None \<or> (\<exists>s. lowestFitAbove n fl (c_alloc c) = Some s \<and> off \<le> s * c_blockSize c)"
    using that "2.IH"(1,2) cands_of_tail [OF "2.prems"(1)] by auto
  show ?case
  proof (cases "maxB \<le> moved")
    case True then show ?thesis using "2.prems"(2) by simp
  next
    case nb: False
    show ?thesis
    proof (cases "lowestFitAbove n fl (c_alloc c)")
      case None then show ?thesis using skip "2.prems"(2) nb by simp
    next
      case (Some s)
      show ?thesis
      proof (cases "off \<le> s * c_blockSize c")
        case True then show ?thesis using skip "2.prems"(2) nb Some by simp
      next
        case lt: False
        show ?thesis
        proof (cases "allocAt s n (c_alloc c)")
          case (Inl p) then show ?thesis using "2.prems"(2) nb Some lt by simp
        next
          case (Inr al)
          obtain r1 c1 where m: "moveSlot page (s * c_blockSize c) (c\<lparr>c_alloc := al\<rparr>) = (r1, c1)" by fastforce
          note md = moveSlot_dir [OF m]
          show ?thesis
          proof (cases r1)
            case (Some e) then show ?thesis using "2.prems"(2) nb \<open>lowestFitAbove n fl (c_alloc c) = Some s\<close> lt Inr m md
              by (auto simp: dir_sum_def)
          next
            case r1: None
            have p: "page < length (c_dir c)" "de_physOffset (c_dir c ! page) = off" using "2.prems"(1) by (auto simp: cands_of_def)
            have "dir_sum c1 < dir_sum c" unfolding dir_sum_def using md r1 p lt by (simp add: sum_list_update_less)
            moreover have "cands_of c1 cs" using md r1 by (intro cands_of_tail [OF "2.prems"(1)]) auto
            moreover have "relocate_loop maxB fl (moved + n) cs c1 = ((moved', r), c')"
              using "2.prems"(2) nb Some lt Inr m r1 by simp
            ultimately show ?thesis using "2.IH"(3) [OF nb Some lt Inr m [symmetric] r1] by auto
          qed
        qed
      qed
    qed
  qed
qed simp

text \<open>A commit pads the directory with sparse entries and changes nothing else in it.\<close>

lemma writeMetaExtent_dir: "writeMetaExtent content wc t d c = (r, c') \<Longrightarrow> c_dir c' = c_dir c"
  by (auto simp: writeMetaExtent_def Let_def split: option.splits sum.splits prod.splits if_splits)

lemma write_segments_dir: "write_segments idx ss ns rel c = (r, c') \<Longrightarrow> c_dir c' = c_dir c"
proof (induction idx ss ns rel c rule: write_segments.induct)
  case (2 idx s ss ns rel c)
  obtain lo hi where b: "segmentBounds s (c_segEntries c) (c_pageCount c) = (lo, hi)" by fastforce
  obtain m c1 where m: "writeMetaExtent (marshalDirectory (bslice lo hi (c_dir c)) (c_authenticated c)) False s domainDirectory c = (m, c1)"
    by fastforce
  note md = writeMetaExtent_dir [OF m]
  show ?case
  proof (cases "s \<notin> c_dirtySegs c \<and> s < length idx")
    case True then show ?thesis using "2.IH"(1) "2.prems" by simp
  next
    case d: False
    show ?thesis
    proof (cases "allSparse (bslice lo hi (c_dir c))")
      case True then show ?thesis using "2.IH"(2) [OF d b [symmetric] refl refl] "2.prems" d b by simp
    next
      case False
      show ?thesis
      proof (cases m)
        case (Inl e) then show ?thesis using "2.prems" d b False m md by simp
      next
        case (Inr x)
        then show ?thesis using "2.IH"(3) [OF d b [symmetric] refl refl False m [symmetric] Inr] "2.prems" d b False m md by simp
      qed
    qed
  qed
qed simp

lemma writeDirectory_dir: "writeDirectory c = (r, c') \<Longrightarrow> c_dir c' = c_dir (padDir c)"
  by (auto simp: writeDirectory_def Let_def split: if_splits sum.splits prod.splits dest!: write_segments_dir writeMetaExtent_dir)

lemma commit_dir_sum:
  assumes "commit c = (r, c')"
  shows "dir_sum c' = dir_sum c"
proof -
  have "c_dir c' = c_dir (padDir c)" using assms
  proof (cases rule: commit_cases)
    case (finish m rel c1 bk sb bk2 bk3)
    then show ?thesis using finish_commit_state [of m rel "c1\<lparr>c_back := bk3\<rparr>"] writeDirectory_dir [OF finish(1)]
      by (simp add: committed_state_def)
  qed (use writeDirectory_dir in auto)
  then show ?thesis by (simp add: dir_sum_def padDir_def sparseEntry_def)
qed

lemma trimLocked_dir: "trimLocked mb c = (r, c') \<Longrightarrow> c_dir c' = c_dir c"
  by (auto simp: trimLocked_def Let_def split: if_splits prod.splits option.splits)

lemma compact_round_less:
  assumes "compact_round c = ((moved, rec, err, rerr), c')" "moved \<noteq> 0"
  shows "dir_sum c' < dir_sum c"
proof -
  obtain r c1 where b: "relocateBatch relocateBatchBlocks c = ((moved, r), c1)"
    using assms by (auto simp: compact_round_def split: prod.splits if_splits option.splits)
  then have l: "dir_sum c1 < dir_sum c"
    using relocate_loop_sum [OF candidates_ok, of _ _ _ c] assms(2) unfolding relocateBatch_def by fastforce
  obtain x c2 where cm: "commit c1 = (x, c2)" by fastforce
  have "c_dir c' = c_dir c2" using assms b cm
    by (auto simp: compact_round_def dest!: trimLocked_dir split: prod.splits if_splits option.splits)
  then show ?thesis using l commit_dir_sum [OF cm] by (simp add: dir_sum_def)
qed

lemma compact_round_le:
  assumes "compact_round c = ((moved, rec, err, rerr), c')"
  shows "dir_sum c' \<le> dir_sum c"
proof (cases "moved = 0")
  case True
  then have "relocateBatch relocateBatchBlocks c = ((0, rerr), c')"
    using assms by (auto simp: compact_round_def split: prod.splits if_splits option.splits)
  then show ?thesis using relocate_loop_sum [OF candidates_ok] unfolding relocateBatch_def by blast
next
  case False then show ?thesis using compact_round_less [OF assms] by simp
qed

text \<open>The loop. Every round that goes on has moved a slot down.\<close>

function compactOnline :: "int \<Rightarrow> int \<Rightarrow> container \<Rightarrow> (int \<times> verror option) \<times> int list \<times> container" where
  "compactOnline maxBytes reclaimed c =
     (if c_readOnly c then ((reclaimed, Some ErrReadOnly), [], c)
      else if c_readOnlyRecipient c then ((reclaimed, Some ErrReadOnlyRecipient), [], c)
      else if c_dirty c then ((reclaimed, None), [], c)
      else case compact_round c of
        ((moved, rec, err, rerr), c') \<Rightarrow>
          if err \<noteq> None then ((reclaimed, err), [], c')
          else let total = reclaimed + rec; report = (if 0 < moved then [total] else [])
            in if rerr \<noteq> None then ((total, rerr), report, c')
               else if moved = 0 then ((total, None), report, c')
               else if 0 < maxBytes \<and> maxBytes \<le> total then ((total, None), report, c')
               else case compactOnline maxBytes total c' of (res, reports, c'') \<Rightarrow> (res, report @ reports, c''))"
  by pat_completeness auto

termination compactOnline
  by (relation "measure (\<lambda>(mb, rc, c). dir_sum c)") (auto dest: compact_round_less [OF sym])

declare compactOnline.simps [simp del]

section \<open>The file is kept\<close>

text \<open>Replacing the backing bytes under a container, when every slot still lies inside and reads as before.\<close>

lemma slots_step:
  assumes inv: "container_inv c leak"
    and slots: "\<And>q n. q < length (c_dir c) \<Longrightarrow> de_physOffset (c_dir c ! q) \<noteq> 0 \<Longrightarrow> n \<le> de_blocks (c_dir c ! q) * c_blockSize c \<Longrightarrow>
      ReadAt n (de_physOffset (c_dir c ! q)) bk = ReadAt n (de_physOffset (c_dir c ! q)) (c_back c)"
    and inside: "\<And>q. q < length (c_dir c) \<Longrightarrow> de_physOffset (c_dir c ! q) \<noteq> 0 \<Longrightarrow>
      de_physOffset (c_dir c ! q) + de_blocks (c_dir c ! q) * c_blockSize c \<le> length (bk_data bk)"
    and rf: "bk_rfail bk = bk_rfail (c_back c)"
  shows "container_inv (c\<lparr>c_back := bk\<rparr>) leak \<and> pages_kept c (c\<lparr>c_back := bk\<rparr>)"
proof -
  let ?c = "c\<lparr>c_back := bk\<rparr>"
  have h: "held ?c = held c" by (simp add: held_def index_bag_def pending_bag_def)
  have wf: "slot_wf c e" if "e \<in> set (c_dir c)" for e using inv that by (simp add: container_inv_def)
  then have "slot_wf ?c e" if "e \<in> set (c_dir c)" for e
    using that inside by (auto simp: slot_wf_def in_set_conv_nth)
  then have "container_inv ?c leak" using inv by (auto simp: container_inv_def geometry_ok_def h)
  moreover have "loadPageInto z ?c dst q = loadPageInto z c dst q" for z dst q
  proof (cases "q < length (c_dir c) \<and> de_physOffset (c_dir c ! q) \<noteq> 0")
    case True
    let ?e = "c_dir c ! q"
    have "de_storedLen ?e \<le> de_blocks ?e * c_blockSize c" using wf [of ?e] True by (auto simp: slot_wf_def)
    then have "load_stored ?c q ?e = load_stored c q ?e" using slots True by (intro load_stored_cong) simp_all
    then show ?thesis by (simp add: loadPageInto_def Let_def)
  qed (auto simp: loadPageInto_def)
  ultimately show ?thesis using rf by (simp add: pages_kept_def readable_def)
qed

lemma slot_facts:
  assumes "container_inv c leak" "q < length (c_dir c)" "de_physOffset (c_dir c ! q) \<noteq> 0"
  shows "c_blockSize c dvd de_physOffset (c_dir c ! q)" "0 < de_blocks (c_dir c ! q)" "0 < c_blockSize c"
    "de_storedLen (c_dir c ! q) \<le> de_blocks (c_dir c ! q) * c_blockSize c"
    "de_physOffset (c_dir c ! q) + de_blocks (c_dir c ! q) * c_blockSize c \<le> length (bk_data (c_back c))"
proof -
  have "slot_wf c (c_dir c ! q)" "geometry_ok c" using assms(1,2) by (auto simp: container_inv_def)
  then show "c_blockSize c dvd de_physOffset (c_dir c ! q)" "0 < de_blocks (c_dir c ! q)" "0 < c_blockSize c"
    "de_storedLen (c_dir c ! q) \<le> de_blocks (c_dir c ! q) * c_blockSize c"
    "de_physOffset (c_dir c ! q) + de_blocks (c_dir c ! q) * c_blockSize c \<le> length (bk_data (c_back c))"
    using assms(3) by (auto simp: slot_wf_def geometry_ok_def)
qed

text \<open>A slot and a reserved or free run share no bytes.\<close>

lemma slot_apart:
  assumes inv: "container_inv c leak" and q: "q < length (c_dir c)" "de_physOffset (c_dir c ! q) \<noteq> 0"
    and run: "region s (s + n) \<subseteq># leak + free_bag (c_alloc c)" "0 < n"
  shows "de_physOffset (c_dir c ! q) + de_blocks (c_dir c ! q) * c_blockSize c \<le> s * c_blockSize c \<or>
    (s + n) * c_blockSize c \<le> de_physOffset (c_dir c ! q)"
proof -
  let ?e = "c_dir c ! q" and ?bs = "c_blockSize c"
  let ?b = "de_physOffset (c_dir c ! q) div c_blockSize c"
  note f = slot_facts [OF inv q]
  have "region ?b (?b + de_blocks ?e) + region s (s + n) \<subseteq># held c + (leak + free_bag (c_alloc c))"
    using slot_in_held [OF q] run(1) by (rule subset_mset.add_mono)
  then have "region ?b (?b + de_blocks ?e) + region s (s + n) \<subseteq># region superblockBlocks (al_highWater (c_alloc c))"
    using inv by (auto simp: container_inv_def add.assoc intro: subset_mset.order_trans)
  then have "?b + de_blocks ?e \<le> s \<or> s + n \<le> ?b" using f(2) run(2) by (intro disjoint_regions) auto
  then have "(?b + de_blocks ?e) * ?bs \<le> s * ?bs \<or> (s + n) * ?bs \<le> ?b * ?bs" by (meson mult_le_mono1)
  then show ?thesis using f(1) by (simp add: add_mult_distrib)
qed

lemma reserved_write:
  assumes inv: "container_inv c (leak + region s (s + n))" and n: "0 < n"
    and w: "WriteAt buf (s * c_blockSize c) (c_back c) = (r, bk)" "length buf = n * c_blockSize c"
  shows "container_inv (c\<lparr>c_back := bk\<rparr>) (leak + region s (s + n)) \<and> pages_kept c (c\<lparr>c_back := bk\<rparr>)"
proof (rule slots_step [OF inv])
  have g: "length (bk_data (c_back c)) \<le> length (bk_data bk)" by (rule file_store.wr_grows [OF w(1)])
  fix q assume q: "q < length (c_dir c)" "de_physOffset (c_dir c ! q) \<noteq> 0"
  note f = slot_facts [OF inv q]
  show "de_physOffset (c_dir c ! q) + de_blocks (c_dir c ! q) * c_blockSize c \<le> length (bk_data bk)" using f(5) g by simp
  have sub: "region s (s + n) \<subseteq># (leak + region s (s + n)) + free_bag (c_alloc c)" by (simp add: add.assoc)
  show "ReadAt m (de_physOffset (c_dir c ! q)) bk = ReadAt m (de_physOffset (c_dir c ! q)) (c_back c)"
    if "m \<le> de_blocks (c_dir c ! q) * c_blockSize c" for m
    using slot_apart [OF inv q sub n] that f(5) w(2) by (intro file_store.rd_other [OF w(1)]) (auto simp: add_mult_distrib)
qed (use w(1) in \<open>auto simp: WriteAt_def split: option.splits\<close>)

definition compact_frame :: "container \<Rightarrow> container \<Rightarrow> bool" where
  "compact_frame c c' \<longleftrightarrow> pages_kept c c' \<and> c_pageCount c' = c_pageCount c \<and> c_nextSlot c' = c_nextSlot c \<and>
     c_blockSize c' = c_blockSize c \<and> c_segEntries c' = c_segEntries c \<and> length (c_dir c') = length (c_dir c)"

lemma compact_frame_refl [simp]: "compact_frame c c"
  by (simp add: compact_frame_def)

lemma compact_frame_trans: "compact_frame c c' \<Longrightarrow> compact_frame c' c'' \<Longrightarrow> compact_frame c c''"
  using pages_kept_trans by (auto simp: compact_frame_def)

lemma moveSlot_putEntry:
  assumes "p < length (c_dir c)" "de_physOffset (c_dir c ! p) \<noteq> 0"
    and "ReadAt (de_blocks (c_dir c ! p) * c_blockSize c) (de_physOffset (c_dir c ! p)) (c_back c) = Inr buf"
    and "WriteAt buf o' (c_back c) = (None, bk)"
  shows "moveSlot p o' c = (None, (putEntry p ((c_dir c ! p)\<lparr>de_physOffset := o'\<rparr>) (c\<lparr>c_back := bk\<rparr>))\<lparr>c_dirty := True\<rparr>)"
  using assms by (simp add: moveSlot_def putEntry_def growDir_def Let_def)

lemma dirty_irrelevant:
  "container_inv (c\<lparr>c_dirty := d\<rparr>) leak = container_inv c leak" "pages_kept c' (c\<lparr>c_dirty := d\<rparr>) = pages_kept c' c"
proof -
  show "container_inv (c\<lparr>c_dirty := d\<rparr>) leak = container_inv c leak" by (rule same_store(2)) simp_all
  have "loadPageInto z (c\<lparr>c_dirty := d\<rparr>) dst q = loadPageInto z c dst q" for z dst q
    using load_stored_cong [of "c\<lparr>c_dirty := d\<rparr>" c] by (simp add: loadPageInto_def Let_def)
  then show "pages_kept c' (c\<lparr>c_dirty := d\<rparr>) = pages_kept c' c" by (simp add: pages_kept_def readable_def)
qed

lemma leak_above:
  assumes "container_inv c (leak + region s (s + n))" "0 < n"
  shows "superblockBlocks \<le> s"
proof -
  have "s \<in># region s (s + n)" using assms(2) by simp
  then have "s \<in># held c + (leak + region s (s + n)) + free_bag (c_alloc c)" by (simp only: union_iff simp_thms)
  moreover have "held c + (leak + region s (s + n)) + free_bag (c_alloc c) \<subseteq># region superblockBlocks (al_highWater (c_alloc c))"
    using assms(1) by (simp add: container_inv_def)
  ultimately have "s \<in># region superblockBlocks (al_highWater (c_alloc c))" by (rule mset_subset_eqD [rotated])
  then show ?thesis by simp
qed

lemma moveSlot_ok:
  assumes inv: "container_inv c (leak + region s (s + n))" and rd: "readable c"
    and p: "p < length (c_dir c)" "de_physOffset (c_dir c ! p) \<noteq> 0" "de_blocks (c_dir c ! p) = n"
    and m: "moveSlot p (s * c_blockSize c) c = (r, c')"
  shows "compact_frame c c' \<and> container_inv c' (if r = None then leak else leak + region s (s + n))"
proof -
  let ?e = "c_dir c ! p" and ?bs = "c_blockSize c" and ?o = "s * c_blockSize c"
  note f = slot_facts [OF inv p(1,2)]
  define buf where "buf = bslice (de_physOffset ?e) (de_physOffset ?e + n * ?bs) (bk_data (c_back c))"
  have n: "0 < n" using f(2) p(3) by simp
  have len: "length buf = n * ?bs" using f p(3) n by (simp add: buf_def)
  then have ne: "buf \<noteq> []" using n f(3) by auto
  have rb: "ReadAt (n * ?bs) (de_physOffset ?e) (c_back c) = Inr buf" using rd f(5) p(3) by (simp add: ReadAt_def readable_def buf_def)
  obtain w bk where w: "WriteAt buf ?o (c_back c) = (w, bk)" by fastforce
  let ?c1 = "c\<lparr>c_back := bk\<rparr>" and ?e' = "?e\<lparr>de_physOffset := ?o\<rparr>"
  have rw: "container_inv ?c1 (leak + region s (s + n))" "pages_kept c ?c1" using reserved_write [OF inv n w len] by auto
  show ?thesis
  proof (cases w)
    case (Some e)
    then have "r \<noteq> None" "c' = ?c1" using m rb w p(3) by (auto simp: moveSlot_def Let_def)
    then show ?thesis using rw by (auto simp: compact_frame_def)
  next
    case None
    then have w': "WriteAt buf ?o (c_back c) = (None, bk)" using w by simp
    have c': "r = None" "c' = (putEntry p ?e' ?c1)\<lparr>c_dirty := True\<rparr>"
      using m moveSlot_putEntry [OF p(1,2) _ w'] rb p(3) by auto
    have o0: "?o \<noteq> 0" "?o div ?bs = s" using leak_above [OF inv n] f(3) by (auto simp: superblockBlocks_def)
    have eb: "entry_bag ?bs ?e' = region s (s + n)" using o0 p(3) by (simp add: entry_bag_def)
    have "length (bk_data bk) = max (length (bk_data (c_back c))) (?o + length buf)" by (rule file_store.wr_size [OF w' ne])
    then have "slot_wf ?c1 ?e'" using f p(3) len by (simp add: slot_wf_def)
    moreover have "container_inv ?c1 leak" by (rule container_inv_less [OF rw(1)])
    moreover have "held ?c1 + region s (s + n) + leak + free_bag (c_alloc ?c1) \<subseteq># region superblockBlocks (al_highWater (c_alloc ?c1))"
      using rw(1) by (simp add: container_inv_def add_ac)
    ultimately have "container_inv (putEntry p ?e' ?c1) leak" using eb by (intro putEntry_inv) simp_all
    moreover have "loadPageInto z (putEntry p ?e' ?c1) dst q = loadPageInto z c dst q" for z dst q
    proof (cases "q = p")
      case False then show ?thesis using putEntry_load_other [OF False] rw(2) by (simp add: pages_kept_def)
    next
      case True
      have "ReadAt m ?o bk = ReadAt m (de_physOffset ?e) (c_back c)" if "m \<le> n * ?bs" for m
        using file_store.rd_written_prefix [OF w' ne] file_store.rd_prefix [OF rb] that len rd by (simp add: readable_def)
      then have "load_stored ?c1 p ?e' = load_stored c p ?e"
        using f(4) p(3) by (cases "c_cipher c") (auto simp: load_stored_def split: sum.split option.split)
      then show ?thesis unfolding True putEntry_load_same using p o0 by (auto simp: loadPageInto_def Let_def split: sum.split)
    qed
    then have "pages_kept c (putEntry p ?e' ?c1)" using rw(2) by (simp add: pages_kept_def readable_def)
    moreover have "c_nextSlot (putEntry p ?e' ?c1) = c_nextSlot c"
      by (simp add: putEntry_def growDir_def releaseLater_def markSegmentDirty_def Let_def)
    moreover have "length (c_dir (putEntry p ?e' ?c1)) = length (c_dir c)" using p(1) by (simp add: putEntry_dir grownDir_def)
    ultimately show ?thesis using c' by (simp add: compact_frame_def dirty_irrelevant)
  qed
qed

text \<open>Reserving a run for a move takes it from the free list; giving it back undoes that.\<close>

lemma reserve_inv:
  assumes inv: "container_inv c leak" and n: "0 < n" and fit: "lowestFitAbove n fl (c_alloc c) = Some s"
  obtains al where "allocAt s n (c_alloc c) = Inr al" "container_inv (c\<lparr>c_alloc := al\<rparr>) (leak + region s (s + n))"
    "al_highWater al = al_highWater (c_alloc c)"
proof -
  have "alloc_inv (c_alloc c)" using inv by (simp add: container_inv_def)
  from allocAt_step [OF this n fit] obtain al where al: "allocAt s n (c_alloc c) = Inr al" "alloc_inv al"
      "al_highWater al = al_highWater (c_alloc c)" "free_bag (c_alloc c) = region s (s + n) + free_bag al" by metis
  have h: "held (c\<lparr>c_alloc := al\<rparr>) = held c" by (simp add: held_def index_bag_def pending_bag_def)
  have "slot_wf (c\<lparr>c_alloc := al\<rparr>) = slot_wf c" by (intro ext) (simp add: slot_wf_def)
  then have "container_inv (c\<lparr>c_alloc := al\<rparr>) (leak + region s (s + n))"
    using inv al h by (simp add: container_inv_def geometry_ok_def add_ac)
  then show thesis using that al(1,3) by blast
qed

lemma unreserve_inv:
  assumes inv: "container_inv c (leak + region s (s + n))"
  shows "container_inv (c\<lparr>c_alloc := release s n (c_alloc c)\<rparr>) leak" "al_highWater (release s n (c_alloc c)) = al_highWater (c_alloc c)"
proof -
  let ?a = "c_alloc c"
  have b: "(held c + leak) + (region s (s + n) + free_bag ?a) \<subseteq># region superblockBlocks (al_highWater ?a)" and a: "alloc_inv ?a"
    using inv by (auto simp: container_inv_def add_ac)
  then have "region s (s + n) + free_bag ?a \<subseteq># region superblockBlocks (al_highWater ?a)"
    by (metis mset_subset_eq_add_right subset_mset.order_trans)
  note g = vault_alloc.give_ok [OF a this]
  have h: "held (c\<lparr>c_alloc := release s n ?a\<rparr>) = held c" by (simp add: held_def index_bag_def pending_bag_def)
  have "slot_wf (c\<lparr>c_alloc := release s n ?a\<rparr>) = slot_wf c" by (intro ext) (simp add: slot_wf_def)
  then show "container_inv (c\<lparr>c_alloc := release s n ?a\<rparr>) leak"
    using inv g b h by (simp add: container_inv_def geometry_ok_def add_ac)
  show "al_highWater (release s n ?a) = al_highWater ?a" using g by blast
qed

lemma frame_alloc: "compact_frame c (c'\<lparr>c_alloc := al\<rparr>) = compact_frame c c'" "compact_frame (c\<lparr>c_alloc := al\<rparr>) c' = compact_frame c c'"
proof -
  have "loadPageInto z (x\<lparr>c_alloc := al\<rparr>) dst q = loadPageInto z x dst q" for z x dst q
    using load_stored_cong [of "x\<lparr>c_alloc := al\<rparr>" x] by (simp add: loadPageInto_def Let_def)
  then show "compact_frame c (c'\<lparr>c_alloc := al\<rparr>) = compact_frame c c'" "compact_frame (c\<lparr>c_alloc := al\<rparr>) c' = compact_frame c c'"
    by (simp_all add: compact_frame_def pages_kept_def readable_def)
qed

lemma relocate_loop_ok:
  assumes "container_inv c leak" "readable c" "cands_of c cs" "relocate_loop maxB fl moved cs c = ((moved', r), c')"
  shows "container_inv c' leak \<and> compact_frame c c' \<and> al_highWater (c_alloc c') = al_highWater (c_alloc c)"
  using assms
proof (induction maxB fl moved cs c rule: relocate_loop.induct)
  case (2 maxB fl moved page off n cs c)
  have tl: "cands_of c cs" by (rule cands_of_tail [OF "2.prems"(3)]) simp
  have p: "page < length (c_dir c)" "de_physOffset (c_dir c ! page) \<noteq> 0" "de_blocks (c_dir c ! page) = n"
    using "2.prems"(3) by (auto simp: cands_of_def)
  have n: "0 < n" using slot_facts(2) [OF "2.prems"(1) p(1,2)] p(3) by simp
  show ?case
  proof (cases "maxB \<le> moved")
    case True then show ?thesis using "2.prems" by simp
  next
    case nb: False
    show ?thesis
    proof (cases "lowestFitAbove n fl (c_alloc c)")
      case None then show ?thesis using "2.IH"(1) [OF nb None "2.prems"(1,2) tl] "2.prems"(4) nb by simp
    next
      case (Some s)
      show ?thesis
      proof (cases "off \<le> s * c_blockSize c")
        case True then show ?thesis using "2.IH"(2) [OF nb Some True "2.prems"(1,2) tl] "2.prems"(4) nb Some by simp
      next
        case lt: False
        obtain al where al: "allocAt s n (c_alloc c) = Inr al" "container_inv (c\<lparr>c_alloc := al\<rparr>) (leak + region s (s + n))"
            "al_highWater al = al_highWater (c_alloc c)"
          by (rule reserve_inv [OF "2.prems"(1) n Some])
        obtain r1 c1 where m: "moveSlot page (s * c_blockSize c) (c\<lparr>c_alloc := al\<rparr>) = (r1, c1)" by fastforce
        have hw: "al_highWater (c_alloc c1) = al_highWater (c_alloc c)" using moveSlot_dir [OF m] al(3) by simp
        have mk: "compact_frame c c1" "container_inv c1 (if r1 = None then leak else leak + region s (s + n))"
          using moveSlot_ok [OF al(2) _ _ _ _ , of page r1 c1] "2.prems"(2) p m by (auto simp: readable_def frame_alloc)
        show ?thesis
        proof (cases r1)
          case (Some e)
          then have "c' = c1\<lparr>c_alloc := release s n (c_alloc c1)\<rparr>"
            using "2.prems"(4) nb \<open>lowestFitAbove n fl (c_alloc c) = Some s\<close> lt al(1) m by simp
          then show ?thesis using mk unreserve_inv [of c1 leak s n] Some hw by (simp add: frame_alloc)
        next
          case r1: None
          have "cands_of c1 cs" using moveSlot_dir [OF m] r1 by (intro cands_of_tail [OF "2.prems"(3)]) auto
          moreover have "readable c1" using mk(1) "2.prems"(2) by (simp add: compact_frame_def pages_kept_def)
          moreover have "relocate_loop maxB fl (moved + n) cs c1 = ((moved', r), c')"
            using "2.prems"(4) nb Some lt al(1) m r1 by simp
          ultimately have "container_inv c' leak \<and> compact_frame c1 c' \<and> al_highWater (c_alloc c') = al_highWater (c_alloc c1)"
            using "2.IH"(3) [OF nb Some lt al(1) m [symmetric] r1] mk(2) r1 by simp
          then show ?thesis using compact_frame_trans [OF mk(1)] hw by auto
        qed
      qed
    qed
  qed
qed simp

section \<open>Trimming the tail\<close>

lemma free_chain_init: "free_chain lo (es @ [e]) hi \<Longrightarrow> free_chain lo es (ex_start e) \<and> lo \<le> ex_start e"
proof (induction es arbitrary: lo)
  case (Cons x es)
  then have "free_chain (Suc (ex_start x + ex_count x)) es (ex_start e) \<and> Suc (ex_start x + ex_count x) \<le> ex_start e" by simp
  then show ?case using Cons.prems by auto
qed simp

lemma free_chain_snoc: "free_chain lo es (ex_start e) \<Longrightarrow> lo \<le> ex_start e \<Longrightarrow> (\<forall>x\<in>set es. ex_start x + ex_count x < ex_start e) \<Longrightarrow>
    0 < ex_count e \<Longrightarrow> ex_start e + ex_count e \<le> hi \<Longrightarrow> free_chain lo (es @ [e]) hi"
proof (induction es arbitrary: lo)
  case (Cons x es)
  then have "free_chain (Suc (ex_start x + ex_count x)) (es @ [e]) hi" by (intro Cons.IH) auto
  then show ?case using Cons.prems by auto
qed simp

lemma free_chain_gap: "free_chain lo (es @ [e]) hi \<Longrightarrow> x \<in> set es \<Longrightarrow> ex_start x + ex_count x < ex_start e"
proof (induction es arbitrary: lo)
  case (Cons y es)
  then show ?case using free_chain_init [of "Suc (ex_start y + ex_count y)" es e hi] by auto
qed simp

lemma shrunk_ok:
  assumes inv: "alloc_inv a" and ne: "al_free a \<noteq> []"
    and tl: "ex_start (last (al_free a)) + ex_count (last (al_free a)) = al_highWater a"
    and rel: "0 < rel" "rel \<le> ex_count (last (al_free a))"
  shows "alloc_inv (shrunk a rel) \<and> al_highWater (shrunk a rel) + rel = al_highWater a \<and>
    free_bag a = free_bag (shrunk a rel) + region (al_highWater a - rel) (al_highWater a)"
proof -
  obtain es e where f: "al_free a = es @ [e]" using ne by (metis append_butlast_last_id)
  have le: "last (al_free a) = e" "butlast (al_free a) = es" using f by simp_all
  have ch: "free_chain superblockBlocks (es @ [e]) (al_highWater a)" "al_highWater a < 2 ^ 64" using inv f by (auto simp: alloc_inv_def)
  note fi = free_chain_init [OF ch(1)]
  have e: "ex_start e + ex_count e = al_highWater a" "rel \<le> ex_count e" using tl rel(2) le by auto
  have hw: "ex_start e \<le> al_highWater a - rel" using e by linarith
  let ?e = "e\<lparr>ex_count := ex_count e - rel\<rparr>"
  have inv': "alloc_inv (shrunk a rel)"
  proof (cases "rel = ex_count e")
    case True
    then show ?thesis using fi ch e free_chain_hi [of superblockBlocks es "ex_start e"] by (auto simp: shrunk_def le alloc_inv_def Let_def)
  next
    case False
    have "free_chain superblockBlocks (es @ [?e]) (al_highWater a - rel)"
      using fi free_chain_gap [OF ch(1)] False e by (intro free_chain_snoc) auto
    then show ?thesis using False fi ch hw by (auto simp: shrunk_def le alloc_inv_def Let_def)
  qed
  have "free_bag a = run_bag (map ex_run es) + region (ex_start e) (al_highWater a)"
    using f e(1) by (simp add: free_bag_def)
  also have "region (ex_start e) (al_highWater a) = region (ex_start e) (al_highWater a - rel) + region (al_highWater a - rel) (al_highWater a)"
    using hw by (intro region_split) simp_all
  also have "run_bag (map ex_run es) + (region (ex_start e) (al_highWater a - rel) + region (al_highWater a - rel) (al_highWater a))
      = free_bag (shrunk a rel) + region (al_highWater a - rel) (al_highWater a)"
    using e hw by (auto simp: shrunk_def le free_bag_def Let_def add.assoc)
  finally show ?thesis using inv' e by (simp add: shrunk_def Let_def)
qed

lemma ReadAt_truncate:
  assumes "Truncate n b = (None, b')" "i + m \<le> n" "i + m \<le> length (bk_data b)"
  shows "ReadAt m i b' = ReadAt m i b"
proof -
  have "bk_data b' = file_truncate n (bk_data b)" "bk_rfail b' = bk_rfail b" using assms(1) by (auto simp: Truncate_def split: option.splits)
  moreover have "bslice i (i + m) (file_truncate n (bk_data b)) = bslice i (i + m) (bk_data b)"
    using assms(2,3) by (simp add: file_truncate_def slice_append_left slice_take)
  ultimately show ?thesis using assms(2,3) by (auto simp: ReadAt_def file_truncate_def min_def)
qed

lemma slot_below:
  assumes inv: "container_inv c leak" and q: "q < length (c_dir c)" "de_physOffset (c_dir c ! q) \<noteq> 0"
    and fr: "region (h - k) h \<subseteq># free_bag (c_alloc c)" "0 < k" "k \<le> h" "h = al_highWater (c_alloc c)"
  shows "de_physOffset (c_dir c ! q) + de_blocks (c_dir c ! q) * c_blockSize c \<le> (h - k) * c_blockSize c"
proof -
  let ?e = "c_dir c ! q" and ?bs = "c_blockSize c"
  let ?b = "de_physOffset (c_dir c ! q) div c_blockSize c"
  note f = slot_facts [OF inv q]
  have "region (h - k) (h - k + k) \<subseteq># leak + free_bag (c_alloc c)" using fr(1,3) by (simp add: subset_mset.add_increasing)
  then have ap: "de_physOffset ?e + de_blocks ?e * ?bs \<le> (h - k) * ?bs \<or> (h - k + k) * ?bs \<le> de_physOffset ?e"
    by (rule slot_apart [OF inv q]) (rule fr(2))
  have "?b \<in># held c" by (rule mset_subset_eqD [OF slot_in_held [OF q]]) (use f(2) in simp)
  then have "?b \<in># held c + leak + free_bag (c_alloc c)" by (simp only: union_iff simp_thms)
  moreover have "held c + leak + free_bag (c_alloc c) \<subseteq># region superblockBlocks h" using inv fr(4) by (simp add: container_inv_def)
  ultimately have "?b \<in># region superblockBlocks h" by (rule mset_subset_eqD [rotated])
  then have "?b < h" by simp
  then have "?b * ?bs < h * ?bs" using f(3) by simp
  then have "de_physOffset ?e < h * ?bs" using f(1) by simp
  then show ?thesis using ap fr(3) by simp
qed

lemma trimLocked_cases:
  assumes "trimLocked mb c = ((n, r), c')"
  obtains (idle) "n = 0" "r = None" "c' = c"
    | (failed) e bk k where "n = 0" "r = Some e" "c' = c\<lparr>c_back := bk\<rparr>" "Truncate k (c_back c) = (Some e, bk)"
    | (cut) rel bk where "al_free (c_alloc c) \<noteq> []"
        "add64 (ex_start (last (al_free (c_alloc c)))) (ex_count (last (al_free (c_alloc c)))) = al_highWater (c_alloc c)"
        "0 < rel" "rel \<le> ex_count (last (al_free (c_alloc c)))" "0 < mb \<Longrightarrow> rel \<le> nat mb div c_blockSize c"
        "n = int (rel * c_blockSize c)" "r = None"
        "Truncate ((al_highWater (c_alloc c) - rel) * c_blockSize c) (c_back c) = (None, bk)"
        "c' = c\<lparr>c_back := bk, c_alloc := shrunk (c_alloc c) rel\<rparr>"
proof -
  let ?a = "c_alloc c" and ?l = "last (al_free (c_alloc c))"
  define rel where "rel = trim_blocks mb c"
  have le: "rel \<le> ex_count ?l" "0 < mb \<Longrightarrow> rel \<le> nat mb div c_blockSize c" by (auto simp: rel_def trim_blocks_def Let_def)
  note t = assms [unfolded trimLocked_def Let_def rel_def [symmetric]]
  show thesis
  proof (cases "al_free ?a = [] \<or> add64 (ex_start ?l) (ex_count ?l) \<noteq> al_highWater ?a \<or> rel = 0")
    case True
    then have "n = 0 \<and> r = None \<and> c' = c" using t by auto
    then show thesis using idle by blast
  next
    case False
    obtain x bk where tr: "Truncate ((al_highWater ?a - rel) * c_blockSize c) (c_back c) = (x, bk)" by fastforce
    show thesis
    proof (cases x)
      case (Some e)
      then show thesis using t failed [of e bk] tr False by simp
    next
      case None
      then have "n = int (rel * c_blockSize c)" "r = None" "c' = c\<lparr>c_back := bk, c_alloc := shrunk ?a rel\<rparr>"
        using t tr False by auto
      then show thesis using cut [of rel bk] tr None False le by auto
    qed
  qed
qed

lemma Truncate_failed: "Truncate k b = (Some e, b') \<Longrightarrow> bk_data b' = bk_data b \<and> bk_rfail b' = bk_rfail b"
  by (auto simp: Truncate_def split: option.splits)

lemma trimLocked_ok:
  assumes inv: "container_inv c leak" and t: "trimLocked mb c = ((n, r), c')"
  shows "container_inv c' leak \<and> compact_frame c c' \<and>
    (n \<noteq> 0 \<longrightarrow> 0 < n \<and> (0 < mb \<longrightarrow> n \<le> mb) \<and> r = None \<and> length (bk_data (c_back c')) = al_highWater (c_alloc c') * c_blockSize c \<and>
       int (al_highWater (c_alloc c') * c_blockSize c) + n = int (al_highWater (c_alloc c) * c_blockSize c))"
  using t
proof (cases rule: trimLocked_cases)
  case idle then show ?thesis using inv by simp
next
  case (failed e bk k)
  have "container_inv c' leak \<and> pages_kept c c'" unfolding failed(3)
    by (rule slots_step [OF inv]) (use Truncate_failed [OF failed(4)] slot_facts(5) [OF inv] in \<open>auto simp: ReadAt_def\<close>)
  then show ?thesis using failed by (simp add: compact_frame_def)
next
  case (cut rel bk)
  let ?a = "c_alloc c" and ?bs = "c_blockSize c"
  let ?l = "last (al_free (c_alloc c))" and ?h = "al_highWater (c_alloc c)"
  have ai: "alloc_inv ?a" using inv by (simp add: container_inv_def)
  have bs: "0 < ?bs" using inv by (simp add: container_inv_def geometry_ok_def)
  have "?l \<in> set (al_free ?a)" using cut(1) by simp
  then have "ex_start ?l + ex_count ?l \<le> ?h" "?h < 2 ^ 64"
    using ai free_chain_bound [of superblockBlocks "al_free ?a" ?h ?l] by (auto simp: alloc_inv_def)
  then have tl: "ex_start ?l + ex_count ?l = ?h" using cut(2) by (simp add: add64_exact)
  note sh = shrunk_ok [OF ai cut(1) tl cut(3,4)]
  have h: "rel \<le> ?h" "al_highWater (shrunk ?a rel) = ?h - rel" using sh by auto
  have fr: "region (?h - rel) ?h \<subseteq># free_bag ?a" using sh by simp
  have len: "length (bk_data bk) = (?h - rel) * ?bs" "bk_rfail bk = bk_rfail (c_back c)"
    using cut(8) by (auto simp: Truncate_def file_truncate_def split: option.splits)
  note sb = slot_below [OF inv _ _ fr cut(3) h(1) refl]
  have st: "container_inv (c\<lparr>c_back := bk\<rparr>) leak \<and> pages_kept c (c\<lparr>c_back := bk\<rparr>)"
  proof (rule slots_step [OF inv])
    fix q m assume q: "q < length (c_dir c)" "de_physOffset (c_dir c ! q) \<noteq> 0" "m \<le> de_blocks (c_dir c ! q) * c_blockSize c"
    show "ReadAt m (de_physOffset (c_dir c ! q)) bk = ReadAt m (de_physOffset (c_dir c ! q)) (c_back c)"
      using sb [OF q(1,2)] q(3) slot_facts(5) [OF inv q(1,2)] by (intro ReadAt_truncate [OF cut(8)]) auto
  qed (use sb len in auto)
  let ?c = "c\<lparr>c_back := bk\<rparr>"
  have "held ?c + leak + free_bag (shrunk ?a rel) + region (?h - rel) ?h \<subseteq># region superblockBlocks (?h - rel) + region (?h - rel) ?h"
  proof -
    have "held ?c + leak + free_bag ?a \<subseteq># region superblockBlocks ?h" using st by (simp add: container_inv_def)
    moreover have "superblockBlocks \<le> ?h - rel" using sh h(2) by (simp add: alloc_inv_def)
    then have "region superblockBlocks ?h = region superblockBlocks (?h - rel) + region (?h - rel) ?h" by (intro region_split) simp_all
    ultimately show ?thesis using sh by (simp add: add.assoc)
  qed
  then have bag: "held ?c + leak + free_bag (shrunk ?a rel) \<subseteq># region superblockBlocks (?h - rel)" by (simp only: subset_mset.add_le_cancel_right)
  have hd: "held c' = held ?c" unfolding cut(9) by (simp add: held_def index_bag_def pending_bag_def)
  have "slot_wf c' = slot_wf ?c" unfolding cut(9) by (intro ext) (simp add: slot_wf_def)
  then have "container_inv c' leak" using st sh bag hd h unfolding cut(9) by (simp add: container_inv_def geometry_ok_def)
  moreover have "compact_frame c c'" unfolding cut(9) frame_alloc(1) using st by (simp add: compact_frame_def)
  moreover have "n \<le> mb" if "0 < mb"
  proof -
    have "rel * ?bs \<le> nat mb" using cut(5) [OF that] bs by (metis less_eq_div_iff_mult_less_eq)
    then show ?thesis using cut(6) that by (simp only: le_nat_iff less_imp_le)
  qed
  moreover have "int ((?h - rel) * ?bs) + n = int (?h * ?bs)" using h(1) cut(6) by (simp add: diff_mult_distrib)
  ultimately show ?thesis using len h cut bs by simp
qed

section \<open>A round and the loop\<close>

lemma commit_budget_frame: "compact_frame c c' \<Longrightarrow> commit_budget c' = commit_budget c"
  by (simp add: compact_frame_def commit_budget_def seg_budget_def)

lemma compact_round_ok:
  assumes inv: "container_inv c leak" "readable c" "room c (commit_budget c)" "c_pageCount c < 2 ^ 54" "c_nextSlot c \<le> 1"
    and r: "compact_round c = (res, c')"
  shows "container_inv c' leak \<and> pages_kept c c' \<and> c_pageCount c' = c_pageCount c \<and> c_nextSlot c' \<le> 1"
proof -
  obtain moved rerr c1 where b: "relocateBatch relocateBatchBlocks c = ((moved, rerr), c1)" by (metis surj_pair)
  have k: "container_inv c1 leak" "compact_frame c c1" "al_highWater (c_alloc c1) = al_highWater (c_alloc c)"
    using relocate_loop_ok [OF inv(1,2) candidates_ok] b unfolding relocateBatch_def by blast+
  show ?thesis
  proof (cases "moved = 0")
    case True then show ?thesis using r b k inv(5) by (auto simp: compact_round_def compact_frame_def)
  next
    case False
    obtain e c2 where cm: "commit c1 = (e, c2)" by fastforce
    have "room c1 (commit_budget c1)" using inv(3) k commit_budget_frame [OF k(2)] by (simp add: room_def)
    note cc = commit_correct [OF k(1) this _ _ cm]
    have c2: "container_inv c2 leak" "pages_kept c c2" "c_pageCount c2 = c_pageCount c" "e = None \<longrightarrow> c_nextSlot c2 \<le> 1"
      using cc k(2) inv(4,5) pages_kept_trans [of c c1 c2] by (auto simp: compact_frame_def)
    show ?thesis
    proof (cases e)
      case (Some x)
      then have "c' = c2" using r b cm False by (simp add: compact_round_def)
      moreover have "c_nextSlot c2 \<le> 1" using cm Some
      proof (cases rule: commit_cases)
        case (directory e')
        then show ?thesis using writeDirectory_step [of c1 leak "Inl e'" c2] k inv(3-5) commit_budget_frame [OF k(2)]
          by (simp add: room_def compact_frame_def dir_frame_def)
      next
        case (finish m rel c3 bk sb bk2 bk3)
        then show ?thesis using finish_commit_state [of m rel "c3\<lparr>c_back := bk3\<rparr>"] by (simp add: committed_state_def)
      qed (use writeDirectory_step [of c1 leak] k inv(3-5) commit_budget_frame [OF k(2)] in
          \<open>auto simp: room_def compact_frame_def dir_frame_def\<close>)
      ultimately show ?thesis using c2 by simp
    next
      case None
      obtain rec terr c3 where t: "trimLocked 0 c2 = ((rec, terr), c3)" by (metis surj_pair)
      have "c' = c3" using r b cm None False t by (simp add: compact_round_def)
      then show ?thesis using trimLocked_ok [OF c2(1) t] c2 None pages_kept_trans [of c c2 c3] by (auto simp: compact_frame_def)
    qed
  qed
qed

text \<open>The states a compaction passes through.\<close>

inductive compact_reach :: "container \<Rightarrow> container \<Rightarrow> bool" where
  start: "compact_reach c c"
| round: "compact_reach c c' \<Longrightarrow> compact_round c' = (res, c'') \<Longrightarrow> compact_reach c c''"

lemma compact_reach_prepend: "compact_reach c' d \<Longrightarrow> compact_round c = (res, c') \<Longrightarrow> compact_reach c d"
proof (induction rule: compact_reach.induct)
  case (start c')
  then show ?case using compact_reach.round [OF compact_reach.start] by blast
next
  case (round c' d res' d')
  then show ?case using compact_reach.round by blast
qed

lemma compactOnline_ok:
  assumes "container_inv c leak" "readable c" "c_pageCount c < 2 ^ 54" "c_nextSlot c \<le> 1"
    and "\<forall>d. compact_reach c d \<longrightarrow> room d (commit_budget d)" "compactOnline mb rc c = (res, reports, c')"
  shows "container_inv c' leak \<and> pages_kept c c' \<and> c_pageCount c' = c_pageCount c \<and> dir_sum c' \<le> dir_sum c"
  using assms
proof (induction mb rc c arbitrary: res reports rule: compactOnline.induct)
  case (1 mb rc c)
  show ?case
  proof (cases "c_readOnly c \<or> c_readOnlyRecipient c \<or> c_dirty c")
    case True
    then have "c' = c" using "1.prems"(6) by (subst (asm) compactOnline.simps) (auto split: if_splits)
    then show ?thesis using "1.prems"(1) by simp
  next
    case go: False
    obtain moved rec err rerr c1 where r: "compact_round c = ((moved, rec, err, rerr), c1)" by (metis surj_pair)
    have "room c (commit_budget c)" using "1.prems"(5) compact_reach.start by blast
    note k = compact_round_ok [OF "1.prems"(1,2) this "1.prems"(3,4) r]
    have ds: "dir_sum c1 \<le> dir_sum c" by (rule compact_round_le [OF r])
    show ?thesis
    proof (cases "c' = c1")
      case True then show ?thesis using k ds by simp
    next
      case False
      let ?t = "rc + rec"
      have more: "err = None" "rerr = None" "moved \<noteq> 0" "\<not> (0 < mb \<and> mb \<le> ?t)"
        using "1.prems"(6) go r False by (auto simp: compactOnline.simps [of mb rc c] Let_def split: if_splits)
      obtain res' reports' where l: "compactOnline mb ?t c1 = (res', reports', c')"
        using "1.prems"(6) go r more by (auto simp: compactOnline.simps [of mb rc c] Let_def split: if_splits prod.splits)
      have "\<forall>d. compact_reach c1 d \<longrightarrow> room d (commit_budget d)" using "1.prems"(5) compact_reach_prepend [OF _ r] by blast
      moreover have "readable c1" "c_pageCount c1 < 2 ^ 54" using k "1.prems"(2,3) by (auto simp: pages_kept_def)
      ultimately have "container_inv c' leak \<and> pages_kept c1 c' \<and> c_pageCount c' = c_pageCount c1 \<and> dir_sum c' \<le> dir_sum c1"
        using "1.IH" [of "(moved, rec, err, rerr)" c1 moved "(rec, err, rerr)" rec "(err, rerr)" err rerr ?t] go r more k l by simp
      then show ?thesis using k ds pages_kept_trans [of c c1 c'] by simp
    qed
  qed
qed

section \<open>Properties\<close>

text \<open>Trimming an open container returns exactly the reported number of bytes of free tail blocks to the file
  system, never more than asked for, and changes no byte of the database: every page reads as before, no live
  block is cut off, and the file ends at the new high-water mark.\<close>

theorem trim_preserves_file:
  assumes "container_inv c leak" "represents z c f" "trim maxBytes c = ((n, r), c')"
  shows "container_inv c' leak \<and> represents z c' f \<and> container_size c' = container_size c \<and>
    (n \<noteq> 0 \<longrightarrow> 0 < n \<and> (0 < maxBytes \<longrightarrow> n \<le> maxBytes) \<and> length (bk_data (c_back c')) = al_highWater (c_alloc c') * c_blockSize c \<and>
       int (al_highWater (c_alloc c') * c_blockSize c) + n = int (al_highWater (c_alloc c) * c_blockSize c))"
proof (cases "c_readOnly c \<or> c_readOnlyRecipient c")
  case True
  then have "n = 0" "c' = c" using assms(3) by (auto simp: trim_def split: if_splits)
  then show ?thesis using assms by simp
next
  case False
  then have t: "trimLocked maxBytes c = ((n, r), c')" using assms(3) by (simp add: trim_def)
  note k = trimLocked_ok [OF assms(1) t]
  then have "represents z c' f" using pages_kept_represents [of c c'] assms(2) by (simp add: compact_frame_def)
  then show ?thesis using k by (auto simp: container_size_def compact_frame_def pages_kept_def)
qed

text \<open>A container whose blocks 2 to 4 are free at the tail.\<close>

definition tailContainer :: container where
  "tailContainer = freshContainer\<lparr>c_alloc := \<lparr>al_free = [\<lparr>ex_start = 2, ex_count = 3\<rparr>], al_highWater = 5\<rparr>\<rparr>"

lemma tail_facts: "container_inv tailContainer {#}" "represents z tailContainer (\<lambda>_. 0)"
proof -
  show "container_inv tailContainer {#}"
    by (simp add: container_inv_def geometry_ok_def tailContainer_def freshContainer_def initContainer_def held_def dir_bag_def
      segs_bag_def index_bag_def pending_bag_def alloc_inv_def superblockBlocks_def free_bag_def)
  have "page_is z tailContainer q (replicate 1024 0)" for q by (simp add: page_is_def loadPageInto_def tailContainer_def fresh_facts)
  then show "represents z tailContainer (\<lambda>_. 0)"
    by (simp add: represents_def tailContainer_def fresh_facts file_page_def map_replicate_const)
qed

theorem trim_preserves_file_witness:
  "\<exists>c'. trim 0 tailContainer = ((1536, None), c') \<and> represents storeOnly c' (\<lambda>_. 0) \<and> length (bk_data (c_back c')) = al_highWater (c_alloc c') * 512"
proof -
  obtain c' where t: "trim 0 tailContainer = ((1536, None), c')"
    by (simp add: trim_def trimLocked_def trim_blocks_def tailContainer_def fresh_facts Let_def add64_def Truncate_def emptyBacking_def)
  from trim_preserves_file [OF tail_facts t, of storeOnly] t show ?thesis by (auto simp: tailContainer_def fresh_facts)
qed


lemma fresh_round: "compact_round freshContainer = ((0, 0, None, None), freshContainer)"
  by (simp add: compact_round_def relocateBatch_def candidates_def fresh_facts)

lemma fresh_reach:
  assumes "compact_reach c d"
  shows "c = freshContainer \<longrightarrow> d = freshContainer"
  using assms by induction (auto simp: fresh_round)


text \<open>C36: Compaction terminates: every round that asks for another one has moved at least one slot, and then the
  sum of the offsets of all slots is strictly smaller, even when the commit or the truncation of the round
  fails. No assumption on the container is needed.\<close>

theorem compact_round_progress:
  assumes "compact_round c = ((moved, rec, err, rerr), c')" "0 < moved"
  shows "dir_sum c' < dir_sum c"
  using compact_round_less [OF assms(1)] assms(2) by simp

text \<open>One page in block 10, with blocks 2 to 9 free.\<close>

definition holeContainer :: container where
  "holeContainer = freshContainer\<lparr>c_dir := [\<lparr>de_physOffset = 5120, de_storedLen = 512, de_blocks = 1, de_flags = 1, de_checksum = 0, de_hash = []\<rparr>],
     c_pageCount := 1, c_alloc := \<lparr>al_free = [\<lparr>ex_start = 2, ex_count = 8\<rparr>], al_highWater = 11\<rparr>,
     c_back := emptyBacking\<lparr>bk_data := replicate 5632 0\<rparr>\<rparr>"

lemma hole_moves: "fst (fst (compact_round holeContainer)) = 1"
proof -
  have f: "dirReserveFloor holeContainer = 4"
    by (simp add: dirReserveFloor_def holeContainer_def freshContainer_def initContainer_def add64_def sub64_def)
  have "fst (fst (relocateBatch relocateBatchBlocks holeContainer)) = 1"
    unfolding relocateBatch_def f
    by (simp add: candidates_def holeContainer_def freshContainer_def initContainer_def relocateBatchBlocks_def lowestFitAbove_def
        allocAt_def add64_def sub64_def moveSlot_def ReadAt_def WriteAt_def emptyBacking_def)
  then show ?thesis by (auto simp: compact_round_def split: prod.splits option.splits)
qed

theorem compact_round_progress_witness:
  "\<exists>moved rec err rerr c'. compact_round holeContainer = ((moved, rec, err, rerr), c') \<and> 0 < moved \<and> dir_sum c' < 5120"
proof -
  obtain moved rec err rerr c' where r: "compact_round holeContainer = ((moved, rec, err, rerr), c')" by (metis surj_pair)
  have "0 < moved" using hole_moves r by simp
  from compact_round_progress [OF r this] r this show ?thesis by (auto simp: dir_sum_def holeContainer_def)
qed

end
