(* ===== verification/Wrapped_Vfs.thy ===== *)
theory Wrapped_Vfs
  imports Unit_Cipher Shm
begin

text \<open>
  What the two wrapping VFSes, \<^verbatim>\<open>src/vfs/crypto\<close> and \<^verbatim>\<open>src/vfs/cksm\<close>, share: the VFS beneath, which is the
  system's or another registered one and reached only through its C method table (\<open>wmethods\<close>), what
  SQLite documents of such a VFS (\<open>wrapped_ok\<close>), the page sizes both accept, and the ways a call can end.

  Buffers are byte lists: a read is given the caller's buffer and returns its new contents. Offsets and
  sizes are the non-negative values SQLite passes; a transfer is at most a page of 65536 bytes and a
  rounded span at most two units more, so that the conversions to \<^verbatim>\<open>int32\<close> keep the value.
\<close>

record 'w wmethods =
  w_open :: "string option \<Rightarrow> nat \<Rightarrow> 32 word \<Rightarrow> 'w \<Rightarrow> rcode \<times> 'w"
  w_close :: "nat \<Rightarrow> 'w \<Rightarrow> rcode \<times> 'w"
  w_read :: "nat \<Rightarrow> bytes \<Rightarrow> nat \<Rightarrow> 'w \<Rightarrow> (rcode \<times> bytes) \<times> 'w"
  w_write :: "nat \<Rightarrow> bytes \<Rightarrow> nat \<Rightarrow> 'w \<Rightarrow> rcode \<times> 'w"

definition rc_short :: rcode where "rc_short = ioerr 2"
definition rc_ioerr :: rcode where "rc_ioerr = 10"
definition rc_ioerr_data :: rcode where "rc_ioerr_data = ioerr 32"
definition rc_internal :: rcode where "rc_internal = 2"

lemma rc_distinct [simp]:
  "rc_short \<noteq> rc_ok" "rc_ok \<noteq> rc_short" "rc_ioerr_data \<noteq> rc_ok" "rc_ok \<noteq> rc_ioerr_data"
  "rc_ioerr_data \<noteq> rc_short" "rc_short \<noteq> rc_ioerr_data"
  by (simp_all add: rc_short_def rc_ioerr_data_def ioerr_def rc_ok_def)

text \<open>The documented contract of \<^verbatim>\<open>xRead\<close> and \<^verbatim>\<open>xWrite\<close> for the contents of the open files: a read that
  reports success or a short read fills the buffer with the bytes of the file and zeros past its end, and
  it is short exactly when the file ends before the request; a write that reports success stores the
  bytes in that file. Nothing is promised of a call that ends with another code.\<close>

definition wrapped_ok :: "'w wmethods \<Rightarrow> ('w \<Rightarrow> nat \<Rightarrow> bytes) \<Rightarrow> bool" where
  "wrapped_ok W content \<longleftrightarrow>
     (\<forall>p buf off w. case w_read W p buf off w of ((rc, b), w') \<Rightarrow>
        content w' = content w \<and> (rc = rc_ok \<or> rc = rc_short \<longrightarrow>
          b = read_zeros (length buf) off (content w p) \<and>
          (rc = rc_ok) = (off + length buf \<le> length (content w p)))) \<and>
     (\<forall>p src off w. case w_write W p src off w of (rc, w') \<Rightarrow>
        rc = rc_ok \<longrightarrow> content w' = (content w)(p := file_write off src (content w p)))"

lemma wrapped_read:
  assumes "wrapped_ok W content" "w_read W p buf off w = ((rc, b), w')"
  shows "content w' = content w"
    and "rc = rc_ok \<or> rc = rc_short \<Longrightarrow> b = read_zeros (length buf) off (content w p) \<and>
          (rc = rc_ok) = (off + length buf \<le> length (content w p))"
proof -
  note rd = assms(1) [unfolded wrapped_ok_def, THEN conjunct1]
  from spec [OF spec [OF spec [OF spec [OF rd, of p], of buf], of off], of w] assms(2)
  show "content w' = content w" "rc = rc_ok \<or> rc = rc_short \<Longrightarrow>
      b = read_zeros (length buf) off (content w p) \<and> (rc = rc_ok) = (off + length buf \<le> length (content w p))"
    by auto
qed

lemma wrapped_write:
  assumes "wrapped_ok W content" "w_write W p src off w = (rc_ok, w')"
  shows "content w' = (content w)(p := file_write off src (content w p))"
proof -
  note wr = assms(1) [unfolded wrapped_ok_def, THEN conjunct2]
  from spec [OF spec [OF spec [OF spec [OF wr, of p], of src], of off], of w] assms(2) show ?thesis by simp
qed

definition isValidPageSize :: "int \<Rightarrow> bool" where
  "isValidPageSize n = (if n < 512 \<or> 65536 < n then False else n AND (n - 1) = 0)"

text \<open>How a call ends: it returns, it panics on a nil pointer or an index out of range, or it is still
  calling when the given depth of nested calls is used up.\<close>

datatype 'a outcome = Returns 'a | Panics | Deeper

fun and_then :: "'a outcome \<Rightarrow> ('a \<Rightarrow> 'b outcome) \<Rightarrow> 'b outcome" where
  "and_then (Returns x) k = k x"
| "and_then Panics k = Panics"
| "and_then Deeper k = Deeper"

section \<open>A file system in memory\<close>

text \<open>An instance of the contract: the files of a system VFS on which every call succeeds.\<close>

definition plainVFS :: "(nat \<Rightarrow> bytes) wmethods" where
  "plainVFS = \<lparr>w_open = \<lambda>name p fl w. (rc_ok, w), w_close = \<lambda>p w. (rc_ok, w),
     w_read = \<lambda>p buf off w. ((if off + length buf \<le> length (w p) then rc_ok else rc_short,
        read_zeros (length buf) off (w p)), w),
     w_write = \<lambda>p src off w. (rc_ok, w(p := file_write off src (w p)))\<rparr>"

lemma plainVFS_ok: "wrapped_ok plainVFS (\<lambda>w. w)"
  by (simp add: wrapped_ok_def plainVFS_def)

end
