(* ===== verification/Crypto_Vfs.thy ===== *)
theory Crypto_Vfs
  imports Wrapped_Vfs
begin

unbundle bit_operations_syntax

text \<open>
  The encrypting VFS \<^verbatim>\<open>src/vfs/crypto\<close>: the tweaks and key lengths of its ciphers (\<^verbatim>\<open>cipher.go\<close>),
  registration (\<^verbatim>\<open>crypto.go\<close>), opening a file (\<^verbatim>\<open>vfs.go\<close>) and the read and write paths (\<^verbatim>\<open>iomethods.go\<close>). The
  cipher primitives are those of third-party packages and are arguments; the VFS beneath is a
  \<open>wmethods\<close>.

  A VFS of this package may wrap another one, so a method table is a reference: \<open>BaseVfs\<close> for the VFS
  outside the package, \<open>CryptoVfs i\<close> for the table of the \<open>i\<close>-th \<^verbatim>\<open>FS\<close>. All tables of the package hold the
  same Go functions, which find their \<^verbatim>\<open>FS\<close> through the file map. \<open>n\<close> bounds the depth of nested calls.
\<close>

section \<open>Ciphers\<close>

definition FileKindMainDB :: byte where "FileKindMainDB = 1"
definition FileKindMainJournal :: byte where "FileKindMainJournal = 2"
definition FileKindWAL :: byte where "FileKindWAL = 3"
definition FileKindTempDB :: byte where "FileKindTempDB = 4"
definition FileKindTempJournal :: byte where "FileKindTempJournal = 5"
definition FileKindSubJournal :: byte where "FileKindSubJournal = 6"

text \<open>\<^verbatim>\<open>Cipher\<close> is an \<^verbatim>\<open>int\<close>: 0 is Adiantum, 1 is AES-XTS.\<close>

definition cipherAdiantum :: int where "cipherAdiantum = 0"
definition cipherAESXTS :: int where "cipherAESXTS = 1"

definition cipherKeyLen :: "int \<Rightarrow> nat" where
  "cipherKeyLen kind = (if kind = cipherAESXTS then 64 else 32)"

definition be64 :: "64 word \<Rightarrow> bytes" where
  "be64 w = rev (le_bytes 8 (unat w))"

definition adiantum_tweak :: "64 word \<Rightarrow> byte \<Rightarrow> bytes" where
  "adiantum_tweak pageNum fileKind = fileKind # be64 pageNum"

definition xtsPageMask :: "64 word" where "xtsPageMask = 0x00FFFFFFFFFFFFFF"

definition xtsSector :: "64 word \<Rightarrow> byte \<Rightarrow> 64 word" where
  "xtsSector pageNum fileKind = push_bit 56 (ucast fileKind) OR (pageNum AND xtsPageMask)"

text \<open>What the packages \<^verbatim>\<open>adiantum\<close> and \<^verbatim>\<open>xts\<close> provide: encryption and decryption under a key and a tweak;
  \<^verbatim>\<open>xts.NewCipher\<close> may refuse a key.\<close>

record cipherLib =
  hbsh_encrypt :: "bytes \<Rightarrow> bytes \<Rightarrow> bytes \<Rightarrow> bytes"
  hbsh_decrypt :: "bytes \<Rightarrow> bytes \<Rightarrow> bytes \<Rightarrow> bytes"
  xts_accepts :: "bytes \<Rightarrow> bool"
  xts_encrypt :: "bytes \<Rightarrow> bytes \<Rightarrow> 64 word \<Rightarrow> bytes"
  xts_decrypt :: "bytes \<Rightarrow> bytes \<Rightarrow> 64 word \<Rightarrow> bytes"

datatype cryptoError = KeyLength nat nat | XtsNewCipher | UnknownCipher int | InvalidPageSize int
  | NotRegisteredVFS string | NoDefault | OutOfMemory string | VfsRegister rcode | VfsUnregister rcode

definition adiantumCipher :: "cipherLib \<Rightarrow> bytes \<Rightarrow> pageCipher" where
  "adiantumCipher L key = \<lparr>encrypt = \<lambda>buf n k. hbsh_encrypt L key buf (adiantum_tweak (of_nat n) k),
     decrypt = \<lambda>buf n k. hbsh_decrypt L key buf (adiantum_tweak (of_nat n) k)\<rparr>"

definition xtsCipher :: "cipherLib \<Rightarrow> bytes \<Rightarrow> pageCipher" where
  "xtsCipher L key = \<lparr>encrypt = \<lambda>buf n k. xts_encrypt L key buf (xtsSector (of_nat n) k),
     decrypt = \<lambda>buf n k. xts_decrypt L key buf (xtsSector (of_nat n) k)\<rparr>"

definition NewCipher :: "cipherLib \<Rightarrow> int \<Rightarrow> bytes \<Rightarrow> cryptoError + pageCipher" where
  "NewCipher L kind key =
     (if kind = cipherAdiantum then
        if length key \<noteq> cipherKeyLen cipherAdiantum then Inl (KeyLength 32 (length key)) else Inr (adiantumCipher L key)
      else if kind = cipherAESXTS then
        if length key \<noteq> cipherKeyLen cipherAESXTS then Inl (KeyLength 64 (length key))
        else if \<not> xts_accepts L key then Inl XtsNewCipher else Inr (xtsCipher L key)
      else Inl (UnknownCipher kind))"

section \<open>State\<close>

datatype vref = BaseVfs | CryptoVfs nat

record cryptoFS =
  fs_name :: string
  fs_cipher :: "pageCipher option"
  fs_pageSize :: nat
  fs_token :: nat
  fs_closed :: bool
  fs_wrapped :: vref
  fs_wrappedSz :: nat

record perFileState =
  ps_defaultMethods :: vref
  ps_fsToken :: nat
  ps_pageSize :: nat
  ps_fileKind :: byte

text \<open>\<open>cr_slot p o\<close> is the \<^verbatim>\<open>perFileState\<close> at offset \<open>o\<close> of the file allocation \<open>p\<close>, which SQLite hands over
  zeroed; \<open>cr_pMethods\<close> is the visible method table of each file.\<close>

record 'w cryptoState =
  cr_fss :: "cryptoFS list"
  cr_registry :: "nat registry"
  cr_fileMap :: "nat ptrMap"
  cr_slot :: "nat \<Rightarrow> nat \<Rightarrow> perFileState"
  cr_pMethods :: "nat \<Rightarrow> vref"
  cr_w :: 'w

definition sizeof_perFileState :: nat where "sizeof_perFileState = 24"

text \<open>The \<^verbatim>\<open>szOsFile\<close> that a VFS asks SQLite to allocate per file.\<close>

definition szOsFile :: "nat \<Rightarrow> 'w cryptoState \<Rightarrow> vref \<Rightarrow> nat" where
  "szOsFile base s v = (case v of BaseVfs \<Rightarrow> base | CryptoVfs i \<Rightarrow> fs_wrappedSz (cr_fss s ! i) + sizeof_perFileState)"

section \<open>Registration\<close>

record cryptoOptions =
  op_Key :: bytes
  op_Cipher :: int
  op_PageSize :: int
  op_WrapVFS :: string

text \<open>The C side: the VFS \<^verbatim>\<open>sqlite3_vfs_find\<close> returns, its \<^verbatim>\<open>szOsFile\<close>, whether the allocations of the
  name, the struct and the method table succeed, and the code of the registration.\<close>

record ccalls =
  cc_find :: "vref option"
  cc_szBase :: nat
  cc_name :: string
  cc_cname :: bool
  cc_cvfs :: bool
  cc_methods :: bool
  cc_rc :: rcode

definition crypto_New :: "cipherLib \<Rightarrow> ccalls \<Rightarrow> cryptoOptions \<Rightarrow> 'w cryptoState
    \<Rightarrow> (cryptoError + nat) \<times> 'w cryptoState" where
  "crypto_New L cc opts s =
     (let pageSize = (if op_PageSize opts = 0 then 4096 else op_PageSize opts) in
      if \<not> isValidPageSize pageSize then (Inl (InvalidPageSize pageSize), s)
      else (case NewCipher L (op_Cipher opts) (op_Key opts) of
        Inl e \<Rightarrow> (Inl e, s)
      | Inr ci \<Rightarrow> (case cc_find cc of
          None \<Rightarrow> (Inl (if op_WrapVFS opts \<noteq> [] then NotRegisteredVFS (op_WrapVFS opts) else NoDefault), s)
        | Some v \<Rightarrow>
          if \<not> cc_cname cc then (Inl (OutOfMemory ''name''), s)
          else if \<not> cc_cvfs cc then (Inl (OutOfMemory ''struct''), s)
          else if \<not> cc_methods cc then (Inl (OutOfMemory ''io-methods''), s)
          else let i = length (cr_fss s); (tok, reg) = Register i (cr_registry s);
            fs = \<lparr>fs_name = cc_name cc, fs_cipher = Some ci, fs_pageSize = nat pageSize, fs_token = tok,
              fs_closed = False, fs_wrapped = v, fs_wrappedSz = szOsFile (cc_szBase cc) s v\<rparr>;
            s1 = s\<lparr>cr_fss := cr_fss s @ [fs]\<rparr>
          in if cc_rc cc \<noteq> rc_ok then (Inl (VfsRegister (cc_rc cc)), s1\<lparr>cr_registry := Unregister tok reg\<rparr>)
             else (Inr i, s1\<lparr>cr_registry := reg\<rparr>))))"

definition crypto_Close :: "rcode \<Rightarrow> nat \<Rightarrow> 'w cryptoState \<Rightarrow> cryptoError option \<times> 'w cryptoState" where
  "crypto_Close rc i s =
     (if fs_closed (cr_fss s ! i) then (None, s)
      else (if rc \<noteq> rc_ok then Some (VfsUnregister rc) else None,
        s\<lparr>cr_fss := (cr_fss s)[i := (cr_fss s ! i)\<lparr>fs_closed := True\<rparr>],
          cr_registry := Unregister (fs_token (cr_fss s ! i)) (cr_registry s)\<rparr>))"

section \<open>Opening a file\<close>

definition fileKindFor :: "32 word \<Rightarrow> byte" where
  "fileKindFor flags =
     (if flags AND 0x100 \<noteq> 0 then FileKindMainDB
      else if flags AND 0x800 \<noteq> 0 then FileKindMainJournal
      else if flags AND 0x80000 \<noteq> 0 then FileKindWAL
      else if flags AND 0x200 \<noteq> 0 then FileKindTempDB
      else if flags AND 0x1000 \<noteq> 0 then FileKindTempJournal
      else if flags AND 0x2000 \<noteq> 0 then FileKindSubJournal
      else 0)"

definition after_open :: "nat \<Rightarrow> nat \<Rightarrow> 32 word \<Rightarrow> 'w cryptoState \<Rightarrow> 'w cryptoState" where
  "after_open i p flags s =
     (let fs = cr_fss s ! i; pst = (cr_slot s p (fs_wrappedSz fs))\<lparr>ps_defaultMethods := cr_pMethods s p\<rparr>;
          kind = fileKindFor flags;
          pst1 = (if kind \<noteq> 0 then pst\<lparr>ps_fsToken := fs_token fs, ps_pageSize := fs_pageSize fs, ps_fileKind := kind\<rparr>
                  else pst)
      in s\<lparr>cr_slot := (cr_slot s)(p := (cr_slot s p)(fs_wrappedSz fs := pst1)),
           cr_fileMap := PtrMap_Set p i (cr_fileMap s), cr_pMethods := (cr_pMethods s)(p := CryptoVfs i)\<rparr>)"

fun cr_xOpen :: "nat \<Rightarrow> 'w wmethods \<Rightarrow> vref \<Rightarrow> string option \<Rightarrow> nat \<Rightarrow> 32 word \<Rightarrow> 'w cryptoState
    \<Rightarrow> (rcode \<times> 'w cryptoState) outcome" where
  "cr_xOpen 0 W v zName p flags s = Deeper"
| "cr_xOpen (Suc n) W BaseVfs zName p flags s =
     (case w_open W zName p flags (cr_w s) of
        (rc, w) \<Rightarrow> Returns (rc, s\<lparr>cr_w := w, cr_pMethods := (if rc = rc_ok then (cr_pMethods s)(p := BaseVfs) else cr_pMethods s)\<rparr>))"
| "cr_xOpen (Suc n) W (CryptoVfs j) zName p flags s =
     (case Lookup (fs_token (cr_fss s ! j)) (cr_registry s) of
        None \<Rightarrow> Returns (rc_internal, s)
      | Some i \<Rightarrow> and_then (cr_xOpen n W (fs_wrapped (cr_fss s ! i)) zName p flags s) (\<lambda>(rc, s1).
          if rc \<noteq> rc_ok then Returns (rc, s1) else Returns (rc_ok, after_open i p flags s1)))"

section \<open>Reading and writing\<close>

definition auxCryptUnit :: nat where "auxCryptUnit = 512"

definition cryptUnitFor :: "byte \<Rightarrow> nat \<Rightarrow> nat" where
  "cryptUnitFor kind pageSize =
     (if kind = FileKindMainDB \<or> kind = FileKindTempDB then pageSize
      else if auxCryptUnit < pageSize then auxCryptUnit else pageSize)"

definition encryptSpan :: "pageCipher \<Rightarrow> bytes \<Rightarrow> nat \<Rightarrow> nat \<Rightarrow> byte \<Rightarrow> bytes" where
  "encryptSpan c span baseOffset u kind = crypt_units u (enc_unit c kind) baseOffset span"

definition decryptSpan :: "pageCipher \<Rightarrow> bytes \<Rightarrow> nat \<Rightarrow> nat \<Rightarrow> byte \<Rightarrow> bytes" where
  "decryptSpan c span baseOffset u kind = crypt_units u (dec_unit c kind) baseOffset span"

text \<open>\<^verbatim>\<open>encryptedFS\<close> and \<^verbatim>\<open>defaultMethodsFor\<close>: the \<^verbatim>\<open>FS\<close> of a file and its state there.\<close>

definition fs_and_state :: "nat \<Rightarrow> 'w cryptoState \<Rightarrow> (cryptoFS \<times> perFileState) option" where
  "fs_and_state p s = (case PtrMap_Get p (cr_fileMap s) of None \<Rightarrow> None
     | Some i \<Rightarrow> Some (cr_fss s ! i, cr_slot s p (fs_wrappedSz (cr_fss s ! i))))"

text \<open>\<open>buf\<close> is the caller's buffer. The scratch buffer comes from a pool; what it held is never seen,
  since the read fills it or the call ends without using it. A span of no bytes makes \<^verbatim>\<open>&scratch[0]\<close> panic.\<close>

fun cr_xRead :: "nat \<Rightarrow> 'w wmethods \<Rightarrow> vref \<Rightarrow> nat \<Rightarrow> bytes \<Rightarrow> nat \<Rightarrow> 'w cryptoState
    \<Rightarrow> ((rcode \<times> bytes) \<times> 'w cryptoState) outcome" where
  "cr_xRead 0 W m p buf off s = Deeper"
| "cr_xRead (Suc n) W BaseVfs p buf off s =
     (case w_read W p buf off (cr_w s) of (r, w) \<Rightarrow> Returns (r, s\<lparr>cr_w := w\<rparr>))"
| "cr_xRead (Suc n) W (CryptoVfs j) p buf off s =
     (case fs_and_state p s of
        None \<Rightarrow> Panics
      | Some (fs, pst) \<Rightarrow>
          if ps_fsToken pst = 0 then cr_xRead n W (ps_defaultMethods pst) p buf off s
          else (case fs_cipher fs of
            None \<Rightarrow> Returns ((rc_ioerr, buf), s)
          | Some ci \<Rightarrow>
              let u = cryptUnitFor (ps_fileKind pst) (fs_pageSize fs);
                  pageStart = unit_start u off; span = unit_end u off (length buf) - pageStart
              in if span = 0 then Panics
                 else and_then (cr_xRead n W (ps_defaultMethods pst) p (replicate span 0) pageStart s) (\<lambda>((rc, b), s1).
                   if rc = rc_ok \<or> rc = rc_short
                   then let plain = decryptSpan ci b pageStart u (ps_fileKind pst); copyOff = off - pageStart
                        in Returns ((rc, bslice copyOff (copyOff + length buf) plain), s1)
                   else Returns ((rc, buf), s1))))"

text \<open>\<open>fetchSpan\<close> is the read-modify half of \<^verbatim>\<open>writeEncrypted\<close>: the plaintext of the span with the new bytes
  in place, or the code the read failed with. \<open>rd\<close> is the read of the method table beneath.\<close>

definition fetchSpan :: "(nat \<Rightarrow> nat \<Rightarrow> 'w cryptoState \<Rightarrow> ((rcode \<times> bytes) \<times> 'w cryptoState) outcome) \<Rightarrow> pageCipher
    \<Rightarrow> byte \<Rightarrow> nat \<Rightarrow> bytes \<Rightarrow> nat \<Rightarrow> 'w cryptoState \<Rightarrow> ((rcode + bytes) \<times> 'w cryptoState) outcome" where
  "fetchSpan rd ci kind u src off s =
     (let pageStart = unit_start u off; span = unit_end u off (length src) - pageStart
      in if off = pageStart \<and> length src = span then Returns (Inr src, s)
         else and_then (rd span pageStart s) (\<lambda>((rc, b), s1).
           if rc \<noteq> rc_ok \<and> rc \<noteq> rc_short then Returns (Inl rc, s1)
           else Returns (Inr (blit (off - pageStart) src (decryptSpan ci b pageStart u kind)), s1)))"

fun cr_xWrite :: "nat \<Rightarrow> 'w wmethods \<Rightarrow> vref \<Rightarrow> nat \<Rightarrow> bytes \<Rightarrow> nat \<Rightarrow> 'w cryptoState
    \<Rightarrow> (rcode \<times> 'w cryptoState) outcome" where
  "cr_xWrite 0 W m p src off s = Deeper"
| "cr_xWrite (Suc n) W BaseVfs p src off s =
     (case w_write W p src off (cr_w s) of (rc, w) \<Rightarrow> Returns (rc, s\<lparr>cr_w := w\<rparr>))"
| "cr_xWrite (Suc n) W (CryptoVfs j) p src off s =
     (case fs_and_state p s of
        None \<Rightarrow> Panics
      | Some (fs, pst) \<Rightarrow>
          if ps_fsToken pst = 0 then cr_xWrite n W (ps_defaultMethods pst) p src off s
          else (case fs_cipher fs of
            None \<Rightarrow> Returns (rc_ioerr, s)
          | Some ci \<Rightarrow>
              let u = cryptUnitFor (ps_fileKind pst) (fs_pageSize fs); pageStart = unit_start u off
              in if unit_end u off (length src) - pageStart = 0 then Panics
                 else and_then (fetchSpan (\<lambda>k o1. cr_xRead n W (ps_defaultMethods pst) p (replicate k 0) o1) ci
                     (ps_fileKind pst) u src off s) (\<lambda>(r, s1). case r of
                       Inl rc \<Rightarrow> Returns (rc, s1)
                     | Inr span \<Rightarrow> cr_xWrite n W (ps_defaultMethods pst) p
                         (encryptSpan ci span pageStart u (ps_fileKind pst)) pageStart s1)))"

text \<open>Every other method goes to the table beneath unchanged (\<^verbatim>\<open>xTruncate\<close>, \<^verbatim>\<open>xSync\<close>, \<^verbatim>\<open>xFileSize\<close>, the locks,
  \<^verbatim>\<open>xFileControl\<close>, the shared-memory methods): \<open>call\<close> is that method of the VFS outside the package.\<close>

fun cr_forward :: "nat \<Rightarrow> (nat \<Rightarrow> 'w \<Rightarrow> 'r \<times> 'w) \<Rightarrow> vref \<Rightarrow> nat \<Rightarrow> 'w cryptoState \<Rightarrow> ('r \<times> 'w cryptoState) outcome" where
  "cr_forward 0 call m p s = Deeper"
| "cr_forward (Suc n) call BaseVfs p s = (case call p (cr_w s) of (r, w) \<Rightarrow> Returns (r, s\<lparr>cr_w := w\<rparr>))"
| "cr_forward (Suc n) call (CryptoVfs j) p s = (case fs_and_state p s of
     None \<Rightarrow> Panics | Some (fs, pst) \<Rightarrow> cr_forward n call (ps_defaultMethods pst) p s)"

fun cr_xClose :: "nat \<Rightarrow> 'w wmethods \<Rightarrow> vref \<Rightarrow> nat \<Rightarrow> 'w cryptoState \<Rightarrow> (rcode \<times> 'w cryptoState) outcome" where
  "cr_xClose 0 W m p s = Deeper"
| "cr_xClose (Suc n) W BaseVfs p s = (case w_close W p (cr_w s) of (rc, w) \<Rightarrow> Returns (rc, s\<lparr>cr_w := w\<rparr>))"
| "cr_xClose (Suc n) W (CryptoVfs j) p s = (case fs_and_state p s of
     None \<Rightarrow> Panics
   | Some (fs, pst) \<Rightarrow> cr_xClose n W (ps_defaultMethods pst) p (s\<lparr>cr_fileMap := PtrMap_Delete p (cr_fileMap s)\<rparr>))"

section \<open>One layer\<close>

text \<open>\<open>p\<close> is an open, encrypted file of a VFS that wraps one outside the package.\<close>

definition encrypted_file :: "nat \<Rightarrow> 'w cryptoState \<Rightarrow> pageCipher \<Rightarrow> byte \<Rightarrow> nat \<Rightarrow> bool" where
  "encrypted_file p s ci kind u \<longleftrightarrow> (case fs_and_state p s of None \<Rightarrow> False | Some (fs, pst) \<Rightarrow>
     ps_fsToken pst \<noteq> 0 \<and> ps_defaultMethods pst = BaseVfs \<and> fs_cipher fs = Some ci \<and> ps_fileKind pst = kind \<and>
     u = cryptUnitFor kind (fs_pageSize fs) \<and> 0 < u)"

lemma encrypted_fileE:
  assumes "encrypted_file p s ci kind u"
  obtains fs pst where "fs_and_state p s = Some (fs, pst)" "ps_fsToken pst \<noteq> 0" "ps_defaultMethods pst = BaseVfs"
    "fs_cipher fs = Some ci" "ps_fileKind pst = kind" "u = cryptUnitFor kind (fs_pageSize fs)" "0 < u"
  using assms by (auto simp: encrypted_file_def split: option.splits)

lemma encrypted_file_world [simp]:
  "fs_and_state p (s\<lparr>cr_w := w\<rparr>) = fs_and_state p s" "encrypted_file p (s\<lparr>cr_w := w\<rparr>) ci kind u = encrypted_file p s ci kind u"
  by (simp_all add: encrypted_file_def fs_and_state_def split: option.split)

text \<open>The plaintext of the file, as the bytes on disk mean it.\<close>

definition crypto_plain :: "('w \<Rightarrow> nat \<Rightarrow> bytes) \<Rightarrow> pageCipher \<Rightarrow> byte \<Rightarrow> nat \<Rightarrow> nat \<Rightarrow> 'w cryptoState \<Rightarrow> bytes" where
  "crypto_plain content ci kind u p s = unit_plain u ci kind (content (cr_w s) p)"

text \<open>Opening a file of one of the six kinds through a registered VFS that wraps one outside the package
  makes it an encrypted file.\<close>

lemma open_encrypts:
  assumes "Lookup (fs_token (cr_fss s ! j)) (cr_registry s) = Some i" "fs_wrapped (cr_fss s ! i) = BaseVfs"
    and "fs_cipher (cr_fss s ! i) = Some ci" "fs_token (cr_fss s ! i) \<noteq> 0" "0 < fs_pageSize (cr_fss s ! i)"
    and "fileKindFor flags \<noteq> 0" "p \<noteq> 0"
    and "cr_xOpen (n + 2) W (CryptoVfs j) zName p flags s = Returns (rc_ok, s')"
  shows "encrypted_file p s' ci (fileKindFor flags) (cryptUnitFor (fileKindFor flags) (fs_pageSize (cr_fss s ! i)))"
  using assms
  by (auto simp: after_open_def Let_def encrypted_file_def fs_and_state_def ptrmap_laws cryptUnitFor_def auxCryptUnit_def
      numeral_2_eq_2 split: prod.splits if_splits)

text \<open>A VFS registered over \<open>plainVFS\<close>, with a toy cipher that complements every byte, and a main database
  opened through it.\<close>

definition notLib :: cipherLib where
  "notLib = \<lparr>hbsh_encrypt = \<lambda>k b t. map not b, hbsh_decrypt = \<lambda>k b t. map not b, xts_accepts = \<lambda>k. True,
     xts_encrypt = \<lambda>k b t. map not b, xts_decrypt = \<lambda>k b t. map not b\<rparr>"

definition noFiles :: "'w \<Rightarrow> 'w cryptoState" where
  "noFiles w = \<lparr>cr_fss = [], cr_registry = NewRegistry, cr_fileMap = [],
     cr_slot = \<lambda>p k. \<lparr>ps_defaultMethods = BaseVfs, ps_fsToken = 0, ps_pageSize = 0, ps_fileKind = 0\<rparr>,
     cr_pMethods = \<lambda>p. BaseVfs, cr_w = w\<rparr>"

definition wraps :: "vref \<Rightarrow> ccalls" where
  "wraps v = \<lparr>cc_find = Some v, cc_szBase = 128, cc_name = ''crypto1'', cc_cname = True, cc_cvfs = True,
     cc_methods = True, cc_rc = rc_ok\<rparr>"

definition demoOptions :: cryptoOptions where
  "demoOptions = \<lparr>op_Key = replicate 32 7, op_Cipher = cipherAdiantum, op_PageSize = 0, op_WrapVFS = []\<rparr>"

definition notCipher :: pageCipher where "notCipher = adiantumCipher notLib (replicate 32 7)"

definition oneLayer :: "'w \<Rightarrow> 'w cryptoState" where
  "oneLayer w = snd (crypto_New notLib (wraps BaseVfs) demoOptions (noFiles w))"

definition demoOpen :: "(nat \<Rightarrow> bytes) \<Rightarrow> (nat \<Rightarrow> bytes) cryptoState" where
  "demoOpen w = (case cr_xOpen 2 plainVFS (CryptoVfs 0) (Some ''db'') 7 0x106 (oneLayer w) of
     Returns (rc, s) \<Rightarrow> s | _ \<Rightarrow> noFiles w)"

lemma valid4096: "isValidPageSize 4096"
  by (simp add: isValidPageSize_def)

lemma oneLayer_New: "crypto_New notLib (wraps BaseVfs) demoOptions (noFiles w) = (Inr 0, oneLayer w)"
  "cr_fss (oneLayer w) = [\<lparr>fs_name = ''crypto1'', fs_cipher = Some notCipher, fs_pageSize = 4096, fs_token = 1,
     fs_closed = False, fs_wrapped = BaseVfs, fs_wrappedSz = 128\<rparr>]"
  "cr_registry (oneLayer w) = \<lparr>rg_next = 1, rg_m = [(1, 0)]\<rparr>" "cr_w (oneLayer w) = w"
  by (simp_all add: oneLayer_def crypto_New_def wraps_def demoOptions_def noFiles_def valid4096 NewCipher_def cipherAdiantum_def
      cipherKeyLen_def cipherAESXTS_def Register_def NewRegistry_def add64_def Let_def szOsFile_def notCipher_def)

lemma demoOpen_opens:
  "cr_xOpen 2 plainVFS (CryptoVfs 0) (Some ''db'') 7 0x106 (oneLayer w) = Returns (rc_ok, demoOpen w)"
  "cr_w (demoOpen w) = w"
  by (simp_all add: demoOpen_def numeral_2_eq_2 oneLayer_New Lookup_def plainVFS_def after_open_def Let_def)

lemma demo_encrypted: "encrypted_file 7 (demoOpen w) notCipher 1 4096"
proof -
  have "fileKindFor 0x106 = 1" by (simp add: fileKindFor_def FileKindMainDB_def)
  moreover have "cr_xOpen (0 + 2) plainVFS (CryptoVfs 0) (Some ''db'') 7 0x106 (oneLayer w) = Returns (rc_ok, demoOpen w)"
    using demoOpen_opens(1) by (simp only: add_0)
  from open_encrypts [OF _ _ _ _ _ _ _ this, of 0 notCipher]
  have "fileKindFor 0x106 \<noteq> 0 \<Longrightarrow> encrypted_file 7 (demoOpen w) notCipher (fileKindFor 0x106) (cryptUnitFor (fileKindFor 0x106) 4096)"
    by (simp add: oneLayer_New Lookup_def)
  ultimately show ?thesis by (simp add: cryptUnitFor_def FileKindMainDB_def)
qed

lemma notCipher_ok: "unit_cipher_ok notCipher"
  by (simp add: unit_cipher_ok_def cipher_ok_def notCipher_def adiantumCipher_def notLib_def comp_def)

text \<open>A read through the encrypting VFS always returns. When the VFS beneath answers, the buffer holds the
  bytes of the plaintext at the offset and zeros past its end, with OK when the file covers the request and
  SQLITE_IOERR_SHORT_READ when it does not; when the VFS beneath fails, the buffer is left alone. The file
  is unchanged.\<close>

theorem crypto_read_refines_file:
  assumes "wrapped_ok W content" "unit_cipher_ok ci" "encrypted_file p s ci kind u"
    and "u dvd length (content (cr_w s) p)" "buf \<noteq> []"
  shows "\<exists>rc b s'. cr_xRead (n + 2) W (CryptoVfs j) p buf off s = Returns ((rc, b), s') \<and>
     content (cr_w s') = content (cr_w s) \<and>
     (if rc = rc_ok \<or> rc = rc_short
      then b = read_zeros (length buf) off (crypto_plain content ci kind u p s) \<and>
        (rc = rc_ok) = (off + length buf \<le> length (crypto_plain content ci kind u p s))
      else b = buf)"
proof -
  obtain fs pst where f: "fs_and_state p s = Some (fs, pst)" "ps_fsToken pst \<noteq> 0" "ps_defaultMethods pst = BaseVfs"
    "fs_cipher fs = Some ci" "ps_fileKind pst = kind" "u = cryptUnitFor kind (fs_pageSize fs)" "0 < u"
    using assms(3) by (rule encrypted_fileE)
  define st e where se: "st = unit_start u off" "e = unit_end u off (length buf)"
  note b = span_bounds [OF f(7) se]
  obtain rc x w where rd: "w_read W p (replicate (e - st) 0) st (cr_w s) = ((rc, x), w)" by (metis prod.exhaust)
  have w: "content w = content (cr_w s)" using wrapped_read(1) [OF assms(1) rd] .
  have span: "e - st \<noteq> 0" using b(6) assms(5) by simp
  have eq: "cr_xRead (n + 2) W (CryptoVfs j) p buf off s = Returns
      (if rc = rc_ok \<or> rc = rc_short
       then (rc, bslice (off - st) (off - st + length buf) (crypt_units u (dec_unit ci kind) st x)) else (rc, buf),
       s\<lparr>cr_w := w\<rparr>)"
    using f(2) rd span by (simp add: numeral_2_eq_2 Let_def decryptSpan_def f(1,3-5) flip: f(6) se)
  show ?thesis
  proof (cases "rc = rc_ok \<or> rc = rc_short")
    case True
    from wrapped_read(2) [OF assms(1) rd True] have x: "x = read_zeros (e - st) st (content (cr_w s) p)"
      and ok: "(rc = rc_ok) = (e \<le> length (content (cr_w s) p))" using b(5) by simp_all
    show ?thesis
      unfolding eq using True w ok unit_read [OF assms(2) f(7) assms(4) se]
        unit_end_le_iff [OF f(7) assms(4), of off "length buf"] assms(2)
      by (simp add: crypto_plain_def x flip: se)
  qed (use eq w in simp)
qed

lemma demo_plain: "unit_plain 4096 notCipher 1 (replicate 4096 0xFA) = replicate 4096 5"
proof -
  have "\<not> allZero (replicate 4096 (0xFA :: byte))" by (simp add: allZero_def list_all_iff)
  moreover have "map not (replicate 4096 0xFA) = replicate 4096 (5 :: byte)" by simp
  ultimately show ?thesis
    unfolding unit_plain_def
    by (subst crypt_units.simps) (simp add: dec_unit_def notCipher_def adiantumCipher_def notLib_def)
qed

theorem crypto_read_refines_file_witness:
  "\<exists>b s'. cr_xRead 2 plainVFS (CryptoVfs 0) 7 [0, 0, 0] 10 (demoOpen (\<lambda>p. replicate 4096 0xFA)) = Returns ((rc_ok, b), s')
     \<and> b = read_zeros 3 10 (replicate 4096 5)"
proof -
  let ?s = "demoOpen (\<lambda>p. replicate 4096 0xFA)"
  have plain: "crypto_plain (\<lambda>w. w) notCipher 1 4096 7 ?s = replicate 4096 5"
    using demo_plain by (simp add: crypto_plain_def demoOpen_opens)
  have dvd: "4096 dvd length (cr_w ?s 7)" by (simp add: demoOpen_opens)
  have "[0, 0, 0] \<noteq> ([] :: bytes)" by simp
  from crypto_read_refines_file [OF plainVFS_ok notCipher_ok demo_encrypted, OF dvd this, of 0 0 10]
  obtain rc b s' where r: "cr_xRead (0 + 2) plainVFS (CryptoVfs 0) 7 [0, 0, 0] 10 ?s = Returns ((rc, b), s')"
    and b: "if rc = rc_ok \<or> rc = rc_short then b = read_zeros (length [0, 0, 0 :: byte]) 10 (replicate 4096 5) \<and>
      (rc = rc_ok) = (10 + length [0, 0, 0 :: byte] \<le> length (replicate 4096 (5 :: byte))) else b = [0, 0, 0]"
    unfolding plain by blast
  have "rc = rc_ok \<or> rc = rc_short"
    using r demo_encrypted [of "\<lambda>p. replicate 4096 0xFA"]
    by (auto elim!: encrypted_fileE simp: numeral_2_eq_2 plainVFS_def Let_def split: if_splits)
  then have "rc = rc_ok" "b = read_zeros 3 10 (replicate 4096 5)"
    using b by (simp_all add: numeral_3_eq_3)
  with r show ?thesis unfolding add_0 by blast
qed

text \<open>The read-modify half of a write gives the plaintext of the span with the new bytes in place.\<close>

lemma fetchSpan_plain:
  assumes "wrapped_ok W content" "unit_cipher_ok ci" "0 < u" "u dvd length (content (cr_w s) p)"
  obtains r w where "fetchSpan (\<lambda>k o1. cr_xRead (Suc n) W BaseVfs p (replicate k 0) o1) ci kind u src off s =
      Returns (r, s\<lparr>cr_w := w\<rparr>)" "content w = content (cr_w s)"
    "case r of Inl rc \<Rightarrow> rc \<noteq> rc_ok | Inr span \<Rightarrow> span = new_span u off src (crypto_plain content ci kind u p s)"
proof (cases "off = unit_start u off \<and> length src = unit_end u off (length src) - unit_start u off")
  case True
  have "fetchSpan (\<lambda>k o1. cr_xRead (Suc n) W BaseVfs p (replicate k 0) o1) ci kind u src off s = Returns (Inr src, s)"
    unfolding fetchSpan_def Let_def if_P [OF True] ..
  then show ?thesis
    using new_span_whole [OF conjunct1 [OF True] conjunct2 [OF True]] by (intro that [of "Inr src" "cr_w s"]) simp_all
next
  case False
  define st e where se: "st = unit_start u off" "e = unit_end u off (length src)"
  obtain rc x w where rd: "w_read W p (replicate (e - st) 0) st (cr_w s) = ((rc, x), w)" by (metis prod.exhaust)
  have w: "content w = content (cr_w s)" using wrapped_read(1) [OF assms(1) rd] .
  have "crypt_units u (dec_unit ci kind) st x = read_zeros (e - st) st (crypto_plain content ci kind u p s)"
    if "rc = rc_ok \<or> rc = rc_short"
    using wrapped_read(2) [OF assms(1) rd that] decipher_span [OF assms(2-4) se] by (simp add: crypto_plain_def)
  moreover have "fetchSpan (\<lambda>k o1. cr_xRead (Suc n) W BaseVfs p (replicate k 0) o1) ci kind u src off s =
      Returns (if rc \<noteq> rc_ok \<and> rc \<noteq> rc_short then Inl rc
        else Inr (blit (off - st) src (crypt_units u (dec_unit ci kind) st x)), s\<lparr>cr_w := w\<rparr>)"
    using False rd unfolding fetchSpan_def Let_def se [symmetric] if_not_P [OF False [folded se]] decryptSpan_def
    by simp
  ultimately show ?thesis
    using w that [of "Inl rc" w] that [of "Inr (blit (off - st) src (crypt_units u (dec_unit ci kind) st x))" w]
    by (cases "rc = rc_ok \<or> rc = rc_short") (auto simp: new_span_def Let_def simp flip: se)
qed

text \<open>C11: A write through the encrypting VFS always returns. When it reports success, the plaintext of the file
  has changed as a plain file would, extended with zeros to a whole cipher unit, the file on disk consists
  of whole units, and no other file has changed. The one assumption on the cipher beyond its laws is the
  one the sources state: no unit written is enciphered to zeros.\<close>

theorem crypto_write_refines_file:
  assumes "wrapped_ok W content" "unit_cipher_ok ci" "encrypted_file p s ci kind u"
    and "u dvd length (content (cr_w s) p)" "src \<noteq> []"
    and "no_false_hole u ci kind (unit_start u off) (new_span u off src (crypto_plain content ci kind u p s))"
  shows "\<exists>rc s'. cr_xWrite (n + 2) W (CryptoVfs j) p src off s = Returns (rc, s') \<and> encrypted_file p s' ci kind u \<and>
     (rc = rc_ok \<longrightarrow>
        crypto_plain content ci kind u p s' =
          pad_to (unit_end u off (length src)) (file_write off src (crypto_plain content ci kind u p s)) \<and>
        u dvd length (content (cr_w s') p) \<and> (\<forall>q. q \<noteq> p \<longrightarrow> content (cr_w s') q = content (cr_w s) q))"
proof -
  obtain fs pst where f: "fs_and_state p s = Some (fs, pst)" "ps_fsToken pst \<noteq> 0" "ps_defaultMethods pst = BaseVfs"
    "fs_cipher fs = Some ci" "ps_fileKind pst = kind" "u = cryptUnitFor kind (fs_pageSize fs)" "0 < u"
    using assms(3) by (rule encrypted_fileE)
  define st e where se: "st = unit_start u off" "e = unit_end u off (length src)"
  note b = span_bounds [OF f(7) se]
  have ne: "e - st \<noteq> 0" using b(6) assms(5) by simp
  obtain r w where fetch: "fetchSpan (\<lambda>k o1. cr_xRead (Suc n) W BaseVfs p (replicate k 0) o1) ci kind u src off s =
      Returns (r, s\<lparr>cr_w := w\<rparr>)" "content w = content (cr_w s)"
    "case r of Inl rc \<Rightarrow> rc \<noteq> rc_ok | Inr span \<Rightarrow> span = new_span u off src (crypto_plain content ci kind u p s)"
    using fetchSpan_plain [OF assms(1,2) f(7) assms(4)] by blast
  have step: "cr_xWrite (n + 2) W (CryptoVfs j) p src off s = (case r of Inl rc \<Rightarrow> Returns (rc, s\<lparr>cr_w := w\<rparr>)
      | Inr span \<Rightarrow> cr_xWrite (Suc n) W BaseVfs p (encryptSpan ci span st u kind) st (s\<lparr>cr_w := w\<rparr>))"
    using f(2) fetch(1) ne
    by (simp add: numeral_2_eq_2 Let_def f(1,3-5) del: cr_xRead.simps(2) cr_xWrite.simps(2) split: sum.split flip: f(6) se)
  show ?thesis
  proof (cases r)
    case (Inl rc)
    then show ?thesis using step fetch(3) assms(3) by simp
  next
    case (Inr span)
    obtain rc w' where wr: "w_write W p (encryptSpan ci span st u kind) st w = (rc, w')" by (metis prod.exhaust)
    have span: "span = blit (off - st) src (crypt_units u (dec_unit ci kind) st (read_zeros (e - st) st (content (cr_w s) p)))"
      using fetch(3) Inr decipher_span [OF assms(2) f(7) assms(4) se]
      by (simp add: new_span_def Let_def crypto_plain_def flip: se)
    have hole: "no_false_hole u ci kind st span" using assms(6) fetch(3) Inr by (simp add: se)
    note plain = unit_write [OF assms(2) f(7) assms(4,5) se span hole]
    have "content w' = (content (cr_w s))(p := file_write st (encryptSpan ci span st u kind) (content (cr_w s) p))"
      if "rc = rc_ok" using wrapped_write [OF assms(1) wr [unfolded that]] fetch(2) by simp
    then show ?thesis
      using step Inr wr plain assms(3) by (auto simp: crypto_plain_def encryptSpan_def se)
  qed
qed

lemma demo_span: "no_false_hole 4096 notCipher 1 0 (new_span 4096 0 [1, 2, 3] [])"
proof -
  have span: "new_span 4096 0 [1, 2, 3] [] = [1, 2, 3] @ replicate 4093 0"
    by (simp add: new_span_def unit_start_def unit_end_def read_zeros_def blit_def)
  have "\<not> allZero (enc_unit notCipher 1 0 ([1, 2, 3] @ replicate 4093 0))"
    by (simp add: allZero_def enc_unit_def notCipher_def adiantumCipher_def notLib_def)
  then show ?thesis unfolding span
    by (subst no_false_hole.simps) (simp add: no_false_hole.simps)
qed

theorem crypto_write_refines_file_witness:
  "\<exists>s'. cr_xWrite 2 plainVFS (CryptoVfs 0) 7 [1, 2, 3] 0 (demoOpen (\<lambda>p. [])) = Returns (rc_ok, s') \<and>
     crypto_plain (\<lambda>w. w) notCipher 1 4096 7 s' = pad_to 4096 [1, 2, 3]"
proof -
  let ?s = "demoOpen (\<lambda>p. [])"
  have plain: "crypto_plain (\<lambda>w. w) notCipher 1 4096 7 ?s = []"
    by (simp add: crypto_plain_def demoOpen_opens unit_plain_def)
  have dvd: "4096 dvd length (cr_w ?s 7)" by (simp add: demoOpen_opens)
  have hole: "no_false_hole 4096 notCipher 1 (unit_start 4096 0) (new_span 4096 0 [1, 2, 3] (crypto_plain (\<lambda>w. w) notCipher 1 4096 7 ?s))"
    using demo_span by (simp add: plain unit_start_def)
  have "[1, 2, 3] \<noteq> ([] :: bytes)" by simp
  from crypto_write_refines_file [OF plainVFS_ok notCipher_ok demo_encrypted, OF dvd this hole, of 0 0]
  obtain rc s' where r: "cr_xWrite (0 + 2) plainVFS (CryptoVfs 0) 7 [1, 2, 3] 0 ?s = Returns (rc, s')"
    and b: "rc = rc_ok \<longrightarrow> crypto_plain (\<lambda>w. w) notCipher 1 4096 7 s' =
      pad_to (unit_end 4096 0 (length [1, 2, 3 :: byte])) (file_write 0 [1, 2, 3] [])"
    unfolding plain by blast
  have "rc = rc_ok"
    using r demo_encrypted [of "\<lambda>p. []"]
    by (auto elim!: encrypted_fileE simp: numeral_2_eq_2 plainVFS_def Let_def fetchSpan_def split: if_splits)
  then have "crypto_plain (\<lambda>w. w) notCipher 1 4096 7 s' = pad_to 4096 [1, 2, 3]"
    using b by (simp add: unit_end_def file_write_def blit_def)
  with r \<open>rc = rc_ok\<close> show ?thesis unfolding add_0 by blast
qed

section \<open>Layers of the same package\<close>

lemma open_sets_methods:
  "cr_xOpen n W v zName p flags s = Returns (rc_ok, s') \<Longrightarrow>
     cr_fss s' = cr_fss s \<and> cr_registry s' = cr_registry s \<and>
     (case v of BaseVfs \<Rightarrow> cr_pMethods s' p = BaseVfs | CryptoVfs j \<Rightarrow> \<exists>i. cr_pMethods s' p = CryptoVfs i)"
proof (induction n W v zName p flags s arbitrary: s' rule: cr_xOpen.induct)
  case (3 n W j zName p flags s)
  obtain i where i: "Lookup (fs_token (cr_fss s ! j)) (cr_registry s) = Some i"
    using 3(2) by (cases "Lookup (fs_token (cr_fss s ! j)) (cr_registry s)") (auto simp: rc_internal_def rc_ok_def split: option.splits)
  obtain s1 where s1: "cr_xOpen n W (fs_wrapped (cr_fss s ! i)) zName p flags s = Returns (rc_ok, s1)"
    "s' = after_open i p flags s1"
    using 3(2) i by (cases "cr_xOpen n W (fs_wrapped (cr_fss s ! i)) zName p flags s") (auto split: if_splits)
  with 3(1) [OF i s1(1)] show ?case by (simp add: after_open_def Let_def)
qed (auto split: prod.splits)

text \<open>A file whose state at its \<^verbatim>\<open>FS\<close> points to a table of the package again.\<close>

definition stacked :: "nat \<Rightarrow> 'w cryptoState \<Rightarrow> bool" where
  "stacked p s \<longleftrightarrow> (case fs_and_state p s of None \<Rightarrow> False | Some (fs, pst) \<Rightarrow>
     (\<exists>i. ps_defaultMethods pst = CryptoVfs i) \<and> fs_cipher fs \<noteq> None \<and> 0 < fs_pageSize fs)"

lemma stacked_read: "stacked p s \<Longrightarrow> buf \<noteq> [] \<Longrightarrow> cr_xRead n W (CryptoVfs j) p buf off s = Deeper"
proof (induction n arbitrary: j buf off)
  case (Suc n)
  obtain fs pst i ci where f: "fs_and_state p s = Some (fs, pst)" "ps_defaultMethods pst = CryptoVfs i"
    "fs_cipher fs = Some ci" "0 < fs_pageSize fs"
    using Suc(2) by (auto simp: stacked_def split: option.splits)
  let ?u = "cryptUnitFor (ps_fileKind pst) (fs_pageSize fs)"
  have "0 < ?u" using f(4) by (simp add: cryptUnitFor_def auxCryptUnit_def)
  then have "\<not> unit_end ?u off (length buf) \<le> unit_start ?u off"
    using unit_bounds(6) [of ?u "length buf" off] Suc(3) by (simp add: not_le)
  then show ?case using Suc f by (simp add: Let_def)
qed simp

lemma stacked_forward: "stacked p s \<Longrightarrow> cr_forward n call (CryptoVfs j) p s = Deeper"
  by (induction n arbitrary: j) (auto simp: stacked_def split: option.splits)

text \<open>C25: An encrypting VFS registered over another one of the package does not work: a file opens through it,
  but no read of it and no forwarded method ever returns, whatever the depth of the stack, since both
  layers find the outer layer's state and call the table of the inner one for ever; closing it panics.\<close>

theorem crypto_over_crypto_never_returns:
  assumes "reg_inv (cr_registry s)" "\<not> exhausted (cr_registry s)" "crypto_New L cc opts s = (Inr j, s1)"
    and "cc_find cc = Some (CryptoVfs i)" "cr_xOpen n W (CryptoVfs j) zName p flags s1 = Returns (rc_ok, s2)"
    and "p \<noteq> 0" "buf \<noteq> []"
  shows "cr_xRead m W (cr_pMethods s2 p) p buf off s2 = Deeper \<and> cr_forward m call (cr_pMethods s2 p) p s2 = Deeper \<and>
    cr_xClose (m + 2) W (cr_pMethods s2 p) p s2 = Panics"
proof -
  obtain tok reg where reg: "Register j (cr_registry s) = (tok, reg)" by (metis prod.exhaust)
  let ?fs = "cr_fss s1 ! j"
  have new: "j = length (cr_fss s)" "cr_registry s1 = reg" "fs_token ?fs = tok" "fs_wrapped ?fs = CryptoVfs i"
    "fs_cipher ?fs \<noteq> None" "0 < fs_pageSize ?fs"
    using assms(3,4) reg by (auto simp: crypto_New_def Let_def isValidPageSize_def split: sum.splits if_splits prod.splits)
  have look: "Lookup (fs_token ?fs) (cr_registry s1) = Some j"
    using cabi.find_mint [OF assms(1,2), of tok j] reg new by simp
  obtain n' where n: "n = Suc n'" using assms(5) by (cases n) auto
  obtain s' where op: "cr_xOpen n' W (CryptoVfs i) zName p flags s1 = Returns (rc_ok, s')" "s2 = after_open j p flags s'"
    using assms(5) look new(4) unfolding n
    by (cases "cr_xOpen n' W (CryptoVfs i) zName p flags s1") (auto split: if_splits)
  obtain k where k: "cr_pMethods s' p = CryptoVfs k" and fss: "cr_fss s' = cr_fss s1"
    using open_sets_methods [OF op(1)] by auto
  have st: "stacked p s2" and m: "cr_pMethods s2 p = CryptoVfs j"
    using new(5,6) k fss assms(6)
    by (auto simp: op(2) stacked_def after_open_def Let_def fs_and_state_def ptrmap_laws)
  have "cr_xClose (m + 2) W (CryptoVfs j) p s2 = Panics"
    using st by (auto simp: stacked_def numeral_2_eq_2 fs_and_state_def ptrmap_laws split: option.splits)
  then show ?thesis using m stacked_read [OF st assms(7)] stacked_forward [OF st] by simp
qed

definition twoLayers :: "(nat \<Rightarrow> bytes) \<Rightarrow> (nat \<Rightarrow> bytes) cryptoState" where
  "twoLayers w = snd (crypto_New notLib (wraps (CryptoVfs 0)) demoOptions (oneLayer w))"

lemma twoLayers_New: "crypto_New notLib (wraps (CryptoVfs 0)) demoOptions (oneLayer w) = (Inr 1, twoLayers w)"
  "\<exists>s2. cr_xOpen 3 plainVFS (CryptoVfs 1) (Some ''db'') 7 0x106 (twoLayers w) = Returns (rc_ok, s2)"
  by (simp_all add: twoLayers_def crypto_New_def wraps_def demoOptions_def valid4096 NewCipher_def cipherAdiantum_def oneLayer_New
      cipherKeyLen_def cipherAESXTS_def Register_def add64_def Let_def szOsFile_def notCipher_def sizeof_perFileState_def
      numeral_3_eq_3 Lookup_def plainVFS_def)

theorem crypto_over_crypto_never_returns_witness:
  "\<exists>s2. cr_xOpen 3 plainVFS (CryptoVfs 1) (Some ''db'') 7 0x106 (twoLayers (\<lambda>p. [])) = Returns (rc_ok, s2) \<and>
     (\<forall>m. cr_xRead m plainVFS (cr_pMethods s2 7) 7 [0] 0 s2 = Deeper)"
proof -
  obtain s2 where o2: "cr_xOpen 3 plainVFS (CryptoVfs 1) (Some ''db'') 7 0x106 (twoLayers (\<lambda>p. [])) = Returns (rc_ok, s2)"
    using twoLayers_New(2) by blast
  have "reg_inv (cr_registry (oneLayer w))" "\<not> exhausted (cr_registry (oneLayer w))" for w :: "nat \<Rightarrow> bytes"
    by (auto simp: oneLayer_New reg_inv_def exhausted_def)
  moreover have "cc_find (wraps (CryptoVfs 0)) = Some (CryptoVfs 0)" by (simp add: wraps_def)
  ultimately have "cr_xRead m plainVFS (cr_pMethods s2 7) 7 [0] 0 s2 = Deeper" for m
    using crypto_over_crypto_never_returns [OF _ _ twoLayers_New(1) _ o2, of 0 "[0]" m 0 "\<lambda>p w. ((), w)"] by simp
  with o2 show ?thesis by blast
qed

section \<open>Tweaks\<close>

lemma be64_inj: "be64 v = be64 w \<longleftrightarrow> v = w"
proof
  assume "be64 v = be64 w"
  then have "le_nat (le_bytes 8 (unat v)) = le_nat (le_bytes 8 (unat w))" by (simp add: be64_def)
  moreover have "unat v < 256 ^ 8" "unat w < 256 ^ 8" using unsigned_less [of v] unsigned_less [of w] by simp_all
  ultimately have "unat v = unat w" by (simp only: le_nat_le_bytes)
  then show "v = w" by (rule unsigned_word_eqI)
qed simp

lemma xtsPageMask_eq: "xtsPageMask = mask 56"
  by (simp add: xtsPageMask_def mask_eq_exp_minus_1)

lemma xtsSector_parts: "drop_bit 56 (xtsSector n k) = ucast k" "take_bit 56 (xtsSector n k) = take_bit 56 n"
proof -
  have k: "bit (ucast k :: 64 word) i \<Longrightarrow> i < 8" for i by (auto simp: bit_simps dest: bit_imp_le_length)
  show "drop_bit 56 (xtsSector n k) = ucast k"
    by (rule bit_eqI) (auto simp: xtsSector_def xtsPageMask_eq bit_simps dest: bit_imp_le_length)
  show "take_bit 56 (xtsSector n k) = take_bit 56 n"
    by (rule bit_eqI) (auto simp: xtsSector_def xtsPageMask_eq bit_simps)
qed

lemma xtsSector_inj:
  assumes "unat n < 2 ^ 56" "unat n' < 2 ^ 56" "xtsSector n k = xtsSector n' k'"
  shows "n = n' \<and> k = k'"
proof -
  have n: "take_bit 56 m = m" if "unat m < 2 ^ 56" for m :: "64 word"
    using that by (simp add: word_unat_eq_iff unsigned_take_bit_eq take_bit_nat_eq_self)
  have "ucast k = (ucast k' :: 64 word)" using xtsSector_parts(1) assms(3) by metis
  then have "unat (ucast k :: 64 word) = unat (ucast k' :: 64 word)" by simp
  moreover have "unat (ucast x :: 64 word) = unat x" for x :: byte
    using unat_byte_less [of x] by (simp add: unsigned_ucast_eq take_bit_nat_eq_self del: unat_byte_less)
  ultimately have "k = k'" by (simp add: word_unat_eq_iff)
  moreover have "n = take_bit 56 (xtsSector n k)" using n [OF assms(1)] by (simp only: xtsSector_parts)
  moreover have "n' = take_bit 56 (xtsSector n' k')" using n [OF assms(2)] by (simp only: xtsSector_parts)
  ultimately show ?thesis using assms(3) by metis
qed

text \<open>No two units of the files of one database are enciphered under the same tweak: the tweak of either
  cipher determines the page number and the kind of file, for Adiantum always and for AES-XTS below page
  \<open>2 ^ 56\<close>. The six kinds of file are different.\<close>

theorem tweak_separates:
  "(adiantum_tweak n k = adiantum_tweak n' k' \<longleftrightarrow> n = n' \<and> k = k') \<and>
   (unat n < 2 ^ 56 \<longrightarrow> unat n' < 2 ^ 56 \<longrightarrow> (xtsSector n k = xtsSector n' k' \<longleftrightarrow> n = n' \<and> k = k')) \<and>
   distinct [0, FileKindMainDB, FileKindMainJournal, FileKindWAL, FileKindTempDB, FileKindTempJournal, FileKindSubJournal]"
proof (intro conjI impI)
  show "adiantum_tweak n k = adiantum_tweak n' k' \<longleftrightarrow> n = n' \<and> k = k'"
    by (auto simp: adiantum_tweak_def be64_inj)
  show "xtsSector n k = xtsSector n' k' \<longleftrightarrow> n = n' \<and> k = k'" if "unat n < 2 ^ 56" "unat n' < 2 ^ 56"
    using xtsSector_inj [OF that] by blast
  show "distinct [0, FileKindMainDB, FileKindMainJournal, FileKindWAL, FileKindTempDB, FileKindTempJournal, FileKindSubJournal]"
    by (simp add: FileKindMainDB_def FileKindMainJournal_def FileKindWAL_def FileKindTempDB_def FileKindTempJournal_def
        FileKindSubJournal_def)
qed

theorem tweak_separates_witness: "xtsSector 5 FileKindWAL \<noteq> xtsSector 5 FileKindMainDB"
proof -
  have "unat (5 :: 64 word) < 2 ^ 56" "FileKindWAL \<noteq> FileKindMainDB" by (simp_all add: FileKindWAL_def FileKindMainDB_def)
  then show ?thesis using tweak_separates [of 5 FileKindWAL 5 FileKindMainDB] by blast
qed

end
