(* ===== verification/Cksm.thy ===== *)
theory Cksm
  imports Crypto_Vfs
begin

unbundle bit_operations_syntax

text \<open>
  The checksumming VFS \<^verbatim>\<open>src/vfs/cksm\<close>: the page checksum (\<^verbatim>\<open>cksm.go\<close>), registration, opening a file and
  the inspection of the database header (\<^verbatim>\<open>vfs.go\<close>), and the read and write paths (\<^verbatim>\<open>iomethods.go\<close>). The VFS
  beneath is a \<open>wmethods\<close>; \<open>cksm_methods\<close> is the resulting method table, so that it can be the VFS
  beneath the encrypting one.
\<close>

section \<open>The checksum\<close>

definition le_word :: "bytes \<Rightarrow> 32 word" where
  "le_word b = of_nat (le_nat b)"

definition sum_step :: "bytes \<Rightarrow> 32 word \<times> 32 word \<Rightarrow> 32 word \<times> 32 word" where
  "sum_step a = (\<lambda>(s1, s2). let s1' = s1 + (le_word (bslice 0 4 a) + s2); s2' = s2 + (le_word (bslice 4 8 a) + s1') in (s1', s2'))"

fun compute_loop :: "bytes \<Rightarrow> 32 word \<times> 32 word \<Rightarrow> 32 word \<times> 32 word" where
  "compute_loop a s = (if 8 \<le> length a then compute_loop (drop 8 a) (sum_step a s) else s)"

declare compute_loop.simps [simp del]

definition compute :: "bytes \<Rightarrow> bytes" where
  "compute a = (case compute_loop a (0, 0) of (s1, s2) \<Rightarrow> le_bytes 4 (unat s1) @ le_bytes 4 (unat s2))"

section \<open>State\<close>

text \<open>\<open>k_files\<close> is the file map, with the state of each file at its \<^verbatim>\<open>FS\<close>; \<open>k_open\<close> says which \<^verbatim>\<open>FS\<close> are
  registered. SQLite hands a file over with the state zeroed.\<close>

record cksmFile =
  kf_pageSize :: nat
  kf_enabled :: bool
  kf_isMain :: bool

record 'w cksmState =
  k_pageSize :: nat
  k_registered :: bool
  k_files :: "cksmFile ptrMap"
  k_w :: 'w

datatype cksmError = CkInvalidPageSize int | CkNoVFS | CkOutOfMemory | CkRegister rcode

text \<open>The C side of \<^verbatim>\<open>New\<close>: whether the VFS to wrap is found, whether the allocations succeed, and the
  code of the registration.\<close>

definition cksm_New :: "bool \<Rightarrow> bool \<Rightarrow> rcode \<Rightarrow> int \<Rightarrow> 'w \<Rightarrow> cksmError + 'w cksmState" where
  "cksm_New found mem rc optPageSize w =
     (let pageSize = (if optPageSize = 0 then 4096 else optPageSize) in
      if \<not> isValidPageSize pageSize then Inl (CkInvalidPageSize pageSize)
      else if \<not> found then Inl CkNoVFS
      else if \<not> mem then Inl CkOutOfMemory
      else if rc \<noteq> rc_ok then Inl (CkRegister rc)
      else Inr \<lparr>k_pageSize = nat pageSize, k_registered = True, k_files = [], k_w = w\<rparr>)"

definition cksm_xOpen :: "'w wmethods \<Rightarrow> string option \<Rightarrow> nat \<Rightarrow> 32 word \<Rightarrow> 'w cksmState \<Rightarrow> rcode \<times> 'w cksmState" where
  "cksm_xOpen W zName p flags s =
     (if \<not> k_registered s then (rc_internal, s)
      else (case w_open W zName p flags (k_w s) of (rc, w) \<Rightarrow>
        if rc \<noteq> rc_ok then (rc, s\<lparr>k_w := w\<rparr>)
        else let main = flags AND 0x100 \<noteq> 0;
                 pst = \<lparr>kf_pageSize = (if main then k_pageSize s else 0), kf_enabled = False, kf_isMain = main\<rparr>
             in (rc_ok, s\<lparr>k_w := w, k_files := PtrMap_Set p pst (k_files s)\<rparr>)))"

definition headerMagic :: bytes where
  "headerMagic = [0x53, 0x51, 0x4C, 0x69, 0x74, 0x65, 0x20, 0x66, 0x6F, 0x72, 0x6D, 0x61, 0x74, 0x20, 0x33, 0]"  \<comment> \<open>\<open>SQLite format 3\<close> and a NUL\<close>

definition initFromHeader :: "cksmFile \<Rightarrow> bytes \<Rightarrow> cksmFile" where
  "initFromHeader pst page =
     (if length page < 100 then pst
      else if take 16 page \<noteq> headerMagic then pst
      else pst\<lparr>kf_enabled := page ! 20 = 8\<rparr>)"

section \<open>Reading and writing\<close>

definition page_ok :: "bytes \<Rightarrow> bool" where
  "page_ok page \<longleftrightarrow> compute (take (length page - 8) page) = drop (length page - 8) page"

definition stamp :: "bytes \<Rightarrow> bytes" where
  "stamp page = blit (length page - 8) (compute (take (length page - 8) page)) page"

definition primed :: "cksmFile \<Rightarrow> nat \<Rightarrow> bytes \<Rightarrow> cksmFile" where
  "primed pst off page = (if off = 0 then initFromHeader pst page else pst)"

text \<open>A call on a file the package has not opened dereferences the nil of \<^verbatim>\<open>defaultMethodsFor\<close> and panics,
  before the guard of \<^verbatim>\<open>xRead\<close> is reached; \<^verbatim>\<open>xWrite\<close> has its guard first.\<close>

definition cksm_xRead :: "'w wmethods \<Rightarrow> nat \<Rightarrow> bytes \<Rightarrow> nat \<Rightarrow> 'w cksmState \<Rightarrow> ((rcode \<times> bytes) \<times> 'w cksmState) outcome" where
  "cksm_xRead W p buf off s = (case PtrMap_Get p (k_files s) of
     None \<Rightarrow> Panics
   | Some pst \<Rightarrow> (case w_read W p buf off (k_w s) of ((rc, page), w) \<Rightarrow>
       let s1 = s\<lparr>k_w := w\<rparr> in
       if \<not> kf_isMain pst then Returns ((rc, page), s1)
       else if rc \<noteq> rc_ok \<and> rc \<noteq> rc_short then Returns ((rc, page), s1)
       else let pst1 = primed pst off page; s2 = s1\<lparr>k_files := PtrMap_Set p pst1 (k_files s1)\<rparr> in
         if \<not> kf_enabled pst1 \<or> length buf \<noteq> kf_pageSize pst1 then Returns ((rc, page), s2)
         else if rc = rc_short then Returns ((rc, page), s2)
         else if \<not> page_ok page then Returns ((rc_ioerr_data, page), s2)
         else Returns ((rc, page), s2)))"

text \<open>The write stamps the caller's buffer in place, so it also returns the buffer.\<close>

definition cksm_xWrite :: "'w wmethods \<Rightarrow> nat \<Rightarrow> bytes \<Rightarrow> nat \<Rightarrow> 'w cksmState \<Rightarrow> (rcode \<times> bytes) \<times> 'w cksmState" where
  "cksm_xWrite W p src off s = (case PtrMap_Get p (k_files s) of
     None \<Rightarrow> ((rc_ioerr, src), s)
   | Some pst \<Rightarrow>
       let pst1 = (if kf_isMain pst then primed pst off src else pst);
           page = (if kf_isMain pst \<and> kf_enabled pst1 \<and> length src = kf_pageSize pst1 then stamp src else src)
       in (case w_write W p page off (k_w s) of
         (rc, w) \<Rightarrow> ((rc, page), s\<lparr>k_w := w, k_files := PtrMap_Set p pst1 (k_files s)\<rparr>)))"

definition cksm_xClose :: "'w wmethods \<Rightarrow> nat \<Rightarrow> 'w cksmState \<Rightarrow> (rcode \<times> 'w cksmState) outcome" where
  "cksm_xClose W p s = (case PtrMap_Get p (k_files s) of
     None \<Rightarrow> Panics
   | Some pst \<Rightarrow> (case w_close W p (k_w s) of
       (rc, w) \<Rightarrow> Returns (rc, s\<lparr>k_w := w, k_files := PtrMap_Delete p (k_files s)\<rparr>)))"

text \<open>The method table as another VFS sees it, on files that were opened through it: there its methods return.\<close>

fun returned :: "'a \<Rightarrow> 'a outcome \<Rightarrow> 'a" where
  "returned d (Returns x) = x"
| "returned d Panics = d"
| "returned d Deeper = d"

definition cksm_methods :: "'w wmethods \<Rightarrow> 'w cksmState wmethods" where
  "cksm_methods W = \<lparr>w_open = cksm_xOpen W, w_close = \<lambda>p s. returned (rc_ioerr, s) (cksm_xClose W p s),
     w_read = \<lambda>p buf off s. returned ((rc_ioerr, buf), s) (cksm_xRead W p buf off s),
     w_write = \<lambda>p src off s. (case cksm_xWrite W p src off s of ((rc, page), s') \<Rightarrow> (rc, s'))\<rparr>"

section \<open>What the checksum detects\<close>

lemma sums_cancel:
  fixes a b c d x y :: "32 word"
  assumes "a + (x + b) = c + (x + d)" "b + (y + (a + (x + b))) = d + (y + (c + (x + d)))"
  shows "a = c \<and> b = d"
proof -
  have "b = d" using assms(2) unfolding assms(1) by (rule add_right_imp_eq)
  then show ?thesis using assms(1) by simp
qed

lemma sum_step_inj_state:
  assumes "sum_step a s = sum_step a t"
  shows "s = t"
proof (cases s; cases t)
  fix s1 s2 t1 t2 assume st: "s = (s1, s2)" "t = (t1, t2)"
  show ?thesis
    using assms sums_cancel [of s1 "le_word (bslice 0 4 a)" s2 t1 t2 "le_word (bslice 4 8 a)"]
    unfolding st sum_step_def Let_def prod.case prod.inject by blast
qed

lemma unat_le_word: "length a = 4 \<Longrightarrow> unat (le_word a) = le_nat a"
  using le_nat_less [of a 4] by (simp add: le_word_def unsigned_of_nat take_bit_nat_eq_self)

lemma le_word_inj:
  assumes "length a = 4" "length b = 4" "le_word a = le_word b"
  shows "a = b"
  using unat_le_word [OF assms(1)] unat_le_word [OF assms(2)] le_bytes_le_nat [OF assms(1)] le_bytes_le_nat [OF assms(2)]
    assms(3) by metis

lemma unat_word32_less: "unat (z :: 32 word) < 256 ^ 4"
  using unsigned_less [of z, where 'a = nat] by simp

lemma sum_step_inj_block:
  assumes "8 \<le> length a" "8 \<le> length b" "sum_step a s = sum_step b s"
  shows "take 8 a = take 8 b"
proof -
  have "le_word (bslice 0 4 a) = le_word (bslice 0 4 b)" "le_word (bslice 4 8 a) = le_word (bslice 4 8 b)"
    using assms(3) by (cases s; auto simp: sum_step_def Let_def)+
  then have "bslice 0 4 a = bslice 0 4 b" "bslice 4 8 a = bslice 4 8 b"
    using assms(1,2) by (auto intro!: le_word_inj)
  moreover have "take 8 x = bslice 0 4 x @ bslice 4 8 x" for x :: bytes using bslice_join [of 0 4 8 x] by simp
  ultimately show ?thesis by simp
qed

lemma sum_step_prefix: "8 \<le> length a \<Longrightarrow> sum_step (a @ b) = sum_step a"
  by (simp add: sum_step_def slice_append_left)

lemma compute_loop_append:
  "8 dvd length a \<Longrightarrow> compute_loop (a @ b) s = compute_loop b (compute_loop a s)"
proof (induction a s rule: compute_loop.induct)
  case (1 a s)
  show ?case
  proof (cases "8 \<le> length a")
    case True
    then have "8 dvd length (drop 8 a)" using 1(2) by simp
    with 1(1) True have "compute_loop (drop 8 a @ b) (sum_step a s) = compute_loop b (compute_loop (drop 8 a) (sum_step a s))"
      by simp
    then show ?thesis using True by (subst (1 3) compute_loop.simps) (simp add: sum_step_prefix)
  next
    case False
    then have "a = []" using 1(2) by (auto dest: dvd_imp_le)
    then show ?thesis by (simp add: compute_loop.simps)
  qed
qed

lemma compute_loop_inj: "compute_loop a s = compute_loop a t \<Longrightarrow> s = t"
proof (induction "length a" arbitrary: a s t rule: less_induct)
  case less
  show ?case
  proof (cases "8 \<le> length a")
    case True
    then have "compute_loop (drop 8 a) (sum_step a s) = compute_loop (drop 8 a) (sum_step a t)"
      using less(2) by (subst (asm) (1 2) compute_loop.simps) simp
    then have "sum_step a s = sum_step a t"
      using less(1) [of "drop 8 a" "sum_step a s" "sum_step a t"] True by simp
    then show ?thesis by (rule sum_step_inj_state)
  next
    case False
    then show ?thesis using less(2) by (simp add: compute_loop.simps)
  qed
qed

lemma compute_eq: "compute a = compute b \<longleftrightarrow> compute_loop a (0, 0) = compute_loop b (0, 0)"
proof
  assume "compute a = compute b"
  moreover have "le_bytes 4 (unat x) = le_bytes 4 (unat y) \<Longrightarrow> x = y" for x y :: "32 word"
  proof -
    assume "le_bytes 4 (unat x) = le_bytes 4 (unat y)"
    then have "unat x mod 256 ^ 4 = unat y mod 256 ^ 4" by (metis le_nat_le_bytes_mod)
    then show "x = y" by (simp only: word_unat_eq_iff mod_less unat_word32_less)
  qed
  ultimately show "compute_loop a (0, 0) = compute_loop b (0, 0)"
    by (auto simp: compute_def split: prod.splits)
qed (simp add: compute_def)

text \<open>Two contents that differ in one aligned block of eight bytes have different checksums.\<close>

lemma compute_block:
  assumes "8 dvd length pre" "length x = 8" "length y = 8" "compute (pre @ x @ post) = compute (pre @ y @ post)"
  shows "x = y"
proof -
  let ?s = "compute_loop pre (0, 0)"
  have one: "compute_loop z ?s = sum_step z ?s" if "length z = 8" for z
    using that by (simp add: compute_loop.simps [of z] compute_loop.simps [of "[]"])
  have "compute_loop post (compute_loop x ?s) = compute_loop post (compute_loop y ?s)"
    using assms by (simp add: compute_eq compute_loop_append)
  then have "sum_step x ?s = sum_step y ?s" using compute_loop_inj one assms(2,3) by simp
  then show ?thesis using sum_step_inj_block [of x y] assms(2,3) by simp
qed

lemma length_compute [simp]: "length (compute a) = 8"
  by (simp add: compute_def split: prod.splits)

lemma length_stamp [simp]: "length (stamp page) = length page"
  by (simp add: stamp_def)

lemma stamp_parts:
  assumes "8 \<le> length page"
  shows "stamp page = take (length page - 8) page @ compute (take (length page - 8) page)"
  using assms by (simp add: stamp_def blit_def)

lemma stamp_page_ok: "8 \<le> length page \<Longrightarrow> page_ok (stamp page)"
  by (simp add: page_ok_def stamp_parts)

lemma blit_block:
  assumes "8 * k + 8 \<le> length b" "length x = 8"
  shows "blit (8 * k) x b = take (8 * k) b @ x @ drop (8 * k + 8) b"
  using assms by (simp add: blit_def)

text \<open>A stamped page in which one aligned block of eight bytes was replaced passes the check only if it is
  the page that was written.\<close>

lemma damaged_page:
  assumes "8 dvd length page" "8 * k + 8 \<le> length page" "length x = 8"
  shows "page_ok (blit (8 * k) x (stamp page)) \<longleftrightarrow> blit (8 * k) x (stamp page) = stamp page"
proof
  let ?n = "length page" and ?d = "blit (8 * k) x (stamp page)"
  let ?a = "take (?n - 8) page"
  have st: "stamp page = ?a @ compute ?a" using assms(2) by (intro stamp_parts) simp
  have la: "length ?a = ?n - 8" by simp
  assume ok: "page_ok ?d"
  show "?d = stamp page"
  proof (cases "8 * k + 8 \<le> ?n - 8")
    case True
    then have d: "?d = blit (8 * k) x ?a @ compute ?a" using assms(3) by (simp add: st blit_append_left)
    let ?m = "bslice (8 * k) (8 * k + 8) ?a"
    have cc: "compute (blit (8 * k) x ?a) = compute ?a" using ok by (simp add: page_ok_def d)
    have a1: "take (8 * k) ?a @ ?m @ drop (8 * k + 8) ?a = ?a"
      using bslice_join [of 0 "8 * k" "8 * k + 8" ?a] append_take_drop_id [of "8 * k + 8" ?a]
      by (simp only: append_assoc [symmetric] slice_0 zero_le le_add1)
    have a2: "blit (8 * k) x ?a = take (8 * k) ?a @ x @ drop (8 * k + 8) ?a"
      using True assms(3) la by (intro blit_block) simp_all
    have l: "length (take (8 * k) ?a) = 8 * k" "length ?m = 8" using True by simp_all
    have dv: "8 dvd length (take (8 * k) ?a)" unfolding l(1) by (rule dvd_triv_left)
    have "compute (take (8 * k) ?a @ x @ drop (8 * k + 8) ?a) = compute (take (8 * k) ?a @ ?m @ drop (8 * k + 8) ?a)"
      using cc unfolding a2 by (subst a1)
    then have "x = ?m" by (rule compute_block [OF dv assms(3) l(2)])
    then have "blit (8 * k) x ?a = ?a" using a1 a2 by argo
    then show ?thesis using d st by argo
  next
    case False
    then have "8 * k = ?n - 8" using assms(1,2) by presburger
    then have "?d = ?a @ x" using assms(3) la by (simp add: st blit_def)
    then show ?thesis using ok assms(3) st by (simp add: page_ok_def)
  qed
next
  assume "blit (8 * k) x (stamp page) = stamp page"
  then show "page_ok (blit (8 * k) x (stamp page))" using stamp_page_ok [of page] assms(2) by simp
qed

lemma primed_fields [simp]:
  "kf_pageSize (primed pst off page) = kf_pageSize pst" "kf_isMain (primed pst off page) = kf_isMain pst"
  by (simp_all add: primed_def initFromHeader_def)

lemma primed_damage:
  assumes "0 < off \<or> 3 \<le> k" "length x = 8" "8 * k + 8 \<le> length page"
  shows "kf_enabled (primed (primed pst off page) off (blit (8 * k) x (stamp page))) = kf_enabled (primed pst off page)"
proof (cases "off = 0 \<and> 100 \<le> length page")
  case True
  let ?d = "blit (8 * k) x (stamp page)"
  have k: "24 \<le> 8 * k" using assms(1) True by simp
  have "take 24 ?d = take 24 (stamp page)" using k assms(3) by (simp add: take_blit_prefix)
  moreover have "24 \<le> length page - 8" using True by linarith
  then have "take 24 (stamp page) = take 24 page" by (simp add: stamp_def take_blit_prefix)
  ultimately have t: "take 24 ?d = take 24 page" by (rule trans)
  have "take 16 ?d = take 16 page" using arg_cong [OF t, of "take 16"] by simp
  moreover have "?d ! 20 = page ! 20" using arg_cong [OF t, of "\<lambda>l. l ! 20"] by simp
  ultimately show ?thesis using True by (simp add: primed_def initFromHeader_def)
qed (use assms(1) in \<open>auto simp: primed_def initFromHeader_def\<close>)


definition demoCksm :: "(nat \<Rightarrow> bytes) cksmState" where
  "demoCksm = \<lparr>k_pageSize = 512, k_registered = True,
     k_files = [(7, \<lparr>kf_pageSize = 512, kf_enabled = True, kf_isMain = True\<rparr>)], k_w = \<lambda>p. []\<rparr>"


section \<open>Checksums beneath encryption\<close>

text \<open>The state of the encrypting VFS when the checksum layer is taken out.\<close>

definition without_cksm :: "'w cksmState cryptoState \<Rightarrow> 'w cryptoState" where
  "without_cksm s = \<lparr>cr_fss = cr_fss s, cr_registry = cr_registry s, cr_fileMap = cr_fileMap s, cr_slot = cr_slot s,
     cr_pMethods = cr_pMethods s, cr_w = k_w (cr_w s)\<rparr>"

definition cksm_idle :: "nat \<Rightarrow> 'w cksmState \<Rightarrow> bool" where
  "cksm_idle p s \<longleftrightarrow> (case PtrMap_Get p (k_files s) of None \<Rightarrow> False | Some pst \<Rightarrow> \<not> kf_enabled pst)"

lemma primed_idle: "off = 0 \<longrightarrow> take 16 page \<noteq> headerMagic \<Longrightarrow> primed pst off page = pst"
  by (simp add: primed_def initFromHeader_def)

lemma idle_set: "PtrMap_Get p m = Some pst \<Longrightarrow> PtrMap_Get q (PtrMap_Set p pst m) = PtrMap_Get q m"
  by (auto simp: ptrmap_laws)

lemma idle_read:
  assumes "cksm_idle p s" "w_read W p buf off (k_w s) = ((rc, b), w)" "off = 0 \<longrightarrow> take 16 b \<noteq> headerMagic"
  obtains s' where "w_read (cksm_methods W) p buf off s = ((rc, b), s')" "k_w s' = w" "cksm_idle p s'"
proof -
  obtain pst where pst: "PtrMap_Get p (k_files s) = Some pst" "\<not> kf_enabled pst"
    using assms(1) by (auto simp: cksm_idle_def split: option.splits)
  let ?s = "if kf_isMain pst \<and> (rc = rc_ok \<or> rc = rc_short) then s\<lparr>k_w := w, k_files := PtrMap_Set p pst (k_files s)\<rparr>
    else s\<lparr>k_w := w\<rparr>"
  have "cksm_xRead W p buf off s = Returns ((rc, b), ?s)"
    using pst assms(2) primed_idle [OF assms(3), of pst] by (simp add: cksm_xRead_def Let_def)
  then show ?thesis
    using pst by (intro that [of ?s]) (simp_all add: cksm_methods_def cksm_idle_def idle_set)
qed

lemma idle_write:
  assumes "cksm_idle p s" "w_write W p src off (k_w s) = (rc, w)" "off = 0 \<longrightarrow> take 16 src \<noteq> headerMagic"
  obtains s' where "w_write (cksm_methods W) p src off s = (rc, s')" "k_w s' = w" "cksm_idle p s'"
proof -
  obtain pst where pst: "PtrMap_Get p (k_files s) = Some pst" "\<not> kf_enabled pst"
    using assms(1) by (auto simp: cksm_idle_def split: option.splits)
  let ?s = "s\<lparr>k_w := w, k_files := PtrMap_Set p pst (k_files s)\<rparr>"
  have "cksm_xWrite W p src off s = ((rc, src), ?s)"
    using pst assms(2) primed_idle [OF assms(3), of pst] by (simp add: cksm_xWrite_def Let_def)
  then show ?thesis
    using pst by (intro that [of ?s]) (simp_all add: cksm_methods_def cksm_idle_def idle_set)
qed

text \<open>A write of whole units takes the fast path.\<close>

lemma whole_units:
  assumes "0 < u" "u dvd off" "u dvd length src"
  shows "unit_start u off = off" "unit_end u off (length src) - unit_start u off = length src"
proof -
  have "unit_end u off (length src) = off + length src"
    using unit_end_le_iff [OF assms(1), of "off + length src" off "length src"] unit_bounds(2) [OF assms(1), of off "length src"] assms
    by simp
  then show "unit_start u off = off" "unit_end u off (length src) - unit_start u off = length src"
    using assms by (simp_all add: unit_start_def)
qed

lemma without_cksm_file: "fs_and_state p (without_cksm s) = fs_and_state p s"
  by (simp add: fs_and_state_def without_cksm_def split: option.split)

text \<open>C26: With the encrypting VFS on top of the checksumming one, the checksum layer sees only ciphertext: while
  it is idle and the bytes at the start of the file are not the header of a plain database, a read and a
  whole-unit write through both layers do exactly what they do without the checksum layer, and it stays
  idle. Nothing is stamped and no damage is reported.\<close>

theorem cksm_beneath_crypto_inert:
  assumes "encrypted_file p s ci kind u" "cksm_idle p (cr_w s)" "buf \<noteq> []" "src \<noteq> []"
    and rd: "\<And>n. take 16 (snd (fst (w_read W p (replicate n 0) 0 (k_w (cr_w s))))) \<noteq> headerMagic"
    and wr: "off' = 0 \<Longrightarrow> take 16 (encryptSpan ci src 0 u kind) \<noteq> headerMagic"
    and whole: "u dvd off'" "u dvd length src"
  shows "(\<exists>r s1. cr_xRead (n + 2) (cksm_methods W) (CryptoVfs j) p buf off s = Returns (r, s1) \<and> cksm_idle p (cr_w s1) \<and>
      cr_xRead (n + 2) W (CryptoVfs j) p buf off (without_cksm s) = Returns (r, without_cksm s1)) \<and>
    (\<exists>rc s1. cr_xWrite (n + 2) (cksm_methods W) (CryptoVfs j) p src off' s = Returns (rc, s1) \<and> cksm_idle p (cr_w s1) \<and>
      cr_xWrite (n + 2) W (CryptoVfs j) p src off' (without_cksm s) = Returns (rc, without_cksm s1))"
proof -
  obtain fs pst where f: "fs_and_state p s = Some (fs, pst)" "ps_fsToken pst \<noteq> 0" "ps_defaultMethods pst = BaseVfs"
    "fs_cipher fs = Some ci" "ps_fileKind pst = kind" "u = cryptUnitFor kind (fs_pageSize fs)" "0 < u"
    using assms(1) by (rule encrypted_fileE)
  note fwo = without_cksm_file [of p s, unfolded f(1) without_cksm_def]
  define st e where se: "st = unit_start u off" "e = unit_end u off (length buf)"
  have ne: "e - st \<noteq> 0" using span_bounds(6) [OF f(7) se] assms(3) by simp
  obtain rc x w where base: "w_read W p (replicate (e - st) 0) st (k_w (cr_w s)) = ((rc, x), w)" by (metis prod.exhaust)
  have "st = 0 \<longrightarrow> take 16 x \<noteq> headerMagic" using rd [of "e - st"] base by auto
  then obtain k where k: "w_read (cksm_methods W) p (replicate (e - st) 0) st (cr_w s) = ((rc, x), k)" "k_w k = w" "cksm_idle p k"
    using idle_read [OF assms(2) base] by blast
  have R: "\<exists>r s1. cr_xRead (n + 2) (cksm_methods W) (CryptoVfs j) p buf off s = Returns (r, s1) \<and> cksm_idle p (cr_w s1) \<and>
      cr_xRead (n + 2) W (CryptoVfs j) p buf off (without_cksm s) = Returns (r, without_cksm s1)"
    using f(2) ne k base
    by (simp add: numeral_2_eq_2 Let_def f(1,3-5) fwo without_cksm_def flip: f(6) se)
  note wu = whole_units [OF f(7) whole]
  have ne': "\<not> unit_end u off' (length src) \<le> off'" using wu assms(4) by (metis diff_is_0_eq length_0_conv)
  obtain rcw ww where bw: "w_write W p (encryptSpan ci src off' u kind) off' (k_w (cr_w s)) = (rcw, ww)" by (metis prod.exhaust)
  have "off' = 0 \<longrightarrow> take 16 (encryptSpan ci src off' u kind) \<noteq> headerMagic" using wr by auto
  then obtain k' where k': "w_write (cksm_methods W) p (encryptSpan ci src off' u kind) off' (cr_w s) = (rcw, k')" "k_w k' = ww" "cksm_idle p k'"
    using idle_write [OF assms(2) bw] by blast
  have W: "\<exists>rc s1. cr_xWrite (n + 2) (cksm_methods W) (CryptoVfs j) p src off' s = Returns (rc, s1) \<and> cksm_idle p (cr_w s1) \<and>
      cr_xWrite (n + 2) W (CryptoVfs j) p src off' (without_cksm s) = Returns (rc, without_cksm s1)"
    using f(2) k' bw ne' wu(2)
    by (simp add: numeral_2_eq_2 Let_def f(1,3-5) fwo fetchSpan_def wu(1) without_cksm_def flip: f(6))
  show ?thesis using R W by blast
qed

text \<open>A main database opened through both layers, and the first page of a database written to it.\<close>

definition cksmBase :: "(nat \<Rightarrow> bytes) cksmState" where
  "cksmBase = \<lparr>k_pageSize = 4096, k_registered = True, k_files = [], k_w = \<lambda>p. []\<rparr>"

definition bothLayers :: "(nat \<Rightarrow> bytes) cksmState cryptoState" where
  "bothLayers = snd (returned (0, noFiles cksmBase)
     (cr_xOpen (0 + 2) (cksm_methods plainVFS) (CryptoVfs 0) (Some ''db'') 7 0x106 (oneLayer cksmBase)))"

definition firstPage :: bytes where "firstPage = headerMagic @ replicate 4080 8"

lemma bothLayers_open:
  "cr_xOpen (0 + 2) (cksm_methods plainVFS) (CryptoVfs 0) (Some ''db'') 7 0x106 (oneLayer cksmBase) = Returns (rc_ok, bothLayers)"
  "cksm_idle 7 (cr_w bothLayers)" "k_w (cr_w bothLayers) = (\<lambda>p. [])"
  by (simp_all add: bothLayers_def numeral_2_eq_2 oneLayer_New Lookup_def plainVFS_def cksm_methods_def cksm_xOpen_def
      cksmBase_def Let_def after_open_def cksm_idle_def PtrMap_Set_def PtrMap_Get_def)

theorem cksm_beneath_crypto_inert_witness:
  "\<exists>rc s1. cr_xWrite 2 (cksm_methods plainVFS) (CryptoVfs 0) 7 firstPage 0 bothLayers = Returns (rc, s1) \<and>
     cksm_idle 7 (cr_w s1)"
proof -
  have "fileKindFor 0x106 = 1" by (simp add: fileKindFor_def FileKindMainDB_def)
  moreover have "fileKindFor 0x106 \<noteq> 0 \<Longrightarrow>
      encrypted_file 7 bothLayers notCipher (fileKindFor 0x106) (cryptUnitFor (fileKindFor 0x106) 4096)"
    using open_encrypts [OF _ _ _ _ _ _ _ bothLayers_open(1), of 0 notCipher] by (simp add: oneLayer_New Lookup_def)
  ultimately have enc: "encrypted_file 7 bothLayers notCipher 1 4096" by (simp add: cryptUnitFor_def FileKindMainDB_def)
  have len: "length firstPage = 4096" by (simp add: firstPage_def headerMagic_def)
  have "take 16 (encryptSpan notCipher firstPage 0 4096 1) = map not headerMagic"
    unfolding encryptSpan_def
    by (subst crypt_units.simps)
       (simp add: len enc_unit_def notCipher_def adiantumCipher_def notLib_def take_map firstPage_def headerMagic_def)
  then have wr: "take 16 (encryptSpan notCipher firstPage 0 4096 1) \<noteq> headerMagic" by (simp add: headerMagic_def)
  have rd: "take 16 (snd (fst (w_read plainVFS 7 (replicate n 0) 0 (k_w (cr_w bothLayers))))) \<noteq> headerMagic" for n
    by (cases n) (auto simp: plainVFS_def bothLayers_open read_zeros_def headerMagic_def)
  have ne: "firstPage \<noteq> []" "[0 :: byte] \<noteq> []" using len by auto
  have "\<exists>rc s1. cr_xWrite (0 + 2) (cksm_methods plainVFS) (CryptoVfs 0) 7 firstPage 0 bothLayers = Returns (rc, s1) \<and>
      cksm_idle 7 (cr_w s1)"
    using cksm_beneath_crypto_inert [OF enc bothLayers_open(2) ne(2,1) rd wr, of 0 0 0 0] len by auto
  then show ?thesis unfolding add_0 .
qed

end
