(* ===== verification/Blobstore.thy ===== *)
theory Blobstore
  imports Prelude Hashes
begin

text \<open>
  \<^verbatim>\<open>blobstore\<close>: growable byte objects kept in SQL tables. An object is cut into chunks; a chunk maps to a row of the block table,
  which holds the bytes once and counts the chunks that map to it, so that a clone or a version shares its bytes with the
  original until one of them is written. This theory has the tables and the operations (\<^verbatim>\<open>blobstore.go\<close>, \<^verbatim>\<open>io.go\<close>, \<^verbatim>\<open>codec.go\<close>,
  \<^verbatim>\<open>dedup.go\<close>, \<^verbatim>\<open>clone.go\<close>, \<^verbatim>\<open>versioning.go\<close>, \<^verbatim>\<open>conn.go\<close>).

  A table is an association list from its primary key to the other columns, and an SQL statement the function it
  computes on the tables. An operation returns its result or error together with the tables as it leaves them, also on an
  error; \<^verbatim>\<open>withTx\<close> restores them then. A row id is a natural number: the ids the tables hand out start at 1. The compressor
  \<^verbatim>\<open>github.com/go-again/az\<close> is an argument.
\<close>

section \<open>Tables\<close>

record objrow =
  o_size :: nat
  o_chunk :: nat
  o_codec :: nat
  o_level :: nat
  o_keep :: int
  o_maxage :: int
  o_created :: int

record blockrow =
  k_data :: bytes
  k_enc :: nat
  k_refs :: int
  k_hash :: "bytes option"

record verrow =
  v_obj :: nat
  v_no :: nat
  v_created :: int
  v_snap :: nat
  v_label :: "bytes option"

record bdb =
  t_objs :: "(nat \<times> objrow) list"
  t_blocks :: "(nat \<times> blockrow) list"
  t_chunks :: "((nat \<times> nat) \<times> nat) list"
  t_versions :: "verrow list"

record bstore =
  bs_chunkSize :: nat
  bs_compression :: nat
  bs_dedup :: bool
  bs_readOnly :: bool

datatype berr = BNotFound | BReadOnly | BCorruptChunk | BNegativeOffset | BNegativeSize | BOffsetOverflow | BNoRows | BNoSuchBlob
  | BPastEnd | BInt32 | BVerbatimTooLong | BDecodedTooLarge | BDecodedLength | BVanished | BCodec nat | BUnfinished

type_synonym 'a bop = "bdb \<Rightarrow> (berr + 'a) \<times> bdb"

definition bret :: "'a \<Rightarrow> 'a bop" where
  "bret x s = (Inr x, s)"

definition bfail :: "berr \<Rightarrow> 'a bop" where
  "bfail e s = (Inl e, s)"

definition bbind :: "'a bop \<Rightarrow> ('a \<Rightarrow> 'b bop) \<Rightarrow> 'b bop" where
  "bbind m f s = (case m s of (Inl e, s') \<Rightarrow> (Inl e, s') | (Inr x, s') \<Rightarrow> f x s')"

definition lift_res :: "berr + 'a \<Rightarrow> 'a bop" where
  "lift_res r s = (r, s)"

text \<open>SQLite gives a new row the id after the largest one in the table.\<close>

definition rowid_new :: "(nat \<times> 'r) list \<Rightarrow> nat" where
  "rowid_new t = Suc (foldr (\<lambda>p. max (fst p)) t 0)"

definition upd_row :: "nat \<Rightarrow> ('r \<Rightarrow> 'r) \<Rightarrow> (nat \<times> 'r) list \<Rightarrow> (nat \<times> 'r) list" where
  "upd_row i f t = map (\<lambda>p. if fst p = i then (fst p, f (snd p)) else p) t"

section \<open>Compression (\<^verbatim>\<open>codec.go\<close>)\<close>

datatype azerr = AzTooLarge | AzError nat

record azlib =
  az_EncodeAll :: "nat \<Rightarrow> bytes \<Rightarrow> nat + bytes"
  az_DecodeAllLimit :: "bytes \<Rightarrow> nat \<Rightarrow> azerr + bytes"

definition codecRaw :: nat where "codecRaw = 0"
definition codecAZ :: nat where "codecAZ = 1"
definition encVerbatim :: nat where "encVerbatim = 0"
definition encAZ :: nat where "encAZ = 1"

definition azLevel :: "nat \<Rightarrow> nat option" where
  "azLevel c = (if 1 \<le> c \<and> c \<le> 5 then Some c else None)"

definition azLevelOrDefault :: "nat \<Rightarrow> nat" where
  "azLevelOrDefault c = (case azLevel c of Some l \<Rightarrow> l | None \<Rightarrow> 3)"

definition writeLevel :: "nat \<Rightarrow> nat \<Rightarrow> nat" where
  "writeLevel objOverride st = (case azLevel objOverride of Some l \<Rightarrow> l | None \<Rightarrow> azLevelOrDefault st)"

definition encodeChunk :: "azlib \<Rightarrow> bytes \<Rightarrow> nat \<Rightarrow> berr + bytes \<times> nat" where
  "encodeChunk az plain lvl = (case az_EncodeAll az lvl plain of
       Inl e \<Rightarrow> Inl (BCodec e)
     | Inr frame \<Rightarrow> if length plain \<le> length frame then Inr (plain, encVerbatim) else Inr (frame, encAZ))"

definition decodeChunk :: "azlib \<Rightarrow> bytes \<Rightarrow> nat \<Rightarrow> nat \<Rightarrow> berr + bytes" where
  "decodeChunk az data enc mx =
     (if enc = encVerbatim then if mx < length data then Inl BVerbatimTooLong else Inr data
      else (case az_DecodeAllLimit az data mx of
          Inl AzTooLarge \<Rightarrow> Inl BDecodedTooLarge
        | Inl (AzError e) \<Rightarrow> Inl (BCodec e)
        | Inr plain \<Rightarrow> Inr plain))"

definition Compress :: "azlib \<Rightarrow> bytes \<Rightarrow> nat \<Rightarrow> berr + bytes \<times> nat" where
  "Compress az plain level = (case azLevel level of None \<Rightarrow> Inr (plain, encVerbatim) | Some l \<Rightarrow> encodeChunk az plain l)"

definition Decompress :: "azlib \<Rightarrow> bytes \<Rightarrow> nat \<Rightarrow> nat \<Rightarrow> berr + bytes" where
  "Decompress az data enc maxSize = decodeChunk az data enc maxSize"

section \<open>Blocks and the chunk mapping\<close>

definition maxChunkSize :: nat where "maxChunkSize = 2 ^ 30"

definition checkChunk :: "nat \<Rightarrow> unit bop" where
  "checkChunk chunk = (if chunk = 0 \<or> maxChunkSize < chunk then bfail BCorruptChunk else bret ())"

definition blockOf :: "bdb \<Rightarrow> nat \<Rightarrow> nat \<Rightarrow> nat option" where
  "blockOf s i q = map_of (t_chunks s) (i, q)"

definition blockRefs :: "nat \<Rightarrow> int bop" where
  "blockRefs b s = (case map_of (t_blocks s) b of None \<Rightarrow> bfail BNoRows s | Some r \<Rightarrow> bret (k_refs r) s)"

definition insertBlock :: "blockrow \<Rightarrow> nat bop" where
  "insertBlock r s = (let b = rowid_new (t_blocks s) in bret b (s\<lparr>t_blocks := t_blocks s @ [(b, r)]\<rparr>))"

definition newBlock :: "bytes \<Rightarrow> nat \<Rightarrow> nat bop" where
  "newBlock data enc = insertBlock \<lparr>k_data = data, k_enc = enc, k_refs = 1, k_hash = None\<rparr>"

definition newHashedBlock :: "bytes \<Rightarrow> nat \<Rightarrow> bytes \<Rightarrow> nat bop" where
  "newHashedBlock data enc h = insertBlock \<lparr>k_data = data, k_enc = enc, k_refs = 1, k_hash = Some h\<rparr>"

definition copyBlock :: "nat \<Rightarrow> nat bop" where
  "copyBlock src s = (case map_of (t_blocks s) src of
       None \<Rightarrow> bfail BNoRows s
     | Some r \<Rightarrow> newBlock (k_data r) (k_enc r) s)"

definition mapChunk :: "nat \<Rightarrow> nat \<Rightarrow> nat \<Rightarrow> unit bop" where
  "mapChunk i q b s = bret () (s\<lparr>t_chunks := AList.update (i, q) b (t_chunks s)\<rparr>)"

definition updBlock :: "nat \<Rightarrow> (blockrow \<Rightarrow> blockrow) \<Rightarrow> unit bop" where
  "updBlock b f s = bret () (s\<lparr>t_blocks := upd_row b f (t_blocks s)\<rparr>)"

definition decBlockRef :: "nat \<Rightarrow> unit bop" where
  "decBlockRef b = updBlock b (\<lambda>r. r\<lparr>k_refs := k_refs r - 1\<rparr>)"

definition releaseBlock :: "nat \<Rightarrow> unit bop" where
  "releaseBlock b = bbind (decBlockRef b) (\<lambda>_ s.
     bret () (s\<lparr>t_blocks := filter (\<lambda>p. \<not> (fst p = b \<and> k_refs (snd p) \<le> 0)) (t_blocks s)\<rparr>))"

definition in_range :: "nat \<Rightarrow> int option \<Rightarrow> (nat \<times> nat) \<times> nat \<Rightarrow> bool" where
  "in_range i from c \<longleftrightarrow> fst (fst c) = i \<and> (case from of None \<Rightarrow> True | Some f \<Rightarrow> f \<le> int (snd (fst c)))"

definition chunk_count :: "((nat \<times> nat) \<times> nat) list \<Rightarrow> nat \<Rightarrow> nat" where
  "chunk_count cs b = length (filter (\<lambda>c. snd c = b) cs)"

definition releaseChunks :: "nat \<Rightarrow> int option \<Rightarrow> unit bop" where
  "releaseChunks i from s =
     (let sel = filter (in_range i from) (t_chunks s);
          s1 = s\<lparr>t_blocks := map (\<lambda>p. (fst p, (snd p)\<lparr>k_refs := k_refs (snd p) - int (chunk_count sel (fst p))\<rparr>)) (t_blocks s)\<rparr>;
          s2 = s1\<lparr>t_blocks := filter (\<lambda>p. \<not> (k_refs (snd p) \<le> 0 \<and> fst p \<in> set (map snd sel))) (t_blocks s1)\<rparr>
      in bret () (s2\<lparr>t_chunks := filter (\<lambda>c. \<not> in_range i from c) (t_chunks s2)\<rparr>))"

section \<open>Deduplication (\<^verbatim>\<open>dedup.go\<close>)\<close>

definition blockHash :: "bytes \<Rightarrow> nat \<Rightarrow> bytes" where
  "blockHash data enc = sha256 (word_of_nat enc # data)"

definition blockByHash :: "bdb \<Rightarrow> bytes \<Rightarrow> nat option" where
  "blockByHash s h = map_option fst (List.find (\<lambda>p. k_hash (snd p) = Some h) (t_blocks s))"

definition release_cur :: "nat option \<Rightarrow> unit bop" where
  "release_cur cur = (case cur of None \<Rightarrow> bret () | Some c \<Rightarrow> releaseBlock c)"

definition putBlockDedup :: "nat \<Rightarrow> nat \<Rightarrow> bytes \<Rightarrow> nat \<Rightarrow> unit bop" where
  "putBlockDedup i q data enc s =
     (let h = blockHash data enc; cur = blockOf s i q in
      case blockByHash s h of
        Some existing \<Rightarrow>
          if cur = Some existing then bret () s
          else bbind (updBlock existing (\<lambda>r. r\<lparr>k_refs := k_refs r + 1\<rparr>)) (\<lambda>_.
               bbind (mapChunk i q existing) (\<lambda>_. release_cur cur)) s
      | None \<Rightarrow>
          bbind (newHashedBlock data enc h) (\<lambda>b. bbind (mapChunk i q b) (\<lambda>_. release_cur cur)) s)"

definition putBlock :: "bstore \<Rightarrow> nat \<Rightarrow> nat \<Rightarrow> bytes \<Rightarrow> nat \<Rightarrow> unit bop" where
  "putBlock st i q data enc s =
     (if bs_dedup st then putBlockDedup i q data enc s
      else (case blockOf s i q of
          None \<Rightarrow> bbind (newBlock data enc) (mapChunk i q) s
        | Some cur \<Rightarrow>
            bbind (blockRefs cur) (\<lambda>refs.
              if refs \<le> 1 then updBlock cur (\<lambda>r. r\<lparr>k_data := data, k_enc := enc, k_hash := None\<rparr>)
              else bbind (newBlock data enc) (\<lambda>b. bbind (mapChunk i q b) (\<lambda>_. decBlockRef cur))) s))"

definition privateRawBlock :: "bstore \<Rightarrow> nat \<Rightarrow> nat \<Rightarrow> nat \<Rightarrow> nat bop" where
  "privateRawBlock st i q chunk s =
     (case blockOf s i q of
        None \<Rightarrow> bbind (newBlock (replicate chunk 0) encVerbatim) (\<lambda>b. bbind (mapChunk i q b) (\<lambda>_. bret b)) s
      | Some cur \<Rightarrow>
          bbind (blockRefs cur) (\<lambda>refs.
            if refs \<le> 1 then
              bbind (if bs_dedup st then updBlock cur (\<lambda>r. r\<lparr>k_hash := None\<rparr>) else bret ()) (\<lambda>_. bret cur)
            else bbind (copyBlock cur) (\<lambda>b. bbind (mapChunk i q b) (\<lambda>_. bbind (decBlockRef cur) (\<lambda>_. bret b)))) s)"

section \<open>Incremental BLOB I/O (\<^verbatim>\<open>blob.go\<close>)\<close>

definition blob_ReadAt :: "bytes \<Rightarrow> bytes \<Rightarrow> nat \<Rightarrow> berr + bytes" where
  "blob_ReadAt data dst off =
     (if length data \<le> off then Inr dst
      else let n = min (length dst) (length data - off) in
        if n = 0 then Inr dst
        else if 2 ^ 31 - 1 < off \<or> 2 ^ 31 - 1 < n then Inl BInt32
        else Inr (blit 0 (bslice off (off + n) data) dst))"

definition blob_WriteAt :: "bytes \<Rightarrow> bytes \<Rightarrow> nat \<Rightarrow> berr + bytes" where
  "blob_WriteAt data src off =
     (if length data < length src + off then Inl BPastEnd
      else if src = [] then Inr data
      else if 2 ^ 31 - 1 < off \<or> 2 ^ 31 - 1 < length src then Inl BInt32
      else Inr (blit off src data))"

definition blobWrite :: "nat \<Rightarrow> bytes \<Rightarrow> nat \<Rightarrow> unit bop" where
  "blobWrite b src off s = (case map_of (t_blocks s) b of
       None \<Rightarrow> bfail BNoSuchBlob s
     | Some r \<Rightarrow> (case blob_WriteAt (k_data r) src off of
          Inl e \<Rightarrow> bfail e s
        | Inr data \<Rightarrow> updBlock b (\<lambda>r. r\<lparr>k_data := data\<rparr>) s))"

definition blobRead :: "bdb \<Rightarrow> nat \<Rightarrow> bytes \<Rightarrow> nat \<Rightarrow> berr + bytes" where
  "blobRead s b dst off = (case map_of (t_blocks s) b of None \<Rightarrow> Inl BNoSuchBlob | Some r \<Rightarrow> blob_ReadAt (k_data r) dst off)"

section \<open>Chunks\<close>

definition joinBlock :: "bdb \<Rightarrow> nat \<Rightarrow> nat \<Rightarrow> blockrow option" where
  "joinBlock s i q = Option.bind (map_of (t_chunks s) (i, q)) (map_of (t_blocks s))"

definition chunkGetCompressed :: "azlib \<Rightarrow> bdb \<Rightarrow> nat \<Rightarrow> nat \<Rightarrow> nat \<Rightarrow> berr + bytes option" where
  "chunkGetCompressed az s i q chunk = (case joinBlock s i q of
       None \<Rightarrow> Inr None
     | Some r \<Rightarrow> (case decodeChunk az (k_data r) (k_enc r) chunk of
          Inl e \<Rightarrow> Inl e
        | Inr plain \<Rightarrow> if length plain \<noteq> chunk then Inl BDecodedLength else Inr (Some plain)))"

definition chunkPutCompressed :: "azlib \<Rightarrow> bstore \<Rightarrow> nat \<Rightarrow> nat \<Rightarrow> bytes \<Rightarrow> nat \<Rightarrow> unit bop" where
  "chunkPutCompressed az st i q plain objLevel s = (case encodeChunk az plain (writeLevel objLevel (bs_compression st)) of
       Inl e \<Rightarrow> bfail e s
     | Inr (data, enc) \<Rightarrow> putBlock st i q data enc s)"

definition chunkPutRaw :: "bstore \<Rightarrow> nat \<Rightarrow> nat \<Rightarrow> bytes \<Rightarrow> unit bop" where
  "chunkPutRaw st i q plain = putBlock st i q plain encVerbatim"

definition writeChunkRaw :: "bstore \<Rightarrow> nat \<Rightarrow> nat \<Rightarrow> nat \<Rightarrow> nat \<Rightarrow> bytes \<Rightarrow> unit bop" where
  "writeChunkRaw st i q chunk inOff src = bbind (privateRawBlock st i q chunk) (\<lambda>b. blobWrite b src inOff)"

definition writeChunkCompressed :: "azlib \<Rightarrow> bstore \<Rightarrow> nat \<Rightarrow> nat \<Rightarrow> nat \<Rightarrow> nat \<Rightarrow> bytes \<Rightarrow> nat \<Rightarrow> unit bop" where
  "writeChunkCompressed az st i q chunk inOff src objLevel s =
     (if inOff = 0 \<and> length src = chunk then chunkPutCompressed az st i q src objLevel s
      else (case chunkGetCompressed az s i q chunk of
          Inl e \<Rightarrow> bfail e s
        | Inr p \<Rightarrow> let plain = (case p of None \<Rightarrow> replicate chunk 0 | Some x \<Rightarrow> x)
                  in chunkPutCompressed az st i q (blit inOff src plain) objLevel s))"

definition readChunkRaw :: "bdb \<Rightarrow> nat \<Rightarrow> nat \<Rightarrow> nat \<Rightarrow> bytes \<Rightarrow> berr + bytes" where
  "readChunkRaw s i q inOff dst = (case blockOf s i q of
       None \<Rightarrow> Inr (replicate (length dst) 0)
     | Some b \<Rightarrow> blobRead s b dst inOff)"

definition readChunkCompressed :: "azlib \<Rightarrow> bdb \<Rightarrow> nat \<Rightarrow> nat \<Rightarrow> nat \<Rightarrow> nat \<Rightarrow> bytes \<Rightarrow> berr + bytes" where
  "readChunkCompressed az s i q chunk inOff dst = (case chunkGetCompressed az s i q chunk of
       Inl e \<Rightarrow> Inl e
     | Inr None \<Rightarrow> Inr (replicate (length dst) 0)
     | Inr (Some plain) \<Rightarrow> Inr (bslice inOff (inOff + length dst) plain))"

definition zeroChunkTail :: "azlib \<Rightarrow> bstore \<Rightarrow> nat \<Rightarrow> nat \<Rightarrow> nat \<Rightarrow> nat \<Rightarrow> bool \<Rightarrow> nat \<Rightarrow> unit bop" where
  "zeroChunkTail az st i q from chunk compressed objLevel s =
     (if compressed then
        (case chunkGetCompressed az s i q chunk of
           Inl e \<Rightarrow> bfail e s
         | Inr None \<Rightarrow> bret () s
         | Inr (Some plain) \<Rightarrow> chunkPutCompressed az st i q (take from plain @ replicate (length plain - from) 0) objLevel s)
      else if blockOf s i q = None then bret () s
      else bbind (privateRawBlock st i q chunk) (\<lambda>b. blobWrite b (replicate (chunk - from) 0) from) s)"

section \<open>Reading and writing objects (\<^verbatim>\<open>io.go\<close>)\<close>

text \<open>The spans \<^verbatim>\<open>eachChunkSpan\<close> visits: the chunk, the offset in it, the length and the offset in the buffer.\<close>

function chunkSpans :: "nat \<Rightarrow> nat \<Rightarrow> nat \<Rightarrow> nat \<Rightarrow> (nat \<times> nat \<times> nat \<times> nat) list" where
  "chunkSpans pos end chunk bufOff =
     (if end \<le> pos \<or> chunk = 0 then []
      else let span = min (chunk - pos mod chunk) (end - pos)
           in (pos div chunk, pos mod chunk, span, bufOff) # chunkSpans (pos + span) end chunk (bufOff + span))"
  by auto
termination
proof (relation "measure (\<lambda>(pos, end, _). end - pos)")
  fix pos "end" chunk bufOff x :: nat
  assume a: "\<not> (end \<le> pos \<or> chunk = 0)" "x = min (chunk - pos mod chunk) (end - pos)"
  have "0 < x" "x \<le> end - pos" using a mod_less_divisor [of chunk pos] by (simp_all add: min_def)
  then show "((pos + x, end, chunk, bufOff + x), (pos, end, chunk, bufOff)) \<in> measure (\<lambda>(pos, end, _). end - pos)"
    using a(1) by auto
qed simp

declare chunkSpans.simps [simp del]

fun each :: "('x \<Rightarrow> unit bop) \<Rightarrow> 'x list \<Rightarrow> unit bop" where
  "each f [] = bret ()"
| "each f (x # xs) = bbind (f x) (\<lambda>_. each f xs)"

definition eachChunkSpan :: "nat \<Rightarrow> nat \<Rightarrow> nat \<Rightarrow> (nat \<Rightarrow> nat \<Rightarrow> nat \<Rightarrow> nat \<Rightarrow> unit bop) \<Rightarrow> unit bop" where
  "eachChunkSpan off n chunk fn = each (\<lambda>(q, inOff, span, bufOff). fn q inOff span bufOff) (chunkSpans off (off + n) chunk 0)"

definition writeArgs :: "bytes \<Rightarrow> int \<Rightarrow> berr + nat option" where
  "writeArgs p off =
     (if off < 0 then Inl BNegativeOffset
      else if p = [] then Inr None
      else if 2 ^ 63 \<le> off + int (length p) then Inl BOffsetOverflow
      else Inr (Some (nat off + length p)))"

definition getObj :: "nat \<Rightarrow> objrow bop" where
  "getObj i s = (case map_of (t_objs s) i of None \<Rightarrow> bfail BNotFound s | Some o' \<Rightarrow> bret o' s)"

definition updObj :: "nat \<Rightarrow> (objrow \<Rightarrow> objrow) \<Rightarrow> unit bop" where
  "updObj i f s = bret () (s\<lparr>t_objs := upd_row i f (t_objs s)\<rparr>)"

definition objWriteMeta :: "nat \<Rightarrow> objrow bop" where
  "objWriteMeta i = bbind (getObj i) (\<lambda>o'. bbind (checkChunk (o_chunk o')) (\<lambda>_. bret o'))"

definition writeSpans :: "azlib \<Rightarrow> bstore \<Rightarrow> nat \<Rightarrow> objrow \<Rightarrow> nat \<Rightarrow> bytes \<Rightarrow> unit bop" where
  "writeSpans az st i o' off p = eachChunkSpan off (length p) (o_chunk o') (\<lambda>q inOff span bufOff.
     let src = bslice bufOff (bufOff + span) p
     in if o_codec o' = codecAZ then writeChunkCompressed az st i q (o_chunk o') inOff src (o_level o')
        else writeChunkRaw st i q (o_chunk o') inOff src)"

definition writeOnConn :: "azlib \<Rightarrow> bstore \<Rightarrow> nat \<Rightarrow> bytes \<Rightarrow> nat \<Rightarrow> nat \<Rightarrow> unit bop" where
  "writeOnConn az st i p off end = bbind (objWriteMeta i) (\<lambda>o'. bbind (writeSpans az st i o' off p) (\<lambda>_.
     updObj i (\<lambda>r. r\<lparr>o_size := max (o_size r) end\<rparr>)))"

text \<open>One write transaction: an error leaves the tables as they were.\<close>

definition withTx :: "bstore \<Rightarrow> 'a bop \<Rightarrow> 'a bop" where
  "withTx st fn s = (if bs_readOnly st then (Inl BReadOnly, s)
     else (case fn s of (Inl e, s') \<Rightarrow> (Inl e, s) | (Inr x, s') \<Rightarrow> (Inr x, s')))"

definition writeAt_obj :: "azlib \<Rightarrow> bstore \<Rightarrow> nat \<Rightarrow> bytes \<Rightarrow> int \<Rightarrow> nat bop" where
  "writeAt_obj az st i p off = (case writeArgs p off of
       Inl e \<Rightarrow> bfail e
     | Inr None \<Rightarrow> bret 0
     | Inr (Some end) \<Rightarrow> bbind (withTx st (writeOnConn az st i p (nat off) end)) (\<lambda>_. bret (length p)))"

definition conn_WriteAt :: "azlib \<Rightarrow> bstore \<Rightarrow> nat \<Rightarrow> bytes \<Rightarrow> int \<Rightarrow> nat bop" where
  "conn_WriteAt az st i p off = (if bs_readOnly st then bfail BReadOnly
     else (case writeArgs p off of
       Inl e \<Rightarrow> bfail e
     | Inr None \<Rightarrow> bret 0
     | Inr (Some end) \<Rightarrow> bbind (writeOnConn az st i p (nat off) end) (\<lambda>_. bret (length p))))"

text \<open>A read fills the buffer span by span; on an error it stops with what it has read. The result is the buffer, the count and
  the error.\<close>

datatype rstatus = ROk | REof | RErr berr

fun readSpans :: "(nat \<Rightarrow> nat \<Rightarrow> bytes \<Rightarrow> berr + bytes) \<Rightarrow> (nat \<times> nat \<times> nat \<times> nat) list \<Rightarrow> bytes \<Rightarrow> nat \<Rightarrow> bytes \<times> nat \<times> berr option" where
  "readSpans f [] p n = (p, n, None)"
| "readSpans f ((q, inOff, span, bufOff) # xs) p n =
     (case f q inOff (bslice bufOff (bufOff + span) p) of
        Inl e \<Rightarrow> (p, n, Some e)
      | Inr dst \<Rightarrow> readSpans f xs (blit bufOff dst p) (n + span))"

definition readOnConn :: "azlib \<Rightarrow> bdb \<Rightarrow> nat \<Rightarrow> bytes \<Rightarrow> nat \<Rightarrow> bytes \<times> nat \<times> rstatus" where
  "readOnConn az s i p off = (case map_of (t_objs s) i of
       None \<Rightarrow> (p, 0, RErr BNotFound)
     | Some o' \<Rightarrow>
         if o_chunk o' = 0 \<or> maxChunkSize < o_chunk o' then (p, 0, RErr BCorruptChunk)
         else if o_size o' \<le> off then (p, 0, REof)
         else let n = min (length p) (o_size o' - off);
                  f = (\<lambda>q inOff dst. if o_codec o' = codecAZ then readChunkCompressed az s i q (o_chunk o') inOff dst
                                     else readChunkRaw s i q inOff dst)
              in (case readSpans f (chunkSpans off (off + n) (o_chunk o') 0) p 0 of
                   (p', r, Some e) \<Rightarrow> (p', r, RErr e)
                 | (p', r, None) \<Rightarrow> (p', r, if o_size o' \<le> off + n then REof else ROk)))"

definition readAt_obj :: "azlib \<Rightarrow> bdb \<Rightarrow> nat \<Rightarrow> bytes \<Rightarrow> int \<Rightarrow> bytes \<times> nat \<times> rstatus" where
  "readAt_obj az s i p off =
     (if off < 0 then (p, 0, RErr BNegativeOffset) else if p = [] then (p, 0, ROk) else readOnConn az s i p (nat off))"

section \<open>Truncating\<close>

definition truncateOnConn :: "azlib \<Rightarrow> bstore \<Rightarrow> nat \<Rightarrow> nat \<Rightarrow> nat bop" where
  "truncateOnConn az st i sz = bbind (getObj i) (\<lambda>o'. bbind (checkChunk (o_chunk o')) (\<lambda>_.
     bbind (if sz < o_size o' then
              let firstDead = go_div (wrap_int64 (int sz + int (o_chunk o') - 1)) (int (o_chunk o')); rem = sz mod o_chunk o'
              in bbind (releaseChunks i (Some firstDead)) (\<lambda>_.
                   if rem \<noteq> 0 then zeroChunkTail az st i (sz div o_chunk o') rem (o_chunk o') (o_codec o' = codecAZ) (o_level o')
                   else bret ())
            else bret ()) (\<lambda>_.
     bbind (updObj i (\<lambda>r. r\<lparr>o_size := sz\<rparr>)) (\<lambda>_. bret (o_size o')))))"

definition Truncate_obj :: "azlib \<Rightarrow> bstore \<Rightarrow> nat \<Rightarrow> int \<Rightarrow> unit bop" where
  "Truncate_obj az st i sz = (if sz < 0 then bfail BNegativeSize
     else bbind (withTx st (truncateOnConn az st i (nat sz))) (\<lambda>_. bret ()))"

definition conn_Truncate :: "azlib \<Rightarrow> bstore \<Rightarrow> nat \<Rightarrow> int \<Rightarrow> unit bop" where
  "conn_Truncate az st i sz = (if bs_readOnly st then bfail BReadOnly else if sz < 0 then bfail BNegativeSize
     else bbind (truncateOnConn az st i (nat sz)) (\<lambda>_. bret ()))"

section \<open>Creating, cloning and deleting\<close>

record createConfig =
  cc_compression :: "nat option"
  cc_keep :: int
  cc_maxage :: int

definition createOn :: "bstore \<Rightarrow> int \<Rightarrow> createConfig \<Rightarrow> nat bop" where
  "createOn st now cc s =
     (let cmpr = (case cc_compression cc of None \<Rightarrow> bs_compression st | Some c \<Rightarrow> c);
          level = (case cc_compression cc of None \<Rightarrow> 0 | Some c \<Rightarrow> if azLevel c = None then 0 else c);
          codec = (if azLevel cmpr = None then codecRaw else codecAZ);
          i = rowid_new (t_objs s)
      in bret i (s\<lparr>t_objs := t_objs s @ [(i, \<lparr>o_size = 0, o_chunk = bs_chunkSize st, o_codec = codec, o_level = level,
           o_keep = cc_keep cc, o_maxage = cc_maxage cc, o_created = now\<rparr>)]\<rparr>))"

definition Create :: "bstore \<Rightarrow> int \<Rightarrow> createConfig \<Rightarrow> nat bop" where
  "Create st now cc = (if bs_readOnly st then bfail BReadOnly else createOn st now cc)"

definition sizeOn :: "nat \<Rightarrow> nat bop" where
  "sizeOn i = bbind (getObj i) (\<lambda>o'. bret (o_size o'))"

definition cloneObjectTx :: "int \<Rightarrow> nat \<Rightarrow> nat option bop" where
  "cloneObjectTx now src s = (case map_of (t_objs s) src of
       None \<Rightarrow> bret None s
     | Some o' \<Rightarrow>
         let dst = rowid_new (t_objs s);
             s1 = s\<lparr>t_objs := t_objs s @ [(dst, o'\<lparr>o_created := now\<rparr>)]\<rparr>;
             new = map (\<lambda>c. ((dst, snd (fst c)), snd c)) (filter (in_range src None) (t_chunks s1));
             s2 = s1\<lparr>t_chunks := t_chunks s1 @ new\<rparr>;
             mine = filter (in_range dst None) (t_chunks s2)
         in bret (Some dst) (s2\<lparr>t_blocks := map (\<lambda>p. (fst p, (snd p)\<lparr>k_refs := k_refs (snd p) + int (chunk_count mine (fst p))\<rparr>)) (t_blocks s2)\<rparr>))"

definition Clone :: "bstore \<Rightarrow> int \<Rightarrow> nat \<Rightarrow> nat bop" where
  "Clone st now src = withTx st (bbind (cloneObjectTx now src) (\<lambda>d. case d of None \<Rightarrow> bfail BNotFound | Some i \<Rightarrow> bret i))"

definition deleteObjectTx :: "nat \<Rightarrow> bool bop" where
  "deleteObjectTx i s = (if map_of (t_objs s) i = None then bret False s
     else bbind (releaseChunks i None) (\<lambda>_. bret True) (s\<lparr>t_objs := AList.delete i (t_objs s)\<rparr>))"

definition deleteVersionsTx :: "nat \<Rightarrow> unit bop" where
  "deleteVersionsTx i s = bbind (each (\<lambda>snap. bbind (deleteObjectTx snap) (\<lambda>_. bret ())) (map v_snap (filter (\<lambda>v. v_obj v = i) (t_versions s))))
     (\<lambda>_ s'. bret () (s'\<lparr>t_versions := filter (\<lambda>v. v_obj v \<noteq> i) (t_versions s')\<rparr>)) s"

definition deleteOnConn :: "nat \<Rightarrow> unit bop" where
  "deleteOnConn i = bbind (deleteObjectTx i) (\<lambda>existed. if \<not> existed then bfail BNotFound else deleteVersionsTx i)"

definition Delete :: "bstore \<Rightarrow> nat \<Rightarrow> unit bop" where
  "Delete st i = withTx st (deleteOnConn i)"

definition conn_Delete :: "bstore \<Rightarrow> nat \<Rightarrow> unit bop" where
  "conn_Delete st i = (if bs_readOnly st then bfail BReadOnly else deleteOnConn i)"

section \<open>Changing the storage mode\<close>

definition next_seq :: "bdb \<Rightarrow> nat \<Rightarrow> int \<Rightarrow> nat option" where
  "next_seq s i q = (case filter (\<lambda>n. q < int n) (map (snd \<circ> fst) (filter (in_range i None) (t_chunks s))) of
       [] \<Rightarrow> None | n # ns \<Rightarrow> Some (foldr min ns n))"

definition readChunkPlain :: "azlib \<Rightarrow> nat \<Rightarrow> nat \<Rightarrow> nat \<Rightarrow> bool \<Rightarrow> bytes bop" where
  "readChunkPlain az i q chunk fromCompressed s =
     (if fromCompressed then
        (case chunkGetCompressed az s i q chunk of
           Inl e \<Rightarrow> bfail e s
         | Inr None \<Rightarrow> bfail BVanished s
         | Inr (Some plain) \<Rightarrow> bret plain s)
      else (case joinBlock s i q of None \<Rightarrow> bfail BNoRows s | Some r \<Rightarrow> bret (k_data r) s))"

text \<open>The loop over the chunks in the order of their numbers; \<open>n\<close> bounds its rounds.\<close>

fun convertChunks :: "nat \<Rightarrow> azlib \<Rightarrow> bstore \<Rightarrow> nat \<Rightarrow> nat \<Rightarrow> bool \<Rightarrow> bool \<Rightarrow> nat \<Rightarrow> int \<Rightarrow> unit bop" where
  "convertChunks 0 az st i chunk fromC toC lvl q s = bfail BUnfinished s"
| "convertChunks (Suc n) az st i chunk fromC toC lvl q s = (case next_seq s i q of
       None \<Rightarrow> bret () s
     | Some nq \<Rightarrow>
         bbind (readChunkPlain az i nq chunk fromC) (\<lambda>plain.
         bbind (if toC then chunkPutCompressed az st i nq plain lvl else chunkPutRaw st i nq plain) (\<lambda>_.
         convertChunks n az st i chunk fromC toC lvl (int nq))) s)"

definition setCompression_tx :: "azlib \<Rightarrow> bstore \<Rightarrow> nat \<Rightarrow> nat \<Rightarrow> unit bop" where
  "setCompression_tx az st i c = bbind (getObj i) (\<lambda>o'. bbind (checkChunk (o_chunk o')) (\<lambda>_.
     let fromC = (o_codec o' = codecAZ); toC = (azLevel c \<noteq> None)
     in if fromC = toC then updObj i (\<lambda>r. r\<lparr>o_level := if toC then c else 0\<rparr>)
        else bbind (\<lambda>s. convertChunks (Suc (length (t_chunks s))) az st i (o_chunk o') fromC toC c (- 1) s) (\<lambda>_.
          updObj i (\<lambda>r. r\<lparr>o_codec := if toC then codecAZ else codecRaw, o_level := if toC then c else 0\<rparr>))))"

definition SetCompression :: "azlib \<Rightarrow> bstore \<Rightarrow> nat \<Rightarrow> nat \<Rightarrow> unit bop" where
  "SetCompression az st i c = withTx st (setCompression_tx az st i c)"

section \<open>Versions (\<^verbatim>\<open>versioning.go\<close>)\<close>

text \<open>The versions of an object from the newest to the oldest, each with its rank.\<close>

definition versions_desc :: "bdb \<Rightarrow> nat \<Rightarrow> verrow list" where
  "versions_desc s i = rev (sort_key v_no (filter (\<lambda>v. v_obj v = i) (t_versions s)))"

definition doomed :: "int \<Rightarrow> int \<Rightarrow> int \<Rightarrow> nat \<times> verrow \<Rightarrow> bool" where
  "doomed now keep maxAge rv \<longleftrightarrow> (0 < keep \<and> keep < int (fst rv)) \<or> (0 < maxAge \<and> v_created (snd rv) < now - maxAge)"

definition drop_version :: "nat \<Rightarrow> verrow \<Rightarrow> unit bop" where
  "drop_version i v = bbind (deleteObjectTx (v_snap v)) (\<lambda>_ s.
     bret () (s\<lparr>t_versions := filter (\<lambda>w. \<not> (v_obj w = i \<and> v_no w = v_no v)) (t_versions s)\<rparr>))"

definition pruneTx :: "int \<Rightarrow> nat \<Rightarrow> unit bop" where
  "pruneTx now i s = (case map_of (t_objs s) i of
       None \<Rightarrow> bret () s
     | Some o' \<Rightarrow>
         if o_keep o' \<le> 0 \<and> o_maxage o' \<le> 0 then bret () s
         else let vs = versions_desc s i
              in each (drop_version i) (map snd (filter (doomed now (o_keep o') (o_maxage o')) (zip [1..<Suc (length vs)] vs))) s)"

definition NewVersion :: "bstore \<Rightarrow> int \<Rightarrow> nat \<Rightarrow> bytes option \<Rightarrow> nat bop" where
  "NewVersion st now i label = withTx st (bbind (cloneObjectTx now i) (\<lambda>d. case d of
       None \<Rightarrow> bfail BNotFound
     | Some snap \<Rightarrow> \<lambda>s.
         let no = Suc (foldr max (map v_no (filter (\<lambda>v. v_obj v = i) (t_versions s))) 0);
             s1 = s\<lparr>t_versions := t_versions s @ [\<lparr>v_obj = i, v_no = no, v_created = now, v_snap = snap, v_label = label\<rparr>]\<rparr>
         in bbind (pruneTx now i) (\<lambda>_. bret no) s1))"

definition Prune :: "bstore \<Rightarrow> int \<Rightarrow> nat \<Rightarrow> unit bop" where
  "Prune st now i = withTx st (pruneTx now i)"

definition OpenVersion :: "nat \<Rightarrow> nat \<Rightarrow> nat bop" where
  "OpenVersion i no s = (case List.find (\<lambda>v. v_obj v = i \<and> v_no v = no) (t_versions s) of
       None \<Rightarrow> bfail BNotFound s
     | Some v \<Rightarrow> bbind (sizeOn (v_snap v)) (\<lambda>_. bret (v_snap v)) s)"

definition SetRetention :: "bstore \<Rightarrow> nat \<Rightarrow> int \<Rightarrow> int \<Rightarrow> unit bop" where
  "SetRetention st i keep maxAge = withTx st (bbind (getObj i) (\<lambda>_. updObj i (\<lambda>r. r\<lparr>o_keep := keep, o_maxage := maxAge\<rparr>)))"

definition List_objs :: "bdb \<Rightarrow> nat list" where
  "List_objs s = sort (filter (\<lambda>i. i \<notin> set (map v_snap (t_versions s))) (map fst (t_objs s)))"

section \<open>Batches\<close>

text \<open>One call of the writer, with the high-water mark it leaves; an error leaves the mark alone.\<close>

definition batch_WriteAt :: "azlib \<Rightarrow> bstore \<Rightarrow> nat \<Rightarrow> objrow \<Rightarrow> nat \<Rightarrow> bytes \<Rightarrow> int \<Rightarrow> nat bop" where
  "batch_WriteAt az st i o' mx p off = (case writeArgs p off of
       Inl e \<Rightarrow> bfail e
     | Inr None \<Rightarrow> bret mx
     | Inr (Some end) \<Rightarrow> bbind (writeSpans az st i o' (nat off) p) (\<lambda>_. bret (max mx end)))"

text \<open>The callback of a batch drives its writer one call after the other; \<open>ws\<close> is that sequence, each call with whether the callback goes
  on when it fails, and \<open>fin\<close> is what the callback returns in the end.\<close>

fun batchWrites :: "azlib \<Rightarrow> bstore \<Rightarrow> nat \<Rightarrow> objrow \<Rightarrow> (bytes \<times> int \<times> bool) list \<Rightarrow> nat \<Rightarrow> nat bop" where
  "batchWrites az st i o' [] mx s = bret mx s"
| "batchWrites az st i o' ((p, off, goOn) # ws) mx s = (case batch_WriteAt az st i o' mx p off s of
       (Inl e, s') \<Rightarrow> if goOn then batchWrites az st i o' ws mx s' else bfail e s'
     | (Inr mx', s') \<Rightarrow> batchWrites az st i o' ws mx' s')"

definition batchOnConn :: "azlib \<Rightarrow> bstore \<Rightarrow> nat \<Rightarrow> (bytes \<times> int \<times> bool) list \<Rightarrow> berr option \<Rightarrow> unit bop" where
  "batchOnConn az st i ws fin = bbind (objWriteMeta i) (\<lambda>o'. bbind (batchWrites az st i o' ws 0) (\<lambda>mx.
     case fin of Some e \<Rightarrow> bfail e
     | None \<Rightarrow> if 0 < mx then updObj i (\<lambda>r. r\<lparr>o_size := max (o_size r) mx\<rparr>) else bret ()))"

definition Batch :: "azlib \<Rightarrow> bstore \<Rightarrow> nat \<Rightarrow> (bytes \<times> int \<times> bool) list \<Rightarrow> berr option \<Rightarrow> unit bop" where
  "Batch az st i ws fin = withTx st (batchOnConn az st i ws fin)"

end
