(* ===== verification/Blobstore_Inv.thy ===== *)
theory Blobstore_Inv
  imports Blobstore
begin

text \<open>
  The reference counts of the blob store and what the block operations do to the content of the chunks. \<open>blocks_inv\<close>: every
  block is referenced, and its count is the number of chunks that map to it. \<open>content\<close> is the stored form of a chunk; each
  operation that stores a chunk changes it for that chunk alone, whoever shares the block.
\<close>

named_theorems bop_simps \<open>unfolding the operations on the tables\<close>

lemmas [bop_simps] = bret_def bfail_def bbind_def updBlock_def mapChunk_def decBlockRef_def newBlock_def newHashedBlock_def
  insertBlock_def blockRefs_def copyBlock_def Let_def

section \<open>Tables\<close>

lemma map_of_upd_row [simp]: "map_of (upd_row b f t) x = (if x = b then map_option f (map_of t b) else map_of t x)"
  unfolding upd_row_def by (induction t) auto

lemma keys_upd_row [simp]: "map fst (upd_row b f t) = map fst t"
  unfolding upd_row_def by (induction t) auto

lemma map_of_map_row: "map_of (map (\<lambda>p. (fst p, f (fst p) (snd p))) t) x = map_option (f x) (map_of t x)"
  by (induction t) auto

lemma rowid_fresh: "map_of t (rowid_new t) = None" "rowid_new t \<notin> fst ` set t"
proof -
  have "fst p < rowid_new t" if "p \<in> set t" for p
    using that unfolding rowid_new_def less_Suc_eq_le by (induction t) (auto simp: le_max_iff_disj)
  then show "rowid_new t \<notin> fst ` set t" by fastforce
  then show "map_of t (rowid_new t) = None" by (simp add: map_of_eq_None_iff)
qed

lemma map_of_snoc: "map_of t b = None \<Longrightarrow> map_of (t @ [(b, r)]) = (map_of t)(b \<mapsto> r)"
  by (rule ext) (auto simp: map_add_def split: option.splits)

lemma distinct_snoc_new [simp]: "distinct (map fst (t @ [(rowid_new t, r)])) = distinct (map fst t)"
  using rowid_fresh(2) [of t] by simp

lemma chunk_count_update:
  "distinct (map fst cs) \<Longrightarrow>
    chunk_count (AList.update k b cs) x + of_bool (map_of cs k = Some x) = chunk_count cs x + of_bool (x = b)"
proof (induction cs)
  case (Cons c cs)
  show ?case
  proof (cases "fst c = k")
    case True
    then show ?thesis by (cases c) (auto simp: chunk_count_def)
  next
    case False
    then show ?thesis using Cons by (cases c) (auto simp: chunk_count_def)
  qed
qed (simp add: chunk_count_def)

lemma chunk_count_pos: "map_of cs k = Some b \<Longrightarrow> 0 < chunk_count cs b"
  unfolding chunk_count_def by (force dest: map_of_SomeD simp: filter_empty_conv)

lemma chunk_count_one:
  assumes "distinct (map fst cs)" "map_of cs k = Some b" "map_of cs k' = Some b" "k \<noteq> k'"
  shows "2 \<le> chunk_count cs b"
proof -
  have "{(k, b), (k', b)} \<subseteq> set (filter (\<lambda>c. snd c = b) cs)" using assms(2,3) by (auto dest: map_of_SomeD)
  then have "card {(k, b), (k', b)} \<le> card (set (filter (\<lambda>c. snd c = b) cs))" by (intro card_mono) auto
  also have "\<dots> \<le> chunk_count cs b" unfolding chunk_count_def by (rule card_length)
  finally show ?thesis using assms(4) by simp
qed

lemma distinct_alist_update: "distinct (map fst cs) \<Longrightarrow> distinct (map fst (AList.update k b cs))"
  by (simp add: distinct_update)

section \<open>Reference counts\<close>

definition de :: "blockrow \<Rightarrow> bytes \<times> nat" where
  "de r = (k_data r, k_enc r)"

definition content :: "bdb \<Rightarrow> nat \<Rightarrow> nat \<Rightarrow> (bytes \<times> nat) option" where
  "content s i q = map_option de (joinBlock s i q)"

definition refs_ok :: "((nat \<times> nat) \<times> nat) list \<Rightarrow> nat \<Rightarrow> blockrow option \<Rightarrow> bool" where
  "refs_ok cs x br \<longleftrightarrow> (case br of None \<Rightarrow> chunk_count cs x = 0 | Some r \<Rightarrow> 0 < chunk_count cs x \<and> k_refs r = int (chunk_count cs x))"

definition blocks_inv :: "bdb \<Rightarrow> bool" where
  "blocks_inv s \<longleftrightarrow> distinct (map fst (t_objs s)) \<and> distinct (map fst (t_blocks s)) \<and> distinct (map fst (t_chunks s)) \<and>
     (\<forall>i q b. map_of (t_chunks s) (i, q) = Some b \<longrightarrow> map_of (t_objs s) i \<noteq> None) \<and>
     (\<forall>x. refs_ok (t_chunks s) x (map_of (t_blocks s) x))"

lemma blocks_invD:
  assumes "blocks_inv s"
  shows "distinct (map fst (t_objs s))" "distinct (map fst (t_blocks s))" "distinct (map fst (t_chunks s))"
    "map_of (t_chunks s) (i, q) = Some b \<Longrightarrow> \<exists>r. map_of (t_blocks s) b = Some r \<and> 1 \<le> k_refs r"
    "map_of (t_chunks s) (i, q) = Some b \<Longrightarrow> map_of (t_objs s) i \<noteq> None"
    "map_of (t_blocks s) x = Some r \<Longrightarrow> 0 < chunk_count (t_chunks s) x \<and> k_refs r = int (chunk_count (t_chunks s) x)"
    "map_of (t_blocks s) x = None \<Longrightarrow> chunk_count (t_chunks s) x = 0"
    "refs_ok (t_chunks s) x (map_of (t_blocks s) x)"
proof -
  show "distinct (map fst (t_objs s))" "distinct (map fst (t_blocks s))" "distinct (map fst (t_chunks s))"
    "map_of (t_chunks s) (i, q) = Some b \<Longrightarrow> map_of (t_objs s) i \<noteq> None"
    using assms unfolding blocks_inv_def by blast+
  have r: "refs_ok (t_chunks s) x (map_of (t_blocks s) x)" for x using assms unfolding blocks_inv_def by blast
  show "refs_ok (t_chunks s) x (map_of (t_blocks s) x)" by (rule r)
  show "map_of (t_blocks s) x = Some r \<Longrightarrow> 0 < chunk_count (t_chunks s) x \<and> k_refs r = int (chunk_count (t_chunks s) x)"
    "map_of (t_blocks s) x = None \<Longrightarrow> chunk_count (t_chunks s) x = 0"
    using r [of x] by (simp_all add: refs_ok_def)
  show "\<exists>r. map_of (t_blocks s) b = Some r \<and> 1 \<le> k_refs r" if "map_of (t_chunks s) (i, q) = Some b"
    using r [of b] chunk_count_pos [OF that] by (auto simp: refs_ok_def split: option.splits)
qed

lemma content_alt:
  "content s i q = (case map_of (t_chunks s) (i, q) of None \<Rightarrow> None | Some b \<Rightarrow> map_option de (map_of (t_blocks s) b))"
  by (simp add: content_def joinBlock_def split: option.splits)

text \<open>The two ways a chunk is stored: its mapping is pointed at a block, or the one block it alone maps to is overwritten.\<close>

lemma remap_inv:
  assumes "blocks_inv s" "map_of (t_objs s) i \<noteq> None" "t_objs s' = t_objs s"
    and ch: "t_chunks s' = AList.update (i, q) b (t_chunks s)" and "distinct (map fst (t_blocks s'))"
    and refs: "\<And>x. refs_ok (AList.update (i, q) b (t_chunks s)) x (map_of (t_blocks s') x)"
  shows "blocks_inv s'"
proof -
  note d = blocks_invD [OF assms(1)]
  have "map_of (t_objs s') j \<noteq> None" if "map_of (t_chunks s') (j, q') = Some b'" for j q' b'
    using that assms(2,3) d(5) [of j q' b'] unfolding ch update_conv' by (auto split: if_splits)
  then show ?thesis using assms(3,5) refs d(1,3) unfolding blocks_inv_def ch by (simp add: distinct_update)
qed

lemma remap_content:
  assumes "blocks_inv s'" and ch: "t_chunks s' = AList.update (i, q) b (t_chunks s)"
    and b: "map_option de (map_of (t_blocks s') b) = Some v"
    and keep: "\<And>x r. map_of (t_blocks s') x \<noteq> None \<Longrightarrow> map_of (t_blocks s) x = Some r \<Longrightarrow> map_option de (map_of (t_blocks s') x) = Some (de r)"
    and "blocks_inv s"
  shows "content s' j q' = (if (j, q') = (i, q) then Some v else content s j q')"
proof (cases "(j, q') = (i, q)")
  case True
  then show ?thesis using b by (simp add: content_alt ch update_conv')
next
  case False
  then have c: "map_of (t_chunks s') (j, q') = map_of (t_chunks s) (j, q')" by (auto simp: ch update_conv')
  show ?thesis
  proof (cases "map_of (t_chunks s) (j, q')")
    case None
    then show ?thesis using c False by (simp add: content_alt)
  next
    case (Some x)
    obtain r where r: "map_of (t_blocks s) x = Some r" using blocks_invD(4) [OF assms(5) Some] by blast
    have "map_of (t_blocks s') x \<noteq> None" using blocks_invD(4) [OF assms(1)] c Some by fastforce
    then show ?thesis using keep [OF _ r] c Some r unfolding if_not_P [OF False] by (simp add: content_alt)
  qed
qed

lemma inplace_inv:
  assumes "blocks_inv s" "t_objs s' = t_objs s" "t_chunks s' = t_chunks s" "t_blocks s' = upd_row b f (t_blocks s)"
    "\<And>r. k_refs (f r) = k_refs r"
  shows "blocks_inv s'"
proof -
  have "refs_ok (t_chunks s) x (map_of (t_blocks s') x)" for x
    using blocks_invD(8) [OF assms(1), of x] assms(5) unfolding assms(4)
    by (cases "map_of (t_blocks s) x") (auto simp: refs_ok_def)
  moreover have "map fst (t_blocks s') = map fst (t_blocks s)" by (simp add: assms(4))
  ultimately show ?thesis using assms(1) unfolding blocks_inv_def assms(2,3) by metis
qed

lemma inplace_content:
  assumes "blocks_inv s" "t_chunks s' = t_chunks s" "t_blocks s' = upd_row b f (t_blocks s)"
    "map_of (t_chunks s) (i, q) = Some b" "map_of (t_blocks s) b = Some r" "k_refs r \<le> 1"
  shows "content s' j q' = (if (j, q') = (i, q) then Some (de (f r)) else content s j q')"
proof -
  have "map_of (t_chunks s) (j, q') \<noteq> Some b" if "(j, q') \<noteq> (i, q)"
    using chunk_count_one [OF blocks_invD(3) [OF assms(1)] assms(4) _ that [symmetric]] blocks_invD(6) [OF assms(1,5)] assms(6) by auto
  then show ?thesis using assms(2-5) by (auto simp: content_alt split: option.splits)
qed

section \<open>Storing a chunk\<close>

text \<open>The hashes: a store written without deduplication has none; with it, a hash is that of the bytes of its block, and \<open>T\<close>
  holds what was hashed.\<close>

definition hash_inv :: "bool \<Rightarrow> bytes set \<Rightarrow> bdb \<Rightarrow> bool" where
  "hash_inv d T s \<longleftrightarrow> (\<forall>x r h. map_of (t_blocks s) x = Some r \<longrightarrow> k_hash r = Some h \<longrightarrow>
     d \<and> h = blockHash (k_data r) (k_enc r) \<and> word_of_nat (k_enc r) # k_data r \<in> T \<and> k_enc r < 256)"

lemma hash_invD:
  "hash_inv d T s \<Longrightarrow> map_of (t_blocks s) x = Some r \<Longrightarrow> k_hash r = Some h \<Longrightarrow>
    d \<and> h = blockHash (k_data r) (k_enc r) \<and> word_of_nat (k_enc r) # k_data r \<in> T \<and> k_enc r < 256"
  unfolding hash_inv_def by blast

text \<open>\<open>stores i q v s s'\<close>: the step from \<open>s\<close> to \<open>s'\<close> stores \<open>v\<close> as chunk \<open>(i, q)\<close> and nothing else.\<close>

definition stores :: "nat \<Rightarrow> nat \<Rightarrow> bytes \<times> nat \<Rightarrow> bdb \<Rightarrow> bdb \<Rightarrow> bool" where
  "stores i q v s s' \<longleftrightarrow> t_objs s' = t_objs s \<and> t_versions s' = t_versions s \<and> blocks_inv s' \<and>
     (\<forall>j q'. content s' j q' = (if (j, q') = (i, q) then Some v else content s j q'))"

lemma stores_new:
  assumes "blocks_inv s" "map_of (t_objs s) i \<noteq> None" "blockOf s i q = None" "k_refs r = 1"
    and s': "s' = s\<lparr>t_blocks := t_blocks s @ [(rowid_new (t_blocks s), r)], t_chunks := AList.update (i, q) (rowid_new (t_blocks s)) (t_chunks s)\<rparr>"
  shows "stores i q (de r) s s'"
proof -
  let ?b = "rowid_new (t_blocks s)"
  note d = blocks_invD [OF assms(1)]
  have f: "map_of (t_blocks s) ?b = None" "chunk_count (t_chunks s) ?b = 0" using rowid_fresh d(7) by blast+
  have m: "map_of (t_blocks s') = (map_of (t_blocks s))(?b \<mapsto> r)" using map_of_snoc [OF f(1)] by (simp add: s')
  have "refs_ok (AList.update (i, q) ?b (t_chunks s)) x (map_of (t_blocks s') x)" for x
    using chunk_count_update [OF d(3), of "(i, q)" ?b x] d(8) [of x] f assms(3,4)
    unfolding m by (cases "x = ?b") (simp_all add: refs_ok_def blockOf_def split: option.splits)
  then have inv: "blocks_inv s'" by (intro remap_inv [OF assms(1,2)]) (use d(2) in \<open>simp_all add: s' rowid_fresh\<close>)
  then show ?thesis unfolding stores_def
    by (intro conjI allI remap_content [of s' _ _ ?b]) (use assms(1) f(1) in \<open>auto simp: m\<close>, simp_all add: s')
qed

lemma stores_move:
  assumes "blocks_inv s" "blockOf s i q = Some cur" "map_of (t_blocks s) cur = Some rc" "1 < k_refs rc" "k_refs r = 1"
    and s': "s' = s\<lparr>t_blocks := upd_row cur (\<lambda>r. r\<lparr>k_refs := k_refs r - 1\<rparr>) (t_blocks s @ [(rowid_new (t_blocks s), r)]),
      t_chunks := AList.update (i, q) (rowid_new (t_blocks s)) (t_chunks s)\<rparr>"
  shows "stores i q (de r) s s'"
proof -
  let ?b = "rowid_new (t_blocks s)"
  note d = blocks_invD [OF assms(1)]
  have f: "map_of (t_blocks s) ?b = None" "chunk_count (t_chunks s) ?b = 0" using rowid_fresh d(7) by blast+
  have ne: "cur \<noteq> ?b" using f(1) assms(3) by auto
  have m: "map_of (t_blocks s') x = (if x = cur then Some (rc\<lparr>k_refs := k_refs rc - 1\<rparr>) else if x = ?b then Some r else map_of (t_blocks s) x)" for x
    using map_of_snoc [OF f(1)] assms(3) ne by (simp add: s')
  have rf: "refs_ok (AList.update (i, q) ?b (t_chunks s)) x (map_of (t_blocks s') x)" for x
    using chunk_count_update [OF d(3), of "(i, q)" ?b x] d(8) [of x] d(6) [OF assms(3)] f ne assms(2,4,5)
    unfolding m by (cases "x = ?b"; cases "x = cur") (simp_all add: refs_ok_def blockOf_def split: option.splits)
  have inv: "blocks_inv s'"
    by (rule remap_inv [OF assms(1) _ _ _ _ rf])
      (use d(5) [OF assms(2) [unfolded blockOf_def]] d(2) in \<open>simp_all add: s' rowid_fresh\<close>)
  then show ?thesis unfolding stores_def
    by (intro conjI allI remap_content [of s' _ _ ?b]) (use assms(1,3) f(1) ne in \<open>auto simp: m de_def split: if_splits\<close>, simp_all add: s')
qed

lemma stores_inplace:
  assumes "blocks_inv s" "blockOf s i q = Some b" "map_of (t_blocks s) b = Some r" "k_refs r \<le> 1" "\<And>r. k_refs (f r) = k_refs r"
  shows "stores i q (de (f r)) s (s\<lparr>t_blocks := upd_row b f (t_blocks s)\<rparr>)"
  using inplace_inv [OF assms(1) _ _ _ assms(5), of "s\<lparr>t_blocks := upd_row b f (t_blocks s)\<rparr>" b]
    inplace_content [OF assms(1) _ _ assms(2) [unfolded blockOf_def] assms(3,4), of "s\<lparr>t_blocks := upd_row b f (t_blocks s)\<rparr>" f]
  by (simp add: stores_def)

definition released :: "nat option \<Rightarrow> nat \<Rightarrow> blockrow option \<Rightarrow> blockrow option" where
  "released cur x br = (case br of None \<Rightarrow> None
     | Some r \<Rightarrow> if cur \<noteq> Some x then Some r else if k_refs r \<le> 1 then None else Some (r\<lparr>k_refs := k_refs r - 1\<rparr>))"

lemma release_cur_effect:
  assumes "distinct (map fst (t_blocks s))"
  shows "\<exists>t. release_cur cur s = (Inr (), s\<lparr>t_blocks := t\<rparr>) \<and> distinct (map fst t) \<and>
    (\<forall>x. map_of t x = released cur x (map_of (t_blocks s) x))"
proof (cases cur)
  case None
  then show ?thesis
    by (intro exI [of _ "t_blocks s"]) (use assms in \<open>simp add: release_cur_def bret_def released_def split: option.splits\<close>)
next
  case (Some c)
  let ?t = "upd_row c (\<lambda>r. r\<lparr>k_refs := k_refs r - 1\<rparr>) (t_blocks s)"
  have d: "distinct (map fst ?t)" using assms(1) by simp
  show ?thesis
    by (intro exI [of _ "filter (\<lambda>p. \<not> (fst p = c \<and> k_refs (snd p) \<le> 0)) ?t"] conjI allI)
      (use d in \<open>simp_all add: Some release_cur_def releaseBlock_def bop_simps released_def map_of_filter_distinct [OF d]
        distinct_map_filter split: option.splits\<close>)
qed

lemma stores_repoint:
  assumes "blocks_inv s" "map_of (t_objs s) i \<noteq> None" "blockOf s i q = cur" "cur \<noteq> Some b"
    and tb: "distinct (map fst tb)" "map_of tb b = Some rb" "k_refs rb = int (chunk_count (t_chunks s) b) + 1"
    and other: "\<And>x. x \<noteq> b \<Longrightarrow> map_of tb x = map_of (t_blocks s) x"
    and same: "\<And>r0. map_of (t_blocks s) b = Some r0 \<Longrightarrow> de r0 = de rb"
  obtains s' where "release_cur cur (s\<lparr>t_blocks := tb, t_chunks := AList.update (i, q) b (t_chunks s)\<rparr>) = (Inr (), s')"
    "stores i q (de rb) s s'"
    "\<And>x r. map_of (t_blocks s') x = Some r \<Longrightarrow> \<exists>r'. map_of tb x = Some r' \<and> de r = de r' \<and> k_hash r = k_hash r'"
proof -
  let ?s1 = "s\<lparr>t_blocks := tb, t_chunks := AList.update (i, q) b (t_chunks s)\<rparr>"
  note d = blocks_invD [OF assms(1)]
  obtain t where t: "release_cur cur ?s1 = (Inr (), ?s1\<lparr>t_blocks := t\<rparr>)" "distinct (map fst t)"
    "\<And>x. map_of t x = released cur x (map_of tb x)"
    using release_cur_effect [of ?s1 cur] tb(1) by auto
  let ?s' = "?s1\<lparr>t_blocks := t\<rparr>"
  have m: "map_of t x = (if x = b then Some rb else released cur x (map_of (t_blocks s) x))" for x
    using t(3) [of x] tb(2) other [of x] assms(4) by (auto simp: released_def)
  have rf: "refs_ok (AList.update (i, q) b (t_chunks s)) x (map_of t x)" for x
    using chunk_count_update [OF d(3), of "(i, q)" b x] d(8) [of x] tb(3) assms(3,4)
    unfolding m by (cases "x = b"; cases "cur = Some x") (auto simp: refs_ok_def released_def blockOf_def split: option.splits)
  have inv: "blocks_inv ?s'"
    by (rule remap_inv [OF assms(1,2)]) (use t(2) rf in simp_all)
  have "map_option de (map_of t x) = Some (de r)" if "map_of t x \<noteq> None" "map_of (t_blocks s) x = Some r" for x r
    using that same unfolding m by (auto simp: released_def de_def split: if_splits)
  then have "content ?s' j q' = (if (j, q') = (i, q) then Some (de rb) else content s j q')" for j q'
    using remap_content [OF inv _ _ _ assms(1), of i q b "de rb" j q'] m [of b] by simp
  then have "stores i q (de rb) s ?s'" using inv unfolding stores_def by simp
  moreover have "\<exists>r'. map_of tb x = Some r' \<and> de r = de r' \<and> k_hash r = k_hash r'" if "map_of t x = Some r" for x r
    using that t(3) [of x] by (auto simp: released_def de_def split: option.splits if_splits)
  ultimately show ?thesis using that [of ?s'] t(1) by simp
qed

text \<open>The hashes stay right when each hashed row of the new table is one of the old table or of freshly hashed bytes.\<close>

lemma hash_inv_rows:
  assumes "hash_inv d T s"
    and "\<And>x r h. map_of (t_blocks s') x = Some r \<Longrightarrow> k_hash r = Some h \<Longrightarrow>
      (\<exists>y r'. map_of (t_blocks s) y = Some r' \<and> de r' = de r \<and> k_hash r' = k_hash r) \<or>
      (d \<and> h = blockHash (k_data r) (k_enc r) \<and> word_of_nat (k_enc r) # k_data r \<in> T \<and> k_enc r < 256)"
  shows "hash_inv d T s'"
  unfolding hash_inv_def
proof (intro allI impI)
  fix x r h assume a: "map_of (t_blocks s') x = Some r" "k_hash r = Some h"
  from assms(2) [OF this] show "d \<and> h = blockHash (k_data r) (k_enc r) \<and> word_of_nat (k_enc r) # k_data r \<in> T \<and> k_enc r < 256"
  proof
    assume "\<exists>y r'. map_of (t_blocks s) y = Some r' \<and> de r' = de r \<and> k_hash r' = k_hash r"
    then obtain y r' where y: "map_of (t_blocks s) y = Some r'" "de r' = de r" "k_hash r' = k_hash r" by blast
    then show ?thesis using hash_invD [OF assms(1) y(1), of h] a(2) by (simp add: de_def)
  qed
qed

lemma blockByHash_hit:
  assumes "blocks_inv s" "blockByHash s (blockHash data enc) = Some e" "hash_inv d T s" "inj_on sha256 T"
    "word_of_nat enc # data \<in> T" "enc < 256"
  shows "\<exists>r. map_of (t_blocks s) e = Some r \<and> de r = (data, enc)"
proof -
  obtain p where p: "List.find (\<lambda>p. k_hash (snd p) = Some (blockHash data enc)) (t_blocks s) = Some p" "fst p = e"
    using assms(2) by (auto simp: blockByHash_def)
  then have "p \<in> set (t_blocks s)" "k_hash (snd p) = Some (blockHash data enc)"
    by (auto simp: find_Some_iff)
  then have m: "map_of (t_blocks s) e = Some (snd p)" using blocks_invD(2) [OF assms(1)] p(2) by (simp flip: p(2))
  note h = hash_invD [OF assms(3) m \<open>k_hash (snd p) = _\<close>]
  then have "(word_of_nat (k_enc (snd p)) :: byte) # k_data (snd p) = word_of_nat enc # data"
    using inj_onD [OF assms(4), of "word_of_nat enc # data"] assms(5) by (simp add: blockHash_def)
  moreover have "k_enc (snd p) = enc" if "(word_of_nat (k_enc (snd p)) :: byte) = word_of_nat enc"
    using arg_cong [OF that, of unat] h assms(6) by (simp add: unat_of_nat)
  ultimately show ?thesis using m by (auto simp: de_def)
qed

lemma putBlockDedup_stores:
  assumes "blocks_inv s" "map_of (t_objs s) i \<noteq> None" "hash_inv True T s" "inj_on sha256 T" "word_of_nat enc # data \<in> T" "enc < 256"
  shows "\<exists>s'. putBlockDedup i q data enc s = (Inr (), s') \<and> stores i q (data, enc) s s' \<and> hash_inv True T s'"
proof (cases "blockByHash s (blockHash data enc)")
  case (Some e)
  obtain r where r: "map_of (t_blocks s) e = Some r" "de r = (data, enc)" using blockByHash_hit [OF assms(1) Some assms(3-6)] by blast
  show ?thesis
  proof (cases "blockOf s i q = Some e")
    case True
    then have "stores i q (data, enc) s s" using r assms(1) by (auto simp: stores_def content_alt blockOf_def)
    then show ?thesis using True Some assms(3) by (auto simp: putBlockDedup_def bret_def Let_def)
  next
    case False
    let ?tb = "upd_row e (\<lambda>r. r\<lparr>k_refs := k_refs r + 1\<rparr>) (t_blocks s)"
    let ?rb = "r\<lparr>k_refs := k_refs r + 1\<rparr>"
    obtain s' where s': "release_cur (blockOf s i q) (s\<lparr>t_blocks := ?tb, t_chunks := AList.update (i, q) e (t_chunks s)\<rparr>) = (Inr (), s')"
      "stores i q (de ?rb) s s'"
      "\<And>x r. map_of (t_blocks s') x = Some r \<Longrightarrow> \<exists>r'. map_of ?tb x = Some r' \<and> de r = de r' \<and> k_hash r = k_hash r'"
    proof (rule stores_repoint [OF assms(1,2) refl False, of ?tb ?rb])
      show "k_refs ?rb = int (chunk_count (t_chunks s) e) + 1" using blocks_invD(6) [OF assms(1) r(1)] by simp
    qed (use blocks_invD(2) [OF assms(1)] r in \<open>simp_all add: de_def\<close>)
    have "putBlockDedup i q data enc s = (Inr (), s')"
      using False Some s'(1) by (simp add: putBlockDedup_def bop_simps)
    moreover have "de ?rb = (data, enc)" using r(2) by (simp add: de_def)
    moreover have "hash_inv True T s'"
    proof (rule hash_inv_rows [OF assms(3)])
      fix x r1 h assume "map_of (t_blocks s') x = Some r1"
      from s'(3) [OF this] obtain r' where r': "map_of ?tb x = Some r'" "de r1 = de r'" "k_hash r1 = k_hash r'" by blast
      then have "\<exists>r2. map_of (t_blocks s) x = Some r2 \<and> de r2 = de r' \<and> k_hash r2 = k_hash r'" by (auto simp: de_def split: if_splits)
      then show "(\<exists>y r'. map_of (t_blocks s) y = Some r' \<and> de r' = de r1 \<and> k_hash r' = k_hash r1) \<or>
        (True \<and> h = blockHash (k_data r1) (k_enc r1) \<and> word_of_nat (k_enc r1) # k_data r1 \<in> T \<and> k_enc r1 < 256)"
        using r' by auto
    qed
    ultimately show ?thesis using s'(2) by auto
  qed
next
  case None
  let ?b = "rowid_new (t_blocks s)"
  let ?rb = "\<lparr>k_data = data, k_enc = enc, k_refs = 1, k_hash = Some (blockHash data enc)\<rparr>"
  let ?tb = "t_blocks s @ [(?b, ?rb)]"
  note d = blocks_invD [OF assms(1)]
  have f: "map_of (t_blocks s) ?b = None" "chunk_count (t_chunks s) ?b = 0" using rowid_fresh d(7) by blast+
  have m: "map_of ?tb = (map_of (t_blocks s))(?b \<mapsto> ?rb)" by (rule map_of_snoc [OF f(1)])
  have ne: "blockOf s i q \<noteq> Some ?b" using d(4) [of i q ?b] f(1) by (auto simp: blockOf_def)
  obtain s' where s': "release_cur (blockOf s i q) (s\<lparr>t_blocks := ?tb, t_chunks := AList.update (i, q) ?b (t_chunks s)\<rparr>) = (Inr (), s')"
    "stores i q (de ?rb) s s'"
    "\<And>x r. map_of (t_blocks s') x = Some r \<Longrightarrow> \<exists>r'. map_of ?tb x = Some r' \<and> de r = de r' \<and> k_hash r = k_hash r'"
  proof (rule stores_repoint [OF assms(1,2) refl ne, of ?tb ?rb])
    show "distinct (map fst ?tb)" using d(2) rowid_fresh(2) by simp
  qed (use f in \<open>simp_all add: m del: map_of_append\<close>)
  have "putBlockDedup i q data enc s = (Inr (), s')"
    using None s'(1) by (simp add: putBlockDedup_def bop_simps)
  moreover have "hash_inv True T s'"
  proof (rule hash_inv_rows [OF assms(3)])
    fix x r h assume a: "map_of (t_blocks s') x = Some r" "k_hash r = Some h"
    obtain r' where "map_of ?tb x = Some r'" "de r = de r'" "k_hash r = k_hash r'" using s'(3) [OF a(1)] by blast
    then show "(\<exists>y r'. map_of (t_blocks s) y = Some r' \<and> de r' = de r \<and> k_hash r' = k_hash r) \<or>
      (True \<and> h = blockHash (k_data r) (k_enc r) \<and> word_of_nat (k_enc r) # k_data r \<in> T \<and> k_enc r < 256)"
      unfolding m using assms(5,6) a(2) by (cases "x = ?b") (auto simp: de_def)
  qed
  ultimately show ?thesis using s'(2) by (auto simp: de_def)
qed

lemma putBlock_stores:
  assumes "blocks_inv s" "map_of (t_objs s) i \<noteq> None" "hash_inv (bs_dedup st) T s" "inj_on sha256 T"
    "bs_dedup st \<Longrightarrow> word_of_nat enc # data \<in> T" "enc < 256"
  shows "\<exists>s'. putBlock st i q data enc s = (Inr (), s') \<and> stores i q (data, enc) s s' \<and> hash_inv (bs_dedup st) T s'"
proof (cases "bs_dedup st")
  case True
  then show ?thesis using putBlockDedup_stores [OF assms(1,2) _ assms(4) _ assms(6), of data q] assms(3,5) by (simp add: putBlock_def)
next
  case nd: False
  let ?r = "\<lparr>k_data = data, k_enc = enc, k_refs = 1, k_hash = None\<rparr>"
  have v: "de ?r = (data, enc)" by (simp add: de_def)
  have f: "map_of (t_blocks s) (rowid_new (t_blocks s)) = None" by (rule rowid_fresh)
  show ?thesis
  proof (cases "blockOf s i q")
    case None
    let ?s' = "s\<lparr>t_blocks := t_blocks s @ [(rowid_new (t_blocks s), ?r)], t_chunks := AList.update (i, q) (rowid_new (t_blocks s)) (t_chunks s)\<rparr>"
    have "putBlock st i q data enc s = (Inr (), ?s')" using None nd by (simp add: putBlock_def bop_simps)
    moreover have "stores i q (de ?r) s ?s'" by (rule stores_new [OF assms(1,2) None _ refl]) simp
    moreover have "hash_inv (bs_dedup st) T ?s'"
      by (rule hash_inv_rows [OF assms(3)]) (auto simp: map_of_snoc [OF f] simp del: map_of_append split: if_splits)
    ultimately show ?thesis unfolding v by blast
  next
    case (Some cur)
    obtain rc where rc: "map_of (t_blocks s) cur = Some rc" "1 \<le> k_refs rc" using blocks_invD(4) [OF assms(1)] Some unfolding blockOf_def by blast
    show ?thesis
    proof (cases "k_refs rc \<le> 1")
      case True
      let ?f = "\<lambda>r. r\<lparr>k_data := data, k_enc := enc, k_hash := None\<rparr> :: blockrow"
      let ?s' = "s\<lparr>t_blocks := upd_row cur ?f (t_blocks s)\<rparr>"
      have "putBlock st i q data enc s = (Inr (), ?s')" using Some nd rc True by (simp add: putBlock_def bop_simps)
      moreover have "stores i q (de (?f rc)) s ?s'" by (rule stores_inplace [OF assms(1) Some rc(1) True]) simp
      moreover have "hash_inv (bs_dedup st) T ?s'" by (rule hash_inv_rows [OF assms(3)]) (auto split: if_splits)
      ultimately show ?thesis by (auto simp: de_def)
    next
      case False
      let ?s' = "s\<lparr>t_blocks := upd_row cur (\<lambda>r. r\<lparr>k_refs := k_refs r - 1\<rparr>) (t_blocks s @ [(rowid_new (t_blocks s), ?r)]),
        t_chunks := AList.update (i, q) (rowid_new (t_blocks s)) (t_chunks s)\<rparr>"
      have "putBlock st i q data enc s = (Inr (), ?s')" using Some nd rc False by (simp add: putBlock_def bop_simps)
      moreover have "stores i q (de ?r) s ?s'" by (rule stores_move [OF assms(1) Some rc(1) _ _ refl]) (use False in simp_all)
      moreover have "hash_inv (bs_dedup st) T ?s'"
        by (rule hash_inv_rows [OF assms(3)]) (auto simp: map_of_snoc [OF f] de_def simp del: map_of_append split: if_splits)
      ultimately show ?thesis unfolding v by blast
    qed
  qed
qed

lemma stores_trans: "stores i q v s s1 \<Longrightarrow> stores i q w s1 s2 \<Longrightarrow> stores i q w s s2"
  by (auto simp: stores_def)

lemma stores_self: "blocks_inv s \<Longrightarrow> content s i q = Some v \<Longrightarrow> stores i q v s s"
  by (auto simp: stores_def)

text \<open>A block of its own for a chunk: nothing else maps to it and it carries no hash, so that its bytes may change.\<close>

lemma privateRawBlock_own:
  assumes "blocks_inv s" "map_of (t_objs s) i \<noteq> None" "hash_inv (bs_dedup st) T s"
  shows "\<exists>s' b r. privateRawBlock st i q chunk s = (Inr b, s') \<and> blockOf s' i q = Some b \<and> map_of (t_blocks s') b = Some r \<and>
    k_refs r \<le> 1 \<and> k_hash r = None \<and> hash_inv (bs_dedup st) T s' \<and> stores i q (de r) s s' \<and>
    de r = (case content s i q of None \<Rightarrow> (replicate chunk 0, encVerbatim) | Some v \<Rightarrow> v)"
proof -
  let ?b = "rowid_new (t_blocks s)"
  have f: "map_of (t_blocks s) ?b = None" by (rule rowid_fresh)
  show ?thesis
  proof (cases "blockOf s i q")
    case None
    let ?r = "\<lparr>k_data = replicate chunk 0, k_enc = encVerbatim, k_refs = 1, k_hash = None\<rparr>"
    let ?s' = "s\<lparr>t_blocks := t_blocks s @ [(?b, ?r)], t_chunks := AList.update (i, q) ?b (t_chunks s)\<rparr>"
    have "privateRawBlock st i q chunk s = (Inr ?b, ?s')" using None by (simp add: privateRawBlock_def bop_simps)
    moreover have "stores i q (de ?r) s ?s'" by (rule stores_new [OF assms(1,2) None _ refl]) simp
    moreover have "hash_inv (bs_dedup st) T ?s'"
      by (rule hash_inv_rows [OF assms(3)]) (auto simp: map_of_snoc [OF f] simp del: map_of_append split: if_splits)
    moreover have "map_of (t_blocks ?s') ?b = Some ?r" using map_of_snoc [OF f] by simp
    moreover have "blockOf ?s' i q = Some ?b" by (simp add: blockOf_def update_conv')
    moreover have "content s i q = None" using None by (simp add: content_alt blockOf_def)
    ultimately show ?thesis by (intro exI [of _ ?s'] exI [of _ ?b] exI [of _ ?r]) (simp add: de_def)
  next
    case (Some cur)
    obtain rc where rc: "map_of (t_blocks s) cur = Some rc" "1 \<le> k_refs rc"
      using blocks_invD(4) [OF assms(1)] Some unfolding blockOf_def by blast
    have c: "content s i q = Some (de rc)" using Some rc(1) by (simp add: content_alt blockOf_def)
    show ?thesis
    proof (cases "k_refs rc \<le> 1")
      case True
      let ?f = "\<lambda>r. r\<lparr>k_hash := None\<rparr> :: blockrow"
      let ?s' = "if bs_dedup st then s\<lparr>t_blocks := upd_row cur ?f (t_blocks s)\<rparr> else s"
      have "k_hash rc = None" if "\<not> bs_dedup st" using hash_invD [OF assms(3) rc(1)] that by (cases "k_hash rc") auto
      then have m: "map_of (t_blocks ?s') cur = Some (?f rc)" using rc(1) by simp
      have "privateRawBlock st i q chunk s = (Inr cur, ?s')" using Some rc True by (simp add: privateRawBlock_def bop_simps)
      moreover have "stores i q (de (?f rc)) s ?s'"
        using stores_inplace [OF assms(1) Some rc(1) True, of ?f] stores_self [OF assms(1) c] by (simp add: de_def)
      moreover have "hash_inv (bs_dedup st) T ?s'" by (rule hash_inv_rows [OF assms(3)]) (auto split: if_splits)
      moreover have "blockOf ?s' i q = Some cur" using Some by (simp add: blockOf_def)
      ultimately show ?thesis using m True c by (intro exI [of _ ?s'] exI [of _ cur] exI [of _ "?f rc"]) (simp add: de_def)
    next
      case False
      let ?r = "\<lparr>k_data = k_data rc, k_enc = k_enc rc, k_refs = 1, k_hash = None\<rparr>"
      let ?s' = "s\<lparr>t_blocks := upd_row cur (\<lambda>r. r\<lparr>k_refs := k_refs r - 1\<rparr>) (t_blocks s @ [(?b, ?r)]),
        t_chunks := AList.update (i, q) ?b (t_chunks s)\<rparr>"
      have ne: "?b \<noteq> cur" using f rc(1) by auto
      have "privateRawBlock st i q chunk s = (Inr ?b, ?s')" using Some rc False by (simp add: privateRawBlock_def bop_simps)
      moreover have "stores i q (de ?r) s ?s'" by (rule stores_move [OF assms(1) Some rc(1) _ _ refl]) (use False in simp_all)
      moreover have "hash_inv (bs_dedup st) T ?s'"
        by (rule hash_inv_rows [OF assms(3)]) (auto simp: map_of_snoc [OF f] de_def simp del: map_of_append split: if_splits)
      moreover have "map_of (t_blocks ?s') ?b = Some ?r" using map_of_snoc [OF f] ne by simp
      moreover have "blockOf ?s' i q = Some ?b" by (simp add: blockOf_def update_conv')
      ultimately show ?thesis using c by (intro exI [of _ ?s'] exI [of _ ?b] exI [of _ ?r]) (simp add: de_def)
    qed
  qed
qed

lemma raw_stores:
  assumes "blocks_inv s" "map_of (t_objs s) i \<noteq> None" "hash_inv (bs_dedup st) T s"
    and "(case content s i q of None \<Rightarrow> (replicate chunk 0, encVerbatim) | Some v \<Rightarrow> v) = (old, encVerbatim)" "length old = chunk"
    and "off + length src \<le> chunk" "chunk \<le> maxChunkSize"
  shows "\<exists>s'. bbind (privateRawBlock st i q chunk) (\<lambda>b. blobWrite b src off) s = (Inr (), s') \<and>
    stores i q (blit off src old, encVerbatim) s s' \<and> hash_inv (bs_dedup st) T s'"
proof -
  obtain s1 b r where p: "privateRawBlock st i q chunk s = (Inr b, s1)" "blockOf s1 i q = Some b" "map_of (t_blocks s1) b = Some r"
    "k_refs r \<le> 1" "k_hash r = None" "hash_inv (bs_dedup st) T s1" "stores i q (de r) s s1" "de r = (old, encVerbatim)"
    using privateRawBlock_own [OF assms(1-3), of q chunk] assms(4) by auto
  have w: "blob_WriteAt (k_data r) src off = Inr (blit off src old)"
    using p(8) assms(5-7) by (auto simp: blob_WriteAt_def de_def maxChunkSize_def blit_def)
  let ?f = "\<lambda>r. r\<lparr>k_data := blit off src old\<rparr> :: blockrow"
  let ?s' = "s1\<lparr>t_blocks := upd_row b ?f (t_blocks s1)\<rparr>"
  have "bbind (privateRawBlock st i q chunk) (\<lambda>b. blobWrite b src off) s = (Inr (), ?s')"
    using p(1,3) w by (simp add: blobWrite_def bop_simps)
  moreover have "stores i q (de (?f r)) s1 ?s'"
    using stores_inplace [OF _ p(2,3,4), of ?f] p(7) by (simp add: stores_def)
  then have "stores i q (blit off src old, encVerbatim) s ?s'" using stores_trans [OF p(7)] p(8) by (simp add: de_def)
  moreover have "hash_inv (bs_dedup st) T ?s'"
    by (rule hash_inv_rows [OF p(6)]) (use p(3,5) in \<open>auto split: if_splits\<close>)
  ultimately show ?thesis by blast
qed

section \<open>Releasing chunks\<close>

lemma chunk_count_split: "chunk_count cs x = chunk_count (filter P cs) x + chunk_count (filter (\<lambda>c. \<not> P c) cs) x"
  unfolding chunk_count_def by (induction cs) auto

lemma chunk_count_in: "0 < chunk_count cs x \<longleftrightarrow> x \<in> set (map snd cs)"
  unfolding chunk_count_def by (auto simp: filter_empty_conv)

definition chunks_released :: "nat \<Rightarrow> int option \<Rightarrow> bdb \<Rightarrow> bdb \<Rightarrow> bool" where
  "chunks_released i from s s' \<longleftrightarrow> t_objs s' = t_objs s \<and> t_versions s' = t_versions s \<and>
     distinct (map fst (t_blocks s')) \<and> (\<forall>x. refs_ok (t_chunks s') x (map_of (t_blocks s') x)) \<and>
     distinct (map fst (t_chunks s')) \<and>
     (\<forall>j q. map_of (t_chunks s') (j, q) = (if in_range i from ((j, q), 0) then None else map_of (t_chunks s) (j, q))) \<and>
     (\<forall>x r. map_of (t_blocks s') x = Some r \<longrightarrow> (\<exists>r'. map_of (t_blocks s) x = Some r' \<and> de r' = de r \<and> k_hash r' = k_hash r))"

lemma chunks_releasedI:
  assumes "distinct (map fst t)" "\<And>x. refs_ok cs x (map_of t x)" "distinct (map fst cs)"
    "\<And>j q. map_of cs (j, q) = (if in_range i from ((j, q), 0) then None else map_of (t_chunks s) (j, q))"
    "\<And>x r. map_of t x = Some r \<Longrightarrow> \<exists>r'. map_of (t_blocks s) x = Some r' \<and> de r' = de r \<and> k_hash r' = k_hash r"
  shows "chunks_released i from s (s\<lparr>t_blocks := t, t_chunks := cs\<rparr>)"
  by (simp add: chunks_released_def assms(1-4)) (use assms(1,5) in auto)

lemma releaseChunks_ok:
  assumes "distinct (map fst (t_blocks s))" "distinct (map fst (t_chunks s))" "\<And>x. refs_ok (t_chunks s) x (map_of (t_blocks s) x)"
  shows "\<exists>s'. releaseChunks i from s = (Inr (), s') \<and> chunks_released i from s s'"
proof -
  let ?sel = "filter (in_range i from) (t_chunks s)"
  let ?rest = "filter (\<lambda>c. \<not> in_range i from c) (t_chunks s)"
  let ?dec = "\<lambda>x r. r\<lparr>k_refs := k_refs r - int (chunk_count ?sel x)\<rparr> :: blockrow"
  let ?t1 = "map (\<lambda>p. (fst p, ?dec (fst p) (snd p))) (t_blocks s)"
  let ?t2 = "filter (\<lambda>p. \<not> (k_refs (snd p) \<le> 0 \<and> fst p \<in> set (map snd ?sel))) ?t1"
  have d1: "distinct (map fst ?t1)" using assms(1) by (simp add: comp_def)
  have m: "map_of ?t2 x = (case map_of (t_blocks s) x of None \<Rightarrow> None
      | Some r \<Rightarrow> if k_refs (?dec x r) \<le> 0 \<and> x \<in> set (map snd ?sel) then None else Some (?dec x r))" for x
    unfolding map_of_filter_distinct [OF d1] map_of_map_row [where f = ?dec] by (simp split: option.splits)
  have "refs_ok ?rest x (map_of ?t2 x)" for x
    using assms(3) [of x] chunk_count_split [of "t_chunks s" x "in_range i from"] chunk_count_in [of ?sel x]
    unfolding m by (cases "map_of (t_blocks s) x") (auto simp: refs_ok_def simp del: set_map set_filter)
  moreover have "distinct (map fst ?t2)" by (rule distinct_map_filter [OF d1])
  moreover have "map_of ?rest (j, q) = (if in_range i from ((j, q), 0) then None else map_of (t_chunks s) (j, q))" for j q
    unfolding map_of_filter_distinct [OF assms(2)] by (auto simp: in_range_def split: option.splits)
  moreover have "\<exists>r'. map_of (t_blocks s) x = Some r' \<and> de r' = de r \<and> k_hash r' = k_hash r" if "map_of ?t2 x = Some r" for x r
    using that unfolding m by (auto simp: de_def split: option.splits if_splits)
  moreover have "distinct (map fst ?rest)" by (rule distinct_map_filter [OF assms(2)])
  moreover have "releaseChunks i from s = (Inr (), s\<lparr>t_blocks := ?t2, t_chunks := ?rest\<rparr>)"
    by (simp add: releaseChunks_def bop_simps)
  ultimately show ?thesis using chunks_releasedI [of ?t2 ?rest i "from" s] by blast
qed

lemma chunks_released_content:
  assumes "chunks_released i from s s'" "\<And>x. refs_ok (t_chunks s) x (map_of (t_blocks s) x)"
  shows "content s' j q = (if in_range i from ((j, q), 0) then None else content s j q)"
proof -
  have c: "map_of (t_chunks s') (j, q) = (if in_range i from ((j, q), 0) then None else map_of (t_chunks s) (j, q))"
    and b: "\<And>x r. map_of (t_blocks s') x = Some r \<Longrightarrow> \<exists>r'. map_of (t_blocks s) x = Some r' \<and> de r' = de r"
    and ok: "\<And>x. refs_ok (t_chunks s') x (map_of (t_blocks s') x)"
    using assms(1) unfolding chunks_released_def by blast+
  show ?thesis
  proof (cases "map_of (t_chunks s') (j, q)")
    case None
    then show ?thesis using c by (auto simp: content_alt split: if_splits)
  next
    case (Some x)
    obtain r where r: "map_of (t_blocks s') x = Some r"
      using ok [of x] chunk_count_pos [OF Some] by (auto simp: refs_ok_def split: option.splits)
    then show ?thesis using b [OF r] Some c by (auto simp: content_alt split: if_splits)
  qed
qed

end
