(* ===== verification/Blobstore_Content.thy ===== *)
theory Blobstore_Content
  imports Blobstore_Inv
begin

text \<open>
  The blob store as a store of byte sequences: \<open>obyte\<close> is the byte of an object at an offset, through the chunk mapping, the
  blocks and the decompressor. Writing an object is \<open>put_bytes\<close> on its bytes and truncating it \<open>cut_bytes\<close>, whatever its
  storage mode, and no other object changes, also one that shared its blocks.
\<close>

section \<open>The bytes of an object\<close>

text \<open>What the code relies on from the compressor: it compresses at each of its levels, and decompressing a frame with a limit the
  plaintext fits in gives the plaintext.\<close>

definition az_ok :: "azlib \<Rightarrow> bool" where
  "az_ok az \<longleftrightarrow> (\<forall>lvl\<in>{1..5}. \<forall>p. \<exists>c. az_EncodeAll az lvl p = Inr c \<and> (\<forall>mx\<ge>length p. az_DecodeAllLimit az c mx = Inr p))"

definition plain_of :: "azlib \<Rightarrow> nat \<Rightarrow> (bytes \<times> nat) option \<Rightarrow> bytes option" where
  "plain_of az chunk v = (case v of None \<Rightarrow> None
     | Some (data, enc) \<Rightarrow> (case decodeChunk az data enc chunk of Inl e \<Rightarrow> None | Inr p \<Rightarrow> Some p))"

definition obyte :: "azlib \<Rightarrow> bdb \<Rightarrow> nat \<Rightarrow> nat \<Rightarrow> byte" where
  "obyte az s i k = (case map_of (t_objs s) i of None \<Rightarrow> 0
     | Some o' \<Rightarrow> (case plain_of az (o_chunk o') (content s i (k div o_chunk o')) of None \<Rightarrow> 0 | Some p \<Rightarrow> p ! (k mod o_chunk o')))"

definition chunk_of :: "(nat \<Rightarrow> byte) \<Rightarrow> nat \<Rightarrow> nat \<Rightarrow> bytes" where
  "chunk_of f c q = map (\<lambda>j. f (q * c + j)) [0..<c]"

definition row_ok :: "objrow \<Rightarrow> bool" where
  "row_ok o' \<longleftrightarrow> 0 < o_chunk o' \<and> o_chunk o' \<le> maxChunkSize"

definition decodes :: "azlib \<Rightarrow> nat \<Rightarrow> bytes \<times> nat \<Rightarrow> bool" where
  "decodes az c v \<longleftrightarrow> (case decodeChunk az (fst v) (snd v) c of Inl e \<Rightarrow> False | Inr p \<Rightarrow> length p = c)"

definition core :: "azlib \<Rightarrow> bool \<Rightarrow> bytes set \<Rightarrow> bdb \<Rightarrow> bool" where
  "core az d T s \<longleftrightarrow> blocks_inv s \<and> hash_inv d T s \<and>
     (\<forall>i o'. map_of (t_objs s) i = Some o' \<longrightarrow> row_ok o' \<and> (\<forall>q v. content s i q = Some v \<longrightarrow> decodes az (o_chunk o') v))"

text \<open>The chunks of a raw object are stored as they are.\<close>

definition mode_ok :: "bdb \<Rightarrow> nat \<Rightarrow> bool" where
  "mode_ok s i \<longleftrightarrow> (\<forall>o' q v. map_of (t_objs s) i = Some o' \<longrightarrow> o_codec o' \<noteq> codecAZ \<longrightarrow> content s i q = Some v \<longrightarrow> snd v = encVerbatim)"

lemma coreD:
  assumes "core az d T s"
  shows "blocks_inv s" "hash_inv d T s" "map_of (t_objs s) i = Some o' \<Longrightarrow> row_ok o'"
    "map_of (t_objs s) i = Some o' \<Longrightarrow> content s i q = Some v \<Longrightarrow> decodes az (o_chunk o') v"
  using assms unfolding core_def by blast+

lemma length_chunk_of [simp]: "length (chunk_of f c q) = c"
  by (simp add: chunk_of_def)

lemma nth_chunk_of [simp]: "j < c \<Longrightarrow> chunk_of f c q ! j = f (q * c + j)"
  by (simp add: chunk_of_def)

lemma plain_chunk_of:
  assumes "core az d T s" "map_of (t_objs s) i = Some o'"
  shows "plain_of az (o_chunk o') (content s i q) =
    (if content s i q = None then None else Some (chunk_of (obyte az s i) (o_chunk o') q))"
    "content s i q = None \<Longrightarrow> chunk_of (obyte az s i) (o_chunk o') q = replicate (o_chunk o') 0"
proof -
  let ?c = "o_chunk o'"
  have c: "(q * ?c + j) div ?c = q" "(q * ?c + j) mod ?c = j" if "j < ?c" for j using that by (simp_all add: div_add1_eq)
  show "content s i q = None \<Longrightarrow> chunk_of (obyte az s i) ?c q = replicate ?c 0"
    using assms(2) c by (simp add: chunk_of_def obyte_def plain_of_def map_replicate_const list_eq_iff_nth_eq)
  show "plain_of az ?c (content s i q) = (if content s i q = None then None else Some (chunk_of (obyte az s i) ?c q))"
  proof (cases "content s i q")
    case (Some v)
    obtain data enc where v: "v = (data, enc)" by fastforce
    obtain p where p: "decodeChunk az data enc ?c = Inr p" "length p = ?c"
      using coreD(4) [OF assms Some] by (auto simp: decodes_def v split: sum.splits)
    then have "chunk_of (obyte az s i) ?c q = p"
      using assms(2) Some c by (intro nth_equalityI) (simp_all add: obyte_def plain_of_def v)
    then show ?thesis using Some p by (simp add: plain_of_def v)
  qed (simp add: plain_of_def)
qed

lemma content_decodes:
  assumes "core az d T s" "map_of (t_objs s) i = Some o'" "content s i q = Some (data, enc)"
  shows "decodeChunk az data enc (o_chunk o') = Inr (chunk_of (obyte az s i) (o_chunk o') q)"
  using plain_chunk_of(1) [OF assms(1,2), of q] assms(3) by (auto simp: plain_of_def split: sum.splits)

lemma obyte_cong:
  assumes "map_of (t_objs s') j = map_of (t_objs s) j" "\<And>q. content s' j q = content s j q"
  shows "obyte az s' j = obyte az s j"
proof -
  have c: "content s' j = content s j" by (rule ext) (rule assms(2))
  show ?thesis by (rule ext) (simp only: obyte_def assms(1) c)
qed

text \<open>Storing a chunk changes the bytes of that chunk.\<close>

lemma stores_core:
  assumes "core az d T s" "map_of (t_objs s) i = Some o'" "stores i q (data, enc) s s'" "hash_inv d T s'"
    "decodeChunk az data enc (o_chunk o') = Inr p" "length p = o_chunk o'"
  shows "core az d T s'" "j \<noteq> i \<Longrightarrow> mode_ok s' j = mode_ok s j"
    "mode_ok s i \<Longrightarrow> (o_codec o' \<noteq> codecAZ \<Longrightarrow> enc = encVerbatim) \<Longrightarrow> mode_ok s' i"
proof -
  have c: "t_objs s' = t_objs s" "blocks_inv s'" "\<And>j q'. content s' j q' = (if (j, q') = (i, q) then Some (data, enc) else content s j q')"
    using assms(3) unfolding stores_def by blast+
  show "core az d T s'" unfolding core_def
  proof (intro conjI allI impI)
    fix j o2 assume j: "map_of (t_objs s') j = Some o2"
    then show "row_ok o2" using coreD(3) [OF assms(1)] c(1) by simp
    fix q' v assume "content s' j q' = Some v"
    then show "decodes az (o_chunk o2) v"
      using j c(1) assms(2,5,6) coreD(4) [OF assms(1), of j o2 q' v] unfolding c(3) by (auto simp: decodes_def split: if_splits)
  qed (use c(2) assms(4) in simp_all)
  show "j \<noteq> i \<Longrightarrow> mode_ok s' j = mode_ok s j" by (simp add: mode_ok_def c(1,3))
  show "mode_ok s i \<Longrightarrow> (o_codec o' \<noteq> codecAZ \<Longrightarrow> enc = encVerbatim) \<Longrightarrow> mode_ok s' i"
    using assms(2) by (auto simp: mode_ok_def c(1,3))
qed

lemma stores_obyte:
  assumes "stores i q (data, enc) s s'" "map_of (t_objs s) i = Some o'" "decodeChunk az data enc (o_chunk o') = Inr p"
  shows "obyte az s' j k = (if j = i \<and> k div o_chunk o' = q then p ! (k mod o_chunk o') else obyte az s j k)"
  using assms unfolding stores_def by (auto simp: obyte_def plain_of_def split: option.splits)

section \<open>Writing\<close>

definition good :: "azlib \<Rightarrow> bool \<Rightarrow> bytes set \<Rightarrow> bdb \<Rightarrow> bool" where
  "good az d T s \<longleftrightarrow> core az d T s \<and> (\<forall>i. mode_ok s i)"

definition wrote :: "azlib \<Rightarrow> bool \<Rightarrow> bytes set \<Rightarrow> nat \<Rightarrow> (nat \<Rightarrow> byte) \<Rightarrow> bdb \<Rightarrow> bdb \<Rightarrow> bool" where
  "wrote az d T i f s s' \<longleftrightarrow> good az d T s' \<and> t_objs s' = t_objs s \<and> t_versions s' = t_versions s \<and> obyte az s' = (obyte az s)(i := f)"

text \<open>With deduplication, the forms a write stores are among the hashed ones \<open>T\<close>, on which the hash has no collision.\<close>

definition tags_in :: "azlib \<Rightarrow> bytes set \<Rightarrow> nat \<Rightarrow> bytes \<Rightarrow> bool" where
  "tags_in az T lvl p \<longleftrightarrow> (case encodeChunk az p lvl of Inl e \<Rightarrow> True | Inr (data, enc) \<Rightarrow> word_of_nat enc # data \<in> T)"

lemma encode_ok:
  assumes "az_ok az"
  shows "\<exists>data enc. encodeChunk az p (writeLevel a b) = Inr (data, enc) \<and> enc < 256 \<and> decodeChunk az data enc (length p) = Inr p"
proof -
  have "writeLevel a b \<in> {1..5}" by (auto simp: writeLevel_def azLevelOrDefault_def azLevel_def split: option.splits if_splits)
  then obtain c where "az_EncodeAll az (writeLevel a b) p = Inr c" "az_DecodeAllLimit az c (length p) = Inr p"
    using assms unfolding az_ok_def by blast
  then show ?thesis by (auto simp: encodeChunk_def decodeChunk_def encVerbatim_def encAZ_def)
qed

lemma chunkPut_stores:
  assumes "core az (bs_dedup st) T s" "map_of (t_objs s) i \<noteq> None" "az_ok az" "inj_on sha256 T"
    "bs_dedup st \<Longrightarrow> tags_in az T (writeLevel lvl (bs_compression st)) p"
  shows "\<exists>s' data enc. chunkPutCompressed az st i q p lvl s = (Inr (), s') \<and> stores i q (data, enc) s s' \<and> hash_inv (bs_dedup st) T s' \<and>
    decodeChunk az data enc (length p) = Inr p"
proof -
  obtain data enc where e: "encodeChunk az p (writeLevel lvl (bs_compression st)) = Inr (data, enc)" "enc < 256"
    "decodeChunk az data enc (length p) = Inr p" using encode_ok [OF assms(3)] by blast
  then show ?thesis
    using putBlock_stores [OF coreD(1) [OF assms(1)] assms(2) coreD(2) [OF assms(1)] assms(4), of enc data q] assms(5)
    by (auto simp: chunkPutCompressed_def tags_in_def)
qed

lemma chunkGet_plain:
  assumes "core az d T s" "map_of (t_objs s) i = Some o'"
  shows "chunkGetCompressed az s i q (o_chunk o') =
    Inr (if content s i q = None then None else Some (chunk_of (obyte az s i) (o_chunk o') q))"
proof (cases "joinBlock s i q")
  case (Some r)
  then have "content s i q = Some (k_data r, k_enc r)" by (simp add: content_def de_def)
  then show ?thesis using content_decodes [OF assms] Some by (simp add: chunkGetCompressed_def)
qed (simp add: chunkGetCompressed_def content_def)

definition writeChunk :: "azlib \<Rightarrow> bstore \<Rightarrow> nat \<Rightarrow> objrow \<Rightarrow> nat \<Rightarrow> nat \<Rightarrow> bytes \<Rightarrow> unit bop" where
  "writeChunk az st i o' q inOff src = (if o_codec o' = codecAZ then writeChunkCompressed az st i q (o_chunk o') inOff src (o_level o')
     else writeChunkRaw st i q (o_chunk o') inOff src)"

lemma blit_chunk_of:
  assumes "inOff + length src \<le> c" "0 < c"
  shows "blit inOff src (chunk_of f c q) = chunk_of (put_bytes (q * c + inOff) src f) c q"
  using assms by (intro nth_equalityI) (auto simp: nth_blit put_bytes_def)

lemma chunk_update:
  assumes "0 < c" "inOff + length src \<le> c"
  shows "(if k div c = q then blit inOff src (chunk_of f c q) ! (k mod c) else f k) = put_bytes (q * c + inOff) src f k"
proof (cases "k div c = q")
  case True
  have "q * c + k mod c = k" using True by auto
  then show ?thesis using True assms by (simp add: blit_chunk_of)
next
  case False
  have "k < q * c \<or> q * c + c \<le> k"
  proof (rule ccontr)
    assume "\<not> ?thesis"
    then have "k div c = q" by (intro div_nat_eqI) (simp_all add: algebra_simps)
    then show False using False by blast
  qed
  then show ?thesis using False assms(2) by (auto simp: put_bytes_def)
qed

lemma write_chunk:
  assumes "good az (bs_dedup st) T s" "map_of (t_objs s) i = Some o'" "az_ok az" "inj_on sha256 T" "inOff + length src \<le> o_chunk o'"
    and "bs_dedup st \<Longrightarrow> o_codec o' = codecAZ \<Longrightarrow>
      tags_in az T (writeLevel (o_level o') (bs_compression st)) (blit inOff src (chunk_of (obyte az s i) (o_chunk o') q))"
  shows "\<exists>s'. writeChunk az st i o' q inOff src s = (Inr (), s') \<and>
    wrote az (bs_dedup st) T i (put_bytes (q * o_chunk o' + inOff) src (obyte az s i)) s s'"
proof -
  let ?c = "o_chunk o'" and ?d = "bs_dedup st"
  let ?old = "chunk_of (obyte az s i) ?c q"
  let ?p = "blit inOff src ?old"
  have core: "core az ?d T s" and mode: "\<And>i. mode_ok s i" using assms(1) by (simp_all add: good_def)
  have row: "0 < ?c" "?c \<le> maxChunkSize" using coreD(3) [OF core assms(2)] by (simp_all add: row_ok_def)
  have obj: "map_of (t_objs s) i \<noteq> None" using assms(2) by simp
  have "\<exists>s' data enc. writeChunk az st i o' q inOff src s = (Inr (), s') \<and> stores i q (data, enc) s s' \<and> hash_inv ?d T s' \<and>
      decodeChunk az data enc ?c = Inr ?p \<and> (o_codec o' \<noteq> codecAZ \<longrightarrow> enc = encVerbatim)"
  proof (cases "o_codec o' = codecAZ")
    case True
    have "writeChunk az st i o' q inOff src s = chunkPutCompressed az st i q ?p (o_level o') s"
    proof (cases "inOff = 0 \<and> length src = ?c")
      case full: True
      have "?p = src" by (simp add: full blit_def)
      then show ?thesis using True full by (simp add: writeChunk_def writeChunkCompressed_def)
    next
      case False
      then have "writeChunk az st i o' q inOff src s = (case chunkGetCompressed az s i q ?c of
          Inl e \<Rightarrow> bfail e s
        | Inr p \<Rightarrow> chunkPutCompressed az st i q (blit inOff src (case p of None \<Rightarrow> replicate ?c 0 | Some x \<Rightarrow> x)) (o_level o') s)"
        using True unfolding writeChunk_def writeChunkCompressed_def Let_def by (simp only: if_True if_False refl)
      then show ?thesis using plain_chunk_of(2) [OF core assms(2)] by (simp add: chunkGet_plain [OF core assms(2)])
    qed
    then show ?thesis using chunkPut_stores [OF core obj assms(3,4), of "o_level o'" ?p q] assms(6) True by auto
  next
    case False
    have old: "(case content s i q of None \<Rightarrow> (replicate ?c 0, encVerbatim) | Some v \<Rightarrow> v) = (?old, encVerbatim)"
    proof (cases "content s i q")
      case None
      then show ?thesis using plain_chunk_of(2) [OF core assms(2)] by simp
    next
      case (Some v)
      have e: "snd v = encVerbatim" using mode [of i] assms(2) False Some unfolding mode_ok_def by blast
      then have "decodeChunk az (fst v) encVerbatim ?c = Inr ?old" using content_decodes [OF core assms(2), of q "fst v" "snd v"] Some by (cases v) simp
      then have "fst v = ?old" by (simp add: decodeChunk_def split: if_splits)
      then show ?thesis using Some e by (cases v) simp
    qed
    have "decodeChunk az ?p encVerbatim ?c = Inr ?p" by (simp add: decodeChunk_def)
    then show ?thesis
      using raw_stores [OF coreD(1) [OF core] obj coreD(2) [OF core] old _ assms(5) row(2)] False
      by (auto simp: writeChunk_def writeChunkRaw_def)
  qed
  then obtain s' data enc where s': "writeChunk az st i o' q inOff src s = (Inr (), s')" "stores i q (data, enc) s s'" "hash_inv ?d T s'"
    "decodeChunk az data enc ?c = Inr ?p" "o_codec o' \<noteq> codecAZ \<Longrightarrow> enc = encVerbatim" by blast
  note sc = stores_core [OF core assms(2) s'(2,3,4)]
  have "good az ?d T s'" using sc mode s'(5) unfolding good_def by (metis length_blit length_chunk_of)
  moreover have "obyte az s' = (obyte az s)(i := put_bytes (q * ?c + inOff) src (obyte az s i))"
    by (intro ext) (simp add: stores_obyte [OF s'(2) assms(2) s'(4)] flip: chunk_update [OF row(1) assms(5)])
  ultimately show ?thesis using s'(1,2) by (auto simp: wrote_def stores_def)
qed

lemma wrote_trans: "wrote az d T i f s s1 \<Longrightarrow> wrote az d T i g s1 s2 \<Longrightarrow> wrote az d T i g s s2"
  by (simp add: wrote_def)

lemma put_bytes_chunk:
  assumes "pos + span = off + length p \<or> pos + span = (q + 1) * c" "off + n = pos" "n \<le> length p" "span \<le> length p - n"
  shows "chunk_of (put_bytes off (take (n + span) p) f) c q = chunk_of (put_bytes off p f) c q"
  using assms by (intro nth_equalityI) (auto simp: put_bytes_def)

lemma span_facts:
  fixes pos "end" c span :: nat
  assumes "0 < c" "pos < end" "span = min (c - pos mod c) (end - pos)"
  shows "0 < span" "pos mod c + span \<le> c" "pos + span \<le> end" "pos + span = end \<or> pos + span = (pos div c + 1) * c"
    "pos div c * c + pos mod c = pos"
proof -
  have m: "pos mod c < c" using assms(1) by simp
  have "span \<le> c - pos mod c" "span \<le> end - pos" "0 < span" using assms(2,3) m by (simp_all add: min_def)
  then show "0 < span" "pos mod c + span \<le> c" "pos + span \<le> end" using assms(2) m by linarith+
  have "pos + (c - pos mod c) = (pos div c + 1) * c"
    using m div_mult_mod_eq [of pos c] distrib_right [of "pos div c" 1 c] by linarith
  then show "pos + span = end \<or> pos + span = (pos div c + 1) * c" using assms(2,3) by (auto simp: min_def)
qed simp

lemma write_spans:
  assumes "az_ok az" "inj_on sha256 T"
    and tags: "\<And>q. bs_dedup st \<Longrightarrow> o_codec o' = codecAZ \<Longrightarrow>
      tags_in az T (writeLevel (o_level o') (bs_compression st)) (chunk_of (put_bytes off p f) (o_chunk o') q)"
  shows "good az (bs_dedup st) T s \<Longrightarrow> map_of (t_objs s) i = Some o' \<Longrightarrow> n \<le> length p \<Longrightarrow>
    obyte az s i = put_bytes off (take n p) f \<Longrightarrow>
    \<exists>s'. each (\<lambda>(q, inOff, span, bufOff). writeChunk az st i o' q inOff (bslice bufOff (bufOff + span) p))
        (chunkSpans (off + n) (off + length p) (o_chunk o') n) s = (Inr (), s') \<and>
      wrote az (bs_dedup st) T i (put_bytes off p f) s s'"
proof (induction "length p - n" arbitrary: n s rule: less_induct)
  case less
  let ?c = "o_chunk o'" and ?pos = "off + n"
  show ?case
  proof (cases "n = length p")
    case True
    have "obyte az s = (obyte az s)(i := put_bytes off p f)" using less.prems(4) True by (simp add: fun_upd_idem)
    then show ?thesis using less.prems(1) True by (subst chunkSpans.simps) (simp add: bret_def wrote_def)
  next
    case False
    have c: "0 < ?c" using coreD(3) [of az _ T s i o'] less.prems(1,2) by (auto simp: good_def row_ok_def)
    define span where "span = min (?c - ?pos mod ?c) (off + length p - ?pos)"
    note sp = span_facts [OF c _ span_def] 
    have lt: "?pos < off + length p" using False less.prems(3) by simp
    let ?src = "bslice n (n + span) p"
    have le: "n + span \<le> length p" using sp(3) [OF lt] by simp
    then have len: "length ?src = span" by simp
    have put: "put_bytes (?pos div ?c * ?c + ?pos mod ?c) ?src (obyte az s i) = put_bytes off (take (n + span) p) f"
      using put_bytes_split [OF less.prems(3), of off span f] unfolding less.prems(4) sp(5) [OF lt] bslice_def by simp
    have "blit (?pos mod ?c) ?src (chunk_of (obyte az s i) ?c (?pos div ?c)) = chunk_of (put_bytes off p f) ?c (?pos div ?c)"
      using blit_chunk_of [OF _ c, of "?pos mod ?c" ?src "obyte az s i" "?pos div ?c"] sp(2) [OF lt] len put
        put_bytes_chunk [of ?pos span off p "?pos div ?c" ?c n f] sp(4) [OF lt] less.prems(3) le by simp
    then obtain s1 where s1: "writeChunk az st i o' (?pos div ?c) (?pos mod ?c) ?src s = (Inr (), s1)"
      "wrote az (bs_dedup st) T i (put_bytes off (take (n + span) p) f) s s1"
      using write_chunk [OF less.prems(1,2) assms(1,2), of "?pos mod ?c" ?src "?pos div ?c"] sp(2) [OF lt] len tags put by auto
    have w: "good az (bs_dedup st) T s1" "map_of (t_objs s1) i = Some o'" "obyte az s1 i = put_bytes off (take (n + span) p) f"
      using s1(2) less.prems(2) by (simp_all add: wrote_def)
    obtain s2 where s2: "each (\<lambda>(q, inOff, span, bufOff). writeChunk az st i o' q inOff (bslice bufOff (bufOff + span) p))
        (chunkSpans (off + (n + span)) (off + length p) ?c (n + span)) s1 = (Inr (), s2)"
      "wrote az (bs_dedup st) T i (put_bytes off p f) s1 s2"
      using less.hyps [OF _ w(1,2) le w(3)] sp(1) [OF lt] le by (meson diff_less_mono2 less_add_same_cancel1 less_le_trans)
    have "chunkSpans ?pos (off + length p) ?c n =
        (?pos div ?c, ?pos mod ?c, span, n) # chunkSpans (off + (n + span)) (off + length p) ?c (n + span)"
      using lt c by (subst chunkSpans.simps) (simp add: Let_def span_def add.assoc)
    then show ?thesis using s1 s2 wrote_trans by (auto simp: bbind_def)
  qed
qed

lemma writeSpans_eq:
  "writeSpans az st i o' off p = each (\<lambda>(q, inOff, span, bufOff). writeChunk az st i o' q inOff (bslice bufOff (bufOff + span) p))
     (chunkSpans off (off + length p) (o_chunk o') 0)"
  by (simp add: writeSpans_def eachChunkSpan_def writeChunk_def Let_def)

lemma writeSpans_ok:
  assumes "good az (bs_dedup st) T s" "map_of (t_objs s) i = Some o'" "az_ok az" "inj_on sha256 T"
    and "\<And>q. bs_dedup st \<Longrightarrow> o_codec o' = codecAZ \<Longrightarrow>
      tags_in az T (writeLevel (o_level o') (bs_compression st)) (chunk_of (put_bytes off p (obyte az s i)) (o_chunk o') q)"
  shows "\<exists>s'. writeSpans az st i o' off p s = (Inr (), s') \<and> wrote az (bs_dedup st) T i (put_bytes off p (obyte az s i)) s s'"
  using write_spans [OF assms(3-5,1,2), of 0] by (simp add: writeSpans_eq)

text \<open>Changing the columns of an object that do not concern its bytes.\<close>

lemma updObj_core:
  fixes f :: "objrow \<Rightarrow> objrow" and s :: bdb and i :: nat
  assumes "\<And>r. o_chunk (f r) = o_chunk r"
  defines "s' \<equiv> s\<lparr>t_objs := upd_row i f (t_objs s)\<rparr>"
  shows "content s' = content s" "obyte az s' = obyte az s" "core az d T s \<Longrightarrow> core az d T s'"
proof -
  show c: "content s' = content s" by (intro ext) (simp add: content_def joinBlock_def s'_def)
  have row: "map_of (t_objs s') j = Some o2 \<Longrightarrow> \<exists>o1. map_of (t_objs s) j = Some o1 \<and> o_chunk o2 = o_chunk o1" for j o2
    using assms(1) by (auto simp: s'_def split: if_splits)
  show "core az d T s'" if core: "core az d T s"
  proof -
    have "blocks_inv s'" using coreD(1) [OF core] unfolding blocks_inv_def s'_def by (fastforce split: if_splits)
    moreover have "hash_inv d T s'" using coreD(2) [OF core] by (simp add: hash_inv_def s'_def)
    ultimately show ?thesis using coreD(3,4) [OF core] row unfolding core_def c row_ok_def by metis
  qed
  have m: "map_of (t_objs s') j = (if j = i then map_option f (map_of (t_objs s) i) else map_of (t_objs s) j)" for j by (simp add: s'_def)
  have "obyte az s' j k = obyte az s j k" for j k
    unfolding obyte_def c m
    by (cases "map_of (t_objs s) j"; cases "j = i") (simp_all add: assms(1) split: option.splits)
  then show "obyte az s' = obyte az s" by (intro ext)
qed

lemma updObj_meta:
  assumes "good az d T s" "\<And>r. o_chunk (f r) = o_chunk r" "\<And>r. o_codec (f r) = o_codec r"
  shows "good az d T (s\<lparr>t_objs := upd_row i f (t_objs s)\<rparr>)" "obyte az (s\<lparr>t_objs := upd_row i f (t_objs s)\<rparr>) = obyte az s"
proof -
  let ?s = "s\<lparr>t_objs := upd_row i f (t_objs s)\<rparr>"
  note u = updObj_core [where f = f and s = s and i = i, OF assms(2)]
  have "mode_ok ?s j" for j
    using assms(1,3) unfolding mode_ok_def u(1) good_def by (cases "map_of (t_objs s) j"; cases "j = i") auto
  then show "good az d T ?s" using u(3) assms(1) by (simp add: good_def)
  show "obyte az ?s = obyte az s" by (rule u(2))
qed

text \<open>Behind the end of an object there are zeros, so that growing it shows zeros.\<close>

definition tail_ok :: "azlib \<Rightarrow> bdb \<Rightarrow> bool" where
  "tail_ok az s \<longleftrightarrow> (\<forall>i o' k. map_of (t_objs s) i = Some o' \<longrightarrow> o_size o' \<le> k \<longrightarrow> obyte az s i k = 0)"

definition store_inv :: "azlib \<Rightarrow> bool \<Rightarrow> bytes set \<Rightarrow> bdb \<Rightarrow> bool" where
  "store_inv az d T s \<longleftrightarrow> good az d T s \<and> tail_ok az s"

definition resized :: "nat \<Rightarrow> nat \<Rightarrow> objrow option \<Rightarrow> objrow option" where
  "resized i n r = map_option (\<lambda>o'. o'\<lparr>o_size := n\<rparr>) r"

lemma writeOnConn_ok:
  assumes "store_inv az (bs_dedup st) T s" "map_of (t_objs s) i = Some o'" "az_ok az" "inj_on sha256 T"
    and "\<And>q. bs_dedup st \<Longrightarrow> o_codec o' = codecAZ \<Longrightarrow>
      tags_in az T (writeLevel (o_level o') (bs_compression st)) (chunk_of (put_bytes off p (obyte az s i)) (o_chunk o') q)"
  shows "\<exists>s'. writeOnConn az st i p off (off + length p) s = (Inr (), s') \<and> store_inv az (bs_dedup st) T s' \<and>
    map_of (t_objs s') = (map_of (t_objs s))(i \<mapsto> o'\<lparr>o_size := max (o_size o') (off + length p)\<rparr>) \<and> t_versions s' = t_versions s \<and>
    obyte az s' = (obyte az s)(i := put_bytes off p (obyte az s i))"
proof -
  have g: "good az (bs_dedup st) T s" and t: "tail_ok az s" using assms(1) by (simp_all add: store_inv_def)
  have row: "row_ok o'" using g coreD(3) assms(2) by (auto simp: good_def)
  obtain s1 where s1: "writeSpans az st i o' off p s = (Inr (), s1)" "wrote az (bs_dedup st) T i (put_bytes off p (obyte az s i)) s s1"
    using writeSpans_ok [OF g assms(2-5)] by blast
  let ?f = "\<lambda>r. r\<lparr>o_size := max (o_size r) (off + length p)\<rparr> :: objrow"
  let ?s' = "s1\<lparr>t_objs := upd_row i ?f (t_objs s1)\<rparr>"
  have w: "good az (bs_dedup st) T s1" "t_objs s1 = t_objs s" "t_versions s1 = t_versions s"
    "obyte az s1 = (obyte az s)(i := put_bytes off p (obyte az s i))" using s1(2) by (simp_all add: wrote_def)
  have "writeOnConn az st i p off (off + length p) s = (Inr (), ?s')"
    using s1(1) assms(2) row by (simp add: writeOnConn_def objWriteMeta_def getObj_def checkChunk_def updObj_def bop_simps row_ok_def)
  moreover have o: "map_of (t_objs ?s') = (map_of (t_objs s))(i \<mapsto> ?f o')" using w(2) assms(2) by (intro ext) simp
  moreover have b: "obyte az ?s' = (obyte az s)(i := put_bytes off p (obyte az s i))"
    using updObj_meta(2) [OF w(1), of ?f i] w(4) by simp
  moreover have "tail_ok az ?s'" using t assms(2) unfolding tail_ok_def o b by (auto simp: put_bytes_def split: if_splits)
  ultimately show ?thesis using updObj_meta(1) [OF w(1), of ?f i] w(3) by (auto simp: store_inv_def)
qed

section \<open>Reading\<close>

lemma read_chunk:
  assumes "good az d T s" "map_of (t_objs s) i = Some o'" "inOff + length dst \<le> o_chunk o'"
  shows "(if o_codec o' = codecAZ then readChunkCompressed az s i q (o_chunk o') inOff dst else readChunkRaw s i q inOff dst) =
    Inr (map (\<lambda>j. obyte az s i (q * o_chunk o' + inOff + j)) [0..<length dst])"
proof -
  let ?c = "o_chunk o'" and ?p = "chunk_of (obyte az s i) (o_chunk o') q"
  have core: "core az d T s" and mode: "mode_ok s i" using assms(1) by (simp_all add: good_def)
  have row: "?c \<le> maxChunkSize" using coreD(3) [OF core assms(2)] by (simp add: row_ok_def)
  have sl: "bslice inOff (inOff + length dst) ?p = map (\<lambda>j. obyte az s i (q * ?c + inOff + j)) [0..<length dst]"
    using assms(3) by (intro nth_equalityI) (simp_all add: nth_slice add.assoc)
  show ?thesis
  proof (cases "content s i q")
    case None
    have "?p = replicate ?c 0" by (rule plain_chunk_of(2) [OF core assms(2) None])
    then have z: "map (\<lambda>j. obyte az s i (q * ?c + inOff + j)) [0..<length dst] = replicate (length dst) 0"
      unfolding sl [symmetric] using assms(3) by (simp add: bslice_def)
    have b: "blockOf s i q = None" using None blocks_invD(4) [OF coreD(1) [OF core], of i q]
      by (auto simp: content_alt blockOf_def split: option.splits)
    show ?thesis unfolding z using None b by (simp add: readChunkCompressed_def chunkGet_plain [OF core assms(2)] readChunkRaw_def)
  next
    case (Some v)
    obtain b r where b: "blockOf s i q = Some b" "map_of (t_blocks s) b = Some r" "v = de r"
      using Some by (auto simp: content_alt blockOf_def split: option.splits)
    have "k_data r = ?p" if "o_codec o' \<noteq> codecAZ"
    proof -
      have e: "k_enc r = encVerbatim" using mode assms(2) that Some b(3) unfolding mode_ok_def de_def by fastforce
      have "decodeChunk az (k_data r) encVerbatim ?c = Inr ?p" using content_decodes [OF core assms(2)] Some b(3) e by (simp add: de_def)
      then show ?thesis by (simp add: decodeChunk_def split: if_splits)
    qed
    moreover have "blob_ReadAt ?p dst inOff = Inr (bslice inOff (inOff + length dst) ?p)"
      using assms(3) row by (auto simp: blob_ReadAt_def Let_def maxChunkSize_def blit_def min_def bslice_def)
    ultimately show ?thesis
      using Some b(1,2) by (simp add: readChunkCompressed_def chunkGet_plain [OF core assms(2)] readChunkRaw_def blobRead_def sl)
  qed
qed

lemma read_spans:
  assumes "0 < c" "\<And>q inOff dst. inOff + length dst \<le> c \<Longrightarrow> f q inOff dst = Inr (map (\<lambda>j. g (q * c + inOff + j)) [0..<length dst])"
  shows "n \<le> m \<Longrightarrow> m \<le> length p \<Longrightarrow>
    readSpans f (chunkSpans (off + n) (off + m) c n) (map (\<lambda>j. g (off + j)) [0..<n] @ drop n p) n =
      (map (\<lambda>j. g (off + j)) [0..<m] @ drop m p, m, None)"
proof (induction "m - n" arbitrary: n rule: less_induct)
  case less
  let ?pos = "off + n"
  show ?case
  proof (cases "n = m")
    case True
    then show ?thesis by (subst chunkSpans.simps) simp
  next
    case False
    then have lt: "?pos < off + m" using less.prems(1) by simp
    define span where "span = min (c - ?pos mod c) (off + m - ?pos)"
    note sp = span_facts [OF assms(1) lt span_def]
    have le: "n + span \<le> m" using sp(3) by simp
    let ?p = "map (\<lambda>j. g (off + j)) [0..<n] @ drop n p"
    have len: "length (bslice n (n + span) ?p) = span" using le less.prems by simp
    have f: "f (?pos div c) (?pos mod c) (bslice n (n + span) ?p) = Inr (map (\<lambda>j. g (?pos + j)) [0..<span])"
      using assms(2) [of "?pos mod c" "bslice n (n + span) ?p" "?pos div c"] sp(2,5) len by simp
    have "blit n (map (\<lambda>j. g (?pos + j)) [0..<span]) ?p = map (\<lambda>j. g (off + j)) [0..<n + span] @ drop (n + span) p"
      using le less.prems by (intro nth_equalityI) (auto simp: nth_blit nth_append add.assoc)
    moreover have "chunkSpans ?pos (off + m) c n = (?pos div c, ?pos mod c, span, n) # chunkSpans (off + (n + span)) (off + m) c (n + span)"
      using lt assms(1) by (subst chunkSpans.simps) (simp add: Let_def span_def add.assoc)
    moreover have "m - (n + span) < m - n" using sp(1) le by simp
    ultimately show ?thesis using less.hyps [of "n + span"] f le less.prems(2) by simp
  qed
qed

section \<open>Truncating\<close>

lemma released_good:
  assumes "good az d T s" "chunks_released i from s s'"
  shows "good az d T s'"
    "map_of (t_objs s) i = Some o' \<Longrightarrow>
      obyte az s' = (obyte az s)(i := (\<lambda>k. if in_range i from ((i, k div o_chunk o'), 0) then 0 else obyte az s i k))"
proof -
  have core: "core az d T s" and mode: "\<And>i. mode_ok s i" using assms(1) by (simp_all add: good_def)
  note inv = coreD(1) [OF core]
  note c = chunks_released_content [OF assms(2) blocks_invD(8) [OF inv]]
  have r: "t_objs s' = t_objs s" "distinct (map fst (t_blocks s'))" "\<And>x. refs_ok (t_chunks s') x (map_of (t_blocks s') x)"
    "distinct (map fst (t_chunks s'))"
    "\<And>j q. map_of (t_chunks s') (j, q) = (if in_range i from ((j, q), 0) then None else map_of (t_chunks s) (j, q))"
    "\<And>x r. map_of (t_blocks s') x = Some r \<Longrightarrow> \<exists>r'. map_of (t_blocks s) x = Some r' \<and> de r' = de r \<and> k_hash r' = k_hash r"
    using assms(2) unfolding chunks_released_def by blast+
  have "map_of (t_objs s') j \<noteq> None" if "map_of (t_chunks s') (j, q) = Some b" for j q b
    using that blocks_invD(5) [OF inv] r(1,5) by (metis option.distinct(1))
  then have "blocks_inv s'" using blocks_invD(1) [OF inv] r(1-4) unfolding blocks_inv_def by metis
  moreover have "hash_inv d T s'" by (rule hash_inv_rows [OF coreD(2) [OF core]]) (use r(6) in blast)
  moreover have "decodes az (o_chunk o2) v" if "map_of (t_objs s) j = Some o2" "content s' j q = Some v" for j o2 q v
    using that coreD(4) [OF core, of j o2 q v] unfolding c by (simp split: if_splits)
  ultimately have "core az d T s'" using coreD(3) [OF core] unfolding core_def r(1) by blast
  moreover have "mode_ok s' j" for j using mode [of j] unfolding mode_ok_def c r(1) by (auto split: if_splits)
  ultimately show "good az d T s'" by (simp add: good_def)
  assume o: "map_of (t_objs s) i = Some o'"
  have "obyte az s' j k = ((obyte az s)(i := (\<lambda>k. if in_range i from ((i, k div o_chunk o'), 0) then 0 else obyte az s i k))) j k" for j k
  proof (cases "j = i")
    case True
    then show ?thesis using o r(1) by (simp add: obyte_def c plain_of_def)
  next
    case False
    then have "\<not> in_range i from ((j, q), 0)" for q by (simp add: in_range_def)
    then have "obyte az s' j = obyte az s j" by (intro obyte_cong) (simp_all add: c r(1))
    then show ?thesis using False by simp
  qed
  then show "obyte az s' = (obyte az s)(i := (\<lambda>k. if in_range i from ((i, k div o_chunk o'), 0) then 0 else obyte az s i k))"
    by (intro ext)
qed

lemma zeroTail_ok:
  assumes "good az (bs_dedup st) T s" "map_of (t_objs s) i = Some o'" "az_ok az" "inj_on sha256 T" "0 < from" "from < o_chunk o'"
    and "bs_dedup st \<Longrightarrow> o_codec o' = codecAZ \<Longrightarrow> tags_in az T (writeLevel (o_level o') (bs_compression st))
      (chunk_of (put_bytes (q * o_chunk o' + from) (replicate (o_chunk o' - from) 0) (obyte az s i)) (o_chunk o') q)"
  shows "\<exists>s'. zeroChunkTail az st i q from (o_chunk o') (o_codec o' = codecAZ) (o_level o') s = (Inr (), s') \<and>
    wrote az (bs_dedup st) T i (put_bytes (q * o_chunk o' + from) (replicate (o_chunk o' - from) 0) (obyte az s i)) s s'"
proof -
  let ?c = "o_chunk o'" and ?z = "replicate (o_chunk o' - from) 0 :: bytes"
  let ?old = "chunk_of (obyte az s i) ?c q"
  have core: "core az (bs_dedup st) T s" using assms(1) by (simp add: good_def)
  have c: "0 < ?c" "from + length ?z \<le> ?c" using assms(5,6) by simp_all
  show ?thesis
  proof (cases "content s i q")
    case None
    have old: "?old = replicate ?c 0" by (rule plain_chunk_of(2) [OF core assms(2) None])
    have "blit from ?z ?old = ?old" using c by (intro nth_equalityI) (simp_all add: nth_blit old)
    then have pk: "put_bytes (q * ?c + from) ?z (obyte az s i) k = obyte az s i k" for k
      using chunk_update [OF c, of k q "obyte az s i"] div_mult_mod_eq [of k ?c] c(1) by (auto split: if_splits)
    then have w: "wrote az (bs_dedup st) T i (put_bytes (q * ?c + from) ?z (obyte az s i)) s s"
      using assms(1) ext [of _ "obyte az s i", OF pk] by (simp add: wrote_def fun_upd_idem)
    have "blockOf s i q = None" using None blocks_invD(4) [OF coreD(1) [OF core], of i q]
      by (auto simp: content_alt blockOf_def split: option.splits)
    then show ?thesis using w None by (auto simp: zeroChunkTail_def chunkGet_plain [OF core assms(2)] bret_def)
  next
    case (Some v)
    have b: "blockOf s i q \<noteq> None" using Some by (auto simp: content_alt blockOf_def split: option.splits)
    have "blit from ?z ?old = take from ?old @ replicate (?c - from) 0" using assms(6) by (simp add: blit_def)
    then have "zeroChunkTail az st i q from ?c (o_codec o' = codecAZ) (o_level o') s = writeChunk az st i o' q from ?z s"
      using Some b assms(5) by (auto simp: zeroChunkTail_def chunkGet_plain [OF core assms(2)] writeChunk_def writeChunkCompressed_def
          writeChunkRaw_def)
    then show ?thesis using write_chunk [OF assms(1-4) c(2), of q] assms(7) by (simp add: blit_chunk_of [OF c(2,1)])
  qed
qed

lemma firstDead_exact:
  assumes "0 < c" "n + c \<le> 2 ^ 63"
  shows "go_div (wrap_int64 (int n + int c - 1)) (int c) \<le> int q \<longleftrightarrow> n \<le> q * c"
proof -
  have "is_int64 (int n + int c - 1)" using assms by (simp add: is_int64_def)
  then have "go_div (wrap_int64 (int n + int c - 1)) (int c) = int ((n + c - 1) div c)"
    using assms(1) by (simp add: wrap_exact go_div_def zdiv_int)
  moreover have "(n + c - 1) div c \<le> q \<longleftrightarrow> n \<le> q * c"
  proof -
    have "(n + c - 1) div c < Suc q \<longleftrightarrow> n + c - 1 < Suc q * c" using assms(1) by (simp add: div_less_iff_less_mult)
    then show ?thesis using assms(1) by (simp add: less_Suc_eq_le) linarith
  qed
  ultimately show ?thesis by simp
qed

lemma cut_whole_chunks:
  assumes "0 < c" "n mod c = 0"
  shows "(\<lambda>k. if n \<le> k div c * c then 0 else f k) = cut_bytes n f"
proof
  fix k
  have "n div c * c = n" using assms(2) by auto
  moreover have "k div c * c \<le> k" by simp
  moreover have "n div c \<le> k div c" if "n \<le> k" using that by (rule div_le_mono)
  ultimately have "n \<le> k div c * c \<longleftrightarrow> n \<le> k" by (metis le_trans mult_le_mono1)
  then show "(if n \<le> k div c * c then 0 else f k) = cut_bytes n f k" by (simp add: cut_bytes_def)
qed

lemma cut_boundary_chunk:
  assumes "0 < c" "n mod c \<noteq> 0"
  shows "put_bytes (n div c * c + n mod c) (replicate (c - n mod c) 0) (\<lambda>k. if n \<le> k div c * c then 0 else f k) = cut_bytes n f"
proof
  fix k
  have n: "n div c * c + n mod c = n" "n + (c - n mod c) = Suc (n div c) * c"
    using div_mult_mod_eq [of n c] mod_less_divisor [OF assms(1), of n] mult_Suc [of "n div c" c] by linarith+
  have "n \<le> k div c * c" if "Suc (n div c) * c \<le> k"
  proof -
    have "Suc (n div c) \<le> k div c" using that assms(1) by (simp add: less_eq_div_iff_mult_less_eq)
    then have "Suc (n div c) * c \<le> k div c * c" by (rule mult_le_mono1)
    then show ?thesis using n(2) by linarith
  qed
  moreover have "\<not> n \<le> k div c * c" if "k < n" using that div_times_less_eq_dividend [of k c] by linarith
  ultimately show "put_bytes (n div c * c + n mod c) (replicate (c - n mod c) 0) (\<lambda>k. if n \<le> k div c * c then 0 else f k) k = cut_bytes n f k"
    unfolding n(1) using n(2) by (auto simp: put_bytes_def cut_bytes_def)
qed

lemma truncate_chunks:
  assumes "good az (bs_dedup st) T s" "map_of (t_objs s) i = Some o'" "az_ok az" "inj_on sha256 T" "n + o_chunk o' \<le> 2 ^ 63"
    and "bs_dedup st \<Longrightarrow> o_codec o' = codecAZ \<Longrightarrow> tags_in az T (writeLevel (o_level o') (bs_compression st))
      (chunk_of (cut_bytes n (obyte az s i)) (o_chunk o') (n div o_chunk o'))"
  shows "\<exists>s'. bbind (releaseChunks i (Some (go_div (wrap_int64 (int n + int (o_chunk o') - 1)) (int (o_chunk o'))))) (\<lambda>_.
        if n mod o_chunk o' \<noteq> 0
        then zeroChunkTail az st i (n div o_chunk o') (n mod o_chunk o') (o_chunk o') (o_codec o' = codecAZ) (o_level o')
        else bret ()) s = (Inr (), s') \<and>
    wrote az (bs_dedup st) T i (cut_bytes n (obyte az s i)) s s'"
proof -
  let ?c = "o_chunk o'"
  let ?fd = "Some (go_div (wrap_int64 (int n + int ?c - 1)) (int ?c))"
  have c: "0 < ?c" using assms(1,2) coreD(3) by (auto simp: good_def row_ok_def)
  have inv: "blocks_inv s" using assms(1) coreD(1) by (auto simp: good_def)
  obtain s1 where s1: "releaseChunks i ?fd s = (Inr (), s1)" "chunks_released i ?fd s s1"
    using releaseChunks_ok [OF blocks_invD(2,3,8) [OF inv]] by blast
  have o1: "t_objs s1 = t_objs s" "t_versions s1 = t_versions s" using s1(2) by (simp_all add: chunks_released_def)
  have f1: "obyte az s1 = (obyte az s)(i := (\<lambda>k. if n \<le> k div ?c * ?c then 0 else obyte az s i k))"
    using released_good(2) [OF assms(1) s1(2) assms(2)] by (simp add: in_range_def firstDead_exact [OF c assms(5)])
  have g1: "good az (bs_dedup st) T s1" by (rule released_good(1) [OF assms(1) s1(2)])
  show ?thesis
  proof (cases "n mod ?c = 0")
    case True
    then have "wrote az (bs_dedup st) T i (cut_bytes n (obyte az s i)) s s1"
      using g1 o1 f1 cut_whole_chunks [OF c True, of "obyte az s i"] by (simp add: wrote_def)
    then show ?thesis using True s1(1) by (simp add: bbind_def bret_def)
  next
    case False
    note cut = cut_boundary_chunk [OF c False, of "obyte az s i"]
    have b: "obyte az s1 i = (\<lambda>k. if n \<le> k div ?c * ?c then 0 else obyte az s i k)" by (simp add: f1)
    obtain s2 where s2: "zeroChunkTail az st i (n div ?c) (n mod ?c) ?c (o_codec o' = codecAZ) (o_level o') s1 = (Inr (), s2)"
      "wrote az (bs_dedup st) T i (cut_bytes n (obyte az s i)) s1 s2"
      using zeroTail_ok [OF g1 _ assms(3,4), of i o' "n mod ?c" "n div ?c"] assms(2,6) o1 False c unfolding b cut by auto
    have "wrote az (bs_dedup st) T i (cut_bytes n (obyte az s i)) s s2"
      using s2(2) o1 f1 by (simp add: wrote_def)
    then show ?thesis using False s1(1) s2(1) by (simp add: bbind_def)
  qed
qed

lemma truncateOnConn_ok:
  assumes "store_inv az (bs_dedup st) T s" "map_of (t_objs s) i = Some o'" "az_ok az" "inj_on sha256 T" "n < o_size o' \<Longrightarrow> n + o_chunk o' \<le> 2 ^ 63"
    and "bs_dedup st \<Longrightarrow> o_codec o' = codecAZ \<Longrightarrow> tags_in az T (writeLevel (o_level o') (bs_compression st))
      (chunk_of (cut_bytes n (obyte az s i)) (o_chunk o') (n div o_chunk o'))"
  shows "\<exists>s'. truncateOnConn az st i n s = (Inr (o_size o'), s') \<and> store_inv az (bs_dedup st) T s' \<and>
    map_of (t_objs s') = (map_of (t_objs s))(i \<mapsto> o'\<lparr>o_size := n\<rparr>) \<and> t_versions s' = t_versions s \<and>
    obyte az s' = (obyte az s)(i := cut_bytes n (obyte az s i))"
proof -
  let ?c = "o_chunk o'"
  have g: "good az (bs_dedup st) T s" and t: "tail_ok az s" using assms(1) by (simp_all add: store_inv_def)
  have row: "row_ok o'" using g coreD(3) assms(2) by (auto simp: good_def)
  let ?m = "if n < o_size o' then
      bbind (releaseChunks i (Some (go_div (wrap_int64 (int n + int ?c - 1)) (int ?c)))) (\<lambda>_.
        if n mod ?c \<noteq> 0 then zeroChunkTail az st i (n div ?c) (n mod ?c) ?c (o_codec o' = codecAZ) (o_level o') else bret ())
    else bret ()"
  obtain s1 where s1: "?m s = (Inr (), s1)" "wrote az (bs_dedup st) T i (cut_bytes n (obyte az s i)) s s1"
  proof (cases "n < o_size o'")
    case True
    then show ?thesis using truncate_chunks [OF g assms(2-4) assms(5) [OF True] assms(6)] that by auto
  next
    case False
    have "cut_bytes n (obyte az s i) = obyte az s i"
      using t assms(2) False by (intro ext) (auto simp: cut_bytes_def tail_ok_def)
    then show ?thesis using False g that [of s] by (simp add: bret_def wrote_def)
  qed
  let ?f = "\<lambda>r. r\<lparr>o_size := n\<rparr> :: objrow"
  let ?s' = "s1\<lparr>t_objs := upd_row i ?f (t_objs s1)\<rparr>"
  have w: "good az (bs_dedup st) T s1" "t_objs s1 = t_objs s" "t_versions s1 = t_versions s"
    "obyte az s1 = (obyte az s)(i := cut_bytes n (obyte az s i))" using s1(2) by (simp_all add: wrote_def)
  have "truncateOnConn az st i n s = bbind ?m (\<lambda>_. bbind (updObj i ?f) (\<lambda>_. bret (o_size o'))) s"
    using assms(2) row by (simp add: truncateOnConn_def getObj_def checkChunk_def bbind_def bret_def row_ok_def Let_def)
  then have "truncateOnConn az st i n s = (Inr (o_size o'), ?s')" using s1(1) by (simp add: bbind_def bret_def updObj_def)
  moreover have o: "map_of (t_objs ?s') = (map_of (t_objs s))(i \<mapsto> ?f o')" using w(2) assms(2) by (intro ext) simp
  moreover have b: "obyte az ?s' = (obyte az s)(i := cut_bytes n (obyte az s i))"
    using updObj_meta(2) [OF w(1), of ?f i] w(4) by simp
  moreover have "tail_ok az ?s'" using t assms(2) unfolding tail_ok_def o b by (auto simp: cut_bytes_def split: if_splits)
  ultimately show ?thesis using updObj_meta(1) [OF w(1), of ?f i] w(3) by (auto simp: store_inv_def)
qed

end
