(* ===== verification/Blobstore_Objects.thy ===== *)
theory Blobstore_Objects
  imports Blobstore_Content
begin

text \<open>
  Cloning, deleting and converting objects, and versions: each of them on the bytes of the objects. A clone has the bytes of its
  source and shares its blocks; deleting frees exactly the blocks nothing else refers to; changing the storage mode changes no
  byte.
\<close>

section \<open>Cloning\<close>

lemma chunk_count_append [simp]: "chunk_count (cs @ ds) x = chunk_count cs x + chunk_count ds x"
  by (simp add: chunk_count_def)

lemma chunk_count_Nil [simp]: "chunk_count [] x = 0"
  by (simp add: chunk_count_def)

lemma de_refs: "de (r\<lparr>k_refs := n\<rparr>) = de r"
  by (simp add: de_def)

lemma map_of_clone:
  "map_of (map (\<lambda>c. ((dst, snd (fst c)), snd c)) (filter (in_range src None) cs)) (j, q) =
    (if j = dst then map_of cs (src, q) else None)"
  by (induction cs) (auto simp: in_range_def split: if_splits)

lemma cloneObjectTx_tables:
  assumes "blocks_inv s" "map_of (t_objs s) src = Some o'"
  defines "dst \<equiv> rowid_new (t_objs s)"
  shows "\<exists>s'. cloneObjectTx now src s = (Inr (Some dst), s') \<and> t_objs s' = t_objs s @ [(dst, o'\<lparr>o_created := now\<rparr>)] \<and>
    t_versions s' = t_versions s \<and> blocks_inv s' \<and> (\<forall>d T. hash_inv d T s \<longrightarrow> hash_inv d T s') \<and>
    (\<forall>j q. content s' j q = (if j = dst then content s src q else content s j q))"
proof -
  note d = blocks_invD [OF assms(1)]
  let ?new = "map (\<lambda>c. ((dst, snd (fst c)), snd c)) (filter (in_range src None) (t_chunks s))"
  have fresh: "map_of (t_objs s) dst = None" unfolding dst_def by (rule rowid_fresh)
  have nodst: "\<not> in_range dst None c" if "c \<in> set (t_chunks s)" for c
  proof
    assume "in_range dst None c"
    then obtain q b where "c = ((dst, q), b)" by (cases c) (auto simp: in_range_def)
    then have "map_of (t_chunks s) (dst, q) = Some b" using that d(3) by simp
    then show False using d(5) fresh by blast
  qed
  have m1: "filter (in_range dst None) (t_chunks s) = []" using nodst by (simp add: filter_empty_conv)
  have m2: "filter (in_range dst None) ?new = ?new" by (induction "t_chunks s") (auto simp: in_range_def)
  let ?bt = "map (\<lambda>p. (fst p, (\<lambda>x r. r\<lparr>k_refs := k_refs r + int (chunk_count ?new x)\<rparr>) (fst p) (snd p))) (t_blocks s)"
  let ?s' = "s\<lparr>t_objs := t_objs s @ [(dst, o'\<lparr>o_created := now\<rparr>)], t_chunks := t_chunks s @ ?new, t_blocks := ?bt\<rparr>"
  have eq: "cloneObjectTx now src s = (Inr (Some dst), ?s')"
    using assms(2) m1 m2 unfolding dst_def by (simp add: cloneObjectTx_def bret_def Let_def)
  have ch: "map_of (t_chunks ?s') (j, q) = (if j = dst then map_of (t_chunks s) (src, q) else map_of (t_chunks s) (j, q))" for j q
    using d(5) [of dst q] fresh by (auto simp: map_of_clone map_add_def split: option.splits)
  have bl: "map_of (t_blocks ?s') x = map_option (\<lambda>r. r\<lparr>k_refs := k_refs r + int (chunk_count ?new x)\<rparr>) (map_of (t_blocks s) x)" for x
    using map_of_map_row [of "\<lambda>x r. r\<lparr>k_refs := k_refs r + int (chunk_count ?new x)\<rparr>" "t_blocks s" x] by simp
  have cnt: "chunk_count ?new x \<le> chunk_count (t_chunks s) x" for x
    using chunk_count_split [of "t_chunks s" x "in_range src None"] by (simp add: chunk_count_def filter_map comp_def)
  have "distinct (map fst (t_chunks ?s'))"
  proof -
    have "inj_on fst (set (filter (in_range src None) (t_chunks s)))" "distinct (filter (in_range src None) (t_chunks s))"
      using d(3) by (auto simp: distinct_map inj_on_def)
    then have "distinct (map fst ?new)"
      by (auto simp: distinct_map inj_on_def in_range_def comp_def)
    moreover have "fst ` set (t_chunks s) \<inter> fst ` set ?new = {}" using nodst by (force simp: in_range_def)
    ultimately show ?thesis using d(3) by (simp add: image_image comp_def)
  qed
  moreover have "refs_ok (t_chunks ?s') x (map_of (t_blocks ?s') x)" for x
    using d(8) [of x] cnt [of x] unfolding bl by (cases "map_of (t_blocks s) x") (simp_all add: refs_ok_def)
  moreover have "map_of (t_objs ?s') j \<noteq> None" if "map_of (t_chunks ?s') (j, q) = Some b" for j q b
    using that d(5) unfolding ch by (auto simp: map_of_snoc [OF fresh] simp del: map_of_append split: if_splits)
  moreover have "distinct (map fst (t_blocks ?s'))" using d(2) by (simp add: comp_def)
  moreover have "distinct (map fst (t_objs ?s'))" using d(1) rowid_fresh(2) [of "t_objs s"] by (simp add: dst_def)
  ultimately have "blocks_inv ?s'" unfolding blocks_inv_def by blast
  moreover have "content ?s' j q = (if j = dst then content s src q else content s j q)" for j q
    unfolding content_alt ch bl by (simp add: option.map_comp comp_def de_refs split: option.splits)
  moreover have "hash_inv e T ?s'" if "hash_inv e T s" for e T
    by (rule hash_inv_rows [OF that]) (unfold bl, auto simp: de_def)
  ultimately show ?thesis using eq by (intro exI [of _ ?s']) simp
qed

text \<open>The invariant of the store depends on its rows and the content of its chunks.\<close>

lemma store_inv_from:
  assumes "store_inv az d T s" "blocks_inv s'" "hash_inv d T s'"
    and rows: "\<And>j o2. map_of (t_objs s') j = Some o2 \<Longrightarrow>
      \<exists>j' o1. map_of (t_objs s) j' = Some o1 \<and> o_chunk o2 = o_chunk o1 \<and> o_codec o2 = o_codec o1 \<and> o_size o2 = o_size o1 \<and>
        (\<forall>q. content s' j q = content s j' q)"
  shows "store_inv az d T s'"
proof -
  have core: "core az d T s" and mode: "\<And>i. mode_ok s i" and tail: "tail_ok az s" using assms(1) by (simp_all add: store_inv_def good_def)
  have same: "row_ok o2 \<and> (\<forall>q v. content s' j q = Some v \<longrightarrow> decodes az (o_chunk o2) v \<and> (o_codec o2 \<noteq> codecAZ \<longrightarrow> snd v = encVerbatim)) \<and>
      (\<forall>k\<ge>o_size o2. obyte az s' j k = 0)" if j: "map_of (t_objs s') j = Some o2" for j o2
  proof -
    obtain j' o1 where j': "map_of (t_objs s) j' = Some o1" "o_chunk o2 = o_chunk o1" "o_codec o2 = o_codec o1" "o_size o2 = o_size o1"
      "content s' j = content s j'" using rows [OF j] by (auto simp: fun_eq_iff)
    have "obyte az s' j k = obyte az s j' k" for k using j j'(1,2,5) by (simp add: obyte_def split: option.splits)
    then show ?thesis
      using j' coreD(3,4) [OF core j'(1)] mode [of j'] tail unfolding row_ok_def mode_ok_def tail_ok_def by auto
  qed
  then have "core az d T s'" "\<And>i. mode_ok s' i" "tail_ok az s'"
    using assms(2,3) unfolding core_def mode_ok_def tail_ok_def by blast+
  then show ?thesis by (simp add: store_inv_def good_def)
qed

lemma clone_ok:
  assumes "store_inv az d T s" "map_of (t_objs s) src = Some o'"
  defines "dst \<equiv> rowid_new (t_objs s)"
  shows "\<exists>s'. cloneObjectTx now src s = (Inr (Some dst), s') \<and> store_inv az d T s' \<and>
    map_of (t_objs s') = (map_of (t_objs s))(dst \<mapsto> o'\<lparr>o_created := now\<rparr>) \<and> t_versions s' = t_versions s \<and>
    obyte az s' = (obyte az s)(dst := obyte az s src)"
proof -
  have inv: "blocks_inv s" and h: "hash_inv d T s" using assms(1) coreD by (auto simp: store_inv_def good_def)
  have fresh: "map_of (t_objs s) dst = None" unfolding dst_def by (rule rowid_fresh)
  obtain s' where s': "cloneObjectTx now src s = (Inr (Some dst), s')" "t_objs s' = t_objs s @ [(dst, o'\<lparr>o_created := now\<rparr>)]"
    "t_versions s' = t_versions s" "blocks_inv s'" "hash_inv d T s'"
    "\<And>j q. content s' j q = (if j = dst then content s src q else content s j q)"
    using cloneObjectTx_tables [OF inv assms(2), of now] h unfolding dst_def by blast
  have o: "map_of (t_objs s') = (map_of (t_objs s))(dst \<mapsto> o'\<lparr>o_created := now\<rparr>)" unfolding s'(2) by (rule map_of_snoc [OF fresh])
  have "store_inv az d T s'"
  proof (rule store_inv_from [OF assms(1) s'(4,5)])
    fix j o2 assume j: "map_of (t_objs s') j = Some o2"
    show "\<exists>j' o1. map_of (t_objs s) j' = Some o1 \<and> o_chunk o2 = o_chunk o1 \<and> o_codec o2 = o_codec o1 \<and> o_size o2 = o_size o1 \<and>
        (\<forall>q. content s' j q = content s j' q)"
    proof (cases "j = dst")
      case True
      then show ?thesis using j assms(2) unfolding o by (intro exI [of _ src] exI [of _ o']) (auto simp: s'(6))
    next
      case False
      then show ?thesis using j unfolding o by (intro exI [of _ j] exI [of _ o2]) (auto simp: s'(6))
    qed
  qed
  moreover have "obyte az s' = (obyte az s)(dst := obyte az s src)"
  proof (intro ext)
    fix j k
    have "obyte az s' j = obyte az s j" if "j \<noteq> dst" using that by (intro obyte_cong) (simp_all add: o s'(6))
    moreover have "obyte az s' dst k = obyte az s src k"
    proof -
      have "content s' dst = content s src" by (rule ext) (simp add: s'(6))
      then show ?thesis using assms(2) by (simp add: obyte_def o split: option.splits)
    qed
    ultimately show "obyte az s' j k = ((obyte az s)(dst := obyte az s src)) j k" by simp
  qed
  ultimately show ?thesis using s'(1,3) o by blast
qed

section \<open>Deleting\<close>

lemma delete_ok:
  assumes "store_inv az d T s" "map_of (t_objs s) i \<noteq> None"
  shows "\<exists>s'. deleteObjectTx i s = (Inr True, s') \<and> store_inv az d T s' \<and> map_of (t_objs s') = (map_of (t_objs s))(i := None) \<and>
    t_versions s' = t_versions s \<and> obyte az s' = (obyte az s)(i := (\<lambda>_. 0))"
proof -
  have inv: "blocks_inv s" and h: "hash_inv d T s" using assms(1) coreD by (auto simp: store_inv_def good_def)
  note d = blocks_invD [OF inv]
  let ?s0 = "s\<lparr>t_objs := AList.delete i (t_objs s)\<rparr>"
  obtain s' where s': "releaseChunks i None ?s0 = (Inr (), s')" "chunks_released i None ?s0 s'"
    using releaseChunks_ok [of ?s0 i None] d(2,3,8) by auto
  have c: "content s' j q = (if j = i then None else content s j q)" for j q
  proof -
    have "content ?s0 j q = content s j q" by (simp add: content_def joinBlock_def)
    then show ?thesis using chunks_released_content [OF s'(2), of j q] d(8) by (simp add: in_range_def)
  qed
  have r: "t_objs s' = AList.delete i (t_objs s)" "distinct (map fst (t_blocks s'))" "\<And>x. refs_ok (t_chunks s') x (map_of (t_blocks s') x)"
    "distinct (map fst (t_chunks s'))" "t_versions s' = t_versions s"
    "\<And>j q. map_of (t_chunks s') (j, q) = (if j = i then None else map_of (t_chunks s) (j, q))"
    "\<And>x r. map_of (t_blocks s') x = Some r \<Longrightarrow> \<exists>r'. map_of (t_blocks s) x = Some r' \<and> de r' = de r \<and> k_hash r' = k_hash r"
    using s'(2) unfolding chunks_released_def in_range_def by auto
  have o: "map_of (t_objs s') = (map_of (t_objs s))(i := None)" unfolding r(1) by (simp add: delete_conv')
  have "map_of (t_objs s') j \<noteq> None" if "map_of (t_chunks s') (j, q) = Some b" for j q b
    using that d(5) [of j q b] unfolding o r(6) by (auto split: if_splits)
  then have inv': "blocks_inv s'" using d(1) r(2-4) unfolding blocks_inv_def r(1) by (simp add: distinct_delete)
  have h': "hash_inv d T s'" by (rule hash_inv_rows [OF h]) (use r(7) in blast)
  have "store_inv az d T s'" by (rule store_inv_from [OF assms(1) inv' h']) (auto simp: o c split: if_splits)
  moreover have "obyte az s' j = ((obyte az s)(i := (\<lambda>_. 0))) j" for j
  proof (cases "j = i")
    case True
    then show ?thesis by (simp add: obyte_def o fun_eq_iff)
  next
    case False
    then show ?thesis by (simp add: obyte_cong [of s' j s] o c)
  qed
  moreover have "deleteObjectTx i s = (Inr True, s')" using assms(2) s'(1) by (simp add: deleteObjectTx_def bbind_def bret_def)
  ultimately show ?thesis using r(5) o by (intro exI [of _ s']) (simp add: fun_eq_iff)
qed

text \<open>\<open>gone s s' J vs\<close>: the objects \<open>J\<close> are deleted, \<open>vs\<close> are the versions left, and nothing else changed.\<close>

definition gone :: "azlib \<Rightarrow> nat set \<Rightarrow> verrow list \<Rightarrow> bdb \<Rightarrow> bdb \<Rightarrow> bool" where
  "gone az J vs s s' \<longleftrightarrow> t_versions s' = vs \<and> (\<forall>j. map_of (t_objs s') j = (if j \<in> J then None else map_of (t_objs s) j)) \<and>
     (\<forall>j. obyte az s' j = (if j \<in> J then (\<lambda>_. 0) else obyte az s j))"

lemma gone_trans: "gone az J vs s s1 \<Longrightarrow> gone az K ws s1 s2 \<Longrightarrow> gone az (J \<union> K) ws s s2"
  by (auto simp: gone_def)

lemma bbind_run: "m s = (Inr x, s1) \<Longrightarrow> bbind m f s = f x s1"
  by (simp add: bbind_def)

lemma bbind_assoc: "bbind (bbind m f) g = bbind m (\<lambda>x. bbind (f x) g)"
  by (rule ext) (simp add: bbind_def split: prod.splits sum.splits)

lemma each_Cons: "f x s = (Inr (), s1) \<Longrightarrow> each f (x # xs) s = each f xs s1"
  by (simp add: bbind_def)

lemma delete_any:
  assumes "store_inv az d T s"
  shows "\<exists>b s'. deleteObjectTx i s = (Inr b, s') \<and> store_inv az d T s' \<and> gone az {i} (t_versions s) s s'"
proof (cases "map_of (t_objs s) i = None")
  case True
  then have "obyte az s i = (\<lambda>_. 0)" by (simp add: obyte_def fun_eq_iff)
  then show ?thesis using True assms by (intro exI [of _ False] exI [of _ s]) (simp add: deleteObjectTx_def bret_def gone_def)
next
  case False
  from delete_ok [OF assms this] show ?thesis by (auto simp: gone_def)
qed

lemma set_versions:
  "store_inv az d T (s\<lparr>t_versions := vs\<rparr>) = store_inv az d T s" "obyte az (s\<lparr>t_versions := vs\<rparr>) = obyte az s"
proof -
  have c: "content (s\<lparr>t_versions := vs\<rparr>) = content s" by (intro ext) (simp add: content_def joinBlock_def)
  show b: "obyte az (s\<lparr>t_versions := vs\<rparr>) = obyte az s" by (rule ext) (rule obyte_cong, simp_all add: c)
  show "store_inv az d T (s\<lparr>t_versions := vs\<rparr>) = store_inv az d T s"
    unfolding store_inv_def good_def core_def mode_ok_def tail_ok_def b c by (simp add: blocks_inv_def hash_inv_def)
qed

lemma delete_snaps:
  "store_inv az d T s \<Longrightarrow> \<exists>s'. each (\<lambda>snap. bbind (deleteObjectTx snap) (\<lambda>_. bret ())) xs s = (Inr (), s') \<and>
    store_inv az d T s' \<and> gone az (set xs) (t_versions s) s s'"
proof (induction xs arbitrary: s)
  case Nil
  then show ?case by (intro exI [of _ s]) (simp add: bret_def gone_def)
next
  case (Cons x xs)
  obtain b s1 where s1: "deleteObjectTx x s = (Inr b, s1)" "store_inv az d T s1" "gone az {x} (t_versions s) s s1"
    using delete_any [OF Cons.prems] by blast
  obtain s2 where s2: "each (\<lambda>snap. bbind (deleteObjectTx snap) (\<lambda>_. bret ())) xs s1 = (Inr (), s2)" "store_inv az d T s2"
    "gone az (set xs) (t_versions s1) s1 s2" using Cons.IH [OF s1(2)] by blast
  have "gone az (set (x # xs)) (t_versions s) s s2" using gone_trans [OF s1(3) s2(3)] s1(3) by (simp add: gone_def)
  moreover have "bbind (deleteObjectTx x) (\<lambda>_. bret ()) s = (Inr (), s1)" using s1(1) by (simp add: bbind_def bret_def)
  ultimately show ?case using s2(1,2) by (intro exI [of _ s2]) (simp only: each_Cons simp_thms)
qed

lemma deleteOnConn_ok:
  assumes "store_inv az d T s" "map_of (t_objs s) i \<noteq> None"
  shows "\<exists>s'. deleteOnConn i s = (Inr (), s') \<and> store_inv az d T s' \<and>
    gone az (insert i (v_snap ` {v \<in> set (t_versions s). v_obj v = i})) (filter (\<lambda>v. v_obj v \<noteq> i) (t_versions s)) s s'"
proof -
  obtain s1 where s1: "deleteObjectTx i s = (Inr True, s1)" "store_inv az d T s1" "gone az {i} (t_versions s) s s1"
    using delete_ok [OF assms] by (auto simp: gone_def)
  let ?xs = "map v_snap (filter (\<lambda>v. v_obj v = i) (t_versions s1))"
  obtain s2 where s2: "each (\<lambda>snap. bbind (deleteObjectTx snap) (\<lambda>_. bret ())) ?xs s1 = (Inr (), s2)" "store_inv az d T s2"
    "gone az (set ?xs) (t_versions s1) s1 s2" using delete_snaps [OF s1(2)] by blast
  let ?s' = "s2\<lparr>t_versions := filter (\<lambda>v. v_obj v \<noteq> i) (t_versions s2)\<rparr>"
  have "deleteOnConn i s = (Inr (), ?s')" using s1(1) s2(1) by (simp add: deleteOnConn_def deleteVersionsTx_def bbind_def bret_def)
  moreover have v: "t_versions s1 = t_versions s" "t_versions s2 = t_versions s" using s1(3) s2(3) by (simp_all add: gone_def)
  have "gone az (insert i (set ?xs)) (filter (\<lambda>v. v_obj v \<noteq> i) (t_versions s)) s ?s'"
    using gone_trans [OF s1(3) s2(3)] v by (simp add: gone_def set_versions)
  moreover have "set ?xs = v_snap ` {v \<in> set (t_versions s). v_obj v = i}" using v by auto
  ultimately show ?thesis using s2(2) by (intro exI [of _ ?s']) (simp add: set_versions)
qed

section \<open>Pruning\<close>

lemma drop_versions:
  "store_inv az d T s \<Longrightarrow> \<exists>s'. each (drop_version i) vs s = (Inr (), s') \<and> store_inv az d T s' \<and>
    gone az (v_snap ` set vs) (filter (\<lambda>w. \<not> (v_obj w = i \<and> v_no w \<in> v_no ` set vs)) (t_versions s)) s s'"
proof (induction vs arbitrary: s)
  case Nil
  then show ?case by (intro exI [of _ s]) (simp add: bret_def gone_def)
next
  case (Cons v vs)
  obtain b s1 where s1: "deleteObjectTx (v_snap v) s = (Inr b, s1)" "store_inv az d T s1" "gone az {v_snap v} (t_versions s) s s1"
    using delete_any [OF Cons.prems] by blast
  let ?s1 = "s1\<lparr>t_versions := filter (\<lambda>w. \<not> (v_obj w = i \<and> v_no w = v_no v)) (t_versions s1)\<rparr>"
  have g1: "gone az {v_snap v} (t_versions ?s1) s ?s1" using s1(3) by (simp add: gone_def set_versions)
  obtain s2 where s2: "each (drop_version i) vs ?s1 = (Inr (), s2)" "store_inv az d T s2"
    "gone az (v_snap ` set vs) (filter (\<lambda>w. \<not> (v_obj w = i \<and> v_no w \<in> v_no ` set vs)) (t_versions ?s1)) ?s1 s2"
    using Cons.IH [of ?s1] s1(2) by (auto simp: set_versions)
  have "t_versions s1 = t_versions s" using s1(3) by (simp add: gone_def)
  then have "filter (\<lambda>w. \<not> (v_obj w = i \<and> v_no w \<in> v_no ` set vs)) (t_versions ?s1) =
      filter (\<lambda>w. \<not> (v_obj w = i \<and> v_no w \<in> v_no ` set (v # vs))) (t_versions s)" by (auto intro!: filter_cong)
  moreover have "{v_snap v} \<union> v_snap ` set vs = v_snap ` set (v # vs)" by simp
  ultimately have "gone az (v_snap ` set (v # vs)) (filter (\<lambda>w. \<not> (v_obj w = i \<and> v_no w \<in> v_no ` set (v # vs))) (t_versions s)) s s2"
    using gone_trans [OF g1 s2(3)] by simp
  moreover have "drop_version i v s = (Inr (), ?s1)" using s1(1) by (simp add: drop_version_def bbind_def bret_def)
  ultimately show ?case using s2(1,2) by (intro exI [of _ s2]) (simp only: each_Cons simp_thms)
qed

section \<open>Changing the storage mode\<close>

lemma foldr_min: "foldr min ns n \<in> set (n # ns)" "\<forall>m\<in>set (n # ns). foldr min ns n \<le> (m :: nat)"
  by (induction ns) (auto simp: min_def)

lemma next_seq_spec:
  assumes "blocks_inv s"
  shows "next_seq s i q = None \<Longrightarrow> q < int n \<Longrightarrow> content s i n = None"
    "next_seq s i q = Some n \<Longrightarrow> q < int n \<and> content s i n \<noteq> None \<and> (\<forall>m. q < int m \<longrightarrow> content s i m \<noteq> None \<longrightarrow> n \<le> m)"
proof -
  let ?ns = "filter (\<lambda>n. q < int n) (map (snd \<circ> fst) (filter (in_range i None) (t_chunks s)))"
  have iff: "n \<in> set ?ns \<longleftrightarrow> q < int n \<and> content s i n \<noteq> None" for n
  proof -
    have "content s i n \<noteq> None \<longleftrightarrow> map_of (t_chunks s) (i, n) \<noteq> None"
      using blocks_invD(4) [OF assms, of i n] by (auto simp: content_alt split: option.splits)
    also have "\<dots> \<longleftrightarrow> (i, n) \<in> fst ` set (t_chunks s)" by (simp add: map_of_eq_None_iff)
    finally show ?thesis by (force simp: in_range_def)
  qed
  have "?ns = []" if "next_seq s i q = None" using that by (simp add: next_seq_def split: list.splits)
  then show "next_seq s i q = None \<Longrightarrow> q < int n \<Longrightarrow> content s i n = None" using iff [of n] by (metis empty_iff empty_set)
  assume "next_seq s i q = Some n"
  then obtain m ms where m: "?ns = m # ms" "n = foldr min ms m" by (auto simp: next_seq_def split: list.splits)
  then have "n \<in> set ?ns" "\<forall>k\<in>set ?ns. n \<le> k" using foldr_min [where ns = ms and n = m] by simp_all
  then show "q < int n \<and> content s i n \<noteq> None \<and> (\<forall>m. q < int m \<longrightarrow> content s i m \<noteq> None \<longrightarrow> n \<le> m)" using iff by blast
qed

lemma finite_chunks: "finite {n. content s i n \<noteq> None}" "card {n. content s i n \<noteq> None} \<le> length (t_chunks s)"
proof -
  have sub: "{n. content s i n \<noteq> None} \<subseteq> (snd \<circ> fst) ` set (t_chunks s)"
    by (force simp: content_alt split: option.splits dest: map_of_SomeD)
  show "finite {n. content s i n \<noteq> None}" by (rule finite_subset [OF sub]) simp
  have "card {n. content s i n \<noteq> None} \<le> card ((snd \<circ> fst) ` set (t_chunks s))" by (rule card_mono [OF _ sub]) simp
  also have "\<dots> \<le> length (t_chunks s)" by (meson card_image_le card_length finite_set le_trans)
  finally show "card {n. content s i n \<noteq> None} \<le> length (t_chunks s)" .
qed

text \<open>The form a chunk is converted to.\<close>

definition conv_tags :: "azlib \<Rightarrow> bytes set \<Rightarrow> bool \<Rightarrow> nat \<Rightarrow> bytes \<Rightarrow> bool" where
  "conv_tags az T toC lvl p \<longleftrightarrow> (if toC then tags_in az T lvl p else word_of_nat encVerbatim # p \<in> T)"

lemma convert_one:
  assumes "core az (bs_dedup st) T s" "map_of (t_objs s) i = Some o'" "az_ok az" "inj_on sha256 T" "content s i n \<noteq> None"
    and "\<not> fromC \<Longrightarrow> snd (the (content s i n)) = encVerbatim"
    and "bs_dedup st \<Longrightarrow> conv_tags az T toC (writeLevel lvl (bs_compression st)) (chunk_of (obyte az s i) (o_chunk o') n)"
  shows "\<exists>s' v. bbind (readChunkPlain az i n (o_chunk o') fromC) (\<lambda>plain.
      if toC then chunkPutCompressed az st i n plain lvl else chunkPutRaw st i n plain) s = (Inr (), s') \<and>
    core az (bs_dedup st) T s' \<and> stores i n v s s' \<and> obyte az s' = obyte az s \<and> (\<not> toC \<longrightarrow> snd v = encVerbatim)"
proof -
  let ?c = "o_chunk o'" and ?p = "chunk_of (obyte az s i) (o_chunk o') n"
  obtain r where r: "joinBlock s i n = Some r" using assms(5) by (auto simp: content_def)
  have obj: "map_of (t_objs s) i \<noteq> None" using assms(2) by simp
  have c: "content s i n = Some (k_data r, k_enc r)" by (simp add: content_def r de_def)
  have dec: "decodeChunk az (k_data r) (k_enc r) ?c = Inr ?p" by (rule content_decodes [OF assms(1,2) c])
  have "k_data r = ?p" if "\<not> fromC" using assms(6) [OF that] c dec by (simp add: decodeChunk_def split: if_splits)
  then have "readChunkPlain az i n ?c fromC s = (Inr ?p, s)"
    using r c by (simp add: readChunkPlain_def chunkGet_plain [OF assms(1,2)] bret_def)
  then have eq: "bbind (readChunkPlain az i n ?c fromC) (\<lambda>plain. if toC then chunkPutCompressed az st i n plain lvl else chunkPutRaw st i n plain) s =
      (if toC then chunkPutCompressed az st i n ?p lvl else chunkPutRaw st i n ?p) s" by (simp add: bbind_def)
  obtain s' data enc where s': "(if toC then chunkPutCompressed az st i n ?p lvl else chunkPutRaw st i n ?p) s = (Inr (), s')"
    "stores i n (data, enc) s s'" "hash_inv (bs_dedup st) T s'" "decodeChunk az data enc ?c = Inr ?p" "\<not> toC \<longrightarrow> enc = encVerbatim"
  proof (cases toC)
    case True
    then show ?thesis using chunkPut_stores [OF assms(1) obj assms(3,4), of lvl ?p n] assms(7) that by (auto simp: conv_tags_def)
  next
    case False
    have "decodeChunk az ?p encVerbatim ?c = Inr ?p" by (simp add: decodeChunk_def)
    then show ?thesis
      using putBlock_stores [OF coreD(1) [OF assms(1)] obj coreD(2) [OF assms(1)] assms(4), of encVerbatim ?p n] assms(7) False that
      by (auto simp: conv_tags_def chunkPutRaw_def encVerbatim_def)
  qed
  have row: "0 < ?c" using coreD(3) [OF assms(1,2)] by (simp add: row_ok_def)
  have "obyte az s' j k = obyte az s j k" for j k
    using stores_obyte [OF s'(2) assms(2) s'(4), of j k] row by auto
  then have "obyte az s' = obyte az s" by (intro ext)
  moreover have "core az (bs_dedup st) T s'" by (rule stores_core(1) [OF assms(1,2) s'(2,3,4)]) simp
  ultimately show ?thesis using eq s'(1,2,5) by auto
qed

lemma convertChunks_ok:
  assumes "az_ok az" "inj_on sha256 T"
    and tags: "\<And>q. bs_dedup st \<Longrightarrow> conv_tags az T toC (writeLevel lvl (bs_compression st)) (chunk_of f (o_chunk o') q)"
  shows "core az (bs_dedup st) T s \<Longrightarrow> map_of (t_objs s) i = Some o' \<Longrightarrow> obyte az s i = f \<Longrightarrow>
    card {n. q < int n \<and> content s i n \<noteq> None} < fuel \<Longrightarrow>
    (\<And>n v. \<not> fromC \<Longrightarrow> q < int n \<Longrightarrow> content s i n = Some v \<Longrightarrow> snd v = encVerbatim) \<Longrightarrow>
    (\<And>n v. \<not> toC \<Longrightarrow> int n \<le> q \<Longrightarrow> content s i n = Some v \<Longrightarrow> snd v = encVerbatim) \<Longrightarrow>
    \<exists>s'. convertChunks fuel az st i (o_chunk o') fromC toC lvl q s = (Inr (), s') \<and> core az (bs_dedup st) T s' \<and>
      t_objs s' = t_objs s \<and> t_versions s' = t_versions s \<and> obyte az s' = obyte az s \<and>
      (\<forall>j. j \<noteq> i \<longrightarrow> content s' j = content s j) \<and>
      (\<not> toC \<longrightarrow> (\<forall>n v. content s' i n = Some v \<longrightarrow> snd v = encVerbatim))"
proof (induction fuel arbitrary: s q)
  case (Suc fuel)
  note inv = coreD(1) [OF Suc.prems(1)]
  show ?case
  proof (cases "next_seq s i q")
    case None
    have "snd v = encVerbatim" if "\<not> toC" "content s i n = Some v" for n v
      using that Suc.prems(6) [of n v] next_seq_spec(1) [OF inv None, of n] by (cases "int n \<le> q") auto
    then show ?thesis using None Suc.prems(1) by (intro exI [of _ s]) (simp add: bret_def)
  next
    case (Some n)
    note n = next_seq_spec(2) [OF inv Some]
    obtain s1 v where s1: "bbind (readChunkPlain az i n (o_chunk o') fromC) (\<lambda>plain.
        if toC then chunkPutCompressed az st i n plain lvl else chunkPutRaw st i n plain) s = (Inr (), s1)"
      "core az (bs_dedup st) T s1" "stores i n v s s1" "obyte az s1 = obyte az s" "\<not> toC \<longrightarrow> snd v = encVerbatim"
      using convert_one [OF Suc.prems(1,2) assms(1,2), of n fromC toC lvl] n Suc.prems(3,5) tags by fastforce
    have c: "content s1 j m = (if (j, m) = (i, n) then Some v else content s j m)" and o: "t_objs s1 = t_objs s" "t_versions s1 = t_versions s" for j m
      using s1(3) unfolding stores_def by blast+
    have later: "{m. int n < int m \<and> content s1 i m \<noteq> None} = {m. q < int m \<and> content s i m \<noteq> None} - {n}"
      using n by (auto simp: c)
    have fin: "finite {m. q < int m \<and> content s i m \<noteq> None}" by (rule finite_subset [OF _ finite_chunks(1)]) auto
    have mem: "n \<in> {m. q < int m \<and> content s i m \<noteq> None}" using n by blast
    have "card {m. int n < int m \<and> content s1 i m \<noteq> None} < fuel"
      unfolding later card_Diff_singleton [OF mem] using Suc.prems(4) mem fin card_gt_0_iff by (metis Suc_pred' empty_iff not_less_eq)
    moreover have "snd w = encVerbatim" if "\<not> fromC" "int n < int m" "content s1 i m = Some w" for m w
      using that n Suc.prems(5) [of m w] by (simp add: c)
    moreover have "snd w = encVerbatim" if "\<not> toC" "int m \<le> int n" "content s1 i m = Some w" for m w
    proof (cases "m = n")
      case True
      then show ?thesis using that s1(5) by (simp add: c)
    next
      case False
      have "content s i m \<noteq> None" using that False by (simp add: c)
      then have "int m \<le> q" using that(2) False n by (meson antisym int_ops(1) not_le of_nat_le_iff)
      then show ?thesis using that False Suc.prems(6) [of m w] by (simp add: c)
    qed
    ultimately obtain s2 where s2: "convertChunks fuel az st i (o_chunk o') fromC toC lvl (int n) s1 = (Inr (), s2)"
      "core az (bs_dedup st) T s2" "t_objs s2 = t_objs s1" "t_versions s2 = t_versions s1" "obyte az s2 = obyte az s1"
      "\<forall>j. j \<noteq> i \<longrightarrow> content s2 j = content s1 j" "\<not> toC \<longrightarrow> (\<forall>n v. content s2 i n = Some v \<longrightarrow> snd v = encVerbatim)"
      using Suc.IH [OF s1(2), of "int n"] Suc.prems(2,3) o(1) s1(4) by auto
    have "content s1 j = content s j" if "j \<noteq> i" for j using that by (intro ext) (simp add: c)
    moreover have "convertChunks (Suc fuel) az st i (o_chunk o') fromC toC lvl q s = (Inr (), s2)"
      using Some s2(1) bbind_run [of "bbind (readChunkPlain az i n (o_chunk o') fromC) (\<lambda>plain.
          if toC then chunkPutCompressed az st i n plain lvl else chunkPutRaw st i n plain)" s, OF s1(1),
          of "\<lambda>_. convertChunks fuel az st i (o_chunk o') fromC toC lvl (int n)"]
      unfolding bbind_assoc by simp
    ultimately show ?thesis using s2 o s1(4) by (intro exI [of _ s2]) simp
  qed
qed simp

lemma setCompression_ok:
  assumes "store_inv az (bs_dedup st) T s" "map_of (t_objs s) i = Some o'" "az_ok az" "inj_on sha256 T"
    and tags: "\<And>q. bs_dedup st \<Longrightarrow> (o_codec o' = codecAZ) \<noteq> (azLevel c \<noteq> None) \<Longrightarrow>
      conv_tags az T (azLevel c \<noteq> None) (writeLevel c (bs_compression st)) (chunk_of (obyte az s i) (o_chunk o') q)"
  shows "\<exists>s'. setCompression_tx az st i c s = (Inr (), s') \<and> store_inv az (bs_dedup st) T s' \<and>
    (\<exists>cd. (cd = codecAZ \<longleftrightarrow> azLevel c \<noteq> None) \<and>
      map_of (t_objs s') = (map_of (t_objs s))(i \<mapsto> o'\<lparr>o_codec := cd, o_level := if azLevel c \<noteq> None then c else 0\<rparr>)) \<and>
    t_versions s' = t_versions s \<and> obyte az s' = obyte az s"
proof -
  have g: "good az (bs_dedup st) T s" and t: "tail_ok az s" using assms(1) by (simp_all add: store_inv_def)
  have core: "core az (bs_dedup st) T s" and mode: "\<And>i. mode_ok s i" using g by (simp_all add: good_def)
  have row: "row_ok o'" by (rule coreD(3) [OF core assms(2)])
  let ?lv = "if azLevel c \<noteq> None then c else 0"
  show ?thesis
  proof (cases "(o_codec o' = codecAZ) = (azLevel c \<noteq> None)")
    case True
    let ?f = "\<lambda>r. r\<lparr>o_level := ?lv\<rparr> :: objrow"
    let ?s' = "s\<lparr>t_objs := upd_row i ?f (t_objs s)\<rparr>"
    have o: "map_of (t_objs ?s') = (map_of (t_objs s))(i \<mapsto> o'\<lparr>o_codec := o_codec o', o_level := ?lv\<rparr>)" using assms(2) by (intro ext) simp
    have b: "obyte az ?s' = obyte az s" by (rule updObj_meta(2) [OF g]) simp_all
    have "store_inv az (bs_dedup st) T ?s'"
      using updObj_meta(1) [OF g, of ?f i] t assms(2) unfolding store_inv_def tail_ok_def o b by (auto split: if_splits)
    moreover have "setCompression_tx az st i c s = (Inr (), ?s')"
      using assms(2) row True by (simp add: setCompression_tx_def getObj_def checkChunk_def updObj_def bbind_def bret_def row_ok_def Let_def)
    ultimately show ?thesis using o b True by (intro exI [of _ ?s'] conjI exI [of _ "o_codec o'"]) simp_all
  next
    case False
    let ?toC = "azLevel c \<noteq> None"
    let ?cd = "if ?toC then codecAZ else codecRaw"
    let ?f = "\<lambda>r. r\<lparr>o_codec := ?cd, o_level := ?lv\<rparr> :: objrow"
    have "card {n. - 1 < int n \<and> content s i n \<noteq> None} < Suc (length (t_chunks s))"
      using finite_chunks(2) [of s i] by (simp add: less_Suc_eq_le)
    moreover have "snd v = encVerbatim" if "o_codec o' \<noteq> codecAZ" "content s i n = Some v" for n v
      using mode [of i] assms(2) that unfolding mode_ok_def by blast
    ultimately obtain s1 where s1: "convertChunks (Suc (length (t_chunks s))) az st i (o_chunk o') (o_codec o' = codecAZ) ?toC c (- 1) s = (Inr (), s1)"
      "core az (bs_dedup st) T s1" "t_objs s1 = t_objs s" "t_versions s1 = t_versions s" "obyte az s1 = obyte az s"
      "\<forall>j. j \<noteq> i \<longrightarrow> content s1 j = content s j" "\<not> ?toC \<longrightarrow> (\<forall>n v. content s1 i n = Some v \<longrightarrow> snd v = encVerbatim)"
      using convertChunks_ok [OF assms(3,4) tags core assms(2) refl, of "- 1" "Suc (length (t_chunks s))" "o_codec o' = codecAZ"] False by auto
    let ?s' = "s1\<lparr>t_objs := upd_row i ?f (t_objs s1)\<rparr>"
    note u = updObj_core [where f = ?f and s = s1 and i = i]
    have b: "obyte az ?s' = obyte az s" using u(2) [of az] s1(5) by simp
    have o: "map_of (t_objs ?s') = (map_of (t_objs s))(i \<mapsto> ?f o')" using assms(2) s1(3) by (intro ext) simp
    have "mode_ok ?s' j" for j
    proof (cases "j = i")
      case True
      then show ?thesis using u(1) s1(7) unfolding mode_ok_def o by auto
    next
      case j: False
      then show ?thesis using u(1) s1(6) mode [of j] unfolding mode_ok_def o by auto
    qed
    moreover have "core az (bs_dedup st) T ?s'" using u(3) [OF _ s1(2)] by simp
    moreover have "tail_ok az ?s'" using t assms(2) unfolding tail_ok_def o b by (auto split: if_splits)
    ultimately have "store_inv az (bs_dedup st) T ?s'" by (simp add: store_inv_def good_def)
    moreover have "setCompression_tx az st i c s = (Inr (), ?s')"
    proof -
      have "setCompression_tx az st i c s = (if (o_codec o' = codecAZ) = ?toC then updObj i (\<lambda>r. r\<lparr>o_level := ?lv\<rparr>) s
          else bbind (\<lambda>s. convertChunks (Suc (length (t_chunks s))) az st i (o_chunk o') (o_codec o' = codecAZ) ?toC c (- 1) s) (\<lambda>_. updObj i ?f) s)"
        using assms(2) row unfolding setCompression_tx_def getObj_def checkChunk_def Let_def row_ok_def by (auto simp: bbind_def bret_def)
      also have "\<dots> = (Inr (), ?s')" unfolding if_not_P [OF False] bbind_def s1(1) by (simp add: updObj_def bret_def)
      finally show ?thesis .
    qed
    ultimately show ?thesis using o b s1(4) by (intro exI [of _ ?s'] conjI exI [of _ ?cd]) (simp_all add: codecAZ_def codecRaw_def)
  qed
qed

end
