(* ===== verification/Blobstore_Props.thy ===== *)
theory Blobstore_Props
  imports Blobstore_Objects
begin

text \<open>
  What the exported operations of the blob store promise: reads, writes, truncation, clones, deletion and the change of the
  storage mode on the bytes of the objects; and two faults, the truncation of an object that reaches to the end of the offset
  range and a store that is opened with and without deduplication in turn.
\<close>

lemma withTx_run: "\<not> bs_readOnly st \<Longrightarrow> fn s = (Inr x, s') \<Longrightarrow> withTx st fn s = (Inr x, s')"
  by (simp add: withTx_def)

lemma withTx_cases: "withTx st fn s = (r, s') \<Longrightarrow> (\<exists>x. \<not> bs_readOnly st \<and> r = Inr x \<and> fn s = (Inr x, s')) \<or> (\<exists>e. r = Inl e \<and> s' = s)"
  by (auto simp: withTx_def split: if_splits prod.splits sum.splits)

section \<open>A compressor for the examples\<close>

text \<open>It shortens a run of zeros and leaves everything else behind a marker.\<close>

definition toy_enc :: "nat \<Rightarrow> bytes \<Rightarrow> nat + bytes" where
  "toy_enc lvl p = Inr (if p = [0, 0, 0, 0] then [0] else 1 # p)"

definition toy_dec :: "bytes \<Rightarrow> nat \<Rightarrow> azerr + bytes" where
  "toy_dec c mx = (case c of [] \<Rightarrow> Inl (AzError 0)
     | t # p \<Rightarrow> let plain = (if t = 0 then [0, 0, 0, 0] else p) in if mx < length plain then Inl AzTooLarge else Inr plain)"

definition toy_az :: azlib where
  "toy_az = \<lparr>az_EncodeAll = toy_enc, az_DecodeAllLimit = toy_dec\<rparr>"

lemma toy_az_ok: "az_ok toy_az"
  by (auto simp: az_ok_def toy_az_def toy_enc_def toy_dec_def)

definition toy_row :: objrow where
  "toy_row = \<lparr>o_size = 6, o_chunk = 4, o_codec = codecAZ, o_level = 0, o_keep = 0, o_maxage = 0, o_created = 0\<rparr>"

text \<open>Two objects that share their first block; the second chunk of object 1 is stored compressed.\<close>

definition toy_db :: bdb where
  "toy_db = \<lparr>t_objs = [(1, toy_row), (2, toy_row)],
     t_blocks = [(1, \<lparr>k_data = [5, 6, 7, 8], k_enc = encVerbatim, k_refs = 2, k_hash = None\<rparr>),
                 (2, \<lparr>k_data = [0], k_enc = encAZ, k_refs = 1, k_hash = None\<rparr>)],
     t_chunks = [((1, 0), 1), ((1, 1), 2), ((2, 0), 1)], t_versions = []\<rparr>"

definition toy_st :: bstore where
  "toy_st = \<lparr>bs_chunkSize = 4, bs_compression = 3, bs_dedup = False, bs_readOnly = False\<rparr>"

lemma toy_objs: "map_of (t_objs toy_db) 1 = Some toy_row" "map_of (t_objs toy_db) 2 = Some toy_row"
  "map_of (t_objs toy_db) i = Some o' \<Longrightarrow> o' = toy_row"
  by (auto simp: toy_db_def split: if_splits)

lemma toy_st_simps: "bs_dedup toy_st = False" "bs_readOnly toy_st = False" "o_chunk toy_row = 4" "o_size toy_row = 6"
  by (simp_all add: toy_st_def toy_row_def)

lemma toy_content:
  "content toy_db i q = (if (i, q) = (1, 0) \<or> (i, q) = (2, 0) then Some ([5, 6, 7, 8], encVerbatim)
     else if (i, q) = (1, 1) then Some ([0], encAZ) else None)"
  by (simp add: content_alt toy_db_def de_def)

lemma toy_obyte: "obyte toy_az toy_db i k = (if (i = 1 \<or> i = 2) \<and> k < 4 then [5, 6, 7, 8] ! k else 0)"
proof -
  have "k div 4 = 0 \<longleftrightarrow> k < 4" "k < 4 \<Longrightarrow> k mod 4 = k" by auto
  moreover have "[0, 0, 0, 0] ! (k mod 4) = (0 :: byte)"
  proof -
    have "k mod 4 \<in> {0, 1, 2, 3}" by auto
    then show ?thesis by auto
  qed
  ultimately show ?thesis
    unfolding obyte_def toy_content plain_of_def
    by (auto simp: toy_db_def toy_row_def decodeChunk_def encVerbatim_def encAZ_def toy_az_def toy_dec_def)
qed

lemma toy_inv: "store_inv toy_az (bs_dedup toy_st) {} toy_db"
proof -
  have "blocks_inv toy_db"
    by (auto simp: blocks_inv_def toy_db_def refs_ok_def chunk_count_def)
  moreover have "hash_inv (bs_dedup toy_st) {} toy_db" by (auto simp: hash_inv_def toy_db_def split: if_splits)
  moreover have "row_ok o' \<and> (\<forall>q v. content toy_db i q = Some v \<longrightarrow> decodes toy_az (o_chunk o') v)"
    if "map_of (t_objs toy_db) i = Some o'" for i o'
  proof -
    have "o' = toy_row" using that by (rule toy_objs(3))
    then show ?thesis
      by (auto simp: toy_row_def row_ok_def maxChunkSize_def toy_content decodes_def decodeChunk_def encVerbatim_def encAZ_def
          toy_az_def toy_dec_def split: if_splits)
  qed
  moreover have "mode_ok toy_db i" for i by (auto simp: mode_ok_def toy_db_def toy_row_def split: if_splits)
  moreover have "tail_ok toy_az toy_db" unfolding tail_ok_def
  proof (intro allI impI)
    fix i o' k assume a: "map_of (t_objs toy_db) i = Some o'" "o_size o' \<le> k"
    then have "4 \<le> k" using toy_objs(3) [OF a(1)] by (simp add: toy_row_def)
    then show "obyte toy_az toy_db i k = 0" by (simp add: toy_obyte)
  qed
  ultimately show ?thesis by (simp add: store_inv_def good_def core_def)
qed

section \<open>Properties\<close>

text \<open>C6: A write stores its bytes at its offset, grows the object to its end, and changes no byte of any other object, also of one
  that shares blocks with it; the reference counts stay exact. This holds in both storage modes, and with deduplication as long
  as the hash does not collide on the stored blocks.\<close>

theorem blob_write_refines:
  assumes "store_inv az (bs_dedup st) T s" "map_of (t_objs s) i = Some o'" "az_ok az" "inj_on sha256 T" "\<not> bs_readOnly st"
    and "p \<noteq> []" "0 \<le> off" "off + int (length p) < 2 ^ 63"
    and "\<And>q. bs_dedup st \<Longrightarrow> o_codec o' = codecAZ \<Longrightarrow>
      tags_in az T (writeLevel (o_level o') (bs_compression st)) (chunk_of (put_bytes (nat off) p (obyte az s i)) (o_chunk o') q)"
  shows "\<exists>s'. writeAt_obj az st i p off s = (Inr (length p), s') \<and> store_inv az (bs_dedup st) T s' \<and>
    map_of (t_objs s') = (map_of (t_objs s))(i \<mapsto> o'\<lparr>o_size := max (o_size o') (nat off + length p)\<rparr>) \<and> t_versions s' = t_versions s \<and>
    obyte az s' = (obyte az s)(i := put_bytes (nat off) p (obyte az s i))"
proof -
  obtain s' where s': "writeOnConn az st i p (nat off) (nat off + length p) s = (Inr (), s')" "store_inv az (bs_dedup st) T s'"
    "map_of (t_objs s') = (map_of (t_objs s))(i \<mapsto> o'\<lparr>o_size := max (o_size o') (nat off + length p)\<rparr>)" "t_versions s' = t_versions s"
    "obyte az s' = (obyte az s)(i := put_bytes (nat off) p (obyte az s i))"
    using writeOnConn_ok [OF assms(1-4,9)] by blast
  have "writeAt_obj az st i p off s = (Inr (length p), s')"
    using assms(5-8) s'(1) by (simp add: writeAt_obj_def writeArgs_def bbind_def bret_def withTx_def)
  then show ?thesis using s' by blast
qed

theorem blob_write_refines_witness:
  "\<exists>s'. writeAt_obj toy_az toy_st 1 [9, 9] 3 toy_db = (Inr 2, s') \<and> store_inv toy_az (bs_dedup toy_st) {} s' \<and>
    map_of (t_objs s') = (map_of (t_objs toy_db))(1 \<mapsto> toy_row\<lparr>o_size := max (o_size toy_row) (nat 3 + 2)\<rparr>) \<and> t_versions s' = t_versions toy_db \<and>
    obyte toy_az s' = (obyte toy_az toy_db)(1 := put_bytes (nat 3) [9, 9] (obyte toy_az toy_db 1))"
  using blob_write_refines [OF toy_inv toy_objs(1) toy_az_ok, of "[9, 9]" 3] by (simp add: toy_st_simps numeral_2_eq_2)

text \<open>C14: A read returns the bytes of the object at its offset up to its end, with \<^verbatim>\<open>io.EOF\<close> exactly when it reached the end, and leaves
  the rest of the buffer alone.\<close>

theorem blob_read_exact:
  assumes "store_inv az d T s" "map_of (t_objs s) i = Some o'" "p \<noteq> []" "0 \<le> off"
  defines "n \<equiv> min (length p) (o_size o' - nat off)"
  shows "readAt_obj az s i p off =
    (map (\<lambda>j. obyte az s i (nat off + j)) [0..<n] @ drop n p, n, if o_size o' \<le> nat off + n then REof else ROk)"
proof -
  let ?f = "\<lambda>q inOff dst. if o_codec o' = codecAZ then readChunkCompressed az s i q (o_chunk o') inOff dst else readChunkRaw s i q inOff dst"
  have g: "good az d T s" using assms(1) by (simp add: store_inv_def)
  have row: "0 < o_chunk o'" "o_chunk o' \<le> maxChunkSize" using g coreD(3) assms(2) by (auto simp: good_def row_ok_def)
  show ?thesis
  proof (cases "o_size o' \<le> nat off")
    case True
    then show ?thesis using assms(2-4) row by (simp add: readAt_obj_def readOnConn_def n_def)
  next
    case False
    have "readSpans ?f (chunkSpans (nat off) (nat off + n) (o_chunk o') 0) p 0 = (map (\<lambda>j. obyte az s i (nat off + j)) [0..<n] @ drop n p, n, None)"
      using read_spans [OF row(1) read_chunk [OF g assms(2)], of 0 n p "nat off"] by (simp add: n_def)
    then show ?thesis using False assms(2-4) row by (simp add: readAt_obj_def readOnConn_def Let_def n_def)
  qed
qed

theorem blob_read_exact_witness:
  "readAt_obj toy_az toy_db 1 [1, 1, 1] 2 = ([7, 8, 0], 3, ROk)"
  using blob_read_exact [OF toy_inv toy_objs(1), of "[1, 1, 1]" 2] by (simp add: toy_st_simps toy_obyte upt_rec numeral_3_eq_3)



lemma firstDead_wraps:
  assumes "0 < c" "c \<le> maxChunkSize" "n < 2 ^ 63" "2 ^ 63 < n + c"
  shows "go_div (wrap_int64 (int n + int c - 1)) (int c) \<le> 0"
proof -
  have "(int n + int c - 1 + 2 ^ 63) mod 2 ^ 64 = int n + int c - 1 + 2 ^ 63 - 2 ^ 64"
    using assms by (simp add: mod_pos_geq maxChunkSize_def)
  then have "wrap_int64 (int n + int c - 1) < 0" using assms(2,3) by (simp add: wrap_int64_def maxChunkSize_def)
  then show ?thesis using assms(1) by (simp add: go_div_def pos_imp_zdiv_nonneg_iff)
qed

lemma truncate_wraps:
  assumes "store_inv az (bs_dedup st) T s" "map_of (t_objs s) i = Some o'"
    and "n < o_size o'" "n < 2 ^ 63" "2 ^ 63 < n + o_chunk o'"
  shows "\<exists>s'. truncateOnConn az st i n s = (Inr (o_size o'), s') \<and> store_inv az (bs_dedup st) T s' \<and>
    map_of (t_objs s') = (map_of (t_objs s))(i \<mapsto> o'\<lparr>o_size := n\<rparr>) \<and> t_versions s' = t_versions s \<and>
    obyte az s' = (obyte az s)(i := (\<lambda>_. 0))"
proof -
  let ?c = "o_chunk o'" and ?fd = "go_div (wrap_int64 (int n + int (o_chunk o') - 1)) (int (o_chunk o'))"
  have g: "good az (bs_dedup st) T s" and t: "tail_ok az s" using assms(1) by (simp_all add: store_inv_def)
  have inv: "blocks_inv s" using g coreD(1) by (auto simp: good_def)
  have row: "row_ok o'" using g coreD(3) assms(2) by (auto simp: good_def)
  have fd: "?fd \<le> 0" using firstDead_wraps assms(4,5) row by (simp add: row_ok_def)
  obtain s1 where s1: "releaseChunks i (Some ?fd) s = (Inr (), s1)" "chunks_released i (Some ?fd) s s1"
    using releaseChunks_ok [OF blocks_invD(2,3,8) [OF inv]] by blast
  have o1: "t_objs s1 = t_objs s" "t_versions s1 = t_versions s" using s1(2) by (simp_all add: chunks_released_def)
  have f1: "obyte az s1 = (obyte az s)(i := (\<lambda>_. 0))"
    using released_good(2) [OF g s1(2) assms(2)] fd by (simp add: in_range_def order.trans [OF fd])
  have g1: "good az (bs_dedup st) T s1" by (rule released_good(1) [OF g s1(2)])
  have none: "content s1 i q = None" "blockOf s1 i q = None" for q
    using chunks_released_content [OF s1(2) blocks_invD(8) [OF inv], of i q] s1(2) order.trans [OF fd, of "int q"]
    by (auto simp: in_range_def chunks_released_def blockOf_def)
  have z: "zeroChunkTail az st i q m ?c (o_codec o' = codecAZ) (o_level o') s1 = (Inr (), s1)" for q m
    using none [of q] by (simp add: zeroChunkTail_def chunkGetCompressed_def content_def bret_def)
  let ?f = "\<lambda>r. r\<lparr>o_size := n\<rparr> :: objrow"
  let ?s' = "s1\<lparr>t_objs := upd_row i ?f (t_objs s1)\<rparr>"
  have "truncateOnConn az st i n s = (Inr (o_size o'), ?s')"
    using assms(2,3) row s1(1) z by (auto simp: truncateOnConn_def getObj_def checkChunk_def updObj_def bbind_def bret_def row_ok_def Let_def)
  moreover have o: "map_of (t_objs ?s') = (map_of (t_objs s))(i \<mapsto> ?f o')" using o1(1) assms(2) by (intro ext) simp
  moreover have b: "obyte az ?s' = (obyte az s)(i := (\<lambda>_. 0))" using updObj_meta(2) [OF g1, of ?f i] f1 by simp
  moreover have "tail_ok az ?s'" using t unfolding tail_ok_def o b by (auto split: if_splits)
  ultimately show ?thesis using updObj_meta(1) [OF g1, of ?f i] o1(2) by (auto simp: store_inv_def)
qed

text \<open>When the rounding up to whole chunks overflows, the number of the first chunk to drop is not positive and truncating loses
  every byte of the object, also those in front of the new end, and reports success.\<close>

theorem blob_truncate_overflow_erases:
  assumes "store_inv az (bs_dedup st) T s" "map_of (t_objs s) i = Some o'" "\<not> bs_readOnly st"
    and "n < o_size o'" "n < 2 ^ 63" "2 ^ 63 < n + o_chunk o'"
  shows "\<exists>s'. Truncate_obj az st i (int n) s = (Inr (), s') \<and> map_of (t_objs s') i = Some (o'\<lparr>o_size := n\<rparr>) \<and> obyte az s' i = (\<lambda>_. 0)"
  using truncate_wraps [OF assms(1,2,4-6)] assms(3) by (auto simp: Truncate_obj_def bbind_def bret_def withTx_def)

definition far_row :: objrow where
  "far_row = toy_row\<lparr>o_size := 2 ^ 63 - 1\<rparr>"

definition far_db :: bdb where
  "far_db = toy_db\<lparr>t_objs := [(1, far_row), (2, toy_row)]\<rparr>"

lemma far_inv: "store_inv toy_az (bs_dedup toy_st) {} far_db"
proof -
  have g: "good toy_az (bs_dedup toy_st) {} toy_db" and t: "tail_ok toy_az toy_db" using toy_inv by (simp_all add: store_inv_def)
  have e: "far_db = toy_db\<lparr>t_objs := upd_row 1 (\<lambda>r. r\<lparr>o_size := 2 ^ 63 - 1\<rparr>) (t_objs toy_db)\<rparr>"
    by (simp add: far_db_def far_row_def toy_db_def upd_row_def)
  note u = updObj_meta [OF g, of "\<lambda>r. r\<lparr>o_size := 2 ^ 63 - 1\<rparr>" 1, folded e]
  have "tail_ok toy_az far_db" unfolding tail_ok_def
  proof (intro allI impI)
    fix i o' k assume a: "map_of (t_objs far_db) i = Some o'" "o_size o' \<le> k"
    then have "4 \<le> k" by (auto simp: far_db_def far_row_def toy_row_def split: if_splits)
    then show "obyte toy_az far_db i k = 0" using u(2) by (simp add: toy_obyte)
  qed
  then show ?thesis using u(1) by (simp add: store_inv_def)
qed

theorem blob_truncate_overflow_erases_witness:
  "obyte toy_az far_db 1 0 = 5 \<and>
    (\<exists>s'. Truncate_obj toy_az toy_st 1 (int (2 ^ 63 - 2)) far_db = (Inr (), s') \<and>
      map_of (t_objs s') 1 = Some (far_row\<lparr>o_size := 2 ^ 63 - 2\<rparr>) \<and> obyte toy_az s' 1 = (\<lambda>_. 0))"
proof
  show "obyte toy_az far_db 1 0 = 5"
    by (simp add: obyte_def far_db_def far_row_def toy_row_def content_alt toy_db_def de_def plain_of_def decodeChunk_def encVerbatim_def)
  show "\<exists>s'. Truncate_obj toy_az toy_st 1 (int (2 ^ 63 - 2)) far_db = (Inr (), s') \<and>
      map_of (t_objs s') 1 = Some (far_row\<lparr>o_size := 2 ^ 63 - 2\<rparr>) \<and> obyte toy_az s' 1 = (\<lambda>_. 0)"
    by (rule blob_truncate_overflow_erases [OF far_inv]) (simp_all add: far_db_def far_row_def toy_row_def toy_st_def)
qed

text \<open>A clone is a new object with the bytes and the size of its source; making it changes no other object, and from then on a
  write to one of the two leaves the other one alone (by the theorem on writes).\<close>

theorem blob_clone_exact:
  assumes "store_inv az d T s" "map_of (t_objs s) src = Some o'" "\<not> bs_readOnly st"
  shows "\<exists>s' dst. Clone st now src s = (Inr dst, s') \<and> map_of (t_objs s) dst = None \<and> store_inv az d T s' \<and>
    map_of (t_objs s') = (map_of (t_objs s))(dst \<mapsto> o'\<lparr>o_created := now\<rparr>) \<and> t_versions s' = t_versions s \<and>
    obyte az s' = (obyte az s)(dst := obyte az s src)"
  using clone_ok [OF assms(1,2), of now] assms(3) rowid_fresh(1) [of "t_objs s"]
  by (auto simp: Clone_def withTx_def bbind_def bret_def)

theorem blob_clone_exact_witness:
  "\<exists>s' dst. Clone toy_st 7 1 toy_db = (Inr dst, s') \<and> map_of (t_objs toy_db) dst = None \<and> store_inv toy_az (bs_dedup toy_st) {} s' \<and>
    map_of (t_objs s') = (map_of (t_objs toy_db))(dst \<mapsto> toy_row\<lparr>o_created := 7\<rparr>) \<and> t_versions s' = t_versions toy_db \<and>
    obyte toy_az s' = (obyte toy_az toy_db)(dst := obyte toy_az toy_db 1)"
  by (rule blob_clone_exact [OF toy_inv toy_objs(1)]) (simp add: toy_st_simps)

lemma no_leak:
  assumes "store_inv az d T s" "map_of (t_blocks s) b \<noteq> None"
  shows "\<exists>j q. map_of (t_objs s) j \<noteq> None \<and> blockOf s j q = Some b"
proof -
  have inv: "blocks_inv s" using assms(1) coreD(1) by (auto simp: store_inv_def good_def)
  obtain r where "map_of (t_blocks s) b = Some r" using assms(2) by blast
  then have "b \<in> set (map snd (t_chunks s))" using blocks_invD(6) [OF inv] chunk_count_in by blast
  then obtain c where c: "c \<in> set (t_chunks s)" "snd c = b" by auto
  then have m: "map_of (t_chunks s) (fst (fst c), snd (fst c)) = Some b"
    using map_of_is_SomeI [OF blocks_invD(3) [OF inv], of "fst c" b] by (metis prod.collapse)
  then show ?thesis using blocks_invD(5) [OF inv m] unfolding blockOf_def by blast
qed

text \<open>C16: Deleting removes the object with its versions and their snapshots and nothing else, and no block stays behind that no chunk of a
  remaining object maps to.\<close>

theorem blob_delete_exact:
  assumes "store_inv az d T s" "map_of (t_objs s) i \<noteq> None" "\<not> bs_readOnly st"
  defines "J \<equiv> insert i (v_snap ` {v \<in> set (t_versions s). v_obj v = i})"
  shows "\<exists>s'. Delete st i s = (Inr (), s') \<and> store_inv az d T s' \<and>
    (\<forall>j. map_of (t_objs s') j = (if j \<in> J then None else map_of (t_objs s) j)) \<and>
    (\<forall>j. j \<notin> J \<longrightarrow> obyte az s' j = obyte az s j) \<and> t_versions s' = filter (\<lambda>v. v_obj v \<noteq> i) (t_versions s) \<and>
    (\<forall>b. map_of (t_blocks s') b \<noteq> None \<longrightarrow> (\<exists>j q. map_of (t_objs s') j \<noteq> None \<and> blockOf s' j q = Some b))"
proof -
  obtain s' where s': "deleteOnConn i s = (Inr (), s')" "store_inv az d T s'" "gone az J (filter (\<lambda>v. v_obj v \<noteq> i) (t_versions s)) s s'"
    using deleteOnConn_ok [OF assms(1,2)] unfolding J_def by blast
  have "Delete st i s = (Inr (), s')" using assms(3) s'(1) by (simp add: Delete_def withTx_def)
  then show ?thesis using s'(2,3) no_leak [OF s'(2)] unfolding gone_def by (intro exI [of _ s']) simp
qed

theorem blob_delete_exact_witness:
  "\<exists>s'. Delete toy_st 1 toy_db = (Inr (), s') \<and> store_inv toy_az (bs_dedup toy_st) {} s' \<and>
    (\<forall>j. map_of (t_objs s') j = (if j \<in> insert 1 (v_snap ` {v \<in> set (t_versions toy_db). v_obj v = 1}) then None else map_of (t_objs toy_db) j)) \<and>
    (\<forall>j. j \<notin> insert 1 (v_snap ` {v \<in> set (t_versions toy_db). v_obj v = 1}) \<longrightarrow> obyte toy_az s' j = obyte toy_az toy_db j) \<and>
    t_versions s' = filter (\<lambda>v. v_obj v \<noteq> 1) (t_versions toy_db) \<and>
    (\<forall>b. map_of (t_blocks s') b \<noteq> None \<longrightarrow> (\<exists>j q. map_of (t_objs s') j \<noteq> None \<and> blockOf s' j q = Some b))"
  by (rule blob_delete_exact [OF toy_inv]) (use toy_objs(1) toy_st_simps in simp_all)

text \<open>C18: Changing the compression of an object always ends, sets its mode and level and changes no byte of any object, whether it only
  records the level or rewrites every chunk.\<close>

theorem blob_compression_keeps_bytes:
  assumes "store_inv az (bs_dedup st) T s" "map_of (t_objs s) i = Some o'" "az_ok az" "inj_on sha256 T" "\<not> bs_readOnly st"
    and "\<And>q. bs_dedup st \<Longrightarrow> (o_codec o' = codecAZ) \<noteq> (azLevel c \<noteq> None) \<Longrightarrow>
      conv_tags az T (azLevel c \<noteq> None) (writeLevel c (bs_compression st)) (chunk_of (obyte az s i) (o_chunk o') q)"
  shows "\<exists>s'. SetCompression az st i c s = (Inr (), s') \<and> store_inv az (bs_dedup st) T s' \<and>
    (\<exists>cd. (cd = codecAZ \<longleftrightarrow> azLevel c \<noteq> None) \<and>
      map_of (t_objs s') = (map_of (t_objs s))(i \<mapsto> o'\<lparr>o_codec := cd, o_level := if azLevel c \<noteq> None then c else 0\<rparr>)) \<and>
    t_versions s' = t_versions s \<and> obyte az s' = obyte az s"
  using setCompression_ok [OF assms(1-4,6)] assms(5) unfolding SetCompression_def withTx_def by fastforce

theorem blob_compression_keeps_bytes_witness:
  "\<exists>s'. SetCompression toy_az toy_st 1 0 toy_db = (Inr (), s') \<and> store_inv toy_az (bs_dedup toy_st) {} s' \<and>
    (\<exists>cd. (cd = codecAZ \<longleftrightarrow> azLevel 0 \<noteq> None) \<and>
      map_of (t_objs s') = (map_of (t_objs toy_db))(1 \<mapsto> toy_row\<lparr>o_codec := cd, o_level := if azLevel 0 \<noteq> None then 0 else 0\<rparr>)) \<and>
    t_versions s' = t_versions toy_db \<and> obyte toy_az s' = obyte toy_az toy_db"
  by (rule blob_compression_keeps_bytes [OF toy_inv toy_objs(1) toy_az_ok]) (simp_all add: toy_st_simps)

section \<open>Deduplication switched on and off\<close>

definition dd_on :: bstore where
  "dd_on = \<lparr>bs_chunkSize = 1, bs_compression = 0, bs_dedup = True, bs_readOnly = False\<rparr>"

definition dd_off :: bstore where
  "dd_off = dd_on\<lparr>bs_dedup := False\<rparr>"

definition dd_cc :: createConfig where
  "dd_cc = \<lparr>cc_compression = Some 1, cc_keep = 0, cc_maxage = 0\<rparr>"

definition dd_empty :: bdb where
  "dd_empty = \<lparr>t_objs = [], t_blocks = [], t_chunks = [], t_versions = []\<rparr>"

text \<open>A handle with deduplication writes the byte \<open>a\<close> to an object and makes the object raw; one without overwrites it with \<open>b\<close>; the first
  one then writes \<open>a\<close> to a second object.\<close>

definition dd_run :: "byte \<Rightarrow> byte \<Rightarrow> nat bop" where
  "dd_run a b = bbind (Create dd_on 0 dd_cc) (\<lambda>x. bbind (writeAt_obj toy_az dd_on x [a] 0) (\<lambda>_. bbind (SetCompression toy_az dd_on x 0) (\<lambda>_.
     bbind (writeAt_obj toy_az dd_off x [b] 0) (\<lambda>_. bbind (Create dd_on 0 dd_cc) (\<lambda>y. bbind (writeAt_obj toy_az dd_on y [a] 0) (\<lambda>_. bret y))))))"

text \<open>C19: The hash of a block survives an in-place write through a handle without deduplication, and a later write of the old bytes through a
  handle with it is mapped to the block: every operation succeeds, and the object just written with \<open>a\<close> reads as \<open>b\<close>.\<close>

theorem blob_dedup_toggle_misreads:
  "\<exists>s. dd_run a b dd_empty = (Inr 2, s) \<and> readAt_obj toy_az s 2 [0] 0 = ([b], 1, REof)"
proof -
  let ?row = "\<lparr>o_size = 1, o_chunk = 1, o_codec = codecAZ, o_level = 1, o_keep = 0, o_maxage = 0, o_created = 0\<rparr>"
  let ?h = "Some (blockHash [a] encVerbatim)"
  let ?s1 = "\<lparr>t_objs = [(1, ?row\<lparr>o_size := 0\<rparr>)], t_blocks = [], t_chunks = [], t_versions = []\<rparr>"
  let ?s2 = "\<lparr>t_objs = [(1, ?row)], t_blocks = [(1, \<lparr>k_data = [a], k_enc = encVerbatim, k_refs = 1, k_hash = ?h\<rparr>)],
    t_chunks = [((1, 0), 1)], t_versions = []\<rparr>"
  let ?raw = "?row\<lparr>o_codec := codecRaw, o_level := 0\<rparr>"
  let ?s3 = "?s2\<lparr>t_objs := [(1, ?raw)]\<rparr>"
  let ?s4 = "?s3\<lparr>t_blocks := [(1, \<lparr>k_data = [b], k_enc = encVerbatim, k_refs = 1, k_hash = ?h\<rparr>)]\<rparr>"
  let ?s5 = "?s4\<lparr>t_objs := [(1, ?raw), (2, ?row\<lparr>o_size := 0\<rparr>)]\<rparr>"
  let ?s6 = "?s5\<lparr>t_objs := [(1, ?raw), (2, ?row)], t_blocks := [(1, \<lparr>k_data = [b], k_enc = encVerbatim, k_refs = 2, k_hash = ?h\<rparr>)],
    t_chunks := [((1, 0), 1), ((2, 0), 1)]\<rparr>"
  note [simp] = dd_on_def dd_off_def dd_cc_def dd_empty_def Let_def bbind_def bret_def bfail_def codecAZ_def codecRaw_def encVerbatim_def
    rowid_new_def upd_row_def toy_az_def toy_enc_def azLevel_def writeLevel_def azLevelOrDefault_def encodeChunk_def decodeChunk_def
    withTx_def getObj_def updObj_def checkChunk_def maxChunkSize_def
  have sp: "chunkSpans 0 1 1 0 = [(0, 0, 1, 0)]" by (simp add: chunkSpans.simps)
  note wr = writeAt_obj_def writeArgs_def writeOnConn_def objWriteMeta_def writeSpans_def eachChunkSpan_def bslice_def
  note dd = writeChunkCompressed_def chunkPutCompressed_def putBlock_def putBlockDedup_def blockByHash_def blockOf_def newHashedBlock_def
    insertBlock_def mapChunk_def release_cur_def updBlock_def
  have 1: "Create dd_on 0 dd_cc dd_empty = (Inr 1, ?s1)" by (simp add: Create_def createOn_def)
  have 2: "writeAt_obj toy_az dd_on 1 [a] 0 ?s1 = (Inr 1, ?s2)" using sp by (simp add: wr dd)
  have 3: "SetCompression toy_az dd_on 1 0 ?s2 = (Inr (), ?s3)"
    by (simp add: SetCompression_def setCompression_tx_def next_seq_def in_range_def readChunkPlain_def chunkGetCompressed_def joinBlock_def
        chunkPutRaw_def dd)
  have 4: "writeAt_obj toy_az dd_off 1 [b] 0 ?s3 = (Inr 1, ?s4)"
    using sp by (simp add: wr writeChunkRaw_def privateRawBlock_def blockOf_def blockRefs_def blobWrite_def blob_WriteAt_def blit_def updBlock_def)
  have 5: "Create dd_on 0 dd_cc ?s4 = (Inr 2, ?s5)" by (simp add: Create_def createOn_def)
  have 6: "writeAt_obj toy_az dd_on 2 [a] 0 ?s5 = (Inr 1, ?s6)" using sp by (simp add: wr dd)
  have "dd_run a b dd_empty = (Inr 2, ?s6)" unfolding dd_run_def bbind_def 1 by (simp only: 2 3 4 5 6 prod.case sum.case bret_def)
  moreover have "readAt_obj toy_az ?s6 2 [0] 0 = ([b], 1, REof)"
    using sp by (simp add: readAt_obj_def readOnConn_def readChunkCompressed_def chunkGetCompressed_def joinBlock_def bslice_def blit_def)
  ultimately show ?thesis by blast
qed

end
