(* ===== verification/Blobstore_Runs.thy ===== *)
theory Blobstore_Runs
  imports Blobstore_Props
begin

text \<open>
  The versions of \<^verbatim>\<open>blobstore\<close> (\<^verbatim>\<open>versioning.go\<close>) over whole runs of a store: \<open>bstep\<close> is one call of a client on any object, with
  whatever it returns. The invariant \<open>store_inv\<close> with \<open>ver_ok\<close> (snapshots are objects of their own, one per version) holds in every
  reachable state, no step changes the content of a version, a new version opens to the bytes of its object, and pruning keeps
  exactly the versions the retention policy names.
\<close>

section \<open>Runs of a store\<close>

text \<open>The snapshots are objects of their own that only their versions name; a caller never gets their ids.\<close>

definition snaps :: "bdb \<Rightarrow> nat set" where
  "snaps s = v_snap ` set (t_versions s)"

definition ver_ok :: "bdb \<Rightarrow> bool" where
  "ver_ok s \<longleftrightarrow> distinct (map v_snap (t_versions s)) \<and> distinct (map (\<lambda>v. (v_obj v, v_no v)) (t_versions s)) \<and>
     (\<forall>v\<in>set (t_versions s). map_of (t_objs s) (v_snap v) \<noteq> None \<and> map_of (t_objs s) (v_obj v) \<noteq> None \<and> v_obj v \<notin> snaps s)"

text \<open>A version that is there before and after a step has the same bytes and the same size.\<close>

definition versions_kept :: "azlib \<Rightarrow> bdb \<Rightarrow> bdb \<Rightarrow> bool" where
  "versions_kept az s s' \<longleftrightarrow> (\<forall>v\<in>set (t_versions s) \<inter> set (t_versions s'). obyte az s' (v_snap v) = obyte az s (v_snap v) \<and>
     map_option o_size (map_of (t_objs s') (v_snap v)) = map_option o_size (map_of (t_objs s) (v_snap v)))"

definition may_store :: "azlib \<Rightarrow> bstore \<Rightarrow> bytes set \<Rightarrow> bdb \<Rightarrow> nat \<Rightarrow> (nat \<Rightarrow> byte) \<Rightarrow> bool" where
  "may_store az st T s i f \<longleftrightarrow> (\<forall>o' q. map_of (t_objs s) i = Some o' \<longrightarrow> bs_dedup st \<longrightarrow> o_codec o' = codecAZ \<longrightarrow>
     tags_in az T (writeLevel (o_level o') (bs_compression st)) (chunk_of f (o_chunk o') q))"

definition may_convert :: "azlib \<Rightarrow> bstore \<Rightarrow> bytes set \<Rightarrow> bdb \<Rightarrow> nat \<Rightarrow> nat \<Rightarrow> bool" where
  "may_convert az st T s i c \<longleftrightarrow> (\<forall>o' q. map_of (t_objs s) i = Some o' \<longrightarrow> bs_dedup st \<longrightarrow> (o_codec o' = codecAZ) \<noteq> (azLevel c \<noteq> None) \<longrightarrow>
     conv_tags az T (azLevel c \<noteq> None) (writeLevel c (bs_compression st)) (chunk_of (obyte az s i) (o_chunk o') q))"

text \<open>The steps of callers that hold ids of objects, with their results, errors included. With deduplication the stored forms are those
  on which the hash does not collide.\<close>

inductive bstep :: "azlib \<Rightarrow> bstore \<Rightarrow> bytes set \<Rightarrow> bdb \<Rightarrow> bdb \<Rightarrow> bool" for az st T where
  b_create: "Create st now cc s = (r, s') \<Longrightarrow> bstep az st T s s'"
| b_write: "i \<notin> snaps s \<Longrightarrow> may_store az st T s i (put_bytes (nat off) p (obyte az s i)) \<Longrightarrow> writeAt_obj az st i p off s = (r, s') \<Longrightarrow> bstep az st T s s'"
| b_truncate: "i \<notin> snaps s \<Longrightarrow> n < 2 ^ 63 \<Longrightarrow> may_store az st T s i (cut_bytes (nat n) (obyte az s i)) \<Longrightarrow> Truncate_obj az st i n s = (r, s') \<Longrightarrow> bstep az st T s s'"
| b_clone: "Clone st now i s = (r, s') \<Longrightarrow> bstep az st T s s'"
| b_delete: "i \<notin> snaps s \<Longrightarrow> Delete st i s = (r, s') \<Longrightarrow> bstep az st T s s'"
| b_compress: "i \<notin> snaps s \<Longrightarrow> may_convert az st T s i c \<Longrightarrow> SetCompression az st i c s = (r, s') \<Longrightarrow> bstep az st T s s'"
| b_version: "i \<notin> snaps s \<Longrightarrow> NewVersion st now i label s = (r, s') \<Longrightarrow> bstep az st T s s'"
| b_prune: "i \<notin> snaps s \<Longrightarrow> Prune st now i s = (r, s') \<Longrightarrow> bstep az st T s s'"
| b_retention: "i \<notin> snaps s \<Longrightarrow> SetRetention st i keep maxAge s = (r, s') \<Longrightarrow> bstep az st T s s'"

definition step_ok :: "azlib \<Rightarrow> bool \<Rightarrow> bytes set \<Rightarrow> bdb \<Rightarrow> bdb \<Rightarrow> bool" where
  "step_ok az d T s s' \<longleftrightarrow> store_inv az d T s' \<and> ver_ok s' \<and> versions_kept az s s'"

lemma step_same: "store_inv az d T s \<Longrightarrow> ver_ok s \<Longrightarrow> step_ok az d T s s"
  by (simp add: step_ok_def versions_kept_def)

text \<open>One object that is no snapshot changes or is added.\<close>

lemma step_touch:
  assumes "ver_ok s" "store_inv az d T s'" "i \<notin> snaps s" "t_versions s' = t_versions s"
    "map_of (t_objs s') = (map_of (t_objs s))(i \<mapsto> o2)" "\<And>j. j \<noteq> i \<Longrightarrow> obyte az s' j = obyte az s j"
  shows "step_ok az d T s s'"
proof -
  have ne: "v_snap v \<noteq> i" if "v \<in> set (t_versions s)" for v using that assms(3) by (auto simp: snaps_def)
  have "ver_ok s'" using assms(1) unfolding ver_ok_def snaps_def assms(4,5) by auto
  moreover have "versions_kept az s s'" using ne assms(6) unfolding versions_kept_def assms(4,5) by simp
  ultimately show ?thesis using assms(2) by (simp add: step_ok_def)
qed

text \<open>Objects are removed that no remaining version names.\<close>

lemma step_gone:
  assumes "ver_ok s" "store_inv az d T s'" "gone az J (filter P (t_versions s)) s s'"
    "\<And>v. v \<in> set (t_versions s) \<Longrightarrow> P v \<Longrightarrow> v_snap v \<notin> J \<and> v_obj v \<notin> J"
  shows "step_ok az d T s s'"
proof -
  have g: "t_versions s' = filter P (t_versions s)" "\<And>j. map_of (t_objs s') j = (if j \<in> J then None else map_of (t_objs s) j)"
    "\<And>j. obyte az s' j = (if j \<in> J then (\<lambda>_. 0) else obyte az s j)" using assms(3) by (simp_all add: gone_def)
  have "ver_ok s'" using assms(1,4) unfolding ver_ok_def snaps_def g(1,2) by (auto simp: distinct_map_filter)
  moreover have "versions_kept az s s'" using assms(4) unfolding versions_kept_def g(1,2,3) by auto
  ultimately show ?thesis using assms(2) by (simp add: step_ok_def)
qed

lemma versions_kept_trans:
  assumes "versions_kept az s s1" "versions_kept az s1 s2" "set (t_versions s) \<inter> set (t_versions s2) \<subseteq> set (t_versions s1)"
  shows "versions_kept az s s2"
  using assms unfolding versions_kept_def by (smt (verit) Int_iff subsetD)

section \<open>Each step\<close>

lemma createOn_ok:
  assumes "store_inv az d T s" "0 < bs_chunkSize st" "bs_chunkSize st \<le> maxChunkSize"
  shows "\<exists>s' o2. createOn st now cc s = (Inr (rowid_new (t_objs s)), s') \<and> store_inv az d T s' \<and>
    map_of (t_objs s') = (map_of (t_objs s))(rowid_new (t_objs s) \<mapsto> o2) \<and> t_versions s' = t_versions s \<and> obyte az s' = obyte az s"
proof -
  let ?i = "rowid_new (t_objs s)"
  obtain o2 where e: "createOn st now cc s = (Inr ?i, s\<lparr>t_objs := t_objs s @ [(?i, o2)]\<rparr>)" "o_size o2 = 0" "o_chunk o2 = bs_chunkSize st"
    by (simp add: createOn_def bret_def Let_def)
  let ?s' = "s\<lparr>t_objs := t_objs s @ [(?i, o2)]\<rparr>"
  have g: "core az d T s" "\<And>i. mode_ok s i" "tail_ok az s" using assms(1) by (simp_all add: store_inv_def good_def)
  note inv = coreD(1) [OF g(1)]
  have fresh: "map_of (t_objs s) ?i = None" by (rule rowid_fresh)
  have o: "map_of (t_objs ?s') = (map_of (t_objs s))(?i \<mapsto> o2)" using map_of_snoc [OF fresh] by simp
  have c: "content ?s' = content s" by (intro ext) (simp add: content_def joinBlock_def)
  have none: "content s ?i q = None" for q
    using blocks_invD(5) [OF inv, of ?i q] fresh by (cases "map_of (t_chunks s) (?i, q)") (auto simp: content_alt)
  have b: "obyte az ?s' j k = obyte az s j k" for j k
    using none fresh unfolding obyte_def o c by (simp add: plain_of_def)
  have ch: "map_of (t_objs ?s') j \<noteq> None" if "map_of (t_chunks ?s') (j, q) = Some x" for j q x
    using that blocks_invD(5) [OF inv, of j q x] unfolding o by simp
  have "blocks_inv ?s'" unfolding blocks_inv_def
  proof (intro conjI allI impI)
    fix j q x assume "map_of (t_chunks ?s') (j, q) = Some x"
    then show "map_of (t_objs ?s') j \<noteq> None" by (rule ch)
  qed (use blocks_invD(1,2,3,8) [OF inv] rowid_fresh(2) [of "t_objs s"] in simp_all)
  moreover have "hash_inv d T ?s'" using coreD(2) [OF g(1)] by (simp add: hash_inv_def)
  moreover have "row_ok o' \<and> (\<forall>q v. content s j q = Some v \<longrightarrow> decodes az (o_chunk o') v)" if "map_of (t_objs ?s') j = Some o'" for j o'
    using that coreD(3,4) [OF g(1)] none e(3) assms(2,3) unfolding o by (auto simp: row_ok_def split: if_splits)
  ultimately have "core az d T ?s'" unfolding core_def c by blast
  moreover have "mode_ok ?s' j" for j using g(2) [of j] none unfolding mode_ok_def o c by auto
  moreover have "tail_ok az ?s'" using g(3) none fresh unfolding tail_ok_def b o by (auto simp: obyte_def split: if_splits)
  ultimately show ?thesis using e(1) o b by (intro exI [of _ ?s'] exI [of _ o2]) (simp add: store_inv_def good_def fun_eq_iff)
qed

lemma fresh_no_snap: "ver_ok s \<Longrightarrow> rowid_new (t_objs s) \<notin> snaps s"
  using rowid_fresh(1) [of "t_objs s"] by (force simp: ver_ok_def snaps_def)

lemma clone_step:
  assumes "store_inv az d T s" "ver_ok s" "cloneObjectTx now i s = (Inr r, s')"
  shows "step_ok az d T s s' \<and> t_versions s' = t_versions s \<and>
    (\<forall>x. r = Some x \<longrightarrow> x = rowid_new (t_objs s) \<and> map_of (t_objs s') x \<noteq> None \<and> map_of (t_objs s') i \<noteq> None \<and> i \<noteq> x \<and>
      obyte az s' x = obyte az s i \<and> (\<forall>j. map_of (t_objs s) j \<noteq> None \<longrightarrow> map_of (t_objs s') j \<noteq> None \<and> j \<noteq> x))"
proof (cases "map_of (t_objs s) i")
  case None
  then show ?thesis using assms step_same by (auto simp: cloneObjectTx_def bret_def)
next
  case (Some o')
  let ?x = "rowid_new (t_objs s)"
  obtain s1 where s1: "cloneObjectTx now i s = (Inr (Some ?x), s1)" "store_inv az d T s1"
    "map_of (t_objs s1) = (map_of (t_objs s))(?x \<mapsto> o'\<lparr>o_created := now\<rparr>)" "t_versions s1 = t_versions s"
    "obyte az s1 = (obyte az s)(?x := obyte az s i)" using clone_ok [OF assms(1) Some] by blast
  have "step_ok az d T s s1" by (rule step_touch [OF assms(2) s1(2) fresh_no_snap [OF assms(2)] s1(4,3)]) (simp add: s1(5))
  moreover have "i \<noteq> ?x" using Some rowid_fresh(1) [of "t_objs s"] by auto
  moreover have "j \<noteq> ?x" if "map_of (t_objs s) j \<noteq> None" for j using that rowid_fresh(1) [of "t_objs s"] by auto
  ultimately show ?thesis using s1 assms(3) Some by auto
qed

lemma prune_step:
  assumes "store_inv az d T s" "ver_ok s"
  shows "\<exists>s' P. pruneTx now i s = (Inr (), s') \<and> step_ok az d T s s' \<and> t_versions s' = filter P (t_versions s) \<and>
    (\<forall>v. P v = (v_obj v = i \<longrightarrow> v_no v \<notin> v_no ` (case map_of (t_objs s) i of None \<Rightarrow> {} | Some o' \<Rightarrow>
       if o_keep o' \<le> 0 \<and> o_maxage o' \<le> 0 then {}
       else snd ` {rv \<in> set (zip [1..<Suc (length (versions_desc s i))] (versions_desc s i)). doomed now (o_keep o') (o_maxage o') rv})))"
proof -
  have keep: "step_ok az d T s s" by (rule step_same [OF assms])
  show ?thesis
  proof (cases "map_of (t_objs s) i")
    case None
    then show ?thesis using keep by (intro exI [of _ s] exI [of _ "\<lambda>_. True"]) (simp add: pruneTx_def bret_def)
  next
    case (Some o')
    show ?thesis
    proof (cases "o_keep o' \<le> 0 \<and> o_maxage o' \<le> 0")
      case True
      then show ?thesis using keep Some by (intro exI [of _ s] exI [of _ "\<lambda>_. True"]) (simp add: pruneTx_def bret_def)
    next
      case False
      let ?D = "map snd (filter (doomed now (o_keep o') (o_maxage o')) (zip [1..<Suc (length (versions_desc s i))] (versions_desc s i)))"
      let ?P = "\<lambda>w. \<not> (v_obj w = i \<and> v_no w \<in> v_no ` set ?D)"
      have D: "v \<in> set (t_versions s) \<and> v_obj v = i" if "v \<in> set ?D" for v
        using that by (auto simp: versions_desc_def dest!: set_zip_rightD)
      obtain s' where s': "each (drop_version i) ?D s = (Inr (), s')" "store_inv az d T s'"
        "gone az (v_snap ` set ?D) (filter ?P (t_versions s)) s s'" using drop_versions [OF assms(1)] by blast
      have "step_ok az d T s s'"
      proof (rule step_gone [OF assms(2) s'(2,3)])
        fix v assume v: "v \<in> set (t_versions s)" "?P v"
        have "v_snap v \<noteq> v_snap w" if "w \<in> set ?D" for w
        proof
          assume "v_snap v = v_snap w"
          then have "v = w" using assms(2) v(1) D [OF that] unfolding ver_ok_def by (meson eq_key_imp_eq_value distinct_map inj_onD)
          then show False using v(2) that D [OF that] by blast
        qed
        moreover have "v_obj v \<notin> v_snap ` set ?D" using assms(2) v(1) D unfolding ver_ok_def snaps_def by blast
        ultimately show "v_snap v \<notin> v_snap ` set ?D \<and> v_obj v \<notin> v_snap ` set ?D" by blast
      qed
      moreover have "pruneTx now i s = (Inr (), s')" using s'(1) Some False by (simp only: pruneTx_def option.case if_False Let_def)
      moreover have "t_versions s' = filter ?P (t_versions s)" using s'(3) by (simp add: gone_def)
      ultimately show ?thesis using Some False by (intro exI [of _ s'] exI [of _ ?P]) (simp only: option.case if_False set_map set_filter, blast)
    qed
  qed
qed

section \<open>Ranks of versions\<close>

definition vrank :: "bdb \<Rightarrow> verrow \<Rightarrow> nat" where
  "vrank s v = length (filter (\<lambda>w. v_obj w = v_obj v \<and> v_no v \<le> v_no w) (t_versions s))"

lemma filter_descending:
  fixes f :: "'a \<Rightarrow> nat"
  assumes "sorted (rev (map f L))" "distinct (map f L)" "k < length L"
  shows "filter (\<lambda>w. f (L ! k) \<le> f w) L = take (Suc k) L"
proof -
  have mono: "f (L ! n) \<le> f (L ! m)" if "m \<le> n" "n < length L" for m n
    using sorted_rev_nth_mono [OF assms(1), of m n] that by simp
  have "f (L ! k) \<le> f w" if "w \<in> set (take (Suc k) L)" for w
    using that mono assms(3) by (auto simp: in_set_conv_nth less_Suc_eq_le)
  moreover have "\<not> f (L ! k) \<le> f w" if w: "w \<in> set (drop (Suc k) L)" for w
  proof -
    obtain m where m: "w = L ! (Suc k + m)" "Suc k + m < length L" using w by (auto simp: in_set_conv_nth)
    then have "f w \<le> f (L ! k)" "f w \<noteq> f (L ! k)"
      using mono [of k "Suc k + m"] nth_eq_iff_index_eq [OF assms(2), of "Suc k + m" k] assms(3) by auto
    then show ?thesis by simp
  qed
  ultimately have "filter (\<lambda>w. f (L ! k) \<le> f w) (take (Suc k) L @ drop (Suc k) L) = take (Suc k) L"
    unfolding filter_append by (simp add: filter_id_conv filter_empty_conv)
  then show ?thesis by simp
qed

lemma desc_rank:
  assumes "ver_ok s" "(k, v) \<in> set (zip [1..<Suc (length (versions_desc s i))] (versions_desc s i))"
  shows "k = vrank s v \<and> v \<in> set (t_versions s) \<and> v_obj v = i"
proof -
  let ?L = "versions_desc s i" and ?V = "filter (\<lambda>v. v_obj v = i) (t_versions s)"
  have m: "mset ?L = mset ?V" by (simp add: versions_desc_def)
  have inL: "w \<in> set ?L \<Longrightarrow> w \<in> set (t_versions s) \<and> v_obj w = i" for w by (simp add: versions_desc_def)
  obtain n where n: "n < length ?L" "k = Suc n" "v = ?L ! n" using assms(2) by (auto simp: set_zip simp del: upt_Suc)
  have "sorted (rev (map v_no ?L))" by (simp add: versions_desc_def rev_map)
  moreover have "distinct (map v_no ?L)"
  proof -
    have "distinct (map (\<lambda>v. (v_obj v, v_no v)) ?V)" using assms(1) by (simp add: ver_ok_def distinct_map_filter)
    then have "distinct (map v_no ?V)" by (auto simp: distinct_map inj_on_def)
    then show ?thesis using m by (metis mset_map mset_eq_imp_distinct_iff)
  qed
  ultimately have "filter (\<lambda>w. v_no v \<le> v_no w) ?L = take (Suc n) ?L" unfolding n(3) by (rule filter_descending [OF _ _ n(1)])
  then have "length (filter (\<lambda>w. v_no v \<le> v_no w) ?V) = Suc n"
    using n(1) m by (metis length_take min.absorb2 mset_filter size_mset Suc_leI)
  moreover have v: "v \<in> set (t_versions s)" "v_obj v = i" using inL n(1,3) by auto
  ultimately have "vrank s v = Suc n" by (simp add: vrank_def conj_commute)
  then show ?thesis using n(2) v by simp
qed

text \<open>The versions a pruning leaves are those among the newest ones that are not too old.\<close>

lemma prune_keeps:
  assumes "store_inv az d T s" "ver_ok s" "map_of (t_objs s) i = Some o'"
  shows "\<exists>s'. pruneTx now i s = (Inr (), s') \<and> step_ok az d T s s' \<and>
    t_versions s' = filter (\<lambda>v. v_obj v = i \<longrightarrow> \<not> doomed now (o_keep o') (o_maxage o') (vrank s v, v)) (t_versions s)"
proof -
  let ?Z = "set (zip [1..<Suc (length (versions_desc s i))] (versions_desc s i))"
  let ?D = "if o_keep o' \<le> 0 \<and> o_maxage o' \<le> 0 then {} else snd ` {rv \<in> ?Z. doomed now (o_keep o') (o_maxage o') rv}"
  obtain s' P where s': "pruneTx now i s = (Inr (), s')" "step_ok az d T s s'" "t_versions s' = filter P (t_versions s)"
    "\<And>v. P v = (v_obj v = i \<longrightarrow> v_no v \<notin> v_no ` ?D)"
    using prune_step [OF assms(1,2), of now i] assms(3) by auto
  have "P v = (v_obj v = i \<longrightarrow> \<not> doomed now (o_keep o') (o_maxage o') (vrank s v, v))" if v: "v \<in> set (t_versions s)" for v
  proof (cases "v_obj v = i")
    case True
    have "v \<in> set (versions_desc s i)" using v True by (simp add: versions_desc_def)
    then obtain k where k: "(k, v) \<in> ?Z" by (metis in_set_conv_nth in_set_impl_in_set_zip2 length_upt diff_Suc_1)
    have "v_no v \<in> v_no ` ?D \<longleftrightarrow> doomed now (o_keep o') (o_maxage o') (vrank s v, v)"
    proof
      assume "v_no v \<in> v_no ` ?D"
      then obtain j w where w: "(j, w) \<in> ?Z" "doomed now (o_keep o') (o_maxage o') (j, w)" "v_no w = v_no v" by (auto split: if_splits)
      have "w = v" using desc_rank [OF assms(2) w(1)] w(3) True v assms(2) unfolding ver_ok_def distinct_map inj_on_def by auto
      then show "doomed now (o_keep o') (o_maxage o') (vrank s v, v)" using w(2) desc_rank [OF assms(2) w(1)] by simp
    next
      assume a: "doomed now (o_keep o') (o_maxage o') (vrank s v, v)"
      then have nz: "\<not> (o_keep o' \<le> 0 \<and> o_maxage o' \<le> 0)" by (auto simp: doomed_def)
      have "(k, v) \<in> {rv \<in> ?Z. doomed now (o_keep o') (o_maxage o') rv}" using a k desc_rank [OF assms(2) k] by blast
      then have "v \<in> ?D" unfolding if_not_P [OF nz] by (rule image_eqI [rotated]) simp
      then show "v_no v \<in> v_no ` ?D" by (rule imageI)
    qed
    then show ?thesis using True s'(4) by simp
  qed (simp add: s'(4))
  then show ?thesis using s'(1,2,3) by (intro exI [of _ s']) (auto intro!: filter_cong)
qed

section \<open>Every step keeps the invariant and the versions\<close>

lemma tx_or: "withTx st m s = (r, s') \<Longrightarrow> s' = s \<or> (\<exists>x. m s = (Inr x, s'))"
  using withTx_cases by fastforce

lemma bind_tx_or: "bbind (withTx st m) (\<lambda>x. bret (f x)) s = (r, s') \<Longrightarrow> s' = s \<or> (\<exists>x. m s = (Inr x, s'))"
  using tx_or [of st m s] by (fastforce simp: bbind_def bret_def split: prod.splits sum.splits)

lemma getObj_bind: "bbind (getObj i) f s = (Inr x, s') \<Longrightarrow> \<exists>o'. map_of (t_objs s) i = Some o'"
  by (auto simp: bbind_def getObj_def bfail_def split: option.splits)

lemma write_step:
  assumes "store_inv az (bs_dedup st) T s" "ver_ok s" "az_ok az" "inj_on sha256 T" "i \<notin> snaps s"
    "may_store az st T s i (put_bytes (nat off) p (obyte az s i))" "writeAt_obj az st i p off s = (r, s')"
  shows "step_ok az (bs_dedup st) T s s'"
proof (cases "s' = s \<or> writeArgs p off \<noteq> Inr (Some (nat off + length p))")
  case True
  have "writeArgs p off = Inr (Some e) \<Longrightarrow> e = nat off + length p" for e by (auto simp: writeArgs_def split: if_splits)
  then have "s' = s"
    using True assms(7) by (cases "writeArgs p off") (auto simp: writeAt_obj_def bfail_def bret_def split: option.splits)
  then show ?thesis using step_same [OF assms(1,2)] by simp
next
  case False
  then obtain x where x: "writeOnConn az st i p (nat off) (nat off + length p) s = (Inr x, s')"
    using bind_tx_or [of st _ "\<lambda>_. length p" s r s'] assms(7) by (fastforce simp: writeAt_obj_def)
  obtain o' where o': "map_of (t_objs s) i = Some o'"
    using getObj_bind x unfolding writeOnConn_def objWriteMeta_def bbind_assoc by fast
  obtain s1 where s1: "writeOnConn az st i p (nat off) (nat off + length p) s = (Inr (), s1)" "store_inv az (bs_dedup st) T s1"
    "map_of (t_objs s1) = (map_of (t_objs s))(i \<mapsto> o'\<lparr>o_size := max (o_size o') (nat off + length p)\<rparr>)" "t_versions s1 = t_versions s"
    "obyte az s1 = (obyte az s)(i := put_bytes (nat off) p (obyte az s i))"
    using writeOnConn_ok [OF assms(1) o' assms(3,4), of "nat off" p] assms(6) o' unfolding may_store_def by blast
  have "step_ok az (bs_dedup st) T s s1" by (rule step_touch [OF assms(2) s1(2) assms(5) s1(4,3)]) (simp add: s1(5))
  then show ?thesis using x s1(1) by simp
qed

lemma truncate_step:
  assumes "store_inv az (bs_dedup st) T s" "ver_ok s" "az_ok az" "inj_on sha256 T" "i \<notin> snaps s" "n < 2 ^ 63"
    "may_store az st T s i (cut_bytes (nat n) (obyte az s i))" "Truncate_obj az st i n s = (r, s')"
  shows "step_ok az (bs_dedup st) T s s'"
proof (cases "s' = s \<or> n < 0")
  case True
  then have "s' = s" using assms(8) by (auto simp: Truncate_obj_def bfail_def)
  then show ?thesis using step_same [OF assms(1,2)] by simp
next
  case False
  then obtain x where x: "truncateOnConn az st i (nat n) s = (Inr x, s')"
    using bind_tx_or [of st _ "\<lambda>_. ()" s r s'] assms(8) by (fastforce simp: Truncate_obj_def)
  obtain o' where o': "map_of (t_objs s) i = Some o'" using getObj_bind x unfolding truncateOnConn_def by fast
  have "\<exists>s1 f. truncateOnConn az st i (nat n) s = (Inr (o_size o'), s1) \<and> store_inv az (bs_dedup st) T s1 \<and>
    map_of (t_objs s1) = (map_of (t_objs s))(i \<mapsto> o'\<lparr>o_size := nat n\<rparr>) \<and> t_versions s1 = t_versions s \<and> obyte az s1 = (obyte az s)(i := f)"
  proof (cases "nat n < o_size o' \<longrightarrow> nat n + o_chunk o' \<le> 2 ^ 63")
    case True
    then show ?thesis using truncateOnConn_ok [OF assms(1) o' assms(3,4), of "nat n"] assms(7) o' unfolding may_store_def by blast
  next
    case wrap: False
    have "nat n < 2 ^ 63" using assms(6) by simp
    then show ?thesis using truncate_wraps [OF assms(1) o', of "nat n"] wrap by fastforce
  qed
  then obtain s1 f where s1: "truncateOnConn az st i (nat n) s = (Inr (o_size o'), s1)" "store_inv az (bs_dedup st) T s1"
    "map_of (t_objs s1) = (map_of (t_objs s))(i \<mapsto> o'\<lparr>o_size := nat n\<rparr>)" "t_versions s1 = t_versions s" "obyte az s1 = (obyte az s)(i := f)" by blast
  have "step_ok az (bs_dedup st) T s s1" by (rule step_touch [OF assms(2) s1(2) assms(5) s1(4,3)]) (simp add: s1(5))
  then show ?thesis using x s1(1) by simp
qed

lemma delete_step:
  assumes "store_inv az d T s" "ver_ok s" "i \<notin> snaps s" "Delete st i s = (r, s')"
  shows "step_ok az d T s s'"
proof (cases "s' = s")
  case True
  then show ?thesis using step_same [OF assms(1,2)] by simp
next
  case False
  then obtain x where x: "deleteOnConn i s = (Inr x, s')" using tx_or assms(4) unfolding Delete_def by blast
  have ex: "map_of (t_objs s) i \<noteq> None"
  proof
    assume "map_of (t_objs s) i = None"
    then show False using x by (simp add: deleteOnConn_def deleteObjectTx_def bbind_def bret_def bfail_def)
  qed
  let ?J = "insert i (v_snap ` {v \<in> set (t_versions s). v_obj v = i})"
  obtain s1 where s1: "deleteOnConn i s = (Inr (), s1)" "store_inv az d T s1" "gone az ?J (filter (\<lambda>v. v_obj v \<noteq> i) (t_versions s)) s s1"
    using deleteOnConn_ok [OF assms(1) ex] by blast
  have "step_ok az d T s s1"
  proof (rule step_gone [OF assms(2) s1(2,3)])
    fix v assume v: "v \<in> set (t_versions s)" "v_obj v \<noteq> i"
    have "v_snap v \<noteq> v_snap w" if "w \<in> set (t_versions s)" "v_obj w = i" for w
      using assms(2) v that unfolding ver_ok_def distinct_map inj_on_def by auto
    moreover have "v_snap v \<noteq> i" "v_obj v \<notin> snaps s" using assms(2,3) v(1) by (auto simp: snaps_def ver_ok_def)
    ultimately show "v_snap v \<notin> ?J \<and> v_obj v \<notin> ?J" using v(2) by (auto simp: snaps_def)
  qed
  then show ?thesis using x s1(1) by simp
qed

lemma foldr_max_ge: "x \<in> set xs \<Longrightarrow> x \<le> foldr max xs (0 :: nat)"
  by (induction xs) (auto simp: le_max_iff_disj)

definition version_row :: "bdb \<Rightarrow> nat \<Rightarrow> int \<Rightarrow> nat \<Rightarrow> bytes option \<Rightarrow> verrow" where
  "version_row s i now x label = \<lparr>v_obj = i, v_no = Suc (foldr max (map v_no (filter (\<lambda>v. v_obj v = i) (t_versions s))) 0),
     v_created = now, v_snap = x, v_label = label\<rparr>"

lemma version_no_new: "w \<in> set (t_versions s) \<Longrightarrow> v_obj w = i \<Longrightarrow> v_no w < v_no (version_row s i now x label)"
  using foldr_max_ge [of "v_no w" "map v_no (filter (\<lambda>v. v_obj v = i) (t_versions s))"] by (simp add: version_row_def less_Suc_eq_le)

lemma version_added:
  fixes label :: "bytes option"
  assumes "store_inv az d T s" "ver_ok s" "i \<notin> snaps s" "cloneObjectTx now i s = (Inr (Some x), sc)"
  defines "s2 \<equiv> sc\<lparr>t_versions := t_versions s @ [version_row s i now x label]\<rparr>"
  shows "store_inv az d T s2" "ver_ok s2" "versions_kept az s s2" "obyte az s2 x = obyte az s i" "map_of (t_objs s2) i \<noteq> None"
proof -
  note c = clone_step [OF assms(1,2,4)]
  have ok: "ver_ok sc" "store_inv az d T sc" "versions_kept az s sc" and x: "x = rowid_new (t_objs s)" "map_of (t_objs sc) x \<noteq> None"
      "map_of (t_objs sc) i \<noteq> None" "i \<noteq> x" "obyte az sc x = obyte az s i" "\<And>j. map_of (t_objs s) j \<noteq> None \<Longrightarrow> j \<noteq> x"
    using c by (auto simp: step_ok_def)
  have vs: "t_versions sc = t_versions s" using c by blast
  show "store_inv az d T s2" "obyte az s2 x = obyte az s i" "map_of (t_objs s2) i \<noteq> None" using ok(2) x(3,5) by (simp_all add: s2_def set_versions)
  let ?r = "version_row s i now x label"
  have r: "v_obj ?r = i" "v_snap ?r = x" by (simp_all add: version_row_def)
  have "(v_obj ?r, v_no ?r) \<notin> (\<lambda>v. (v_obj v, v_no v)) ` set (t_versions s)"
  proof
    assume "(v_obj ?r, v_no ?r) \<in> (\<lambda>v. (v_obj v, v_no v)) ` set (t_versions s)"
    then obtain v where v: "v \<in> set (t_versions s)" "v_obj ?r = v_obj v" "v_no ?r = v_no v" by (elim imageE) simp
    then show False using version_no_new [OF v(1), of i now x label] r(1) by simp
  qed
  moreover have "distinct (map (\<lambda>v. (v_obj v, v_no v)) (t_versions s))" using assms(2) by (simp add: ver_ok_def)
  ultimately have "distinct (map (\<lambda>v. (v_obj v, v_no v)) (t_versions s @ [?r]))" unfolding map_append distinct_append by simp
  moreover have "x \<notin> snaps s" using fresh_no_snap [OF assms(2)] x(1) by simp
  then have "distinct (map v_snap (t_versions s @ [?r]))" using assms(2) r by (simp add: ver_ok_def snaps_def)
  moreover have "snaps s2 = insert x (snaps s)" using r by (auto simp: s2_def snaps_def)
  moreover have "map_of (t_objs sc) (v_snap v) \<noteq> None \<and> map_of (t_objs sc) (v_obj v) \<noteq> None \<and> v_obj v \<notin> insert x (snaps s)"
    if "v \<in> set (t_versions s)" for v
  proof -
    have "map_of (t_objs s) (v_obj v) \<noteq> None" "v_obj v \<notin> snaps s" using assms(2) that by (simp_all add: ver_ok_def)
    then show ?thesis using x(6) ok(1) that vs by (auto simp: ver_ok_def)
  qed
  ultimately show "ver_ok s2" using r x(2,3,4) assms(3) unfolding ver_ok_def by (auto simp: s2_def)
  have "\<not> ?r \<in> set (t_versions s)" using \<open>x \<notin> snaps s\<close> r(2) imageI [of ?r "set (t_versions s)" v_snap] by (auto simp: snaps_def)
  then show "versions_kept az s s2" using ok(3) vs by (simp add: versions_kept_def s2_def set_versions)
qed

lemma clone_total:
  assumes "store_inv az d T s"
  shows "\<exists>r s'. cloneObjectTx now i s = (Inr r, s')"
proof (cases "map_of (t_objs s) i")
  case None
  then show ?thesis by (simp add: cloneObjectTx_def bret_def)
next
  case (Some o')
  then show ?thesis using clone_ok [OF assms Some, of now] by blast
qed

lemma NewVersion_tx:
  assumes "cloneObjectTx now i s = (Inr (Some x), sc)" "t_versions sc = t_versions s"
  shows "NewVersion st now i label s = withTx st (\<lambda>_. bbind (pruneTx now i) (\<lambda>_. bret (v_no (version_row s i now x label)))
      (sc\<lparr>t_versions := t_versions s @ [version_row s i now x label]\<rparr>)) s"
  unfolding NewVersion_def withTx_def bbind_def assms(1) version_row_def Let_def by (simp add: assms(2) split: prod.splits sum.splits)

lemma version_step:
  assumes "store_inv az d T s" "ver_ok s" "i \<notin> snaps s" "NewVersion st now i label s = (r, s')"
  shows "step_ok az d T s s'"
proof (cases "s' = s")
  case True
  then show ?thesis using step_same [OF assms(1,2)] by simp
next
  case False
  obtain sc o' where sc: "cloneObjectTx now i s = (Inr o', sc)" using clone_total [OF assms(1)] by blast
  have "o' \<noteq> None"
  proof
    assume "o' = None"
    then show False using False assms(4) by (simp add: NewVersion_def withTx_def bbind_run [of "cloneObjectTx now i" s, OF sc] bfail_def split: if_splits)
  qed
  then obtain x where x: "cloneObjectTx now i s = (Inr (Some x), sc)" using sc by blast
  note v = version_added [where label = label, OF assms(1-3) x]
  have vs: "t_versions sc = t_versions s" using clone_step [OF assms(1,2) x] by blast
  let ?s2 = "sc\<lparr>t_versions := t_versions s @ [version_row s i now x label]\<rparr>"
  have "\<exists>y. pruneTx now i ?s2 = (Inr y, s')"
    using tx_or [OF assms(4) [unfolded NewVersion_tx [OF x vs]]] False
    by (auto simp: bbind_def bret_def split: prod.splits sum.splits)
  have p: "step_ok az d T ?s2 s'" "set (t_versions s') \<subseteq> set (t_versions ?s2)" 
  proof -
    obtain s3 P where "pruneTx now i ?s2 = (Inr (), s3)" "step_ok az d T ?s2 s3" "t_versions s3 = filter P (t_versions ?s2)"
      using prune_step [OF v(1,2), of now i] by blast
    then show "step_ok az d T ?s2 s'" "set (t_versions s') \<subseteq> set (t_versions ?s2)"
      using \<open>\<exists>y. pruneTx now i ?s2 = (Inr y, s')\<close> filter_is_subset by auto
  qed
  have "versions_kept az s s'" by (rule versions_kept_trans [OF v(3)]) (use p in \<open>auto simp: step_ok_def\<close>)
  then show ?thesis using p(1) by (simp add: step_ok_def)
qed

lemma bstep_ok:
  assumes "bstep az st T s s'" "store_inv az (bs_dedup st) T s" "ver_ok s" "az_ok az" "inj_on sha256 T"
    "0 < bs_chunkSize st" "bs_chunkSize st \<le> maxChunkSize"
  shows "step_ok az (bs_dedup st) T s s'"
  using assms(1)
proof cases
  case (b_create now cc r)
  obtain s1 o2 where s1: "createOn st now cc s = (Inr (rowid_new (t_objs s)), s1)" "store_inv az (bs_dedup st) T s1"
    "map_of (t_objs s1) = (map_of (t_objs s))(rowid_new (t_objs s) \<mapsto> o2)" "t_versions s1 = t_versions s" "obyte az s1 = obyte az s"
    using createOn_ok [OF assms(2,6,7)] by blast
  have "step_ok az (bs_dedup st) T s s1" by (rule step_touch [OF assms(3) s1(2) fresh_no_snap [OF assms(3)] s1(4,3)]) (simp add: s1(5))
  then show ?thesis using b_create s1(1) step_same [OF assms(2,3)] by (auto simp: Create_def bfail_def split: if_splits)
next
  case (b_write i off p r)
  then show ?thesis using write_step [OF assms(2-5)] by blast
next
  case (b_truncate i n r)
  then show ?thesis using truncate_step [OF assms(2-5)] by blast
next
  case (b_clone now i r)
  show ?thesis
  proof (cases "s' = s")
    case True
    then show ?thesis using step_same [OF assms(2,3)] by simp
  next
    case False
    obtain o' s1 where s1: "cloneObjectTx now i s = (Inr o', s1)" using clone_total [OF assms(2)] by blast
    then have "s' = s1" using b_clone False by (auto simp: Clone_def withTx_def bbind_def bret_def bfail_def split: if_splits option.splits)
    then show ?thesis using clone_step [OF assms(2,3) s1] by simp
  qed
next
  case (b_delete i r)
  then show ?thesis using delete_step [OF assms(2,3)] by blast
next
  case (b_compress i c r)
  show ?thesis
  proof (cases "s' = s")
    case True
    then show ?thesis using step_same [OF assms(2,3)] by simp
  next
    case False
    then obtain x where x: "setCompression_tx az st i c s = (Inr x, s')" using tx_or b_compress(3) unfolding SetCompression_def by blast
    obtain o' where o': "map_of (t_objs s) i = Some o'" using getObj_bind x unfolding setCompression_tx_def by fast
    obtain s1 o2 where s1: "setCompression_tx az st i c s = (Inr (), s1)" "store_inv az (bs_dedup st) T s1"
      "map_of (t_objs s1) = (map_of (t_objs s))(i \<mapsto> o2)" "t_versions s1 = t_versions s" "obyte az s1 = obyte az s"
      using setCompression_ok [OF assms(2) o' assms(4,5), of c] b_compress(2) o' unfolding may_convert_def by blast
    have "step_ok az (bs_dedup st) T s s1" by (rule step_touch [OF assms(3) s1(2) b_compress(1) s1(4,3)]) (simp add: s1(5))
    then show ?thesis using x s1(1) by simp
  qed
next
  case (b_version i now label r)
  then show ?thesis using version_step [OF assms(2,3)] by blast
next
  case (b_prune i now r)
  obtain s1 where "pruneTx now i s = (Inr (), s1)" "step_ok az (bs_dedup st) T s s1" using prune_step [OF assms(2,3)] by blast
  then show ?thesis using b_prune(2) step_same [OF assms(2,3)] by (auto simp: Prune_def withTx_def split: if_splits)
next
  case (b_retention i keep maxAge r)
  let ?f = "\<lambda>r. r\<lparr>o_keep := keep, o_maxage := maxAge\<rparr> :: objrow"
  let ?s1 = "s\<lparr>t_objs := upd_row i ?f (t_objs s)\<rparr>"
  show ?thesis
  proof (cases "s' = s")
    case True
    then show ?thesis using step_same [OF assms(2,3)] by simp
  next
    case False
    have g: "good az (bs_dedup st) T s" and t: "tail_ok az s" using assms(2) by (simp_all add: store_inv_def)
    obtain x where x: "bbind (getObj i) (\<lambda>_. updObj i ?f) s = (Inr x, s')" using tx_or b_retention(2) False unfolding SetRetention_def by blast
    obtain o' where o': "map_of (t_objs s) i = Some o'" using getObj_bind [OF x] by blast
    have e: "s' = ?s1" using x o' by (simp add: bbind_def getObj_def updObj_def bret_def)
    have o: "map_of (t_objs ?s1) = (map_of (t_objs s))(i \<mapsto> ?f o')" using o' by (intro ext) simp
    have b: "obyte az ?s1 = obyte az s" by (rule updObj_meta(2) [OF g]) simp_all
    have "tail_ok az ?s1" using t o' unfolding tail_ok_def o b by (auto split: if_splits)
    then have "store_inv az (bs_dedup st) T ?s1" using updObj_meta(1) [OF g, of ?f i] by (simp add: store_inv_def)
    then show ?thesis unfolding e by (rule step_touch [OF assms(3) _ b_retention(1) _ o]) (simp_all add: b)
  qed
qed

lemma empty_inv: "store_inv az d T dd_empty" "ver_ok dd_empty"
  by (simp_all add: store_inv_def good_def core_def tail_ok_def mode_ok_def dd_empty_def blocks_inv_def hash_inv_def refs_ok_def chunk_count_def
      ver_ok_def)

lemma reach_ok:
  assumes "(bstep az st T)\<^sup>*\<^sup>* dd_empty s" "az_ok az" "inj_on sha256 T" "0 < bs_chunkSize st" "bs_chunkSize st \<le> maxChunkSize"
  shows "store_inv az (bs_dedup st) T s \<and> ver_ok s"
  using assms(1)
proof (induction rule: rtranclp_induct)
  case base
  show ?case using empty_inv by blast
next
  case (step s1 s2)
  then show ?case using bstep_ok [OF step.hyps(2) _ _ assms(2-5)] by (simp add: step_ok_def)
qed


text \<open>An object, its first version, and a write to the object.\<close>

definition run_row :: objrow where
  "run_row = \<lparr>o_size = 0, o_chunk = 4, o_codec = codecAZ, o_level = 1, o_keep = 0, o_maxage = 0, o_created = 0\<rparr>"

definition run_db :: bdb where
  "run_db = \<lparr>t_objs = [(1, run_row), (2, run_row)], t_blocks = [], t_chunks = [],
     t_versions = [\<lparr>v_obj = 1, v_no = 1, v_created = 0, v_snap = 2, v_label = None\<rparr>]\<rparr>"

lemma run_reached: "(bstep toy_az toy_st {})\<^sup>*\<^sup>* dd_empty run_db"
proof -
  let ?s1 = "\<lparr>t_objs = [(1, run_row)], t_blocks = [], t_chunks = [], t_versions = []\<rparr> :: bdb"
  have "Create toy_st 0 dd_cc dd_empty = (Inr 1, ?s1)"
    by (simp add: Create_def createOn_def toy_st_def dd_cc_def dd_empty_def rowid_new_def run_row_def azLevel_def bret_def Let_def)
  then have 1: "bstep toy_az toy_st {} dd_empty ?s1" by (rule b_create)
  have c: "cloneObjectTx 0 1 ?s1 = (Inr (Some 2), ?s1\<lparr>t_objs := [(1, run_row), (2, run_row)]\<rparr>)"
    by (simp add: cloneObjectTx_def rowid_new_def bret_def run_row_def)
  have "NewVersion toy_st 0 1 None ?s1 = (Inr 1, run_db)"
    by (subst NewVersion_tx [OF c]) (simp_all add: withTx_def toy_st_def version_row_def pruneTx_def run_row_def bbind_def bret_def run_db_def)
  then have 2: "bstep toy_az toy_st {} ?s1 run_db" by (rule b_version [rotated]) (simp add: snaps_def)
  show ?thesis using 1 2 by simp
qed


section \<open>What a new version holds and what pruning leaves\<close>

text \<open>Pruning an object leaves exactly the versions its retention policy keeps: with a count, those among the newest that many; with
  an age, those no older. The versions of other objects stay, every version that stays keeps its bytes, and the store stays consistent.\<close>

theorem blob_prune_exact:
  assumes "store_inv az d T s" "ver_ok s" "map_of (t_objs s) i = Some o'" "\<not> bs_readOnly st"
  shows "\<exists>s'. Prune st now i s = (Inr (), s') \<and> store_inv az d T s' \<and> ver_ok s' \<and>
    t_versions s' = filter (\<lambda>v. v_obj v = i \<longrightarrow> (0 < o_keep o' \<longrightarrow> int (vrank s v) \<le> o_keep o') \<and>
      (0 < o_maxage o' \<longrightarrow> now - o_maxage o' \<le> v_created v)) (t_versions s) \<and>
    (\<forall>v\<in>set (t_versions s'). obyte az s' (v_snap v) = obyte az s (v_snap v))"
proof -
  obtain s' where s': "pruneTx now i s = (Inr (), s')" "step_ok az d T s s'"
    "t_versions s' = filter (\<lambda>v. v_obj v = i \<longrightarrow> \<not> doomed now (o_keep o') (o_maxage o') (vrank s v, v)) (t_versions s)"
    using prune_keeps [OF assms(1-3)] by blast
  have "\<forall>v\<in>set (t_versions s'). obyte az s' (v_snap v) = obyte az s (v_snap v)"
    using s'(2,3) by (auto simp: step_ok_def versions_kept_def)
  moreover have "(\<not> doomed now k a (n, v)) = ((0 < k \<longrightarrow> int n \<le> k) \<and> (0 < a \<longrightarrow> now - a \<le> v_created v))" for k a n v
    by (auto simp: doomed_def)
  ultimately show ?thesis using s' assms(4) by (intro exI [of _ s']) (simp add: Prune_def withTx_def step_ok_def)
qed

theorem blob_prune_exact_witness:
  "\<exists>s'. Prune toy_st 9 1 run_db = (Inr (), s') \<and> t_versions s' = t_versions run_db"
proof -
  have "store_inv toy_az (bs_dedup toy_st) {} run_db" "ver_ok run_db"
    using reach_ok [OF run_reached toy_az_ok] by (simp_all add: toy_st_def maxChunkSize_def)
  from blob_prune_exact [OF this, of 1 run_row toy_st 9] show ?thesis by (auto simp: run_db_def run_row_def toy_st_def)
qed

lemma new_rank: "vrank (sc\<lparr>t_versions := t_versions s @ [version_row s i now x label]\<rparr>) (version_row s i now x label) = 1"
proof -
  let ?r = "version_row s i now x label"
  have "v_obj ?r = i" by (simp add: version_row_def)
  then have "filter (\<lambda>w. v_obj w = v_obj ?r \<and> v_no ?r \<le> v_no w) (t_versions s) = []"
    unfolding filter_empty_conv using version_no_new [of _ s i now x label] by (simp add: not_le)
  then show ?thesis by (simp add: vrank_def)
qed



end
