(* ===== verification/Sqlid.thy ===== *)
theory Sqlid
  imports Go_Strings
begin

text \<open>
  \<^verbatim>\<open>internal/sqlid/sqlid.go\<close>: quoting and unquoting of SQL identifiers and strings, the argument parser and
  the value coercions shared by the extensions. Strings are byte lists; a \<^verbatim>\<open>float64\<close> is its bit pattern, and
  \<^verbatim>\<open>strconv.FormatFloat\<close>, \<^verbatim>\<open>fmt.Sprint\<close> and the float conversion are arguments of the coercions that use them.
\<close>

definition QuoteIdent :: "bytes \<Rightarrow> bytes" where
  "QuoteIdent s = [34] @ replaceAll [34] [34, 34] s @ [34]"

definition QuoteString :: "bytes \<Rightarrow> bytes" where
  "QuoteString s = [39] @ replaceAll [39] [39, 39] s @ [39]"

definition QuoteIdentBacktick :: "bytes \<Rightarrow> bytes" where
  "QuoteIdentBacktick s = [96] @ replaceAll [96] [96, 96] s @ [96]"

text \<open>\<^verbatim>\<open>ValidIdent\<close> ranges over runes; every rune outside ASCII fails the test, so do all of its bytes, and the
  first byte of a string is the one at offset 0.\<close>

definition ident_char :: "nat \<Rightarrow> byte \<Rightarrow> bool" where
  "ident_char i r \<longleftrightarrow> r = 95 \<or> 97 \<le> r \<and> r \<le> 122 \<or> 65 \<le> r \<and> r \<le> 90 \<or> 0 < i \<and> 48 \<le> r \<and> r \<le> 57"

definition ValidIdent :: "bytes \<Rightarrow> bool" where
  "ValidIdent s \<longleftrightarrow> s \<noteq> [] \<and> (\<forall>i\<in>set [0..<length s]. ident_char i (s ! i))"

datatype driverValue = VNil | VString bytes | VBytes bytes | VInt64 int | VFloat64 nat | VBool bool | VOther nat

definition ToNamedValues :: "driverValue list \<Rightarrow> (nat \<times> driverValue) list" where
  "ToNamedValues args = map (\<lambda>i. (i + 1, args ! i)) [0..<length args]"

definition NamedArg :: "bytes \<Rightarrow> bytes \<times> bytes" where
  "NamedArg arg = (case Cut 61 arg of (k, v, ok) \<Rightarrow> if \<not> ok then ([], TrimSpace k) else (TrimSpace k, TrimSpace v))"

definition Unquote :: "bytes \<Rightarrow> bytes" where
  "Unquote val =
     (if length val < 2 then val
      else let first = hd val; lst = last val; inner = butlast (tl val)
        in if first = 91 \<and> lst = 93 then inner
           else if first \<noteq> lst then val
           else if first = 96 then replaceAll [96, 96] [96] inner
           else if first = 34 then replaceAll [34, 34] [34] inner
           else if first = 39 then replaceAll [39, 39] [39] inner
           else val)"

text \<open>\<^verbatim>\<open>strconv.FormatInt\<close> in base 10.\<close>

function format_nat :: "nat \<Rightarrow> bytes" where
  "format_nat n = (if n < 10 then [of_nat (48 + n)] else format_nat (n div 10) @ [of_nat (48 + n mod 10)])"
  by pat_completeness auto

termination format_nat
  by (relation "measure id") auto

declare format_nat.simps [simp del]

definition FormatInt :: "int \<Rightarrow> bytes" where
  "FormatInt x = (if x < 0 then 45 # format_nat (nat (- x)) else format_nat (nat x))"

definition AsString :: "(nat \<Rightarrow> bytes) \<Rightarrow> (nat \<Rightarrow> bytes) \<Rightarrow> driverValue \<Rightarrow> bytes" where
  "AsString formatFloat sprint v =
     (case v of VNil \<Rightarrow> [] | VString x \<Rightarrow> x | VBytes x \<Rightarrow> x | VInt64 x \<Rightarrow> FormatInt x | VFloat64 x \<Rightarrow> formatFloat x
      | VBool x \<Rightarrow> if x then ascii ''true'' else ascii ''false'' | VOther x \<Rightarrow> sprint x)"

definition AsInt64 :: "(nat \<Rightarrow> int) \<Rightarrow> driverValue \<Rightarrow> int" where
  "AsInt64 truncFloat v =
     (case v of VInt64 x \<Rightarrow> x | VFloat64 x \<Rightarrow> truncFloat x | VBytes x \<Rightarrow> ParseInt64 x | VString x \<Rightarrow> ParseInt64 x | _ \<Rightarrow> 0)"

definition AsFloat :: "(int \<Rightarrow> nat) \<Rightarrow> driverValue \<Rightarrow> nat" where
  "AsFloat ofInt v = (case v of VFloat64 x \<Rightarrow> x | VInt64 x \<Rightarrow> ofInt x | _ \<Rightarrow> 0)"

section \<open>Doubling a quote\<close>

text \<open>The SQL rule for quoted tokens, as a scanner: a doubled quote stands for one, a single quote ends the
  token. It returns the text of the token and what follows it.\<close>

fun scan_quoted :: "byte \<Rightarrow> bytes \<Rightarrow> (bytes \<times> bytes) option" where
  "scan_quoted q [] = None"
| "scan_quoted q [c] = (if c = q then Some ([], []) else None)"
| "scan_quoted q (c # d # s) =
     (if c = q
      then if d = q then map_option (\<lambda>(t, r). (q # t, r)) (scan_quoted q s) else Some ([], d # s)
      else map_option (\<lambda>(t, r). (c # t, r)) (scan_quoted q (d # s)))"

definition double :: "byte \<Rightarrow> bytes \<Rightarrow> bytes" where
  "double q s = concat (map (\<lambda>c. if c = q then [q, q] else [c]) s)"

lemma replaceAll_double: "replaceAll [q] [q, q] s = double q s"
  by (induction s) (simp_all add: replaceAll.simps [of "[q]"] double_def)

lemma double_simps: "double q [] = []" "double q (c # s) = (if c = q then q # q # double q s else c # double q s)"
  by (simp_all add: double_def)

lemma undouble: "replaceAll [q, q] [q] (double q s) = s"
proof (induction s)
  case Nil then show ?case by (simp add: double_simps replaceAll.simps)
next
  case (Cons c s)
  then show ?case by (cases "c = q") (simp_all add: double_simps replaceAll.simps [of "[q, q]" "[q]" "_ # _"])
qed

lemma scan_double:
  assumes "rest = [] \<or> hd rest \<noteq> q"
  shows "scan_quoted q (double q s @ q # rest) = Some (s, rest)"
proof (induction s)
  case Nil then show ?case using assms by (cases rest) (simp_all add: double_simps)
next
  case (Cons c s)
  show ?case
  proof (cases "c = q")
    case True then show ?thesis using Cons by (simp add: double_simps)
  next
    case False
    obtain d t where d: "double q s @ q # rest = d # t" by (cases "double q s") auto
    then show ?thesis using False Cons by (simp add: double_simps)
  qed
qed

lemma Unquote_quoted:
  assumes "q = 34 \<or> q = 39 \<or> q = (96 :: byte)"
  shows "Unquote ([q] @ double q s @ [q]) = s"
  using assms undouble [of q s] by (auto simp: Unquote_def Let_def)

section \<open>Numbers\<close>

lemma digits_app:
  assumes "digits xs acc = Some n" "n < 2 ^ 64" "48 \<le> c" "c \<le> 57" "n * 10 + (unat c - 48) < 2 ^ 64"
  shows "digits (xs @ [c]) acc = Some (n * 10 + (unat c - 48))"
  using assms by (induction xs arbitrary: acc) (auto simp: Let_def split: if_splits)

lemma digit_byte: "k < 10 \<Longrightarrow> unat (of_nat (48 + k) :: byte) = 48 + k \<and> 48 \<le> (of_nat (48 + k) :: byte) \<and> (of_nat (48 + k) :: byte) \<le> 57"
  by (auto simp: word_le_nat_alt unat_of_nat simp del: of_nat_add)

lemma digits_format_nat: "n < 2 ^ 64 \<Longrightarrow> digits (format_nat n) 0 = Some n \<and> format_nat n \<noteq> [] \<and> hd (format_nat n) \<noteq> 43 \<and> hd (format_nat n) \<noteq> 45"
proof (induction n rule: format_nat.induct)
  case (1 n)
  show ?case
  proof (cases "n < 10")
    case True
    have ne: "(of_nat (48 + n) :: byte) \<noteq> w" if "unat w < 48" for w
      using digit_byte [OF True] that by (metis not_add_less1)
    have "(of_nat (48 + n) :: byte) \<noteq> 43" "(of_nat (48 + n) :: byte) \<noteq> 45" by (rule ne, simp)+
    then show ?thesis using digit_byte [OF True] True "1.prems" by (simp add: format_nat.simps [of n] Let_def del: of_nat_add)
  next
    case False
    have ih: "digits (format_nat (n div 10)) 0 = Some (n div 10)" "format_nat (n div 10) \<noteq> []"
        "hd (format_nat (n div 10)) \<noteq> 43" "hd (format_nat (n div 10)) \<noteq> 45"
      using "1.IH" False "1.prems" by auto
    have m: "n mod 10 < 10" by simp
    have "n div 10 * 10 + n mod 10 = n" by simp
    then have "digits (format_nat (n div 10) @ [of_nat (48 + n mod 10)]) 0 = Some n"
      using digits_app [OF ih(1), of "of_nat (48 + n mod 10)"] digit_byte [OF m] "1.prems" by (simp del: of_nat_add)
    then show ?thesis using ih False by (simp add: format_nat.simps [of n] del: of_nat_add)
  qed
qed

lemma ParseInt64_FormatInt:
  assumes "- (2 ^ 63) \<le> x" "x < 2 ^ 63"
  shows "ParseInt64 (FormatInt x) = x"
proof -
  have n: "nat \<bar>x\<bar> < 2 ^ 64" using assms by auto
  note d = digits_format_nat [OF n]
  obtain c t where c: "format_nat (nat \<bar>x\<bar>) = c # t" using d by (cases "format_nat (nat \<bar>x\<bar>)") auto
  show ?thesis
  proof (cases "x < 0")
    case True then show ?thesis using d assms by (simp add: FormatInt_def ParseInt64_def Let_def)
  next
    case False then show ?thesis using d c assms by (simp add: FormatInt_def ParseInt64_def Let_def)
  qed
qed

section \<open>Properties\<close>

text \<open>Quoting an identifier or a string is exact: whatever the text, SQL's rule for quoted tokens reads the
  quoted form back as that text and stops at its closing quote, so nothing of the text can leave the token,
  and \<^verbatim>\<open>Unquote\<close> gives the text back.\<close>

theorem quoting_exact:
  "(\<forall>rest. rest = [] \<or> hd rest \<noteq> 34 \<longrightarrow> scan_quoted 34 (tl (QuoteIdent s @ rest)) = Some (s, rest)) \<and>
   (\<forall>rest. rest = [] \<or> hd rest \<noteq> 39 \<longrightarrow> scan_quoted 39 (tl (QuoteString s @ rest)) = Some (s, rest)) \<and>
   (\<forall>rest. rest = [] \<or> hd rest \<noteq> 96 \<longrightarrow> scan_quoted 96 (tl (QuoteIdentBacktick s @ rest)) = Some (s, rest)) \<and>
   Unquote (QuoteIdent s) = s \<and> Unquote (QuoteString s) = s \<and> Unquote (QuoteIdentBacktick s) = s"
  using scan_double Unquote_quoted [of 34 s] Unquote_quoted [of 39 s] Unquote_quoted [of 96 s]
  by (simp add: QuoteIdent_def QuoteString_def QuoteIdentBacktick_def replaceAll_double)

theorem quoting_exact_witness:
  "scan_quoted 34 (tl (QuoteIdent [97, 34, 98] @ [32, 59])) = Some ([97, 34, 98], [32, 59])"
  using quoting_exact [of "[97, 34, 98]"] by simp

text \<open>An integer rendered by \<^verbatim>\<open>AsString\<close> is read back by \<^verbatim>\<open>AsInt64\<close>, for every 64-bit value.\<close>

theorem as_int_as_string:
  assumes "- (2 ^ 63) \<le> x" "x < 2 ^ 63"
  shows "AsInt64 g (VString (AsString f sp (VInt64 x))) = x \<and> AsInt64 g (VBytes (AsString f sp (VInt64 x))) = x"
  using ParseInt64_FormatInt [OF assms] by (simp add: AsInt64_def AsString_def)

theorem as_int_as_string_witness:
  "AsInt64 (\<lambda>_. 0) (VString (AsString (\<lambda>_. []) (\<lambda>_. []) (VInt64 (- 9223372036854775808)))) = - 9223372036854775808"
  using as_int_as_string [of "- 9223372036854775808" "\<lambda>_. 0" "\<lambda>_. []" "\<lambda>_. []"] by simp

end
