(* ===== verification/Closure.thy ===== *)
theory Closure
  imports Complex_Main Sqlid
begin

text \<open>
  \<^verbatim>\<open>ext/closure/closure.go\<close>: the \<^verbatim>\<open>transitive_closure\<close> virtual table. \<^verbatim>\<open>BestIndex\<close> packs the argument positions of the
  constraints it consumes into a plan number; \<^verbatim>\<open>Filter\<close> unpacks them and walks the graph breadth first.

  Node ids are \<^verbatim>\<open>int64\<close>, as 64-bit words, so a walk visits finitely many and the loop is a total function. The
  prepared child query is a parameter: for the SQL text and a parent id it yields the rows of the result and
  the error the cursor stops with, if it is not the end of the rows. Depths stay below \<open>math.MaxInt\<close>, because a
  node at the bound is not expanded, and are natural numbers.
\<close>

unbundle bit_operations_syntax

section \<open>Planning\<close>

datatype constraintOp = OpEQ | OpGT | OpLE | OpLT | OpGE | OpOther

record constraint =
  ct_Column :: nat
  ct_Op :: constraintOp
  ct_Usable :: bool
  ct_ArgIndex :: int
  ct_Omit :: bool

record ctable =
  tb_table :: bytes
  tb_idCol :: bytes
  tb_parentCol :: bytes

definition colID :: nat where "colID = 0"
definition colDepth :: nat where "colDepth = 1"
definition colRoot :: nat where "colRoot = 2"
definition colTablename :: nat where "colTablename = 3"
definition colIDColumn :: nat where "colIDColumn = 4"
definition colParentColumn :: nat where "colParentColumn = 5"

datatype cerror = CErr string | CQuery nat

text \<open>The constructor reads \<^verbatim>\<open>key=value\<close> arguments; a key may occur once. \<open>declared\<close> is the outcome of \<^verbatim>\<open>DeclareVTab\<close>.\<close>

fun ctor_args :: "bytes list \<Rightarrow> bytes set \<Rightarrow> ctable \<Rightarrow> cerror + ctable" where
  "ctor_args [] seen t = Inr t"
| "ctor_args (a # as) seen t = (case NamedArg a of (key, val) \<Rightarrow>
     if key = [] then Inl (CErr ''argument is not a key=value pair'')
     else if key \<in> seen then Inl (CErr ''duplicate parameter'')
     else let val = Unquote val; seen = insert key seen
       in if key = ascii ''tablename'' then ctor_args as seen (t\<lparr>tb_table := val\<rparr>)
          else if key = ascii ''idcolumn'' then ctor_args as seen (t\<lparr>tb_idCol := val\<rparr>)
          else if key = ascii ''parentcolumn'' then ctor_args as seen (t\<lparr>tb_parentCol := val\<rparr>)
          else Inl (CErr ''unknown parameter''))"

definition ctor :: "cerror option \<Rightarrow> bytes list \<Rightarrow> cerror + ctable" where
  "ctor declared args =
     (case ctor_args args {} \<lparr>tb_table = [], tb_idCol = [], tb_parentCol = []\<rparr> of
        Inl e \<Rightarrow> Inl e
      | Inr t \<Rightarrow> (case declared of Some e \<Rightarrow> Inl e | None \<Rightarrow> Inr t))"

text \<open>The plan so far, the next argument slot and the cost.\<close>

record planState =
  pl_plan :: nat
  pl_pos :: nat
  pl_cost :: rat

definition assign :: "bool \<Rightarrow> constraint \<Rightarrow> planState \<Rightarrow> constraint" where
  "assign omit cst s = (let c = cst\<lparr>ct_ArgIndex := int (pl_pos s)\<rparr> in if omit then c\<lparr>ct_Omit := True\<rparr> else c)"

definition plan_name :: "nat \<Rightarrow> nat \<Rightarrow> constraint \<Rightarrow> planState \<Rightarrow> constraint \<times> planState" where
  "plan_name msk sh cst s =
     (if ct_Op cst = OpEQ \<and> pl_plan s AND msk = 0
      then (assign True cst s, s\<lparr>pl_plan := pl_plan s OR push_bit sh (pl_pos s + 1), pl_pos := pl_pos s + 1\<rparr>)
      else (cst, s))"

definition plan_constraint :: "constraint \<Rightarrow> planState \<Rightarrow> constraint \<times> planState" where
  "plan_constraint cst s =
     (if \<not> ct_Usable cst then (cst, s)
      else if ct_Column cst = colRoot then
        (if ct_Op cst = OpEQ \<and> pl_plan s AND 1 = 0
         then (assign True cst s, s\<lparr>pl_plan := pl_plan s OR 1, pl_pos := pl_pos s + 1, pl_cost := pl_cost s / 100\<rparr>)
         else (cst, s))
      else if ct_Column cst = colDepth then
        (if pl_plan s AND 0xf0 = 0 \<and> ct_Op cst \<in> {OpEQ, OpLE, OpLT}
         then (assign False cst s,
               s\<lparr>pl_plan := (pl_plan s OR push_bit 4 (pl_pos s + 1)) OR (if ct_Op cst = OpLT then 2 else 0),
                 pl_pos := pl_pos s + 1, pl_cost := pl_cost s / 5\<rparr>)
         else (cst, s))
      else if ct_Column cst = colTablename then plan_name 0xf00 8 cst s
      else if ct_Column cst = colIDColumn then plan_name 0xf000 12 cst s
      else if ct_Column cst = colParentColumn then plan_name 0xf0000 16 cst s
      else (cst, s))"

fun plan_loop :: "constraint list \<Rightarrow> planState \<Rightarrow> constraint list \<times> planState" where
  "plan_loop [] s = ([], s)"
| "plan_loop (c # cs) s = (case plan_constraint c s of (c', s') \<Rightarrow> case plan_loop cs s' of (cs', s'') \<Rightarrow> (c' # cs', s''))"

definition plan_start :: planState where
  "plan_start = \<lparr>pl_plan = 0, pl_pos = 0, pl_cost = 10000000\<rparr>"

definition BestIndex :: "ctable \<Rightarrow> constraint list \<Rightarrow> cerror + (nat \<times> rat \<times> constraint list)" where
  "BestIndex t cs = (case plan_loop cs plan_start of (cs', s) \<Rightarrow>
     if pl_plan s AND 1 = 0 then Inl (CErr ''root = ? constraint required'')
     else if tb_table t = [] \<and> pl_plan s AND 0xf00 = 0 then Inl (CErr ''tablename must be set at create or query time'')
     else if tb_idCol t = [] \<and> pl_plan s AND 0xf000 = 0 then Inl (CErr ''idcolumn must be set at create or query time'')
     else if tb_parentCol t = [] \<and> pl_plan s AND 0xf0000 = 0 then Inl (CErr ''parentcolumn must be set at create or query time'')
     else Inr (pl_plan s, pl_cost s, cs'))"

section \<open>Walking the graph\<close>

type_synonym nodeId = "64 word"

record cnode =
  nd_id :: nodeId
  nd_depth :: nat

text \<open>One result of the child query: the rows, and the error that ended them, if any.\<close>

type_synonym rowset = "driverValue list \<times> cerror option"

text \<open>The inner loop over the rows of one node.\<close>

fun add_children :: "driverValue list \<Rightarrow> nat \<Rightarrow> cnode list \<Rightarrow> nodeId set \<Rightarrow> cnode list \<times> nodeId set" where
  "add_children [] d nodes visited = (nodes, visited)"
| "add_children (v # vs) d nodes visited =
     (case v of
        VInt64 x \<Rightarrow>
          let child = word_of_int x
          in if child \<notin> visited
             then add_children vs d (nodes @ [\<lparr>nd_id = child, nd_depth = d + 1\<rparr>]) (insert child visited)
             else add_children vs d nodes visited
      | _ \<Rightarrow> add_children vs d nodes visited)"

lemma add_children_count:
  "length (fst (add_children vs d nodes visited)) + card visited = length nodes + card (snd (add_children vs d nodes visited)) \<and>
   visited \<subseteq> snd (add_children vs d nodes visited)"
  by (induction vs d nodes visited rule: add_children.induct) (fastforce simp: Let_def split: driverValue.splits)+

text \<open>The walk over \<^verbatim>\<open>c.nodes\<close> by index; \<open>stop i\<close> is the interrupt flag polled before node \<open>i\<close> is expanded.\<close>

function walk :: "(nat \<Rightarrow> bool) \<Rightarrow> (nodeId \<Rightarrow> cerror + rowset) \<Rightarrow> int \<Rightarrow> nat \<Rightarrow> cnode list \<Rightarrow> nodeId set \<Rightarrow> cerror + cnode list" where
  "walk stop query maxDepth i nodes visited =
     (if length nodes \<le> i then Inr nodes
      else if stop i then Inl (CErr ''interrupted'')
      else let cr = nodes ! i
        in if maxDepth \<le> int (nd_depth cr) then walk stop query maxDepth (i + 1) nodes visited
           else case query (nd_id cr) of
             Inl e \<Rightarrow> Inl e
           | Inr (rows, err) \<Rightarrow>
               (case add_children rows (nd_depth cr) nodes visited of (nodes', visited') \<Rightarrow>
                 (case err of Some e \<Rightarrow> Inl e | None \<Rightarrow> walk stop query maxDepth (i + 1) nodes' visited')))"
  by pat_completeness auto

lemma card_nodes: "card (V :: nodeId set) \<le> 2 ^ 64"
  using card_mono [of UNIV V] card_word [where ?'a = 64] by simp

termination walk
proof (relation "measure (\<lambda>(stop, query, maxDepth, i, nodes, visited). (2 ^ 64 - card visited) + (length nodes - i))", goal_cases)
  case (3 stop query maxDepth i nodes visited cr r rows err nodes' visited')
  then have e: "add_children rows (nd_depth cr) nodes visited = (nodes', visited')" and i: "i < length nodes" by simp_all
  have "length nodes' + card visited = length nodes + card visited'" "visited \<subseteq> visited'"
    using add_children_count [of rows "nd_depth cr" nodes visited] unfolding e by simp_all
  then show ?case using i card_mono [of visited' visited] card_nodes [of visited'] unfolding in_measure prod.case by simp
qed auto

declare walk.simps [simp del]

definition nibble :: "nat \<Rightarrow> nat \<Rightarrow> nat" where
  "nibble sh idxNum = drop_bit sh idxNum AND 0xf"

definition stringArg :: "driverValue \<Rightarrow> bytes" where
  "stringArg v = (case v of VString x \<Rightarrow> x | VBytes x \<Rightarrow> x | _ \<Rightarrow> [])"

definition maxInt :: int where
  "maxInt = 2 ^ 63 - 1"

text \<open>\<^verbatim>\<open>maxDepth--\<close> wraps at the smallest integer.\<close>

definition depth_limit :: "(nat \<Rightarrow> int) \<Rightarrow> bool \<Rightarrow> driverValue \<Rightarrow> int" where
  "depth_limit truncFloat lt v = (let m = (case v of VInt64 x \<Rightarrow> x | VFloat64 f \<Rightarrow> truncFloat f | _ \<Rightarrow> maxInt)
     in if lt then (if m = - (2 ^ 63) then maxInt else m - 1) else m)"

definition depth_bound :: "(nat \<Rightarrow> int) \<Rightarrow> nat \<Rightarrow> driverValue list \<Rightarrow> int" where
  "depth_bound truncFloat idxNum args =
     (if idxNum AND 0xf0 = 0 then maxInt else depth_limit truncFloat (idxNum AND 2 \<noteq> 0) (args ! (nibble 4 idxNum - 1)))"

definition name_arg :: "nat \<Rightarrow> nat \<Rightarrow> bytes \<Rightarrow> nat \<Rightarrow> driverValue list \<Rightarrow> bytes" where
  "name_arg msk sh dflt idxNum args = (if idxNum AND msk \<noteq> 0 then stringArg (args ! (nibble sh idxNum - 1)) else dflt)"

definition walker_sql :: "bytes \<Rightarrow> bytes \<Rightarrow> bytes \<Rightarrow> bytes" where
  "walker_sql idCol tableName parentCol =
     ascii ''SELECT '' @ QuoteIdent idCol @ ascii '' FROM '' @ QuoteIdent tableName @ ascii '' WHERE '' @ QuoteIdent parentCol @ ascii '' = ?''"

definition Filter ::
  "(nat \<Rightarrow> int) \<Rightarrow> (bytes \<Rightarrow> cerror option) \<Rightarrow> (nat \<Rightarrow> bool) \<Rightarrow> (bytes \<Rightarrow> nodeId \<Rightarrow> cerror + rowset) \<Rightarrow> ctable \<Rightarrow> nat \<Rightarrow> driverValue list
    \<Rightarrow> cerror + cnode list" where
  "Filter truncFloat prepare stop query t idxNum args =
     (case args of
        [] \<Rightarrow> Inl (CErr ''missing root argument'')
      | VInt64 rootId # _ \<Rightarrow>
          let maxDepth = depth_bound truncFloat idxNum args;
              sql = walker_sql (name_arg 0xf000 12 (tb_idCol t) idxNum args) (name_arg 0xf00 8 (tb_table t) idxNum args)
                      (name_arg 0xf0000 16 (tb_parentCol t) idxNum args)
          in (case prepare sql of
                Some e \<Rightarrow> Inl e
              | None \<Rightarrow> walk stop (query sql) maxDepth 0 [\<lparr>nd_id = word_of_int rootId, nd_depth = 0\<rparr>] {word_of_int rootId})
      | _ \<Rightarrow> Inl (CErr ''root must be INTEGER''))"

section \<open>What the walk collects\<close>

definition kids :: "driverValue list \<Rightarrow> nodeId set" where
  "kids rows = {c. \<exists>x. VInt64 x \<in> set rows \<and> c = word_of_int x}"

definition edge :: "(nodeId \<Rightarrow> cerror + rowset) \<Rightarrow> nodeId \<Rightarrow> nodeId \<Rightarrow> bool" where
  "edge query u v \<longleftrightarrow> (\<exists>rows. query u = Inr (rows, None) \<and> v \<in> kids rows)"

text \<open>Every child query runs to the end of its rows.\<close>

definition answers :: "(nodeId \<Rightarrow> cerror + rowset) \<Rightarrow> bool" where
  "answers query \<longleftrightarrow> (\<forall>u. \<exists>rows. query u = Inr (rows, None))"

lemma kids_simps [simp]:
  "kids [] = {}" "kids (VInt64 x # vs) = insert (word_of_int x) (kids vs)"
  "(\<And>x. v \<noteq> VInt64 x) \<Longrightarrow> kids (v # vs) = kids vs"
  by (auto simp: kids_def)

lemma add_children_spec:
  "\<exists>new. add_children vs d nodes visited = (nodes @ new, visited \<union> kids vs) \<and> distinct (map nd_id new) \<and>
     nd_id ` set new = kids vs - visited \<and> (\<forall>x\<in>set new. nd_depth x = d + 1)"
proof (induction vs arbitrary: nodes visited)
  case (Cons v vs)
  consider x c where "v = VInt64 x" "word_of_int x = c" "c \<notin> visited"
    | "add_children (v # vs) d nodes visited = add_children vs d nodes visited" "visited \<union> kids (v # vs) = visited \<union> kids vs"
      "kids (v # vs) - visited = kids vs - visited"
  proof (cases v)
    case (VInt64 x)
    then show ?thesis using that(1) [OF VInt64 refl] that(2) by (cases "word_of_int x \<in> visited") (auto simp: insert_absorb)
  qed (rule that(2); simp)+
  then show ?case
  proof cases
    case (1 x c)
    let ?n = "\<lparr>nd_id = c, nd_depth = d + 1\<rparr>"
    obtain new where n: "add_children vs d (nodes @ [?n]) (insert c visited) = ((nodes @ [?n]) @ new, insert c visited \<union> kids vs)"
       "distinct (map nd_id new)" "nd_id ` set new = kids vs - insert c visited" "\<forall>x\<in>set new. nd_depth x = d + 1"
      using Cons by blast
    have "add_children (v # vs) d nodes visited = (nodes @ ?n # new, visited \<union> kids (v # vs))" using 1 n(1) by simp
    moreover have "nd_id ` set (?n # new) = kids (v # vs) - visited" using 1 n(3) by auto
    moreover have "distinct (map nd_id (?n # new))" using n(2,3) by auto
    ultimately show ?thesis using n(4) by (intro exI [of _ "?n # new"]) simp
  next
    case 2
    then show ?thesis using Cons by simp
  qed
qed simp

text \<open>The state of the walk: the nodes are reached by paths of their depth, depths do not decrease along the list and
  exceed the current one by at most one, and the children of every processed node below the bound are present.\<close>

definition walk_inv :: "(nodeId \<Rightarrow> cerror + rowset) \<Rightarrow> int \<Rightarrow> nodeId \<Rightarrow> nat \<Rightarrow> cnode list \<Rightarrow> nodeId set \<Rightarrow> bool" where
  "walk_inv query maxDepth r i nodes visited \<longleftrightarrow>
     visited = nd_id ` set nodes \<and> distinct (map nd_id nodes) \<and> \<lparr>nd_id = r, nd_depth = 0\<rparr> \<in> set nodes \<and>
     (\<forall>x\<in>set nodes. (edge query ^^ nd_depth x) r (nd_id x) \<and> int (nd_depth x) \<le> max 0 maxDepth) \<and>
     sorted (map nd_depth nodes) \<and> (i < length nodes \<longrightarrow> (\<forall>x\<in>set nodes. nd_depth x \<le> nd_depth (nodes ! i) + 1)) \<and>
     (\<forall>x\<in>set (take i nodes). int (nd_depth x) < maxDepth \<longrightarrow>
        (\<forall>v. edge query (nd_id x) v \<longrightarrow> (\<exists>y\<in>set nodes. nd_id y = v \<and> nd_depth y \<le> nd_depth x + 1)))"

lemma walk_inv_skip:
  assumes "walk_inv query maxDepth r i nodes visited" "i < length nodes" "maxDepth \<le> int (nd_depth (nodes ! i))"
  shows "walk_inv query maxDepth r (i + 1) nodes visited"
proof -
  have "nd_depth (nodes ! i) \<le> nd_depth (nodes ! Suc i)" if "Suc i < length nodes"
    using assms(1) that sorted_nth_mono [of "map nd_depth nodes" i "Suc i"] by (simp add: walk_inv_def)
  then have "\<forall>x\<in>set nodes. nd_depth x \<le> nd_depth (nodes ! (i + 1)) + 1" if "i + 1 < length nodes"
    using assms(1,2) that by (fastforce simp: walk_inv_def)
  moreover have "set (take (i + 1) nodes) = insert (nodes ! i) (set (take i nodes))"
    using assms(2) by (simp add: take_Suc_conv_app_nth)
  ultimately show ?thesis using assms(1,3) unfolding walk_inv_def by auto
qed

lemma walk_inv_expand:
  assumes "walk_inv query maxDepth r i nodes visited" "i < length nodes" "int (nd_depth (nodes ! i)) < maxDepth"
    and "query (nd_id (nodes ! i)) = Inr (rows, None)" "add_children rows (nd_depth (nodes ! i)) nodes visited = (nodes', visited')"
  shows "walk_inv query maxDepth r (i + 1) nodes' visited'"
proof -
  let ?c = "nodes ! i" and ?d = "nd_depth (nodes ! i)"
  obtain new where new: "nodes' = nodes @ new" "visited' = visited \<union> kids rows" "distinct (map nd_id new)"
      "nd_id ` set new = kids rows - visited" "\<forall>x\<in>set new. nd_depth x = ?d + 1"
    using add_children_spec [of rows ?d nodes visited] assms(5) by auto
  note inv = assms(1) [unfolded walk_inv_def]
  have c: "?c \<in> set nodes" using assms(2) by simp
  have E: "edge query (nd_id ?c) v \<longleftrightarrow> v \<in> kids rows" for v using assms(4) by (auto simp: edge_def)
  have le: "nd_depth x \<le> ?d + 1" if "x \<in> set nodes'" for x using that inv assms(2) new(1,5) by auto
  have "map nd_depth new = replicate (length new) (?d + 1)" using new(5) by (intro nth_equalityI) simp_all
  then have "sorted (map nd_depth nodes')" using inv new(1) assms(2) by (simp add: sorted_append)
  moreover have "distinct (map nd_id nodes')" "visited' = nd_id ` set nodes'" using inv new by auto
  moreover have "(edge query ^^ nd_depth x) r (nd_id x) \<and> int (nd_depth x) \<le> max 0 maxDepth" if "x \<in> set nodes'" for x
  proof (cases "x \<in> set nodes")
    case False
    then have x: "x \<in> set new" "nd_id x \<in> kids rows" using that new(1,4) by auto
    then have "(edge query ^^ Suc ?d) r (nd_id x)" using inv c E by (auto intro: relpowp_Suc_I)
    then show ?thesis using x(1) new(5) assms(3) by simp
  qed (use inv in blast)
  moreover have "\<forall>x\<in>set nodes'. nd_depth x \<le> nd_depth (nodes' ! (i + 1)) + 1" if "i + 1 < length nodes'"
  proof -
    have "map nd_depth nodes' ! i \<le> map nd_depth nodes' ! (i + 1)"
      using that by (intro sorted_nth_mono [OF \<open>sorted (map nd_depth nodes')\<close>]) simp_all
    moreover have "i < length nodes'" "nodes' ! i = ?c" using new(1) assms(2) by (simp_all add: nth_append)
    ultimately have "?d \<le> nd_depth (nodes' ! (i + 1))" using that by simp
    then show ?thesis using le by (meson add_le_mono1 order_trans)
  qed
  moreover have "\<exists>y\<in>set nodes'. nd_id y = v \<and> nd_depth y \<le> nd_depth x + 1"
    if x: "x \<in> set (take (i + 1) nodes')" "int (nd_depth x) < maxDepth" "edge query (nd_id x) v" for x v
  proof (cases "x \<in> set (take i nodes)")
    case True
    then obtain y where "y \<in> set nodes" "nd_id y = v" "nd_depth y \<le> nd_depth x + 1" using inv x(2,3) by blast
    then show ?thesis using new(1) by (intro bexI [of _ y]) simp_all
  next
    case False
    then have "x = ?c" using x(1) new(1) assms(2) by (auto simp: take_Suc_conv_app_nth)
    then have "v \<in> nd_id ` set nodes'" using x(3) E \<open>visited' = nd_id ` set nodes'\<close> new(2) by auto
    then show ?thesis using le \<open>x = ?c\<close> by auto
  qed
  ultimately show ?thesis unfolding walk_inv_def using inv new(1) by simp
qed

lemma walk_result:
  assumes "answers query" "\<forall>i. \<not> stop i" "walk_inv query maxDepth r i nodes visited"
  shows "\<exists>out V. walk stop query maxDepth i nodes visited = Inr out \<and> walk_inv query maxDepth r (length out) out V"
  using assms
proof (induction stop query maxDepth i nodes visited rule: walk.induct)
  case (1 stop query maxDepth i nodes visited)
  have st: "\<not> stop i" using "1.prems"(2) by blast
  consider "length nodes \<le> i" | "i < length nodes" "maxDepth \<le> int (nd_depth (nodes ! i))"
    | "i < length nodes" "int (nd_depth (nodes ! i)) < maxDepth" by linarith
  then show ?case
  proof cases
    case 1
    then have "walk_inv query maxDepth r (length nodes) nodes visited" using "1.prems"(3) by (simp add: walk_inv_def)
    then show ?thesis using 1 by (subst walk.simps) auto
  next
    case 2
    have "walk stop query maxDepth i nodes visited = walk stop query maxDepth (i + 1) nodes visited"
      using 2 st by (subst walk.simps) (simp add: Let_def)
    moreover have "\<not> length nodes \<le> i" using 2 by simp
    ultimately show ?thesis
      using "1.IH"(1) [OF _ st refl 2(2) "1.prems"(1,2) walk_inv_skip [OF "1.prems"(3) 2]] by simp
  next
    case 3
    obtain rows where q: "query (nd_id (nodes ! i)) = Inr (rows, None)" using "1.prems"(1) by (auto simp: answers_def)
    obtain nodes' visited' where a: "add_children rows (nd_depth (nodes ! i)) nodes visited = (nodes', visited')" by fastforce
    have "walk stop query maxDepth i nodes visited = walk stop query maxDepth (i + 1) nodes' visited'"
      using 3 q a st by (subst walk.simps) (simp add: Let_def)
    moreover have "\<not> length nodes \<le> i" "\<not> maxDepth \<le> int (nd_depth (nodes ! i))" using 3 by simp_all
    ultimately show ?thesis
      using "1.IH"(2) [OF _ st refl _ q refl a [symmetric] refl "1.prems"(1,2) walk_inv_expand [OF "1.prems"(3) 3 q a]] by simp
  qed
qed

lemma walk_inv_reaches:
  assumes "walk_inv query maxDepth r (length out) out V" "(edge query ^^ k) r v" "int k \<le> max 0 maxDepth"
  shows "\<exists>y\<in>set out. nd_id y = v \<and> nd_depth y \<le> k"
  using assms(2,3)
proof (induction k arbitrary: v)
  case 0
  then show ?case using assms(1) by (intro bexI [of _ "\<lparr>nd_id = r, nd_depth = 0\<rparr>"]) (auto simp: walk_inv_def)
next
  case (Suc k)
  then obtain u where u: "(edge query ^^ k) r u" "edge query u v" by auto
  obtain x where x: "x \<in> set out" "nd_id x = u" "nd_depth x \<le> k" using Suc.IH [OF u(1)] Suc.prems(2) by fastforce
  have "int (nd_depth x) < maxDepth" using x(3) Suc.prems(2) by linarith
  then obtain y where "y \<in> set out" "nd_id y = v" "nd_depth y \<le> nd_depth x + 1"
    using assms(1) u(2) x(1,2) unfolding walk_inv_def take_all [OF order.refl] by blast
  then show ?case using x(3) by (intro bexI [of _ y]) simp_all
qed

lemma walk_exact:
  assumes "walk_inv query maxDepth r (length out) out V"
  shows "(\<lparr>nd_id = v, nd_depth = d\<rparr> \<in> set out) \<longleftrightarrow>
    int d \<le> max 0 maxDepth \<and> (edge query ^^ d) r v \<and> (\<forall>k<d. \<not> (edge query ^^ k) r v)"
proof
  assume v: "\<lparr>nd_id = v, nd_depth = d\<rparr> \<in> set out"
  then have d: "int d \<le> max 0 maxDepth" "(edge query ^^ d) r v" using assms by (auto simp: walk_inv_def)
  have "\<not> (edge query ^^ k) r v" if "k < d" for k
  proof
    assume "(edge query ^^ k) r v"
    moreover have "int k \<le> max 0 maxDepth" using d(1) that by linarith
    ultimately obtain y where y: "y \<in> set out" "nd_id y = v" "nd_depth y \<le> k" using walk_inv_reaches [OF assms] by blast
    then have "y = \<lparr>nd_id = v, nd_depth = d\<rparr>" using assms v by (auto simp: walk_inv_def distinct_map inj_on_def)
    then show False using y(3) that by simp
  qed
  then show "int d \<le> max 0 maxDepth \<and> (edge query ^^ d) r v \<and> (\<forall>k<d. \<not> (edge query ^^ k) r v)" using d by blast
next
  assume d: "int d \<le> max 0 maxDepth \<and> (edge query ^^ d) r v \<and> (\<forall>k<d. \<not> (edge query ^^ k) r v)"
  then obtain y where y: "y \<in> set out" "nd_id y = v" "nd_depth y \<le> d" using walk_inv_reaches [OF assms] by blast
  then have "nd_depth y = d" using assms d by (auto simp: walk_inv_def) (metis le_neq_implies_less)
  then show "\<lparr>nd_id = v, nd_depth = d\<rparr> \<in> set out" using y(1,2) by (metis cnode.surjective old.unit.exhaust)
qed

section \<open>What the plan number says\<close>

lemma mask_iff: "n AND push_bit k m = 0 \<longleftrightarrow> drop_bit k n AND m = 0" for n m :: nat
proof -
  have "n AND push_bit k m = push_bit k (drop_bit k n AND m)"
    by (rule bit_eqI) (auto simp: bit_and_iff bit_push_bit_iff bit_drop_bit_eq)
  then show ?thesis by (simp only: push_bit_eq_0_iff)
qed

lemma nibble_masks [simp]:
  "n AND 0xf0 = 0 \<longleftrightarrow> nibble 4 n = 0" "n AND 0xf00 = 0 \<longleftrightarrow> nibble 8 n = 0" "n AND 0xf000 = 0 \<longleftrightarrow> nibble 12 n = 0"
  "n AND 0xf0000 = 0 \<longleftrightarrow> nibble 16 n = 0"
  using mask_iff [of n 4 15] mask_iff [of n 8 15] mask_iff [of n 12 15] mask_iff [of n 16 15]
  by (simp_all add: nibble_def push_bit_nat_def)

lemma nibble_or: "nibble sh (m OR n) = nibble sh m OR nibble sh n"
  unfolding nibble_def by (rule bit_eqI) (auto simp: bit_and_iff bit_or_iff bit_drop_bit_eq)

lemma nibble_mod: "nibble sh n = n div 2 ^ sh mod 16"
proof -
  have "x AND 15 = x mod 16" for x :: nat using take_bit_eq_mask [of 4 x] by (simp add: mask_eq_exp_minus_1 take_bit_eq_mod)
  then show ?thesis by (simp add: nibble_def drop_bit_eq_div)
qed

lemma nibble_push_same: "v < 16 \<Longrightarrow> nibble sh (push_bit sh v) = v"
  by (simp add: nibble_mod push_bit_eq_mult)

lemma nibble_push_other:
  assumes "v < 16" "sh + 4 \<le> sh' \<or> sh' + 4 \<le> sh"
  shows "nibble sh (push_bit sh' v) = 0"
proof (cases "sh + 4 \<le> sh'")
  case True
  then obtain k where "sh' = sh + (4 + k)" using le_Suc_ex by (metis add.assoc)
  then have "push_bit sh' v = (v * 2 ^ k * 16) * 2 ^ sh" by (simp add: push_bit_eq_mult power_add algebra_simps)
  then show ?thesis by (simp add: nibble_mod)
next
  case False
  then obtain k where "sh = sh' + (4 + k)" using assms(2) le_Suc_ex by (metis add.assoc)
  then have "push_bit sh' v div 2 ^ sh = v div (16 * 2 ^ k)" by (simp add: push_bit_eq_mult power_add)
  also have "\<dots> = 0" using assms(1) by (simp add: div_mult2_eq)
  finally show ?thesis by (simp add: nibble_mod)
qed

lemma bit_plan: "n AND 1 = 0 \<longleftrightarrow> \<not> bit n 0" "n AND 2 = 0 \<longleftrightarrow> \<not> bit n 1" for n :: nat
  using and_exp_eq_0_iff_not_bit [of n 0] and_exp_eq_0_iff_not_bit [of n 1] by simp_all

lemma bit_low_push: "0 < sh \<Longrightarrow> \<not> bit (push_bit sh v) 0" "1 < sh \<Longrightarrow> \<not> bit (push_bit sh v) 1" for v :: nat
  by (simp_all add: bit_push_bit_iff)

definition consumed :: "constraint \<Rightarrow> bool" where
  "consumed c \<longleftrightarrow> 0 \<le> ct_ArgIndex c"

text \<open>A slot of the plan holds one more than the argument position of the constraint taken over for its column, or 0.\<close>

definition slot_ok :: "nat \<Rightarrow> nat \<Rightarrow> constraint list \<Rightarrow> bool" where
  "slot_ok col v cs \<longleftrightarrow> (v = 0 \<longleftrightarrow> (\<forall>c\<in>set cs. consumed c \<longrightarrow> ct_Column c \<noteq> col)) \<and>
     (\<forall>c\<in>set cs. consumed c \<longrightarrow> ct_Column c = col \<longrightarrow> int v = ct_ArgIndex c + 1)"

lemma slot_keep: "slot_ok col v cs \<Longrightarrow> \<not> consumed c \<or> ct_Column c \<noteq> col \<Longrightarrow> slot_ok col v (cs @ [c])"
  by (auto simp: slot_ok_def)

lemma slot_take: "slot_ok col 0 cs \<Longrightarrow> ct_Column c = col \<Longrightarrow> ct_ArgIndex c = int k \<Longrightarrow> slot_ok col (Suc k) (cs @ [c])"
  by (auto simp: slot_ok_def consumed_def)

text \<open>\<open>pl_pos\<close> counts the filled slots; there are five, so no nibble overflows.\<close>

definition plan_inv :: "constraint list \<Rightarrow> planState \<Rightarrow> bool" where
  "plan_inv cs s \<longleftrightarrow> (let p = pl_plan s in
     slot_ok colDepth (nibble 4 p) cs \<and> slot_ok colTablename (nibble 8 p) cs \<and>
     slot_ok colIDColumn (nibble 12 p) cs \<and> slot_ok colParentColumn (nibble 16 p) cs \<and>
     (\<forall>c\<in>set cs. consumed c \<longrightarrow> ct_Column c = colDepth \<longrightarrow> bit p 1 = (ct_Op c = OpLT)) \<and>
     (bit p 1 \<longrightarrow> nibble 4 p \<noteq> 0) \<and>
     (bit p 0 \<longleftrightarrow> (\<exists>c\<in>set cs. consumed c \<and> ct_Column c = colRoot \<and> ct_Op c = OpEQ)) \<and>
     pl_pos s = of_bool (bit p 0) + of_bool (nibble 4 p \<noteq> 0) + of_bool (nibble 8 p \<noteq> 0) + of_bool (nibble 12 p \<noteq> 0) + of_bool (nibble 16 p \<noteq> 0))"

lemmas col_defs = colDepth_def colRoot_def colTablename_def colIDColumn_def colParentColumn_def

lemma plan_pos_bound: "plan_inv cs s \<Longrightarrow> Suc (pl_pos s) < 16"
  by (auto simp: plan_inv_def Let_def)

lemma nibble_low: "4 \<le> sh \<Longrightarrow> nibble sh 1 = 0" "4 \<le> sh \<Longrightarrow> nibble sh 2 = 0"
proof -
  assume "4 \<le> sh"
  then have "(2 :: nat) ^ 4 \<le> 2 ^ sh" by (rule power_increasing) simp
  then show "nibble sh 1 = 0" "nibble sh 2 = 0" by (simp_all add: nibble_mod)
qed

lemma low_bits: "bit (1 :: nat) 0" "\<not> bit (1 :: nat) 1" "\<not> bit (2 :: nat) 0" "bit (2 :: nat) 1"
  by (simp_all add: bit_nat_def)

lemmas plan_simps = nibble_or nibble_push_same nibble_push_other nibble_low bit_or_iff bit_low_push low_bits slot_keep slot_take col_defs
  consumed_def

lemma plan_skip: "plan_inv cs s \<Longrightarrow> \<not> consumed c \<Longrightarrow> plan_inv (cs @ [c]) s"
  by (auto simp: plan_inv_def Let_def slot_keep)

lemma plan_root:
  assumes "plan_inv cs s" "\<not> bit (pl_plan s) 0" "ct_Column c = colRoot" "ct_Op c = OpEQ" "ct_ArgIndex c = int (pl_pos s)"
    "pl_plan s' = pl_plan s OR 1" "pl_pos s' = Suc (pl_pos s)"
  shows "plan_inv (cs @ [c]) s'"
  using assms unfolding plan_inv_def Let_def by (simp add: plan_simps del: One_nat_def)

lemma plan_depth:
  assumes "plan_inv cs s" "nibble 4 (pl_plan s) = 0" "ct_Column c = colDepth" "ct_ArgIndex c = int (pl_pos s)"
    "pl_plan s' = (pl_plan s OR push_bit 4 (Suc (pl_pos s))) OR (if ct_Op c = OpLT then 2 else 0)" "pl_pos s' = Suc (pl_pos s)"
  shows "plan_inv (cs @ [c]) s'"
proof -
  have z: "nibble sh (0 :: nat) = 0" for sh by (simp add: nibble_def)
  have nb: "\<not> bit (pl_plan s) 1" using assms(1,2) by (auto simp: plan_inv_def Let_def)
  have "ct_Column x \<noteq> colDepth" if "x \<in> set cs" "consumed x" for x
    using assms(1,2) that by (auto simp: plan_inv_def Let_def slot_ok_def)
  moreover note p = plan_pos_bound [OF assms(1)]
  have "nibble 4 (pl_plan s') = Suc (pl_pos s)" "\<forall>sh\<in>{8, 12, 16}. nibble sh (pl_plan s') = nibble sh (pl_plan s)"
    using assms(2,5) p z by (simp_all add: plan_simps)
  moreover have "bit (pl_plan s') 1 = (ct_Op c = OpLT)" "bit (pl_plan s') 0 = bit (pl_plan s) 0"
    unfolding assms(5) bit_or_iff using nb bit_low_push [of 4 "Suc (pl_pos s)"] low_bits by (simp_all del: One_nat_def)
  ultimately show ?thesis using assms(1-4,6) unfolding plan_inv_def Let_def
    by (simp add: slot_keep slot_take col_defs consumed_def del: One_nat_def)
qed

lemma plan_named:
  assumes "plan_inv cs s" "(ct_Column c, sh) \<in> {(colTablename, 8), (colIDColumn, 12), (colParentColumn, 16)}" "nibble sh (pl_plan s) = 0"
    "ct_ArgIndex c = int (pl_pos s)" "pl_plan s' = pl_plan s OR push_bit sh (Suc (pl_pos s))" "pl_pos s' = Suc (pl_pos s)"
  shows "plan_inv (cs @ [c]) s'"
  using assms plan_pos_bound [OF assms(1)] unfolding plan_inv_def Let_def by (elim insertE emptyE; simp add: plan_simps del: One_nat_def)

lemma assign_sel [simp]:
  "ct_Column (assign b c s) = ct_Column c" "ct_Op (assign b c s) = ct_Op c" "ct_ArgIndex (assign b c s) = int (pl_pos s)"
  by (simp_all add: assign_def Let_def)

lemma plan_name_inv:
  assumes "plan_inv cs s" "\<not> consumed c" "(ct_Column c, sh) \<in> {(colTablename, 8), (colIDColumn, 12), (colParentColumn, 16)}"
    "pl_plan s AND msk = 0 \<longleftrightarrow> nibble sh (pl_plan s) = 0" "plan_name msk sh c s = (c', s')"
  shows "plan_inv (cs @ [c']) s' \<and> ct_Column c' = ct_Column c \<and> ct_Op c' = ct_Op c"
proof (cases "ct_Op c = OpEQ \<and> pl_plan s AND msk = 0")
  case True
  then have "c' = assign True c s" "s' = s\<lparr>pl_plan := pl_plan s OR push_bit sh (Suc (pl_pos s)), pl_pos := Suc (pl_pos s)\<rparr>"
    using assms(5) by (simp_all add: plan_name_def)
  then show ?thesis using plan_named [OF assms(1), of c' sh s'] assms(3,4) True by simp
next
  case False
  then show ?thesis using assms(5) plan_skip [OF assms(1,2)] by (auto simp: plan_name_def)
qed

lemma plan_constraint_inv:
  assumes "plan_inv cs s" "\<not> consumed c" "plan_constraint c s = (c', s')"
  shows "plan_inv (cs @ [c']) s' \<and> ct_Column c' = ct_Column c \<and> ct_Op c' = ct_Op c"
proof -
  have skip: ?thesis if "c' = c" "s' = s" using that plan_skip [OF assms(1,2)] by simp
  note e = assms(3) [unfolded plan_constraint_def nibble_masks bit_plan]
  show ?thesis
  proof (cases "ct_Usable c")
    case False then show ?thesis using e skip by simp
  next
    case True
    then have e: "(if ct_Column c = colRoot then
        (if ct_Op c = OpEQ \<and> \<not> bit (pl_plan s) 0
         then (assign True c s, s\<lparr>pl_plan := pl_plan s OR 1, pl_pos := pl_pos s + 1, pl_cost := pl_cost s / 100\<rparr>) else (c, s))
      else if ct_Column c = colDepth then
        (if nibble 4 (pl_plan s) = 0 \<and> ct_Op c \<in> {OpEQ, OpLE, OpLT}
         then (assign False c s, s\<lparr>pl_plan := (pl_plan s OR push_bit 4 (pl_pos s + 1)) OR (if ct_Op c = OpLT then 2 else 0),
                 pl_pos := pl_pos s + 1, pl_cost := pl_cost s / 5\<rparr>) else (c, s))
      else if ct_Column c = colTablename then plan_name 0xf00 8 c s
      else if ct_Column c = colIDColumn then plan_name 0xf000 12 c s
      else if ct_Column c = colParentColumn then plan_name 0xf0000 16 c s else (c, s)) = (c', s')"
      using e by (simp only: simp_thms if_False)
    consider (root) "ct_Column c = colRoot" | (depth) "ct_Column c = colDepth" | (tab) "ct_Column c = colTablename"
      | (idc) "ct_Column c = colIDColumn" | (par) "ct_Column c = colParentColumn"
      | (none) "ct_Column c \<notin> {colRoot, colDepth, colTablename, colIDColumn, colParentColumn}" by blast
    then show ?thesis
    proof cases
      case root
      show ?thesis
      proof (cases "ct_Op c = OpEQ \<and> \<not> bit (pl_plan s) 0")
        case t: True
        then have "c' = assign True c s" "pl_plan s' = pl_plan s OR 1" "pl_pos s' = Suc (pl_pos s)" using e root by auto
        then show ?thesis using plan_root [OF assms(1), of c' s'] root t by simp
      qed (use e root skip in auto)
    next
      case depth
      show ?thesis
      proof (cases "nibble 4 (pl_plan s) = 0 \<and> ct_Op c \<in> {OpEQ, OpLE, OpLT}")
        case t: True
        then have "c' = assign False c s" "pl_pos s' = Suc (pl_pos s)"
            "pl_plan s' = (pl_plan s OR push_bit 4 (Suc (pl_pos s))) OR (if ct_Op c = OpLT then 2 else 0)"
          using e depth by (auto simp: col_defs)
        then show ?thesis using plan_depth [OF assms(1), of c' s'] depth t by simp
      qed (use e depth skip in \<open>auto simp: col_defs\<close>)
    next
      case tab
      then have "plan_name 0xf00 8 c s = (c', s')" using e by (simp add: col_defs)
      then show ?thesis using tab by (intro plan_name_inv [OF assms(1,2)]) simp_all
    next
      case idc
      then have "plan_name 0xf000 12 c s = (c', s')" using e by (simp add: col_defs)
      then show ?thesis using idc by (intro plan_name_inv [OF assms(1,2)]) simp_all
    next
      case par
      then have "plan_name 0xf0000 16 c s = (c', s')" using e by (simp add: col_defs)
      then show ?thesis using par by (intro plan_name_inv [OF assms(1,2)]) simp_all
    next
      case none
      then show ?thesis using e skip by simp
    qed
  qed
qed

lemma plan_loop_inv:
  assumes "plan_inv pre s" "\<forall>c\<in>set cs. ct_ArgIndex c = - 1" "plan_loop cs s = (cs', s')"
  shows "plan_inv (pre @ cs') s' \<and> map ct_Column cs' = map ct_Column cs \<and> map ct_Op cs' = map ct_Op cs"
  using assms
proof (induction cs arbitrary: pre s cs')
  case (Cons c cs)
  obtain c1 s1 where c: "plan_constraint c s = (c1, s1)" by fastforce
  obtain cs1 s2 where l: "plan_loop cs s1 = (cs1, s2)" by fastforce
  have e: "cs' = c1 # cs1" "s' = s2" using Cons.prems(3) c l by auto
  note i = plan_constraint_inv [OF Cons.prems(1) _ c]
  show ?case using Cons.IH [of "pre @ [c1]" s1 cs1] i Cons.prems(2) l e by (simp add: consumed_def)
qed simp

lemma plan_start_inv: "plan_inv [] plan_start"
  by (simp add: plan_inv_def plan_start_def Let_def slot_ok_def nibble_def)

section \<open>Properties\<close>

text \<open>SQLite hands the right-hand side of the \<open>i\<close>-th constraint to \<^verbatim>\<open>xFilter\<close> at the position \<^verbatim>\<open>BestIndex\<close> gave it.\<close>

definition delivers :: "constraint list \<Rightarrow> driverValue list \<Rightarrow> driverValue list \<Rightarrow> bool" where
  "delivers cs vals args \<longleftrightarrow> (\<forall>i\<in>set [0..<length cs]. consumed (cs ! i) \<longrightarrow>
     nat (ct_ArgIndex (cs ! i)) < length args \<and> args ! nat (ct_ArgIndex (cs ! i)) = vals ! i)"

lemma BestIndex_inv:
  assumes "BestIndex t cs = Inr (plan, cost, cs')" "\<forall>c\<in>set cs. ct_ArgIndex c = - 1"
  shows "\<exists>s. pl_plan s = plan \<and> plan_inv cs' s \<and> bit plan 0"
proof -
  obtain cs1 s where l: "plan_loop cs plan_start = (cs1, s)" by fastforce
  then have "cs1 = cs'" "pl_plan s = plan" "bit plan 0" using assms(1) unfolding BestIndex_def l prod.case bit_plan nibble_masks
    by (auto split: if_splits)
  then show ?thesis using plan_loop_inv [OF plan_start_inv assms(2) l] by auto
qed

lemma slot_delivers:
  assumes "slot_ok col (nibble sh plan) cs'" "delivers cs' vals args" "i < length cs'" "consumed (cs' ! i)" "ct_Column (cs' ! i) = col"
  shows "nibble sh plan \<noteq> 0 \<and> args ! (nibble sh plan - 1) = vals ! i"
proof -
  have "int (nibble sh plan) = ct_ArgIndex (cs' ! i) + 1" using assms(1,3-5) nth_mem [of i cs'] by (auto simp: slot_ok_def)
  moreover have "args ! nat (ct_ArgIndex (cs' ! i)) = vals ! i" using assms(2-4) by (simp add: delivers_def)
  moreover have "0 \<le> ct_ArgIndex (cs' ! i)" using assms(4) by (simp add: consumed_def)
  moreover from calculation have "nibble sh plan = Suc (nat (ct_ArgIndex (cs' ! i)))" by linarith
  ultimately show ?thesis by simp
qed

text \<open>The plan number carries every constraint across to the scan: with the plan \<^verbatim>\<open>BestIndex\<close> returns, \<^verbatim>\<open>Filter\<close> reads the depth
  bound, the table and the column names from the values of exactly the constraints that were taken over, with
  the strictness of a depth comparison, and falls back to the defaults where there is none.\<close>

theorem closure_plan_decodes:
  assumes "BestIndex t cs = Inr (plan, cost, cs')" "\<forall>c\<in>set cs. ct_ArgIndex c = - 1" "delivers cs' vals args"
  shows "(\<forall>i<length cs'. consumed (cs' ! i) \<longrightarrow>
      (ct_Column (cs' ! i) = colDepth \<longrightarrow> depth_bound f plan args = depth_limit f (ct_Op (cs' ! i) = OpLT) (vals ! i)) \<and>
      (ct_Column (cs' ! i) = colTablename \<longrightarrow> name_arg 0xf00 8 dflt plan args = stringArg (vals ! i)) \<and>
      (ct_Column (cs' ! i) = colIDColumn \<longrightarrow> name_arg 0xf000 12 dflt plan args = stringArg (vals ! i)) \<and>
      (ct_Column (cs' ! i) = colParentColumn \<longrightarrow> name_arg 0xf0000 16 dflt plan args = stringArg (vals ! i))) \<and>
    ((\<forall>c\<in>set cs'. consumed c \<longrightarrow> ct_Column c \<noteq> colDepth) \<longrightarrow> depth_bound f plan args = maxInt) \<and>
    ((\<forall>c\<in>set cs'. consumed c \<longrightarrow> ct_Column c \<noteq> colTablename) \<longrightarrow> name_arg 0xf00 8 dflt plan args = dflt) \<and>
    ((\<forall>c\<in>set cs'. consumed c \<longrightarrow> ct_Column c \<noteq> colIDColumn) \<longrightarrow> name_arg 0xf000 12 dflt plan args = dflt) \<and>
    ((\<forall>c\<in>set cs'. consumed c \<longrightarrow> ct_Column c \<noteq> colParentColumn) \<longrightarrow> name_arg 0xf0000 16 dflt plan args = dflt) \<and>
    (\<exists>c\<in>set cs'. consumed c \<and> ct_Column c = colRoot \<and> ct_Op c = OpEQ)"
proof -
  obtain s where s: "pl_plan s = plan" "plan_inv cs' s" "bit plan 0" using BestIndex_inv [OF assms(1,2)] by blast
  have so: "slot_ok colDepth (nibble 4 plan) cs'" "slot_ok colTablename (nibble 8 plan) cs'" "slot_ok colIDColumn (nibble 12 plan) cs'"
      "slot_ok colParentColumn (nibble 16 plan) cs'"
    and lt: "\<forall>c\<in>set cs'. consumed c \<longrightarrow> ct_Column c = colDepth \<longrightarrow> bit plan 1 = (ct_Op c = OpLT)"
    and root: "\<exists>c\<in>set cs'. consumed c \<and> ct_Column c = colRoot \<and> ct_Op c = OpEQ"
    using s(2,3) unfolding plan_inv_def Let_def s(1) by blast+
  note sd = slot_delivers [OF so(1) assms(3)] slot_delivers [OF so(2) assms(3)] slot_delivers [OF so(3) assms(3)] slot_delivers [OF so(4) assms(3)]
  have "depth_bound f plan args = depth_limit f (ct_Op (cs' ! i) = OpLT) (vals ! i)"
    if "i < length cs'" "consumed (cs' ! i)" "ct_Column (cs' ! i) = colDepth" for i
  proof -
    have "bit plan 1 = (ct_Op (cs' ! i) = OpLT)" using lt that nth_mem [OF that(1)] by blast
    then show ?thesis using sd(1) [OF that] unfolding depth_bound_def nibble_masks bit_plan by simp
  qed
  moreover have "name_arg 0xf00 8 dflt plan args = stringArg (vals ! i)"
    if "i < length cs'" "consumed (cs' ! i)" "ct_Column (cs' ! i) = colTablename" for i
    using sd(2) [OF that] by (simp add: name_arg_def)
  moreover have "name_arg 0xf000 12 dflt plan args = stringArg (vals ! i)"
    if "i < length cs'" "consumed (cs' ! i)" "ct_Column (cs' ! i) = colIDColumn" for i
    using sd(3) [OF that] by (simp add: name_arg_def)
  moreover have "name_arg 0xf0000 16 dflt plan args = stringArg (vals ! i)"
    if "i < length cs'" "consumed (cs' ! i)" "ct_Column (cs' ! i) = colParentColumn" for i
    using sd(4) [OF that] by (simp add: name_arg_def)
  moreover have "nibble sh plan = 0" if "slot_ok col (nibble sh plan) cs'" "\<forall>c\<in>set cs'. consumed c \<longrightarrow> ct_Column c \<noteq> col" for sh col
    using that unfolding slot_ok_def by blast
  note z = this
  have "depth_bound f plan args = maxInt" if "\<forall>c\<in>set cs'. consumed c \<longrightarrow> ct_Column c \<noteq> colDepth"
    using z [OF so(1) that] by (simp add: depth_bound_def)
  moreover have "name_arg 0xf00 8 dflt plan args = dflt" if "\<forall>c\<in>set cs'. consumed c \<longrightarrow> ct_Column c \<noteq> colTablename"
    using z [OF so(2) that] by (simp add: name_arg_def)
  moreover have "name_arg 0xf000 12 dflt plan args = dflt" if "\<forall>c\<in>set cs'. consumed c \<longrightarrow> ct_Column c \<noteq> colIDColumn"
    using z [OF so(3) that] by (simp add: name_arg_def)
  moreover have "name_arg 0xf0000 16 dflt plan args = dflt" if "\<forall>c\<in>set cs'. consumed c \<longrightarrow> ct_Column c \<noteq> colParentColumn"
    using z [OF so(4) that] by (simp add: name_arg_def)
  ultimately show ?thesis using root by blast
qed

definition rootEQ :: constraint where
  "rootEQ = \<lparr>ct_Column = colRoot, ct_Op = OpEQ, ct_Usable = True, ct_ArgIndex = - 1, ct_Omit = False\<rparr>"

definition depthLE :: constraint where
  "depthLE = \<lparr>ct_Column = colDepth, ct_Op = OpLE, ct_Usable = True, ct_ArgIndex = - 1, ct_Omit = False\<rparr>"

definition orgTable :: ctable where
  "orgTable = \<lparr>tb_table = ascii ''org'', tb_idCol = ascii ''id'', tb_parentCol = ascii ''manager''\<rparr>"

lemma root_then_depth:
  "BestIndex orgTable [rootEQ, depthLE] = Inr (33, 20000, [rootEQ\<lparr>ct_ArgIndex := 0, ct_Omit := True\<rparr>, depthLE\<lparr>ct_ArgIndex := 1\<rparr>])"
  by code_simp

theorem closure_plan_decodes_witness:
  "depth_bound (\<lambda>_. 0) 33 [VInt64 2, VInt64 1] = 1"
proof -
  have "delivers [rootEQ\<lparr>ct_ArgIndex := 0, ct_Omit := True\<rparr>, depthLE\<lparr>ct_ArgIndex := 1\<rparr>] [VInt64 2, VInt64 1] [VInt64 2, VInt64 1]"
    by code_simp
  from closure_plan_decodes [OF root_then_depth _ this, of "\<lambda>_. 0" "[]"] show ?thesis
    by (auto simp: rootEQ_def depthLE_def depth_limit_def consumed_def dest!: spec [of _ 1])
qed

text \<open>C29: The scan returns the descendants of the root and nothing else: when the child queries succeed, \<^verbatim>\<open>Filter\<close> ends, on
  cyclic graphs too, and lists each node within the depth bound once, with its distance from the root, in order
  of that distance.\<close>

theorem closure_walk_exact:
  fixes f prepare stop query t idxNum r rest
  defines "sql \<equiv> walker_sql (name_arg 0xf000 12 (tb_idCol t) idxNum (VInt64 r # rest))
      (name_arg 0xf00 8 (tb_table t) idxNum (VInt64 r # rest)) (name_arg 0xf0000 16 (tb_parentCol t) idxNum (VInt64 r # rest))"
  assumes "prepare sql = None" "answers (query sql)" "\<forall>i. \<not> stop i"
  shows "\<exists>nodes. Filter f prepare stop query t idxNum (VInt64 r # rest) = Inr nodes \<and>
    distinct (map nd_id nodes) \<and> sorted (map nd_depth nodes) \<and>
    (\<forall>v d. \<lparr>nd_id = v, nd_depth = d\<rparr> \<in> set nodes \<longleftrightarrow>
       int d \<le> max 0 (depth_bound f idxNum (VInt64 r # rest)) \<and> (edge (query sql) ^^ d) (word_of_int r) v \<and>
       (\<forall>k<d. \<not> (edge (query sql) ^^ k) (word_of_int r) v))"
proof -
  let ?m = "depth_bound f idxNum (VInt64 r # rest)" and ?r = "word_of_int r :: nodeId"
  have "walk_inv (query sql) ?m ?r 0 [\<lparr>nd_id = ?r, nd_depth = 0\<rparr>] {?r}" by (simp add: walk_inv_def)
  from walk_result [OF assms(3,4) this] obtain out V where
    o: "walk stop (query sql) ?m 0 [\<lparr>nd_id = ?r, nd_depth = 0\<rparr>] {?r} = Inr out" "walk_inv (query sql) ?m ?r (length out) out V" by blast
  have "Filter f prepare stop query t idxNum (VInt64 r # rest) = Inr out"
    using o(1) assms(2) by (simp add: Filter_def Let_def sql_def)
  then show ?thesis using o(2) walk_exact [OF o(2)] by (intro exI [of _ out]) (simp add: walk_inv_def)
qed

definition orgRows :: "bytes \<Rightarrow> nodeId \<Rightarrow> cerror + rowset" where
  "orgRows sql u = Inr (if u = 1 then [VInt64 2, VNil, VInt64 1] else if u = 2 then [VInt64 3] else [], None)"

theorem closure_walk_exact_witness:
  "\<exists>nodes. Filter (\<lambda>_. 0) (\<lambda>_. None) (\<lambda>_. False) orgRows orgTable 33 [VInt64 1, VInt64 1] = Inr nodes \<and>
     \<lparr>nd_id = 2, nd_depth = 1\<rparr> \<in> set nodes \<and> \<lparr>nd_id = 3, nd_depth = 2\<rparr> \<notin> set nodes"
proof -
  have b: "depth_bound (\<lambda>_. 0) 33 [VInt64 1, VInt64 1] = 1" by code_simp
  have e: "edge (orgRows sql) 1 2" for sql by (simp add: edge_def orgRows_def)
  have a: "answers (orgRows sql)" for sql by (simp add: answers_def orgRows_def)
  from closure_walk_exact [of "\<lambda>_. None" orgTable 33 1 "[VInt64 1]" orgRows "\<lambda>_. False" "\<lambda>_. 0", OF refl a, unfolded b]
  obtain nodes sql where n: "Filter (\<lambda>_. 0) (\<lambda>_. None) (\<lambda>_. False) orgRows orgTable 33 [VInt64 1, VInt64 1] = Inr nodes"
    "\<And>v d. \<lparr>nd_id = v, nd_depth = d\<rparr> \<in> set nodes \<longleftrightarrow> int d \<le> max 0 1 \<and> (edge (orgRows sql) ^^ d) (word_of_int 1) v \<and>
       (\<forall>k<d. \<not> (edge (orgRows sql) ^^ k) (word_of_int 1) v)" by blast
  have "\<lparr>nd_id = 2, nd_depth = 1\<rparr> \<in> set nodes" unfolding n(2) using e by (simp add: eq_OO)
  moreover have "\<lparr>nd_id = 3, nd_depth = 2\<rparr> \<notin> set nodes" unfolding n(2) by simp
  ultimately show ?thesis using n(1) by blast
qed

text \<open>The order of the constraints matters although the module's comment says that the root is always argument 0: with
  the depth constraint first, \<^verbatim>\<open>BestIndex\<close> gives it position 0 and the root position 1, and \<^verbatim>\<open>Filter\<close>, which takes the
  first argument for the root, walks from the depth bound instead of the root the query names.\<close>

theorem closure_root_misread:
  assumes "BestIndex orgTable [depthLE, rootEQ] = Inr (plan, cost, cs')" "delivers cs' [VInt64 d, VInt64 r] [x, y]" "prepare = (\<lambda>_. None)"
  shows "\<exists>q. Filter f prepare stop query orgTable plan [x, y] =
    walk stop q d 0 [\<lparr>nd_id = word_of_int d, nd_depth = 0\<rparr>] {word_of_int d}"
proof -
  have "BestIndex orgTable [depthLE, rootEQ] = Inr (17, 20000, [depthLE\<lparr>ct_ArgIndex := 0\<rparr>, rootEQ\<lparr>ct_ArgIndex := 1, ct_Omit := True\<rparr>])"
    by code_simp
  then have p: "plan = 17" "cs' = [depthLE\<lparr>ct_ArgIndex := 0\<rparr>, rootEQ\<lparr>ct_ArgIndex := 1, ct_Omit := True\<rparr>]" using assms(1) by simp_all
  have "x = VInt64 d" using assms(2) unfolding p delivers_def by (auto simp: consumed_def dest: bspec [of _ _ 0])
  moreover have "nibble 4 17 = 1" "(17 :: nat) AND 0xf0 \<noteq> 0" "(17 :: nat) AND 2 = 0" by code_simp+
  ultimately show ?thesis using assms(3) unfolding p by (auto simp: Filter_def Let_def depth_bound_def depth_limit_def)
qed

theorem closure_root_misread_witness:
  "\<exists>q. Filter (\<lambda>_. 0) (\<lambda>_. None) (\<lambda>_. False) orgRows orgTable 17 [VInt64 3, VInt64 1] =
     walk (\<lambda>_. False) q 3 0 [\<lparr>nd_id = 3, nd_depth = 0\<rparr>] {3}"
proof -
  have "BestIndex orgTable [depthLE, rootEQ] = Inr (17, 20000, [depthLE\<lparr>ct_ArgIndex := 0\<rparr>, rootEQ\<lparr>ct_ArgIndex := 1, ct_Omit := True\<rparr>])"
    by code_simp
  moreover have "delivers [depthLE\<lparr>ct_ArgIndex := 0\<rparr>, rootEQ\<lparr>ct_ArgIndex := 1, ct_Omit := True\<rparr>] [VInt64 3, VInt64 1] [VInt64 3, VInt64 1]"
    by code_simp
  ultimately show ?thesis using closure_root_misread [of 17 20000 _ 3 1 "VInt64 3" "VInt64 1"] by auto
qed

end
