(* ===== verification/Generate_Series.thy ===== *)
theory Generate_Series
  imports Closure
begin

unbundle bit_operations_syntax

text \<open>
  \<^verbatim>\<open>ext/series\<close>: the table-valued function \<^verbatim>\<open>generate_series(start, stop, step)\<close>. \<^verbatim>\<open>BestIndex\<close> packs the argument positions of
  the hidden columns into nibbles of the plan number (\<^verbatim>\<open>series.go\<close>), \<^verbatim>\<open>Filter\<close> unpacks them and \<^verbatim>\<open>Next\<close> steps through the
  values (\<^verbatim>\<open>cursor.go\<close>). An \<^verbatim>\<open>int64\<close> is an integer in its range, with the wrap of an addition written out. The conversion
  of a \<^verbatim>\<open>float64\<close> is an argument.
\<close>

section \<open>Planning\<close>

definition colStart :: nat where "colStart = 1"
definition colStop :: nat where "colStop = 2"
definition colStep :: nat where "colStep = 3"

definition series_shift :: "nat \<Rightarrow> nat option" where
  "series_shift col = (if col = colStart then Some 0 else if col = colStop then Some 4 else if col = colStep then Some 8 else None)"

definition series_constraint :: "constraint \<Rightarrow> planState \<Rightarrow> constraint \<times> planState" where
  "series_constraint cst s =
     (if \<not> ct_Usable cst \<or> ct_Op cst \<noteq> OpEQ then (cst, s)
      else (case series_shift (ct_Column cst) of
        None \<Rightarrow> (cst, s)
      | Some sh \<Rightarrow>
          if pl_plan s AND push_bit sh 0xf \<noteq> 0 then (cst, s)
          else (assign True cst s, s\<lparr>pl_plan := pl_plan s OR push_bit sh (pl_pos s + 1), pl_pos := pl_pos s + 1\<rparr>)))"

fun series_loop :: "constraint list \<Rightarrow> planState \<Rightarrow> constraint list \<times> planState" where
  "series_loop [] s = ([], s)"
| "series_loop (c # cs) s = (case series_constraint c s of (c', s1) \<Rightarrow> case series_loop cs s1 of (cs', s2) \<Rightarrow> (c' # cs', s2))"

definition series_BestIndex :: "constraint list \<Rightarrow> nat \<times> rat \<times> constraint list" where
  "series_BestIndex cs = (case series_loop cs \<lparr>pl_plan = 0, pl_pos = 0, pl_cost = 1\<rparr> of (cs', s) \<Rightarrow>
     (pl_plan s, if pl_plan s AND 0xf = 0 \<or> pl_plan s AND 0xf0 = 0 then 10 ^ 18 else 1, cs'))"

section \<open>The cursor\<close>

record seriesCursor =
  sc_value :: int
  sc_start :: int
  sc_stop :: int
  sc_step :: int
  sc_desc :: bool
  sc_eof :: bool

definition series_toInt64 :: "(nat \<Rightarrow> int) \<Rightarrow> driverValue \<Rightarrow> int" where
  "series_toInt64 f v = (case v of VInt64 x \<Rightarrow> x | VFloat64 x \<Rightarrow> f x | _ \<Rightarrow> 0)"

definition series_arg :: "(nat \<Rightarrow> int) \<Rightarrow> nat \<Rightarrow> driverValue list \<Rightarrow> nat \<Rightarrow> int option" where
  "series_arg f plan args sh =
     (let n = nibble sh plan in if n = 0 \<or> length args \<le> n - 1 then None else Some (series_toInt64 f (args ! (n - 1))))"

definition series_Filter :: "(nat \<Rightarrow> int) \<Rightarrow> nat \<Rightarrow> driverValue list \<Rightarrow> string + seriesCursor" where
  "series_Filter f plan args =
     (case (series_arg f plan args 0, series_arg f plan args 4) of
        (Some start, Some stop) \<Rightarrow>
          let step = (case series_arg f plan args 8 of None \<Rightarrow> 1 | Some x \<Rightarrow> x)
          in if step = 0 then Inl ''step must be non-zero''
             else Inr \<lparr>sc_value = start, sc_start = start, sc_stop = stop, sc_step = step, sc_desc = step < 0,
                       sc_eof = (if step < 0 then start < stop else stop < start)\<rparr>
      | _ \<Rightarrow> Inl ''start and stop arguments are required'')"

definition series_Next :: "seriesCursor \<Rightarrow> seriesCursor" where
  "series_Next c = (let next = wrap_int64 (sc_value c + sc_step c)
     in if (0 < sc_step c \<and> next < sc_value c) \<or> (sc_step c < 0 \<and> sc_value c < next) then c\<lparr>sc_eof := True\<rparr>
        else c\<lparr>sc_value := next, sc_eof := (if sc_desc c then next < sc_stop c else sc_stop c < next)\<rparr>)"

text \<open>The scan SQLite makes: the value of each row until \<^verbatim>\<open>Eof\<close>. \<open>n\<close> bounds the number of rows; \<open>None\<close> is a scan that has not
  ended by then.\<close>

fun series_rows :: "nat \<Rightarrow> seriesCursor \<Rightarrow> int list option" where
  "series_rows 0 c = None"
| "series_rows (Suc n) c = (if sc_eof c then Some [] else map_option (Cons (sc_value c)) (series_rows n (series_Next c)))"

section \<open>The values\<close>

lemma wrap_up:
  assumes "is_int64 v" "is_int64 s" "0 < s" "2 ^ 63 \<le> v + s"
  shows "wrap_int64 (v + s) < v"
proof -
  have "wrap_int64 (v + s) = v + s - 2 ^ 64"
    using assms by (simp add: wrap_int64_def is_int64_def mod_pos_geq)
  then show ?thesis using assms by (simp add: is_int64_def)
qed

lemma wrap_down:
  assumes "is_int64 v" "is_int64 s" "s < 0" "v + s < - (2 ^ 63)"
  shows "v < wrap_int64 (v + s)"
proof -
  have "(v + s + 2 ^ 63) mod 2 ^ 64 = (v + s + 2 ^ 63 + 2 ^ 64) mod 2 ^ 64" by (simp only: mod_add_self2)
  also have "\<dots> = v + s + 2 ^ 63 + 2 ^ 64" using assms by (intro mod_pos_pos_trivial) (simp_all add: is_int64_def)
  finally have "wrap_int64 (v + s) = v + s + 2 ^ 64" by (simp add: wrap_int64_def)
  then show ?thesis using assms by (simp add: is_int64_def)
qed

text \<open>Is the \<open>k\<close>-th term of the progression in the interval?\<close>

definition in_series :: "int \<Rightarrow> int \<Rightarrow> int \<Rightarrow> nat \<Rightarrow> bool" where
  "in_series start stop step k \<longleftrightarrow>
     (if step < 0 then stop \<le> start + int k * step else start + int k * step \<le> stop)"

definition cursor_at :: "int \<Rightarrow> int \<Rightarrow> int \<Rightarrow> nat \<Rightarrow> seriesCursor" where
  "cursor_at start stop step k = \<lparr>sc_value = start + int k * step, sc_start = start, sc_stop = stop, sc_step = step,
     sc_desc = step < 0, sc_eof = \<not> in_series start stop step k\<rparr>"

lemma next_term:
  assumes "is_int64 start" "is_int64 stop" "is_int64 step" "step \<noteq> 0" "in_series start stop step k"
  shows "series_Next (cursor_at start stop step k) =
     (if in_series start stop step (Suc k) \<or> is_int64 (start + int (Suc k) * step) then cursor_at start stop step (Suc k)
      else (cursor_at start stop step k)\<lparr>sc_eof := True\<rparr>)"
proof -
  let ?v = "start + int k * step"
  have next_v: "start + int (Suc k) * step = ?v + step" by (simp add: algebra_simps)
  have d: "(1 + int k) * step = int k * step + step" by (simp add: distrib_right)
  show ?thesis
  proof (cases "0 < step")
    case True
    have nn: "0 \<le> int k * step" using True by simp
    have "?v \<le> stop" using assms(5) True by (simp add: in_series_def)
    then have v: "is_int64 ?v" using assms(1,2) nn unfolding is_int64_def by linarith
    show ?thesis
    proof (cases "?v + step < 2 ^ 63")
      case True
      then have "is_int64 (?v + step)" using v \<open>0 < step\<close> by (simp add: is_int64_def)
      then show ?thesis
        using \<open>0 < step\<close> wrap_exact by (simp add: series_Next_def Let_def cursor_at_def in_series_def d add.assoc not_le)
    next
      case False
      then have w: "wrap_int64 (?v + step) < ?v" using wrap_up [OF v assms(3) True] by simp
      have "\<not> in_series start stop step (Suc k)" "\<not> is_int64 (start + int (Suc k) * step)"
        using False assms(2) True next_v unfolding in_series_def is_int64_def by auto
      then show ?thesis using w True by (simp add: series_Next_def Let_def cursor_at_def)
    qed
  next
    case False
    then have neg: "step < 0" using assms(4) by simp
    have "int k * step \<le> 0" using neg by (simp add: mult_nonneg_nonpos)
    then have v: "is_int64 ?v" using assms(1,2,5) neg unfolding is_int64_def in_series_def by (simp add: neg)
    show ?thesis
    proof (cases "- (2 ^ 63) \<le> ?v + step")
      case True
      then have "is_int64 (?v + step)" using v neg by (simp add: is_int64_def)
      then show ?thesis
        using neg wrap_exact by (simp add: series_Next_def Let_def cursor_at_def in_series_def d add.assoc not_le)
    next
      case False
      then have w: "?v < wrap_int64 (?v + step)" using wrap_down [OF v assms(3) neg] by simp
      have "\<not> in_series start stop step (Suc k)" "\<not> is_int64 (start + int (Suc k) * step)"
        using False assms(2) neg next_v unfolding in_series_def is_int64_def by auto
      then show ?thesis using w neg by (simp add: series_Next_def Let_def cursor_at_def)
    qed
  qed
qed

lemma in_series_down: "in_series start stop step (Suc k) \<Longrightarrow> in_series start stop step k"
  by (auto simp: in_series_def algebra_simps split: if_splits)

lemma in_series_le: "in_series start stop step k \<Longrightarrow> j \<le> k \<Longrightarrow> in_series start stop step j"
  by (induction k) (auto simp: le_Suc_eq dest: in_series_down)

text \<open>Every progression leaves the interval.\<close>

lemma series_ends:
  assumes "step \<noteq> 0"
  obtains cnt where "\<And>k. k < cnt \<longleftrightarrow> in_series start stop step k"
proof -
  define m where "m = nat (\<bar>stop - start\<bar> + 1)"
  have out: "\<not> in_series start stop step m"
  proof (cases "0 < step")
    case True
    then have "int m \<le> int m * step" by (simp add: mult_le_cancel_left1)
    moreover have "stop - start < int m" by (simp add: m_def)
    ultimately show ?thesis using True by (simp add: in_series_def)
  next
    case False
    then have neg: "step < 0" using assms by simp
    then have "int m \<le> int m * (- step)" by (intro mult_le_cancel_left1 [THEN iffD2]) auto
    moreover have "start - stop < int m" by (simp add: m_def)
    ultimately show ?thesis using neg by (simp add: in_series_def)
  qed
  define cnt where "cnt = (LEAST k. \<not> in_series start stop step k)"
  have c: "\<not> in_series start stop step cnt" unfolding cnt_def by (rule LeastI [of _ m]) (rule out)
  have "k < cnt \<longleftrightarrow> in_series start stop step k" for k
    using c in_series_le not_less_Least [of k "\<lambda>k. \<not> in_series start stop step k"] unfolding cnt_def [symmetric]
    by (metis not_le)
  then show ?thesis using that by blast
qed

lemma rows_from:
  assumes "is_int64 start" "is_int64 stop" "is_int64 step" "step \<noteq> 0" "\<And>k. k < cnt \<longleftrightarrow> in_series start stop step k"
  shows "k \<le> cnt \<Longrightarrow> series_rows (Suc (cnt - k) + n) (cursor_at start stop step k) =
     Some (map (\<lambda>i. start + int i * step) [k..<cnt])"
proof (induction "cnt - k" arbitrary: k)
  case 0
  then have "\<not> in_series start stop step k" using assms(5) by auto
  then show ?case using 0 by (simp add: cursor_at_def)
next
  case (Suc d)
  then have k: "k < cnt" "cnt - k = Suc (cnt - Suc k)" by simp_all
  then have i: "in_series start stop step k" using assms(5) by blast
  note nx = next_term [OF assms(1-4) i]
  have rest: "series_rows (Suc (cnt - Suc k) + n) (series_Next (cursor_at start stop step k)) =
      Some (map (\<lambda>i. start + int i * step) [Suc k..<cnt])"
  proof (cases "in_series start stop step (Suc k) \<or> is_int64 (start + int (Suc k) * step)")
    case True
    then show ?thesis using nx Suc(1) [of "Suc k"] Suc(2) k(1) by simp
  next
    case False
    then have "cnt = Suc k" using assms(5) [of "Suc k"] k(1) by auto
    then show ?thesis using nx False by simp
  qed
  have "[k..<cnt] = k # [Suc k..<cnt]" using k(1) by (rule upt_conv_Cons)
  then show ?case using rest i unfolding k(2) by (simp add: cursor_at_def)
qed

section \<open>The plan\<close>

definition series_inv :: "constraint list \<Rightarrow> planState \<Rightarrow> bool" where
  "series_inv cs s \<longleftrightarrow> (let p = pl_plan s in
     slot_ok colStart (nibble 0 p) cs \<and> slot_ok colStop (nibble 4 p) cs \<and> slot_ok colStep (nibble 8 p) cs \<and>
     pl_pos s = of_bool (nibble 0 p \<noteq> 0) + of_bool (nibble 4 p \<noteq> 0) + of_bool (nibble 8 p \<noteq> 0))"

lemmas series_cols = colStart_def colStop_def colStep_def

lemma series_constraint_cases:
  assumes "series_constraint c s = (c', s')"
  shows "(c' = c \<and> s' = s) \<or> (\<exists>sh. ct_Usable c \<and> ct_Op c = OpEQ \<and> series_shift (ct_Column c) = Some sh \<and> pl_plan s AND push_bit sh 0xf = 0 \<and>
    c' = assign True c s \<and> s' = s\<lparr>pl_plan := pl_plan s OR push_bit sh (pl_pos s + 1), pl_pos := pl_pos s + 1\<rparr>)"
proof (cases "\<not> ct_Usable c \<or> ct_Op c \<noteq> OpEQ")
  case False
  show ?thesis
  proof (cases "series_shift (ct_Column c)")
    case (Some sh)
    then show ?thesis using assms False by (cases "pl_plan s AND push_bit sh 0xf = 0") (simp_all add: series_constraint_def)
  qed (use assms False in \<open>simp add: series_constraint_def\<close>)
qed (use assms in \<open>simp add: series_constraint_def\<close>)

lemma nibble_set:
  assumes "v < 16"
  shows "nibble sh p = 0 \<Longrightarrow> nibble sh (p OR push_bit sh v) = v"
    and "sh + 4 \<le> sh' \<or> sh' + 4 \<le> sh \<Longrightarrow> nibble sh (p OR push_bit sh' v) = nibble sh p"
  using assms by (simp_all add: nibble_or nibble_push_same nibble_push_other)

lemma series_take_inv:
  assumes "series_inv cs s" "series_shift (ct_Column c) = Some sh" "nibble sh (pl_plan s) = 0"
  shows "series_inv (cs @ [assign True c s]) (s\<lparr>pl_plan := pl_plan s OR push_bit sh (pl_pos s + 1), pl_pos := pl_pos s + 1\<rparr>)"
proof -
  let ?p = "pl_plan s" and ?a = "assign True c s"
  have inv: "slot_ok colStart (nibble 0 ?p) cs" "slot_ok colStop (nibble 4 ?p) cs" "slot_ok colStep (nibble 8 ?p) cs"
    and pos: "pl_pos s = of_bool (nibble 0 ?p \<noteq> 0) + of_bool (nibble 4 ?p \<noteq> 0) + of_bool (nibble 8 ?p \<noteq> 0)"
    using assms(1) by (simp_all add: series_inv_def Let_def)
  have v: "pl_pos s + 1 < 16" unfolding pos by (simp add: of_bool_def)
  note n = nibble_set [OF v]
  have a: "ct_Column ?a = ct_Column c" "ct_ArgIndex ?a = int (pl_pos s)" by (simp_all add: assign_def)
  have t: "slot_ok (ct_Column c) 0 cs \<Longrightarrow> slot_ok (ct_Column c) (pl_pos s + 1) (cs @ [?a])"
    using slot_take [of _ cs ?a "pl_pos s"] a by simp
  have k: "slot_ok col v cs \<Longrightarrow> ct_Column c \<noteq> col \<Longrightarrow> slot_ok col v (cs @ [?a])" for col v
    using slot_keep a(1) by metis
  consider "ct_Column c = colStart" "sh = 0" | "ct_Column c = colStop" "sh = 4" | "ct_Column c = colStep" "sh = 8"
    using assms(2) by (auto simp: series_shift_def split: if_splits)
  then show ?thesis
  proof cases
    case 1
    then show ?thesis using assms(3) inv t k n(1) [of 0 ?p] n(2) [of 4 0 ?p] n(2) [of 8 0 ?p] pos
      unfolding series_inv_def Let_def by (simp add: series_cols)
  next
    case 2
    then show ?thesis using assms(3) inv t k n(1) [of 4 ?p] n(2) [of 0 4 ?p] n(2) [of 8 4 ?p] pos
      unfolding series_inv_def Let_def by (simp add: series_cols)
  next
    case 3
    then show ?thesis using assms(3) inv t k n(1) [of 8 ?p] n(2) [of 0 8 ?p] n(2) [of 4 8 ?p] pos
      unfolding series_inv_def Let_def by (simp add: series_cols)
  qed
qed

lemma series_constraint_inv:
  assumes "series_inv cs s" "\<not> consumed c" "series_constraint c s = (c', s')"
  shows "series_inv (cs @ [c']) s'"
proof (cases "c' = c \<and> s' = s")
  case True
  then show ?thesis using assms(1,2) by (auto simp: series_inv_def Let_def slot_keep)
next
  case False
  then obtain sh where sh: "series_shift (ct_Column c) = Some sh" "pl_plan s AND push_bit sh 0xf = 0" "c' = assign True c s"
    "s' = s\<lparr>pl_plan := pl_plan s OR push_bit sh (pl_pos s + 1), pl_pos := pl_pos s + 1\<rparr>"
    using series_constraint_cases [OF assms(3)] by blast
  have z: "nibble sh (pl_plan s) = 0" using sh(2) by (simp add: mask_iff nibble_def)
  show ?thesis unfolding sh(3,4) by (rule series_take_inv [OF assms(1) sh(1) z])
qed

lemma series_loop_inv:
  assumes "series_inv pre s" "\<forall>c\<in>set cs. ct_ArgIndex c = - 1" "series_loop cs s = (cs', s')"
  shows "series_inv (pre @ cs') s'"
  using assms
proof (induction cs arbitrary: pre s cs')
  case (Cons c cs)
  obtain c1 s1 where c: "series_constraint c s = (c1, s1)" by fastforce
  obtain cs1 s2 where l: "series_loop cs s1 = (cs1, s2)" by fastforce
  have e: "cs' = c1 # cs1" "s' = s2" using Cons.prems(3) c l by auto
  have "series_inv (pre @ [c1]) s1" using series_constraint_inv [OF Cons.prems(1) _ c] Cons.prems(2) by (simp add: consumed_def)
  then have "series_inv ((pre @ [c1]) @ cs1) s'" using Cons.IH [of "pre @ [c1]" s1 cs1] Cons.prems(2) l e(2) by simp
  then show ?case by (simp add: e(1))
qed simp

text \<open>An equality on a column that SQLite can evaluate, as each argument of the call becomes one.\<close>

definition eq_on :: "nat \<Rightarrow> constraint \<Rightarrow> bool" where
  "eq_on col c \<longleftrightarrow> ct_Usable c \<and> ct_Op c = OpEQ \<and> ct_Column c = col"

lemma series_constraint_kept:
  assumes "series_constraint c s = (c', s')" "\<not> consumed c"
  shows "eq_on col c' = eq_on col c" "consumed c' \<Longrightarrow> eq_on (ct_Column c) c'" "ct_Column c' = ct_Column c"
    "nibble sh (pl_plan s) \<noteq> 0 \<Longrightarrow> nibble sh (pl_plan s') \<noteq> 0"
proof -
  consider "c' = c" "s' = s"
    | sh' where "ct_Usable c" "ct_Op c = OpEQ" "c' = assign True c s" "pl_plan s' = pl_plan s OR push_bit sh' (pl_pos s + 1)"
    using series_constraint_cases [OF assms(1)] by auto
  then show "eq_on col c' = eq_on col c" "consumed c' \<Longrightarrow> eq_on (ct_Column c) c'" "ct_Column c' = ct_Column c"
    "nibble sh (pl_plan s) \<noteq> 0 \<Longrightarrow> nibble sh (pl_plan s') \<noteq> 0"
    using assms(2) by (cases; auto simp: eq_on_def assign_def nibble_or or_eq_0_iff)+
qed

lemma series_constraint_taken:
  assumes "series_constraint c s = (c', s')" "series_inv cs s" "eq_on col c" "series_shift col = Some sh"
  shows "nibble sh (pl_plan s') \<noteq> 0"
proof (cases "pl_plan s AND push_bit sh 0xf = 0")
  case True
  have e: "ct_Usable c" "ct_Op c = OpEQ" "series_shift (ct_Column c) = Some sh" using assms(3,4) by (simp_all add: eq_on_def)
  have v: "pl_pos s + 1 < 16" using assms(2) by (simp add: series_inv_def Let_def of_bool_def)
  have "nibble sh (pl_plan s) = 0" using True by (simp add: mask_iff nibble_def)
  moreover have "pl_plan s' = pl_plan s OR push_bit sh (pl_pos s + 1)"
    using assms(1) True e by (auto simp: series_constraint_def)
  ultimately show ?thesis using nibble_set(1) [OF v, of sh] by simp
next
  case False
  have e: "ct_Usable c" "ct_Op c = OpEQ" "series_shift (ct_Column c) = Some sh" using assms(3,4) by (simp_all add: eq_on_def)
  have "nibble sh (pl_plan s) \<noteq> 0" using False by (simp add: mask_iff nibble_def)
  moreover have "s' = s" using assms(1) False e by (simp add: series_constraint_def)
  ultimately show ?thesis by simp
qed

lemma series_loop_kept:
  assumes "series_inv pre s" "\<forall>c\<in>set cs. ct_ArgIndex c = - 1" "series_loop cs s = (cs', s')"
  shows "list_all2 (\<lambda>c c'. (\<forall>col. eq_on col c' = eq_on col c) \<and> (consumed c' \<longrightarrow> eq_on (ct_Column c') c')) cs cs' \<and>
    (\<forall>sh. nibble sh (pl_plan s) \<noteq> 0 \<longrightarrow> nibble sh (pl_plan s') \<noteq> 0) \<and>
    (\<forall>c\<in>set cs. \<forall>col sh. eq_on col c \<longrightarrow> series_shift col = Some sh \<longrightarrow> nibble sh (pl_plan s') \<noteq> 0)"
  using assms
proof (induction cs arbitrary: pre s cs')
  case (Cons a cs)
  obtain c1 s1 where c: "series_constraint a s = (c1, s1)" by fastforce
  obtain cs1 s2 where l: "series_loop cs s1 = (cs1, s2)" by fastforce
  have e: "cs' = c1 # cs1" "s' = s2" using Cons.prems(3) c l by auto
  have f: "\<not> consumed a" "\<forall>c\<in>set cs. ct_ArgIndex c = - 1" using Cons.prems(2) by (auto simp: consumed_def)
  note ih = Cons.IH [OF series_constraint_inv [OF Cons.prems(1) f(1) c] f(2) l [folded e(2)]]
  note k = series_constraint_kept [OF c f(1)]
  have "nibble sh (pl_plan s') \<noteq> 0" if "eq_on col a" "series_shift col = Some sh" for col sh
    using series_constraint_taken [OF c Cons.prems(1) that] ih by blast
  moreover have "nibble sh (pl_plan s') \<noteq> 0" if "nibble sh (pl_plan s) \<noteq> 0" for sh using k(4) [OF that] ih by blast
  ultimately show ?case using ih k(1,2,3) unfolding e(1) by simp
qed simp

section \<open>Properties\<close>

text \<open>The call gives the column an integer: some equality on it is usable, and each such equality compares with \<open>x\<close>.\<close>

definition gives :: "nat \<Rightarrow> constraint list \<Rightarrow> driverValue list \<Rightarrow> int \<Rightarrow> bool" where
  "gives col cs vals x \<longleftrightarrow> list_ex (eq_on col) cs \<and> list_all (\<lambda>i. eq_on col (cs ! i) \<longrightarrow> vals ! i = VInt64 x) [0..<length cs]"

lemma series_start_inv: "series_inv [] \<lparr>pl_plan = 0, pl_pos = 0, pl_cost = 1\<rparr>"
  by (simp add: series_inv_def Let_def slot_ok_def nibble_def)

lemma series_BestIndex_inv:
  assumes "series_BestIndex cs = (plan, cost, cs')" "\<forall>c\<in>set cs. ct_ArgIndex c = - 1" "series_shift col = Some sh"
  shows "slot_ok col (nibble sh plan) cs'"
    "list_all2 (\<lambda>c c'. (\<forall>col. eq_on col c' = eq_on col c) \<and> (consumed c' \<longrightarrow> eq_on (ct_Column c') c')) cs cs'"
    "nibble sh plan \<noteq> 0 \<longleftrightarrow> list_ex (eq_on col) cs"
proof -
  obtain s where l: "series_loop cs \<lparr>pl_plan = 0, pl_pos = 0, pl_cost = 1\<rparr> = (cs', s)" "pl_plan s = plan"
    using assms(1) by (auto simp: series_BestIndex_def split: prod.splits)
  note k = series_loop_kept [OF series_start_inv assms(2) l(1)]
  from series_loop_inv [OF series_start_inv assms(2) l(1)] show so: "slot_ok col (nibble sh plan) cs'"
    using assms(3) by (auto simp: series_inv_def Let_def l(2) series_shift_def split: if_splits)
  from k show la: "list_all2 (\<lambda>c c'. (\<forall>col. eq_on col c' = eq_on col c) \<and> (consumed c' \<longrightarrow> eq_on (ct_Column c') c')) cs cs'"
    by blast
  show "nibble sh plan \<noteq> 0 \<longleftrightarrow> list_ex (eq_on col) cs"
  proof
    assume "nibble sh plan \<noteq> 0"
    then obtain c where "c \<in> set cs'" "consumed c" "ct_Column c = col" using so by (auto simp: slot_ok_def)
    then show "list_ex (eq_on col) cs" using la by (fastforce simp: list_all2_conv_all_nth in_set_conv_nth list_ex_iff)
  next
    assume "list_ex (eq_on col) cs"
    then show "nibble sh plan \<noteq> 0" using k assms(3) unfolding l(2) list_ex_iff by blast
  qed
qed

lemma series_arg_given:
  assumes "series_BestIndex cs = (plan, cost, cs')" "\<forall>c\<in>set cs. ct_ArgIndex c = - 1" "delivers cs' vals args"
    "series_shift col = Some sh" "gives col cs vals x"
  shows "series_arg f plan args sh = Some x"
proof -
  note b = series_BestIndex_inv [OF assms(1,2,4)]
  have nz: "nibble sh plan \<noteq> 0" using b(3) assms(5) by (simp add: gives_def)
  then obtain i where i: "i < length cs'" "consumed (cs' ! i)" "ct_Column (cs' ! i) = col"
    using b(1) by (auto simp: slot_ok_def in_set_conv_nth)
  have e: "length cs = length cs'" "eq_on col (cs ! i)" using b(2) i by (auto simp: list_all2_conv_all_nth)
  have v: "vals ! i = VInt64 x" using assms(5) e i(1) by (simp add: gives_def list_all_iff)
  have "int (nibble sh plan) = ct_ArgIndex (cs' ! i) + 1" using b(1) i nth_mem [OF i(1)] by (auto simp: slot_ok_def)
  then have "nibble sh plan - 1 = nat (ct_ArgIndex (cs' ! i))" by linarith
  then have "nibble sh plan - 1 < length args" "args ! (nibble sh plan - 1) = VInt64 x"
    using assms(3) i v by (simp_all add: delivers_def)
  then show ?thesis using nz by (simp add: series_arg_def Let_def series_toInt64_def)
qed

lemma series_arg_absent:
  assumes "series_BestIndex cs = (plan, cost, cs')" "\<forall>c\<in>set cs. ct_ArgIndex c = - 1" "series_shift col = Some sh"
    "\<not> list_ex (eq_on col) cs"
  shows "series_arg f plan args sh = None"
  using series_BestIndex_inv(3) [OF assms(1-3)] assms(4) by (simp add: series_arg_def Let_def)

lemma series_shifts: "series_shift colStart = Some 0" "series_shift colStop = Some 4" "series_shift colStep = Some 8"
  by (simp_all add: series_shift_def series_cols)

text \<open>C30: a scan of \<^verbatim>\<open>generate_series(start, stop, step)\<close> ends and yields exactly the terms \<open>start + k * step\<close> inside the
  interval, in order, whatever the positions the plan gave the arguments; the step is 1 when it is not given. It ends also where
  the addition wraps: the term after the last representable one does not come back into the interval.\<close>

theorem series_scan_exact:
  assumes "series_BestIndex cs = (plan, cost, cs')" "\<forall>c\<in>set cs. ct_ArgIndex c = - 1" "delivers cs' vals args"
    and "gives colStart cs vals start" "gives colStop cs vals stop"
    and "gives colStep cs vals step \<or> \<not> list_ex (eq_on colStep) cs \<and> step = 1"
    and "is_int64 start" "is_int64 stop" "is_int64 step" "step \<noteq> 0"
  shows "\<exists>c cnt. series_Filter f plan args = Inr c \<and> (\<forall>k. k < cnt \<longleftrightarrow> in_series start stop step k) \<and>
    (\<forall>n>cnt. series_rows n c = Some (map (\<lambda>k. start + int k * step) [0..<cnt]))"
proof -
  note a = series_arg_given [OF assms(1-3)]
  have "series_arg f plan args 8 = (if list_ex (eq_on colStep) cs then Some step else None) \<and> (list_ex (eq_on colStep) cs \<or> step = 1)"
    using assms(6) a [OF series_shifts(3)] series_arg_absent [OF assms(1,2) series_shifts(3)] by (auto simp: gives_def)
  then have "series_Filter f plan args = Inr (cursor_at start stop step 0)"
    using a [OF series_shifts(1) assms(4)] a [OF series_shifts(2) assms(5)] assms(10)
    by (auto simp: series_Filter_def cursor_at_def in_series_def Let_def)
  moreover obtain cnt where c: "\<And>k. k < cnt \<longleftrightarrow> in_series start stop step k" using series_ends [OF assms(10)] by blast
  moreover have "series_rows n (cursor_at start stop step 0) = Some (map (\<lambda>k. start + int k * step) [0..<cnt])" if "cnt < n" for n
    using rows_from [OF assms(7-10) c, of 0 "n - Suc cnt"] that by simp
  ultimately show ?thesis by blast
qed

definition eqc :: "nat \<Rightarrow> constraint" where
  "eqc col = \<lparr>ct_Column = col, ct_Op = OpEQ, ct_Usable = True, ct_ArgIndex = - 1, ct_Omit = False\<rparr>"

theorem series_scan_exact_witness:
  "\<exists>c cnt. series_Filter (\<lambda>_. 0) 0x21 [VInt64 (2 ^ 63 - 3), VInt64 (2 ^ 63 - 1)] = Inr c \<and>
    (\<forall>k. k < cnt \<longleftrightarrow> in_series (2 ^ 63 - 3) (2 ^ 63 - 1) 1 k) \<and>
    (\<forall>n>cnt. series_rows n c = Some (map (\<lambda>k. 2 ^ 63 - 3 + int k * 1) [0..<cnt]))"
  by (rule series_scan_exact [of "[eqc colStart, eqc colStop]" "0x21" 1
      "[(eqc colStart)\<lparr>ct_ArgIndex := 0, ct_Omit := True\<rparr>, (eqc colStop)\<lparr>ct_ArgIndex := 1, ct_Omit := True\<rparr>]"
      "[VInt64 (2 ^ 63 - 3), VInt64 (2 ^ 63 - 1)]"]) code_simp+

end
