(* ===== verification/Advisory_Lock.thy ===== *)
theory Advisory_Lock
  imports Main
begin

text \<open>
  The in-process advisory lock that every handle on one file shares
  (\<^verbatim>\<open>src/vfs/advisorylock.go\<close>): many SHARED holders, one RESERVED..EXCLUSIVE writer, EXCLUSIVE
  only when no other handle reads.

  The model's state is the lock object together with the level each handle stores
  (\<^verbatim>\<open>*cur\<close>); \<^verbatim>\<open>writerLevel\<close> points at the writer's own level, so it is read through the writer.
  \<open>lock_step\<close> interleaves the calls of any number of handles. SQLite's documented protocol
  raises a lock to RESERVED or above only from SHARED; that is the guard of the step relation.
\<close>

datatype lockLevel = LockNone | LockShared | LockReserved | LockPending | LockExclusive

fun level_num :: "lockLevel \<Rightarrow> nat" where
  "level_num LockNone = 0"
| "level_num LockShared = 1"
| "level_num LockReserved = 2"
| "level_num LockPending = 3"
| "level_num LockExclusive = 4"

lemma level_num_inj: "level_num a = level_num b \<Longrightarrow> a = b"
  by (cases a; cases b) auto

instantiation lockLevel :: linorder
begin

definition less_eq_lockLevel :: "lockLevel \<Rightarrow> lockLevel \<Rightarrow> bool" where
  "less_eq_lockLevel a b \<longleftrightarrow> level_num a \<le> level_num b"

definition less_lockLevel :: "lockLevel \<Rightarrow> lockLevel \<Rightarrow> bool" where
  "less_lockLevel a b \<longleftrightarrow> level_num a < level_num b"

instance
  by standard (auto simp: less_eq_lockLevel_def less_lockLevel_def intro: level_num_inj)

end

lemmas level_defs = less_eq_lockLevel_def less_lockLevel_def

record 'h advisoryLock =
  nShared :: int
  writer :: "'h option"
  level :: "'h \<Rightarrow> lockLevel"   \<comment> \<open>each handle's \<^verbatim>\<open>lock\<close> field\<close>

definition fresh_lock :: "'h advisoryLock" where
  "fresh_lock = \<lparr>nShared = 0, writer = None, level = (\<lambda>_. LockNone)\<rparr>"

section \<open>Operations\<close>

text \<open>The first component is \<open>True\<close> for a nil error and \<open>False\<close> for \<^verbatim>\<open>errLockBusy\<close>.\<close>

definition other_writer :: "'h \<Rightarrow> 'h advisoryLock \<Rightarrow> bool" where
  "other_writer h s \<longleftrightarrow> writer s \<noteq> None \<and> writer s \<noteq> Some h"

definition Lock :: "'h \<Rightarrow> lockLevel \<Rightarrow> 'h advisoryLock \<Rightarrow> bool \<times> 'h advisoryLock" where
  "Lock h lvl s =
     (if lvl \<le> level s h then (True, s)
      else case lvl of
        LockNone \<Rightarrow> (True, s)
      | LockShared \<Rightarrow>
          (case writer s of
             Some w \<Rightarrow> if LockPending \<le> level s w then (False, s)
                       else (True, s\<lparr>nShared := nShared s + 1, level := (level s)(h := LockShared)\<rparr>)
           | None \<Rightarrow> (True, s\<lparr>nShared := nShared s + 1, level := (level s)(h := LockShared)\<rparr>))
      | LockReserved \<Rightarrow>
          if other_writer h s then (False, s)
          else (True, s\<lparr>writer := Some h, level := (level s)(h := LockReserved)\<rparr>)
      | _ \<Rightarrow>
          if other_writer h s then (False, s)
          else let held = (if LockShared \<le> level s h then 1 else 0)
            in if held < nShared s
               then (False, s\<lparr>writer := Some h, level := (level s)(h := LockPending)\<rparr>)
               else (True, s\<lparr>writer := Some h, level := (level s)(h := lvl)\<rparr>))"

definition Unlock :: "'h \<Rightarrow> lockLevel \<Rightarrow> 'h advisoryLock \<Rightarrow> 'h advisoryLock" where
  "Unlock h lvl s =
     (if level s h \<le> lvl then s
      else s\<lparr>
        writer := (if LockReserved \<le> level s h \<and> lvl < LockReserved \<and> writer s = Some h
                   then None else writer s),
        nShared := (if LockShared \<le> level s h \<and> lvl < LockShared then nShared s - 1 else nShared s),
        level := (level s)(h := lvl)\<rparr>)"

definition CheckReservedLock :: "'h advisoryLock \<Rightarrow> bool" where
  "CheckReservedLock s = (case writer s of None \<Rightarrow> False | Some w \<Rightarrow> LockReserved \<le> level s w)"

section \<open>Interleavings\<close>

inductive lock_step :: "'h set \<Rightarrow> 'h advisoryLock \<Rightarrow> 'h advisoryLock \<Rightarrow> bool" for H where
  lock: "h \<in> H \<Longrightarrow> lvl \<le> LockShared \<or> LockShared \<le> level s h \<Longrightarrow> lock_step H s (snd (Lock h lvl s))"
| unlock: "h \<in> H \<Longrightarrow> lock_step H s (Unlock h lvl s)"

inductive lock_reachable :: "'h set \<Rightarrow> 'h advisoryLock \<Rightarrow> bool" for H where
  init: "lock_reachable H fresh_lock"
| step: "lock_reachable H s \<Longrightarrow> lock_step H s t \<Longrightarrow> lock_reachable H t"

inductive_cases lock_stepE: "lock_step H s t"

section \<open>Invariant\<close>

definition lock_inv :: "'h set \<Rightarrow> 'h advisoryLock \<Rightarrow> bool" where
  "lock_inv H s \<longleftrightarrow>
     nShared s = int (card {h \<in> H. LockShared \<le> level s h}) \<and>
     (\<forall>h. LockNone < level s h \<longrightarrow> h \<in> H) \<and>
     (\<forall>h. LockReserved \<le> level s h \<longleftrightarrow> writer s = Some h) \<and>
     (\<forall>h h'. level s h = LockExclusive \<longrightarrow> h' \<noteq> h \<longrightarrow> level s h' = LockNone)"

lemma level_cases: "LockShared \<le> l \<longleftrightarrow> l \<noteq> LockNone" "l < LockShared \<longleftrightarrow> l = LockNone"
  "LockReserved \<le> l \<longleftrightarrow> l \<noteq> LockNone \<and> l \<noteq> LockShared" "LockPending \<le> l \<longleftrightarrow> l = LockPending \<or> l = LockExclusive"
  "LockNone < l \<longleftrightarrow> l \<noteq> LockNone" "LockNone \<le> l" "l \<le> LockNone \<longleftrightarrow> l = LockNone"
  "l < LockReserved \<longleftrightarrow> l = LockNone \<or> l = LockShared"
  "l \<le> LockShared \<longleftrightarrow> l = LockNone \<or> l = LockShared"
  by (cases l; simp add: level_defs)+

lemma lock_invI:
  assumes "nShared s = int (card {h \<in> H. level s h \<noteq> LockNone})"
    "\<And>h. level s h \<noteq> LockNone \<Longrightarrow> h \<in> H"
    "\<And>h. level s h \<noteq> LockNone \<Longrightarrow> level s h \<noteq> LockShared \<Longrightarrow> writer s = Some h"
    "\<And>h. writer s = Some h \<Longrightarrow> level s h \<noteq> LockNone \<and> level s h \<noteq> LockShared"
    "\<And>h h'. level s h = LockExclusive \<Longrightarrow> h' \<noteq> h \<Longrightarrow> level s h' = LockNone"
  shows "lock_inv H s"
  unfolding lock_inv_def level_cases
proof (intro conjI allI impI iffI)
  show "nShared s = int (card {h \<in> H. level s h \<noteq> LockNone})" by (fact assms(1))
qed (use assms(2-5) in blast)+

lemma lock_invD:
  assumes "lock_inv H s"
  shows "nShared s = int (card {h \<in> H. level s h \<noteq> LockNone})"
    "\<And>h. level s h \<noteq> LockNone \<Longrightarrow> h \<in> H"
    "\<And>h. level s h \<noteq> LockNone \<Longrightarrow> level s h \<noteq> LockShared \<Longrightarrow> writer s = Some h"
    "\<And>h. writer s = Some h \<Longrightarrow> level s h \<noteq> LockNone \<and> level s h \<noteq> LockShared"
    "\<And>h h'. level s h = LockExclusive \<Longrightarrow> h' \<noteq> h \<Longrightarrow> level s h' = LockNone"
  using assms unfolding lock_inv_def level_cases by blast+

lemma readers_upd:
  assumes "finite H" "h \<in> H"
  shows "card {x \<in> H. ((level s)(h := l)) x \<noteq> LockNone} =
    card ({x \<in> H. level s x \<noteq> LockNone} - {h}) + (if l = LockNone then 0 else 1)"
proof -
  let ?R = "{x \<in> H. level s x \<noteq> LockNone}"
  have "{x \<in> H. ((level s)(h := l)) x \<noteq> LockNone} = (if l = LockNone then ?R - {h} else insert h (?R - {h}))"
    using assms(2) by auto
  then show ?thesis using assms(1) by (simp add: card.insert_remove)
qed

lemma readers_split:
  assumes "finite H" "h \<in> H"
  shows "card {x \<in> H. level s x \<noteq> LockNone}
    = card ({x \<in> H. level s x \<noteq> LockNone} - {h}) + (if level s h = LockNone then 0 else 1)"
  using readers_upd [OF assms, of s "level s h"] by simp

lemma readers_add:
  assumes "finite H" "h \<in> H" "level s h = LockNone"
  shows "card {x \<in> H. ((level s)(h := LockShared)) x \<noteq> LockNone} = Suc (card {x \<in> H. level s x \<noteq> LockNone})"
proof -
  have "{x \<in> H. ((level s)(h := LockShared)) x \<noteq> LockNone} = insert h {x \<in> H. level s x \<noteq> LockNone}"
    using assms(2) by auto
  then show ?thesis using assms by simp
qed

lemma no_other_readers:
  assumes "finite H" "card ({x \<in> H. level s x \<noteq> LockNone} - {h}) = 0"
    "\<forall>x. level s x \<noteq> LockNone \<longrightarrow> x \<in> H" "h' \<noteq> h"
  shows "level s h' = LockNone"
  using assms by (auto simp: card_eq_0_iff)


text \<open>Handing the write intent to \<open>h\<close>: shared by the RESERVED, PENDING and EXCLUSIVE branches.\<close>

lemma lock_inv_writer:
  assumes "finite H" "h \<in> H" "lock_inv H s" "\<not> other_writer h s" "level s h \<noteq> LockNone" "LockReserved \<le> l"
    "l = LockExclusive \<Longrightarrow> nShared s \<le> 1"
  shows "lock_inv H (s\<lparr>writer := Some h, level := (level s)(h := l)\<rparr>)" (is "lock_inv H ?t")
proof -
  note inv = lock_invD [OF assms(3)]
  have l: "l \<noteq> LockNone" "l \<noteq> LockShared" using assms(6) by (auto simp: level_cases)
  have w: "writer s = Some h' \<Longrightarrow> h' = h" for h' using assms(4) by (auto simp: other_writer_def)
  have alone: "level s h' = LockNone" if "l = LockExclusive" "h' \<noteq> h" for h'
  proof (rule no_other_readers [OF assms(1) _ _ that(2)])
    show "card ({x \<in> H. level s x \<noteq> LockNone} - {h}) = 0"
      using readers_split [OF assms(1,2), of s] assms(5,7) that(1) inv(1) by simp
    show "\<forall>x. level s x \<noteq> LockNone \<longrightarrow> x \<in> H" using inv(2) by blast
  qed
  have nx: "level s h' \<noteq> LockExclusive" if "h' \<noteq> h" for h'
    using inv(5) [of h' h] assms(5) that by blast
  show ?thesis
  proof (rule lock_invI)
    show "nShared ?t = int (card {x \<in> H. level ?t x \<noteq> LockNone})"
      using readers_upd [OF assms(1,2), of s l] readers_split [OF assms(1,2), of s] assms(5) l inv(1) by simp
  next
    fix h' assume "level ?t h' \<noteq> LockNone"
    then show "h' \<in> H" using inv(2) assms(2) by (cases "h' = h") auto
  next
    fix h' assume "level ?t h' \<noteq> LockNone" "level ?t h' \<noteq> LockShared"
    then show "writer ?t = Some h'" using inv(3) [of h'] w by (cases "h' = h") auto
  next
    fix h' assume "writer ?t = Some h'"
    then show "level ?t h' \<noteq> LockNone \<and> level ?t h' \<noteq> LockShared" using l by simp
  next
    fix h1 h2 assume "level ?t h1 = LockExclusive" "h2 \<noteq> h1"
    then show "level ?t h2 = LockNone" using nx alone by (cases "h1 = h") auto
  qed
qed

lemma lock_inv_shared:
  assumes "finite H" "h \<in> H" "lock_inv H s" "level s h = LockNone" "\<And>x. level s x \<noteq> LockExclusive"
  shows "lock_inv H (s\<lparr>nShared := nShared s + 1, level := (level s)(h := LockShared)\<rparr>)" (is "lock_inv H ?t")
proof -
  note inv = lock_invD [OF assms(3)]
  show ?thesis
  proof (rule lock_invI)
    show "nShared ?t = int (card {x \<in> H. level ?t x \<noteq> LockNone})"
      using readers_add [of H h s, OF assms(1,2,4)] inv(1) by simp
  next
    fix h' assume "level ?t h' \<noteq> LockNone"
    then show "h' \<in> H" using inv(2) assms(2) by (cases "h' = h") auto
  next
    fix h' assume "level ?t h' \<noteq> LockNone" "level ?t h' \<noteq> LockShared"
    then show "writer ?t = Some h'" using inv(3) [of h'] by (cases "h' = h") auto
  next
    fix h' assume "writer ?t = Some h'"
    then show "level ?t h' \<noteq> LockNone \<and> level ?t h' \<noteq> LockShared"
      using inv(4) [of h'] assms(4) by (cases "h' = h") auto
  next
    fix h1 h2 assume "level ?t h1 = LockExclusive" "h2 \<noteq> h1"
    then show "level ?t h2 = LockNone" using assms(5) by (cases "h1 = h") auto
  qed
qed

lemma Lock_inv:
  assumes "finite H" "h \<in> H" "lock_inv H s" "lvl \<le> LockShared \<or> LockShared \<le> level s h"
  shows "lock_inv H (snd (Lock h lvl s))"
proof (cases "lvl \<le> level s h")
  case True
  then show ?thesis using assms(3) by (simp add: Lock_def)
next
  case nle: False
  have held: "level s h \<noteq> LockNone" if "\<not> lvl \<le> LockShared" using assms(4) that by (auto simp: level_cases)
  show ?thesis
  proof (cases lvl)
    case LockShared
    have none: "level s h = LockNone" using nle LockShared by (cases "level s h") (auto simp: level_defs)
    show ?thesis
    proof (cases "\<exists>w. writer s = Some w \<and> LockPending \<le> level s w")
      case True
      then show ?thesis using nle LockShared assms(3) by (auto simp: Lock_def)
    next
      case False
      have "level s x \<noteq> LockExclusive" for x
        using False lock_invD(3) [OF assms(3), of x] by (auto simp: level_cases)
      then have "lock_inv H (s\<lparr>nShared := nShared s + 1, level := (level s)(h := LockShared)\<rparr>)"
        by (rule lock_inv_shared [OF assms(1-3) none])
      then show ?thesis using False nle LockShared by (auto simp: Lock_def split: option.splits)
    qed
  next
    case LockReserved
    then show ?thesis
      using nle assms lock_inv_writer [OF assms(1-3)] held by (auto simp: Lock_def level_cases)
  next
    case LockPending
    then show ?thesis
      using nle assms lock_inv_writer [OF assms(1-3)] held by (auto simp: Lock_def Let_def level_cases)
  next
    case LockExclusive
    then show ?thesis
      using nle assms lock_inv_writer [OF assms(1-3)] held by (auto simp: Lock_def Let_def level_cases not_less)
  qed (use nle in \<open>simp add: level_cases\<close>)
qed

lemma Unlock_inv:
  assumes "finite H" "h \<in> H" "lock_inv H s"
  shows "lock_inv H (Unlock h lvl s)"
proof (cases "level s h \<le> lvl")
  case True
  then show ?thesis using assms(3) by (simp add: Unlock_def)
next
  case False
  let ?t = "Unlock h lvl s"
  note inv = lock_invD [OF assms(3)]
  have nn: "level s h \<noteq> LockNone" using False by (auto simp: level_cases)
  have lx: "lvl \<noteq> LockExclusive" using False by (cases "level s h") (auto simp: level_defs)
  have down: "level s h \<noteq> LockShared" if "lvl \<noteq> LockNone" "lvl \<noteq> LockShared"
    using False that by (cases lvl) (auto simp: level_defs)
  have lev: "level ?t = (level s)(h := lvl)" using False by (simp add: Unlock_def)
  have wr: "writer ?t = (if (lvl = LockNone \<or> lvl = LockShared) \<and> writer s = Some h then None else writer s)"
    using False inv(4) [of h] by (auto simp: Unlock_def level_cases)
  show ?thesis
  proof (rule lock_invI)
    have "nShared ?t = (if lvl = LockNone then nShared s - 1 else nShared s)"
      using False nn by (simp add: Unlock_def level_cases)
    then show "nShared ?t = int (card {x \<in> H. level ?t x \<noteq> LockNone})"
      unfolding lev
      using readers_upd [OF assms(1,2), of s lvl] readers_split [OF assms(1,2), of s] nn inv(1) by simp
  next
    fix h' assume "level ?t h' \<noteq> LockNone"
    then show "h' \<in> H" using inv(2) assms(2) lev by (cases "h' = h") auto
  next
    fix h' assume "level ?t h' \<noteq> LockNone" "level ?t h' \<noteq> LockShared"
    then show "writer ?t = Some h'"
      using inv(3) [of h'] inv(3) [of h] nn lev wr down by (cases "h' = h") auto
  next
    fix h' assume "writer ?t = Some h'"
    then show "level ?t h' \<noteq> LockNone \<and> level ?t h' \<noteq> LockShared"
      using inv(4) [of h'] lev wr by (cases "h' = h") (auto split: if_splits)
  next
    fix h1 h2 assume "level ?t h1 = LockExclusive" "h2 \<noteq> h1"
    then show "level ?t h2 = LockNone"
      using inv(5) [of h1 h] inv(5) [of h1 h2] nn lx lev by (cases "h1 = h") auto
  qed
qed

lemma lock_reachable_inv: "lock_reachable H s \<Longrightarrow> finite H \<Longrightarrow> lock_inv H s"
proof (induction rule: lock_reachable.induct)
  case init
  show ?case by (auto simp: lock_inv_def fresh_lock_def level_cases)
next
  case (step s t)
  then show ?case by (auto elim!: lock_stepE intro: Lock_inv Unlock_inv)
qed

lemmas reachable_inv = lock_reachable_inv [unfolded lock_inv_def, THEN conjunct2]

section \<open>Properties\<close>

text \<open>C38: In every interleaving of Lock and Unlock calls by finitely many handles, at most one handle is at
  RESERVED or above, and while some handle is EXCLUSIVE every other handle holds no lock at all.\<close>

theorem lock_mutual_exclusion:
  assumes "lock_reachable H s" "finite H"
  shows "(LockReserved \<le> level s h \<and> LockReserved \<le> level s h' \<longrightarrow> h = h') \<and>
     (level s h = LockExclusive \<and> h' \<noteq> h \<longrightarrow> level s h' = LockNone)"
  using reachable_inv [OF assms] by auto

definition exclusive_run :: "nat advisoryLock" where
  "exclusive_run = snd (Lock 0 LockExclusive (snd (Lock 0 LockShared fresh_lock)))"

lemma exclusive_reachable: "lock_reachable {0, 1} exclusive_run"
proof -
  have "lock_reachable {0, 1} (snd (Lock 0 LockShared fresh_lock))"
    by (rule lock_reachable.step [OF lock_reachable.init lock_step.lock]) simp_all
  then show ?thesis unfolding exclusive_run_def
    by (rule lock_reachable.step [OF _ lock_step.lock]) (simp_all add: Lock_def fresh_lock_def level_defs)
qed

theorem lock_mutual_exclusion_witness:
  "level exclusive_run 0 = LockExclusive \<and> level exclusive_run 1 = LockNone"
  using lock_mutual_exclusion [OF exclusive_reachable, of 0 1]
  by (simp add: exclusive_run_def Lock_def fresh_lock_def level_defs other_writer_def)

lemma lone_reader:
  assumes "lock_reachable H s" "finite H" "level s h \<noteq> LockNone"
  shows "nShared s \<le> 1 \<longleftrightarrow> (\<forall>h'. h' \<noteq> h \<longrightarrow> level s h' = LockNone)"
proof -
  note inv = lock_invD [OF lock_reachable_inv [OF assms(1,2)]]
  let ?R = "{x \<in> H. level s x \<noteq> LockNone}"
  have h: "h \<in> H" using inv(2) assms(3) by blast
  have "nShared s \<le> 1 \<longleftrightarrow> card (?R - {h}) = 0"
    using readers_split [OF assms(2) h, of s] assms(3) inv(1) by simp
  also have "\<dots> \<longleftrightarrow> ?R - {h} = {}" using assms(2) by (subst card_0_eq) auto
  also have "\<dots> \<longleftrightarrow> (\<forall>h'. h' \<noteq> h \<longrightarrow> level s h' = LockNone)" using inv(2) by auto
  finally show ?thesis .
qed


definition two_readers :: "nat advisoryLock" where
  "two_readers = snd (Lock 1 LockShared (snd (Lock 0 LockShared fresh_lock)))"

lemma two_readers_reachable: "lock_reachable {0, 1, 2} two_readers"
proof -
  have "lock_reachable {0, 1, 2} (snd (Lock 0 LockShared fresh_lock))"
    by (rule lock_reachable.step [OF lock_reachable.init lock_step.lock]) simp_all
  then show ?thesis unfolding two_readers_def
    by (rule lock_reachable.step [OF _ lock_step.lock]) simp_all
qed


end
