(* ===== verification/Mem_Files.thy ===== *)
theory Mem_Files
  imports Token_Registry
begin

text \<open>
  Named in-memory databases and their file handles, as \<^verbatim>\<open>vfs/memdb\<close> and \<^verbatim>\<open>vfs/mvcc\<close> both keep them: a
  name that starts with a slash is shared between the connections of the process, any other name is private to
  its opener. \<open>fs_heap\<close> is the store of \<^verbatim>\<open>*memDB\<close> objects by address, \<open>fs_next\<close> the next unused
  address, \<open>fs_handles\<close> the \<^verbatim>\<open>fileHandles\<close> registry. The functions take the initial contents of a
  database and the handle constructor as arguments; \<^verbatim>\<open>Memdb\<close> and \<^verbatim>\<open>Mvcc\<close> instantiate them.
\<close>

datatype rc = SQLITE_OK | SQLITE_BUSY | SQLITE_CANTOPEN | SQLITE_READONLY | SQLITE_IOERR_READ | SQLITE_IOERR_WRITE
  | SQLITE_IOERR_TRUNCATE | SQLITE_IOERR_LOCK | SQLITE_IOERR_SHORT_READ | SQLITE_IOERR_SHMMAP
  | SQLITE_IOERR_SHMLOCK | SQLITE_IOERR_NOMEM

record 'd memDB =
  db_name :: string
  db_data :: 'd
  db_refs :: int

record fileHandle =
  h_db :: nat
  h_shared :: bool
  h_readOnly :: bool

record ('d, 'h) memFS =
  fs_heap :: "nat \<Rightarrow> 'd memDB"
  fs_next :: nat
  fs_memDBs :: "(string \<times> nat) list"
  fs_handles :: "'h registry"

record openFlags =
  fl_mainDB :: bool
  fl_tempDB :: bool
  fl_transientDB :: bool
  fl_deleteOnClose :: bool
  fl_readOnly :: bool

section \<open>Operations\<close>

definition HasPrefix :: "string \<Rightarrow> string \<Rightarrow> bool" where
  "HasPrefix s p \<longleftrightarrow> take (length p) s = p"

definition TrimPrefix :: "string \<Rightarrow> string \<Rightarrow> string" where
  "TrimPrefix s p = (if HasPrefix s p then drop (length p) s else s)"

definition shared_name :: "string \<Rightarrow> bool" where
  "shared_name name \<longleftrightarrow> HasPrefix name ''/'' \<or> HasPrefix name ''file:/''"

definition name_key :: "string \<Rightarrow> string" where
  "name_key name = dropWhile (\<lambda>c. c = CHR ''/'') (TrimPrefix name ''file:'')"

definition addRef :: "int \<Rightarrow> nat \<Rightarrow> ('d, 'h) memFS \<Rightarrow> ('d, 'h) memFS" where
  "addRef d p fs = fs\<lparr>fs_heap := (fs_heap fs)(p := (fs_heap fs p)\<lparr>db_refs := db_refs (fs_heap fs p) + d\<rparr>)\<rparr>"

definition newDB :: "string \<Rightarrow> 'd \<Rightarrow> ('d, 'h) memFS \<Rightarrow> nat \<times> ('d, 'h) memFS" where
  "newDB name d fs = (fs_next fs, fs\<lparr>fs_heap := (fs_heap fs)(fs_next fs := \<lparr>db_name = name, db_data = d, db_refs = 1\<rparr>),
     fs_next := fs_next fs + 1\<rparr>)"

definition acquireDB :: "'d \<Rightarrow> string \<Rightarrow> ('d, 'h) memFS \<Rightarrow> (nat \<times> bool) \<times> ('d, 'h) memFS" where
  "acquireDB d0 name fs =
     (if shared_name name
      then case map_of (fs_memDBs fs) (name_key name) of
             Some p \<Rightarrow> ((p, True), addRef 1 p fs)
           | None \<Rightarrow> (case newDB (name_key name) d0 fs of
               (p, fs') \<Rightarrow> ((p, True), fs'\<lparr>fs_memDBs := AList.update (name_key name) p (fs_memDBs fs')\<rparr>))
      else case newDB name d0 fs of (p, fs') \<Rightarrow> ((p, False), fs'))"

definition releaseDB :: "nat \<Rightarrow> bool \<Rightarrow> ('d, 'h) memFS \<Rightarrow> ('d, 'h) memFS" where
  "releaseDB p shared fs =
     (let fs' = addRef (- 1) p fs
      in if \<not> shared then fs'
         else if db_refs (fs_heap fs' p) = 0 \<and> map_of (fs_memDBs fs') (db_name (fs_heap fs' p)) = Some p
         then fs'\<lparr>fs_memDBs := AList.delete (db_name (fs_heap fs' p)) (fs_memDBs fs')\<rparr>
         else fs')"

definition open_file ::
  "'d \<Rightarrow> (nat \<Rightarrow> bool \<Rightarrow> bool \<Rightarrow> 'h) \<Rightarrow> string \<Rightarrow> openFlags \<Rightarrow> ('d, 'h) memFS \<Rightarrow> (rc \<times> nat) \<times> ('d, 'h) memFS" where
  "open_file d0 mk name flags fs =
     (if \<not> (fl_mainDB flags \<or> fl_tempDB flags \<or> fl_transientDB flags) \<and> \<not> fl_deleteOnClose flags
      then ((SQLITE_CANTOPEN, 0), fs)
      else case (if fl_mainDB flags then acquireDB d0 name fs
                 else case newDB name d0 fs of (p, fs') \<Rightarrow> ((p, False), fs')) of
        ((p, shared), fs') \<Rightarrow>
          (case Register (mk p shared (fl_readOnly flags)) (fs_handles fs') of
             (tok, hs) \<Rightarrow> ((SQLITE_OK, tok), fs'\<lparr>fs_handles := hs\<rparr>)))"

definition close_file :: "nat \<Rightarrow> ('d, 'z fileHandle_scheme) memFS \<Rightarrow> ('d, 'z fileHandle_scheme) memFS" where
  "close_file tok fs =
     (case Lookup tok (fs_handles fs) of
        None \<Rightarrow> fs
      | Some h \<Rightarrow> releaseDB (h_db h) (h_shared h) (fs\<lparr>fs_handles := Unregister tok (fs_handles fs)\<rparr>))"

definition emptyFS :: "'d \<Rightarrow> ('d, 'h) memFS" where
  "emptyFS d = \<lparr>fs_heap = (\<lambda>_. \<lparr>db_name = [], db_data = d, db_refs = 0\<rparr>), fs_next = 0, fs_memDBs = [],
     fs_handles = NewRegistry\<rparr>"

section \<open>Reference counts and names\<close>

definition holders :: "('d, 'z fileHandle_scheme) memFS \<Rightarrow> nat \<Rightarrow> nat set" where
  "holders fs p = {tok. \<exists>h. Lookup tok (fs_handles fs) = Some h \<and> h_db h = p}"

definition fs_inv :: "('d, 'z fileHandle_scheme) memFS \<Rightarrow> bool" where
  "fs_inv fs \<longleftrightarrow> reg_inv (fs_handles fs) \<and>
     (\<forall>p < fs_next fs. db_refs (fs_heap fs p) = int (card (holders fs p))) \<and>
     (\<forall>tok h. Lookup tok (fs_handles fs) = Some h \<longrightarrow> h_db h < fs_next fs \<and>
        (if h_shared h then map_of (fs_memDBs fs) (db_name (fs_heap fs (h_db h))) = Some (h_db h)
         else holders fs (h_db h) = {tok} \<and> h_db h \<notin> ran (map_of (fs_memDBs fs)))) \<and>
     (\<forall>k p. map_of (fs_memDBs fs) k = Some p \<longrightarrow>
        p < fs_next fs \<and> db_name (fs_heap fs p) = k \<and> holders fs p \<noteq> {})"

lemma finite_holders [simp]: "finite (holders fs p)"
proof -
  have "holders fs p \<subseteq> dom (map_of (rg_m (fs_handles fs)))"
    by (auto simp: holders_def Lookup_def split: if_splits)
  then show ?thesis by (rule finite_subset) (simp add: finite_dom_map_of)
qed

lemma fs_invD:
  assumes "fs_inv fs"
  shows "reg_inv (fs_handles fs)"
    "p < fs_next fs \<Longrightarrow> db_refs (fs_heap fs p) = int (card (holders fs p))"
    "Lookup tok (fs_handles fs) = Some h \<Longrightarrow> h_db h < fs_next fs"
    "Lookup tok (fs_handles fs) = Some h \<Longrightarrow> h_shared h \<Longrightarrow>
       map_of (fs_memDBs fs) (db_name (fs_heap fs (h_db h))) = Some (h_db h)"
    "Lookup tok (fs_handles fs) = Some h \<Longrightarrow> \<not> h_shared h \<Longrightarrow>
       holders fs (h_db h) = {tok} \<and> h_db h \<notin> ran (map_of (fs_memDBs fs))"
    "map_of (fs_memDBs fs) k = Some p \<Longrightarrow> p < fs_next fs \<and> db_name (fs_heap fs p) = k \<and> holders fs p \<noteq> {}"
  using assms unfolding fs_inv_def by (auto split: if_splits)

lemma emptyFS_inv [simp]: "fs_inv (emptyFS d)"
  by (simp add: fs_inv_def emptyFS_def holders_def Lookup_def NewRegistry_def reg_inv_def)

lemma holders_handles: "fs_handles fs' = fs_handles fs \<Longrightarrow> holders fs' = holders fs"
  by (simp add: holders_def fun_eq_iff)

text \<open>Writing a database's contents or a handle's own state touches neither names nor references.\<close>

definition set_data :: "nat \<Rightarrow> 'd \<Rightarrow> ('d, 'h) memFS \<Rightarrow> ('d, 'h) memFS" where
  "set_data p d fs = fs\<lparr>fs_heap := (fs_heap fs)(p := (fs_heap fs p)\<lparr>db_data := d\<rparr>)\<rparr>"

definition set_handle :: "nat \<Rightarrow> 'h \<Rightarrow> ('d, 'h) memFS \<Rightarrow> ('d, 'h) memFS" where
  "set_handle tok h fs = fs\<lparr>fs_handles := (fs_handles fs)\<lparr>rg_m := AList.update tok h (rg_m (fs_handles fs))\<rparr>\<rparr>"

lemma set_data_simps [simp]:
  "fs_handles (set_data p d fs) = fs_handles fs" "fs_next (set_data p d fs) = fs_next fs"
  "fs_memDBs (set_data p d fs) = fs_memDBs fs" "db_name (fs_heap (set_data p d fs) q) = db_name (fs_heap fs q)"
  "db_refs (fs_heap (set_data p d fs) q) = db_refs (fs_heap fs q)"
  "db_data (fs_heap (set_data p d fs) q) = (if q = p then d else db_data (fs_heap fs q))"
  by (simp_all add: set_data_def)

lemma fs_inv_data: "fs_inv fs \<Longrightarrow> fs_inv (set_data p d fs)"
  using holders_handles [of "set_data p d fs" fs] by (simp add: fs_inv_def)

lemma set_handle_simps [simp]:
  "fs_heap (set_handle tok h fs) = fs_heap fs" "fs_next (set_handle tok h fs) = fs_next fs"
  "fs_memDBs (set_handle tok h fs) = fs_memDBs fs"
  "tok \<noteq> 0 \<Longrightarrow> Lookup t (fs_handles (set_handle tok h fs)) = (if t = tok then Some h else Lookup t (fs_handles fs))"
  by (simp_all add: set_handle_def Lookup_def update_conv')

lemma Lookup_zero [simp]: "Lookup 0 r = None"
  by (simp add: Lookup_def)

lemma holders_set_handle:
  assumes "Lookup tok (fs_handles fs) = Some h0" "h_db h = h_db h0"
  shows "holders (set_handle tok h fs) = holders fs"
proof -
  have "tok \<noteq> 0" using assms(1) by (cases "tok = 0") simp_all
  then show ?thesis using assms by (auto simp: holders_def fun_eq_iff)
qed

lemma fs_inv_handle:
  assumes "fs_inv fs" "Lookup tok (fs_handles fs) = Some h0" "h_db h = h_db h0" "h_shared h = h_shared h0"
  shows "fs_inv (set_handle tok h fs)"
proof -
  have nz: "tok \<noteq> 0" and m: "map_of (rg_m (fs_handles fs)) tok = Some h0"
    using assms(2) by (auto simp: Lookup_def split: if_splits)
  then have "fst ` set (AList.update tok h (rg_m (fs_handles fs))) = fst ` set (rg_m (fs_handles fs))"
    by (simp only: dom_map_of_conv_image_fst [symmetric] update_conv' dom_fun_upd) auto
  then have "reg_inv (fs_handles (set_handle tok h fs))"
    using fs_invD(1) [OF assms(1)] by (simp add: reg_inv_def set_handle_def distinct_update)
  then show ?thesis
    using assms nz holders_set_handle [OF assms(2,3)] by (auto simp: fs_inv_def)
qed

section \<open>Opening and closing\<close>

lemma holders_fresh: "fs_inv fs \<Longrightarrow> fs_next fs \<le> p \<Longrightarrow> holders fs p = {}"
  using fs_invD(3) by (fastforce simp: holders_def)

lemma holders_register:
  assumes "reg_inv (fs_handles fs)" "\<not> exhausted (fs_handles fs)" "Register h (fs_handles fs) = (tok, hs)"
    "fs_handles fs' = hs"
  shows "holders fs' q = (if q = h_db h then insert tok (holders fs q) else holders fs q)" "tok \<notin> holders fs q"
    "Lookup t hs = (if t = tok then Some h else Lookup t (fs_handles fs))"
proof -
  show look: "Lookup t hs = (if t = tok then Some h else Lookup t (fs_handles fs))" for t
    using cabi.find_mint [OF assms(1,2), of t h] assms(3) by simp
  have "Lookup tok (fs_handles fs) = None" using cabi.mint_fresh [OF assms(1,2), of h] assms(3) by simp
  then show "holders fs' q = (if q = h_db h then insert tok (holders fs q) else holders fs q)" "tok \<notin> holders fs q"
    using assms(4) by (auto simp: holders_def look)
qed

text \<open>Attaching a new handle to database \<open>p\<close>, which is either fresh or the one its name leads to.\<close>

lemma attach_inv:
  assumes inv: "fs_inv fs" and ne: "\<not> exhausted (fs_handles fs)" and reg: "Register h (fs_handles fs) = (tok, hs)"
    and p: "h_db h = p" "p < fs_next fs'" "fs_next fs \<le> fs_next fs'"
    and same: "\<And>q. q < fs_next fs' \<Longrightarrow> q \<noteq> p \<Longrightarrow> q < fs_next fs \<and> fs_heap fs' q = fs_heap fs q"
    and refs: "db_refs (fs_heap fs' p) = int (card (holders fs p)) + 1"
    and kind: "p = fs_next fs \<and> map_of (fs_memDBs fs) (db_name (fs_heap fs' p)) = None \<or> p = fs_next fs \<and> \<not> h_shared h \<or>
      h_shared h \<and> map_of (fs_memDBs fs) (db_name (fs_heap fs' p)) = Some p"
    and name: "p < fs_next fs \<Longrightarrow> db_name (fs_heap fs' p) = db_name (fs_heap fs p)"
    and m: "map_of (fs_memDBs fs') = (if h_shared h then (map_of (fs_memDBs fs))(db_name (fs_heap fs' p) \<mapsto> p)
        else map_of (fs_memDBs fs))"
  shows "fs_inv (fs'\<lparr>fs_handles := hs\<rparr>)"
proof -
  let ?fs = "fs'\<lparr>fs_handles := hs\<rparr>"
  note hr = holders_register [OF fs_invD(1) [OF inv] ne reg, of ?fs, simplified]
  have fresh: "holders fs p = {}" if "p = fs_next fs" using holders_fresh [OF inv] that by simp
  have nran: "p \<notin> ran (map_of (fs_memDBs fs))" if "p = fs_next fs"
    using fs_invD(6) [OF inv] that by (auto simp: ran_def)
  have names: "db_name (fs_heap fs' q) = db_name (fs_heap fs q)" if "q < fs_next fs" for q
    using name same [of q] that p(3) by (cases "q = p") auto
  have old: "map_of (fs_memDBs fs') k = Some q" if "map_of (fs_memDBs fs) k = Some q" for k q
    using that kind m fs_invD(6) [OF inv that] by auto
  show ?thesis unfolding fs_inv_def
  proof (intro conjI allI impI)
    show "reg_inv (fs_handles ?fs)" using cabi.mint_ok [OF fs_invD(1) [OF inv] ne, of h] reg by simp
  next
    fix q assume "q < fs_next ?fs"
    then show "db_refs (fs_heap ?fs q) = int (card (holders ?fs q))"
      using same [of q] refs p hr fs_invD(2) [OF inv, of q] by (cases "q = p") simp_all
  next
    fix t g assume t: "Lookup t (fs_handles ?fs) = Some g"
    show "h_db g < fs_next ?fs" using t hr(3) fs_invD(3) [OF inv, of t g] p by (auto split: if_splits)
    show "if h_shared g then map_of (fs_memDBs ?fs) (db_name (fs_heap ?fs (h_db g))) = Some (h_db g)
        else holders ?fs (h_db g) = {t} \<and> h_db g \<notin> ran (map_of (fs_memDBs ?fs))"
    proof (cases "t = tok")
      case True
      then have "g = h" using t hr(3) by simp
      then show ?thesis using kind m p hr(1) fresh nran True by (auto split: if_splits)
    next
      case False
      then have l: "Lookup t (fs_handles fs) = Some g" using t hr(3) by simp
      note lt = fs_invD(3) [OF inv l]
      show ?thesis
      proof (cases "h_shared g")
        case True
        then show ?thesis using old [OF fs_invD(4) [OF inv l]] names [OF lt] by simp
      next
        case priv: False
        have "h_db g \<noteq> p"
          using kind lt fs_invD(5) [OF inv l priv] by (auto simp: ran_def)
        then show ?thesis using fs_invD(5) [OF inv l priv] hr(1) p(1) m priv by (auto simp: ran_def)
      qed
    qed
  next
    fix k q assume k: "map_of (fs_memDBs ?fs) k = Some q"
    show "q < fs_next ?fs" "db_name (fs_heap ?fs q) = k" "holders ?fs q \<noteq> {}"
      using k m p hr(1) fs_invD(6) [OF inv, of k q] names [of q] by (auto split: if_splits)
  qed
qed

definition handle_ctor :: "(nat \<Rightarrow> bool \<Rightarrow> bool \<Rightarrow> 'z fileHandle_scheme) \<Rightarrow> bool" where
  "handle_ctor mk \<longleftrightarrow> (\<forall>p sh ro. h_db (mk p sh ro) = p \<and> h_shared (mk p sh ro) = sh \<and> h_readOnly (mk p sh ro) = ro)"

lemma open_inv:
  assumes inv: "fs_inv fs" and ne: "\<not> exhausted (fs_handles fs)" and mk: "handle_ctor mk"
  shows "fs_inv (snd (open_file d0 mk name flags fs))"
proof -
  let ?ok = "fl_mainDB flags \<or> fl_tempDB flags \<or> fl_transientDB flags \<or> fl_deleteOnClose flags"
  define ps where "ps = (if fl_mainDB flags then acquireDB d0 name fs
      else case newDB name d0 fs of (p, fs') \<Rightarrow> ((p, False), fs'))"
  obtain p sh fs' where a: "ps = ((p, sh), fs')" by (metis prod.exhaust)
  obtain tok hs where reg: "Register (mk p sh (fl_readOnly flags)) (fs_handles fs) = (tok, hs)"
    by fastforce
  have h: "h_db (mk p sh r) = p" "h_shared (mk p sh r) = sh" for r using mk by (simp_all add: handle_ctor_def)
  have hs: "fs_handles fs' = fs_handles fs"
    using a by (auto simp: ps_def acquireDB_def newDB_def addRef_def split: if_splits option.splits)
  have "fs_inv (fs'\<lparr>fs_handles := hs\<rparr>)"
  proof (rule attach_inv [OF inv ne reg h(1)])
    show "p < fs_next fs'" "fs_next fs \<le> fs_next fs'"
      using a fs_invD(6) [OF inv, of "name_key name"]
      by (auto simp: ps_def acquireDB_def newDB_def addRef_def split: if_splits option.splits)
    show "q < fs_next fs \<and> fs_heap fs' q = fs_heap fs q" if "q < fs_next fs'" "q \<noteq> p" for q
      using a that by (auto simp: ps_def acquireDB_def newDB_def addRef_def split: if_splits option.splits)
    show "db_refs (fs_heap fs' p) = int (card (holders fs p)) + 1"
      using a fs_invD(2,6) [OF inv] holders_fresh [OF inv, of p]
      by (auto simp: ps_def acquireDB_def newDB_def addRef_def split: if_splits option.splits)
    show "p = fs_next fs \<and> map_of (fs_memDBs fs) (db_name (fs_heap fs' p)) = None \<or>
        p = fs_next fs \<and> \<not> h_shared (mk p sh (fl_readOnly flags)) \<or>
        h_shared (mk p sh (fl_readOnly flags)) \<and> map_of (fs_memDBs fs) (db_name (fs_heap fs' p)) = Some p"
      using a fs_invD(6) [OF inv, of "name_key name"]
      by (auto simp: h ps_def acquireDB_def newDB_def addRef_def split: if_splits option.splits)
    show "db_name (fs_heap fs' p) = db_name (fs_heap fs p)" if "p < fs_next fs"
      using a that by (auto simp: ps_def acquireDB_def newDB_def addRef_def split: if_splits option.splits)
    show "map_of (fs_memDBs fs') = (if h_shared (mk p sh (fl_readOnly flags))
        then (map_of (fs_memDBs fs))(db_name (fs_heap fs' p) \<mapsto> p) else map_of (fs_memDBs fs))"
      using a fs_invD(6) [OF inv, of "name_key name"]
      by (auto simp: h ps_def acquireDB_def newDB_def addRef_def update_conv' map_upd_triv
          split: if_splits option.splits)
  qed
  then show ?thesis
    using a reg hs inv by (auto simp: open_file_def ps_def [symmetric])
qed

lemma close_inv:
  assumes inv: "fs_inv fs"
  shows "fs_inv (close_file tok fs)"
proof (cases "Lookup tok (fs_handles fs)")
  case None
  then show ?thesis using inv by (simp add: close_file_def)
next
  case (Some h)
  let ?hs = "Unregister tok (fs_handles fs)" and ?p = "h_db h" and ?fs = "close_file tok fs"
  have look: "Lookup t ?hs = (if t = tok then None else Lookup t (fs_handles fs))" for t
    by (rule cabi.find_drop [OF fs_invD(1) [OF inv]])
  have hs: "fs_handles ?fs = ?hs" "fs_next ?fs = fs_next fs"
    using Some by (simp_all add: close_file_def releaseDB_def addRef_def Let_def)
  have hold: "holders ?fs q = (if q = ?p then holders fs q - {tok} else holders fs q)" for q
    using Some by (auto simp: holders_def hs look)
  have mem: "tok \<in> holders fs ?p" using Some by (simp add: holders_def)
  have heap: "db_name (fs_heap ?fs q) = db_name (fs_heap fs q)"
      "db_refs (fs_heap ?fs q) = db_refs (fs_heap fs q) - (if q = ?p then 1 else 0)" for q
    using Some by (auto simp: close_file_def releaseDB_def addRef_def Let_def)
  have refs: "db_refs (fs_heap ?fs q) = int (card (holders ?fs q))" if "q < fs_next fs" for q
    using fs_invD(2) [OF inv that] mem card_gt_0_iff [of "holders fs ?p"]
    by (auto simp: hold heap card_Diff_singleton)
  have m: "map_of (fs_memDBs ?fs) = (if h_shared h \<and> holders ?fs ?p = {}
      then (map_of (fs_memDBs fs))(db_name (fs_heap fs ?p) := None) else map_of (fs_memDBs fs))"
  proof -
    have z: "db_refs (fs_heap fs ?p) - 1 = 0 \<longleftrightarrow> holders ?fs ?p = {}"
      using refs [OF fs_invD(3) [OF inv Some]] heap(2) [of ?p] by simp
    have nm: "h_shared h \<Longrightarrow> map_of (fs_memDBs fs) (db_name (fs_heap fs ?p)) = Some ?p"
      by (rule fs_invD(4) [OF inv Some])
    have "fs_memDBs ?fs = (if h_shared h \<and> db_refs (fs_heap fs ?p) - 1 = 0
        then AList.delete (db_name (fs_heap fs ?p)) (fs_memDBs fs) else fs_memDBs fs)"
      using Some nm by (auto simp: close_file_def releaseDB_def addRef_def Let_def)
    then show ?thesis unfolding z by (simp add: delete_conv')
  qed
  have inj: "q = ?p" if "map_of (fs_memDBs fs) k = Some q" "k = db_name (fs_heap fs ?p)" "h_shared h" for k q
    using that fs_invD(4) [OF inv Some] by simp
  show ?thesis unfolding fs_inv_def hs heap(1)
  proof (intro conjI allI impI)
    show "reg_inv ?hs" by (rule cabi.drop_ok [OF fs_invD(1) [OF inv]])
    show "db_refs (fs_heap ?fs q) = int (card (holders ?fs q))" if "q < fs_next fs" for q
      by (rule refs [OF that])
  next
    fix t g assume "Lookup t ?hs = Some g"
    then have t: "t \<noteq> tok" "Lookup t (fs_handles fs) = Some g" by (auto simp: look split: if_splits)
    show "h_db g < fs_next fs" by (rule fs_invD(3) [OF inv t(2)])
    have live: "t \<in> holders ?fs (h_db g)" using t by (auto simp: holders_def hs look)
    show "if h_shared g then map_of (fs_memDBs ?fs) (db_name (fs_heap fs (h_db g))) = Some (h_db g)
        else holders ?fs (h_db g) = {t} \<and> h_db g \<notin> ran (map_of (fs_memDBs ?fs))"
    proof (cases "h_shared g")
      case True
      have "map_of (fs_memDBs fs) (db_name (fs_heap fs (h_db g))) = Some (h_db g)"
        by (rule fs_invD(4) [OF inv t(2) True])
      then show ?thesis using live inj True by (auto simp: m)
    next
      case False
      then show ?thesis using fs_invD(5) [OF inv t(2) False] t(1) by (auto simp: m hold ran_def)
    qed
  next
    fix k q assume k: "map_of (fs_memDBs ?fs) k = Some q"
    then have k': "map_of (fs_memDBs fs) k = Some q" by (auto simp: m split: if_splits)
    note d = fs_invD(6) [OF inv k']
    show "q < fs_next fs" "db_name (fs_heap fs q) = k" using d by auto
    show "holders ?fs q \<noteq> {}"
    proof (cases "q = ?p")
      case True
      have "h_shared h" using fs_invD(5) [OF inv Some] k' True by (auto simp: ran_def)
      then show ?thesis using k d True by (auto simp: m split: if_splits)
    next
      case False
      then show ?thesis using d by (simp add: hold)
    qed
  qed
qed

lemma open_data:
  "db_data (fs_heap (snd (open_file d0 mk name flags fs)) p) = db_data (fs_heap fs p) \<or>
   db_data (fs_heap (snd (open_file d0 mk name flags fs)) p) = d0"
  by (auto simp: open_file_def acquireDB_def newDB_def addRef_def split: option.splits prod.splits)

lemma close_data [simp]: "db_data (fs_heap (close_file tok fs) p) = db_data (fs_heap fs p)"
  by (auto simp: close_file_def releaseDB_def addRef_def Let_def split: option.splits)

lemma open_old_data:
  assumes "fs_inv fs" "p < fs_next fs"
  shows "db_data (fs_heap (snd (open_file d0 mk name flags fs)) p) = db_data (fs_heap fs p)"
  using assms by (auto simp: open_file_def acquireDB_def newDB_def addRef_def split: option.splits prod.splits)

lemma open_lookup:
  assumes "fs_inv fs" "\<not> exhausted (fs_handles fs)" "handle_ctor mk"
  shows "snd (open_file d0 mk name flags fs) = fs \<or>
    (\<exists>tok p sh. Lookup tok (fs_handles fs) = None \<and>
       (\<forall>t. Lookup t (fs_handles (snd (open_file d0 mk name flags fs)))
          = (if t = tok then Some (mk p sh (fl_readOnly flags)) else Lookup t (fs_handles fs))))"
proof -
  define ps where "ps = (if fl_mainDB flags then acquireDB d0 name fs
      else case newDB name d0 fs of (p, fs') \<Rightarrow> ((p, False), fs'))"
  obtain p sh fs' where a: "ps = ((p, sh), fs')" by (metis prod.exhaust)
  have hs: "fs_handles fs' = fs_handles fs"
    using a by (auto simp: ps_def acquireDB_def newDB_def addRef_def split: if_splits option.splits)
  obtain tok hs where reg: "Register (mk p sh (fl_readOnly flags)) (fs_handles fs) = (tok, hs)" by fastforce
  note mint = cabi.find_mint [OF fs_invD(1) [OF assms(1)] assms(2), of _ "mk p sh (fl_readOnly flags)", unfolded reg]
    cabi.mint_fresh [OF fs_invD(1) [OF assms(1)] assms(2), of "mk p sh (fl_readOnly flags)", unfolded reg]
  show ?thesis
    using a hs reg mint by (auto simp: open_file_def ps_def [symmetric] split: if_splits)
qed

lemma open_next: "fs_next fs \<le> fs_next (snd (open_file d0 mk name flags fs))"
  by (auto simp: open_file_def acquireDB_def newDB_def addRef_def split: option.splits prod.splits)

lemma open_fresh_data:
  assumes "fs_inv fs" "fs_next fs \<le> p" "p < fs_next (snd (open_file d0 mk name flags fs))"
  shows "db_data (fs_heap (snd (open_file d0 mk name flags fs)) p) = d0"
  using assms by (auto simp: open_file_def acquireDB_def newDB_def addRef_def split: option.splits prod.splits if_splits)

lemma close_lookup:
  "reg_inv (fs_handles fs) \<Longrightarrow> Lookup t (fs_handles (close_file tok fs)) = (if t = tok then None else Lookup t (fs_handles fs))"
  using cabi.find_drop [of "fs_handles fs" t tok]
  by (auto simp: close_file_def releaseDB_def addRef_def Let_def split: option.splits)

lemma close_next [simp]: "fs_next (close_file tok fs) = fs_next fs"
  by (simp add: close_file_def releaseDB_def addRef_def Let_def split: option.splits)

end
