(* ===== verification/Mem_Pages.thy ===== *)
theory Mem_Pages
  imports Prelude
begin

text \<open>
  The page store of the in-memory file systems: \<^verbatim>\<open>vfs/internal/memio\<close> and the page-map code that
  \<^verbatim>\<open>vfs/memdb\<close> and \<^verbatim>\<open>vfs/mvcc\<close> share. A file is a Go \<^verbatim>\<open>map[int64][]byte\<close> from the offset of a write to
  its bytes, here an association list with distinct keys; \<^verbatim>\<open>range\<close> over such a map visits it in an
  unspecified order, which is the order of the list, and the results below do not depend on it.
  \<open>content\<close> is the file the map stands for, a function from offsets to bytes.
\<close>

type_synonym pages = "(nat \<times> bytes) list"

section \<open>Operations\<close>

definition overlap_copy :: "nat \<Rightarrow> nat \<Rightarrow> nat \<times> bytes \<Rightarrow> bytes \<times> nat \<Rightarrow> bytes \<times> nat" where
  "overlap_copy off e p r =
     (let pageEnd = fst p + length (snd p); s = max (fst p) off; t = min pageEnd e
      in if t \<le> s then r
         else (blit (s - off) (bslice (s - fst p) (t - fst p) (snd p)) (fst r),
               if snd r < t - s then t - s else snd r))"

definition ReadFromPages :: "pages \<Rightarrow> nat \<Rightarrow> nat \<Rightarrow> bytes \<Rightarrow> bytes \<times> nat" where
  "ReadFromPages m off e dst = fold (overlap_copy off e) m (dst, 0)"

text \<open>The loop of \<^verbatim>\<open>xTruncate\<close>: pages from the new size on are deleted, a page across it is cut.\<close>

definition cut_page :: "nat \<Rightarrow> nat \<times> bytes \<Rightarrow> nat \<times> bytes" where
  "cut_page sz p = (if sz < fst p + length (snd p) then (fst p, take (sz - fst p) (snd p)) else p)"

definition truncate_pages :: "nat \<Rightarrow> pages \<Rightarrow> pages" where
  "truncate_pages sz m = map (cut_page sz) (filter (\<lambda>p. fst p < sz) m)"

section \<open>The file a page map stands for\<close>

definition covers :: "nat \<times> bytes \<Rightarrow> nat \<Rightarrow> bool" where
  "covers p x \<longleftrightarrow> fst p \<le> x \<and> x < fst p + length (snd p)"

definition content :: "pages \<Rightarrow> nat \<Rightarrow> byte" where
  "content m x = (case find (\<lambda>p. covers p x) m of None \<Rightarrow> 0 | Some p \<Rightarrow> snd p ! (x - fst p))"

definition disjoint_pages :: "pages \<Rightarrow> bool" where
  "disjoint_pages m \<longleftrightarrow> distinct (map fst m) \<and>
     (\<forall>p\<in>set m. \<forall>q\<in>set m. \<forall>x. covers p x \<longrightarrow> covers q x \<longrightarrow> p = q)"

lemma content_covered:
  assumes "disjoint_pages m" "p \<in> set m" "covers p x"
  shows "content m x = snd p ! (x - fst p)"
proof -
  obtain q where "find (\<lambda>p. covers p x) m = Some q"
    using assms(2,3) find_None_iff [of "\<lambda>p. covers p x" m] by (cases "find (\<lambda>p. covers p x) m") blast+
  moreover then have "q \<in> set m" "covers q x" by (auto simp: find_Some_iff)
  ultimately show ?thesis using assms by (auto simp: content_def disjoint_pages_def)
qed

lemma content_uncovered: "\<forall>p\<in>set m. \<not> covers p x \<Longrightarrow> content m x = 0"
  using find_None_iff [of "\<lambda>p. covers p x" m] by (simp add: content_def)

lemma content_Nil [simp]: "content [] x = 0"
  by (simp add: content_def)

lemma disjoint_pages_Nil [simp]: "disjoint_pages []"
  by (simp add: disjoint_pages_def)

lemma disjoint_pages_Cons: "disjoint_pages (p # m) \<Longrightarrow> disjoint_pages m"
  by (simp add: disjoint_pages_def)

lemma content_eqI:
  assumes "disjoint_pages m" "\<And>p. p \<in> set m \<Longrightarrow> covers p x \<Longrightarrow> snd p ! (x - fst p) = y"
    "\<forall>p\<in>set m. \<not> covers p x \<Longrightarrow> y = 0"
  shows "content m x = y"
  using content_covered [OF assms(1), of _ x] content_uncovered [of m x] assms(2,3)
  by (cases "\<forall>p\<in>set m. \<not> covers p x") auto

text \<open>The order in which the runtime visits the map is irrelevant: disjoint maps with the same pages
  stand for the same file.\<close>

lemma content_order: "disjoint_pages m \<Longrightarrow> set m = set m' \<Longrightarrow> content m = content m'"
  if "distinct (map fst m')" for m m'
proof
  fix x assume "disjoint_pages m" "set m = set m'"
  then have "disjoint_pages m'" using that by (auto simp: disjoint_pages_def)
  then show "content m x = content m' x"
    using \<open>disjoint_pages m\<close> \<open>set m = set m'\<close>
    by (intro content_eqI) (auto simp: content_covered content_uncovered)
qed

section \<open>Reading\<close>

lemma length_overlap_copy [simp]: "length (fst (overlap_copy off e p r)) = length (fst r)"
  by (simp add: overlap_copy_def Let_def)

lemma length_fold_copy [simp]: "length (fst (fold (overlap_copy off e) m r)) = length (fst r)"
  by (induction m arbitrary: r) auto

lemma nth_overlap_copy:
  assumes "length (fst r) = e - off" "off \<le> x" "x < e"
  shows "fst (overlap_copy off e p r) ! (x - off) = (if covers p x then snd p ! (x - fst p) else fst r ! (x - off))"
proof -
  let ?s = "max (fst p) off" and ?t = "min (fst p + length (snd p)) e"
  show ?thesis
  proof (cases "?t \<le> ?s")
    case True
    then have "\<not> covers p x" using assms by (auto simp: covers_def)
    then show ?thesis using True by (simp add: overlap_copy_def Let_def)
  next
    case False
    let ?src = "bslice (?s - fst p) (?t - fst p) (snd p)"
    have len: "length ?src = ?t - ?s" using False by auto
    have "fst (overlap_copy off e p r) ! (x - off) = blit (?s - off) ?src (fst r) ! (x - off)"
      using False by (simp add: overlap_copy_def Let_def)
    also have "\<dots> = (if ?s - off \<le> x - off \<and> x - off < ?s - off + (?t - ?s) then ?src ! (x - off - (?s - off))
        else fst r ! (x - off))"
      using False assms len by (subst nth_blit) auto
    also have "(?s - off \<le> x - off \<and> x - off < ?s - off + (?t - ?s)) \<longleftrightarrow> covers p x"
      using False assms by (simp add: covers_def max_def min_def split: if_splits) linarith+
    also have "(if covers p x then ?src ! (x - off - (?s - off)) else fst r ! (x - off))
        = (if covers p x then snd p ! (x - fst p) else fst r ! (x - off))"
      using assms by (auto simp: covers_def nth_slice max_def min_def)
    finally show ?thesis .
  qed
qed

lemma nth_read_pages:
  assumes "disjoint_pages m" "length (fst r) = e - off" "off \<le> x" "x < e"
  shows "fst (fold (overlap_copy off e) m r) ! (x - off)
    = (if \<exists>p\<in>set m. covers p x then content m x else fst r ! (x - off))"
  using assms(1,2)
proof (induction m arbitrary: r)
  case (Cons p m)
  have dm: "disjoint_pages m" by (rule disjoint_pages_Cons [OF Cons.prems(1)])
  have ih: "fst (fold (overlap_copy off e) m (overlap_copy off e p r)) ! (x - off)
      = (if \<exists>p\<in>set m. covers p x then content m x else fst (overlap_copy off e p r) ! (x - off))"
    using Cons.prems(2) by (intro Cons.IH [OF dm]) simp
  have "content (p # m) x = (if covers p x then snd p ! (x - fst p) else content m x)"
    by (simp add: content_def)
  moreover have "content m x = snd p ! (x - fst p)" if "covers p x" "q \<in> set m" "covers q x" for q
    using that content_covered [OF dm that(2,3)] Cons.prems(1) by (auto simp: disjoint_pages_def)
  ultimately show ?case
    using ih nth_overlap_copy [OF Cons.prems(2) assms(3,4), of p] by auto
qed simp

lemma ReadFromPages_over:
  assumes "disjoint_pages m" "length dst = e - off"
  shows "fst (ReadFromPages m off e dst)
    = map (\<lambda>x. if \<exists>p\<in>set m. covers p x then content m x else dst ! (x - off)) [off..<e]"
proof (rule nth_equalityI)
  fix i assume "i < length (fst (ReadFromPages m off e dst))"
  then have "off \<le> off + i" "off + i < e" using assms(2) by (auto simp: ReadFromPages_def)
  then show "fst (ReadFromPages m off e dst) ! i
      = map (\<lambda>x. if \<exists>p\<in>set m. covers p x then content m x else dst ! (x - off)) [off..<e] ! i"
    using nth_read_pages [OF assms(1), of "(dst, 0)" e off "off + i"] assms(2) by (simp add: ReadFromPages_def)
qed (simp add: ReadFromPages_def assms(2))

lemma ReadFromPages_zeroed:
  assumes "disjoint_pages m"
  shows "fst (ReadFromPages m off e (replicate (e - off) 0)) = map (content m) [off..<e]"
  using assms content_uncovered [of m] by (auto simp: ReadFromPages_over)

text \<open>The count returned is large enough for the request exactly when one page holds all of it.\<close>

lemma filled_fold:
  "0 < n \<Longrightarrow> n \<le> snd (fold (overlap_copy off (off + n)) m r) \<longleftrightarrow>
     n \<le> snd r \<or> (\<exists>p\<in>set m. fst p \<le> off \<and> off + n \<le> fst p + length (snd p))"
proof (induction m arbitrary: r)
  case (Cons p m)
  have "n \<le> snd (overlap_copy off (off + n) p r) \<longleftrightarrow>
      n \<le> snd r \<or> fst p \<le> off \<and> off + n \<le> fst p + length (snd p)"
    using Cons.prems by (auto simp: overlap_copy_def Let_def max_def min_def)
  then show ?case using Cons by auto
qed simp

lemma filled_enough:
  "0 < n \<Longrightarrow> n \<le> snd (ReadFromPages m off (off + n) dst) \<longleftrightarrow>
     (\<exists>p\<in>set m. fst p \<le> off \<and> off + n \<le> fst p + length (snd p))"
  by (simp add: ReadFromPages_def filled_fold)

section \<open>Writing and truncating\<close>

text \<open>\<open>paged P\<close> is the shape SQLite's page-sized, page-aligned writes keep the map in.\<close>

definition paged :: "nat \<Rightarrow> pages \<Rightarrow> bool" where
  "paged P m \<longleftrightarrow> distinct (map fst m) \<and> (\<forall>p\<in>set m. P dvd fst p \<and> snd p \<noteq> [] \<and> length (snd p) \<le> P)"

lemma same_page:
  assumes "P dvd a" "P dvd b" "a \<le> x" "x < a + P" "b \<le> x" "x < b + P"
  shows "a = (b :: nat)"
proof -
  have "x div P = a div P" "x div P = b div P"
    using assms by (auto simp: div_nat_eqI algebra_simps)
  then show ?thesis using assms(1,2) by (metis dvd_div_mult_self)
qed

lemma covers_paged: "paged P m \<Longrightarrow> p \<in> set m \<Longrightarrow> covers p x \<Longrightarrow> fst p \<le> x \<and> x < fst p + P \<and> P dvd fst p"
  by (fastforce simp: paged_def covers_def)

lemma paged_disjoint: "paged P m \<Longrightarrow> disjoint_pages m"
proof -
  assume p: "paged P m"
  have "q = r" if "q \<in> set m" "r \<in> set m" "covers q x" "covers r x" for q r x
  proof -
    have "fst q = fst r"
      using covers_paged [OF p that(1,3)] covers_paged [OF p that(2,4)] by (blast intro: same_page)
    then show ?thesis
      using p that(1,2) by (auto simp: paged_def distinct_map dest: inj_onD)
  qed
  then show ?thesis using p by (auto simp: disjoint_pages_def paged_def)
qed

lemma paged_update:
  assumes "paged P m" "P dvd off" "length v = P" "0 < P"
  shows "paged P (AList.update off v m)"
  using assms by (auto simp: paged_def set_update_distinct distinct_update)

lemma content_update:
  assumes "paged P m" "P dvd off" "length v = P" "0 < P"
  shows "content (AList.update off v m) = put_bytes off v (content m)"
proof
  fix x
  let ?m = "AList.update off v m"
  have d: "disjoint_pages m" "disjoint_pages ?m"
    using paged_disjoint assms paged_update [OF assms] by blast+
  have s: "set ?m = insert (off, v) {p \<in> set m. fst p \<noteq> off}"
    using assms(1) by (simp add: paged_def set_update_distinct)
  show "content ?m x = put_bytes off v (content m) x"
  proof (cases "covers (off, v) x")
    case True
    then show ?thesis using content_covered [OF d(2), of "(off, v)"] s
      by (auto simp: put_bytes_def covers_def)
  next
    case False
    have keep: "p \<in> set ?m" if "p \<in> set m" "covers p x" for p
    proof -
      have "fst p \<noteq> off" using covers_paged [OF assms(1) that] False assms(3) by (auto simp: covers_def)
      then show ?thesis using s that(1) by blast
    qed
    have "content ?m x = content m x"
    proof (rule content_eqI [OF d(2)])
      fix p assume "p \<in> set ?m" "covers p x"
      then show "snd p ! (x - fst p) = content m x"
        using s False content_covered [OF d(1), of p] by auto
    next
      assume "\<forall>p\<in>set ?m. \<not> covers p x"
      then show "content m x = 0" using keep content_uncovered [of m x] by blast
    qed
    then show ?thesis using False by (auto simp: put_bytes_def covers_def)
  qed
qed

lemma fst_cut_page [simp]: "fst (cut_page sz p) = fst p"
  by (simp add: cut_page_def)

lemma covers_cut_page: "covers (cut_page sz p) x \<longleftrightarrow> covers p x \<and> x < sz"
  by (auto simp: covers_def cut_page_def min_def)

lemma paged_truncate:
  assumes "paged P m"
  shows "paged P (truncate_pages sz m)"
proof -
  have "map fst (truncate_pages sz m) = map fst (filter (\<lambda>p. fst p < sz) m)"
    by (simp add: truncate_pages_def)
  moreover have "distinct (map fst (filter (\<lambda>p. fst p < sz) m))"
    using assms by (simp add: paged_def distinct_map_filter)
  moreover have "P dvd fst p \<and> snd p \<noteq> [] \<and> length (snd p) \<le> P" if "p \<in> set (truncate_pages sz m)" for p
    using that assms by (auto simp: truncate_pages_def paged_def cut_page_def min_def)
  ultimately show ?thesis by (simp add: paged_def)
qed

lemma content_truncate:
  assumes "paged P m"
  shows "content (truncate_pages sz m) = cut_bytes sz (content m)"
proof
  fix x
  have d: "disjoint_pages m" "disjoint_pages (truncate_pages sz m)"
    using assms paged_truncate paged_disjoint by blast+
  show "content (truncate_pages sz m) x = cut_bytes sz (content m) x"
  proof (rule content_eqI [OF d(2)])
    fix p assume "p \<in> set (truncate_pages sz m)" "covers p x"
    then obtain q where q: "q \<in> set m" "p = cut_page sz q" "covers q x" "x < sz"
      by (auto simp: truncate_pages_def covers_cut_page)
    then show "snd p ! (x - fst p) = cut_bytes sz (content m) x"
      using content_covered [OF d(1) q(1,3)] by (auto simp: cut_bytes_def cut_page_def covers_def)
  next
    assume no: "\<forall>p\<in>set (truncate_pages sz m). \<not> covers p x"
    have "\<not> covers q x" if "q \<in> set m" "x < sz" for q
    proof
      assume "covers q x"
      then have "fst q < sz" "covers (cut_page sz q) x"
        using that(2) by (simp_all add: covers_cut_page) (simp add: covers_def)
      then show False using no that(1) by (auto simp: truncate_pages_def)
    qed
    then show "cut_bytes sz (content m) x = 0"
      using content_uncovered [of m x] by (auto simp: cut_bytes_def)
  qed
qed

end
