(* ===== verification/Memdb.thy ===== *)
theory Memdb
  imports Mem_Files Mem_Pages
begin

text \<open>
  \<^verbatim>\<open>vfs/memdb\<close>: in-memory databases without snapshots. The contents of a database are the page map and
  the file size; every operation goes through the handle its token resolves to. The per-database
  \<^verbatim>\<open>RWMutex\<close> makes each operation atomic, so an operation is one function on the state.
\<close>

record memData =
  md_pages :: pages
  md_size :: nat

definition memEmpty :: memData where
  "memEmpty = \<lparr>md_pages = [], md_size = 0\<rparr>"

definition mk_memHandle :: "nat \<Rightarrow> bool \<Rightarrow> bool \<Rightarrow> fileHandle" where
  "mk_memHandle p sh ro = \<lparr>h_db = p, h_shared = sh, h_readOnly = ro\<rparr>"

type_synonym memdbFS = "(memData, fileHandle) memFS"

definition memdb_xOpen :: "string \<Rightarrow> openFlags \<Rightarrow> memdbFS \<Rightarrow> (rc \<times> nat) \<times> memdbFS" where
  "memdb_xOpen name flags fs = open_file memEmpty mk_memHandle name flags fs"

definition memdb_xClose :: "nat \<Rightarrow> memdbFS \<Rightarrow> rc \<times> memdbFS" where
  "memdb_xClose tok fs = (SQLITE_OK, close_file tok fs)"

definition read_data :: "nat \<Rightarrow> nat \<Rightarrow> memData \<Rightarrow> rc \<times> bytes" where
  "read_data amt off d =
     (case ReadFromPages (md_pages d) off (off + amt) (replicate amt 0) of
        (dst, n) \<Rightarrow> (if md_size d < off + amt \<or> n < amt then SQLITE_IOERR_SHORT_READ else SQLITE_OK, dst))"

definition write_data :: "bytes \<Rightarrow> nat \<Rightarrow> memData \<Rightarrow> memData" where
  "write_data page off d = d\<lparr>md_pages := AList.update off page (md_pages d),
     md_size := (if md_size d < off + length page then off + length page else md_size d)\<rparr>"

definition truncate_data :: "nat \<Rightarrow> memData \<Rightarrow> memData" where
  "truncate_data sz d = d\<lparr>md_pages := truncate_pages sz (md_pages d), md_size := sz\<rparr>"

text \<open>On an unknown token the C caller's buffer is left as it was, here the empty answer.\<close>

definition memdb_xRead :: "nat \<Rightarrow> nat \<Rightarrow> nat \<Rightarrow> memdbFS \<Rightarrow> rc \<times> bytes" where
  "memdb_xRead tok amt off fs =
     (case Lookup tok (fs_handles fs) of
        None \<Rightarrow> (SQLITE_IOERR_READ, [])
      | Some h \<Rightarrow> read_data amt off (db_data (fs_heap fs (h_db h))))"

definition memdb_xWrite :: "nat \<Rightarrow> bytes \<Rightarrow> nat \<Rightarrow> memdbFS \<Rightarrow> rc \<times> memdbFS" where
  "memdb_xWrite tok page off fs =
     (case Lookup tok (fs_handles fs) of
        None \<Rightarrow> (SQLITE_IOERR_WRITE, fs)
      | Some h \<Rightarrow> if h_readOnly h then (SQLITE_READONLY, fs)
          else (SQLITE_OK, set_data (h_db h) (write_data page off (db_data (fs_heap fs (h_db h)))) fs))"

definition memdb_xTruncate :: "nat \<Rightarrow> nat \<Rightarrow> memdbFS \<Rightarrow> rc \<times> memdbFS" where
  "memdb_xTruncate tok sz fs =
     (case Lookup tok (fs_handles fs) of
        None \<Rightarrow> (SQLITE_IOERR_TRUNCATE, fs)
      | Some h \<Rightarrow> if h_readOnly h then (SQLITE_READONLY, fs)
          else (SQLITE_OK, set_data (h_db h) (truncate_data sz (db_data (fs_heap fs (h_db h)))) fs))"

definition memdb_xSync :: "nat \<Rightarrow> memdbFS \<Rightarrow> rc \<times> memdbFS" where
  "memdb_xSync tok fs = (SQLITE_OK, fs)"

definition memdb_xFileSize :: "nat \<Rightarrow> memdbFS \<Rightarrow> rc \<times> nat" where
  "memdb_xFileSize tok fs =
     (case Lookup tok (fs_handles fs) of
        None \<Rightarrow> (SQLITE_OK, 0)
      | Some h \<Rightarrow> (SQLITE_OK, md_size (db_data (fs_heap fs (h_db h)))))"

section \<open>Invariant\<close>

text \<open>SQLite writes a database file in whole, aligned pages of one size \<open>P\<close>.\<close>

definition data_inv :: "nat \<Rightarrow> memData \<Rightarrow> bool" where
  "data_inv P d \<longleftrightarrow> paged P (md_pages d) \<and> (\<forall>p\<in>set (md_pages d). fst p + length (snd p) \<le> md_size d)"

definition memdb_inv :: "nat \<Rightarrow> memdbFS \<Rightarrow> bool" where
  "memdb_inv P fs \<longleftrightarrow> fs_inv fs \<and> (\<forall>p. data_inv P (db_data (fs_heap fs p)))"

lemma memEmpty_inv [simp]: "data_inv P memEmpty"
  by (simp add: data_inv_def memEmpty_def paged_def)

lemma write_data_inv:
  "data_inv P d \<Longrightarrow> P dvd off \<Longrightarrow> length page = P \<Longrightarrow> 0 < P \<Longrightarrow> data_inv P (write_data page off d)"
  using paged_update [of P "md_pages d" off page]
  by (auto simp: data_inv_def write_data_def set_update_distinct paged_def)

lemma truncate_data_inv: "data_inv P d \<Longrightarrow> data_inv P (truncate_data sz d)"
  using paged_truncate [of P "md_pages d" sz]
  by (auto simp: data_inv_def truncate_data_def truncate_pages_def cut_page_def)

lemma mk_memHandle_ctor [simp]: "handle_ctor mk_memHandle"
  by (simp add: handle_ctor_def mk_memHandle_def)

lemma memdb_open_inv:
  assumes "memdb_inv P fs" "\<not> exhausted (fs_handles fs)"
  shows "memdb_inv P (snd (memdb_xOpen name flags fs))"
  using assms open_inv [of fs mk_memHandle memEmpty name flags] open_data [of memEmpty mk_memHandle name flags fs]
  by (auto simp: memdb_inv_def memdb_xOpen_def) (metis memEmpty_inv)

lemma memdb_close_inv: "memdb_inv P fs \<Longrightarrow> memdb_inv P (snd (memdb_xClose tok fs))"
  by (simp add: memdb_inv_def memdb_xClose_def close_inv)

lemma memdb_write_inv:
  "memdb_inv P fs \<Longrightarrow> P dvd off \<Longrightarrow> length page = P \<Longrightarrow> 0 < P \<Longrightarrow> memdb_inv P (snd (memdb_xWrite tok page off fs))"
  by (auto simp: memdb_inv_def memdb_xWrite_def fs_inv_data write_data_inv split: option.splits)

lemma memdb_truncate_inv: "memdb_inv P fs \<Longrightarrow> memdb_inv P (snd (memdb_xTruncate tok sz fs))"
  by (auto simp: memdb_inv_def memdb_xTruncate_def fs_inv_data truncate_data_inv split: option.splits)

section \<open>Reachable states\<close>

inductive memdb_step :: "nat \<Rightarrow> memdbFS \<Rightarrow> memdbFS \<Rightarrow> bool" for P where
  do_open: "\<not> exhausted (fs_handles fs) \<Longrightarrow> memdb_step P fs (snd (memdb_xOpen name flags fs))"
| do_close: "memdb_step P fs (snd (memdb_xClose tok fs))"
| do_write: "P dvd off \<Longrightarrow> length page = P \<Longrightarrow> memdb_step P fs (snd (memdb_xWrite tok page off fs))"
| do_truncate: "memdb_step P fs (snd (memdb_xTruncate tok sz fs))"
| do_sync: "memdb_step P fs (snd (memdb_xSync tok fs))"

inductive memdb_reachable :: "nat \<Rightarrow> memdbFS \<Rightarrow> bool" for P where
  init: "memdb_reachable P (emptyFS memEmpty)"
| step: "memdb_reachable P fs \<Longrightarrow> memdb_step P fs fs' \<Longrightarrow> memdb_reachable P fs'"

lemma memdb_step_inv:
  assumes "memdb_step P fs fs'" "memdb_inv P fs" "0 < P"
  shows "memdb_inv P fs'"
  using assms
  by (induction rule: memdb_step.induct)
     (simp_all add: memdb_open_inv memdb_close_inv memdb_write_inv memdb_truncate_inv memdb_xSync_def)

lemma memdb_reachable_inv: "memdb_reachable P fs \<Longrightarrow> 0 < P \<Longrightarrow> memdb_inv P fs"
proof (induction rule: memdb_reachable.induct)
  case init
  show ?case by (simp add: memdb_inv_def) (simp add: emptyFS_def)
next
  case (step fs fs')
  then show ?case using memdb_step_inv by blast
qed

section \<open>Properties\<close>

abbreviation mem_file :: "memdbFS \<Rightarrow> fileHandle \<Rightarrow> nat \<Rightarrow> byte" where
  "mem_file fs h \<equiv> content (md_pages (db_data (fs_heap fs (h_db h))))"

abbreviation mem_size :: "memdbFS \<Rightarrow> fileHandle \<Rightarrow> nat" where
  "mem_size fs h \<equiv> md_size (db_data (fs_heap fs (h_db h)))"

lemma memdb_data:
  assumes "memdb_inv P fs"
  shows "paged P (md_pages (db_data (fs_heap fs p)))" "disjoint_pages (md_pages (db_data (fs_heap fs p)))"
    "q \<in> set (md_pages (db_data (fs_heap fs p))) \<Longrightarrow> fst q + length (snd q) \<le> md_size (db_data (fs_heap fs p))"
  using assms by (auto simp: memdb_inv_def data_inv_def intro: paged_disjoint)

lemma memdb_write_step:
  assumes "memdb_inv P fs" "0 < P" "Lookup tok (fs_handles fs) = Some h" "\<not> h_readOnly h"
    "P dvd off" "length page = P"
  shows "\<exists>fs'. memdb_xWrite tok page off fs = (SQLITE_OK, fs') \<and> memdb_inv P fs' \<and> fs_handles fs' = fs_handles fs \<and>
     mem_file fs' h = put_bytes off page (mem_file fs h) \<and> mem_size fs' h = max (mem_size fs h) (off + P) \<and>
     (\<forall>q. q \<noteq> h_db h \<longrightarrow> fs_heap fs' q = fs_heap fs q)"
  using assms memdb_write_inv [OF assms(1,5,6,2), of tok] content_update [OF memdb_data(1) [OF assms(1)] assms(5,6,2)]
  by (auto simp: memdb_xWrite_def write_data_def max_def set_data_def)

lemma memdb_read_step:
  assumes "memdb_inv P fs" "Lookup tok (fs_handles fs) = Some h" "0 < amt"
  shows "memdb_xRead tok amt off fs =
     (if \<exists>p\<in>set (md_pages (db_data (fs_heap fs (h_db h)))). fst p \<le> off \<and> off + amt \<le> fst p + length (snd p)
      then SQLITE_OK else SQLITE_IOERR_SHORT_READ, map (mem_file fs h) [off..<off + amt])"
proof -
  let ?d = "db_data (fs_heap fs (h_db h))"
  obtain dst n where r: "ReadFromPages (md_pages ?d) off (off + amt) (replicate amt 0) = (dst, n)" by fastforce
  have "dst = map (content (md_pages ?d)) [off..<off + amt]"
    using ReadFromPages_zeroed [OF memdb_data(2) [OF assms(1)], of "h_db h" off "off + amt"] r by simp
  moreover have "amt \<le> n \<longleftrightarrow> (\<exists>p\<in>set (md_pages ?d). fst p \<le> off \<and> off + amt \<le> fst p + length (snd p))"
    using filled_enough [OF assms(3), of "md_pages ?d" off "replicate amt 0"] r by simp
  moreover have "off + amt \<le> md_size ?d" if "p \<in> set (md_pages ?d)" "off + amt \<le> fst p + length (snd p)" for p
    using memdb_data(3) [OF assms(1) that(1)] that(2) by simp
  ultimately show ?thesis using assms(2) r
    by (auto simp: memdb_xRead_def read_data_def not_le [symmetric])
qed

text \<open>In every state reachable by opening, closing, page-aligned page-sized writes, truncations and syncs,
  a page written through one writable handle is read back at once through every handle on the same database,
  the write changes the file exactly there, and no other database changes.\<close>

theorem memdb_write_visible:
  assumes "memdb_reachable P fs" "0 < P" "Lookup tok (fs_handles fs) = Some h" "\<not> h_readOnly h"
    "P dvd off" "length page = P" "Lookup tok' (fs_handles fs) = Some h'" "h_db h' = h_db h"
  shows "\<exists>fs'. memdb_xWrite tok page off fs = (SQLITE_OK, fs') \<and>
     memdb_xRead tok' P off fs' = (SQLITE_OK, page) \<and>
     mem_file fs' h = put_bytes off page (mem_file fs h) \<and> mem_size fs' h = max (mem_size fs h) (off + P) \<and>
     (\<forall>q. q \<noteq> h_db h \<longrightarrow> fs_heap fs' q = fs_heap fs q)"
proof -
  obtain fs' where w: "memdb_xWrite tok page off fs = (SQLITE_OK, fs')" "memdb_inv P fs'" "fs_handles fs' = fs_handles fs"
      "mem_file fs' h = put_bytes off page (mem_file fs h)" "mem_size fs' h = max (mem_size fs h) (off + P)"
      "\<forall>q. q \<noteq> h_db h \<longrightarrow> fs_heap fs' q = fs_heap fs q"
    using memdb_write_step [OF memdb_reachable_inv [OF assms(1,2)] assms(2-6)] by blast
  have "(off, page) \<in> set (md_pages (db_data (fs_heap fs' (h_db h))))"
    using w(1) assms(3,4) memdb_data(1) [OF memdb_reachable_inv [OF assms(1,2)], of "h_db h"]
    by (auto simp: memdb_xWrite_def write_data_def set_update_distinct paged_def)
  then have "\<exists>p\<in>set (md_pages (db_data (fs_heap fs' (h_db h)))). fst p \<le> off \<and> off + P \<le> fst p + length (snd p)"
    using assms(6) by force
  moreover have "map (put_bytes off page (mem_file fs h)) [off..<off + P] = page"
    using assms(6) by (intro nth_equalityI) (auto simp: put_bytes_def)
  ultimately have "memdb_xRead tok' P off fs' = (SQLITE_OK, page)"
    using memdb_read_step [OF w(2) _ assms(2), of tok' h' off] w(3,4) assms(7,8) by simp
  then show ?thesis using w by blast
qed

definition mainFlags :: openFlags where
  "mainFlags = \<lparr>fl_mainDB = True, fl_tempDB = False, fl_transientDB = False, fl_deleteOnClose = False, fl_readOnly = False\<rparr>"

definition two_openers :: memdbFS where
  "two_openers = snd (memdb_xOpen ''file:/a'' mainFlags (snd (memdb_xOpen ''/a'' mainFlags (emptyFS memEmpty))))"

lemma two_openers_reachable: "memdb_reachable P two_openers"
proof -
  have "memdb_reachable P (snd (memdb_xOpen ''/a'' mainFlags (emptyFS memEmpty)))"
    by (rule memdb_reachable.step [OF memdb_reachable.init memdb_step.do_open])
       (simp add: exhausted_def emptyFS_def NewRegistry_def)
  then show ?thesis unfolding two_openers_def
    by (rule memdb_reachable.step [OF _ memdb_step.do_open])
       (simp add: memdb_xOpen_def open_file_def mainFlags_def acquireDB_def newDB_def addRef_def Register_def Let_def
         exhausted_def emptyFS_def NewRegistry_def add64_def shared_name_def HasPrefix_def)
qed

lemma two_openers_handles:
  "Lookup 1 (fs_handles two_openers) = Some \<lparr>h_db = 0, h_shared = True, h_readOnly = False\<rparr>"
  "Lookup 2 (fs_handles two_openers) = Some \<lparr>h_db = 0, h_shared = True, h_readOnly = False\<rparr>"
  by (simp_all add: two_openers_def memdb_xOpen_def open_file_def mainFlags_def acquireDB_def newDB_def addRef_def
      Register_def Let_def exhausted_def emptyFS_def NewRegistry_def add64_def shared_name_def HasPrefix_def
      mk_memHandle_def name_key_def TrimPrefix_def Lookup_def)

theorem memdb_write_visible_witness:
  "\<exists>fs'. memdb_xWrite 1 [7, 8] 4 two_openers = (SQLITE_OK, fs') \<and> memdb_xRead 2 2 4 fs' = (SQLITE_OK, [7, 8])"
  using memdb_write_visible [OF two_openers_reachable [of 2] _ two_openers_handles(1) _ _ _ two_openers_handles(2),
      of 4 "[7, 8]"] by auto

text \<open>Truncation cuts the file at the new size for every handle on the database and nothing else; a read
  returns the bytes of the file, zero where nothing was written, and reports success exactly when one stored
  page holds the whole request.\<close>

theorem memdb_truncate_then_read:
  assumes "memdb_reachable P fs" "0 < P" "Lookup tok (fs_handles fs) = Some h" "\<not> h_readOnly h"
    "Lookup tok' (fs_handles fs) = Some h'" "h_db h' = h_db h" "0 < amt"
  shows "\<exists>fs'. memdb_xTruncate tok sz fs = (SQLITE_OK, fs') \<and> memdb_xFileSize tok' fs' = (SQLITE_OK, sz) \<and>
     memdb_xRead tok' amt off fs' =
       (if \<exists>p\<in>set (truncate_pages sz (md_pages (db_data (fs_heap fs (h_db h))))).
             fst p \<le> off \<and> off + amt \<le> fst p + length (snd p)
        then SQLITE_OK else SQLITE_IOERR_SHORT_READ,
        map (cut_bytes sz (mem_file fs h)) [off..<off + amt])"
proof -
  note inv = memdb_reachable_inv [OF assms(1,2)]
  define fs' where "fs' = snd (memdb_xTruncate tok sz fs)"
  have t: "memdb_xTruncate tok sz fs = (SQLITE_OK, fs')" "fs_handles fs' = fs_handles fs"
      "db_data (fs_heap fs' (h_db h)) = truncate_data sz (db_data (fs_heap fs (h_db h)))"
    using assms(3,4) by (simp_all add: fs'_def memdb_xTruncate_def)
  have "memdb_inv P fs'" unfolding fs'_def by (rule memdb_truncate_inv [OF inv])
  from memdb_read_step [OF this, of tok' h' amt off] show ?thesis
    using t assms(5-7) content_truncate [OF memdb_data(1) [OF inv], of sz "h_db h"]
    by (auto simp: truncate_data_def memdb_xFileSize_def)
qed

theorem memdb_truncate_then_read_witness:
  "\<exists>fs'. memdb_xTruncate 1 3 two_openers = (SQLITE_OK, fs') \<and>
     memdb_xRead 2 2 0 fs' = (SQLITE_IOERR_SHORT_READ, [0, 0])"
proof -
  have "md_pages (db_data (fs_heap two_openers 0)) = []"
    by (simp add: two_openers_def memdb_xOpen_def open_file_def mainFlags_def acquireDB_def newDB_def addRef_def
        Register_def Let_def emptyFS_def NewRegistry_def shared_name_def HasPrefix_def name_key_def TrimPrefix_def
        memEmpty_def)
  then show ?thesis
    using memdb_truncate_then_read [OF two_openers_reachable [of 2] _ two_openers_handles(1) _ two_openers_handles(2),
        of 2 3 0] by (auto simp: truncate_pages_def cut_bytes_def numeral_2_eq_2)
qed

text \<open>In every reachable state, two handles opened under a shared name are on the same database exactly when
  their databases have the same name, a private handle shares its database with nobody, and the reference count
  of a database is the number of its open handles. So one name never leads to two live stores.\<close>

theorem memdb_names_unique:
  assumes "memdb_reachable P fs" "0 < P" "Lookup tok (fs_handles fs) = Some h" "Lookup tok' (fs_handles fs) = Some h'"
  shows "(h_shared h \<and> h_shared h' \<longrightarrow>
       (h_db h = h_db h' \<longleftrightarrow> db_name (fs_heap fs (h_db h)) = db_name (fs_heap fs (h_db h')))) \<and>
     (\<not> h_shared h \<and> h_db h' = h_db h \<longrightarrow> tok' = tok) \<and>
     db_refs (fs_heap fs (h_db h)) = int (card (holders fs (h_db h)))"
proof -
  have inv: "fs_inv fs" using memdb_reachable_inv [OF assms(1,2)] by (simp add: memdb_inv_def)
  have "tok' \<in> holders fs (h_db h')" using assms(4) by (simp add: holders_def)
  note t' = this
  show ?thesis
  proof (intro conjI impI)
    show "h_db h = h_db h' \<longleftrightarrow> db_name (fs_heap fs (h_db h)) = db_name (fs_heap fs (h_db h'))"
      if "h_shared h \<and> h_shared h'"
    proof
      assume "db_name (fs_heap fs (h_db h)) = db_name (fs_heap fs (h_db h'))"
      moreover have "map_of (fs_memDBs fs) (db_name (fs_heap fs (h_db h))) = Some (h_db h)"
        using fs_invD(4) [OF inv assms(3)] that by blast
      moreover have "map_of (fs_memDBs fs) (db_name (fs_heap fs (h_db h'))) = Some (h_db h')"
        using fs_invD(4) [OF inv assms(4)] that by blast
      ultimately show "h_db h = h_db h'" by (metis option.inject)
    qed simp
    show "tok' = tok" if "\<not> h_shared h \<and> h_db h' = h_db h"
    proof -
      have "holders fs (h_db h) = {tok}" using that fs_invD(5) [OF inv assms(3)] by blast
      with t' that show ?thesis by (metis singletonD)
    qed
    show "db_refs (fs_heap fs (h_db h)) = int (card (holders fs (h_db h)))"
      by (rule fs_invD(2) [OF inv fs_invD(3) [OF inv assms(3)]])
  qed
qed

theorem memdb_names_unique_witness:
  "db_refs (fs_heap two_openers 0) = int (card (holders two_openers 0))"
  using memdb_names_unique [OF two_openers_reachable [of 1] _ two_openers_handles] by simp

end
