(* ===== verification/Mvcc.thy ===== *)
theory Mvcc
  imports Mem_Files Mem_Pages Advisory_Lock "HOL-Library.Sublist"
begin

text \<open>
  \<^verbatim>\<open>vfs/mvcc\<close>: in-memory databases with snapshots. A database is its published snapshots, oldest first (a
  \<^verbatim>\<open>*snapshot\<close> is an index of the list, so comparing pointers is comparing indices, and the current one is
  the last), and the writer mutex. A handle holds the snapshot captured at SHARED, the private write
  buffer and its lock level. Every operation runs under the handle's mutex and is one function on the
  state; interleavings are sequences of operations.
\<close>

record snapshot =
  sn_pages :: pages
  sn_size :: nat

record mvData =
  mv_snaps :: "snapshot list"
  mv_writeMu :: bool

record mvHandle = fileHandle +
  fh_snap :: "nat option"
  fh_writeBuf :: "pages option"
  fh_writeSz :: nat
  fh_hasWrite :: bool
  fh_lockLvl :: lockLevel

definition mvEmpty :: mvData where
  "mvEmpty = \<lparr>mv_snaps = [\<lparr>sn_pages = [], sn_size = 0\<rparr>], mv_writeMu = False\<rparr>"

definition mk_mvHandle :: "nat \<Rightarrow> bool \<Rightarrow> bool \<Rightarrow> mvHandle" where
  "mk_mvHandle p sh ro = \<lparr>h_db = p, h_shared = sh, h_readOnly = ro, fh_snap = None, fh_writeBuf = None,
     fh_writeSz = 0, fh_hasWrite = False, fh_lockLvl = LockNone\<rparr>"

type_synonym mvccFS = "(mvData, mvHandle) memFS"

abbreviation mv_db :: "mvccFS \<Rightarrow> mvHandle \<Rightarrow> mvData" where
  "mv_db fs h \<equiv> db_data (fs_heap fs (h_db h))"

definition latest :: "mvData \<Rightarrow> nat" where
  "latest d = length (mv_snaps d) - 1"

definition current :: "mvData \<Rightarrow> snapshot" where
  "current d = last (mv_snaps d)"

section \<open>Operations\<close>

definition mvcc_xOpen :: "string \<Rightarrow> openFlags \<Rightarrow> mvccFS \<Rightarrow> (rc \<times> nat) \<times> mvccFS" where
  "mvcc_xOpen name flags fs = open_file mvEmpty mk_mvHandle name flags fs"

definition unlock_mu :: "mvHandle \<Rightarrow> mvccFS \<Rightarrow> mvccFS" where
  "unlock_mu h fs = set_data (h_db h) ((mv_db fs h)\<lparr>mv_writeMu := False\<rparr>) fs"

definition mvcc_xClose :: "nat \<Rightarrow> mvccFS \<Rightarrow> rc \<times> mvccFS" where
  "mvcc_xClose tok fs =
     (case Lookup tok (fs_handles fs) of
        None \<Rightarrow> (SQLITE_OK, fs)
      | Some h \<Rightarrow> (SQLITE_OK, close_file tok (if LockReserved \<le> fh_lockLvl h then unlock_mu h fs else fs)))"

definition snap_of :: "mvccFS \<Rightarrow> mvHandle \<Rightarrow> snapshot" where
  "snap_of fs h = (case fh_snap h of None \<Rightarrow> current (mv_db fs h) | Some v \<Rightarrow> mv_snaps (mv_db fs h) ! v)"

text \<open>\<^verbatim>\<open>xRead\<close> copies the pending writes first and the snapshot's pages over them.\<close>

definition mvcc_xRead :: "nat \<Rightarrow> nat \<Rightarrow> nat \<Rightarrow> mvccFS \<Rightarrow> rc \<times> bytes" where
  "mvcc_xRead tok amt off fs =
     (case Lookup tok (fs_handles fs) of
        None \<Rightarrow> (SQLITE_IOERR_READ, [])
      | Some h \<Rightarrow>
          let snap = snap_of fs h;
              maxSeen = max (sn_size snap) (fh_writeSz h);
              (dst, n) = (case fh_writeBuf h of
                  None \<Rightarrow> (replicate amt 0, 0)
                | Some w \<Rightarrow> ReadFromPages w off (off + amt) (replicate amt 0));
              (dst', sn) = ReadFromPages (sn_pages snap) off (off + amt) dst;
              n' = (if n < sn then sn else n)
          in (if maxSeen < off + amt \<or> n' < amt then SQLITE_IOERR_SHORT_READ else SQLITE_OK, dst'))"

definition ensureWriteBuf :: "mvccFS \<Rightarrow> mvHandle \<Rightarrow> mvHandle" where
  "ensureWriteBuf fs h =
     (case fh_writeBuf h of
        Some w \<Rightarrow> h
      | None \<Rightarrow> h\<lparr>fh_writeBuf := Some (sn_pages (snap_of fs h)), fh_writeSz := sn_size (snap_of fs h)\<rparr>)"

definition buffer_write :: "bytes \<Rightarrow> nat \<Rightarrow> mvHandle \<Rightarrow> mvHandle" where
  "buffer_write page off h = h\<lparr>fh_writeBuf := map_option (AList.update off page) (fh_writeBuf h),
     fh_writeSz := (if fh_writeSz h < off + length page then off + length page else fh_writeSz h),
     fh_hasWrite := True\<rparr>"

definition mvcc_xWrite :: "nat \<Rightarrow> bytes \<Rightarrow> nat \<Rightarrow> mvccFS \<Rightarrow> rc \<times> mvccFS" where
  "mvcc_xWrite tok page off fs =
     (case Lookup tok (fs_handles fs) of
        None \<Rightarrow> (SQLITE_IOERR_WRITE, fs)
      | Some h \<Rightarrow> if h_readOnly h then (SQLITE_READONLY, fs)
          else (SQLITE_OK, set_handle tok (buffer_write page off (ensureWriteBuf fs h)) fs))"

definition buffer_truncate :: "nat \<Rightarrow> mvHandle \<Rightarrow> mvHandle" where
  "buffer_truncate sz h = h\<lparr>fh_writeBuf := map_option (truncate_pages sz) (fh_writeBuf h), fh_writeSz := sz,
     fh_hasWrite := True\<rparr>"

definition mvcc_xTruncate :: "nat \<Rightarrow> nat \<Rightarrow> mvccFS \<Rightarrow> rc \<times> mvccFS" where
  "mvcc_xTruncate tok sz fs =
     (case Lookup tok (fs_handles fs) of
        None \<Rightarrow> (SQLITE_IOERR_TRUNCATE, fs)
      | Some h \<Rightarrow> if h_readOnly h then (SQLITE_READONLY, fs)
          else (SQLITE_OK, set_handle tok (buffer_truncate sz (ensureWriteBuf fs h)) fs))"

definition mvcc_xSync :: "nat \<Rightarrow> mvccFS \<Rightarrow> rc \<times> mvccFS" where
  "mvcc_xSync tok fs =
     (case Lookup tok (fs_handles fs) of
        None \<Rightarrow> (SQLITE_OK, fs)
      | Some h \<Rightarrow>
          (case fh_writeBuf h of
             None \<Rightarrow> (SQLITE_OK, fs)
           | Some w \<Rightarrow> if \<not> fh_hasWrite h then (SQLITE_OK, fs)
               else (SQLITE_OK, set_handle tok (h\<lparr>fh_writeBuf := None, fh_hasWrite := False, fh_snap := None\<rparr>)
                  (set_data (h_db h) ((mv_db fs h)\<lparr>mv_snaps := mv_snaps (mv_db fs h)
                     @ [\<lparr>sn_pages = w, sn_size = fh_writeSz h\<rparr>]\<rparr>) fs))))"

definition mvcc_xFileSize :: "nat \<Rightarrow> mvccFS \<Rightarrow> rc \<times> nat" where
  "mvcc_xFileSize tok fs =
     (case Lookup tok (fs_handles fs) of
        None \<Rightarrow> (SQLITE_OK, 0)
      | Some h \<Rightarrow> (SQLITE_OK, let sz = fh_writeSz h; snap = snap_of fs h
          in if sz < sn_size snap then sn_size snap else sz))"

definition mvcc_xLock :: "nat \<Rightarrow> lockLevel \<Rightarrow> mvccFS \<Rightarrow> rc \<times> mvccFS" where
  "mvcc_xLock tok lvl fs =
     (case Lookup tok (fs_handles fs) of
        None \<Rightarrow> (SQLITE_IOERR_LOCK, fs)
      | Some h \<Rightarrow>
          let d = mv_db fs h; l = latest d;
              grab = (LockReserved \<le> lvl \<and> fh_lockLvl h < LockReserved);
              h' = (if grab \<or> LockShared \<le> lvl \<and> fh_lockLvl h < LockShared then h\<lparr>fh_snap := Some l\<rparr> else h)
          in if lvl \<le> fh_lockLvl h then (SQLITE_OK, fs)
             else if grab \<and> mv_writeMu d then (SQLITE_BUSY, fs)
             else if grab \<and> fh_snap h \<noteq> None \<and> fh_snap h \<noteq> Some l then (SQLITE_BUSY, fs)
             else (SQLITE_OK, set_handle tok (h'\<lparr>fh_lockLvl := lvl\<rparr>)
                (if grab then set_data (h_db h) (d\<lparr>mv_writeMu := True\<rparr>) fs else fs)))"

definition mvcc_xUnlock :: "nat \<Rightarrow> lockLevel \<Rightarrow> mvccFS \<Rightarrow> rc \<times> mvccFS" where
  "mvcc_xUnlock tok lvl fs =
     (case Lookup tok (fs_handles fs) of
        None \<Rightarrow> (SQLITE_OK, fs)
      | Some h \<Rightarrow>
          let drop = (LockReserved \<le> fh_lockLvl h \<and> lvl < LockReserved);
              h1 = (if drop \<and> fh_hasWrite h then h\<lparr>fh_writeBuf := None, fh_writeSz := 0, fh_hasWrite := False\<rparr> else h);
              h2 = (if lvl = LockNone then h1\<lparr>fh_snap := None\<rparr> else h1)
          in if fh_lockLvl h \<le> lvl then (SQLITE_OK, fs)
             else (SQLITE_OK, set_handle tok (h2\<lparr>fh_lockLvl := lvl\<rparr>) (if drop then unlock_mu h fs else fs)))"

definition mvcc_xCheckReservedLock :: "nat \<Rightarrow> mvccFS \<Rightarrow> rc \<times> int" where
  "mvcc_xCheckReservedLock tok fs = (SQLITE_OK, 0)"

section \<open>Invariant\<close>

definition may_write :: "mvHandle \<Rightarrow> bool" where
  "may_write h \<longleftrightarrow> (h_shared h \<longrightarrow> LockReserved \<le> fh_lockLvl h)"

text \<open>The level of a handle that serialises writers: a private database has a single handle.\<close>

definition handle_ok :: "nat \<Rightarrow> mvData \<Rightarrow> mvHandle \<Rightarrow> bool" where
  "handle_ok P d h \<longleftrightarrow>
     (\<forall>v. fh_snap h = Some v \<longrightarrow> v < length (mv_snaps d)) \<and>
     (\<forall>w. fh_writeBuf h = Some w \<longrightarrow> paged P w \<and> may_write h) \<and>
     (fh_hasWrite h \<longleftrightarrow> fh_writeBuf h \<noteq> None) \<and>
     (LockReserved \<le> fh_lockLvl h \<longrightarrow> mv_writeMu d \<and> (fh_snap h = None \<or> fh_snap h = Some (latest d)))"

definition data_ok :: "nat \<Rightarrow> mvData \<Rightarrow> bool" where
  "data_ok P d \<longleftrightarrow> mv_snaps d \<noteq> [] \<and> (\<forall>s\<in>set (mv_snaps d). paged P (sn_pages s))"

definition writers :: "mvccFS \<Rightarrow> nat \<Rightarrow> nat set" where
  "writers fs p = {tok. \<exists>h. Lookup tok (fs_handles fs) = Some h \<and> h_db h = p \<and> LockReserved \<le> fh_lockLvl h}"

definition mvcc_inv :: "nat \<Rightarrow> mvccFS \<Rightarrow> bool" where
  "mvcc_inv P fs \<longleftrightarrow> fs_inv fs \<and> (\<forall>p. data_ok P (db_data (fs_heap fs p))) \<and>
     (\<forall>tok h. Lookup tok (fs_handles fs) = Some h \<longrightarrow> handle_ok P (mv_db fs h) h) \<and>
     (\<forall>p < fs_next fs. (mv_writeMu (db_data (fs_heap fs p)) \<longleftrightarrow> writers fs p \<noteq> {}) \<and>
        (\<forall>t\<in>writers fs p. \<forall>t'\<in>writers fs p. t = t'))"

section \<open>Every operation keeps the invariant\<close>

lemma set_data_same [simp]: "set_data p (db_data (fs_heap fs p)) fs = fs"
  by (simp add: set_data_def)

lemma mvcc_invD:
  assumes "mvcc_inv P fs"
  shows "fs_inv fs" "data_ok P (db_data (fs_heap fs p))"
    "Lookup tok (fs_handles fs) = Some h \<Longrightarrow> handle_ok P (mv_db fs h) h"
    "p < fs_next fs \<Longrightarrow> mv_writeMu (db_data (fs_heap fs p)) \<longleftrightarrow> writers fs p \<noteq> {}"
    "p < fs_next fs \<Longrightarrow> t \<in> writers fs p \<Longrightarrow> t' \<in> writers fs p \<Longrightarrow> t = t'"
  using assms unfolding mvcc_inv_def by blast+

text \<open>One handle acts on its own state and on the shared data of its database.\<close>

definition act :: "nat \<Rightarrow> mvHandle \<Rightarrow> mvData \<Rightarrow> mvccFS \<Rightarrow> mvccFS" where
  "act tok h d fs = set_handle tok h (set_data (h_db h) d fs)"

lemma act_simps:
  assumes "Lookup tok (fs_handles fs) = Some h0"
  shows "Lookup t (fs_handles (act tok h d fs)) = (if t = tok then Some h else Lookup t (fs_handles fs))"
    "fs_next (act tok h d fs) = fs_next fs"
    "db_data (fs_heap (act tok h d fs) q) = (if q = h_db h then d else db_data (fs_heap fs q))"
proof -
  have "tok \<noteq> 0" using assms by (cases "tok = 0") simp_all
  then show "Lookup t (fs_handles (act tok h d fs)) = (if t = tok then Some h else Lookup t (fs_handles fs))"
    "fs_next (act tok h d fs) = fs_next fs"
    "db_data (fs_heap (act tok h d fs) q) = (if q = h_db h then d else db_data (fs_heap fs q))"
    by (simp_all add: act_def)
qed

lemma act_inv:
  assumes inv: "mvcc_inv P fs" and l: "Lookup tok (fs_handles fs) = Some h0"
    and base: "h_db h = h_db h0" "h_shared h = h_shared h0"
    and d: "data_ok P d" and h: "handle_ok P d h"
    and others: "\<And>t g. t \<noteq> tok \<Longrightarrow> Lookup t (fs_handles fs) = Some g \<Longrightarrow> h_db g = h_db h \<Longrightarrow> handle_ok P (mv_db fs h) g \<Longrightarrow>
        handle_ok P d g"
    and mu: "mv_writeMu d \<longleftrightarrow> LockReserved \<le> fh_lockLvl h \<or> writers fs (h_db h) - {tok} \<noteq> {}"
    and alone: "LockReserved \<le> fh_lockLvl h \<Longrightarrow> writers fs (h_db h) \<subseteq> {tok}"
  shows "mvcc_inv P (act tok h d fs)"
proof -
  let ?fs = "act tok h d fs"
  note a = act_simps [OF l]
  have w: "writers ?fs p = (if p = h_db h then (if LockReserved \<le> fh_lockLvl h then {tok} else {}) \<union> (writers fs p - {tok})
      else writers fs p)" for p
    using l base by (auto simp: writers_def a split: if_splits)
  show ?thesis unfolding mvcc_inv_def
  proof (intro conjI allI impI ballI)
    have "fs_inv (set_data (h_db h) d fs)" by (rule fs_inv_data [OF mvcc_invD(1) [OF inv]])
    then show "fs_inv ?fs" unfolding act_def using l base by (intro fs_inv_handle) simp_all
  next
    fix p show "data_ok P (db_data (fs_heap ?fs p))" using d mvcc_invD(2) [OF inv] by (simp add: a)
  next
    fix t g assume t: "Lookup t (fs_handles ?fs) = Some g"
    show "handle_ok P (mv_db ?fs g) g"
    proof (cases "t = tok")
      case True then show ?thesis using t h by (auto simp: a)
    next
      case False
      then have "Lookup t (fs_handles fs) = Some g" using t by (simp add: a)
      then have "Lookup t (fs_handles fs) = Some g" "handle_ok P (mv_db fs g) g"
        using mvcc_invD(3) [OF inv] by auto
      then show ?thesis using others [OF False] by (cases "h_db g = h_db h") (simp_all add: a)
    qed
  next
    fix p assume "p < fs_next ?fs"
    then have p: "p < fs_next fs" by (simp add: a)
    show "mv_writeMu (db_data (fs_heap ?fs p)) \<longleftrightarrow> writers ?fs p \<noteq> {}"
      using mu mvcc_invD(4) [OF inv p] by (auto simp: a w)
    fix t t' assume "t \<in> writers ?fs p" "t' \<in> writers ?fs p"
    then show "t = t'" using alone mvcc_invD(5) [OF inv p, of t t'] by (auto simp: w split: if_splits)
  qed
qed

lemma latest_append [simp]: "latest (d\<lparr>mv_snaps := mv_snaps d @ [x]\<rparr>) = length (mv_snaps d)"
  by (simp add: latest_def)

lemma latest_mu [simp]: "latest (d\<lparr>mv_writeMu := b\<rparr>) = latest d"
  by (simp add: latest_def)

lemma snap_of_paged:
  assumes "data_ok P (mv_db fs h)" "handle_ok P (mv_db fs h) h"
  shows "paged P (sn_pages (snap_of fs h))"
  using assms by (auto simp: snap_of_def data_ok_def handle_ok_def current_def split: option.splits)

lemma writer_iff:
  assumes "mvcc_inv P fs" "Lookup tok (fs_handles fs) = Some h"
  shows "tok \<in> writers fs (h_db h) \<longleftrightarrow> LockReserved \<le> fh_lockLvl h"
    "LockReserved \<le> fh_lockLvl h \<Longrightarrow> writers fs (h_db h) = {tok}"
    "mv_writeMu (mv_db fs h) \<longleftrightarrow> writers fs (h_db h) \<noteq> {}"
proof -
  have p: "h_db h < fs_next fs" by (rule fs_invD(3) [OF mvcc_invD(1) [OF assms(1)] assms(2)])
  show m: "tok \<in> writers fs (h_db h) \<longleftrightarrow> LockReserved \<le> fh_lockLvl h" using assms(2) by (auto simp: writers_def)
  show "writers fs (h_db h) = {tok}" if "LockReserved \<le> fh_lockLvl h"
    using mvcc_invD(5) [OF assms(1) p] m that by blast
  show "mv_writeMu (mv_db fs h) \<longleftrightarrow> writers fs (h_db h) \<noteq> {}" by (rule mvcc_invD(4) [OF assms(1) p])
qed

lemma private_alone:
  assumes "mvcc_inv P fs" "Lookup tok (fs_handles fs) = Some h" "\<not> h_shared h"
    "Lookup t (fs_handles fs) = Some g" "h_db g = h_db h"
  shows "t = tok"
proof -
  have "holders fs (h_db h) = {tok}" using fs_invD(5) [OF mvcc_invD(1) [OF assms(1)] assms(2,3)] by blast
  moreover have "t \<in> holders fs (h_db h)" using assms(4,5) by (auto simp: holders_def)
  ultimately show ?thesis by blast
qed

text \<open>Operations on the handle alone: the data of the database stays.\<close>

lemma own_inv:
  assumes "mvcc_inv P fs" "Lookup tok (fs_handles fs) = Some h0" "h_db h = h_db h0" "h_shared h = h_shared h0"
    "handle_ok P (mv_db fs h0) h" "LockReserved \<le> fh_lockLvl h \<longleftrightarrow> LockReserved \<le> fh_lockLvl h0"
  shows "mvcc_inv P (set_handle tok h fs)"
proof -
  have "mvcc_inv P (act tok h (mv_db fs h0) fs)"
  proof (rule act_inv [OF assms(1-4) _ assms(5)])
    show "mv_writeMu (mv_db fs h0) \<longleftrightarrow> LockReserved \<le> fh_lockLvl h \<or> writers fs (h_db h) - {tok} \<noteq> {}"
      using writer_iff [OF assms(1,2)] assms(3,6) by auto
    show "writers fs (h_db h) \<subseteq> {tok}" if "LockReserved \<le> fh_lockLvl h"
      using writer_iff(2) [OF assms(1,2)] assms(3,6) that by simp
  qed (use assms(3) mvcc_invD(2) [OF assms(1)] in simp_all)
  then show ?thesis using assms(3) by (simp add: act_def)
qed

lemma ensureWriteBuf_ok:
  assumes "data_ok P (mv_db fs h)" "handle_ok P (mv_db fs h) h"
  shows "\<exists>w. fh_writeBuf (ensureWriteBuf fs h) = Some w \<and> paged P w"
    "h_db (ensureWriteBuf fs h) = h_db h" "h_shared (ensureWriteBuf fs h) = h_shared h"
    "fh_snap (ensureWriteBuf fs h) = fh_snap h" "fh_lockLvl (ensureWriteBuf fs h) = fh_lockLvl h"
  using assms snap_of_paged [OF assms] by (auto simp: ensureWriteBuf_def handle_ok_def split: option.splits)

lemma write_inv:
  assumes inv: "mvcc_inv P fs" and l: "Lookup tok (fs_handles fs) = Some h" and "may_write h"
    "P dvd off" "length page = P" "0 < P"
  shows "mvcc_inv P (snd (mvcc_xWrite tok page off fs))"
proof -
  note ok = mvcc_invD(2) [OF inv, of "h_db h"] mvcc_invD(3) [OF inv l]
  note e = ensureWriteBuf_ok [OF ok]
  have "mvcc_inv P (set_handle tok (buffer_write page off (ensureWriteBuf fs h)) fs)"
  proof (rule own_inv [OF inv l])
    show "handle_ok P (mv_db fs h) (buffer_write page off (ensureWriteBuf fs h))"
      using ok(2) e assms paged_update by (auto simp: handle_ok_def buffer_write_def may_write_def)
  qed (simp_all add: buffer_write_def e)
  then show ?thesis using l inv by (simp add: mvcc_xWrite_def)
qed

lemma truncate_inv:
  assumes inv: "mvcc_inv P fs" and l: "Lookup tok (fs_handles fs) = Some h" and "may_write h"
  shows "mvcc_inv P (snd (mvcc_xTruncate tok sz fs))"
proof -
  note ok = mvcc_invD(2) [OF inv, of "h_db h"] mvcc_invD(3) [OF inv l]
  note e = ensureWriteBuf_ok [OF ok]
  have "mvcc_inv P (set_handle tok (buffer_truncate sz (ensureWriteBuf fs h)) fs)"
  proof (rule own_inv [OF inv l])
    show "handle_ok P (mv_db fs h) (buffer_truncate sz (ensureWriteBuf fs h))"
      using ok(2) e assms paged_truncate by (auto simp: handle_ok_def buffer_truncate_def may_write_def)
  qed (simp_all add: buffer_truncate_def e)
  then show ?thesis using l inv by (simp add: mvcc_xTruncate_def)
qed

lemma sync_inv:
  assumes inv: "mvcc_inv P fs"
  shows "mvcc_inv P (snd (mvcc_xSync tok fs))"
proof (cases "\<exists>h w. Lookup tok (fs_handles fs) = Some h \<and> fh_writeBuf h = Some w")
  case True
  then obtain h w where l: "Lookup tok (fs_handles fs) = Some h" and w: "fh_writeBuf h = Some w" by blast
  let ?h = "h\<lparr>fh_writeBuf := None, fh_hasWrite := False, fh_snap := None\<rparr>"
    and ?d = "(mv_db fs h)\<lparr>mv_snaps := mv_snaps (mv_db fs h) @ [\<lparr>sn_pages = w, sn_size = fh_writeSz h\<rparr>]\<rparr>"
  note ok = mvcc_invD(2) [OF inv, of "h_db h"] mvcc_invD(3) [OF inv l]
  have mw: "may_write h" and pw: "paged P w" and hw: "fh_hasWrite h" using ok(2) w by (auto simp: handle_ok_def)
  have "mvcc_inv P (act tok ?h ?d fs)"
  proof (rule act_inv [OF inv l])
    show "data_ok P ?d" using ok(1) pw by (auto simp: data_ok_def)
    show "handle_ok P ?d ?h" using ok(2) by (auto simp: handle_ok_def)
    show "handle_ok P ?d g"
      if "t \<noteq> tok" "Lookup t (fs_handles fs) = Some g" "h_db g = h_db ?h" "handle_ok P (mv_db fs ?h) g" for t g
    proof -
      have "\<not> LockReserved \<le> fh_lockLvl g"
      proof
        assume "LockReserved \<le> fh_lockLvl g"
        then have "writers fs (h_db h) = {t}" using writer_iff(2) [OF inv that(2)] that(3) by simp
        moreover have "h_shared h" using private_alone [OF inv l _ that(2)] that(1,3) by auto
        ultimately show False using mw writer_iff(1) [OF inv l] that(1) by (auto simp: may_write_def)
      qed
      then show ?thesis using that(4) by (auto simp: handle_ok_def)
    qed
    show "mv_writeMu ?d \<longleftrightarrow> LockReserved \<le> fh_lockLvl ?h \<or> writers fs (h_db ?h) - {tok} \<noteq> {}"
      using writer_iff [OF inv l] by auto
    show "writers fs (h_db ?h) \<subseteq> {tok}" if "LockReserved \<le> fh_lockLvl ?h"
      using writer_iff(2) [OF inv l] that by simp
  qed simp_all
  then show ?thesis using l w hw by (simp add: mvcc_xSync_def act_def)
next
  case False
  then show ?thesis using inv by (auto simp: mvcc_xSync_def split: option.splits)
qed

abbreviation stale :: "mvccFS \<Rightarrow> mvHandle \<Rightarrow> bool" where
  "stale fs h \<equiv> fh_snap h \<noteq> None \<and> fh_snap h \<noteq> Some (latest (mv_db fs h))"

lemma xLock_grab:
  assumes "Lookup tok (fs_handles fs) = Some h" "LockReserved \<le> lvl" "fh_lockLvl h < LockReserved"
  shows "mvcc_xLock tok lvl fs =
    (if mv_writeMu (mv_db fs h) \<or> stale fs h then (SQLITE_BUSY, fs)
     else (SQLITE_OK, act tok (h\<lparr>fh_snap := Some (latest (mv_db fs h)), fh_lockLvl := lvl\<rparr>)
        ((mv_db fs h)\<lparr>mv_writeMu := True\<rparr>) fs))"
proof -
  have "\<not> lvl \<le> fh_lockLvl h" using assms(2,3) by auto
  then show ?thesis using assms by (simp add: mvcc_xLock_def Let_def act_def)
qed

lemma xLock_raise:
  assumes "Lookup tok (fs_handles fs) = Some h" "\<not> (LockReserved \<le> lvl \<and> fh_lockLvl h < LockReserved)"
    "\<not> lvl \<le> fh_lockLvl h"
  shows "mvcc_xLock tok lvl fs = (SQLITE_OK, set_handle tok
     ((if LockShared \<le> lvl \<and> fh_lockLvl h < LockShared then h\<lparr>fh_snap := Some (latest (mv_db fs h))\<rparr> else h)
        \<lparr>fh_lockLvl := lvl\<rparr>) fs)"
  using assms by (auto simp: mvcc_xLock_def Let_def)

lemma latest_less: "data_ok P d \<Longrightarrow> latest d < length (mv_snaps d)"
  by (simp add: data_ok_def latest_def)

lemma lock_inv_mvcc:
  assumes inv: "mvcc_inv P fs"
  shows "mvcc_inv P (snd (mvcc_xLock tok lvl fs))"
proof (cases "Lookup tok (fs_handles fs)")
  case None then show ?thesis using inv by (simp add: mvcc_xLock_def)
next
  case (Some h)
  note ok = mvcc_invD(2) [OF inv, of "h_db h"] mvcc_invD(3) [OF inv Some]
  note wr = writer_iff [OF inv Some] and lt = latest_less [OF ok(1)]
  let ?grab = "LockReserved \<le> lvl \<and> fh_lockLvl h < LockReserved"
  consider (same) "lvl \<le> fh_lockLvl h" | (grab) "?grab" | (raise) "\<not> ?grab" "\<not> lvl \<le> fh_lockLvl h" by blast
  then show ?thesis
  proof cases
    case same then show ?thesis using inv Some by (simp add: mvcc_xLock_def Let_def)
  next
    case grab
    let ?h = "h\<lparr>fh_snap := Some (latest (mv_db fs h)), fh_lockLvl := lvl\<rparr>" and ?d = "(mv_db fs h)\<lparr>mv_writeMu := True\<rparr>"
    have "mvcc_inv P (act tok ?h ?d fs)" if "\<not> mv_writeMu (mv_db fs h)"
    proof (rule act_inv [OF inv Some])
      show "data_ok P ?d" using ok(1) by (simp add: data_ok_def)
      show "handle_ok P ?d ?h" using ok(2) lt grab by (auto simp: handle_ok_def may_write_def)
      show "handle_ok P ?d g" if "handle_ok P (mv_db fs ?h) g" for g
        using that by (auto simp: handle_ok_def)
    qed (use wr(3) that grab in simp_all)
    then show ?thesis using inv grab by (simp add: xLock_grab [OF Some])
  next
    case raise
    let ?h = "(if LockShared \<le> lvl \<and> fh_lockLvl h < LockShared then h\<lparr>fh_snap := Some (latest (mv_db fs h))\<rparr> else h)
        \<lparr>fh_lockLvl := lvl\<rparr>"
    have eq: "LockReserved \<le> lvl \<longleftrightarrow> LockReserved \<le> fh_lockLvl h"
      using raise by (cases lvl; cases "fh_lockLvl h") (auto simp: level_defs)
    have "mvcc_inv P (set_handle tok ?h fs)"
    proof (rule own_inv [OF inv Some])
      show "handle_ok P (mv_db fs h) ?h" using ok(2) lt eq by (auto simp: handle_ok_def may_write_def)
    qed (use eq in auto)
    then show ?thesis by (simp add: xLock_raise [OF Some raise])
  qed
qed

lemma unlock_inv_mvcc:
  assumes inv: "mvcc_inv P fs"
  shows "mvcc_inv P (snd (mvcc_xUnlock tok lvl fs))"
proof (cases "Lookup tok (fs_handles fs)")
  case None then show ?thesis using inv by (simp add: mvcc_xUnlock_def)
next
  case (Some h)
  note ok = mvcc_invD(2) [OF inv, of "h_db h"] mvcc_invD(3) [OF inv Some]
  note wr = writer_iff [OF inv Some]
  let ?drop = "LockReserved \<le> fh_lockLvl h \<and> lvl < LockReserved"
  let ?h1 = "if ?drop \<and> fh_hasWrite h then h\<lparr>fh_writeBuf := None, fh_writeSz := 0, fh_hasWrite := False\<rparr> else h"
  let ?h = "(if lvl = LockNone then ?h1\<lparr>fh_snap := None\<rparr> else ?h1)\<lparr>fh_lockLvl := lvl\<rparr>"
  consider (same) "fh_lockLvl h \<le> lvl" | (free) "?drop" | (keep) "\<not> ?drop" "\<not> fh_lockLvl h \<le> lvl" by blast
  then show ?thesis
  proof cases
    case same then show ?thesis using inv Some by (simp add: mvcc_xUnlock_def Let_def)
  next
    case free
    let ?d = "(mv_db fs h)\<lparr>mv_writeMu := False\<rparr>"
    have "mvcc_inv P (act tok ?h ?d fs)"
    proof (rule act_inv [OF inv Some])
      show "data_ok P ?d" using ok(1) by (simp add: data_ok_def)
      show "handle_ok P ?d ?h" using ok(2) free by (auto simp: handle_ok_def may_write_def)
      show "handle_ok P ?d g"
        if "t \<noteq> tok" "Lookup t (fs_handles fs) = Some g" "h_db g = h_db ?h" "handle_ok P (mv_db fs ?h) g" for t g
      proof -
        have "\<not> LockReserved \<le> fh_lockLvl g"
          using wr(2) free that(1-3) by (auto simp: writers_def split: if_splits)
        then show ?thesis using that(4) by (auto simp: handle_ok_def split: if_splits)
      qed
      show "mv_writeMu ?d \<longleftrightarrow> LockReserved \<le> fh_lockLvl ?h \<or> writers fs (h_db ?h) - {tok} \<noteq> {}"
        using wr(2) free by auto
      show "writers fs (h_db ?h) \<subseteq> {tok}" if "LockReserved \<le> fh_lockLvl ?h" using that free by auto
    qed simp_all
    moreover have "\<not> fh_lockLvl h \<le> lvl" using free by auto
    ultimately show ?thesis using free Some by (simp add: mvcc_xUnlock_def Let_def act_def unlock_mu_def split: if_splits)
  next
    case keep
    let ?k = "(if lvl = LockNone then h\<lparr>fh_snap := None\<rparr> else h)\<lparr>fh_lockLvl := lvl\<rparr>"
    have eq: "LockReserved \<le> lvl \<longleftrightarrow> LockReserved \<le> fh_lockLvl h"
      using keep by (cases lvl; cases "fh_lockLvl h") (auto simp: level_defs)
    have "mvcc_inv P (set_handle tok ?k fs)"
    proof (rule own_inv [OF inv Some])
      show "LockReserved \<le> fh_lockLvl ?k \<longleftrightarrow> LockReserved \<le> fh_lockLvl h" using eq by simp
      show "handle_ok P (mv_db fs h) ?k" using ok(2) eq by (auto simp: handle_ok_def may_write_def)
    qed auto
    then show ?thesis using keep Some by (auto simp: mvcc_xUnlock_def Let_def)
  qed
qed

lemma close_inv_mvcc:
  assumes inv: "mvcc_inv P fs"
  shows "mvcc_inv P (snd (mvcc_xClose tok fs))"
proof (cases "Lookup tok (fs_handles fs)")
  case None then show ?thesis using inv by (simp add: mvcc_xClose_def)
next
  case (Some h)
  let ?fs1 = "if LockReserved \<le> fh_lockLvl h then unlock_mu h fs else fs"
  let ?fs = "close_file tok ?fs1"
  note wr = writer_iff [OF inv Some]
  have f1: "fs_inv ?fs1" "fs_handles ?fs1 = fs_handles fs" "fs_next ?fs1 = fs_next fs"
    using mvcc_invD(1) [OF inv] by (simp_all add: unlock_mu_def fs_inv_data)
  have look: "Lookup t (fs_handles ?fs) = (if t = tok then None else Lookup t (fs_handles fs))" for t
    using close_lookup [OF fs_invD(1) [OF f1(1)], of t tok] f1(2) by simp
  have data: "db_data (fs_heap ?fs p) = (if p = h_db h \<and> LockReserved \<le> fh_lockLvl h
      then (mv_db fs h)\<lparr>mv_writeMu := False\<rparr> else db_data (fs_heap fs p))" for p
    by (simp add: unlock_mu_def)
  have w: "writers ?fs p = writers fs p - {tok}" for p by (auto simp: writers_def look)
  have "mvcc_inv P ?fs" unfolding mvcc_inv_def
  proof (intro conjI allI impI ballI)
    show "fs_inv ?fs" by (rule close_inv [OF f1(1)])
    show "data_ok P (db_data (fs_heap ?fs p))" for p
      unfolding data using mvcc_invD(2) [OF inv, of p] by (auto simp: data_ok_def)
  next
    fix t g assume "Lookup t (fs_handles ?fs) = Some g"
    then have t: "t \<noteq> tok" "Lookup t (fs_handles fs) = Some g" by (auto simp: look split: if_splits)
    have "\<not> LockReserved \<le> fh_lockLvl g" if "h_db g = h_db h" "LockReserved \<le> fh_lockLvl h"
      using wr(2) [OF that(2)] t that(1) by (auto simp: writers_def)
    then show "handle_ok P (mv_db ?fs g) g"
      unfolding data using mvcc_invD(3) [OF inv t(2)] by (auto simp: handle_ok_def)
  next
    fix p assume "p < fs_next ?fs"
    then have p: "p < fs_next fs" using f1(3) by simp
    show "mv_writeMu (db_data (fs_heap ?fs p)) \<longleftrightarrow> writers ?fs p \<noteq> {}"
    proof (cases "p = h_db h \<and> LockReserved \<le> fh_lockLvl h")
      case True then show ?thesis unfolding data w using wr(2) by simp
    next
      case False
      have "tok \<notin> writers fs p" using False Some by (auto simp: writers_def)
      then show ?thesis unfolding data w using False mvcc_invD(4) [OF inv p] by auto
    qed
    fix t t' assume "t \<in> writers ?fs p" "t' \<in> writers ?fs p"
    then show "t = t'" using mvcc_invD(5) [OF inv p] by (simp add: w)
  qed
  then show ?thesis using Some by (simp add: mvcc_xClose_def)
qed

lemma mk_mvHandle_ctor [simp]: "handle_ctor mk_mvHandle"
  by (simp add: handle_ctor_def mk_mvHandle_def)

lemma not_reserved_None [simp]: "\<not> LockReserved \<le> LockNone"
  by (simp add: level_defs)

lemma open_inv_mvcc:
  assumes inv: "mvcc_inv P fs" and ne: "\<not> exhausted (fs_handles fs)"
  shows "mvcc_inv P (snd (mvcc_xOpen name flags fs))"
proof -
  let ?fs = "snd (open_file mvEmpty mk_mvHandle name flags fs)"
  note fi = mvcc_invD(1) [OF inv]
  have "mvcc_inv P ?fs" if neq: "?fs \<noteq> fs"
  proof -
    obtain tok p sh where new: "Lookup tok (fs_handles fs) = None"
        and look: "Lookup t (fs_handles ?fs) = (if t = tok then Some (mk_mvHandle p sh (fl_readOnly flags)) else Lookup t (fs_handles fs))" for t
      using open_lookup [OF fi ne mk_mvHandle_ctor, of mvEmpty name flags] neq by auto
    have w: "writers ?fs q = writers fs q" for q
      using new by (auto simp: writers_def look mk_mvHandle_def split: if_splits)
    have dk: "data_ok P (db_data (fs_heap ?fs q))" for q
      using open_data [of mvEmpty mk_mvHandle name flags fs q] mvcc_invD(2) [OF inv, of q]
      by (auto simp: data_ok_def mvEmpty_def paged_def)
    show ?thesis unfolding mvcc_inv_def
    proof (intro conjI allI impI ballI)
      show "fs_inv ?fs" by (rule open_inv [OF fi ne mk_mvHandle_ctor])
      show "data_ok P (db_data (fs_heap ?fs q))" for q by (rule dk)
    next
      fix t g assume t: "Lookup t (fs_handles ?fs) = Some g"
      show "handle_ok P (mv_db ?fs g) g"
      proof (cases "t = tok")
        case True then show ?thesis using t by (auto simp: look handle_ok_def mk_mvHandle_def)
      next
        case False
        then have l: "Lookup t (fs_handles fs) = Some g" using t by (simp add: look)
        then show ?thesis using mvcc_invD(3) [OF inv l] open_old_data [OF fi fs_invD(3) [OF fi l]] by simp
      qed
    next
      fix q assume q: "q < fs_next ?fs"
      show "mv_writeMu (db_data (fs_heap ?fs q)) \<longleftrightarrow> writers ?fs q \<noteq> {}"
      proof (cases "q < fs_next fs")
        case True then show ?thesis using open_old_data [OF fi True] mvcc_invD(4) [OF inv True] by (simp add: w)
      next
        case False
        then have "holders fs q = {}" using holders_fresh [OF fi] by simp
        then have "writers fs q = {}" by (auto simp: holders_def writers_def)
        moreover have "db_data (fs_heap ?fs q) = mvEmpty" using open_fresh_data [OF fi _ q] False by simp
        moreover have "\<not> mv_writeMu mvEmpty" by (simp add: mvEmpty_def)
        ultimately show ?thesis by (simp add: w)
      qed
      fix t t' assume "t \<in> writers ?fs q" "t' \<in> writers ?fs q"
      then have tt: "t \<in> writers fs q" "t' \<in> writers fs q" by (simp_all add: w)
      then have "q < fs_next fs" using fs_invD(3) [OF fi] by (auto simp: writers_def)
      then show "t = t'" using mvcc_invD(5) [OF inv _ tt] by simp
    qed
  qed
  then show ?thesis using inv by (cases "?fs = fs") (simp_all add: mvcc_xOpen_def)
qed

section \<open>Interleavings\<close>

text \<open>SQLite writes to a shared database only while it holds RESERVED or above, and in whole aligned pages.
  The first argument of a step is the token of the acting handle, 0 for a new opener.\<close>

inductive mvcc_step :: "nat \<Rightarrow> nat \<Rightarrow> mvccFS \<Rightarrow> mvccFS \<Rightarrow> bool" for P where
  do_open: "\<not> exhausted (fs_handles fs) \<Longrightarrow> mvcc_step P 0 fs (snd (mvcc_xOpen name flags fs))"
| do_close: "mvcc_step P tok fs (snd (mvcc_xClose tok fs))"
| do_lock: "mvcc_step P tok fs (snd (mvcc_xLock tok lvl fs))"
| do_unlock: "mvcc_step P tok fs (snd (mvcc_xUnlock tok lvl fs))"
| do_write: "Lookup tok (fs_handles fs) = Some h \<Longrightarrow> may_write h \<Longrightarrow> P dvd off \<Longrightarrow> length page = P \<Longrightarrow>
    mvcc_step P tok fs (snd (mvcc_xWrite tok page off fs))"
| do_truncate: "Lookup tok (fs_handles fs) = Some h \<Longrightarrow> may_write h \<Longrightarrow>
    mvcc_step P tok fs (snd (mvcc_xTruncate tok sz fs))"
| do_sync: "mvcc_step P tok fs (snd (mvcc_xSync tok fs))"

inductive mvcc_reachable :: "nat \<Rightarrow> mvccFS \<Rightarrow> bool" for P where
  init: "mvcc_reachable P (emptyFS mvEmpty)"
| step: "mvcc_reachable P fs \<Longrightarrow> mvcc_step P tok fs fs' \<Longrightarrow> mvcc_reachable P fs'"

inductive others :: "nat \<Rightarrow> nat \<Rightarrow> mvccFS \<Rightarrow> mvccFS \<Rightarrow> bool" for P tok where
  refl: "others P tok fs fs"
| step: "others P tok fs fs' \<Longrightarrow> t \<noteq> tok \<Longrightarrow> mvcc_step P t fs' fs'' \<Longrightarrow> others P tok fs fs''"

lemma mvcc_step_inv: "mvcc_step P t fs fs' \<Longrightarrow> mvcc_inv P fs \<Longrightarrow> 0 < P \<Longrightarrow> mvcc_inv P fs'"
  by (induction rule: mvcc_step.induct)
     (simp_all add: open_inv_mvcc close_inv_mvcc lock_inv_mvcc unlock_inv_mvcc write_inv truncate_inv sync_inv)

lemma mvcc_reachable_inv: "mvcc_reachable P fs \<Longrightarrow> 0 < P \<Longrightarrow> mvcc_inv P fs"
proof (induction rule: mvcc_reachable.induct)
  case init
  show ?case unfolding mvcc_inv_def
    by (simp add: emptyFS_def data_ok_def mvEmpty_def paged_def Lookup_def NewRegistry_def)
       (simp add: fs_inv_def holders_def Lookup_def reg_inv_def)
next
  case (step fs tok fs')
  then show ?case using mvcc_step_inv by blast
qed

lemma others_reachable: "others P tok fs fs' \<Longrightarrow> mvcc_reachable P fs \<Longrightarrow> mvcc_reachable P fs'"
  by (induction rule: others.induct) (auto intro: mvcc_reachable.step)

section \<open>What the steps of other handles leave alone\<close>

lemma nonzero_tok: "Lookup t r = Some g \<Longrightarrow> t \<noteq> 0"
  by (cases "t = 0") simp_all

lemma step_handle:
  assumes "mvcc_step P t fs fs'" "t \<noteq> tok" "mvcc_inv P fs" "Lookup tok (fs_handles fs) = Some h"
  shows "Lookup tok (fs_handles fs') = Some h"
  using assms
proof (induction rule: mvcc_step.induct)
  case (do_open fs name flags)
  then show ?case
    using open_lookup [OF mvcc_invD(1) [OF do_open(3)] do_open(1) mk_mvHandle_ctor, of mvEmpty name flags]
    by (auto simp: mvcc_xOpen_def)
next
  case (do_close t fs)
  then show ?case using close_lookup [of fs tok t] fs_invD(1) [OF mvcc_invD(1) [OF do_close(2)]]
      close_lookup [of "unlock_mu h' fs" tok t for h']
    by (auto simp: mvcc_xClose_def unlock_mu_def close_lookup split: option.splits)
qed (auto simp: mvcc_xLock_def mvcc_xUnlock_def mvcc_xWrite_def mvcc_xTruncate_def mvcc_xSync_def Let_def unlock_mu_def
    dest: nonzero_tok split: option.splits)

lemma step_snaps:
  assumes "mvcc_step P t fs fs'" "mvcc_inv P fs" "p < fs_next fs"
  shows "mv_snaps (db_data (fs_heap fs' p)) = mv_snaps (db_data (fs_heap fs p)) \<or>
    (\<exists>g w. Lookup t (fs_handles fs) = Some g \<and> h_db g = p \<and> fh_writeBuf g = Some w \<and> may_write g \<and>
       mv_snaps (db_data (fs_heap fs' p)) = mv_snaps (db_data (fs_heap fs p)) @ [\<lparr>sn_pages = w, sn_size = fh_writeSz g\<rparr>])"
  using assms
proof (induction rule: mvcc_step.induct)
  case (do_open fs name flags)
  then show ?case using open_old_data [OF mvcc_invD(1) [OF do_open(2)] do_open(3)] by (simp add: mvcc_xOpen_def)
next
  case (do_sync t fs)
  show ?case
  proof (cases "\<exists>g w. Lookup t (fs_handles fs) = Some g \<and> fh_writeBuf g = Some w")
    case True
    then obtain g w where g: "Lookup t (fs_handles fs) = Some g" "fh_writeBuf g = Some w" by blast
    then have "may_write g" "fh_hasWrite g" using mvcc_invD(3) [OF do_sync(1) g(1)] by (auto simp: handle_ok_def)
    then show ?thesis using g by (simp add: mvcc_xSync_def)
  next
    case False
    then show ?thesis by (auto simp: mvcc_xSync_def split: option.splits)
  qed
qed (auto simp: mvcc_xClose_def mvcc_xLock_def mvcc_xUnlock_def mvcc_xWrite_def mvcc_xTruncate_def Let_def unlock_mu_def
    split: option.splits)

lemma step_next: "mvcc_step P t fs fs' \<Longrightarrow> fs_next fs \<le> fs_next fs'"
  by (induction rule: mvcc_step.induct)
     (auto simp: mvcc_xOpen_def open_next mvcc_xClose_def mvcc_xLock_def mvcc_xUnlock_def mvcc_xWrite_def mvcc_xTruncate_def
        mvcc_xSync_def Let_def unlock_mu_def split: option.splits)

text \<open>A writer keeps every other handle from publishing.\<close>

lemma step_writer_snaps:
  assumes "mvcc_step P t fs fs'" "t \<noteq> tok" "mvcc_inv P fs" "Lookup tok (fs_handles fs) = Some h"
    "LockReserved \<le> fh_lockLvl h"
  shows "mv_snaps (mv_db fs' h) = mv_snaps (mv_db fs h)"
proof -
  have p: "h_db h < fs_next fs" by (rule fs_invD(3) [OF mvcc_invD(1) [OF assms(3)] assms(4)])
  have "False" if g: "Lookup t (fs_handles fs) = Some g" "h_db g = h_db h" "may_write g" for g
  proof (cases "h_shared g")
    case True
    then have "t \<in> writers fs (h_db h)" using g by (auto simp: writers_def may_write_def)
    then show False using writer_iff(2) [OF assms(3,4,5)] assms(2) by simp
  next
    case False
    then show False using private_alone [OF assms(3) g(1) False assms(4)] g(2) assms(2) by simp
  qed
  then show ?thesis using step_snaps [OF assms(1,3) p] by blast
qed

lemma others_frame:
  assumes "others P tok fs fs'" "mvcc_reachable P fs" "0 < P" "Lookup tok (fs_handles fs) = Some h"
  shows "Lookup tok (fs_handles fs') = Some h \<and> prefix (mv_snaps (mv_db fs h)) (mv_snaps (mv_db fs' h)) \<and>
    (LockReserved \<le> fh_lockLvl h \<longrightarrow> mv_snaps (mv_db fs' h) = mv_snaps (mv_db fs h))"
  using assms
proof (induction rule: others.induct)
  case (step fs fs' t fs'')
  have inv: "mvcc_inv P fs'" using mvcc_reachable_inv others_reachable step.hyps(1) step.prems(1,2) by blast
  have ih: "Lookup tok (fs_handles fs') = Some h" "prefix (mv_snaps (mv_db fs h)) (mv_snaps (mv_db fs' h))"
      "LockReserved \<le> fh_lockLvl h \<longrightarrow> mv_snaps (mv_db fs' h) = mv_snaps (mv_db fs h)"
    using step.IH step.prems by auto
  have "prefix (mv_snaps (mv_db fs' h)) (mv_snaps (mv_db fs'' h))"
    using step_snaps [OF step.hyps(3) inv fs_invD(3) [OF mvcc_invD(1) [OF inv] ih(1)]] by auto
  then show ?case
    using ih step_handle [OF step.hyps(3,2) inv ih(1)] step_writer_snaps [OF step.hyps(3,2) inv ih(1)]
    by (auto intro: prefix_order.trans)
qed simp

section \<open>Reading and committing\<close>

lemma snap_of_writer:
  assumes "mvcc_inv P fs" "Lookup tok (fs_handles fs) = Some h" "LockReserved \<le> fh_lockLvl h"
  shows "snap_of fs h = current (mv_db fs h)"
  using mvcc_invD(2) [OF assms(1), of "h_db h"] mvcc_invD(3) [OF assms(1,2)] assms(3)
  by (auto simp: snap_of_def current_def handle_ok_def data_ok_def latest_def last_conv_nth split: option.splits)

lemma read_pinned:
  assumes "Lookup tok (fs_handles fs) = Some h" "Lookup tok (fs_handles fs') = Some h" "snap_of fs' h = snap_of fs h"
  shows "mvcc_xRead tok amt off fs' = mvcc_xRead tok amt off fs" "mvcc_xFileSize tok fs' = mvcc_xFileSize tok fs"
  using assms by (simp_all add: mvcc_xRead_def mvcc_xFileSize_def)

lemma xWrite_fresh:
  assumes "Lookup tok (fs_handles fs) = Some h" "\<not> h_readOnly h" "fh_writeBuf h = None"
  shows "mvcc_xWrite tok page off fs = (SQLITE_OK, set_handle tok (h\<lparr>fh_writeBuf := Some (AList.update off page (sn_pages (snap_of fs h))),
     fh_writeSz := max (sn_size (snap_of fs h)) (off + length page), fh_hasWrite := True\<rparr>) fs)"
  using assms by (simp add: mvcc_xWrite_def ensureWriteBuf_def buffer_write_def max_def)

lemma Lookup_set_handle:
  "Lookup tok (fs_handles fs) = Some h0 \<Longrightarrow> Lookup t (fs_handles (set_handle tok h fs)) = (if t = tok then Some h else Lookup t (fs_handles fs))"
  using nonzero_tok [of tok "fs_handles fs" h0] by simp

lemma snap_of_cong: "h_db g = h_db h \<Longrightarrow> fh_snap g = fh_snap h \<Longrightarrow> fs_heap fs' = fs_heap fs \<Longrightarrow> snap_of fs' g = snap_of fs h"
  by (simp add: snap_of_def split: option.split)

lemma xSync_publish:
  assumes "Lookup tok (fs_handles fs) = Some h" "fh_writeBuf h = Some w" "fh_hasWrite h"
  shows "mv_snaps (mv_db (snd (mvcc_xSync tok fs)) h) = mv_snaps (mv_db fs h) @ [\<lparr>sn_pages = w, sn_size = fh_writeSz h\<rparr>]"
  using assms by (simp add: mvcc_xSync_def)

section \<open>Properties\<close>

text \<open>In every interleaving, at most one handle of a database holds RESERVED or above, and the database's
  writer mutex is held exactly while one does: it is never leaked by a close and never unlocked twice.\<close>

theorem mvcc_single_writer:
  assumes "mvcc_reachable P fs" "0 < P" "Lookup tok (fs_handles fs) = Some h" "Lookup tok' (fs_handles fs) = Some h'"
    "h_db h' = h_db h"
  shows "(LockReserved \<le> fh_lockLvl h \<and> LockReserved \<le> fh_lockLvl h' \<longrightarrow> tok' = tok) \<and>
     (mv_writeMu (mv_db fs h) \<longleftrightarrow> (\<exists>t g. Lookup t (fs_handles fs) = Some g \<and> h_db g = h_db h \<and> LockReserved \<le> fh_lockLvl g))"
proof -
  note inv = mvcc_reachable_inv [OF assms(1,2)]
  note w = writer_iff [OF inv assms(3)]
  have "tok' \<in> writers fs (h_db h)" if "LockReserved \<le> fh_lockLvl h'"
    using assms(4,5) that by (auto simp: writers_def)
  then show ?thesis using w(2,3) by (auto simp: writers_def)
qed

text \<open>C35: A handle that captured a snapshot reads the same bytes and sees the same file size however the other
  handles lock, write, truncate, commit, open and close in between.\<close>

theorem mvcc_snapshot_isolation:
  assumes "mvcc_reachable P fs" "0 < P" "Lookup tok (fs_handles fs) = Some h" "fh_snap h = Some v" "others P tok fs fs'"
  shows "mvcc_xRead tok amt off fs' = mvcc_xRead tok amt off fs \<and> mvcc_xFileSize tok fs' = mvcc_xFileSize tok fs"
proof -
  note inv = mvcc_reachable_inv [OF assms(1,2)]
  note fr = others_frame [OF assms(5,1,2,3)]
  have "v < length (mv_snaps (mv_db fs h))" using mvcc_invD(3) [OF inv assms(3)] assms(4) by (simp add: handle_ok_def)
  then have "snap_of fs' h = snap_of fs h"
    using fr assms(4) by (auto simp: snap_of_def prefix_def nth_append)
  then show ?thesis using read_pinned [OF assms(3), of fs'] fr by simp
qed

text \<open>A handle may become a writer exactly when no other handle of the database is one and the snapshot it
  reads from is still the newest; in particular a reader overtaken by a commit is refused with BUSY.\<close>

theorem mvcc_reserved_grant:
  assumes "mvcc_reachable P fs" "0 < P" "Lookup tok (fs_handles fs) = Some h" "fh_lockLvl h < LockReserved" "LockReserved \<le> lvl"
  shows "fst (mvcc_xLock tok lvl fs) = SQLITE_OK \<longleftrightarrow>
     (\<forall>t g. Lookup t (fs_handles fs) = Some g \<and> h_db g = h_db h \<longrightarrow> fh_lockLvl g < LockReserved) \<and>
     (fh_snap h = None \<or> fh_snap h = Some (latest (mv_db fs h)))"
proof -
  have "mv_writeMu (mv_db fs h) \<longleftrightarrow> (\<exists>t g. Lookup t (fs_handles fs) = Some g \<and> h_db g = h_db h \<and> LockReserved \<le> fh_lockLvl g)"
    using writer_iff(3) [OF mvcc_reachable_inv [OF assms(1,2)] assms(3)] by (auto simp: writers_def)
  also have "\<dots> \<longleftrightarrow> \<not> (\<forall>t g. Lookup t (fs_handles fs) = Some g \<and> h_db g = h_db h \<longrightarrow> fh_lockLvl g < LockReserved)"
    by (auto simp: not_less)
  finally show ?thesis unfolding xLock_grab [OF assms(3,5,4)] by auto
qed


text \<open>What \<^verbatim>\<open>xRead\<close> returns for a page the handle itself has just overwritten: when the page is part of the
  handle's snapshot, the old bytes, because the snapshot's pages are copied over the pending ones. A writer
  does not read its own uncommitted writes.\<close>

theorem mvcc_own_write_not_read:
  assumes "mvcc_reachable P fs" "0 < P" "Lookup tok (fs_handles fs) = Some h" "may_write h" "\<not> h_readOnly h"
    "fh_writeBuf h = None" "P dvd off" "length page = P"
    "(off, old) \<in> set (sn_pages (snap_of fs h))" "length old = P"
  shows "mvcc_xRead tok P off (snd (mvcc_xWrite tok page off fs)) = (SQLITE_OK, old)"
proof -
  note inv = mvcc_reachable_inv [OF assms(1,2)]
  let ?s = "snap_of fs h" and ?fs = "snd (mvcc_xWrite tok page off fs)"
  let ?w = "AList.update off page (sn_pages ?s)"
  let ?h = "h\<lparr>fh_writeBuf := Some ?w, fh_writeSz := max (sn_size ?s) (off + P), fh_hasWrite := True\<rparr>"
  have w: "?fs = set_handle tok ?h fs" using xWrite_fresh [OF assms(3,5,6)] assms(8) by simp
  have l: "Lookup tok (fs_handles ?fs) = Some ?h" unfolding w by (simp add: Lookup_set_handle [OF assms(3)])
  have sn: "snap_of ?fs ?h = ?s" unfolding w by (rule snap_of_cong) simp_all
  obtain dst n where b: "ReadFromPages ?w off (off + P) (replicate P 0) = (dst, n)" by fastforce
  have len: "length dst = P" using b length_fold_copy [of off "off + P" ?w "(replicate P 0, 0)"] by (simp add: ReadFromPages_def)
  obtain dst' n' where r: "ReadFromPages (sn_pages ?s) off (off + P) dst = (dst', n')" by fastforce
  have pg: "disjoint_pages (sn_pages ?s)"
    by (rule paged_disjoint [OF snap_of_paged [OF mvcc_invD(2) [OF inv] mvcc_invD(3) [OF inv assms(3)]]])
  have cov: "covers (off, old) x" if "off \<le> x" "x < off + P" for x using that assms(10) by (simp add: covers_def)
  have "dst' = old"
  proof (rule nth_equalityI)
    have d': "dst' = map (\<lambda>x. if \<exists>p\<in>set (sn_pages ?s). covers p x then content (sn_pages ?s) x else dst ! (x - off)) [off..<off + P]"
      using ReadFromPages_over [OF pg, of dst "off + P" off] len r by simp
    then show "length dst' = length old" using assms(10) by simp
    fix i assume "i < length dst'"
    then show "dst' ! i = old ! i"
      using d' cov [of "off + i"] content_covered [OF pg assms(9) cov, of "off + i"] assms(9) by auto
  qed
  moreover have "P \<le> n'"
    using filled_enough [OF assms(2), of "sn_pages ?s" off dst] r assms(9,10) by force
  ultimately show ?thesis using l sn b r by (simp add: mvcc_xRead_def)
qed

text \<open>After a commit a handle keeps no snapshot: once it lowers its lock to SHARED, it reads whatever is
  newest at the time of each read, and is granted RESERVED as soon as no other handle is a writer, although
  others may have committed since it last read.\<close>

theorem mvcc_shared_after_commit:
  assumes "mvcc_reachable P fs" "0 < P" "Lookup tok (fs_handles fs) = Some h" "LockReserved \<le> fh_lockLvl h"
    "fh_hasWrite h" "others P tok (snd (mvcc_xUnlock tok LockShared (snd (mvcc_xSync tok fs)))) fs'"
  shows "\<exists>g. Lookup tok (fs_handles fs') = Some g \<and> fh_lockLvl g = LockShared \<and> h_db g = h_db h \<and>
     snap_of fs' g = current (mv_db fs' g) \<and>
     (\<not> mv_writeMu (mv_db fs' g) \<longrightarrow> fst (mvcc_xLock tok LockReserved fs') = SQLITE_OK)"
proof -
  note inv = mvcc_reachable_inv [OF assms(1,2)]
  obtain w where w: "fh_writeBuf h = Some w" using mvcc_invD(3) [OF inv assms(3)] assms(5) by (auto simp: handle_ok_def)
  let ?fs1 = "snd (mvcc_xSync tok fs)" and ?h1 = "h\<lparr>fh_writeBuf := None, fh_hasWrite := False, fh_snap := None\<rparr>"
  let ?fs2 = "snd (mvcc_xUnlock tok LockShared ?fs1)" and ?h2 = "?h1\<lparr>fh_lockLvl := LockShared\<rparr>"
  note nz = nonzero_tok [OF assms(3)]
  have l1: "Lookup tok (fs_handles ?fs1) = Some ?h1" using assms(3,5) w nz by (simp add: mvcc_xSync_def)
  have lv: "\<not> fh_lockLvl h \<le> LockShared" using assms(4) by (cases "fh_lockLvl h") (auto simp: level_defs)
  have l2: "Lookup tok (fs_handles ?fs2) = Some ?h2"
    using l1 lv nz assms(4) by (simp add: mvcc_xUnlock_def Let_def unlock_mu_def level_defs)
  have "mvcc_reachable P ?fs2"
    by (intro mvcc_reachable.step [OF mvcc_reachable.step [OF assms(1) mvcc_step.do_sync] mvcc_step.do_unlock])
  from others_frame [OF assms(6) this assms(2) l2] have l3: "Lookup tok (fs_handles fs') = Some ?h2" by simp
  have "fst (mvcc_xLock tok LockReserved fs') = SQLITE_OK" if "\<not> mv_writeMu (mv_db fs' ?h2)"
    using xLock_grab [OF l3, of LockReserved] that by (simp add: level_defs)
  then show ?thesis using l3 by (auto simp: snap_of_def)
qed

section \<open>A run with a writer and a reader\<close>

definition mv_two :: mvccFS where
  "mv_two = snd (mvcc_xOpen ''file:/a'' \<lparr>fl_mainDB = True, fl_tempDB = False, fl_transientDB = False,
       fl_deleteOnClose = False, fl_readOnly = False\<rparr>
     (snd (mvcc_xOpen ''/a'' \<lparr>fl_mainDB = True, fl_tempDB = False, fl_transientDB = False,
       fl_deleteOnClose = False, fl_readOnly = False\<rparr> (emptyFS mvEmpty))))"

definition mv_writer :: mvccFS where
  "mv_writer = snd (mvcc_xLock 1 LockReserved (snd (mvcc_xLock 1 LockShared mv_two)))"

definition mv_committed :: mvccFS where
  "mv_committed = snd (mvcc_xSync 1 (snd (mvcc_xWrite 1 [1, 2] 0 mv_writer)))"

lemmas mv_eval = mvcc_xOpen_def open_file_def acquireDB_def newDB_def addRef_def Register_def Let_def exhausted_def
  emptyFS_def NewRegistry_def add64_def shared_name_def HasPrefix_def name_key_def TrimPrefix_def Lookup_def
  mk_mvHandle_def mvEmpty_def mvcc_xLock_def set_handle_def set_data_def latest_def mvcc_xWrite_def ensureWriteBuf_def
  snap_of_def current_def buffer_write_def mvcc_xSync_def

lemma mv_two_reachable: "mvcc_reachable P mv_two"
proof -
  have "mvcc_reachable P (snd (mvcc_xOpen ''/a'' \<lparr>fl_mainDB = True, fl_tempDB = False, fl_transientDB = False,
       fl_deleteOnClose = False, fl_readOnly = False\<rparr> (emptyFS mvEmpty)))"
    by (rule mvcc_reachable.step [OF mvcc_reachable.init mvcc_step.do_open]) (simp add: mv_eval)
  then show ?thesis unfolding mv_two_def
    by (rule mvcc_reachable.step [OF _ mvcc_step.do_open]) (simp add: mv_eval)
qed

lemma mv_writer_reachable: "mvcc_reachable P mv_writer"
  unfolding mv_writer_def
  by (intro mvcc_reachable.step [OF mvcc_reachable.step [OF mv_two_reachable mvcc_step.do_lock] mvcc_step.do_lock])

definition idle_handle :: mvHandle where
  "idle_handle = mk_mvHandle 0 True False"

definition writer_handle :: mvHandle where
  "writer_handle = idle_handle\<lparr>fh_snap := Some 0, fh_lockLvl := LockReserved\<rparr>"

lemma mv_writer_handles:
  "Lookup 1 (fs_handles mv_writer) = Some writer_handle" "Lookup 2 (fs_handles mv_writer) = Some idle_handle"
  "mv_snaps (db_data (fs_heap mv_writer 0)) = [\<lparr>sn_pages = [], sn_size = 0\<rparr>]"
  by (simp_all add: mv_writer_def mv_two_def writer_handle_def idle_handle_def mv_eval level_defs)

lemma mv_committed_reachable: "mvcc_reachable 2 mv_committed"
proof -
  have "mvcc_reachable 2 (snd (mvcc_xWrite 1 [1, 2] 0 mv_writer))"
    by (rule mvcc_reachable.step [OF mv_writer_reachable mvcc_step.do_write [OF mv_writer_handles(1)]])
       (simp_all add: may_write_def writer_handle_def)
  then show ?thesis unfolding mv_committed_def by (rule mvcc_reachable.step [OF _ mvcc_step.do_sync])
qed

lemma mv_committed_handles:
  "Lookup 1 (fs_handles mv_committed) = Some (writer_handle\<lparr>fh_snap := None, fh_writeSz := 2\<rparr>)"
  "mv_snaps (db_data (fs_heap mv_committed 0)) = [\<lparr>sn_pages = [], sn_size = 0\<rparr>, \<lparr>sn_pages = [(0, [1, 2])], sn_size = 2\<rparr>]"
  by (simp_all add: mv_committed_def mv_writer_def mv_two_def writer_handle_def idle_handle_def mv_eval level_defs)

theorem mvcc_single_writer_witness:
  "fh_lockLvl writer_handle = LockReserved \<and> mv_writeMu (db_data (fs_heap mv_writer 0))"
proof -
  have "LockReserved \<le> fh_lockLvl writer_handle" "h_db writer_handle = 0" "fh_lockLvl writer_handle = LockReserved"
    by (simp_all add: writer_handle_def idle_handle_def mk_mvHandle_def)
  with mvcc_single_writer [OF mv_writer_reachable [of 1] _ mv_writer_handles(1,1)] mv_writer_handles(1)
  show ?thesis by (metis less_numeral_extra(1))
qed

theorem mvcc_snapshot_isolation_witness:
  "mvcc_xRead 1 2 0 (snd (mvcc_xClose 2 mv_writer)) = mvcc_xRead 1 2 0 mv_writer"
proof -
  have "others 1 1 mv_writer (snd (mvcc_xClose 2 mv_writer))"
    by (rule others.step [OF others.refl _ mvcc_step.do_close]) simp
  from mvcc_snapshot_isolation [OF mv_writer_reachable _ mv_writer_handles(1) _ this] show ?thesis
    by (simp add: writer_handle_def)
qed

theorem mvcc_reserved_grant_witness: "fst (mvcc_xLock 2 LockReserved mv_writer) \<noteq> SQLITE_OK"
proof -
  have "fh_lockLvl idle_handle < LockReserved" by (simp add: idle_handle_def mk_mvHandle_def level_defs)
  moreover have "h_db writer_handle = h_db idle_handle" "\<not> fh_lockLvl writer_handle < LockReserved"
    by (simp_all add: writer_handle_def idle_handle_def mk_mvHandle_def)
  ultimately show ?thesis
    using mvcc_reserved_grant [OF mv_writer_reachable [of 1] _ mv_writer_handles(2), of LockReserved] mv_writer_handles(1)
    by auto
qed


theorem mvcc_own_write_not_read_witness:
  "mvcc_xRead 1 2 0 (snd (mvcc_xWrite 1 [5, 6] 0 mv_committed)) = (SQLITE_OK, [1, 2])"
proof -
  let ?h = "writer_handle\<lparr>fh_snap := None, fh_writeSz := 2\<rparr>"
  have "may_write ?h" "\<not> h_readOnly ?h" "fh_writeBuf ?h = None"
      "(0, [1, 2]) \<in> set (sn_pages (snap_of mv_committed ?h))"
    using mv_committed_handles(2)
    by (simp_all add: may_write_def writer_handle_def idle_handle_def mk_mvHandle_def snap_of_def current_def)
  from mvcc_own_write_not_read [OF mv_committed_reachable _ mv_committed_handles(1) this(1-3) _ _ this(4), of "[5, 6]"]
  show ?thesis by simp
qed

theorem mvcc_shared_after_commit_witness:
  "\<exists>g. Lookup 1 (fs_handles (snd (mvcc_xUnlock 1 LockShared mv_committed))) = Some g \<and> fh_lockLvl g = LockShared"
proof -
  let ?fs = "snd (mvcc_xWrite 1 [1, 2] 0 mv_writer)"
  have r: "mvcc_reachable 2 ?fs"
    by (rule mvcc_reachable.step [OF mv_writer_reachable mvcc_step.do_write [OF mv_writer_handles(1)]])
       (simp_all add: may_write_def writer_handle_def)
  obtain h where "Lookup 1 (fs_handles ?fs) = Some h" "LockReserved \<le> fh_lockLvl h" "fh_hasWrite h"
    using xWrite_fresh [OF mv_writer_handles(1), of "[1, 2]" 0]
    by (simp add: writer_handle_def idle_handle_def mk_mvHandle_def)
  from mvcc_shared_after_commit [OF r _ this others.refl] show ?thesis
    by (auto simp: mv_committed_def [symmetric] simp del: One_nat_def)
qed

end
