(* ===== verification/Pcache.thy ===== *)
theory Pcache
  imports Token_Registry
begin

text \<open>
  \<^verbatim>\<open>pcache/pcache.go\<close>: the bounded LRU page cache installed as SQLite's \<^verbatim>\<open>PCACHE2\<close>. A \<^verbatim>\<open>*pcPage\<close> is
  identified with the address of its C block, which is also what SQLite holds; \<open>lc_byPtr\<close> is the store
  of page objects and \<open>lc_byKey\<close> maps a page number to a block. The address returned by
  \<^verbatim>\<open>libc.Xcalloc\<close> is an argument of the operations that allocate (0 for out of memory). The layout of a
  block and the methods struct registered with SQLite are not modelled.
\<close>

record pcPage =
  pg_key :: nat
  pg_pinned :: bool
  pg_elem :: bool   \<comment> \<open>whether \<^verbatim>\<open>elem\<close> is set\<close>

record Stats =
  st_hits :: int
  st_misses :: int
  st_evictions :: int
  st_pages :: int

record lruCache =
  lc_maxPages :: nat
  lc_byKey :: "(nat \<times> nat) list"
  lc_byPtr :: "(nat \<times> pcPage) list"
  lc_lru :: "nat list"   \<comment> \<open>front is least recently used\<close>

type_synonym pcs = "lruCache \<times> Stats"

section \<open>The cache\<close>

definition allocPage :: "nat \<Rightarrow> nat \<Rightarrow> pcs \<Rightarrow> nat \<times> pcs" where
  "allocPage key blk s = (case s of (c, st) \<Rightarrow>
     if blk = 0 then (0, s)
     else (blk, c\<lparr>lc_byKey := AList.update key blk (lc_byKey c),
         lc_byPtr := AList.update blk \<lparr>pg_key = key, pg_pinned = True, pg_elem = False\<rparr> (lc_byPtr c)\<rparr>,
       st\<lparr>st_pages := st_pages st + 1\<rparr>))"

definition freePage :: "nat \<Rightarrow> pcs \<Rightarrow> pcs" where
  "freePage b s = (case s of (c, st) \<Rightarrow>
     (case map_of (lc_byPtr c) b of
        None \<Rightarrow> s
      | Some p \<Rightarrow>
          (c\<lparr>lc_lru := (if pg_elem p then remove1 b (lc_lru c) else lc_lru c),
             lc_byKey := AList.delete (pg_key p) (lc_byKey c), lc_byPtr := AList.delete b (lc_byPtr c)\<rparr>,
           st\<lparr>st_pages := st_pages st - 1\<rparr>)))"

definition evictLRU :: "pcs \<Rightarrow> bool \<times> pcs" where
  "evictLRU s =
     (case lc_lru (fst s) of
        [] \<Rightarrow> (False, s)
      | b # _ \<Rightarrow> (case freePage b s of (c, st) \<Rightarrow> (True, c, st\<lparr>st_evictions := st_evictions st + 1\<rparr>)))"

definition set_page :: "nat \<Rightarrow> pcPage \<Rightarrow> lruCache \<Rightarrow> lruCache" where
  "set_page b p c = c\<lparr>lc_byPtr := AList.update b p (lc_byPtr c)\<rparr>"

definition pin :: "nat \<Rightarrow> lruCache \<Rightarrow> lruCache" where
  "pin b c =
     (case map_of (lc_byPtr c) b of
        None \<Rightarrow> c
      | Some p \<Rightarrow>
          if pg_pinned p then c
          else set_page b (p\<lparr>pg_elem := False, pg_pinned := True\<rparr>)
             (if pg_elem p then c\<lparr>lc_lru := remove1 b (lc_lru c)\<rparr> else c))"

definition fetch :: "nat \<Rightarrow> int \<Rightarrow> nat \<Rightarrow> pcs \<Rightarrow> nat \<times> pcs" where
  "fetch key createFlag blk s = (case s of (c, st) \<Rightarrow>
     (case map_of (lc_byKey c) key of
       Some b \<Rightarrow> (b, pin b c, st\<lparr>st_hits := st_hits st + 1\<rparr>)
     | None \<Rightarrow>
         let s1 = (c, st\<lparr>st_misses := st_misses st + 1\<rparr>)
         in if createFlag = 0 then (0, s1)
            else if lc_maxPages c \<le> length (lc_byKey c)
            then case evictLRU s1 of (ok, s2) \<Rightarrow> if \<not> ok \<and> createFlag = 1 then (0, s2) else allocPage key blk s2
            else allocPage key blk s1))"

text \<open>The loops of \<^verbatim>\<open>xUnpin\<close> and \<^verbatim>\<open>xShrink\<close> evict until the test fails or nothing is evictable. Each round
  takes one page off the LRU list, so its length is enough fuel.\<close>

fun evict_while :: "nat \<Rightarrow> (lruCache \<Rightarrow> bool) \<Rightarrow> pcs \<Rightarrow> pcs" where
  "evict_while 0 test s = s"
| "evict_while (Suc n) test s =
     (if test (fst s) then case evictLRU s of (ok, s') \<Rightarrow> if ok then evict_while n test s' else s' else s)"

definition unpin :: "nat \<Rightarrow> int \<Rightarrow> pcs \<Rightarrow> pcs" where
  "unpin b discard s = (case s of (c, st) \<Rightarrow>
     (case map_of (lc_byPtr c) b of
       None \<Rightarrow> s
     | Some p \<Rightarrow>
         if discard \<noteq> 0 then freePage b (set_page b (p\<lparr>pg_pinned := False\<rparr>) c, st)
         else let c' = (set_page b (p\<lparr>pg_pinned := False, pg_elem := True\<rparr>) c)\<lparr>lc_lru := lc_lru c @ [b]\<rparr>
              in evict_while (length (lc_lru c')) (\<lambda>c. lc_maxPages c < length (lc_byKey c)) (c', st)))"

definition rekey :: "nat \<Rightarrow> nat \<Rightarrow> nat \<Rightarrow> pcs \<Rightarrow> pcs" where
  "rekey b oldKey newKey s =
     (case map_of (lc_byPtr (fst s)) b of
        None \<Rightarrow> s
      | Some p \<Rightarrow>
          let (c, st) = (case map_of (lc_byKey (fst s)) newKey of
                None \<Rightarrow> s
              | Some e \<Rightarrow> if e \<noteq> b then freePage e s else s)
          in (set_page b (p\<lparr>pg_key := newKey\<rparr>)
                (c\<lparr>lc_byKey := AList.update newKey b (AList.delete oldKey (lc_byKey c))\<rparr>), st))"

definition truncate_cache :: "nat \<Rightarrow> pcs \<Rightarrow> pcs" where
  "truncate_cache iLimit s =
     foldl (\<lambda>s (k, b). if iLimit \<le> k then freePage b s else s) s (lc_byKey (fst s))"

definition shrink :: "pcs \<Rightarrow> pcs" where
  "shrink s = evict_while (length (lc_lru (fst s))) (\<lambda>_. True) s"

section \<open>The trampolines\<close>

record pcState =
  ps_maxPages :: nat
  ps_stats :: Stats
  ps_caches :: "lruCache registry"

definition on_cache :: "nat \<Rightarrow> 'a \<Rightarrow> (pcs \<Rightarrow> 'a \<times> pcs) \<Rightarrow> pcState \<Rightarrow> 'a \<times> pcState" where
  "on_cache pCache absent f s =
     (case Lookup pCache (ps_caches s) of
        None \<Rightarrow> (absent, s)
      | Some c \<Rightarrow>
          (case f (c, ps_stats s) of (r, c', st') \<Rightarrow>
             (r, s\<lparr>ps_stats := st',
               ps_caches := (ps_caches s)\<lparr>rg_m := AList.update pCache c' (rg_m (ps_caches s))\<rparr>\<rparr>)))"

text \<open>\<^verbatim>\<open>InstallBoundedLRU\<close>: the process-wide flag and whether the allocation and \<^verbatim>\<open>sqlite3_config\<close> succeed are
  arguments; the new value of the flag is returned with the result.\<close>

datatype pcError = BadMaxPages | AlreadyInstalled | OutOfMemory | ConfigRefused

definition InstallBoundedLRU :: "int \<Rightarrow> bool \<Rightarrow> bool \<Rightarrow> bool \<Rightarrow> (pcError + pcState) \<times> bool" where
  "InstallBoundedLRU maxPages installed mallocOk configOk =
     (if maxPages < 1 then (Inl BadMaxPages, installed)
      else if installed then (Inl AlreadyInstalled, True)
      else if \<not> mallocOk then (Inl OutOfMemory, False)
      else if \<not> configOk then (Inl ConfigRefused, False)
      else (Inr \<lparr>ps_maxPages = nat maxPages, ps_stats = \<lparr>st_hits = 0, st_misses = 0, st_evictions = 0, st_pages = 0\<rparr>,
                 ps_caches = NewRegistry\<rparr>, True))"

definition xCreate :: "pcState \<Rightarrow> nat \<times> pcState" where
  "xCreate s = (case Register \<lparr>lc_maxPages = ps_maxPages s, lc_byKey = [], lc_byPtr = [], lc_lru = []\<rparr> (ps_caches s) of
     (tok, r) \<Rightarrow> (tok, s\<lparr>ps_caches := r\<rparr>))"

definition xPagecount :: "nat \<Rightarrow> pcState \<Rightarrow> nat" where
  "xPagecount pCache s = (case Lookup pCache (ps_caches s) of None \<Rightarrow> 0 | Some c \<Rightarrow> length (lc_byKey c))"

definition xFetch :: "nat \<Rightarrow> nat \<Rightarrow> int \<Rightarrow> nat \<Rightarrow> pcState \<Rightarrow> nat \<times> pcState" where
  "xFetch pCache key createFlag blk = on_cache pCache 0 (fetch key createFlag blk)"

definition xUnpin :: "nat \<Rightarrow> nat \<Rightarrow> int \<Rightarrow> pcState \<Rightarrow> pcState" where
  "xUnpin pCache pPage discard s = snd (on_cache pCache () (\<lambda>s. ((), unpin pPage discard s)) s)"

definition xRekey :: "nat \<Rightarrow> nat \<Rightarrow> nat \<Rightarrow> nat \<Rightarrow> pcState \<Rightarrow> pcState" where
  "xRekey pCache pPage oldKey newKey s = snd (on_cache pCache () (\<lambda>s. ((), rekey pPage oldKey newKey s)) s)"

definition xTruncate :: "nat \<Rightarrow> nat \<Rightarrow> pcState \<Rightarrow> pcState" where
  "xTruncate pCache iLimit s = snd (on_cache pCache () (\<lambda>s. ((), truncate_cache iLimit s)) s)"

definition xShrink :: "nat \<Rightarrow> pcState \<Rightarrow> pcState" where
  "xShrink pCache s = snd (on_cache pCache () (\<lambda>s. ((), shrink s)) s)"

definition xDestroy :: "nat \<Rightarrow> pcState \<Rightarrow> pcState" where
  "xDestroy pCache s =
     (case Lookup pCache (ps_caches s) of
        None \<Rightarrow> s
      | Some c \<Rightarrow> s\<lparr>ps_stats := (ps_stats s)\<lparr>st_pages := st_pages (ps_stats s) - int (length (lc_byKey c))\<rparr>,
           ps_caches := Unregister pCache (ps_caches s)\<rparr>)"

section \<open>Invariant\<close>

text \<open>Keys and blocks correspond one to one, the LRU list holds exactly the unpinned pages, and there are more
  pages than the bound only when every page is pinned.\<close>

definition links :: "lruCache \<Rightarrow> bool" where
  "links c \<longleftrightarrow> distinct (map fst (lc_byKey c)) \<and> distinct (map fst (lc_byPtr c)) \<and> distinct (lc_lru c) \<and>
     (\<forall>k b. map_of (lc_byKey c) k = Some b \<longleftrightarrow> (\<exists>p. map_of (lc_byPtr c) b = Some p \<and> pg_key p = k)) \<and>
     (\<forall>b p. map_of (lc_byPtr c) b = Some p \<longrightarrow> b \<noteq> 0 \<and> pg_elem p = (b \<in> set (lc_lru c)) \<and> pg_pinned p = (b \<notin> set (lc_lru c))) \<and>
     (\<forall>b\<in>set (lc_lru c). \<exists>p. map_of (lc_byPtr c) b = Some p)"

definition bounded :: "lruCache \<Rightarrow> bool" where
  "bounded c \<longleftrightarrow> length (lc_byKey c) \<le> lc_maxPages c \<or> lc_lru c = []"

lemma linksD:
  assumes "links c"
  shows "distinct (map fst (lc_byKey c))" "distinct (map fst (lc_byPtr c))" "distinct (lc_lru c)"
    "map_of (lc_byKey c) k = Some b \<longleftrightarrow> (\<exists>p. map_of (lc_byPtr c) b = Some p \<and> pg_key p = k)"
    "map_of (lc_byPtr c) b = Some p \<Longrightarrow> b \<noteq> 0"
    "map_of (lc_byPtr c) b = Some p \<Longrightarrow> pg_elem p = (b \<in> set (lc_lru c))"
    "map_of (lc_byPtr c) b = Some p \<Longrightarrow> pg_pinned p = (b \<notin> set (lc_lru c))"
    "b \<in> set (lc_lru c) \<Longrightarrow> \<exists>p. map_of (lc_byPtr c) b = Some p"
  using assms unfolding links_def by blast+

text \<open>What an operation may do: keep the links and the bound, keep the gauge in step with the number of pages,
  and leave every pinned page outside \<open>B\<close> where it is.\<close>

definition op_ok :: "nat set \<Rightarrow> pcs \<Rightarrow> pcs \<Rightarrow> bool" where
  "op_ok B s s' \<longleftrightarrow> links (fst s') \<and> lc_maxPages (fst s') = lc_maxPages (fst s) \<and>
     st_pages (snd s') - st_pages (snd s) = int (length (lc_byKey (fst s'))) - int (length (lc_byKey (fst s))) \<and>
     (\<forall>b p. b \<notin> B \<longrightarrow> map_of (lc_byPtr (fst s)) b = Some p \<longrightarrow> pg_pinned p \<longrightarrow> map_of (lc_byPtr (fst s')) b = Some p)"

lemma op_ok_refl: "links (fst s) \<Longrightarrow> op_ok B s s"
  by (simp add: op_ok_def)

lemma op_ok_trans: "op_ok B s t \<Longrightarrow> op_ok B t u \<Longrightarrow> op_ok B s u"
  by (auto simp: op_ok_def)

lemma op_ok_mono: "op_ok B s t \<Longrightarrow> B \<subseteq> B' \<Longrightarrow> op_ok B' s t"
  by (auto simp: op_ok_def)

lemma freePage_step:
  assumes l: "links c" and p: "map_of (lc_byPtr c) b = Some p"
  shows "\<exists>c' st'. freePage b (c, st) = (c', st') \<and> links c' \<and> lc_lru c' = remove1 b (lc_lru c) \<and>
     map_of (lc_byPtr c') = (map_of (lc_byPtr c))(b := None) \<and> map_of (lc_byKey c') = (map_of (lc_byKey c))(pg_key p := None) \<and>
     Suc (length (lc_byKey c')) = length (lc_byKey c) \<and> st' = st\<lparr>st_pages := st_pages st - 1\<rparr> \<and> lc_maxPages c' = lc_maxPages c"
proof -
  note d = linksD [OF l]
  let ?c = "c\<lparr>lc_lru := remove1 b (lc_lru c), lc_byKey := AList.delete (pg_key p) (lc_byKey c), lc_byPtr := AList.delete b (lc_byPtr c)\<rparr>"
  have f: "freePage b (c, st) = (?c, st\<lparr>st_pages := st_pages st - 1\<rparr>)"
    using p d(6) [OF p] by (simp add: freePage_def remove1_idem)
  have k: "map_of (lc_byKey c) (pg_key p) = Some b" using d(4) p by blast
  have mp: "map_of (lc_byPtr ?c) = (map_of (lc_byPtr c))(b := None)" and mk: "map_of (lc_byKey ?c) = (map_of (lc_byKey c))(pg_key p := None)"
    by (simp_all add: delete_conv')
  have "links ?c" unfolding links_def mp mk
  proof (intro conjI allI impI ballI)
    fix k' b'
    show "((map_of (lc_byKey c))(pg_key p := None)) k' = Some b' \<longleftrightarrow>
        (\<exists>q. ((map_of (lc_byPtr c))(b := None)) b' = Some q \<and> pg_key q = k')"
    proof (cases "b' = b")
      case True
      have "map_of (lc_byKey c) k' \<noteq> Some b" if "k' \<noteq> pg_key p" using d(4) [of k' b] p that by simp
      then show ?thesis using True by simp
    next
      case False
      then show ?thesis using d(4) [of k' b'] k by auto
    qed
  qed (use d p in \<open>auto simp: distinct_delete split: if_splits\<close>)
  then show ?thesis using f mp mk length_delete [OF d(1) k] by (intro exI [of _ ?c]) simp
qed

lemma freePage_ok:
  assumes "links c"
  shows "op_ok {b} (c, st) (freePage b (c, st))"
proof (cases "map_of (lc_byPtr c) b")
  case None then show ?thesis using assms by (simp add: freePage_def op_ok_def)
next
  case (Some p)
  then show ?thesis using freePage_step [OF assms Some, of st] by (auto simp: op_ok_def)
qed

lemma evictLRU_step:
  assumes l: "links (fst s)" and lru: "lc_lru (fst s) = b # bs"
  shows "\<exists>s'. evictLRU s = (True, s') \<and> op_ok {} s s' \<and> lc_lru (fst s') = bs \<and>
     Suc (length (lc_byKey (fst s'))) = length (lc_byKey (fst s)) \<and>
     map_of (lc_byPtr (fst s')) = (map_of (lc_byPtr (fst s)))(b := None) \<and>
     st_evictions (snd s') = st_evictions (snd s) + 1"
proof -
  obtain c st where s: "s = (c, st)" by (cases s)
  obtain p where p: "map_of (lc_byPtr c) b = Some p" using linksD(8) [OF l] lru s by auto
  obtain c' where f: "freePage b (c, st) = (c', st\<lparr>st_pages := st_pages st - 1\<rparr>)" "links c'" "lc_lru c' = remove1 b (lc_lru c)"
      "map_of (lc_byPtr c') = (map_of (lc_byPtr c))(b := None)" "Suc (length (lc_byKey c')) = length (lc_byKey c)"
      "lc_maxPages c' = lc_maxPages c"
    using freePage_step [OF _ p] l s by fastforce
  have "\<not> pg_pinned p" using linksD(7) [OF l, of b p] p lru s by simp
  then show ?thesis using f lru s p by (auto simp: evictLRU_def op_ok_def)
qed

lemma evict_while_ok:
  assumes "links (fst s)" "length (lc_lru (fst s)) \<le> n"
  shows "op_ok {} s (evict_while n test s) \<and> (\<not> test (fst (evict_while n test s)) \<or> lc_lru (fst (evict_while n test s)) = []) \<and>
     length (lc_byKey (fst (evict_while n test s))) \<le> length (lc_byKey (fst s))"
  using assms
proof (induction n arbitrary: s)
  case 0 then show ?case by (simp add: op_ok_refl)
next
  case (Suc n)
  show ?case
  proof (cases "test (fst s) \<and> lc_lru (fst s) \<noteq> []")
    case False
    then show ?thesis using Suc.prems by (auto simp: op_ok_refl evictLRU_def)
  next
    case True
    then obtain b bs where lru: "lc_lru (fst s) = b # bs" by (auto simp: neq_Nil_conv)
    obtain s' where e: "evictLRU s = (True, s')" "op_ok {} s s'" "lc_lru (fst s') = bs"
        "Suc (length (lc_byKey (fst s'))) = length (lc_byKey (fst s))"
      using evictLRU_step [OF Suc.prems(1) lru] by blast
    have "links (fst s')" "length (lc_lru (fst s')) \<le> n" using e Suc.prems lru by (auto simp: op_ok_def)
    from Suc.IH [OF this] show ?thesis using e True op_ok_trans [OF e(2)] by auto
  qed
qed

lemma freePage_bounded:
  assumes "links c" "bounded c"
  shows "bounded (fst (freePage b (c, st)))"
proof (cases "map_of (lc_byPtr c) b")
  case None then show ?thesis using assms by (simp add: freePage_def)
next
  case (Some p)
  then show ?thesis using freePage_step [OF assms(1) Some, of st] assms(2) by (auto simp: bounded_def)
qed

text \<open>Moving one page between pinned and unpinned.\<close>

lemma relink:
  assumes l: "links c" and p: "map_of (lc_byPtr c) b = Some p"
    and q: "pg_key q = pg_key p" "pg_elem q = (b \<in> set lru)" "pg_pinned q = (b \<notin> set lru)"
    and lru: "distinct lru" "\<And>x. x \<noteq> b \<Longrightarrow> x \<in> set lru \<longleftrightarrow> x \<in> set (lc_lru c)"
  shows "links (set_page b q c\<lparr>lc_lru := lru\<rparr>)"
proof -
  note d = linksD [OF l]
  have mp: "map_of (lc_byPtr (set_page b q c\<lparr>lc_lru := lru\<rparr>)) = (map_of (lc_byPtr c))(b \<mapsto> q)"
    by (simp add: set_page_def update_conv')
  have "map_of (lc_byKey c) k = Some b' \<longleftrightarrow> (\<exists>r. ((map_of (lc_byPtr c))(b \<mapsto> q)) b' = Some r \<and> pg_key r = k)" for k b'
    using d(4) [of k b'] p q(1) by (cases "b' = b") auto
  then show ?thesis unfolding links_def mp
    using d(1,2) lru q d(5) [OF p] d(5-8) by (auto simp: set_page_def distinct_update split: if_splits)
qed

lemma pin_ok:
  assumes l: "links c" and p: "map_of (lc_byPtr c) b = Some p"
  shows "links (pin b c)" "lc_byKey (pin b c) = lc_byKey c" "lc_maxPages (pin b c) = lc_maxPages c"
    "lc_lru (pin b c) = remove1 b (lc_lru c)"
    "map_of (lc_byPtr (pin b c)) = (map_of (lc_byPtr c))(b \<mapsto> p\<lparr>pg_pinned := True, pg_elem := False\<rparr>)"
proof -
  note d = linksD [OF l]
  have *: "pin b c = (if pg_pinned p then c else set_page b (p\<lparr>pg_elem := False, pg_pinned := True\<rparr>) c\<lparr>lc_lru := remove1 b (lc_lru c)\<rparr>)"
    using p d(6,7) [OF p] by (simp add: pin_def set_page_def)
  have "links (set_page b (p\<lparr>pg_elem := False, pg_pinned := True\<rparr>) c\<lparr>lc_lru := remove1 b (lc_lru c)\<rparr>)"
    by (rule relink [OF l p]) (use d(3) in auto)
  then show "links (pin b c)" using l by (simp add: *)
  show "lc_byKey (pin b c) = lc_byKey c" "lc_maxPages (pin b c) = lc_maxPages c" by (simp_all add: * set_page_def)
  show "lc_lru (pin b c) = remove1 b (lc_lru c)" using d(7) [OF p] by (simp add: * remove1_idem)
  have "p\<lparr>pg_pinned := True, pg_elem := False\<rparr> = p" if "pg_pinned p"
    using that d(6,7) [OF p] by (intro pcPage.equality) simp_all
  then show "map_of (lc_byPtr (pin b c)) = (map_of (lc_byPtr c))(b \<mapsto> p\<lparr>pg_pinned := True, pg_elem := False\<rparr>)"
    using p by (auto simp: * set_page_def update_conv' map_upd_triv)
qed

lemma alloc_ok:
  assumes l: "links (fst s)" and new: "map_of (lc_byKey (fst s)) key = None" "blk \<noteq> 0" "map_of (lc_byPtr (fst s)) blk = None"
  shows "fst (allocPage key blk s) = blk" "op_ok {} s (snd (allocPage key blk s))"
    "lc_lru (fst (snd (allocPage key blk s))) = lc_lru (fst s)"
    "length (lc_byKey (fst (snd (allocPage key blk s)))) = Suc (length (lc_byKey (fst s)))"
    "map_of (lc_byPtr (fst (snd (allocPage key blk s)))) = (map_of (lc_byPtr (fst s)))(blk \<mapsto> \<lparr>pg_key = key, pg_pinned = True, pg_elem = False\<rparr>)"
    "map_of (lc_byKey (fst (snd (allocPage key blk s)))) = (map_of (lc_byKey (fst s)))(key \<mapsto> blk)"
proof -
  obtain c st where s: "s = (c, st)" by (cases s)
  let ?p = "\<lparr>pg_key = key, pg_pinned = True, pg_elem = False\<rparr>"
  let ?c = "c\<lparr>lc_byKey := AList.update key blk (lc_byKey c), lc_byPtr := AList.update blk ?p (lc_byPtr c)\<rparr>"
  note d = linksD [OF l, unfolded s fst_conv]
  have a: "allocPage key blk s = (blk, ?c, st\<lparr>st_pages := st_pages st + 1\<rparr>)" using new(2) s by (simp add: allocPage_def)
  have mp: "map_of (lc_byPtr ?c) = (map_of (lc_byPtr c))(blk \<mapsto> ?p)" and mk: "map_of (lc_byKey ?c) = (map_of (lc_byKey c))(key \<mapsto> blk)"
    by (simp_all add: update_conv')
  have "blk \<notin> set (lc_lru c)" using d(8) [of blk] new(3) s by auto
  moreover have "((map_of (lc_byKey c))(key \<mapsto> blk)) k = Some b' \<longleftrightarrow> (\<exists>q. ((map_of (lc_byPtr c))(blk \<mapsto> ?p)) b' = Some q \<and> pg_key q = k)" for k b'
    using d(4) [of k b'] new s by (cases "b' = blk"; cases "k = key") auto
  ultimately have "links ?c" unfolding links_def mp mk
    using d(1-3) d(5-8) new(2) by (auto simp: distinct_update split: if_splits)
  moreover have len: "length (lc_byKey ?c) = Suc (length (lc_byKey c))"
    using length_update [OF d(1), of key blk] new(1) s by simp
  ultimately show "op_ok {} s (snd (allocPage key blk s))"
    unfolding a using s mp new(3) by (auto simp: op_ok_def)
  show "fst (allocPage key blk s) = blk" "lc_lru (fst (snd (allocPage key blk s))) = lc_lru (fst s)"
    "length (lc_byKey (fst (snd (allocPage key blk s)))) = Suc (length (lc_byKey (fst s)))"
    "map_of (lc_byPtr (fst (snd (allocPage key blk s)))) = (map_of (lc_byPtr (fst s)))(blk \<mapsto> ?p)"
    "map_of (lc_byKey (fst (snd (allocPage key blk s)))) = (map_of (lc_byKey (fst s)))(key \<mapsto> blk)"
    using a s len mp mk by simp_all
qed

section \<open>The operations keep the invariant\<close>

text \<open>The address \<^verbatim>\<open>calloc\<close> returns is not one of the cache's live blocks.\<close>

definition fresh_block :: "nat \<Rightarrow> lruCache \<Rightarrow> bool" where
  "fresh_block blk c \<longleftrightarrow> map_of (lc_byPtr c) blk = None"

lemma fetch_hit:
  assumes l: "links c" and h: "map_of (lc_byKey c) key = Some b"
  obtains p where "map_of (lc_byPtr c) b = Some p" "pg_key p = key"
    "fetch key createFlag blk (c, st) = (b, pin b c, st\<lparr>st_hits := st_hits st + 1\<rparr>)"
  using linksD(4) [OF l] h by (auto simp: fetch_def)

lemma fetch_ok:
  assumes l: "links c" and bd: "bounded c" and fr: "fresh_block blk c"
  shows "op_ok {} (c, st) (snd (fetch key createFlag blk (c, st))) \<and> bounded (fst (snd (fetch key createFlag blk (c, st))))"
proof (cases "map_of (lc_byKey c) key")
  case (Some b)
  then obtain p where p: "map_of (lc_byPtr c) b = Some p" and f: "fetch key createFlag blk (c, st) = (b, pin b c, st\<lparr>st_hits := st_hits st + 1\<rparr>)"
    using fetch_hit [OF l] by metis
  have "p\<lparr>pg_pinned := True, pg_elem := False\<rparr> = p" if "pg_pinned p"
    using that linksD(6,7) [OF l p] by (intro pcPage.equality) simp_all
  then show ?thesis using pin_ok [OF l p] p bd unfolding f by (auto simp: op_ok_def bounded_def)
next
  case None
  let ?s1 = "(c, st\<lparr>st_misses := st_misses st + 1\<rparr>)"
  have s1: "op_ok {} (c, st) ?s1" using l by (simp add: op_ok_def)
  have al: "op_ok {} (c, st) (snd (allocPage key blk s)) \<and> bounded (fst (snd (allocPage key blk s)))"
    if s: "op_ok {} (c, st) s" "map_of (lc_byKey (fst s)) key = None" "map_of (lc_byPtr (fst s)) blk = None"
      "bounded (fst s)" "length (lc_byKey (fst s)) < lc_maxPages (fst s) \<or> lc_lru (fst s) = []" for s
  proof (cases "blk = 0")
    case True then show ?thesis using s by (cases s) (simp add: allocPage_def)
  next
    case False
    have "links (fst s)" using s(1) by (simp add: op_ok_def)
    note a = alloc_ok [OF this s(2) False s(3)]
    have "lc_maxPages (fst (snd (allocPage key blk s))) = lc_maxPages (fst s)" using a(2) by (simp add: op_ok_def)
    then show ?thesis using op_ok_trans [OF s(1) a(2)] a(3,4) s(5) by (auto simp: bounded_def)
  qed
  have ml: "map_of (lc_byPtr c) blk = None" using fr by (simp add: fresh_block_def)
  show ?thesis
  proof (cases "createFlag = 0")
    case True then show ?thesis using None s1 bd by (simp add: fetch_def)
  next
    case cf: False
    show ?thesis
    proof (cases "lc_maxPages c \<le> length (lc_byKey c)")
      case False
      then show ?thesis using al [OF s1] None ml bd cf by (simp add: fetch_def)
    next
      case full: True
      show ?thesis
      proof (cases "lc_lru c")
        case Nil
        then have "evictLRU ?s1 = (False, ?s1)" by (simp add: evictLRU_def)
        then show ?thesis using al [OF s1] None ml bd cf full s1 Nil by (simp add: fetch_def)
      next
        case (Cons b bs)
        obtain s' where e: "evictLRU ?s1 = (True, s')" "op_ok {} ?s1 s'" "lc_lru (fst s') = bs"
            "Suc (length (lc_byKey (fst s'))) = length (lc_byKey c)" "map_of (lc_byPtr (fst s')) = (map_of (lc_byPtr c))(b := None)"
          using evictLRU_step [of ?s1 b bs] l Cons by auto
        have ok: "op_ok {} (c, st) s'" by (rule op_ok_trans [OF s1 e(2)])
        then have l': "links (fst s')" and mx: "lc_maxPages (fst s') = lc_maxPages c" by (auto simp: op_ok_def)
        have "map_of (lc_byKey (fst s')) key = None"
        proof (cases "map_of (lc_byKey (fst s')) key")
          case (Some x)
          then obtain q where "map_of (lc_byPtr c) x = Some q" "pg_key q = key"
            using linksD(4) [OF l', of key x] e(5) by (auto split: if_splits)
          then show ?thesis using linksD(4) [OF l, of key x] None by auto
        qed
        moreover have "length (lc_byKey (fst s')) < lc_maxPages (fst s')" using bd e(4) mx Cons by (auto simp: bounded_def)
        ultimately show ?thesis using al [OF ok] ml e(1,5) None cf full by (simp add: fetch_def bounded_def)
      qed
    qed
  qed
qed

lemma freePage_unpinned_copy:
  assumes "map_of (lc_byPtr c) b = Some p"
  shows "freePage b (set_page b (p\<lparr>pg_pinned := x\<rparr>) c, st) = freePage b (c, st)"
proof -
  have "AList.delete b (AList.update b v m) = AList.delete b m" for v and m :: "(nat \<times> pcPage) list"
    by (induction m) auto
  then show ?thesis using assms by (simp add: freePage_def set_page_def update_conv')
qed

lemma unpin_ok:
  assumes l: "links c" and bd: "bounded c" and p: "map_of (lc_byPtr c) b = Some p" "pg_pinned p"
  shows "op_ok {b} (c, st) (unpin b discard (c, st)) \<and> bounded (fst (unpin b discard (c, st)))"
proof (cases "discard = 0")
  case False
  then have "unpin b discard (c, st) = freePage b (c, st)" using p by (simp add: unpin_def freePage_unpinned_copy)
  then show ?thesis using freePage_ok [OF l] freePage_bounded [OF l bd] by simp
next
  case True
  note d = linksD [OF l]
  let ?c = "set_page b (p\<lparr>pg_pinned := False, pg_elem := True\<rparr>) c\<lparr>lc_lru := lc_lru c @ [b]\<rparr>"
  have nb: "b \<notin> set (lc_lru c)" using d(7) [OF p(1)] p(2) by simp
  have l': "links ?c" by (rule relink [OF l p(1)]) (use nb d(3) in auto)
  have u: "unpin b discard (c, st) = evict_while (length (lc_lru ?c)) (\<lambda>c. lc_maxPages c < length (lc_byKey c)) (?c, st)"
    using True p by (simp add: unpin_def Let_def)
  note e = evict_while_ok [of "(?c, st)" "length (lc_lru ?c)" "\<lambda>c. lc_maxPages c < length (lc_byKey c)", simplified fst_conv, OF l' order_refl]
  have "op_ok {b} (c, st) (?c, st)" using l' by (simp add: op_ok_def set_page_def update_conv')
  then have "op_ok {b} (c, st) (unpin b discard (c, st))"
    unfolding u using e op_ok_mono [of "{}" _ _ "{b}"] op_ok_trans by blast
  moreover have "bounded (fst (unpin b discard (c, st)))" using e unfolding u bounded_def by (auto simp: not_less)
  ultimately show ?thesis by blast
qed

text \<open>SQLite calls \<^verbatim>\<open>xRekey\<close> on a pinned page under its current number, when no pinned page has the new one.\<close>

definition rekey_allowed :: "nat \<Rightarrow> nat \<Rightarrow> nat \<Rightarrow> lruCache \<Rightarrow> bool" where
  "rekey_allowed b oldKey newKey c \<longleftrightarrow>
     (case map_of (lc_byPtr c) b of None \<Rightarrow> False | Some p \<Rightarrow> pg_pinned p \<and> pg_key p = oldKey) \<and>
     (case map_of (lc_byKey c) newKey of None \<Rightarrow> True | Some e \<Rightarrow> e = b \<or> e \<in> set (lc_lru c))"

lemma rekey_move:
  assumes l: "links c" and p: "map_of (lc_byPtr c) b = Some p" and free: "map_of (lc_byKey c) newKey = None \<or> newKey = pg_key p"
  defines "c' \<equiv> set_page b (p\<lparr>pg_key := newKey\<rparr>) (c\<lparr>lc_byKey := AList.update newKey b (AList.delete (pg_key p) (lc_byKey c))\<rparr>)"
  shows "links c'" "length (lc_byKey c') = length (lc_byKey c)" "lc_lru c' = lc_lru c"
proof -
  note d = linksD [OF l]
  let ?k = "pg_key p"
  have kb: "map_of (lc_byKey c) ?k = Some b" using d(4) p by blast
  have mp: "map_of (lc_byPtr c') = (map_of (lc_byPtr c))(b \<mapsto> p\<lparr>pg_key := newKey\<rparr>)"
    and mk: "map_of (lc_byKey c') = (map_of (lc_byKey c))(?k := None, newKey \<mapsto> b)"
    by (simp_all add: c'_def set_page_def update_conv' delete_conv')
  have dd: "distinct (map fst (AList.delete ?k (lc_byKey c)))" by (rule distinct_delete [OF d(1)])
  have iff: "((map_of (lc_byKey c))(?k := None, newKey \<mapsto> b)) k' = Some b' \<longleftrightarrow>
      (\<exists>q. ((map_of (lc_byPtr c))(b \<mapsto> p\<lparr>pg_key := newKey\<rparr>)) b' = Some q \<and> pg_key q = k')" for k' b'
  proof (cases "b' = b")
    case True
    have "map_of (lc_byKey c) k' \<noteq> Some b" if "k' \<noteq> ?k" using d(4) [of k' b] p that by simp
    then show ?thesis using True by auto
  next
    case False
    have "map_of (lc_byKey c) ?k \<noteq> Some b'" "map_of (lc_byKey c) newKey \<noteq> Some b'" using kb free False by auto
    then show ?thesis using False d(4) [of k' b'] by auto
  qed
  show "links c'" unfolding links_def mp mk
  proof (intro conjI allI impI ballI)
    show "((map_of (lc_byKey c))(?k := None, newKey \<mapsto> b)) k' = Some b' \<longleftrightarrow>
      (\<exists>q. ((map_of (lc_byPtr c))(b \<mapsto> p\<lparr>pg_key := newKey\<rparr>)) b' = Some q \<and> pg_key q = k')" for k' b' by (rule iff)
  qed (use d dd p in \<open>auto simp: c'_def set_page_def distinct_update split: if_splits\<close>)
  show "lc_lru c' = lc_lru c" by (simp add: c'_def set_page_def)
  have "map_of (AList.delete ?k (lc_byKey c)) newKey = None" using free by (auto simp: delete_conv')
  then show "length (lc_byKey c') = length (lc_byKey c)"
    using length_update [OF dd, of newKey b] length_delete [OF d(1) kb] by (simp add: c'_def set_page_def)
qed

lemma rekey_ok:
  assumes l: "links c" and bd: "bounded c" and al: "rekey_allowed b oldKey newKey c"
  shows "op_ok {b} (c, st) (rekey b oldKey newKey (c, st)) \<and> bounded (fst (rekey b oldKey newKey (c, st)))"
proof -
  obtain p where p: "map_of (lc_byPtr c) b = Some p" "pg_pinned p" "pg_key p = oldKey"
    using al by (auto simp: rekey_allowed_def split: option.splits)
  define s1 where "s1 = (case map_of (lc_byKey c) newKey of None \<Rightarrow> (c, st) | Some e \<Rightarrow> if e \<noteq> b then freePage e (c, st) else (c, st))"
  have s1: "op_ok {b} (c, st) s1 \<and> bounded (fst s1) \<and> map_of (lc_byPtr (fst s1)) b = Some p \<and>
      (map_of (lc_byKey (fst s1)) newKey = None \<or> newKey = pg_key p)"
  proof (cases "map_of (lc_byKey c) newKey")
    case None then show ?thesis using op_ok_refl [of "(c, st)"] l bd p by (simp add: s1_def)
  next
    case (Some e)
    show ?thesis
    proof (cases "e = b")
      case True
      then have "newKey = pg_key p" using linksD(4) [OF l, of newKey e] Some p by simp
      then show ?thesis using op_ok_refl [of "(c, st)"] l bd p Some True by (simp add: s1_def)
    next
      case False
      then obtain q where q: "map_of (lc_byPtr c) e = Some q" "pg_key q = newKey" "e \<in> set (lc_lru c)"
        using al Some linksD(4) [OF l, of newKey e] by (auto simp: rekey_allowed_def)
      have np: "\<not> pg_pinned q" using linksD(7) [OF l q(1)] q(3) by simp
      obtain c' where f: "freePage e (c, st) = (c', st\<lparr>st_pages := st_pages st - 1\<rparr>)"
          "map_of (lc_byPtr c') = (map_of (lc_byPtr c))(e := None)" "map_of (lc_byKey c') = (map_of (lc_byKey c))(newKey := None)"
        using freePage_step [OF l q(1), of st] q(2) by auto
      have "b' \<noteq> e" if "map_of (lc_byPtr c) b' = Some p'" "pg_pinned p'" for b' p' using np q(1) that by auto
      then have "op_ok {} (c, st) (freePage e (c, st))" using freePage_ok [OF l, of e st] unfolding op_ok_def by simp
      then have "op_ok {b} (c, st) s1" using op_ok_mono [of "{}" _ _ "{b}"] Some False by (simp add: s1_def)
      moreover have "bounded (fst s1)" using freePage_bounded [OF l bd, of e st] Some False by (simp add: s1_def)
      ultimately show ?thesis using f p False Some by (simp add: s1_def)
    qed
  qed
  obtain c1 st1 where c1: "s1 = (c1, st1)" by (cases s1)
  have l1: "links c1" "map_of (lc_byPtr c1) b = Some p" "map_of (lc_byKey c1) newKey = None \<or> newKey = pg_key p"
    using s1 c1 by (auto simp: op_ok_def)
  note mv = rekey_move [OF l1]
  let ?c = "set_page b (p\<lparr>pg_key := newKey\<rparr>) (c1\<lparr>lc_byKey := AList.update newKey b (AList.delete (pg_key p) (lc_byKey c1))\<rparr>)"
  have r: "rekey b oldKey newKey (c, st) = (?c, st1)"
    using p c1 unfolding s1_def by (simp add: rekey_def)
  have "op_ok {b} s1 (?c, st1)" using mv(1,2) c1 by (auto simp: op_ok_def set_page_def update_conv')
  then have "op_ok {b} (c, st) (?c, st1)" using s1 op_ok_trans by blast
  moreover have "bounded ?c" using mv(2,3) s1 c1 by (simp add: bounded_def set_page_def)
  ultimately show ?thesis unfolding r by simp
qed

lemma truncate_fold:
  assumes "links (fst s)" "bounded (fst s)"
  shows "op_ok {b. \<exists>k. (k, b) \<in> set xs \<and> lim \<le> k} s (foldl (\<lambda>s (k, b). if lim \<le> k then freePage b s else s) s xs) \<and>
    bounded (fst (foldl (\<lambda>s (k, b). if lim \<le> k then freePage b s else s) s xs)) \<and>
    (\<forall>k b. (k, b) \<in> set xs \<longrightarrow> lim \<le> k \<longrightarrow> map_of (lc_byPtr (fst (foldl (\<lambda>s (k, b). if lim \<le> k then freePage b s else s) s xs))) b = None) \<and>
    (\<forall>b p. map_of (lc_byPtr (fst (foldl (\<lambda>s (k, b). if lim \<le> k then freePage b s else s) s xs))) b = Some p \<longrightarrow>
       map_of (lc_byPtr (fst s)) b = Some p)"
  using assms
proof (induction xs arbitrary: s)
  case Nil then show ?case by (simp add: op_ok_refl)
next
  case (Cons x xs)
  obtain k b where x: "x = (k, b)" by (cases x)
  obtain c st where s: "s = (c, st)" by (cases s)
  let ?s = "if lim \<le> k then freePage b s else s"
  have ok: "op_ok {b. \<exists>k. (k, b) \<in> set (x # xs) \<and> lim \<le> k} s ?s" "bounded (fst ?s)"
    using freePage_ok [of c b st] freePage_bounded [of c b st] Cons.prems op_ok_refl [OF Cons.prems(1)] s x
    by (auto intro: op_ok_mono)
  have sub: "map_of (lc_byPtr (fst ?s)) b' = Some p \<Longrightarrow> map_of (lc_byPtr (fst s)) b' = Some p" for b' p
    using s by (auto simp: freePage_def delete_conv' split: if_splits option.splits)
  have gone: "lim \<le> k \<Longrightarrow> map_of (lc_byPtr (fst ?s)) b = None"
    using s by (auto simp: freePage_def delete_conv' split: if_splits option.splits)
  have "links (fst ?s)" using ok(1) by (simp add: op_ok_def)
  note ih = Cons.IH [OF this ok(2)]
  let ?r = "foldl (\<lambda>s (k, b). if lim \<le> k then freePage b s else s) ?s xs"
  have "op_ok {b. \<exists>k. (k, b) \<in> set (x # xs) \<and> lim \<le> k} ?s ?r" using ih by (auto intro: op_ok_mono)
  then have "op_ok {b. \<exists>k. (k, b) \<in> set (x # xs) \<and> lim \<le> k} s ?r" by (rule op_ok_trans [OF ok(1)])
  moreover have "map_of (lc_byPtr (fst ?r)) b = None" if "lim \<le> k"
    using ih gone [OF that] by (cases "map_of (lc_byPtr (fst ?r)) b") auto
  ultimately show ?case using ih sub x by auto
qed

lemma truncate_ok:
  assumes "links c" "bounded c"
  shows "op_ok {b. \<exists>k. map_of (lc_byKey c) k = Some b \<and> lim \<le> k} (c, st) (truncate_cache lim (c, st))"
    "bounded (fst (truncate_cache lim (c, st)))"
    "lim \<le> k \<Longrightarrow> map_of (lc_byKey (fst (truncate_cache lim (c, st)))) k = None"
proof -
  note t = truncate_fold [of "(c, st)" "lc_byKey c" lim, simplified fst_conv, OF assms]
  have eq: "(k, b) \<in> set (lc_byKey c) \<longleftrightarrow> map_of (lc_byKey c) k = Some b" for k b
    using linksD(1) [OF assms(1)] by (auto simp: map_of_eq_Some_iff)
  show ok: "op_ok {b. \<exists>k. map_of (lc_byKey c) k = Some b \<and> lim \<le> k} (c, st) (truncate_cache lim (c, st))"
    and "bounded (fst (truncate_cache lim (c, st)))"
    using t by (simp_all add: truncate_cache_def eq)
  have l: "links (fst (truncate_cache lim (c, st)))" using ok by (simp add: op_ok_def)
  show "map_of (lc_byKey (fst (truncate_cache lim (c, st)))) k = None" if "lim \<le> k"
  proof (cases "map_of (lc_byKey (fst (truncate_cache lim (c, st)))) k")
    case (Some b)
    then obtain p where p: "map_of (lc_byPtr (fst (truncate_cache lim (c, st)))) b = Some p" "pg_key p = k"
      using linksD(4) [OF l, of k b] by blast
    then have "map_of (lc_byPtr c) b = Some p" using t by (simp add: truncate_cache_def)
    then have "map_of (lc_byKey c) k = Some b" using linksD(4) [OF assms(1), of k b] p(2) by blast
    then show ?thesis using t p(1) that by (simp add: truncate_cache_def eq)
  qed
qed

lemma shrink_ok:
  assumes "links (fst s)"
  shows "op_ok {} s (shrink s)" "lc_lru (fst (shrink s)) = []"
  using evict_while_ok [OF assms order_refl, of "\<lambda>_. True"] by (simp_all add: shrink_def)

section \<open>All caches\<close>

definition total_pages :: "(nat \<times> lruCache) list \<Rightarrow> int" where
  "total_pages m = sum_list (map (\<lambda>(_, c). int (length (lc_byKey c))) m)"

lemma total_pages_update:
  assumes "distinct (map fst m)"
  shows "total_pages (AList.update t c m) = total_pages m + int (length (lc_byKey c)) -
     (case map_of m t of None \<Rightarrow> 0 | Some c0 \<Rightarrow> int (length (lc_byKey c0)))"
  using assms by (induction m) (auto simp: total_pages_def)

lemma total_pages_delete:
  assumes "distinct (map fst m)" "map_of m t = Some c"
  shows "total_pages (AList.delete t m) = total_pages m - int (length (lc_byKey c))"
  using assms
proof (induction m)
  case (Cons a m)
  obtain k v where a: "a = (k, v)" by (cases a)
  show ?case
  proof (cases "k = t")
    case True
    then have "map_of m t = None" using Cons.prems(1) a by (simp add: map_of_eq_None_iff)
    then have "AList.delete t m = m" by (simp add: delete_id map_of_eq_None_iff)
    then show ?thesis using True a Cons.prems(2) by (simp add: total_pages_def)
  next
    case False
    then show ?thesis using Cons a by (simp add: total_pages_def)
  qed
qed simp

text \<open>Every cache is well linked and within the bound, and the gauge counts the pages of all caches together.\<close>

definition pc_inv :: "pcState \<Rightarrow> bool" where
  "pc_inv s \<longleftrightarrow> reg_inv (ps_caches s) \<and> st_pages (ps_stats s) = total_pages (rg_m (ps_caches s)) \<and>
     (\<forall>t c. Lookup t (ps_caches s) = Some c \<longrightarrow> links c \<and> bounded c \<and> lc_maxPages c = ps_maxPages s)"

lemma on_cache_inv:
  assumes inv: "pc_inv s"
    and ok: "\<And>c. Lookup t (ps_caches s) = Some c \<Longrightarrow> \<exists>B. op_ok B (c, ps_stats s) (snd (f (c, ps_stats s)))"
      "\<And>c. Lookup t (ps_caches s) = Some c \<Longrightarrow> bounded (fst (snd (f (c, ps_stats s))))"
  shows "pc_inv (snd (on_cache t a f s))"
proof (cases "Lookup t (ps_caches s)")
  case None then show ?thesis using inv by (simp add: on_cache_def)
next
  case (Some c)
  obtain r c' st' where f: "f (c, ps_stats s) = (r, c', st')" by (cases "f (c, ps_stats s)") auto
  obtain B where B: "op_ok B (c, ps_stats s) (c', st')" using ok(1) [OF Some] f by auto
  have t: "t \<noteq> 0" and m: "map_of (rg_m (ps_caches s)) t = Some c" using Some by (auto simp: Lookup_def split: if_splits)
  have rg: "reg_inv (ps_caches s)" using inv by (simp add: pc_inv_def)
  then have d: "distinct (map fst (rg_m (ps_caches s)))" by (simp add: reg_inv_def)
  have "fst ` set (AList.update t c' (rg_m (ps_caches s))) = fst ` set (rg_m (ps_caches s))"
    using m by (simp only: dom_map_of_conv_image_fst [symmetric] update_conv' dom_fun_upd) auto
  then have "reg_inv ((ps_caches s)\<lparr>rg_m := AList.update t c' (rg_m (ps_caches s))\<rparr>)"
    using rg d by (simp add: reg_inv_def distinct_update)
  moreover have "Lookup t' ((ps_caches s)\<lparr>rg_m := AList.update t c' (rg_m (ps_caches s))\<rparr>) =
      (if t' = t then Some c' else Lookup t' (ps_caches s))" for t'
    using t by (simp add: Lookup_def update_conv')
  ultimately show ?thesis using inv B ok(2) [OF Some] f Some m total_pages_update [OF d, of t c']
    by (auto simp: pc_inv_def on_cache_def op_ok_def)
qed

lemma on_cache_lookup:
  assumes "Lookup t (ps_caches s) = Some c" "f (c, ps_stats s) = (r, c', st')"
  shows "fst (on_cache t a f s) = r" "Lookup t' (ps_caches (snd (on_cache t a f s))) =
    (if t' = t then Some c' else Lookup t' (ps_caches s))"
  using assms by (auto simp: on_cache_def Lookup_def update_conv' split: if_splits)

text \<open>The calls SQLite makes. A cache's token may be stale; the calls on pages follow the \<^verbatim>\<open>PCACHE2\<close> contract: only
  a pinned page is unpinned or rekeyed, and \<^verbatim>\<open>calloc\<close> returns an address that is not in use.\<close>

definition fetch_allowed :: "nat \<Rightarrow> nat \<Rightarrow> pcState \<Rightarrow> bool" where
  "fetch_allowed t blk s \<longleftrightarrow> (case Lookup t (ps_caches s) of None \<Rightarrow> True | Some c \<Rightarrow> fresh_block blk c)"

definition unpin_allowed :: "nat \<Rightarrow> nat \<Rightarrow> pcState \<Rightarrow> bool" where
  "unpin_allowed t b s \<longleftrightarrow> (case Lookup t (ps_caches s) of None \<Rightarrow> True | Some c \<Rightarrow>
     (case map_of (lc_byPtr c) b of None \<Rightarrow> True | Some p \<Rightarrow> pg_pinned p))"

definition rekey_permitted :: "nat \<Rightarrow> nat \<Rightarrow> nat \<Rightarrow> nat \<Rightarrow> pcState \<Rightarrow> bool" where
  "rekey_permitted t b k k' s \<longleftrightarrow> (case Lookup t (ps_caches s) of None \<Rightarrow> True | Some c \<Rightarrow> rekey_allowed b k k' c)"

inductive pc_step :: "pcState \<Rightarrow> pcState \<Rightarrow> bool" where
  create: "\<not> exhausted (ps_caches s) \<Longrightarrow> pc_step s (snd (xCreate s))"
| fetchp: "fetch_allowed t blk s \<Longrightarrow> pc_step s (snd (xFetch t key createFlag blk s))"
| unpinp: "unpin_allowed t b s \<Longrightarrow> pc_step s (xUnpin t b discard s)"
| rekeyp: "rekey_permitted t b k k' s \<Longrightarrow> pc_step s (xRekey t b k k' s)"
| trunc: "pc_step s (xTruncate t lim s)"
| shrinkp: "pc_step s (xShrink t s)"
| destroy: "pc_step s (xDestroy t s)"

inductive_cases pc_stepE: "pc_step s s'"

inductive pc_reach :: "pcState \<Rightarrow> bool" where
  install: "InstallBoundedLRU n False True True = (Inr s, f) \<Longrightarrow> pc_reach s"
| step: "pc_reach s \<Longrightarrow> pc_step s s' \<Longrightarrow> pc_reach s'"

lemma pc_cache: "pc_inv s \<Longrightarrow> Lookup t (ps_caches s) = Some c \<Longrightarrow> links c \<and> bounded c"
  by (simp add: pc_inv_def)

lemma create_inv:
  assumes "pc_inv s" "\<not> exhausted (ps_caches s)"
  shows "pc_inv (snd (xCreate s))"
proof -
  let ?c = "\<lparr>lc_maxPages = ps_maxPages s, lc_byKey = [], lc_byPtr = [], lc_lru = []\<rparr>"
  let ?r = "ps_caches s" and ?n = "Suc (rg_next (ps_caches s))"
  have rg: "reg_inv ?r" and d: "distinct (map fst (rg_m ?r))" using assms(1) by (auto simp: pc_inv_def reg_inv_def)
  note c = cabi.find_mint [OF rg assms(2), of _ ?c] cabi.mint_ok [OF rg assms(2), of ?c] cabi.mint_fresh [OF rg assms(2), of ?c]
  have "map_of (rg_m ?r) ?n = None" using c(3) by (simp add: Register_tok [OF rg assms(2)] Lookup_def)
  then have "total_pages (rg_m (snd (Register ?c ?r))) = total_pages (rg_m ?r)"
    using total_pages_update [OF d, of ?n ?c] by (simp add: Register_tok [OF rg assms(2)])
  moreover have "links ?c" "bounded ?c" by (simp_all add: links_def bounded_def)
  ultimately show ?thesis using assms(1) c
    by (auto simp: pc_inv_def xCreate_def split: prod.splits if_splits)
qed

lemma destroy_inv:
  assumes "pc_inv s"
  shows "pc_inv (xDestroy t s)"
proof (cases "Lookup t (ps_caches s)")
  case None then show ?thesis using assms by (simp add: xDestroy_def)
next
  case (Some c)
  have rg: "reg_inv (ps_caches s)" and d: "distinct (map fst (rg_m (ps_caches s)))" using assms by (auto simp: pc_inv_def reg_inv_def)
  have "map_of (rg_m (ps_caches s)) t = Some c" using Some by (auto simp: Lookup_def split: if_splits)
  then show ?thesis using assms Some cabi.drop_ok [OF rg, of t] cabi.find_drop [OF rg, of _ t] total_pages_delete [OF d, of t c]
    by (auto simp: pc_inv_def xDestroy_def Unregister_def split: if_splits)
qed

lemma pc_step_inv:
  assumes "pc_inv s" "pc_step s s'"
  shows "pc_inv s'"
  using assms(2)
proof cases
  case create then show ?thesis using create_inv assms(1) by simp
next
  case (fetchp t blk key createFlag)
  have fr: "fresh_block blk c" if "Lookup t (ps_caches s) = Some c" for c using fetchp that by (simp add: fetch_allowed_def)
  show ?thesis unfolding fetchp(1) xFetch_def
    by (rule on_cache_inv [OF assms(1)]) (use fetch_ok pc_cache [OF assms(1)] fr in blast)+
next
  case (unpinp t b discard)
  have "(\<exists>B. op_ok B (c, ps_stats s) (unpin b discard (c, ps_stats s))) \<and> bounded (fst (unpin b discard (c, ps_stats s)))"
    if c: "Lookup t (ps_caches s) = Some c" for c
  proof (cases "map_of (lc_byPtr c) b")
    case None then show ?thesis using pc_cache [OF assms(1) c] op_ok_refl [of "(c, ps_stats s)"] by (auto simp: unpin_def)
  next
    case (Some p)
    then show ?thesis using unpin_ok [of c b p] pc_cache [OF assms(1) c] unpinp c by (auto simp: unpin_allowed_def)
  qed
  then show ?thesis unfolding unpinp(1) xUnpin_def by (intro on_cache_inv [OF assms(1)]) simp_all
next
  case (rekeyp t b k k')
  have al: "rekey_allowed b k k' c" if "Lookup t (ps_caches s) = Some c" for c using rekeyp that by (simp add: rekey_permitted_def)
  show ?thesis unfolding rekeyp(1) xRekey_def
    by (rule on_cache_inv [OF assms(1)]; simp; use rekey_ok pc_cache [OF assms(1)] al in blast)
next
  case (trunc t lim)
  show ?thesis unfolding trunc xTruncate_def
    by (rule on_cache_inv [OF assms(1)]; simp; use truncate_ok pc_cache [OF assms(1)] in blast)
next
  case (shrinkp t)
  have "op_ok {} (c, ps_stats s) (shrink (c, ps_stats s)) \<and> bounded (fst (shrink (c, ps_stats s)))"
    if "Lookup t (ps_caches s) = Some c" for c
    using shrink_ok [of "(c, ps_stats s)"] pc_cache [OF assms(1) that] by (simp add: bounded_def)
  then show ?thesis unfolding shrinkp xShrink_def by (intro on_cache_inv [OF assms(1)]) auto
next
  case (destroy t) then show ?thesis using destroy_inv assms(1) by simp
qed

lemma pc_reach_inv: "pc_reach s \<Longrightarrow> pc_inv s"
proof (induction rule: pc_reach.induct)
  case (install n s f)
  then show ?case by (auto simp: InstallBoundedLRU_def pc_inv_def total_pages_def NewRegistry_def reg_inv_def Lookup_def split: if_splits)
next
  case (step s s') then show ?case using pc_step_inv by blast
qed

lemma fetch_pinned:
  assumes "links c" "map_of (lc_byPtr c) b = Some p"
  shows "fst (fetch (pg_key p) createFlag blk (c, st)) = b"
proof -
  have "map_of (lc_byKey c) (pg_key p) = Some b" using linksD(4) [OF assms(1)] assms(2) by blast
  then show ?thesis by (simp add: fetch_def)
qed

lemma fetch_evicts:
  assumes l: "links c" and bd: "bounded c" and miss: "map_of (lc_byKey c) key = None" and full: "lc_maxPages c \<le> length (lc_byKey c)"
    and lru: "lc_lru c = b # bs" and cf: "createFlag \<noteq> 0" and blk: "blk \<noteq> 0" "fresh_block blk c"
  shows "\<exists>c' st'. fetch key createFlag blk (c, st) = (blk, c', st') \<and> lc_lru c' = bs \<and> length (lc_byKey c') = length (lc_byKey c) \<and>
     map_of (lc_byPtr c') = (map_of (lc_byPtr c))(b := None, blk \<mapsto> \<lparr>pg_key = key, pg_pinned = True, pg_elem = False\<rparr>) \<and>
     st_evictions st' = st_evictions st + 1"
proof -
  let ?s1 = "(c, st\<lparr>st_misses := st_misses st + 1\<rparr>)"
  obtain s' where e: "evictLRU ?s1 = (True, s')" "op_ok {} ?s1 s'" "lc_lru (fst s') = bs"
      "Suc (length (lc_byKey (fst s'))) = length (lc_byKey c)" "map_of (lc_byPtr (fst s')) = (map_of (lc_byPtr c))(b := None)"
      "st_evictions (snd s') = st_evictions st + 1"
    using evictLRU_step [of ?s1 b bs] l lru by auto
  have f: "fetch key createFlag blk (c, st) = allocPage key blk s'" using miss cf full e(1) by (simp add: fetch_def)
  have l': "links (fst s')" using e(2) by (simp add: op_ok_def)
  have "map_of (lc_byKey (fst s')) key \<noteq> Some x" for x
    using linksD(4) [OF l', of key x] linksD(4) [OF l, of key x] miss e(5) by (auto split: if_splits)
  then have n: "map_of (lc_byKey (fst s')) key = None" by (metis option.exhaust)
  have "map_of (lc_byPtr (fst s')) blk = None" using blk(2) e(5) by (simp add: fresh_block_def)
  note a = alloc_ok [OF l' n blk(1) this]
  have "st_evictions (snd (snd (allocPage key blk s'))) = st_evictions st + 1"
    using e(6) blk(1) by (cases s') (simp add: allocPage_def)
  then show ?thesis using a(1,3,4,5) e(3-5) unfolding f
    by (cases "allocPage key blk s'") (auto simp: prod_eq_iff)
qed

lemma pinned_survives:
  assumes inv: "pc_inv s" and c: "Lookup t (ps_caches s) = Some c"
    and ok: "op_ok B (c, ps_stats s) (snd (f (c, ps_stats s)))"
    and p: "map_of (lc_byPtr c) b = Some p" "pg_pinned p" "b \<notin> B"
  shows "fst (xFetch t (pg_key p) createFlag blk (snd (on_cache t a f s))) = b"
proof -
  obtain r c' st' where f: "f (c, ps_stats s) = (r, c', st')" by (cases "f (c, ps_stats s)") auto
  have lk: "Lookup t (ps_caches (snd (on_cache t a f s))) = Some c'" by (simp add: on_cache_lookup(2) [of t s c f, OF c f])
  have "links c'" "map_of (lc_byPtr c') b = Some p" using ok p f by (auto simp: op_ok_def)
  then have "fst (fetch (pg_key p) createFlag blk (c', st'')) = b" for st'' by (rule fetch_pinned)
  then show ?thesis using lk by (simp add: xFetch_def on_cache_def split: prod.splits) (metis fst_conv)
qed

text \<open>A concrete history: a bound of one page, one cache, page 5 fetched into block 100 and unpinned.\<close>

definition pc_demo_cache :: lruCache where
  "pc_demo_cache = \<lparr>lc_maxPages = 1, lc_byKey = [(5, 100)],
     lc_byPtr = [(100, \<lparr>pg_key = 5, pg_pinned = False, pg_elem = True\<rparr>)], lc_lru = [100]\<rparr>"

definition pc_demo :: pcState where
  "pc_demo = \<lparr>ps_maxPages = 1, ps_stats = \<lparr>st_hits = 0, st_misses = 1, st_evictions = 0, st_pages = 1\<rparr>,
     ps_caches = \<lparr>rg_next = 1, rg_m = [(1, pc_demo_cache)]\<rparr>\<rparr>"

definition pc_demo_pinned :: pcState where
  "pc_demo_pinned = pc_demo\<lparr>ps_caches := \<lparr>rg_next = 1, rg_m = [(1, pc_demo_cache\<lparr>lc_byPtr :=
     [(100, \<lparr>pg_key = 5, pg_pinned = True, pg_elem = False\<rparr>)], lc_lru := []\<rparr>)]\<rparr>\<rparr>"

lemma pc_demo_pinned_reach: "pc_reach pc_demo_pinned"
proof -
  define s0 where "s0 = \<lparr>ps_maxPages = 1, ps_stats = \<lparr>st_hits = 0, st_misses = 0, st_evictions = 0, st_pages = 0\<rparr>, ps_caches = NewRegistry\<rparr>"
  define s1 where "s1 = snd (xCreate s0)"
  have "pc_reach s0" by (rule pc_reach.install [of 1 s0 True]) (simp add: InstallBoundedLRU_def s0_def)
  then have "pc_reach s1" unfolding s1_def
    by (rule pc_reach.step) (rule pc_step.create, simp add: s0_def NewRegistry_def exhausted_def)
  then have "pc_reach (snd (xFetch 1 5 1 100 s1))"
    by (rule pc_reach.step) (rule pc_step.fetchp,
      simp add: fetch_allowed_def s1_def s0_def xCreate_def Register_def NewRegistry_def add64_def Lookup_def fresh_block_def)
  moreover have "snd (xFetch 1 5 1 100 s1) = pc_demo_pinned"
    by (simp add: xFetch_def on_cache_def s1_def s0_def xCreate_def Register_def NewRegistry_def add64_def Lookup_def
        fetch_def allocPage_def pc_demo_pinned_def pc_demo_def pc_demo_cache_def)
  ultimately show ?thesis by simp
qed

lemma pc_demo_reach: "pc_reach pc_demo"
proof -
  have "pc_reach (xUnpin 1 100 0 pc_demo_pinned)"
    by (rule pc_reach.step [OF pc_demo_pinned_reach], rule pc_step.unpinp)
      (simp add: unpin_allowed_def pc_demo_pinned_def pc_demo_cache_def Lookup_def)
  moreover have "xUnpin 1 100 0 pc_demo_pinned = pc_demo"
    by (simp add: xUnpin_def on_cache_def pc_demo_pinned_def pc_demo_def pc_demo_cache_def Lookup_def unpin_def set_page_def)
  ultimately show ?thesis by simp
qed

section \<open>Properties\<close>

text \<open>C21: In every state reached by SQLite's calls, a cache holds more than the configured number of pages only
  when all of them are pinned, the LRU list holds exactly the unpinned pages, and the gauge of \<^verbatim>\<open>Stats.Pages\<close> is
  the number of pages of all caches together.\<close>

theorem pcache_bound:
  assumes "pc_reach s" "Lookup t (ps_caches s) = Some c"
  shows "(xPagecount t s \<le> ps_maxPages s \<or> (\<forall>b p. map_of (lc_byPtr c) b = Some p \<longrightarrow> pg_pinned p)) \<and>
    (\<forall>b p. map_of (lc_byPtr c) b = Some p \<longrightarrow> (b \<in> set (lc_lru c)) = (\<not> pg_pinned p)) \<and>
    st_pages (ps_stats s) = total_pages (rg_m (ps_caches s))"
proof -
  have inv: "pc_inv s" by (rule pc_reach_inv [OF assms(1)])
  then have "links c" "bounded c" "lc_maxPages c = ps_maxPages s" "st_pages (ps_stats s) = total_pages (rg_m (ps_caches s))"
    using assms(2) by (auto simp: pc_inv_def)
  moreover note linksD(7) [OF this(1)]
  ultimately show ?thesis using assms(2) by (auto simp: bounded_def xPagecount_def)
qed

theorem pcache_bound_witness:
  "Lookup 1 (ps_caches pc_demo) = Some pc_demo_cache \<and> st_pages (ps_stats pc_demo) = total_pages (rg_m (ps_caches pc_demo))"
proof -
  have l: "Lookup 1 (ps_caches pc_demo) = Some pc_demo_cache" by (simp add: pc_demo_def Lookup_def)
  show ?thesis using pcache_bound [OF pc_demo_reach l] l by simp
qed

text \<open>A page SQLite has pinned stays where it is: whatever is fetched, shrunk or unpinned meanwhile, short of the
  page itself, its number still resolves to the same block.\<close>

theorem pcache_pinned_stable:
  assumes "pc_reach s" "Lookup t (ps_caches s) = Some c" "map_of (lc_byPtr c) b = Some p" "pg_pinned p"
  shows "(fresh_block blk c \<longrightarrow> fst (xFetch t (pg_key p) cf' blk' (snd (xFetch t key createFlag blk s))) = b) \<and>
    fst (xFetch t (pg_key p) cf' blk' (xShrink t s)) = b \<and>
    (b' \<noteq> b \<longrightarrow> unpin_allowed t b' s \<longrightarrow> fst (xFetch t (pg_key p) cf' blk' (xUnpin t b' discard s)) = b)"
proof (intro conjI impI)
  have inv: "pc_inv s" by (rule pc_reach_inv [OF assms(1)])
  note l = pc_cache [OF inv assms(2), THEN conjunct1] and bd = pc_cache [OF inv assms(2), THEN conjunct2]
  note sv = pinned_survives [OF inv assms(2) _ assms(3,4)]
  show "fst (xFetch t (pg_key p) cf' blk' (snd (xFetch t key createFlag blk s))) = b" if "fresh_block blk c"
    unfolding xFetch_def [of t key] by (rule sv [of "{}"]) (use fetch_ok [OF l bd that] in auto)
  show "fst (xFetch t (pg_key p) cf' blk' (xShrink t s)) = b"
    unfolding xShrink_def by (rule sv [of "{}"]) (use shrink_ok [of "(c, ps_stats s)"] l in auto)
  show "fst (xFetch t (pg_key p) cf' blk' (xUnpin t b' discard s)) = b" if "b' \<noteq> b" "unpin_allowed t b' s"
  proof -
    have "op_ok {b'} (c, ps_stats s) (unpin b' discard (c, ps_stats s))"
    proof (cases "map_of (lc_byPtr c) b'")
      case None then show ?thesis using op_ok_refl [of "(c, ps_stats s)"] l by (simp add: unpin_def)
    next
      case (Some q)
      then show ?thesis using unpin_ok [OF l bd Some] that(2) assms(2) by (simp add: unpin_allowed_def)
    qed
    then show ?thesis unfolding xUnpin_def using that(1) by (intro sv [of "{b'}"]) auto
  qed
qed

theorem pcache_pinned_stable_witness:
  "fst (xFetch 1 5 0 0 (snd (xFetch 1 6 2 200 pc_demo_pinned))) = 100"
proof -
  let ?c = "pc_demo_cache\<lparr>lc_byPtr := [(100, \<lparr>pg_key = 5, pg_pinned = True, pg_elem = False\<rparr>)], lc_lru := []\<rparr>"
  have l: "Lookup 1 (ps_caches pc_demo_pinned) = Some ?c" by (simp add: pc_demo_pinned_def Lookup_def)
  have "map_of (lc_byPtr ?c) 100 = Some \<lparr>pg_key = 5, pg_pinned = True, pg_elem = False\<rparr>" "fresh_block 200 ?c"
    by (simp_all add: fresh_block_def)
  from pcache_pinned_stable [OF pc_demo_pinned_reach l this(1), of 200 0 0 6 2] this(2) show ?thesis by simp
qed

text \<open>A miss at the bound replaces the least recently used unpinned page and no other, so the number of pages
  does not change; when every page is pinned, a fetch with \<^verbatim>\<open>createFlag\<close> 1 is declined and the cache is unchanged.\<close>

theorem pcache_lru_replacement:
  assumes "pc_reach s" "Lookup t (ps_caches s) = Some c" "map_of (lc_byKey c) key = None"
    "ps_maxPages s \<le> xPagecount t s"
  shows "(lc_lru c = b # bs \<longrightarrow> createFlag \<noteq> 0 \<longrightarrow> blk \<noteq> 0 \<longrightarrow> fresh_block blk c \<longrightarrow>
      (\<exists>c'. fst (xFetch t key createFlag blk s) = blk \<and> Lookup t (ps_caches (snd (xFetch t key createFlag blk s))) = Some c' \<and>
        map_of (lc_byPtr c') = (map_of (lc_byPtr c))(b := None, blk \<mapsto> \<lparr>pg_key = key, pg_pinned = True, pg_elem = False\<rparr>) \<and>
        lc_lru c' = bs \<and> xPagecount t (snd (xFetch t key createFlag blk s)) = xPagecount t s)) \<and>
    (lc_lru c = [] \<longrightarrow> fst (xFetch t key 1 blk s) = 0 \<and> Lookup t (ps_caches (snd (xFetch t key 1 blk s))) = Some c)"
proof (rule conjI; intro impI)
  have inv: "pc_inv s" by (rule pc_reach_inv [OF assms(1)])
  have l: "links c" and bd: "bounded c" and mx: "lc_maxPages c = ps_maxPages s" using inv assms(2) by (auto simp: pc_inv_def)
  have full: "lc_maxPages c \<le> length (lc_byKey c)" using assms(2,4) mx by (simp add: xPagecount_def)
  {
    assume a: "lc_lru c = b # bs" "createFlag \<noteq> 0" "blk \<noteq> 0" "fresh_block blk c"
    from fetch_evicts [OF l bd assms(3) full a, of "ps_stats s"] obtain c' st' where
      f: "fetch key createFlag blk (c, ps_stats s) = (blk, c', st')" "lc_lru c' = bs" "length (lc_byKey c') = length (lc_byKey c)"
        "map_of (lc_byPtr c') = (map_of (lc_byPtr c))(b := None, blk \<mapsto> \<lparr>pg_key = key, pg_pinned = True, pg_elem = False\<rparr>)" by blast
    show "\<exists>c'. fst (xFetch t key createFlag blk s) = blk \<and> Lookup t (ps_caches (snd (xFetch t key createFlag blk s))) = Some c' \<and>
        map_of (lc_byPtr c') = (map_of (lc_byPtr c))(b := None, blk \<mapsto> \<lparr>pg_key = key, pg_pinned = True, pg_elem = False\<rparr>) \<and>
        lc_lru c' = bs \<and> xPagecount t (snd (xFetch t key createFlag blk s)) = xPagecount t s"
      using f assms(2) on_cache_lookup [of t s c "fetch key createFlag blk", OF assms(2) f(1)]
      by (intro exI [of _ c']) (simp add: xFetch_def xPagecount_def)
  }
  assume "lc_lru c = []"
  then have f: "fetch key 1 blk (c, ps_stats s) = (0, c, (ps_stats s)\<lparr>st_misses := st_misses (ps_stats s) + 1\<rparr>)"
    using full assms(3) by (simp add: fetch_def evictLRU_def)
  show "fst (xFetch t key 1 blk s) = 0 \<and> Lookup t (ps_caches (snd (xFetch t key 1 blk s))) = Some c"
    using on_cache_lookup [of t s c "fetch key 1 blk", OF assms(2) f] by (simp add: xFetch_def)
qed

theorem pcache_lru_replacement_witness:
  "\<exists>c'. fst (xFetch 1 6 1 200 pc_demo) = 200 \<and> Lookup 1 (ps_caches (snd (xFetch 1 6 1 200 pc_demo))) = Some c' \<and>
     lc_lru c' = [] \<and> map_of (lc_byPtr c') 100 = None"
proof -
  have l: "Lookup 1 (ps_caches pc_demo) = Some pc_demo_cache" by (simp add: pc_demo_def Lookup_def)
  have "map_of (lc_byKey pc_demo_cache) 6 = None" "ps_maxPages pc_demo \<le> xPagecount 1 pc_demo"
    "lc_lru pc_demo_cache = 100 # []" "fresh_block 200 pc_demo_cache"
    by (simp_all add: pc_demo_def pc_demo_cache_def xPagecount_def Lookup_def fresh_block_def)
  from pcache_lru_replacement [OF pc_demo_reach l this(1,2), of 100 "[]" 1 200] this(3,4) show ?thesis by auto
qed

end
