(* ===== verification/Stmt_Cache.thy ===== *)
theory Stmt_Cache
  imports Go_Strings
begin

text \<open>
  \<^verbatim>\<open>stmt_cache.go\<close>: the LRU cache of prepared statements of one connection. The pointers \<^verbatim>\<open>psql\<close> and
  \<^verbatim>\<open>pstmt\<close> are addresses; an element of the \<^verbatim>\<open>container/list\<close> is identified by a number, given out in order
  by \<open>sc_fresh\<close>, and \<open>se_elem\<close> is the entry's \<^verbatim>\<open>elem\<close>. The map and the list share the entries, which are never
  changed while they are in the cache.
\<close>

record stmtCacheEntry =
  se_key :: bytes
  se_psql :: nat
  se_pstmt :: nat
  se_elem :: "nat option"

record stmtCache =
  sc_cap :: int
  sc_m :: "(bytes \<times> stmtCacheEntry) list"
  sc_ord :: "stmtCacheEntry list"   \<comment> \<open>front is most recently used\<close>
  sc_fresh :: nat
  sc_hits :: int
  sc_misses :: int
  sc_evictions :: int

definition newStmtCache :: "int \<Rightarrow> stmtCache" where
  "newStmtCache capacity = \<lparr>sc_cap = (if capacity \<le> 0 then 0 else capacity), sc_m = [], sc_ord = [], sc_fresh = 0,
     sc_hits = 0, sc_misses = 0, sc_evictions = 0\<rparr>"

definition enabled :: "stmtCache \<Rightarrow> bool" where
  "enabled s \<longleftrightarrow> 0 < sc_cap s"

definition normalize :: "bytes \<Rightarrow> bytes" where
  "normalize sql = TrimSpace sql"

definition list_Remove :: "stmtCacheEntry \<Rightarrow> stmtCacheEntry list \<Rightarrow> stmtCacheEntry list" where
  "list_Remove e ord = filter (\<lambda>x. se_elem x \<noteq> se_elem e) ord"

definition take_stmt :: "bytes \<Rightarrow> stmtCache \<Rightarrow> stmtCacheEntry option \<times> stmtCache" where
  "take_stmt sql s =
     (if \<not> enabled s then (None, s)
      else let key = normalize sql
        in case map_of (sc_m s) key of
             None \<Rightarrow> (None, s\<lparr>sc_misses := sc_misses s + 1\<rparr>)
           | Some entry \<Rightarrow>
             (Some (entry\<lparr>se_elem := None\<rparr>),
              s\<lparr>sc_hits := sc_hits s + 1, sc_m := AList.delete key (sc_m s), sc_ord := list_Remove entry (sc_ord s)\<rparr>))"

text \<open>The common tail of \<^verbatim>\<open>put\<close>: push the new entry to the front and index it.\<close>

definition insert_front :: "bytes \<Rightarrow> nat \<Rightarrow> nat \<Rightarrow> stmtCache \<Rightarrow> stmtCache" where
  "insert_front key psql pstmt s = (let
     entry = \<lparr>se_key = key, se_psql = psql, se_pstmt = pstmt, se_elem = Some (sc_fresh s)\<rparr>
     in s\<lparr>sc_ord := entry # sc_ord s, sc_fresh := Suc (sc_fresh s), sc_m := AList.update key entry (sc_m s)\<rparr>)"

definition put_stmt :: "bytes \<Rightarrow> nat \<Rightarrow> nat \<Rightarrow> stmtCache \<Rightarrow> stmtCacheEntry option \<times> stmtCache" where
  "put_stmt sql psql pstmt s =
     (if \<not> enabled s then (Some \<lparr>se_key = sql, se_psql = psql, se_pstmt = pstmt, se_elem = None\<rparr>, s)
      else let key = normalize sql
        in case map_of (sc_m s) key of
             Some existing \<Rightarrow>
               (Some existing,
                insert_front key psql pstmt (s\<lparr>sc_m := AList.delete key (sc_m s), sc_ord := list_Remove existing (sc_ord s)\<rparr>))
           | None \<Rightarrow>
               if sc_cap s \<le> int (length (sc_ord s))
               then let oldest = last (sc_ord s)
                    in (Some oldest,
                        insert_front key psql pstmt
                          (s\<lparr>sc_ord := butlast (sc_ord s), sc_m := AList.delete (se_key oldest) (sc_m s),
                            sc_evictions := sc_evictions s + 1\<rparr>))
               else (None, insert_front key psql pstmt s))"

definition drainAll :: "stmtCache \<Rightarrow> stmtCacheEntry list \<times> stmtCache" where
  "drainAll s = (if \<not> enabled s then ([], s) else (sc_ord s, s\<lparr>sc_ord := [], sc_m := []\<rparr>))"

definition stmt_len :: "stmtCache \<Rightarrow> nat" where
  "stmt_len s = (if \<not> enabled s then 0 else length (sc_ord s))"

definition StmtCacheStats :: "stmtCache option \<Rightarrow> int \<times> int \<times> int" where
  "StmtCacheStats stmts =
     (case stmts of None \<Rightarrow> (0, 0, 0)
      | Some s \<Rightarrow> if enabled s then (sc_hits s, sc_misses s, sc_evictions s) else (0, 0, 0))"

section \<open>Invariant\<close>

definition sc_inv :: "stmtCache \<Rightarrow> bool" where
  "sc_inv s \<longleftrightarrow> distinct (map se_elem (sc_ord s)) \<and> distinct (map se_key (sc_ord s)) \<and> distinct (map fst (sc_m s)) \<and>
     (\<forall>e\<in>set (sc_ord s). \<exists>i. se_elem e = Some i \<and> i < sc_fresh s) \<and>
     (\<forall>k e. map_of (sc_m s) k = Some e \<longleftrightarrow> e \<in> set (sc_ord s) \<and> se_key e = k) \<and>
     0 \<le> sc_cap s \<and> int (length (sc_ord s)) \<le> sc_cap s"

lemma sc_invD:
  assumes "sc_inv s"
  shows "distinct (map se_elem (sc_ord s))" "distinct (map se_key (sc_ord s))" "distinct (map fst (sc_m s))"
    "e \<in> set (sc_ord s) \<Longrightarrow> \<exists>i. se_elem e = Some i \<and> i < sc_fresh s"
    "map_of (sc_m s) k = Some e \<longleftrightarrow> e \<in> set (sc_ord s) \<and> se_key e = k"
    "0 \<le> sc_cap s" "int (length (sc_ord s)) \<le> sc_cap s"
  using assms unfolding sc_inv_def by blast+

lemma newStmtCache_inv [simp]: "sc_inv (newStmtCache n)"
  by (simp add: sc_inv_def newStmtCache_def)

lemma list_Remove_split:
  assumes "distinct (map se_elem (xs @ e # ys))"
  shows "list_Remove e (xs @ e # ys) = xs @ ys"
proof -
  have "se_elem x \<noteq> se_elem e" if "x \<in> set (xs @ ys)" for x using assms that by (auto simp: rev_image_eqI)
  then show ?thesis by (auto simp: list_Remove_def intro!: filter_True)
qed

text \<open>Taking one entry out of the list and of the map.\<close>

lemma remove_entry:
  assumes inv: "sc_inv s" and ord: "sc_ord s = xs @ e # ys"
    and s': "sc_ord s' = xs @ ys" "sc_m s' = AList.delete (se_key e) (sc_m s)" "sc_fresh s' = sc_fresh s" "sc_cap s' = sc_cap s"
  shows "sc_inv s'" "map_of (sc_m s') (se_key e) = None"
proof -
  note d = sc_invD [OF inv]
  have k: "se_key x \<noteq> se_key e" if "x \<in> set (xs @ ys)" for x using d(2) that unfolding ord by (auto simp: rev_image_eqI)
  have "map_of (sc_m s') k = Some x \<longleftrightarrow> x \<in> set (sc_ord s') \<and> se_key x = k" for k x
    using d(5) [of k x] k ord s' by (auto simp: delete_conv')
  then show "sc_inv s'" unfolding sc_inv_def using d ord s'
    by (auto simp: distinct_delete)
  show "map_of (sc_m s') (se_key e) = None" by (simp add: s' delete_conv')
qed

lemma insert_front_inv:
  assumes inv: "sc_inv s" and new: "map_of (sc_m s) key = None" and room: "int (length (sc_ord s)) < sc_cap s"
  shows "sc_inv (insert_front key psql pstmt s)"
proof -
  note d = sc_invD [OF inv]
  let ?e = "\<lparr>se_key = key, se_psql = psql, se_pstmt = pstmt, se_elem = Some (sc_fresh s)\<rparr>"
  have k: "key \<notin> se_key ` set (sc_ord s)" using d(5) [of key] new by auto
  have el: "Some (sc_fresh s) \<notin> se_elem ` set (sc_ord s)" using d(4) by fastforce
  have "map_of (AList.update key ?e (sc_m s)) k = Some x \<longleftrightarrow> (x = ?e \<or> x \<in> set (sc_ord s)) \<and> se_key x = k" for k x
    using d(5) [of k x] k by (auto simp: update_conv')
  moreover have "\<exists>i. se_elem x = Some i \<and> i < Suc (sc_fresh s)" if "x = ?e \<or> x \<in> set (sc_ord s)" for x
    using that d(4) [of x] by (auto simp: less_Suc_eq)
  ultimately show ?thesis unfolding sc_inv_def insert_front_def Let_def
    using d k el room by (auto simp: distinct_update)
qed

section \<open>Ownership\<close>

text \<open>The handles an entry owns, and those the cache owns.\<close>

definition handle :: "stmtCacheEntry \<Rightarrow> nat \<times> nat" where
  "handle e = (se_psql e, se_pstmt e)"

definition owned :: "stmtCache \<Rightarrow> (nat \<times> nat) multiset" where
  "owned s = mset (map handle (sc_ord s))"

fun given :: "stmtCacheEntry option \<Rightarrow> (nat \<times> nat) multiset" where
  "given None = {#}"
| "given (Some e) = {#handle e#}"

lemma owned_insert_front [simp]: "owned (insert_front key psql pstmt s) = add_mset (psql, pstmt) (owned s)"
  by (simp add: owned_def insert_front_def handle_def Let_def)

lemma take_ok:
  assumes inv: "sc_inv s"
  shows "sc_inv (snd (take_stmt sql s)) \<and> owned s = owned (snd (take_stmt sql s)) + given (fst (take_stmt sql s)) \<and>
     sc_cap (snd (take_stmt sql s)) = sc_cap s"
proof (cases "enabled s")
  case False then show ?thesis using inv by (simp add: take_stmt_def)
next
  case en: True
  show ?thesis
  proof (cases "map_of (sc_m s) (normalize sql)")
    case None
    then show ?thesis using inv en by (simp add: take_stmt_def sc_inv_def owned_def)
  next
    case (Some e)
    then have e: "e \<in> set (sc_ord s)" "se_key e = normalize sql" using sc_invD(5) [OF inv] by auto
    from split_list [OF e(1)] obtain xs ys where o: "sc_ord s = xs @ e # ys" by blast
    have r: "list_Remove e (sc_ord s) = xs @ ys" using list_Remove_split sc_invD(1) [OF inv] unfolding o by blast
    have "sc_inv (snd (take_stmt sql s))"
      by (rule remove_entry(1) [OF inv o]) (use en Some r e in \<open>simp_all add: take_stmt_def\<close>)
    then show ?thesis using en Some r o by (simp add: take_stmt_def owned_def handle_def)
  qed
qed

lemma put_ok:
  assumes inv: "sc_inv s"
  shows "sc_inv (snd (put_stmt sql psql pstmt s)) \<and>
     add_mset (psql, pstmt) (owned s) = owned (snd (put_stmt sql psql pstmt s)) + given (fst (put_stmt sql psql pstmt s)) \<and>
     sc_cap (snd (put_stmt sql psql pstmt s)) = sc_cap s"
proof (cases "enabled s")
  case False then show ?thesis using inv by (simp add: put_stmt_def handle_def)
next
  case en: True
  let ?k = "normalize sql"
  have cap: "sc_cap (insert_front key a b t) = sc_cap t" for key a b t by (simp add: insert_front_def Let_def)
  show ?thesis
  proof (cases "map_of (sc_m s) ?k")
    case (Some e)
    then have e: "e \<in> set (sc_ord s)" "se_key e = ?k" using sc_invD(5) [OF inv] by auto
    from split_list [OF e(1)] obtain xs ys where o: "sc_ord s = xs @ e # ys" by blast
    have r: "list_Remove e (sc_ord s) = xs @ ys" using list_Remove_split sc_invD(1) [OF inv] unfolding o by blast
    let ?s = "s\<lparr>sc_m := AList.delete ?k (sc_m s), sc_ord := list_Remove e (sc_ord s)\<rparr>"
    have i: "sc_inv ?s" "map_of (sc_m ?s) ?k = None" using remove_entry [OF inv o, of ?s] r e(2) by simp_all
    have "sc_inv (insert_front ?k psql pstmt ?s)"
      by (rule insert_front_inv [OF i]) (use sc_invD(7) [OF inv] o r in simp)
    moreover have "owned s = owned ?s + {#handle e#}" using r o by (simp add: owned_def)
    ultimately show ?thesis using en Some cap by (simp add: put_stmt_def Let_def)
  next
    case None
    show ?thesis
    proof (cases "sc_cap s \<le> int (length (sc_ord s))")
      case False
      then show ?thesis using en None insert_front_inv [OF inv None] cap by (simp add: put_stmt_def)
    next
      case full: True
      then have "sc_ord s \<noteq> []" using en by (auto simp: enabled_def)
      then have o: "sc_ord s = butlast (sc_ord s) @ last (sc_ord s) # []" by simp
      let ?s = "s\<lparr>sc_ord := butlast (sc_ord s), sc_m := AList.delete (se_key (last (sc_ord s))) (sc_m s), sc_evictions := sc_evictions s + 1\<rparr>"
      have i: "sc_inv ?s" using remove_entry(1) [OF inv o, of ?s] by simp
      have n: "map_of (sc_m ?s) ?k = None" using None by (simp add: delete_conv')
      have "sc_inv (insert_front ?k psql pstmt ?s)"
        by (rule insert_front_inv [OF i n]) (use sc_invD(7) [OF inv] \<open>sc_ord s \<noteq> []\<close> in \<open>simp add: Suc_le_eq\<close>)
      moreover have "owned s = owned ?s + {#handle (last (sc_ord s))#}" unfolding owned_def by (subst o) simp
      ultimately show ?thesis using en None full cap by (simp add: put_stmt_def Let_def)
    qed
  qed
qed

lemma drain_ok:
  "sc_inv s \<Longrightarrow> sc_inv (snd (drainAll s)) \<and> owned s = mset (map handle (fst (drainAll s))) + owned (snd (drainAll s)) \<and>
     sc_cap (snd (drainAll s)) = sc_cap s"
  by (auto simp: drainAll_def sc_inv_def owned_def)

text \<open>A connection's use of the cache: what it hands out to its caller along the way.\<close>

datatype scOp = Take bytes | Put bytes nat nat | Drain

fun sc_run :: "scOp list \<Rightarrow> stmtCache \<Rightarrow> (nat \<times> nat) multiset \<times> stmtCache" where
  "sc_run [] s = ({#}, s)"
| "sc_run (Take sql # ops) s = (case take_stmt sql s of (e, s1) \<Rightarrow> case sc_run ops s1 of (out, s') \<Rightarrow> (given e + out, s'))"
| "sc_run (Put sql psql pstmt # ops) s =
     (case put_stmt sql psql pstmt s of (e, s1) \<Rightarrow> case sc_run ops s1 of (out, s') \<Rightarrow> (given e + out, s'))"
| "sc_run (Drain # ops) s = (case drainAll s of (es, s1) \<Rightarrow> case sc_run ops s1 of (out, s') \<Rightarrow> (mset (map handle es) + out, s'))"

fun donated :: "scOp list \<Rightarrow> (nat \<times> nat) multiset" where
  "donated [] = {#}"
| "donated (Put sql psql pstmt # ops) = add_mset (psql, pstmt) (donated ops)"
| "donated (_ # ops) = donated ops"

lemma sc_run_ok:
  "sc_inv s \<Longrightarrow> sc_run ops s = (out, s') \<Longrightarrow> sc_inv s' \<and> out + owned s' = owned s + donated ops \<and> sc_cap s' = sc_cap s"
proof (induction ops arbitrary: s out)
  case (Cons p ops)
  show ?case
  proof (cases p)
    case (Take sql)
    obtain e s1 where t: "take_stmt sql s = (e, s1)" by fastforce
    obtain o1 where r: "sc_run ops s1 = (o1, s')" "out = given e + o1" using Cons.prems(2) Take t by (auto split: prod.splits)
    show ?thesis using Cons.IH [OF _ r(1)] take_ok [OF Cons.prems(1), of sql] t r(2) Take by (simp add: ac_simps)
  next
    case (Put sql psql pstmt)
    obtain e s1 where t: "put_stmt sql psql pstmt s = (e, s1)" by fastforce
    obtain o1 where r: "sc_run ops s1 = (o1, s')" "out = given e + o1" using Cons.prems(2) Put t by (auto split: prod.splits)
    have k: "sc_inv s1" "add_mset (psql, pstmt) (owned s) = owned s1 + given e" "sc_cap s1 = sc_cap s"
      using put_ok [OF Cons.prems(1), of sql psql pstmt] t by auto
    then have "out + owned s' = add_mset (psql, pstmt) (owned s) + donated ops"
      using Cons.IH [OF k(1) r(1)] r(2) by (simp add: ac_simps)
    then show ?thesis using Cons.IH [OF k(1) r(1)] k(3) Put by simp
  next
    case Drain
    obtain es s1 where t: "drainAll s = (es, s1)" by fastforce
    obtain o1 where r: "sc_run ops s1 = (o1, s')" "out = mset (map handle es) + o1" using Cons.prems(2) Drain t by (auto split: prod.splits)
    show ?thesis using Cons.IH [OF _ r(1)] drain_ok [OF Cons.prems(1)] t r(2) Drain by (simp add: ac_simps)
  qed
qed simp

lemma put_lookup:
  assumes inv: "sc_inv s" and en: "enabled s"
  shows "map_of (sc_m (snd (put_stmt sql psql pstmt s))) k =
    (if k = normalize sql then Some \<lparr>se_key = k, se_psql = psql, se_pstmt = pstmt, se_elem = Some (sc_fresh s)\<rparr>
     else case fst (put_stmt sql psql pstmt s) of None \<Rightarrow> map_of (sc_m s) k
        | Some e \<Rightarrow> if se_key e = k then None else map_of (sc_m s) k)"
proof -
  have "se_key e = normalize sql" if "map_of (sc_m s) (normalize sql) = Some e" for e using sc_invD(5) [OF inv] that by auto
  then show ?thesis using en by (auto simp: put_stmt_def insert_front_def Let_def update_conv' delete_conv' split: option.splits)
qed

section \<open>Properties\<close>

text \<open>C40: No prepared statement is lost and none is finalized twice: over any sequence of \<^verbatim>\<open>take\<close>, \<^verbatim>\<open>put\<close> and
  \<^verbatim>\<open>drainAll\<close>, the statements handed back to the connection together with those still cached are exactly the
  statements it donated, counted with multiplicity, and the cache never holds more than its capacity.\<close>

theorem stmt_cache_no_leak:
  assumes "sc_run ops (newStmtCache n) = (out, s)"
  shows "out + owned s = donated ops \<and> int (stmt_len s) \<le> max 0 n"
proof -
  have "sc_cap (newStmtCache n) = max 0 n" "owned (newStmtCache n) = {#}" by (auto simp: newStmtCache_def owned_def)
  then show ?thesis using sc_run_ok [OF newStmtCache_inv assms] sc_invD(7) [of s] by (auto simp: stmt_len_def)
qed

theorem stmt_cache_no_leak_witness:
  "\<exists>out s. sc_run [Put [65] 1 2, Put [66] 3 4, Take [66]] (newStmtCache 1) = (out, s) \<and> out + owned s = {#(1, 2), (3, 4)#}"
proof -
  obtain out s where r: "sc_run [Put [65] 1 2, Put [66] 3 4, Take [66]] (newStmtCache 1) = (out, s)" by fastforce
  then show ?thesis using stmt_cache_no_leak [OF r] by auto
qed

text \<open>A donated statement is what the next \<^verbatim>\<open>take\<close> of the same SQL text returns, up to surrounding white
  space, and every other cached statement stays available except the one returned for finalizing; when the
  cache is full that one is the least recently donated.\<close>

theorem stmt_cache_put_take:
  assumes "sc_inv s" "enabled s" "normalize sql' = normalize sql" "put_stmt sql psql pstmt s = (ev, s')"
  shows "map_option handle (fst (take_stmt sql' s')) = Some (psql, pstmt) \<and>
    (\<forall>k. k \<noteq> normalize sql \<longrightarrow> (\<forall>e. ev = Some e \<longrightarrow> se_key e \<noteq> k) \<longrightarrow> map_of (sc_m s') k = map_of (sc_m s) k) \<and>
    (map_of (sc_m s) (normalize sql) = None \<longrightarrow> sc_cap s = int (length (sc_ord s)) \<longrightarrow> ev = Some (last (sc_ord s)))"
proof -
  note l = put_lookup [OF assms(1,2), of sql psql pstmt, unfolded assms(4)]
  have "enabled s'" using put_ok [OF assms(1), of sql psql pstmt] assms(2,4) by (simp add: enabled_def)
  then have "map_option handle (fst (take_stmt sql' s')) = Some (psql, pstmt)"
    using l [of "normalize sql"] assms(3) by (simp add: take_stmt_def handle_def Let_def)
  moreover have "map_of (sc_m s') k = map_of (sc_m s) k"
    if "k \<noteq> normalize sql" "\<forall>e. ev = Some e \<longrightarrow> se_key e \<noteq> k" for k using l [of k] that by (auto split: option.splits)
  moreover have "ev = Some (last (sc_ord s))" if "map_of (sc_m s) (normalize sql) = None" "sc_cap s = int (length (sc_ord s))"
    using that assms(2,4) by (auto simp: put_stmt_def Let_def)
  ultimately show ?thesis by blast
qed

theorem stmt_cache_put_take_witness:
  "map_option handle (fst (take_stmt [65] (snd (put_stmt [65] 1 2 (newStmtCache 3))))) = Some (1, 2)"
proof -
  obtain ev s' where p: "put_stmt [65] 1 2 (newStmtCache 3) = (ev, s')" by fastforce
  then show ?thesis using stmt_cache_put_take [OF newStmtCache_inv _ refl p] by (simp add: enabled_def newStmtCache_def)
qed

end
