(* ===== verification/Fuzzy.thy ===== *)
theory Fuzzy
  imports Go_Strings
begin

text \<open>
  \<^verbatim>\<open>ext/fuzzy\<close>: approximate string matching. The tables of \<^verbatim>\<open>levenshtein\<close> and \<^verbatim>\<open>damerauLevenshtein\<close> are filled by the
  loops of the sources, one array write per step; their entries are bounded by the lengths of the arguments,
  so natural numbers are Go's ints here. The two Jaro similarities are floating-point functions and are left out.
\<close>

section \<open>Levenshtein distance\<close>

text \<open>The body of the inner loop writes \<^verbatim>\<open>curr[j]\<close>; the outer loop swaps the two rows.\<close>

definition lev_cell :: "'a list \<Rightarrow> 'a list \<Rightarrow> nat \<Rightarrow> nat list \<Rightarrow> nat \<Rightarrow> nat list \<Rightarrow> nat list" where
  "lev_cell ra rb i prev j cur =
     (let cost = (if ra ! (i - 1) = rb ! (j - 1) then 0 else 1)
      in cur[j := min (min (prev ! j + 1) (cur ! (j - 1) + 1)) (prev ! (j - 1) + cost)])"

definition lev_row :: "'a list \<Rightarrow> 'a list \<Rightarrow> nat \<Rightarrow> nat list \<times> nat list \<Rightarrow> nat list \<times> nat list" where
  "lev_row ra rb i = (\<lambda>(prev, cur).
     (fold (lev_cell ra rb i prev) [1..<length rb + 1] (cur[0 := i]), prev))"

definition lev_rows :: "'a list \<Rightarrow> 'a list \<Rightarrow> nat" where
  "lev_rows ra rb =
     (if ra = [] then length rb
      else if rb = [] then length ra
      else let prev = [0..<length rb + 1]; cur = replicate (length rb + 1) 0
        in fst (fold (lev_row ra rb) [1..<length ra + 1] (prev, cur)) ! length rb)"

definition levenshtein :: "bytes \<Rightarrow> bytes \<Rightarrow> nat" where
  "levenshtein a b = lev_rows (runes a) (runes b)"

section \<open>Optimal string alignment\<close>

definition osa_cell :: "'a list \<Rightarrow> 'a list \<Rightarrow> nat \<Rightarrow> nat \<Rightarrow> nat list list \<Rightarrow> nat list list" where
  "osa_cell ra rb i j d =
     (let cost = (if ra ! (i - 1) = rb ! (j - 1) then 0 else 1);
          d1 = d[i := (d ! i)[j := min (min (d ! (i - 1) ! j + 1) (d ! i ! (j - 1) + 1)) (d ! (i - 1) ! (j - 1) + cost)]]
      in if 1 < i \<and> 1 < j \<and> ra ! (i - 1) = rb ! (j - 2) \<and> ra ! (i - 2) = rb ! (j - 1)
         then d1[i := (d1 ! i)[j := min (d1 ! i ! j) (d1 ! (i - 2) ! (j - 2) + 1)]] else d1)"

definition osa_table :: "'a list \<Rightarrow> 'a list \<Rightarrow> nat" where
  "osa_table ra rb =
     (if ra = [] then length rb
      else if rb = [] then length ra
      else let la = length ra; lb = length rb;
               d = map (\<lambda>i. (replicate (lb + 1) 0)[0 := i]) [0..<la + 1];
               d' = d[0 := fold (\<lambda>j row. row[j := j]) [0..<lb + 1] (d ! 0)]
        in fold (\<lambda>i d. fold (osa_cell ra rb i) [1..<lb + 1] d) [1..<la + 1] d' ! la ! lb)"

definition damerauLevenshtein :: "bytes \<Rightarrow> bytes \<Rightarrow> nat" where
  "damerauLevenshtein a b = osa_table (runes a) (runes b)"

section \<open>Hamming distance and Soundex\<close>

definition hamming :: "bytes \<Rightarrow> bytes \<Rightarrow> string + nat" where
  "hamming a b = (let ra = runes a; rb = runes b in
     if length ra \<noteq> length rb then Inl ''hamming: strings must be equal length''
     else Inr (fold (\<lambda>i dist. if ra ! i \<noteq> rb ! i then dist + 1 else dist) [0..<length ra] 0))"

definition soundexDigit :: "byte \<Rightarrow> byte" where
  "soundexDigit c =
     (if c \<in> set (ascii ''BFPV'') then 49
      else if c \<in> set (ascii ''CGJKQSXZ'') then 50
      else if c \<in> set (ascii ''DT'') then 51
      else if c \<in> set (ascii ''L'') then 52
      else if c \<in> set (ascii ''MN'') then 53
      else if c \<in> set (ascii ''R'') then 54
      else 48)"

text \<open>Upper-case letters of the argument, in order.\<close>

fun soundex_letters :: "bytes \<Rightarrow> bytes" where
  "soundex_letters [] = []"
| "soundex_letters (c # s) =
     (let u = (if 97 \<le> c \<and> c \<le> 122 then c - 32 else c)
      in if 65 \<le> u \<and> u \<le> 90 then u # soundex_letters s else soundex_letters s)"

fun soundex_loop :: "bytes \<Rightarrow> bytes \<Rightarrow> byte \<Rightarrow> bytes" where
  "soundex_loop [] code lst = code"
| "soundex_loop (c # ls) code lst =
     (if 4 \<le> length code then code
      else if c \<in> set (ascii ''HW'') then soundex_loop ls code lst
      else if c \<in> set (ascii ''AEIOUY'') then soundex_loop ls code 48
      else let d = soundexDigit c
        in if d \<noteq> 48 \<and> d \<noteq> lst then soundex_loop ls (code @ [d]) d else soundex_loop ls code d)"

definition soundex :: "bytes \<Rightarrow> bytes" where
  "soundex s =
     (case soundex_letters s of
        [] \<Rightarrow> []
      | l # ls \<Rightarrow> let code = soundex_loop ls [l] (soundexDigit l) in code @ replicate (4 - length code) 48)"

section \<open>Caverphone\<close>

text \<open>Lower-casing runs over Unicode: besides the ASCII capitals, two letters outside ASCII have an ASCII lower case,
  the dotted capital I (U+0130) and the Kelvin sign (U+212A).\<close>

definition lower_letter :: "nat \<Rightarrow> byte list" where
  "lower_letter r =
     (if 65 \<le> r \<and> r \<le> 90 then [of_nat (r + 32)]
      else if 97 \<le> r \<and> r \<le> 122 then [of_nat r]
      else if r = 0x130 then [105] else if r = 0x212A then [107] else [])"

definition cav_letters :: "bytes \<Rightarrow> bytes" where
  "cav_letters s = concat (map lower_letter (runes s))"

definition cav_start :: "(string \<times> string) list" where
  "cav_start = [(''cough'', ''cou2f''), (''rough'', ''rou2f''), (''tough'', ''tou2f''), (''enough'', ''enou2f''), (''trough'', ''trou2f'')]"

fun cav_prefix :: "(string \<times> string) list \<Rightarrow> bytes \<Rightarrow> bytes" where
  "cav_prefix [] w = w"
| "cav_prefix ((p, q) # ps) w =
     (if HasPrefix w (ascii p) then ascii q @ drop (length p) w else cav_prefix ps w)"

definition cav_table :: "(string \<times> string) list" where
  "cav_table =
     [(''cq'', ''2q''), (''ci'', ''si''), (''ce'', ''se''), (''cy'', ''sy''), (''tch'', ''2ch''), (''c'', ''k''), (''q'', ''k''),
      (''x'', ''k''), (''v'', ''f''), (''dg'', ''2g''), (''tio'', ''sio''), (''tia'', ''sia''), (''d'', ''t''), (''ph'', ''fh''),
      (''b'', ''p''), (''sh'', ''s2''), (''z'', ''s'')]"

definition subst_all :: "string \<Rightarrow> string \<Rightarrow> bytes \<Rightarrow> bytes" where
  "subst_all p q w = replaceAll (ascii p) (ascii q) w"

definition replaceInitialVowel :: "bytes \<Rightarrow> bytes" where
  "replaceInitialVowel w =
     (case w of [] \<Rightarrow> [] | c # cs \<Rightarrow> if c \<in> set (ascii ''aeiou'') then ascii ''A'' @ cs else w)"

definition replaceVowels :: "bytes \<Rightarrow> bytes" where
  "replaceVowels w = map (\<lambda>c. if c \<in> set (ascii ''aeiou'') then 51 else c) w"

definition trimSuffixReplace :: "bytes \<Rightarrow> string \<Rightarrow> string \<Rightarrow> bytes" where
  "trimSuffixReplace w old new =
     (if HasSuffix w (ascii old) then take (length w - length old) w @ ascii new else w)"

text \<open>\<^verbatim>\<open>ReplaceAllString\<close> of the pattern \<^verbatim>\<open>x+\<close>: each run of \<open>x\<close> becomes one \<open>y\<close>.\<close>

fun collapse :: "byte \<Rightarrow> byte \<Rightarrow> bytes \<Rightarrow> bytes" where
  "collapse x y [] = []"
| "collapse x y [c] = [if c = x then y else c]"
| "collapse x y (c # d # w) =
     (if c = x then if d = x then collapse x y (d # w) else y # collapse x y (d # w) else c # collapse x y (d # w))"

definition cav_j :: "bytes \<Rightarrow> bytes" where
  "cav_j w = (let w = subst_all ''j'' ''y'' w;
     w = (if HasPrefix w (ascii ''y3'') then ascii ''Y3'' @ drop 2 w
          else if HasPrefix w (ascii ''y'') then ascii ''A'' @ drop 1 w else w)
   in subst_all ''y'' ''3'' w)"

definition cav_runs :: "bytes \<Rightarrow> bytes" where
  "cav_runs w = foldl (\<lambda>w (x, y). collapse (of_nat (of_char x)) (of_nat (of_char y)) w) w (zip ''stpkfmn'' ''STPKFMN'')"

definition cav_whrl :: "bytes \<Rightarrow> bytes" where
  "cav_whrl w = (let
     w = subst_all ''w'' ''2'' (trimSuffixReplace (subst_all ''wh3'' ''Wh3'' (subst_all ''w3'' ''W3'' w)) ''w'' ''3'');
     w = (if HasPrefix w (ascii ''h'') then ascii ''A'' @ drop 1 w else w);
     w = subst_all ''h'' ''2'' w;
     w = subst_all ''r'' ''2'' (trimSuffixReplace (subst_all ''r3'' ''R3'' w) ''r'' ''3'')
   in subst_all ''l'' ''2'' (trimSuffixReplace (subst_all ''l3'' ''L3'' w) ''l'' ''3''))"

definition caverphone :: "bytes \<Rightarrow> bytes" where
  "caverphone s = (let w = cav_letters s in
     if w = [] then ascii ''1111111111''
     else let
       w = cav_prefix cav_start w;
       w = (if HasPrefix w (ascii ''gn'') then ascii ''2n'' @ drop 2 w else w);
       w = (if HasSuffix w (ascii ''mb'') then take (length w - 2) w @ ascii ''m2'' else w);
       w = foldl (\<lambda>w (p, q). subst_all p q w) w cav_table;
       w = replaceVowels (replaceInitialVowel w);
       w = cav_j w;
       w = subst_all ''g'' ''k'' (subst_all ''gh'' ''22'' (subst_all ''3gh3'' ''3kh3'' w));
       w = cav_whrl (cav_runs w);
       w = subst_all ''2'' '''' w;
       w = (if HasSuffix w (ascii ''3'') then take (length w - 1) w @ ascii ''A'' else w);
       w = subst_all ''3'' '''' w
     in take 10 (w @ ascii ''1111111111''))"

section \<open>What the distances count\<close>

text \<open>One edit inserts, deletes or replaces one element anywhere. The distance is the least number of edits that
  lead from one string to the other.\<close>

inductive one_edit :: "'a list \<Rightarrow> 'a list \<Rightarrow> bool" where
  ins: "one_edit (us @ vs) (us @ x # vs)"
| del: "one_edit (us @ x # vs) (us @ vs)"
| sub: "one_edit (us @ x # vs) (us @ y # vs)"

text \<open>An alignment pairs two strings from left to right; each element takes part in one operation, and two
  neighbours may be exchanged at cost one.\<close>

inductive osa_align :: "nat \<Rightarrow> 'a list \<Rightarrow> 'a list \<Rightarrow> bool" where
  Nil: "osa_align 0 [] []"
| Same: "osa_align n xs ys \<Longrightarrow> osa_align n (x # xs) (x # ys)"
| Sub: "osa_align n xs ys \<Longrightarrow> osa_align (Suc n) (x # xs) (y # ys)"
| Del: "osa_align n xs ys \<Longrightarrow> osa_align (Suc n) (x # xs) ys"
| Ins: "osa_align n xs ys \<Longrightarrow> osa_align (Suc n) xs (y # ys)"
| Swap: "osa_align n xs ys \<Longrightarrow> osa_align (Suc n) (x # y # xs) (y # x # ys)"

text \<open>The recursive references.\<close>

fun ed :: "'a list \<Rightarrow> 'a list \<Rightarrow> nat" where
  "ed [] ys = length ys"
| "ed (x # xs) [] = Suc (length xs)"
| "ed (x # xs) (y # ys) =
     min (min (ed xs (y # ys) + 1) (ed (x # xs) ys + 1)) (ed xs ys + (if x = y then 0 else 1))"

function osa :: "'a list \<Rightarrow> 'a list \<Rightarrow> nat" where
  "osa [] ys = length ys"
| "osa (x # xs) [] = Suc (length xs)"
| "osa (x # xs) (y # ys) =
     (let m = min (min (osa xs (y # ys) + 1) (osa (x # xs) ys + 1)) (osa xs ys + (if x = y then 0 else 1))
      in if xs \<noteq> [] \<and> ys \<noteq> [] \<and> x = hd ys \<and> hd xs = y then min m (osa (tl xs) (tl ys) + 1) else m)"
  by pat_completeness auto
termination
  by (relation "measure (\<lambda>(xs, ys). length xs + length ys)") (auto simp: neq_Nil_conv)

lemma ed_Nil2 [simp]: "ed xs [] = length xs"
  by (cases xs) auto

lemma osa_Nil2 [simp]: "osa xs [] = length xs"
  by (cases xs) auto

subsection \<open>The tables hold the references\<close>

abbreviation D :: "('a list \<Rightarrow> 'a list \<Rightarrow> nat) \<Rightarrow> 'a list \<Rightarrow> 'a list \<Rightarrow> nat \<Rightarrow> nat \<Rightarrow> nat" where
  "D f ra rb i j \<equiv> f (rev (take i ra)) (rev (take j rb))"

lemma rev_take_Suc: "i < length xs \<Longrightarrow> rev (take (Suc i) xs) = xs ! i # rev (take i xs)"
  by (simp add: take_Suc_conv_app_nth)

lemma ed_step:
  assumes "i < length ra" "j < length rb"
  shows "D ed ra rb (Suc i) (Suc j) =
    min (min (D ed ra rb i (Suc j) + 1) (D ed ra rb (Suc i) j + 1)) (D ed ra rb i j + (if ra ! i = rb ! j then 0 else 1))"
  using assms by (simp add: rev_take_Suc)

lemma D_left: "j \<le> length rb \<Longrightarrow> D ed ra rb 0 j = j" "i \<le> length ra \<Longrightarrow> D ed ra rb i 0 = i"
  by simp_all

lemma lev_cells:
  assumes "length prev = Suc (length rb)" "\<And>j. j \<le> length rb \<Longrightarrow> prev ! j = D ed ra rb i j"
    and "i < length ra" "length cur = Suc (length rb)" "cur ! 0 = Suc i" "k \<le> length rb"
  shows "length (fold (lev_cell ra rb (Suc i) prev) [1..<k + 1] cur) = Suc (length rb) \<and>
    (\<forall>j\<le>k. fold (lev_cell ra rb (Suc i) prev) [1..<k + 1] cur ! j = D ed ra rb (Suc i) j)"
  using assms(6)
proof (induction k)
  case 0
  then show ?case using assms(3-5) by simp
next
  case (Suc k)
  let ?c = "fold (lev_cell ra rb (Suc i) prev) [1..<k + 1] cur"
  have ih: "length ?c = Suc (length rb)" "\<And>j. j \<le> k \<Longrightarrow> ?c ! j = D ed ra rb (Suc i) j" using Suc by auto
  have "fold (lev_cell ra rb (Suc i) prev) [1..<Suc k + 1] cur = lev_cell ra rb (Suc i) prev (Suc k) ?c" by simp
  moreover have "lev_cell ra rb (Suc i) prev (Suc k) ?c = ?c[Suc k := D ed ra rb (Suc i) (Suc k)]"
    using ed_step [OF assms(3), of k rb] Suc.prems ih(2) [of k] assms(2) [of k] assms(2) [of "Suc k"]
    by (simp add: lev_cell_def Let_def del: ed.simps)
  ultimately show ?case using ih Suc.prems by (auto simp: nth_list_update le_Suc_eq simp del: ed.simps)
qed

lemma lev_table:
  assumes "k \<le> length ra"
  shows "\<exists>prev cur. fold (lev_row ra rb) [1..<k + 1] ([0..<length rb + 1], replicate (length rb + 1) 0) = (prev, cur) \<and>
    length prev = Suc (length rb) \<and> length cur = Suc (length rb) \<and> (\<forall>j\<le>length rb. prev ! j = D ed ra rb k j)"
  using assms
proof (induction k)
  case 0
  show ?case by (auto simp del: upt_Suc)
next
  case (Suc k)
  then obtain prev cur where p: "fold (lev_row ra rb) [1..<k + 1] ([0..<length rb + 1], replicate (length rb + 1) 0) = (prev, cur)"
    "length prev = Suc (length rb)" "length cur = Suc (length rb)" "\<And>j. j \<le> length rb \<Longrightarrow> prev ! j = D ed ra rb k j" by auto
  let ?c = "fold (lev_cell ra rb (Suc k) prev) [1..<length rb + 1] (cur[0 := Suc k])"
  have "fold (lev_row ra rb) [1..<Suc k + 1] ([0..<length rb + 1], replicate (length rb + 1) 0) = (?c, prev)"
    using p(1) by (simp add: lev_row_def)
  moreover have "length ?c = Suc (length rb) \<and> (\<forall>j\<le>length rb. ?c ! j = D ed ra rb (Suc k) j)"
    using Suc.prems p by (intro lev_cells) auto
  ultimately show ?case using p(2) by blast
qed

lemma lev_rows_ed: "lev_rows ra rb = ed (rev ra) (rev rb)"
proof (cases "ra = [] \<or> rb = []")
  case False
  then show ?thesis using lev_table [of "length ra" ra rb] by (auto simp: lev_rows_def Let_def simp del: upt_Suc)
qed (auto simp: lev_rows_def)

text \<open>The second table: row 0 and column 0 are set up first, then the cells are filled row by row.\<close>

lemma osa_step:
  assumes "i < length ra" "j < length rb"
  shows "D osa ra rb (Suc i) (Suc j) =
    (let m = min (min (D osa ra rb i (Suc j) + 1) (D osa ra rb (Suc i) j + 1)) (D osa ra rb i j + (if ra ! i = rb ! j then 0 else 1))
     in if 0 < i \<and> 0 < j \<and> ra ! i = rb ! (j - 1) \<and> ra ! (i - 1) = rb ! j
        then min m (D osa ra rb (i - 1) (j - 1) + 1) else m)"
proof -
  have hd: "rev (take k xs) \<noteq> [] \<longleftrightarrow> 0 < k" "0 < k \<Longrightarrow> hd (rev (take k xs)) = xs ! (k - 1)" "tl (rev (take k xs)) = rev (take (k - 1) xs)"
    if "k < length xs" for k and xs :: "'a list"
    using that rev_take_Suc [of "k - 1" xs] by (cases k; auto)+
  show ?thesis
    unfolding rev_take_Suc [OF assms(1)] rev_take_Suc [OF assms(2)] osa.simps Let_def
    using hd [OF assms(1)] hd [OF assms(2)] by auto
qed

definition osa_filled :: "'a list \<Rightarrow> 'a list \<Rightarrow> nat \<Rightarrow> nat \<Rightarrow> nat list list \<Rightarrow> bool" where
  "osa_filled ra rb i j d \<longleftrightarrow> length d = Suc (length ra) \<and> (\<forall>r\<le>length ra. length (d ! r) = Suc (length rb) \<and> d ! r ! 0 = r) \<and>
     (\<forall>r\<le>length ra. \<forall>c\<le>length rb. r < i \<or> r = i \<and> c \<le> j \<longrightarrow> d ! r ! c = D osa ra rb r c)"

lemma osa_filledD:
  assumes "osa_filled ra rb i j d"
  shows "length d = Suc (length ra)" "r \<le> length ra \<Longrightarrow> length (d ! r) = Suc (length rb)"
    "r \<le> length ra \<Longrightarrow> c \<le> length rb \<Longrightarrow> r < i \<or> r = i \<and> c \<le> j \<Longrightarrow> d ! r ! c = D osa ra rb r c"
  using assms unfolding osa_filled_def by blast+

lemma osa_cell_filled:
  assumes "osa_filled ra rb (Suc i) j d" "i < length ra" "j < length rb"
  shows "osa_filled ra rb (Suc i) (Suc j) (osa_cell ra rb (Suc i) (Suc j) d)"
proof -
  have f: "length d = Suc (length ra)" "length (d ! Suc i) = Suc (length rb)"
    "d ! i ! Suc j = D osa ra rb i (Suc j)" "d ! Suc i ! j = D osa ra rb (Suc i) j" "d ! i ! j = D osa ra rb i j"
    "d ! (i - 1) ! (j - 1) = D osa ra rb (i - 1) (j - 1)"
    using assms(2,3) by (auto intro: osa_filledD [OF assms(1)] simp del: osa.simps)
  have "osa_cell ra rb (Suc i) (Suc j) d = d[Suc i := (d ! Suc i)[Suc j := D osa ra rb (Suc i) (Suc j)]]"
    unfolding osa_step [OF assms(2,3)] osa_cell_def
    using f assms(2,3) by (auto simp: Let_def numeral_2_eq_2 simp del: osa.simps)
  then have u: "osa_cell ra rb (Suc i) (Suc j) d ! r = (if r = Suc i then (d ! r)[Suc j := D osa ra rb (Suc i) (Suc j)] else d ! r)"
      "length (osa_cell ra rb (Suc i) (Suc j) d) = length d" for r
    using f(1) assms(2) by (auto simp del: osa.simps)
  then have "osa_cell ra rb (Suc i) (Suc j) d ! r ! c = (if r = Suc i \<and> c = Suc j then D osa ra rb r c else d ! r ! c)" for r c
    using f(2) assms(3) by (auto simp: nth_list_update simp del: osa.simps)
  then show ?thesis using assms(1) u unfolding osa_filled_def by (auto simp: le_Suc_eq simp del: osa.simps)
qed

lemma osa_next_row: "osa_filled ra rb i (length rb) d \<Longrightarrow> i < length ra \<Longrightarrow> osa_filled ra rb (Suc i) 0 d"
  by (auto simp: osa_filled_def less_Suc_eq simp del: osa.simps)

lemma osa_row_filled:
  assumes "osa_filled ra rb (Suc i) 0 d" "i < length ra" "k \<le> length rb"
  shows "osa_filled ra rb (Suc i) k (fold (osa_cell ra rb (Suc i)) [1..<k + 1] d)"
  using assms(3) by (induction k) (use assms(1,2) in \<open>auto intro: osa_cell_filled simp del: osa.simps\<close>)

lemma osa_rows_filled:
  assumes "osa_filled ra rb 0 (length rb) d" "k \<le> length ra"
  shows "osa_filled ra rb k (length rb) (fold (\<lambda>i d. fold (osa_cell ra rb i) [1..<length rb + 1] d) [1..<k + 1] d)"
  using assms(2)
proof (induction k)
  case 0 then show ?case using assms(1) by simp
next
  case (Suc k)
  let ?d = "fold (\<lambda>i d. fold (osa_cell ra rb i) [1..<length rb + 1] d) [1..<k + 1] d"
  have "osa_filled ra rb k (length rb) ?d" using Suc by linarith
  then have "osa_filled ra rb (Suc k) 0 ?d" using Suc.prems by (intro osa_next_row) simp_all
  then have "osa_filled ra rb (Suc k) (length rb) (fold (osa_cell ra rb (Suc k)) [1..<length rb + 1] ?d)"
    using osa_row_filled [of ra rb k ?d "length rb"] Suc.prems by simp
  then show ?case by simp
qed

lemma row0: "k \<le> length row \<Longrightarrow> fold (\<lambda>j row. row[j := j]) [0..<k] row = [0..<k] @ drop k row"
  by (induction k) (auto simp: list_update_append Cons_nth_drop_Suc [symmetric])

lemma osa_table_osa: "osa_table ra rb = osa (rev ra) (rev rb)"
proof (cases "ra = [] \<or> rb = []")
  case False
  define d where "d = map (\<lambda>i. (replicate (length rb + 1) 0)[0 := i]) [0..<length ra + 1]"
  let ?d = "d[0 := fold (\<lambda>j row. row[j := j]) [0..<length rb + 1] (d ! 0)]"
  have d: "length d = Suc (length ra)" "\<And>r. r \<le> length ra \<Longrightarrow> d ! r = (replicate (length rb + 1) 0)[0 := r]"
    by (auto simp: d_def simp del: upt_Suc replicate_Suc)
  have "fold (\<lambda>j row. row[j := j]) [0..<length rb + 1] (d ! 0) = [0..<length rb + 1]"
    using row0 [of "length rb + 1" "d ! 0"] d(2) [of 0] by (simp del: upt_Suc)
  then have "osa_filled ra rb 0 (length rb) ?d"
    using d by (auto simp: osa_filled_def nth_list_update simp del: osa.simps(2,3) upt_Suc)
  note osa_filledD(3) [OF osa_rows_filled [OF this order.refl], of "length ra" "length rb"]
  then show ?thesis using False unfolding osa_table_def Let_def d_def [symmetric] by simp
qed (auto simp: osa_table_def)

subsection \<open>Edits\<close>

lemma one_edit_Cons: "one_edit xs ys \<Longrightarrow> one_edit (x # xs) (x # ys)"
proof (induction rule: one_edit.induct)
  case (ins us vs y) show ?case using one_edit.ins [of "x # us" vs y] by simp
next
  case (del us y vs) show ?case using one_edit.del [of "x # us" y vs] by simp
next
  case (sub us y vs z) show ?case using one_edit.sub [of "x # us" y vs z] by simp
qed

lemma one_edit_rev: "one_edit xs ys \<Longrightarrow> one_edit (rev xs) (rev ys)"
proof (induction rule: one_edit.induct)
  case (ins us vs x) show ?case using one_edit.ins [of "rev vs" "rev us" x] by simp
next
  case (del us x vs) show ?case using one_edit.del [of "rev vs" x "rev us"] by simp
next
  case (sub us x vs y) show ?case using one_edit.sub [of "rev vs" x "rev us" y] by simp
qed

lemma one_edit_sym: "one_edit xs ys \<Longrightarrow> one_edit ys xs"
  by (erule one_edit.cases) (auto intro: one_edit.intros)

lemma edits_map:
  assumes "(one_edit ^^ n) xs ys" "\<And>xs ys. one_edit xs ys \<Longrightarrow> one_edit (f xs) (f ys)"
  shows "(one_edit ^^ n) (f xs) (f ys)"
  using assms(1) by (induction n arbitrary: ys) (auto intro: assms(2))

lemma edits_sym: "(one_edit ^^ n) xs ys \<Longrightarrow> (one_edit ^^ n) ys xs"
proof (induction n arbitrary: ys)
  case (Suc n)
  then obtain zs where "(one_edit ^^ n) zs xs" "one_edit ys zs" using one_edit_sym by auto
  then show ?case by (metis relpowp_Suc_I2)
qed auto

text \<open>The reference is reached.\<close>

lemma edits_insert_all: "(one_edit ^^ length ys) [] ys"
proof (induction ys)
  case (Cons y ys)
  have "one_edit ys (y # ys)" using one_edit.ins [of "[]" ys y] by simp
  then show ?case using Cons by auto
qed simp

lemma ed_edits: "(one_edit ^^ ed xs ys) xs ys"
proof (induction xs ys rule: ed.induct)
  case (1 ys) then show ?case by (simp add: edits_insert_all)
next
  case (2 x xs)
  then show ?case using edits_sym [OF edits_insert_all [of "x # xs"]] by simp
next
  case (3 x xs y ys)
  have del: "(one_edit ^^ (ed xs (y # ys) + 1)) (x # xs) (y # ys)"
    using 3(1) one_edit.del [of "[]" x xs] by (metis Suc_eq_plus1 append_Nil relpowp_Suc_I2)
  have ins: "(one_edit ^^ (ed (x # xs) ys + 1)) (x # xs) (y # ys)"
    using 3(2) one_edit.ins [of "[]" ys y] by (metis Suc_eq_plus1 append_Nil relpowp_Suc_I)
  have cp: "(one_edit ^^ ed xs ys) (x # xs) (x # ys)" by (rule edits_map [OF 3(3) one_edit_Cons])
  have sub: "(one_edit ^^ (ed xs ys + (if x = y then 0 else 1))) (x # xs) (y # ys)"
    using cp one_edit.sub [of "[]" x ys y] by (auto simp: relpowp_Suc_I)
  show ?case using del ins sub by (auto simp: min_def)
qed

text \<open>No edit lowers the reference by more than one.\<close>

lemma ed_Cons_bounds: "ed (x # xs) ys \<le> ed xs ys + 1 \<and> ed xs ys \<le> ed (x # xs) ys + 1"
proof (induction ys arbitrary: x xs)
  case (Cons y ys)
  show ?case
  proof (cases xs)
    case Nil
    have "ed [x] ys \<le> length ys + 1" "length ys \<le> ed [x] ys + 1" using Cons [of x "[]"] by auto
    then show ?thesis using Nil by simp
  next
    case (Cons z zs)
    note b = \<open>\<And>x xs. ed (x # xs) ys \<le> ed xs ys + 1 \<and> ed xs ys \<le> ed (x # xs) ys + 1\<close>
    have "ed xs (y # ys) \<le> ed xs ys + 1" using Cons by simp
    then show ?thesis using b [of x xs] by (auto simp: min_def)
  qed
qed simp

lemma ed_head_bound: "ed (x # xs) ys \<le> ed (x' # xs) ys + 1"
proof (induction ys)
  case Nil then show ?case by simp
next
  case (Cons y ys)
  then show ?case by (auto simp: min_le_iff_disj)
qed

lemma ed_tail_bound:
  assumes "\<And>ys. ed xs ys \<le> ed xs' ys + 1"
  shows "ed (x # xs) ys \<le> ed (x # xs') ys + 1"
proof (induction ys)
  case Nil then show ?case using assms [of "[]"] by simp
next
  case (Cons y ys)
  then show ?case using assms [of ys] assms [of "y # ys"] by (auto simp: min_le_iff_disj)
qed

lemma ed_context:
  assumes "\<And>ys. ed xs ys \<le> ed xs' ys + 1"
  shows "ed (us @ xs) ys \<le> ed (us @ xs') ys + 1"
proof (induction us arbitrary: ys)
  case (Cons a us) show ?case unfolding append_Cons by (rule ed_tail_bound) (rule Cons)
qed (use assms in simp)

lemma ed_one_edit: "one_edit xs xs' \<Longrightarrow> ed xs ys \<le> ed xs' ys + 1"
proof (induction arbitrary: ys rule: one_edit.induct)
  case (ins us vs x) show ?case by (rule ed_context) (use ed_Cons_bounds [of x vs] in simp)
next
  case (del us x vs) show ?case by (rule ed_context) (use ed_Cons_bounds [of x vs] in simp)
next
  case (sub us x vs y) show ?case by (rule ed_context) (rule ed_head_bound)
qed

lemma ed_refl: "ed xs xs = 0"
  by (induction xs) auto

lemma ed_least: "(one_edit ^^ n) xs ys \<Longrightarrow> ed xs ys \<le> n"
proof (induction n arbitrary: xs)
  case 0 then show ?case by (simp add: ed_refl)
next
  case (Suc n)
  then obtain zs where "one_edit xs zs" "(one_edit ^^ n) zs ys" by (metis relpowp_Suc_D2)
  then show ?case using Suc.IH [of zs] ed_one_edit [of xs zs ys] by simp
qed

lemma lev_rows_edits: "(one_edit ^^ lev_rows ra rb) ra rb"
  using edits_map [where f = rev, OF ed_edits one_edit_rev, of "rev ra" "rev rb"] by (simp add: lev_rows_ed)

lemma lev_rows_least: "(one_edit ^^ n) ra rb \<Longrightarrow> lev_rows ra rb \<le> n"
  unfolding lev_rows_ed by (rule ed_least) (rule edits_map [where f = rev, OF _ one_edit_rev])

subsection \<open>Alignments\<close>

lemma osa_align_app: "osa_align n xs ys \<Longrightarrow> osa_align m us vs \<Longrightarrow> osa_align (n + m) (xs @ us) (ys @ vs)"
  by (induction rule: osa_align.induct) (auto intro: osa_align.intros)

lemma osa_align_rev: "osa_align n xs ys \<Longrightarrow> osa_align n (rev xs) (rev ys)"
proof (induction rule: osa_align.induct)
  case (Same n xs ys x)
  then show ?case using osa_align_app [OF _ osa_align.Same [OF osa_align.Nil, of x]] by fastforce
next
  case (Sub n xs ys x y)
  then show ?case using osa_align_app [OF _ osa_align.Sub [OF osa_align.Nil, of x y]] by fastforce
next
  case (Del n xs ys x)
  then show ?case using osa_align_app [OF _ osa_align.Del [OF osa_align.Nil, of x]] by fastforce
next
  case (Ins n xs ys y)
  then show ?case using osa_align_app [OF _ osa_align.Ins [OF osa_align.Nil, of y]] by fastforce
next
  case (Swap n xs ys x y)
  then show ?case using osa_align_app [OF _ osa_align.Swap [OF osa_align.Nil, of y x]] by fastforce
qed (simp add: osa_align.Nil)

lemma osa_align_ends: "osa_align (length ys) [] ys" "osa_align (length ys) ys []"
  by (induction ys) (auto intro: osa_align.intros)

lemma osa_align_min: "osa_align a xs ys \<Longrightarrow> osa_align b xs ys \<Longrightarrow> osa_align (min a b) xs ys"
  by (simp add: min_def)

lemma osa_aligned: "osa_align (osa xs ys) xs ys"
proof (induction xs ys rule: osa.induct)
  case (1 ys) then show ?case by (simp add: osa_align_ends)
next
  case (2 x xs) then show ?case using osa_align_ends(2) [of "x # xs"] by simp
next
  case (3 x xs y ys)
  have sw: "osa_align (osa (tl xs) (tl ys) + 1) (x # xs) (y # ys)"
    if "xs \<noteq> [] \<and> ys \<noteq> [] \<and> x = hd ys \<and> hd xs = y"
    using osa_align.Swap [of "osa (tl xs) (tl ys)" "tl xs" "tl ys" x y] 3(4) [OF refl that] that by (cases xs; cases ys) auto
  have d: "osa_align (osa xs (y # ys) + 1) (x # xs) (y # ys)" "osa_align (osa (x # xs) ys + 1) (x # xs) (y # ys)"
      "osa_align (osa xs ys + (if x = y then 0 else 1)) (x # xs) (y # ys)"
    using 3(1-3) by (auto intro: osa_align.intros)
  show ?case
  proof (cases "xs \<noteq> [] \<and> ys \<noteq> [] \<and> x = hd ys \<and> hd xs = y")
    case True
    show ?thesis unfolding osa.simps(3) Let_def if_P [OF True] by (intro osa_align_min d sw [OF True])
  next
    case False
    show ?thesis unfolding osa.simps(3) Let_def if_not_P [OF False] by (intro osa_align_min d)
  qed
qed

lemma osa_Cons_le: "osa (x # xs) ys \<le> osa xs ys + 1" "osa xs (y # ys) \<le> osa xs ys + 1"
proof -
  show "osa (x # xs) ys \<le> osa xs ys + 1" by (cases ys) (simp_all add: Let_def min_le_iff_disj)
  show "osa xs (y # ys) \<le> osa xs ys + 1" by (cases xs) (simp_all add: Let_def min_le_iff_disj)
qed

lemma osa_Swap_le: "osa (x # y # xs) (y # x # ys) \<le> osa xs ys + 1"
  unfolding osa.simps(3) [of x "y # xs" y "x # ys"] Let_def by (simp del: osa.simps)

lemma osa_least: "osa_align n xs ys \<Longrightarrow> osa xs ys \<le> n"
proof (induction rule: osa_align.induct)
  case (Same n xs ys x) then show ?case by (simp add: Let_def min_le_iff_disj)
next
  case (Sub n xs ys x y) then show ?case by (simp add: Let_def min_le_iff_disj)
next
  case (Del n xs ys x) then show ?case using osa_Cons_le(1) [of x xs ys] by linarith
next
  case (Ins n xs ys y) then show ?case using osa_Cons_le(2) [of xs y ys] by linarith
next
  case (Swap n xs ys x y) then show ?case using osa_Swap_le [of x y xs ys] by linarith
qed simp

lemma osa_table_align: "osa_align (osa_table ra rb) ra rb"
  using osa_align_rev [OF osa_aligned [of "rev ra" "rev rb"]] by (simp add: osa_table_osa)

lemma osa_table_least: "osa_align n ra rb \<Longrightarrow> osa_table ra rb \<le> n"
  unfolding osa_table_osa by (rule osa_least) (rule osa_align_rev)

text \<open>An alignment without exchanges is what the plain distance minimises over.\<close>

lemma osa_le_ed: "osa xs ys \<le> ed xs ys"
proof (induction xs ys rule: ed.induct)
  case (3 x xs y ys)
  then show ?case by (auto simp: Let_def min_le_iff_disj)
qed auto

section \<open>Shape of the phonetic codes\<close>

definition upper :: "byte \<Rightarrow> bool" where
  "upper c \<longleftrightarrow> 65 \<le> c \<and> c \<le> 90"

lemma soundexDigit_range: "soundexDigit c \<in> {48, 49, 50, 51, 52, 53, 54}"
  by (simp add: soundexDigit_def)

lemma soundex_loop_shape:
  assumes "length code \<le> 4"
  shows "\<exists>ds. soundex_loop ls code lst = code @ ds \<and> length (code @ ds) \<le> 4 \<and> set ds \<subseteq> {49, 50, 51, 52, 53, 54}"
  using assms
proof (induction ls code lst rule: soundex_loop.induct)
  case (2 c ls code lst)
  let ?d = "soundexDigit c"
  show ?case
  proof (cases "4 \<le> length code \<or> c \<in> set (ascii ''HW'') \<or> c \<in> set (ascii ''AEIOUY'')")
    case True
    then show ?thesis using 2 by (cases "4 \<le> length code"; cases "c \<in> set (ascii ''HW'')") auto
  next
    case False
    show ?thesis
    proof (cases "?d \<noteq> 48 \<and> ?d \<noteq> lst")
      case True
      obtain ds where "soundex_loop ls (code @ [?d]) ?d = (code @ [?d]) @ ds" "length ((code @ [?d]) @ ds) \<le> 4"
          "set ds \<subseteq> {49, 50, 51, 52, 53, 54}"
        using 2(3) [of ?d] False True by auto
      then show ?thesis using False True soundexDigit_range [of c] by (intro exI [of _ "?d # ds"]) (auto simp: Let_def)
    next
      case d: False
      then show ?thesis using 2(4) [of ?d] 2(5) False by (auto simp: Let_def)
    qed
  qed
qed auto

lemma soundex_letters_upper: "\<forall>c\<in>set (soundex_letters s). upper c"
  by (induction s) (auto simp: Let_def upper_def)

text \<open>The characters left after one replacement.\<close>

lemma set_replaceAll: "set (replaceAll p q w) \<subseteq> set w \<union> set q"
proof (induction p q w rule: replaceAll.induct)
  case (1 old new s)
  then show ?case using set_drop_subset [of "length old" s] 
    by (subst replaceAll.simps) (auto dest: list.set_sel(2) split: if_splits)
qed

lemma set_replaceAll_single: "set (replaceAll [c] q w) \<subseteq> (set w - {c}) \<union> set q"
  by (induction w) (auto simp: replaceAll.simps [of "[c]" q "[]"] replaceAll.simps [of "[c]" q "_ # _"])

definition over :: "string \<Rightarrow> bytes \<Rightarrow> bool" where
  "over A w \<longleftrightarrow> set w \<subseteq> set (ascii A)"

text \<open>An alphabet after replacing \<open>p\<close> by \<open>q\<close>: a single character disappears.\<close>

definition sub_alpha :: "string \<Rightarrow> string \<Rightarrow> string \<Rightarrow> string" where
  "sub_alpha p q A = (case p of [c] \<Rightarrow> filter (\<lambda>x. x \<noteq> c) A | _ \<Rightarrow> A) @ q"

lemma ascii_eq_iff: "(of_nat (of_char c) :: byte) = of_nat (of_char d) \<longleftrightarrow> c = d"
proof
  assume "(of_nat (of_char c) :: byte) = of_nat (of_char d)"
  moreover have "unat (of_nat (of_char x) :: byte) = (of_char x :: nat)" for x
    by (simp add: unat_of_nat take_bit_eq_mod)
  ultimately show "c = d" by (metis char_of_char)
qed simp

lemma ascii_mem: "of_nat (of_char c) \<in> set (ascii s) \<longleftrightarrow> c \<in> set s"
  by (auto simp: ascii_def ascii_eq_iff)

lemma over_subst: "over A w \<Longrightarrow> over (sub_alpha p q A) (subst_all p q w)"
proof -
  assume A: "over A w"
  consider c where "p = [c]" | "sub_alpha p q A = A @ q" by (cases p; cases "tl p") (auto simp: sub_alpha_def)
  then show ?thesis
  proof cases
    case 1
    then show ?thesis using A set_replaceAll_single [of "of_nat (of_char c)" "ascii q" w]
      by (fastforce simp: over_def subst_all_def sub_alpha_def ascii_def ascii_eq_iff)
  next
    case 2
    then show ?thesis using A set_replaceAll [of "ascii p" "ascii q" w] by (auto simp: over_def subst_all_def ascii_def)
  qed
qed

lemma over_mono: "over A w \<Longrightarrow> set A \<subseteq> set B \<Longrightarrow> over B w"
  by (auto simp: over_def ascii_def)

lemma over_splice: "over A w \<Longrightarrow> over (A @ q) (ascii q @ drop n w)" "over A w \<Longrightarrow> over (A @ q) (take n w @ ascii q)"
  by (auto simp: over_def ascii_def dest: in_set_dropD in_set_takeD)

lemma over_cases: "over A x \<Longrightarrow> over A y \<Longrightarrow> over A (if b then x else y)"
  by simp

lemma over_prefix: "over A w \<Longrightarrow> over (A @ concat (map snd ps)) (cav_prefix ps w)"
proof (induction ps)
  case (Cons p ps)
  show ?case
  proof (cases "HasPrefix w (ascii (fst p))")
    case True
    then show ?thesis using over_mono [OF over_splice(1) [OF Cons.prems, of "snd p" "length (fst p)"], of "A @ snd p @ concat (map snd ps)"] by (cases p) auto
  next
    case False
    then show ?thesis using over_mono [OF Cons.IH [OF Cons.prems], of "A @ snd p @ concat (map snd ps)"] by (cases p) auto
  qed
qed simp

lemma set_collapse: "set (collapse x y w) \<subseteq> (set w - {x}) \<union> {y}"
  by (induction x y w rule: collapse.induct) auto

lemma over_collapse: "over A w \<Longrightarrow> over (sub_alpha [a] [b] A) (collapse (of_nat (of_char a)) (of_nat (of_char b)) w)"
  using set_collapse [of "of_nat (of_char a)" "of_nat (of_char b)" w]
  by (fastforce simp: over_def sub_alpha_def ascii_def ascii_eq_iff)

lemma over_table: "over A w \<Longrightarrow> over (foldl (\<lambda>A (p, q). sub_alpha p q A) A ps) (foldl (\<lambda>w (p, q). subst_all p q w) w ps)"
  by (induction ps arbitrary: A w) (auto intro: over_subst)

lemma over_runs: "over A w \<Longrightarrow> over (foldl (\<lambda>A (x, y). sub_alpha [x] [y] A) A ps)
    (foldl (\<lambda>w (x, y). collapse (of_nat (of_char x)) (of_nat (of_char y)) w) w ps)"
  by (induction ps arbitrary: A w) (auto intro: over_collapse)

lemma over_vowels: "over A w \<Longrightarrow> over (''A'' @ A) (replaceInitialVowel w)"
    "over A w \<Longrightarrow> over (filter (\<lambda>c. c \<notin> set ''aeiou'') A @ ''3'') (replaceVowels w)"
proof -
  show "over A w \<Longrightarrow> over (''A'' @ A) (replaceInitialVowel w)"
    by (auto simp: over_def replaceInitialVowel_def ascii_def split: list.splits)
  assume A: "over A w"
  show "over (filter (\<lambda>c. c \<notin> set ''aeiou'') A @ ''3'') (replaceVowels w)"
    unfolding over_def
  proof
    fix x assume "x \<in> set (replaceVowels w)"
    then obtain c where c: "c \<in> set w" "x = (if c \<in> set (ascii ''aeiou'') then 51 else c)" by (auto simp: replaceVowels_def)
    then obtain a where a: "a \<in> set A" "c = of_nat (of_char a)" using A by (auto simp: over_def ascii_def)
    then show "x \<in> set (ascii (filter (\<lambda>c. c \<notin> set ''aeiou'') A @ ''3''))"
      using c(2) ascii_mem [of a "''aeiou''"] ascii_mem [of a "filter (\<lambda>c. c \<notin> set ''aeiou'') A @ ''3''"]
      by (cases "a \<in> set ''aeiou''") (simp_all add: ascii_def)
  qed
qed

lemma over_letters: "over ''abcdefghijklmnopqrstuvwxyz'' (cav_letters s)"
proof -
  have "set (lower_letter r) \<subseteq> set (ascii ''abcdefghijklmnopqrstuvwxyz'')" for r
  proof -
    have A: "set (ascii ''abcdefghijklmnopqrstuvwxyz'') = set (map of_nat [97..<123])" by (simp add: ascii_def upt_rec)
    have k: "of_nat k \<in> (set (map of_nat [97..<123]) :: byte set)" if "97 \<le> k" "k \<le> 122" for k
      unfolding set_map using that by (intro imageI) (simp only: set_upt atLeastLessThan_iff, simp)
    show ?thesis unfolding A using k [of 105] k [of 107] k [of "r + 32"] k [of r] by (auto simp: lower_letter_def simp del: set_map)
  qed
  then show ?thesis by (auto simp: over_def cav_letters_def)
qed

lemma over_trim: "over A w \<Longrightarrow> over (A @ q) (trimSuffixReplace w p q)"
  by (auto simp: trimSuffixReplace_def over_splice intro: over_mono)

lemma over_alt: "over (A @ q) x \<Longrightarrow> over A w \<Longrightarrow> over (A @ q) (if b then x else w)"
  by (auto intro: over_mono)

lemma caverphone_clip: "\<exists>w. caverphone s = take 10 (w @ ascii ''1111111111'')"
proof (cases "cav_letters s = []")
  case True
  then show ?thesis by (intro exI [of _ "[]"]) (simp add: caverphone_def ascii_def)
next
  case False
  then show ?thesis unfolding caverphone_def Let_def if_not_P [OF False] by blast
qed

lemma caverphone_alphabet: "over ''AFKLMNPRSTWY1'' (caverphone s)"
proof (cases "cav_letters s = []")
  case False
  define w1 where "w1 = cav_prefix cav_start (cav_letters s)"
  define w2 where "w2 = (if HasPrefix w1 (ascii ''gn'') then ascii ''2n'' @ drop 2 w1 else w1)"
  define w3 where "w3 = (if HasSuffix w2 (ascii ''mb'') then take (length w2 - 2) w2 @ ascii ''m2'' else w2)"
  define w4 where "w4 = foldl (\<lambda>w (p, q). subst_all p q w) w3 cav_table"
  define w5 where "w5 = replaceVowels (replaceInitialVowel w4)"
  define w7 where "w7 = subst_all ''g'' ''k'' (subst_all ''gh'' ''22'' (subst_all ''3gh3'' ''3kh3'' (cav_j w5)))"
  define w8 where "w8 = cav_whrl (cav_runs w7)"
  define w9 where "w9 = subst_all ''2'' '''' w8"
  define w10 where "w10 = subst_all ''3'' '''' (if HasSuffix w9 (ascii ''3'') then take (length w9 - 1) w9 @ ascii ''A'' else w9)"
  note alt = over_alt [OF over_splice(1)] over_alt [OF over_splice(2)]
  have "over ''abcdefghijklmnopqrstuvwxyz2'' w1" unfolding w1_def by (rule over_mono [OF over_prefix [OF over_letters]]) code_simp
  then have w3: "over ((''abcdefghijklmnopqrstuvwxyz2'' @ ''2n'') @ ''m2'') w3" unfolding w3_def w2_def by (intro alt)
  have "over ''aefghijklmnoprstuwy2'' w4" unfolding w4_def by (rule over_mono [OF over_table [OF w3]]) code_simp
  from over_vowels(2) [OF over_vowels(1) [OF this]] have w5: "over ''Afghjklmnprstwy23'' w5" unfolding w5_def by (rule over_mono) code_simp
  from over_subst [OF this] have j: "over ''Afghklmnprstwy23'' (subst_all ''j'' ''y'' w5)" by (rule over_mono) code_simp
  have "over ''AfghklmnprstwyY23'' (if HasPrefix (subst_all ''j'' ''y'' w5) (ascii ''y3'') then ascii ''Y3'' @ drop 2 (subst_all ''j'' ''y'' w5)
      else if HasPrefix (subst_all ''j'' ''y'' w5) (ascii ''y'') then ascii ''A'' @ drop 1 (subst_all ''j'' ''y'' w5) else subst_all ''j'' ''y'' w5)"
    by (intro over_cases; (rule over_mono [OF over_splice(1) [OF j]] | rule over_mono [OF j]); code_simp)
  then have "over ''AfghklmnprstwY23'' (cav_j w5)" unfolding cav_j_def Let_def by (rule over_mono [OF over_subst]) code_simp
  from over_subst [OF over_subst [OF over_subst [OF this]]] have w7: "over ''AfhklmnprstwY23'' w7" unfolding w7_def by (rule over_mono) code_simp
  have r: "over ''AFhKlMNPrSTwY23'' (cav_runs w7)" unfolding cav_runs_def by (rule over_mono [OF over_runs [OF w7]]) code_simp
  have w8: "over ''AFKLMNPRSTWY23'' w8"
    unfolding w8_def cav_whrl_def Let_def
    by (rule over_mono, (rule over_subst over_trim over_alt over_splice r)+) code_simp
  from over_subst [OF this] have w9: "over ''AFKLMNPRSTWY3'' w9" unfolding w9_def by (rule over_mono) code_simp
  have "over ''AFKLMNPRSTWY'' w10" unfolding w10_def by (rule over_mono [OF over_subst [OF alt(2) [OF w9 w9]]]) code_simp
  moreover have "caverphone s = take 10 (w10 @ ascii ''1111111111'')"
    using False unfolding caverphone_def Let_def w1_def w2_def w3_def w4_def w5_def w7_def w8_def w9_def w10_def by simp
  ultimately show ?thesis by (auto simp: over_def ascii_def dest!: in_set_takeD)
qed (simp add: caverphone_def over_def ascii_def)

section \<open>Properties\<close>

text \<open>C28: \<^verbatim>\<open>levenshtein\<close> computes the edit distance: its result is the least number of single-rune insertions, deletions
  and replacements that turn the first string into the second, although it keeps only two rows of the table.
  It is therefore a metric on rune sequences.\<close>

theorem levenshtein_is_edit_distance:
  "(one_edit ^^ levenshtein a b) (runes a) (runes b) \<and>
   (\<forall>n. (one_edit ^^ n) (runes a) (runes b) \<longrightarrow> levenshtein a b \<le> n) \<and>
   (levenshtein a b = 0 \<longleftrightarrow> runes a = runes b) \<and> levenshtein a b = levenshtein b a \<and>
   levenshtein a c \<le> levenshtein a b + levenshtein b c"
proof (intro conjI allI impI)
  note e = lev_rows_edits [of "runes _" "runes _", folded levenshtein_def]
    and l = lev_rows_least [of _ "runes _" "runes _", folded levenshtein_def]
  show "(one_edit ^^ levenshtein a b) (runes a) (runes b)" by (rule e)
  show "levenshtein a b \<le> n" if "(one_edit ^^ n) (runes a) (runes b)" for n using l that .
  show "levenshtein a b = 0 \<longleftrightarrow> runes a = runes b" using e [of a b] l [of 0 a b] by auto
  show "levenshtein a b = levenshtein b a" using edits_sym [OF e] l by (meson antisym)
  have "(one_edit ^^ (levenshtein a b + levenshtein b c)) (runes a) (runes c)"
    using e [of a b] e [of b c] by (auto simp: relpowp_add)
  then show "levenshtein a c \<le> levenshtein a b + levenshtein b c" by (rule l)
qed

theorem levenshtein_is_edit_distance_witness:
  "levenshtein (ascii ''abc'') (ascii ''xab'') \<le> 2"
proof -
  have r: "runes (ascii ''abc'') = [97, 98, 99]" "runes (ascii ''xab'') = [120, 97, 98]" by (subst runes_ascii; simp add: ascii_def)+
  have "one_edit [97, 98, 99] [97, 98 :: nat]" "one_edit [97, 98] [120, 97, 98 :: nat]"
    using one_edit.del [of "[97, 98]" 99 "[]"] one_edit.ins [of "[]" "[97, 98]" "120 :: nat"] by simp_all
  then have "(one_edit ^^ 2) (runes (ascii ''abc'')) (runes (ascii ''xab''))" unfolding r by (auto simp: numeral_2_eq_2)
  then show ?thesis using levenshtein_is_edit_distance by blast
qed

text \<open>\<^verbatim>\<open>damerauLevenshtein\<close> is the cost of the cheapest alignment of the two strings in which neighbouring runes may
  be exchanged at cost one, and it never exceeds the plain edit distance.\<close>

theorem damerau_is_optimal_alignment:
  "osa_align (damerauLevenshtein a b) (runes a) (runes b) \<and>
   (\<forall>n. osa_align n (runes a) (runes b) \<longrightarrow> damerauLevenshtein a b \<le> n) \<and>
   damerauLevenshtein a b \<le> levenshtein a b"
  using osa_table_align [of "runes a" "runes b"] osa_table_least [of _ "runes a" "runes b"] osa_le_ed [of "rev (runes a)" "rev (runes b)"]
  by (simp add: damerauLevenshtein_def levenshtein_def lev_rows_ed osa_table_osa)

theorem damerau_is_optimal_alignment_witness:
  "damerauLevenshtein (ascii ''ca'') (ascii ''ac'') \<le> 1"
proof -
  have "runes (ascii ''ca'') = [99, 97]" "runes (ascii ''ac'') = [97, 99]" by (subst runes_ascii; simp add: ascii_def)+
  moreover have "osa_align 1 [99, 97] [97, 99 :: nat]" using osa_align.Swap [OF osa_align.Nil] by simp
  ultimately show ?thesis using damerau_is_optimal_alignment [of "ascii ''ca''" "ascii ''ac''"] by simp
qed

text \<open>The phonetic codes have the shape SQL users index by: \<^verbatim>\<open>soundex\<close> is empty exactly when the argument has no
  ASCII letter, and otherwise one capital and three digits up to 6; \<^verbatim>\<open>caverphone\<close> is always ten characters, each a
  capital of its reduced alphabet or the padding digit 1.\<close>

theorem phonetic_code_shape:
  "(soundex s = [] \<longleftrightarrow> soundex_letters s = []) \<and>
   (soundex_letters s \<noteq> [] \<longrightarrow> length (soundex s) = 4 \<and> hd (soundex s) = hd (soundex_letters s) \<and> upper (hd (soundex s)) \<and>
      set (tl (soundex s)) \<subseteq> {48, 49, 50, 51, 52, 53, 54}) \<and>
   length (caverphone s) = 10 \<and> set (caverphone s) \<subseteq> set (ascii ''AFKLMNPRSTWY1'')"
proof -
  have "length (soundex s) = 4 \<and> hd (soundex s) = l \<and> set (tl (soundex s)) \<subseteq> {48, 49, 50, 51, 52, 53, 54}"
    if "soundex_letters s = l # ls" for l ls
  proof -
    obtain ds where ds: "soundex_loop ls [l] (soundexDigit l) = [l] @ ds" "length ([l] @ ds) \<le> 4" "set ds \<subseteq> {49, 50, 51, 52, 53, 54}"
      using soundex_loop_shape [of "[l]" ls "soundexDigit l"] by auto
    then have "soundex s = l # ds @ replicate (3 - length ds) 48" using that by (simp add: soundex_def)
    then show ?thesis using ds(2,3) by auto
  qed
  moreover have "soundex s = []" if "soundex_letters s = []" using that by (simp add: soundex_def)
  moreover have "upper (hd (soundex_letters s))" if "soundex_letters s \<noteq> []" using that soundex_letters_upper [of s] by simp
  moreover have "length (caverphone s) = 10" using caverphone_clip [of s] by (auto simp: ascii_def)
  ultimately show ?thesis using caverphone_alphabet [of s] by (cases "soundex_letters s") (auto simp: over_def)
qed

theorem phonetic_code_shape_witness: "length (soundex (ascii ''Robert'')) = 4"
  using phonetic_code_shape [of "ascii ''Robert''"] by (simp add: ascii_def)

end
