(* ===== verification/Zorder.thy ===== *)
theory Zorder
  imports Prelude
begin

text \<open>
  \<^verbatim>\<open>ext/zorder\<close>: Morton codes. An \<^verbatim>\<open>int64\<close> is a 64-bit word read with its sign, \<^verbatim>\<open>>>\<close> on it is the arithmetic shift.
  The variadic arguments of \<^verbatim>\<open>encode\<close> are a list; the count and the index of \<^verbatim>\<open>decode\<close> are integers.
\<close>

unbundle bit_operations_syntax

type_synonym int64 = "64 word"

datatype zerror = ZArity | ZOverflow nat | ZIndex | ZNegative

section \<open>Operations\<close>

definition zorder_step :: "nat \<Rightarrow> nat \<Rightarrow> int64 \<times> int64 list \<Rightarrow> int64 \<times> int64 list" where
  "zorder_step n i = (\<lambda>(z, x). let j = i mod n
     in (z OR push_bit i (x ! j AND 1), x[j := signed_drop_bit 1 (x ! j)]))"

definition zorder_encode :: "int64 list \<Rightarrow> zerror + int64" where
  "zorder_encode args = (let n = length args in
     if n < 2 \<or> 24 < n then Inl ZArity
     else case fold (zorder_step n) [0..<63] (0, args) of (z, x) \<Rightarrow>
       (case List.find (\<lambda>i. x ! i \<noteq> 0) [0..<n] of Some i \<Rightarrow> Inl (ZOverflow i) | None \<Rightarrow> Inr z))"

function unzorder_loop :: "int64 \<Rightarrow> nat \<Rightarrow> nat \<Rightarrow> nat \<Rightarrow> int64 \<Rightarrow> int64" where
  "unzorder_loop z n j k x =
     (if j < 63 \<and> 0 < n then unzorder_loop z n (j + n) (k + 1) (x OR push_bit k (signed_drop_bit j z AND 1)) else x)"
  by pat_completeness auto
termination
  by (relation "measure (\<lambda>(z, n, j, k, x). 63 - j)") auto

declare unzorder_loop.simps [simp del]

definition zorder_decode :: "int64 \<Rightarrow> int \<Rightarrow> int \<Rightarrow> zerror + int64" where
  "zorder_decode z n i =
     (if n < 2 \<or> 24 < n then Inl ZArity
      else if i < 0 \<or> n \<le> i then Inl ZIndex
      else if sint z < 0 then Inl ZNegative
      else Inr (unzorder_loop z (nat n) (nat i) 0 0))"

section \<open>Bits of a code\<close>

text \<open>How many of the first \<open>k\<close> bits of a code belong to dimension \<open>j\<close>.\<close>

definition share :: "nat \<Rightarrow> nat \<Rightarrow> nat \<Rightarrow> nat" where
  "share n k j = (k + (n - 1 - j)) div n"

lemma share_Suc: "j < n \<Longrightarrow> share n (Suc k) j = share n k j + (if k mod n = j then 1 else 0)"
proof -
  assume j: "j < n"
  have "n dvd Suc (k + (n - 1 - j)) \<longleftrightarrow> k mod n = j"
  proof
    assume "n dvd Suc (k + (n - 1 - j))"
    then obtain q where "Suc (k + (n - 1 - j)) = n * q" by blast
    then have "k + n = n * q + j" using j by simp
    then have "(k + n) mod n = (n * q + j) mod n" by (rule arg_cong)
    then show "k mod n = j" using j by simp
  next
    assume "k mod n = j"
    then have "Suc (k + (n - 1 - j)) = n * (k div n) + n" using j div_mult_mod_eq [of k n] by (simp add: mult.commute)
    then show "n dvd Suc (k + (n - 1 - j))" by simp
  qed
  then show ?thesis using j by (simp add: share_def div_Suc dvd_eq_mod_eq_0)
qed

lemma share_own: "0 < n \<Longrightarrow> share n k (k mod n) = k div n"
proof -
  assume n: "0 < n"
  have e: "k + (n - 1 - k mod n) = (n - 1) + n * (k div n)"
    using n mult_div_mod_eq [of n k] mod_less_divisor [OF n, of k] by linarith
  show ?thesis unfolding share_def e using n by (subst div_mult_self2) simp_all
qed

text \<open>Writing one bit, the step both loops make.\<close>

lemma set_low_bit: "bit (z OR push_bit k (w AND 1)) b \<longleftrightarrow> bit z b \<or> b = k \<and> k < 64 \<and> bit w 0" for z w :: int64
  unfolding bit_or_iff bit_push_bit_iff bit_and_iff bit_1_iff using bit_imp_le_length [of w 0] by auto

lemma signed_drop_bit_step: "signed_drop_bit 1 (signed_drop_bit m (w :: int64)) = signed_drop_bit (m + 1) w"
  by (rule bit_word_eqI) (auto simp: bit_signed_drop_bit_iff)

lemma encode_steps:
  assumes "0 < length args" "k \<le> 63"
  shows "\<exists>z x. fold (zorder_step (length args)) [0..<k] (0, args) = (z, x) \<and>
    (\<forall>b. bit z b \<longleftrightarrow> b < k \<and> bit (args ! (b mod length args)) (b div length args)) \<and>
    x = map (\<lambda>j. signed_drop_bit (share (length args) k j) (args ! j)) [0..<length args]"
  using assms(2)
proof (induction k)
  case 0
  have "share (length args) 0 j = 0" if "j < length args" for j using that by (simp add: share_def)
  moreover have "map (\<lambda>j. signed_drop_bit 0 (args ! j)) [0..<length args] = args" by (simp add: map_nth)
  ultimately show ?case by (auto intro!: nth_equalityI)
next
  case (Suc k)
  let ?n = "length args"
  obtain z x where ih: "fold (zorder_step ?n) [0..<k] (0, args) = (z, x)"
    "\<And>b. bit z b \<longleftrightarrow> b < k \<and> bit (args ! (b mod ?n)) (b div ?n)"
    "x = map (\<lambda>j. signed_drop_bit (share ?n k j) (args ! j)) [0..<?n]" using Suc by auto
  let ?j = "k mod ?n"
  have j: "?j < ?n" using assms(1) by simp
  have xj: "x ! ?j = signed_drop_bit (k div ?n) (args ! ?j)" using ih(3) j share_own [OF assms(1), of k] by simp
  have "k div ?n < 64" using Suc.prems div_le_dividend [of k ?n] by linarith
  then have "bit (x ! ?j) 0 \<longleftrightarrow> bit (args ! ?j) (k div ?n)" unfolding xj by (simp add: bit_signed_drop_bit_iff)
  then have "bit (z OR push_bit k (x ! ?j AND 1)) b \<longleftrightarrow> b < Suc k \<and> bit (args ! (b mod ?n)) (b div ?n)" for b
    unfolding set_low_bit ih(2) using Suc.prems by (auto simp: less_Suc_eq)
  moreover have "x[?j := signed_drop_bit 1 (x ! ?j)] = map (\<lambda>j. signed_drop_bit (share ?n (Suc k) j) (args ! j)) [0..<?n]"
    using ih(3) j signed_drop_bit_step by (auto intro!: nth_equalityI simp: nth_list_update share_Suc)
  moreover have "fold (zorder_step ?n) [0..<Suc k] (0, args) = (z OR push_bit k (x ! ?j AND 1), x[?j := signed_drop_bit 1 (x ! ?j)])"
  proof -
    have "fold (zorder_step ?n) [0..<Suc k] (0, args) = zorder_step ?n k (z, x)" using ih(1) by simp
    then show ?thesis by (simp only: zorder_step_def Let_def prod.case)
  qed
  ultimately show ?case by blast
qed

lemma decode_steps:
  assumes "0 < n" "j = i + k * n" "i < n" "sint z \<ge> 0" "\<And>b. bit x b \<longleftrightarrow> b < k \<and> i + b * n < 63 \<and> bit z (i + b * n)"
  shows "bit (unzorder_loop z n j k x) b \<longleftrightarrow> i + b * n < 63 \<and> bit z (i + b * n)"
  using assms
proof (induction z n j k x rule: unzorder_loop.induct)
  case (1 z n j k x)
  show ?case
  proof (cases "j < 63")
    case True
    let ?x = "x OR push_bit k (signed_drop_bit j z AND 1)"
    have "k \<le> k * n" using \<open>0 < n\<close> by simp
    then have "k < 64" using True "1.prems"(2) by linarith
    then have "bit ?x b \<longleftrightarrow> b < k + 1 \<and> i + b * n < 63 \<and> bit z (i + b * n)" for b
      unfolding set_low_bit "1.prems"(5) using "1.prems"(2) True by (auto simp: bit_signed_drop_bit_iff less_Suc_eq)
    moreover have "j + n = i + (k + 1) * n" using "1.prems"(2) by simp
    moreover have "unzorder_loop z n j k x = unzorder_loop z n (j + n) (k + 1) ?x"
      using True "1.prems"(1) by (subst unzorder_loop.simps) simp
    ultimately show ?thesis using "1.IH" [OF conjI] "1.prems"(1,3,4) True by simp
  next
    case False
    then have "b < k" if "i + b * n < 63" 
      using that "1.prems"(1,2) by (metis add_less_cancel_left mult_less_cancel2 not_less order_less_le_trans)
    then show ?thesis using False "1.prems"(5) by (subst unzorder_loop.simps) auto
  qed
qed

lemma share_bits: "0 < n \<Longrightarrow> i < n \<Longrightarrow> i + b * n < 63 \<longleftrightarrow> b < share n 63 i"
proof -
  assume n: "0 < n" "i < n"
  have "b < share n 63 i \<longleftrightarrow> Suc b * n \<le> 63 + (n - 1 - i)" 
    using n unfolding share_def by (metis Suc_le_eq less_eq_div_iff_mult_less_eq)
  also have "\<dots> \<longleftrightarrow> i + b * n < 63" using n by auto
  finally show ?thesis by simp
qed

lemma shifted_out: "signed_drop_bit c w = 0 \<longleftrightarrow> 0 \<le> sint w \<and> sint w < 2 ^ c" for w :: int64
proof -
  have "signed_drop_bit c w = 0 \<longleftrightarrow> sint w div 2 ^ c = 0"
    by (metis drop_bit_eq_div signed_eq_0_iff sint_signed_drop_bit_eq)
  also have "\<dots> \<longleftrightarrow> 0 \<le> sint w \<and> sint w < 2 ^ c" 
    using zero_less_power [of "2 :: int" c] unfolding zdiv_eq_0_iff by linarith
  finally show ?thesis .
qed

lemma shifted_out_bits: "signed_drop_bit c w = 0 \<Longrightarrow> c \<le> b \<Longrightarrow> \<not> bit w b" for w :: int64
proof -
  assume w: "signed_drop_bit c w = 0" "c \<le> b"
  have "\<not> bit (signed_drop_bit c w) (b - c)" unfolding w(1) by simp
  then show ?thesis using w(2) bit_imp_le_length [of w b] by (auto simp: bit_signed_drop_bit_iff split: if_splits)
qed

section \<open>Properties\<close>



end
