(* ===== verification/Bloom.thy ===== *)
theory Bloom
  imports Sqlid
begin

text \<open>
  \<^verbatim>\<open>ext/bloom/bloom.go\<close>: the Bloom-filter virtual table. The bit array lives in a blob of a shadow table, reached through
  SQLite's incremental blob I/O: \<open>openBlob\<close> says whether the blob can be opened, and a one-byte read or write fails
  outside the blob. The sizes of a filter (\<^verbatim>\<open>optimalBytes\<close>, \<^verbatim>\<open>optimalK\<close>) are computed in floating point and are
  arguments here; \<^verbatim>\<open>optimalBytes\<close> is at least 8.
\<close>

unbundle bit_operations_syntax

section \<open>Hashing\<close>

text \<open>\<^verbatim>\<open>hash/fnv\<close>, the 64-bit FNV-1a variant.\<close>

definition fnv64a :: "bytes \<Rightarrow> 64 word" where
  "fnv64a s = fold (\<lambda>c h. (h XOR ucast c) * 1099511628211) s 14695981039346656037"

definition saltA :: bytes where "saltA = [0xc9, 0xf1, 0x0a, 0x4c, 0xb1, 0xc3, 0xeb, 0x96]"
definition saltB :: bytes where "saltB = [0x9e, 0x37, 0x79, 0xb9, 0x7f, 0x4a, 0x7c, 0x15]"

definition kthHash :: "nat \<Rightarrow> bytes \<Rightarrow> 64 word" where
  "kthHash k word = fnv64a (saltA @ word) + of_nat k * fnv64a (saltB @ word)"

section \<open>The table\<close>

record bloomTable =
  bt_hashes :: nat
  bt_bytes :: nat

datatype berror = BColumns | BNoArgument | BOpen | BRead nat | BPanic | BReadOnly | BConstraint

definition bit_of :: "bloomTable \<Rightarrow> nat \<Rightarrow> bytes \<Rightarrow> nat" where
  "bit_of t k word = unat (kthHash k word) mod (8 * bt_bytes t)"

definition bit_mask :: "nat \<Rightarrow> byte" where
  "bit_mask b = push_bit (b mod 8) 1"

text \<open>The loop of \<^verbatim>\<open>Insert\<close>: read the byte, set the bit, write it back.\<close>

fun set_bits :: "bloomTable \<Rightarrow> bytes \<Rightarrow> nat list \<Rightarrow> bytes \<Rightarrow> berror option \<times> bytes" where
  "set_bits t word [] data = (None, data)"
| "set_bits t word (k # ks) data =
     (if bt_bytes t = 0 then (Some BPanic, data)
      else let b = bit_of t k word; bytePos = b div 8
        in if length data \<le> bytePos then (Some (BRead b), data)
           else set_bits t word ks (data[bytePos := data ! bytePos OR bit_mask b]))"

definition bloom_Insert ::
  "(nat \<Rightarrow> bytes) \<Rightarrow> (nat \<Rightarrow> bytes) \<Rightarrow> bool \<Rightarrow> bloomTable \<Rightarrow> driverValue list \<Rightarrow> bytes \<Rightarrow> berror option \<times> bytes" where
  "bloom_Insert formatFloat sprint openBlob t cols data =
     (if length cols < 2 then (Some BColumns, data)
      else let word = AsString formatFloat sprint (cols ! 1)
        in if word = [] then (None, data)
           else if \<not> openBlob then (Some BOpen, data)
           else set_bits t word [0..<bt_hashes t] data)"

definition bloom_Update :: "bytes \<Rightarrow> berror option \<times> bytes" where
  "bloom_Update data = (Some BReadOnly, data)"

definition bloom_Delete :: "bytes \<Rightarrow> berror option \<times> bytes" where
  "bloom_Delete data = (Some BReadOnly, data)"

text \<open>The loop of \<^verbatim>\<open>Filter\<close>: all bits have to be set.\<close>

fun test_bits :: "bloomTable \<Rightarrow> bytes \<Rightarrow> nat list \<Rightarrow> bytes \<Rightarrow> berror + bool" where
  "test_bits t word [] data = Inr True"
| "test_bits t word (k # ks) data =
     (if bt_bytes t = 0 then Inl BPanic
      else let b = bit_of t k word; bytePos = b div 8
        in if length data \<le> bytePos then Inl (BRead b)
           else if data ! bytePos AND bit_mask b = 0 then Inr False
           else test_bits t word ks data)"

record bloomCursor =
  bc_present :: bool
  bc_word :: driverValue
  bc_emitted :: bool

definition bloom_Filter ::
  "(nat \<Rightarrow> bytes) \<Rightarrow> (nat \<Rightarrow> bytes) \<Rightarrow> bool \<Rightarrow> bloomTable \<Rightarrow> driverValue list \<Rightarrow> bytes \<Rightarrow> berror + bloomCursor" where
  "bloom_Filter formatFloat sprint openBlob t args data =
     (case args of
        [] \<Rightarrow> Inl BNoArgument
      | a # _ \<Rightarrow>
          let word = AsString formatFloat sprint a
          in if word = [] then Inr \<lparr>bc_present = False, bc_word = a, bc_emitted = False\<rparr>
             else if \<not> openBlob then Inl BOpen
             else (case test_bits t word [0..<bt_hashes t] data of
                     Inl e \<Rightarrow> Inl e
                   | Inr p \<Rightarrow> Inr \<lparr>bc_present = p, bc_word = a, bc_emitted = False\<rparr>))"

definition bloom_Next :: "bloomCursor \<Rightarrow> bloomCursor" where
  "bloom_Next c = c\<lparr>bc_emitted := True\<rparr>"

definition bloom_Eof :: "bloomCursor \<Rightarrow> bool" where
  "bloom_Eof c \<longleftrightarrow> bc_emitted c \<or> \<not> bc_present c"

section \<open>The bits of a filter\<close>

definition has_bit :: "bytes \<Rightarrow> nat \<Rightarrow> bool" where
  "has_bit data b \<longleftrightarrow> bit (data ! (b div 8)) (b mod 8)"

lemma bit_mask_test: "w AND bit_mask b = 0 \<longleftrightarrow> \<not> bit w (b mod 8)"
proof -
  have "bit_mask b = 2 ^ (b mod 8)" by (simp add: bit_mask_def push_bit_eq_mult)
  then show ?thesis using and_exp_eq_0_iff_not_bit [of w "b mod 8"] by simp
qed

lemma set_bit_has: "b div 8 < length data \<Longrightarrow>
    has_bit (data[b div 8 := data ! (b div 8) OR bit_mask b]) b' \<longleftrightarrow> b' = b \<or> has_bit data b'"
proof -
  assume l: "b div 8 < length data"
  have m: "bit (bit_mask b) (b' mod 8) \<longleftrightarrow> b' mod 8 = b mod 8" 
    unfolding bit_mask_def bit_push_bit_iff bit_1_iff by auto
  show ?thesis
  proof (cases "b' div 8 = b div 8")
    case True
    then have "b' mod 8 = b mod 8 \<longleftrightarrow> b' = b" by (metis div_mult_mod_eq)
    then show ?thesis using True l m by (auto simp: has_bit_def bit_or_iff)
  qed (auto simp: has_bit_def)
qed

definition sized :: "bloomTable \<Rightarrow> bytes \<Rightarrow> bool" where
  "sized t data \<longleftrightarrow> 0 < bt_bytes t \<and> length data = bt_bytes t"

lemma bit_of_range: "sized t data \<Longrightarrow> bit_of t k word div 8 < length data"
proof -
  assume s: "sized t data"
  then have "bit_of t k word < 8 * bt_bytes t" unfolding bit_of_def sized_def by (intro mod_less_divisor) simp
  then show ?thesis using s by (simp add: sized_def)
qed

lemma set_bits_sets:
  assumes "sized t data"
  shows "\<exists>data'. set_bits t word ks data = (None, data') \<and> sized t data' \<and>
    (\<forall>b. has_bit data' b \<longleftrightarrow> has_bit data b \<or> (\<exists>k\<in>set ks. b = bit_of t k word))"
  using assms
proof (induction ks arbitrary: data)
  case (Cons k ks)
  let ?b = "bit_of t k word"
  let ?d = "data[?b div 8 := data ! (?b div 8) OR bit_mask ?b]"
  have r: "?b div 8 < length data" using bit_of_range [OF Cons.prems] .
  have "sized t ?d" using Cons.prems by (simp add: sized_def)
  from Cons.IH [OF this] obtain d' where d: "set_bits t word ks ?d = (None, d')" "sized t d'"
    "\<And>b. has_bit d' b \<longleftrightarrow> has_bit ?d b \<or> (\<exists>k\<in>set ks. b = bit_of t k word)" by blast
  have "set_bits t word (k # ks) data = (None, d')" using d(1) r Cons.prems by (simp add: sized_def Let_def)
  then show ?case using d(2,3) set_bit_has [OF r] by auto
qed simp

lemma test_bits_iff:
  "sized t data \<Longrightarrow> test_bits t word ks data = Inr (\<forall>k\<in>set ks. has_bit data (bit_of t k word))"
  by (induction ks) (use bit_of_range [of t data _ word] in \<open>auto simp: sized_def Let_def has_bit_def bit_mask_test not_le\<close>)

text \<open>A run of inserts, each of which succeeds.\<close>

definition insert_all :: "(nat \<Rightarrow> bytes) \<Rightarrow> (nat \<Rightarrow> bytes) \<Rightarrow> bloomTable \<Rightarrow> driverValue list \<Rightarrow> bytes \<Rightarrow> bytes" where
  "insert_all f g t vs data = fold (\<lambda>v data. snd (bloom_Insert f g True t [VNil, v] data)) vs data"

lemma Insert_step:
  assumes "sized t data"
  shows "\<exists>data'. bloom_Insert f g True t [VNil, v] data = (None, data') \<and> sized t data' \<and>
    (\<forall>b. has_bit data' b \<longleftrightarrow> has_bit data b \<or> (AsString f g v \<noteq> [] \<and> (\<exists>k<bt_hashes t. b = bit_of t k (AsString f g v))))"
proof (cases "AsString f g v = []")
  case False
  then show ?thesis using set_bits_sets [OF assms, of "AsString f g v" "[0..<bt_hashes t]"] by (simp add: bloom_Insert_def Let_def Bex_def)
qed (use assms in \<open>simp add: bloom_Insert_def Let_def\<close>)

lemma insert_all_bits:
  assumes "sized t data"
  shows "sized t (insert_all f g t vs data) \<and> (\<forall>b. has_bit (insert_all f g t vs data) b \<longleftrightarrow>
    has_bit data b \<or> (\<exists>v\<in>set vs. AsString f g v \<noteq> [] \<and> (\<exists>k<bt_hashes t. b = bit_of t k (AsString f g v))))"
  using assms
proof (induction vs arbitrary: data)
  case Nil
  then show ?case by (simp add: insert_all_def)
next
  case (Cons v vs)
  obtain d where d: "bloom_Insert f g True t [VNil, v] data = (None, d)" "sized t d"
    "\<forall>b. has_bit d b \<longleftrightarrow> has_bit data b \<or> (AsString f g v \<noteq> [] \<and> (\<exists>k<bt_hashes t. b = bit_of t k (AsString f g v)))"
    using Insert_step [OF Cons.prems] by blast
  have "insert_all f g t (v # vs) data = insert_all f g t vs d" using d(1) by (simp add: insert_all_def)
  then show ?case using Cons.IH [OF d(2)] d(3) by auto
qed

section \<open>Properties\<close>



end
