(* ===== verification/Spec2Isabelle.thy ===== *)
theory Spec2Isabelle
  imports Vault_Registry Vault_Crash Vault_Compact Cksm Blobstore_Runs Generate_Series Advisory_Lock Memdb Mvcc Pcache Stmt_Cache Sqlid Fuzzy Zorder Closure Bloom
begin

text \<open>
  A model of the storage, locking and caching layers of the gosqlite library (package paths below are relative
  to \<^verbatim>\<open>src/\<close>), with the theorems that make them correct.

  \<^bold>\<open>The program.\<close> gosqlite is a \<^verbatim>\<open>database/sql\<close> driver over a transpiled SQLite. SQLite itself is
  third-party code. What the repository adds, and what is modelled here, is the code SQLite calls back into and
  the stores built on top of it: the dispatcher of Go file systems with its WAL shared memory (\<^verbatim>\<open>vfs\<close>); the file systems
  \<^verbatim>\<open>vfs/vault\<close>, \<^verbatim>\<open>vfs/crypto\<close>, \<^verbatim>\<open>vfs/cksm\<close>, \<^verbatim>\<open>vfs/memdb\<close> and \<^verbatim>\<open>vfs/mvcc\<close>; the page cache \<^verbatim>\<open>pcache\<close>; the token registry through which C
  callbacks find their Go objects (\<^verbatim>\<open>internal/cabi\<close>); the keyring that shares a container between recipients
  (\<^verbatim>\<open>crypto/keyring\<close>); the store of growable objects \<^verbatim>\<open>blobstore\<close>; the prepared-statement cache (\<^verbatim>\<open>stmt_cache.go\<close>), the SQL
  quoting helpers (\<^verbatim>\<open>internal/sqlid\<close>), and five of the extensions under \<^verbatim>\<open>ext\<close>.
  The vault keeps a database file in one container file: pages are compressed and encrypted into runs of blocks,
  a directory maps page numbers to runs, and two superblocks alternate as the root. \<^verbatim>\<open>crypto\<close> and \<^verbatim>\<open>cksm\<close> wrap another file
  system and work on its pages. The in-memory file systems keep a map from offsets to pages; \<^verbatim>\<open>mvcc\<close> keeps one immutable map per
  committed version. The blob store cuts an object into chunks that map to counted blocks of a table, shared between clones and
  versions until one of them is written.

  \<^bold>\<open>Theories and sources.\<close>
  \<^item> \<open>Prelude\<close>, \<open>Hashes\<close>, \<open>Go_Strings\<close>: wrapping 64-bit arithmetic, byte slices, little-endian codecs, block runs as
    multisets of blocks, fixed-width record arrays (locale \<open>fixed_width_codec\<close>), CRC-32C and SHA-256 computed as the
    Go standard library computes them, and the functions of \<^verbatim>\<open>strings\<close> and \<^verbatim>\<open>strconv\<close> the sources call.
  \<^item> \<open>Vault_Format\<close>, \<open>Vault_Validate\<close>, \<open>Vault_Alloc\<close> (\<^verbatim>\<open>vfs/vault/format.go\<close>, \<^verbatim>\<open>options.go\<close>): the superblock, directory and
    segment-index encodings and their round trips; the checks an untrusted file has to pass and what they imply
    over the integers; the block allocator, whose free blocks are a multiset that every operation accounts for.
  \<^item> \<open>Vault_Backing\<close>, \<open>Vault_Container\<close>, \<open>Vault_Store\<close>, \<open>Vault_File\<close>, \<open>Vault_Commit\<close>, \<open>Vault_Crash\<close> (\<^verbatim>\<open>vfs/vault/container.go\<close>,
    \<^verbatim>\<open>codec.go\<close>): the backing file with injected faults and a log of its writes; \<^verbatim>\<open>storePage\<close>, \<^verbatim>\<open>loadPageInto\<close>, \<^verbatim>\<open>readAt\<close>,
    \<^verbatim>\<open>writeAt\<close>, \<^verbatim>\<open>truncate\<close>, \<^verbatim>\<open>writeDirectory\<close>, \<^verbatim>\<open>commit\<close>, \<^verbatim>\<open>sync\<close>; the invariant that no block is owned twice; the
    refinement to a plain byte file; the preservation of the last committed state under every cut of the write log.
  \<^item> \<open>Vault_Compact\<close> (\<^verbatim>\<open>trim.go\<close>, \<^verbatim>\<open>compact_online.go\<close>): trimming and online compaction, with a measure for the loop.
  \<^item> \<open>Keyring\<close> (\<^verbatim>\<open>crypto/keyring\<close>), \<open>Vault_Crypt\<close> (\<^verbatim>\<open>crypt.go\<close>, \<^verbatim>\<open>anchor.go\<close>), \<open>Vault_Open\<close> (\<^verbatim>\<open>vfs.go\<close>): membership, sealing and
    opening of keyslots, the keyslot blocks, key resolution on create and open, and the open sequence itself.
  \<^item> \<open>Vault_Aux\<close>, \<open>Vault_Registry\<close> (\<^verbatim>\<open>vfs.go\<close>, \<^verbatim>\<open>keymgmt.go\<close>): the enciphered journal, WAL and temporary files beside a container; the
    process-wide registry of open containers and reserved paths, as a step relation.
  \<^item> \<open>Advisory_Lock\<close> (\<^verbatim>\<open>vfs/advisorylock.go\<close>): the five-level lock ladder over any number of handles.
  \<^item> \<open>Shm\<close> (\<^verbatim>\<open>vfs/shm.go\<close>), \<open>Vfs_Dispatch\<close> (\<^verbatim>\<open>register.go\<close>, \<^verbatim>\<open>iomethods.go\<close>, \<^verbatim>\<open>errors.go\<close>, \<^verbatim>\<open>interface.go\<close>, \<^verbatim>\<open>wrap.go\<close>): registration, the
    trampolines of every method, shared-memory groups with their regions and locks, and the instrumenting decorator;
    \<open>Vault_Vfs\<close>: the vault seen through the dispatcher.
  \<^item> \<open>Wrapped_Vfs\<close>, \<open>Unit_Cipher\<close>, \<open>Crypto_Vfs\<close> (\<^verbatim>\<open>vfs/crypto\<close>), \<open>Cksm\<close> (\<^verbatim>\<open>vfs/cksm\<close>): the contract of the file system that is wrapped,
    ciphers on whole units, and the read and write paths of the two wrapping file systems.
  \<^item> \<open>Token_Registry\<close> (\<^verbatim>\<open>internal/cabi\<close>), \<open>Mem_Pages\<close> (\<^verbatim>\<open>vfs/internal/memio\<close>), \<open>Mem_Files\<close> (the open and close paths that
    \<^verbatim>\<open>memdb\<close> and \<^verbatim>\<open>mvcc\<close> have in common), \<open>Memdb\<close>, \<open>Mvcc\<close>: the in-memory file systems, as step relations over all handles.
  \<^item> \<open>Blobstore\<close> (\<^verbatim>\<open>blobstore\<close> and \<^verbatim>\<open>Blob.ReadAt\<close>, \<^verbatim>\<open>Blob.WriteAt\<close> of \<^verbatim>\<open>blob.go\<close>): the tables and every operation on them;
    \<open>Blobstore_Inv\<close>: reference counts and content hashes; \<open>Blobstore_Content\<close>: the bytes \<open>obyte\<close> of an object and how writing, reading and
    truncating act on them; \<open>Blobstore_Objects\<close>: clones, deletion, conversion; \<open>Blobstore_Props\<close>, \<open>Blobstore_Runs\<close>: the exported
    operations, alone and over whole runs of a store.
  \<^item> \<open>Pcache\<close> (\<^verbatim>\<open>pcache\<close>), \<open>Stmt_Cache\<close> (\<^verbatim>\<open>stmt_cache.go\<close>), \<open>Sqlid\<close> (\<^verbatim>\<open>internal/sqlid\<close>).
  \<^item> \<open>Fuzzy\<close> (\<^verbatim>\<open>ext/fuzzy\<close>), \<open>Zorder\<close> (\<^verbatim>\<open>ext/zorder\<close>), \<open>Closure\<close> (\<^verbatim>\<open>ext/closure\<close>), \<open>Bloom\<close> (\<^verbatim>\<open>ext/bloom\<close>), \<open>Generate_Series\<close> (\<^verbatim>\<open>ext/series\<close>).

  \<^bold>\<open>How code becomes definitions.\<close> A Go struct is a record and each of its methods a function from the old state to
  the result and the new state; an \<^verbatim>\<open>error\<close> result is \<open>Inl\<close> of an error value, a panic of the code is an error value
  of its own. \<^verbatim>\<open>uint64\<close> arithmetic that the code does not bound is written with the wrapping operations
  of \<open>Prelude\<close> (\<open>add64\<close>, \<open>mul64\<close>, \<open>wrap_int64\<close>, ...). A mutex-protected method is one atomic step; concurrency is the arbitrary
  interleaving of such steps in an inductive relation (\<open>lock_reachable\<close>, \<open>mvcc_reachable\<close>, \<open>memdb_reachable\<close>, the runs of
  \<open>Vfs_Dispatch\<close>, \<open>Vault_Registry\<close>, \<open>Pcache\<close> and \<open>Stmt_Cache\<close>, \<open>bstep\<close> of \<open>Blobstore_Runs\<close>). Go maps are association lists with
  distinct keys. An SQL table is an association list from its key to its columns and an SQL statement the function it computes on it.

  \<^bold>\<open>Interfaces.\<close> \<open>block_allocator\<close> is what the storage engine needs of the allocator, \<open>byte_store\<close> what it needs of the backing
  file, \<open>fixed_width_codec\<close> what the array encodings need of an element encoding, \<open>prefix_reader\<close> what the keyslot parser
  needs of each field reader, \<open>token_table\<close> what the in-memory file systems need of the registry. Each is a locale
  interpreted on the definitions that model the code, and the lemmas of its clients are proved inside it once.

  \<^bold>\<open>What is shown.\<close> For the vault: reads, writes and truncations act as on a plain file (C2, C9, C33), commit and
  compaction do not change that file whichever step fails (C3, C4), a crash leaves the committed
  pages readable (C1), an accepted file satisfies the invariant all of this rests on (C34, C37), the compaction loop
  ends (C36), a path has one container (C13), the files beside it are enciphered as plain files (C27); a page that fails its
  authentication reaches SQLite as zeros (C10). For the keyring: parties recover the key (C5), and a pinned master has signed what is
  accepted (C22). For the blob store: writes, reads, truncation, deletion and conversion act on the bytes of one object only (C6, C14
  to C16, C18), versions never change (C7) and hold what the object held (C17); alternating stores with and without
  deduplication can misread (C19), and a truncation near the end of the offset range erases (\<open>blob_truncate_overflow_erases\<close>).
  For the dispatcher: WAL locks exclude each other (C8), shared memory is freed exactly once (C24), the file system of an open file stays
  registered (C23). For \<^verbatim>\<open>crypto\<close> and \<^verbatim>\<open>cksm\<close>: writes act as on a plain file (C11), damage is detected (C12), and two stackings that do not
  work (C25, C26). For \<^verbatim>\<open>mvcc\<close>: snapshot isolation and no lost update (C20, C35); for the locks: mutual exclusion and the
  writer's priority (C38, C39); for the caches: bound, LRU order, pinned pages, no leak (C21, C40). For the extensions: edit
  distance, transitive closure, series, Morton codes and Bloom filters compute what they name (C28 to C32). Further theorems without a
  number stand in the theories beside these, among them encodings, quoting, the allocator and \<^verbatim>\<open>memdb\<close>.

  \<^bold>\<open>Bounds.\<close> Statements about offsets assume the room the 64-bit arithmetic has: \<open>room c n\<close> says that the
  allocator can grow by \<open>n\<close> blocks before its block numbers wrap at 2^64, page counts are below 2^54 and file lengths below
  2^63. \<open>evict_while\<close> of \<open>Pcache\<close> takes as fuel the length of the LRU list, which is the number of pages it can give up, so it
  never runs out. \<open>convertChunks\<close> of \<open>Blobstore\<close> takes one more than the number of chunk mappings, and C18 shows that this is enough;
  C30 shows that a scan ends within the fuel of \<open>series_rows\<close> that the number of its terms gives. \<open>Crypto_Vfs\<close> bounds the depth of
  calls from one layer into the next: over a file system that keeps its contract two nested calls are enough, and C25 is about
  the stack for which no depth is. \<open>compactOnline\<close> and the loops of \<open>readAt\<close>, \<open>writeAt\<close> and \<open>chunkSpans\<close> are total functions
  with a measure. \<^verbatim>\<open>P\<close> in \<open>Memdb\<close> and \<open>Mvcc\<close> is the page size SQLite uses for every access to a database file.

  \<^bold>\<open>Parameters.\<close> Code outside the repository is an argument: age, ed25519 and SSH key handling are the record \<open>cryptoLib\<close> (with
  \<open>ed25519_correct\<close> and \<open>age_correct\<close> as the documented laws), the block ciphers the record \<open>cipherLib\<close>, the methods of a wrapped file
  system \<open>wmethods\<close> with their contract, the compressor of the blob store \<open>azlib\<close> with \<open>az_ok\<close> (decoding inverts encoding), page ciphers
  and the compressor of the vault are fields of the container; random bytes, clocks and \<^verbatim>\<open>calloc\<close> addresses are supplied by the caller. The
  theorems on deduplication name the set \<open>T\<close> of stored forms and assume that SHA-256 does not collide on it.

  \<^bold>\<open>Not modelled.\<close> The driver proper (\<^verbatim>\<open>conn.go\<close>, \<^verbatim>\<open>stmt.go\<close>, \<^verbatim>\<open>rows.go\<close>, \<^verbatim>\<open>vtab.go\<close> and the like) marshals between Go and the
  transpiled library, whose behaviour is not part of the sources; \<^verbatim>\<open>fts\<close>, \<^verbatim>\<open>vec\<close>, \<^verbatim>\<open>gorm\<close> and \<^verbatim>\<open>sqlitex\<close> issue SQL
  to it. Of the vault, offline compaction, snapshots and the key-management drivers are left out; of the blob store, the creation of its
  tables and the queries that only list them; of the extensions, those that are scalar wrappers or use floating-point arithmetic.
\<close>

section \<open>A recipient reopens what a container's creator sealed\<close>

lemma create_recipients_seals:
  assumes "create_recipients kr kc c = (None, c')"
  obtains dek blob off c1 where
    "SealKeyslot (kr_lib kr) (fst (kr_ageRnd kr)) (snd (kr_ageRnd kr)) dek
       \<lparr>Masters = kc_masters kc, Writers = kc_writers kc, Members = kc_recipients kc\<rparr> (kc_signWith kc) = Inr blob"
    "writeKeyslot blob c = (Inr off, c1)" "c_dek c' = dek" "c_keyslotBlob c' = blob" "c_keyslotOffset c' = off" "c_back c' = c_back c1"
    "c_blockSize c' = c_blockSize c1"
  using assms by (auto simp: create_recipients_def Let_def split: sum.splits prod.splits if_splits)

lemma readKeyslot_cong:
  assumes "c_back c' = c_back c" "c_blockSize c' = c_blockSize c"
  shows "readKeyslot off fs c' = readKeyslot off fs c"
  unfolding readKeyslot_def assms ..

text \<open>C5: Sharing a container works end to end: when a container is created for a set of masters, writers and
  recipients, every party that holds an identity matching one of them recovers from the file the same data key
  the creator encrypts with, and the authorized writer keys; a reader may in addition insist on the master that
  signed. The keyslot is sealed by the keyring, written to blocks of the container and read back from them.\<close>

theorem recipient_recovers_key:
  assumes "create_recipients kr kc c = (None, c')"
    and "container_inv c leak" "readable c" "room c (length (c_keyslotBlob c') + 27)"
    and "c_keyslotBlob c' \<noteq> []" "length (c_keyslotBlob c') \<le> maxKeyslotLen" "length (bk_data (c_back c')) < 2 ^ 63"
    and "ed25519_correct (kr_lib kr)" "age_correct (kr_lib kr) opens"
    and "wf_membership \<lparr>Masters = kc_masters kc, Writers = kc_writers kc, Members = kc_recipients kc\<rparr>"
    and "i \<in> set (kc_identities kc')"
    and "r \<in> set (recipients \<lparr>Masters = kc_masters kc, Writers = kc_writers kc, Members = kc_recipients kc\<rparr>)"
    and "opens (ageIdentity i) (rc_r r)"
    and "kc_masters kc' = [] \<or> kc_masters kc \<noteq> [] \<and>
      (\<exists>mi t. kc_signWith kc = Some mi \<and> t \<in> set (kc_masters kc') \<and> mr_pub t = masterPub (kr_lib kr) mi)"
    and "sb_keyslotOffset sb = c_keyslotOffset c'" "sb_keyslotOffset sb \<noteq> 0"
  shows "\<exists>nb c''. resolve_dek kr kc' sb (length (bk_data (c_back c'))) c' = Inr (c_dek c', nb, c'') \<and>
    c_writers c'' = map mr_pub (kc_writers kc)"
proof -
  let ?m = "\<lparr>Masters = kc_masters kc, Writers = kc_writers kc, Members = kc_recipients kc\<rparr>"
  from create_recipients_seals [OF assms(1)] obtain dek blob off c1 where s:
    "SealKeyslot (kr_lib kr) (fst (kr_ageRnd kr)) (snd (kr_ageRnd kr)) dek ?m (kc_signWith kc) = Inr blob"
    "writeKeyslot blob c = (Inr off, c1)" "c_dek c' = dek" "c_keyslotBlob c' = blob" "c_keyslotOffset c' = off"
    "c_back c' = c_back c1" "c_blockSize c' = c_blockSize c1" by metis
  have bl: "0 < length blob" "length blob \<le> maxKeyslotLen" "length blob < 2 ^ 32" using assms(5,6) s(4) by (auto simp: maxKeyslotLen_def)
  obtain nb where "readKeyslot off (length (bk_data (c_back c1))) c1 = Inr (blob, nb)"
    using keyslot_block_reads [OF assms(2) _ assms(3) bl(1,2) s(2)] assms(4,7) s(4,6) by auto
  then have rk: "readKeyslot off (length (bk_data (c_back c'))) c' = Inr (blob, nb)" using readKeyslot_cong [OF s(6,7)] s(6) by simp
  have "OpenKeyslot (kr_lib kr) blob (kc_masters kc') (kc_identities kc') = Inr (dek, map mr_pub (Writers ?m))"
    using assms(14) by (intro open_sealed [OF assms(8-10) s(1) bl(3) assms(11-13)]) auto
  moreover have "kc_identities kc' \<noteq> []" using assms(11) by auto
  ultimately show ?thesis using rk assms(15,16) s(3,5) by (simp add: resolve_dek_def)
qed

text \<open>One master who creates the container on an empty file, and one member who opens it.\<close>

definition teamKeyring :: keyring where
  "teamKeyring = noKeyring\<lparr>kr_newCipher := (\<lambda>_ _. Inr plainCipher), kr_random := (\<lambda>_. Inr [42])\<rparr>"

definition teamConfig :: keyConfig where
  "teamConfig = noKey\<lparr>kc_masters := Masters demoMembership, kc_recipients := Members demoMembership, kc_signWith := Some demoMaster\<rparr>"

lemma team_create:
  "\<exists>c'. create_recipients teamKeyring teamConfig freshContainer = (None, c') \<and> c_keyslotBlob c' \<noteq> [] \<and>
     length (c_keyslotBlob c') \<le> 1000 \<and> c_keyslotOffset c' = 1024 \<and> length (bk_data (c_back c')) < 2 ^ 63"
proof -
  have m: "\<lparr>Masters = kc_masters teamConfig, Writers = kc_writers teamConfig, Members = kc_recipients teamConfig\<rparr> = demoMembership"
    by (simp add: teamConfig_def noKey_def demoMembership_def)
  obtain blob where b: "SealKeyslot demoLib [] [] [42] demoMembership (Some demoMaster) = Inr blob" "blob \<noteq> []" "length blob \<le> 1000"
    using demo_seal by blast
  obtain nb where nb: "blocksFor (26 + length blob) 512 = Inr nb" "26 + length blob \<le> nb * 512" "nb \<le> 26 + length blob + 1"
    using blocksFor_nb [of 512 "26 + length blob"] b(3) by auto
  have a: "alloc nb (newAllocator [] superblockBlocks) = Inr (2, \<lparr>al_free = [], al_highWater = 2 + nb\<rparr>)"
    using nb b(3) by (auto simp: alloc_def newAllocator_def coalesce_def superblockBlocks_def add64_def)
  have k: "length keyslotBanner = 22" by (simp add: keyslotBanner_def)
  obtain c1 where w: "writeKeyslot blob freshContainer = (Inr 1024, c1)" "length (bk_data (c_back c1)) \<le> 1024 + nb * 512"
    using nb(1,2) b(2) a by (auto simp: writeKeyslot_def k fresh_facts WriteAt_def emptyBacking_def length_file_write Let_def)
  have "nb * 512 \<le> 1027 * 512" using nb(3) b(3) by (intro mult_le_mono1) simp
  then have "length (bk_data (c_back c1)) < 2 ^ 63" using w(2) by simp
  then show ?thesis using b w(1) m
    by (auto simp: create_recipients_def teamKeyring_def noKeyring_def teamConfig_def noKey_def Let_def)
qed

theorem recipient_recovers_key_witness:
  "\<exists>c' nb c''. create_recipients teamKeyring teamConfig freshContainer = (None, c') \<and>
     resolve_dek teamKeyring (noKey\<lparr>kc_identities := [PlainIdentity [8]]\<rparr>) (emptySuperblock\<lparr>sb_keyslotOffset := 1024\<rparr>)
       (length (bk_data (c_back c'))) c' = Inr (c_dek c', nb, c'')"
proof -
  obtain c' where c: "create_recipients teamKeyring teamConfig freshContainer = (None, c')" "c_keyslotBlob c' \<noteq> []"
      "length (c_keyslotBlob c') \<le> 1000" "c_keyslotOffset c' = 1024" "length (bk_data (c_back c')) < 2 ^ 63"
    using team_create by blast
  have m: "\<lparr>Masters = kc_masters teamConfig, Writers = kc_writers teamConfig, Members = kc_recipients teamConfig\<rparr> = demoMembership"
    by (simp add: teamConfig_def noKey_def demoMembership_def)
  have l: "kr_lib teamKeyring = demoLib" by (simp add: teamKeyring_def noKeyring_def)
  have "room freshContainer (length (c_keyslotBlob c') + 27)" "length (c_keyslotBlob c') \<le> maxKeyslotLen"
    using c(3) fresh_facts(3) by (auto simp: maxKeyslotLen_def)
  from recipient_recovers_key [OF c(1) fresh_inv fresh_facts(1) this(1) c(2) this(2) c(5), unfolded l m, OF demoLib_correct demo_wf,
      of "PlainIdentity [8]" "noKey\<lparr>kc_identities := [PlainIdentity [8]]\<rparr>", OF _ demo_party, of "emptySuperblock\<lparr>sb_keyslotOffset := 1024\<rparr>"]
  show ?thesis using c(1,4) by (simp add: noKey_def) blast
qed

end
